(* ===== verification/HL_Prelude.thy ===== *)
theory HL_Prelude
  imports "HOL-Library.Monad_Syntax" "HOL-Library.Word"
begin

section \<open>Shared vocabulary of the Highlander development\<close>

text \<open>
  What every component shares: the machine size type, the C character classes, byte
  buffers with bounds-checked access, the heap allocator as a source of decisions, and the
  generic lemmas on them.

  Conventions of the whole library.
  \<^item> A C function that may leave the defined behaviour of C (an access outside an object, a
    null or dangling pointer, a failed \<open>assert\<close>, \<open>abort\<close>, \<open>die\<close>) has a result of type
    \<open>'a option\<close>; \<open>None\<close> is that fault, and for a loop also that it never returns. So a
    theorem \<open>f x = Some y\<close> is memory safety, termination and the result in one.
  \<^item> \<open>status_t\<close> (\<open>src/meta/src/meta_common.h\<close>) is a two-valued pointer: \<open>success\<close> and \<open>failure\<close>.
  \<^item> \<open>size_t\<close> is a 64-bit unsigned integer, kept as a \<open>nat\<close> with the wrap-around written
    out by \<open>szt\<close> and \<open>szsub\<close> where the code computes with it.
  \<^item> \<open>malloc\<close>, \<open>calloc\<close> and \<open>realloc\<close> consult an \<open>allocator\<close>: the list of the outcomes of the
    next calls. Theorems hold for every such list, hence for every pattern of failures.
    A request of more than \<open>PTRDIFF_MAX\<close> bytes always fails, as it does in the C library.
\<close>

named_theorems buf_simps \<open>bounds-checked buffer accesses that stay inside the buffer\<close>

subsection \<open>Status values and errno\<close>

type_synonym status_t = bool

abbreviation (input) success :: status_t where "success \<equiv> True"
abbreviation (input) failure :: status_t where "failure \<equiv> False"

datatype errno_t = E0 | EINVAL | ERANGE | ENOSPC | ENOENT | ENOMEM | E2BIG | EAGAIN | EDEADLK | EPERM | EPIPE | EIO

subsection \<open>The size type\<close>

type_synonym size_t = nat

definition SIZE_MOD :: nat where "SIZE_MOD = 2 ^ 64"
definition PTRDIFF_MAX :: nat where "PTRDIFF_MAX = 2 ^ 63 - 1"

text \<open>The value a \<open>size_t\<close> computation leaves: addition, multiplication and subtraction wrap.\<close>

definition szt :: "nat \<Rightarrow> size_t" where
  "szt n = n mod SIZE_MOD"

definition szsub :: "size_t \<Rightarrow> size_t \<Rightarrow> size_t" where
  "szsub a b = (a + (SIZE_MOD - b mod SIZE_MOD)) mod SIZE_MOD"

lemma SIZE_MOD_pos [simp]: "0 < SIZE_MOD"
  by (simp add: SIZE_MOD_def)

lemma PTRDIFF_SIZE: "2 * PTRDIFF_MAX + 2 = SIZE_MOD"
  by (simp add: PTRDIFF_MAX_def SIZE_MOD_def)

lemma szt_id [simp]: "n < SIZE_MOD \<Longrightarrow> szt n = n"
  by (simp add: szt_def)

lemma szt_less [simp]: "szt n < SIZE_MOD"
  by (simp add: szt_def)

lemma szsub_le: "b \<le> a \<Longrightarrow> a < SIZE_MOD \<Longrightarrow> szsub a b = a - b"
proof -
  assume ba: "b \<le> a" and a: "a < SIZE_MOD"
  have b: "b mod SIZE_MOD = b" using ba a by simp
  have "a + (SIZE_MOD - b) = (a - b) + SIZE_MOD" using ba a by simp
  then have "szsub a b = ((a - b) + SIZE_MOD) mod SIZE_MOD" by (simp only: szsub_def b)
  then show ?thesis using a by simp
qed

subsection \<open>Characters\<close>

abbreviation NUL :: char where "NUL \<equiv> CHR 0x00"

abbreviation code :: "char \<Rightarrow> nat" where "code c \<equiv> of_char c"

text \<open>The classes of \<open>ctype.h\<close> in the C locale.\<close>

definition isspace :: "char \<Rightarrow> bool" where
  "isspace c \<longleftrightarrow> code c = 32 \<or> (9 \<le> code c \<and> code c \<le> 13)"

definition isdigit :: "char \<Rightarrow> bool" where
  "isdigit c \<longleftrightarrow> 48 \<le> code c \<and> code c \<le> 57"

definition isupper :: "char \<Rightarrow> bool" where
  "isupper c \<longleftrightarrow> 65 \<le> code c \<and> code c \<le> 90"

definition islower :: "char \<Rightarrow> bool" where
  "islower c \<longleftrightarrow> 97 \<le> code c \<and> code c \<le> 122"

definition isxdigit :: "char \<Rightarrow> bool" where
  "isxdigit c \<longleftrightarrow> isdigit c \<or> (65 \<le> code c \<and> code c \<le> 70) \<or> (97 \<le> code c \<and> code c \<le> 102)"

definition tolower :: "char \<Rightarrow> char" where
  "tolower c = (if isupper c then char_of (code c + 32) else c)"

definition toupper :: "char \<Rightarrow> char" where
  "toupper c = (if islower c then char_of (code c - 32) else c)"

lemmas ctype_defs = isspace_def isdigit_def isupper_def islower_def isxdigit_def

lemma NUL_classes [simp]: "\<not> isspace NUL" "\<not> isdigit NUL" "\<not> isupper NUL" "\<not> islower NUL" "\<not> isxdigit NUL"
  by (simp_all add: ctype_defs)

lemma code_toupper: "islower c \<Longrightarrow> code (toupper c) = code c - 32"
proof -
  assume "islower c"
  then have le: "code c \<le> 122" and t: "toupper c = char_of (code c - 32)"
    by (simp_all add: islower_def toupper_def)
  from le have "code c - 32 < 256" by linarith
  with t show ?thesis by simp
qed

lemma code_tolower: "isupper c \<Longrightarrow> code (tolower c) = code c + 32"
  by (simp add: tolower_def isupper_def)

lemma tolower_idem [simp]: "tolower (tolower c) = tolower c"
proof (cases "isupper c")
  case True
  then have "\<not> isupper (tolower c)" using code_tolower [OF True] by (simp add: isupper_def)
  then show ?thesis by (simp add: tolower_def)
qed (simp add: tolower_def)

lemma tolower_NUL [simp]: "tolower c = NUL \<longleftrightarrow> c = NUL"
proof (cases "isupper c")
  case True
  from code_tolower [OF True] True have "code (tolower c) \<noteq> code NUL" by (simp add: isupper_def)
  with True show ?thesis by auto
qed (simp add: tolower_def)

lemma toupper_NUL [simp]: "toupper c = NUL \<longleftrightarrow> c = NUL"
proof (cases "islower c")
  case True
  from code_toupper [OF True] True have "code (toupper c) \<noteq> code NUL" by (simp add: islower_def)
  with True show ?thesis by auto
qed (simp add: toupper_def)

subsection \<open>C strings\<close>

text \<open>
  A \<open>const char *\<close> argument is the list of its characters before the terminator; a string
  inside a byte buffer is read up to its first NUL.
\<close>

definition c_string :: "string \<Rightarrow> bool" where
  "c_string s \<longleftrightarrow> NUL \<notin> set s"

definition cstr_at :: "char list \<Rightarrow> nat \<Rightarrow> string option" where
  "cstr_at buf i = (if NUL \<in> set (drop i buf) then Some (takeWhile (\<lambda>c. c \<noteq> NUL) (drop i buf)) else None)"

text \<open>\<open>strcmp\<close> and \<open>strcasecmp\<close> are used by the code for equality only.\<close>

definition strcmp0 :: "string \<Rightarrow> string \<Rightarrow> bool" where
  "strcmp0 a b \<longleftrightarrow> a = b"

definition strcasecmp0 :: "string \<Rightarrow> string \<Rightarrow> bool" where
  "strcasecmp0 a b \<longleftrightarrow> map tolower a = map tolower b"

definition strspn :: "string \<Rightarrow> string \<Rightarrow> nat" where
  "strspn s acc = length (takeWhile (\<lambda>c. c \<in> set acc) s)"

definition strcspn :: "string \<Rightarrow> string \<Rightarrow> nat" where
  "strcspn s rej = length (takeWhile (\<lambda>c. c \<notin> set rej) s)"

fun strchr :: "string \<Rightarrow> char \<Rightarrow> nat option" where
  "strchr [] c = None"
| "strchr (x # xs) c = (if x = c then Some 0 else map_option Suc (strchr xs c))"

fun strstr :: "string \<Rightarrow> string \<Rightarrow> nat option" where
  "strstr [] pat = (if pat = [] then Some 0 else None)"
| "strstr (x # xs) pat = (if take (length pat) (x # xs) = pat then Some 0 else map_option Suc (strstr xs pat))"

lemma c_string_simps [simp]:
  "c_string []" "c_string (x # xs) \<longleftrightarrow> x \<noteq> NUL \<and> c_string xs"
  "c_string (xs @ ys) \<longleftrightarrow> c_string xs \<and> c_string ys" "c_string (rev xs) \<longleftrightarrow> c_string xs"
  by (auto simp: c_string_def)

lemma c_string_take [intro]: "c_string xs \<Longrightarrow> c_string (take n xs)"
  by (auto simp: c_string_def dest: in_set_takeD)

lemma c_string_drop [intro]: "c_string xs \<Longrightarrow> c_string (drop n xs)"
  by (auto simp: c_string_def dest: in_set_dropD)

lemma takeWhile_c_string: "c_string s \<Longrightarrow> takeWhile (\<lambda>c. c \<noteq> NUL) s = s"
  by (induction s) auto

lemma takeWhile_NUL: "c_string v \<Longrightarrow> takeWhile (\<lambda>c. c \<noteq> NUL) (v @ NUL # rest) = v"
  by (induction v) auto

lemma strchr_Some:
  "strchr s c = Some i \<Longrightarrow> i < length s \<and> s ! i = c \<and> c \<notin> set (take i s)"
proof (induction s arbitrary: i)
  case (Cons x xs)
  then show ?case by (auto split: if_splits simp: nth_Cons' take_Cons')
qed simp

lemma strchr_None: "strchr s c = None \<longleftrightarrow> c \<notin> set s"
  by (induction s) auto

lemma strstr_Some:
  "strstr s p = Some i \<Longrightarrow> i + length p \<le> length s \<and> take (length p) (drop i s) = p"
proof (induction s arbitrary: i)
  case (Cons x xs)
  show ?case
  proof (cases "take (length p) (x # xs) = p")
    case True
    then have "length p \<le> length (x # xs)" by (metis length_take min.cobounded1)
    with True Cons.prems show ?thesis by simp
  next
    case False
    with Cons.prems obtain j where "strstr xs p = Some j" "i = Suc j" by auto
    with Cons.IH show ?thesis by simp
  qed
qed (auto split: if_splits)

lemma strstr_None:
  "strstr s p = None \<Longrightarrow> j \<le> length s \<Longrightarrow> take (length p) (drop j s) \<noteq> p"
proof (induction s arbitrary: j)
  case (Cons x xs)
  then show ?case by (cases j) (auto split: if_splits)
qed (auto split: if_splits)

subsection \<open>Byte buffers\<close>

text \<open>
  A buffer is the list of the bytes of one allocated object. A read or a write outside the
  object is a fault.
\<close>

definition rd :: "'a list \<Rightarrow> nat \<Rightarrow> nat \<Rightarrow> 'a list option" where
  "rd buf off n = (if off + n \<le> length buf then Some (take n (drop off buf)) else None)"

definition wr :: "'a list \<Rightarrow> nat \<Rightarrow> 'a list \<Rightarrow> 'a list option" where
  "wr buf off bs = (if off + length bs \<le> length buf
     then Some (take off buf @ bs @ drop (off + length bs) buf) else None)"

definition memmove :: "'a list \<Rightarrow> nat \<Rightarrow> nat \<Rightarrow> nat \<Rightarrow> 'a list option" where
  "memmove buf dst src n = do { bs \<leftarrow> rd buf src n; wr buf dst bs }"

definition get_at :: "'a list \<Rightarrow> nat \<Rightarrow> 'a option" where
  "get_at buf i = (if i < length buf then Some (buf ! i) else None)"

definition put_at :: "'a list \<Rightarrow> nat \<Rightarrow> 'a \<Rightarrow> 'a list option" where
  "put_at buf i x = (if i < length buf then Some (buf[i := x]) else None)"

lemma get_at_Some [buf_simps]: "i < length buf \<Longrightarrow> get_at buf i = Some (buf ! i)"
  by (simp add: get_at_def)

lemma put_at_Some [buf_simps]: "i < length buf \<Longrightarrow> put_at buf i x = Some (buf[i := x])"
  by (simp add: put_at_def)

lemma rd_Some [buf_simps]: "off + n \<le> length buf \<Longrightarrow> rd buf off n = Some (take n (drop off buf))"
  by (simp add: rd_def)

lemma wr_Some [buf_simps]:
  "off + length bs \<le> length buf \<Longrightarrow> wr buf off bs = Some (take off buf @ bs @ drop (off + length bs) buf)"
  by (simp add: wr_def)

lemma wr_length: "wr buf off bs = Some buf' \<Longrightarrow> length buf' = length buf"
  by (auto simp: wr_def split: if_splits)

lemma put_at_wr: "put_at buf i x = wr buf i [x]"
  by (simp add: put_at_def wr_def upd_conv_take_nth_drop)

lemma wr_append: "wr buf off (xs @ ys) = do { b \<leftarrow> wr buf off xs; wr b (off + length xs) ys }"
  by (auto simp: wr_def min_absorb2 ac_simps)

lemma memmove_Some [buf_simps]:
  "src + n \<le> length buf \<Longrightarrow> dst + n \<le> length buf \<Longrightarrow>
   memmove buf dst src n = Some (take dst buf @ take n (drop src buf) @ drop (dst + n) buf)"
  by (simp add: memmove_def rd_def wr_def)

lemma memmove_None: "length buf < src + n \<Longrightarrow> memmove buf dst src n = None"
  by (simp add: memmove_def rd_def)

subsection \<open>The allocator\<close>

record allocator =
  decisions :: "bool list"
  junk :: "nat \<Rightarrow> char"

text \<open>Whether the next allocation of \<open>n\<close> bytes succeeds, and what is left of the decisions.\<close>

definition try_alloc :: "size_t \<Rightarrow> allocator \<Rightarrow> bool \<times> allocator" where
  "try_alloc n a = (if PTRDIFF_MAX < n then (False, a)
     else case decisions a of [] \<Rightarrow> (True, a) | b # bs \<Rightarrow> (b, a\<lparr>decisions := bs\<rparr>))"

text \<open>The bytes of a fresh object have no determined value: \<open>junk\<close> chooses them.\<close>

definition fresh_bytes :: "size_t \<Rightarrow> allocator \<Rightarrow> char list" where
  "fresh_bytes n a = map (junk a) [0..<n]"

definition realloc_bytes :: "size_t \<Rightarrow> char list \<Rightarrow> allocator \<Rightarrow> char list" where
  "realloc_bytes n buf a = take n buf @ fresh_bytes (n - length buf) a"

definition no_oom :: allocator where
  "no_oom = \<lparr>decisions = [], junk = (\<lambda>_. CHR ''?'')\<rparr>"

lemma length_fresh_bytes [simp]: "length (fresh_bytes n a) = n"
  by (simp add: fresh_bytes_def)

lemma length_realloc_bytes [simp]: "length (realloc_bytes n buf a) = n"
  by (simp add: realloc_bytes_def)

lemma realloc_bytes_grow: "length buf \<le> n \<Longrightarrow> realloc_bytes n buf a = buf @ fresh_bytes (n - length buf) a"
  by (simp add: realloc_bytes_def)

lemma try_alloc_le: "try_alloc n a = (True, a') \<Longrightarrow> n \<le> PTRDIFF_MAX"
  by (auto simp: try_alloc_def split: if_splits)

lemma try_alloc_no_oom: "decisions a = [] \<Longrightarrow> n \<le> PTRDIFF_MAX \<Longrightarrow> try_alloc n a = (True, a)"
  by (simp add: try_alloc_def)

text \<open>Ending a chain of fallible calls with the status of the last one.\<close>

lemma bind_status [simp]:
  "x \<bind> (\<lambda>(st, s, m). if st then Some (success, s, m) else Some (failure, s, m)) = x"
  by (cases x) auto

subsection \<open>The interface of a sink\<close>

text \<open>
  What a producer relies on: \<open>put\<close> appends what an element stands for (\<open>img\<close>) or reports
  failure and leaves the sink as it was; it always returns. Growable strings and linked lists
  provide it; the composed writers of the code (several puts in a row or in a loop, stopping at
  the first failure) are clients.
\<close>

locale sink =
  fixes put :: "'s \<Rightarrow> 'e \<Rightarrow> 'm \<Rightarrow> (status_t \<times> 's \<times> 'm) option"
    and holds :: "'s \<Rightarrow> 'b list \<Rightarrow> bool"
    and img :: "'e \<Rightarrow> 'b list"
    and fits :: "'e \<Rightarrow> bool"
  assumes put_returns:
    "holds s t \<Longrightarrow> fits u \<Longrightarrow> \<exists>st s' m'. put s u m = Some (st, s', m') \<and> holds s' (if st then t @ img u else t)"
begin

primrec put_all :: "'s \<Rightarrow> 'e list \<Rightarrow> 'm \<Rightarrow> (status_t \<times> 's \<times> 'm) option" where
  "put_all s [] m = Some (success, s, m)"
| "put_all s (u # us) m = put s u m \<bind> (\<lambda>(st, s, m). if st then put_all s us m else Some (failure, s, m))"

lemma put_all_returns:
  "holds s t \<Longrightarrow> \<forall>u \<in> set us. fits u \<Longrightarrow>
   \<exists>st s' m' k. put_all s us m = Some (st, s', m') \<and> k \<le> length us \<and> (st \<longleftrightarrow> k = length us) \<and>
     holds s' (t @ concat (map img (take k us)))"
proof (induction us arbitrary: s t m)
  case Nil
  then show ?case by auto
next
  case (Cons u us)
  then obtain st s' m' where p: "put s u m = Some (st, s', m')" "holds s' (if st then t @ img u else t)"
    using put_returns [of s t u m] by auto
  show ?case
  proof (cases st)
    case True
    with Cons.IH [of s' "t @ img u" m'] p(2) Cons.prems(2)
    obtain st' s'' m'' k where "put_all s' us m' = Some (st', s'', m'')" "k \<le> length us"
      "st' \<longleftrightarrow> k = length us" "holds s'' ((t @ img u) @ concat (map img (take k us)))" by auto
    with True p(1) show ?thesis by (auto intro!: exI [of _ "Suc k"])
  next
    case False
    with p show ?thesis by (auto intro!: exI [of _ 0])
  qed
qed

end

text \<open>A sink that does not fail while the memory lasts.\<close>

locale sure_sink = sink put holds img fits
  for put :: "'s \<Rightarrow> 'e \<Rightarrow> 'm \<Rightarrow> (status_t \<times> 's \<times> 'm) option"
    and holds :: "'s \<Rightarrow> 'b list \<Rightarrow> bool"
    and img :: "'e \<Rightarrow> 'b list"
    and fits :: "'e \<Rightarrow> bool" +
  fixes ample :: "'m \<Rightarrow> bool"
  assumes put_succeeds: "ample m \<Longrightarrow> put s u m = Some (st, s', m') \<Longrightarrow> st \<and> ample m'"
begin

lemma put_all_succeeds: "ample m \<Longrightarrow> put_all s us m = Some (st, s', m') \<Longrightarrow> st"
proof (induction us arbitrary: s m)
  case (Cons u us)
  then obtain st1 s1 m1 where p: "put s u m = Some (st1, s1, m1)" by (auto simp: bind_eq_Some_conv)
  then have "st1" "ample m1" using put_succeeds Cons.prems(1) by blast+
  with p Cons show ?case by auto
qed simp

end

end
