(* ===== verification/Cstring.thy ===== *)
theory Cstring
  imports HL_Prelude
begin

section \<open>Growable strings (\<open>src/meta/src/cstring.c\<close>, \<open>cstring.h\<close>)\<close>

text \<open>
  The \<open>cstring\<close> ADT: a heap buffer of \<open>size\<close> bytes whose first \<open>len\<close> bytes are the string and
  whose byte \<open>len\<close> is the terminator. The operations below are the C functions with the same
  names; a buffer access outside the allocated bytes or a failed \<open>assert\<close> is \<open>None\<close>.
  After the definitions: the representation invariant \<open>cs_inv\<close>, the abstraction \<open>cs_str\<close> to
  the string a caller sees, and for each operation that it never faults on a well-formed
  buffer, keeps the invariant and has the intended effect on the string.
\<close>

subsection \<open>State\<close>

record cstring =
  cs_size :: size_t
  cs_len :: size_t
  cs_data :: "char list"

definition CSTRING_INITIAL_SIZE :: nat where "CSTRING_INITIAL_SIZE = 256"

text \<open>\<open>assert(s->len == strlen(s->data))\<close>, which most operations end with.\<close>

definition len_is_strlen :: "cstring \<Rightarrow> bool" where
  "len_is_strlen s = (case cstr_at (cs_data s) 0 of None \<Rightarrow> False | Some t \<Rightarrow> length t = cs_len s)"

definition checked :: "status_t \<Rightarrow> cstring \<Rightarrow> allocator \<Rightarrow> (status_t \<times> cstring \<times> allocator) option" where
  "checked st s a = (if len_is_strlen s then Some (st, s, a) else None)"

subsection \<open>Allocation and growth\<close>

definition has_room_for :: "cstring \<Rightarrow> size_t \<Rightarrow> bool" where
  "has_room_for s n \<longleftrightarrow> n \<le> szsub (szsub (cs_size s) (cs_len s)) 1"

definition cstring_extend :: "cstring \<Rightarrow> size_t \<Rightarrow> allocator \<Rightarrow> (status_t \<times> cstring \<times> allocator) option" where
  "cstring_extend s n a =
     (if CSTRING_INITIAL_SIZE \<le> cs_size s \<and> cs_len s < cs_size s then
        (let bytes_needed = szt (cs_len s + n + 1) in
         if cs_size s < bytes_needed then
           (let doubled = szt (cs_size s * 2);
                newsize = (if doubled < bytes_needed then szt (cs_size s + n) else doubled)
            in case try_alloc newsize a of
                 (False, a') \<Rightarrow> Some (failure, s, a')
               | (True, a') \<Rightarrow>
                   checked success (s\<lparr>cs_data := realloc_bytes newsize (cs_data s) a', cs_size := newsize\<rparr>) a')
         else checked success s a)
      else None)"

text \<open>The idiom \<open>!has_room_for(s, n) && !cstring_extend(s, n)\<close> with which every writer starts.\<close>

definition make_room :: "cstring \<Rightarrow> size_t \<Rightarrow> allocator \<Rightarrow> (status_t \<times> cstring \<times> allocator) option" where
  "make_room s n a = (if has_room_for s n then Some (success, s, a) else cstring_extend s n a)"

definition cstring_new :: "allocator \<Rightarrow> cstring option \<times> allocator" where
  "cstring_new a =
     (case try_alloc 24 a of
        (False, a) \<Rightarrow> (None, a)
      | (True, a) \<Rightarrow>
          (case try_alloc CSTRING_INITIAL_SIZE a of
             (False, a) \<Rightarrow> (None, a)
           | (True, a) \<Rightarrow>
               (Some \<lparr>cs_size = CSTRING_INITIAL_SIZE, cs_len = 0,
                      cs_data = (fresh_bytes CSTRING_INITIAL_SIZE a)[0 := NUL]\<rparr>, a)))"

definition cstring_recycle :: "cstring \<Rightarrow> cstring option" where
  "cstring_recycle s = do { d \<leftarrow> put_at (cs_data s) 0 NUL; Some (s\<lparr>cs_data := d, cs_len := 0\<rparr>) }"

subsection \<open>Writers\<close>

text \<open>
  \<open>cstring_vprintf\<close>: \<open>out\<close> is what \<open>vsnprintf\<close> produces for the format and its arguments, \<open>None\<close>
  when it reports an output error by returning -1 (also when the text exceeds \<open>INT_MAX\<close>).
\<close>

definition cstring_vprintf :: "cstring \<Rightarrow> string option \<Rightarrow> allocator \<Rightarrow> (status_t \<times> cstring \<times> allocator) option" where
  "cstring_vprintf dest out a =
     (let nbytes = (case out of None \<Rightarrow> szt (SIZE_MOD - 1 + 1) | Some t \<Rightarrow> szt (length t + 1)) in
      if len_is_strlen dest then do {
        (st, dest, a) \<leftarrow> make_room dest nbytes a;
        if st then
          (case out of
             None \<Rightarrow> checked success (dest\<lparr>cs_len := szt (cs_len dest + (SIZE_MOD - 1))\<rparr>) a
           | Some t \<Rightarrow> do {
               d \<leftarrow> wr (cs_data dest) (cs_len dest) (take (nbytes - 1) t @ [NUL]);
               checked success (dest\<lparr>cs_data := d, cs_len := szt (cs_len dest + length t)\<rparr>) a })
        else Some (failure, dest, a) }
      else None)"

definition cstring_printf :: "cstring \<Rightarrow> string option \<Rightarrow> allocator \<Rightarrow> (status_t \<times> cstring \<times> allocator) option" where
  "cstring_printf dest out a = cstring_vprintf dest out a"

text \<open>\<open>cstring_pcat\<close>: \<open>bs\<close> are the bytes from \<open>start\<close> up to \<open>end\<close>, and \<open>assert(start < end)\<close>.\<close>

definition cstring_pcat :: "cstring \<Rightarrow> char list \<Rightarrow> allocator \<Rightarrow> (status_t \<times> cstring \<times> allocator) option" where
  "cstring_pcat dest bs a =
     (if bs \<noteq> [] then do {
        (st, dest, a) \<leftarrow> make_room dest (length bs) a;
        if st then do {
          d \<leftarrow> wr (cs_data dest) (cs_len dest) bs;
          let len = szt (cs_len dest + length bs);
          d \<leftarrow> put_at d len NUL;
          checked success (dest\<lparr>cs_data := d, cs_len := len\<rparr>) a }
        else Some (failure, dest, a) }
      else None)"

definition strcat_at :: "char list \<Rightarrow> nat \<Rightarrow> string \<Rightarrow> char list option" where
  "strcat_at buf i src = do { t \<leftarrow> cstr_at buf i; wr buf (i + length t) (src @ [NUL]) }"

definition cstring_concat :: "cstring \<Rightarrow> string \<Rightarrow> allocator \<Rightarrow> (status_t \<times> cstring \<times> allocator) option" where
  "cstring_concat dest src a =
     (let cb = length src in do {
        (st, dest, a) \<leftarrow> make_room dest cb a;
        if st then do {
          d \<leftarrow> strcat_at (cs_data dest) (cs_len dest) src;
          checked success (dest\<lparr>cs_data := d, cs_len := szt (cs_len dest + cb)\<rparr>) a }
        else Some (failure, dest, a) })"

definition cstring_charcat :: "cstring \<Rightarrow> char \<Rightarrow> allocator \<Rightarrow> (status_t \<times> cstring \<times> allocator) option" where
  "cstring_charcat dest c a = do {
     (st, dest, a) \<leftarrow> make_room dest 1 a;
     if st then do {
       d \<leftarrow> put_at (cs_data dest) (cs_len dest) c;
       let len = szt (cs_len dest + 1);
       d \<leftarrow> put_at d len NUL;
       checked success (dest\<lparr>cs_data := d, cs_len := len\<rparr>) a }
     else Some (failure, dest, a) }"

definition cstring_set :: "cstring \<Rightarrow> string \<Rightarrow> allocator \<Rightarrow> (status_t \<times> cstring \<times> allocator) option" where
  "cstring_set dest src a = do {
     dest \<leftarrow> cstring_recycle dest;
     let n = length src;
     (st, dest, a) \<leftarrow> make_room dest n a;
     if st then do {
       d \<leftarrow> wr (cs_data dest) 0 (src @ [NUL]);
       checked success (dest\<lparr>cs_data := d, cs_len := szt (cs_len dest + n)\<rparr>) a }
     else Some (failure, dest, a) }"

definition cstring_nset :: "cstring \<Rightarrow> string \<Rightarrow> size_t \<Rightarrow> allocator \<Rightarrow> (status_t \<times> cstring \<times> allocator) option" where
  "cstring_nset dest src cch a = do {
     dest \<leftarrow> cstring_recycle dest;
     let len = (if cch < length src then cch else length src);
     (st, dest, a) \<leftarrow> make_room dest len a;
     if st then do {
       d \<leftarrow> wr (cs_data dest) 0 (take len src);
       d \<leftarrow> put_at d len NUL;
       checked success (dest\<lparr>cs_data := d, cs_len := len\<rparr>) a }
     else Some (failure, dest, a) }"

definition cstring_copy :: "cstring \<Rightarrow> cstring \<Rightarrow> allocator \<Rightarrow> (status_t \<times> cstring \<times> allocator) option" where
  "cstring_copy dest src a = do { t \<leftarrow> cstr_at (cs_data src) 0; cstring_set dest t a }"

definition cstring_concat2 :: "cstring \<Rightarrow> string \<Rightarrow> string \<Rightarrow> allocator \<Rightarrow> (status_t \<times> cstring \<times> allocator) option" where
  "cstring_concat2 dest s1 s2 a = do {
     (st, dest, a) \<leftarrow> cstring_concat dest s1 a;
     if st then cstring_concat dest s2 a else Some (failure, dest, a) }"

definition cstring_concat3 :: "cstring \<Rightarrow> string \<Rightarrow> string \<Rightarrow> string \<Rightarrow> allocator \<Rightarrow> (status_t \<times> cstring \<times> allocator) option" where
  "cstring_concat3 dest s1 s2 s3 a = do {
     (st, dest, a) \<leftarrow> cstring_concat dest s1 a;
     if st then do {
       (st, dest, a) \<leftarrow> cstring_concat dest s2 a;
       if st then cstring_concat dest s3 a else Some (failure, dest, a) }
     else Some (failure, dest, a) }"

subsection \<open>Constructors from other strings\<close>

text \<open>A constructor returns \<open>NULL\<close> (the inner \<open>None\<close>) when memory runs out.\<close>

definition cstring_dup :: "string \<Rightarrow> allocator \<Rightarrow> (cstring option \<times> allocator) option" where
  "cstring_dup src a =
     (case cstring_new a of
        (None, a) \<Rightarrow> Some (None, a)
      | (Some dest, a) \<Rightarrow> do {
          (st, dest, a) \<leftarrow> cstring_set dest src a;
          Some (if st then Some dest else None, a) })"

text \<open>\<open>cstring_left\<close> and \<open>cstring_right\<close> read \<open>src->data\<close> up to its NUL.\<close>

definition cstring_left :: "cstring \<Rightarrow> size_t \<Rightarrow> allocator \<Rightarrow> (cstring option \<times> allocator) option" where
  "cstring_left src n a =
     (case cstring_new a of
        (None, a) \<Rightarrow> Some (None, a)
      | (Some dest, a) \<Rightarrow> do {
          (st, dest, a) \<leftarrow> cstring_extend dest n a;
          if st then do {
            t \<leftarrow> cstr_at (cs_data src) 0;
            (st, dest, a) \<leftarrow> cstring_nset dest t n a;
            Some (if st then Some dest else None, a) }
          else Some (None, a) })"

definition cstring_right :: "cstring \<Rightarrow> size_t \<Rightarrow> allocator \<Rightarrow> (cstring option \<times> allocator) option" where
  "cstring_right src n a =
     (case cstring_new a of
        (None, a) \<Rightarrow> Some (None, a)
      | (Some dest, a) \<Rightarrow> do {
          (st, dest, a) \<leftarrow> cstring_extend dest n a;
          if st then do {
            s \<leftarrow> cstr_at (cs_data src) 0;
            let cb = length s;
            let s = (if n < cb then drop (cb - n) s else s);
            (st, dest, a) \<leftarrow> cstring_set dest s a;
            Some (if st then Some dest else None, a) }
          else Some (None, a) })"

definition cstring_substring :: "cstring \<Rightarrow> size_t \<Rightarrow> size_t \<Rightarrow> allocator \<Rightarrow> (cstring option \<times> allocator) option" where
  "cstring_substring src from to a =
     (if from \<le> to \<and> to \<le> cs_len src then
        (let to = (if cs_len src < to then cs_len src else to);
             cb = szt (to - from + 1)
         in case cstring_new a of
              (None, a) \<Rightarrow> Some (None, a)
            | (Some dest, a) \<Rightarrow> do {
                (st, dest, a) \<leftarrow> cstring_extend dest cb a;
                if st then do {
                  bs \<leftarrow> rd (cs_data src) from (to - from);
                  (st, dest, a) \<leftarrow> cstring_pcat dest bs a;
                  Some (if st then Some dest else None, a) }
                else Some (None, a) })
      else None)"

subsection \<open>Invariant and abstraction\<close>

text \<open>
  \<open>cs_rep s t\<close>: the buffer \<open>s\<close> is well formed and its string is \<open>t\<close>. Only the bytes up to the
  terminator are determined.
\<close>

definition cs_rep :: "cstring \<Rightarrow> string \<Rightarrow> bool" where
  "cs_rep s t \<longleftrightarrow> c_string t \<and> cs_len s = length t \<and> length t < cs_size s \<and>
     take (Suc (length t)) (cs_data s) = t @ [NUL] \<and> length (cs_data s) = cs_size s \<and>
     CSTRING_INITIAL_SIZE \<le> cs_size s \<and> cs_size s \<le> PTRDIFF_MAX"

definition cs_str :: "cstring \<Rightarrow> string" where
  "cs_str s = take (cs_len s) (cs_data s)"

definition cs_inv :: "cstring \<Rightarrow> bool" where
  "cs_inv s \<longleftrightarrow> cs_rep s (cs_str s)"

text \<open>
  When a writer of \<open>n\<close> characters to a string of length \<open>l\<close> cannot fail: there is room already,
  or the allocator fails no call and the size stays below \<open>PTRDIFF_MAX\<close>.
\<close>

definition roomy :: "cstring \<Rightarrow> nat \<Rightarrow> nat \<Rightarrow> allocator \<Rightarrow> bool" where
  "roomy s l n a \<longleftrightarrow> l + n < cs_size s \<or>
     (decisions a = [] \<and> 2 * cs_size s \<le> PTRDIFF_MAX \<and> cs_size s + n \<le> PTRDIFF_MAX)"

text \<open>
  The contract of a writer: it returns, and leaves a well-formed buffer that holds \<open>t\<close> when it
  reports success and \<open>u\<close> when it reports failure; under the condition \<open>ok\<close> it succeeds.
\<close>

definition cs_post :: "bool \<Rightarrow> allocator \<Rightarrow> (status_t \<times> cstring \<times> allocator) option \<Rightarrow> string \<Rightarrow> string \<Rightarrow> bool" where
  "cs_post ok a r t u \<longleftrightarrow> (\<exists>st s' a'. r = Some (st, s', a') \<and> cs_rep s' (if st then t else u) \<and>
     (ok \<longrightarrow> st \<and> a' = a))"

lemma cs_rep_str: "cs_rep s t \<Longrightarrow> cs_str s = t"
proof -
  assume "cs_rep s t"
  then have "take (Suc (length t)) (cs_data s) = t @ [NUL]" and l: "cs_len s = length t"
    by (simp_all add: cs_rep_def)
  then have "take (length t) (take (Suc (length t)) (cs_data s)) = t" by simp
  then show ?thesis by (simp add: cs_str_def l)
qed

lemma cs_inv_iff: "cs_inv s \<longleftrightarrow> (\<exists>t. cs_rep s t)"
  by (auto simp: cs_inv_def dest: cs_rep_str)

lemma cs_rep_data: "cs_rep s t \<Longrightarrow> cs_data s = t @ NUL # drop (Suc (length t)) (cs_data s)"
  unfolding cs_rep_def
  by (metis append_take_drop_id append.assoc append_Cons append_Nil)

lemma cs_rep_dataE:
  assumes "cs_rep s t"
  obtains rest where "cs_data s = t @ NUL # rest" "length t + Suc (length rest) = cs_size s"
    "cs_len s = length t" "c_string t" "256 \<le> cs_size s" "cs_size s \<le> PTRDIFF_MAX"
proof (rule that)
  show "cs_data s = t @ NUL # drop (Suc (length t)) (cs_data s)" using assms by (rule cs_rep_data)
qed (use assms in \<open>auto simp: cs_rep_def CSTRING_INITIAL_SIZE_def\<close>)

lemma cs_repI:
  assumes "cs_data s = t @ NUL # rest" "length (cs_data s) = cs_size s" "cs_len s = length t" "c_string t"
    "256 \<le> cs_size s" "cs_size s \<le> PTRDIFF_MAX"
  shows "cs_rep s t"
  using assms by (auto simp: cs_rep_def CSTRING_INITIAL_SIZE_def)

lemma cstr_at_prefix: "c_string t \<Longrightarrow> cstr_at (xs @ t @ NUL # rest) (length xs) = Some t"
  by (auto simp: cstr_at_def c_string_def intro: trans [OF takeWhile_append2])

lemma cs_rep_cstr_at: "cs_rep s t \<Longrightarrow> cstr_at (cs_data s) 0 = Some t"
  using cstr_at_prefix [of t "[]"] by (auto elim!: cs_rep_dataE)

lemma cs_rep_checked: "cs_rep s t \<Longrightarrow> checked st s a = Some (st, s, a)"
  by (simp add: checked_def len_is_strlen_def cs_rep_cstr_at) (simp add: cs_rep_def)

lemma cs_rep_len_is_strlen: "cs_rep s t \<Longrightarrow> len_is_strlen s"
  by (simp add: len_is_strlen_def cs_rep_cstr_at) (simp add: cs_rep_def)

lemma cs_rep_length: "cs_rep s t \<Longrightarrow> length t < cs_size s \<and> cs_size s < SIZE_MOD \<and> cs_len s = length t \<and> 0 < cs_size s"
  using PTRDIFF_SIZE by (auto simp: cs_rep_def)

lemma has_room_iff: "cs_rep s t \<Longrightarrow> has_room_for s n \<longleftrightarrow> length t + n < cs_size s"
  using cs_rep_length [of s t] by (auto simp: has_room_for_def szsub_le)

lemma cs_rep_realloc:
  assumes "cs_rep s t" "cs_size s \<le> m" "m \<le> PTRDIFF_MAX"
  shows "cs_rep (s\<lparr>cs_data := realloc_bytes m (cs_data s) a, cs_size := m\<rparr>) t"
proof -
  from assms(1) obtain rest where "cs_data s = t @ NUL # rest" "length (cs_data s) = cs_size s"
    "cs_len s = length t" "c_string t" "256 \<le> cs_size s"
    by (auto elim!: cs_rep_dataE)
  with assms(2,3) show ?thesis
    by (intro cs_repI) (auto simp: realloc_bytes_grow)
qed

text \<open>Growing keeps the string, and on success there is room for \<open>n\<close> more characters and the terminator.\<close>

lemma cstring_extend_spec:
  assumes rep: "cs_rep s t" and n: "n \<le> PTRDIFF_MAX"
  shows "\<exists>st s' a'. cstring_extend s n a = Some (st, s', a') \<and> cs_rep s' t \<and>
    (st \<longrightarrow> length t + n < cs_size s') \<and> (roomy s (length t) n a \<longrightarrow> st \<and> a' = a)"
proof -
  have guard: "CSTRING_INITIAL_SIZE \<le> cs_size s \<and> cs_len s < cs_size s" and len: "cs_len s = length t"
    and sz: "cs_size s \<le> PTRDIFF_MAX" "length t < cs_size s"
    using rep by (auto simp: cs_rep_def)
  have nowrap: "szt (cs_len s + n + 1) = length t + n + 1" "szt (cs_size s * 2) = cs_size s * 2"
    "szt (cs_size s + n) = cs_size s + n"
    using PTRDIFF_SIZE sz n len by simp_all
  define m where "m = (if cs_size s * 2 < length t + n + 1 then cs_size s + n else cs_size s * 2)"
  have eq: "cstring_extend s n a = (if cs_size s < length t + n + 1 then
      (case try_alloc m a of (False, a') \<Rightarrow> Some (False, s, a')
       | (True, a') \<Rightarrow> checked True (s\<lparr>cs_data := realloc_bytes m (cs_data s) a', cs_size := m\<rparr>) a')
      else checked True s a)"
    by (simp only: cstring_extend_def Let_def nowrap guard m_def simp_thms if_True)
  show ?thesis
  proof (cases "cs_size s < length t + n + 1")
    case True
    then have m: "cs_size s \<le> m" "length t + n < m" using sz by (auto simp: m_def)
    have roomy: "try_alloc m a = (True, a)" if "roomy s (length t) n a"
      using that True by (intro try_alloc_no_oom) (auto simp: roomy_def m_def)
    obtain b a' where al: "try_alloc m a = (b, a')" by fastforce
    show ?thesis
    proof (cases b)
      case ok: True
      then have "m \<le> PTRDIFF_MAX" using al try_alloc_le [of m a a'] by simp
      then have "cs_rep (s\<lparr>cs_data := realloc_bytes m (cs_data s) a', cs_size := m\<rparr>) t"
        using rep m(1) cs_rep_realloc by blast
      then show ?thesis using True al ok m(2) roomy by (auto simp: eq cs_rep_checked)
    qed (use True al rep eq roomy in auto)
  qed (use rep eq in \<open>auto simp: cs_rep_checked\<close>)
qed

lemma make_room_spec:
  assumes rep: "cs_rep s t" and n: "n \<le> PTRDIFF_MAX"
  obtains st s' a' where "make_room s n a = Some (st, s', a')" "cs_rep s' t" "st \<Longrightarrow> length t + n < cs_size s'"
    "roomy s (length t) n a \<Longrightarrow> st \<and> a' = a"
proof (cases "has_room_for s n")
  case True
  then show ?thesis using rep that [of True s a] by (simp add: make_room_def has_room_iff)
next
  case False
  then show ?thesis using cstring_extend_spec [OF rep n, of a] that by (auto simp: make_room_def)
qed

lemma update_0: "0 < length xs \<Longrightarrow> xs[0 := x] = x # tl xs"
  by (cases xs) simp_all

lemma cstring_new_spec:
  "\<exists>r a'. cstring_new a = (r, a') \<and> (\<forall>s. r = Some s \<longrightarrow> cs_rep s [] \<and> cs_size s = 256) \<and>
     (decisions a = [] \<longrightarrow> r \<noteq> None \<and> a' = a)"
proof -
  have "cs_rep \<lparr>cs_size = CSTRING_INITIAL_SIZE, cs_len = 0,
                 cs_data = (fresh_bytes CSTRING_INITIAL_SIZE b)[0 := NUL]\<rparr> []" for b
    by (rule cs_repI [where rest = "tl (fresh_bytes 256 b)"])
       (simp_all add: CSTRING_INITIAL_SIZE_def PTRDIFF_MAX_def update_0)
  then have "\<forall>s. fst (cstring_new a) = Some s \<longrightarrow> cs_rep s [] \<and> cs_size s = 256"
    by (auto simp: cstring_new_def CSTRING_INITIAL_SIZE_def split: prod.splits bool.splits)
  moreover have "decisions a = [] \<longrightarrow> fst (cstring_new a) \<noteq> None \<and> snd (cstring_new a) = a"
    by (simp add: cstring_new_def try_alloc_no_oom CSTRING_INITIAL_SIZE_def PTRDIFF_MAX_def)
  ultimately show ?thesis by (metis prod.collapse)
qed

lemma cstring_recycle_spec: "cs_rep s t \<Longrightarrow> \<exists>s'. cstring_recycle s = Some s' \<and> cs_rep s' [] \<and> cs_size s' = cs_size s"
proof -
  assume "cs_rep s t"
  then have d: "length (cs_data s) = cs_size s" "256 \<le> cs_size s" "cs_size s \<le> PTRDIFF_MAX"
    by (auto simp: cs_rep_def CSTRING_INITIAL_SIZE_def)
  then have "cs_rep (s\<lparr>cs_data := (cs_data s)[0 := NUL], cs_len := 0\<rparr>) []"
    by (intro cs_repI [where rest = "tl (cs_data s)"]) (simp_all add: update_0)
  moreover have "0 < length (cs_data s)" using d by simp
  ultimately show ?thesis by (simp add: cstring_recycle_def put_at_Some)
qed

subsection \<open>The writers meet their contracts\<close>

text \<open>Replacing the bytes from the terminator on by \<open>u\<close> and a new terminator.\<close>

lemma cs_rep_write:
  assumes rep: "cs_rep s t" and u: "c_string u" "length t + length u < cs_size s"
  shows "cs_rep (s\<lparr>cs_data := take (length t) (cs_data s) @ (u @ [NUL]) @ drop (length t + length (u @ [NUL])) (cs_data s),
            cs_len := szt (length t + length u)\<rparr>) (t @ u)"
proof -
  obtain rest where d: "cs_data s = t @ NUL # rest" "length t + Suc (length rest) = cs_size s"
    "c_string t" "256 \<le> cs_size s" "cs_size s \<le> PTRDIFF_MAX"
    using rep by (auto elim!: cs_rep_dataE)
  have "length t + length u < SIZE_MOD" using u(2) cs_rep_length [OF rep] by simp
  then show ?thesis using d u
    by (intro cs_repI [where rest = "drop (length t + length (u @ [NUL])) (cs_data s)"]) auto
qed

lemma cs_rep_wr:
  assumes rep: "cs_rep s t" and u: "c_string u" "length t + length u < cs_size s"
  shows "\<exists>d. wr (cs_data s) (cs_len s) (u @ [NUL]) = Some d \<and>
    cs_rep (s\<lparr>cs_data := d, cs_len := szt (cs_len s + length u)\<rparr>) (t @ u)"
  using cs_rep_write [OF assms] assms by (auto simp: wr_Some cs_rep_def)

lemma cs_postI: "cs_rep s' t \<Longrightarrow> r = Some (True, s', a) \<Longrightarrow> cs_post True a r t u"
  unfolding cs_post_def by (intro exI [of _ True] exI [of _ s'] exI [of _ a]) simp

lemma cs_post_weaken: "cs_post ok a r t u \<Longrightarrow> cs_post False b r t u"
  unfolding cs_post_def by blast

lemma cs_post_wr:
  assumes "cs_rep s t" "c_string u" "length t + length u < cs_size s"
  shows "cs_post True a (wr (cs_data s) (cs_len s) (u @ [NUL]) \<bind>
    (\<lambda>d. checked True (s\<lparr>cs_data := d, cs_len := szt (cs_len s + length u)\<rparr>) a)) (t @ u) v"
proof -
  obtain d where d: "wr (cs_data s) (cs_len s) (u @ [NUL]) = Some d"
      "cs_rep (s\<lparr>cs_data := d, cs_len := szt (cs_len s + length u)\<rparr>) (t @ u)"
    using cs_rep_wr [OF assms] by blast
  show ?thesis by (rule cs_postI [OF d(2)]) (simp add: d(1) cs_rep_checked [OF d(2)])
qed

text \<open>The common shape of the writers: make room, then write.\<close>

lemma cs_post_room:
  assumes rep: "cs_rep s t" and n: "n \<le> PTRDIFF_MAX"
    and K: "\<And>s' a'. cs_rep s' t \<Longrightarrow> length t + n < cs_size s' \<Longrightarrow> cs_post True a' (K s' a') t' t"
  shows "cs_post (roomy s (length t) n a) a
    (make_room s n a \<bind> (\<lambda>(st, s, a). if st then K s a else Some (failure, s, a))) t' t"
proof (rule make_room_spec [OF rep n, of a])
  fix st s' a'
  assume mk: "make_room s n a = Some (st, s', a')" "cs_rep s' t" "st \<Longrightarrow> length t + n < cs_size s'"
    "roomy s (length t) n a \<Longrightarrow> st \<and> a' = a"
  show ?thesis
  proof (cases st)
    case True
    then obtain s'' where k: "K s' a' = Some (True, s'', a')" "cs_rep s'' t'"
      using K [OF mk(2) mk(3)] unfolding cs_post_def by force
    show ?thesis unfolding cs_post_def
      by (intro exI [of _ True] exI [of _ s''] exI [of _ a']) (use mk True k in simp)
  next
    case False
    show ?thesis unfolding cs_post_def
      by (intro exI [of _ False] exI [of _ s'] exI [of _ a']) (use mk False in auto)
  qed
qed

lemma cstring_concat_spec:
  assumes rep: "cs_rep s t" and src: "c_string src" "length src \<le> PTRDIFF_MAX"
  shows "cs_post (roomy s (length t) (length src) a) a (cstring_concat s src a) (t @ src) t"
  unfolding cstring_concat_def Let_def
proof (rule cs_post_room [OF rep src(2)])
  fix s' a' assume r: "cs_rep s' t" "length t + length src < cs_size s'"
  have "cstr_at (cs_data s') (cs_len s') = Some []"
    using r(1) cstr_at_prefix [of "[]" t] by (auto elim!: cs_rep_dataE)
  with cs_post_wr [OF r(1) src(1) r(2), of a' t]
  show "cs_post True a' (strcat_at (cs_data s') (cs_len s') src \<bind>
      (\<lambda>d. checked True (s'\<lparr>cs_data := d, cs_len := szt (cs_len s' + length src)\<rparr>) a')) (t @ src) t"
    by (simp add: strcat_at_def)
qed

lemma cstring_pcat_spec:
  assumes rep: "cs_rep s t" and bs: "c_string bs" "length bs \<le> PTRDIFF_MAX" "bs \<noteq> []"
  shows "cs_post (roomy s (length t) (length bs) a) a (cstring_pcat s bs a) (t @ bs) t"
proof -
  have "cs_post True a' (wr (cs_data s') (cs_len s') bs \<bind> (\<lambda>d. put_at d (szt (cs_len s' + length bs)) NUL \<bind>
      (\<lambda>d. checked True (s'\<lparr>cs_data := d, cs_len := szt (cs_len s' + length bs)\<rparr>) a'))) (t @ bs) t"
    if r: "cs_rep s' t" "length t + length bs < cs_size s'" for s' a'
  proof -
    have "szt (cs_len s' + length bs) = cs_len s' + length bs"
      using r cs_rep_length [OF r(1)] by simp
    with cs_post_wr [OF r(1) bs(1) r(2), of a' t] show ?thesis
      by (simp add: wr_append put_at_wr)
  qed
  then show ?thesis unfolding cstring_pcat_def Let_def if_P [OF bs(3)]
    by (rule cs_post_room [OF rep bs(2)])
qed

lemma cstring_charcat_pcat: "cstring_charcat s c a = cstring_pcat s [c] a"
  unfolding cstring_charcat_def cstring_pcat_def put_at_wr by (simp cong: if_cong add: Let_def)

lemma cstring_charcat_spec:
  assumes "cs_rep s t" "c \<noteq> NUL"
  shows "cs_post (roomy s (length t) 1 a) a (cstring_charcat s c a) (t @ [c]) t"
  using cstring_pcat_spec [OF assms(1), of "[c]"] assms(2) by (simp add: cstring_charcat_pcat PTRDIFF_MAX_def)

lemma cstring_vprintf_spec:
  assumes rep: "cs_rep s t" and out: "c_string out" "Suc (length out) \<le> PTRDIFF_MAX"
  shows "cs_post (roomy s (length t) (Suc (length out)) a) a (cstring_vprintf s (Some out) a) (t @ out) t"
proof -
  have n: "szt (length out + 1) = Suc (length out)" using out(2) PTRDIFF_SIZE by simp
  have "cs_post True a' (wr (cs_data s') (cs_len s') (take (Suc (length out) - 1) out @ [NUL]) \<bind>
      (\<lambda>d. checked True (s'\<lparr>cs_data := d, cs_len := szt (cs_len s' + length out)\<rparr>) a')) (t @ out) t"
    if r: "cs_rep s' t" "length t + Suc (length out) < cs_size s'" for s' a'
    using cs_post_wr [OF r(1) out(1), of a' t] r(2) by simp
  then show ?thesis
    unfolding cstring_vprintf_def Let_def option.case n if_P [OF cs_rep_len_is_strlen [OF rep]]
    by (rule cs_post_room [OF rep out(2)])
qed

lemma cstring_set_spec:
  assumes rep: "cs_rep s t" and src: "c_string src" "length src \<le> PTRDIFF_MAX"
  shows "cs_post (roomy s 0 (length src) a) a (cstring_set s src a) src []"
proof -
  obtain s0 where s0: "cstring_recycle s = Some s0" "cs_rep s0 []" "cs_size s0 = cs_size s" using cstring_recycle_spec [OF rep] by blast
  have "cs_post True a' (wr (cs_data s') 0 (src @ [NUL]) \<bind>
      (\<lambda>d. checked True (s'\<lparr>cs_data := d, cs_len := szt (cs_len s' + length src)\<rparr>) a')) src []"
    if r: "cs_rep s' []" "length ([] :: string) + length src < cs_size s'" for s' a'
    using cs_post_wr [OF r(1) src(1) r(2), of a' "[]"] cs_rep_length [OF r(1)] by simp
  from cs_post_room [OF s0(2) src(2) this] show ?thesis
    unfolding cstring_set_def Let_def s0(1) bind.bind_lunit by (simp add: roomy_def s0(3))
qed

lemma cstring_nset_spec:
  assumes rep: "cs_rep s t" and src: "c_string src" "length src \<le> PTRDIFF_MAX"
  shows "cs_post (roomy s 0 (length (take cch src)) a) a (cstring_nset s src cch a) (take cch src) []"
proof -
  let ?u = "take cch src"
  have len: "(if cch < length src then cch else length src) = length ?u"
    and u: "c_string ?u" "length ?u \<le> PTRDIFF_MAX" using src by (auto simp: min_def)
  have tk: "take (length ?u) src = ?u" by (simp add: take_take [symmetric] del: take_take)
  obtain s0 where s0: "cstring_recycle s = Some s0" "cs_rep s0 []" "cs_size s0 = cs_size s" using cstring_recycle_spec [OF rep] by blast
  have "cs_post True a' (wr (cs_data s') 0 ?u \<bind> (\<lambda>d. put_at d (length ?u) NUL \<bind>
      (\<lambda>d. checked True (s'\<lparr>cs_data := d, cs_len := length ?u\<rparr>) a'))) ?u []"
    if r: "cs_rep s' []" "length ([] :: string) + length ?u < cs_size s'" for s' a'
  proof -
    have l: "cs_len s' = 0" "length ?u < SIZE_MOD" using r cs_rep_length [OF r(1)] by auto
    with cs_post_wr [OF r(1) u(1) r(2), of a' "[]"] show ?thesis
      by (simp add: wr_append put_at_wr)
  qed
  from cs_post_room [OF s0(2) u(2) this] show ?thesis
    unfolding cstring_nset_def Let_def s0(1) bind.bind_lunit len tk by (simp add: roomy_def s0(3))
qed

lemma cstring_copy_spec:
  assumes "cs_rep d t" "cs_rep s u"
  shows "cs_post (roomy d 0 (length u) a) a (cstring_copy d s a) u []"
  using cstring_set_spec [OF assms(1), of u] assms(2) cs_rep_length [OF assms(2)]
  by (auto simp: cstring_copy_def cs_rep_cstr_at cs_rep_def)

subsection \<open>Growable strings are a text sink\<close>

interpretation cs: sink cstring_concat cs_rep "\<lambda>u. u" "\<lambda>u. c_string u \<and> length u \<le> PTRDIFF_MAX"
proof unfold_locales
  fix s t u m assume "cs_rep s t" "c_string u \<and> length u \<le> PTRDIFF_MAX"
  then show "\<exists>st s' m'. cstring_concat s u m = Some (st, s', m') \<and> cs_rep s' (if st then t @ u else t)"
    using cstring_concat_spec [of s t u m] unfolding cs_post_def by blast
qed

lemma concat2_put_all: "cstring_concat2 s s1 s2 a = cs.put_all s [s1, s2] a"
  by (simp add: cstring_concat2_def cong: if_cong)

lemma concat3_put_all: "cstring_concat3 s s1 s2 s3 a = cs.put_all s [s1, s2, s3] a"
  by (simp add: cstring_concat3_def cong: if_cong)

subsection \<open>The constructors\<close>

definition cs_new_post :: "bool \<Rightarrow> allocator \<Rightarrow> (cstring option \<times> allocator) option \<Rightarrow> string \<Rightarrow> bool" where
  "cs_new_post ok a r t \<longleftrightarrow> (\<exists>p a'. r = Some (p, a') \<and> (\<forall>s. p = Some s \<longrightarrow> cs_rep s t) \<and>
     (ok \<longrightarrow> p \<noteq> None \<and> a' = a))"

lemma cs_new_post_bind:
  assumes "cs_post ok a r t u" "ok' \<longrightarrow> ok"
  shows "cs_new_post ok' a (r \<bind> (\<lambda>(st, d, a). Some (if st then Some d else None, a))) t"
  using assms by (auto simp: cs_post_def cs_new_post_def)

lemma cstring_new_case:
  assumes K: "\<And>d a'. cs_rep d [] \<Longrightarrow> cs_size d = 256 \<Longrightarrow> cs_new_post (ok \<and> decisions a' = []) a' (K d a') t"
    and ok: "ok \<longrightarrow> decisions a = []"
  shows "cs_new_post ok a (case cstring_new a of (None, a) \<Rightarrow> Some (None, a) | (Some d, a) \<Rightarrow> K d a) t"
proof -
  obtain r a' where n: "cstring_new a = (r, a')" "\<forall>s. r = Some s \<longrightarrow> cs_rep s [] \<and> cs_size s = 256"
      "decisions a = [] \<longrightarrow> r \<noteq> None \<and> a' = a"
    using cstring_new_spec by blast
  show ?thesis
  proof (cases r)
    case (Some d)
    with K [of d a'] n ok show ?thesis by (auto simp: cs_new_post_def)
  qed (use n ok in \<open>auto simp: cs_new_post_def\<close>)
qed

lemma cstring_extend_case:
  assumes rep: "cs_rep d t" and n: "n \<le> PTRDIFF_MAX" and ok: "ok \<longrightarrow> roomy d (length t) n a"
    and K: "\<And>d a'. cs_rep d t \<Longrightarrow> length t + n < cs_size d \<Longrightarrow> cs_new_post ok a' (K d a') u"
  shows "cs_new_post ok a (cstring_extend d n a \<bind> (\<lambda>(st, d, a). if st then K d a else Some (None, a))) u"
proof -
  obtain st d' a' where e: "cstring_extend d n a = Some (st, d', a')" "cs_rep d' t" "st \<longrightarrow> length t + n < cs_size d'"
      "roomy d (length t) n a \<longrightarrow> st \<and> a' = a"
    using cstring_extend_spec [OF rep n] by blast
  show ?thesis
  proof (cases st)
    case True
    with K [of d' a'] e ok show ?thesis by (auto simp: cs_new_post_def)
  qed (use e ok in \<open>auto simp: cs_new_post_def\<close>)
qed

text \<open>The condition under which the constructors get the memory they ask for.\<close>

definition affordable :: "nat \<Rightarrow> allocator \<Rightarrow> bool" where
  "affordable n a \<longleftrightarrow> decisions a = [] \<and> 256 + n \<le> PTRDIFF_MAX"

lemma affordable_roomy: "cs_size d = 256 \<Longrightarrow> affordable n a \<Longrightarrow> roomy d l n a"
  by (simp add: affordable_def roomy_def PTRDIFF_MAX_def)

lemma cstring_dup_spec:
  assumes "c_string src" "length src \<le> PTRDIFF_MAX"
  shows "cs_new_post (affordable (length src) a) a (cstring_dup src a) src"
  unfolding cstring_dup_def
proof (rule cstring_new_case)
  fix d a' assume d: "cs_rep d []" "cs_size d = 256"
  show "cs_new_post (affordable (length src) a \<and> decisions a' = []) a'
      (cstring_set d src a' \<bind> (\<lambda>(st, d, a). Some (if st then Some d else None, a))) src"
    by (rule cs_new_post_bind [OF cstring_set_spec [OF d(1) assms]])
       (use d affordable_roomy in \<open>auto simp: affordable_def\<close>)
qed (simp add: affordable_def)

lemma new_extend_case:
  assumes n: "n \<le> PTRDIFF_MAX"
    and K: "\<And>d a'. cs_rep d [] \<Longrightarrow> n < cs_size d \<Longrightarrow> cs_new_post True a' (K d a') u"
  shows "cs_new_post (affordable n a) a (case cstring_new a of (None, a) \<Rightarrow> Some (None, a)
    | (Some d, a) \<Rightarrow> cstring_extend d n a \<bind> (\<lambda>(st, d, a). if st then K d a else Some (None, a))) u"
proof (rule cstring_new_case)
  show "affordable n a \<longrightarrow> decisions a = []" by (simp add: affordable_def)
next
  fix d a' assume d: "cs_rep d []" "cs_size d = 256"
  show "cs_new_post (affordable n a \<and> decisions a' = []) a'
      (cstring_extend d n a' \<bind> (\<lambda>(st, d, a). if st then K d a else Some (None, a))) u"
  proof (rule cstring_extend_case [OF d(1) n])
    show "affordable n a \<and> decisions a' = [] \<longrightarrow> roomy d (length ([] :: string)) n a'"
      using d affordable_roomy by (simp add: affordable_def)
  next
    fix d a' assume "cs_rep d []" "length ([] :: string) + n < cs_size d"
    with K [of d a'] show "cs_new_post (affordable n a \<and> decisions a'' = []) a' (K d a') u" for a''
      by (auto simp: cs_new_post_def)
  qed
qed

lemma cstring_left_spec:
  assumes rep: "cs_rep s t" and n: "n \<le> PTRDIFF_MAX"
  shows "cs_new_post (affordable n a) a (cstring_left s n a) (take n t)"
proof -
  have t: "cstr_at (cs_data s) 0 = Some t" "c_string t" "length t \<le> PTRDIFF_MAX"
    using rep by (auto simp: cs_rep_cstr_at cs_rep_def)
  show ?thesis unfolding cstring_left_def t(1) bind.bind_lunit
  proof (rule new_extend_case [OF n])
    fix d a' assume d: "cs_rep d []" "n < cs_size d"
    show "cs_new_post True a' (cstring_nset d t n a' \<bind> (\<lambda>(st, d, a). Some (if st then Some d else None, a))) (take n t)"
      by (rule cs_new_post_bind [OF cstring_nset_spec [OF d(1) t(2,3)]]) (use d in \<open>auto simp: roomy_def\<close>)
  qed
qed

lemma cstring_right_spec:
  assumes rep: "cs_rep s t" and n: "n \<le> PTRDIFF_MAX"
  shows "cs_new_post (affordable n a) a (cstring_right s n a) (drop (length t - n) t)"
proof -
  have t: "cstr_at (cs_data s) 0 = Some t" "c_string t" "length t \<le> PTRDIFF_MAX"
    using rep by (auto simp: cs_rep_cstr_at cs_rep_def)
  let ?u = "drop (length t - n) t"
  have d: "(if n < length t then ?u else t) = ?u" by auto
  have u: "c_string ?u" "length ?u \<le> PTRDIFF_MAX" using t by auto
  show ?thesis unfolding cstring_right_def t(1) bind.bind_lunit Let_def d
  proof (rule new_extend_case [OF n])
    fix d a' assume d: "cs_rep d []" "n < cs_size d"
    show "cs_new_post True a' (cstring_set d ?u a' \<bind> (\<lambda>(st, d, a). Some (if st then Some d else None, a))) ?u"
      by (rule cs_new_post_bind [OF cstring_set_spec [OF d(1) u]]) (use d in \<open>auto simp: roomy_def\<close>)
  qed
qed

lemma cstring_substring_spec:
  assumes rep: "cs_rep s t" and ft: "from < to" "to \<le> length t"
  shows "cs_new_post (affordable (to - from + 1) a) a (cstring_substring s from to a) (take (to - from) (drop from t))"
proof -
  have l: "cs_len s = length t" "length (cs_data s) = cs_size s" "cs_size s \<le> PTRDIFF_MAX" "length t < cs_size s"
    "c_string t" using rep by (auto simp: cs_rep_def)
  obtain rest where d: "cs_data s = t @ NUL # rest" using rep by (auto elim!: cs_rep_dataE)
  let ?u = "take (to - from) (drop from t)"
  have r: "rd (cs_data s) from (to - from) = Some ?u" using l ft d by (simp add: rd_def)
  have u: "c_string ?u" "length ?u \<le> PTRDIFF_MAX" "?u \<noteq> []" using l ft by auto
  have cb: "szt (to - from + 1) = to - from + 1" "to - from + 1 \<le> PTRDIFF_MAX" using l ft PTRDIFF_SIZE by simp_all
  have g: "from \<le> to \<and> to \<le> cs_len s" "\<not> cs_len s < to" using ft l by auto
  show ?thesis unfolding cstring_substring_def Let_def if_P [OF g(1)] if_not_P [OF g(2)] r bind.bind_lunit cb(1)
  proof (rule new_extend_case [OF cb(2)])
    fix d a' assume d: "cs_rep d []" "to - from + 1 < cs_size d"
    show "cs_new_post True a' (cstring_pcat d ?u a' \<bind> (\<lambda>(st, d, a). Some (if st then Some d else None, a))) ?u"
      by (rule cs_new_post_bind [OF cstring_pcat_spec [OF d(1) u], unfolded append_Nil])
         (use d in \<open>auto simp: roomy_def\<close>)
  qed
qed

subsection \<open>Properties\<close>

text \<open>A well-formed buffer of the initial size, for concrete instances.\<close>

definition cs_of :: "string \<Rightarrow> cstring" where
  "cs_of t = \<lparr>cs_size = 256, cs_len = length t, cs_data = t @ NUL # replicate (255 - length t) (CHR ''?'')\<rparr>"

lemma cs_rep_cs_of: "c_string t \<Longrightarrow> length t < 256 \<Longrightarrow> cs_rep (cs_of t) t"
  by (rule cs_repI [where rest = "replicate (255 - length t) (CHR ''?'')"]) (simp_all add: cs_of_def PTRDIFF_MAX_def)

lemma cs_inv_cs_of: "c_string t \<Longrightarrow> length t < 256 \<Longrightarrow> cs_inv (cs_of t)"
  using cs_rep_cs_of cs_inv_iff by blast

lemma cs_str_cs_of [simp]: "cs_str (cs_of t) = t"
  by (simp add: cs_of_def cs_str_def)

lemma cs_postE:
  assumes "cs_post ok a r t u"
  shows "\<exists>st s' a'. r = Some (st, s', a') \<and> cs_inv s' \<and> cs_str s' = (if st then t else u) \<and> (ok \<longrightarrow> st)"
proof -
  obtain st s' a' where "r = Some (st, s', a')" "cs_rep s' (if st then t else u)" "ok \<longrightarrow> st"
    using assms unfolding cs_post_def by blast
  then show ?thesis using cs_rep_str cs_inv_iff by blast
qed

lemma cs_new_postE:
  assumes "cs_new_post ok a r t"
  shows "\<exists>p a'. r = Some (p, a') \<and> (case p of None \<Rightarrow> \<not> ok | Some s' \<Rightarrow> cs_inv s' \<and> cs_str s' = t)"
proof -
  obtain p a' where "r = Some (p, a')" "\<forall>s. p = Some s \<longrightarrow> cs_rep s t" "ok \<longrightarrow> p \<noteq> None"
    using assms unfolding cs_new_post_def by blast
  then show ?thesis using cs_rep_str cs_inv_iff by (cases p) auto
qed

text \<open>
  C38. Appending. On a well-formed string, for every pattern of allocation failures,
  \<open>cstring_concat\<close>, \<open>cstring_charcat\<close> and \<open>cstring_printf\<close> return without touching a byte outside the
  buffer or violating an assert, keep the invariant, and either append exactly the text or
  report failure and leave the string as it was. They succeed whenever the text fits the
  buffer or the allocator fails no call.
\<close>
theorem cstring_append_correct:
  assumes "cs_inv s" "c_string src" "length src < PTRDIFF_MAX" "c \<noteq> NUL"
  shows "(\<exists>st s' a'. cstring_concat s src a = Some (st, s', a') \<and> cs_inv s' \<and>
            cs_str s' = (if st then cs_str s @ src else cs_str s) \<and>
            (roomy s (length (cs_str s)) (length src) a \<longrightarrow> st)) \<and>
         (\<exists>st s' a'. cstring_charcat s c a = Some (st, s', a') \<and> cs_inv s' \<and>
            cs_str s' = (if st then cs_str s @ [c] else cs_str s) \<and>
            (roomy s (length (cs_str s)) 1 a \<longrightarrow> st)) \<and>
         (\<exists>st s' a'. cstring_printf s (Some src) a = Some (st, s', a') \<and> cs_inv s' \<and>
            cs_str s' = (if st then cs_str s @ src else cs_str s) \<and>
            (roomy s (length (cs_str s)) (Suc (length src)) a \<longrightarrow> st))"
proof -
  have rep: "cs_rep s (cs_str s)" using assms(1) by (simp add: cs_inv_def)
  show ?thesis unfolding cstring_printf_def
    by (intro conjI cs_postE [of _ a] cstring_concat_spec [OF rep] cstring_charcat_spec [OF rep] cstring_vprintf_spec [OF rep])
       (use assms in auto)
qed

theorem cstring_append_correct_witness:
  "cs_inv (cs_of ''ab'') \<and> (\<exists>st s' a'. cstring_concat (cs_of ''ab'') ''cd'' no_oom = Some (st, s', a') \<and> cs_inv s' \<and>
      cs_str s' = (if st then cs_str (cs_of ''ab'') @ ''cd'' else cs_str (cs_of ''ab'')) \<and>
      (roomy (cs_of ''ab'') (length (cs_str (cs_of ''ab''))) (length ''cd'') no_oom \<longrightarrow> st))"
proof -
  have h: "cs_inv (cs_of ''ab'')" "c_string ''cd''" "length ''cd'' < PTRDIFF_MAX" "CHR ''x'' \<noteq> NUL"
    by (simp_all add: cs_inv_cs_of PTRDIFF_MAX_def)
  show ?thesis using h(1) cstring_append_correct [OF h, of no_oom] by blast
qed

text \<open>
  Assigning. \<open>cstring_set\<close> and \<open>cstring_nset\<close> replace the string by the source, respectively by
  its first \<open>n\<close> characters. When memory runs out they report failure and the old string is lost:
  the buffer holds the empty string. \<open>cstring_dup\<close> makes a new string or returns \<open>NULL\<close>, which it
  does not when the allocator fails no call.
\<close>
theorem cstring_assign_correct:
  assumes "cs_inv s" "c_string src" "length src \<le> PTRDIFF_MAX"
  shows "(\<exists>st s' a'. cstring_set s src a = Some (st, s', a') \<and> cs_inv s' \<and> cs_str s' = (if st then src else []) \<and>
            (roomy s 0 (length src) a \<longrightarrow> st)) \<and>
         (\<exists>st s' a'. cstring_nset s src n a = Some (st, s', a') \<and> cs_inv s' \<and>
            cs_str s' = (if st then take n src else []) \<and> (roomy s 0 (length (take n src)) a \<longrightarrow> st)) \<and>
         (\<exists>p a'. cstring_dup src a = Some (p, a') \<and>
            (case p of None \<Rightarrow> \<not> affordable (length src) a | Some s' \<Rightarrow> cs_inv s' \<and> cs_str s' = src))"
proof -
  have rep: "cs_rep s (cs_str s)" using assms(1) by (simp add: cs_inv_def)
  show ?thesis
    by (intro conjI cs_postE [of _ a] cs_new_postE [of _ a] cstring_set_spec [OF rep] cstring_nset_spec [OF rep] cstring_dup_spec assms)
qed

theorem cstring_assign_correct_witness:
  "cs_inv (cs_of ''ab'') \<and> (\<exists>p a'. cstring_dup ''hello'' no_oom = Some (p, a') \<and>
      (case p of None \<Rightarrow> \<not> affordable (length ''hello'') no_oom | Some s' \<Rightarrow> cs_inv s' \<and> cs_str s' = ''hello''))"
proof -
  have h: "cs_inv (cs_of ''ab'')" "c_string ''hello''" "length ''hello'' \<le> PTRDIFF_MAX"
    by (simp_all add: cs_inv_cs_of PTRDIFF_MAX_def)
  show ?thesis using h(1) cstring_assign_correct [OF h, of no_oom 3] by blast
qed

text \<open>
  Extracting. \<open>cstring_left\<close>, \<open>cstring_right\<close> and \<open>cstring_substring\<close> return a new well-formed
  string with the first \<open>n\<close>, the last \<open>n\<close>, respectively the characters \<open>from\<close> up to \<open>to\<close> of the
  source, or \<open>NULL\<close>, and \<open>NULL\<close> only when an allocation failed.
\<close>
theorem cstring_extract_correct:
  assumes "cs_inv s" "n \<le> PTRDIFF_MAX" "from < to" "to \<le> length (cs_str s)"
  shows "(\<exists>p a'. cstring_left s n a = Some (p, a') \<and> (case p of None \<Rightarrow> \<not> affordable n a
            | Some s' \<Rightarrow> cs_inv s' \<and> cs_str s' = take n (cs_str s))) \<and>
         (\<exists>p a'. cstring_right s n a = Some (p, a') \<and> (case p of None \<Rightarrow> \<not> affordable n a
            | Some s' \<Rightarrow> cs_inv s' \<and> cs_str s' = drop (length (cs_str s) - n) (cs_str s))) \<and>
         (\<exists>p a'. cstring_substring s from to a = Some (p, a') \<and> (case p of None \<Rightarrow> \<not> affordable (to - from + 1) a
            | Some s' \<Rightarrow> cs_inv s' \<and> cs_str s' = take (to - from) (drop from (cs_str s))))"
proof -
  have rep: "cs_rep s (cs_str s)" using assms(1) by (simp add: cs_inv_def)
  show ?thesis
    by (intro conjI cs_new_postE [of _ a] cstring_left_spec [OF rep] cstring_right_spec [OF rep]
        cstring_substring_spec [OF rep] assms)
qed

theorem cstring_extract_correct_witness:
  "cs_inv (cs_of ''hello, world'') \<and> (\<exists>p a'. cstring_substring (cs_of ''hello, world'') 7 12 no_oom = Some (p, a') \<and>
      (case p of None \<Rightarrow> \<not> affordable (12 - 7 + 1) no_oom
       | Some s' \<Rightarrow> cs_inv s' \<and> cs_str s' = take (12 - 7) (drop 7 (cs_str (cs_of ''hello, world'')))))"
proof -
  have h: "cs_inv (cs_of ''hello, world'')" "(5::nat) \<le> PTRDIFF_MAX" "(7::nat) < 12"
      "12 \<le> length (cs_str (cs_of ''hello, world''))"
    by (simp_all add: cs_inv_cs_of PTRDIFF_MAX_def)
  show ?thesis using h(1) cstring_extract_correct [OF h, of no_oom] by blast
qed

text \<open>
  The sum \<open>s->size + size\<close> of \<open>cstring_extend\<close> can wrap: asked for the leftmost 2^64 - 100
  characters, \<open>cstring_left\<close> shrinks its fresh buffer to 156 bytes and the copy of a 200-character
  string then fails the assert that a buffer has at least 256 bytes.
\<close>

lemma cstring_extend_wraps:
  "cstring_extend (cs_of []) (2 ^ 64 - 100) no_oom =
     Some (success, \<lparr>cs_size = 156, cs_len = 0, cs_data = NUL # replicate 155 (CHR ''?'')\<rparr>, no_oom)"
proof -
  have "cstr_at (NUL # replicate 155 (CHR ''?'')) 0 = Some []" by (simp add: cstr_at_def)
  then show ?thesis
    by (simp add: cstring_extend_def cs_of_def CSTRING_INITIAL_SIZE_def szt_def SIZE_MOD_def try_alloc_def
        PTRDIFF_MAX_def no_oom_def realloc_bytes_def fresh_bytes_def checked_def len_is_strlen_def Let_def)
qed

end
