(* ===== verification/Cstring_Edit.thy ===== *)
theory Cstring_Edit
  imports Cstring
begin

section \<open>Editing and splitting growable strings (\<open>src/meta/src/cstring.c\<close>)\<close>

text \<open>
  The operations of \<open>cstring.c\<close> that edit a string in place (reverse, strip, case conversion,
  insert, cut, replace, truncate), search it, and split a text into an array of strings. Then
  their effect on the abstract string, the buffer size \<open>cstring_cut\<close> needs, and that splitting
  yields exactly the words of the text.
\<close>

subsection \<open>Loops over the buffer\<close>

text \<open>The swap loop of \<open>cstring_reverse\<close>: \<open>beg\<close> and \<open>fin\<close> are the two moving pointers.\<close>

function reverse_loop :: "char list \<Rightarrow> nat \<Rightarrow> nat \<Rightarrow> char list option" where
  "reverse_loop d beg fin = (if beg < fin then do {
       e \<leftarrow> get_at d fin;
       b \<leftarrow> get_at d beg;
       d \<leftarrow> put_at d fin b;
       d \<leftarrow> put_at d beg e;
       reverse_loop d (Suc beg) (fin - 1) }
     else Some d)"
  by pat_completeness auto
termination by (relation "measure (\<lambda>(d, beg, fin). fin - beg)") auto

declare reverse_loop.simps [simp del]

definition cstring_reverse :: "cstring \<Rightarrow> cstring option" where
  "cstring_reverse s = (if 0 < cs_len s then do {
       d \<leftarrow> reverse_loop (cs_data s) 0 (cs_len s - 1);
       Some (s\<lparr>cs_data := d\<rparr>) }
     else Some s)"

text \<open>\<open>while (i-- > 0 && isspace(s->data[i]))\<close>, shared by \<open>cstring_rstrip\<close> and \<open>cstring_strip\<close>.\<close>

fun rstrip_loop :: "nat \<Rightarrow> cstring \<Rightarrow> cstring option" where
  "rstrip_loop 0 s = Some s"
| "rstrip_loop (Suc i) s = do {
     c \<leftarrow> get_at (cs_data s) i;
     if isspace c then do {
       d \<leftarrow> put_at (cs_data s) i NUL;
       rstrip_loop i (s\<lparr>cs_data := d, cs_len := szsub (cs_len s) 1\<rparr>) }
     else Some s }"

definition cstring_rstrip :: "cstring \<Rightarrow> cstring option" where
  "cstring_rstrip s = rstrip_loop (cs_len s) s"

function lead_loop :: "cstring \<Rightarrow> nat \<Rightarrow> nat option" where
  "lead_loop s i = (if i < cs_len s then do {
       c \<leftarrow> get_at (cs_data s) i;
       if isspace c then lead_loop s (Suc i) else Some i }
     else Some i)"
  by pat_completeness auto
termination by (relation "measure (\<lambda>(s, i). cs_len s - i)") auto

declare lead_loop.simps [simp del]

definition cstring_strip :: "cstring \<Rightarrow> cstring option" where
  "cstring_strip s = do {
     s \<leftarrow> rstrip_loop (cs_len s) s;
     i \<leftarrow> lead_loop s 0;
     if 0 < i then do {
       let len = szsub (cs_len s) i;
       d \<leftarrow> memmove (cs_data s) 0 i len;
       d \<leftarrow> put_at d len NUL;
       Some (s\<lparr>cs_data := d, cs_len := len\<rparr>) }
     else Some s }"

text \<open>The loops of \<open>cstring_lower\<close> and \<open>cstring_upper\<close> differ in the class and the conversion.\<close>

function case_loop :: "(char \<Rightarrow> bool) \<Rightarrow> (char \<Rightarrow> char) \<Rightarrow> cstring \<Rightarrow> nat \<Rightarrow> cstring option" where
  "case_loop cls conv s i = (if i < cs_len s then do {
       c \<leftarrow> get_at (cs_data s) i;
       if cls c then do {
         d \<leftarrow> put_at (cs_data s) i (conv c);
         case_loop cls conv (s\<lparr>cs_data := d\<rparr>) (Suc i) }
       else case_loop cls conv s (Suc i) }
     else Some s)"
  by pat_completeness auto
termination by (relation "measure (\<lambda>(cls, conv, s, i). cs_len s - i)") auto

declare case_loop.simps [simp del]

definition cstring_lower :: "cstring \<Rightarrow> cstring option" where
  "cstring_lower s = case_loop isupper tolower s 0"

definition cstring_upper :: "cstring \<Rightarrow> cstring option" where
  "cstring_upper s = case_loop islower toupper s 0"

subsection \<open>Insert, cut, replace, truncate, find\<close>

definition cstring_insert :: "cstring \<Rightarrow> size_t \<Rightarrow> string \<Rightarrow> allocator \<Rightarrow> (status_t \<times> cstring \<times> allocator) option" where
  "cstring_insert dest offset src a =
     (if offset \<le> cs_len dest then do {
        let slen = length src;
        (st, dest, a) \<leftarrow> make_room dest slen a;
        if st then do {
          d \<leftarrow> memmove (cs_data dest) (offset + slen) offset (cs_len dest - offset);
          d \<leftarrow> wr d offset src;
          let len = szt (cs_len dest + slen);
          d \<leftarrow> put_at d len NUL;
          Some (success, dest\<lparr>cs_data := d, cs_len := len\<rparr>, a) }
        else Some (failure, dest, a) }
      else None)"

definition cstring_cut :: "cstring \<Rightarrow> size_t \<Rightarrow> size_t \<Rightarrow> cstring option" where
  "cstring_cut s offset n =
     (if offset < cs_len s \<and> n \<le> cs_len s \<and> szt (offset + n) \<le> cs_len s then do {
        d \<leftarrow> memmove (cs_data s) offset (offset + n) (cs_len s - offset);
        Some (s\<lparr>cs_data := d, cs_len := szsub (cs_len s) n\<rparr>) }
      else None)"

definition cstring_replace :: "cstring \<Rightarrow> size_t \<Rightarrow> size_t \<Rightarrow> string \<Rightarrow> allocator \<Rightarrow> (status_t \<times> cstring \<times> allocator) option" where
  "cstring_replace s offset n to a =
     (if offset < cs_len s \<and> n < cs_len s \<and> szt (offset + n) \<le> cs_len s then do {
        s \<leftarrow> cstring_cut s offset n;
        cstring_insert s offset to a }
      else None)"

definition cstring_truncate :: "cstring \<Rightarrow> size_t \<Rightarrow> cstring option" where
  "cstring_truncate s offset =
     (if offset < cs_len s then do {
        d \<leftarrow> put_at (cs_data s) offset NUL;
        Some (s\<lparr>cs_data := d, cs_len := offset\<rparr>) }
      else None)"

text \<open>The cast \<open>(int)\<close> of a 64-bit value keeps its low 32 bits, read as a signed number.\<close>

definition to_int :: "nat \<Rightarrow> int" where
  "to_int n = (let m = n mod 2 ^ 32 in if m < 2 ^ 31 then int m else int m - 2 ^ 32)"

text \<open>\<open>strchr\<close> also finds the terminator itself.\<close>

definition cstring_find :: "cstring \<Rightarrow> char \<Rightarrow> int option" where
  "cstring_find s c = do {
     t \<leftarrow> cstr_at (cs_data s) 0;
     Some (case strchr (t @ [NUL]) c of None \<Rightarrow> -1 | Some p \<Rightarrow> to_int p) }"

definition cstring_findstr :: "cstring \<Rightarrow> string \<Rightarrow> int option" where
  "cstring_findstr s str = do {
     t \<leftarrow> cstr_at (cs_data s) 0;
     Some (case strstr t str of None \<Rightarrow> -1 | Some p \<Rightarrow> to_int p) }"

text \<open>\<open>cstring_compare\<close> and \<open>cstring_casecompare\<close>, whose callers test the result against 0.\<close>

definition cstring_compare :: "cstring \<Rightarrow> string \<Rightarrow> bool option" where
  "cstring_compare s str = do { t \<leftarrow> cstr_at (cs_data s) 0; Some (strcmp0 t str) }"

definition cstring_casecompare :: "cstring \<Rightarrow> string \<Rightarrow> bool option" where
  "cstring_casecompare s str = do { t \<leftarrow> cstr_at (cs_data s) 0; Some (strcasecmp0 t str) }"

definition cstring_equal :: "cstring \<Rightarrow> cstring \<Rightarrow> bool option" where
  "cstring_equal lhs rhs =
     (if cs_len lhs = cs_len rhs then do {
        t \<leftarrow> cstr_at (cs_data lhs) 0;
        u \<leftarrow> cstr_at (cs_data rhs) 0;
        Some (strcmp0 t u) }
      else Some False)"

definition cstring_length :: "cstring \<Rightarrow> size_t option" where
  "cstring_length s = (if len_is_strlen s then Some (cs_len s) else None)"

subsection \<open>Arrays of strings and splitting\<close>

fun multinew_loop :: "nat \<Rightarrow> cstring list \<Rightarrow> allocator \<Rightarrow> status_t \<times> cstring list \<times> allocator" where
  "multinew_loop 0 acc a = (success, acc, a)"
| "multinew_loop (Suc k) acc a =
     (case cstring_new a of
        (None, a) \<Rightarrow> (failure, [], a)
      | (Some s, a) \<Rightarrow> multinew_loop k (acc @ [s]) a)"

definition cstring_multinew :: "size_t \<Rightarrow> allocator \<Rightarrow> (status_t \<times> cstring list \<times> allocator) option" where
  "cstring_multinew nelem a = (if 0 < nelem then Some (multinew_loop nelem [] a) else None)"

text \<open>The counting loop and the copying loop of \<open>cstring_split\<close>; \<open>s\<close> is the rest of the text.\<close>

lemma split_decreases:
  assumes "s \<noteq> []"
  shows "length (drop (strspn (drop (strcspn s delim) s) delim) (drop (strcspn s delim) s)) < length s"
proof (cases "hd s \<in> set delim")
  case True
  with assms have "strcspn s delim = 0" "0 < strspn s delim"
    by (cases s; simp add: strcspn_def strspn_def)+
  with assms show ?thesis by simp
next
  case False
  with assms have "0 < strcspn s delim" by (cases s) (simp_all add: strcspn_def)
  with assms show ?thesis by simp
qed

function split_count :: "string \<Rightarrow> string \<Rightarrow> nat" where
  "split_count s delim = (if s = [] then 0 else
     (let s = drop (strcspn s delim) s; s = drop (strspn s delim) s in Suc (split_count s delim)))"
  by pat_completeness auto
termination by (relation "measure (length \<circ> fst)") (use split_decreases in \<open>auto simp del: length_drop\<close>)

declare split_count.simps [simp del]

function split_copy :: "string \<Rightarrow> string \<Rightarrow> cstring list \<Rightarrow> nat \<Rightarrow> allocator \<Rightarrow> (status_t \<times> cstring list \<times> allocator) option" where
  "split_copy s delim dest i a = (if s = [] then Some (success, dest, a) else do {
     let fin = strcspn s delim;
     d \<leftarrow> get_at dest i;
     (st, d, a) \<leftarrow> cstring_pcat d (take fin s) a;
     if st then do {
       dest \<leftarrow> put_at dest i d;
       let s = drop fin s;
       split_copy (drop (strspn s delim) s) delim dest (Suc i) a }
     else Some (failure, dest, a) })"
  by pat_completeness auto
termination
  by (relation "measure (length \<circ> fst)") (use split_decreases in \<open>auto simp del: length_drop\<close>)

declare split_copy.simps [simp del]

text \<open>
  \<open>cstring_split\<close>: the number of elements and the array; 0 when there is nothing to split or
  memory runs out. \<open>s - src == (int)len\<close> compares with the length cast to \<open>int\<close>.
\<close>

definition cstring_split :: "string \<Rightarrow> string \<Rightarrow> allocator \<Rightarrow> (size_t \<times> cstring list \<times> allocator) option" where
  "cstring_split src delim a =
     (let skip = strspn src delim; s = drop skip src in
      if int skip = to_int (length src) then Some (0, [], a)
      else let nelem = split_count s delim in
        case try_alloc (szt (8 * nelem)) a of
          (False, a) \<Rightarrow> Some (0, [], a)
        | (True, a) \<Rightarrow> do {
            (st, dest, a) \<leftarrow> cstring_multinew nelem a;
            if st then do {
              (st, dest, a) \<leftarrow> split_copy s delim dest 0 a;
              Some (if st then (nelem, dest, a) else (0, [], a)) }
            else Some (0, [], a) })"

subsection \<open>Effect of the in-place edits\<close>

lemma cs_rep_update:
  assumes rep: "cs_rep s t" and u: "length u = length t" "c_string u"
    and d: "cs_data s' = u @ drop (length t) (cs_data s)" "cs_size s' = cs_size s" "cs_len s' = cs_len s"
  shows "cs_rep s' u"
proof -
  obtain rest where r: "cs_data s = t @ NUL # rest" "length t + Suc (length rest) = cs_size s"
    "256 \<le> cs_size s" "cs_size s \<le> PTRDIFF_MAX" "cs_len s = length t"
    using rep by (auto elim!: cs_rep_dataE)
  with u d show ?thesis by (intro cs_repI [where rest = rest]) auto
qed

lemma reverse_loop_mid:
  "reverse_loop (xs @ mid @ ys) (length xs) (length xs + length mid - 1) = Some (xs @ rev mid @ ys)"
proof (induction "length mid" arbitrary: xs mid ys rule: less_induct)
  case less
  show ?case
  proof (cases "length mid \<le> 1")
    case True
    then have "rev mid = mid" by (cases mid) auto
    with True show ?thesis by (subst reverse_loop.simps) auto
  next
    case False
    then obtain a m b where mid: "mid = a # m @ [b]"
      by (metis One_nat_def append_butlast_last_id length_0_conv length_Cons list.exhaust nat_le_linear le_zero_eq less_numeral_extra(3))
    have "reverse_loop (xs @ mid @ ys) (length xs) (length xs + length mid - 1) =
      reverse_loop ((xs @ [b]) @ m @ (a # ys)) (length (xs @ [b])) (length (xs @ [b]) + length m - 1)"
      by (subst reverse_loop.simps) (simp add: mid get_at_def put_at_def nth_append list_update_append)
    also have "\<dots> = Some (xs @ rev mid @ ys)"
      by (subst less.hyps) (simp_all add: mid)
    finally show ?thesis .
  qed
qed

lemma cstring_reverse_spec: "cs_rep s t \<Longrightarrow> \<exists>s'. cstring_reverse s = Some s' \<and> cs_rep s' (rev t)"
proof -
  assume rep: "cs_rep s t"
  then obtain rest where r: "cs_data s = t @ NUL # rest" "cs_len s = length t" "c_string t"
    by (auto elim!: cs_rep_dataE)
  show ?thesis
  proof (cases "t = []")
    case False
    have "reverse_loop (cs_data s) 0 (cs_len s - 1) = Some (rev t @ NUL # rest)"
      using reverse_loop_mid [of "[]" t "NUL # rest"] r by simp
    with False r rep show ?thesis
      by (auto simp: cstring_reverse_def intro!: cs_rep_update [OF rep])
  qed (use rep r in \<open>simp add: cstring_reverse_def\<close>)
qed

definition rstrip :: "string \<Rightarrow> string" where
  "rstrip t = rev (dropWhile isspace (rev t))"

lemma rstrip_snoc [simp]: "rstrip (t @ [c]) = (if isspace c then rstrip t else t @ [c])"
  by (simp add: rstrip_def)

lemma rstrip_Nil [simp]: "rstrip [] = []"
  by (simp add: rstrip_def)

lemma rstrip_loop_spec:
  "cs_rep s t \<Longrightarrow> \<exists>s'. rstrip_loop (length t) s = Some s' \<and> cs_rep s' (rstrip t)"
proof (induction t arbitrary: s rule: rev_induct)
  case (snoc c t)
  obtain rest where r: "cs_data s = t @ c # NUL # rest" "length t + 2 + length rest = cs_size s"
    "cs_len s = Suc (length t)" "c_string t" "256 \<le> cs_size s" "cs_size s \<le> PTRDIFF_MAX"
    using snoc.prems by (elim cs_rep_dataE) auto
  show ?case
  proof (cases "isspace c")
    case True
    have "szsub (cs_len s) 1 = length t" using r PTRDIFF_SIZE by (simp add: szsub_le)
    then have "cs_rep (s\<lparr>cs_data := (cs_data s)[length t := NUL], cs_len := szsub (cs_len s) 1\<rparr>) t"
      using r by (intro cs_repI [where rest = "NUL # rest"]) (auto simp: list_update_append)
    from snoc.IH [OF this] show ?thesis using True r
      by (auto simp: get_at_def put_at_def nth_append)
  qed (use r snoc.prems in \<open>simp add: get_at_def nth_append\<close>)
qed simp

lemma lead_loop_spec:
  "cs_rep s t \<Longrightarrow> i \<le> length t \<Longrightarrow> lead_loop s i = Some (i + length (takeWhile isspace (drop i t)))"
proof (induction "length t - i" arbitrary: i)
  case 0
  then show ?case by (subst lead_loop.simps) (simp add: cs_rep_def)
next
  case (Suc k)
  then have i: "i < length t" by simp
  obtain rest where r: "cs_data s = t @ NUL # rest" "cs_len s = length t"
    using Suc.prems(1) by (auto elim!: cs_rep_dataE)
  have d: "drop i t = t ! i # drop (Suc i) t" using i by (simp add: Cons_nth_drop_Suc)
  have g: "get_at (cs_data s) i = Some (t ! i)" using i r by (simp add: get_at_def nth_append)
  from Suc.hyps(1) [of "Suc i"] Suc.prems Suc.hyps(2) i
  have "lead_loop s (Suc i) = Some (Suc i + length (takeWhile isspace (drop (Suc i) t)))" by simp
  then show ?case by (subst lead_loop.simps) (simp add: i r(2) g d)
qed

lemma cstring_rstrip_spec: "cs_rep s t \<Longrightarrow> \<exists>s'. cstring_rstrip s = Some s' \<and> cs_rep s' (rstrip t)"
  using rstrip_loop_spec [of s t] by (simp add: cstring_rstrip_def cs_rep_def)

lemma cstring_strip_spec:
  assumes rep: "cs_rep s t"
  shows "\<exists>s'. cstring_strip s = Some s' \<and> cs_rep s' (dropWhile isspace (rstrip t))"
proof -
  obtain s1 where s1: "rstrip_loop (cs_len s) s = Some s1" "cs_rep s1 (rstrip t)"
    using rstrip_loop_spec [OF rep] rep by (auto simp: cs_rep_def)
  let ?u = "rstrip t" and ?i = "length (takeWhile isspace (rstrip t))"
  have i: "lead_loop s1 0 = Some ?i" using lead_loop_spec [OF s1(2), of 0] by simp
  obtain rest where r: "cs_data s1 = ?u @ NUL # rest" "length ?u + Suc (length rest) = cs_size s1"
    "cs_len s1 = length ?u" "c_string ?u" "256 \<le> cs_size s1" "cs_size s1 \<le> PTRDIFF_MAX"
    using s1(2) by (auto elim!: cs_rep_dataE)
  have il: "?i \<le> length ?u" by (rule length_takeWhile_le)
  have dw: "dropWhile isspace ?u = drop ?i ?u" by (rule dropWhile_eq_drop)
  have len: "szsub (cs_len s1) ?i = length ?u - ?i" using r il PTRDIFF_SIZE by (simp add: szsub_le)
  show ?thesis
  proof (cases "?i = 0")
    case True
    then show ?thesis using s1 i dw by (simp add: cstring_strip_def)
  next
    case False
    let ?d = "drop ?i ?u @ drop (length ?u - ?i) (?u @ NUL # rest)"
    have mv: "memmove (cs_data s1) 0 ?i (length ?u - ?i) = Some ?d"
      using r il by (subst memmove_Some) auto
    have "length ?u - ?i < length (cs_data s1)" "length ?d = length (cs_data s1)" using r il by auto
    then have pt: "put_at ?d (length ?u - ?i) NUL =
        Some (drop ?i ?u @ NUL # drop (Suc (length ?u - ?i)) (?u @ NUL # rest))"
      by (simp add: put_at_wr wr_def)
    have "cs_rep (s1\<lparr>cs_data := drop ?i ?u @ NUL # drop (Suc (length ?u - ?i)) (?u @ NUL # rest),
          cs_len := length ?u - ?i\<rparr>) (drop ?i ?u)"
      by (rule cs_repI [where rest = "drop (Suc (length ?u - ?i)) (?u @ NUL # rest)"]) (use r il in auto)
    then show ?thesis using s1(1) i False mv pt len dw by (simp add: cstring_strip_def Let_def)
  qed
qed

lemma case_loop_spec:
  assumes conv: "\<And>c. cls c \<Longrightarrow> c \<noteq> NUL \<Longrightarrow> conv c \<noteq> NUL"
  shows "cs_rep s (u @ v) \<Longrightarrow>
    \<exists>s'. case_loop cls conv s (length u) = Some s' \<and> cs_rep s' (u @ map (\<lambda>c. if cls c then conv c else c) v)"
proof (induction v arbitrary: u s)
  case Nil
  then show ?case by (subst case_loop.simps) (simp add: cs_rep_def)
next
  case (Cons c v)
  obtain rest where r: "cs_data s = (u @ c # v) @ NUL # rest" "cs_len s = length (u @ c # v)"
      "length (u @ c # v) + Suc (length rest) = cs_size s" "c_string (u @ c # v)"
    using Cons.prems by (elim cs_rep_dataE) blast
  have g: "get_at (cs_data s) (length u) = Some c" "length u < cs_len s"
    using r by (auto simp: get_at_def nth_append)
  let ?s = "s\<lparr>cs_data := (cs_data s)[length u := conv c]\<rparr>"
  show ?case
  proof (cases "cls c")
    case True
    have p: "put_at (cs_data s) (length u) (conv c) = Some (cs_data ?s)"
      using r by (simp add: put_at_def)
    have "cs_rep ?s ((u @ [conv c]) @ v)"
      by (rule cs_rep_update [OF Cons.prems]) (use r conv True in \<open>auto simp: list_update_append\<close>)
    from Cons.IH [OF this] show ?thesis using True g p by (subst case_loop.simps) simp
  next
    case False
    from Cons.IH [of s "u @ [c]"] Cons.prems False g show ?thesis by (subst case_loop.simps) simp
  qed
qed

lemma cstring_lower_spec: "cs_rep s t \<Longrightarrow> \<exists>s'. cstring_lower s = Some s' \<and> cs_rep s' (map tolower t)"
proof -
  assume "cs_rep s t"
  then have "\<exists>s'. case_loop isupper tolower s 0 = Some s' \<and> cs_rep s' (map (\<lambda>c. if isupper c then tolower c else c) t)"
    using case_loop_spec [of isupper tolower s "[]" t] by simp
  moreover have "(\<lambda>c. if isupper c then tolower c else c) = tolower" by (auto simp: tolower_def)
  ultimately show ?thesis by (simp add: cstring_lower_def)
qed

lemma cstring_upper_spec: "cs_rep s t \<Longrightarrow> \<exists>s'. cstring_upper s = Some s' \<and> cs_rep s' (map toupper t)"
proof -
  assume "cs_rep s t"
  then have "\<exists>s'. case_loop islower toupper s 0 = Some s' \<and> cs_rep s' (map (\<lambda>c. if islower c then toupper c else c) t)"
    using case_loop_spec [of islower toupper s "[]" t] by simp
  moreover have "(\<lambda>c. if islower c then toupper c else c) = toupper" by (auto simp: toupper_def)
  ultimately show ?thesis by (simp add: cstring_upper_def)
qed

subsection \<open>Insert, cut, replace and truncate\<close>

lemma insert_bytes:
  assumes rep: "cs_rep s t" and src: "c_string src" "length t + length src < cs_size s" and off: "off \<le> length t"
  shows "\<exists>d1 d2 d3. memmove (cs_data s) (off + length src) off (cs_len s - off) = Some d1 \<and>
    wr d1 off src = Some d2 \<and> put_at d2 (szt (cs_len s + length src)) NUL = Some d3 \<and>
    cs_rep (s\<lparr>cs_data := d3, cs_len := szt (cs_len s + length src)\<rparr>) (take off t @ src @ drop off t)"
proof -
  obtain rest where r: "cs_data s = t @ NUL # rest" "length t + Suc (length rest) = cs_size s"
    "cs_len s = length t" "c_string t" "256 \<le> cs_size s" "cs_size s \<le> PTRDIFF_MAX"
    using rep by (auto elim!: cs_rep_dataE)
  let ?D = "cs_data s" and ?n = "length src"
  have len: "szt (cs_len s + ?n) = length t + ?n" using r src PTRDIFF_SIZE by simp
  have m1: "memmove ?D (off + ?n) off (cs_len s - off) =
      Some (take (off + ?n) ?D @ drop off t @ drop (length t + ?n) ?D)" (is "_ = Some ?d1")
    using r src off by (subst memmove_Some) auto
  have m2: "wr ?d1 off src = Some (take off t @ src @ drop off t @ drop (length t + ?n) ?D)" (is "_ = Some ?d2")
    using r src off by (subst wr_Some) (auto simp: min_def)
  let ?d3 = "(take off t @ src @ drop off t) @ NUL # drop (Suc (length t + ?n)) ?D"
  have l: "length (take off t @ src @ drop off t) = length t + ?n" using off by simp
  have "put_at ?d2 (length t + ?n) NUL = Some (?d2[length t + ?n := NUL])"
    using r src off by (subst put_at_Some) auto
  also have "?d2[length t + ?n := NUL] = (take off t @ src @ drop off t) @ (drop (length t + ?n) ?D)[0 := NUL]"
    using list_update_append [of "take off t @ src @ drop off t" "drop (length t + ?n) ?D" "length t + ?n" NUL] l
    by simp
  also have "(drop (length t + ?n) ?D)[0 := NUL] = NUL # drop (Suc (length t + ?n)) ?D"
    using r src by (subst update_0) (auto simp: drop_Suc tl_drop)
  finally have m3: "put_at ?d2 (length t + ?n) NUL = Some ?d3" .
  have "cs_rep (s\<lparr>cs_data := ?d3, cs_len := length t + ?n\<rparr>) (take off t @ src @ drop off t)"
    by (rule cs_repI [where rest = "drop (Suc (length t + ?n)) ?D"]) (use r src off l in auto)
  with m1 m2 m3 len show ?thesis by metis
qed

lemma cstring_insert_spec:
  assumes rep: "cs_rep s t" and off: "off \<le> length t" and src: "c_string src" "length src \<le> PTRDIFF_MAX"
  shows "cs_post (roomy s (length t) (length src) a) a (cstring_insert s off src a) (take off t @ src @ drop off t) t"
proof -
  have "cs_post True a' (memmove (cs_data s') (off + length src) off (cs_len s' - off) \<bind> (\<lambda>d. wr d off src \<bind>
      (\<lambda>d. put_at d (szt (cs_len s' + length src)) NUL \<bind>
      (\<lambda>d. Some (True, s'\<lparr>cs_data := d, cs_len := szt (cs_len s' + length src)\<rparr>, a')))))
      (take off t @ src @ drop off t) t"
    if r: "cs_rep s' t" "length t + length src < cs_size s'" for s' a'
  proof -
    obtain d1 d2 d3 where "memmove (cs_data s') (off + length src) off (cs_len s' - off) = Some d1"
        "wr d1 off src = Some d2" "put_at d2 (szt (cs_len s' + length src)) NUL = Some d3"
        "cs_rep (s'\<lparr>cs_data := d3, cs_len := szt (cs_len s' + length src)\<rparr>) (take off t @ src @ drop off t)"
      using insert_bytes [OF r(1) src(1) r(2) off] by blast
    then show ?thesis by (intro cs_postI) auto
  qed
  moreover have g: "off \<le> cs_len s" using rep off by (simp add: cs_rep_def)
  ultimately show ?thesis unfolding cstring_insert_def Let_def if_P [OF g]
    by (intro cs_post_room [OF rep src(2)])
qed

text \<open>
  \<open>cstring_cut\<close> moves \<open>len - offset\<close> bytes from \<open>offset + n\<close> on, so it reads \<open>n - 1\<close> bytes past the
  terminator: the buffer must be that large.
\<close>

lemma cstring_cut_spec:
  assumes rep: "cs_rep s t" and g: "off < length t" "off + n \<le> length t" and room: "length t + n \<le> cs_size s"
  shows "\<exists>s'. cstring_cut s off n = Some s' \<and> cs_rep s' (take off t @ drop (off + n) t)"
proof -
  obtain rest where r: "cs_data s = t @ NUL # rest" "length t + Suc (length rest) = cs_size s"
    "cs_len s = length t" "c_string t" "256 \<le> cs_size s" "cs_size s \<le> PTRDIFF_MAX"
    using rep by (auto elim!: cs_rep_dataE)
  have w: "szt (off + n) = off + n" "szsub (cs_len s) n = length t - n"
    using r g PTRDIFF_SIZE by (simp_all add: szsub_le)
  let ?d = "take off t @ take (length t - off) (drop (off + n) (cs_data s)) @ drop (length t) (cs_data s)"
  have mv: "memmove (cs_data s) off (off + n) (cs_len s - off) = Some ?d"
    using r g room by (subst memmove_Some) auto
  have "\<exists>rest'. ?d = (take off t @ drop (off + n) t) @ NUL # rest'"
  proof (cases n)
    case 0
    then show ?thesis using r g by (auto simp: append.assoc [symmetric] simp del: append.assoc)
  next
    case (Suc k)
    then have "length t - off = length (drop (off + n) t) + Suc k" using g by simp
    moreover have "drop (off + n) (cs_data s) = drop (off + n) t @ NUL # rest" using r g by simp
    ultimately have "take (length t - off) (drop (off + n) (cs_data s)) = drop (off + n) t @ NUL # take k rest"
      by simp
    then show ?thesis by simp
  qed
  then obtain rest' where d: "?d = (take off t @ drop (off + n) t) @ NUL # rest'" by blast
  have dl: "length ?d = length (cs_data s)" using r g room by auto
  have "cs_rep (s\<lparr>cs_data := ?d, cs_len := length t - n\<rparr>) (take off t @ drop (off + n) t)"
    by (rule cs_repI [where rest = rest']) (use d dl r g in auto)
  then show ?thesis using r g w mv by (simp add: cstring_cut_def)
qed

lemma cstring_cut_overread:
  assumes rep: "cs_rep s t" and g: "off + n \<le> length t" and over: "cs_size s < length t + n"
  shows "cstring_cut s off n = None"
proof -
  have "cs_len s = length t" "length (cs_data s) = cs_size s" using rep by (auto simp: cs_rep_def)
  then have "off < cs_len s \<Longrightarrow> memmove (cs_data s) off (off + n) (cs_len s - off) = None"
    using over g by (intro memmove_None) simp
  then show ?thesis by (simp add: cstring_cut_def)
qed

lemma cstring_replace_spec:
  assumes rep: "cs_rep s t" and g: "off < length t" "n < length t" "off + n \<le> length t"
    and room: "length t + n \<le> cs_size s" and u: "c_string u" "length u \<le> PTRDIFF_MAX"
  shows "cs_post False a (cstring_replace s off n u a) (take off t @ u @ drop (off + n) t) (take off t @ drop (off + n) t)"
proof -
  obtain s' where s': "cstring_cut s off n = Some s'" "cs_rep s' (take off t @ drop (off + n) t)"
    using cstring_cut_spec [OF rep g(1,3) room] by blast
  have "off \<le> length (take off t @ drop (off + n) t)" using g by simp
  note ins = cstring_insert_spec [OF s'(2) this u, of a]
  have "szt (off + n) = off + n" "cs_len s = length t" using g cs_rep_length [OF rep] by auto
  then have "cstring_replace s off n u a = cstring_insert s' off u a" using g s'(1) by (simp add: cstring_replace_def)
  moreover have e: "take off (take off t @ drop (off + n) t) = take off t"
    "drop off (take off t @ drop (off + n) t) = drop (off + n) t" using g by auto
  ultimately show ?thesis using cs_post_weaken [OF ins, unfolded e] by simp
qed

lemma cstring_truncate_spec:
  assumes rep: "cs_rep s t" and g: "off < length t"
  shows "\<exists>s'. cstring_truncate s off = Some s' \<and> cs_rep s' (take off t)"
proof -
  obtain rest where r: "cs_data s = t @ NUL # rest" "length t + Suc (length rest) = cs_size s"
    "cs_len s = length t" "c_string t" "256 \<le> cs_size s" "cs_size s \<le> PTRDIFF_MAX"
    using rep by (auto elim!: cs_rep_dataE)
  have "(cs_data s)[off := NUL] = take off t @ NUL # drop (Suc off) (cs_data s)"
    using r g by (simp add: upd_conv_take_nth_drop)
  then have "cs_rep (s\<lparr>cs_data := (cs_data s)[off := NUL], cs_len := off\<rparr>) (take off t)"
    by (intro cs_repI [where rest = "drop (Suc off) (cs_data s)"]) (use r g in auto)
  then show ?thesis using r g by (simp add: cstring_truncate_def put_at_def)
qed

subsection \<open>Searching and comparing\<close>

lemma to_int_small: "n < 2 ^ 31 \<Longrightarrow> to_int n = int n"
  by (simp add: to_int_def)

lemma cstring_find_spec:
  assumes rep: "cs_rep s t" and small: "length t < 2 ^ 31" and c: "c \<noteq> NUL"
  shows "\<exists>r. cstring_find s c = Some r \<and> (if c \<in> set t then
      0 \<le> r \<and> nat r < length t \<and> t ! nat r = c \<and> c \<notin> set (take (nat r) t) else r = -1)"
proof -
  have app: "strchr (t @ [NUL]) c = strchr t c" for t using c by (induction t) auto
  show ?thesis
  proof (cases "strchr t c")
    case None
    then show ?thesis using rep app strchr_None [of t c] by (simp add: cstring_find_def cs_rep_cstr_at)
  next
    case (Some p)
    then have "p < length t" "t ! p = c" "c \<notin> set (take p t)" using strchr_Some by blast+
    moreover from this have "c \<in> set t" by auto
    ultimately show ?thesis using rep app Some small
      by (simp add: cstring_find_def cs_rep_cstr_at to_int_small)
  qed
qed

lemma cstring_compare_spec:
  "cs_rep s t \<Longrightarrow> cstring_compare s u = Some (t = u)"
  "cs_rep s t \<Longrightarrow> cstring_casecompare s u = Some (map tolower t = map tolower u)"
  "cs_rep s t \<Longrightarrow> cstring_length s = Some (length t)"
  by (simp_all add: cstring_compare_def cstring_casecompare_def cs_rep_cstr_at strcmp0_def strcasecmp0_def
      cstring_length_def cs_rep_len_is_strlen cs_rep_length)

lemma cstring_equal_spec: "cs_rep s t \<Longrightarrow> cs_rep s' t' \<Longrightarrow> cstring_equal s s' = Some (t = t')"
  using cs_rep_length [of s t] cs_rep_length [of s' t']
  by (auto simp: cstring_equal_def cs_rep_cstr_at strcmp0_def)

subsection \<open>Splitting\<close>

text \<open>The words of a text, read character by character: the maximal runs of non-delimiters.\<close>

fun words :: "string \<Rightarrow> string \<Rightarrow> string \<Rightarrow> string list" where
  "words delim cur [] = (if cur = [] then [] else [cur])"
| "words delim cur (c # cs) =
     (if c \<in> set delim then (if cur = [] then [] else [cur]) @ words delim [] cs
      else words delim (cur @ [c]) cs)"

lemma words_run:
  "cur @ takeWhile (\<lambda>c. c \<notin> set delim) s \<noteq> [] \<Longrightarrow>
   words delim cur s = (cur @ takeWhile (\<lambda>c. c \<notin> set delim) s) # words delim [] (dropWhile (\<lambda>c. c \<notin> set delim) s)"
  by (induction delim cur s rule: words.induct) auto

lemma words_skip: "words delim [] s = words delim [] (dropWhile (\<lambda>c. c \<in> set delim) s)"
  by (induction s) auto

lemma words_step:
  assumes "s \<noteq> []" "hd s \<notin> set delim"
  defines "r \<equiv> drop (strcspn s delim) s"
  shows "words delim [] s = take (strcspn s delim) s # words delim [] (drop (strspn r delim) r)"
proof -
  have "takeWhile (\<lambda>c. c \<notin> set delim) s \<noteq> []" using assms by (cases s) auto
  then have "words delim [] s = takeWhile (\<lambda>c. c \<notin> set delim) s # words delim [] r"
    using words_run [of "[]" delim s] by (simp add: r_def strcspn_def dropWhile_eq_drop)
  also have "words delim [] r = words delim [] (drop (strspn r delim) r)"
    by (subst words_skip) (simp add: strspn_def dropWhile_eq_drop)
  finally show ?thesis by (simp add: strcspn_def takeWhile_eq_take [symmetric])
qed

lemma skipped_hd: "drop (strspn r delim) r \<noteq> [] \<Longrightarrow> hd (drop (strspn r delim) r) \<notin> set delim"
  using hd_dropWhile [of "\<lambda>c. c \<in> set delim" r] by (simp only: strspn_def dropWhile_eq_drop) blast

lemma split_count_words:
  "(s \<noteq> [] \<longrightarrow> hd s \<notin> set delim) \<Longrightarrow> split_count s delim = length (words delim [] s)"
proof (induction s delim rule: split_count.induct)
  case (1 s delim)
  show ?case
  proof (cases "s = []")
    case False
    let ?r = "drop (strcspn s delim) s"
    let ?q = "drop (strspn ?r delim) ?r"
    have "split_count ?q delim = length (words delim [] ?q)"
      by (rule "1.IH" [OF False refl refl]) (use skipped_hd [of ?r delim] in blast)
    moreover have "split_count s delim = Suc (split_count ?q delim)"
      using False by (subst split_count.simps) (simp add: Let_def)
    ultimately show ?thesis using words_step [of s delim] False "1.prems" by simp
  qed (simp add: split_count.simps)
qed

text \<open>The elements of the array: well formed, and of the initial size while still empty.\<close>

definition cs_fresh :: "cstring \<Rightarrow> string \<Rightarrow> bool" where
  "cs_fresh s t \<longleftrightarrow> cs_rep s t \<and> (t = [] \<longrightarrow> cs_size s = 256)"

lemma multinew_spec:
  "\<exists>st d a'. multinew_loop k acc a = (st, d, a') \<and> (decisions a = [] \<longrightarrow> st \<and> a' = a) \<and>
     (st \<longrightarrow> (\<exists>ns. d = acc @ ns \<and> list_all2 cs_fresh ns (replicate k [])))"
proof (induction k arbitrary: acc a)
  case (Suc k)
  obtain r a' where n: "cstring_new a = (r, a')" "\<forall>s. r = Some s \<longrightarrow> cs_rep s [] \<and> cs_size s = 256"
      "decisions a = [] \<longrightarrow> r \<noteq> None \<and> a' = a" using cstring_new_spec by blast
  show ?case
  proof (cases r)
    case (Some s)
    have fr: "cs_fresh s []" using n Some by (simp add: cs_fresh_def)
    obtain st d a'' where m: "multinew_loop k (acc @ [s]) a' = (st, d, a'')" "decisions a' = [] \<longrightarrow> st \<and> a'' = a'"
        "st \<longrightarrow> (\<exists>ns. d = (acc @ [s]) @ ns \<and> list_all2 cs_fresh ns (replicate k []))"
      using Suc.IH [of "acc @ [s]" a'] by blast
    have "st \<longrightarrow> (\<exists>ns. d = acc @ ns \<and> list_all2 cs_fresh ns (replicate (Suc k) []))"
    proof
      assume st
      then obtain ns where "d = acc @ (s # ns)" "list_all2 cs_fresh ns (replicate k [])" using m(3) by auto
      then show "\<exists>ns. d = acc @ ns \<and> list_all2 cs_fresh ns (replicate (Suc k) [])"
        using fr by (intro exI [of _ "s # ns"]) simp
    qed
    then show ?thesis using m(1,2) n(1,3) Some
      by (intro exI [of _ st] exI [of _ d] exI [of _ a'']) simp
  next
    case None
    then show ?thesis using n by (intro exI [of _ False] exI [of _ "[]"] exI [of _ a']) auto
  qed
qed auto

lemma words_c_string: "c_string s \<Longrightarrow> c_string cur \<Longrightarrow> w \<in> set (words delim cur s) \<Longrightarrow>
    c_string w \<and> w \<noteq> [] \<and> length w \<le> length cur + length s"
proof (induction delim cur s rule: words.induct)
  case (2 delim cur c cs)
  show ?case
  proof (cases "c \<in> set delim")
    case True
    with "2.prems" have "w = cur \<and> cur \<noteq> [] \<or> w \<in> set (words delim [] cs)" by (auto split: if_splits)
    with "2.IH"(1) [OF True] "2.prems" show ?thesis by auto
  next
    case False
    with "2.IH"(2) [OF False] "2.prems" show ?thesis by auto
  qed
qed (auto split: if_splits)

lemma words_number: "length (words delim cur s) \<le> length s + (if cur = [] then 0 else 1)"
proof (induction delim cur s rule: words.induct)
  case (2 delim cur c cs)
  then show ?case by (cases "c \<in> set delim") auto
qed simp

lemma split_copy_spec:
  assumes "list_all2 cs_fresh dest (done @ replicate (length (words delim [] s)) [])" "i = length done"
    "s \<noteq> [] \<longrightarrow> hd s \<notin> set delim" "c_string s" "length s < 2 ^ 31"
  shows "\<exists>st dest' a'. split_copy s delim dest i a = Some (st, dest', a') \<and> (decisions a = [] \<longrightarrow> st) \<and>
    (st \<longrightarrow> list_all2 cs_fresh dest' (done @ words delim [] s))"
  using assms
proof (induction s delim dest i a arbitrary: "done" rule: split_copy.induct)
  case (1 s delim dest i a)
  show ?case
  proof (cases "s = []")
    case True
    then show ?thesis using "1.prems" by (subst split_copy.simps) auto
  next
    case False
    let ?f = "strcspn s delim"
    let ?r = "drop ?f s"
    let ?q = "drop (strspn ?r delim) ?r"
    let ?ws = "words delim [] ?q"
    have ws: "words delim [] s = take ?f s # ?ws" using words_step False "1.prems"(3) by blast
    have len: "length dest = length done + Suc (length ?ws)"
      using list_all2_lengthD [OF "1.prems"(1)] ws by simp
    then have i: "i < length dest" using "1.prems"(2) by simp
    have di: "cs_rep (dest ! i) []" "cs_size (dest ! i) = 256"
      using list_all2_nthD [OF "1.prems"(1) i] "1.prems"(2) ws by (simp_all add: nth_append cs_fresh_def)
    have tk: "c_string (take ?f s)" "length (take ?f s) \<le> PTRDIFF_MAX" "take ?f s \<noteq> []"
      "256 + length (take ?f s) \<le> PTRDIFF_MAX"
      using words_c_string [of s "[]" "take ?f s" delim] "1.prems"(4,5) ws by (auto simp: PTRDIFF_MAX_def)
    obtain st d a' where p: "cstring_pcat (dest ! i) (take ?f s) a = Some (st, d, a')"
        "cs_rep d (if st then take ?f s else [])" "decisions a = [] \<longrightarrow> st \<and> a' = a"
      using cstring_pcat_spec [OF di(1) tk(1-3), of a] tk(4) affordable_roomy [OF di(2)]
      unfolding cs_post_def affordable_def append_Nil by blast
    have g: "get_at dest i = Some (dest ! i)" "put_at dest i d = Some (dest[i := d])"
      using i by (simp_all add: get_at_def put_at_def)
    show ?thesis
    proof (cases st)
      case True
      have "cs_fresh d (take ?f s)" using p(2) True tk(3) by (simp add: cs_fresh_def)
      then have "list_all2 cs_fresh (dest[i := d]) ((done @ replicate (length (words delim [] s)) [])[i := take ?f s])"
        by (rule list_all2_update_cong [OF "1.prems"(1)])
      then have l: "list_all2 cs_fresh (dest[i := d]) ((done @ [take ?f s]) @ replicate (length ?ws) [])"
        using "1.prems"(2) ws by (simp add: list_update_append)
      have q: "?q \<noteq> [] \<longrightarrow> hd ?q \<notin> set delim" "c_string ?q" "length ?q < 2 ^ 31"
        using skipped_hd [of ?r delim] "1.prems"(4,5) by (blast, blast intro: c_string_drop, simp)
      obtain st' dest' a'' where "split_copy ?q delim (dest[i := d]) (Suc i) a' = Some (st', dest', a'')"
          "decisions a' = [] \<longrightarrow> st'" "st' \<longrightarrow> list_all2 cs_fresh dest' ((done @ [take ?f s]) @ ?ws)"
        using "1.IH" [OF False refl g(1) p(1) refl refl True g(2) refl l _ q] "1.prems"(2) by auto
      then show ?thesis using False g p True ws by (subst split_copy.simps) (auto simp: Let_def)
    next
      case nst: False
      then show ?thesis using False g p by (subst split_copy.simps) (auto simp: Let_def)
    qed
  qed
qed

lemma cstring_split_spec:
  assumes src: "c_string src" "length src < 2 ^ 31"
  shows "\<exists>n dest a'. cstring_split src delim a = Some (n, dest, a') \<and>
    (if n = 0 then dest = [] \<and> (decisions a = [] \<longrightarrow> words delim [] src = [])
     else n = length (words delim [] src) \<and> list_all2 cs_fresh dest (words delim [] src))"
proof -
  let ?s = "drop (strspn src delim) src"
  have le: "strspn src delim \<le> length src" by (simp add: strspn_def length_takeWhile_le)
  then have tst: "int (strspn src delim) = to_int (length src) \<longleftrightarrow> ?s = []"
    using src(2) by (simp add: to_int_small) linarith
  have ws: "words delim [] src = words delim [] ?s"
    by (subst words_skip) (simp add: strspn_def dropWhile_eq_drop)
  have hd: "?s \<noteq> [] \<longrightarrow> hd ?s \<notin> set delim" using skipped_hd by blast
  have cnt: "split_count ?s delim = length (words delim [] src)" using split_count_words [OF hd] ws by simp
  show ?thesis
  proof (cases "?s = []")
    case True
    then show ?thesis using tst ws by (simp add: cstring_split_def Let_def)
  next
    case False
    let ?n = "length (words delim [] src)"
    have n: "0 < ?n" using False cnt by (metis split_count.simps zero_less_Suc)
    have "?n \<le> length src" using words_number [of delim "[]" src] by simp
    then have n8: "8 * ?n \<le> PTRDIFF_MAX" using src(2) by (simp add: PTRDIFF_MAX_def)
    obtain b a1 where al: "try_alloc (szt (8 * ?n)) a = (b, a1)" "decisions a = [] \<longrightarrow> b \<and> a1 = a"
      using try_alloc_no_oom [of a "8 * ?n"] n8 PTRDIFF_SIZE by (cases "try_alloc (szt (8 * ?n)) a") auto
    obtain st d a2 where mn: "multinew_loop ?n [] a1 = (st, d, a2)" "decisions a1 = [] \<longrightarrow> st \<and> a2 = a1"
        "st \<longrightarrow> list_all2 cs_fresh d (replicate ?n [])"
      using multinew_spec [of ?n "[]" a1] by auto
    have q: "c_string ?s" "length ?s < 2 ^ 31" using src by auto
    then obtain st' d' a3 where sc: "st \<Longrightarrow> split_copy ?s delim d 0 a2 = Some (st', d', a3)"
        "st \<Longrightarrow> decisions a2 = [] \<longrightarrow> st'" "st \<Longrightarrow> st' \<Longrightarrow> list_all2 cs_fresh d' (words delim [] src)"
      using split_copy_spec [of d "[]" delim ?s 0 a2] mn(3) ws hd by (cases st) auto
    have eq: "cstring_split src delim a = (case try_alloc (szt (8 * ?n)) a of (False, a) \<Rightarrow> Some (0, [], a)
        | (True, a) \<Rightarrow> cstring_multinew ?n a \<bind> (\<lambda>(st, dest, a). if st then split_copy ?s delim dest 0 a \<bind>
            (\<lambda>(st, dest, a). Some (if st then (?n, dest, a) else (0, [], a))) else Some (0, [], a)))"
      unfolding cstring_split_def Let_def cnt using False tst by simp
    show ?thesis unfolding eq using al mn(1,2) sc n
      by (cases b; cases st; cases st') (auto simp: cstring_multinew_def)
  qed
qed

subsection \<open>Properties\<close>

lemma cs_editE:
  assumes "\<exists>s'. r = Some s' \<and> cs_rep s' t"
  shows "\<exists>s'. r = Some s' \<and> cs_inv s' \<and> cs_str s' = t"
  using assms cs_rep_str cs_inv_iff by blast

text \<open>
  The in-place edits never fault on a well-formed string and keep the invariant:
  \<open>cstring_reverse\<close> reverses it, \<open>cstring_strip\<close> removes exactly the white space at both ends,
  \<open>cstring_lower\<close> and \<open>cstring_upper\<close> convert every letter, and \<open>cstring_truncate\<close> keeps a prefix.
\<close>
theorem cstring_edit_correct:
  assumes "cs_inv s"
  shows "(\<exists>s'. cstring_reverse s = Some s' \<and> cs_inv s' \<and> cs_str s' = rev (cs_str s)) \<and>
    (\<exists>s'. cstring_rstrip s = Some s' \<and> cs_inv s' \<and> cs_str s' = rev (dropWhile isspace (rev (cs_str s)))) \<and>
    (\<exists>s'. cstring_strip s = Some s' \<and> cs_inv s' \<and>
       cs_str s' = dropWhile isspace (rev (dropWhile isspace (rev (cs_str s))))) \<and>
    (\<exists>s'. cstring_lower s = Some s' \<and> cs_inv s' \<and> cs_str s' = map tolower (cs_str s)) \<and>
    (\<exists>s'. cstring_upper s = Some s' \<and> cs_inv s' \<and> cs_str s' = map toupper (cs_str s)) \<and>
    (off < length (cs_str s) \<longrightarrow>
       (\<exists>s'. cstring_truncate s off = Some s' \<and> cs_inv s' \<and> cs_str s' = take off (cs_str s)))"
proof -
  have rep: "cs_rep s (cs_str s)" using assms by (simp add: cs_inv_def)
  show ?thesis
    by (intro conjI impI cs_editE cstring_reverse_spec cstring_rstrip_spec [unfolded rstrip_def]
        cstring_strip_spec [unfolded rstrip_def] cstring_lower_spec cstring_upper_spec cstring_truncate_spec rep)
qed

theorem cstring_edit_correct_witness:
  "cs_inv (cs_of ''  a b '') \<and> (\<exists>s'. cstring_reverse (cs_of ''  a b '') = Some s' \<and> cs_inv s' \<and>
      cs_str s' = rev (cs_str (cs_of ''  a b '')))"
proof -
  have h: "cs_inv (cs_of ''  a b '')" by (simp add: cs_inv_cs_of)
  show ?thesis using h cstring_edit_correct [OF h, of 0] by blast
qed

text \<open>
  \<open>cstring_insert\<close> puts the source at the offset. \<open>cstring_cut\<close> removes the \<open>n\<close> characters at the
  offset exactly when the buffer has \<open>len + n\<close> bytes; with fewer bytes its \<open>memmove\<close> reads past
  the end of the buffer although every assert of the function holds.
\<close>
theorem cstring_insert_cut_correct:
  assumes "cs_inv s" "off < length (cs_str s)" "off + n \<le> length (cs_str s)" "c_string src" "length src \<le> PTRDIFF_MAX"
  shows "(\<exists>st s' a'. cstring_insert s off src a = Some (st, s', a') \<and> cs_inv s' \<and>
      cs_str s' = (if st then take off (cs_str s) @ src @ drop off (cs_str s) else cs_str s) \<and>
      (roomy s (length (cs_str s)) (length src) a \<longrightarrow> st)) \<and>
    (if cs_len s + n \<le> cs_size s
     then \<exists>s'. cstring_cut s off n = Some s' \<and> cs_inv s' \<and> cs_str s' = take off (cs_str s) @ drop (off + n) (cs_str s)
     else cstring_cut s off n = None)"
proof -
  have rep: "cs_rep s (cs_str s)" using assms(1) by (simp add: cs_inv_def)
  have len: "cs_len s = length (cs_str s)" using rep by (simp add: cs_rep_def)
  have "cs_len s + n \<le> cs_size s \<Longrightarrow>
      \<exists>s'. cstring_cut s off n = Some s' \<and> cs_inv s' \<and> cs_str s' = take off (cs_str s) @ drop (off + n) (cs_str s)"
    using cstring_cut_spec [OF rep assms(2,3)] cs_editE len by auto
  moreover have "\<not> cs_len s + n \<le> cs_size s \<Longrightarrow> cstring_cut s off n = None"
    using cstring_cut_overread [OF rep assms(3)] len by simp
  moreover note cs_postE [OF cstring_insert_spec [OF rep less_imp_le [OF assms(2)] assms(4,5)], of a]
  ultimately show ?thesis by simp
qed

text \<open>The witness: 200 characters in the initial 256-byte buffer, cutting the last 100.\<close>

theorem cstring_insert_cut_correct_witness:
  "cs_inv (cs_of (replicate 200 (CHR ''x''))) \<and> cstring_cut (cs_of (replicate 200 (CHR ''x''))) 100 100 = None"
proof -
  let ?s = "cs_of (replicate 200 (CHR ''x''))"
  have h: "cs_inv ?s" "100 < length (cs_str ?s)" "100 + 100 \<le> length (cs_str ?s)" "c_string ''y''" "length ''y'' \<le> PTRDIFF_MAX"
    by (simp_all add: cs_inv_cs_of PTRDIFF_MAX_def c_string_def)
  have "\<not> cs_len ?s + 100 \<le> cs_size ?s" by (simp add: cs_of_def)
  then show ?thesis using h(1) cstring_insert_cut_correct [OF h, of no_oom] by presburger
qed

text \<open>
  \<open>cstring_split\<close> returns the array of the words of the text, the maximal runs of
  non-delimiters in order, each a well-formed string, or 0, and 0 only when there is no word or
  an allocation failed. The counting loop and the copying loop terminate and agree, so no
  element is written out of range.
\<close>
theorem cstring_split_correct:
  assumes "c_string src" "length src < 2 ^ 31"
  shows "\<exists>n dest a'. cstring_split src delim a = Some (n, dest, a') \<and> n = length dest \<and>
    (\<forall>s \<in> set dest. cs_inv s) \<and>
    (map cs_str dest = words delim [] src \<or> dest = [] \<and> decisions a \<noteq> [])"
proof -
  obtain n dest a' where r: "cstring_split src delim a = Some (n, dest, a')"
      "if n = 0 then dest = [] \<and> (decisions a = [] \<longrightarrow> words delim [] src = [])
       else n = length (words delim [] src) \<and> list_all2 cs_fresh dest (words delim [] src)"
    using cstring_split_spec [OF assms] by blast
  have "list_all2 cs_fresh d w \<Longrightarrow> length d = length w \<and> (\<forall>s \<in> set d. cs_inv s) \<and> map cs_str d = w" for d w
    by (induction d w rule: list_all2_induct) (auto simp: cs_fresh_def cs_rep_str cs_inv_iff)
  with r show ?thesis by (cases "n = 0") auto
qed

theorem cstring_split_correct_witness:
  "\<exists>n dest a'. cstring_split ''foo bar'' '' '' no_oom = Some (n, dest, a') \<and> n = length dest \<and>
     (\<forall>s \<in> set dest. cs_inv s) \<and>
     (map cs_str dest = words '' '' [] ''foo bar'' \<or> dest = [] \<and> decisions no_oom \<noteq> [])"
proof -
  have h: "c_string ''foo bar''" "length ''foo bar'' < 2 ^ 31" by simp_all
  show ?thesis by (rule cstring_split_correct [OF h])
qed

end
