(* ===== verification/Metalist.thy ===== *)
theory Metalist
  imports HL_Prelude "HOL-Library.Multiset"
begin

section \<open>Doubly linked lists\<close>

text \<open>
  The list ADT of \<open>src/meta/src/meta_list.c\<close> and \<open>meta_list.h\<close>: a header node without data, whose
  \<open>data\<close> member caches the last node, followed by the nodes of the items.

  Nodes are never shared between lists (\<open>list_merge\<close> and the \<open>sublist_\<close> functions copy data
  pointers into fresh nodes), so a list is modelled with the region of the heap its nodes live
  in: \<open>cells\<close> maps an address to its node, the header is at address 0, addresses at or above
  \<open>fresh_at\<close> were never allocated, and a freed node has no cell. Reading or writing through
  NULL or a freed node is the fault \<open>None\<close>. An item is a non-null data pointer, as a value.
  Destructors are modelled by the list of the items they are called on.
\<close>

subsection \<open>Nodes and the region of a list\<close>

datatype 'a ldata = DNull | DNode nat | DItem 'a

record 'a node =
  n_next :: "nat option"
  n_prev :: "nat option"
  n_data :: "'a ldata"

record 'a mlist =
  cells :: "nat \<rightharpoonup> 'a node"
  fresh_at :: nat

type_synonym list_iterator = "nat option"

definition header :: nat where "header = 0"

definition node_size :: size_t where "node_size = 24"

definition upd_node :: "'a mlist \<Rightarrow> nat \<Rightarrow> ('a node \<Rightarrow> 'a node) \<Rightarrow> 'a mlist option" where
  "upd_node l p f = do { n \<leftarrow> cells l p; Some (l\<lparr>cells := (cells l)(p \<mapsto> f n)\<rparr>) }"

abbreviation set_next :: "'a mlist \<Rightarrow> nat \<Rightarrow> nat option \<Rightarrow> 'a mlist option" where
  "set_next l p q \<equiv> upd_node l p (n_next_update (\<lambda>_. q))"

abbreviation set_prev :: "'a mlist \<Rightarrow> nat \<Rightarrow> nat option \<Rightarrow> 'a mlist option" where
  "set_prev l p q \<equiv> upd_node l p (n_prev_update (\<lambda>_. q))"

abbreviation set_data :: "'a mlist \<Rightarrow> nat \<Rightarrow> 'a ldata \<Rightarrow> 'a mlist option" where
  "set_data l p d \<equiv> upd_node l p (n_data_update (\<lambda>_. d))"

definition free_node :: "'a mlist \<Rightarrow> nat \<Rightarrow> 'a mlist option" where
  "free_node l p = do { _ \<leftarrow> cells l p; Some (l\<lparr>cells := (cells l)(p := None)\<rparr>) }"

definition item_of :: "'a node \<Rightarrow> 'a option" where
  "item_of n = (case n_data n of DItem x \<Rightarrow> Some x | _ \<Rightarrow> None)"

text \<open>\<open>calloc\<close> of a node: a zeroed cell at an address never used before.\<close>

definition calloc_node :: "'a mlist \<Rightarrow> allocator \<Rightarrow> (nat \<times> 'a mlist) option \<times> allocator" where
  "calloc_node l a = (case try_alloc node_size a of
     (True, a) \<Rightarrow> (Some (fresh_at l,
        \<lparr>cells = (cells l)(fresh_at l \<mapsto> \<lparr>n_next = None, n_prev = None, n_data = DNull\<rparr>), fresh_at = Suc (fresh_at l)\<rparr>), a)
   | (False, a) \<Rightarrow> (None, a))"

subsection \<open>Construction and destruction\<close>

definition list_new :: "allocator \<Rightarrow> 'a mlist option \<times> allocator" where
  "list_new a = (case try_alloc node_size a of
     (True, a) \<Rightarrow> (Some \<lparr>cells = [header \<mapsto> \<lparr>n_next = None, n_prev = None, n_data = DNull\<rparr>], fresh_at = 1\<rparr>, a)
   | (False, a) \<Rightarrow> (None, a))"

text \<open>
  A \<open>for (node = p; node != NULL; node = node->next)\<close> loop over unchanged links; the body reads
  the node, threads a state and says whether to go on.
\<close>

partial_function (option) for_nodes ::
  "(nat \<rightharpoonup> 'a node) \<Rightarrow> ('a node \<Rightarrow> nat \<Rightarrow> 's \<Rightarrow> (bool \<times> 's) option) \<Rightarrow> nat option \<Rightarrow> 's \<Rightarrow> 's option" where [code]:
  "for_nodes c body p s = (case p of None \<Rightarrow> Some s
     | Some q \<Rightarrow> c q \<bind> (\<lambda>n. body n q s \<bind> (\<lambda>r.
         if fst r then for_nodes c body (n_next n) (snd r) else Some (snd r))))"

partial_function (option) free_nodes :: "'a mlist \<Rightarrow> nat option \<Rightarrow> 'a mlist option" where [code]:
  "free_nodes l p = (case p of None \<Rightarrow> Some l
     | Some q \<Rightarrow> cells l q \<bind> (\<lambda>n. free_node l q \<bind> (\<lambda>l. free_nodes l (n_next n))))"

definition sublist_free :: "'a mlist \<Rightarrow> 'a mlist option" where
  "sublist_free l = free_nodes l (Some header)"

definition list_first :: "'a mlist \<Rightarrow> list_iterator option" where
  "list_first l = map_option n_next (cells l header)"

text \<open>The first loop of \<open>list_free\<close> calls the destructor; the result lists its arguments.\<close>

definition list_free :: "'a mlist \<Rightarrow> ('a list \<times> 'a mlist) option" where
  "list_free l = do {
     p \<leftarrow> list_first l;
     dead \<leftarrow> for_nodes (cells l) (\<lambda>n _ xs. do { x \<leftarrow> item_of n; Some (True, xs @ [x]) }) p [];
     l \<leftarrow> free_nodes l (Some header);
     Some (dead, l) }"

subsection \<open>Adding and removing\<close>

text \<open>\<open>list_add\<close> from its second allocation on, on the list it was given or has made.\<close>

definition list_add_to :: "'a mlist \<Rightarrow> 'a \<Rightarrow> allocator \<Rightarrow> (bool \<times> 'a mlist \<times> allocator) option" where
  "list_add_to l data a = (case calloc_node l a of
     (None, a) \<Rightarrow> Some (False, l, a)
   | (Some (node, l), a) \<Rightarrow> do {
       h \<leftarrow> cells l header;
       l \<leftarrow> (case n_data h of
           DNode t \<Rightarrow> do { l \<leftarrow> set_prev l node (Some t); set_next l t (Some node) }
         | DNull \<Rightarrow> do { l \<leftarrow> set_next l header (Some node); set_prev l node (Some header) }
         | DItem _ \<Rightarrow> None);
       l \<leftarrow> set_data l node (DItem data);
       l \<leftarrow> set_data l header (DNode node);
       Some (True, l, a) })"

text \<open>
  The first result says whether the function returned a list, the second is the list of the
  caller afterwards (\<open>None\<close>: there is none).
\<close>

definition list_add :: "'a mlist option \<Rightarrow> 'a \<Rightarrow> allocator \<Rightarrow> (bool \<times> 'a mlist option \<times> allocator) option" where
  "list_add lst data a = (case lst of
     Some l \<Rightarrow> do { (ok, l, a) \<leftarrow> list_add_to l data a; Some (ok, Some l, a) }
   | None \<Rightarrow> (case list_new a of
       (None, a) \<Rightarrow> Some (False, None, a)
     | (Some l, a) \<Rightarrow> do {
         (ok, l, a) \<leftarrow> list_add_to l data a;
         if ok then Some (True, Some l, a) else do { _ \<leftarrow> list_free l; Some (False, None, a) } }))"

definition list_insert_to :: "'a mlist \<Rightarrow> 'a \<Rightarrow> allocator \<Rightarrow> (bool \<times> 'a mlist \<times> allocator) option" where
  "list_insert_to l data a = (case calloc_node l a of
     (None, a) \<Rightarrow> Some (False, l, a)
   | (Some (node, l), a) \<Rightarrow> do {
       l \<leftarrow> set_data l node (DItem data);
       h \<leftarrow> cells l header;
       l \<leftarrow> set_next l node (n_next h);
       l \<leftarrow> set_prev l node (Some header);
       l \<leftarrow> (case n_next h of Some q \<Rightarrow> set_prev l q (Some node) | None \<Rightarrow> Some l);
       l \<leftarrow> set_next l header (Some node);
       l \<leftarrow> (case n_data h of DNull \<Rightarrow> set_data l header (DNode node) | _ \<Rightarrow> Some l);
       Some (True, l, a) })"

definition list_insert :: "'a mlist option \<Rightarrow> 'a \<Rightarrow> allocator \<Rightarrow> (bool \<times> 'a mlist option \<times> allocator) option" where
  "list_insert lst data a = (case lst of
     Some l \<Rightarrow> do { (ok, l, a) \<leftarrow> list_insert_to l data a; Some (ok, Some l, a) }
   | None \<Rightarrow> (case list_new a of
       (None, a) \<Rightarrow> Some (False, None, a)
     | (Some l, a) \<Rightarrow> do {
         (ok, l, a) \<leftarrow> list_insert_to l data a;
         if ok then Some (True, Some l, a) else do { _ \<leftarrow> list_free l; Some (False, None, a) } }))"

definition list_insert_before :: "'a mlist \<Rightarrow> list_iterator \<Rightarrow> 'a \<Rightarrow> allocator \<Rightarrow> (status_t \<times> 'a mlist \<times> allocator) option" where
  "list_insert_before l li data a = do {
     curr \<leftarrow> li;
     (case calloc_node l a of
       (None, a) \<Rightarrow> Some (failure, l, a)
     | (Some (new, l), a) \<Rightarrow> do {
         l \<leftarrow> set_data l new (DItem data);
         l \<leftarrow> set_next l new (Some curr);
         c \<leftarrow> cells l curr;
         l \<leftarrow> set_prev l new (n_prev c);
         p \<leftarrow> n_prev c;
         l \<leftarrow> set_next l p (Some new);
         l \<leftarrow> set_prev l curr (Some new);
         Some (success, l, a) }) }"

definition list_insert_after :: "'a mlist \<Rightarrow> list_iterator \<Rightarrow> 'a \<Rightarrow> allocator \<Rightarrow> (status_t \<times> 'a mlist \<times> allocator) option" where
  "list_insert_after l li data a = do {
     curr \<leftarrow> li;
     (case calloc_node l a of
       (None, a) \<Rightarrow> Some (failure, l, a)
     | (Some (new, l), a) \<Rightarrow> do {
         l \<leftarrow> set_data l new (DItem data);
         l \<leftarrow> set_prev l new (Some curr);
         c \<leftarrow> cells l curr;
         l \<leftarrow> set_next l new (n_next c);
         l \<leftarrow> (case n_next c of Some q \<Rightarrow> set_prev l q (Some new) | None \<Rightarrow> Some l);
         l \<leftarrow> set_next l curr (Some new);
         Some (success, l, a) }) }"

definition list_remove_node :: "'a mlist \<Rightarrow> list_iterator \<Rightarrow> (list_iterator \<times> 'a mlist) option" where
  "list_remove_node l old = do {
     node \<leftarrow> old;
     h \<leftarrow> cells l header;
     n \<leftarrow> cells l node;
     l \<leftarrow> (if n_data h = DNode node
          then set_data l header (case n_prev n of Some p \<Rightarrow> DNode p | None \<Rightarrow> DNull) else Some l);
     l \<leftarrow> (case n_next n of Some q \<Rightarrow> set_prev l q (n_prev n) | None \<Rightarrow> Some l);
     p \<leftarrow> n_prev n;
     l \<leftarrow> set_next l p (n_next n);
     l \<leftarrow> free_node l node;
     Some (n_next n, l) }"

text \<open>\<open>list_delete\<close> also returns the item given to the cleanup function (or to \<open>free\<close>).\<close>

definition list_delete :: "'a mlist \<Rightarrow> list_iterator \<Rightarrow> ('a \<times> list_iterator \<times> 'a mlist) option" where
  "list_delete l i = do {
     node \<leftarrow> i;
     n \<leftarrow> cells l node;
     x \<leftarrow> item_of n;
     (nxt, l) \<leftarrow> list_remove_node l i;
     Some (x, nxt, l) }"

subsection \<open>Traversals\<close>

definition list_end :: "list_iterator \<Rightarrow> bool" where
  "list_end i \<longleftrightarrow> i = None"

definition list_get :: "'a mlist \<Rightarrow> list_iterator \<Rightarrow> 'a option" where
  "list_get l i = do { p \<leftarrow> i; n \<leftarrow> cells l p; item_of n }"

definition list_next :: "'a mlist \<Rightarrow> list_iterator \<Rightarrow> list_iterator option" where
  "list_next l i = do { p \<leftarrow> i; n \<leftarrow> cells l p; Some (n_next n) }"

definition list_last :: "'a mlist \<Rightarrow> list_iterator \<Rightarrow> bool option" where
  "list_last l i = do { i \<leftarrow> list_next l i; Some (list_end i) }"

text \<open>
  The loop the clients of the list write:
  \<open>for (i = list_first(lst); !list_end(i); i = list_next(i))\<close> over a list that does not change.
\<close>

partial_function (option) for_iter ::
  "'a mlist \<Rightarrow> ('a \<Rightarrow> list_iterator \<Rightarrow> 's \<Rightarrow> (bool \<times> 's) option) \<Rightarrow> list_iterator \<Rightarrow> 's \<Rightarrow> 's option" where [code]:
  "for_iter l body i s = (if list_end i then Some s
     else list_get l i \<bind> (\<lambda>x. body x i s \<bind> (\<lambda>r.
       if fst r then list_next l i \<bind> (\<lambda>j. for_iter l body j (snd r)) else Some (snd r))))"

definition list_find :: "'a mlist \<Rightarrow> 'b \<Rightarrow> ('a \<Rightarrow> 'b \<Rightarrow> int) \<Rightarrow> list_iterator option" where
  "list_find l data cmp = do {
     p \<leftarrow> list_first l;
     for_nodes (cells l) (\<lambda>n q i. do { x \<leftarrow> item_of n; Some (if cmp x data = 0 then (False, Some q) else (True, i)) }) p None }"

text \<open>A callback gets the caller's argument as a state it may change, and returns false to stop.\<close>

definition list_foreach :: "'a mlist \<Rightarrow> 's \<Rightarrow> ('s \<Rightarrow> 'a \<Rightarrow> bool \<times> 's) \<Rightarrow> (bool \<times> 's) option" where
  "list_foreach l args f = do {
     p \<leftarrow> list_first l;
     for_nodes (cells l) (\<lambda>n _ (_, s). do { x \<leftarrow> item_of n; let (ok, s) = f s x in Some (ok, (ok, s)) }) p (True, args) }"

definition list_dual_foreach :: "'a mlist \<Rightarrow> 's \<Rightarrow> 't \<Rightarrow> ('s \<Rightarrow> 't \<Rightarrow> 'a \<Rightarrow> bool \<times> 's \<times> 't) \<Rightarrow> (bool \<times> 's \<times> 't) option" where
  "list_dual_foreach l arg1 arg2 dual = do {
     p \<leftarrow> list_first l;
     for_nodes (cells l) (\<lambda>n _ (_, s, t). do { x \<leftarrow> item_of n; let (ok, s, t) = dual s t x in Some (ok, (ok, s, t)) })
       p (True, arg1, arg2) }"

definition list_foreach_sep :: "'a mlist \<Rightarrow> 's \<Rightarrow> ('s \<Rightarrow> 'a \<Rightarrow> bool \<times> 's) \<Rightarrow> ('s \<Rightarrow> bool \<times> 's) \<Rightarrow> (bool \<times> 's) option" where
  "list_foreach_sep l args f sep = do {
     p \<leftarrow> list_first l;
     for_nodes (cells l) (\<lambda>n _ (_, s). do { x \<leftarrow> item_of n;
         let (ok, s) = f s x in
         if \<not> ok then Some (False, (False, s))
         else if n_next n \<noteq> None then (let (ok, s) = sep s in Some (ok, (ok, s)))
         else Some (True, (True, s)) }) p (True, args) }"

partial_function (option) back_nodes ::
  "(nat \<rightharpoonup> 'a node) \<Rightarrow> ('a \<Rightarrow> 's \<Rightarrow> bool \<times> 's) \<Rightarrow> nat option \<Rightarrow> 's \<Rightarrow> (bool \<times> 's) option" where [code]:
  "back_nodes c f p s = (if p = Some header then Some (True, s)
     else p \<bind> (\<lambda>q. c q \<bind> (\<lambda>n. item_of n \<bind> (\<lambda>x.
       if fst (f x s) then back_nodes c f (n_prev n) (snd (f x s)) else Some (False, snd (f x s))))))"

definition list_foreach_reversed :: "'a mlist \<Rightarrow> 's \<Rightarrow> ('s \<Rightarrow> 'a \<Rightarrow> bool \<times> 's) \<Rightarrow> (bool \<times> 's) option" where
  "list_foreach_reversed l args f = do {
     h \<leftarrow> cells l header;
     (case n_data h of
        DNull \<Rightarrow> Some (True, args)
      | DNode t \<Rightarrow> back_nodes (cells l) (\<lambda>x s. f s x) (Some t) args
      | DItem _ \<Rightarrow> None) }"

text \<open>A count of nodes cannot wrap: each of them takes more than a byte of the address space.\<close>

definition list_size :: "'a mlist \<Rightarrow> size_t option" where
  "list_size l = do { p \<leftarrow> list_first l; for_nodes (cells l) (\<lambda>_ _ k. Some (True, Suc k)) p 0 }"

definition list_count :: "'a mlist \<Rightarrow> ('a \<Rightarrow> bool) option \<Rightarrow> size_t option" where
  "list_count l include_node = do {
     p \<leftarrow> list_first l;
     for_nodes (cells l) (\<lambda>n _ k. do { x \<leftarrow> item_of n;
        Some (True, if (case include_node of None \<Rightarrow> True | Some f \<Rightarrow> f x) then Suc k else k) }) p 0 }"

text \<open>The loop of \<open>list_get_item\<close> counts the index down; it starts within the assert's range.\<close>

definition list_get_item :: "'a mlist \<Rightarrow> size_t \<Rightarrow> 'a option option" where
  "list_get_item l index = do {
     size \<leftarrow> list_size l;
     if index < size then do {
       p \<leftarrow> list_first l;
       r \<leftarrow> for_nodes (cells l) (\<lambda>n _ (i, _). if i = 0 then do { x \<leftarrow> item_of n; Some (False, (i, Some x)) }
                                          else Some (True, (i - 1, None))) p (index, None);
       Some (snd r) }
     else None }"

subsection \<open>Copies and sublists\<close>

text \<open>
  The loops that add to a second list while they walk the first. A failed \<open>list_add\<close> frees the
  nodes of the copy and returns NULL.
\<close>

definition copy_nodes :: "'a mlist \<Rightarrow> ('a \<Rightarrow> bool) \<Rightarrow> ('a \<Rightarrow> 'b) \<Rightarrow> allocator \<Rightarrow> ('b mlist option \<times> allocator) option" where
  "copy_nodes l include_node adaptor a = (case list_new a of
     (None, a) \<Rightarrow> Some (None, a)
   | (Some dest, a) \<Rightarrow> do {
       p \<leftarrow> list_first l;
       (ok, dest, a) \<leftarrow> for_nodes (cells l) (\<lambda>n _ (_, dest, a). do { x \<leftarrow> item_of n;
           if include_node x then do { (ok, dest, a) \<leftarrow> list_add_to dest (adaptor x) a; Some (ok, (ok, dest, a)) }
           else Some (True, (True, dest, a)) }) p (True, dest, a);
       if ok then Some (Some dest, a) else do { _ \<leftarrow> sublist_free dest; Some (None, a) } })"

definition sublist_create :: "'a mlist \<Rightarrow> ('a \<Rightarrow> bool) \<Rightarrow> allocator \<Rightarrow> ('a mlist option \<times> allocator) option" where
  "sublist_create l include_node a = copy_nodes l include_node (\<lambda>x. x) a"

definition sublist_create_neg :: "'a mlist \<Rightarrow> ('a \<Rightarrow> bool) \<Rightarrow> allocator \<Rightarrow> ('a mlist option \<times> allocator) option" where
  "sublist_create_neg l include_node a = copy_nodes l (\<lambda>x. \<not> include_node x) (\<lambda>x. x) a"

definition sublist_adaptor :: "'a mlist \<Rightarrow> ('a \<Rightarrow> 'b) \<Rightarrow> allocator \<Rightarrow> ('b mlist option \<times> allocator) option" where
  "sublist_adaptor l adaptor a = copy_nodes l (\<lambda>_. True) adaptor a"

definition sublist_copy :: "'a mlist \<Rightarrow> allocator \<Rightarrow> ('a mlist option \<times> allocator) option" where
  "sublist_copy l a = copy_nodes l (\<lambda>_. True) (\<lambda>x. x) a"

text \<open>
  \<open>list_copy\<close>: the copier may fail; then, and when \<open>list_add\<close> fails, \<open>list_free\<close> destroys the
  copies made so far (the second result).
\<close>

definition list_copy :: "'a mlist \<Rightarrow> ('a \<Rightarrow> allocator \<Rightarrow> 'b option \<times> allocator) \<Rightarrow> allocator \<Rightarrow>
    ('b mlist option \<times> 'b list \<times> allocator) option" where
  "list_copy l copier a = (case list_new a of
     (None, a) \<Rightarrow> Some (None, [], a)
   | (Some new, a) \<Rightarrow> do {
       p \<leftarrow> list_first l;
       (ok, new, a) \<leftarrow> for_nodes (cells l) (\<lambda>n _ (_, new, a). do { x \<leftarrow> item_of n;
           (case copier x a of
              (None, a) \<Rightarrow> Some (False, (False, new, a))
            | (Some y, a) \<Rightarrow> do { (ok, new, a) \<leftarrow> list_add_to new y a; Some (ok, (ok, new, a)) }) }) p (True, new, a);
       if ok then Some (Some new, [], a) else do { (dead, _) \<leftarrow> list_free new; Some (None, dead, a) } })"

text \<open>
  \<open>list_merge\<close>: the first result is whether it returned a list, then the two lists of the caller
  afterwards (the source is gone when all went well).
\<close>

definition list_merge :: "'a mlist option \<Rightarrow> 'a mlist \<Rightarrow> allocator \<Rightarrow>
    (bool \<times> 'a mlist option \<times> 'a mlist option \<times> allocator) option" where
  "list_merge dest src a = do {
     p \<leftarrow> list_first src;
     (ok, dest, a) \<leftarrow> for_nodes (cells src) (\<lambda>n _ (_, dest, a). do { data \<leftarrow> item_of n;
         (ok, dest, a) \<leftarrow> list_add dest data a; Some (ok, (ok, dest, a)) }) p (True, dest, a);
     if ok then do { _ \<leftarrow> sublist_free src; Some (dest \<noteq> None, dest, None, a) }
     else Some (False, dest, Some src, a) }"

subsection \<open>Sorting\<close>

text \<open>One run of the inner loop of \<open>list_sort\<close> from node \<open>s\<close> on, and the outer loop.\<close>

partial_function (option) sort_pass :: "('a \<Rightarrow> 'a \<Rightarrow> int) \<Rightarrow> nat option \<Rightarrow> bool \<Rightarrow> 'a mlist \<Rightarrow> (bool \<times> 'a mlist) option" where [code]:
  "sort_pass func s srt l = (case s of None \<Rightarrow> Some (srt, l)
     | Some p \<Rightarrow> cells l p \<bind> (\<lambda>n. item_of n \<bind> (\<lambda>p1.
         case n_next n of None \<Rightarrow> Some (srt, l)
         | Some q \<Rightarrow> cells l q \<bind> (\<lambda>m. item_of m \<bind> (\<lambda>p2.
             if 0 < func p1 p2
             then set_data l q (DItem p1) \<bind> (\<lambda>l. set_data l p (DItem p2) \<bind> (\<lambda>l. sort_pass func (Some q) False l))
             else sort_pass func (Some q) srt l)))))"

partial_function (option) list_sort :: "('a \<Rightarrow> 'a \<Rightarrow> int) \<Rightarrow> 'a mlist \<Rightarrow> 'a mlist option" where [code]:
  "list_sort func l = list_first l \<bind> (\<lambda>p. sort_pass func p True l \<bind> (\<lambda>r.
     if fst r then Some (snd r) else list_sort func (snd r)))"

subsection \<open>What a region represents\<close>

text \<open>
  The nodes of a chain: each entry of \<open>ns\<close> is an address with its data; \<open>pv\<close> is the predecessor of
  the first, \<open>q\<close> the successor of the last.
\<close>

definition first_addr :: "(nat \<times> 'd) list \<Rightarrow> nat option \<Rightarrow> nat option" where
  "first_addr ns q = (case ns of [] \<Rightarrow> q | x # _ \<Rightarrow> Some (fst x))"

definition last_addr :: "nat option \<Rightarrow> (nat \<times> 'd) list \<Rightarrow> nat option" where
  "last_addr pv ns = (if ns = [] then pv else Some (fst (last ns)))"

fun nodes_of :: "nat option \<Rightarrow> (nat \<times> 'a ldata) list \<Rightarrow> nat option \<Rightarrow> (nat \<times> 'a node) list" where
  "nodes_of pv [] q = []"
| "nodes_of pv ((p, d) # ns) q = (p, \<lparr>n_next = first_addr ns q, n_prev = pv, n_data = d\<rparr>) # nodes_of (Some p) ns q"

text \<open>
  A region is well formed when it consists of exactly the header and the nodes of the items, in
  a doubly linked chain; nothing is leaked. The cache is right when it is the last node, or, for
  the empty list, NULL or the header.
\<close>

definition items :: "(nat \<times> 'a) list \<Rightarrow> (nat \<times> 'a ldata) list" where
  "items axs = map (\<lambda>(p, x). (p, DItem x)) axs"

definition lchain :: "'a mlist \<Rightarrow> 'a ldata \<Rightarrow> (nat \<times> 'a) list \<Rightarrow> bool" where
  "lchain l d axs \<longleftrightarrow> cells l = map_of (nodes_of None ((header, d) # items axs) None) \<and>
     distinct (header # map fst axs) \<and> (\<forall>p \<in> set (header # map fst axs). p < fresh_at l) \<and> (\<forall>x. d \<noteq> DItem x)"

definition cache_ok :: "'a ldata \<Rightarrow> (nat \<times> 'a) list \<Rightarrow> bool" where
  "cache_ok d axs \<longleftrightarrow> d = DNode (the (last_addr (Some header) axs)) \<or> d = DNull \<and> axs = []"

text \<open>
  The abstraction clients use: an iterator stands between the items before it and the items from
  it on. \<open>lcur\<close> claims a right cache, \<open>lcur_weak\<close> does not.
\<close>

definition lcur_weak :: "'a mlist \<Rightarrow> 'a list \<Rightarrow> list_iterator \<Rightarrow> 'a list \<Rightarrow> bool" where
  "lcur_weak l xs i ys \<longleftrightarrow> (\<exists>d axs bxs. lchain l d (axs @ bxs) \<and> map snd axs = xs \<and> map snd bxs = ys \<and>
     i = first_addr bxs None)"

definition lcur :: "'a mlist \<Rightarrow> 'a list \<Rightarrow> list_iterator \<Rightarrow> 'a list \<Rightarrow> bool" where
  "lcur l xs i ys \<longleftrightarrow> (\<exists>d axs bxs. lchain l d (axs @ bxs) \<and> cache_ok d (axs @ bxs) \<and> map snd axs = xs \<and>
     map snd bxs = ys \<and> i = first_addr bxs None)"

definition lrep :: "'a mlist \<Rightarrow> 'a list \<Rightarrow> bool" where
  "lrep l xs \<longleftrightarrow> (\<exists>d axs. lchain l d axs \<and> cache_ok d axs \<and> map snd axs = xs)"

definition lrep_weak :: "'a mlist \<Rightarrow> 'a list \<Rightarrow> bool" where
  "lrep_weak l xs \<longleftrightarrow> (\<exists>d axs. lchain l d axs \<and> map snd axs = xs)"

subsection \<open>Association lists of nodes\<close>

definition upd_assoc :: "nat \<Rightarrow> ('v \<Rightarrow> 'v) \<Rightarrow> (nat \<times> 'v) list \<Rightarrow> (nat \<times> 'v) list" where
  "upd_assoc p f N = map (\<lambda>(q, v). (q, if q = p then f v else v)) N"

lemma upd_assoc_simps [simp]:
  "upd_assoc p f [] = []"
  "upd_assoc p f ((q, v) # N) = (q, if q = p then f v else v) # upd_assoc p f N"
  "upd_assoc p f (N @ M) = upd_assoc p f N @ upd_assoc p f M"
  by (simp_all add: upd_assoc_def)

lemma upd_assoc_notin [simp]: "p \<notin> fst ` set N \<Longrightarrow> upd_assoc p f N = N"
  by (induction N) auto

lemma fst_upd_assoc [simp]: "map fst (upd_assoc p f N) = map fst N"
  by (induction N) auto

lemma map_of_upd_assoc: "map_of N p = Some v \<Longrightarrow> distinct (map fst N) \<Longrightarrow> (map_of N)(p \<mapsto> f v) = map_of (upd_assoc p f N)"
proof (induction N)
  case (Cons e N)
  obtain q w where e: "e = (q, w)" by (cases e)
  show ?case
  proof (cases "q = p")
    case True
    with Cons.prems e have "p \<notin> fst ` set N" "w = v" by auto
    with True e show ?thesis by auto
  next
    case False
    with Cons.prems e have "(map_of N)(p \<mapsto> f v) = map_of (upd_assoc p f N)" by (intro Cons.IH) auto
    then have IH: "((map_of N)(p \<mapsto> f v)) r = map_of (upd_assoc p f N) r" for r by simp
    show ?thesis
    proof
      fix r
      show "((map_of (e # N))(p \<mapsto> f v)) r = map_of (upd_assoc p f (e # N)) r"
        using IH [of r] False e by (auto split: if_splits)
    qed
  qed
qed simp

declare map_of_append [simp del]

lemma map_of_app [simp]:
  "map_of (N @ M) p = (case map_of N p of None \<Rightarrow> map_of M p | Some v \<Rightarrow> Some v)"
  by (simp add: map_of_append map_add_def split: option.split)

lemma map_of_notin [simp]: "p \<notin> fst ` set N \<Longrightarrow> map_of N p = None"
  by (simp add: map_of_eq_None_iff)

lemma fst_nodes_of [simp]: "map fst (nodes_of pv ns q) = map fst ns" "fst ` set (nodes_of pv ns q) = fst ` set ns"
proof -
  show "map fst (nodes_of pv ns q) = map fst ns" by (induction pv ns q rule: nodes_of.induct) auto
  then show "fst ` set (nodes_of pv ns q) = fst ` set ns" by (metis set_map)
qed

lemma nodes_of_append: "nodes_of pv (ns @ ms) q = nodes_of pv ns (first_addr ms q) @ nodes_of (last_addr pv ns) ms q"
proof (induction pv ns q rule: nodes_of.induct)
  case (2 pv p d ns q)
  have "first_addr (ns @ ms) q = first_addr ns (first_addr ms q)" by (cases ns) (auto simp: first_addr_def)
  with 2 show ?case by (simp add: last_addr_def)
qed (simp add: last_addr_def)

lemma addr_simps [simp]:
  "first_addr [] q = q" "first_addr (x # ns) q = Some (fst x)"
  "last_addr pv [] = pv" "last_addr pv (ns @ [x]) = Some (fst x)"
  by (simp_all add: first_addr_def last_addr_def)

text \<open>A region written as the list of its nodes; the operations on nodes then compute on that list.\<close>

definition mk :: "(nat \<times> 'a node) list \<Rightarrow> nat \<Rightarrow> 'a mlist" where
  "mk N f = \<lparr>cells = map_of N, fresh_at = f\<rparr>"

lemma cells_mk [simp]: "cells (mk N f) = map_of N" "fresh_at (mk N f) = f"
  by (simp_all add: mk_def)

lemma upd_mk [simp]:
  "distinct (map fst N) \<Longrightarrow> p \<in> fst ` set N \<Longrightarrow> upd_node (mk N f) p g = Some (mk (upd_assoc p g N) f)"
  using map_of_upd_assoc [of N p _ g] by (cases "map_of N p") (auto simp: upd_node_def mk_def map_of_eq_None_iff)

lemma free_mk:
  "distinct (map fst (A @ (p, n) # B)) \<Longrightarrow> free_node (mk (A @ (p, n) # B) f) p = Some (mk (A @ B) f)"
  by (auto simp: free_node_def mk_def fun_eq_iff split: option.splits)

lemma mk_rotate: "p \<notin> fst ` set A \<Longrightarrow> mk ((p, n) # A @ B) f = mk (A @ (p, n) # B) f"
  by (auto simp: mk_def fun_eq_iff split: option.splits)

lemma calloc_mk:
  "calloc_node (mk N f) a = (case try_alloc node_size a of
     (True, a) \<Rightarrow> (Some (f, mk ((f, \<lparr>n_next = None, n_prev = None, n_data = DNull\<rparr>) # N) (Suc f)), a)
   | (False, a) \<Rightarrow> (None, a))"
  by (auto simp: calloc_node_def mk_def split: prod.splits bool.splits)

lemma first_addr_append [simp]: "first_addr (ns @ ms) q = first_addr ns (first_addr ms q)"
  by (cases ns) (auto simp: first_addr_def)

lemma items_simps [simp]:
  "items [] = []" "items ((p, x) # axs) = (p, DItem x) # items axs" "items (axs @ bxs) = items axs @ items bxs"
  "map fst (items axs) = map fst axs" "fst ` set (items axs) = fst ` set axs" "items axs = [] \<longleftrightarrow> axs = []"
  by (force simp: items_def)+

lemma lchainE:
  assumes "lchain l d axs"
  obtains f where "l = mk (nodes_of None ((header, d) # items axs) None) f" "distinct (map fst axs)"
    "header \<notin> fst ` set axs" "f \<notin> fst ` set axs" "f \<noteq> header" "\<forall>p \<in> fst ` set axs. p < f" "header < f"
    "\<forall>x. d \<noteq> DItem x"
proof -
  have "l = mk (nodes_of None ((header, d) # items axs) None) (fresh_at l)"
    using assms by (cases l) (simp add: lchain_def mk_def)
  moreover have "header \<notin> fst ` set axs \<and> fresh_at l \<notin> fst ` set axs \<and> fresh_at l \<noteq> header \<and>
      distinct (map fst axs) \<and> (\<forall>p \<in> fst ` set axs. p < fresh_at l) \<and> header < fresh_at l \<and> (\<forall>x. d \<noteq> DItem x)"
    using assms by (auto simp: lchain_def)
  ultimately show thesis using that by blast
qed

lemma lchain_mk:
  "lchain (mk N f) d axs \<longleftrightarrow> map_of N = map_of (nodes_of None ((header, d) # items axs) None) \<and>
     distinct (header # map fst axs) \<and> (\<forall>p \<in> set (header # map fst axs). p < f) \<and> (\<forall>x. d \<noteq> DItem x)"
  by (simp add: lchain_def)

subsection \<open>Adding and removing nodes\<close>

text \<open>The outcome of an operation that allocates one node: done, or failed with nothing changed.\<close>

definition lpost :: "('l \<Rightarrow> bool) \<Rightarrow> ('l \<Rightarrow> bool) \<Rightarrow> allocator \<Rightarrow> (bool \<times> 'l \<times> allocator) option \<Rightarrow> bool" where
  "lpost P Q a r \<longleftrightarrow> (\<exists>ok l a'. r = Some (ok, l, a') \<and> (if ok then Q l else P l) \<and> (decisions a = [] \<longrightarrow> ok \<and> a' = a))"

lemma calloc_case:
  assumes "P (mk N f)" "\<And>a. \<exists>l. K (f, mk ((f, \<lparr>n_next = None, n_prev = None, n_data = DNull\<rparr>) # N) (Suc f)) a = Some (True, l, a) \<and> Q l"
  shows "lpost P Q a (case calloc_node (mk N f) a of (None, a) \<Rightarrow> Some (False, mk N f, a) | (Some r, a) \<Rightarrow> K r a)"
proof -
  obtain ok a' where al: "try_alloc node_size a = (ok, a')" by (cases "try_alloc node_size a")
  have dec: "decisions a = [] \<longrightarrow> ok \<and> a' = a"
    using al try_alloc_no_oom [of a node_size] by (auto simp: node_size_def PTRDIFF_MAX_def)
  show ?thesis
  proof (cases ok)
    case True
    with assms(2) [of a'] al dec show ?thesis by (auto simp: lpost_def calloc_mk)
  qed (use assms(1) al dec in \<open>auto simp: lpost_def calloc_mk\<close>)
qed

lemma lpost_mono: "lpost P Q a r \<Longrightarrow> (\<And>l. P l \<Longrightarrow> P' l) \<Longrightarrow> (\<And>l. Q l \<Longrightarrow> Q' l) \<Longrightarrow> lpost P' Q' a r"
  unfolding lpost_def by metis

lemmas exec_simps = calloc_mk lchain_mk nodes_of_append fun_eq_iff image_Un ball_Un

lemma list_add_chain:
  assumes "lchain l d axs" "cache_ok d axs"
  shows "\<exists>f. lpost (\<lambda>l'. l' = l) (\<lambda>l'. lchain l' (DNode f) (axs @ [(f, x)])) a (list_add_to l x a)"
proof -
  from assms(1) obtain f where l: "l = mk (nodes_of None ((header, d) # items axs) None) f"
      and dist: "distinct (map fst axs)" "header \<notin> fst ` set axs" "f \<notin> fst ` set axs" "f \<noteq> header"
      and lt: "\<forall>p \<in> fst ` set axs. p < f" "header < f" and d: "\<forall>x. d \<noteq> DItem x" by (rule lchainE)
  show ?thesis unfolding l list_add_to_def
  proof (intro exI [of _ f], rule calloc_case, rule refl, goal_cases)
    case (1 a)
    show ?case
    proof (cases axs rule: rev_cases)
      case Nil
      then show ?thesis using assms(2) lt dist by (auto simp: exec_simps cache_ok_def)
    next
      case (snoc bxs e)
      obtain t y where e: "e = (t, y)" by (cases e)
      have "d = DNode t" using assms(2) snoc e by (auto simp: cache_ok_def)
      then show ?thesis using lt dist snoc e by (auto simp: exec_simps less_SucI split: option.splits)
    qed
  qed
qed

lemma list_insert_chain:
  assumes "lchain l d axs"
  shows "\<exists>f. lpost (\<lambda>l'. l' = l) (\<lambda>l'. lchain l' (if d = DNull then DNode f else d) ((f, x) # axs)) a (list_insert_to l x a)"
proof -
  from assms(1) obtain f where l: "l = mk (nodes_of None ((header, d) # items axs) None) f"
      and dist: "distinct (map fst axs)" "header \<notin> fst ` set axs" "f \<notin> fst ` set axs" "f \<noteq> header"
      and lt: "\<forall>p \<in> fst ` set axs. p < f" "header < f" and d: "\<forall>x. d \<noteq> DItem x" by (rule lchainE)
  show ?thesis unfolding l list_insert_to_def
  proof (intro exI [of _ f], rule calloc_case, rule refl, goal_cases)
    case (1 a)
    show ?case
    proof (cases axs)
      case Nil
      then show ?thesis using lt dist d by (auto simp: exec_simps split: ldata.splits)
    next
      case (Cons e bxs)
      then show ?thesis using lt dist d by (cases e) (auto simp: exec_simps less_SucI split: option.splits ldata.splits)
    qed
  qed
qed

lemma list_insert_before_chain:
  assumes "lchain l d (axs @ (p, y) # bxs)"
  shows "\<exists>f. lpost (\<lambda>l'. l' = l) (\<lambda>l'. lchain l' d (axs @ (f, x) # (p, y) # bxs)) a (list_insert_before l (Some p) x a)"
proof -
  from assms(1) obtain f where l: "l = mk (nodes_of None ((header, d) # items (axs @ (p, y) # bxs)) None) f"
      and dist: "distinct (map fst (axs @ (p, y) # bxs))" "header \<notin> fst ` set (axs @ (p, y) # bxs)"
        "f \<notin> fst ` set (axs @ (p, y) # bxs)" "f \<noteq> header"
      and lt: "\<forall>p \<in> fst ` set (axs @ (p, y) # bxs). p < f" "header < f" and d: "\<forall>x. d \<noteq> DItem x" by (rule lchainE)
  show ?thesis unfolding l list_insert_before_def bind.bind_lunit
  proof (intro exI [of _ f], rule calloc_case, rule refl, goal_cases)
    case (1 a)
    show ?case
    proof (cases axs rule: rev_cases)
      case Nil
      then show ?thesis using lt dist d by (auto simp: exec_simps less_SucI split: option.splits)
    next
      case (snoc cxs e)
      then show ?thesis using lt dist d by (cases e) (auto simp: exec_simps less_SucI split: option.splits)
    qed
  qed
qed

lemma list_insert_after_chain:
  assumes "lchain l d (axs @ (p, y) # bxs)"
  shows "\<exists>f. lpost (\<lambda>l'. l' = l) (\<lambda>l'. lchain l' d (axs @ (p, y) # (f, x) # bxs)) a (list_insert_after l (Some p) x a)"
proof -
  from assms(1) obtain f where l: "l = mk (nodes_of None ((header, d) # items (axs @ (p, y) # bxs)) None) f"
      and dist: "distinct (map fst (axs @ (p, y) # bxs))" "header \<notin> fst ` set (axs @ (p, y) # bxs)"
        "f \<notin> fst ` set (axs @ (p, y) # bxs)" "f \<noteq> header"
      and lt: "\<forall>p \<in> fst ` set (axs @ (p, y) # bxs). p < f" "header < f" and d: "\<forall>x. d \<noteq> DItem x" by (rule lchainE)
  show ?thesis unfolding l list_insert_after_def bind.bind_lunit
  proof (intro exI [of _ f], rule calloc_case, rule refl, goal_cases)
    case (1 a)
    show ?case
    proof (cases bxs)
      case Nil
      then show ?thesis using lt dist d by (auto simp: exec_simps less_SucI split: option.splits)
    next
      case (Cons e cxs)
      then show ?thesis using lt dist d by (cases e) (auto simp: exec_simps less_SucI split: option.splits)
    qed
  qed
qed

text \<open>The cache after a node was removed: if it was the last one, its predecessor.\<close>

definition cache_without :: "'a ldata \<Rightarrow> (nat \<times> 'a) list \<Rightarrow> nat \<Rightarrow> 'a ldata" where
  "cache_without d axs p = (if d = DNode p then DNode (the (last_addr (Some header) axs)) else d)"

lemma free_mk_hd: "p \<notin> fst ` set N \<Longrightarrow> p \<noteq> q \<Longrightarrow> free_node (mk ((q, m) # (p, n) # N) f) p = Some (mk ((q, m) # N) f)"
  by (auto simp: free_node_def mk_def fun_eq_iff)

lemma list_remove_chain:
  assumes "lchain l d (axs @ (p, y) # bxs)"
  shows "\<exists>l'. list_remove_node l (Some p) = Some (first_addr bxs None, l') \<and> lchain l' (cache_without d axs p) (axs @ bxs)"
proof -
  from assms(1) obtain f where l: "l = mk (nodes_of None ((header, d) # items (axs @ (p, y) # bxs)) None) f"
      and dist: "distinct (map fst (axs @ (p, y) # bxs))" "header \<notin> fst ` set (axs @ (p, y) # bxs)"
        "f \<notin> fst ` set (axs @ (p, y) # bxs)" "f \<noteq> header"
      and lt: "\<forall>p \<in> fst ` set (axs @ (p, y) # bxs). p < f" "header < f" and d: "\<forall>x. d \<noteq> DItem x" by (rule lchainE)
  show ?thesis
  proof (cases axs rule: rev_cases)
    case Nil
    then show ?thesis using lt dist d l
      by (cases bxs) (auto simp: list_remove_node_def free_mk_hd exec_simps cache_without_def split: option.splits)
  next
    case (snoc cxs e)
    obtain q z where e: "e = (q, z)" by (cases e)
    let ?A = "\<lambda>d. (header, \<lparr>n_next = first_addr (items cxs) (Some q), n_prev = None, n_data = d\<rparr>) # nodes_of (Some header) (items cxs) (Some q)"
    show ?thesis
    proof (cases bxs)
      case Nil
      have fr: "free_node (mk (?A d @ (q, n) # [(p, m)]) f) p = Some (mk (?A d @ [(q, n)]) f)" for d n m
        using free_mk [of "?A d @ [(q, n)]" p m "[]" f] dist snoc e by (auto simp: image_Un)
      show ?thesis using lt dist d l snoc e Nil fr
        by (auto simp: list_remove_node_def lchain_mk nodes_of_append image_Un ball_Un cache_without_def)
    next
      case (Cons g dxs)
      obtain r w where g: "g = (r, w)" by (cases g)
      have fr: "free_node (mk (?A d @ (q, n) # (p, m) # (r, k) # nodes_of (Some r) (items dxs) None) f) p =
          Some (mk (?A d @ (q, n) # (r, k) # nodes_of (Some r) (items dxs) None) f)" for d n m k
        using free_mk [of "?A d @ [(q, n)]" p m "(r, k) # nodes_of (Some r) (items dxs) None" f] dist snoc e Cons g
        by (auto simp: image_Un)
      show ?thesis using lt dist d l snoc e Cons g fr
        by (auto simp: list_remove_node_def lchain_mk nodes_of_append image_Un ball_Un cache_without_def)
    qed
  qed
qed

subsection \<open>The operations on the abstract list\<close>

lemma lrep_weak: "lrep l xs \<Longrightarrow> lrep_weak l xs" "lcur l xs i ys \<Longrightarrow> lcur_weak l xs i ys"
  unfolding lrep_def lrep_weak_def lcur_def lcur_weak_def by blast+

lemma lcur_lrep: "lcur l xs i ys \<Longrightarrow> lrep l (xs @ ys)" "lcur_weak l xs i ys \<Longrightarrow> lrep_weak l (xs @ ys)"
  unfolding lrep_def lrep_weak_def lcur_def lcur_weak_def by (metis map_append)+

lemma list_new_spec:
  "\<exists>r a'. list_new a = (r, a') \<and> (\<forall>l. r = Some l \<longrightarrow> lrep l [] \<and> n_data (the (cells l header)) = DNull) \<and>
     (decisions a = [] \<longrightarrow> r \<noteq> None \<and> a' = a)"
proof -
  obtain ok a' where al: "try_alloc node_size a = (ok, a')" by (cases "try_alloc node_size a")
  have "decisions a = [] \<longrightarrow> ok \<and> a' = a"
    using al try_alloc_no_oom [of a node_size] by (auto simp: node_size_def PTRDIFF_MAX_def)
  then show ?thesis using al
    by (auto simp: list_new_def lrep_def lchain_def cache_ok_def header_def split: bool.splits)
qed

lemma lchain_first: "lchain l d axs \<Longrightarrow> list_first l = Some (first_addr axs None)"
  by (auto simp: list_first_def first_addr_def items_def lchain_def split: list.splits)

lemma list_add_spec:
  "lrep l xs \<Longrightarrow> lpost (\<lambda>l'. l' = l) (\<lambda>l'. lrep l' (xs @ [x])) a (list_add_to l x a)"
proof -
  assume "lrep l xs"
  then obtain d axs where c: "lchain l d axs" "cache_ok d axs" "map snd axs = xs" by (auto simp: lrep_def)
  obtain f where "lpost (\<lambda>l'. l' = l) (\<lambda>l'. lchain l' (DNode f) (axs @ [(f, x)])) a (list_add_to l x a)"
    using list_add_chain [OF c(1,2)] by blast
  then show ?thesis
    by (rule lpost_mono) (use c(3) in \<open>auto simp: lrep_def cache_ok_def intro!: exI [of _ "axs @ [(f, x)]"]\<close>)
qed

text \<open>
  Inserting in front keeps the cache right unless the list has been emptied by a removal: then
  the cache is the header, not NULL, and \<open>list_insert\<close> leaves it so.
\<close>

lemma list_insert_spec:
  assumes "lrep l xs" "xs = [] \<longrightarrow> n_data (the (cells l header)) = DNull"
  shows "lpost (\<lambda>l'. l' = l) (\<lambda>l'. lrep l' (x # xs)) a (list_insert_to l x a)"
proof -
  from assms obtain d axs where c: "lchain l d axs" "cache_ok d axs" "map snd axs = xs" by (auto simp: lrep_def)
  then have d: "cells l header = Some \<lparr>n_next = first_addr (items axs) None, n_prev = None, n_data = d\<rparr>"
    by (simp add: lchain_def)
  obtain f where "lpost (\<lambda>l'. l' = l) (\<lambda>l'. lchain l' (if d = DNull then DNode f else d) ((f, x) # axs)) a (list_insert_to l x a)"
    using list_insert_chain [OF c(1)] by blast
  moreover have "cache_ok (if d = DNull then DNode f else d) ((f, x) # axs)" for f
    using c assms(2) d by (auto simp: cache_ok_def last_addr_def)
  ultimately show ?thesis
    by (elim lpost_mono) (use c(3) in \<open>auto simp: lrep_def intro!: exI [of _ "(f, x) # axs"] split: if_splits\<close>)
qed

lemma list_insert_weak:
  "lrep_weak l xs \<Longrightarrow> lpost (\<lambda>l'. l' = l) (\<lambda>l'. lrep_weak l' (x # xs)) a (list_insert_to l x a)"
proof -
  assume "lrep_weak l xs"
  then obtain d axs where c: "lchain l d axs" "map snd axs = xs" by (auto simp: lrep_weak_def)
  obtain f where "lpost (\<lambda>l'. l' = l) (\<lambda>l'. lchain l' (if d = DNull then DNode f else d) ((f, x) # axs)) a (list_insert_to l x a)"
    using list_insert_chain [OF c(1)] by blast
  then show ?thesis
    by (rule lpost_mono) (use c(2) in \<open>auto simp: lrep_weak_def intro!: exI [of _ "(f, x) # axs"]\<close>)
qed

lemma lcurI:
  "lchain l d (axs @ bxs) \<Longrightarrow> cache_ok d (axs @ bxs) \<Longrightarrow> map snd axs = xs \<Longrightarrow> map snd bxs = ys \<Longrightarrow>
   first_addr bxs None = i \<Longrightarrow> lcur l xs i ys"
  "lchain l d (axs @ bxs) \<Longrightarrow> map snd axs = xs \<Longrightarrow> map snd bxs = ys \<Longrightarrow> first_addr bxs None = i \<Longrightarrow> lcur_weak l xs i ys"
  unfolding lcur_def lcur_weak_def by blast+

lemma lcurE:
  assumes "lcur l xs i (y # ys)"
  obtains d axs p bxs where "lchain l d (axs @ (p, y) # bxs)" "cache_ok d (axs @ (p, y) # bxs)"
    "map snd axs = xs" "map snd bxs = ys" "i = Some p"
  using assms unfolding lcur_def by (auto simp: map_eq_Cons_conv)

lemma lcur_weakE:
  assumes "lcur_weak l xs i (y # ys)"
  obtains d axs p bxs where "lchain l d (axs @ (p, y) # bxs)"
    "map snd axs = xs" "map snd bxs = ys" "i = Some p"
  using assms unfolding lcur_weak_def by (auto simp: map_eq_Cons_conv)

lemma list_insert_before_spec:
  assumes "lcur l xs i (y # ys)"
  shows "lpost (\<lambda>l'. l' = l) (\<lambda>l'. lcur l' (xs @ [x]) i (y # ys)) a (list_insert_before l i x a)"
proof -
  from assms obtain d axs p bxs where c: "lchain l d (axs @ (p, y) # bxs)" "cache_ok d (axs @ (p, y) # bxs)"
    "map snd axs = xs" "map snd bxs = ys" "i = Some p" by (rule lcurE)
  obtain f where f: "lpost (\<lambda>l'. l' = l) (\<lambda>l'. lchain l' d (axs @ (f, x) # (p, y) # bxs)) a (list_insert_before l (Some p) x a)"
    using list_insert_before_chain [OF c(1)] by blast
  have "cache_ok d ((axs @ [(f, x)]) @ (p, y) # bxs)" using c(2) by (auto simp: cache_ok_def last_addr_def)
  then show ?thesis unfolding c(5) using f
    by (elim lpost_mono)
       (use c(3,4) in \<open>auto intro!: lcurI(1) [of _ d "axs @ [(f, x)]" "(p, y) # bxs"]\<close>)
qed

text \<open>\<open>list_insert_after\<close> never touches the cache; it stays right only in front of another node.\<close>

lemma list_insert_after_spec:
  assumes "lcur l xs i (y # ys)"
  shows "lpost (\<lambda>l'. l' = l) (\<lambda>l'. lcur_weak l' xs i (y # x # ys) \<and> (ys \<noteq> [] \<longrightarrow> lcur l' xs i (y # x # ys))) a
    (list_insert_after l i x a)"
proof -
  from assms obtain d axs p bxs where c: "lchain l d (axs @ (p, y) # bxs)" "cache_ok d (axs @ (p, y) # bxs)"
    "map snd axs = xs" "map snd bxs = ys" "i = Some p" by (rule lcurE)
  obtain f where f: "lpost (\<lambda>l'. l' = l) (\<lambda>l'. lchain l' d (axs @ (p, y) # (f, x) # bxs)) a (list_insert_after l (Some p) x a)"
    using list_insert_after_chain [OF c(1)] by blast
  have "ys \<noteq> [] \<longrightarrow> cache_ok d (axs @ (p, y) # (f, x) # bxs)" using c(2,4) by (auto simp: cache_ok_def last_addr_def)
  then show ?thesis unfolding c(5) using f
    by (elim lpost_mono)
       (use c(3,4) in \<open>auto intro!: lcurI [of _ d axs "(p, y) # (f, x) # bxs"]\<close>)
qed

lemma list_remove_spec:
  assumes "lcur l xs i (y # ys)"
  shows "\<exists>i' l'. list_remove_node l i = Some (i', l') \<and> lcur l' xs i' ys"
proof -
  from assms obtain d axs p bxs where c: "lchain l d (axs @ (p, y) # bxs)" "cache_ok d (axs @ (p, y) # bxs)"
    "map snd axs = xs" "map snd bxs = ys" "i = Some p" by (rule lcurE)
  obtain l' where l': "list_remove_node l (Some p) = Some (first_addr bxs None, l')"
      "lchain l' (cache_without d axs p) (axs @ bxs)" using list_remove_chain [OF c(1)] by blast
  have "cache_ok (cache_without d axs p) (axs @ bxs)"
  proof (cases bxs rule: rev_cases)
    case Nil
    then show ?thesis using c(2) by (auto simp: cache_ok_def cache_without_def last_addr_def)
  next
    case (snoc cxs e)
    then have "fst e \<noteq> p" using c(1) by (auto simp: lchain_def)
    then show ?thesis using c(2) snoc by (auto simp: cache_ok_def cache_without_def last_addr_def)
  qed
  then show ?thesis using l' c unfolding lcur_def by blast
qed

lemma list_remove_weak:
  assumes "lcur_weak l xs i (y # ys)"
  shows "\<exists>i' l'. list_remove_node l i = Some (i', l') \<and> lcur_weak l' xs i' ys"
proof -
  from assms obtain d axs p bxs where c: "lchain l d (axs @ (p, y) # bxs)"
    "map snd axs = xs" "map snd bxs = ys" "i = Some p" by (rule lcur_weakE)
  then show ?thesis using list_remove_chain [OF c(1)] unfolding lcur_weak_def by blast
qed

lemma items_addr: "first_addr (items axs) q = first_addr axs q" "last_addr pv (items axs) = last_addr pv axs"
  by (cases axs, auto simp: items_def first_addr_def last_addr_def last_map case_prod_beta)

lemma chain_cell:
  "lchain l d (axs @ (p, y) # bxs) \<Longrightarrow>
   cells l p = Some \<lparr>n_next = first_addr bxs None, n_prev = last_addr (Some header) axs, n_data = DItem y\<rparr>"
  by (simp add: lchain_def nodes_of_append image_Un items_addr)

lemma cursor_weak_laws:
  "lcur_weak l xs i [] \<longleftrightarrow> lrep_weak l xs \<and> i = None"
  "lcur_weak l xs i (y # ys) \<Longrightarrow> \<not> list_end i \<and> list_get l i = Some y \<and> (\<exists>j. list_next l i = Some j \<and> lcur_weak l (xs @ [y]) j ys)"
proof -
  show "lcur_weak l xs i [] \<longleftrightarrow> lrep_weak l xs \<and> i = None"
    by (auto simp: lcur_weak_def lrep_weak_def)
  assume "lcur_weak l xs i (y # ys)"
  then obtain d axs p bxs where c: "lchain l d (axs @ (p, y) # bxs)" "map snd axs = xs" "map snd bxs = ys" "i = Some p"
    by (rule lcur_weakE)
  then show "\<not> list_end i \<and> list_get l i = Some y \<and> (\<exists>j. list_next l i = Some j \<and> lcur_weak l (xs @ [y]) j ys)"
    using chain_cell [OF c(1)]
    by (auto simp: list_end_def list_get_def list_next_def item_of_def intro!: lcurI(2) [of _ d "axs @ [(p, y)]" bxs])
qed

lemma cursor_laws:
  "lcur l xs i [] \<longleftrightarrow> lrep l xs \<and> i = None"
  "lcur l xs i (y # ys) \<Longrightarrow> \<not> list_end i \<and> list_get l i = Some y \<and> (\<exists>j. list_next l i = Some j \<and> lcur l (xs @ [y]) j ys)"
proof -
  show "lcur l xs i [] \<longleftrightarrow> lrep l xs \<and> i = None"
    by (auto simp: lcur_def lrep_def)
  assume "lcur l xs i (y # ys)"
  then obtain d axs p bxs where c: "lchain l d (axs @ (p, y) # bxs)" "cache_ok d (axs @ (p, y) # bxs)"
    "map snd axs = xs" "map snd bxs = ys" "i = Some p" by (rule lcurE)
  then show "\<not> list_end i \<and> list_get l i = Some y \<and> (\<exists>j. list_next l i = Some j \<and> lcur l (xs @ [y]) j ys)"
    using chain_cell [OF c(1)]
    by (auto simp: list_end_def list_get_def list_next_def item_of_def intro!: lcurI(1) [of _ d "axs @ [(p, y)]" bxs])
qed

lemma list_first_spec:
  "lrep l xs \<Longrightarrow> \<exists>i. list_first l = Some i \<and> lcur l [] i xs"
  "lrep_weak l xs \<Longrightarrow> \<exists>i. list_first l = Some i \<and> lcur_weak l [] i xs"
  using lchain_first unfolding lrep_def lrep_weak_def lcur_def lcur_weak_def by fastforce+

subsection \<open>Loops over a list\<close>

text \<open>What a loop with early exit computes on the items, on the model's side: a fold that may stop.\<close>

fun fold_stop :: "('a \<Rightarrow> 's \<Rightarrow> (bool \<times> 's) option) \<Rightarrow> 'a list \<Rightarrow> 's \<Rightarrow> 's option" where
  "fold_stop g [] s = Some s"
| "fold_stop g (x # xs) s = g x s \<bind> (\<lambda>r. if fst r then fold_stop g xs (snd r) else Some (snd r))"

text \<open>
  The interface of a cursor: a client that loops with \<open>first\<close>, \<open>end\<close>, \<open>get\<close> and \<open>next\<close> visits the
  items in order, and a search stops at the first match.
\<close>

locale iteration =
  fixes cur :: "'l \<Rightarrow> 'a list \<Rightarrow> 'i \<Rightarrow> 'a list \<Rightarrow> bool"
    and endp :: "'i \<Rightarrow> bool"
    and get :: "'l \<Rightarrow> 'i \<Rightarrow> 'a option"
    and nxt :: "'l \<Rightarrow> 'i \<Rightarrow> 'i option"
    and loop :: "'l \<Rightarrow> ('a \<Rightarrow> 'i \<Rightarrow> 's \<Rightarrow> (bool \<times> 's) option) \<Rightarrow> 'i \<Rightarrow> 's \<Rightarrow> 's option"
  assumes cur_end: "cur l xs i [] \<Longrightarrow> endp i"
    and cur_step: "cur l xs i (y # ys) \<Longrightarrow> \<not> endp i \<and> get l i = Some y \<and> (\<exists>j. nxt l i = Some j \<and> cur l (xs @ [y]) j ys)"
    and loop_unfold: "loop l body i s = (if endp i then Some s
       else get l i \<bind> (\<lambda>x. body x i s \<bind> (\<lambda>r. if fst r then nxt l i \<bind> (\<lambda>j. loop l body j (snd r)) else Some (snd r))))"
begin

lemma loop_fold:
  assumes "\<And>x i s. body x i s = g x s"
  shows "cur l xs i ys \<Longrightarrow> loop l body i s = fold_stop g ys s"
proof (induction ys arbitrary: xs i s)
  case Nil
  then show ?case using cur_end by (subst loop_unfold) auto
next
  case (Cons y ys)
  from cur_step [OF Cons.prems] obtain j where "\<not> endp i" "get l i = Some y" "nxt l i = Some j" "cur l (xs @ [y]) j ys"
    by blast
  then have "loop l body i s = g y s \<bind> (\<lambda>r. if fst r then loop l body j (snd r) else Some (snd r))"
    using assms by (subst loop_unfold) (simp cong: if_cong)
  moreover have "loop l body j s' = fold_stop g ys s'" for s'
    using Cons.IH \<open>cur l (xs @ [y]) j ys\<close> by blast
  ultimately show ?case by (simp cong: if_cong)
qed

end

interpretation lw: iteration lcur_weak list_end list_get list_next for_iter
proof unfold_locales
  show "lcur_weak l xs i [] \<Longrightarrow> list_end i" for l :: "'a mlist" and xs i
    by (simp add: cursor_weak_laws list_end_def)
qed (rule cursor_weak_laws(2), assumption, rule for_iter.simps)

text \<open>A search with a client's loop ends at the first match, or at the end of the list.\<close>

lemma for_iter_find:
  assumes "\<And>x i s. body x i s = Some (if P x then (False, Some (x, i)) else (True, s))"
  shows "lcur l xs i ys \<Longrightarrow> (\<exists>j. for_iter l body i None = Some (map_option (\<lambda>x. (x, j)) (find P ys)) \<and>
    (find P ys \<noteq> None \<longrightarrow> lcur l (xs @ takeWhile (\<lambda>x. \<not> P x) ys) j (dropWhile (\<lambda>x. \<not> P x) ys)))"
proof (induction ys arbitrary: xs i)
  case Nil
  then show ?case by (subst for_iter.simps) (simp add: cursor_laws list_end_def)
next
  case (Cons y ys)
  from cursor_laws(2) [OF Cons.prems] obtain j where j: "\<not> list_end i" "list_get l i = Some y" "list_next l i = Some j"
    "lcur l (xs @ [y]) j ys" by blast
  show ?case
  proof (cases "P y")
    case True
    with j Cons.prems assms show ?thesis by (subst for_iter.simps) auto
  next
    case False
    then have "for_iter l body i None = for_iter l body j None"
      using j assms by (subst for_iter.simps) simp
    with Cons.IH [OF j(4)] False show ?thesis by simp
  qed
qed

text \<open>The loops of the list's own functions, which follow the links.\<close>

fun fold_more :: "('a \<Rightarrow> bool \<Rightarrow> 's \<Rightarrow> (bool \<times> 's) option) \<Rightarrow> 'a list \<Rightarrow> 's \<Rightarrow> 's option" where
  "fold_more g [] s = Some s"
| "fold_more g (x # xs) s = g x (xs \<noteq> []) s \<bind> (\<lambda>r. if fst r then fold_more g xs (snd r) else Some (snd r))"

lemma for_nodes_chain:
  assumes body: "\<And>n p x s. n_data n = DItem x \<Longrightarrow> body n p s = g (p, x) (n_next n \<noteq> None) s"
  shows "lchain l d (axs @ bxs) \<Longrightarrow> for_nodes (cells l) body (first_addr bxs None) s = fold_more g bxs s"
proof (induction bxs arbitrary: axs s)
  case Nil
  then show ?case by (subst for_nodes.simps) simp
next
  case (Cons e bxs)
  obtain p x where e: "e = (p, x)" by (cases e)
  let ?n = "\<lparr>n_next = first_addr bxs None, n_prev = last_addr (Some header) axs, n_data = DItem x\<rparr>"
  have "cells l p = Some ?n" using chain_cell [of l d axs p x bxs] Cons.prems e by simp
  moreover have "n_next ?n \<noteq> None \<longleftrightarrow> bxs \<noteq> []" by (cases bxs) simp_all
  moreover have "for_nodes (cells l) body (first_addr bxs None) s' = fold_more g bxs s'" for s'
    by (rule Cons.IH [of "axs @ [(p, x)]"]) (use Cons.prems e in simp)
  ultimately show ?case using e body [of ?n x p s]
    by (subst for_nodes.simps) (simp cong: if_cong)
qed

lemma fold_more_snd: "fold_more (\<lambda>e. g (snd e)) bxs s = fold_more g (map snd bxs) s"
  by (induction bxs arbitrary: s) (auto cong: if_cong)

lemma for_nodes_items:
  assumes "\<And>n p x s. n_data n = DItem x \<Longrightarrow> body n p s = g x (n_next n \<noteq> None) s" "lrep_weak l xs"
  shows "list_first l \<bind> (\<lambda>p. for_nodes (cells l) body p s) = fold_more g xs s"
proof -
  from assms(2) obtain d axs where c: "lchain l d axs" "map snd axs = xs" by (auto simp: lrep_weak_def)
  have "for_nodes (cells l) body (first_addr axs None) s = fold_more (\<lambda>e. g (snd e)) axs s"
    by (rule for_nodes_chain [of _ _ l d "[]"]) (use assms(1) c in auto)
  with c show ?thesis by (simp add: lchain_first fold_more_snd)
qed

text \<open>A run of a callback over the items: it stops, and returns false, when the callback does.\<close>

fun run_each :: "('s \<Rightarrow> 'a \<Rightarrow> bool \<times> 's) \<Rightarrow> 'a list \<Rightarrow> 's \<Rightarrow> bool \<times> 's" where
  "run_each f [] s = (True, s)"
| "run_each f (x # xs) s = (let (ok, s) = f s x in if ok then run_each f xs s else (False, s))"

lemma list_foreach_spec: "lrep_weak l xs \<Longrightarrow> list_foreach l args f = Some (run_each f xs args)"
proof -
  assume l: "lrep_weak l xs"
  have "list_foreach l args f = fold_more (\<lambda>x _ (_, s). let (ok, s) = f s x in Some (ok, (ok, s))) xs (True, args)"
    unfolding list_foreach_def by (rule for_nodes_items [OF _ l]) (auto simp: item_of_def)
  also have "\<dots> = Some (run_each f xs args)"
    by (induction xs arbitrary: args) (auto simp: Let_def split: prod.split)
  finally show ?thesis .
qed

lemma list_dual_foreach_spec:
  "lrep_weak l xs \<Longrightarrow> list_dual_foreach l arg1 arg2 f = Some (run_each (\<lambda>(s, t). f s t) xs (arg1, arg2))"
proof -
  assume l: "lrep_weak l xs"
  have "list_dual_foreach l arg1 arg2 f =
      fold_more (\<lambda>x _ (_, s, t). let (ok, s, t) = f s t x in Some (ok, (ok, s, t))) xs (True, arg1, arg2)"
    unfolding list_dual_foreach_def by (rule for_nodes_items [OF _ l]) (auto simp: item_of_def)
  also have "\<dots> = Some (run_each (\<lambda>(s, t). f s t) xs (arg1, arg2))"
    by (induction xs arbitrary: arg1 arg2) (auto simp: Let_def split: prod.split)
  finally show ?thesis .
qed

text \<open>With a separator: the callback on every item, the separator between two items only.\<close>

fun run_sep :: "('s \<Rightarrow> 'a \<Rightarrow> bool \<times> 's) \<Rightarrow> ('s \<Rightarrow> bool \<times> 's) \<Rightarrow> 'a list \<Rightarrow> 's \<Rightarrow> bool \<times> 's" where
  "run_sep f sep [] s = (True, s)"
| "run_sep f sep [x] s = (let (ok, s) = f s x in (ok, s))"
| "run_sep f sep (x # y # xs) s = (let (ok, s) = f s x in
     if ok then (let (ok, s) = sep s in if ok then run_sep f sep (y # xs) s else (False, s)) else (False, s))"

lemma list_foreach_sep_spec: "lrep_weak l xs \<Longrightarrow> list_foreach_sep l args f sep = Some (run_sep f sep xs args)"
proof -
  assume l: "lrep_weak l xs"
  let ?g = "\<lambda>x more (_, s). let (ok, s) = f s x in if \<not> ok then Some (False, (False, s))
      else if more then (let (ok, s) = sep s in Some (ok, (ok, s))) else Some (True, (True, s))"
  have "list_foreach_sep l args f sep = fold_more ?g xs (True, args)"
    unfolding list_foreach_sep_def by (rule for_nodes_items [OF _ l]) (auto simp: item_of_def)
  also have "\<dots> = Some (run_sep f sep xs args)"
    by (induction f sep xs args rule: run_sep.induct) (auto simp: Let_def split: prod.split)
  finally show ?thesis .
qed

lemma list_size_spec: "lrep_weak l xs \<Longrightarrow> list_size l = Some (length xs)"
proof -
  assume l: "lrep_weak l xs"
  have "list_size l = fold_more (\<lambda>_ _ k. Some (True, Suc k)) xs 0"
    unfolding list_size_def by (rule for_nodes_items [OF _ l]) auto
  also have "fold_more (\<lambda>_ _ k. Some (True, Suc k)) xs k = Some (k + length xs)" for k
    by (induction xs arbitrary: k) auto
  finally show ?thesis by simp
qed

lemma list_count_spec:
  "lrep_weak l xs \<Longrightarrow> list_count l P = Some (length (filter (\<lambda>x. case P of None \<Rightarrow> True | Some f \<Rightarrow> f x) xs))"
proof -
  assume l: "lrep_weak l xs"
  let ?P = "\<lambda>x. case P of None \<Rightarrow> True | Some f \<Rightarrow> f x"
  have "list_count l P = fold_more (\<lambda>x _ k. Some (True, if ?P x then Suc k else k)) xs 0"
    unfolding list_count_def by (rule for_nodes_items [OF _ l]) (auto simp: item_of_def)
  also have "fold_more (\<lambda>x _ k. Some (True, if ?P x then Suc k else k)) xs k = Some (k + length (filter ?P xs))" for k
    by (induction xs arbitrary: k) auto
  finally show ?thesis by simp
qed

lemma list_get_item_spec:
  "lrep_weak l xs \<Longrightarrow> list_get_item l k = (if k < length xs then Some (Some (xs ! k)) else None)"
proof -
  assume l: "lrep_weak l xs"
  let ?b = "\<lambda>n p (i, _). if i = 0 then do { x \<leftarrow> item_of n; Some (False, (i, Some x)) } else Some (True, (i - 1, None))"
  let ?g = "\<lambda>x _ (i, _). if i = 0 then Some (False, (i, Some x)) else Some (True, (i - 1, None))"
  have "list_first l \<bind> (\<lambda>p. for_nodes (cells l) ?b p (k, None)) = fold_more ?g xs (k, None)"
    by (rule for_nodes_items [OF _ l]) (auto simp: item_of_def)
  also have "k < length xs \<Longrightarrow> fold_more ?g xs (k, None) = Some (0, Some (xs ! k))"
    by (induction xs arbitrary: k) (auto simp: nth_Cons')
  finally show ?thesis using list_size_spec [OF l] l
    by (auto simp: list_get_item_def lrep_weak_def lchain_first)
qed

lemma list_find_spec:
  assumes "lrep l xs"
  shows "\<exists>i. list_find l data cmp = Some i \<and>
    lcur l (takeWhile (\<lambda>x. cmp x data \<noteq> 0) xs) i (dropWhile (\<lambda>x. cmp x data \<noteq> 0) xs)"
proof -
  let ?P = "\<lambda>e. cmp (snd e) data \<noteq> 0"
  from assms obtain d axs where c: "lchain l d axs" "cache_ok d axs" "map snd axs = xs" by (auto simp: lrep_def)
  let ?g = "\<lambda>(p, x) _ i. Some (if cmp x data = 0 then (False, Some p) else (True, i))"
  have "list_find l data cmp = fold_more ?g axs None"
    unfolding list_find_def lchain_first [OF c(1)] bind.bind_lunit
    by (rule for_nodes_chain [of _ _ l d "[]"]) (use c(1) in \<open>auto simp: item_of_def\<close>)
  also have "\<dots> = Some (first_addr (dropWhile ?P axs) None)"
    by (induction axs) auto
  moreover have "lchain l d (takeWhile ?P axs @ dropWhile ?P axs)" "cache_ok d (takeWhile ?P axs @ dropWhile ?P axs)"
    using c by simp_all
  ultimately show ?thesis using c(3) by (auto intro!: lcurI(1) simp: takeWhile_map dropWhile_map comp_def)
qed

lemma back_nodes_chain:
  "lchain l d (axs @ bxs) \<Longrightarrow>
   back_nodes (cells l) (\<lambda>x s. f s x) (last_addr (Some header) axs) s = Some (run_each f (rev (map snd axs)) s)"
proof (induction axs arbitrary: bxs s rule: rev_induct)
  case Nil
  then show ?case by (subst back_nodes.simps) simp
next
  case (snoc e axs)
  obtain p x where e: "e = (p, x)" by (cases e)
  have c: "cells l p = Some \<lparr>n_next = first_addr bxs None, n_prev = last_addr (Some header) axs, n_data = DItem x\<rparr>"
    using chain_cell [of l d axs p x bxs] snoc.prems e by simp
  have "p \<noteq> header" using snoc.prems e by (auto simp: lchain_def)
  moreover have "back_nodes (cells l) (\<lambda>x s. f s x) (last_addr (Some header) axs) s' = Some (run_each f (rev (map snd axs)) s')" for s'
    by (rule snoc.IH [of "e # bxs"]) (use snoc.prems in simp)
  ultimately show ?case using e c
    by (subst back_nodes.simps) (simp add: item_of_def Let_def case_prod_beta cong: if_cong)
qed

lemma list_foreach_reversed_spec:
  "lrep l xs \<Longrightarrow> list_foreach_reversed l args f = Some (run_each f (rev xs) args)"
proof -
  assume "lrep l xs"
  then obtain d axs where c: "lchain l d axs" "cache_ok d axs" "map snd axs = xs" by (auto simp: lrep_def)
  have h: "cells l header = Some \<lparr>n_next = first_addr (items axs) None, n_prev = None, n_data = d\<rparr>"
    using c(1) by (simp add: lchain_def)
  show ?thesis
  proof (cases "d = DNull")
    case True
    then show ?thesis using c h by (auto simp: list_foreach_reversed_def cache_ok_def)
  next
    case False
    then have "d = DNode (the (last_addr (Some header) axs))" using c(2) by (simp add: cache_ok_def)
    moreover have "Some (the (last_addr (Some header) axs)) = last_addr (Some header) axs" by (simp add: last_addr_def)
    ultimately show ?thesis using h back_nodes_chain [of l d axs "[]" f args] c
      by (simp add: list_foreach_reversed_def)
  qed
qed

subsection \<open>Freeing\<close>

lemma free_nodes_mk:
  "distinct (map fst ns) \<Longrightarrow> free_nodes (mk (nodes_of pv ns None) f) (first_addr ns None) = Some (mk [] f)"
proof (induction ns arbitrary: pv)
  case Nil
  then show ?case by (subst free_nodes.simps) simp
next
  case (Cons e ns)
  obtain p d where e: "e = (p, d)" by (cases e)
  have "free_node (mk (nodes_of pv (e # ns) None) f) p = Some (mk (nodes_of (Some p) ns None) f)"
    using free_mk [of "[]" p _ "nodes_of (Some p) ns None" f] Cons.prems e by simp
  then show ?case using Cons e by (subst free_nodes.simps) simp
qed

lemma free_nodes_spec:
  "lrep_weak l xs \<Longrightarrow> \<exists>l'. free_nodes l (Some header) = Some l' \<and> cells l' = Map.empty"
proof -
  assume "lrep_weak l xs"
  then obtain d axs where c: "lchain l d axs" by (auto simp: lrep_weak_def)
  let ?ns = "(header, d) # items axs"
  have "l = mk (nodes_of None ?ns None) (fresh_at l)" using c by (cases l) (simp add: lchain_def mk_def)
  moreover have "distinct (map fst ?ns)" "first_addr ?ns None = Some header" using c by (simp_all add: lchain_def)
  ultimately have "free_nodes l (Some header) = Some (mk [] (fresh_at l))"
    using free_nodes_mk [of ?ns None "fresh_at l"] by simp
  then show ?thesis by simp
qed

lemma sublist_free_spec: "lrep_weak l xs \<Longrightarrow> \<exists>l'. sublist_free l = Some l' \<and> cells l' = Map.empty"
  unfolding sublist_free_def by (rule free_nodes_spec)

lemma list_free_spec: "lrep_weak l xs \<Longrightarrow> \<exists>l'. list_free l = Some (xs, l') \<and> cells l' = Map.empty"
proof -
  assume l: "lrep_weak l xs"
  let ?b = "\<lambda>n _ xs. do { x \<leftarrow> item_of n; Some (True, xs @ [x]) }"
  have "list_first l \<bind> (\<lambda>p. for_nodes (cells l) ?b p []) = fold_more (\<lambda>x _ xs. Some (True, xs @ [x])) xs []"
    by (rule for_nodes_items [OF _ l]) (auto simp: item_of_def)
  also have "fold_more (\<lambda>x _ xs. Some (True, xs @ [x])) xs zs = Some (zs @ xs)" for zs
    by (induction xs arbitrary: zs) auto
  finally show ?thesis using free_nodes_spec [OF l] l by (auto simp: list_free_def lrep_weak_def lchain_first)
qed

subsection \<open>Lists are sinks\<close>

text \<open>The list a caller holds: none yet, which \<open>list_add\<close> treats as an empty one, or a list.\<close>

definition orep :: "'a mlist option \<Rightarrow> 'a list \<Rightarrow> bool" where
  "orep lst xs \<longleftrightarrow> (case lst of None \<Rightarrow> xs = [] | Some l \<Rightarrow> lrep l xs)"

lemma list_add_to_spec:
  assumes "lrep l xs"
  shows "\<exists>ok l' a'. list_add_to l x a = Some (ok, l', a') \<and> lrep l' (if ok then xs @ [x] else xs) \<and>
    (decisions a = [] \<longrightarrow> ok \<and> a' = a)"
proof -
  obtain ok l' a' where "list_add_to l x a = Some (ok, l', a')" "if ok then lrep l' (xs @ [x]) else l' = l"
      "decisions a = [] \<longrightarrow> ok \<and> a' = a"
    using list_add_spec [OF assms, of x a] unfolding lpost_def by blast
  then show ?thesis using assms by (cases ok) auto
qed

lemma list_new_result:
  fixes r :: "'b mlist option"
  assumes "list_new a = (r, a')"
  shows "(\<forall>l. r = Some l \<longrightarrow> lrep l []) \<and> (decisions a = [] \<longrightarrow> r \<noteq> None \<and> a' = a)"
  using assms list_new_spec [where ?'a = 'b, of a] by auto

lemma list_add_some:
  assumes "lrep l xs"
  shows "\<exists>ok l' a'. list_add (Some l) x a = Some (ok, Some l', a') \<and> lrep l' (if ok then xs @ [x] else xs) \<and> (decisions a = [] \<longrightarrow> ok \<and> a' = a)"
proof -
  obtain ok l' a' where "list_add_to l x a = Some (ok, l', a')" "lrep l' (if ok then xs @ [x] else xs)" "decisions a = [] \<longrightarrow> ok \<and> a' = a"
    using list_add_to_spec [OF assms, of x a] by blast
  then show ?thesis by (intro exI [of _ ok] exI [of _ l'] exI [of _ a']) (simp add: list_add_def)
qed

text \<open>The status and the allocator after \<open>list_add\<close> are those of its allocation.\<close>

lemma list_add_to_status:
  "list_add_to l x a = Some (ok, l', a') \<Longrightarrow> try_alloc node_size a = (ok, a')"
  by (auto simp: list_add_to_def calloc_node_def split: prod.splits bool.splits bind_splits ldata.splits)

lemma list_add_opt_spec:
  assumes "orep lst xs"
  shows "\<exists>ok lst' a'. list_add lst x a = Some (ok, lst', a') \<and> orep lst' (if ok then xs @ [x] else xs) \<and>
    (ok \<longrightarrow> lst' \<noteq> None) \<and> (decisions a = [] \<longrightarrow> ok \<and> a' = a)"
proof (cases lst)
  case (Some l)
  then have "lrep l xs" using assms by (simp add: orep_def)
  then obtain ok l' a' where "list_add_to l x a = Some (ok, l', a')" "lrep l' (if ok then xs @ [x] else xs)"
      "decisions a = [] \<longrightarrow> ok \<and> a' = a"
    using list_add_to_spec [of l xs x a] by blast
  then show ?thesis using Some by (simp add: list_add_def orep_def)
next
  case None
  then have xs: "xs = []" using assms by (simp add: orep_def)
  obtain r a1 where n: "(list_new a :: 'a mlist option \<times> allocator) = (r, a1)" "\<forall>l. r = Some l \<longrightarrow> lrep l []"
      "decisions a = [] \<longrightarrow> r \<noteq> None \<and> a1 = a" using list_new_spec by blast
  show ?thesis
  proof (cases r)
    case None': None
    then show ?thesis using n None xs by (auto simp: list_add_def orep_def)
  next
    case (Some l)
    then obtain ok l' a' where p: "list_add_to l x a1 = Some (ok, l', a')" "lrep l' (if ok then [] @ [x] else [])"
        "decisions a1 = [] \<longrightarrow> ok \<and> a' = a1"
      using list_add_to_spec [of l "[]" x a1] n by blast
    obtain dead l'' where "list_free l' = Some (dead, l'')"
      using list_free_spec [OF lrep_weak(1) [OF p(2)]] by blast
    then show ?thesis using p n None Some xs by (cases ok) (force simp: list_add_def orep_def ex_bool_eq)+
  qed
qed

lemma list_add_to_opt: "list_add_to l x a = Some (ok, l', a') \<longleftrightarrow> list_add (Some l) x a = Some (ok, Some l', a')"
  by (auto simp: list_add_def bind_eq_Some_conv)

interpretation ll: sure_sink list_add_to lrep "\<lambda>x. [x]" "\<lambda>_. True" "\<lambda>a. decisions a = []"
proof unfold_locales
  fix l :: "'a mlist" and xs x a assume "lrep l xs"
  from list_add_to_spec [OF this, of x a]
  show "\<exists>st l' a'. list_add_to l x a = Some (st, l', a') \<and> lrep l' (if st then xs @ [x] else xs)"
    by (elim exE conjE) (intro exI conjI)
next
  fix a :: allocator and l x ok l' a'
  assume d: "decisions a = []" and add: "list_add_to l x a = Some (ok, l', a')"
  have "try_alloc node_size a = (True, a)"
    using d by (simp add: try_alloc_def node_size_def PTRDIFF_MAX_def)
  then show "ok \<and> decisions a' = []" using d add
    by (auto simp: list_add_to_def calloc_node_def bind_eq_Some_conv)
qed

interpretation lo: sink list_add orep "\<lambda>x. [x]" "\<lambda>_. True"
proof unfold_locales
  fix lst :: "'a mlist option" and xs x a assume "orep lst xs"
  from list_add_opt_spec [OF this, of x a]
  show "\<exists>st l' a'. list_add lst x a = Some (st, l', a') \<and> orep l' (if st then xs @ [x] else xs)"
    by (elim exE conjE) (intro exI conjI)
qed

subsection \<open>Copies\<close>

lemma copy_loop:
  "fold_more (\<lambda>x _ (_, dest, a). if inc x then list_add_to dest (ad x) a \<bind> (\<lambda>(ok, dest, a). Some (ok, (ok, dest, a)))
       else Some (True, (True, dest, a))) xs (True, dest, a) = ll.put_all dest (map ad (filter inc xs)) a"
proof (induction xs arbitrary: dest a)
  case (Cons x xs)
  show ?case
  proof (cases "inc x")
    case True
    show ?thesis
    proof (cases "list_add_to dest (ad x) a")
      case (Some r)
      obtain ok d' a' where "r = (ok, d', a')" by (cases r)
      with Some True Cons.IH show ?thesis by (cases ok) simp_all
    qed (use True in simp)
  qed (use Cons.IH in simp)
qed simp

lemma copy_nodes_spec:
  assumes l: "lrep_weak l xs"
  shows "\<exists>r a'. copy_nodes l inc ad a = Some (r, a') \<and> (\<forall>dest. r = Some dest \<longrightarrow> lrep dest (map ad (filter inc xs))) \<and>
    (decisions a = [] \<longrightarrow> r \<noteq> None)"
proof -
  obtain r a1 where n: "(list_new a :: 'b mlist option \<times> allocator) = (r, a1)" "\<forall>l. r = Some l \<longrightarrow> lrep l []"
      "decisions a = [] \<longrightarrow> r \<noteq> None \<and> a1 = a" using list_new_spec by blast
  show ?thesis
  proof (cases r)
    case None
    then show ?thesis using n by (simp add: copy_nodes_def)
  next
    case (Some dest)
    let ?ys = "map ad (filter inc xs)"
    let ?b = "\<lambda>n _ (_, dest, a). item_of n \<bind> (\<lambda>x. if inc x
        then list_add_to dest (ad x) a \<bind> (\<lambda>(ok, dest, a). Some (ok, (ok, dest, a))) else Some (True, (True, dest, a)))"
    obtain ok dest' a' k where p: "ll.put_all dest ?ys a1 = Some (ok, dest', a')" "ok \<longleftrightarrow> k = length ?ys"
        "lrep dest' (take k ?ys)"
      using ll.put_all_returns [of dest "[]" ?ys a1] n Some by auto
    have ok: "decisions a = [] \<longrightarrow> ok" using ll.put_all_succeeds [OF _ p(1)] n by auto
    have "list_first l \<bind> (\<lambda>p. for_nodes (cells l) ?b p (True, dest, a1)) =
        fold_more (\<lambda>x _ (_, dest, a). if inc x then list_add_to dest (ad x) a \<bind> (\<lambda>(ok, dest, a). Some (ok, (ok, dest, a)))
           else Some (True, (True, dest, a))) xs (True, dest, a1)"
      by (rule for_nodes_items [OF _ l]) (auto simp: item_of_def)
    then have "list_first l \<bind> (\<lambda>p. for_nodes (cells l) ?b p (True, dest, a1)) = Some (ok, dest', a')"
      using p(1) by (simp add: copy_loop)
    moreover obtain q where "list_first l = Some q" using list_first_spec(2) [OF l] by blast
    moreover obtain l'' where "sublist_free dest' = Some l''" using sublist_free_spec [OF lrep_weak(1)] p(3) by blast
    ultimately show ?thesis using n Some p(2,3) ok by (cases ok) (auto simp: copy_nodes_def)
  qed
qed

lemma list_merge_spec:
  assumes d: "orep dest ds" and s: "lrep src xs"
  shows "\<exists>ok dest' src' a' k. list_merge dest src a = Some (ok, dest', src', a') \<and> orep dest' (ds @ take k xs) \<and>
    (if src' = None then k = length xs \<and> (ok \<longleftrightarrow> dest' \<noteq> None) else \<not> ok \<and> src' = Some src \<and> k < length xs)"
proof -
  let ?b = "\<lambda>n _ (_, dest, a). item_of n \<bind> (\<lambda>data. list_add dest data a \<bind> (\<lambda>(ok, dest, a). Some (ok, (ok, dest, a))))"
  have loop: "fold_more (\<lambda>x _ (_, dest, a). list_add dest x a \<bind> (\<lambda>(ok, dest, a). Some (ok, (ok, dest, a)))) xs (True, dest, a) =
      lo.put_all dest xs a" for dest a
  proof (induction xs arbitrary: dest a)
    case (Cons x xs)
    show ?case
    proof (cases "list_add dest x a")
      case (Some r)
      obtain ok d' a' where "r = (ok, d', a')" by (cases r)
      with Some Cons.IH show ?thesis by (cases ok) simp_all
    qed simp
  qed simp
  obtain ok dest' a' k where p: "lo.put_all dest xs a = Some (ok, dest', a')" "k \<le> length xs" "ok \<longleftrightarrow> k = length xs"
      "orep dest' (ds @ take k xs)"
    using lo.put_all_returns [OF d, of xs a] by auto
  have "list_first src \<bind> (\<lambda>p. for_nodes (cells src) ?b p (True, dest, a)) =
      fold_more (\<lambda>x _ (_, dest, a). list_add dest x a \<bind> (\<lambda>(ok, dest, a). Some (ok, (ok, dest, a)))) xs (True, dest, a)"
    by (rule for_nodes_items [OF _ lrep_weak(1) [OF s]]) (auto simp: item_of_def)
  then have "list_first src \<bind> (\<lambda>p. for_nodes (cells src) ?b p (True, dest, a)) = Some (ok, dest', a')"
    using p(1) by (simp add: loop)
  moreover obtain q where "list_first src = Some q" using list_first_spec(1) [OF s] by blast
  moreover obtain l'' where "sublist_free src = Some l''" using sublist_free_spec [OF lrep_weak(1)] s by blast
  ultimately have "list_merge dest src a = Some (if ok then (dest' \<noteq> None, dest', None, a') else (False, dest', Some src, a'))"
    by (auto simp: list_merge_def)
  then show ?thesis using p
    by (intro exI [of _ "ok \<and> dest' \<noteq> None"] exI [of _ dest'] exI [of _ "if ok then None else Some src"] exI [of _ a'] exI [of _ k])
       (cases ok, simp_all)
qed

text \<open>A copier that made every item of the copy from the item at the same place.\<close>

definition copied :: "('a \<Rightarrow> allocator \<Rightarrow> 'b option \<times> allocator) \<Rightarrow> 'a \<Rightarrow> 'b \<Rightarrow> bool" where
  "copied copier x y \<longleftrightarrow> (\<exists>a a'. copier x a = (Some y, a'))"

lemma copy_with_loop:
  assumes "lrep new zs"
  shows "\<exists>ok new' a' ys k. fold_more (\<lambda>x _ (_, new, a). case copier x a of
        (None, a) \<Rightarrow> Some (False, (False, new, a))
      | (Some y, a) \<Rightarrow> list_add_to new y a \<bind> (\<lambda>(ok, new, a). Some (ok, (ok, new, a)))) xs (True, new, a) = Some (ok, new', a') \<and>
    lrep new' (zs @ ys) \<and> list_all2 (copied copier) (take k xs) ys \<and> k \<le> length xs \<and> (ok \<longleftrightarrow> k = length xs)"
  using assms
proof (induction xs arbitrary: new zs a)
  case Nil
  then show ?case by (auto intro: exI [of _ "[]"])
next
  case (Cons x xs)
  obtain c a1 where c: "copier x a = (c, a1)" by (cases "copier x a")
  show ?case
  proof (cases c)
    case None
    then show ?thesis using c Cons.prems
      by (intro exI [of _ False] exI [of _ new] exI [of _ a1] exI [of _ "[]"] exI [of _ 0]) simp
  next
    case (Some y)
    obtain ok l' a2 where p: "list_add_to new y a1 = Some (ok, l', a2)" "lrep l' (if ok then zs @ [y] else zs)"
        "decisions a1 = [] \<longrightarrow> ok \<and> a2 = a1"
      using list_add_to_spec [OF Cons.prems, of y a1] by blast
    show ?thesis
    proof (cases ok)
      case False
      then show ?thesis using c Some p
        by (intro exI [of _ False] exI [of _ l'] exI [of _ a2] exI [of _ "[]"] exI [of _ 0]) simp
    next
      case True
      obtain ok' l'' a' ys k where "fold_more (\<lambda>x _ (_, new, a). case copier x a of
        (None, a) \<Rightarrow> Some (False, (False, new, a))
      | (Some y, a) \<Rightarrow> list_add_to new y a \<bind> (\<lambda>(ok, new, a). Some (ok, (ok, new, a)))) xs (True, l', a2) = Some (ok', l'', a')"
          "lrep l'' ((zs @ [y]) @ ys)" "list_all2 (copied copier) (take k xs) ys" "k \<le> length xs" "ok' \<longleftrightarrow> k = length xs"
        using Cons.IH [of l' "zs @ [y]" a2] p(2) True by auto
      moreover have "copied copier x y" using c Some by (auto simp: copied_def)
      ultimately show ?thesis using c Some p(1) True
        by (intro exI [of _ ok'] exI [of _ l''] exI [of _ a'] exI [of _ "y # ys"] exI [of _ "Suc k"]) simp
    qed
  qed
qed

lemma list_copy_spec:
  assumes l: "lrep_weak l xs"
  shows "\<exists>r dead a'. list_copy l copier a = Some (r, dead, a') \<and> (case r of
      Some new \<Rightarrow> dead = [] \<and> (\<exists>ys. lrep new ys \<and> list_all2 (copied copier) xs ys)
    | None \<Rightarrow> (\<exists>k. list_all2 (copied copier) (take k xs) dead))"
proof -
  obtain r a1 where n: "(list_new a :: 'b mlist option \<times> allocator) = (r, a1)" "\<forall>l. r = Some l \<longrightarrow> lrep l []"
    using list_new_spec by blast
  show ?thesis
  proof (cases r)
    case None
    then show ?thesis using n by (auto simp: list_copy_def intro: exI [of _ 0])
  next
    case (Some new)
    then have new: "lrep new []" using n by simp
    let ?b = "\<lambda>n _ (_, new, a). item_of n \<bind> (\<lambda>x. case copier x a of
        (None, a) \<Rightarrow> Some (False, (False, new, a))
      | (Some y, a) \<Rightarrow> list_add_to new y a \<bind> (\<lambda>(ok, new, a). Some (ok, (ok, new, a))))"
    obtain ok new' a' ys k where f: "fold_more (\<lambda>x _ (_, new, a). case copier x a of
        (None, a) \<Rightarrow> Some (False, (False, new, a))
      | (Some y, a) \<Rightarrow> list_add_to new y a \<bind> (\<lambda>(ok, new, a). Some (ok, (ok, new, a)))) xs (True, new, a1) = Some (ok, new', a')"
        "lrep new' ([] @ ys)" "list_all2 (copied copier) (take k xs) ys" "k \<le> length xs" "ok \<longleftrightarrow> k = length xs"
      using copy_with_loop [OF new, of copier xs a1] by blast
    have "list_first l \<bind> (\<lambda>p. for_nodes (cells l) ?b p (True, new, a1)) = Some (ok, new', a')"
      unfolding f(1) [symmetric] by (rule for_nodes_items [OF _ l]) (auto simp: item_of_def)
    moreover obtain q where "list_first l = Some q" using list_first_spec(2) [OF l] by blast
    moreover obtain l'' where "list_free new' = Some (ys, l'')" using list_free_spec [OF lrep_weak(1)] f(2) by fastforce
    ultimately show ?thesis using n Some f by (cases ok) (auto simp: list_copy_def)
  qed
qed

subsection \<open>Sorting\<close>

lemma set_data_chain:
  assumes "lchain l d (axs @ (p, x) # bxs)"
  shows "\<exists>l'. set_data l p (DItem z) = Some l' \<and> lchain l' d (axs @ (p, z) # bxs)"
proof -
  from assms(1) obtain f where "l = mk (nodes_of None ((header, d) # items (axs @ (p, x) # bxs)) None) f"
      "distinct (map fst (axs @ (p, x) # bxs))" "header \<notin> fst ` set (axs @ (p, x) # bxs)"
      "\<forall>p \<in> fst ` set (axs @ (p, x) # bxs). p < f" "header < f" "\<forall>x. d \<noteq> DItem x" by (rule lchainE)
  then show ?thesis by (auto simp: lchain_mk nodes_of_append image_Un ball_Un)
qed

text \<open>One pass of the bubble sort on the items: \<open>x\<close> is the item at hand.\<close>

fun bpass :: "('a \<Rightarrow> 'a \<Rightarrow> int) \<Rightarrow> 'a \<Rightarrow> 'a list \<Rightarrow> bool \<Rightarrow> bool \<times> 'a list" where
  "bpass func x [] srt = (srt, [x])"
| "bpass func x (y # ys) srt = (if 0 < func x y
     then (let (s, zs) = bpass func x ys False in (s, y # zs))
     else (let (s, zs) = bpass func y ys srt in (s, x # zs)))"

lemma length_bpass: "length (snd (bpass func x ys srt)) = Suc (length ys)"
  by (induction func x ys srt rule: bpass.induct) (auto simp: Let_def case_prod_beta)

lemma sort_pass_chain:
  "lchain l d (axs @ (p, x) # bxs) \<Longrightarrow>
   \<exists>l'. sort_pass func (Some p) srt l = Some (fst (bpass func x (map snd bxs) srt), l') \<and>
     lchain l' d (axs @ zip (p # map fst bxs) (snd (bpass func x (map snd bxs) srt)))"
proof (induction bxs arbitrary: axs p x l srt)
  case Nil
  then show ?case using chain_cell [OF Nil]
    by (subst sort_pass.simps) (simp add: item_of_def)
next
  case (Cons e bxs)
  obtain q y where e: "e = (q, y)" by (cases e)
  have c1: "lchain l d (axs @ (p, x) # (q, y) # bxs)" using Cons.prems e by simp
  then have c2: "lchain l d ((axs @ [(p, x)]) @ (q, y) # bxs)" by simp
  have cells: "cells l p = Some \<lparr>n_next = Some q, n_prev = last_addr (Some header) axs, n_data = DItem x\<rparr>"
      "cells l q = Some \<lparr>n_next = first_addr bxs None, n_prev = Some p, n_data = DItem y\<rparr>"
    using chain_cell [OF c1] chain_cell [OF c2] by simp_all
  show ?case
  proof (cases "0 < func x y")
    case True
    obtain l1 where l1: "set_data l q (DItem x) = Some l1" "lchain l1 d (axs @ (p, x) # (q, x) # bxs)"
      using set_data_chain [OF c2, of x] by auto
    obtain l2 where l2: "set_data l1 p (DItem y) = Some l2" "lchain l2 d ((axs @ [(p, y)]) @ (q, x) # bxs)"
      using set_data_chain [OF l1(2), of y] by auto
    have "sort_pass func (Some p) srt l = sort_pass func (Some q) False l2"
      using cells l1(1) l2(1) True by (subst sort_pass.simps) (simp add: item_of_def)
    with Cons.IH [OF l2(2), of False] True e show ?thesis by (auto simp: Let_def case_prod_beta)
  next
    case False
    have "sort_pass func (Some p) srt l = sort_pass func (Some q) srt l"
      using cells False by (subst sort_pass.simps) (simp add: item_of_def)
    with Cons.IH [OF c2, of srt] False e show ?thesis by (auto simp: Let_def case_prod_beta)
  qed
qed

text \<open>
  A comparison function that orders by a key. The number of inversions drops with every pass
  that swaps, which bounds the number of passes.
\<close>

definition compares_by :: "('a \<Rightarrow> 'k::linorder) \<Rightarrow> ('a \<Rightarrow> 'a \<Rightarrow> int) \<Rightarrow> bool" where
  "compares_by key func \<longleftrightarrow> (\<forall>x y. 0 < func x y \<longleftrightarrow> key y < key x)"

fun inversions :: "('a \<Rightarrow> 'k::linorder) \<Rightarrow> 'a list \<Rightarrow> nat" where
  "inversions key [] = 0"
| "inversions key (x # xs) = size (filter_mset (\<lambda>y. key y < key x) (mset xs)) + inversions key xs"

lemma bpass_correct:
  assumes cmp: "compares_by key func"
  shows "bpass func x ys srt = (s, zs) \<Longrightarrow>
    mset zs = mset (x # ys) \<and> (\<forall>k. filter (\<lambda>z. key z = k) zs = filter (\<lambda>z. key z = k) (x # ys)) \<and>
    inversions key zs \<le> inversions key (x # ys) \<and> (s \<longrightarrow> srt \<and> zs = x # ys \<and> sorted (map key (x # ys))) \<and>
    (srt \<and> \<not> s \<longrightarrow> inversions key zs < inversions key (x # ys))"
proof (induction ys arbitrary: x srt s zs)
  case Nil
  then show ?case by auto
next
  case (Cons y ys)
  show ?case
  proof (cases "0 < func x y")
    case True
    then have lt: "key y < key x" using cmp by (simp add: compares_by_def)
    obtain s' zs' where b: "bpass func x ys False = (s', zs')" "s = s'" "zs = y # zs'"
      using Cons.prems True by (cases "bpass func x ys False") auto
    have IH: "mset zs' = add_mset x (mset ys)" "\<forall>k. filter (\<lambda>z. key z = k) zs' = filter (\<lambda>z. key z = k) (x # ys)"
        "inversions key zs' \<le> inversions key (x # ys)" "\<not> s'" using Cons.IH [OF b(1)] by auto
    have "\<not> key x < key y" "key x \<noteq> key y" using lt by auto
    then show ?thesis using b lt IH by simp
  next
    case False
    then have le: "key x \<le> key y" using cmp unfolding compares_by_def by (metis not_less)
    obtain s' zs' where b: "bpass func y ys srt = (s', zs')" "s = s'" "zs = x # zs'"
      using Cons.prems False by (cases "bpass func y ys srt") auto
    have IH: "mset zs' = add_mset y (mset ys)" "\<forall>k. filter (\<lambda>z. key z = k) zs' = filter (\<lambda>z. key z = k) (y # ys)"
        "inversions key zs' \<le> inversions key (y # ys)" "s' \<longrightarrow> srt \<and> zs' = y # ys \<and> sorted (map key (y # ys))"
        "srt \<and> \<not> s' \<longrightarrow> inversions key zs' < inversions key (y # ys)" using Cons.IH [OF b(1)] by auto
    have srt: "sorted (map key (y # ys)) \<Longrightarrow> sorted (map key (x # y # ys))" using le by auto
    show ?thesis using b le IH srt by simp
  qed
qed

lemma cache_ok_addrs: "map fst axs = map fst bxs \<Longrightarrow> cache_ok d axs \<Longrightarrow> cache_ok d bxs"
  by (auto simp: cache_ok_def last_addr_def) (metis last_map map_is_Nil_conv)+

lemma list_sort_spec:
  assumes cmp: "compares_by key func"
  shows "lrep l xs \<Longrightarrow> \<exists>l'. list_sort func l = Some l' \<and> lrep l' (sort_key key xs)"
proof (induction "inversions key xs" arbitrary: xs l rule: less_induct)
  case less
  from less.prems obtain d axs where c: "lchain l d axs" "cache_ok d axs" "map snd axs = xs" by (auto simp: lrep_def)
  show ?case
  proof (cases axs)
    case Nil
    then have "list_sort func l = Some l" using c(1)
      by (subst list_sort.simps) (simp add: lchain_first sort_pass.simps)
    then show ?thesis using less.prems c(3) Nil by auto
  next
    case (Cons e bxs)
    obtain p x where e: "e = (p, x)" by (cases e)
    let ?ys = "map snd bxs"
    obtain s zs where b: "bpass func x ?ys True = (s, zs)" by (cases "bpass func x ?ys True")
    have xs: "xs = x # ?ys" using c(3) Cons e by simp
    obtain l' where l': "sort_pass func (Some p) True l = Some (s, l')" "lchain l' d (zip (map fst axs) zs)"
      using sort_pass_chain [of l d "[]" p x bxs func True] c(1) b Cons e by auto
    have len: "length zs = length axs" using length_bpass [of func x ?ys True] b Cons by simp
    have rep: "lrep l' zs" unfolding lrep_def
      using l'(2) c(2) len cache_ok_addrs [of axs "zip (map fst axs) zs" d]
      by (intro exI [of _ d] exI [of _ "zip (map fst axs) zs"]) simp
    have step: "list_sort func l = (if s then Some l' else list_sort func l')"
      using l'(1) c(1) Cons e by (subst list_sort.simps) (simp add: lchain_first)
    note B = bpass_correct [OF cmp b]
    show ?thesis
    proof (cases s)
      case True
      then have "zs = xs" "sorted (map key xs)" using B xs by auto
      then show ?thesis using True step rep by (simp add: sort_key_id_if_sorted)
    next
      case False
      then have "inversions key zs < inversions key xs" using B xs by auto
      from less.hyps [OF this rep] False step obtain l'' where "list_sort func l = Some l''" "lrep l'' (sort_key key zs)" by auto
      moreover have "sort_key key xs = sort_key key zs"
      proof (rule properties_for_sort_key)
        show "mset (sort_key key zs) = mset xs" using B xs by simp
        show "filter (\<lambda>x. key k = key x) (sort_key key zs) = filter (\<lambda>x. key k = key x) xs" for k
          using B xs by (simp add: sort_key_stable eq_commute [of "key k"])
      qed simp
      ultimately show ?thesis by simp
    qed
  qed
qed

subsection \<open>Properties of the list ADT\<close>

text \<open>A concrete list for the witnesses, with its nodes at the addresses 1, 2, \<open>\<dots>\<close>\<close>

definition ml_of :: "'a list \<Rightarrow> 'a mlist" where
  "ml_of xs = mk (nodes_of None ((header, if xs = [] then DNull else DNode (length xs)) # items (zip [1..<Suc (length xs)] xs)) None)
     (Suc (length xs))"

lemma lcur_ml_of: "lcur (ml_of (xs @ ys)) xs (if ys = [] then None else Some (Suc (length xs))) ys"
proof -
  let ?n = "length (xs @ ys)"
  let ?z = "\<lambda>n xs. zip [Suc n..<Suc (n + length xs)] xs"
  have z: "zip [1..<Suc ?n] (xs @ ys) = ?z 0 xs @ ?z (length xs) ys"
  proof -
    have "[1..<Suc ?n] = [1..<Suc (length xs)] @ [Suc (length xs)..<Suc (length xs + length ys)]"
      using upt_add_eq_append [of 1 "Suc (length xs)" "length ys"] by (simp del: upt_Suc)
    then show ?thesis by (simp del: upt_Suc)
  qed
  let ?axs = "?z 0 xs" and ?bxs = "?z (length xs) ys"
  have fst: "map fst (?axs @ ?bxs) = [1..<Suc ?n]" unfolding z [symmetric] by (simp del: upt_Suc)
  have "lchain (ml_of (xs @ ys)) (if xs @ ys = [] then DNull else DNode ?n) (?axs @ ?bxs)"
    unfolding ml_of_def lchain_mk z fst by (auto simp: header_def simp del: upt_Suc)
  moreover have "cache_ok (if xs @ ys = [] then DNull else DNode ?n) (?axs @ ?bxs)"
  proof (cases "xs @ ys = []")
    case False
    then have "fst (last (?axs @ ?bxs)) = last (map fst (?axs @ ?bxs))"
      by (subst last_map) (auto simp del: upt_Suc)
    also have "\<dots> = ?n" unfolding fst using False by (cases ?n) auto
    finally show ?thesis using False by (auto simp: cache_ok_def last_addr_def simp del: upt_Suc)
  qed (auto simp: cache_ok_def)
  moreover have "first_addr ?bxs None = (if ys = [] then None else Some (Suc (length xs)))"
    by (cases ys) (simp_all add: upt_conv_Cons del: upt_Suc)
  moreover have "map snd ?axs = xs" "map snd ?bxs = ys" by (simp_all add: map_snd_zip del: upt_Suc)
  ultimately show ?thesis by (blast intro: lcurI(1))
qed

lemma lrep_ml_of: "lrep (ml_of xs) xs"
  using lcur_lrep(1) [OF lcur_ml_of [of xs "[]"]] by simp

text \<open>
  C34. Refinement of the updating operations. A list with an iterator before the item \<open>y\<close> stands for
  the sequence of the items; \<open>list_add\<close> appends, \<open>list_insert_before\<close> puts the item before the
  iterator's, \<open>list_remove_node\<close> and \<open>list_delete\<close> take the iterator's item out (the latter handing it to
  the cleanup function) and return an iterator at the next one. For every pattern of allocation
  failures no dead or null node is touched, the links in both directions and the cached end
  stay right, no node is leaked, a failed operation changes nothing, and without a failed
  allocation none fails.
\<close>
theorem list_update_correct:
  assumes "lcur l xs i (y # ys)"
  shows "(\<exists>ok l' a'. list_add (Some l) x a = Some (ok, Some l', a') \<and> lrep l' (xs @ y # ys @ (if ok then [x] else [])) \<and>
           (decisions a = [] \<longrightarrow> ok)) \<and>
    (\<exists>ok l' a'. list_insert_before l i x a = Some (ok, l', a') \<and>
       lcur l' (xs @ (if ok then [x] else [])) i (y # ys) \<and> (decisions a = [] \<longrightarrow> ok)) \<and>
    (\<exists>j l'. list_remove_node l i = Some (j, l') \<and> list_delete l i = Some (y, j, l') \<and> lcur l' xs j ys)"
proof (intro conjI)
  have "lrep l (xs @ y # ys)" using lcur_lrep(1) [OF assms] .
  from list_add_to_spec [OF this, of x a]
  show "\<exists>ok l' a'. list_add (Some l) x a = Some (ok, Some l', a') \<and>
      lrep l' (xs @ y # ys @ (if ok then [x] else [])) \<and> (decisions a = [] \<longrightarrow> ok)"
    by (auto simp: list_add_def split: if_splits)
  from list_insert_before_spec [OF assms, of x a]
  show "\<exists>ok l' a'. list_insert_before l i x a = Some (ok, l', a') \<and>
      lcur l' (xs @ (if ok then [x] else [])) i (y # ys) \<and> (decisions a = [] \<longrightarrow> ok)"
    unfolding lpost_def using assms by (auto split: if_splits)
  obtain d axs p bxs where c: "lchain l d (axs @ (p, y) # bxs)" "i = Some p" using assms by (rule lcurE)
  from list_remove_spec [OF assms] obtain j l' where "list_remove_node l i = Some (j, l')" "lcur l' xs j ys" by blast
  then show "\<exists>j l'. list_remove_node l i = Some (j, l') \<and> list_delete l i = Some (y, j, l') \<and> lcur l' xs j ys"
    using c chain_cell [OF c(1)] by (auto simp: list_delete_def item_of_def)
qed

theorem list_update_correct_witness:
  "lcur (ml_of [1, 2, 3]) [1] (Some 2) [2, 3 :: nat] \<and>
   (\<exists>j l'. list_remove_node (ml_of [1, 2, 3]) (Some 2) = Some (j, l') \<and>
      list_delete (ml_of [1, 2, 3]) (Some 2) = Some (2, j, l') \<and> lcur l' [1] j [3 :: nat])"
proof -
  have h: "lcur (ml_of [1, 2, 3]) [1] (Some 2) [2, 3 :: nat]"
    using lcur_ml_of [of "[1 :: nat]" "[2, 3]"] by (simp add: numeral_2_eq_2)
  show ?thesis using h list_update_correct [OF h, of 9 no_oom] by blast
qed

text \<open>
  Evaluation of the loops and allocations at concrete lists.
\<close>

lemma for_nodes_eval:
  "for_nodes c body None s = Some s"
  "for_nodes c body (Some q) s = c q \<bind> (\<lambda>n. body n q s \<bind> (\<lambda>r.
         if fst r then for_nodes c body (n_next n) (snd r) else Some (snd r)))"
  by (subst for_nodes.simps, simp)+

lemma calloc_eval:
  "calloc_node (mk N f) no_oom = (Some (f, mk ((f, \<lparr>n_next = None, n_prev = None, n_data = DNull\<rparr>) # N) (Suc f)), no_oom)"
  by (simp add: calloc_mk try_alloc_def no_oom_def node_size_def PTRDIFF_MAX_def)

lemmas list_eval = ml_of_def list_add_def list_add_to_def list_insert_def list_insert_to_def calloc_eval list_find_def
  list_insert_after_def list_foreach_def list_remove_node_def for_nodes_eval header_def list_first_def item_of_def free_mk_hd

text \<open>The items a traversal visits, in order.\<close>

definition visited :: "'a mlist \<Rightarrow> 'a list option" where
  "visited l = map_option snd (list_foreach l [] (\<lambda>s x. (True, s @ [x])))"

lemma visited_lrep: "lrep_weak l xs \<Longrightarrow> visited l = Some xs"
proof -
  have "run_each (\<lambda>s x. (True, s @ [x])) xs s = (True, s @ xs)" for s
    by (induction xs arbitrary: s) auto
  then show "lrep_weak l xs \<Longrightarrow> ?thesis" by (simp add: visited_def list_foreach_spec)
qed

text \<open>
  The cached end goes stale. \<open>list_insert_after\<close> behind the last node does not move the cached
  end, and \<open>list_insert\<close> into a list that \<open>list_remove_node\<close> has emptied does not set it (the cache
  then points to the header instead of being NULL). In both cases every call reports success
  and a later \<open>list_add\<close> drops the inserted item: the traversal of the first run misses 12, that of
  the second misses 2.
\<close>
theorem list_stale_cache:
  "do { (ok1, l, a) \<leftarrow> list_insert_after (ml_of [10, 11]) (Some 2) (12 :: nat) no_oom;
        xs \<leftarrow> visited l;
        (ok2, lst, a) \<leftarrow> list_add (Some l) 13 a;
        l \<leftarrow> lst; ys \<leftarrow> visited l;
        Some (ok1, xs, ok2, ys) } = Some (True, [10, 11, 12], True, [10, 11, 13]) \<and>
   do { (i, l) \<leftarrow> list_remove_node (ml_of [1]) (Some 1);
        (ok1, lst, a) \<leftarrow> list_insert (Some l) (2 :: nat) no_oom;
        l \<leftarrow> lst; xs \<leftarrow> visited l;
        (ok2, lst, a) \<leftarrow> list_add (Some l) 3 a;
        l \<leftarrow> lst; ys \<leftarrow> visited l;
        Some (ok1, xs, ok2, ys) } = Some (True, [2], True, [3])"
  by (simp add: list_eval visited_def)

text \<open>
  Traversals. On a well-formed list every traversal terminates without a fault: \<open>list_size\<close>,
  \<open>list_count\<close> and \<open>list_get_item\<close> count and index the items (an index out of range violates the
  assert), \<open>list_find\<close> returns the iterator at the first match or the end, \<open>list_foreach\<close> runs the
  callback on the items in order and \<open>list_foreach_reversed\<close> in reverse order, both up to the first
  false, and \<open>list_foreach_sep\<close> calls the separator exactly between two items.
\<close>
theorem list_traverse_correct:
  assumes "lrep l xs"
  shows "list_size l = Some (length xs) \<and>
    list_count l (Some P) = Some (length (filter P xs)) \<and>
    list_get_item l k = (if k < length xs then Some (Some (xs ! k)) else None) \<and>
    (\<exists>i. list_find l key cmp = Some i \<and>
       lcur l (takeWhile (\<lambda>x. cmp x key \<noteq> 0) xs) i (dropWhile (\<lambda>x. cmp x key \<noteq> 0) xs)) \<and>
    list_foreach l s f = Some (run_each f xs s) \<and>
    list_foreach_reversed l s f = Some (run_each f (rev xs) s) \<and>
    list_foreach_sep l s f sep = Some (run_sep f sep xs s)"
  using assms lrep_weak(1) [OF assms]
  by (simp add: list_size_spec list_count_spec list_get_item_spec list_find_spec list_foreach_spec
      list_foreach_reversed_spec list_foreach_sep_spec)

theorem list_traverse_correct_witness:
  "lrep (ml_of [4, 5, 6 :: nat]) [4, 5, 6] \<and> list_size (ml_of [4, 5, 6 :: nat]) = Some 3 \<and>
   list_foreach_reversed (ml_of [4, 5, 6 :: nat]) [] (\<lambda>s x. (x \<noteq> 5, s @ [x])) = Some (False, [6, 5])"
proof -
  have h: "lrep (ml_of [4, 5, 6 :: nat]) [4, 5, 6]" by (rule lrep_ml_of)
  show ?thesis
    using h list_traverse_correct [OF h, of "\<lambda>_. True" 0 "5 :: nat" "\<lambda>x y. int x - int y" "[]" "\<lambda>s x. (x \<noteq> 5, s @ [x])" "\<lambda>s. (True, s)"]
    by (simp add: Let_def)
qed

text \<open>
  Copies, sublists and release. The sublist functions return a new well-formed list of the
  chosen or adapted items in order, or NULL when an allocation failed; \<open>list_copy\<close> returns a list of
  the copies, or NULL with a prefix of the copies destroyed; \<open>list_merge\<close> appends the source to
  the destination (creating it if there is none) and frees the source's nodes, or stops with the
  source intact; \<open>list_free\<close> calls the destructor once on every item in order and, like
  \<open>sublist_free\<close>, frees every node exactly once.
\<close>
theorem list_copy_free_correct:
  assumes "lrep l xs" "orep dest ds"
  shows "(\<exists>r a'. sublist_create l P a = Some (r, a') \<and> (\<forall>m. r = Some m \<longrightarrow> lrep m (filter P xs)) \<and> (decisions a = [] \<longrightarrow> r \<noteq> None)) \<and>
    (\<exists>r a'. sublist_create_neg l P a = Some (r, a') \<and> (\<forall>m. r = Some m \<longrightarrow> lrep m (filter (\<lambda>x. \<not> P x) xs)) \<and>
       (decisions a = [] \<longrightarrow> r \<noteq> None)) \<and>
    (\<exists>r a'. sublist_adaptor l ad a = Some (r, a') \<and> (\<forall>m. r = Some m \<longrightarrow> lrep m (map ad xs)) \<and> (decisions a = [] \<longrightarrow> r \<noteq> None)) \<and>
    (\<exists>r dead a'. list_copy l copier a = Some (r, dead, a') \<and> (case r of
         Some m \<Rightarrow> dead = [] \<and> (\<exists>ys. lrep m ys \<and> list_all2 (copied copier) xs ys)
       | None \<Rightarrow> (\<exists>k. list_all2 (copied copier) (take k xs) dead))) \<and>
    (\<exists>ok dest' src' a' k. list_merge dest l a = Some (ok, dest', src', a') \<and> orep dest' (ds @ take k xs) \<and>
       (if src' = None then k = length xs \<and> (ok \<longleftrightarrow> dest' \<noteq> None) else \<not> ok \<and> src' = Some l \<and> k < length xs)) \<and>
    (\<exists>l'. list_free l = Some (xs, l') \<and> cells l' = Map.empty) \<and>
    (\<exists>l'. sublist_free l = Some l' \<and> cells l' = Map.empty)"
proof -
  note w = lrep_weak(1) [OF assms(1)]
  show ?thesis
    unfolding sublist_create_def sublist_create_neg_def sublist_adaptor_def
    using copy_nodes_spec [OF w, of P "\<lambda>x. x" a] copy_nodes_spec [OF w, of "\<lambda>x. \<not> P x" "\<lambda>x. x" a]
      copy_nodes_spec [OF w, of "\<lambda>_. True" ad a]
    by (intro conjI list_copy_spec [OF w] list_merge_spec [OF assms(2,1)] list_free_spec [OF w] sublist_free_spec [OF w])
       (simp_all add: filter_True)
qed

theorem list_copy_free_correct_witness:
  "lrep (ml_of [1, 2, 3 :: nat]) [1, 2, 3] \<and> orep (Some (ml_of [7])) [7 :: nat] \<and>
   (\<exists>r a'. sublist_create (ml_of [1, 2, 3 :: nat]) (\<lambda>x. x \<noteq> 2) no_oom = Some (r, a') \<and>
      (\<forall>m. r = Some m \<longrightarrow> lrep m (filter (\<lambda>x. x \<noteq> 2) [1, 2, 3])) \<and> (decisions no_oom = [] \<longrightarrow> r \<noteq> None)) \<and>
   (\<exists>l'. list_free (ml_of [1, 2, 3 :: nat]) = Some ([1, 2, 3], l') \<and> cells l' = Map.empty)"
proof -
  have h: "lrep (ml_of [1, 2, 3 :: nat]) [1, 2, 3]" "orep (Some (ml_of [7])) [7 :: nat]"
    using lrep_ml_of by (auto simp: orep_def)
  show ?thesis
    using h list_copy_free_correct [OF h, of "\<lambda>x. x \<noteq> 2" no_oom "\<lambda>x. x" "\<lambda>x a. (Some x, a)"] by blast
qed

text \<open>
  \<open>list_sort\<close> with a comparison function that orders by a key terminates on every well-formed
  list and leaves exactly the stable sort of its items by that key, in the same nodes.
\<close>
theorem list_sort_correct:
  assumes "compares_by key func" "lrep l xs"
  shows "\<exists>l'. list_sort func l = Some l' \<and> lrep l' (sort_key key xs)"
  using list_sort_spec [OF assms] .

theorem list_sort_correct_witness:
  "\<exists>l'. list_sort (\<lambda>x y. int (fst x) - int (fst y)) (ml_of [(2, CHR ''a''), (1, CHR ''b''), (2, CHR ''c''), (1 :: nat, CHR ''d'')]) = Some l' \<and>
     lrep l' [(1, CHR ''b''), (1, CHR ''d''), (2, CHR ''a''), (2, CHR ''c'')]"
proof -
  let ?xs = "[(2, CHR ''a''), (1, CHR ''b''), (2, CHR ''c''), (1 :: nat, CHR ''d'')]"
  have h: "compares_by fst (\<lambda>x y :: nat \<times> char. int (fst x) - int (fst y))" "lrep (ml_of ?xs) ?xs"
    using lrep_ml_of by (auto simp: compares_by_def)
  have "sort_key fst ?xs = [(1, CHR ''b''), (1, CHR ''d''), (2, CHR ''a''), (2, CHR ''c'')]" by simp
  then show ?thesis using list_sort_correct [OF h] by simp
qed

end
