(* ===== verification/MetaStack.thy ===== *)
theory MetaStack
  imports Metalist
begin

section \<open>Stacks\<close>

text \<open>
  The stack of \<open>src/meta/src/meta_stack.c\<close>, a list that is inserted into and removed from at the
  front. It never appends, so the cached end of its list, which \<open>list_insert\<close> may leave stale, is
  never used: the well-formedness that claims nothing of the cache is enough.
\<close>

subsection \<open>Operations\<close>

record 'a stack =
  stk_lst :: "'a mlist"

definition stack_new :: "allocator \<Rightarrow> 'a stack option \<times> allocator" where
  "stack_new a = (case try_alloc 8 a of
     (False, a) \<Rightarrow> (None, a)
   | (True, a) \<Rightarrow> (case list_new a of
       (None, a) \<Rightarrow> (None, a)
     | (Some l, a) \<Rightarrow> (Some \<lparr>stk_lst = l\<rparr>, a)))"

text \<open>\<open>stack_free\<close> frees the nodes, not the items; the result is what is left of the list's region.\<close>

definition stack_free :: "'a stack option \<Rightarrow> 'a mlist option option" where
  "stack_free this = (case this of None \<Rightarrow> Some None | Some s \<Rightarrow> map_option Some (sublist_free (stk_lst s)))"

definition stack_push :: "'a stack \<Rightarrow> 'a \<Rightarrow> allocator \<Rightarrow> (status_t \<times> 'a stack \<times> allocator) option" where
  "stack_push this p a = do {
     (ok, lst, a) \<leftarrow> list_insert (Some (stk_lst this)) p a;
     l \<leftarrow> lst;
     Some (if ok then success else failure, this\<lparr>stk_lst := l\<rparr>, a) }"

definition stack_top :: "'a stack \<Rightarrow> 'a option" where
  "stack_top this = do {
     n \<leftarrow> list_size (stk_lst this);
     if n = 0 then None else do {
       i \<leftarrow> list_first (stk_lst this);
       if list_end i then None else list_get (stk_lst this) i } }"

definition stack_pop :: "'a stack \<Rightarrow> 'a stack option" where
  "stack_pop this = do {
     n \<leftarrow> list_size (stk_lst this);
     if n = 0 then None else do {
       i \<leftarrow> list_first (stk_lst this);
       if list_end i then Some this
       else do { (_, l) \<leftarrow> list_remove_node (stk_lst this) i; Some (this\<lparr>stk_lst := l\<rparr>) } } }"

definition stack_nelem :: "'a stack \<Rightarrow> size_t option" where
  "stack_nelem this = list_size (stk_lst this)"

definition stack_get :: "'a stack \<Rightarrow> size_t \<Rightarrow> 'a option option" where
  "stack_get this i = list_get_item (stk_lst this) i"

subsection \<open>The interface of a stack\<close>

text \<open>
  What a client relies on, over the sequence of the items, top first. A client that pushes a
  sequence of items and pops as many gets the stack back as it was.
\<close>

locale stack_adt =
  fixes rep :: "'s \<Rightarrow> 'a list \<Rightarrow> bool"
    and push :: "'s \<Rightarrow> 'a \<Rightarrow> 'm \<Rightarrow> (status_t \<times> 's \<times> 'm) option"
    and pop :: "'s \<Rightarrow> 's option"
    and top :: "'s \<Rightarrow> 'a option"
  assumes push_law: "rep s xs \<Longrightarrow> \<exists>st s' m'. push s x m = Some (st, s', m') \<and> rep s' (if st then x # xs else xs)"
    and pop_law: "rep s (x # xs) \<Longrightarrow> top s = Some x \<and> (\<exists>s'. pop s = Some s' \<and> rep s' xs)"
    and empty_law: "rep s [] \<Longrightarrow> top s = None \<and> pop s = None"
begin

primrec pop_all :: "nat \<Rightarrow> 's \<Rightarrow> ('a list \<times> 's) option" where
  "pop_all 0 s = Some ([], s)"
| "pop_all (Suc n) s = do { x \<leftarrow> top s; s \<leftarrow> pop s; (xs, s) \<leftarrow> pop_all n s; Some (x # xs, s) }"

lemma pop_all_rep: "rep s (xs @ ys) \<Longrightarrow> \<exists>s'. pop_all (length xs) s = Some (xs, s') \<and> rep s' ys"
proof (induction xs arbitrary: s)
  case (Cons x xs)
  then obtain s1 where s1: "top s = Some x" "pop s = Some s1" "rep s1 (xs @ ys)" using pop_law [of s x "xs @ ys"] by auto
  from Cons.IH [OF s1(3)] obtain s' where "pop_all (length xs) s1 = Some (xs, s')" "rep s' ys" by blast
  with s1 show ?case by simp
qed simp

end

definition stk_rep :: "'a stack \<Rightarrow> 'a list \<Rightarrow> bool" where
  "stk_rep s xs \<longleftrightarrow> lrep_weak (stk_lst s) xs"

lemma stack_push_spec:
  assumes "stk_rep s xs"
  shows "\<exists>st s' a'. stack_push s x a = Some (st, s', a') \<and> stk_rep s' (if st then x # xs else xs) \<and> (decisions a = [] \<longrightarrow> st \<and> a' = a)"
proof -
  have "lrep_weak (stk_lst s) xs" using assms by (simp add: stk_rep_def)
  from list_insert_weak [OF this, of x a] obtain ok l a' where r: "list_insert_to (stk_lst s) x a = Some (ok, l, a')"
      "if ok then lrep_weak l (x # xs) else l = stk_lst s" "decisions a = [] \<longrightarrow> ok \<and> a' = a"
    unfolding lpost_def by blast
  have "stack_push s x a = Some (ok, s\<lparr>stk_lst := l\<rparr>, a')"
    using r(1) by (simp add: stack_push_def list_insert_def)
  moreover have "stk_rep (s\<lparr>stk_lst := l\<rparr>) (if ok then x # xs else xs)"
    using r(2) assms by (cases ok) (simp_all add: stk_rep_def)
  ultimately show ?thesis using r(3) by blast
qed

lemma stack_pop_spec:
  assumes "stk_rep s (x # xs)"
  shows "stack_top s = Some x \<and> (\<exists>s'. stack_pop s = Some s' \<and> stk_rep s' xs)"
proof -
  have l: "lrep_weak (stk_lst s) (x # xs)" using assms by (simp add: stk_rep_def)
  obtain i where i: "list_first (stk_lst s) = Some i" "lcur_weak (stk_lst s) [] i (x # xs)"
    using list_first_spec(2) [OF l] by blast
  have g: "\<not> list_end i" "list_get (stk_lst s) i = Some x" using cursor_weak_laws(2) [OF i(2)] by auto
  obtain j l' where "list_remove_node (stk_lst s) i = Some (j, l')" "lcur_weak l' [] j xs"
    using list_remove_weak [OF i(2)] by blast
  then show ?thesis using i(1) g lcur_lrep(2) [of l' "[]" j xs]
    by (simp add: stack_top_def stack_pop_def list_size_spec [OF l] stk_rep_def)
qed

lemma stack_empty: "stk_rep s [] \<Longrightarrow> stack_top s = None \<and> stack_pop s = None"
  by (simp add: stack_top_def stack_pop_def stk_rep_def list_size_spec)

interpretation stk: stack_adt stk_rep stack_push stack_pop stack_top
proof unfold_locales
  fix s :: "'a stack" and xs x a assume "stk_rep s xs"
  from stack_push_spec [OF this, of x a]
  show "\<exists>st s' m'. stack_push s x a = Some (st, s', m') \<and> stk_rep s' (if st then x # xs else xs)"
    by (elim exE conjE) (intro exI conjI)
qed (auto dest: stack_pop_spec stack_empty)

lemma stack_new_spec:
  "\<exists>r a'. stack_new a = (r, a') \<and> (\<forall>s. r = Some s \<longrightarrow> stk_rep s []) \<and> (decisions a = [] \<longrightarrow> r \<noteq> None)"
proof -
  obtain b a1 where al: "try_alloc 8 a = (b, a1)" by (cases "try_alloc 8 a")
  have d: "decisions a = [] \<longrightarrow> b \<and> a1 = a"
    using al try_alloc_no_oom [of a 8] by (auto simp: PTRDIFF_MAX_def)
  obtain r a2 where n: "(list_new a1 :: 'a mlist option \<times> allocator) = (r, a2)" "\<forall>l. r = Some l \<longrightarrow> lrep l []"
      "decisions a1 = [] \<longrightarrow> r \<noteq> None \<and> a2 = a1" using list_new_spec by blast
  show ?thesis using al d n lrep_weak(1) by (cases b; cases r) (auto simp: stack_new_def stk_rep_def)
qed

text \<open>
  The stack refines a sequence, top first. A new stack is empty; a push puts the item on top,
  or reports failure and leaves the stack as it was, and succeeds unless an allocation fails; top and
  pop give and take the top item and violate the assert exactly on the empty stack; \<open>stack_nelem\<close> and
  \<open>stack_get\<close> count and index from the top; popping as often as there are items returns them all
  in order; \<open>stack_free\<close> frees every node.
\<close>
theorem stack_correct:
  assumes "stk_rep s xs"
  shows "(\<exists>st s' a'. stack_push s x a = Some (st, s', a') \<and> stk_rep s' (if st then x # xs else xs) \<and> (decisions a = [] \<longrightarrow> st \<and> a' = a)) \<and>
    stack_top s = (case xs of [] \<Rightarrow> None | y # _ \<Rightarrow> Some y) \<and>
    (case xs of [] \<Rightarrow> stack_pop s = None | _ # ys \<Rightarrow> \<exists>s'. stack_pop s = Some s' \<and> stk_rep s' ys) \<and>
    stack_nelem s = Some (length xs) \<and>
    stack_get s k = (if k < length xs then Some (Some (xs ! k)) else None) \<and>
    (\<exists>s'. stk.pop_all (length xs) s = Some (xs, s') \<and> stk_rep s' []) \<and>
    (\<exists>l. stack_free (Some s) = Some (Some l) \<and> cells l = Map.empty)"
proof (intro conjI stack_push_spec [OF assms])
  have l: "lrep_weak (stk_lst s) xs" using assms by (simp add: stk_rep_def)
  show "stack_top s = (case xs of [] \<Rightarrow> None | y # _ \<Rightarrow> Some y)"
    using assms by (cases xs) (auto dest: stack_pop_spec stack_empty)
  show "case xs of [] \<Rightarrow> stack_pop s = None | _ # ys \<Rightarrow> \<exists>s'. stack_pop s = Some s' \<and> stk_rep s' ys"
    using assms by (cases xs) (auto dest: stack_pop_spec stack_empty)
  show "stack_nelem s = Some (length xs)" by (simp add: stack_nelem_def list_size_spec [OF l])
  show "stack_get s k = (if k < length xs then Some (Some (xs ! k)) else None)"
    by (simp add: stack_get_def list_get_item_spec [OF l])
  show "\<exists>s'. stk.pop_all (length xs) s = Some (xs, s') \<and> stk_rep s' []"
    using stk.pop_all_rep [of s xs "[]"] assms by simp
  show "\<exists>l. stack_free (Some s) = Some (Some l) \<and> cells l = Map.empty"
    using sublist_free_spec [OF l] by (auto simp: stack_free_def)
qed

theorem stack_correct_witness:
  "stk_rep \<lparr>stk_lst = ml_of [3, 2, 1 :: nat]\<rparr> [3, 2, 1] \<and> stack_top \<lparr>stk_lst = ml_of [3, 2, 1 :: nat]\<rparr> = Some 3 \<and>
   stack_nelem \<lparr>stk_lst = ml_of [3, 2, 1 :: nat]\<rparr> = Some 3"
proof -
  have h: "stk_rep \<lparr>stk_lst = ml_of [3, 2, 1 :: nat]\<rparr> [3, 2, 1]"
    using lrep_weak(1) [OF lrep_ml_of] by (simp add: stk_rep_def)
  show ?thesis using h stack_correct [OF h, of 4 no_oom 0] by simp
qed

end
