(* ===== verification/MetaArray.thy ===== *)
theory MetaArray
  imports HL_Prelude
begin

section \<open>Growable arrays\<close>

text \<open>
  The array of pointers of \<open>src/meta/src/meta_array.c\<close> and \<open>meta_array.h\<close>. A slot that was allocated but
  not written has no value: reading it is a fault. Sizes wrap as \<open>size_t\<close> does.
\<close>

subsection \<open>Operations\<close>

record 'a arr =
  can_grow :: bool
  nused :: size_t
  nallocated :: size_t
  elements :: "'a option list"

definition array_new :: "size_t \<Rightarrow> bool \<Rightarrow> allocator \<Rightarrow> ('a arr option \<times> allocator) option" where
  "array_new nmemb grow a = (if nmemb > 0 then
     (case try_alloc 32 a of
        (False, a) \<Rightarrow> Some (None, a)
      | (True, a) \<Rightarrow> (case try_alloc (8 * nmemb) a of
          (False, a) \<Rightarrow> Some (None, a)
        | (True, a) \<Rightarrow> Some (Some \<lparr>can_grow = grow, nused = 0, nallocated = nmemb, elements = replicate nmemb None\<rparr>, a)))
     else None)"

text \<open>\<open>array_free\<close> with a destructor: its arguments, in the order of the calls.\<close>

fun array_free_loop :: "nat \<Rightarrow> 'a option list \<Rightarrow> 'a list option" where
  "array_free_loop 0 els = Some []"
| "array_free_loop (Suc n) els = do { x \<leftarrow> get_at els n; y \<leftarrow> x; ys \<leftarrow> array_free_loop n els; Some (y # ys) }"

definition array_free :: "'a arr \<Rightarrow> 'a list option" where
  "array_free arr = array_free_loop (nused arr) (elements arr)"

definition array_extend :: "'a arr \<Rightarrow> size_t \<Rightarrow> allocator \<Rightarrow> (status_t \<times> 'a arr \<times> allocator) option" where
  "array_extend arr nmemb a = (if nmemb > 0 then
     (let n = szt (nallocated arr + nmemb); sz = szt (8 * n) in
      case try_alloc sz a of
        (False, a) \<Rightarrow> Some (failure, arr, a)
      | (True, a) \<Rightarrow> Some (success, arr\<lparr>nallocated := n,
           elements := take (sz div 8) (elements arr) @ replicate (sz div 8 - length (elements arr)) None\<rparr>, a))
     else None)"

definition array_nelem :: "'a arr \<Rightarrow> size_t" where
  "array_nelem arr = nused arr"

definition array_get :: "'a arr \<Rightarrow> size_t \<Rightarrow> 'a option" where
  "array_get arr ielem = (if ielem < array_nelem arr then do { x \<leftarrow> get_at (elements arr) ielem; x } else None)"

definition array_add :: "'a arr \<Rightarrow> 'a \<Rightarrow> allocator \<Rightarrow> (status_t \<times> 'a arr \<times> allocator) option" where
  "array_add arr elem a = do {
     (st, arr, a) \<leftarrow> (if nused arr = nallocated arr
        then if \<not> can_grow arr then Some (failure, arr, a) else array_extend arr (nused arr) a
        else Some (success, arr, a));
     if st then do {
       els \<leftarrow> put_at (elements arr) (nused arr) (Some elem);
       Some (success, arr\<lparr>elements := els, nused := szt (nused arr + 1)\<rparr>, a) }
     else Some (failure, arr, a) }"

subsection \<open>Correctness\<close>

definition arr_rep :: "'a arr \<Rightarrow> 'a list \<Rightarrow> bool" where
  "arr_rep arr xs \<longleftrightarrow> nused arr = length xs \<and> length xs \<le> nallocated arr \<and> 0 < nallocated arr \<and>
     length (elements arr) = nallocated arr \<and> 8 * nallocated arr \<le> PTRDIFF_MAX \<and>
     take (length xs) (elements arr) = map Some xs"

lemma arr_rep_len: "arr_rep arr xs \<Longrightarrow> nused arr = length xs"
  by (simp add: arr_rep_def)

lemma arr_rep_put:
  assumes "arr_rep arr xs" "length xs < nallocated arr"
  shows "\<exists>els. put_at (elements arr) (nused arr) (Some x) = Some els \<and>
    arr_rep (arr\<lparr>elements := els, nused := szt (nused arr + 1)\<rparr>) (xs @ [x])"
proof -
  have small: "length xs + 1 < SIZE_MOD" using assms PTRDIFF_SIZE by (simp add: arr_rep_def)
  let ?els = "(elements arr)[length xs := Some x]"
  have "take (Suc (length xs)) ?els = map Some (xs @ [x])"
    using assms by (simp add: arr_rep_def take_Suc_conv_app_nth)
  then show ?thesis using assms small by (auto simp: arr_rep_def put_at_def)
qed

lemma array_extend_spec:
  assumes r: "arr_rep arr xs" and full: "nused arr = nallocated arr"
  shows "\<exists>st arr' a'. array_extend arr (nused arr) a = Some (st, arr', a') \<and> arr_rep arr' xs \<and> can_grow arr' = can_grow arr \<and>
    (if st then length xs < nallocated arr' else arr' = arr) \<and>
    (decisions a = [] \<and> 16 * length xs \<le> PTRDIFF_MAX \<longrightarrow> st)"
proof -
  have len: "nallocated arr = length xs" "0 < length xs" "elements arr = map Some xs" "8 * length xs \<le> PTRDIFF_MAX"
    using r full by (auto simp: arr_rep_def)
  then have n: "szt (nallocated arr + nused arr) = 2 * length xs" "szt (8 * (2 * length xs)) = 16 * length xs"
    using r full PTRDIFF_SIZE by (auto simp: arr_rep_len)
  obtain b a' where al: "try_alloc (16 * length xs) a = (b, a')" by (cases "try_alloc (16 * length xs) a")
  have ok: "decisions a = [] \<and> 16 * length xs \<le> PTRDIFF_MAX \<longrightarrow> b"
    using al try_alloc_no_oom by auto
  show ?thesis
  proof (cases b)
    case True
    have le: "16 * length xs \<le> PTRDIFF_MAX" using try_alloc_le [of "16 * length xs" a a'] al True by simp
    let ?arr = "arr\<lparr>nallocated := 2 * length xs, elements := map Some xs @ replicate (length xs) None\<rparr>"
    have "arr_rep ?arr xs" using r le len by (simp add: arr_rep_def)
    moreover have "array_extend arr (nused arr) a = Some (True, ?arr, a')"
      using al True n len full by (simp add: array_extend_def Let_def)
    ultimately show ?thesis using len(2) by (intro exI [of _ True] exI [of _ ?arr] exI [of _ a']) simp
  next
    case False
    then have "array_extend arr (nused arr) a = Some (False, arr, a')"
      using al n len full by (simp add: array_extend_def Let_def)
    then show ?thesis using r ok False by (intro exI [of _ False] exI [of _ arr] exI [of _ a']) simp
  qed
qed

text \<open>
  The array refines a sequence. \<open>array_add\<close> never writes outside the elements: it appends the
  element, or reports failure and changes nothing; it fails only when the array is full and
  may not grow or cannot get the memory to double. \<open>array_get\<close> returns the element stored at the
  index (an index out of range violates the assert), and \<open>array_free\<close> destroys every element once, last first.
\<close>
theorem array_correct:
  assumes "arr_rep arr xs"
  shows "(\<exists>st arr' a'. array_add arr x a = Some (st, arr', a') \<and> arr_rep arr' (if st then xs @ [x] else xs) \<and>
       (length xs < nallocated arr \<or> can_grow arr \<and> decisions a = [] \<and> 16 * length xs \<le> PTRDIFF_MAX \<longrightarrow> st)) \<and>
    array_nelem arr = length xs \<and>
    array_get arr k = (if k < length xs then Some (xs ! k) else None) \<and>
    array_free arr = Some (rev xs)"
proof (intro conjI)
  have len: "nused arr = length xs" using assms by (rule arr_rep_len)
  show "\<exists>st arr' a'. array_add arr x a = Some (st, arr', a') \<and> arr_rep arr' (if st then xs @ [x] else xs) \<and>
       (length xs < nallocated arr \<or> can_grow arr \<and> decisions a = [] \<and> 16 * length xs \<le> PTRDIFF_MAX \<longrightarrow> st)"
  proof (cases "nused arr = nallocated arr")
    case False
    then have "length xs < nallocated arr" using assms by (auto simp: arr_rep_def)
    from arr_rep_put [OF assms this, of x] show ?thesis using False
      by (auto simp: array_add_def intro!: exI [of _ True])
  next
    case True
    show ?thesis
    proof (cases "can_grow arr")
      case False
      then show ?thesis using True len assms
        by (intro exI [of _ False] exI [of _ arr] exI [of _ a]) (simp add: array_add_def)
    next
      case grow: True
      obtain st arr' a' where e: "array_extend arr (nused arr) a = Some (st, arr', a')" "arr_rep arr' xs"
          "if st then length xs < nallocated arr' else arr' = arr"
          "decisions a = [] \<and> 16 * length xs \<le> PTRDIFF_MAX \<longrightarrow> st"
        using array_extend_spec [OF assms True, of a] by blast
      show ?thesis
      proof (cases st)
        case st: True
        then obtain els where "put_at (elements arr') (nused arr') (Some x) = Some els"
            "arr_rep (arr'\<lparr>elements := els, nused := szt (nused arr' + 1)\<rparr>) (xs @ [x])"
          using arr_rep_put [OF e(2), of x] e(3) by auto
        then show ?thesis using e(1) st True grow
          by (intro exI [of _ True] exI [of _ "arr'\<lparr>elements := els, nused := szt (nused arr' + 1)\<rparr>"] exI [of _ a'])
             (simp add: array_add_def)
      next
        case st: False
        then show ?thesis using e len True grow
          by (intro exI [of _ False] exI [of _ arr'] exI [of _ a']) (auto simp: array_add_def)
      qed
    qed
  qed
  show "array_nelem arr = length xs" by (simp add: array_nelem_def len)
  have nth: "k < length xs \<Longrightarrow> elements arr ! k = Some (xs ! k) \<and> k < length (elements arr)" for k
    using assms by (metis arr_rep_def nth_map nth_take order_less_le_trans)
  then show "array_get arr k = (if k < length xs then Some (xs ! k) else None)"
    by (simp add: array_get_def array_nelem_def len get_at_def)
  have "n \<le> length xs \<Longrightarrow> array_free_loop n (elements arr) = Some (rev (take n xs))" for n
    by (induction n) (use nth in \<open>auto simp: get_at_def take_Suc_conv_app_nth\<close>)
  then show "array_free arr = Some (rev xs)" by (simp add: array_free_def len)
qed

theorem array_correct_witness:
  "arr_rep \<lparr>can_grow = False, nused = 2, nallocated = 2, elements = [Some 5, Some (6 :: nat)]\<rparr> [5, 6] \<and>
   array_get \<lparr>can_grow = False, nused = 2, nallocated = 2, elements = [Some 5, Some (6 :: nat)]\<rparr> 1 = Some 6"
proof -
  have h: "arr_rep \<lparr>can_grow = False, nused = 2, nallocated = 2, elements = [Some 5, Some (6 :: nat)]\<rparr> [5, 6]"
    by (simp add: arr_rep_def PTRDIFF_MAX_def)
  show ?thesis using h array_correct [OF h, of 7 no_oom 1] by simp
qed

end
