(* ===== verification/Membuf.thy ===== *)
theory Membuf
  imports HL_Prelude
begin

section \<open>Memory buffers\<close>

text \<open>
  The fixed-size byte buffer of \<open>src/meta/src/meta_membuf.c\<close>: bytes are appended at \<open>nwritten\<close> and
  read from \<open>nread\<close>; a read that empties the buffer rewinds both.
\<close>

subsection \<open>Operations\<close>

record membuf =
  mb_size :: size_t
  nwritten :: size_t
  nread :: size_t
  mb_data :: "char list"

definition membuf_new :: "size_t \<Rightarrow> allocator \<Rightarrow> (membuf option \<times> allocator) option" where
  "membuf_new sz a = (if sz > 0 then
     (case try_alloc 32 a of
        (False, a) \<Rightarrow> Some (None, a)
      | (True, a) \<Rightarrow> (case try_alloc sz a of
          (False, a) \<Rightarrow> Some (None, a)
        | (True, a) \<Rightarrow> Some (Some \<lparr>mb_size = sz, nwritten = 0, nread = 0, mb_data = fresh_bytes sz a\<rparr>, a)))
     else None)"

definition membuf_canread :: "membuf \<Rightarrow> size_t option" where
  "membuf_canread mb = (if nread mb \<le> nwritten mb \<and> nwritten mb - nread mb \<le> mb_size mb
     then Some (nwritten mb - nread mb) else None)"

definition membuf_set_written :: "membuf \<Rightarrow> size_t \<Rightarrow> membuf option" where
  "membuf_set_written mb cb = (if nwritten mb = 0 then Some (mb\<lparr>nwritten := cb\<rparr>) else None)"

definition membuf_canwrite :: "membuf \<Rightarrow> size_t" where
  "membuf_canwrite mb = (if nread mb = nwritten mb then mb_size mb else szsub (mb_size mb) (nwritten mb))"

definition membuf_reset :: "membuf \<Rightarrow> membuf" where
  "membuf_reset mb = mb\<lparr>nread := 0, nwritten := 0\<rparr>"

definition membuf_unget :: "membuf \<Rightarrow> status_t \<times> membuf" where
  "membuf_unget mb = (if nread mb > 0 then (success, mb\<lparr>nread := nread mb - 1\<rparr>) else (failure, mb))"

definition membuf_data :: "membuf \<Rightarrow> char list" where
  "membuf_data mb = mb_data mb"

definition membuf_set :: "membuf \<Rightarrow> char \<Rightarrow> membuf option" where
  "membuf_set mb c = do { d \<leftarrow> wr (mb_data mb) 0 (replicate (mb_size mb) c); Some (mb\<lparr>mb_data := d\<rparr>) }"

definition membuf_size :: "membuf \<Rightarrow> size_t" where
  "membuf_size mb = mb_size mb"

text \<open>The bytes read are the second result; their number is what the function returns.\<close>

definition membuf_read :: "membuf \<Rightarrow> size_t \<Rightarrow> (size_t \<times> char list \<times> membuf) option" where
  "membuf_read mb count = (if count \<noteq> 0 \<and> nread mb \<le> nwritten mb then do {
     navail \<leftarrow> membuf_canread mb;
     let count = (if navail < count then navail else count);
     bs \<leftarrow> rd (mb_data mb) (nread mb) count;
     let mb = mb\<lparr>nread := szt (nread mb + count)\<rparr>;
     if nread mb \<le> nwritten mb
     then Some (count, bs, if nwritten mb = nread mb then mb\<lparr>nwritten := 0, nread := 0\<rparr> else mb)
     else None }
   else None)"

text \<open>The source is the bytes \<open>src\<close> points to, at least \<open>count\<close> of them.\<close>

definition membuf_write :: "membuf \<Rightarrow> char list \<Rightarrow> size_t \<Rightarrow> (size_t \<times> membuf) option" where
  "membuf_write mb src count = (
     let navail = membuf_canwrite mb;
         count = (if count > navail then navail else count) in
     do { bs \<leftarrow> rd src 0 count;
          d \<leftarrow> wr (mb_data mb) (nwritten mb) bs;
          Some (count, mb\<lparr>mb_data := d, nwritten := szt (nwritten mb + count)\<rparr>) })"

subsection \<open>Invariant and content\<close>

text \<open>
  A buffer is never left with everything read but not rewound. \<open>membuf_canwrite\<close> and \<open>membuf_write\<close>
  rely on it: they offer the whole size when \<open>nread = nwritten\<close>, but write at \<open>nwritten\<close>.
\<close>

definition mb_inv :: "membuf \<Rightarrow> bool" where
  "mb_inv mb \<longleftrightarrow> length (mb_data mb) = mb_size mb \<and> mb_size mb \<le> PTRDIFF_MAX \<and> nwritten mb \<le> mb_size mb \<and>
     (nread mb < nwritten mb \<or> nread mb = 0 \<and> nwritten mb = 0)"

definition content :: "membuf \<Rightarrow> char list" where
  "content mb = take (nwritten mb - nread mb) (drop (nread mb) (mb_data mb))"

definition room :: "membuf \<Rightarrow> nat" where
  "room mb = mb_size mb - nwritten mb"

lemma membuf_write_spec:
  assumes "mb_inv mb" "length src = count"
  shows "\<exists>mb'. membuf_write mb src count = Some (min count (room mb), mb') \<and> mb_inv mb' \<and>
    content mb' = content mb @ take (min count (room mb)) src \<and> mb_size mb' = mb_size mb \<and> nread mb' = nread mb \<and>
    nwritten mb' = nwritten mb + min count (room mb)"
proof -
  let ?n = "min count (room mb)"
  have sz: "mb_size mb < SIZE_MOD" using assms(1) PTRDIFF_SIZE by (simp add: mb_inv_def)
  have cw: "membuf_canwrite mb = room mb"
    using assms(1) sz by (auto simp: membuf_canwrite_def room_def mb_inv_def szsub_le)
  have c: "(if room mb < count then room mb else count) = ?n" by auto
  let ?d = "take (nwritten mb) (mb_data mb) @ take ?n src @ drop (nwritten mb + ?n) (mb_data mb)"
  have w: "wr (mb_data mb) (nwritten mb) (take ?n src) = Some ?d"
    using assms by (auto simp: wr_def mb_inv_def room_def)
  have szt: "szt (nwritten mb + ?n) = nwritten mb + ?n" using assms(1) sz by (intro szt_id) (auto simp: mb_inv_def room_def)
  let ?mb = "mb\<lparr>mb_data := ?d, nwritten := nwritten mb + ?n\<rparr>"
  have r: "nread mb \<le> nwritten mb" "nwritten mb \<le> length (mb_data mb)" using assms(1) by (auto simp: mb_inv_def)
  have "content ?mb = content mb @ take ?n src"
  proof -
    have "drop (nread mb) ?d = drop (nread mb) (take (nwritten mb) (mb_data mb)) @ take ?n src @ drop (nwritten mb + ?n) (mb_data mb)"
      using r by simp
    moreover have "drop (nread mb) (take (nwritten mb) (mb_data mb)) = content mb"
      by (simp add: content_def drop_take)
    moreover have "length (content mb) = nwritten mb - nread mb" using r by (simp add: content_def)
    moreover have "length (take ?n src) = ?n" using assms(2) by simp
    ultimately show ?thesis using r by (simp add: content_def)
  qed
  moreover have "mb_inv ?mb" using assms by (auto simp: mb_inv_def room_def min_def)
  moreover have "membuf_write mb src count = Some (?n, ?mb)"
    using assms(2) by (simp add: membuf_write_def cw c w szt rd_def Let_def)
  ultimately show ?thesis by simp
qed

lemma membuf_read_spec:
  assumes "mb_inv mb" "0 < count"
  shows "\<exists>mb'. membuf_read mb count = Some (min count (length (content mb)), take count (content mb), mb') \<and> mb_inv mb' \<and>
    content mb' = drop count (content mb) \<and> mb_size mb' = mb_size mb \<and>
    (count < length (content mb) \<longrightarrow> nread mb' = nread mb + count \<and> nwritten mb' = nwritten mb \<and> mb_data mb' = mb_data mb)"
proof -
  let ?av = "nwritten mb - nread mb"
  have sz: "nwritten mb < SIZE_MOD" using assms(1) PTRDIFF_SIZE by (simp add: mb_inv_def)
  have r: "nread mb \<le> nwritten mb" "nwritten mb \<le> length (mb_data mb)" using assms(1) by (auto simp: mb_inv_def)
  have len: "length (content mb) = ?av" using r by (simp add: content_def)
  have cr: "membuf_canread mb = Some ?av" using assms(1) r by (auto simp: membuf_canread_def mb_inv_def)
  let ?n = "min count ?av"
  have c: "(if ?av < count then ?av else count) = ?n" by auto
  have rdb: "rd (mb_data mb) (nread mb) ?n = Some (take count (content mb))"
    using r by (auto simp: rd_def content_def min.commute)
  have szt: "szt (nread mb + ?n) = nread mb + ?n" using r sz by (intro szt_id) auto
  let ?mb = "if count < ?av then mb\<lparr>nread := nread mb + count\<rparr> else mb\<lparr>nwritten := 0, nread := 0\<rparr>"
  have "membuf_read mb count = Some (?n, take count (content mb), ?mb)"
    unfolding membuf_read_def cr bind.bind_lunit Let_def c rdb membuf.simps szt using assms(2) r by (auto simp: min_def)
  moreover have "mb_inv ?mb" using assms(1) by (auto simp: mb_inv_def)
  moreover have "content ?mb = drop count (content mb)"
    using r by (auto simp: content_def drop_take add.commute)
  ultimately show ?thesis using len by (intro exI [of _ ?mb]) simp
qed

subsection \<open>Sequences of reads and writes\<close>

datatype mb_op = MWrite "char list" | MRead nat

text \<open>Running a sequence of operations: the bytes accepted by the writes and those returned by the reads.\<close>

fun mb_run :: "mb_op list \<Rightarrow> membuf \<Rightarrow> (char list \<times> char list \<times> membuf) option" where
  "mb_run [] mb = Some ([], [], mb)"
| "mb_run (MWrite bs # ops) mb = do {
     (n, mb) \<leftarrow> membuf_write mb bs (length bs);
     (inp, out, mb) \<leftarrow> mb_run ops mb;
     Some (take n bs @ inp, out, mb) }"
| "mb_run (MRead n # ops) mb = do {
     (k, bs, mb) \<leftarrow> membuf_read mb n;
     (inp, out, mb) \<leftarrow> mb_run ops mb;
     Some (inp, bs @ out, mb) }"

definition read_ok :: "mb_op \<Rightarrow> bool" where
  "read_ok p \<longleftrightarrow> p \<noteq> MRead 0"

text \<open>
  C35. The buffer is a first-in first-out byte queue. On a well-formed buffer every sequence of writes
  and reads (of at least one byte, as the assert asks) runs without a fault, keeps the
  invariant, and what the reads returned followed by what is still in the buffer is
  exactly what was in the buffer followed by what the writes accepted: no byte is lost, repeated or reordered.
\<close>
theorem membuf_fifo:
  assumes "mb_inv mb" "list_all read_ok ops"
  shows "\<exists>inp out mb'. mb_run ops mb = Some (inp, out, mb') \<and> mb_inv mb' \<and> out @ content mb' = content mb @ inp"
  using assms
proof (induction ops arbitrary: mb)
  case (Cons p ops)
  show ?case
  proof (cases p)
    case (MWrite bs)
    let ?n = "min (length bs) (room mb)"
    obtain mb1 where w: "membuf_write mb bs (length bs) = Some (?n, mb1)" "mb_inv mb1" "content mb1 = content mb @ take ?n bs"
      using membuf_write_spec [OF Cons.prems(1), of bs "length bs"] by auto
    obtain inp out mb' where "mb_run ops mb1 = Some (inp, out, mb')" "mb_inv mb'" "out @ content mb' = content mb1 @ inp"
      using Cons.IH [OF w(2)] Cons.prems by auto
    then show ?thesis using w MWrite by simp
  next
    case (MRead n)
    then have n: "0 < n" using Cons.prems by (cases n) (simp_all add: read_ok_def)
    obtain mb1 where r: "membuf_read mb n = Some (min n (length (content mb)), take n (content mb), mb1)" "mb_inv mb1"
        "content mb1 = drop n (content mb)" using membuf_read_spec [OF Cons.prems(1) n] by blast
    obtain inp out mb' where m: "mb_run ops mb1 = Some (inp, out, mb')" "mb_inv mb'" "out @ content mb' = content mb1 @ inp"
      using Cons.IH [OF r(2)] Cons.prems by auto
    then have "(take n (content mb) @ out) @ content mb' = content mb @ inp"
      using r(3) by (metis append.assoc append_take_drop_id)
    then show ?thesis using r m MRead by simp
  qed
qed simp

theorem membuf_fifo_witness:
  "mb_inv \<lparr>mb_size = 4, nwritten = 0, nread = 0, mb_data = ''????''\<rparr> \<and>
   (\<exists>inp out mb'. mb_run [MWrite ''abcdef'', MRead 3, MWrite ''xyz'', MRead 9] \<lparr>mb_size = 4, nwritten = 0, nread = 0, mb_data = ''????''\<rparr> =
      Some (inp, out, mb') \<and> mb_inv mb' \<and> out @ content mb' = ''abcd'')"
proof -
  let ?mb = "\<lparr>mb_size = 4, nwritten = 0, nread = 0, mb_data = ''????''\<rparr>"
  let ?ops = "[MWrite ''abcdef'', MRead 3, MWrite ''xyz'', MRead 9]"
  have h: "mb_inv ?mb" "list_all read_ok ?ops"
    by (simp_all add: mb_inv_def read_ok_def PTRDIFF_MAX_def)
  have "\<exists>out mb'. mb_run ?ops ?mb = Some (''abcd'', out, mb')"
    by (simp add: membuf_write_def membuf_read_def membuf_canwrite_def membuf_canread_def rd_def wr_def szt_def szsub_def SIZE_MOD_def Let_def)
  then show ?thesis using h(1) membuf_fifo [OF h] by (auto simp: content_def)
qed

text \<open>
  Ungetting and the declared amount. After a read that leaves bytes in the buffer, \<open>membuf_unget\<close> puts
  the last byte read back in front; after one that empties it (the buffer was rewound) and on a
  buffer nothing was read from, it fails. \<open>membuf_set_written\<close> on an empty buffer makes
  the first \<open>cb\<close> bytes of the data readable and keeps the invariant exactly when \<open>cb\<close> is at most the size,
  which the function does not check.
\<close>
theorem membuf_unget_set_written:
  assumes "mb_inv mb" "0 < count"
  shows "(\<exists>n bs mb'. membuf_read mb count = Some (n, bs, mb') \<and>
      (if count < length (content mb)
       then \<exists>mb''. membuf_unget mb' = (success, mb'') \<and> mb_inv mb'' \<and> content mb'' = last bs # content mb'
       else membuf_unget mb' = (failure, mb'))) \<and>
    (content mb = [] \<longrightarrow> (\<exists>mb'. membuf_set_written mb cb = Some mb' \<and> (mb_inv mb' \<longleftrightarrow> cb \<le> mb_size mb) \<and>
       (cb \<le> mb_size mb \<longrightarrow> content mb' = take cb (membuf_data mb))))"
proof (intro conjI impI)
  have r: "nread mb \<le> nwritten mb" "nwritten mb \<le> length (mb_data mb)" using assms(1) by (auto simp: mb_inv_def)
  have len: "length (content mb) = nwritten mb - nread mb" using r by (simp add: content_def)
  obtain mb' where m: "membuf_read mb count = Some (min count (length (content mb)), take count (content mb), mb')" "mb_inv mb'"
      "content mb' = drop count (content mb)" "count < length (content mb) \<longrightarrow>
        nread mb' = nread mb + count \<and> nwritten mb' = nwritten mb \<and> mb_data mb' = mb_data mb"
    using membuf_read_spec [OF assms] by blast
  show "\<exists>n bs mb'. membuf_read mb count = Some (n, bs, mb') \<and>
      (if count < length (content mb)
       then \<exists>mb''. membuf_unget mb' = (success, mb'') \<and> mb_inv mb'' \<and> content mb'' = last bs # content mb'
       else membuf_unget mb' = (failure, mb'))"
  proof (cases "count < length (content mb)")
    case True
    let ?mb = "mb'\<lparr>nread := nread mb' - 1\<rparr>"
    have n: "nread mb' = nread mb + count" "nwritten mb' = nwritten mb" "mb_data mb' = mb_data mb" using m(4) True by auto
    have l: "last (take count (content mb)) = mb_data mb ! (nread mb + count - 1)"
      using True assms(2) len r by (subst last_conv_nth) (auto simp: content_def)
    have "drop (nread mb + count - 1) (mb_data mb) = mb_data mb ! (nread mb + count - 1) # drop (nread mb + count) (mb_data mb)"
      using Cons_nth_drop_Suc [of "nread mb + count - 1" "mb_data mb"] True assms(2) len r by simp
    moreover have "nwritten mb - (nread mb + count - 1) = Suc (nwritten mb - (nread mb + count))" using True assms(2) len by simp
    ultimately have "content ?mb = last (take count (content mb)) # content mb'"
      using l n by (simp add: content_def)
    moreover have "mb_inv ?mb" using m(2) n True len by (auto simp: mb_inv_def)
    ultimately show ?thesis using m(1) True n assms(2) by (simp add: membuf_unget_def)
  next
    case False
    then have "content mb' = []" using m(3) by simp
    then have "nread mb' = 0" using m(2) by (auto simp: content_def mb_inv_def)
    then show ?thesis using m(1) False by (simp add: membuf_unget_def)
  qed
  assume "content mb = []"
  then have z: "nwritten mb = 0" "nread mb = 0" using len assms(1) by (auto simp: mb_inv_def)
  then show "\<exists>mb'. membuf_set_written mb cb = Some mb' \<and> (mb_inv mb' \<longleftrightarrow> cb \<le> mb_size mb) \<and>
       (cb \<le> mb_size mb \<longrightarrow> content mb' = take cb (membuf_data mb))"
    using assms(1) by (auto simp: membuf_set_written_def mb_inv_def content_def membuf_data_def)
qed

theorem membuf_unget_set_written_witness:
  "mb_inv \<lparr>mb_size = 4, nwritten = 3, nread = 0, mb_data = ''abc?''\<rparr> \<and>
   (\<exists>n bs mb'. membuf_read \<lparr>mb_size = 4, nwritten = 3, nread = 0, mb_data = ''abc?''\<rparr> 2 = Some (n, bs, mb') \<and>
     (\<exists>mb''. membuf_unget mb' = (success, mb'') \<and> mb_inv mb'' \<and> content mb'' = last bs # content mb'))"
proof -
  let ?mb = "\<lparr>mb_size = 4, nwritten = 3, nread = 0, mb_data = ''abc?''\<rparr>"
  have h: "mb_inv ?mb" "0 < (2 :: nat)" by (simp_all add: mb_inv_def PTRDIFF_MAX_def)
  have "2 < length (content ?mb)" by (simp add: content_def)
  then show ?thesis using h(1) membuf_unget_set_written [OF h, of 0] by auto
qed

end
