(* ===== verification/Bitset.thy ===== *)
theory Bitset
  imports HL_Prelude
begin

unbundle bit_operations_syntax

section \<open>Bit sets\<close>

text \<open>
  The bit set of \<open>src/meta/src/meta_bitset.c\<close> and \<open>meta_bitset.h\<close>: \<open>bitcount\<close> bits in an array of \<open>size\<close>
  unsigned chars, bit \<open>i\<close> in bit \<open>i mod 8\<close> of byte \<open>i div 8\<close>. Bytes are \<open>8 word\<close>.
\<close>

subsection \<open>Operations\<close>

type_synonym byte = "8 word"

record bitset =
  bs_bitcount :: size_t
  bs_size :: size_t
  bs_data :: "byte list"

definition bitset_clear_all :: "bitset \<Rightarrow> bitset option" where
  "bitset_clear_all b = do { d \<leftarrow> wr (bs_data b) 0 (replicate (bs_size b) 0); Some (b\<lparr>bs_data := d\<rparr>) }"

definition bitset_set_all :: "bitset \<Rightarrow> bitset option" where
  "bitset_set_all b = do { d \<leftarrow> wr (bs_data b) 0 (replicate (bs_size b) 0xff); Some (b\<lparr>bs_data := d\<rparr>) }"

definition bitset_new :: "size_t \<Rightarrow> allocator \<Rightarrow> (bitset option \<times> allocator) option" where
  "bitset_new bitcount a = (
     let sz = bitcount div 8 + (if bitcount mod 8 \<noteq> 0 then 1 else 0) in
     case try_alloc 24 a of
       (False, a) \<Rightarrow> Some (None, a)
     | (True, a) \<Rightarrow> (case try_alloc sz a of
         (False, a) \<Rightarrow> Some (None, a)
       | (True, a) \<Rightarrow> do {
           b \<leftarrow> bitset_clear_all \<lparr>bs_bitcount = bitcount, bs_size = sz, bs_data = map (\<lambda>i. word_of_nat (code (junk a i))) [0..<sz]\<rparr>;
           Some (Some b, a) }))"

text \<open>Mapping foreign memory: \<open>calloc\<close> leaves \<open>bitcount\<close> zero.\<close>

definition bitset_map :: "byte list \<Rightarrow> size_t \<Rightarrow> allocator \<Rightarrow> bitset option \<times> allocator" where
  "bitset_map data elemcount a = (case try_alloc 24 a of
     (False, a) \<Rightarrow> (None, a)
   | (True, a) \<Rightarrow> (Some \<lparr>bs_bitcount = 0, bs_size = elemcount, bs_data = data\<rparr>, a))"

definition bitset_remap :: "bitset \<Rightarrow> byte list \<Rightarrow> size_t \<Rightarrow> bitset option" where
  "bitset_remap b mem cb = (if cb > 0 then Some (b\<lparr>bs_data := mem, bs_size := cb\<rparr>) else None)"

definition bitset_set :: "bitset \<Rightarrow> size_t \<Rightarrow> bitset option" where
  "bitset_set b i = (if i < szt (bs_size b * 8) then do {
     x \<leftarrow> get_at (bs_data b) (i div 8);
     d \<leftarrow> put_at (bs_data b) (i div 8) (x OR push_bit (i mod 8) 1);
     Some (b\<lparr>bs_data := d\<rparr>) } else None)"

definition bitset_clear :: "bitset \<Rightarrow> size_t \<Rightarrow> bitset option" where
  "bitset_clear b i = (if i < szt (bs_size b * 8) then do {
     x \<leftarrow> get_at (bs_data b) (i div 8);
     d \<leftarrow> put_at (bs_data b) (i div 8) (x AND NOT (push_bit (i mod 8) 1));
     Some (b\<lparr>bs_data := d\<rparr>) } else None)"

definition bitset_is_set :: "bitset \<Rightarrow> size_t \<Rightarrow> bool option" where
  "bitset_is_set b i = (if i < szt (bs_size b * 8) then do {
     x \<leftarrow> get_at (bs_data b) (i div 8);
     Some (x AND push_bit (i mod 8) 1 \<noteq> 0) } else None)"

text \<open>The loops over the bytes: of \<open>lhs op= rhs\<close>, of a new result, and the two scans.\<close>

function op_eq_loop :: "(byte \<Rightarrow> byte \<Rightarrow> byte) \<Rightarrow> nat \<Rightarrow> nat \<Rightarrow> byte list \<Rightarrow> byte list \<Rightarrow> byte list option" where
  "op_eq_loop f n i l r = (if i < n then do {
     x \<leftarrow> get_at l i; y \<leftarrow> get_at r i; l \<leftarrow> put_at l i (f x y); op_eq_loop f n (Suc i) l r } else Some l)"
  by pat_completeness auto
termination by (relation "measure (\<lambda>(f, n, i, l, r). n - i)") auto

declare op_eq_loop.simps [simp del]

function op_loop :: "(byte \<Rightarrow> byte \<Rightarrow> byte) \<Rightarrow> nat \<Rightarrow> nat \<Rightarrow> byte list \<Rightarrow> byte list \<Rightarrow> byte list \<Rightarrow> byte list option" where
  "op_loop f n i sa sb sc = (if i < n then do {
     x \<leftarrow> get_at sb i; y \<leftarrow> get_at sc i; sa \<leftarrow> put_at sa i (f x y); op_loop f n (Suc i) sa sb sc } else Some sa)"
  by pat_completeness auto
termination by (relation "measure (\<lambda>(f, n, i, sa, sb, sc). n - i)") auto

declare op_loop.simps [simp del]

function all_loop :: "byte \<Rightarrow> nat \<Rightarrow> nat \<Rightarrow> byte list \<Rightarrow> bool option" where
  "all_loop v n i d = (if i < n then do { x \<leftarrow> get_at d i; if x \<noteq> v then Some False else all_loop v n (Suc i) d } else Some True)"
  by pat_completeness auto
termination by (relation "measure (\<lambda>(v, n, i, d). n - i)") auto

declare all_loop.simps [simp del]

function cmp_loop :: "nat \<Rightarrow> nat \<Rightarrow> byte list \<Rightarrow> byte list \<Rightarrow> int option" where
  "cmp_loop n i d e = (if i < n then do {
     x \<leftarrow> get_at d i; y \<leftarrow> get_at e i;
     if uint x - uint y \<noteq> 0 then Some (uint x - uint y) else cmp_loop n (Suc i) d e } else Some 0)"
  by pat_completeness auto
termination by (relation "measure (\<lambda>(n, i, d, e). n - i)") auto

declare cmp_loop.simps [simp del]

definition bitset_op_eq :: "(byte \<Rightarrow> byte \<Rightarrow> byte) \<Rightarrow> bitset \<Rightarrow> bitset \<Rightarrow> bitset option" where
  "bitset_op_eq f lhs rhs = (if bs_size lhs = bs_size rhs
     then do { d \<leftarrow> op_eq_loop f (bs_size lhs) 0 (bs_data lhs) (bs_data rhs); Some (lhs\<lparr>bs_data := d\<rparr>) } else None)"

definition bitset_and_eq :: "bitset \<Rightarrow> bitset \<Rightarrow> bitset option" where
  "bitset_and_eq lhs rhs = bitset_op_eq (\<lambda>x y. x AND y) lhs rhs"

definition bitset_or_eq :: "bitset \<Rightarrow> bitset \<Rightarrow> bitset option" where
  "bitset_or_eq lhs rhs = bitset_op_eq (\<lambda>x y. x OR y) lhs rhs"

definition bitset_xor_eq :: "bitset \<Rightarrow> bitset \<Rightarrow> bitset option" where
  "bitset_xor_eq lhs rhs = bitset_op_eq (\<lambda>x y. x XOR y) lhs rhs"

definition bitset_cmp :: "bitset \<Rightarrow> bitset \<Rightarrow> int option" where
  "bitset_cmp a b = (if bs_size a = bs_size b then cmp_loop (bs_size a) 0 (bs_data a) (bs_data b) else None)"

definition bitset_allzero :: "bitset \<Rightarrow> bool option" where
  "bitset_allzero b = all_loop 0 (bs_size b) 0 (bs_data b)"

definition bitset_allone :: "bitset \<Rightarrow> bool option" where
  "bitset_allone b = all_loop 0xff (bs_size b) 0 (bs_data b)"

definition bitset_dup :: "bitset \<Rightarrow> allocator \<Rightarrow> (bitset option \<times> allocator) option" where
  "bitset_dup b a = do {
     (r, a) \<leftarrow> bitset_new (bs_bitcount b) a;
     (case r of None \<Rightarrow> Some (None, a)
      | Some new \<Rightarrow> do {
          bs \<leftarrow> rd (bs_data b) 0 (bs_size new);
          d \<leftarrow> wr (bs_data new) 0 bs;
          Some (Some (new\<lparr>bs_data := d\<rparr>), a) }) }"

text \<open>\<open>bitset_and\<close>, \<open>bitset_or\<close> and \<open>bitset_xor\<close>: the new set is sized by the bit count of the first operand.\<close>

definition bitset_op :: "(byte \<Rightarrow> byte \<Rightarrow> byte) \<Rightarrow> bitset \<Rightarrow> bitset \<Rightarrow> allocator \<Rightarrow> (bitset option \<times> allocator) option" where
  "bitset_op f b c a = (if bs_size b = bs_size c then do {
     (r, a) \<leftarrow> bitset_new (bs_bitcount b) a;
     (case r of None \<Rightarrow> Some (None, a)
      | Some new \<Rightarrow> do {
          d \<leftarrow> op_loop f (bs_size b) 0 (bs_data new) (bs_data b) (bs_data c);
          Some (Some (new\<lparr>bs_data := d\<rparr>), a) }) }
   else None)"

definition bitset_and :: "bitset \<Rightarrow> bitset \<Rightarrow> allocator \<Rightarrow> (bitset option \<times> allocator) option" where
  "bitset_and b c a = bitset_op (\<lambda>x y. x AND y) b c a"

definition bitset_or :: "bitset \<Rightarrow> bitset \<Rightarrow> allocator \<Rightarrow> (bitset option \<times> allocator) option" where
  "bitset_or b c a = bitset_op (\<lambda>x y. x OR y) b c a"

definition bitset_xor :: "bitset \<Rightarrow> bitset \<Rightarrow> allocator \<Rightarrow> (bitset option \<times> allocator) option" where
  "bitset_xor b c a = bitset_op (\<lambda>x y. x XOR y) b c a"

subsection \<open>The loops\<close>

definition bytes_for :: "nat \<Rightarrow> nat" where
  "bytes_for bitcount = bitcount div 8 + (if bitcount mod 8 \<noteq> 0 then 1 else 0)"

text \<open>A usable set, and one that was made for its bit count (not mapped over foreign memory).\<close>

definition bs_ok :: "bitset \<Rightarrow> bool" where
  "bs_ok b \<longleftrightarrow> length (bs_data b) = bs_size b \<and> bs_size b * 8 < SIZE_MOD"

definition bs_made :: "bitset \<Rightarrow> bool" where
  "bs_made b \<longleftrightarrow> bs_ok b \<and> bs_size b = bytes_for (bs_bitcount b)"

definition bs_bit :: "bitset \<Rightarrow> nat \<Rightarrow> bool" where
  "bs_bit b i \<longleftrightarrow> bit (bs_data b ! (i div 8)) (i mod 8)"

lemma op_eq_loop_spec:
  "i \<le> n \<Longrightarrow> n = length l \<Longrightarrow> n = length r \<Longrightarrow> op_eq_loop f n i l r = Some (take i l @ map2 f (drop i l) (drop i r))"
proof (induction f n i l r rule: op_eq_loop.induct)
  case (1 f n i l r)
  show ?case
  proof (cases "i < n")
    case True
    then have "op_eq_loop f n i l r = op_eq_loop f n (Suc i) (l[i := f (l ! i) (r ! i)]) r"
      using "1.prems" by (subst op_eq_loop.simps) (simp add: buf_simps)
    also have "\<dots> = Some (take (Suc i) (l[i := f (l ! i) (r ! i)]) @ map2 f (drop (Suc i) (l[i := f (l ! i) (r ! i)])) (drop (Suc i) r))"
      by (rule "1.IH" [OF True, of "l ! i" "r ! i"]) (use True "1.prems" in \<open>simp_all add: buf_simps\<close>)
    finally have "op_eq_loop f n i l r = \<dots>" .
    moreover have "drop i l = l ! i # drop (Suc i) l" "drop i r = r ! i # drop (Suc i) r"
      using True "1.prems" by (simp_all add: Cons_nth_drop_Suc)
    ultimately show ?thesis using True "1.prems" by (simp add: take_Suc_conv_app_nth)
  next
    case False
    with "1.prems" show ?thesis by (subst op_eq_loop.simps) simp
  qed
qed

lemma op_loop_spec:
  "i \<le> n \<Longrightarrow> n = length sa \<Longrightarrow> n = length sb \<Longrightarrow> n = length sc \<Longrightarrow>
   op_loop f n i sa sb sc = Some (take i sa @ map2 f (drop i sb) (drop i sc))"
proof (induction f n i sa sb sc rule: op_loop.induct)
  case (1 f n i sa sb sc)
  show ?case
  proof (cases "i < n")
    case True
    then have "op_loop f n i sa sb sc = op_loop f n (Suc i) (sa[i := f (sb ! i) (sc ! i)]) sb sc"
      using "1.prems" by (subst op_loop.simps) (simp add: buf_simps)
    also have "\<dots> = Some (take (Suc i) (sa[i := f (sb ! i) (sc ! i)]) @ map2 f (drop (Suc i) sb) (drop (Suc i) sc))"
      by (rule "1.IH" [OF True, of "sb ! i" "sc ! i"]) (use True "1.prems" in \<open>simp_all add: buf_simps\<close>)
    finally have "op_loop f n i sa sb sc = \<dots>" .
    moreover have "drop i sb = sb ! i # drop (Suc i) sb" "drop i sc = sc ! i # drop (Suc i) sc"
      using True "1.prems" by (simp_all add: Cons_nth_drop_Suc)
    ultimately show ?thesis using True "1.prems" by (simp add: take_Suc_conv_app_nth)
  next
    case False
    with "1.prems" show ?thesis by (subst op_loop.simps) simp
  qed
qed

lemma op_loop_overflow:
  "length sa < n \<Longrightarrow> i \<le> length sa \<Longrightarrow> op_loop f n i sa sb sc = None"
proof (induction f n i sa sb sc rule: op_loop.induct)
  case (1 f n i sa sb sc)
  show ?case
  proof (cases "i < length sa")
    case True
    with 1 show ?thesis by (subst op_loop.simps) (auto simp: get_at_def put_at_def)
  next
    case False
    with "1.prems" show ?thesis by (subst op_loop.simps) (auto simp: get_at_def put_at_def)
  qed
qed

lemma all_loop_spec: "i \<le> n \<Longrightarrow> n = length d \<Longrightarrow> all_loop v n i d = Some (\<forall>x \<in> set (drop i d). x = v)"
proof (induction v n i d rule: all_loop.induct)
  case (1 v n i d)
  show ?case
  proof (cases "i < n")
    case True
    moreover have "drop i d = d ! i # drop (Suc i) d" using True "1.prems" by (simp add: Cons_nth_drop_Suc)
    ultimately show ?thesis using 1 by (subst all_loop.simps) (simp add: buf_simps)
  next
    case False
    with "1.prems" show ?thesis by (subst all_loop.simps) simp
  qed
qed

lemma cmp_loop_spec: "i \<le> n \<Longrightarrow> n = length d \<Longrightarrow> n = length e \<Longrightarrow>
    \<exists>r. cmp_loop n i d e = Some r \<and> (r = 0 \<longleftrightarrow> drop i d = drop i e)"
proof (induction n i d e rule: cmp_loop.induct)
  case (1 n i d e)
  show ?case
  proof (cases "i < n")
    case True
    have dr: "drop i d = d ! i # drop (Suc i) d" "drop i e = e ! i # drop (Suc i) e"
      using True "1.prems" by (simp_all add: Cons_nth_drop_Suc)
    show ?thesis
    proof (cases "d ! i = e ! i")
      case eq: True
      then show ?thesis using 1 dr True by (subst cmp_loop.simps) (simp add: buf_simps)
    next
      case False
      then have "uint (d ! i) - uint (e ! i) \<noteq> 0" by (simp add: word_uint_eq_iff)
      then show ?thesis using False "1.prems" dr True by (subst cmp_loop.simps) (simp add: buf_simps)
    qed
  next
    case False
    with "1.prems" show ?thesis by (subst cmp_loop.simps) simp
  qed
qed

subsection \<open>Reading and writing bits\<close>

lemma bit_single: "bit (2 ^ k :: byte) n \<longleftrightarrow> n = k \<and> k < 8"
  by (auto simp: bit_exp_iff)

lemma bit_mask_ff: "bit (0xff :: int) (j mod 8)"
proof -
  have "(0xff :: int) = mask 8" by (simp add: mask_eq_exp_minus_1)
  then show ?thesis by (simp only: bit_mask_iff) simp
qed

lemma and_single: "x AND 2 ^ k = (0 :: byte) \<longleftrightarrow> \<not> bit x k"
proof (cases "bit x k")
  case True
  moreover have "k < 8" using True bit_imp_le_length by force
  ultimately have "bit (x AND 2 ^ k) k" by (simp add: bit_and_iff bit_single)
  then show ?thesis using True by auto
next
  case False
  then have "\<not> bit (x AND 2 ^ k) n" for n by (auto simp: bit_and_iff bit_single)
  then show ?thesis using False by (auto simp: bit_eq_iff)
qed

lemma bs_index: "bs_ok b \<Longrightarrow> i < bs_size b * 8 \<Longrightarrow> i < szt (bs_size b * 8) \<and> i div 8 < length (bs_data b)"
  by (auto simp: bs_ok_def)

lemma div_mod8_eq: "i div 8 = j div 8 \<and> i mod 8 = j mod 8 \<longleftrightarrow> i = (j :: nat)"
  by (metis div_mult_mod_eq)

text \<open>
  Bits are independent cells. In range, \<open>bitset_set\<close> and \<open>bitset_clear\<close> change exactly the bit asked
  for and keep the set usable, \<open>bitset_is_set\<close> reads it back, and \<open>bitset_set_all\<close> and \<open>bitset_clear_all\<close> change them all;
  out of range every one of them violates its assert.
\<close>
theorem bitset_bits_correct:
  assumes "bs_ok b"
  shows "(if i < bs_size b * 8 then
      (\<exists>b'. bitset_set b i = Some b' \<and> bs_ok b' \<and> bs_bitcount b' = bs_bitcount b \<and> (\<forall>j. bs_bit b' j \<longleftrightarrow> j = i \<or> bs_bit b j)) \<and>
      (\<exists>b'. bitset_clear b i = Some b' \<and> bs_ok b' \<and> bs_bitcount b' = bs_bitcount b \<and> (\<forall>j. bs_bit b' j \<longleftrightarrow> j \<noteq> i \<and> bs_bit b j)) \<and>
      bitset_is_set b i = Some (bs_bit b i)
    else bitset_set b i = None \<and> bitset_clear b i = None \<and> bitset_is_set b i = None) \<and>
    (\<exists>b'. bitset_set_all b = Some b' \<and> bs_ok b' \<and> (\<forall>j < bs_size b * 8. bs_bit b' j)) \<and>
    (\<exists>b'. bitset_clear_all b = Some b' \<and> bs_ok b' \<and> (\<forall>j < bs_size b * 8. \<not> bs_bit b' j))"
proof (intro conjI)
  show "if i < bs_size b * 8 then
      (\<exists>b'. bitset_set b i = Some b' \<and> bs_ok b' \<and> bs_bitcount b' = bs_bitcount b \<and> (\<forall>j. bs_bit b' j \<longleftrightarrow> j = i \<or> bs_bit b j)) \<and>
      (\<exists>b'. bitset_clear b i = Some b' \<and> bs_ok b' \<and> bs_bitcount b' = bs_bitcount b \<and> (\<forall>j. bs_bit b' j \<longleftrightarrow> j \<noteq> i \<and> bs_bit b j)) \<and>
      bitset_is_set b i = Some (bs_bit b i)
    else bitset_set b i = None \<and> bitset_clear b i = None \<and> bitset_is_set b i = None"
  proof (cases "i < bs_size b * 8")
    case True
    note ix = bs_index [OF assms True]
    let ?x = "bs_data b ! (i div 8)"
    have upd: "bs_bit (b\<lparr>bs_data := (bs_data b)[i div 8 := y]\<rparr>) j \<longleftrightarrow>
        (if j div 8 = i div 8 then bit y (j mod 8) else bs_bit b j)" for y j
      using ix by (auto simp: bs_bit_def)
    have "bs_bit (b\<lparr>bs_data := (bs_data b)[i div 8 := ?x OR push_bit (i mod 8) 1]\<rparr>) j \<longleftrightarrow> j = i \<or> bs_bit b j" for j
      unfolding upd using div_mod8_eq [of j i] by (auto simp: bit_or_iff bit_single bs_bit_def)
    moreover have "bs_bit (b\<lparr>bs_data := (bs_data b)[i div 8 := ?x AND NOT (push_bit (i mod 8) 1)]\<rparr>) j \<longleftrightarrow> j \<noteq> i \<and> bs_bit b j" for j
      unfolding upd using div_mod8_eq [of j i]
      by (auto simp: bit_and_iff bit_not_iff bit_single bs_bit_def possible_bit_def)
    ultimately show ?thesis using True ix assms
      by (auto simp: bitset_set_def bitset_clear_def bitset_is_set_def buf_simps and_single bs_ok_def bs_bit_def)
  next
    case False
    then show ?thesis using assms
      by (simp add: bitset_set_def bitset_clear_def bitset_is_set_def bs_ok_def)
  qed
  have w: "wr (bs_data b) 0 (replicate (bs_size b) v) = Some (replicate (bs_size b) v)" for v
    using assms by (simp add: wr_def bs_ok_def)
  have "j < n * 8 \<Longrightarrow> replicate n v ! (j div 8) = v" for j n and v :: byte by simp
  then show "\<exists>b'. bitset_set_all b = Some b' \<and> bs_ok b' \<and> (\<forall>j < bs_size b * 8. bs_bit b' j)"
    using assms by (auto simp: bitset_set_all_def w bs_ok_def bs_bit_def intro!: bit_mask_ff)
  show "\<exists>b'. bitset_clear_all b = Some b' \<and> bs_ok b' \<and> (\<forall>j < bs_size b * 8. \<not> bs_bit b' j)"
    using assms by (auto simp: bitset_clear_all_def w bs_ok_def bs_bit_def)
qed

theorem bitset_bits_correct_witness:
  "bs_ok \<lparr>bs_bitcount = 16, bs_size = 2, bs_data = [0x80, 0x01]\<rparr> \<and>
   bitset_is_set \<lparr>bs_bitcount = 16, bs_size = 2, bs_data = [0x80, 0x01]\<rparr> 7 = Some (bs_bit \<lparr>bs_bitcount = 16, bs_size = 2, bs_data = [0x80, 0x01]\<rparr> 7)"
proof -
  have h: "bs_ok \<lparr>bs_bitcount = 16, bs_size = 2, bs_data = [0x80, 0x01]\<rparr>"
    by (simp add: bs_ok_def SIZE_MOD_def)
  show ?thesis using h bitset_bits_correct [OF h, of 7] by simp
qed

subsection \<open>Whole sets\<close>

lemma bitset_new_spec:
  assumes "n < SIZE_MOD" "bytes_for n * 8 < SIZE_MOD"
  shows "\<exists>r a'. bitset_new n a = Some (r, a') \<and> (decisions a = [] \<longrightarrow> r \<noteq> None) \<and>
    (\<forall>b. r = Some b \<longrightarrow> b = \<lparr>bs_bitcount = n, bs_size = bytes_for n, bs_data = replicate (bytes_for n) 0\<rparr>)"
proof -
  let ?sz = "bytes_for n"
  have small: "?sz \<le> PTRDIFF_MAX" using assms by (simp add: PTRDIFF_MAX_def SIZE_MOD_def)
  obtain b1 a1 where al1: "try_alloc 24 a = (b1, a1)" by (cases "try_alloc 24 a")
  obtain b2 a2 where al2: "try_alloc ?sz a1 = (b2, a2)" by (cases "try_alloc ?sz a1")
  have ok: "decisions a = [] \<longrightarrow> b1 \<and> b2"
    using al1 al2 small try_alloc_no_oom [of a 24] try_alloc_no_oom [of a1 ?sz] by (auto simp: PTRDIFF_MAX_def)
  have cl: "bitset_clear_all \<lparr>bs_bitcount = n, bs_size = ?sz, bs_data = map g [0..<?sz]\<rparr> =
      Some \<lparr>bs_bitcount = n, bs_size = ?sz, bs_data = replicate ?sz 0\<rparr>" for g
    by (simp add: bitset_clear_all_def wr_def)
  have new: "bitset_new n a = (case try_alloc 24 a of (False, a) \<Rightarrow> Some (None, a)
     | (True, a) \<Rightarrow> (case try_alloc ?sz a of (False, a) \<Rightarrow> Some (None, a)
       | (True, a) \<Rightarrow> do {
           b \<leftarrow> bitset_clear_all \<lparr>bs_bitcount = n, bs_size = ?sz, bs_data = map (\<lambda>i. word_of_nat (code (junk a i))) [0..<?sz]\<rparr>;
           Some (Some b, a) }))"
    unfolding bitset_new_def Let_def bytes_for_def ..
  show ?thesis
  proof (cases "b1 \<and> b2")
    case True
    then show ?thesis using al1 al2 cl by (simp add: new)
  next
    case False
    then have "bitset_new n a = Some (None, if b1 then a2 else a1)"
      using al1 al2 by (cases b1; cases b2) (simp_all add: new)
    then show ?thesis using ok False by auto
  qed
qed

lemma bitset_op_eq_spec:
  assumes "bs_ok b" "bs_ok c" "bs_size b = bs_size c"
  shows "bitset_op_eq f b c = Some (b\<lparr>bs_data := map2 f (bs_data b) (bs_data c)\<rparr>)"
  using assms op_eq_loop_spec [of 0 "bs_size b" "bs_data b" "bs_data c" f]
  by (simp add: bitset_op_eq_def bs_ok_def)

lemma bitset_op_spec:
  assumes "bs_made b" "bs_ok c" "bs_size b = bs_size c" "bs_bitcount b < SIZE_MOD"
  shows "\<exists>r a'. bitset_op f b c a = Some (r, a') \<and> (decisions a = [] \<longrightarrow> r \<noteq> None) \<and>
    (\<forall>d. r = Some d \<longrightarrow> d = b\<lparr>bs_data := map2 f (bs_data b) (bs_data c)\<rparr>)"
proof -
  have sz: "bs_size b = bytes_for (bs_bitcount b)" "bytes_for (bs_bitcount b) * 8 < SIZE_MOD" "length (bs_data b) = bs_size b"
      "length (bs_data c) = bs_size b" using assms by (auto simp: bs_made_def bs_ok_def)
  obtain r a' where n: "bitset_new (bs_bitcount b) a = Some (r, a')" "decisions a = [] \<longrightarrow> r \<noteq> None"
      "\<forall>b'. r = Some b' \<longrightarrow> b' = \<lparr>bs_bitcount = bs_bitcount b, bs_size = bs_size b, bs_data = replicate (bs_size b) 0\<rparr>"
    using bitset_new_spec [OF assms(4) sz(2), of a] sz(1) by auto
  have "op_loop f (bs_size b) 0 (replicate (bs_size b) 0) (bs_data b) (bs_data c) = Some (map2 f (bs_data b) (bs_data c))"
    using op_loop_spec [of 0 "bs_size b" "replicate (bs_size b) 0" "bs_data b" "bs_data c" f] sz by simp
  then show ?thesis using n assms(3) by (cases r) (simp_all add: bitset_op_def)
qed

lemma map2_bit:
  assumes "bs_ok b" "length e = bs_size b" "i < bs_size b * 8" "\<And>x y k. bit (f x y :: byte) k \<longleftrightarrow> g (bit x k) (bit (y :: byte) k)"
  shows "bs_bit (b\<lparr>bs_data := map2 f (bs_data b) e\<rparr>) i \<longleftrightarrow> g (bs_bit b i) (bit (e ! (i div 8)) (i mod 8))"
proof -
  have "i div 8 < bs_size b" using assms(3) by simp
  then show ?thesis using assms by (simp add: bs_bit_def bs_ok_def)
qed

text \<open>
  Set operations. On two usable sets of the same size the compound assignments compute the
  intersection, union and symmetric difference bit by bit; \<open>bitset_cmp\<close> is zero exactly on equal data, and
  \<open>bitset_allzero\<close> and \<open>bitset_allone\<close> say whether every byte is. The functions that return a new
  set do the same when the first operand was made for its bit count. On a set that \<open>bitset_map\<close> laid over at least one byte of foreign
  memory they allocate for the bit count 0 and write past the end of the new data.
\<close>
theorem bitset_ops_correct:
  assumes "bs_ok b" "bs_ok c" "bs_size b = bs_size c" "bs_bitcount b < SIZE_MOD"
  shows "(\<exists>d. bitset_and_eq b c = Some d \<and> bs_ok d \<and> (\<forall>i < bs_size b * 8. bs_bit d i \<longleftrightarrow> bs_bit b i \<and> bs_bit c i)) \<and>
    (\<exists>d. bitset_or_eq b c = Some d \<and> bs_ok d \<and> (\<forall>i < bs_size b * 8. bs_bit d i \<longleftrightarrow> bs_bit b i \<or> bs_bit c i)) \<and>
    (\<exists>d. bitset_xor_eq b c = Some d \<and> bs_ok d \<and> (\<forall>i < bs_size b * 8. bs_bit d i \<longleftrightarrow> bs_bit b i \<noteq> bs_bit c i)) \<and>
    (\<exists>r. bitset_cmp b c = Some r \<and> (r = 0 \<longleftrightarrow> bs_data b = bs_data c)) \<and>
    bitset_allzero b = Some (\<forall>x \<in> set (bs_data b). x = 0) \<and>
    bitset_allone b = Some (\<forall>x \<in> set (bs_data b). x = 0xff) \<and>
    (bs_made b \<longrightarrow> (\<exists>r a'. bitset_and b c a = Some (r, a') \<and> (decisions a = [] \<longrightarrow> r \<noteq> None) \<and> (\<forall>d. r = Some d \<longrightarrow> bitset_and_eq b c = Some d)) \<and>
       (\<exists>r a'. bitset_or b c a = Some (r, a') \<and> (decisions a = [] \<longrightarrow> r \<noteq> None) \<and> (\<forall>d. r = Some d \<longrightarrow> bitset_or_eq b c = Some d)) \<and>
       (\<exists>r a'. bitset_xor b c a = Some (r, a') \<and> (decisions a = [] \<longrightarrow> r \<noteq> None) \<and> (\<forall>d. r = Some d \<longrightarrow> bitset_xor_eq b c = Some d))) \<and>
    (bs_bitcount b = 0 \<and> 0 < bs_size b \<and> decisions a = [] \<longrightarrow> bitset_and b c a = None \<and> bitset_or b c a = None \<and> bitset_xor b c a = None)"
proof (intro conjI impI)
  note e = bitset_op_eq_spec [OF assms(1-3)]
  have okd: "bs_ok (b\<lparr>bs_data := map2 f (bs_data b) (bs_data c)\<rparr>)" for f using assms by (simp add: bs_ok_def)
  have lc: "length (bs_data c) = bs_size b" using assms by (simp add: bs_ok_def)
  note mb = map2_bit [OF assms(1) lc, folded bs_bit_def]
  show "\<exists>d. bitset_and_eq b c = Some d \<and> bs_ok d \<and> (\<forall>i < bs_size b * 8. bs_bit d i \<longleftrightarrow> bs_bit b i \<and> bs_bit c i)"
    using okd mb [of _ "\<lambda>x y. x AND y" "\<lambda>x y. x \<and> y"] by (simp add: bitset_and_eq_def e bit_and_iff)
  show "\<exists>d. bitset_or_eq b c = Some d \<and> bs_ok d \<and> (\<forall>i < bs_size b * 8. bs_bit d i \<longleftrightarrow> bs_bit b i \<or> bs_bit c i)"
    using okd mb [of _ "\<lambda>x y. x OR y" "\<lambda>x y. x \<or> y"] by (simp add: bitset_or_eq_def e bit_or_iff)
  show "\<exists>d. bitset_xor_eq b c = Some d \<and> bs_ok d \<and> (\<forall>i < bs_size b * 8. bs_bit d i \<longleftrightarrow> bs_bit b i \<noteq> bs_bit c i)"
    using okd mb [of _ "\<lambda>x y. x XOR y" "\<lambda>x y. x \<noteq> y"] by (simp add: bitset_xor_eq_def e bit_xor_iff)
  show "\<exists>r. bitset_cmp b c = Some r \<and> (r = 0 \<longleftrightarrow> bs_data b = bs_data c)"
    using assms cmp_loop_spec [of 0 "bs_size b" "bs_data b" "bs_data c"] by (simp add: bitset_cmp_def bs_ok_def)
  show "bitset_allzero b = Some (\<forall>x \<in> set (bs_data b). x = 0)" "bitset_allone b = Some (\<forall>x \<in> set (bs_data b). x = 0xff)"
    using assms all_loop_spec [of 0 "bs_size b" "bs_data b"] by (simp_all add: bitset_allzero_def bitset_allone_def bs_ok_def)
  note sp = bitset_op_spec [OF _ assms(2-4), of _ a]
  show "\<exists>r a'. bitset_and b c a = Some (r, a') \<and> (decisions a = [] \<longrightarrow> r \<noteq> None) \<and> (\<forall>d. r = Some d \<longrightarrow> bitset_and_eq b c = Some d)"
    if "bs_made b" using sp [OF that, of "\<lambda>x y. x AND y"] by (auto simp: bitset_and_def bitset_and_eq_def e)
  show "\<exists>r a'. bitset_or b c a = Some (r, a') \<and> (decisions a = [] \<longrightarrow> r \<noteq> None) \<and> (\<forall>d. r = Some d \<longrightarrow> bitset_or_eq b c = Some d)"
    if "bs_made b" using sp [OF that, of "\<lambda>x y. x OR y"] by (auto simp: bitset_or_def bitset_or_eq_def e)
  show "\<exists>r a'. bitset_xor b c a = Some (r, a') \<and> (decisions a = [] \<longrightarrow> r \<noteq> None) \<and> (\<forall>d. r = Some d \<longrightarrow> bitset_xor_eq b c = Some d)"
    if "bs_made b" using sp [OF that, of "\<lambda>x y. x XOR y"] by (auto simp: bitset_xor_def bitset_xor_eq_def e)
  assume z: "bs_bitcount b = 0 \<and> 0 < bs_size b \<and> decisions a = []"
  obtain n a' where n: "bitset_new 0 a = Some (Some n, a')" "bs_data n = []"
    using bitset_new_spec [of 0 a] z by (auto simp: bytes_for_def)
  have "bitset_op f b c a = None" for f
    using n z assms(3) op_loop_overflow [of "[]" "bs_size b" 0 f "bs_data b" "bs_data c"] by (simp add: bitset_op_def)
  then show "bitset_and b c a = None" "bitset_or b c a = None" "bitset_xor b c a = None"
    by (simp_all add: bitset_and_def bitset_or_def bitset_xor_def)
qed

theorem bitset_ops_correct_witness:
  "\<exists>m. bitset_map [0x0f] 1 no_oom = (Some m, no_oom) \<and> bs_ok m \<and> bitset_allzero m = Some False \<and> bitset_and m m no_oom = None"
proof -
  let ?m = "\<lparr>bs_bitcount = 0, bs_size = 1, bs_data = [0x0f]\<rparr>"
  have h: "bs_ok ?m" "bs_ok ?m" "bs_size ?m = bs_size ?m" "bs_bitcount ?m < SIZE_MOD"
    by (simp_all add: bs_ok_def SIZE_MOD_def)
  have "bitset_map [0x0f] 1 no_oom = (Some ?m, no_oom)"
    by (simp add: bitset_map_def try_alloc_def no_oom_def PTRDIFF_MAX_def)
  then show ?thesis using h(1) bitset_ops_correct [OF h, of no_oom] by (simp add: no_oom_def)
qed

end
