(* ===== verification/Convert.thy ===== *)
theory Convert
  imports HL_Prelude
begin

section \<open>Strings to numbers\<close>

text \<open>
  The conversions of \<open>src/meta/src/meta_convert.c\<close>. A failed conversion is \<open>Inl\<close> the value left in
  \<open>errno\<close>, a successful one \<open>Inr\<close> the number stored. \<open>strtol\<close>, \<open>strtoul\<close> and \<open>strtoull\<close> are modelled
  as the C standard defines them for the C locale: white space, an optional sign, for base 16 an
  optional prefix, digits; values out of range are clamped with \<open>ERANGE\<close>, and a minus sign
  negates in the unsigned type. \<open>long\<close> and \<open>long long\<close> have 64 bits. The conversions to
  floating point are not modelled.
\<close>

subsection \<open>The C library's scanner\<close>

definition LONG_MAX :: int where "LONG_MAX = 2 ^ 63 - 1"
definition LONG_MIN :: int where "LONG_MIN = - (2 ^ 63)"
definition INT_MAX :: int where "INT_MAX = 2 ^ 31 - 1"
definition INT_MIN :: int where "INT_MIN = - (2 ^ 31)"
definition ULONG_MAX :: nat where "ULONG_MAX = 2 ^ 64 - 1"
definition UINT_MAX :: nat where "UINT_MAX = 2 ^ 32 - 1"
definition UINT16_MAX :: nat where "UINT16_MAX = 2 ^ 16 - 1"

lemmas limit_defs = LONG_MAX_def LONG_MIN_def INT_MAX_def INT_MIN_def ULONG_MAX_def UINT_MAX_def UINT16_MAX_def

definition digit_of :: "nat \<Rightarrow> char \<Rightarrow> nat option" where
  "digit_of base c = (
     let d = (if isdigit c then code c - 48 else if isupper c then code c - 55 else if islower c then code c - 87 else 36) in
     if d < base then Some d else None)"

fun number :: "nat \<Rightarrow> nat \<Rightarrow> string \<Rightarrow> nat" where
  "number base acc [] = acc"
| "number base acc (c # cs) = number base (acc * base + (case digit_of base c of Some d \<Rightarrow> d | None \<Rightarrow> 0)) cs"

definition split_sign :: "string \<Rightarrow> bool \<times> string" where
  "split_sign r = (case r of [] \<Rightarrow> (False, [])
     | c # cs \<Rightarrow> if c = CHR ''-'' then (True, cs) else if c = CHR ''+'' then (False, cs) else (False, r))"

definition skip_0x :: "nat \<Rightarrow> string \<Rightarrow> string" where
  "skip_0x base r = (case r of
     z # x # c # cs \<Rightarrow> if base = 16 \<and> z = CHR ''0'' \<and> (x = CHR ''x'' \<or> x = CHR ''X'') \<and> digit_of 16 c \<noteq> None then c # cs else r
   | _ \<Rightarrow> r)"

text \<open>The sign, the magnitude and the offset of the end; \<open>None\<close> when there is no number.\<close>

definition strto :: "nat \<Rightarrow> string \<Rightarrow> (bool \<times> nat \<times> nat) option" where
  "strto base s = (
     let (neg, r1) = split_sign (dropWhile isspace s);
         r2 = skip_0x base r1;
         ds = takeWhile (\<lambda>c. digit_of base c \<noteq> None) r2 in
     if ds = [] then None else Some (neg, number base 0 ds, length s - length r2 + length ds))"

text \<open>The result, the offset of the end pointer, and \<open>errno\<close>, which was 0 before the call.\<close>

definition strtol :: "string \<Rightarrow> nat \<Rightarrow> int \<times> nat \<times> errno_t" where
  "strtol s base = (case strto base s of
     None \<Rightarrow> (0, 0, E0)
   | Some (neg, m, n) \<Rightarrow> let v = (if neg then - int m else int m) in
       if LONG_MAX < v then (LONG_MAX, n, ERANGE)
       else if v < LONG_MIN then (LONG_MIN, n, ERANGE)
       else (v, n, E0))"

definition strtoul :: "string \<Rightarrow> nat \<Rightarrow> nat \<times> nat \<times> errno_t" where
  "strtoul s base = (case strto base s of
     None \<Rightarrow> (0, 0, E0)
   | Some (neg, m, n) \<Rightarrow>
       if ULONG_MAX < m then (ULONG_MAX, n, ERANGE)
       else (if neg then szsub 0 m else m, n, E0))"

subsection \<open>The conversions\<close>

definition tolong :: "string \<Rightarrow> errno_t + int" where
  "tolong src = (
     let (res, endp, errno) = strtol src 10 in
     if res = LONG_MIN \<and> errno = ERANGE then Inl errno
     else if res = LONG_MAX \<and> errno = ERANGE then Inl errno
     else if res = 0 \<and> errno = EINVAL then Inl errno
     else if endp = 0 then Inl EINVAL
     else if endp \<noteq> length src then Inl EINVAL
     else Inr res)"

definition toint :: "string \<Rightarrow> errno_t + int" where
  "toint src = (case tolong src of
     Inl e \<Rightarrow> Inl e
   | Inr res \<Rightarrow> if res < INT_MIN \<or> INT_MAX < res then Inl ERANGE else Inr res)"

definition toulong :: "string \<Rightarrow> errno_t + nat" where
  "toulong src = (
     let (res, endp, errno) = strtoul src 10 in
     if res = ULONG_MAX \<and> errno = ERANGE then Inl errno
     else if res = 0 \<and> errno = EINVAL then Inl errno
     else if endp = 0 then Inl EINVAL
     else if endp \<noteq> length src then Inl EINVAL
     else Inr res)"

definition touint :: "string \<Rightarrow> errno_t + nat" where
  "touint src = (case toulong src of
     Inl e \<Rightarrow> Inl e
   | Inr res \<Rightarrow> if UINT_MAX < res then Inl ERANGE else Inr res)"

definition touint16_t :: "string \<Rightarrow> errno_t + nat" where
  "touint16_t src = (case touint src of
     Inl e \<Rightarrow> Inl e
   | Inr res \<Rightarrow> if UINT16_MAX < res then Inl ERANGE else Inr res)"

text \<open>\<open>tosize_t\<close> and \<open>hextosize_t\<close> refuse a leading minus sign; \<open>ULLONG_MAX\<close> is \<open>SIZE_MAX\<close>.\<close>

definition to_size :: "nat \<Rightarrow> string \<Rightarrow> errno_t + size_t" where
  "to_size base src = (
     if (case src of c # _ \<Rightarrow> c = CHR ''-'' | [] \<Rightarrow> False) then Inl EINVAL
     else let (res, endp, errno) = strtoul src base in
     if res = ULONG_MAX \<and> errno = ERANGE then Inl errno
     else if res = 0 \<and> errno = EINVAL then Inl errno
     else if endp = 0 then Inl EINVAL
     else if endp \<noteq> length src then Inl EINVAL
     else Inr res)"

definition tosize_t :: "string \<Rightarrow> errno_t + size_t" where
  "tosize_t src = to_size 10 src"

definition hextosize_t :: "string \<Rightarrow> errno_t + size_t" where
  "hextosize_t src = to_size 16 src"

subsection \<open>Numerals\<close>

definition digit_char :: "nat \<Rightarrow> char" where
  "digit_char d = (if d < 10 then char_of (48 + d) else char_of (87 + d))"

function numeral_str :: "nat \<Rightarrow> nat \<Rightarrow> string" where
  "numeral_str base n = (if n < base \<or> base < 2 then [digit_char n] else numeral_str base (n div base) @ [digit_char (n mod base)])"
  by pat_completeness auto
termination by (relation "measure snd") auto

declare numeral_str.simps [simp del]

definition int_str :: "int \<Rightarrow> string" where
  "int_str v = (if v < 0 then CHR ''-'' # numeral_str 10 (nat (- v)) else numeral_str 10 (nat v))"

lemma code_digit_char: "d < 16 \<Longrightarrow> code (digit_char d) = (if d < 10 then 48 + d else 87 + d)"
  by (simp add: digit_char_def)

lemma digit_of_char: "d < base \<Longrightarrow> base \<le> 16 \<Longrightarrow> digit_of base (digit_char d) = Some d"
  by (auto simp: digit_of_def ctype_defs code_digit_char)

lemma number_append: "number base acc (xs @ ys) = number base (number base acc xs) ys"
  by (induction xs arbitrary: acc) auto

lemma numeral_str_correct:
  assumes "2 \<le> base" "base \<le> 16"
  shows "number base 0 (numeral_str base n) = n \<and> numeral_str base n \<noteq> [] \<and>
    (\<forall>c \<in> set (numeral_str base n). digit_of base c \<noteq> None) \<and>
    (base \<le> n \<or> numeral_str base n = [digit_char n]) \<and>
    (base \<le> n \<longrightarrow> (\<exists>d. 0 < d \<and> d < base \<and> hd (numeral_str base n) = digit_char d))"
  using assms
proof (induction base n rule: numeral_str.induct)
  case (1 base n)
  show ?case
  proof (cases "n < base")
    case True
    then show ?thesis using "1.prems" by (subst (1 2 3 4 5) numeral_str.simps) (simp add: digit_of_char)
  next
    case False
    then have nb: "\<not> (n < base \<or> base < 2)" using "1.prems" by simp
    note IH = "1.IH" [OF nb "1.prems"]
    have s: "numeral_str base n = numeral_str base (n div base) @ [digit_char (n mod base)]"
      using nb by (subst numeral_str.simps) simp
    have m: "n mod base < base" using "1.prems" by simp
    have hd: "hd (numeral_str base n) = hd (numeral_str base (n div base))" using IH by (simp add: s)
    have "\<exists>d. 0 < d \<and> d < base \<and> hd (numeral_str base n) = digit_char d"
    proof (cases "base \<le> n div base")
      case True
      then show ?thesis using IH hd by auto
    next
      case small: False
      then have "hd (numeral_str base n) = digit_char (n div base)" using IH hd by simp
      moreover have "0 < n div base" using False "1.prems" by (simp add: div_greater_zero_iff)
      ultimately show ?thesis using small by auto
    qed
    then show ?thesis using IH False m "1.prems" by (simp add: s number_append digit_of_char)
  qed
qed

lemma not_space_digit: "digit_of base c \<noteq> None \<Longrightarrow> base \<le> 36 \<Longrightarrow> \<not> isspace c \<and> c \<noteq> CHR ''-'' \<and> c \<noteq> CHR ''+''"
  by (auto simp: digit_of_def ctype_defs Let_def split: if_splits)

lemma takeWhile_digits: "\<forall>c \<in> set ds. digit_of base c \<noteq> None \<Longrightarrow> takeWhile (\<lambda>c. digit_of base c \<noteq> None) ds = ds"
  by (simp add: takeWhile_eq_all_conv)

text \<open>Scanning white space, a sign and a numeral of the base.\<close>

lemma skip_0x_numeral:
  assumes "2 \<le> base" "base \<le> 16"
  shows "skip_0x base (numeral_str base n) = numeral_str base n"
proof -
  have c: "\<forall>c \<in> set (numeral_str base n). digit_of base c \<noteq> None" using numeral_str_correct [OF assms] by blast
  have "x \<noteq> CHR ''x'' \<and> x \<noteq> CHR ''X''" if "x \<in> set (numeral_str base n)" for x
    using c that assms by (auto simp: digit_of_def ctype_defs Let_def split: if_splits)
  then show ?thesis by (auto simp: skip_0x_def split: list.splits)
qed

lemma strto_numeral:
  assumes base: "2 \<le> base" "base \<le> 16" and ws: "\<forall>c \<in> set ws. isspace c" and sg: "sg \<in> {[], ''-'', ''+''}"
  shows "strto base (ws @ sg @ numeral_str base n) = Some (sg = ''-'', n, length (ws @ sg @ numeral_str base n))"
proof -
  let ?s = "numeral_str base n"
  note N = numeral_str_correct [OF base, of n]
  obtain c cs where s: "?s = c # cs" using N by (cases ?s) auto
  have c: "\<not> isspace c \<and> c \<noteq> CHR ''-'' \<and> c \<noteq> CHR ''+''" using N s not_space_digit [of base c] base by auto
  have "\<not> isspace (hd (sg @ ?s))" using c s sg by (auto simp: ctype_defs)
  then have d: "dropWhile isspace (ws @ sg @ ?s) = sg @ ?s"
    using ws s by (cases sg) (auto simp: dropWhile_append)
  have sp: "split_sign (sg @ ?s) = (sg = ''-'', ?s)" using c s sg by (auto simp: split_sign_def)
  have tk: "takeWhile (\<lambda>c. digit_of base c \<noteq> None) ?s = ?s" using N by (intro takeWhile_digits) blast
  show ?thesis unfolding strto_def d sp prod.case Let_def skip_0x_numeral [OF base] tk using N by simp
qed

lemma strto_end: "strto base s = Some (neg, m, n) \<Longrightarrow> n \<noteq> 0"
  by (auto simp: strto_def Let_def case_prod_beta split: if_splits)

lemma tolong_iff:
  "tolong s = Inr v \<longleftrightarrow> (\<exists>neg m. strto 10 s = Some (neg, m, length s) \<and> v = (if neg then - int m else int m) \<and>
     LONG_MIN \<le> v \<and> v \<le> LONG_MAX)"
proof (cases "strto 10 s")
  case (Some r)
  obtain neg m n where r: "r = (neg, m, n)" by (cases r)
  have "n \<noteq> 0" using strto_end Some r by blast
  then show ?thesis using Some r
    by (auto simp: tolong_def strtol_def Let_def LONG_MAX_def LONG_MIN_def split: if_splits)
qed (simp add: tolong_def strtol_def)

lemma length_numeral: "n < 10 ^ k \<Longrightarrow> 0 < k \<Longrightarrow> length (numeral_str 10 n) \<le> k"
proof (induction k arbitrary: n)
  case (Suc k)
  show ?case
  proof (cases "n < 10")
    case True
    then show ?thesis by (subst numeral_str.simps) simp
  next
    case False
    then have "n div 10 < 10 ^ k" "0 < k" using Suc.prems(1) by (auto simp: less_mult_imp_div_less mult.commute intro: gr0I)
    then show ?thesis using Suc.IH [of "n div 10"] False by (subst numeral_str.simps) simp
  qed
qed simp

lemma toint_int_str: "INT_MIN \<le> i \<Longrightarrow> i \<le> INT_MAX \<Longrightarrow> toint (int_str i) = Inr i"
proof -
  assume i: "INT_MIN \<le> i" "i \<le> INT_MAX"
  have "strto 10 (int_str i) = Some (i < 0, nat (abs i), length (int_str i))"
    using strto_numeral [of 10 "[]" "''-''" "nat (- i)"] strto_numeral [of 10 "[]" "[]" "nat i"] by (simp add: int_str_def)
  then have "tolong (int_str i) = Inr i" using i unfolding tolong_iff by (auto simp: limit_defs)
  then show "toint (int_str i) = Inr i" using i by (simp add: toint_def)
qed

lemma toint_range: "toint s = Inr v \<Longrightarrow> INT_MIN \<le> v \<and> v \<le> INT_MAX"
  by (auto simp: toint_def split: sum.splits if_splits)

lemma length_int_str: "INT_MIN \<le> i \<Longrightarrow> i \<le> INT_MAX \<Longrightarrow> length (int_str i) \<le> 11"
proof -
  assume i: "INT_MIN \<le> i" "i \<le> INT_MAX"
  have "nat (- i) < 10 ^ 10" "nat i < 10 ^ 10" using i by (simp_all add: limit_defs)
  then show "length (int_str i) \<le> 11" using length_numeral [of "nat (- i)" 10] length_numeral [of "nat i" 10] by (simp add: int_str_def)
qed

lemma toulong_iff:
  "toulong s = Inr v \<longleftrightarrow> (\<exists>neg m. strto 10 s = Some (neg, m, length s) \<and> m \<le> ULONG_MAX \<and> v = (if neg then szsub 0 m else m))"
proof (cases "strto 10 s")
  case (Some r)
  obtain neg m n where r: "r = (neg, m, n)" by (cases r)
  have "n \<noteq> 0" using strto_end Some r by blast
  then show ?thesis using Some r
    by (auto simp: toulong_def strtoul_def Let_def split: if_splits)
qed (simp add: toulong_def strtoul_def)

lemma to_size_iff:
  "to_size base s = Inr v \<longleftrightarrow> (\<exists>neg m. strto base s = Some (neg, m, length s) \<and> m \<le> ULONG_MAX \<and>
     v = (if neg then szsub 0 m else m) \<and> (\<forall>cs. s \<noteq> CHR ''-'' # cs))"
proof (cases "strto base s")
  case (Some r)
  obtain neg m n where r: "r = (neg, m, n)" by (cases r)
  have "n \<noteq> 0" using strto_end Some r by blast
  then show ?thesis using Some r
    by (cases s) (auto simp: to_size_def strtoul_def Let_def split: if_splits)
qed (auto simp: to_size_def strtoul_def split: list.splits)

subsection \<open>Properties\<close>

text \<open>
  What the conversions accept, and what they store. A conversion succeeds exactly when the whole
  string is white space, a sign and digits and the number is in the range of the type, and it
  stores that number. The exception is the minus sign for the unsigned types: it is accepted and
  the number is negated modulo \<open>2 ^ 64\<close>, by \<open>tosize_t\<close> and \<open>hextosize_t\<close> only behind white space since
  they refuse a string that starts with it.
\<close>
theorem convert_accepts:
  "(toint s = Inr i \<longleftrightarrow> (\<exists>neg m. strto 10 s = Some (neg, m, length s) \<and> i = (if neg then - int m else int m) \<and>
       INT_MIN \<le> i \<and> i \<le> INT_MAX)) \<and>
   (tolong s = Inr i \<longleftrightarrow> (\<exists>neg m. strto 10 s = Some (neg, m, length s) \<and> i = (if neg then - int m else int m) \<and>
       LONG_MIN \<le> i \<and> i \<le> LONG_MAX)) \<and>
   (touint s = Inr u \<longleftrightarrow> (\<exists>neg m. strto 10 s = Some (neg, m, length s) \<and> m \<le> ULONG_MAX \<and>
       u = (if neg then szsub 0 m else m) \<and> u \<le> UINT_MAX)) \<and>
   (touint16_t s = Inr u \<longleftrightarrow> (\<exists>neg m. strto 10 s = Some (neg, m, length s) \<and> m \<le> ULONG_MAX \<and>
       u = (if neg then szsub 0 m else m) \<and> u \<le> UINT16_MAX)) \<and>
   (tosize_t s = Inr u \<longleftrightarrow> (\<exists>neg m. strto 10 s = Some (neg, m, length s) \<and> m \<le> ULONG_MAX \<and>
       u = (if neg then szsub 0 m else m) \<and> (\<forall>cs. s \<noteq> CHR ''-'' # cs))) \<and>
   (hextosize_t s = Inr u \<longleftrightarrow> (\<exists>neg m. strto 16 s = Some (neg, m, length s) \<and> m \<le> ULONG_MAX \<and>
       u = (if neg then szsub 0 m else m) \<and> (\<forall>cs. s \<noteq> CHR ''-'' # cs)))"
proof (intro conjI)
  have l: "INT_MIN \<le> x \<Longrightarrow> x \<le> INT_MAX \<Longrightarrow> LONG_MIN \<le> x \<and> x \<le> LONG_MAX" for x
    by (simp add: limit_defs)
  have "toint s = Inr i \<longleftrightarrow> tolong s = Inr i \<and> INT_MIN \<le> i \<and> i \<le> INT_MAX"
    by (auto simp: toint_def split: sum.splits)
  then show "toint s = Inr i \<longleftrightarrow> (\<exists>neg m. strto 10 s = Some (neg, m, length s) \<and> i = (if neg then - int m else int m) \<and>
       INT_MIN \<le> i \<and> i \<le> INT_MAX)" using l unfolding tolong_iff by blast
  have u: "touint s = Inr v \<longleftrightarrow> toulong s = Inr v \<and> v \<le> UINT_MAX" for v
    by (auto simp: touint_def split: sum.splits)
  then show "touint s = Inr u \<longleftrightarrow> (\<exists>neg m. strto 10 s = Some (neg, m, length s) \<and> m \<le> ULONG_MAX \<and>
       u = (if neg then szsub 0 m else m) \<and> u \<le> UINT_MAX)" unfolding toulong_iff by blast
  have "touint16_t s = Inr u \<longleftrightarrow> touint s = Inr u \<and> u \<le> UINT16_MAX"
    by (auto simp: touint16_t_def split: sum.splits)
  moreover have "UINT16_MAX \<le> UINT_MAX" by (simp add: limit_defs)
  ultimately have "touint16_t s = Inr u \<longleftrightarrow> toulong s = Inr u \<and> u \<le> UINT16_MAX"
    unfolding u by auto
  then show "touint16_t s = Inr u \<longleftrightarrow> (\<exists>neg m. strto 10 s = Some (neg, m, length s) \<and> m \<le> ULONG_MAX \<and>
       u = (if neg then szsub 0 m else m) \<and> u \<le> UINT16_MAX)" unfolding toulong_iff by blast
qed (simp_all only: tolong_iff tosize_t_def hextosize_t_def to_size_iff)

text \<open>
  Reading back a printed number. Every number in range, printed in decimal (for \<open>hextosize_t\<close>
  in hexadecimal) behind any white space, converts back to itself; a number out of range is
  refused with \<open>ERANGE\<close>.
\<close>
theorem convert_roundtrip:
  assumes "\<forall>c \<in> set ws. isspace c"
  shows "toint (ws @ int_str i) = (if INT_MIN \<le> i \<and> i \<le> INT_MAX then Inr i else Inl ERANGE) \<and>
    touint (ws @ numeral_str 10 n) = (if n \<le> UINT_MAX then Inr n else Inl ERANGE) \<and>
    touint16_t (ws @ numeral_str 10 n) = (if n \<le> UINT16_MAX then Inr n else Inl ERANGE) \<and>
    tosize_t (ws @ numeral_str 10 n) = (if n < SIZE_MOD then Inr n else Inl ERANGE) \<and>
    hextosize_t (ws @ numeral_str 16 n) = (if n < SIZE_MOD then Inr n else Inl ERANGE)"
proof (intro conjI)
  have st: "strto base (ws @ numeral_str base n) = Some (False, n, length (ws @ numeral_str base n))"
    if "2 \<le> base" "base \<le> 16" for base n using strto_numeral [OF that assms, of "[]" n] by simp
  have si: "strto 10 (ws @ int_str i) = Some (i < 0, nat (abs i), length (ws @ int_str i))"
    using strto_numeral [OF _ _ assms, of 10 "''-''" "nat (- i)"] st [of 10 "nat i"]
    by (cases "i < 0") (simp_all add: int_str_def)
  have nz: "length (ws @ numeral_str base n) \<noteq> 0" if "2 \<le> base" "base \<le> 16" for base n
    using strto_end [OF st [OF that, of n]] .
  have nzi: "length (ws @ int_str i) \<noteq> 0" using strto_end [OF si] .
  have iv: "(if i < 0 then - int (nat \<bar>i\<bar>) else int (nat \<bar>i\<bar>)) = i" by simp
  show "toint (ws @ int_str i) = (if INT_MIN \<le> i \<and> i \<le> INT_MAX then Inr i else Inl ERANGE)"
    unfolding toint_def tolong_def strtol_def si option.case prod.case iv Let_def using nzi
    by (auto simp: limit_defs)
  have ul: "toulong (ws @ numeral_str 10 n) = (if n \<le> ULONG_MAX then Inr n else Inl ERANGE)"
    unfolding toulong_def strtoul_def st [of 10 n, simplified] option.case prod.case using nz [of 10 n]
    by (auto simp: Let_def)
  show "touint (ws @ numeral_str 10 n) = (if n \<le> UINT_MAX then Inr n else Inl ERANGE)"
    unfolding touint_def ul by (auto simp: limit_defs)
  show "touint16_t (ws @ numeral_str 10 n) = (if n \<le> UINT16_MAX then Inr n else Inl ERANGE)"
    unfolding touint16_t_def touint_def ul by (auto simp: limit_defs)
  have sz: "to_size base (ws @ numeral_str base n) = (if n < SIZE_MOD then Inr n else Inl ERANGE)"
    if b: "2 \<le> base" "base \<le> 16" for base
  proof -
    obtain c cs where c: "numeral_str base n = c # cs" "digit_of base c \<noteq> None"
      using numeral_str_correct [OF b, of n] by (cases "numeral_str base n") auto
    then have "c \<noteq> CHR ''-''" using not_space_digit b by auto
    moreover have "\<not> isspace (CHR ''-'')" by (simp add: ctype_defs)
    ultimately have "ws @ numeral_str base n \<noteq> CHR ''-'' # ds" for ds using assms c by (cases ws) auto
    then have "\<not> (case ws @ numeral_str base n of c # _ \<Rightarrow> c = CHR ''-'' | [] \<Rightarrow> False)" by (auto split: list.splits)
    then show ?thesis unfolding to_size_def strtoul_def st [OF b] option.case prod.case using nz [OF b, of n]
      by (auto simp: Let_def limit_defs SIZE_MOD_def)
  qed
  show "tosize_t (ws @ numeral_str 10 n) = (if n < SIZE_MOD then Inr n else Inl ERANGE)"
    "hextosize_t (ws @ numeral_str 16 n) = (if n < SIZE_MOD then Inr n else Inl ERANGE)"
    using sz [of 10] sz [of 16] by (simp_all add: tosize_t_def hextosize_t_def)
qed

theorem convert_roundtrip_witness:
  "toint ('' '' @ int_str (- 42)) = Inr (- 42) \<and> touint16_t ('' '' @ numeral_str 10 65536) = Inl ERANGE \<and>
   hextosize_t ('' '' @ numeral_str 16 3405691582) = Inr 3405691582"
proof -
  have h: "\<forall>c \<in> set '' ''. isspace c" by (simp add: isspace_def)
  show ?thesis
    using convert_roundtrip [OF h, of "- 42" 65536] convert_roundtrip [OF h, of 0 3405691582]
    by (simp add: limit_defs SIZE_MOD_def)
qed

text \<open>The minus sign behind a blank: \<open>tosize_t\<close> stores \<open>SIZE_MAX\<close> for the text \<open>'' -1''\<close>.\<close>

lemma tosize_t_negative: "tosize_t '' -1'' = Inr ULONG_MAX" "tosize_t ''-1'' = Inl EINVAL" "toulong ''-1'' = Inr ULONG_MAX"
  by (simp_all add: tosize_t_def to_size_def toulong_def strtoul_def strto_def split_sign_def skip_0x_def digit_of_def
      ctype_defs ULONG_MAX_def SIZE_MOD_def szsub_def)

end
