(* ===== verification/String_Map.thy ===== *)
theory String_Map
  imports HL_Prelude
begin

section \<open>The interface of a map from strings\<close>

text \<open>
  What the users of the two string-keyed maps rely on: \<open>setk\<close> updates one key or reports failure and
  changes nothing, \<open>getk\<close> reads a key, and both always return. \<open>cap\<close> is a number of keys up to which the
  provider's size computations do not wrap. The name/value store (\<open>MetaPair\<close>) and the list map
  (\<open>MetaMap\<close>) provide it.
\<close>

locale string_map =
  fixes holds :: "'s \<Rightarrow> (string \<rightharpoonup> 'v) \<Rightarrow> bool"
    and setk :: "'s \<Rightarrow> string \<Rightarrow> 'v \<Rightarrow> allocator \<Rightarrow> (status_t \<times> 's \<times> allocator) option"
    and getk :: "'s \<Rightarrow> string \<Rightarrow> 'v option option"
    and ok_val :: "'v \<Rightarrow> bool"
    and cap :: nat
  assumes set_law: "holds s m \<Longrightarrow> card (dom m) < cap \<Longrightarrow> c_string k \<Longrightarrow> length k < PTRDIFF_MAX \<Longrightarrow> ok_val v \<Longrightarrow>
      \<exists>st s' a'. setk s k v a = Some (st, s', a') \<and> holds s' (if st then m(k \<mapsto> v) else m)"
    and get_law: "holds s m \<Longrightarrow> c_string k \<Longrightarrow> getk s k = Some (m k)"
begin

primrec set_all :: "'s \<Rightarrow> (string \<times> 'v) list \<Rightarrow> allocator \<Rightarrow> (status_t \<times> 's \<times> allocator) option" where
  "set_all s [] a = Some (success, s, a)"
| "set_all s (kv # kvs) a = setk s (fst kv) (snd kv) a \<bind> (\<lambda>(st, s, a). if st then set_all s kvs a else Some (failure, s, a))"

text \<open>Setting a sequence of pairs: for every key the last value set is the one read.\<close>

lemma set_all_get:
  "holds s m \<Longrightarrow> finite (dom m) \<Longrightarrow> card (dom m) + length kvs \<le> cap \<Longrightarrow>
   \<forall>kv \<in> set kvs. c_string (fst kv) \<and> length (fst kv) < PTRDIFF_MAX \<and> ok_val (snd kv) \<Longrightarrow>
   \<exists>st s' a'. set_all s kvs a = Some (st, s', a') \<and>
     (st \<longrightarrow> (\<forall>k. c_string k \<longrightarrow> getk s' k = Some ((m ++ map_of (rev kvs)) k)))"
proof (induction kvs arbitrary: s m a)
  case Nil
  then show ?case using get_law by (auto intro!: exI [of _ True])
next
  case (Cons kv kvs)
  obtain st s1 a1 where p: "setk s (fst kv) (snd kv) a = Some (st, s1, a1)"
      "holds s1 (if st then m(fst kv \<mapsto> snd kv) else m)"
    using set_law [OF Cons.prems(1), of "fst kv" "snd kv" a] Cons.prems(3,4) by auto
  show ?case
  proof (cases st)
    case False
    then show ?thesis using p by (intro exI [of _ False]) simp
  next
    case True
    have h: "holds s1 (m(fst kv \<mapsto> snd kv))" using p(2) True by (simp only: if_True)
    have q: "\<forall>kv \<in> set kvs. c_string (fst kv) \<and> length (fst kv) < PTRDIFF_MAX \<and> ok_val (snd kv)" using Cons.prems(4) by simp
    have c: "finite (dom (m(fst kv \<mapsto> snd kv)))" "card (dom (m(fst kv \<mapsto> snd kv))) + length kvs \<le> cap"
      using Cons.prems(2,3) by (simp_all add: card_insert_if)
    obtain st' s' a' where r: "set_all s1 kvs a1 = Some (st', s', a')"
        "st' \<longrightarrow> (\<forall>k. c_string k \<longrightarrow> getk s' k = Some ((m(fst kv \<mapsto> snd kv) ++ map_of (rev kvs)) k))"
      using Cons.IH [OF h c q, of a1] by blast
    have eq: "m(fst kv \<mapsto> snd kv) ++ map_of (rev kvs) = m ++ map_of (rev (kv # kvs))"
      by (cases kv) (rule ext, simp add: map_add_def split: option.split)
    have "set_all s (kv # kvs) a = Some (st', s', a')" using p(1) True r(1) by simp
    then show ?thesis using r(2) unfolding eq by blast
  qed
qed

end

text \<open>Association lists with one entry per key, as both providers keep them.\<close>

lemma map_of_update_nth:
  assumes "distinct (map fst al)" "i < length al" "fst (al ! i) = k"
  shows "map_of (al[i := (k, v)]) = (map_of al)(k \<mapsto> v)"
proof
  show "map_of (al[i := (k, v)]) q = ((map_of al)(k \<mapsto> v)) q" for q using assms
  proof (induction al arbitrary: i)
    case (Cons e al)
    show ?case
    proof (cases i)
      case 0
      with Cons.prems show ?thesis by (cases e) auto
    next
      case (Suc j)
      then have "fst e \<noteq> k" using Cons.prems by (auto dest: nth_mem)
      then show ?thesis using Suc Cons.IH [of j] Cons.prems by (cases e) auto
    qed
  qed simp
qed

lemma map_of_snoc: "k \<notin> fst ` set al \<Longrightarrow> map_of (al @ [(k, v)]) = (map_of al)(k \<mapsto> v)"
proof
  show "k \<notin> fst ` set al \<Longrightarrow> map_of (al @ [(k, v)]) q = ((map_of al)(k \<mapsto> v)) q" for q
    by (induction al) (auto simp: map_of_append)
qed

end
