(* ===== verification/MetaPair.thy ===== *)
theory MetaPair
  imports String_Map
begin

section \<open>Name/value pairs\<close>

text \<open>
  The name/value store of \<open>src/meta/src/meta_pair.c\<close> and \<open>meta_pair.h\<close>, which holds the parameters of an
  HTTP request: a growable array of pairs. A name is never changed after it was stored and is kept
  as a string; a value is kept with the bytes allocated for it, since \<open>pair_set\<close> overwrites in place
  when the new value is no longer than the old one. A slot that was never written has no value.
\<close>

subsection \<open>Operations\<close>

record pair_element =
  pe_name :: string
  pe_value :: "char list"

record pair =
  p_element :: "pair_element option list"
  p_nelem :: size_t
  p_used :: size_t

definition pair_new :: "size_t \<Rightarrow> allocator \<Rightarrow> (pair option \<times> allocator) option" where
  "pair_new nelem a = (if nelem > 0 then
     (case try_alloc 24 a of
        (False, a) \<Rightarrow> Some (None, a)
      | (True, a) \<Rightarrow> (case try_alloc (16 * nelem) a of
          (False, a) \<Rightarrow> Some (None, a)
        | (True, a) \<Rightarrow> Some (Some \<lparr>p_element = replicate nelem None, p_nelem = nelem, p_used = 0\<rparr>, a)))
     else None)"

text \<open>The names and values \<open>pair_free\<close> frees.\<close>

fun pair_free_loop :: "pair \<Rightarrow> nat \<Rightarrow> nat \<Rightarrow> (string \<times> char list) list option" where
  "pair_free_loop p i 0 = Some []"
| "pair_free_loop p i (Suc k) = do {
     e \<leftarrow> get_at (p_element p) i; e \<leftarrow> e;
     r \<leftarrow> pair_free_loop p (Suc i) k;
     Some ((pe_name e, pe_value e) # r) }"

definition pair_free :: "pair \<Rightarrow> (string \<times> char list) list option" where
  "pair_free p = pair_free_loop p 0 (p_used p)"

definition pair_extend :: "pair \<Rightarrow> size_t \<Rightarrow> allocator \<Rightarrow> status_t \<times> pair \<times> allocator" where
  "pair_extend p addcount a = (
     let sz = szt (16 * szt (p_nelem p + addcount)) in
     case try_alloc sz a of
       (False, a) \<Rightarrow> (failure, p, a)
     | (True, a) \<Rightarrow> (success, p\<lparr>p_element := take (sz div 16) (p_element p) @ replicate (sz div 16 - length (p_element p)) None,
                              p_nelem := szt (p_nelem p + addcount)\<rparr>, a))"

text \<open>The loop of \<open>pair_find\<close>: whether the name was found, and the index it stopped at.\<close>

function pair_find_loop :: "pair \<Rightarrow> string \<Rightarrow> nat \<Rightarrow> (bool \<times> nat) option" where
  "pair_find_loop p name i = (if i < p_used p then do {
     e \<leftarrow> get_at (p_element p) i; e \<leftarrow> e;
     if strcmp0 (pe_name e) name then Some (True, i) else pair_find_loop p name (Suc i) }
   else Some (False, i))"
  by pat_completeness auto
termination by (relation "measure (\<lambda>(p, name, i). p_used p - i)") auto

declare pair_find_loop.simps [simp del]

definition pair_find :: "pair \<Rightarrow> string \<Rightarrow> (bool \<times> nat) option" where
  "pair_find p name = pair_find_loop p name 0"

definition pair_add :: "pair \<Rightarrow> string \<Rightarrow> string \<Rightarrow> allocator \<Rightarrow> (status_t \<times> pair \<times> allocator) option" where
  "pair_add p name value a = (
     let (st, p, a) = (if p_used p = p_nelem p then pair_extend p (szt (p_nelem p * 2)) a else (success, p, a)) in
     if \<not> st then Some (failure, p, a)
     else let namelen = szt (length name + 1); valuelen = szt (length value + 1) in
       (case try_alloc namelen a of
          (False, a) \<Rightarrow> Some (failure, p, a)
        | (True, a) \<Rightarrow> (case try_alloc valuelen a of
            (False, a) \<Rightarrow> Some (failure, p, a)
          | (True, a) \<Rightarrow> do {
              v \<leftarrow> wr (fresh_bytes valuelen a) 0 (value @ [NUL]);
              els \<leftarrow> put_at (p_element p) (p_used p) (Some \<lparr>pe_name = name, pe_value = v\<rparr>);
              Some (success, p\<lparr>p_element := els, p_used := szt (p_used p + 1)\<rparr>, a) })))"

definition pair_set :: "pair \<Rightarrow> string \<Rightarrow> string \<Rightarrow> allocator \<Rightarrow> (status_t \<times> pair \<times> allocator) option" where
  "pair_set p name value a = do {
     (found, i) \<leftarrow> pair_find p name;
     if \<not> found then pair_add p name value a
     else do {
       e \<leftarrow> get_at (p_element p) i; e \<leftarrow> e;
       old \<leftarrow> cstr_at (pe_value e) 0;
       let oldlen = length old;
       let newlen = length value;
       (case (if oldlen < newlen
              then (case try_alloc (szt (newlen + 1)) a of
                      (False, a) \<Rightarrow> (None, a)
                    | (True, a) \<Rightarrow> (Some (realloc_bytes (szt (newlen + 1)) (pe_value e) a), a))
              else (Some (pe_value e), a)) of
          (None, a) \<Rightarrow> Some (failure, p, a)
        | (Some buf, a) \<Rightarrow> do {
            v \<leftarrow> wr buf 0 (value @ [NUL]);
            els \<leftarrow> put_at (p_element p) i (Some (e\<lparr>pe_value := v\<rparr>));
            Some (success, p\<lparr>p_element := els\<rparr>, a) }) } }"

definition pair_size :: "pair \<Rightarrow> size_t" where
  "pair_size p = p_used p"

text \<open>Getters return the string the pointer points to. The index check of \<open>pair_get_value_by_index\<close> is against the capacity.\<close>

definition pair_get :: "pair \<Rightarrow> string \<Rightarrow> string option option" where
  "pair_get p name = do {
     (found, i) \<leftarrow> pair_find p name;
     if \<not> found then Some None
     else do { e \<leftarrow> get_at (p_element p) i; e \<leftarrow> e; s \<leftarrow> cstr_at (pe_value e) 0; Some (Some s) } }"

definition pair_get_value_by_index :: "pair \<Rightarrow> size_t \<Rightarrow> string option" where
  "pair_get_value_by_index p i = (if i < p_nelem p
     then do { e \<leftarrow> get_at (p_element p) i; e \<leftarrow> e; cstr_at (pe_value e) 0 } else None)"

definition pair_get_name :: "pair \<Rightarrow> size_t \<Rightarrow> string option" where
  "pair_get_name p idx = (if idx < p_used p
     then do { e \<leftarrow> get_at (p_element p) idx; e \<leftarrow> e; Some (pe_name e) } else None)"

subsection \<open>The pairs a store holds\<close>

definition val_rep :: "char list \<Rightarrow> string \<Rightarrow> bool" where
  "val_rep buf v \<longleftrightarrow> c_string v \<and> length v < PTRDIFF_MAX \<and> (\<exists>rest. buf = v @ NUL # rest)"

definition elem_rep :: "pair_element option \<Rightarrow> string \<times> string \<Rightarrow> bool" where
  "elem_rep e nv \<longleftrightarrow> (case e of None \<Rightarrow> False | Some e \<Rightarrow> pe_name e = fst nv \<and> val_rep (pe_value e) (snd nv))"

definition pair_rep :: "pair \<Rightarrow> (string \<times> string) list \<Rightarrow> bool" where
  "pair_rep p nvs \<longleftrightarrow> p_used p = length nvs \<and> length nvs \<le> p_nelem p \<and> 0 < p_nelem p \<and> length (p_element p) = p_nelem p \<and>
     16 * p_nelem p \<le> PTRDIFF_MAX \<and> list_all2 elem_rep (take (length nvs) (p_element p)) nvs"

lemma pair_rep_nth:
  assumes "pair_rep p nvs" "i < length nvs"
  obtains e where "get_at (p_element p) i = Some (Some e)" "pe_name e = fst (nvs ! i)" "val_rep (pe_value e) (snd (nvs ! i))"
proof -
  have "i < length (p_element p)" using assms by (simp add: pair_rep_def)
  moreover have "elem_rep (p_element p ! i) (nvs ! i)"
    using assms list_all2_nthD2 [of elem_rep "take (length nvs) (p_element p)" nvs i] by (simp add: pair_rep_def)
  ultimately show thesis using that by (auto simp: elem_rep_def get_at_def split: option.splits)
qed

lemma val_rep_cstr: "val_rep buf v \<Longrightarrow> cstr_at buf 0 = Some v"
  by (auto simp: val_rep_def cstr_at_def takeWhile_NUL)

lemma val_rep_write:
  assumes "c_string v" "length v < PTRDIFF_MAX" "length v < length buf"
  shows "\<exists>buf'. wr buf 0 (v @ [NUL]) = Some buf' \<and> val_rep buf' v"
  using assms by (auto simp: wr_def val_rep_def)

lemma pair_find_from:
  assumes rep: "pair_rep p nvs"
  shows "i \<le> length nvs \<Longrightarrow> name \<notin> fst ` set (take i nvs) \<Longrightarrow>
    \<exists>j. pair_find_loop p name i = Some (name \<in> fst ` set nvs, j) \<and>
      (name \<in> fst ` set nvs \<longrightarrow> j < length nvs \<and> fst (nvs ! j) = name \<and> name \<notin> fst ` set (take j nvs))"
proof (induction "length nvs - i" arbitrary: i)
  case 0
  then have "\<not> i < p_used p" "take i nvs = nvs" using rep by (simp_all add: pair_rep_def)
  then show ?case using 0 by (subst pair_find_loop.simps) simp
next
  case (Suc k)
  have used: "p_used p = length nvs" using rep by (simp add: pair_rep_def)
  have True: "i < length nvs" using Suc.hyps(2) by simp
  obtain e where e: "get_at (p_element p) i = Some (Some e)" "pe_name e = fst (nvs ! i)"
    using pair_rep_nth [OF rep True] by metis
  show ?case
  proof (cases "fst (nvs ! i) = name")
    case eq: True
    then have "name \<in> fst ` set nvs" using True by auto
    then show ?thesis using True eq e used Suc.prems by (subst pair_find_loop.simps) (simp add: strcmp0_def)
  next
    case False
    then have "pair_find_loop p name i = pair_find_loop p name (Suc i)"
      using True e used by (subst pair_find_loop.simps) (simp add: strcmp0_def)
    moreover have "name \<notin> fst ` set (take (Suc i) nvs)" using Suc.prems False True by (auto simp: take_Suc_conv_app_nth)
    ultimately show ?thesis using Suc.hyps(1) [of "Suc i"] Suc.hyps(2) True by simp
  qed
qed

lemma pair_find_spec:
  assumes "pair_rep p nvs"
  obtains j where "pair_find p name = Some (name \<in> fst ` set nvs, j)"
    "name \<in> fst ` set nvs \<longrightarrow> j < length nvs \<and> fst (nvs ! j) = name \<and> name \<notin> fst ` set (take j nvs)"
  using pair_find_from [OF assms, of 0 name] unfolding pair_find_def by auto

lemma map_of_first:
  "j < length al \<Longrightarrow> k \<notin> fst ` set (take j al) \<Longrightarrow> fst (al ! j) = k \<Longrightarrow> map_of al k = Some (snd (al ! j))"
proof (induction al arbitrary: j)
  case (Cons e al)
  then show ?case by (cases j; cases e) auto
qed simp

lemma pair_get_spec: "pair_rep p nvs \<Longrightarrow> pair_get p name = Some (map_of nvs name)"
proof -
  assume rep: "pair_rep p nvs"
  obtain j where j: "pair_find p name = Some (name \<in> fst ` set nvs, j)"
    "name \<in> fst ` set nvs \<longrightarrow> j < length nvs \<and> fst (nvs ! j) = name \<and> name \<notin> fst ` set (take j nvs)"
    by (rule pair_find_spec [OF rep])
  show ?thesis
  proof (cases "name \<in> fst ` set nvs")
    case True
    then have jj: "j < length nvs" "fst (nvs ! j) = name" "name \<notin> fst ` set (take j nvs)" using j(2) by auto
    obtain e where e: "get_at (p_element p) j = Some (Some e)" "val_rep (pe_value e) (snd (nvs ! j))"
      using pair_rep_nth [OF rep jj(1)] by metis
    then show ?thesis using j(1) True map_of_first [OF jj(1,3,2)] by (simp add: pair_get_def val_rep_cstr)
  next
    case False
    then have "map_of nvs name = None" by (simp add: map_of_eq_None_iff)
    then show ?thesis using j(1) False by (simp add: pair_get_def)
  qed
qed

subsection \<open>Adding and replacing\<close>

lemma pair_extend_spec:
  assumes rep: "pair_rep p nvs" and full: "p_used p = p_nelem p" and cap: "48 * length nvs < SIZE_MOD"
  shows "\<exists>st p' a'. pair_extend p (szt (p_nelem p * 2)) a = (st, p', a') \<and> pair_rep p' nvs \<and>
    (if st then length nvs < p_nelem p' else p' = p) \<and> (decisions a = [] \<and> 48 * length nvs \<le> PTRDIFF_MAX \<longrightarrow> st \<and> a' = a)"
proof -
  let ?n = "length nvs"
  have n: "p_nelem p = ?n" "0 < ?n" "length (p_element p) = ?n" "16 * ?n \<le> PTRDIFF_MAX" "list_all2 elem_rep (p_element p) nvs"
    using rep full by (auto simp: pair_rep_def)
  have w: "szt (p_nelem p * 2) = 2 * ?n" "szt (p_nelem p + 2 * ?n) = 3 * ?n" "szt (16 * (3 * ?n)) = 48 * ?n"
    using n(1) cap by simp_all
  obtain b a' where al: "try_alloc (48 * ?n) a = (b, a')" by (cases "try_alloc (48 * ?n) a")
  have ok: "decisions a = [] \<and> 48 * ?n \<le> PTRDIFF_MAX \<longrightarrow> b \<and> a' = a" using al try_alloc_no_oom [of a "48 * ?n"] by auto
  show ?thesis
  proof (cases b)
    case True
    have le: "48 * ?n \<le> PTRDIFF_MAX" using try_alloc_le [of "48 * ?n" a a'] al True by simp
    let ?p = "p\<lparr>p_element := p_element p @ replicate (2 * ?n) None, p_nelem := 3 * ?n\<rparr>"
    have "pair_extend p (szt (p_nelem p * 2)) a = (True, ?p, a')"
      unfolding pair_extend_def w Let_def using al True n by simp
    moreover have "pair_rep ?p nvs" using n le rep by (simp add: pair_rep_def)
    ultimately show ?thesis using n ok by (intro exI [of _ True] exI [of _ ?p] exI [of _ a']) simp
  next
    case False
    have "pair_extend p (szt (p_nelem p * 2)) a = (False, p, a')"
      unfolding pair_extend_def w Let_def using al False by simp
    then show ?thesis using rep ok False by (intro exI [of _ False] exI [of _ p] exI [of _ a']) simp
  qed
qed

text \<open>That the allocations of an addition succeed.\<close>

definition pair_ample :: "nat \<Rightarrow> allocator \<Rightarrow> bool" where
  "pair_ample n a \<longleftrightarrow> decisions a = [] \<and> 48 * n \<le> PTRDIFF_MAX"

lemma pair_put:
  assumes rep: "pair_rep p nvs" and room: "length nvs < p_nelem p" and v: "val_rep buf value"
  shows "\<exists>els. put_at (p_element p) (p_used p) (Some \<lparr>pe_name = name, pe_value = buf\<rparr>) = Some els \<and>
    pair_rep (p\<lparr>p_element := els, p_used := szt (p_used p + 1)\<rparr>) (nvs @ [(name, value)])"
proof -
  let ?e = "Some \<lparr>pe_name = name, pe_value = buf\<rparr>"
  have u: "p_used p = length nvs" "length nvs < length (p_element p)" using rep room by (auto simp: pair_rep_def)
  have sz: "szt (Suc (length nvs)) = Suc (length nvs)" using rep room PTRDIFF_SIZE by (simp add: pair_rep_def)
  have "take (Suc (length nvs)) ((p_element p)[length nvs := ?e]) = take (length nvs) (p_element p) @ [?e]"
    using u by (simp add: take_Suc_conv_app_nth)
  moreover have "list_all2 elem_rep (take (length nvs) (p_element p) @ [?e]) (nvs @ [(name, value)])"
    using rep v by (auto simp: pair_rep_def elem_rep_def intro: list_all2_appendI)
  ultimately show ?thesis using u rep room by (simp add: put_at_def pair_rep_def sz)
qed

lemma pair_add_spec:
  assumes rep: "pair_rep p nvs" and cap: "48 * length nvs < SIZE_MOD" and s: "length name < PTRDIFF_MAX" "c_string value" "length value < PTRDIFF_MAX"
  shows "\<exists>st p' a'. pair_add p name value a = Some (st, p', a') \<and>
    pair_rep p' (if st then nvs @ [(name, value)] else nvs) \<and> (pair_ample (length nvs) a \<longrightarrow> st \<and> a' = a)"
proof -
  let ?r = "if p_used p = p_nelem p then pair_extend p (szt (p_nelem p * 2)) a else (success, p, a)"
  obtain st p1 a1 where r: "?r = (st, p1, a1)" "pair_rep p1 nvs" "st \<longrightarrow> length nvs < p_nelem p1"
      "pair_ample (length nvs) a \<longrightarrow> st \<and> a1 = a"
  proof (cases "p_used p = p_nelem p")
    case True
    then show ?thesis using pair_extend_spec [OF rep True cap, of a] that by (auto simp: pair_ample_def split: if_splits)
  next
    case False
    then show ?thesis using rep that [of True p a] by (auto simp: pair_rep_def)
  qed
  have sz: "szt (length name + 1) = length name + 1" "szt (length value + 1) = length value + 1"
    using s PTRDIFF_SIZE by simp_all
  show ?thesis
  proof (cases st)
    case False
    have "pair_add p name value a = Some (False, p1, a1)"
      unfolding pair_add_def r(1) using False by simp
    then show ?thesis using r False by (intro exI [of _ False] exI [of _ p1] exI [of _ a1]) simp
  next
    case True
    obtain b2 a2 where al2: "try_alloc (length name + 1) a1 = (b2, a2)" by (cases "try_alloc (length name + 1) a1")
    obtain b3 a3 where al3: "try_alloc (length value + 1) a2 = (b3, a3)" by (cases "try_alloc (length value + 1) a2")
    have ok: "pair_ample (length nvs) a \<longrightarrow> b2 \<and> b3 \<and> a3 = a"
      using r(4) al2 al3 s try_alloc_no_oom [of a1 "length name + 1"] try_alloc_no_oom [of a2 "length value + 1"]
      by (auto simp: pair_ample_def)
    obtain buf where buf: "wr (fresh_bytes (length value + 1) a3) 0 (value @ [NUL]) = Some buf" "val_rep buf value"
      using val_rep_write [OF s(2,3), of "fresh_bytes (length value + 1) a3"] by auto
    obtain els where els: "put_at (p_element p1) (p_used p1) (Some \<lparr>pe_name = name, pe_value = buf\<rparr>) = Some els"
        "pair_rep (p1\<lparr>p_element := els, p_used := szt (p_used p1 + 1)\<rparr>) (nvs @ [(name, value)])"
      using pair_put [OF r(2) _ buf(2), of name] r(3) True by auto
    have "pair_add p name value a = (if b2 \<and> b3 then Some (True, p1\<lparr>p_element := els, p_used := szt (p_used p1 + 1)\<rparr>, a3)
        else Some (False, p1, if b2 then a3 else a2))"
      unfolding pair_add_def r(1) prod.case sz Let_def using True al2 al3 buf(1) els(1) by (cases b2; cases b3) simp_all
    then show ?thesis using els(2) r(2) ok by (cases "b2 \<and> b3") auto
  qed
qed

lemma pair_replace:
  assumes rep: "pair_rep p nvs" and i: "i < length nvs" and v: "val_rep buf value" and e: "pe_name e = fst (nvs ! i)"
  shows "\<exists>els. put_at (p_element p) i (Some (e\<lparr>pe_value := buf\<rparr>)) = Some els \<and>
    pair_rep (p\<lparr>p_element := els\<rparr>) (nvs[i := (fst (nvs ! i), value)])"
proof -
  have "i < length (p_element p)" using rep i by (simp add: pair_rep_def)
  moreover have "list_all2 elem_rep ((take (length nvs) (p_element p))[i := Some (e\<lparr>pe_value := buf\<rparr>)]) (nvs[i := (fst (nvs ! i), value)])"
    using rep v e by (intro list_all2_update_cong) (auto simp: pair_rep_def elem_rep_def)
  ultimately show ?thesis using rep by (simp add: put_at_def pair_rep_def take_update_swap)
qed

lemma pair_set_spec:
  assumes rep: "pair_rep p nvs" and cap: "48 * length nvs < SIZE_MOD"
    and s: "length name < PTRDIFF_MAX" "c_string value" "length value < PTRDIFF_MAX"
  shows "\<exists>st p' a' nvs'. pair_set p name value a = Some (st, p', a') \<and> pair_rep p' nvs' \<and> (pair_ample (length nvs) a \<longrightarrow> st \<and> a' = a) \<and>
    (if \<not> st then nvs' = nvs
     else if name \<in> fst ` set nvs then \<exists>i < length nvs. fst (nvs ! i) = name \<and> name \<notin> fst ` set (take i nvs) \<and> nvs' = nvs[i := (name, value)]
     else nvs' = nvs @ [(name, value)])"
proof -
  obtain i where f: "pair_find p name = Some (name \<in> fst ` set nvs, i)"
    "name \<in> fst ` set nvs \<longrightarrow> i < length nvs \<and> fst (nvs ! i) = name \<and> name \<notin> fst ` set (take i nvs)"
    by (rule pair_find_spec [OF rep])
  show ?thesis
  proof (cases "name \<in> fst ` set nvs")
    case False
    then have "pair_set p name value a = pair_add p name value a" using f(1) by (simp add: pair_set_def)
    moreover obtain st p' a' where "pair_add p name value a = Some (st, p', a')"
        "pair_rep p' (if st then nvs @ [(name, value)] else nvs)" "pair_ample (length nvs) a \<longrightarrow> st \<and> a' = a"
      using pair_add_spec [OF rep cap s, of a] by blast
    ultimately show ?thesis using False
      by (intro exI [of _ st] exI [of _ p'] exI [of _ a'] exI [of _ "if st then nvs @ [(name, value)] else nvs"]) simp
  next
    case True
    then have i: "i < length nvs" "fst (nvs ! i) = name" "name \<notin> fst ` set (take i nvs)" using f(2) by auto
    obtain e where e: "get_at (p_element p) i = Some (Some e)" "pe_name e = fst (nvs ! i)" "val_rep (pe_value e) (snd (nvs ! i))"
      using pair_rep_nth [OF rep i(1)] by metis
    let ?old = "snd (nvs ! i)"
    have sz: "szt (length value + 1) = length value + 1" using s PTRDIFF_SIZE by simp
    let ?r = "if length ?old < length value
              then (case try_alloc (length value + 1) a of
                      (False, a) \<Rightarrow> (None, a)
                    | (True, a) \<Rightarrow> (Some (realloc_bytes (length value + 1) (pe_value e) a), a))
              else (Some (pe_value e), a)"
    obtain r a' where r: "?r = (r, a')" by (cases ?r)
    have len: "\<forall>buf. r = Some buf \<longrightarrow> length value < length buf"
      using r e(3) by (auto simp: val_rep_def split: if_splits prod.splits bool.splits)
    have ok: "pair_ample (length nvs) a \<longrightarrow> r \<noteq> None \<and> a' = a"
      using r s try_alloc_no_oom [of a "length value + 1"] by (auto simp: pair_ample_def split: if_splits)
    have set: "pair_set p name value a = (case r of None \<Rightarrow> Some (failure, p, a')
        | Some buf \<Rightarrow> do { v \<leftarrow> wr buf 0 (value @ [NUL]); els \<leftarrow> put_at (p_element p) i (Some (e\<lparr>pe_value := v\<rparr>));
            Some (success, p\<lparr>p_element := els\<rparr>, a') })"
      unfolding pair_set_def f(1) bind.bind_lunit prod.case Let_def e(1) val_rep_cstr [OF e(3)] sz r using True by simp
    show ?thesis
    proof (cases r)
      case None
      then show ?thesis using set rep ok by (intro exI [of _ False] exI [of _ p] exI [of _ a'] exI [of _ nvs]) simp
    next
      case (Some buf)
      obtain v where v: "wr buf 0 (value @ [NUL]) = Some v" "val_rep v value"
        using val_rep_write [OF s(2,3), of buf] len Some by auto
      obtain els where els: "put_at (p_element p) i (Some (e\<lparr>pe_value := v\<rparr>)) = Some els"
          "pair_rep (p\<lparr>p_element := els\<rparr>) (nvs[i := (fst (nvs ! i), value)])"
        using pair_replace [OF rep i(1) v(2) e(2)] by blast
      have "pair_set p name value a = Some (True, p\<lparr>p_element := els\<rparr>, a')" using set Some v(1) els(1) by simp
      then show ?thesis using els(2) i True ok
        by (intro exI [of _ True] exI [of _ "p\<lparr>p_element := els\<rparr>"] exI [of _ a'] exI [of _ "nvs[i := (name, value)]"]) auto
    qed
  qed
qed

subsection \<open>A map from names to values\<close>

text \<open>Stores filled by \<open>pair_set\<close> only have one entry per name; they are maps.\<close>

definition pair_map :: "pair \<Rightarrow> (string \<rightharpoonup> string) \<Rightarrow> bool" where
  "pair_map p m \<longleftrightarrow> (\<exists>nvs. pair_rep p nvs \<and> distinct (map fst nvs) \<and> m = map_of nvs)"

lemma card_map_of: "distinct (map fst nvs) \<Longrightarrow> card (dom (map_of nvs)) = length nvs"
  by (simp add: dom_map_of_conv_image_fst) (metis distinct_card length_map set_map)

lemma pair_set_map:
  assumes "pair_map p m" "card (dom m) < SIZE_MOD div 48" "length name < PTRDIFF_MAX" "c_string value" "length value < PTRDIFF_MAX"
  shows "\<exists>st p' a'. pair_set p name value a = Some (st, p', a') \<and> pair_map p' (if st then m(name \<mapsto> value) else m) \<and>
    (pair_ample (card (dom m)) a \<longrightarrow> st \<and> a' = a)"
proof -
  obtain nvs where n: "pair_rep p nvs" "distinct (map fst nvs)" "m = map_of nvs" using assms(1) by (auto simp: pair_map_def)
  have c: "card (dom m) = length nvs" using card_map_of n by simp
  then have cap: "48 * length nvs < SIZE_MOD" using assms(2) by (simp add: SIZE_MOD_def)
  obtain st p' a' nvs' where s: "pair_set p name value a = Some (st, p', a')" "pair_rep p' nvs'" "pair_ample (length nvs) a \<longrightarrow> st \<and> a' = a"
      "if \<not> st then nvs' = nvs
       else if name \<in> fst ` set nvs then \<exists>i < length nvs. fst (nvs ! i) = name \<and> name \<notin> fst ` set (take i nvs) \<and> nvs' = nvs[i := (name, value)]
       else nvs' = nvs @ [(name, value)]"
    using pair_set_spec [OF n(1) cap assms(3-5), of a] by blast
  have "map_of nvs' = (if st then m(name \<mapsto> value) else m) \<and> distinct (map fst nvs')"
  proof (cases "st \<and> name \<in> fst ` set nvs")
    case True
    then obtain i where i: "i < length nvs" "fst (nvs ! i) = name" "nvs' = nvs[i := (name, value)]" using s(4) by auto
    have "map fst nvs' = (map fst nvs)[i := name]" using i(3) by (simp add: map_update)
    also have "\<dots> = map fst nvs" using i(1,2) by (metis list_update_id nth_map)
    finally show ?thesis using map_of_update_nth [OF n(2) i(1,2), of "value"] i(3) n(2,3) True by simp
  next
    case False
    then show ?thesis using s(4) n(2,3) map_of_snoc [of name nvs "value"] by (cases st) auto
  qed
  then have "pair_map p' (if st then m(name \<mapsto> value) else m)"
    unfolding pair_map_def using s(2) by (intro exI [of _ nvs']) metis
  then show ?thesis using s(1,3) unfolding c by (intro exI [of _ st] exI [of _ p'] exI [of _ a'] conjI)
qed

interpretation pm: string_map pair_map pair_set pair_get "\<lambda>v. c_string v \<and> length v < PTRDIFF_MAX" "SIZE_MOD div 48"
proof unfold_locales
  fix p m and k :: string and v a
  assume "pair_map p m" "card (dom m) < SIZE_MOD div 48" "length k < PTRDIFF_MAX" "c_string v \<and> length v < PTRDIFF_MAX"
  then show "\<exists>st p' a'. pair_set p k v a = Some (st, p', a') \<and> pair_map p' (if st then m(k \<mapsto> v) else m)"
    using pair_set_map [of p m k v a] by blast
next
  fix p m and k :: string assume "pair_map p m"
  then show "pair_get p k = Some (m k)" using pair_get_spec by (auto simp: pair_map_def)
qed

text \<open>A concrete store for the witnesses.\<close>

definition sample_pair :: pair where
  "sample_pair = \<lparr>p_element = [Some \<lparr>pe_name = ''a'', pe_value = ''long'' @ [NUL]\<rparr>, None], p_nelem = 2, p_used = 1\<rparr>"

lemma sample_pair_rep: "pair_rep sample_pair [(''a'', ''long'')]"
  by (simp add: sample_pair_def pair_rep_def elem_rep_def val_rep_def PTRDIFF_MAX_def)

text \<open>
  The store keeps its pairs in order and within its memory. \<open>pair_add\<close> appends a pair even when the name is already
  there; \<open>pair_set\<close> replaces the value of the first pair with the name, in place or in a larger
  block, or else adds one; \<open>pair_get\<close> returns the value of the first pair with the name. For every
  pattern of allocation failures nothing outside the blocks is touched, a failed call leaves the pairs as they
  were, and with enough memory none fails. (The bound keeps the size of the tripled array from wrapping.)
\<close>
theorem pair_correct:
  assumes "pair_rep p nvs" "48 * length nvs < SIZE_MOD" "length name < PTRDIFF_MAX" "c_string value" "length value < PTRDIFF_MAX"
  shows "(\<exists>st p' a'. pair_add p name value a = Some (st, p', a') \<and>
      pair_rep p' (if st then nvs @ [(name, value)] else nvs) \<and> (pair_ample (length nvs) a \<longrightarrow> st)) \<and>
    (\<exists>st p' a' nvs'. pair_set p name value a = Some (st, p', a') \<and> pair_rep p' nvs' \<and> (pair_ample (length nvs) a \<longrightarrow> st) \<and>
      (if \<not> st then nvs' = nvs
       else if name \<in> fst ` set nvs then \<exists>i < length nvs. fst (nvs ! i) = name \<and> name \<notin> fst ` set (take i nvs) \<and> nvs' = nvs[i := (name, value)]
       else nvs' = nvs @ [(name, value)])) \<and>
    pair_get p name = Some (map_of nvs name) \<and> pair_size p = length nvs"
proof (intro conjI)
  show "\<exists>st p' a'. pair_add p name value a = Some (st, p', a') \<and>
      pair_rep p' (if st then nvs @ [(name, value)] else nvs) \<and> (pair_ample (length nvs) a \<longrightarrow> st)"
    using pair_add_spec [OF assms, of a] by blast
  show "\<exists>st p' a' nvs'. pair_set p name value a = Some (st, p', a') \<and> pair_rep p' nvs' \<and> (pair_ample (length nvs) a \<longrightarrow> st) \<and>
      (if \<not> st then nvs' = nvs
       else if name \<in> fst ` set nvs then \<exists>i < length nvs. fst (nvs ! i) = name \<and> name \<notin> fst ` set (take i nvs) \<and> nvs' = nvs[i := (name, value)]
       else nvs' = nvs @ [(name, value)])"
    using pair_set_spec [OF assms, of a] by blast
qed (use pair_get_spec [OF assms(1)] assms(1) in \<open>simp_all add: pair_size_def pair_rep_def\<close>)

theorem pair_correct_witness:
  "pair_rep sample_pair [(''a'', ''long'')] \<and> pair_get sample_pair ''a'' = Some (Some ''long'') \<and>
   (\<exists>st p' a'. pair_add sample_pair ''a'' ''s'' no_oom = Some (st, p', a') \<and>
      pair_rep p' (if st then [(''a'', ''long'')] @ [(''a'', ''s'')] else [(''a'', ''long'')]) \<and>
      (pair_ample (length [(''a'', ''long'')]) no_oom \<longrightarrow> st))"
proof -
  have h: "pair_rep sample_pair [(''a'', ''long'')]" "48 * length [(''a'', ''long'')] < SIZE_MOD"
      "length ''a'' < PTRDIFF_MAX" "c_string ''s''" "length ''s'' < PTRDIFF_MAX"
    by (rule sample_pair_rep) (simp_all add: SIZE_MOD_def PTRDIFF_MAX_def c_string_def)
  have "map_of [(''a'', ''long'')] ''a'' = Some ''long''" by simp
  then show ?thesis using h(1) pair_correct [OF h, of no_oom] by metis
qed

text \<open>
  Reading back. A store filled by \<open>pair_set\<close> alone is a map from names to values: after setting any sequence of pairs
  without a failure, \<open>pair_get\<close> returns for every name the value set last, the value it had before if the name was not set, and NULL for
  a name never stored.
\<close>
theorem pair_set_get:
  assumes "pair_map p m" "finite (dom m)" "card (dom m) + length kvs \<le> SIZE_MOD div 48"
    "\<forall>kv \<in> set kvs. c_string (fst kv) \<and> length (fst kv) < PTRDIFF_MAX \<and> c_string (snd kv) \<and> length (snd kv) < PTRDIFF_MAX"
  shows "\<exists>st p' a'. pm.set_all p kvs a = Some (st, p', a') \<and>
    (st \<longrightarrow> (\<forall>k. c_string k \<longrightarrow> pair_get p' k = Some ((m ++ map_of (rev kvs)) k)))"
  by (rule pm.set_all_get [OF assms(1-3)]) (use assms(4) in simp)

theorem pair_set_get_witness:
  "pair_map sample_pair [''a'' \<mapsto> ''long''] \<and>
   (\<exists>st p' a'. pm.set_all sample_pair [(''a'', ''xx''), (''b'', ''1''), (''b'', ''22'')] no_oom = Some (st, p', a') \<and>
     (st \<longrightarrow> (\<forall>k. c_string k \<longrightarrow> pair_get p' k = Some (([''a'' \<mapsto> ''long''] ++ map_of (rev [(''a'', ''xx''), (''b'', ''1''), (''b'', ''22'')])) k))))"
proof -
  let ?kvs = "[(''a'', ''xx''), (''b'', ''1''), (''b'', ''22'')]"
  have m: "pair_map sample_pair [''a'' \<mapsto> ''long'']"
    unfolding pair_map_def using sample_pair_rep by (intro exI [of _ "[(''a'', ''long'')]"]) simp
  have h: "finite (dom [''a'' \<mapsto> ''long''])" "card (dom [''a'' \<mapsto> ''long'']) + length ?kvs \<le> SIZE_MOD div 48"
    "\<forall>kv \<in> set ?kvs. c_string (fst kv) \<and> length (fst kv) < PTRDIFF_MAX \<and> c_string (snd kv) \<and> length (snd kv) < PTRDIFF_MAX"
    by (simp_all add: SIZE_MOD_def PTRDIFF_MAX_def)
  show ?thesis using m pair_set_get [OF m h, of no_oom] by blast
qed

end
