(* ===== verification/MetaMap.thy ===== *)
theory MetaMap
  imports Metalist String_Map
begin

section \<open>Maps as lists of pairs\<close>

text \<open>
  The map of \<open>src/meta/src/meta_map.c\<close>: a list of pairs of a key and a value, looked up by \<open>strcmp\<close>.
  Each pair belongs to one node, so the pair is the item of the node, and changing its value in place is
  a write to that node's data. The values a call to the map's free function receives are
  returned as a list.
\<close>

subsection \<open>Operations\<close>

record 'v mmap =
  map_lst :: "(string \<times> 'v) mlist"
  freefunc :: bool

definition map_new :: "bool \<Rightarrow> allocator \<Rightarrow> 'v mmap option \<times> allocator" where
  "map_new ff a = (case try_alloc 16 a of
     (False, a) \<Rightarrow> (None, a)
   | (True, a) \<Rightarrow> (case list_new a of
       (None, a) \<Rightarrow> (None, a)
     | (Some l, a) \<Rightarrow> (Some \<lparr>map_lst = l, freefunc = ff\<rparr>, a)))"

definition map_first :: "'v mmap \<Rightarrow> list_iterator option" where
  "map_first this = list_first (map_lst this)"

definition map_next :: "'v mmap \<Rightarrow> list_iterator \<Rightarrow> list_iterator option" where
  "map_next this mi = list_next (map_lst this) mi"

definition map_end :: "list_iterator \<Rightarrow> bool" where
  "map_end mi = list_end mi"

definition map_key :: "'v mmap \<Rightarrow> list_iterator \<Rightarrow> string option" where
  "map_key this mi = map_option fst (list_get (map_lst this) mi)"

definition map_value :: "'v mmap \<Rightarrow> list_iterator \<Rightarrow> 'v option" where
  "map_value this mi = map_option snd (list_get (map_lst this) mi)"

text \<open>The pair found, with its node.\<close>

definition map_find :: "'v mmap \<Rightarrow> string \<Rightarrow> ((string \<times> 'v) \<times> list_iterator) option option" where
  "map_find this key = do {
     i \<leftarrow> list_first (map_lst this);
     for_iter (map_lst this) (\<lambda>p i r. Some (if strcmp0 key (fst p) then (False, Some (p, i)) else (True, r))) i None }"

text \<open>The last result is the list of the values given to the free function.\<close>

definition map_set :: "'v mmap \<Rightarrow> string \<Rightarrow> 'v \<Rightarrow> allocator \<Rightarrow> (status_t \<times> 'v mmap \<times> allocator \<times> 'v list) option" where
  "map_set this key value a = do {
     r \<leftarrow> map_find this key;
     (case r of
        Some (entry, i) \<Rightarrow> do {
          p \<leftarrow> i;
          l \<leftarrow> set_data (map_lst this) p (DItem (fst entry, value));
          Some (success, this\<lparr>map_lst := l\<rparr>, a, if freefunc this then [snd entry] else []) }
      | None \<Rightarrow> (case try_alloc 16 a of
          (False, a) \<Rightarrow> Some (failure, this, a, [])
        | (True, a) \<Rightarrow> (case try_alloc (szt (length key + 1)) a of
            (False, a) \<Rightarrow> Some (failure, this, a, [])
          | (True, a) \<Rightarrow> do {
              (ok, lst, a) \<leftarrow> list_add (Some (map_lst this)) (key, value) a;
              l \<leftarrow> lst;
              Some (if ok then success else failure, this\<lparr>map_lst := l\<rparr>, a, []) }))) }"

definition map_exists :: "'v mmap \<Rightarrow> string \<Rightarrow> bool option" where
  "map_exists this key = do { r \<leftarrow> map_find this key; Some (r \<noteq> None) }"

definition map_get :: "'v mmap \<Rightarrow> string \<Rightarrow> 'v option option" where
  "map_get this key = do { r \<leftarrow> map_find this key; Some (map_option (\<lambda>(p, i). snd p) r) }"

definition map_foreach :: "'v mmap \<Rightarrow> 's \<Rightarrow> ('s \<Rightarrow> string \<Rightarrow> 'v \<Rightarrow> bool \<times> 's) \<Rightarrow> (bool \<times> 's) option" where
  "map_foreach this args f = do {
     i \<leftarrow> list_first (map_lst this);
     for_iter (map_lst this) (\<lambda>p i (_, s). let (ok, s) = f s (fst p) (snd p) in Some (ok, (ok, s))) i (True, args) }"

text \<open>The keys freed, the values given to the free function, and what is left of the list's region.\<close>

definition map_free :: "'v mmap \<Rightarrow> (string list \<times> 'v list \<times> (string \<times> 'v) mlist) option" where
  "map_free this = do {
     i \<leftarrow> list_first (map_lst this);
     (ks, vs) \<leftarrow> for_iter (map_lst this)
        (\<lambda>p i (ks, vs). Some (True, (ks @ [fst p], if freefunc this then vs @ [snd p] else vs))) i ([], []);
     (_, l) \<leftarrow> list_free (map_lst this);
     Some (ks, vs, l) }"

subsection \<open>Correctness\<close>

definition map_rep :: "'v mmap \<Rightarrow> (string \<times> 'v) list \<Rightarrow> bool" where
  "map_rep this kvs \<longleftrightarrow> lrep (map_lst this) kvs \<and> distinct (map fst kvs)"

lemma map_find_spec:
  assumes "lrep (map_lst this) kvs"
  shows "\<exists>j. map_find this key = Some (map_option (\<lambda>p. (p, j)) (find (\<lambda>p. fst p = key) kvs)) \<and>
    (find (\<lambda>p. fst p = key) kvs \<noteq> None \<longrightarrow>
       lcur (map_lst this) (takeWhile (\<lambda>p. fst p \<noteq> key) kvs) j (dropWhile (\<lambda>p. fst p \<noteq> key) kvs))"
proof -
  obtain i where i: "list_first (map_lst this) = Some i" "lcur (map_lst this) [] i kvs"
    using list_first_spec(1) [OF assms] by blast
  have "\<exists>j. for_iter (map_lst this) (\<lambda>p i r. Some (if strcmp0 key (fst p) then (False, Some (p, i)) else (True, r))) i None =
      Some (map_option (\<lambda>x. (x, j)) (find (\<lambda>p. fst p = key) kvs)) \<and>
      (find (\<lambda>p. fst p = key) kvs \<noteq> None \<longrightarrow>
         lcur (map_lst this) ([] @ takeWhile (\<lambda>p. \<not> fst p = key) kvs) j (dropWhile (\<lambda>p. \<not> fst p = key) kvs))"
    by (rule for_iter_find [OF _ i(2)]) (auto simp: strcmp0_def)
  then show ?thesis using i(1) by (simp add: map_find_def)
qed

lemma find_map_of: "map_of kvs k = map_option snd (find (\<lambda>p. fst p = k) kvs)"
  by (induction kvs) auto

lemma map_get_spec: "map_rep this kvs \<Longrightarrow> map_get this k = Some (map_of kvs k) \<and> map_exists this k = Some (map_of kvs k \<noteq> None)"
  using map_find_spec [of this kvs k] by (auto simp: map_rep_def map_get_def map_exists_def find_map_of option.map_comp comp_def)

lemma set_data_cur:
  assumes "lcur l xs i (y # ys)"
  shows "\<exists>p l'. i = Some p \<and> set_data l p (DItem z) = Some l' \<and> lrep l' (xs @ z # ys)"
proof -
  from assms obtain d axs p bxs where c: "lchain l d (axs @ (p, y) # bxs)" "cache_ok d (axs @ (p, y) # bxs)"
    "map snd axs = xs" "map snd bxs = ys" "i = Some p" by (rule lcurE)
  obtain l' where l': "set_data l p (DItem z) = Some l'" "lchain l' d (axs @ (p, z) # bxs)"
    using set_data_chain [OF c(1)] by blast
  have "cache_ok d (axs @ (p, z) # bxs)" by (rule cache_ok_addrs [OF _ c(2)]) simp
  then have "lrep l' (xs @ z # ys)" unfolding lrep_def using l'(2) c(3,4)
    by (intro exI [of _ d] exI [of _ "axs @ (p, z) # bxs"]) simp
  then show ?thesis using l'(1) c(5) by simp
qed

text \<open>The update of an association list: in place where the key is, else at the end.\<close>

definition assoc_set :: "(string \<times> 'v) list \<Rightarrow> string \<Rightarrow> 'v \<Rightarrow> (string \<times> 'v) list" where
  "assoc_set kvs k v = (if k \<in> fst ` set kvs then map (\<lambda>p. if fst p = k then (k, v) else p) kvs else kvs @ [(k, v)])"

lemma map_of_assoc_set: "map_of (assoc_set kvs k v) = (map_of kvs)(k \<mapsto> v)"
proof (cases "k \<in> fst ` set kvs")
  case True
  let ?g = "\<lambda>p. if fst p = k then (k, v) else p"
  have "map_of (map ?g kvs) q = map_of kvs q" if "q \<noteq> k" for q
    using that by (induction kvs) auto
  moreover have "map_of (map ?g kvs) k = Some v" using True
  proof (induction kvs)
    case (Cons p kvs)
    then show ?case by (cases p; cases "fst p = k") simp_all
  qed simp
  ultimately have "map_of (map ?g kvs) q = ((map_of kvs)(k \<mapsto> v)) q" for q by simp
  then show ?thesis using True by (auto simp: assoc_set_def)
next
  case False
  then show ?thesis by (simp only: assoc_set_def if_False map_of_snoc [OF False])
qed

lemma fst_assoc_set: "map fst (assoc_set kvs k v) = (if k \<in> fst ` set kvs then map fst kvs else map fst kvs @ [k])"
  by (auto simp: assoc_set_def)

lemma assoc_set_split:
  assumes "distinct (map fst kvs)" "find (\<lambda>p. fst p = k) kvs = Some e"
  shows "fst e = k \<and> dropWhile (\<lambda>p. fst p \<noteq> k) kvs = e # tl (dropWhile (\<lambda>p. fst p \<noteq> k) kvs) \<and>
    takeWhile (\<lambda>p. fst p \<noteq> k) kvs @ (k, v) # tl (dropWhile (\<lambda>p. fst p \<noteq> k) kvs) = assoc_set kvs k v"
  using assms
proof (induction kvs)
  case (Cons p kvs)
  show ?case
  proof (cases "fst p = k")
    case True
    then have "k \<notin> fst ` set kvs" using Cons.prems by auto
    then have "\<forall>p \<in> set kvs. fst p \<noteq> k" by force
    then have "map (\<lambda>p. if fst p = k then (k, v) else p) kvs = kvs" by (simp add: map_idI)
    then show ?thesis using True Cons.prems by (auto simp: assoc_set_def)
  next
    case False
    then have "find (\<lambda>p. fst p = k) kvs = Some e" using Cons.prems by simp
    moreover from this have "k \<in> fst ` set kvs" by (auto simp: find_Some_iff)
    ultimately show ?thesis using Cons False by (auto simp: assoc_set_def)
  qed
qed simp

lemma map_set_spec:
  assumes rep: "map_rep this kvs" and k: "length key < PTRDIFF_MAX"
  shows "\<exists>st this' a' dead. map_set this key value a = Some (st, this', a', dead) \<and> freefunc this' = freefunc this \<and>
    map_rep this' (if st then assoc_set kvs key value else kvs) \<and>
    dead = (case map_of kvs key of Some v \<Rightarrow> if freefunc this then [v] else [] | None \<Rightarrow> []) \<and> (decisions a = [] \<longrightarrow> st)"
proof -
  have l: "lrep (map_lst this) kvs" and d: "distinct (map fst kvs)" using rep by (auto simp: map_rep_def)
  obtain j where f: "map_find this key = Some (map_option (\<lambda>p. (p, j)) (find (\<lambda>p. fst p = key) kvs))"
      "find (\<lambda>p. fst p = key) kvs \<noteq> None \<longrightarrow>
       lcur (map_lst this) (takeWhile (\<lambda>p. fst p \<noteq> key) kvs) j (dropWhile (\<lambda>p. fst p \<noteq> key) kvs)"
    using map_find_spec [OF l] by blast
  have dist: "distinct (map fst (assoc_set kvs key value))" using d by (simp add: fst_assoc_set)
  show ?thesis
  proof (cases "find (\<lambda>p. fst p = key) kvs")
    case (Some e)
    note s = assoc_set_split [OF d Some, of "value"]
    then have dw: "dropWhile (\<lambda>p. fst p \<noteq> key) kvs = e # tl (dropWhile (\<lambda>p. fst p \<noteq> key) kvs)" by blast
    have "lcur (map_lst this) (takeWhile (\<lambda>p. fst p \<noteq> key) kvs) j (e # tl (dropWhile (\<lambda>p. fst p \<noteq> key) kvs))"
      using f(2) Some by (subst dw [symmetric]) blast
    from set_data_cur [OF this, of "(key, value)"] s obtain p l' where "j = Some p"
        "set_data (map_lst this) p (DItem (key, value)) = Some l'" "lrep l' (assoc_set kvs key value)" by auto
    then show ?thesis using f(1) Some s dist
      by (intro exI [of _ True] exI [of _ "this\<lparr>map_lst := l'\<rparr>"] exI [of _ a]) (simp add: map_set_def map_rep_def find_map_of)
  next
    case None
    then have nk: "key \<notin> fst ` set kvs" by (auto simp: find_None_iff)
    have sz: "szt (length key + 1) = length key + 1" using k PTRDIFF_SIZE by simp
    obtain b1 a1 where al1: "try_alloc 16 a = (b1, a1)" by (cases "try_alloc 16 a")
    obtain b2 a2 where al2: "try_alloc (length key + 1) a1 = (b2, a2)" by (cases "try_alloc (length key + 1) a1")
    obtain ok l' a3 where add: "list_add_to (map_lst this) (key, value) a2 = Some (ok, l', a3)"
        "lrep l' (if ok then kvs @ [(key, value)] else kvs)" "decisions a2 = [] \<longrightarrow> ok \<and> a3 = a2"
      using list_add_to_spec [OF l, of "(key, value)" a2] by blast
    have okm: "decisions a = [] \<longrightarrow> b1 \<and> b2 \<and> ok"
      using al1 al2 add(3) k try_alloc_no_oom [of a 16] try_alloc_no_oom [of a1 "length key + 1"] by (auto simp: PTRDIFF_MAX_def)
    have set: "map_set this key value a = Some (b1 \<and> b2 \<and> ok, if b1 \<and> b2 then this\<lparr>map_lst := l'\<rparr> else this,
        if \<not> b1 then a1 else if \<not> b2 then a2 else a3, [])"
      unfolding map_set_def f(1) sz using None al1 al2 add(1) by (cases b1; cases b2) (simp_all add: list_add_def)
    have "map_rep (if b1 \<and> b2 then this\<lparr>map_lst := l'\<rparr> else this) (if b1 \<and> b2 \<and> ok then assoc_set kvs key value else kvs)"
      using rep add(2) nk d by (auto simp: map_rep_def assoc_set_def)
    then show ?thesis using set okm None by (auto simp: find_map_of)
  qed
qed

text \<open>The map as the interface of string maps, which does not show the values freed.\<close>

definition map_holds :: "'v mmap \<Rightarrow> (string \<rightharpoonup> 'v) \<Rightarrow> bool" where
  "map_holds this m \<longleftrightarrow> (\<exists>kvs. map_rep this kvs \<and> m = map_of kvs)"

definition map_put :: "'v mmap \<Rightarrow> string \<Rightarrow> 'v \<Rightarrow> allocator \<Rightarrow> (status_t \<times> 'v mmap \<times> allocator) option" where
  "map_put this key value a = map_option (\<lambda>(st, this, a, dead). (st, this, a)) (map_set this key value a)"

interpretation mm: string_map map_holds map_put map_get "\<lambda>_. True" n for n
proof unfold_locales
  fix this :: "'v mmap" and m and k :: string and v a
  assume "map_holds this m" and k: "length k < PTRDIFF_MAX"
  then obtain kvs where r: "map_rep this kvs" "m = map_of kvs" by (auto simp: map_holds_def)
  obtain st this' a' dead where s: "map_set this k v a = Some (st, this', a', dead)"
      "map_rep this' (if st then assoc_set kvs k v else kvs)" using map_set_spec [OF r(1) k, of v a] by blast
  have "map_holds this' (if st then m(k \<mapsto> v) else m)" unfolding map_holds_def
    by (rule exI [of _ "if st then assoc_set kvs k v else kvs"]) (use s(2) r(2) in \<open>cases st; simp add: map_of_assoc_set\<close>)
  then show "\<exists>st this' a'. map_put this k v a = Some (st, this', a') \<and> map_holds this' (if st then m(k \<mapsto> v) else m)"
    using s(1) by (intro exI [of _ st] exI [of _ this'] exI [of _ a']) (simp add: map_put_def)
next
  fix this :: "'v mmap" and m and k :: string assume "map_holds this m"
  then show "map_get this k = Some (m k)" using map_get_spec by (auto simp: map_holds_def)
qed

lemma map_free_spec:
  assumes "map_rep this kvs"
  shows "\<exists>l. map_free this = Some (map fst kvs, if freefunc this then map snd kvs else [], l) \<and> cells l = Map.empty"
proof -
  have l: "lrep (map_lst this) kvs" using assms by (simp add: map_rep_def)
  obtain i where i: "list_first (map_lst this) = Some i" "lcur (map_lst this) [] i kvs"
    using list_first_spec(1) [OF l] by blast
  let ?g = "\<lambda>p (ks, vs). Some (True, (ks @ [fst p], if freefunc this then vs @ [snd p] else vs))"
  have "for_iter (map_lst this) (\<lambda>p i. ?g p) i ([], []) = fold_stop ?g kvs ([], [])"
    by (rule lw.loop_fold [OF _ lrep_weak(2) [OF i(2)]]) simp
  moreover have "fold_stop ?g kvs (ks, vs) = Some (ks @ map fst kvs, if freefunc this then vs @ map snd kvs else vs)" for ks vs
    by (induction kvs arbitrary: ks vs) auto
  ultimately show ?thesis using i(1) list_free_spec [OF lrep_weak(1) [OF l]] by (auto simp: map_free_def)
qed

lemma map_foreach_spec:
  assumes "map_rep this kvs"
  shows "map_foreach this args f = Some (run_each (\<lambda>s p. f s (fst p) (snd p)) kvs args)"
proof -
  have l: "lrep (map_lst this) kvs" using assms by (simp add: map_rep_def)
  obtain i where i: "list_first (map_lst this) = Some i" "lcur (map_lst this) [] i kvs"
    using list_first_spec(1) [OF l] by blast
  let ?g = "\<lambda>p (_, s). let (ok, s) = f s (fst p) (snd p) in Some (ok, (ok, s))"
  have "for_iter (map_lst this) (\<lambda>p i. ?g p) i (True, args) = fold_stop ?g kvs (True, args)"
    by (rule lw.loop_fold [OF _ lrep_weak(2) [OF i(2)]]) simp
  also have "\<dots> = Some (run_each (\<lambda>s p. f s (fst p) (snd p)) kvs args)"
    by (induction kvs arbitrary: args) (auto simp: Let_def split: prod.split)
  finally show ?thesis using i(1) by (simp add: map_foreach_def)
qed

text \<open>
  The map is a finite map from strings. \<open>map_set\<close> replaces the value of an existing key in place, handing
  exactly the old value to the free function, or appends a new pair, or reports failure and changes nothing; it fails
  only when an allocation does; keys stay distinct. \<open>map_get\<close> and \<open>map_exists\<close> look the key up, so a value
  set is the value read and no other key is affected; \<open>map_foreach\<close> visits each pair once in the order the
  keys were first set, and \<open>map_free\<close> frees every key, every value and every node once.
\<close>
theorem map_correct:
  assumes "map_rep this kvs" "length key < PTRDIFF_MAX"
  shows "(\<exists>st this' a' dead. map_set this key value a = Some (st, this', a', dead) \<and> freefunc this' = freefunc this \<and>
      map_rep this' (if st then assoc_set kvs key value else kvs) \<and>
      dead = (case map_of kvs key of Some v \<Rightarrow> if freefunc this then [v] else [] | None \<Rightarrow> []) \<and> (decisions a = [] \<longrightarrow> st)) \<and>
    map_of (assoc_set kvs key value) = (map_of kvs)(key \<mapsto> value) \<and>
    map_get this k = Some (map_of kvs k) \<and> map_exists this k = Some (map_of kvs k \<noteq> None) \<and>
    map_foreach this args f = Some (run_each (\<lambda>s p. f s (fst p) (snd p)) kvs args) \<and>
    (\<exists>l. map_free this = Some (map fst kvs, if freefunc this then map snd kvs else [], l) \<and> cells l = Map.empty)"
  by (intro conjI map_set_spec [OF assms] map_of_assoc_set map_foreach_spec [OF assms(1)] map_free_spec [OF assms(1)]
      map_get_spec [OF assms(1), THEN conjunct1] map_get_spec [OF assms(1), THEN conjunct2])

theorem map_correct_witness:
  "map_rep \<lparr>map_lst = ml_of [(''a'', 1), (''b'', 2 :: nat)], freefunc = True\<rparr> [(''a'', 1), (''b'', 2)] \<and>
   map_get \<lparr>map_lst = ml_of [(''a'', 1), (''b'', 2 :: nat)], freefunc = True\<rparr> ''b'' = Some (Some 2)"
proof -
  let ?m = "\<lparr>map_lst = ml_of [(''a'', 1), (''b'', 2 :: nat)], freefunc = True\<rparr>"
  have h: "map_rep ?m [(''a'', 1), (''b'', 2)]" "length ''b'' < PTRDIFF_MAX"
    using lrep_ml_of [of "[(''a'', 1), (''b'', 2 :: nat)]"] by (simp_all add: map_rep_def PTRDIFF_MAX_def)
  show ?thesis using h(1) map_correct [OF h, of 3 no_oom "''b''" "()" "\<lambda>s k v. (True, s)"] by simp
qed

end
