(* ===== verification/Stringmap.thy ===== *)
theory Stringmap
  imports Metalist String_Map
begin

section \<open>String maps\<close>

text \<open>
  The hash table of \<open>src/meta/src/meta_stringmap.c\<close> that gives every string a unique number: an array of
  buckets, each NULL or a list of entries. A bucket whose list was freed keeps its pointer: in
  the model, a list whose region is empty, so that using it is a fault. \<open>unsigned long\<close> is \<open>64 word\<close>.
\<close>

subsection \<open>Operations\<close>

record sm_entry =
  e_s :: string
  e_hashval :: "64 word"
  e_id :: "64 word"

record stringmap =
  sm_nelem :: size_t
  hashtable :: "sm_entry mlist option list"
  last_id :: "64 word"

fun hash_loop :: "64 word \<Rightarrow> string \<Rightarrow> 64 word" where
  "hash_loop h [] = h"
| "hash_loop h (c # cs) = hash_loop ((push_bit 5 h + h) + word_of_nat (code c)) cs"

definition hash :: "string \<Rightarrow> 64 word" where
  "hash str = hash_loop 5381 str"

definition stringmap_new :: "size_t \<Rightarrow> allocator \<Rightarrow> (stringmap option \<times> allocator) option" where
  "stringmap_new nelem a = (if nelem > 0 then
     (case try_alloc 24 a of
        (False, a) \<Rightarrow> Some (None, a)
      | (True, a) \<Rightarrow> (case try_alloc (8 * nelem) a of
          (False, a) \<Rightarrow> Some (None, a)
        | (True, a) \<Rightarrow> Some (Some \<lparr>sm_nelem = nelem, hashtable = replicate nelem None, last_id = 0\<rparr>, a)))
     else None)"

text \<open>The loop of \<open>stringmap_free\<close> and \<open>stringmap_invalidate\<close>: the entries freed, and the table afterwards.\<close>

fun free_buckets :: "nat \<Rightarrow> nat \<Rightarrow> sm_entry mlist option list \<Rightarrow> (sm_entry list \<times> sm_entry mlist option list) option" where
  "free_buckets i 0 ht = Some ([], ht)"
| "free_buckets i (Suc k) ht = do {
     b \<leftarrow> get_at ht i;
     (dead, ht) \<leftarrow> (case b of
         None \<Rightarrow> Some ([], ht)
       | Some l \<Rightarrow> do { (es, l) \<leftarrow> list_free l; ht \<leftarrow> put_at ht i (Some l); Some (es, ht) });
     (rest, ht) \<leftarrow> free_buckets (Suc i) k ht;
     Some (dead @ rest, ht) }"

definition stringmap_free :: "stringmap \<Rightarrow> sm_entry list option" where
  "stringmap_free this = map_option fst (free_buckets 0 (sm_nelem this) (hashtable this))"

definition stringmap_invalidate :: "stringmap \<Rightarrow> (status_t \<times> stringmap) option" where
  "stringmap_invalidate this = do {
     (_, ht) \<leftarrow> free_buckets 0 (sm_nelem this) (hashtable this);
     Some (success, this\<lparr>hashtable := ht\<rparr>) }"

text \<open>The entry found, with its iterator.\<close>

definition sm_locate :: "stringmap \<Rightarrow> string \<Rightarrow> (sm_entry \<times> list_iterator) option option" where
  "sm_locate this s = (if s \<noteq> [] then do {
     let hashval = hash s;
     let hid = unat hashval mod sm_nelem this;
     lst \<leftarrow> get_at (hashtable this) hid;
     (case lst of
        None \<Rightarrow> Some None
      | Some l \<Rightarrow> do {
          i \<leftarrow> list_first l;
          for_iter l (\<lambda>e i r. Some (if e_hashval e = hashval \<and> strcmp0 s (e_s e) then (False, Some (e, i)) else (True, r))) i None }) }
   else None)"

text \<open>The results are the status, the number stored through \<open>pid\<close>, and the map afterwards.\<close>

definition stringmap_add :: "stringmap \<Rightarrow> string \<Rightarrow> allocator \<Rightarrow> (status_t \<times> 64 word option \<times> stringmap \<times> allocator) option" where
  "stringmap_add this s a = (if s \<noteq> [] then do {
     r \<leftarrow> sm_locate this s;
     (case r of
        Some (e, i) \<Rightarrow> Some (success, Some (e_id e), this, a)
      | None \<Rightarrow> (case try_alloc 24 a of
          (False, a) \<Rightarrow> Some (failure, None, this, a)
        | (True, a) \<Rightarrow> (case try_alloc (szt (length s + 1)) a of
            (False, a) \<Rightarrow> Some (failure, None, this, a)
          | (True, a) \<Rightarrow> do {
              let this = this\<lparr>last_id := last_id this + 1\<rparr>;
              let e = \<lparr>e_s = s, e_hashval = hash s, e_id = last_id this\<rparr>;
              let hid = unat (e_hashval e) mod sm_nelem this;
              b \<leftarrow> get_at (hashtable this) hid;
              (case (case b of Some l \<Rightarrow> (Some l, a) | None \<Rightarrow> list_new a) of
                 (None, a) \<Rightarrow> Some (failure, Some (e_id e), this, a)
               | (Some l, a) \<Rightarrow> do {
                   (ok, lst, a) \<leftarrow> list_add (Some l) e a;
                   l \<leftarrow> lst;
                   ht \<leftarrow> put_at (hashtable this) hid (Some l);
                   Some (ok, Some (e_id e), this\<lparr>hashtable := ht\<rparr>, a) }) }))) }
   else None)"

definition stringmap_exists :: "stringmap \<Rightarrow> string \<Rightarrow> bool option" where
  "stringmap_exists this s = (if s \<noteq> [] then do { r \<leftarrow> sm_locate this s; Some (r \<noteq> None) } else None)"

definition stringmap_get_id :: "stringmap \<Rightarrow> string \<Rightarrow> (status_t \<times> 64 word option) option" where
  "stringmap_get_id this s = (if s \<noteq> [] then do {
     r \<leftarrow> sm_locate this s;
     (case r of None \<Rightarrow> Some (failure, None) | Some (e, i) \<Rightarrow> Some (success, Some (e_id e))) }
   else None)"

text \<open>
  The double loop over the buckets and their entries, which \<open>stringmap_foreach\<close>, \<open>stringmap_subset\<close> and
  \<open>stringmap_tolist\<close> share; the body says whether to go on.
\<close>

fun for_buckets :: "sm_entry mlist option list \<Rightarrow> (sm_entry \<Rightarrow> 's \<Rightarrow> (bool \<times> 's) option) \<Rightarrow> nat \<Rightarrow> nat \<Rightarrow> 's \<Rightarrow> (bool \<times> 's) option" where
  "for_buckets ht body i 0 s = Some (True, s)"
| "for_buckets ht body i (Suc k) s = do {
     b \<leftarrow> get_at ht i;
     (go, s) \<leftarrow> (case b of
         None \<Rightarrow> Some (True, s)
       | Some l \<Rightarrow> do {
           p \<leftarrow> list_first l;
           for_iter l (\<lambda>e _ (_, s). do { (go, s) \<leftarrow> body e s; Some (go, (go, s)) }) p (True, s) });
     if go then for_buckets ht body (Suc i) k s else Some (False, s) }"

definition stringmap_foreach :: "stringmap \<Rightarrow> (string \<Rightarrow> 's \<Rightarrow> bool \<times> 's) \<Rightarrow> 's \<Rightarrow> (bool \<times> 's) option" where
  "stringmap_foreach this fn arg = for_buckets (hashtable this) (\<lambda>e s. Some (fn (e_s e) s)) 0 (sm_nelem this) arg"

definition stringmap_subset :: "stringmap \<Rightarrow> stringmap \<Rightarrow> allocator \<Rightarrow> (stringmap option \<times> allocator) option" where
  "stringmap_subset sm1 sm2 a = do {
     (r, a) \<leftarrow> stringmap_new (sm_nelem sm1) a;
     (case r of None \<Rightarrow> Some (None, a)
      | Some sm \<Rightarrow> do {
          (ok, sm, a) \<leftarrow> for_buckets (hashtable sm1) (\<lambda>e (sm, a). do {
              ex \<leftarrow> stringmap_exists sm2 (e_s e);
              if ex then Some (True, (sm, a))
              else do { (st, _, sm, a) \<leftarrow> stringmap_add sm (e_s e) a; Some (st, (sm, a)) } }) 0 (sm_nelem sm1) (sm, a);
          if ok then Some (Some sm, a) else do { _ \<leftarrow> stringmap_free sm; Some (None, a) } }) }"

definition stringmap_tolist :: "stringmap \<Rightarrow> allocator \<Rightarrow> (string mlist option \<times> allocator) option" where
  "stringmap_tolist this a = (case list_new a of
     (None, a) \<Rightarrow> Some (None, a)
   | (Some lst, a) \<Rightarrow> do {
       (ok, lst, a) \<leftarrow> for_buckets (hashtable this) (\<lambda>e (lst, a).
           case try_alloc (szt (length (e_s e) + 1)) a of
             (False, a) \<Rightarrow> Some (False, (lst, a))
           | (True, a) \<Rightarrow> do { (ok, lst, a) \<leftarrow> list_add_to lst (e_s e) a; Some (ok, (lst, a)) }) 0 (sm_nelem this) (lst, a);
       if ok then Some (Some lst, a) else do { _ \<leftarrow> list_free lst; Some (None, a) } })"

subsection \<open>What a table holds\<close>

definition bucket_rep :: "sm_entry mlist option \<Rightarrow> sm_entry list \<Rightarrow> bool" where
  "bucket_rep b es \<longleftrightarrow> (case b of None \<Rightarrow> es = [] | Some l \<Rightarrow> lrep l es)"

definition slot_of :: "nat \<Rightarrow> string \<Rightarrow> nat" where
  "slot_of n s = unat (hash s) mod n"

definition entry_ok :: "nat \<Rightarrow> nat \<Rightarrow> sm_entry \<Rightarrow> bool" where
  "entry_ok n i e \<longleftrightarrow> e_s e \<noteq> [] \<and> length (e_s e) < PTRDIFF_MAX \<and> e_hashval e = hash (e_s e) \<and> slot_of n (e_s e) = i"

definition sm_rep :: "stringmap \<Rightarrow> sm_entry list list \<Rightarrow> bool" where
  "sm_rep sm bss \<longleftrightarrow> 0 < sm_nelem sm \<and> length (hashtable sm) = sm_nelem sm \<and> list_all2 bucket_rep (hashtable sm) bss \<and>
     (\<forall>i < sm_nelem sm. \<forall>e \<in> set (bss ! i). entry_ok (sm_nelem sm) i e) \<and>
     (\<forall>i < sm_nelem sm. distinct (map e_s (bss ! i))) \<and>
     distinct (map e_id (concat bss)) \<and> (\<forall>e \<in> set (concat bss). e_id e \<le> last_id sm)"

definition ids :: "sm_entry list list \<Rightarrow> string \<rightharpoonup> 64 word" where
  "ids bss s = map_option e_id (find (\<lambda>e. e_s e = s) (concat bss))"

lemma sm_rep_length: "sm_rep sm bss \<Longrightarrow> length bss = sm_nelem sm"
  by (auto simp: sm_rep_def list_all2_iff)

lemma sm_rep_entry: "sm_rep sm bss \<Longrightarrow> e \<in> set (concat bss) \<Longrightarrow> entry_ok (sm_nelem sm) (slot_of (sm_nelem sm) (e_s e)) e"
proof -
  assume rep: "sm_rep sm bss" and "e \<in> set (concat bss)"
  then obtain b where "b \<in> set bss" "e \<in> set b" by auto
  then obtain i where i: "i < sm_nelem sm" "e \<in> set (bss ! i)" using sm_rep_length [OF rep] by (metis in_set_conv_nth)
  then have "entry_ok (sm_nelem sm) i e" using rep by (simp add: sm_rep_def)
  then show ?thesis by (simp add: entry_ok_def)
qed

lemma bucket_nth:
  assumes "sm_rep sm bss" "i < sm_nelem sm"
  obtains b where "get_at (hashtable sm) i = Some b" "bucket_rep b (bss ! i)"
  using assms by (auto simp: sm_rep_def get_at_def list_all2_conv_all_nth)

lemma slot_less: "sm_rep sm bss \<Longrightarrow> slot_of (sm_nelem sm) s < sm_nelem sm"
  by (simp add: sm_rep_def slot_of_def)

lemma find_append: "find P (xs @ ys) = (case find P xs of None \<Rightarrow> find P ys | Some e \<Rightarrow> Some e)"
  by (induction xs) auto

lemma find_concat_slot:
  assumes rep: "sm_rep sm bss"
  shows "find (\<lambda>e. e_s e = s) (concat bss) = find (\<lambda>e. e_s e = s) (bss ! slot_of (sm_nelem sm) s)"
proof -
  let ?i = "slot_of (sm_nelem sm) s" and ?P = "\<lambda>e. e_s e = s"
  have len: "length bss = sm_nelem sm" "?i < length bss" using sm_rep_length slot_less rep by metis+
  have split: "bss = take ?i bss @ bss ! ?i # drop (Suc ?i) bss" using len(2) by (simp add: id_take_nth_drop)
  have other: "e_s e \<noteq> s" if "j < length bss" "j \<noteq> ?i" "e \<in> set (bss ! j)" for j e
    using rep that len(1) by (auto simp: sm_rep_def entry_ok_def)
  have "e_s e \<noteq> s" if e: "b \<in> set (take ?i bss) \<or> b \<in> set (drop (Suc ?i) bss)" "e \<in> set b" for b e
  proof -
    from e(1) have "\<exists>j. j < length bss \<and> j \<noteq> ?i \<and> b = bss ! j"
    proof
      assume "b \<in> set (take ?i bss)"
      then obtain j where "j < ?i" "b = bss ! j" by (auto simp: in_set_conv_nth)
      then show ?thesis using len(2) by (intro exI [of _ j]) simp
    next
      assume "b \<in> set (drop (Suc ?i) bss)"
      then obtain j where "j < length bss - Suc ?i" "b = bss ! (Suc ?i + j)" by (auto simp: in_set_conv_nth)
      then show ?thesis by (intro exI [of _ "Suc ?i + j"]) simp
    qed
    then obtain j where "j < length bss" "j \<noteq> ?i" "b = bss ! j" by blast
    then show ?thesis using other e(2) by blast
  qed
  then have none: "find ?P (concat (take ?i bss)) = None" "find ?P (concat (drop (Suc ?i) bss)) = None"
    unfolding find_None_iff by auto
  have "find ?P (concat (take ?i bss @ bss ! ?i # drop (Suc ?i) bss)) = find ?P (bss ! ?i)"
    by (simp add: find_append none split: option.split)
  then show ?thesis using split by simp
qed

lemma sm_locate_spec:
  assumes rep: "sm_rep sm bss" and s: "s \<noteq> []"
  shows "\<exists>j. sm_locate sm s = Some (map_option (\<lambda>e. (e, j)) (find (\<lambda>e. e_s e = s) (concat bss)))"
proof -
  let ?i = "slot_of (sm_nelem sm) s"
  obtain b where b: "get_at (hashtable sm) ?i = Some b" "bucket_rep b (bss ! ?i)"
    using bucket_nth [OF rep slot_less [OF rep]] .
  let ?Q = "\<lambda>e. e_hashval e = hash s \<and> s = e_s e"
  have P: "find ?Q (bss ! ?i) = find (\<lambda>e. e_s e = s) (bss ! ?i)"
  proof -
    have "\<forall>e \<in> set (bss ! ?i). e_hashval e = hash (e_s e)" using rep slot_less [OF rep] by (auto simp: sm_rep_def entry_ok_def)
    then show ?thesis by (induction "bss ! ?i") (auto intro: find_cong)
  qed
  show ?thesis
  proof (cases b)
    case None
    then show ?thesis using b s find_concat_slot [OF rep, of s]
      by (simp add: sm_locate_def bucket_rep_def slot_of_def Let_def)
  next
    case (Some l)
    then have "lrep l (bss ! ?i)" using b(2) by (simp add: bucket_rep_def)
    then obtain i where i: "list_first l = Some i" "lcur l [] i (bss ! ?i)" using list_first_spec(1) by blast
    have "\<exists>j. for_iter l (\<lambda>e i r. Some (if e_hashval e = hash s \<and> strcmp0 s (e_s e) then (False, Some (e, i)) else (True, r))) i None =
        Some (map_option (\<lambda>x. (x, j)) (find ?Q (bss ! ?i))) \<and> (find ?Q (bss ! ?i) \<noteq> None \<longrightarrow>
          lcur l ([] @ takeWhile (\<lambda>x. \<not> ?Q x) (bss ! ?i)) j (dropWhile (\<lambda>x. \<not> ?Q x) (bss ! ?i)))"
      by (rule for_iter_find [OF _ i(2)]) (simp add: strcmp0_def)
    then obtain j where "for_iter l (\<lambda>e i r. Some (if e_hashval e = hash s \<and> strcmp0 s (e_s e) then (False, Some (e, i)) else (True, r))) i None =
        Some (map_option (\<lambda>x. (x, j)) (find ?Q (bss ! ?i)))" by blast
    then show ?thesis using b(1) Some i(1) s unfolding P find_concat_slot [OF rep, of s]
      by (intro exI [of _ j]) (simp add: sm_locate_def slot_of_def Let_def)
  qed
qed

lemma sm_lookup_spec:
  assumes "sm_rep sm bss" "s \<noteq> []"
  shows "stringmap_exists sm s = Some (ids bss s \<noteq> None)"
    "stringmap_get_id sm s = Some (ids bss s \<noteq> None, ids bss s)"
proof -
  obtain j where j: "sm_locate sm s = Some (map_option (\<lambda>e. (e, j)) (find (\<lambda>e. e_s e = s) (concat bss)))"
    using sm_locate_spec [OF assms] by blast
  show "stringmap_exists sm s = Some (ids bss s \<noteq> None)" "stringmap_get_id sm s = Some (ids bss s \<noteq> None, ids bss s)"
    using assms(2) j by (auto simp: stringmap_exists_def stringmap_get_id_def ids_def split: option.split)
qed

subsection \<open>Adding\<close>

definition new_entry :: "stringmap \<Rightarrow> string \<Rightarrow> sm_entry" where
  "new_entry sm s = \<lparr>e_s = s, e_hashval = hash s, e_id = last_id sm + 1\<rparr>"

definition bss_add :: "nat \<Rightarrow> sm_entry list list \<Rightarrow> sm_entry \<Rightarrow> sm_entry list list" where
  "bss_add n bss e = (let i = slot_of n (e_s e) in bss[i := bss ! i @ [e]])"

lemma concat_bss_add:
  assumes "slot_of n (e_s e) < length bss"
  shows "\<exists>xs ys. concat bss = xs @ ys \<and> concat (bss_add n bss e) = xs @ e # ys"
proof -
  let ?i = "slot_of n (e_s e)"
  have "bss = take ?i bss @ bss ! ?i # drop (Suc ?i) bss" using assms by (simp add: id_take_nth_drop)
  then have "concat bss = (concat (take ?i bss) @ bss ! ?i) @ concat (drop (Suc ?i) bss)"
    by (metis append.assoc concat.simps(2) concat_append)
  moreover have "concat (bss_add n bss e) = (concat (take ?i bss) @ bss ! ?i) @ e # concat (drop (Suc ?i) bss)"
    using assms by (simp add: bss_add_def Let_def upd_conv_take_nth_drop)
  ultimately show ?thesis by blast
qed

lemma ids_bss_add:
  assumes "slot_of n (e_s e) < length bss" "ids bss (e_s e) = None"
  shows "ids (bss_add n bss e) = (ids bss)(e_s e \<mapsto> e_id e)"
proof
  fix s
  obtain xs ys where c: "concat bss = xs @ ys" "concat (bss_add n bss e) = xs @ e # ys"
    using concat_bss_add [OF assms(1)] by blast
  show "ids (bss_add n bss e) s = ((ids bss)(e_s e \<mapsto> e_id e)) s"
    using assms(2) by (auto simp: ids_def c find_append split: option.splits)
qed

lemma id_succ:
  fixes l :: "64 word" assumes "l \<noteq> - 1" "x \<le> l"
  shows "x < l + 1 \<and> x \<le> l + 1"
proof -
  have "1 + l \<noteq> 0" using assms(1) by (metis add.commute add_eq_0_iff)
  then have "unat (l + 1) = Suc (unat l)" using unatSuc [of l] by (simp add: add.commute)
  then have "l < l + 1" by (simp add: word_less_nat_alt)
  then show ?thesis using assms(2) by auto
qed

lemma sm_rep_add:
  assumes rep: "sm_rep sm bss" and s: "s \<noteq> []" "length s < PTRDIFF_MAX" and new: "ids bss s = None" and id: "last_id sm \<noteq> - 1"
    and b: "bucket_rep b (bss ! slot_of (sm_nelem sm) s @ [new_entry sm s])"
  shows "sm_rep (sm\<lparr>last_id := last_id sm + 1, hashtable := (hashtable sm)[slot_of (sm_nelem sm) s := b]\<rparr>)
    (bss_add (sm_nelem sm) bss (new_entry sm s))"
proof -
  let ?n = "sm_nelem sm" and ?e = "new_entry sm s" and ?i = "slot_of (sm_nelem sm) s"
  have i: "?i < ?n" "length bss = ?n" using slot_less [OF rep] sm_rep_length [OF rep] by auto
  have add: "bss_add ?n bss ?e = bss[?i := bss ! ?i @ [?e]]" by (simp add: bss_add_def new_entry_def Let_def)
  have ok: "entry_ok ?n ?i ?e" using s by (simp add: entry_ok_def new_entry_def)
  have fresh: "s \<notin> e_s ` set (bss ! ?i)"
    using new find_concat_slot [OF rep, of s] by (auto simp: ids_def find_None_iff)
  obtain xs ys where c: "concat bss = xs @ ys" "concat (bss_add ?n bss ?e) = xs @ ?e # ys"
    using concat_bss_add [of ?n ?e bss] i by (auto simp: new_entry_def)
  have lt: "\<forall>e \<in> set (concat bss). e_id e < last_id sm + 1 \<and> e_id e \<le> last_id sm + 1"
    using rep id_succ [OF id] by (auto simp: sm_rep_def)
  then have d: "distinct (map e_id (xs @ ?e # ys))"
    using rep c(1) by (auto simp: sm_rep_def new_entry_def)
  have "list_all2 bucket_rep ((hashtable sm)[?i := b]) (bss[?i := bss ! ?i @ [?e]])"
    using rep b by (intro list_all2_update_cong) (auto simp: sm_rep_def)
  moreover have "\<forall>j < ?n. \<forall>e \<in> set ((bss[?i := bss ! ?i @ [?e]]) ! j). entry_ok ?n j e"
    using rep ok i by (auto simp: sm_rep_def nth_list_update)
  moreover have "\<forall>j < ?n. distinct (map e_s ((bss[?i := bss ! ?i @ [?e]]) ! j))"
    using rep fresh i by (auto simp: sm_rep_def nth_list_update new_entry_def)
  moreover have "\<forall>e \<in> set (xs @ ?e # ys). e_id e \<le> last_id sm + 1"
    using lt c(1) by (auto simp: new_entry_def)
  ultimately show ?thesis using rep d c(2) unfolding add by (simp add: sm_rep_def)
qed

text \<open>What \<open>stringmap_add\<close> leaves: a failed call may have consumed a number and created an empty bucket.\<close>

lemma sm_rep_same:
  assumes rep: "sm_rep sm bss" and id: "last_id sm \<noteq> - 1"
    and b: "bucket_rep b (bss ! slot_of (sm_nelem sm) s)"
  shows "sm_rep (sm\<lparr>last_id := last_id sm + 1, hashtable := (hashtable sm)[slot_of (sm_nelem sm) s := b]\<rparr>) bss"
    "sm_rep (sm\<lparr>last_id := last_id sm + 1\<rparr>) bss"
proof -
  let ?i = "slot_of (sm_nelem sm) s"
  have "list_all2 bucket_rep ((hashtable sm)[?i := b]) (bss[?i := bss ! ?i])"
    using rep b by (intro list_all2_update_cong) (auto simp: sm_rep_def)
  then have "list_all2 bucket_rep ((hashtable sm)[?i := b]) bss" by simp
  moreover have "\<forall>e \<in> set (concat bss). e_id e \<le> last_id sm + 1"
    using rep id_succ [OF id] by (auto simp: sm_rep_def)
  ultimately show "sm_rep (sm\<lparr>last_id := last_id sm + 1, hashtable := (hashtable sm)[?i := b]\<rparr>) bss"
      "sm_rep (sm\<lparr>last_id := last_id sm + 1\<rparr>) bss"
    using rep by (simp_all add: sm_rep_def)
qed

lemma stringmap_add_known:
  assumes "sm_rep sm bss" "s \<noteq> []" "ids bss s = Some n"
  shows "stringmap_add sm s a = Some (success, Some n, sm, a)"
  using sm_locate_spec [OF assms(1,2)] assms(2,3) by (auto simp: stringmap_add_def ids_def)

lemma stringmap_add_new:
  assumes rep: "sm_rep sm bss" and s: "s \<noteq> []" "length s < PTRDIFF_MAX" and new: "ids bss s = None" and id: "last_id sm \<noteq> - 1"
  shows "\<exists>st pid sm' a'. stringmap_add sm s a = Some (st, pid, sm', a') \<and>
    sm_rep sm' (if st then bss_add (sm_nelem sm) bss (new_entry sm s) else bss) \<and>
    (st \<longrightarrow> pid = Some (last_id sm + 1)) \<and> sm_nelem sm' = sm_nelem sm \<and>
    last_id sm' \<in> {last_id sm, last_id sm + 1} \<and> (decisions a = [] \<longrightarrow> st \<and> a' = a)"
proof -
  let ?i = "slot_of (sm_nelem sm) s" and ?e = "new_entry sm s"
  have loc: "sm_locate sm s = Some None"
    using sm_locate_spec [OF rep s(1)] new by (auto simp: ids_def)
  have i: "?i < length (hashtable sm)" using slot_less [OF rep] rep by (simp add: sm_rep_def)
  obtain b where b: "get_at (hashtable sm) ?i = Some b" "bucket_rep b (bss ! ?i)" using bucket_nth [OF rep slot_less [OF rep]] .
  obtain ok1 a1 where a1: "try_alloc 24 a = (ok1, a1)" by fastforce
  obtain ok2 a2 where a2: "try_alloc (szt (length s + 1)) a1 = (ok2, a2)" by fastforce
  have dec: "decisions a = [] \<longrightarrow> ok1 \<and> ok2 \<and> a1 = a \<and> a2 = a"
    using a1 a2 s(2) try_alloc_no_oom [of a 24] try_alloc_no_oom [of a "length s + 1"] PTRDIFF_SIZE
    by (auto simp: PTRDIFF_MAX_def)
  show ?thesis
  proof (cases "ok1 \<and> ok2")
    case False
    then have "\<exists>a'. stringmap_add sm s a = Some (failure, None, sm, a')"
      using loc a1 a2 s(1) by (cases ok1) (auto simp: stringmap_add_def)
    then show ?thesis using False dec rep by (auto intro!: exI [of _ False])
  next
    case True
    let ?r = "case b of Some l \<Rightarrow> (Some l, a2) | None \<Rightarrow> list_new a2"
    obtain r a3 where r: "?r = (r, a3)" by fastforce
    have lr: "r = Some l \<Longrightarrow> lrep l (bss ! ?i)" "decisions a = [] \<longrightarrow> r \<noteq> None \<and> a3 = a" for l
      using r b(2) dec list_new_result [of a2 r a3] by (auto simp: bucket_rep_def split: option.splits)
    have run: "stringmap_add sm s a = (case r of
        None \<Rightarrow> Some (failure, Some (last_id sm + 1), sm\<lparr>last_id := last_id sm + 1\<rparr>, a3)
      | Some l \<Rightarrow> do { (ok, lst, a) \<leftarrow> list_add (Some l) ?e a3; l \<leftarrow> lst;
            Some (ok, Some (last_id sm + 1), sm\<lparr>last_id := last_id sm + 1, hashtable := (hashtable sm)[?i := Some l]\<rparr>, a) })"
      using loc a1 a2 True s(1) b(1) r i
      by (simp add: stringmap_add_def new_entry_def slot_of_def Let_def put_at_def split: option.splits)
    show ?thesis
    proof (cases r)
      case None
      then show ?thesis using run lr(2) sm_rep_same(2) [OF rep id b(2)] by (auto intro!: exI [of _ False])
    next
      case (Some l)
      obtain ok l' a' where add: "list_add (Some l) ?e a3 = Some (ok, Some l', a')" "lrep l' (if ok then bss ! ?i @ [?e] else bss ! ?i)"
          "decisions a3 = [] \<longrightarrow> ok \<and> a' = a3"
        using list_add_some [OF lr(1) [OF Some], of ?e a3] by blast
      then have l': "bucket_rep (Some l') (if ok then bss ! ?i @ [?e] else bss ! ?i)" by (simp add: bucket_rep_def)
      have rep': "sm_rep (sm\<lparr>last_id := last_id sm + 1, hashtable := (hashtable sm)[?i := Some l']\<rparr>)
          (if ok then bss_add (sm_nelem sm) bss ?e else bss)"
        using sm_rep_add [OF rep s new id, of "Some l'"] sm_rep_same(1) [OF rep id, of "Some l'"] l' by (cases ok) simp_all
      show ?thesis using run Some add(1,3) rep' lr(2) by (intro exI [of _ ok]) auto
    qed
  qed
qed

subsection \<open>Loops over the table\<close>

fun fold_go :: "('a \<Rightarrow> 's \<Rightarrow> (bool \<times> 's) option) \<Rightarrow> 'a list \<Rightarrow> 's \<Rightarrow> (bool \<times> 's) option" where
  "fold_go g [] s = Some (True, s)"
| "fold_go g (x # xs) s = g x s \<bind> (\<lambda>r. if fst r then fold_go g xs (snd r) else Some (False, snd r))"

lemma fold_go_append: "fold_go g (xs @ ys) s = fold_go g xs s \<bind> (\<lambda>r. if fst r then fold_go g ys (snd r) else Some (False, snd r))"
  by (induction xs arbitrary: s) (auto split: bind_splits)

lemma fold_stop_go:
  "fold_stop (\<lambda>e (_, s). do { (go, s) \<leftarrow> body e s; Some (go, (go, s)) }) es (True, s) = fold_go body es s"
  by (induction es arbitrary: s) (auto split: bind_splits)

lemma for_buckets_fold:
  assumes "list_all2 bucket_rep ht bss"
  shows "i + k = length ht \<Longrightarrow> for_buckets ht body i k s = fold_go body (concat (drop i bss)) s"
proof (induction k arbitrary: i s)
  case 0
  then show ?case using assms by (simp add: list_all2_iff)
next
  case (Suc k)
  then have i: "i < length ht" "i < length bss" using assms by (auto simp: list_all2_iff)
  obtain b where b: "get_at ht i = Some b" "bucket_rep b (bss ! i)"
    using i assms by (auto simp: get_at_def list_all2_conv_all_nth)
  have one: "(case b of None \<Rightarrow> Some (True, s) | Some l \<Rightarrow> do { p \<leftarrow> list_first l;
      for_iter l (\<lambda>e _ (_, s). do { (go, s) \<leftarrow> body e s; Some (go, (go, s)) }) p (True, s) }) = fold_go body (bss ! i) s"
  proof (cases b)
    case (Some l)
    then have "lrep_weak l (bss ! i)" using b(2) by (simp add: bucket_rep_def lrep_weak)
    then obtain p where p: "list_first l = Some p" "lcur_weak l [] p (bss ! i)" using list_first_spec(2) by blast
    have "for_iter l (\<lambda>e _ (_, s). do { (go, s) \<leftarrow> body e s; Some (go, (go, s)) }) p (True, s) = fold_go body (bss ! i) s"
      unfolding fold_stop_go [symmetric] by (rule lw.loop_fold [OF _ p(2)]) simp
    then show ?thesis using Some p(1) by simp
  qed (use b in \<open>simp add: bucket_rep_def\<close>)
  have split: "drop i bss = bss ! i # drop (Suc i) bss" using i(2) by (simp add: Cons_nth_drop_Suc)
  show ?case unfolding for_buckets.simps b(1) bind.bind_lunit one split concat.simps fold_go_append
    using Suc.IH [of "Suc i"] Suc.prems by (cases "fold_go body (bss ! i) s") (auto simp: split_beta)
qed

lemma sm_loop:
  "sm_rep sm bss \<Longrightarrow> for_buckets (hashtable sm) body 0 (sm_nelem sm) s = fold_go body (concat bss) s"
  using for_buckets_fold [of "hashtable sm" bss 0 "sm_nelem sm"] by (simp add: sm_rep_def)

lemma stringmap_foreach_spec:
  "sm_rep sm bss \<Longrightarrow> stringmap_foreach sm fn arg = Some (run_each (\<lambda>s e. fn (e_s e) s) (concat bss) arg)"
proof -
  have "fold_go (\<lambda>e s. Some (fn (e_s e) s)) es arg = Some (run_each (\<lambda>s e. fn (e_s e) s) es arg)" for es
    by (induction es arbitrary: arg) (auto simp: split_beta Let_def)
  then show "sm_rep sm bss \<Longrightarrow> ?thesis" by (simp add: stringmap_foreach_def sm_loop)
qed

lemma free_buckets_spec:
  "list_all2 bucket_rep (drop i ht) bss \<Longrightarrow> i + k = length ht \<Longrightarrow>
   \<exists>ht'. free_buckets i k ht = Some (concat bss, ht') \<and> length ht' = length ht \<and> take i ht' = take i ht \<and>
     (\<forall>j. i \<le> j \<and> j < length ht \<longrightarrow> (case ht ! j of None \<Rightarrow> ht' ! j = None | Some _ \<Rightarrow> \<exists>l. ht' ! j = Some l \<and> cells l = Map.empty))"
proof (induction k arbitrary: i ht bss)
  case 0
  then show ?case by (intro exI [of _ ht]) auto
next
  case (Suc k)
  then have i: "i < length ht" by simp
  then have split: "drop i ht = ht ! i # drop (Suc i) ht" by (simp add: Cons_nth_drop_Suc)
  then obtain es bss' where bss: "bss = es # bss'" "bucket_rep (ht ! i) es" "list_all2 bucket_rep (drop (Suc i) ht) bss'"
    using Suc.prems(1) by (auto simp: list_all2_Cons1)
  obtain b ht1 where one: "(case ht ! i of None \<Rightarrow> Some ([], ht)
       | Some l \<Rightarrow> do { (es, l) \<leftarrow> list_free l; ht \<leftarrow> put_at ht i (Some l); Some (es, ht) }) = Some (es, ht1)"
      "ht1 = ht[i := b]" "case ht ! i of None \<Rightarrow> b = None | Some _ \<Rightarrow> \<exists>l. b = Some l \<and> cells l = Map.empty"
  proof (cases "ht ! i")
    case None
    then show thesis using bss(2) that [of ht None] list_update_id [of ht i] by (simp add: bucket_rep_def)
  next
    case (Some l)
    then have "lrep_weak l es" using bss(2) by (simp add: bucket_rep_def lrep_weak)
    then obtain l' where "list_free l = Some (es, l')" "cells l' = Map.empty" using list_free_spec by blast
    then show thesis using Some i that [of "ht[i := Some l']" "Some l'"] by (simp add: put_at_def)
  qed
  have "list_all2 bucket_rep (drop (Suc i) ht1) bss'" using bss(3) one(2) by simp
  moreover have "Suc i + k = length ht1" using Suc.prems(2) one(2) by simp
  ultimately obtain ht' where ht': "free_buckets (Suc i) k ht1 = Some (concat bss', ht')" "length ht' = length ht1"
      "take (Suc i) ht' = take (Suc i) ht1"
      "\<forall>j. Suc i \<le> j \<and> j < length ht1 \<longrightarrow> (case ht1 ! j of None \<Rightarrow> ht' ! j = None | Some _ \<Rightarrow> \<exists>l. ht' ! j = Some l \<and> cells l = Map.empty)"
    using Suc.IH by blast
  have nth: "ht' ! i = b" using ht'(2,3) one(2) i by (metis length_list_update lessI nth_list_update_eq nth_take)
  have "take i ht' = take i ht" using ht'(3) one(2) by (metis lessI less_imp_le_nat min.absorb1 take_take take_update_cancel order_refl)
  moreover have "case ht ! j of None \<Rightarrow> ht' ! j = None | Some _ \<Rightarrow> \<exists>l. ht' ! j = Some l \<and> cells l = Map.empty"
    if "i \<le> j" "j < length ht" for j
  proof (cases "j = i")
    case False
    then have "Suc i \<le> j" "ht1 ! j = ht ! j" using that one(2) by simp_all
    then show ?thesis using ht'(4) [rule_format, of j] that(2) one(2) by simp
  next
    case True
    show ?thesis unfolding True nth by (rule one(3))
  qed
  moreover have "free_buckets i (Suc k) ht = Some (concat bss, ht')"
    using one(1) ht'(1) i bss(1) by (simp add: get_at_def)
  ultimately show ?case using ht'(2) one(2) by auto
qed

lemma stringmap_free_spec:
  assumes "sm_rep sm bss"
  shows "stringmap_free sm = Some (concat bss)"
    "\<exists>sm'. stringmap_invalidate sm = Some (success, sm') \<and> (\<forall>s. s \<noteq> [] \<and> ids bss s \<noteq> None \<longrightarrow> stringmap_exists sm' s = None)"
proof -
  obtain ht' where ht': "free_buckets 0 (sm_nelem sm) (hashtable sm) = Some (concat bss, ht')" "length ht' = sm_nelem sm"
      "\<forall>j. 0 \<le> j \<and> j < sm_nelem sm \<longrightarrow> (case hashtable sm ! j of None \<Rightarrow> ht' ! j = None | Some _ \<Rightarrow> \<exists>l. ht' ! j = Some l \<and> cells l = Map.empty)"
    using assms free_buckets_spec [of 0 "hashtable sm" bss "sm_nelem sm"] by (auto simp: sm_rep_def)
  show "stringmap_free sm = Some (concat bss)" using ht'(1) by (simp add: stringmap_free_def)
  have "stringmap_exists (sm\<lparr>hashtable := ht'\<rparr>) s = None" if s: "s \<noteq> []" "ids bss s \<noteq> None" for s
  proof -
    let ?i = "slot_of (sm_nelem sm) s"
    have "bss ! ?i \<noteq> []" using s(2) find_concat_slot [OF assms, of s] by (auto simp: ids_def)
    then obtain l where "hashtable sm ! ?i = Some l"
      using bucket_nth [OF assms slot_less [OF assms, of s]] slot_less [OF assms, of s] assms
      by (cases "hashtable sm ! ?i") (auto simp: bucket_rep_def get_at_def sm_rep_def)
    then obtain l' where "ht' ! ?i = Some l'" "cells l' = Map.empty"
      using ht'(3) slot_less [OF assms, of s] by (auto dest!: spec [of _ ?i])
    then show ?thesis using s(1) ht'(2) slot_less [OF assms, of s]
      by (simp add: stringmap_exists_def sm_locate_def Let_def slot_of_def get_at_def list_first_def)
  qed
  then show "\<exists>sm'. stringmap_invalidate sm = Some (success, sm') \<and> (\<forall>s. s \<noteq> [] \<and> ids bss s \<noteq> None \<longrightarrow> stringmap_exists sm' s = None)"
    using ht'(1) by (simp add: stringmap_invalidate_def)
qed

lemma tolist_loop:
  assumes "lrep lst xs"
  shows "\<exists>ok lst' a'. fold_go (\<lambda>e (lst, a).
           case try_alloc (szt (length (e_s e) + 1)) a of
             (False, a) \<Rightarrow> Some (False, (lst, a))
           | (True, a) \<Rightarrow> do { (ok, lst, a) \<leftarrow> list_add_to lst (e_s e) a; Some (ok, (lst, a)) }) es (lst, a) = Some (ok, lst', a') \<and>
      (if ok then lrep lst' (xs @ map e_s es) else \<exists>ys. lrep lst' ys) \<and>
      (decisions a = [] \<and> (\<forall>e \<in> set es. length (e_s e) < PTRDIFF_MAX) \<longrightarrow> ok)"
  using assms
proof (induction es arbitrary: lst xs a)
  case Nil
  then show ?case by (intro exI [of _ True]) simp
next
  case (Cons e es)
  let ?B = "\<lambda>e (lst, a). case try_alloc (szt (length (e_s e) + 1)) a of
      (False, a) \<Rightarrow> Some (False, (lst, a))
    | (True, a) \<Rightarrow> do { (ok, lst, a) \<leftarrow> list_add_to lst (e_s e) a; Some (ok, (lst, a)) }"
  obtain ok1 a1 where a1: "try_alloc (szt (length (e_s e) + 1)) a = (ok1, a1)" by fastforce
  have dec: "decisions a = [] \<and> length (e_s e) < PTRDIFF_MAX \<longrightarrow> ok1 \<and> a1 = a"
    using a1 try_alloc_no_oom [of a "length (e_s e) + 1"] PTRDIFF_SIZE by auto
  obtain ok2 l2 a2 where add: "list_add_to lst (e_s e) a1 = Some (ok2, l2, a2)" "lrep l2 (if ok2 then xs @ [e_s e] else xs)"
      "decisions a1 = [] \<longrightarrow> ok2 \<and> a2 = a1" using list_add_to_spec [OF Cons.prems, of "e_s e" a1] by blast
  consider "\<not> ok1" | "ok1" "\<not> ok2" | "ok1" "ok2" by blast
  then show ?case
  proof cases
    case 1
    then show ?thesis using a1 dec Cons.prems by (intro exI [of _ False]) auto
  next
    case 2
    then show ?thesis using a1 dec add by (intro exI [of _ False] exI [of _ l2] exI [of _ a2]) auto
  next
    case 3
    then have "lrep l2 (xs @ [e_s e])" using add(2) by simp
    from Cons.IH [OF this, of a2] obtain ok lst' a' where "fold_go ?B es (l2, a2) = Some (ok, lst', a')"
        "if ok then lrep lst' ((xs @ [e_s e]) @ map e_s es) else \<exists>ys. lrep lst' ys"
        "decisions a2 = [] \<and> (\<forall>e \<in> set es. length (e_s e) < PTRDIFF_MAX) \<longrightarrow> ok" by blast
    then show ?thesis using 3 a1 dec add(1,3) by (intro exI [of _ ok] exI [of _ lst'] exI [of _ a']) (cases ok, simp_all)
  qed
qed

lemma stringmap_tolist_spec:
  assumes rep: "sm_rep sm bss"
  shows "\<exists>r a'. stringmap_tolist sm a = Some (r, a') \<and> (\<forall>l. r = Some l \<longrightarrow> lrep l (map e_s (concat bss))) \<and> (decisions a = [] \<longrightarrow> r \<noteq> None)"
proof -
  obtain r a1 where n: "(list_new a :: string mlist option \<times> allocator) = (r, a1)" by fastforce
  have short: "\<forall>e \<in> set (concat bss). length (e_s e) < PTRDIFF_MAX"
    using sm_rep_entry [OF rep] by (auto simp: entry_ok_def)
  show ?thesis
  proof (cases r)
    case None
    then show ?thesis using n list_new_result [OF n] by (simp add: stringmap_tolist_def)
  next
    case (Some lst)
    then have "lrep lst []" using list_new_result [OF n] by simp
    from tolist_loop [OF this, of "concat bss" a1] obtain ok lst' a' where
      loop: "for_buckets (hashtable sm) (\<lambda>e (lst, a).
           case try_alloc (szt (length (e_s e) + 1)) a of
             (False, a) \<Rightarrow> Some (False, (lst, a))
           | (True, a) \<Rightarrow> do { (ok, lst, a) \<leftarrow> list_add_to lst (e_s e) a; Some (ok, (lst, a)) }) 0 (sm_nelem sm) (lst, a1) = Some (ok, lst', a')"
        "if ok then lrep lst' (map e_s (concat bss)) else \<exists>ys. lrep lst' ys"
        "decisions a1 = [] \<and> (\<forall>e \<in> set (concat bss). length (e_s e) < PTRDIFF_MAX) \<longrightarrow> ok"
      unfolding sm_loop [OF rep] append_Nil by blast
    have dec: "decisions a = [] \<longrightarrow> ok" using loop(3) short list_new_result [OF n] by simp
    show ?thesis
    proof (cases ok)
      case True
      then show ?thesis using n Some loop(1,2) by (simp add: stringmap_tolist_def)
    next
      case False
      then obtain ys l'' where "list_free lst' = Some (ys, l'')" using loop(2) list_free_spec lrep_weak(1) by metis
      then show ?thesis using n Some loop(1) dec False by (simp add: stringmap_tolist_def)
    qed
  qed
qed

lemma last_id_room: "unat (l :: 64 word) + 1 < 2 ^ 64 \<Longrightarrow> l \<noteq> - 1 \<and> unat (l + 1) = unat l + 1"
proof -
  assume a: "unat l + 1 < 2 ^ 64"
  then have "l \<noteq> - 1" by (auto simp: unsigned_minus_1_eq_mask mask_eq_exp_minus_1)
  then show ?thesis using unatSuc [of l] by (metis Suc_eq_plus1 add.commute add_eq_0_iff)
qed

lemma subset_loop:
  assumes "sm_rep sm2 bss2"
  shows "sm_rep sm bss \<Longrightarrow> unat (last_id sm) + length es < 2 ^ 64 \<Longrightarrow>
    \<forall>e \<in> set es. e_s e \<noteq> [] \<and> length (e_s e) < PTRDIFF_MAX \<Longrightarrow>
    \<exists>ok sm' a' bss'. fold_go (\<lambda>e (sm, a). do {
              ex \<leftarrow> stringmap_exists sm2 (e_s e);
              if ex then Some (True, (sm, a))
              else do { (st, _, sm, a) \<leftarrow> stringmap_add sm (e_s e) a; Some (st, (sm, a)) } }) es (sm, a) = Some (ok, sm', a') \<and>
      sm_rep sm' bss' \<and> (ok \<longrightarrow> dom (ids bss') = dom (ids bss) \<union> {s \<in> e_s ` set es. ids bss2 s = None}) \<and> (decisions a = [] \<longrightarrow> ok)"
    (is "_ \<Longrightarrow> _ \<Longrightarrow> _ \<Longrightarrow> \<exists>ok sm' a' bss'. fold_go ?B es (sm, a) = _ \<and> _")
proof (induction es arbitrary: sm bss a)
  case Nil
  then show ?case by (intro exI [of _ True] exI [of _ sm] exI [of _ a] exI [of _ bss]) simp
next
  case (Cons e es)
  have e: "e_s e \<noteq> []" "length (e_s e) < PTRDIFF_MAX" using Cons.prems(3) by auto
  have room: "last_id sm \<noteq> - 1" "unat (last_id sm + 1) = unat (last_id sm) + 1"
    using last_id_room [of "last_id sm"] Cons.prems(2) by auto
  obtain st sm1 a1 bss1 where one: "?B e (sm, a) = Some (st, sm1, a1)" "sm_rep sm1 bss1"
      "st \<longrightarrow> dom (ids bss1) = dom (ids bss) \<union> {s. s = e_s e \<and> ids bss2 s = None}"
      "unat (last_id sm1) \<le> unat (last_id sm) + 1" "decisions a = [] \<longrightarrow> st \<and> a1 = a"
  proof (cases "ids bss2 (e_s e)")
    case (Some n)
    then have "dom (ids bss) = dom (ids bss) \<union> {s. s = e_s e \<and> ids bss2 s = None}" by auto
    then show thesis using that [of True sm a bss] Some Cons.prems(1) sm_lookup_spec(1) [OF assms e(1)] by simp
  next
    case None
    then have B: "?B e (sm, a) = do { (st, _, sm, a) \<leftarrow> stringmap_add sm (e_s e) a; Some (st, (sm, a)) }"
      using sm_lookup_spec(1) [OF assms e(1)] by simp
    show thesis
    proof (cases "ids bss (e_s e)")
      case (Some n)
      then have "dom (ids bss) = dom (ids bss) \<union> {s. s = e_s e \<and> ids bss2 s = None}" by auto
      then show thesis using that [of True sm a bss] B Cons.prems(1) stringmap_add_known [OF Cons.prems(1) e(1) Some] by simp
    next
      case new: None
      obtain st pid sm1 a1 where add: "stringmap_add sm (e_s e) a = Some (st, pid, sm1, a1)"
          "sm_rep sm1 (if st then bss_add (sm_nelem sm) bss (new_entry sm (e_s e)) else bss)"
          "last_id sm1 \<in> {last_id sm, last_id sm + 1}" "decisions a = [] \<longrightarrow> st \<and> a1 = a"
        using stringmap_add_new [OF Cons.prems(1) e new room(1), of a] by blast
      have dom: "dom (ids (bss_add (sm_nelem sm) bss (new_entry sm (e_s e)))) = insert (e_s e) (dom (ids bss))"
        using ids_bss_add [of "sm_nelem sm" "new_entry sm (e_s e)" bss] new sm_rep_length [OF Cons.prems(1)] slot_less [OF Cons.prems(1)]
        by (simp add: new_entry_def)
      show thesis by (rule that [OF _ add(2)]) (use B add(1,3,4) dom room(2) None in auto)
    qed
  qed
  show ?case
  proof (cases st)
    case False
    then show ?thesis using one by (intro exI [of _ False] exI [of _ sm1] exI [of _ a1] exI [of _ bss1]) auto
  next
    case True
    obtain ok sm' a' bss' where rest: "fold_go ?B es (sm1, a1) = Some (ok, sm', a')" "sm_rep sm' bss'"
        "ok \<longrightarrow> dom (ids bss') = dom (ids bss1) \<union> {s \<in> e_s ` set es. ids bss2 s = None}" "decisions a1 = [] \<longrightarrow> ok"
      using Cons.IH [OF one(2), of a1] Cons.prems(2,3) one(4) by auto
    have "fold_go ?B (e # es) (sm, a) = Some (ok, sm', a')" unfolding fold_go.simps one(1) using True rest(1) by simp
    then show ?thesis using rest(2-4) one(3,5) True
      by (intro exI [of _ ok] exI [of _ sm'] exI [of _ a'] exI [of _ bss']) auto
  qed
qed

lemma stringmap_new_spec:
  assumes "0 < n"
  shows "\<exists>r a'. stringmap_new n a = Some (r, a') \<and>
    (\<forall>sm. r = Some sm \<longrightarrow> sm_rep sm (replicate n []) \<and> sm_nelem sm = n \<and> last_id sm = 0) \<and>
    (decisions a = [] \<and> 8 * n \<le> PTRDIFF_MAX \<longrightarrow> r \<noteq> None \<and> a' = a)"
proof -
  obtain ok1 a1 where a1: "try_alloc 24 a = (ok1, a1)" by fastforce
  obtain ok2 a2 where a2: "try_alloc (8 * n) a1 = (ok2, a2)" by fastforce
  have dec: "decisions a = [] \<and> 8 * n \<le> PTRDIFF_MAX \<longrightarrow> ok1 \<and> ok2 \<and> a1 = a \<and> a2 = a"
    using a1 a2 try_alloc_no_oom [of a 24] try_alloc_no_oom [of a "8 * n"] by (auto simp: PTRDIFF_MAX_def)
  have "sm_rep \<lparr>sm_nelem = n, hashtable = replicate n None, last_id = 0\<rparr> (replicate n [])"
    using assms by (auto simp: sm_rep_def list_all2_conv_all_nth bucket_rep_def)
  then show ?thesis using a1 a2 assms dec by (cases ok1; cases ok2) (auto simp: stringmap_new_def)
qed

lemma ids_empty [simp]: "ids (replicate n []) = Map.empty"
proof -
  have "concat (replicate n []) = ([] :: 'a list)" by (induction n) auto
  then show ?thesis by (simp add: ids_def fun_eq_iff)
qed

lemma dom_ids: "set (map e_s (concat bss)) = dom (ids bss)"
  by (force simp: ids_def dom_def find_None_iff simp flip: not_None_eq)

lemma find_entry_id:
  "distinct (map e_id es) \<Longrightarrow> map_option e_id (find (\<lambda>e. e_s e = s) es) = Some n \<Longrightarrow>
   map_option e_id (find (\<lambda>e. e_s e = t) es) = Some n \<Longrightarrow> s = t"
proof -
  assume d: "distinct (map e_id es)" and "map_option e_id (find (\<lambda>e. e_s e = s) es) = Some n"
    "map_option e_id (find (\<lambda>e. e_s e = t) es) = Some n"
  then obtain e f where "find (\<lambda>e. e_s e = s) es = Some e" "e_id e = n" "find (\<lambda>e. e_s e = t) es = Some f" "e_id f = n" by auto
  then have "e \<in> set es" "e_s e = s" "e_id e = n" "f \<in> set es" "e_s f = t" "e_id f = n"
    by (auto simp: find_Some_iff)
  then show ?thesis using d by (auto simp: distinct_map dest: inj_onD)
qed

lemma ids_inj: "sm_rep sm bss \<Longrightarrow> inj_on (ids bss) (dom (ids bss))"
  unfolding inj_on_def ids_def using find_entry_id [of "concat bss"] by (auto simp: sm_rep_def)

lemma distinct_strings: "sm_rep sm bss \<Longrightarrow> distinct (map e_s (concat bss))"
proof -
  assume rep: "sm_rep sm bss"
  have len: "length bss = sm_nelem sm" by (rule sm_rep_length [OF rep])
  have b: "distinct (map e_s (bss ! i))" "set (bss ! i) \<subseteq> {e. slot_of (sm_nelem sm) (e_s e) = i}" if "i < length bss" for i
    using rep that len by (auto simp: sm_rep_def entry_ok_def)
  have "n \<le> length bss \<Longrightarrow> distinct (map e_s (concat (take n bss))) \<and>
      (\<forall>e \<in> set (concat (take n bss)). slot_of (sm_nelem sm) (e_s e) < n)" for n
  proof (induction n)
    case (Suc n)
    have "e_s e \<noteq> e_s f" if "e \<in> set (concat (take n bss))" "f \<in> set (bss ! n)" for e f
      using Suc that b(2) [of n] by (metis (mono_tags) Suc_leD less_irrefl mem_Collect_eq subsetD Suc_le_lessD)
    then have "e_s ` set (concat (take n bss)) \<inter> e_s ` set (bss ! n) = {}" by blast
    then show ?case using Suc b [of n] by (auto simp: take_Suc_conv_app_nth less_SucI)
  qed simp
  from this [of "length bss"] show ?thesis by simp
qed

lemma stringmap_subset_spec:
  assumes rep: "sm_rep sm1 bss1" "sm_rep sm2 bss2" and few: "length (concat bss1) < 2 ^ 64"
  shows "\<exists>r a'. stringmap_subset sm1 sm2 a = Some (r, a') \<and>
    (\<forall>sm. r = Some sm \<longrightarrow> (\<exists>bss. sm_rep sm bss \<and> dom (ids bss) = dom (ids bss1) - dom (ids bss2))) \<and>
    (decisions a = [] \<and> 8 * sm_nelem sm1 \<le> PTRDIFF_MAX \<longrightarrow> r \<noteq> None)"
proof -
  have "0 < sm_nelem sm1" using rep(1) by (simp add: sm_rep_def)
  then obtain r a1 where n: "stringmap_new (sm_nelem sm1) a = Some (r, a1)"
      "\<forall>sm. r = Some sm \<longrightarrow> sm_rep sm (replicate (sm_nelem sm1) []) \<and> sm_nelem sm = sm_nelem sm1 \<and> last_id sm = 0"
      "decisions a = [] \<and> 8 * sm_nelem sm1 \<le> PTRDIFF_MAX \<longrightarrow> r \<noteq> None \<and> a1 = a"
    using stringmap_new_spec by blast
  show ?thesis
  proof (cases r)
    case None
    then show ?thesis using n by (simp add: stringmap_subset_def)
  next
    case (Some sm)
    have ok: "\<forall>e \<in> set (concat bss1). e_s e \<noteq> [] \<and> length (e_s e) < PTRDIFF_MAX"
      using sm_rep_entry [OF rep(1)] by (auto simp: entry_ok_def)
    have sm: "sm_rep sm (replicate (sm_nelem sm1) [])" "unat (last_id sm) + length (concat bss1) < 2 ^ 64"
      using n(2) Some few by simp_all
    let ?B = "\<lambda>e (sm, a). do { ex \<leftarrow> stringmap_exists sm2 (e_s e);
              if ex then Some (True, (sm, a))
              else do { (st, _, sm, a) \<leftarrow> stringmap_add sm (e_s e) a; Some (st, (sm, a)) } }"
    obtain ok sm' a' bss' where loop: "fold_go ?B (concat bss1) (sm, a1) = Some (ok, sm', a')" "sm_rep sm' bss'"
        "ok \<longrightarrow> dom (ids bss') = dom (ids (replicate (sm_nelem sm1) [])) \<union> {s \<in> e_s ` set (concat bss1). ids bss2 s = None}"
        "decisions a1 = [] \<longrightarrow> ok"
      using subset_loop [OF rep(2) sm ok, of a1] by blast
    have "e_s ` set (concat bss1) = dom (ids bss1)" using dom_ids [of bss1] by simp
    then have dom: "ok \<longrightarrow> dom (ids bss') = dom (ids bss1) - dom (ids bss2)" using loop(3) by auto
    have run: "stringmap_subset sm1 sm2 a = (if ok then Some (Some sm', a') else Some (None, a'))"
      using n(1) Some loop(1) sm_loop [OF rep(1), of ?B "(sm, a1)"] stringmap_free_spec(1) [OF loop(2)]
      by (simp add: stringmap_subset_def)
    show ?thesis using run dom loop(2,4) n(3) by (cases ok) auto
  qed
qed

subsection \<open>Properties\<close>

text \<open>
  C32. A string map is a numbering of strings. \<open>stringmap_exists\<close> and \<open>stringmap_get_id\<close> answer from the numbering;
  \<open>stringmap_add\<close> returns the number of a known string and changes nothing, and gives a new string the next
  number, different from every number in the map, leaving the others alone, or reports failure and keeps the
  numbering; it fails only when an allocation does. The invariant (entries hashed into their bucket, one entry per
  string, distinct numbers) is kept. The numbers are unique until the counter reaches \<open>ULONG_MAX\<close>.
\<close>
theorem stringmap_correct:
  assumes "sm_rep sm bss" "s \<noteq> []" "length s < PTRDIFF_MAX" "last_id sm \<noteq> - 1" "t \<noteq> []"
  shows "stringmap_exists sm t = Some (ids bss t \<noteq> None) \<and> stringmap_get_id sm t = Some (ids bss t \<noteq> None, ids bss t) \<and>
    inj_on (ids bss) (dom (ids bss)) \<and>
    (\<forall>n. ids bss s = Some n \<longrightarrow> stringmap_add sm s a = Some (success, Some n, sm, a)) \<and>
    (ids bss s = None \<longrightarrow> (\<exists>st pid sm' a' bss'. stringmap_add sm s a = Some (st, pid, sm', a') \<and> sm_rep sm' bss' \<and>
       ids bss' = (if st then (ids bss)(s \<mapsto> last_id sm + 1) else ids bss) \<and> (st \<longrightarrow> pid = Some (last_id sm + 1)) \<and>
       (decisions a = [] \<longrightarrow> st)))"
proof (intro conjI allI impI)
  show "stringmap_exists sm t = Some (ids bss t \<noteq> None)" "stringmap_get_id sm t = Some (ids bss t \<noteq> None, ids bss t)"
    using sm_lookup_spec [OF assms(1,5)] .
  show "inj_on (ids bss) (dom (ids bss))" by (rule ids_inj [OF assms(1)])
  show "stringmap_add sm s a = Some (success, Some n, sm, a)" if "ids bss s = Some n" for n
    by (rule stringmap_add_known [OF assms(1,2) that])
  assume new: "ids bss s = None"
  have "ids (bss_add (sm_nelem sm) bss (new_entry sm s)) = (ids bss)(s \<mapsto> last_id sm + 1)"
    using ids_bss_add [of "sm_nelem sm" "new_entry sm s" bss] new sm_rep_length [OF assms(1)] slot_less [OF assms(1)]
    by (simp add: new_entry_def)
  moreover obtain st pid sm' a' where "stringmap_add sm s a = Some (st, pid, sm', a')"
      "sm_rep sm' (if st then bss_add (sm_nelem sm) bss (new_entry sm s) else bss)" "st \<longrightarrow> pid = Some (last_id sm + 1)"
      "decisions a = [] \<longrightarrow> st \<and> a' = a"
    using stringmap_add_new [OF assms(1,2,3) new assms(4), of a] by blast
  ultimately show "\<exists>st pid sm' a' bss'. stringmap_add sm s a = Some (st, pid, sm', a') \<and> sm_rep sm' bss' \<and>
       ids bss' = (if st then (ids bss)(s \<mapsto> last_id sm + 1) else ids bss) \<and> (st \<longrightarrow> pid = Some (last_id sm + 1)) \<and>
       (decisions a = [] \<longrightarrow> st)" by (cases st) auto
qed

text \<open>A map with two empty buckets.\<close>

definition sm2 :: stringmap where
  "sm2 = \<lparr>sm_nelem = 2, hashtable = [None, None], last_id = 0\<rparr>"

lemma sm2_rep: "sm_rep sm2 [[], []]"
  by (simp add: sm_rep_def sm2_def bucket_rep_def less_2_cases_iff)

theorem stringmap_correct_witness:
  "\<exists>sm' a' bss'. stringmap_add sm2 ''k'' no_oom = Some (success, Some 1, sm', a') \<and> sm_rep sm' bss' \<and> ids bss' ''k'' = Some 1"
proof -
  have h: "''k'' \<noteq> []" "length ''k'' < PTRDIFF_MAX" "last_id sm2 \<noteq> - 1" "ids [[], []] ''k'' = None"
    by (simp_all add: PTRDIFF_MAX_def sm2_def ids_def)
  have "last_id sm2 + 1 = 1" "decisions no_oom = []" by (simp_all add: sm2_def no_oom_def)
  moreover obtain st pid sm' a' bss' where "stringmap_add sm2 ''k'' no_oom = Some (st, pid, sm', a')" "sm_rep sm' bss'"
      "ids bss' = (if st then (ids [[], []])(''k'' \<mapsto> last_id sm2 + 1) else ids [[], []])" "st \<longrightarrow> pid = Some (last_id sm2 + 1)"
      "decisions no_oom = [] \<longrightarrow> st"
    using stringmap_correct [OF sm2_rep h(1,2,3,1), of no_oom] h(4) by blast
  ultimately show ?thesis by (intro exI [of _ sm'] exI [of _ a'] exI [of _ bss']) simp
qed

text \<open>
  The whole-map operations: \<open>stringmap_foreach\<close> calls the function once per string, bucket by bucket, until it returns
  0; \<open>stringmap_tolist\<close> returns the list of all strings, \<open>stringmap_subset\<close> a well-formed map of exactly the strings of
  the first map that are not in the second, or each returns NULL after a failed allocation;
  \<open>stringmap_free\<close> frees every entry once. \<open>stringmap_invalidate\<close> frees the buckets but keeps the pointers to them, so that a
  later look-up of a string that was in the map reads freed memory.
\<close>
theorem stringmap_whole_correct:
  assumes "sm_rep sm bss" "sm_rep sm' bss'" "length (concat bss) < 2 ^ 64"
  shows "stringmap_foreach sm fn arg = Some (run_each (\<lambda>s e. fn (e_s e) s) (concat bss) arg) \<and>
    distinct (map e_s (concat bss)) \<and> set (map e_s (concat bss)) = dom (ids bss) \<and>
    (\<exists>r a'. stringmap_tolist sm a = Some (r, a') \<and> (\<forall>l. r = Some l \<longrightarrow> lrep l (map e_s (concat bss))) \<and> (decisions a = [] \<longrightarrow> r \<noteq> None)) \<and>
    (\<exists>r a'. stringmap_subset sm sm' a = Some (r, a') \<and>
       (\<forall>m. r = Some m \<longrightarrow> (\<exists>bss''. sm_rep m bss'' \<and> dom (ids bss'') = dom (ids bss) - dom (ids bss'))) \<and>
       (decisions a = [] \<and> 8 * sm_nelem sm \<le> PTRDIFF_MAX \<longrightarrow> r \<noteq> None)) \<and>
    stringmap_free sm = Some (concat bss) \<and>
    (\<exists>dangling. stringmap_invalidate sm = Some (success, dangling) \<and>
       (\<forall>s. s \<noteq> [] \<and> ids bss s \<noteq> None \<longrightarrow> stringmap_exists dangling s = None))"
  by (intro conjI stringmap_foreach_spec stringmap_tolist_spec stringmap_subset_spec stringmap_free_spec assms
      distinct_strings [OF assms(1)] dom_ids)

theorem stringmap_whole_correct_witness:
  "stringmap_foreach sm2 (\<lambda>s n. (True, Suc n)) 0 = Some (True, 0) \<and> stringmap_free sm2 = Some []"
proof -
  have h: "length (concat [[], []] :: sm_entry list) < 2 ^ 64" by simp
  show ?thesis using stringmap_whole_correct [OF sm2_rep sm2_rep h, of "\<lambda>s n. (True, Suc n)" 0 no_oom] by simp
qed

end
