(* ===== verification/MetaPool.thy ===== *)
theory MetaPool
  imports HL_Prelude "HOL-Library.Multiset"
begin

section \<open>Resource pools\<close>

text \<open>
  The pool of \<open>src/meta/src/meta_pool.c\<close>, from which the server threads take connections, requests and
  responses. \<open>pthread_mutex_lock\<close> and \<open>pthread_mutex_unlock\<close> are what the C library returns: the two
  arguments \<open>e1\<close> and \<open>e2\<close>, \<open>E0\<close> for 0. A resource is a non-null pointer, so an entry of \<open>pdata\<close> is an
  option. Every operation reads and writes the entries inside one critical section, so that concurrent
  calls are a sequence of critical sections; \<open>pool_add\<close> alone also reads a field before it locks.
\<close>

subsection \<open>Operations\<close>

record 'r pool =
  pdata :: "'r option list"
  pl_size :: size_t
  pl_nelem :: size_t

definition pool_new :: "size_t \<Rightarrow> allocator \<Rightarrow> ('r pool option \<times> allocator) option" where
  "pool_new n a = (if n > 0 then
     (case try_alloc 64 a of
        (False, a) \<Rightarrow> Some (None, a)
      | (True, a) \<Rightarrow> (case try_alloc (8 * n) a of
          (False, a) \<Rightarrow> Some (None, a)
        | (True, a) \<Rightarrow> Some (Some \<lparr>pdata = replicate n None, pl_size = n, pl_nelem = 0\<rparr>, a)))
     else None)"

text \<open>The loop of \<open>pool_free\<close>: the arguments of the destructor.\<close>

fun dtor_loop :: "nat \<Rightarrow> nat \<Rightarrow> 'r option list \<Rightarrow> 'r list option" where
  "dtor_loop i 0 pd = Some []"
| "dtor_loop i (Suc k) pd = do {
     x \<leftarrow> get_at pd i;
     rest \<leftarrow> dtor_loop (Suc i) k pd;
     Some (case x of None \<Rightarrow> rest | Some r \<Rightarrow> r # rest) }"

definition pool_free :: "'r pool \<Rightarrow> bool \<Rightarrow> errno_t \<Rightarrow> errno_t \<Rightarrow> 'r list option" where
  "pool_free this has_dtor e1 e2 = (if has_dtor then
     if e1 \<noteq> E0 then None
     else do {
       dead \<leftarrow> dtor_loop 0 (pl_nelem this) (pdata this);
       if e2 \<noteq> E0 then None else Some dead }
   else Some [])"

definition pool_add_locked :: "'r pool \<Rightarrow> 'r \<Rightarrow> 'r pool option" where
  "pool_add_locked this resource = do {
     pd \<leftarrow> put_at (pdata this) (pl_nelem this) (Some resource);
     Some (this\<lparr>pdata := pd, pl_nelem := pl_nelem this + 1\<rparr>) }"

definition pool_add :: "'r pool \<Rightarrow> 'r \<Rightarrow> errno_t \<Rightarrow> errno_t \<Rightarrow> (status_t \<times> errno_t \<times> 'r pool) option" where
  "pool_add this resource e1 e2 = (if pl_nelem this < pl_size this then
     if e1 \<noteq> E0 then Some (failure, e1, this)
     else do {
       this \<leftarrow> pool_add_locked this resource;
       if e2 \<noteq> E0 then Some (failure, e2, this) else Some (success, E0, this) }
   else None)"

text \<open>The searches for a resource and for an empty entry; the result has the index where the loop ended.\<close>

fun get_loop :: "nat \<Rightarrow> nat \<Rightarrow> 'r option list \<Rightarrow> (nat \<times> 'r option \<times> 'r option list) option" where
  "get_loop i 0 pd = Some (i, None, pd)"
| "get_loop i (Suc k) pd = do {
     x \<leftarrow> get_at pd i;
     (case x of
        Some r \<Rightarrow> do { pd \<leftarrow> put_at pd i None; Some (i, Some r, pd) }
      | None \<Rightarrow> get_loop (Suc i) k pd) }"

fun recycle_loop :: "nat \<Rightarrow> nat \<Rightarrow> 'r \<Rightarrow> 'r option list \<Rightarrow> (nat \<times> 'r option list) option" where
  "recycle_loop i 0 r pd = Some (i, pd)"
| "recycle_loop i (Suc k) r pd = do {
     x \<leftarrow> get_at pd i;
     (case x of
        None \<Rightarrow> do { pd \<leftarrow> put_at pd i (Some r); Some (i, pd) }
      | Some _ \<Rightarrow> recycle_loop (Suc i) k r pd) }"

definition pool_get :: "'r pool \<Rightarrow> errno_t \<Rightarrow> errno_t \<Rightarrow> (status_t \<times> errno_t \<times> 'r option \<times> 'r pool) option" where
  "pool_get this e1 e2 = (if e1 \<noteq> E0 then Some (failure, e1, None, this)
   else do {
     (i, resource, pd) \<leftarrow> get_loop 0 (pl_nelem this) (pdata this);
     let this = this\<lparr>pdata := pd\<rparr>;
     if e2 \<noteq> E0 then Some (failure, e2, None, this)
     else if i = pl_nelem this then Some (failure, ENOSPC, None, this)
     else if resource = None then Some (failure, EINVAL, None, this)
     else Some (success, E0, resource, this) })"

definition pool_recycle :: "'r pool \<Rightarrow> 'r \<Rightarrow> errno_t \<Rightarrow> errno_t \<Rightarrow> (status_t \<times> errno_t \<times> 'r pool) option" where
  "pool_recycle this resource e1 e2 = (if e1 \<noteq> E0 then Some (failure, e1, this)
   else do {
     (i, pd) \<leftarrow> recycle_loop 0 (pl_nelem this) resource (pdata this);
     let this = this\<lparr>pdata := pd\<rparr>;
     if e2 \<noteq> E0 then Some (failure, e2, this)
     else if i = pl_nelem this then None
     else Some (success, E0, this) })"

subsection \<open>What a pool holds\<close>

definition pool_ok :: "'r pool \<Rightarrow> bool" where
  "pool_ok p \<longleftrightarrow> 0 < pl_size p \<and> length (pdata p) = pl_size p \<and> pl_nelem p \<le> pl_size p"

definition the_list :: "'r option list \<Rightarrow> 'r list" where
  "the_list pd = List.map_filter (\<lambda>x. x) pd"

definition avail :: "'r pool \<Rightarrow> 'r list" where
  "avail p = the_list (take (pl_nelem p) (pdata p))"

lemma the_list_simps [simp]:
  "the_list [] = []" "the_list (None # pd) = the_list pd" "the_list (Some r # pd) = r # the_list pd"
  "the_list (xs @ ys) = the_list xs @ the_list ys"
  by (simp_all add: the_list_def map_filter_def)

lemma length_the_list: "length (the_list pd) \<le> length pd"
  by (simp add: the_list_def map_filter_def)

lemma the_list_full: "length (the_list pd) = length pd \<longleftrightarrow> None \<notin> set pd"
proof (induction pd)
  case (Cons x pd)
  then show ?case using length_the_list [of pd] by (cases x) auto
qed simp

text \<open>The loops on the entries before, at and after the place they stop.\<close>

lemma dtor_loop_spec: "pd = xs @ ys @ zs \<Longrightarrow> dtor_loop (length xs) (length ys) pd = Some (the_list ys)"
proof (induction ys arbitrary: xs)
  case (Cons y ys)
  then show ?case using Cons.IH [of "xs @ [y]"] by (cases y) (simp_all add: get_at_def)
qed simp

lemma get_loop_spec:
  "pd = xs @ ys @ zs \<Longrightarrow> the_list xs = [] \<Longrightarrow> \<exists>i x pd'. get_loop (length xs) (length ys) pd = Some (i, x, pd') \<and>
   (case the_list ys of
      [] \<Rightarrow> i = length xs + length ys \<and> x = None \<and> pd' = pd
    | r # rs \<Rightarrow> i < length xs + length ys \<and> x = Some r \<and> length pd' = length pd \<and>
        the_list (take (length xs + length ys) pd') = rs)"
proof (induction ys arbitrary: xs)
  case (Cons y ys)
  show ?case
  proof (cases y)
    case None
    then show ?thesis using Cons.IH [of "xs @ [None]"] Cons.prems by (cases "the_list ys") (simp_all add: get_at_def)
  next
    case (Some r)
    then show ?thesis using Cons.prems by (simp add: get_at_def put_at_def list_update_append)
  qed
qed simp

lemma recycle_loop_spec:
  "pd = xs @ ys @ zs \<Longrightarrow> None \<notin> set xs \<Longrightarrow> \<exists>i pd'. recycle_loop (length xs) (length ys) r pd = Some (i, pd') \<and>
   (if None \<in> set ys then i < length xs + length ys \<and> length pd' = length pd \<and>
      mset (the_list (take (length xs + length ys) pd')) = add_mset r (mset (the_list xs) + mset (the_list ys))
    else i = length xs + length ys \<and> pd' = pd)"
proof (induction ys arbitrary: xs)
  case (Cons y ys)
  show ?case
  proof (cases y)
    case None
    then show ?thesis using Cons.prems by (simp add: get_at_def put_at_def list_update_append)
  next
    case (Some s)
    then show ?thesis using Cons.IH [of "xs @ [Some s]"] Cons.prems by (cases "None \<in> set ys") (simp_all add: get_at_def)
  qed
qed simp

lemma pool_split: "pool_ok p \<Longrightarrow> pdata p = [] @ take (pl_nelem p) (pdata p) @ drop (pl_nelem p) (pdata p)"
    "pool_ok p \<Longrightarrow> length (take (pl_nelem p) (pdata p)) = pl_nelem p"
  by (auto simp: pool_ok_def)

lemma pool_new_spec:
  "\<exists>r a'. 0 < n \<longrightarrow> pool_new n a = Some (r, a') \<and> (\<forall>p. r = Some p \<longrightarrow> pool_ok p \<and> pl_size p = n \<and> pl_nelem p = 0 \<and> avail p = [])"
  by (auto simp: pool_new_def pool_ok_def avail_def split: prod.split bool.split)

lemma pool_add_spec:
  assumes "pool_ok p"
  shows "pl_nelem p < pl_size p \<Longrightarrow> e1 = E0 \<Longrightarrow>
      \<exists>p'. pool_add_locked p r = Some p' \<and> pool_add p r e1 e2 = Some (e2 = E0, e2, p') \<and> pool_ok p' \<and> pl_size p' = pl_size p \<and>
        pl_nelem p' = pl_nelem p + 1 \<and> avail p' = avail p @ [r]"
    "pl_nelem p < pl_size p \<Longrightarrow> e1 \<noteq> E0 \<Longrightarrow> pool_add p r e1 e2 = Some (failure, e1, p)"
    "pl_nelem p = pl_size p \<Longrightarrow> pool_add p r e1 e2 = None \<and> pool_add_locked p r = None"
  using assms by (auto simp: pool_add_def pool_add_locked_def pool_ok_def avail_def put_at_def take_Suc_conv_app_nth)

lemma pool_get_spec:
  assumes ok: "pool_ok p"
  shows "e1 \<noteq> E0 \<Longrightarrow> pool_get p e1 e2 = Some (failure, e1, None, p)"
    "avail p = [] \<Longrightarrow> pool_get p E0 e2 = Some (failure, if e2 = E0 then ENOSPC else e2, None, p)"
    "avail p = r # rs \<Longrightarrow> \<exists>p'. pool_get p E0 e2 = Some (e2 = E0, e2, if e2 = E0 then Some r else None, p') \<and>
       pool_ok p' \<and> pl_size p' = pl_size p \<and> pl_nelem p' = pl_nelem p \<and> avail p' = rs"
proof -
  show "e1 \<noteq> E0 \<Longrightarrow> pool_get p e1 e2 = Some (failure, e1, None, p)" by (simp add: pool_get_def)
  obtain i x pd' where "get_loop 0 (pl_nelem p) (pdata p) = Some (i, x, pd')"
     "case avail p of [] \<Rightarrow> i = pl_nelem p \<and> x = None \<and> pd' = pdata p
    | r # rs \<Rightarrow> i < pl_nelem p \<and> x = Some r \<and> length pd' = length (pdata p) \<and> the_list (take (pl_nelem p) pd') = rs"
    using get_loop_spec [OF pool_split(1) [OF ok]] unfolding pool_split(2) [OF ok] avail_def list.size add_0 the_list_simps by blast
  then show "avail p = [] \<Longrightarrow> pool_get p E0 e2 = Some (failure, if e2 = E0 then ENOSPC else e2, None, p)"
    "avail p = r # rs \<Longrightarrow> \<exists>p'. pool_get p E0 e2 = Some (e2 = E0, e2, if e2 = E0 then Some r else None, p') \<and>
       pool_ok p' \<and> pl_size p' = pl_size p \<and> pl_nelem p' = pl_nelem p \<and> avail p' = rs"
    using ok by (auto simp: pool_get_def pool_ok_def avail_def Let_def)
qed

lemma pool_recycle_spec:
  assumes ok: "pool_ok p"
  shows "e1 \<noteq> E0 \<Longrightarrow> pool_recycle p r e1 e2 = Some (failure, e1, p)"
    "length (avail p) = pl_nelem p \<Longrightarrow> pool_recycle p r E0 E0 = None"
    "length (avail p) < pl_nelem p \<Longrightarrow> \<exists>p'. pool_recycle p r E0 e2 = Some (e2 = E0, e2, p') \<and>
       pool_ok p' \<and> pl_size p' = pl_size p \<and> pl_nelem p' = pl_nelem p \<and> mset (avail p') = add_mset r (mset (avail p))"
proof -
  show "e1 \<noteq> E0 \<Longrightarrow> pool_recycle p r e1 e2 = Some (failure, e1, p)" by (simp add: pool_recycle_def)
  let ?ys = "take (pl_nelem p) (pdata p)"
  obtain i pd' where l: "recycle_loop 0 (pl_nelem p) r (pdata p) = Some (i, pd')"
     "if None \<in> set ?ys then i < pl_nelem p \<and> length pd' = length (pdata p) \<and>
        mset (the_list (take (pl_nelem p) pd')) = add_mset r (mset (the_list ?ys)) else i = pl_nelem p \<and> pd' = pdata p"
    using recycle_loop_spec [OF pool_split(1) [OF ok], of r] unfolding pool_split(2) [OF ok] list.size add_0 the_list_simps
    by (auto split: if_splits)
  have full: "length (avail p) = pl_nelem p \<longleftrightarrow> None \<notin> set ?ys"
    using the_list_full [of ?ys] pool_split(2) [OF ok] by (simp add: avail_def)
  show "length (avail p) = pl_nelem p \<Longrightarrow> pool_recycle p r E0 E0 = None"
    using l full by (simp add: pool_recycle_def Let_def)
  assume "length (avail p) < pl_nelem p"
  then have "None \<in> set ?ys" using full by auto
  then show "\<exists>p'. pool_recycle p r E0 e2 = Some (e2 = E0, e2, p') \<and>
       pool_ok p' \<and> pl_size p' = pl_size p \<and> pl_nelem p' = pl_nelem p \<and> mset (avail p') = add_mset r (mset (avail p))"
    using l ok by (auto simp: pool_recycle_def pool_ok_def avail_def Let_def)
qed

lemma pool_free_spec:
  "pool_ok p \<Longrightarrow> pool_free p has_dtor E0 E0 = Some (if has_dtor then avail p else [])"
  using dtor_loop_spec [OF pool_split(1), of p] pool_split(2) [of p] by (simp add: pool_free_def avail_def)

subsection \<open>Threads sharing a pool\<close>

text \<open>
  A run of the threads that share a pool: the order of their critical sections, with whatever the mutex calls
  return. \<open>held\<close> are the resources the threads own, \<open>added\<close> those the owner of the pool put in, \<open>clean\<close> that no
  \<open>pthread_mutex_unlock\<close> has failed so far. A thread recycles only what it holds.
\<close>

record 'r psys =
  ps_pool :: "'r pool"
  held :: "'r multiset"
  added :: "'r multiset"
  clean :: bool

inductive pool_step :: "'r psys \<Rightarrow> 'r psys \<Rightarrow> bool" where
  step_add: "pool_add (ps_pool s) r e1 e2 = Some (st, e, p') \<Longrightarrow>
    pool_step s (s\<lparr>ps_pool := p', added := (if e1 = E0 then add_mset r (added s) else added s)\<rparr>)"
| step_get: "pool_get (ps_pool s) e1 e2 = Some (st, e, x, p') \<Longrightarrow>
    pool_step s (s\<lparr>ps_pool := p', held := (case x of Some r \<Rightarrow> add_mset r (held s) | None \<Rightarrow> held s),
      clean := (clean s \<and> e2 = E0)\<rparr>)"
| step_recycle: "r \<in># held s \<Longrightarrow> pool_recycle (ps_pool s) r e1 e2 = Some (st, e, p') \<Longrightarrow>
    pool_step s (s\<lparr>ps_pool := p', held := (if e1 = E0 then held s - {#r#} else held s)\<rparr>)"

inductive_cases pool_stepE: "pool_step s s'"

definition psys_ok :: "'r psys \<Rightarrow> bool" where
  "psys_ok s \<longleftrightarrow> pool_ok (ps_pool s) \<and> pl_nelem (ps_pool s) = size (added s) \<and>
     mset (avail (ps_pool s)) + held s \<subseteq># added s \<and> (clean s \<longrightarrow> mset (avail (ps_pool s)) + held s = added s)"

lemma psys_room: "psys_ok s \<Longrightarrow> r \<in># held s \<Longrightarrow> length (avail (ps_pool s)) < pl_nelem (ps_pool s)"
proof -
  assume ok: "psys_ok s" and r: "r \<in># held s"
  have "size (mset (avail (ps_pool s)) + held s) \<le> size (added s)" using ok unfolding psys_ok_def by (blast intro: size_mset_mono)
  moreover have "0 < size (held s)" using r by (metis multi_member_this size_eq_0_iff_empty gr0I empty_iff set_mset_empty)
  ultimately show ?thesis using ok by (simp add: psys_ok_def)
qed

lemma pool_step_ok: "pool_step s s' \<Longrightarrow> psys_ok s \<Longrightarrow> psys_ok s'"
proof (induction rule: pool_step.induct)
  case (step_add s r e1 e2 st e p')
  have ok: "pool_ok (ps_pool s)" using step_add.prems by (simp add: psys_ok_def)
  have "pl_nelem (ps_pool s) < pl_size (ps_pool s)" using step_add.hyps by (auto simp: pool_add_def split: if_splits)
  then show ?case using pool_add_spec(1,2) [OF ok, of e1 r e2] step_add by (cases "e1 = E0") (auto simp: psys_ok_def)
next
  case (step_get s e1 e2 st e x p')
  have ok: "pool_ok (ps_pool s)" using step_get.prems by (simp add: psys_ok_def)
  show ?case
  proof (cases "e1 = E0 \<and> avail (ps_pool s) \<noteq> []")
    case True
    then obtain r rs where rs: "avail (ps_pool s) = r # rs" by (cases "avail (ps_pool s)") auto
    have "mset rs + held s \<subseteq># added s" "mset rs + add_mset r (held s) = mset (r # rs) + held s"
      using step_get.prems rs by (auto simp: psys_ok_def dest: mset_subset_eq_insertD subset_mset.less_imp_le)
    then show ?thesis using True rs pool_get_spec(3) [OF ok rs, of e2] step_get
      by (cases "e2 = E0") (auto simp: psys_ok_def)
  next
    case False
    then have "p' = ps_pool s" "x = None"
      using pool_get_spec(1) [OF ok, of e1 e2] pool_get_spec(2) [OF ok, of e2] step_get.hyps by (cases "e1 = E0"; auto)+
    then show ?thesis using step_get.prems by (auto simp: psys_ok_def)
  qed
next
  case (step_recycle r s e1 e2 st e p')
  have ok: "pool_ok (ps_pool s)" using step_recycle.prems by (simp add: psys_ok_def)
  obtain h where h: "held s = add_mset r h" using step_recycle.hyps(1) by (meson mset_add)
  show ?case using pool_recycle_spec(1) [OF ok, of e1 r e2] pool_recycle_spec(3) [OF ok, of r e2] psys_room [OF step_recycle.prems step_recycle.hyps(1)] step_recycle h
    by (cases "e1 = E0") (auto simp: psys_ok_def)
qed

lemma pool_run_ok: "pool_step\<^sup>*\<^sup>* s s' \<Longrightarrow> psys_ok s \<Longrightarrow> psys_ok s'"
  by (induction rule: rtranclp_induct) (auto intro: pool_step_ok)

subsection \<open>Properties\<close>

text \<open>
  The operations of a pool, one thread at a time: \<open>pool_get\<close> hands out the first resource that is in, and fails with
  \<open>ENOSPC\<close> exactly when none is; \<open>pool_recycle\<close> puts a resource back into an empty entry and dies exactly when there is no
  empty entry; \<open>pool_add\<close> appends, its assert fails exactly on a full pool; \<open>pool_free\<close> passes every resource that
  is in to the destructor. A failing lock changes nothing. A failing unlock in \<open>pool_get\<close> loses the resource. The assert of
  \<open>pool_add\<close> stands outside the critical section: when two threads pass it with one entry left, the second write is
  outside the array.
\<close>
theorem pool_ops_correct:
  assumes "pool_ok p"
  shows "(avail p = [] \<longrightarrow> pool_get p E0 E0 = Some (failure, ENOSPC, None, p)) \<and>
    (avail p \<noteq> [] \<longrightarrow> (\<exists>p'. pool_get p E0 E0 = Some (success, E0, Some (hd (avail p)), p') \<and> pool_ok p' \<and> avail p' = tl (avail p)) \<and>
      (\<exists>p'. pool_get p E0 EPERM = Some (failure, EPERM, None, p') \<and> pool_ok p' \<and> avail p' = tl (avail p))) \<and>
    (pool_recycle p r E0 E0 = None \<longleftrightarrow> length (avail p) = pl_nelem p) \<and>
    (length (avail p) < pl_nelem p \<longrightarrow> (\<exists>p'. pool_recycle p r E0 E0 = Some (success, E0, p') \<and> pool_ok p' \<and>
       mset (avail p') = add_mset r (mset (avail p)))) \<and>
    (pool_add p r E0 E0 = None \<longleftrightarrow> pl_nelem p = pl_size p) \<and>
    (pl_nelem p < pl_size p \<longrightarrow> (\<exists>p'. pool_add p r E0 E0 = Some (success, E0, p') \<and> pool_ok p' \<and> avail p' = avail p @ [r])) \<and>
    (pl_nelem p + 1 = pl_size p \<longrightarrow> (\<exists>p'. pool_add_locked p r = Some p' \<and> pool_add_locked p' r' = None)) \<and>
    pool_free p True E0 E0 = Some (avail p) \<and>
    pool_get p EINVAL e2 = Some (failure, EINVAL, None, p) \<and> pool_recycle p r EINVAL e2 = Some (failure, EINVAL, p)"
proof (intro conjI impI)
  have le: "length (avail p) \<le> pl_nelem p" "pl_nelem p \<le> pl_size p"
    using assms length_the_list [of "take (pl_nelem p) (pdata p)"] by (auto simp: avail_def pool_ok_def)
  show "pool_recycle p r E0 E0 = None \<longleftrightarrow> length (avail p) = pl_nelem p"
    using pool_recycle_spec(2) [OF assms, of r] pool_recycle_spec(3) [OF assms, of r E0] le(1)
    by (cases "length (avail p) = pl_nelem p") auto
  show "pool_add p r E0 E0 = None \<longleftrightarrow> pl_nelem p = pl_size p"
    using pool_add_spec(1,3) [OF assms, where r = r and ?e1.0 = E0 and ?e2.0 = E0] le(2) by (cases "pl_nelem p = pl_size p") auto
  show "\<exists>p'. pool_add_locked p r = Some p' \<and> pool_add_locked p' r' = None" if one: "pl_nelem p + 1 = pl_size p"
  proof -
    obtain p' where p': "pool_add_locked p r = Some p'" "pool_ok p'" "pl_nelem p' = pl_size p'"
      using pool_add_spec(1) [OF assms, of E0 r E0] one by auto
    show ?thesis using p'(1) pool_add_spec(3) [OF p'(2,3), of r'] by simp
  qed
  assume "avail p \<noteq> []"
  then obtain x xs where x: "avail p = x # xs" by (cases "avail p") auto
  show "\<exists>p'. pool_get p E0 E0 = Some (success, E0, Some (hd (avail p)), p') \<and> pool_ok p' \<and> avail p' = tl (avail p)"
    "\<exists>p'. pool_get p E0 EPERM = Some (failure, EPERM, None, p') \<and> pool_ok p' \<and> avail p' = tl (avail p)"
    using pool_get_spec(3) [OF assms x, of E0] pool_get_spec(3) [OF assms x, of EPERM] x by auto
qed (use pool_get_spec(2) [OF assms, of E0] pool_recycle_spec(3) [OF assms, of r E0] pool_add_spec(1) [OF assms, of E0 r E0] pool_free_spec [OF assms, of True]
    pool_get_spec(1) [OF assms, of EINVAL e2] pool_recycle_spec(1) [OF assms, of EINVAL r e2] in auto)

theorem pool_ops_correct_witness:
  "pool_ok \<lparr>pdata = [None, Some (7 :: nat), None], pl_size = 3, pl_nelem = 2\<rparr> \<and>
   pool_free \<lparr>pdata = [None, Some (7 :: nat), None], pl_size = 3, pl_nelem = 2\<rparr> True E0 E0 = Some [7]"
proof -
  let ?p = "\<lparr>pdata = [None, Some (7 :: nat), None], pl_size = 3, pl_nelem = 2\<rparr>"
  have ok: "pool_ok ?p" by (simp add: pool_ok_def)
  have "avail ?p = [7]" by (simp add: avail_def numeral_2_eq_2)
  then show ?thesis using ok pool_ops_correct [OF ok, of 1 2 E0] by simp
qed

text \<open>
  C26. Threads sharing a pool. In every run of critical sections, with any results of the mutex calls, starting from a new
  pool: the resources that are in and those the threads hold are among those added, each at most as often as it was added, and
  all of them when no unlock has failed; so with distinct resources \<open>pool_get\<close> never hands out a resource that a
  thread holds, and recycling a held resource never dies.
\<close>
theorem pool_threads_correct:
  assumes "pool_ok p" "pl_nelem p = 0" "pool_step\<^sup>*\<^sup>* \<lparr>ps_pool = p, held = {#}, added = {#}, clean = True\<rparr> s"
  shows "mset (avail (ps_pool s)) + held s \<subseteq># added s \<and> (clean s \<longrightarrow> mset (avail (ps_pool s)) + held s = added s) \<and>
    (\<forall>e1 e2 st e r p'. pool_get (ps_pool s) e1 e2 = Some (st, e, Some r, p') \<and> count (added s) r = 1 \<longrightarrow> r \<notin># held s) \<and>
    (\<forall>r \<in># held s. \<forall>e1 e2. pool_recycle (ps_pool s) r e1 e2 \<noteq> None)"
proof (intro conjI allI ballI impI)
  have "psys_ok \<lparr>ps_pool = p, held = {#}, added = {#}, clean = True\<rparr>" using assms(1,2) by (simp add: psys_ok_def avail_def)
  then have ok: "psys_ok s" using pool_run_ok assms(3) by blast
  then show "mset (avail (ps_pool s)) + held s \<subseteq># added s" by (simp add: psys_ok_def)
  have p: "pool_ok (ps_pool s)" using ok by (simp add: psys_ok_def)
  show "mset (avail (ps_pool s)) + held s = added s" if "clean s" using ok that by (simp add: psys_ok_def)
  show "pool_recycle (ps_pool s) r e1 e2 \<noteq> None" if "r \<in># held s" for r e1 e2
    using pool_recycle_spec(1) [OF p, of e1 r e2] pool_recycle_spec(3) [OF p, of r e2] psys_room [OF ok that] by (cases "e1 = E0") auto
  fix e1 e2 st e r p'
  assume g: "pool_get (ps_pool s) e1 e2 = Some (st, e, Some r, p') \<and> count (added s) r = 1"
  then have "e1 = E0" using pool_get_spec(1) [OF p, of e1 e2] by auto
  then have "r \<in> set (avail (ps_pool s))"
    using g pool_get_spec(2,3) [OF p, where ?e2.0 = e2] by (cases "avail (ps_pool s)") (auto split: if_splits)
  then have "0 < count (mset (avail (ps_pool s))) r" by simp
  moreover have "count (mset (avail (ps_pool s)) + held s) r \<le> count (added s) r"
    using ok unfolding psys_ok_def by (blast intro: mset_subset_eq_count)
  ultimately have "count (held s) r = 0" using g unfolding count_union by linarith
  then show "r \<notin># held s" by (simp add: not_in_iff)
qed

text \<open>A pool of one entry: a resource is added and handed out.\<close>

definition pool1 :: "nat pool" where
  "pool1 = \<lparr>pdata = [None], pl_size = 1, pl_nelem = 0\<rparr>"

theorem pool_threads_correct_witness:
  "pool_step\<^sup>*\<^sup>* \<lparr>ps_pool = pool1, held = {#}, added = {#}, clean = True\<rparr>
     \<lparr>ps_pool = pool1\<lparr>pl_nelem := 1\<rparr>, held = {#5#}, added = {#5#}, clean = True\<rparr> \<and>
   pool_recycle (pool1\<lparr>pl_nelem := 1\<rparr>) 5 E0 E0 \<noteq> None"
proof -
  let ?s0 = "\<lparr>ps_pool = pool1, held = {#}, added = {#}, clean = True\<rparr>"
  let ?s1 = "\<lparr>ps_pool = pool1\<lparr>pl_nelem := 1, pdata := [Some 5]\<rparr>, held = {#}, added = {#5#}, clean = True\<rparr>"
  let ?s2 = "\<lparr>ps_pool = pool1\<lparr>pl_nelem := 1\<rparr>, held = {#5#}, added = {#5#}, clean = True\<rparr>"
  have "pool_step ?s0 ?s1" using step_add [of ?s0 5 E0 E0]
    by (simp add: pool_add_def pool_add_locked_def put_at_def pool1_def)
  moreover have "pool_step ?s1 ?s2" using step_get [of ?s1 E0 E0]
    by (simp add: pool_get_def get_at_def put_at_def pool1_def)
  ultimately have run: "pool_step\<^sup>*\<^sup>* ?s0 ?s2" by (meson rtranclp.rtrancl_into_rtrancl rtranclp.rtrancl_refl)
  have ok: "pool_ok pool1" "pl_nelem pool1 = 0" by (simp_all add: pool_ok_def pool1_def)
  show ?thesis using run pool_threads_correct [OF ok run] by simp
qed

end
