(* ===== verification/Json_Lex.thy ===== *)
theory Json_Lex
  imports Convert
begin

section \<open>The JSON tokenizer\<close>

text \<open>
  The first half of \<open>src/json/json.c\<close>: the input buffer, the number predicates and \<open>nextsym\<close>. Pointers into
  the source (\<open>mem + n\<close>) are offsets. The result of \<open>buffer_getc\<close> is \<open>None\<close> for \<open>EOF\<close>; since \<open>char\<close> is
  signed, the byte 255 converts to the \<open>int\<close> -1 and is \<open>EOF\<close>, too. The object behind \<open>mem\<close> may be longer than the
  \<open>size\<close> bytes of the input, as a mapped file or a string literal is. \<open>strtold\<close> is modelled for the
  decimal numerals the tokenizer passes to it, with the range of the x87 extended format.
  The allocator the calls of a parser consult is the field \<open>heap\<close> of the parser.
\<close>

subsection \<open>Numbers\<close>

text \<open>Reading the character at an offset of a C string: its terminator is behind the last character.\<close>

definition cs_at :: "string \<Rightarrow> nat \<Rightarrow> char" where
  "cs_at s i = (if i < length s then s ! i else NUL)"

definition is_zero :: "string \<Rightarrow> bool" where
  "is_zero s \<longleftrightarrow> cs_at s 0 = CHR ''0'' \<and> cs_at s 1 = NUL"

definition has_leading_zero :: "string \<Rightarrow> bool" where
  "has_leading_zero s = (
     let s = dropWhile isspace s in
     if cs_at s 0 = NUL then False
     else let s = (if cs_at s 0 = CHR ''-'' then tl s else s) in
       if cs_at s 0 \<noteq> CHR ''0'' then False else isdigit (cs_at s 1))"

definition isinteger :: "string \<Rightarrow> bool" where
  "isinteger s = (
     let s = (if cs_at s 0 = CHR ''-'' then tl s else s) in
     if is_zero s then True
     else if has_leading_zero s then False
     else if CHR ''0'' \<noteq> cs_at s 0 \<and> isdigit (cs_at s 0) then list_all isdigit (tl s)
     else False)"

definition has_trailing_dots :: "string \<Rightarrow> bool" where
  "has_trailing_dots s = (if s = [] then False else last s = CHR ''.'')"

text \<open>
  A decimal numeral as \<open>strtold\<close> scans it: mantissa, decimal exponent and the offset of the end; and whether the
  result overflows, or underflows to a value that is not exact, which sets \<open>errno\<close>.
\<close>

definition scan_exponent :: "string \<Rightarrow> int \<times> nat" where
  "scan_exponent r = (if r \<noteq> [] \<and> (hd r = CHR ''e'' \<or> hd r = CHR ''E'') then
     let (neg, ds) = split_sign (tl r); es = takeWhile isdigit ds in
     if es = [] then (0, 0)
     else (if neg then - int (number 10 0 es) else int (number 10 0 es), length r - length ds + length es)
   else (0, 0))"

definition strtold_scan :: "string \<Rightarrow> (nat \<times> int \<times> nat) option" where
  "strtold_scan s = (
     let r = snd (split_sign (dropWhile isspace s));
         ip = takeWhile isdigit r;
         r1 = drop (length ip) r;
         dot = (r1 \<noteq> [] \<and> hd r1 = CHR ''.'');
         fp = (if dot then takeWhile isdigit (tl r1) else []);
         r2 = (if dot then drop (length fp) (tl r1) else r1);
         (e, n) = scan_exponent r2 in
     if ip = [] \<and> fp = [] then None
     else Some (number 10 0 (ip @ fp), e - int (length fp), length s - length r2 + n))"

definition strtold_erange :: "nat \<Rightarrow> int \<Rightarrow> bool" where
  "strtold_erange m e = (
     let num = (if 0 \<le> e then m * 10 ^ nat e else m);
         den = (if 0 \<le> e then 1 else 10 ^ nat (- e)) in
     den * (2 ^ 16384 - 2 ^ 16319) \<le> num \<or>
     (num * 2 ^ 16447 < den * (2 ^ 65 - 1) \<and> num * 2 ^ 16445 mod den \<noteq> 0))"

definition isreal :: "string \<Rightarrow> bool option" where
  "isreal s = (if s = [] then None else Some (
     let s = dropWhile isspace s in
     if s = [] then False
     else if isinteger s then False
     else if is_zero s then True
     else if has_leading_zero s then False
     else if has_trailing_dots s then False
     else case strchr s (CHR ''.'') of
       Some p \<Rightarrow>
         if \<not> isdigit (cs_at s (p + 1)) then False
         else if p = 0 then False
         else if \<not> isdigit (cs_at s (p - 1)) then False
         else (case strtold_scan s of None \<Rightarrow> False | Some (m, e, n) \<Rightarrow> \<not> strtold_erange m e \<and> n = length s)
     | None \<Rightarrow> (case strtold_scan s of None \<Rightarrow> False | Some (m, e, n) \<Rightarrow> \<not> strtold_erange m e \<and> n = length s)))"

subsection \<open>The buffer and the parser\<close>

datatype tokentype = TOK_ERROR | TOK_UNKNOWN | TOK_QSTRING | TOK_TRUE | TOK_FALSE | TOK_COLON | TOK_COMMA
  | TOK_OBJECTSTART | TOK_OBJECTEND | TOK_ARRAYSTART | TOK_ARRAYEND | TOK_NUMBER | TOK_NULL | TOK_EOF | TOK_STRING | TOK_BOOLEAN

text \<open>A tagged union: the type and the member of the union that goes with it. The list of an array may be NULL.\<close>

datatype json_value = VAL_QSTRING string | VAL_INTEGER int | VAL_ARRAY "json_value list option" | VAL_OBJECT "(string \<times> json_value) list"
  | VAL_TRUE | VAL_FALSE | VAL_NULL | VAL_DOUBLE string | VAL_STRING | VAL_BOOLEAN

record jbuffer =
  mem :: string
  nread :: nat
  bsize :: nat
  token :: tokentype
  value_start :: "nat option"
  value_end :: "nat option"
  savedvalue :: string
  valuesize :: nat
  narrays :: nat

record json_parser = jbuffer +
  jp_value :: "json_value option"
  jp_errno :: errno_t
  lineno :: "64 word"
  heap :: allocator

definition buffer_getc :: "json_parser \<Rightarrow> (char option \<times> json_parser) option" where
  "buffer_getc p = (if nread p = bsize p then Some (None, p)
   else do {
     c \<leftarrow> get_at (mem p) (nread p);
     Some (if code c = 255 then None else Some c, p\<lparr>nread := nread p + 1\<rparr>) })"

definition buffer_ungetc :: "json_parser \<Rightarrow> json_parser option" where
  "buffer_ungetc p = (if nread p > 0 then Some (p\<lparr>nread := nread p - 1\<rparr>) else None)"

definition four_hex_digits :: "json_parser \<Rightarrow> bool option" where
  "four_hex_digits p = do {
     s \<leftarrow> cstr_at (mem p) (nread p);
     Some (if length s < 4 then False else isxdigit (s ! 0) \<and> isxdigit (s ! 1) \<and> isxdigit (s ! 2) \<and> isxdigit (s ! 3)) }"

definition retfail :: "json_parser \<Rightarrow> errno_t \<Rightarrow> status_t \<times> json_parser" where
  "retfail p err = (failure, p\<lparr>jp_errno := err\<rparr>)"

text \<open>Every loop reads at least one byte of the object per iteration.\<close>

lemma buffer_getc_less:
  "buffer_getc p = Some (Some c, p') \<Longrightarrow> length (mem p') - nread p' < length (mem p) - nread p"
  by (auto simp: buffer_getc_def get_at_def split: if_splits bind_splits)

text \<open>
  The loop of \<open>get_qstring\<close>: \<open>Inl\<close> an early return, \<open>Inr\<close> the last character read when the loop ends, with the number of
  characters.
\<close>

definition legal_escapes :: string where
  "legal_escapes = [CHR 0x5C, CHR 0x22, CHR ''/'', CHR ''b'', CHR ''f'', CHR ''n'', CHR ''r'', CHR ''t'', CHR ''u'']"

function qstring_loop :: "json_parser \<Rightarrow> char \<Rightarrow> nat \<Rightarrow> ((tokentype + char option \<times> nat) \<times> json_parser) option" where
  "qstring_loop p prev n = (case buffer_getc p of
     None \<Rightarrow> None
   | Some (None, p) \<Rightarrow> Some (Inr (None, n), p)
   | Some (Some c, p) \<Rightarrow> do {
       let n = n + 1;
       hex \<leftarrow> (if prev = CHR 0x5C \<and> (c = CHR ''u'' \<or> c = CHR ''U'') then four_hex_digits p else Some True);
       if \<not> hex then Some (Inl TOK_UNKNOWN, p)
       else if prev = CHR 0x5C \<and> c = NUL then Some (Inl TOK_UNKNOWN, p)
       else if c = NUL then Some (Inl TOK_UNKNOWN, p)
       else if prev = CHR 0x5C \<and> strchr legal_escapes c = None then Some (Inl TOK_UNKNOWN, p)
       else if c = CHR 0x22 \<and> \<not> (c = CHR 0x5C \<and> prev = CHR 0x5C) \<and> prev \<noteq> CHR 0x5C then Some (Inr (Some c, n), p)
       else do {
         let prev = (if c = CHR 0x5C \<and> prev = CHR 0x5C then NUL else c);
         if c = CHR 0x09 \<or> c = CHR 0x0A then Some (Inl TOK_UNKNOWN, p)
         else do {
           ve \<leftarrow> value_end p;
           qstring_loop (p\<lparr>value_end := Some (ve + 1)\<rparr>) prev n } } })"
  by pat_completeness auto
termination
  by (relation "measure (\<lambda>(p, _, _). length (mem p) - nread p)") (auto dest!: buffer_getc_less)

definition get_qstring :: "json_parser \<Rightarrow> (tokentype \<times> json_parser) option" where
  "get_qstring p = do {
     let p = p\<lparr>value_start := Some (nread p), value_end := Some (nread p)\<rparr>;
     (r, p) \<leftarrow> qstring_loop p NUL 0;
     (case r of
        Inl t \<Rightarrow> Some (t, p)
      | Inr (c, n) \<Rightarrow>
          if n = 0 then Some (TOK_UNKNOWN, p)
          else if c \<noteq> Some (CHR 0x22) then Some (TOK_UNKNOWN, p)
          else Some (TOK_QSTRING, p)) }"

text \<open>The keywords: \<open>get_true\<close> and its siblings read character by character and stop at the first mismatch.\<close>

fun get_word :: "string \<Rightarrow> tokentype \<Rightarrow> json_parser \<Rightarrow> (tokentype \<times> json_parser) option" where
  "get_word [] tok p = Some (tok, p)"
| "get_word (w # ws) tok p = do {
     (c, p) \<leftarrow> buffer_getc p;
     if c = Some w then get_word ws tok p else Some (TOK_UNKNOWN, p) }"

definition get_true where "get_true p = get_word ''rue'' TOK_TRUE p"
definition get_false where "get_false p = get_word ''alse'' TOK_FALSE p"
definition get_null where "get_null p = get_word ''ull'' TOK_NULL p"
definition get_string where "get_string p = get_word ''tring'' TOK_STRING p"
definition get_boolean where "get_boolean p = get_word ''oolean'' TOK_BOOLEAN p"

definition legal_number :: string where "legal_number = ''0123456789-.eE+''"

text \<open>The loop of \<open>get_number\<close>: \<open>None\<close> in the first component when it returned early.\<close>

function number_loop :: "json_parser \<Rightarrow> nat \<Rightarrow> (nat option \<times> json_parser) option" where
  "number_loop p nchars = (case buffer_getc p of
     None \<Rightarrow> None
   | Some (None, p) \<Rightarrow> Some (Some nchars, p)
   | Some (Some c, p) \<Rightarrow>
       if c = NUL then Some (None, p)
       else if strchr legal_number c \<noteq> None then do {
         ve \<leftarrow> value_end p;
         number_loop (p\<lparr>value_end := Some (ve + 1)\<rparr>) (nchars + 1) }
       else do { p \<leftarrow> buffer_ungetc p; Some (Some nchars, p) })"
  by pat_completeness auto
termination
  by (relation "measure (\<lambda>(p, _). length (mem p) - nread p)") (auto dest!: buffer_getc_less)

text \<open>\<open>isnumber\<close> copies into an array of 512 bytes; a NUL among the bytes ends the string there.\<close>

definition isnumber :: "string \<Rightarrow> nat \<Rightarrow> nat \<Rightarrow> bool option" where
  "isnumber m s nchars = (if nchars \<ge> 512 then Some False
   else do {
     str \<leftarrow> rd m s nchars;
     let str = takeWhile (\<lambda>c. c \<noteq> NUL) str;
     if isinteger str then Some True else isreal str })"

definition get_number :: "json_parser \<Rightarrow> (status_t \<times> json_parser) option" where
  "get_number p = do {
     let p = p\<lparr>value_start := Some (nread p), value_end := Some (nread p)\<rparr>;
     (r, p) \<leftarrow> number_loop p 0;
     (case r of
        None \<Rightarrow> Some (retfail (p\<lparr>token := TOK_UNKNOWN\<rparr>) EINVAL)
      | Some nchars \<Rightarrow> do {
          vs \<leftarrow> value_start p;
          ok \<leftarrow> isnumber (mem p) vs nchars;
          if \<not> ok then Some (retfail (p\<lparr>token := TOK_UNKNOWN\<rparr>) EINVAL)
          else Some (success, p\<lparr>token := TOK_NUMBER\<rparr>) }) }"

text \<open>Skipping white space: \<open>Inl\<close> the form feed's early return, \<open>Inr\<close> the first other character.\<close>

function ws_loop :: "json_parser \<Rightarrow> ((unit + char option) \<times> json_parser) option" where
  "ws_loop p = (case buffer_getc p of
     None \<Rightarrow> None
   | Some (None, p) \<Rightarrow> Some (Inr None, p)
   | Some (Some c, p) \<Rightarrow>
       if isspace c then
         if c = CHR 0x0C then Some (Inl (), p)
         else ws_loop (if c = CHR 0x0A then p\<lparr>lineno := lineno p + 1\<rparr> else p)
       else Some (Inr (Some c), p))"
  by pat_completeness auto
termination
  by (relation "measure (\<lambda>p. length (mem p) - nread p)") (auto dest!: buffer_getc_less)

declare qstring_loop.simps [simp del] number_loop.simps [simp del] ws_loop.simps [simp del]

text \<open>The cases of the \<open>switch\<close> of \<open>nextsym\<close> but for \<open>EOF\<close> and the numbers.\<close>

definition nextsym_switch :: "char \<Rightarrow> json_parser \<Rightarrow> (tokentype \<times> json_parser) option" where
  "nextsym_switch c p = (
     if c = CHR ''['' then Some (TOK_ARRAYSTART, p)
     else if c = CHR '']'' then Some (TOK_ARRAYEND, p)
     else if c = CHR ''{'' then Some (TOK_OBJECTSTART, p)
     else if c = CHR ''}'' then Some (TOK_OBJECTEND, p)
     else if c = CHR '':'' then Some (TOK_COLON, p)
     else if c = CHR '','' then Some (TOK_COMMA, p)
     else if c = CHR 0x22 then get_qstring p
     else if c = CHR ''t'' then get_true p
     else if c = CHR ''f'' then get_false p
     else if c = CHR ''n'' then get_null p
     else if c = CHR ''s'' then get_string p
     else if c = CHR ''b'' then get_boolean p
     else Some (TOK_UNKNOWN, p))"

definition nextsym :: "json_parser \<Rightarrow> (status_t \<times> json_parser) option" where
  "nextsym p = (if token p = TOK_EOF then Some (retfail p ENOENT)
   else do {
     let p = p\<lparr>value_start := None, value_end := None, token := TOK_UNKNOWN\<rparr>;
     (r, p) \<leftarrow> ws_loop p;
     (case r of
        Inl _ \<Rightarrow> Some (retfail p EINVAL)
      | Inr c \<Rightarrow>
          if c \<noteq> None \<and> (c = Some (CHR ''-'') \<or> isdigit (the c)) then do { p \<leftarrow> buffer_ungetc p; get_number p }
          else do {
            (t, p) \<leftarrow> (case c of
                None \<Rightarrow> Some (TOK_EOF, p)
              | Some c \<Rightarrow> nextsym_switch c p);
            let p = p\<lparr>token := t\<rparr>;
            Some (t \<noteq> TOK_UNKNOWN, p) }) })"

text \<open>The table \<open>tokens\<close> has no entry for \<open>TOK_BOOLEAN\<close>, the last token: the assert of \<open>hasvalue\<close> fails on it.\<close>

definition hasvalue :: "tokentype \<Rightarrow> bool option" where
  "hasvalue tok = (if tok = TOK_BOOLEAN then None else Some (tok = TOK_QSTRING \<or> tok = TOK_NUMBER))"

definition savevalue :: "json_parser \<Rightarrow> (status_t \<times> json_parser) option" where
  "savevalue p = do {
     vs \<leftarrow> value_start p;
     ve \<leftarrow> value_end p;
     if ve \<ge> vs \<and> valuesize p \<noteq> 0 then do {
       let n = ve - vs + 1;
       (ok, p) \<leftarrow> (if n > valuesize p then
           (case try_alloc n (heap p) of
              (False, a) \<Rightarrow> Some (retfail (p\<lparr>heap := a\<rparr>) ENOMEM)
            | (True, a) \<Rightarrow> Some (success, p\<lparr>savedvalue := realloc_bytes n (savedvalue p) a, valuesize := n, heap := a\<rparr>))
         else Some (success, p));
       if \<not> ok then Some (failure, p)
       else do {
         bs \<leftarrow> rd (mem p) vs (n - 1);
         sv \<leftarrow> wr (savedvalue p) 0 bs;
         sv \<leftarrow> put_at sv (n - 1) NUL;
         Some (success, p\<lparr>savedvalue := sv\<rparr>) } }
     else None }"

definition accept :: "json_parser \<Rightarrow> tokentype \<Rightarrow> (status_t \<times> json_parser) option" where
  "accept p tok = (if token p = tok then do {
     hv \<leftarrow> hasvalue tok;
     (ok, p) \<leftarrow> (if hv then savevalue p else Some (success, p));
     if \<not> ok then Some (retfail p EINVAL)
     else do {
       (ok, p) \<leftarrow> nextsym p;
       if ok then Some (success, p) else Some (retfail p EINVAL) } }
   else Some (retfail p EINVAL))"

subsection \<open>The rest of the input\<close>

definition inp :: "json_parser \<Rightarrow> string" where
  "inp p = drop (nread p) (take (bsize p) (mem p))"

text \<open>The object holds the input, and a NUL somewhere behind it.\<close>

definition jwf :: "json_parser \<Rightarrow> bool" where
  "jwf p \<longleftrightarrow> nread p \<le> bsize p \<and> bsize p \<le> length (mem p) \<and> NUL \<in> set (drop (bsize p) (mem p))"

text \<open>What the tokenizer leaves alone.\<close>

definition jframe :: "json_parser \<Rightarrow> json_parser \<Rightarrow> bool" where
  "jframe p q \<longleftrightarrow> mem q = mem p \<and> bsize q = bsize p \<and> savedvalue q = savedvalue p \<and> valuesize q = valuesize p \<and>
     narrays q = narrays p \<and> heap q = heap p \<and> jp_value q = jp_value p"

lemma jframe_refl [simp]: "jframe p p"
  by (simp add: jframe_def)

lemma jframe_trans: "jframe p q \<Longrightarrow> jframe q r \<Longrightarrow> jframe p r"
  by (simp add: jframe_def)

lemma jframe_upd [simp]:
  "jframe p (q\<lparr>nread := n\<rparr>) = jframe p q" "jframe p (q\<lparr>value_start := vs\<rparr>) = jframe p q" "jframe p (q\<lparr>value_end := ve\<rparr>) = jframe p q"
  "jframe p (q\<lparr>token := t\<rparr>) = jframe p q" "jframe p (q\<lparr>lineno := l\<rparr>) = jframe p q" "jframe p (q\<lparr>jp_errno := e\<rparr>) = jframe p q"
  "jframe (p\<lparr>nread := n\<rparr>) q = jframe p q" "jframe (p\<lparr>value_start := vs\<rparr>) q = jframe p q" "jframe (p\<lparr>value_end := ve\<rparr>) q = jframe p q"
  "jframe (p\<lparr>token := t\<rparr>) q = jframe p q" "jframe (p\<lparr>lineno := l\<rparr>) q = jframe p q" "jframe (p\<lparr>jp_errno := e\<rparr>) q = jframe p q"
  by (simp_all add: jframe_def)

lemma jwf_upd [simp]:
  "jwf (p\<lparr>value_start := vs\<rparr>) = jwf p" "jwf (p\<lparr>value_end := ve\<rparr>) = jwf p" "jwf (p\<lparr>token := t\<rparr>) = jwf p"
  "jwf (p\<lparr>lineno := l\<rparr>) = jwf p" "jwf (p\<lparr>jp_errno := e\<rparr>) = jwf p" "jwf (p\<lparr>heap := a\<rparr>) = jwf p" "jwf (p\<lparr>savedvalue := s\<rparr>) = jwf p"
  "jwf (p\<lparr>valuesize := z\<rparr>) = jwf p" "jwf (p\<lparr>narrays := k\<rparr>) = jwf p" "jwf (p\<lparr>jp_value := v\<rparr>) = jwf p"
  by (simp_all add: jwf_def)

lemma inp_upd [simp]:
  "inp (p\<lparr>value_start := vs\<rparr>) = inp p" "inp (p\<lparr>value_end := ve\<rparr>) = inp p" "inp (p\<lparr>token := t\<rparr>) = inp p"
  "inp (p\<lparr>lineno := l\<rparr>) = inp p" "inp (p\<lparr>jp_errno := e\<rparr>) = inp p" "inp (p\<lparr>heap := a\<rparr>) = inp p" "inp (p\<lparr>savedvalue := s\<rparr>) = inp p"
  "inp (p\<lparr>valuesize := z\<rparr>) = inp p" "inp (p\<lparr>narrays := k\<rparr>) = inp p" "inp (p\<lparr>jp_value := v\<rparr>) = inp p"
  by (simp_all add: inp_def)

lemma getc_Nil: "jwf p \<Longrightarrow> inp p = [] \<Longrightarrow> buffer_getc p = Some (None, p)"
  by (auto simp: buffer_getc_def inp_def jwf_def)

lemma inp_Cons: "jwf p \<Longrightarrow> inp p = c # cs \<Longrightarrow> nread p < bsize p \<and> nread p < length (mem p) \<and> mem p ! nread p = c"
proof -
  assume a: "jwf p" "inp p = c # cs"
  then have n: "nread p < bsize p" "bsize p \<le> length (mem p)" by (auto simp: inp_def jwf_def simp flip: not_le)
  have "inp p ! 0 = c" using a(2) by simp
  then show ?thesis using n by (simp add: inp_def)
qed

lemma getc_Cons:
  assumes "jwf p" "inp p = c # cs"
  shows "buffer_getc p = Some (if code c = 255 then None else Some c, p\<lparr>nread := nread p + 1\<rparr>)"
    "jwf (p\<lparr>nread := nread p + 1\<rparr>)" "inp (p\<lparr>nread := nread p + 1\<rparr>) = cs"
proof -
  have n: "nread p < bsize p" "bsize p \<le> length (mem p)" "mem p ! nread p = c" using inp_Cons [OF assms] assms(1) by (auto simp: jwf_def)
  have "drop (Suc (nread p)) (take (bsize p) (mem p)) = tl (inp p)" by (simp add: inp_def drop_Suc tl_drop)
  then have "inp (p\<lparr>nread := nread p + 1\<rparr>) = cs" using assms(2) by (simp add: inp_def)
  then show "buffer_getc p = Some (if code c = 255 then None else Some c, p\<lparr>nread := nread p + 1\<rparr>)"
    "jwf (p\<lparr>nread := nread p + 1\<rparr>)" "inp (p\<lparr>nread := nread p + 1\<rparr>) = cs"
    using n assms(1) by (auto simp: buffer_getc_def get_at_def jwf_def)
qed

lemma inp_length: "jwf p \<Longrightarrow> length (inp p) = bsize p - nread p"
  by (auto simp: inp_def jwf_def)

text \<open>A step back over the character just read.\<close>

lemma ungetc_inp:
  assumes "jwf p" "inp p = c # cs"
  shows "buffer_ungetc (p\<lparr>nread := nread p + 1\<rparr>) = Some p"
  by (simp add: buffer_ungetc_def)

lemma four_hex_returns: "jwf p \<Longrightarrow> \<exists>b. four_hex_digits p = Some b"
proof -
  assume "jwf p"
  then have "set (drop (bsize p) (mem p)) \<subseteq> set (drop (nread p) (mem p))" by (auto simp: jwf_def intro: set_drop_subset_set_drop [THEN subsetD])
  then have "NUL \<in> set (drop (nread p) (mem p))" using \<open>jwf p\<close> by (auto simp: jwf_def)
  then show ?thesis by (simp add: four_hex_digits_def cstr_at_def)
qed

subsection \<open>The tokenizer returns\<close>

text \<open>A later state of the same tokenizer run.\<close>

definition reads :: "json_parser \<Rightarrow> json_parser \<Rightarrow> bool" where
  "reads p q \<longleftrightarrow> jwf q \<and> jframe p q \<and> token q = token p \<and> nread p \<le> nread q"

lemma reads_trans: "reads p q \<Longrightarrow> reads q r \<Longrightarrow> reads p r"
  by (auto simp: reads_def intro: jframe_trans)

lemma reads_refl: "jwf p \<Longrightarrow> reads p p"
  by (simp add: reads_def)

lemma reads_next: "jwf p \<Longrightarrow> inp p = c # cs \<Longrightarrow> reads p (p\<lparr>nread := nread p + 1\<rparr>)"
  using getc_Cons by (auto simp: reads_def)

lemma reads_upd [simp]:
  "reads p (q\<lparr>value_end := ve\<rparr>) = reads p q" "reads p (q\<lparr>value_start := vs\<rparr>) = reads p q" "reads p (q\<lparr>lineno := l\<rparr>) = reads p q"
  "reads (p\<lparr>value_end := ve\<rparr>) q = reads p q" "reads (p\<lparr>value_start := vs\<rparr>) q = reads p q" "reads (p\<lparr>lineno := l\<rparr>) q = reads p q"
  by (auto simp: reads_def)

definition ws_post :: "json_parser \<Rightarrow> unit + char option \<Rightarrow> json_parser \<Rightarrow> bool" where
  "ws_post p r p' \<longleftrightarrow> reads p p' \<and>
     (\<forall>c. r = Inr (Some c) \<longrightarrow> (\<exists>q. p' = q\<lparr>nread := nread q + 1\<rparr> \<and> reads p q \<and> inp q = c # inp p' \<and> code c \<noteq> 255 \<and> \<not> isspace c))"

lemma ws_post_later: "reads p n \<Longrightarrow> ws_post n r p' \<Longrightarrow> ws_post p r p'"
  unfolding ws_post_def using reads_trans [of p n] by fastforce

lemma ws_loop_returns: "jwf p \<Longrightarrow> \<exists>r p'. ws_loop p = Some (r, p') \<and> ws_post p r p'"
proof (induction "inp p" arbitrary: p)
  case Nil
  then show ?case by (subst ws_loop.simps) (simp add: getc_Nil ws_post_def reads_refl)
next
  case (Cons c cs)
  note g = getc_Cons [OF Cons.prems Cons.hyps(2) [symmetric]]
  let ?q = "p\<lparr>nread := nread p + 1\<rparr>"
  let ?n = "if c = CHR 0x0A then ?q\<lparr>lineno := lineno ?q + 1\<rparr> else ?q"
  have q: "reads p ?q" using reads_next [OF Cons.prems Cons.hyps(2) [symmetric]] .
  consider "code c = 255" | "code c \<noteq> 255" "isspace c" "c = CHR 0x0C" | "code c \<noteq> 255" "isspace c" "c \<noteq> CHR 0x0C" | "code c \<noteq> 255" "\<not> isspace c" by blast
  then show ?case
  proof cases
    case 3
    have n: "cs = inp ?n" "jwf ?n" "reads p ?n" using g q by auto
    have "ws_loop p = ws_loop ?n" using g(1) 3 by (subst ws_loop.simps) simp
    then show ?thesis using Cons.hyps(1) [OF n(1,2)] ws_post_later [OF n(3)] by auto
  next
    case 4
    have "ws_post p (Inr (Some c)) ?q" using g q 4 Cons.hyps(2) reads_refl [OF Cons.prems]
      by (auto simp: ws_post_def intro!: exI [of _ p])
    then show ?thesis using g 4 by (subst ws_loop.simps) simp
  qed (use g q in \<open>subst ws_loop.simps, simp add: ws_post_def\<close>)+
qed

text \<open>
  The bytes between two offsets. While a quoted string or a number is read, \<open>value_end\<close> is the position of the
  next character.
\<close>

definition span :: "json_parser \<Rightarrow> nat \<Rightarrow> nat \<Rightarrow> string" where
  "span p i j = take (j - i) (drop i (mem p))"

lemma span_inp: "jwf p \<Longrightarrow> inp p = c # cs \<Longrightarrow> i \<le> nread p \<Longrightarrow> span p i (nread p + 1) = span p i (nread p) @ [c]"
proof -
  assume "jwf p" "inp p = c # cs" "i \<le> nread p"
  then have "nread p < length (mem p)" "mem p ! nread p = c" using inp_Cons by auto
  then show ?thesis using \<open>i \<le> nread p\<close> by (simp add: span_def Suc_diff_le take_Suc_conv_app_nth)
qed

lemma span_reads: "reads p q \<Longrightarrow> span q i j = span p i j"
  by (simp add: span_def reads_def jframe_def)

definition qs_post :: "json_parser \<Rightarrow> nat \<Rightarrow> tokentype + char option \<times> nat \<Rightarrow> json_parser \<Rightarrow> bool" where
  "qs_post p i r p' \<longleftrightarrow> reads p p' \<and> value_start p' = value_start p \<and> (\<forall>t. r = Inl t \<longrightarrow> t = TOK_UNKNOWN) \<and>
     (\<forall>c n. r = Inr (Some c, n) \<longrightarrow> (\<exists>ve. value_end p' = Some ve \<and> i \<le> ve \<and> ve < nread p' \<and> c_string (span p' i ve)))"

lemma qs_post_later: "reads p n \<Longrightarrow> value_start n = value_start p \<Longrightarrow> qs_post n i r p' \<Longrightarrow> qs_post p i r p'"
  unfolding qs_post_def by (metis reads_trans)

lemma qstring_loop_step:
  assumes "buffer_getc p = Some (Some c, q)" "value_end q = Some ve"
    "(if prev = CHR 0x5C \<and> (c = CHR ''u'' \<or> c = CHR ''U'') then four_hex_digits q else Some True) = Some hex"
  shows "qstring_loop p prev n = (if \<not> hex \<or> c = NUL \<or> prev = CHR 0x5C \<and> strchr legal_escapes c = None then Some (Inl TOK_UNKNOWN, q)
      else if c = CHR 0x22 \<and> prev \<noteq> CHR 0x5C then Some (Inr (Some c, n + 1), q)
      else if c = CHR 0x09 \<or> c = CHR 0x0A then Some (Inl TOK_UNKNOWN, q)
      else qstring_loop (q\<lparr>value_end := Some (ve + 1)\<rparr>) (if c = CHR 0x5C \<and> prev = CHR 0x5C then NUL else c) (n + 1))"
  unfolding qstring_loop.simps [of p prev n] assms(1) option.case prod.case Let_def assms(3) Option.bind.bind_lunit assms(2)
  by (cases hex; cases "c = NUL"; cases "prev = CHR 0x5C"; cases "strchr legal_escapes c"; cases "c = CHR 0x5C"; cases "c = CHR 0x22") auto

lemma qstring_loop_returns:
  "jwf p \<Longrightarrow> value_end p = Some (nread p) \<Longrightarrow> i \<le> nread p \<Longrightarrow> c_string (span p i (nread p)) \<Longrightarrow>
   \<exists>r p'. qstring_loop p prev n = Some (r, p') \<and> qs_post p i r p'"
proof (induction "inp p" arbitrary: p prev n)
  case Nil
  then show ?case by (subst qstring_loop.simps) (simp add: getc_Nil qs_post_def reads_refl)
next
  case (Cons c cs)
  note wf = Cons.prems(1) Cons.hyps(2) [symmetric]
  note g = getc_Cons [OF wf]
  let ?q = "p\<lparr>nread := nread p + 1\<rparr>"
  have q: "reads p ?q" using reads_next [OF wf] .
  have "\<exists>hex. (if prev = CHR 0x5C \<and> (c = CHR ''u'' \<or> c = CHR ''U'') then four_hex_digits ?q else Some True) = Some hex"
    using four_hex_returns [OF g(2)] by (simp add: ex_bool_eq)
  then obtain hex where hex: "(if prev = CHR 0x5C \<and> (c = CHR ''u'' \<or> c = CHR ''U'') then four_hex_digits ?q else Some True) = Some hex" ..
  have stop: "qs_post p i (Inl TOK_UNKNOWN) ?q" "qs_post p i (Inr (None, k)) ?q" "qs_post p i (Inr (Some c, k)) ?q" for k
    using q Cons.prems by (auto simp: qs_post_def span_def)
  let ?n = "?q\<lparr>value_end := Some (nread p + 1)\<rparr>"
  have go: "\<exists>r p'. qstring_loop ?n prev' (n + 1) = Some (r, p') \<and> qs_post p i r p'" if "c \<noteq> NUL" for prev'
  proof -
    have "c_string (span ?n i (nread ?n))" using span_inp [OF wf Cons.prems(3)] Cons.prems(4) that by (simp add: span_def)
    then show ?thesis using Cons.hyps(1) [of ?n prev' "n + 1"] g(2,3) q Cons.prems(3) qs_post_later [of p ?n] by auto
  qed
  show ?case
  proof (cases "code c = 255")
    case True
    then have "qstring_loop p prev n = Some (Inr (None, n), ?q)" using g(1) by (subst qstring_loop.simps) simp
    then show ?thesis using stop(2) by blast
  next
    case False
    then have "buffer_getc p = Some (Some c, ?q)" "value_end ?q = Some (nread p)" using g(1) Cons.prems(2) by simp_all
    note step = qstring_loop_step [OF this hex, of n]
    let ?prev = "if c = CHR 0x5C \<and> prev = CHR 0x5C then NUL else c"
    consider (bad) "\<not> hex \<or> c = NUL \<or> prev = CHR 0x5C \<and> strchr legal_escapes c = None"
      | (fin) "\<not> (\<not> hex \<or> c = NUL \<or> prev = CHR 0x5C \<and> strchr legal_escapes c = None)" "c = CHR 0x22 \<and> prev \<noteq> CHR 0x5C"
      | (ctl) "\<not> (\<not> hex \<or> c = NUL \<or> prev = CHR 0x5C \<and> strchr legal_escapes c = None)" "\<not> (c = CHR 0x22 \<and> prev \<noteq> CHR 0x5C)"
          "c = CHR 0x09 \<or> c = CHR 0x0A"
      | (go) "\<not> (\<not> hex \<or> c = NUL \<or> prev = CHR 0x5C \<and> strchr legal_escapes c = None)" "\<not> (c = CHR 0x22 \<and> prev \<noteq> CHR 0x5C)"
          "\<not> (c = CHR 0x09 \<or> c = CHR 0x0A)" by blast
    then show ?thesis
    proof cases
      case bad
      show ?thesis unfolding step if_P [OF bad] using stop(1) by blast
    next
      case fin
      show ?thesis unfolding step if_not_P [OF fin(1)] if_P [OF fin(2)] using stop(3) by blast
    next
      case ctl
      show ?thesis unfolding step if_not_P [OF ctl(1)] if_not_P [OF ctl(2)] if_P [OF ctl(3)] using stop(1) by blast
    next
      case g: go
      show ?thesis unfolding step if_not_P [OF g(1)] if_not_P [OF g(2)] if_not_P [OF g(3)] using go g(1) by blast
    qed
  qed
qed

lemma get_qstring_returns:
  assumes "jwf p"
  shows "\<exists>t p'. get_qstring p = Some (t, p') \<and> reads p p' \<and> (t = TOK_UNKNOWN \<or> t = TOK_QSTRING \<and>
    (\<exists>vs ve. value_start p' = Some vs \<and> value_end p' = Some ve \<and> vs \<le> ve \<and> ve < nread p' \<and> c_string (span p' vs ve)))"
proof -
  let ?p = "p\<lparr>value_start := Some (nread p), value_end := Some (nread p)\<rparr>"
  obtain r p' where r: "qstring_loop ?p NUL 0 = Some (r, p')" "qs_post ?p (nread p) r p'"
    using qstring_loop_returns [of ?p "nread p" NUL 0] assms by (auto simp: span_def)
  then have "reads p p'" "value_start p' = Some (nread p)" by (auto simp: qs_post_def)
  then show ?thesis using r by (cases r) (auto simp: get_qstring_def qs_post_def)
qed

definition num_post :: "json_parser \<Rightarrow> nat \<Rightarrow> nat \<Rightarrow> nat option \<Rightarrow> json_parser \<Rightarrow> bool" where
  "num_post p i n r p' \<longleftrightarrow> reads p p' \<and> value_start p' = value_start p \<and>
     (\<forall>k. r = Some k \<longrightarrow> value_end p' = Some (i + k) \<and> i + k \<le> nread p' \<and> n \<le> k \<and> c_string (span p' i (i + k)))"

lemma num_post_later: "reads p q \<Longrightarrow> value_start q = value_start p \<Longrightarrow> num_post q i (Suc n) r p' \<Longrightarrow> num_post p i n r p'"
  unfolding num_post_def by (auto intro: reads_trans)

lemma number_loop_returns:
  "jwf p \<Longrightarrow> value_end p = Some (nread p) \<Longrightarrow> i + n = nread p \<Longrightarrow> c_string (span p i (nread p)) \<Longrightarrow>
   \<exists>r p'. number_loop p n = Some (r, p') \<and> num_post p i n r p' \<and>
     (inp p \<noteq> [] \<and> strchr legal_number (hd (inp p)) \<noteq> None \<longrightarrow> nread p < nread p' \<and> (\<forall>k. r = Some k \<longrightarrow> n < k))"
proof (induction "inp p" arbitrary: p n)
  case Nil
  then show ?case by (subst number_loop.simps) (simp add: getc_Nil num_post_def reads_refl)
next
  case (Cons c cs)
  note wf = Cons.prems(1) Cons.hyps(2) [symmetric]
  note g = getc_Cons [OF wf]
  let ?q = "p\<lparr>nread := nread p + 1\<rparr>"
  let ?n = "?q\<lparr>value_end := Some (nread p + 1)\<rparr>"
  have q: "reads p ?q" using reads_next [OF wf] .
  have legal: "strchr legal_number c \<noteq> None \<Longrightarrow> code c \<noteq> 255 \<and> c \<noteq> NUL"
    unfolding strchr_None legal_number_def by auto
  consider "code c = 255" | "code c \<noteq> 255" "c = NUL" | "code c \<noteq> 255" "c \<noteq> NUL" "strchr legal_number c = None"
    | "code c \<noteq> 255" "c \<noteq> NUL" "strchr legal_number c \<noteq> None" by blast
  then show ?case
  proof cases
    case 4
    have "c_string (span ?n i (nread ?n))"
      using span_inp [OF wf, of i] Cons.prems(3,4) 4(2) by (simp add: span_def)
    moreover have "cs = inp ?n" "jwf ?n" "value_end ?n = Some (nread ?n)" "i + Suc n = nread ?n" using g(2,3) Cons.prems(3) by simp_all
    ultimately obtain r p' where r: "number_loop ?n (Suc n) = Some (r, p')" "num_post ?n i (Suc n) r p'"
      using Cons.hyps(1) [of ?n "Suc n"] by blast
    have n: "reads p ?n" "value_start ?n = value_start p" using q by simp_all
    have "number_loop p n = Some (r, p')" using g(1) 4 r(1) Cons.prems(2) by (subst number_loop.simps) simp
    moreover have "nread p < nread p'" "\<forall>k. r = Some k \<longrightarrow> n < k" using r(2) by (auto simp: num_post_def reads_def)
    ultimately show ?thesis using num_post_later [OF n r(2)] by auto
  next
    case 3
    then have "number_loop p n = Some (Some n, p)" using g(1) ungetc_inp [OF wf]
      by (subst number_loop.simps) simp
    moreover have "num_post p i n (Some n) p" using Cons.prems reads_refl [OF wf(1)] by (simp add: num_post_def)
    moreover have "hd (inp p) = c" using wf(2) by simp
    ultimately show ?thesis using 3 by (intro exI conjI) (assumption+, simp)
  next
    case 2
    then have "number_loop p n = Some (None, ?q)" using g(1) by (subst number_loop.simps) simp
    moreover have "num_post p i n None ?q" using q by (simp add: num_post_def)
    ultimately show ?thesis by simp
  next
    case 1
    then have "number_loop p n = Some (Some n, ?q)" using g(1) by (subst number_loop.simps) simp
    moreover have "span ?q i (i + n) = span p i (nread p)" using Cons.prems(3) by (simp add: span_def)
    then have "num_post p i n (Some n) ?q" using q Cons.prems by (simp add: num_post_def)
    moreover have "hd (inp p) = c" using wf(2) by simp
    ultimately show ?thesis using 1 legal by (intro exI conjI) (assumption+, auto)
  qed
qed

lemma isreal_returns: "s \<noteq> [] \<Longrightarrow> \<exists>b. isreal s = Some b"
  unfolding isreal_def by (simp only: if_False) blast

lemma get_number_returns:
  assumes wf: "jwf p" and c: "inp p = c # cs" "strchr legal_number c \<noteq> None"
  shows "\<exists>st p'. get_number p = Some (st, p') \<and> jwf p' \<and> jframe p p' \<and> nread p < nread p' \<and>
    (if st then token p' = TOK_NUMBER \<and> (\<exists>vs ve. value_start p' = Some vs \<and> value_end p' = Some ve \<and> vs \<le> ve \<and> ve \<le> nread p' \<and>
        c_string (span p' vs ve) \<and> (isinteger (span p' vs ve) \<or> isreal (span p' vs ve) = Some True)) else token p' = TOK_UNKNOWN)"
proof -
  let ?p = "p\<lparr>value_start := Some (nread p), value_end := Some (nread p)\<rparr>"
  obtain r p' where r: "number_loop ?p 0 = Some (r, p')" "num_post ?p (nread p) 0 r p'" "nread p < nread p'" "\<forall>k. r = Some k \<longrightarrow> 0 < k"
    using number_loop_returns [of ?p "nread p" 0] wf c by (auto simp: span_def)
  then have p': "reads p p'" "value_start p' = Some (nread p)" by (auto simp: num_post_def)
  show ?thesis
  proof (cases r)
    case None
    then show ?thesis using r p' by (intro exI [of _ False]) (simp add: get_number_def retfail_def reads_def)
  next
    case (Some k)
    let ?s = "span p' (nread p) (nread p + k)"
    have k: "value_end p' = Some (nread p + k)" "nread p + k \<le> nread p'" "0 < k" "c_string ?s"
      using r Some by (auto simp: num_post_def)
    have len: "nread p + k \<le> length (mem p')" using p'(1) k(2) by (auto simp: reads_def jwf_def)
    then have s: "rd (mem p') (nread p) k = Some ?s" "?s \<noteq> []" using k(3) by (auto simp: rd_def span_def)
    have isn: "isnumber (mem p') (nread p) k = (if k \<ge> 512 then Some False else if isinteger ?s then Some True else isreal ?s)"
      using s(1) k(4) by (simp add: isnumber_def Let_def takeWhile_c_string)
    obtain b where b: "isreal ?s = Some b" using isreal_returns [OF s(2)] by blast
    let ?ok = "k < 512 \<and> (isinteger ?s \<or> b)"
    have ok: "isnumber (mem p') (nread p) k = Some ?ok" "?ok \<Longrightarrow> isinteger ?s \<or> isreal ?s = Some True"
      unfolding isn b by (cases "k \<ge> 512"; cases "isinteger ?s"; simp) blast
    show ?thesis
    proof (cases ?ok)
      case True
      then show ?thesis using r(1,3) Some ok p' k by (intro exI [of _ True]) (simp add: get_number_def reads_def span_def)
    next
      case False
      then show ?thesis using r(1,3) Some ok p' by (intro exI [of _ False]) (simp add: get_number_def retfail_def reads_def)
    qed
  qed
qed

lemma get_word_returns:
  "jwf p \<Longrightarrow> \<exists>t p'. get_word w tok p = Some (t, p') \<and> reads p p' \<and> (t = TOK_UNKNOWN \<or> t = tok \<and> take (length w) (inp p) = w)"
proof (induction w arbitrary: p)
  case Nil
  then show ?case by (simp add: reads_refl)
next
  case (Cons x w)
  show ?case
  proof (cases "inp p")
    case Nil
    then show ?thesis using Cons.prems by (simp add: getc_Nil reads_refl)
  next
    case c: (Cons c cs)
    note g = getc_Cons [OF Cons.prems c]
    have q: "reads p (p\<lparr>nread := nread p + 1\<rparr>)" by (rule reads_next [OF Cons.prems c])
    show ?thesis
    proof (cases "code c \<noteq> 255 \<and> c = x")
      case True
      then show ?thesis using Cons.IH [OF g(2)] g(1,3) q c by (auto intro: reads_trans)
    next
      case False
      then show ?thesis using g(1) q by auto
    qed
  qed
qed

text \<open>
  The state between two tokens: the saved value fits its buffer, the text of a token with a value is inside the
  input, and the input does not contain the keyword \<open>boolean\<close>.
\<close>

definition no_boolean :: "string \<Rightarrow> bool" where
  "no_boolean s \<longleftrightarrow> (\<forall>i. take 7 (drop i s) \<noteq> ''boolean'')"

definition tok_text :: "json_parser \<Rightarrow> string \<Rightarrow> bool" where
  "tok_text p s \<longleftrightarrow> (\<exists>vs ve. value_start p = Some vs \<and> value_end p = Some ve \<and> vs \<le> ve \<and> ve \<le> length (mem p) \<and> s = span p vs ve \<and> c_string s)"

definition tok_ok :: "json_parser \<Rightarrow> bool" where
  "tok_ok p \<longleftrightarrow> (token p = TOK_QSTRING \<longrightarrow> (\<exists>s. tok_text p s)) \<and>
     (token p = TOK_NUMBER \<longrightarrow> (\<exists>s. tok_text p s \<and> (isinteger s \<or> isreal s = Some True))) \<and> token p \<noteq> TOK_BOOLEAN"

definition left :: "json_parser \<Rightarrow> nat" where
  "left p = (if token p = TOK_EOF then 0 else length (inp p) + 1)"

lemma left_reads: "reads p q \<Longrightarrow> jwf p \<Longrightarrow> length (inp q) \<le> length (inp p)"
  by (auto simp: inp_length reads_def jframe_def)

definition sym_post :: "json_parser \<Rightarrow> status_t \<Rightarrow> json_parser \<Rightarrow> bool" where
  "sym_post p st q \<longleftrightarrow> jwf q \<and> jframe p q \<and> tok_ok q \<and> left q \<le> left p \<and> (st \<longrightarrow> left q < left p)"

lemma digit_legal: "isdigit c \<Longrightarrow> c \<in> set ''0123456789''"
proof -
  assume "isdigit c"
  then have "code c \<in> set [48..<58]" unfolding set_upt atLeastLessThan_iff isdigit_def by linarith
  moreover have "\<forall>n \<in> set [48..<58]. (char_of (n :: nat) :: char) \<in> set ''0123456789''" by code_simp
  ultimately have "(char_of (code c) :: char) \<in> set ''0123456789''" by blast
  then show ?thesis by (simp only: char_of_char)
qed

lemma number_start_legal: "c = CHR ''-'' \<or> isdigit c \<Longrightarrow> strchr legal_number c \<noteq> None"
proof -
  assume a: "c = CHR ''-'' \<or> isdigit c"
  have "c \<in> set legal_number"
  proof (cases "isdigit c")
    case True
    have "set ''0123456789'' \<subseteq> set legal_number" unfolding legal_number_def by simp
    then show ?thesis using digit_legal [OF True] by blast
  next
    case False
    then have "c = CHR ''-''" using a by simp
    then show ?thesis by (simp add: legal_number_def)
  qed
  then show ?thesis unfolding strchr_None by blast
qed

lemma inp_prev: "jwf q \<Longrightarrow> inp q = c # cs \<Longrightarrow> take 7 (drop (nread q) (take (bsize q) (mem q))) = c # take 6 cs"
  by (simp add: inp_def)

definition returns_tok :: "json_parser \<Rightarrow> (tokentype \<times> json_parser) option \<Rightarrow> bool" where
  "returns_tok p x \<longleftrightarrow> (\<exists>t q. x = Some (t, q) \<and> reads p q \<and> tok_ok (q\<lparr>token := t\<rparr>))"

lemma returns_if: "(b \<Longrightarrow> returns_tok p x) \<Longrightarrow> (\<not> b \<Longrightarrow> returns_tok p y) \<Longrightarrow> returns_tok p (if b then x else y)"
  by simp

lemma returns_plain: "jwf p \<Longrightarrow> t \<notin> {TOK_QSTRING, TOK_NUMBER, TOK_BOOLEAN} \<Longrightarrow> returns_tok p (Some (t, p))"
  by (simp add: returns_tok_def tok_ok_def reads_refl)

lemma returns_word:
  assumes "jwf p" "tok \<notin> {TOK_QSTRING, TOK_NUMBER, TOK_BOOLEAN} \<or> tok = TOK_BOOLEAN \<and> take (length w) (inp p) \<noteq> w"
  shows "returns_tok p (get_word w tok p)"
proof -
  obtain t q where t: "get_word w tok p = Some (t, q)" "reads p q" "t = TOK_UNKNOWN \<or> t = tok \<and> take (length w) (inp p) = w"
    using get_word_returns [OF assms(1), of w tok] by blast
  then have "tok_ok (q\<lparr>token := t\<rparr>)" using assms(2) by (auto simp: tok_ok_def)
  then show ?thesis using t unfolding returns_tok_def by blast
qed

lemma returns_qstring: "jwf p \<Longrightarrow> returns_tok p (get_qstring p)"
proof -
  assume "jwf p"
  from get_qstring_returns [OF this] obtain t q where t: "get_qstring p = Some (t, q)" "reads p q" "t = TOK_UNKNOWN \<or> t = TOK_QSTRING \<and>
      (\<exists>vs ve. value_start q = Some vs \<and> value_end q = Some ve \<and> vs \<le> ve \<and> ve < nread q \<and> c_string (span q vs ve))" by blast
  then have "tok_ok (q\<lparr>token := t\<rparr>)" by (auto simp: tok_ok_def tok_text_def span_def reads_def jwf_def)
  then show ?thesis using t unfolding returns_tok_def by blast
qed

lemma dispatch_returns:
  assumes "jwf p" "c = CHR ''b'' \<Longrightarrow> take 6 (inp p) \<noteq> ''oolean''"
  shows "returns_tok p (nextsym_switch c p)"
proof -
  have "length ''oolean'' = 6" by simp
  then have b: "c = CHR ''b'' \<Longrightarrow> returns_tok p (get_word ''oolean'' TOK_BOOLEAN p)"
    using returns_word [OF assms(1)] assms(2) by metis
  show ?thesis unfolding nextsym_switch_def get_true_def get_false_def get_null_def get_string_def get_boolean_def
    by (intro returns_if returns_plain returns_qstring b assms; (rule returns_word [OF assms(1)])?; simp)
qed

lemma nextsym_returns:
  assumes wf: "jwf p" and nb: "no_boolean (take (bsize p) (mem p))"
  shows "\<exists>st q. nextsym p = Some (st, q) \<and> sym_post p st q"
proof (cases "token p = TOK_EOF")
  case True
  then show ?thesis using wf by (intro exI [of _ False]) (simp add: nextsym_def retfail_def sym_post_def tok_ok_def left_def)
next
  case False
  let ?p = "p\<lparr>value_start := None, value_end := None, token := TOK_UNKNOWN\<rparr>"
  have "jwf ?p" using wf by simp
  from ws_loop_returns [OF this] obtain r p1 where ws: "ws_loop ?p = Some (r, p1)" "ws_post ?p r p1" by blast
  have fin: "sym_post p (t \<noteq> TOK_UNKNOWN) (q\<lparr>token := t\<rparr>)" if "reads ?p q" "t = TOK_EOF \<or> t = TOK_UNKNOWN \<or> length (inp q) < length (inp p)"
      "tok_ok (q\<lparr>token := t\<rparr>)" for q t
    using that False left_reads [OF that(1)] wf by (auto simp: sym_post_def left_def reads_def)
  show ?thesis
  proof (cases r)
    case (Inl u)
    then have "sym_post p False (p1\<lparr>jp_errno := EINVAL\<rparr>)"
      using ws(2) False left_reads [of ?p p1] wf by (auto simp: ws_post_def sym_post_def reads_def tok_ok_def left_def)
    moreover have "nextsym p = Some (False, p1\<lparr>jp_errno := EINVAL\<rparr>)" using ws(1) Inl False by (simp add: nextsym_def retfail_def)
    ultimately show ?thesis by blast
  next
    case (Inr co)
    show ?thesis
    proof (cases co)
      case None
      have "sym_post p True (p1\<lparr>token := TOK_EOF\<rparr>)" using fin [of p1 TOK_EOF] ws(2) by (simp add: ws_post_def tok_ok_def)
      moreover have "nextsym p = Some (True, p1\<lparr>token := TOK_EOF\<rparr>)" using ws(1) Inr None False by (simp add: nextsym_def)
      ultimately show ?thesis by blast
    next
      case (Some c)
      obtain q where q: "p1 = q\<lparr>nread := nread q + 1\<rparr>" "reads ?p q" "inp q = c # inp p1" "code c \<noteq> 255" "\<not> isspace c"
        using ws(2) Inr Some by (auto simp: ws_post_def)
      have wq: "jwf q" "jwf p1" "reads ?p p1" using q(2) ws(2) by (auto simp: reads_def ws_post_def)
      have len: "length (inp q) \<le> length (inp p)" "length (inp p1) < length (inp p)"
        using left_reads [OF q(2)] wf q(3) by auto
      show ?thesis
      proof (cases "c = CHR ''-'' \<or> isdigit c")
        case True
        have lg: "strchr legal_number c \<noteq> None" by (rule number_start_legal [OF True])
        obtain st p2 where g: "get_number q = Some (st, p2)" "jwf p2" "jframe q p2" "nread q < nread p2"
            "if st then token p2 = TOK_NUMBER \<and> (\<exists>vs ve. value_start p2 = Some vs \<and> value_end p2 = Some ve \<and> vs \<le> ve \<and> ve \<le> nread p2 \<and>
              c_string (span p2 vs ve) \<and> (isinteger (span p2 vs ve) \<or> isreal (span p2 vs ve) = Some True)) else token p2 = TOK_UNKNOWN"
          using get_number_returns [OF wq(1) q(3) lg] by blast
        have "length (inp p2) < length (inp q)" using g(2-4) wq(1) by (auto simp: inp_length jframe_def jwf_def)
        moreover have "tok_ok p2" using g(2,5) by (cases st) (auto simp: tok_ok_def tok_text_def jwf_def)
        ultimately have "sym_post p st p2"
          using g(2,3,5) q(2) len False by (cases st) (auto simp: sym_post_def left_def reads_def intro: jframe_trans)
        moreover have "nextsym p = Some (st, p2)"
          using ws(1) Inr Some False True g(1) q(1) by (auto simp: nextsym_def buffer_ungetc_def)
        ultimately show ?thesis by blast
      next
        case nonum: False
        have "c = CHR ''b'' \<Longrightarrow> take 6 (inp p1) \<noteq> ''oolean''"
        proof
          assume "c = CHR ''b''" "take 6 (inp p1) = ''oolean''"
          then have "take 7 (drop (nread q) (take (bsize p) (mem p))) = ''boolean''"
            using inp_prev [OF wq(1) q(3)] q(2) by (simp add: reads_def jframe_def)
          then show False using nb by (simp add: no_boolean_def)
        qed
        from dispatch_returns [OF wq(2) this] obtain t p2 where
          t: "nextsym_switch c p1 = Some (t, p2)" "reads p1 p2" "tok_ok (p2\<lparr>token := t\<rparr>)" unfolding returns_tok_def by blast
        have "length (inp p2) < length (inp p)" using left_reads [OF t(2) wq(2)] len(2) by simp
        then have "sym_post p (t \<noteq> TOK_UNKNOWN) (p2\<lparr>token := t\<rparr>)" using fin [of p2 t] t(2,3) reads_trans [OF wq(3) t(2)] by blast
        moreover have "nextsym p = Some (t \<noteq> TOK_UNKNOWN, p2\<lparr>token := t\<rparr>)"
          using ws(1) Inr Some False nonum t(1) by (simp add: nextsym_def Let_def)
        ultimately show ?thesis by blast
      qed
    qed
  qed
qed

text \<open>Between two calls of the parser. \<open>left\<close> bounds the tokens still to come.\<close>

definition jok :: "json_parser \<Rightarrow> bool" where
  "jok p \<longleftrightarrow> jwf p \<and> tok_ok p \<and> length (savedvalue p) = valuesize p \<and> 0 < valuesize p \<and> no_boolean (take (bsize p) (mem p))"

definition jstep :: "json_parser \<Rightarrow> json_parser \<Rightarrow> bool" where
  "jstep p q \<longleftrightarrow> jok q \<and> mem q = mem p \<and> bsize q = bsize p \<and> left q \<le> left p"

lemma jstep_refl: "jok p \<Longrightarrow> jstep p p"
  by (simp add: jstep_def)

lemma jstep_trans: "jstep p q \<Longrightarrow> jstep q r \<Longrightarrow> jstep p r"
  by (simp add: jstep_def)

lemma left_upd [simp]:
  "left (p\<lparr>heap := a\<rparr>) = left p" "left (p\<lparr>narrays := k\<rparr>) = left p" "left (p\<lparr>jp_errno := e\<rparr>) = left p" "left (p\<lparr>jp_value := v\<rparr>) = left p"
  "left (p\<lparr>savedvalue := s\<rparr>) = left p" "left (p\<lparr>valuesize := z\<rparr>) = left p"
  by (simp_all add: left_def)

lemma tok_ok_upd [simp]:
  "tok_ok (p\<lparr>heap := a\<rparr>) = tok_ok p" "tok_ok (p\<lparr>narrays := k\<rparr>) = tok_ok p" "tok_ok (p\<lparr>jp_errno := e\<rparr>) = tok_ok p" "tok_ok (p\<lparr>jp_value := v\<rparr>) = tok_ok p"
  "tok_ok (p\<lparr>savedvalue := s\<rparr>) = tok_ok p" "tok_ok (p\<lparr>valuesize := z\<rparr>) = tok_ok p"
  by (simp_all add: tok_ok_def tok_text_def span_def)

lemma jok_upd [simp]:
  "jok (p\<lparr>heap := a\<rparr>) = jok p" "jok (p\<lparr>narrays := k\<rparr>) = jok p" "jok (p\<lparr>jp_errno := e\<rparr>) = jok p" "jok (p\<lparr>jp_value := v\<rparr>) = jok p"
  by (simp_all add: jok_def)

lemma jstep_upd [simp]:
  "jstep p (q\<lparr>heap := a\<rparr>) = jstep p q" "jstep p (q\<lparr>narrays := k\<rparr>) = jstep p q" "jstep p (q\<lparr>jp_errno := e\<rparr>) = jstep p q"
  "jstep p (q\<lparr>jp_value := v\<rparr>) = jstep p q"
  "jstep (p\<lparr>heap := a\<rparr>) q = jstep p q" "jstep (p\<lparr>narrays := k\<rparr>) q = jstep p q" "jstep (p\<lparr>jp_errno := e\<rparr>) q = jstep p q"
  "jstep (p\<lparr>jp_value := v\<rparr>) q = jstep p q"
  by (simp_all add: jstep_def)

lemma savevalue_spec:
  assumes z: "length (savedvalue p) = valuesize p" "0 < valuesize p" and s: "tok_text p s"
  shows "\<exists>ok sv k a e. savevalue p = Some (ok, p\<lparr>savedvalue := sv, valuesize := k, heap := a, jp_errno := e\<rparr>) \<and> length sv = k \<and> 0 < k \<and>
    (ok \<longrightarrow> cstr_at sv 0 = Some s) \<and> (decisions (heap p) = [] \<and> length s < PTRDIFF_MAX \<longrightarrow> ok \<and> a = heap p)"
proof -
  obtain vs ve where v: "value_start p = Some vs" "value_end p = Some ve" "vs \<le> ve" "ve \<le> length (mem p)" "s = span p vs ve" "c_string s"
    using s by (auto simp: tok_text_def)
  let ?n = "ve - vs"
  have len: "length s = ?n" using v(3-5) by (simp add: span_def)
  have put: "\<exists>sv'. wr sv 0 s = Some sv' \<and> length sv' = length sv \<and> put_at sv' ?n NUL = Some (sv'[?n := NUL]) \<and>
      cstr_at (sv'[?n := NUL]) 0 = Some s" if "Suc ?n \<le> length sv" for sv :: string
  proof -
    have "wr sv 0 s = Some (s @ drop ?n sv)" using that len by (simp add: wr_def)
    moreover have "(s @ drop ?n sv)[?n := NUL] = s @ NUL # drop (Suc ?n) sv"
      using that len by (simp add: list_update_append Cons_nth_drop_Suc [symmetric])
    ultimately show ?thesis using that len v(6) by (simp add: put_at_def cstr_at_def takeWhile_NUL)
  qed
  have rd: "rd (mem p) vs ?n = Some s" using v by (simp add: rd_def span_def)
  show ?thesis
  proof (cases "Suc ?n \<le> valuesize p")
    case True
    obtain sv' where sv': "wr (savedvalue p) 0 s = Some sv'" "length sv' = valuesize p" "put_at sv' ?n NUL = Some (sv'[?n := NUL])"
        "cstr_at (sv'[?n := NUL]) 0 = Some s" using put [of "savedvalue p"] True z by auto
    have "savevalue p = Some (True, p\<lparr>savedvalue := sv'[?n := NUL]\<rparr>)"
      using True v(1-3) z rd sv' by (simp add: savevalue_def)
    then show ?thesis using z sv'(2,4)
      by (intro exI [of _ True] exI [of _ "sv'[?n := NUL]"] exI [of _ "valuesize p"] exI [of _ "heap p"] exI [of _ "jp_errno p"]) simp
  next
    case False
    obtain ok a where a: "try_alloc (Suc ?n) (heap p) = (ok, a)" by fastforce
    have dec: "decisions (heap p) = [] \<and> length s < PTRDIFF_MAX \<longrightarrow> ok \<and> a = heap p"
      using a try_alloc_no_oom [of "heap p" "Suc ?n"] len by auto
    show ?thesis
    proof (cases ok)
      case ok: False
      then have "savevalue p = Some (False, p\<lparr>heap := a, jp_errno := ENOMEM\<rparr>)"
        using False v(1-3) z a by (simp add: savevalue_def retfail_def)
      then show ?thesis using z dec ok
        by (intro exI [of _ False] exI [of _ "savedvalue p"] exI [of _ "valuesize p"] exI [of _ a] exI [of _ ENOMEM]) simp
    next
      case ok: True
      let ?sv = "realloc_bytes (Suc ?n) (savedvalue p) a"
      obtain sv' where sv': "wr ?sv 0 s = Some sv'" "length sv' = Suc ?n" "put_at sv' ?n NUL = Some (sv'[?n := NUL])"
        "cstr_at (sv'[?n := NUL]) 0 = Some s" using put [of ?sv] by auto
      have "savevalue p = Some (True, p\<lparr>savedvalue := sv'[?n := NUL], valuesize := Suc ?n, heap := a\<rparr>)"
        using False v(1-3) z a ok rd sv' by (simp add: savevalue_def)
      then show ?thesis using sv'(2,4) dec
        by (intro exI [of _ True] exI [of _ "sv'[?n := NUL]"] exI [of _ "Suc ?n"] exI [of _ a] exI [of _ "jp_errno p"]) simp
    qed
  qed
qed

lemma savevalue_returns:
  assumes p: "jok p" and s: "tok_text p s"
  shows "\<exists>ok q. savevalue p = Some (ok, q) \<and> jok q \<and> mem q = mem p \<and> bsize q = bsize p \<and> left q = left p \<and>
    (ok \<longrightarrow> cstr_at (savedvalue q) 0 = Some s)"
proof -
  have "length (savedvalue p) = valuesize p" "0 < valuesize p" using p by (auto simp: jok_def)
  from savevalue_spec [OF this s] obtain ok sv k a e where
    "savevalue p = Some (ok, p\<lparr>savedvalue := sv, valuesize := k, heap := a, jp_errno := e\<rparr>)" "length sv = k" "0 < k"
    "ok \<longrightarrow> cstr_at sv 0 = Some s" by blast
  then show ?thesis using p by (auto simp: jok_def)
qed

lemma accept_returns:
  assumes p: "jok p" and tok: "tok \<noteq> TOK_EOF"
  shows "\<exists>ok q. accept p tok = Some (ok, q) \<and> jstep p q \<and> (ok \<longrightarrow> left q < left p \<and> token p = tok \<and>
    (tok \<in> {TOK_QSTRING, TOK_NUMBER} \<longrightarrow> (\<exists>s. tok_text p s \<and> cstr_at (savedvalue q) 0 = Some s)))"
proof (cases "token p = tok")
  case False
  then have "accept p tok = Some (False, p\<lparr>jp_errno := EINVAL\<rparr>)" by (simp add: accept_def retfail_def)
  then show ?thesis using p by (intro exI [of _ False] exI [of _ "p\<lparr>jp_errno := EINVAL\<rparr>"]) (simp add: jstep_refl)
next
  case True
  then have nb: "tok \<noteq> TOK_BOOLEAN" using p by (auto simp: jok_def tok_ok_def)
  have "\<exists>ok q. (if tok = TOK_QSTRING \<or> tok = TOK_NUMBER then savevalue p else Some (success, p)) = Some (ok, q) \<and> jok q \<and> mem q = mem p \<and>
      bsize q = bsize p \<and> left q = left p \<and> (ok \<longrightarrow> tok \<in> {TOK_QSTRING, TOK_NUMBER} \<longrightarrow> (\<exists>s. tok_text p s \<and> cstr_at (savedvalue q) 0 = Some s))"
  proof (cases "tok = TOK_QSTRING \<or> tok = TOK_NUMBER")
    case False
    then show ?thesis using p by (intro exI [of _ True] exI [of _ p]) auto
  next
    case vt: True
    then obtain s where "tok_text p s" using True p by (auto simp: jok_def tok_ok_def)
    then show ?thesis using savevalue_returns [OF p, of s] vt by auto
  qed
  then obtain ok q where q: "(if tok = TOK_QSTRING \<or> tok = TOK_NUMBER then savevalue p else Some (success, p)) = Some (ok, q)"
      "jok q" "mem q = mem p" "bsize q = bsize p" "left q = left p"
      "ok \<longrightarrow> tok \<in> {TOK_QSTRING, TOK_NUMBER} \<longrightarrow> (\<exists>s. tok_text p s \<and> cstr_at (savedvalue q) 0 = Some s)" by blast
  show ?thesis
  proof (cases ok)
    case False
    then have "accept p tok = Some (False, q\<lparr>jp_errno := EINVAL\<rparr>)" using True nb q(1) by (simp add: accept_def hasvalue_def retfail_def)
    then show ?thesis using q by (intro exI [of _ False] exI [of _ "q\<lparr>jp_errno := EINVAL\<rparr>"]) (simp add: jstep_def)
  next
    case ok: True
    obtain st r where r: "nextsym q = Some (st, r)" "sym_post q st r" using nextsym_returns [of q] q(2) by (auto simp: jok_def)
    let ?r = "if st then r else r\<lparr>jp_errno := EINVAL\<rparr>"
    have "accept p tok = Some (st, ?r)" using True nb q(1) ok r(1) by (simp add: accept_def hasvalue_def retfail_def)
    moreover have "jok r" "savedvalue r = savedvalue q" using r(2) q(2) by (auto simp: sym_post_def jok_def jframe_def)
    then have "jstep p ?r" "savedvalue ?r = savedvalue q" "st \<longrightarrow> left ?r < left p"
      using r(2) q(3-5) by (auto simp: jstep_def sym_post_def jframe_def)
    ultimately show ?thesis using q(6) ok True by (intro exI [of _ st] exI [of _ ?r]) auto
  qed
qed

end
