(* ===== verification/Json.thy ===== *)
theory Json
  imports Json_Lex Metalist
begin

section \<open>The JSON parser\<close>

text \<open>
  The second half of \<open>src/json/json.c\<close>: values, the recursive descent parser and the printer of its test
  program. The lists of arrays and objects are the sequences they hold: \<open>seq_new\<close> and \<open>seq_add\<close> are \<open>list_new\<close> and
  \<open>list_add\<close> of \<open>Metalist\<close> on the represented sequences, as the lemmas below show. The mutually recursive functions
  take fuel, one unit per call; \<open>json_parse\<close> supplies enough for every input.
\<close>

subsection \<open>Lists of values\<close>

definition seq_new :: "allocator \<Rightarrow> 'a list option \<times> allocator" where
  "seq_new a = (case try_alloc node_size a of (True, a) \<Rightarrow> (Some [], a) | (False, a) \<Rightarrow> (None, a))"

text \<open>The list \<open>list_add\<close> returns, \<open>None\<close> for NULL.\<close>

definition seq_add :: "'a list option \<Rightarrow> 'a \<Rightarrow> allocator \<Rightarrow> 'a list option \<times> allocator" where
  "seq_add lst x a = (case (case lst of Some xs \<Rightarrow> (Some xs, a) | None \<Rightarrow> seq_new a) of
     (None, a) \<Rightarrow> (None, a)
   | (Some xs, a) \<Rightarrow> (case try_alloc node_size a of (True, a) \<Rightarrow> (Some (xs @ [x]), a) | (False, a) \<Rightarrow> (None, a)))"

lemma list_new_seq:
  fixes l :: "'b mlist option"
  assumes "list_new a = (l, a')"
  shows "\<exists>r. seq_new a = (r, a') \<and> (l = None \<longleftrightarrow> r = None) \<and> (\<forall>l' xs. l = Some l' \<and> r = Some xs \<longrightarrow> lrep l' xs)"
proof -
  obtain ok a1 where "try_alloc node_size a = (ok, a1)" by fastforce
  then show ?thesis using assms list_new_result [OF assms] by (cases ok) (auto simp: list_new_def seq_new_def)
qed

lemma list_add_seq:
  assumes "lrep l xs"
  shows "\<exists>r l' a'. seq_add (Some xs) x a = (r, a') \<and> list_add (Some l) x a = Some (r \<noteq> None, Some l', a') \<and>
    lrep l' (case r of Some ys \<Rightarrow> ys | None \<Rightarrow> xs)"
proof -
  obtain ok l' a' where add: "list_add_to l x a = Some (ok, l', a')" "lrep l' (if ok then xs @ [x] else xs)"
    using list_add_to_spec [OF assms, of x a] by blast
  then show ?thesis using list_add_to_status [OF add(1)]
    by (cases ok) (auto simp: seq_add_def list_add_def)
qed

lemma list_add_new_seq:
  "\<exists>r l' a'. seq_add None x a = (r, a') \<and> list_add None x a = Some (r \<noteq> None, l', a') \<and> (\<forall>ys. r = Some ys \<longrightarrow> (\<exists>l. l' = Some l \<and> lrep l ys))"
proof -
  obtain l a1 where n: "(list_new a :: 'a mlist option \<times> allocator) = (l, a1)" by fastforce
  show ?thesis
  proof (cases l)
    case None
    then show ?thesis using n list_new_seq [OF n] by (auto simp: seq_add_def list_add_def)
  next
    case (Some l1)
    then have l1: "lrep l1 []" "(seq_new a :: 'a list option \<times> allocator) = (Some [], a1)"
      using list_new_result [OF n] list_new_seq [OF n] by (auto simp: seq_new_def split: prod.splits bool.splits)
    obtain ok l2 a2 where add: "list_add_to l1 x a1 = Some (ok, l2, a2)" "lrep l2 (if ok then [] @ [x] else [])"
      using list_add_to_spec [OF l1(1), of x a1] by blast
    obtain dead l3 where "list_free l1 = Some (dead, l3)" "\<not> ok \<Longrightarrow> \<exists>d l3. list_free l2 = Some (d, l3)"
      using list_free_spec lrep_weak(1) l1(1) add(2) by metis
    then show ?thesis using n Some l1(2) add list_add_to_status [OF add(1)]
      by (cases ok) (auto simp: seq_add_def list_add_def)
  qed
qed

subsection \<open>Values and objects\<close>

definition dupstr :: "string \<Rightarrow> json_parser \<Rightarrow> string option \<times> json_parser" where
  "dupstr src p = (case try_alloc (length src + 1) (heap p) of
     (True, a) \<Rightarrow> (Some src, p\<lparr>heap := a\<rparr>) | (False, a) \<Rightarrow> (None, p\<lparr>heap := a\<rparr>))"

definition object_new :: "string \<Rightarrow> json_parser \<Rightarrow> string option \<times> json_parser" where
  "object_new name p = (case try_alloc 16 (heap p) of
     (False, a) \<Rightarrow> (None, p\<lparr>heap := a\<rparr>)
   | (True, a) \<Rightarrow> dupstr name (p\<lparr>heap := a\<rparr>))"

text \<open>
  \<open>value_new\<close>: the argument is the type with the pointer the caller passes; a string for the three types that
  convert it.
\<close>

datatype value_arg = Qstring string | Double string | Integer string | Arr "json_value list option" | Obj "(string \<times> json_value) list"
  | Plain json_value

definition value_new :: "value_arg \<Rightarrow> json_parser \<Rightarrow> (json_value option \<times> json_parser) option" where
  "value_new arg p = (case try_alloc 32 (heap p) of
     (False, a) \<Rightarrow> Some (None, p\<lparr>heap := a\<rparr>)
   | (True, a) \<Rightarrow> do {
       let p = p\<lparr>heap := a\<rparr>;
       (case arg of
          Qstring s \<Rightarrow> (case dupstr s p of (None, p) \<Rightarrow> Some (None, p) | (Some s, p) \<Rightarrow> Some (Some (VAL_QSTRING s), p))
        | Double s \<Rightarrow> do { ok \<leftarrow> isreal s; if ok then Some (Some (VAL_DOUBLE s), p) else None }
        | Integer s \<Rightarrow> if isinteger s then Some (Some (VAL_INTEGER (fst (strtol s 10))), p) else None
        | Arr l \<Rightarrow> Some (Some (VAL_ARRAY l), p)
        | Obj l \<Rightarrow> Some (Some (VAL_OBJECT l), p)
        | Plain v \<Rightarrow> Some (Some v, p)) })"

subsection \<open>The parser\<close>

definition MAX_ARRAY_NESTING :: nat where "MAX_ARRAY_NESTING = 19"

text \<open>The tokens of \<open>accept_value\<close> behind the two that open a nested value.\<close>

definition accept_plain :: "json_parser \<Rightarrow> (json_value option \<times> json_parser) option" where
  "accept_plain p = do {
     (ok, p) \<leftarrow> accept p TOK_TRUE;
     if ok then value_new (Plain VAL_TRUE) p else do {
     (ok, p) \<leftarrow> accept p TOK_FALSE;
     if ok then value_new (Plain VAL_FALSE) p else do {
     (ok, p) \<leftarrow> accept p TOK_NULL;
     if ok then value_new (Plain VAL_NULL) p else do {
     (ok, p) \<leftarrow> accept p TOK_NUMBER;
     if ok then do {
       s \<leftarrow> cstr_at (savedvalue p) 0;
       if isinteger s then value_new (Integer s) p
       else do { r \<leftarrow> isreal s; if r then value_new (Double s) p else None } }
     else do {
     (ok, p) \<leftarrow> accept p TOK_QSTRING;
     if ok then do { s \<leftarrow> cstr_at (savedvalue p) 0; value_new (Qstring s) p } else do {
     (ok, p) \<leftarrow> accept p TOK_STRING;
     if ok then value_new (Plain VAL_STRING) p else do {
     (ok, p) \<leftarrow> accept p TOK_BOOLEAN;
     if ok then value_new (Plain VAL_BOOLEAN) p else Some (None, p) }}}}}}}"

text \<open>
  \<open>array_loop\<close> and \<open>objects_loop\<close> are the \<open>do\<close> loops of \<open>accept_array_elements\<close> and \<open>accept_objects\<close>; their first result
  is \<open>None\<close> when the loop returned from the function.
\<close>

fun accept_value :: "nat \<Rightarrow> json_parser \<Rightarrow> (json_value option \<times> json_parser) option"
  and accept_array_elements :: "nat \<Rightarrow> json_parser \<Rightarrow> (json_value option \<times> json_parser) option"
  and array_loop :: "nat \<Rightarrow> json_parser \<Rightarrow> json_value list option \<Rightarrow> int \<Rightarrow> int \<Rightarrow>
        ((json_value list option \<times> int \<times> int) option \<times> json_parser) option"
  and accept_object :: "nat \<Rightarrow> json_parser \<Rightarrow> ((string \<times> json_value) option \<times> json_parser) option"
  and accept_objects :: "nat \<Rightarrow> json_parser \<Rightarrow> ((string \<times> json_value) list option \<times> json_parser) option"
  and objects_loop :: "nat \<Rightarrow> json_parser \<Rightarrow> (string \<times> json_value) list \<Rightarrow> int \<Rightarrow> int \<Rightarrow>
        (((string \<times> json_value) list \<times> int \<times> int) option \<times> json_parser) option" where
  "accept_value 0 p = None"
| "accept_value (Suc n) p = do {
     (ok, p) \<leftarrow> accept p TOK_OBJECTSTART;
     if ok then do {
       (lst, p) \<leftarrow> accept_objects n p;
       (case lst of None \<Rightarrow> Some (None, p) | Some l \<Rightarrow> value_new (Obj l) p) }
     else do {
       (ok, p) \<leftarrow> accept p TOK_ARRAYSTART;
       if ok then accept_array_elements n p else accept_plain p } }"
| "accept_array_elements 0 p = None"
| "accept_array_elements (Suc n) p = do {
     let p = p\<lparr>narrays := narrays p + 1\<rparr>;
     if narrays p > MAX_ARRAY_NESTING then Some (None, p)
     else do {
       (r, p) \<leftarrow> array_loop n p None (- 1) 0;
       (case r of
          None \<Rightarrow> Some (None, p)
        | Some (lst, ncommas, nvalues) \<Rightarrow> do {
            (ok, p) \<leftarrow> accept p TOK_ARRAYEND;
            if \<not> ok then Some (None, p)
            else do {
              let p = p\<lparr>narrays := narrays p - 1\<rparr>;
              if nvalues > 0 \<and> nvalues - ncommas \<noteq> 1 then Some (None, p)
              else value_new (Arr lst) p } }) } }"
| "array_loop 0 p lst ncommas nvalues = None"
| "array_loop (Suc n) p lst ncommas nvalues = do {
     (v, p) \<leftarrow> accept_value n p;
     if lst = None \<and> v = None then Some (Some (lst, ncommas, nvalues), p)
     else do {
       let (r, p) = (case v of
           None \<Rightarrow> (Some (lst, nvalues), p)
         | Some v \<Rightarrow> (case seq_add lst v (heap p) of
             (None, a) \<Rightarrow> (None, p\<lparr>heap := a\<rparr>)
           | (Some l, a) \<Rightarrow> (Some (Some l, nvalues + 1), p\<lparr>heap := a\<rparr>)));
       (case r of
          None \<Rightarrow> Some (None, p)
        | Some (lst, nvalues) \<Rightarrow> do {
            (ok, p) \<leftarrow> accept p TOK_COMMA;
            if ok then array_loop n p lst (ncommas + 1) nvalues
            else Some (Some (lst, ncommas + 1, nvalues), p) }) } }"
| "accept_object 0 p = None"
| "accept_object (Suc n) p = do {
     (ok, p) \<leftarrow> accept p TOK_QSTRING;
     if \<not> ok then Some (None, p)
     else do {
       s \<leftarrow> cstr_at (savedvalue p) 0;
       (case object_new s p of
          (None, p) \<Rightarrow> Some (None, p)
        | (Some name, p) \<Rightarrow> do {
            (ok, p) \<leftarrow> accept p TOK_COLON;
            if \<not> ok then Some (None, p)
            else do {
              (v, p) \<leftarrow> accept_value n p;
              Some (map_option (\<lambda>v. (name, v)) v, p) } }) } }"
| "accept_objects 0 p = None"
| "accept_objects (Suc n) p = (case seq_new (heap p) of
     (None, a) \<Rightarrow> Some (None, p\<lparr>heap := a\<rparr>)
   | (Some result, a) \<Rightarrow> do {
       (r, p) \<leftarrow> objects_loop n (p\<lparr>heap := a\<rparr>) result (- 1) 0;
       (case r of
          None \<Rightarrow> Some (None, p)
        | Some (result, ncommas, nobjects) \<Rightarrow>
            if ncommas > 0 \<and> nobjects - ncommas \<noteq> 1 then Some (None, p)
            else do {
              (ok, p) \<leftarrow> accept p TOK_OBJECTEND;
              if \<not> ok then Some (None, p) else Some (Some result, p) }) })"
| "objects_loop 0 p result ncommas nobjects = None"
| "objects_loop (Suc n) p result ncommas nobjects = do {
     (obj, p) \<leftarrow> accept_object n p;
     let (r, p) = (case obj of
         None \<Rightarrow> (Some (result, nobjects), p)
       | Some obj \<Rightarrow> (case seq_add (Some result) obj (heap p) of
           (None, a) \<Rightarrow> (None, p\<lparr>heap := a\<rparr>)
         | (Some l, a) \<Rightarrow> (Some (l, nobjects + 1), p\<lparr>heap := a\<rparr>)));
     (case r of
        None \<Rightarrow> Some (None, p)
      | Some (result, nobjects) \<Rightarrow> do {
          (ok, p) \<leftarrow> accept p TOK_COMMA;
          if ok then objects_loop n p result (ncommas + 1) nobjects
          else Some (Some (result, ncommas + 1, nobjects), p) }) }"

subsection \<open>The interface\<close>

definition json_parse :: "json_parser \<Rightarrow> (status_t \<times> json_parser) option" where
  "json_parse p = do {
     (ok, p) \<leftarrow> nextsym p;
     if \<not> ok then Some (retfail p ENOENT)
     else do {
       (v, p) \<leftarrow> accept_value (4 * (bsize p + 1) + 1) p;
       let p = p\<lparr>jp_value := v\<rparr>;
       if v = None then Some (retfail p EINVAL)
       else do {
         (ok, p) \<leftarrow> nextsym p;
         if ok then Some (retfail p E2BIG) else Some (success, p) } } }"

text \<open>\<open>buffer_init\<close> and \<open>json_parser_new\<close>: a fresh parser has the token 0, \<open>TOK_ERROR\<close>.\<close>

definition buffer_init :: "json_parser \<Rightarrow> string \<Rightarrow> size_t \<Rightarrow> (status_t \<times> json_parser) option" where
  "buffer_init p src srclen = (if srclen > 0 then
     (let p = p\<lparr>mem := src, nread := 0, bsize := srclen, token := TOK_ERROR, value_start := None, value_end := None,
        savedvalue := [], narrays := 0, valuesize := 4096\<rparr> in
      case try_alloc 4096 (heap p) of
        (False, a) \<Rightarrow> Some (retfail (p\<lparr>heap := a\<rparr>) ENOMEM)
      | (True, a) \<Rightarrow> Some (success, p\<lparr>savedvalue := fresh_bytes 4096 a, heap := a\<rparr>))
   else None)"

definition json_parser_new :: "string \<Rightarrow> size_t \<Rightarrow> allocator \<Rightarrow> (json_parser option \<times> allocator) option" where
  "json_parser_new src srclen a = (if srclen > 0 then
     (case try_alloc 128 a of
        (False, a) \<Rightarrow> Some (None, a)
      | (True, a) \<Rightarrow> do {
          (ok, p) \<leftarrow> buffer_init \<lparr>mem = [], nread = 0, bsize = 0, token = TOK_ERROR, value_start = None, value_end = None,
              savedvalue = [], valuesize = 0, narrays = 0, jp_value = None, jp_errno = E0, lineno = 1, heap = a\<rparr> src srclen;
          if ok then Some (Some p, heap p) else Some (None, heap p) })
   else None)"

definition json_parser_values :: "json_parser \<Rightarrow> json_value option" where
  "json_parser_values p = jp_value p"

definition json_parser_errno :: "json_parser \<Rightarrow> errno_t" where
  "json_parser_errno p = jp_errno p"

definition json_parser_errtext :: "json_parser \<Rightarrow> string" where
  "json_parser_errtext p = (if jp_errno p = E0 then ''no error'' else ''unknown error'')"

text \<open>The printer of the test program; \<open>fmt\<close> is what \<open>printf\<close> writes for a \<open>long double\<close>.\<close>

definition quoted :: "string \<Rightarrow> string" where
  "quoted s = CHR 0x22 # s @ [CHR 0x22]"

fun print_value :: "(string \<Rightarrow> string) \<Rightarrow> json_value \<Rightarrow> string"
  and print_array :: "(string \<Rightarrow> string) \<Rightarrow> json_value list \<Rightarrow> string"
  and print_objects :: "(string \<Rightarrow> string) \<Rightarrow> (string \<times> json_value) list \<Rightarrow> string" where
  "print_value fmt (VAL_QSTRING s) = quoted s"
| "print_value fmt (VAL_DOUBLE s) = fmt s"
| "print_value fmt (VAL_INTEGER i) = int_str i"
| "print_value fmt (VAL_ARRAY None) = ''[ ]'' @ [CHR 0x0A]"
| "print_value fmt (VAL_ARRAY (Some vs)) = ''['' @ [CHR 0x0A] @ print_array fmt vs @ '']'' @ [CHR 0x0A]"
| "print_value fmt (VAL_OBJECT os) = ''{'' @ [CHR 0x0A] @ print_objects fmt os @ [CHR 0x0A] @ ''}''"
| "print_value fmt VAL_STRING = ''string''"
| "print_value fmt VAL_TRUE = ''true''"
| "print_value fmt VAL_FALSE = ''false''"
| "print_value fmt VAL_BOOLEAN = ''boolean''"
| "print_value fmt VAL_NULL = ''null''"
| "print_array fmt [] = []"
| "print_array fmt (v # vs) = print_value fmt v @ (if vs = [] then [] else '','' @ [CHR 0x0A]) @ print_array fmt vs"
| "print_objects fmt [] = []"
| "print_objects fmt ((name, v) # os) = quoted name @ '' :'' @ print_value fmt v @
     (if os = [] then [] else '','' @ [CHR 0x0A]) @ print_objects fmt os"

subsection \<open>The parser returns\<close>

text \<open>A computation that returns; and one that consumes a token when it yields a value.\<close>

definition jany :: "json_parser \<Rightarrow> ('v \<times> json_parser) option \<Rightarrow> bool" where
  "jany p x \<longleftrightarrow> (\<exists>v q. x = Some (v, q) \<and> jstep p q)"

definition jret :: "json_parser \<Rightarrow> ('v option \<times> json_parser) option \<Rightarrow> bool" where
  "jret p x \<longleftrightarrow> (\<exists>v q. x = Some (v, q) \<and> jstep p q \<and> (v \<noteq> None \<longrightarrow> left q < left p))"

lemma jret_any: "jret p x \<Longrightarrow> jany p x"
  unfolding jret_def jany_def by blast

lemma jany_pure: "jstep p q \<Longrightarrow> jany p (Some (v, q))"
  by (simp add: jany_def)

lemma jany_later: "jstep p q \<Longrightarrow> jany q x \<Longrightarrow> jany p x"
  unfolding jany_def using jstep_trans by blast

lemma jany_shrunk: "jstep p q \<Longrightarrow> left q < left p \<Longrightarrow> jany q x \<Longrightarrow> jret p x"
  unfolding jany_def jret_def jstep_def by force

lemma jret_later: "jstep p q \<Longrightarrow> jret q x \<Longrightarrow> jret p x"
  unfolding jret_def jstep_def by force

lemma jret_none: "jstep p q \<Longrightarrow> jret p (Some (None, q))"
  by (simp add: jret_def)

lemma jany_bind: "jany p x \<Longrightarrow> (\<And>v q. jstep p q \<Longrightarrow> jany q (f (v, q))) \<Longrightarrow> jany p (x \<bind> f)"
  unfolding jany_def using jstep_trans by fastforce

lemma jany_upd [simp]: "jany (p\<lparr>heap := a\<rparr>) x = jany p x" "jany (p\<lparr>narrays := k\<rparr>) x = jany p x"
  by (simp_all add: jany_def)

lemma jok_step: "jstep p q \<Longrightarrow> jok q"
  by (simp add: jstep_def)

lemma accept_jret:
  assumes "jok p" "tok \<noteq> TOK_EOF"
    "\<And>q. jstep p q \<Longrightarrow> left q < left p \<Longrightarrow> token p = tok \<Longrightarrow>
       (tok \<in> {TOK_QSTRING, TOK_NUMBER} \<Longrightarrow> \<exists>s. tok_text p s \<and> cstr_at (savedvalue q) 0 = Some s) \<Longrightarrow> jany q (f (True, q))"
    "\<And>q. jstep p q \<Longrightarrow> jret q (f (False, q))"
  shows "jret p (accept p tok \<bind> f)"
proof -
  obtain ok q where q: "accept p tok = Some (ok, q)" "jstep p q" "ok \<longrightarrow> left q < left p \<and> token p = tok \<and>
      (tok \<in> {TOK_QSTRING, TOK_NUMBER} \<longrightarrow> (\<exists>s. tok_text p s \<and> cstr_at (savedvalue q) 0 = Some s))"
    using accept_returns [OF assms(1,2)] by blast
  show ?thesis
  proof (cases ok)
    case True
    then have "jany q (f (True, q))" using assms(3) q by blast
    then show ?thesis using jany_shrunk [of p q] q True by simp
  next
    case False
    then show ?thesis using jret_later [OF q(2) assms(4) [OF q(2)]] q(1) by simp
  qed
qed

lemma accept_jany:
  assumes "jok p" "tok \<noteq> TOK_EOF"
    "\<And>q. jstep p q \<Longrightarrow> left q < left p \<Longrightarrow> (tok \<in> {TOK_QSTRING, TOK_NUMBER} \<Longrightarrow> \<exists>s. cstr_at (savedvalue q) 0 = Some s) \<Longrightarrow> jany q (f (True, q))"
    "\<And>q. jstep p q \<Longrightarrow> jany q (f (False, q))"
  shows "jany p (accept p tok \<bind> f)"
proof -
  obtain ok q where q: "accept p tok = Some (ok, q)" "jstep p q" "ok \<longrightarrow> left q < left p \<and>
      (tok \<in> {TOK_QSTRING, TOK_NUMBER} \<longrightarrow> (\<exists>s. cstr_at (savedvalue q) 0 = Some s))"
    using accept_returns [OF assms(1,2)] by blast
  have "jany q (f (ok, q))"
  proof (cases ok)
    case True
    then show ?thesis using assms(3) [OF q(2)] q(3) by simp
  qed (use assms(4) [OF q(2)] in simp)
  then show ?thesis using q(1) jany_later [OF q(2)] by simp
qed

lemma dupstr_jany: "\<exists>r a. dupstr s p = (r, p\<lparr>heap := a\<rparr>)"
  by (cases "try_alloc (length s + 1) (heap p)") (auto simp: dupstr_def split: bool.split)

lemma object_new_jany: "\<exists>r a. object_new s p = (r, p\<lparr>heap := a\<rparr>)"
proof -
  obtain ok a where "try_alloc 16 (heap p) = (ok, a)" by fastforce
  then show ?thesis using dupstr_jany [of s "p\<lparr>heap := a\<rparr>"] by (cases ok) (auto simp: object_new_def)
qed

lemma value_new_jany:
  assumes "jok p" "\<And>s. arg = Double s \<Longrightarrow> isreal s = Some True" "\<And>s. arg = Integer s \<Longrightarrow> isinteger s"
  shows "jany p (value_new arg p)"
proof -
  obtain ok a where a: "try_alloc 32 (heap p) = (ok, a)" by fastforce
  show ?thesis
  proof (cases "\<exists>s. arg = Qstring s")
    case True
    then obtain s where s: "arg = Qstring s" ..
    obtain r a' where "dupstr s (p\<lparr>heap := a\<rparr>) = (r, p\<lparr>heap := a, heap := a'\<rparr>)" using dupstr_jany [of s "p\<lparr>heap := a\<rparr>"] by blast
    then show ?thesis using s a jstep_refl [OF assms(1)]
      by (cases ok; cases r) (auto simp: value_new_def jany_def)
  next
    case False
    then show ?thesis using assms a jstep_refl [OF assms(1)]
      by (cases ok; cases arg) (auto simp: value_new_def jany_def)
  qed
qed

lemma array_value_jany: "jok p \<Longrightarrow> jany p (value_new (Arr l) (p\<lparr>narrays := k\<rparr>))"
  using value_new_jany [of "p\<lparr>narrays := k\<rparr>" "Arr l"] by simp

lemma number_value_jany:
  assumes "token p = TOK_NUMBER" "jstep p q" "\<exists>s. tok_text p s \<and> cstr_at (savedvalue q) 0 = Some s" "jok p"
  shows "jany q (do { s \<leftarrow> cstr_at (savedvalue q) 0;
       if isinteger s then value_new (Integer s) q
       else do { r \<leftarrow> isreal s; if r then value_new (Double s) q else None } })"
proof -
  obtain s where s: "tok_text p s" "cstr_at (savedvalue q) 0 = Some s" using assms(3) by blast
  have "isinteger s \<or> isreal s = Some True" using assms(1,4) s(1) by (auto simp: jok_def tok_ok_def tok_text_def)
  then show ?thesis using s(2) value_new_jany [OF jok_step [OF assms(2)], of "Integer s"] value_new_jany [OF jok_step [OF assms(2)], of "Double s"]
    by (cases "isinteger s") simp_all
qed

lemma string_value_jany:
  assumes "jstep p q" "\<exists>s. cstr_at (savedvalue q) 0 = Some s"
  shows "jany q (do { s \<leftarrow> cstr_at (savedvalue q) 0; value_new (Qstring s) q })"
  using assms(2) value_new_jany [OF jok_step [OF assms(1)], of "Qstring s" for s] by auto

lemma plain_value_jany: "jstep p q \<Longrightarrow> jany q (value_new (Plain v) q)"
  by (rule value_new_jany) (auto intro: jok_step)

lemma accept_plain_jret: "jok p \<Longrightarrow> jret p (accept_plain p)"
  unfolding accept_plain_def
  apply (rule accept_jret; simp add: plain_value_jany)
  apply (rule accept_jret, erule jok_step; simp add: plain_value_jany)
  apply (rule accept_jret, erule jok_step; simp add: plain_value_jany)
  apply (rule accept_jret, erule jok_step; simp?)
   apply (rule number_value_jany, assumption+, rule jok_step, assumption)
  apply (rule accept_jret, erule jok_step; (simp add: jok_step)?)
   apply (rule string_value_jany, assumption, blast)
  apply (rule accept_jret, erule jok_step; simp add: plain_value_jany)
  apply (rule accept_jret, erule jok_step; simp add: plain_value_jany)
  apply (rule jret_none, rule jstep_refl, erule jok_step)
  done

text \<open>Four units of fuel per token, and a few for the calls before the next one.\<close>

definition fuel_ok :: "nat \<Rightarrow> bool" where
  "fuel_ok n \<longleftrightarrow>
     (\<forall>p. jok p \<longrightarrow> 4 * left p + 1 \<le> n \<longrightarrow> jret p (accept_value n p)) \<and>
     (\<forall>p. jok p \<longrightarrow> 4 * left p + 3 \<le> n \<longrightarrow> jany p (accept_array_elements n p)) \<and>
     (\<forall>p lst i k. jok p \<longrightarrow> 4 * left p + 2 \<le> n \<longrightarrow> jany p (array_loop n p lst i k)) \<and>
     (\<forall>p. jok p \<longrightarrow> 4 * left p + 1 \<le> n \<longrightarrow> jany p (accept_object n p)) \<and>
     (\<forall>p. jok p \<longrightarrow> 4 * left p + 3 \<le> n \<longrightarrow> jany p (accept_objects n p)) \<and>
     (\<forall>p os i k. jok p \<longrightarrow> 4 * left p + 2 \<le> n \<longrightarrow> jany p (objects_loop n p os i k))"

lemma fuel_okD:
  assumes "fuel_ok n" "jok p"
  shows "4 * left p + 1 \<le> n \<Longrightarrow> jret p (accept_value n p)" "4 * left p + 3 \<le> n \<Longrightarrow> jany p (accept_array_elements n p)"
    "4 * left p + 2 \<le> n \<Longrightarrow> jany p (array_loop n p lst i k)" "4 * left p + 1 \<le> n \<Longrightarrow> jany p (accept_object n p)"
    "4 * left p + 3 \<le> n \<Longrightarrow> jany p (accept_objects n p)" "4 * left p + 2 \<le> n \<Longrightarrow> jany p (objects_loop n p os i k)"
  using assms unfolding fuel_ok_def by blast+

lemma value_fuel:
  assumes ih: "fuel_ok n" and p: "jok p" "4 * left p + 1 \<le> Suc n"
  shows "jret p (accept_value (Suc n) p)"
  unfolding accept_value.simps
proof (rule accept_jret [OF p(1)], simp)
  fix q assume q: "jstep p q" "left q < left p"
  have "jany q (accept_objects n q)" using ih p(2) q jok_step [OF q(1)] by (auto simp: fuel_ok_def)
  then have "jany q (accept_objects n q \<bind> (\<lambda>(lst, p). case lst of None \<Rightarrow> Some (None, p) | Some l \<Rightarrow> value_new (Obj l) p))"
    by (rule jany_bind) (auto intro!: jany_pure jstep_refl value_new_jany dest: jok_step split: option.split)
  then show "jany q (case (True, q) of (ok, p) \<Rightarrow> if ok then do { (lst, p) \<leftarrow> accept_objects n p;
       (case lst of None \<Rightarrow> Some (None, p) | Some l \<Rightarrow> value_new (Obj l) p) }
     else do { (ok, p) \<leftarrow> accept p TOK_ARRAYSTART; if ok then accept_array_elements n p else accept_plain p })" by simp
next
  fix q assume q: "jstep p q"
  have "jret q (do { (ok, p) \<leftarrow> accept q TOK_ARRAYSTART; if ok then accept_array_elements n p else accept_plain p })"
    by (rule accept_jret [OF jok_step [OF q]])
      (use ih p(2) q in \<open>auto simp: fuel_ok_def jstep_def accept_plain_jret\<close>)
  then show "jret q (case (False, q) of (ok, p) \<Rightarrow> if ok then do { (lst, p) \<leftarrow> accept_objects n p;
       (case lst of None \<Rightarrow> Some (None, p) | Some l \<Rightarrow> value_new (Obj l) p) }
     else do { (ok, p) \<leftarrow> accept p TOK_ARRAYSTART; if ok then accept_array_elements n p else accept_plain p })" by simp
qed

lemma array_fuel:
  assumes ih: "fuel_ok n" and p: "jok p" "4 * left p + 3 \<le> Suc n"
  shows "jany p (accept_array_elements (Suc n) p)"
proof (cases "narrays p + 1 > MAX_ARRAY_NESTING")
  case True
  then show ?thesis using p by (simp add: jany_pure jstep_refl)
next
  case False
  let ?p = "p\<lparr>narrays := narrays p + 1\<rparr>"
  have fin: "jany q (do { (ok, p) \<leftarrow> accept q TOK_ARRAYEND; if \<not> ok then Some (None, p)
      else do { let p = p\<lparr>narrays := narrays p - 1\<rparr>; if nv > 0 \<and> nv - nc \<noteq> 1 then Some (None, p) else value_new (Arr lst) p } })"
    if "jstep p q" for q and nv nc :: int and lst
    by (rule accept_jany [OF jok_step [OF that]])
      (auto simp: Let_def intro!: jany_pure jstep_refl array_value_jany dest: jok_step)
  have "jany ?p (array_loop n ?p None (- 1) 0)" by (rule fuel_okD(3) [OF ih]) (use p in simp_all)
  then have "jany ?p (accept_array_elements (Suc n) p)" using False
    by (simp only: accept_array_elements.simps Let_def) (auto intro!: jany_bind jany_pure jstep_refl fin [simplified Let_def] dest: jok_step split: option.split)
  then show ?thesis by (simp add: jany_def)
qed

lemma array_loop_fuel:
  assumes ih: "fuel_ok n" and p: "jok p" "4 * left p + 2 \<le> Suc n"
  shows "jany p (array_loop (Suc n) p lst i k)"
proof -
  have v: "jret p (accept_value n p)" using fuel_okD(1) [OF ih p(1)] p(2) by simp
  have more: "jany q (do { (ok, p) \<leftarrow> accept q TOK_COMMA; if ok then array_loop n p lst (i + 1) k else Some (Some (lst, i + 1, k), p) })"
    if "jstep p q" for q lst i k
    by (rule accept_jany [OF jok_step [OF that]])
      (use ih p(2) that in \<open>auto simp: fuel_ok_def jstep_def intro!: jany_pure\<close>)
  have more': "jany q (do { (ok, p) \<leftarrow> accept (q\<lparr>heap := a\<rparr>) TOK_COMMA; if ok then array_loop n p lst (i + 1) k else Some (Some (lst, i + 1, k), p) })"
    if "jstep p q" for q a lst i k using more [of "q\<lparr>heap := a\<rparr>"] that by simp
  show ?thesis unfolding array_loop.simps
    by (rule jany_bind [OF jret_any [OF v]])
      (auto intro!: jany_pure jstep_refl more more' dest: jok_step split: option.split prod.split)
qed

lemma object_fuel:
  assumes ih: "fuel_ok n" and p: "jok p" "4 * left p + 1 \<le> Suc n"
  shows "jany p (accept_object (Suc n) p)"
proof -
  have val: "jany r (accept_value n r \<bind> (\<lambda>(v, p). Some (map_option (\<lambda>v. (name, v)) v, p)))"
    if "jstep p r" "left r < left p" for r name
  proof (rule jany_bind [OF jret_any])
    show "jret r (accept_value n r)" using ih p(2) that jok_step [OF that(1)] by (auto simp: fuel_ok_def)
  qed (auto intro!: jany_pure jstep_refl dest: jok_step)
  have colon: "jany q (do { (ok, p) \<leftarrow> accept (q\<lparr>heap := a\<rparr>) TOK_COLON; if \<not> ok then Some (None, p)
      else do { (v, p) \<leftarrow> accept_value n p; Some (map_option (\<lambda>v. (name, v)) v, p) } })"
    if q: "jstep p q" "left q < left p" for q a name
  proof -
    have "jany (q\<lparr>heap := a\<rparr>) (do { (ok, p) \<leftarrow> accept (q\<lparr>heap := a\<rparr>) TOK_COLON; if \<not> ok then Some (None, p)
        else do { (v, p) \<leftarrow> accept_value n p; Some (map_option (\<lambda>v. (name, v)) v, p) } })"
      by (rule accept_jany) (use q in \<open>auto intro!: jany_pure val jstep_refl intro: jstep_trans [OF q(1)] dest: jok_step\<close>)
    then show ?thesis by simp
  qed
  show ?thesis unfolding accept_object.simps
  proof (rule accept_jany [OF p(1)], simp)
    fix q assume q: "jstep p q" "left q < left p" "TOK_QSTRING \<in> {TOK_QSTRING, TOK_NUMBER} \<Longrightarrow> \<exists>s. cstr_at (savedvalue q) 0 = Some s"
    then obtain s where s: "cstr_at (savedvalue q) 0 = Some s" by auto
    obtain r a where "object_new s q = (r, q\<lparr>heap := a\<rparr>)" using object_new_jany [of s q] by blast
    then show "jany q (case (True, q) of (ok, p) \<Rightarrow> if \<not> ok then Some (None, p) else do {
       s \<leftarrow> cstr_at (savedvalue p) 0;
       (case object_new s p of (None, p) \<Rightarrow> Some (None, p)
        | (Some name, p) \<Rightarrow> do { (ok, p) \<leftarrow> accept p TOK_COLON; if \<not> ok then Some (None, p)
            else do { (v, p) \<leftarrow> accept_value n p; Some (map_option (\<lambda>v. (name, v)) v, p) } }) })"
      using s colon [OF q(1,2), of a] jok_step [OF q(1)] by (cases r) (auto intro!: jany_pure jstep_refl)
  qed (auto intro!: jany_pure jstep_refl dest: jok_step)
qed

lemma objects_loop_fuel:
  assumes ih: "fuel_ok n" and p: "jok p" "4 * left p + 2 \<le> Suc n"
  shows "jany p (objects_loop (Suc n) p os i k)"
proof -
  have v: "jany p (accept_object n p)" using fuel_okD(4) [OF ih p(1)] p(2) by simp
  have more: "jany q (do { (ok, p) \<leftarrow> accept q TOK_COMMA; if ok then objects_loop n p os (i + 1) k else Some (Some (os, i + 1, k), p) })"
    if "jstep p q" for q os i k
    by (rule accept_jany [OF jok_step [OF that]])
      (use ih p(2) that in \<open>auto simp: fuel_ok_def jstep_def intro!: jany_pure\<close>)
  have more': "jany q (do { (ok, p) \<leftarrow> accept (q\<lparr>heap := a\<rparr>) TOK_COMMA; if ok then objects_loop n p os (i + 1) k else Some (Some (os, i + 1, k), p) })"
    if "jstep p q" for q a os i k using more [of "q\<lparr>heap := a\<rparr>"] that by simp
  show ?thesis unfolding objects_loop.simps
    by (rule jany_bind [OF v])
      (auto intro!: jany_pure jstep_refl more more' dest: jok_step split: option.split prod.split)
qed

lemma objects_fuel:
  assumes ih: "fuel_ok n" and p: "jok p" "4 * left p + 3 \<le> Suc n"
  shows "jany p (accept_objects (Suc n) p)"
proof -
  obtain r a where a: "(seq_new (heap p) :: (string \<times> json_value) list option \<times> allocator) = (r, a)" by fastforce
  have fin: "jany q (do { (ok, p) \<leftarrow> accept q TOK_OBJECTEND; if \<not> ok then Some (None, p) else Some (Some l, p) })"
    if "jstep p q" for q and l :: "(string \<times> json_value) list"
    by (rule accept_jany [OF jok_step [OF that]]) (auto intro!: jany_pure jstep_refl dest: jok_step)
  have "jany p (objects_loop n (p\<lparr>heap := a\<rparr>) l (- 1) 0)" for l
    using fuel_okD(6) [OF ih, of "p\<lparr>heap := a\<rparr>" l "- 1" 0] p by simp
  then show ?thesis using a jstep_refl [OF p(1)]
    by (cases r) (auto intro!: jany_bind jany_pure jstep_refl fin dest: jok_step split: option.split)
qed

lemma enough_fuel: "fuel_ok n"
proof (induction n)
  case 0
  then show ?case by (simp add: fuel_ok_def)
next
  case (Suc n)
  show ?case unfolding fuel_ok_def
    using value_fuel [OF Suc] array_fuel [OF Suc] array_loop_fuel [OF Suc] object_fuel [OF Suc] objects_fuel [OF Suc] objects_loop_fuel [OF Suc]
    by blast
qed

end
