(* ===== verification/Json_Print.thy ===== *)
theory Json_Print
  imports Json
begin

section \<open>Printing and parsing JSON\<close>

text \<open>
  The token stream of an input, the values of \<open>src/json/json.c\<close> that can be printed and read back, and the
  properties of the parser as a whole.
\<close>

subsection \<open>Token streams\<close>

definition skippable :: "char \<Rightarrow> bool" where
  "skippable c \<longleftrightarrow> isspace c \<and> c \<noteq> CHR 0x0C"

lemma skip_not_255: "isspace c \<Longrightarrow> code c \<noteq> 255"
  by (auto simp: isspace_def)

lemma ws_loop_skip:
  "jwf p \<Longrightarrow> inp p = ws @ rest \<Longrightarrow> list_all skippable ws \<Longrightarrow>
   \<exists>q. ws_loop p = ws_loop q \<and> reads p q \<and> inp q = rest"
proof (induction ws arbitrary: p)
  case Nil
  then show ?case using reads_refl by auto
next
  case (Cons c ws)
  have i: "inp p = c # (ws @ rest)" using Cons.prems(2) by simp
  note g = getc_Cons [OF Cons.prems(1) i]
  let ?q = "p\<lparr>nread := nread p + 1\<rparr>"
  let ?n = "if c = CHR 0x0A then ?q\<lparr>lineno := lineno ?q + 1\<rparr> else ?q"
  have c: "isspace c" "c \<noteq> CHR 0x0C" "code c \<noteq> 255" using Cons.prems(3) skip_not_255 by (auto simp: skippable_def)
  have n: "jwf ?n" "inp ?n = ws @ rest" "reads p ?n" using g reads_next [OF Cons.prems(1) i] by auto
  have "ws_loop p = ws_loop ?n" using g(1) c by (subst ws_loop.simps) simp
  then show ?case using Cons.IH [OF n(1,2)] Cons.prems(3) reads_trans [OF n(3)] by auto
qed

text \<open>A state in which the last token read was \<open>t\<close> with text \<open>s\<close>, and \<open>rest\<close> is still to be read.\<close>

definition lexed :: "json_parser \<Rightarrow> tokentype \<Rightarrow> string \<Rightarrow> string \<Rightarrow> json_parser \<Rightarrow> bool" where
  "lexed p t s rest q \<longleftrightarrow> jwf q \<and> jframe p q \<and> token q = t \<and> inp q = rest \<and> (t \<in> {TOK_QSTRING, TOK_NUMBER} \<longrightarrow> tok_text q s)"

lemma lexed_reads: "reads p q \<Longrightarrow> lexed q t s rest r \<Longrightarrow> lexed p t s rest r"
  unfolding lexed_def reads_def using jframe_trans by blast

lemma lexed_frame: "jframe p q \<Longrightarrow> lexed q t s rest r \<Longrightarrow> lexed p t s rest r"
  unfolding lexed_def using jframe_trans by blast

lemma nextsym_skip:
  assumes p: "jwf p" "token p \<noteq> TOK_EOF" "inp p = ws @ rest" "list_all skippable ws"
  obtains q where "reads (p\<lparr>value_start := None, value_end := None, token := TOK_UNKNOWN\<rparr>) q" "inp q = rest" "jframe p q"
    "ws_loop (p\<lparr>value_start := None, value_end := None, token := TOK_UNKNOWN\<rparr>) = ws_loop q"
proof -
  let ?p = "p\<lparr>value_start := None, value_end := None, token := TOK_UNKNOWN\<rparr>"
  obtain q where "ws_loop ?p = ws_loop q" "reads ?p q" "inp q = rest"
    using ws_loop_skip [of ?p ws rest] p by auto
  then show thesis using that [of q] by (auto simp: reads_def)
qed

lemma ws_loop_stop:
  assumes "jwf q" "inp q = c # rest" "\<not> isspace c" "code c \<noteq> 255"
  shows "ws_loop q = Some (Inr (Some c), q\<lparr>nread := nread q + 1\<rparr>)"
  using getc_Cons [OF assms(1,2)] assms(3,4) by (subst ws_loop.simps) simp

lemma ws_loop_end: "jwf q \<Longrightarrow> inp q = [] \<Longrightarrow> ws_loop q = Some (Inr None, q)"
  by (subst ws_loop.simps) (simp add: getc_Nil)

lemma nextsym_eof:
  assumes "jwf p" "token p \<noteq> TOK_EOF" "list_all skippable (inp p)"
  shows "\<exists>q. nextsym p = Some (True, q) \<and> lexed p TOK_EOF [] [] q"
proof -
  obtain q where q: "reads (p\<lparr>value_start := None, value_end := None, token := TOK_UNKNOWN\<rparr>) q" "inp q = []" "jframe p q"
      "ws_loop (p\<lparr>value_start := None, value_end := None, token := TOK_UNKNOWN\<rparr>) = ws_loop q"
    using nextsym_skip [of p "inp p" "[]"] assms by auto
  then have "ws_loop q = Some (Inr None, q)" by (auto simp: reads_def intro: ws_loop_end)
  then have "nextsym p = Some (True, q\<lparr>token := TOK_EOF\<rparr>)" using q(4) assms(2) by (simp add: nextsym_def)
  then show ?thesis using q by (auto simp: lexed_def reads_def)
qed

text \<open>A symbol other than a number, once its case of the switch is known.\<close>

lemma nextsym_sym:
  assumes p: "jwf p" "token p \<noteq> TOK_EOF" "inp p = ws @ c # rest" "list_all skippable ws"
    and c: "\<not> isspace c" "code c \<noteq> 255" "c \<noteq> CHR ''-''" "\<not> isdigit c" and t: "t \<noteq> TOK_UNKNOWN" "t \<notin> {TOK_NUMBER}"
    and sw: "\<And>q. jwf q \<Longrightarrow> inp q = rest \<Longrightarrow> \<exists>r. nextsym_switch c q = Some (t, r) \<and> reads q r \<and> inp r = rest' \<and> (t = TOK_QSTRING \<longrightarrow> tok_text r s)"
  shows "\<exists>q. nextsym p = Some (True, q) \<and> lexed p t s rest' q"
proof -
  obtain q where q: "reads (p\<lparr>value_start := None, value_end := None, token := TOK_UNKNOWN\<rparr>) q" "inp q = c # rest" "jframe p q"
      "ws_loop (p\<lparr>value_start := None, value_end := None, token := TOK_UNKNOWN\<rparr>) = ws_loop q"
    using nextsym_skip [OF p] by blast
  have wf: "jwf q" using q(1) by (simp add: reads_def)
  note g = getc_Cons [OF wf q(2)]
  let ?q = "q\<lparr>nread := nread q + 1\<rparr>"
  obtain r where r: "nextsym_switch c ?q = Some (t, r)" "reads ?q r" "inp r = rest'" "t = TOK_QSTRING \<longrightarrow> tok_text r s"
    using sw [OF g(2,3)] by blast
  have "nextsym p = Some (True, r\<lparr>token := t\<rparr>)"
    using q(4) ws_loop_stop [OF wf q(2) c(1,2)] r(1) c t(1) p(2) by (simp add: nextsym_def)
  moreover have "tok_text (r\<lparr>token := t\<rparr>) s = tok_text r s" by (simp add: tok_text_def span_def)
  moreover have "jframe p r" using q(3) r(2) by (auto simp: reads_def intro: jframe_trans)
  ultimately show ?thesis using r t(2) by (auto simp: lexed_def reads_def)
qed

definition punct :: "tokentype \<rightharpoonup> char" where
  "punct t = (case t of TOK_ARRAYSTART \<Rightarrow> Some (CHR ''['') | TOK_ARRAYEND \<Rightarrow> Some (CHR '']'') | TOK_OBJECTSTART \<Rightarrow> Some (CHR ''{'')
     | TOK_OBJECTEND \<Rightarrow> Some (CHR ''}'') | TOK_COLON \<Rightarrow> Some (CHR '':'') | TOK_COMMA \<Rightarrow> Some (CHR '','') | _ \<Rightarrow> None)"

lemma punct_cases:
  assumes "punct t = Some c"
  obtains "t = TOK_ARRAYSTART" "c = CHR ''[''" | "t = TOK_ARRAYEND" "c = CHR '']''" | "t = TOK_OBJECTSTART" "c = CHR ''{''"
    | "t = TOK_OBJECTEND" "c = CHR ''}''" | "t = TOK_COLON" "c = CHR '':''" | "t = TOK_COMMA" "c = CHR '',''"
  using assms by (cases t) (simp_all add: punct_def)

lemma nextsym_punct:
  assumes "jwf p" "token p \<noteq> TOK_EOF" "inp p = ws @ c # rest" "list_all skippable ws" "punct t = Some c"
  shows "\<exists>q. nextsym p = Some (True, q) \<and> lexed p t [] rest q"
proof (rule nextsym_sym [OF assms(1-4)])
  show "\<exists>r. nextsym_switch c q = Some (t, r) \<and> reads q r \<and> inp r = rest \<and> (t = TOK_QSTRING \<longrightarrow> tok_text r [])" if "jwf q" "inp q = rest" for q
    using assms(5) by (rule punct_cases) (use that reads_refl in \<open>simp_all add: nextsym_switch_def\<close>)
qed (use assms(5) in \<open>rule punct_cases; simp add: isspace_def isdigit_def\<close>)+

lemma get_word_reads:
  "jwf q \<Longrightarrow> inp q = w @ rest \<Longrightarrow> list_all (\<lambda>c. code c \<noteq> 255) w \<Longrightarrow> \<exists>r. get_word w t q = Some (t, r) \<and> reads q r \<and> inp r = rest"
proof (induction w arbitrary: q)
  case Nil
  then show ?case using reads_refl by auto
next
  case (Cons c w)
  have i: "inp q = c # (w @ rest)" using Cons.prems(2) by simp
  note g = getc_Cons [OF Cons.prems(1) i]
  show ?case using Cons.IH [OF g(2,3)] g(1) Cons.prems(3) reads_trans [OF reads_next [OF Cons.prems(1) i]] by auto
qed

text \<open>The keywords that are values.\<close>

definition keyword :: "tokentype \<rightharpoonup> string" where
  "keyword t = (case t of TOK_TRUE \<Rightarrow> Some ''true'' | TOK_FALSE \<Rightarrow> Some ''false'' | TOK_NULL \<Rightarrow> Some ''null'' | TOK_STRING \<Rightarrow> Some ''string'' | _ \<Rightarrow> None)"

lemma keyword_cases:
  assumes "keyword t = Some w"
  obtains "t = TOK_TRUE" "w = ''true''" | "t = TOK_FALSE" "w = ''false''" | "t = TOK_NULL" "w = ''null''" | "t = TOK_STRING" "w = ''string''"
  using assms by (cases t) (simp_all add: keyword_def)

lemma nextsym_keyword:
  assumes "jwf p" "token p \<noteq> TOK_EOF" "inp p = ws @ w @ rest" "list_all skippable ws" "keyword t = Some w"
  shows "\<exists>q. nextsym p = Some (True, q) \<and> lexed p t [] rest q"
proof -
  obtain c v where w: "w = c # v" using assms(5) by (rule keyword_cases) simp_all
  have c: "\<not> isspace c \<and> code c \<noteq> 255 \<and> c \<noteq> CHR ''-'' \<and> \<not> isdigit c \<and> list_all (\<lambda>c. code c \<noteq> 255) v \<and> t \<notin> {TOK_UNKNOWN, TOK_NUMBER, TOK_QSTRING}"
    using assms(5) by (rule keyword_cases) (use w in \<open>auto simp: isspace_def isdigit_def\<close>)
  have i: "inp p = ws @ c # (v @ rest)" using assms(3) w by simp
  show ?thesis
  proof (rule nextsym_sym [OF assms(1,2) i assms(4)])
    show "\<exists>r. nextsym_switch c q = Some (t, r) \<and> reads q r \<and> inp r = rest \<and> (t = TOK_QSTRING \<longrightarrow> tok_text r [])" if "jwf q" "inp q = v @ rest" for q
    proof -
      note r = get_word_reads [OF that, of t]
      have "nextsym_switch c q = get_word v t q" using assms(5)
        by (rule keyword_cases) (use w in \<open>simp_all add: nextsym_switch_def get_true_def get_false_def get_null_def get_string_def del: get_word.simps\<close>)
      then show ?thesis using r c by auto
    qed
  qed (use c in auto)
qed

text \<open>The text between the quotes that \<open>get_qstring\<close> accepts, with the previous character.\<close>

fun qs_ok :: "char \<Rightarrow> string \<Rightarrow> bool" where
  "qs_ok prev [] \<longleftrightarrow> prev \<noteq> CHR 0x5C"
| "qs_ok prev (c # cs) \<longleftrightarrow> code c \<noteq> 255 \<and> c \<notin> {NUL, CHR 0x09, CHR 0x0A} \<and> (prev = CHR 0x5C \<longrightarrow> strchr legal_escapes c \<noteq> None) \<and>
     (prev = CHR 0x5C \<and> c = CHR ''u'' \<longrightarrow> 4 \<le> length cs \<and> list_all isxdigit (take 4 cs)) \<and> (c = CHR 0x22 \<longrightarrow> prev = CHR 0x5C) \<and>
     qs_ok (if c = CHR 0x5C \<and> prev = CHR 0x5C then NUL else c) cs"

lemma qs_ok_c_string: "qs_ok prev s \<Longrightarrow> c_string s"
  by (induction s arbitrary: prev) auto

lemma drop_mem: "jwf p \<Longrightarrow> drop (nread p) (mem p) = inp p @ drop (bsize p) (mem p)"
proof -
  assume "jwf p"
  then have "nread p - length (take (bsize p) (mem p)) = 0" by (auto simp: jwf_def)
  then show ?thesis
    using drop_append [of "nread p" "take (bsize p) (mem p)" "drop (bsize p) (mem p)"] unfolding inp_def append_take_drop_id by simp
qed

lemma four_hex_inp:
  assumes "jwf q" "inp q = cs @ rest" "4 \<le> length cs" "list_all isxdigit (take 4 cs)"
  shows "four_hex_digits q = Some True"
proof -
  obtain a b c d cs' where cs: "cs = a # b # c # d # cs'"
    using assms(3) by (auto simp: eval_nat_numeral Suc_le_length_iff)
  let ?t = "cs' @ rest @ drop (bsize q) (mem q)"
  have "drop (nread q) (mem q) = a # b # c # d # ?t" using drop_mem [OF assms(1)] assms(2) cs by simp
  moreover have "isxdigit a" "isxdigit b" "isxdigit c" "isxdigit d" using assms(4) cs by (simp_all add: eval_nat_numeral)
  then have "a \<noteq> NUL" "b \<noteq> NUL" "c \<noteq> NUL" "d \<noteq> NUL" by auto
  moreover have "NUL \<in> set ?t" using assms(1) by (simp add: jwf_def)
  ultimately show ?thesis using \<open>isxdigit a\<close> \<open>isxdigit b\<close> \<open>isxdigit c\<close> \<open>isxdigit d\<close>
    by (simp add: four_hex_digits_def cstr_at_def)
qed

lemma qstring_loop_reads:
  "jwf p \<Longrightarrow> inp p = s @ CHR 0x22 # rest \<Longrightarrow> qs_ok prev s \<Longrightarrow> value_end p = Some (nread p) \<Longrightarrow>
   \<exists>q. qstring_loop p prev n = Some (Inr (Some (CHR 0x22), n + length s + 1), q) \<and> reads p q \<and> inp q = rest \<and>
     value_start q = value_start p \<and> value_end q = Some (nread p + length s)"
proof (induction s arbitrary: p prev n)
  case Nil
  then have i: "inp p = CHR 0x22 # rest" by simp
  note g = getc_Cons [OF Nil.prems(1) i]
  have "prev \<noteq> CHR 0x5C" using Nil.prems(3) by simp
  then have "qstring_loop p prev n = Some (Inr (Some (CHR 0x22), n + 1), p\<lparr>nread := nread p + 1\<rparr>)"
    using qstring_loop_step [of p "CHR 0x22" "p\<lparr>nread := nread p + 1\<rparr>" "nread p" prev True n] g(1) Nil.prems(4) by simp
  then show ?case using g reads_next [OF Nil.prems(1) i] Nil.prems(4) by simp
next
  case (Cons c cs)
  have i: "inp p = c # (cs @ CHR 0x22 # rest)" using Cons.prems(2) by simp
  note g = getc_Cons [OF Cons.prems(1) i]
  let ?q = "p\<lparr>nread := nread p + 1\<rparr>"
  let ?n = "?q\<lparr>value_end := Some (nread p + 1)\<rparr>"
  let ?prev = "if c = CHR 0x5C \<and> prev = CHR 0x5C then NUL else c"
  have c: "code c \<noteq> 255" "c \<notin> {NUL, CHR 0x09, CHR 0x0A}" "prev = CHR 0x5C \<Longrightarrow> strchr legal_escapes c \<noteq> None"
      "c = CHR 0x22 \<Longrightarrow> prev = CHR 0x5C" "qs_ok ?prev cs" using Cons.prems(3) by auto
  have "prev = CHR 0x5C \<Longrightarrow> c \<noteq> CHR ''U''" using c(3) unfolding strchr_None legal_escapes_def by auto
  then have hex: "(if prev = CHR 0x5C \<and> (c = CHR ''u'' \<or> c = CHR ''U'') then four_hex_digits ?q else Some True) = Some True"
    using four_hex_inp [OF g(2,3)] Cons.prems(3) unfolding qs_ok.simps by (simp split del: if_split split: if_split) blast
  have "buffer_getc p = Some (Some c, ?q)" "value_end ?q = Some (nread p)" using g(1) c(1) Cons.prems(4) by simp_all
  from qstring_loop_step [OF this hex, of n] have run: "qstring_loop p prev n = qstring_loop ?n ?prev (n + 1)"
    using c by auto
  obtain q where "qstring_loop ?n ?prev (n + 1) = Some (Inr (Some (CHR 0x22), n + 1 + length cs + 1), q)" "reads ?n q" "inp q = rest"
      "value_start q = value_start ?n" "value_end q = Some (nread ?n + length cs)"
    using Cons.IH [of ?n ?prev "n + 1"] g(2,3) c(5) by auto
  then show ?case using run reads_trans [of p ?q q] reads_next [OF Cons.prems(1) i] by (intro exI [of _ q]) simp
qed

lemma tok_text_inp:
  assumes "jwf p" "inp p = s @ rest" "c_string s" "jframe p q" "value_start q = Some (nread p)" "value_end q = Some (nread p + length s)"
  shows "tok_text q s"
proof -
  have "take (length s) (drop (nread p) (mem p)) = s" using drop_mem [OF assms(1)] assms(2) by simp
  moreover have "nread p + length s \<le> length (mem p)" using assms(1,2) inp_length [OF assms(1)] by (auto simp: jwf_def)
  ultimately show ?thesis using assms(3-6) by (simp add: tok_text_def span_def jframe_def)
qed

lemma nextsym_qstring:
  assumes "jwf p" "token p \<noteq> TOK_EOF" "inp p = ws @ quoted s @ rest" "list_all skippable ws" "qs_ok NUL s"
  shows "\<exists>q. nextsym p = Some (True, q) \<and> lexed p TOK_QSTRING s rest q"
proof -
  have i: "inp p = ws @ CHR 0x22 # (s @ CHR 0x22 # rest)" using assms(3) by (simp add: quoted_def)
  show ?thesis
  proof (rule nextsym_sym [OF assms(1,2) i assms(4)])
    fix q assume q: "jwf q" "inp q = s @ CHR 0x22 # rest"
    let ?q = "q\<lparr>value_start := Some (nread q), value_end := Some (nread q)\<rparr>"
    obtain r where r: "qstring_loop ?q NUL 0 = Some (Inr (Some (CHR 0x22), 0 + length s + 1), r)" "reads ?q r" "inp r = rest"
        "value_start r = Some (nread q)" "value_end r = Some (nread q + length s)"
      using qstring_loop_reads [of ?q s rest NUL 0] q assms(5) by auto
    have "get_qstring q = Some (TOK_QSTRING, r)" using r(1) by (simp add: get_qstring_def)
    moreover have "tok_text r s"
      by (rule tok_text_inp [OF q qs_ok_c_string [OF assms(5)] _ r(4,5)]) (use r(2) in \<open>simp add: reads_def\<close>)
    ultimately show "\<exists>r. nextsym_switch (CHR 0x22) q = Some (TOK_QSTRING, r) \<and> reads q r \<and> inp r = rest \<and> (TOK_QSTRING = TOK_QSTRING \<longrightarrow> tok_text r s)"
      using r(2,3) by (simp add: nextsym_switch_def)
  qed (simp_all add: isspace_def isdigit_def)
qed

text \<open>A number ends in front of a character that cannot be part of one.\<close>

definition delimited :: "string \<Rightarrow> bool" where
  "delimited rest \<longleftrightarrow> (rest = [] \<or> strchr legal_number (hd rest) = None \<and> hd rest \<noteq> NUL \<and> code (hd rest) \<noteq> 255)"

definition num_ok :: "string \<Rightarrow> bool" where
  "num_ok s \<longleftrightarrow> s \<noteq> [] \<and> (hd s = CHR ''-'' \<or> isdigit (hd s)) \<and> list_all (\<lambda>c. strchr legal_number c \<noteq> None) s \<and> length s < 512 \<and>
     (isinteger s \<or> isreal s = Some True)"

lemma legal_number_char: "strchr legal_number c \<noteq> None \<Longrightarrow> code c \<noteq> 255 \<and> c \<noteq> NUL"
  unfolding strchr_None legal_number_def by auto

lemma number_loop_reads:
  "jwf p \<Longrightarrow> inp p = s @ rest \<Longrightarrow> list_all (\<lambda>c. strchr legal_number c \<noteq> None) s \<Longrightarrow> delimited rest \<Longrightarrow> value_end p = Some (nread p) \<Longrightarrow>
   \<exists>q. number_loop p n = Some (Some (n + length s), q) \<and> reads p q \<and> inp q = rest \<and> value_start q = value_start p \<and>
     value_end q = Some (nread p + length s)"
proof (induction s arbitrary: p n)
  case Nil
  show ?case
  proof (cases rest)
    case Nil': Nil
    then show ?thesis using Nil.prems by (subst number_loop.simps) (simp add: getc_Nil reads_refl)
  next
    case (Cons c cs)
    then have i: "inp p = c # cs" using Nil.prems(2) by simp
    have "number_loop p n = Some (Some n, p)"
      using getc_Cons(1) [OF Nil.prems(1) i] ungetc_inp [OF Nil.prems(1) i] Nil.prems(4) Cons
      by (subst number_loop.simps) (simp add: delimited_def)
    then show ?thesis using Nil.prems reads_refl by simp
  qed
next
  case (Cons c cs)
  have i: "inp p = c # (cs @ rest)" using Cons.prems(2) by simp
  note g = getc_Cons [OF Cons.prems(1) i]
  let ?n = "p\<lparr>nread := nread p + 1, value_end := Some (nread p + 1)\<rparr>"
  have c: "strchr legal_number c \<noteq> None" "code c \<noteq> 255" "c \<noteq> NUL" using Cons.prems(3) legal_number_char by auto
  have run: "number_loop p n = number_loop ?n (n + 1)" using g(1) c Cons.prems(5) by (subst number_loop.simps) simp
  obtain q where "number_loop ?n (n + 1) = Some (Some (n + 1 + length cs), q)" "reads ?n q" "inp q = rest"
      "value_start q = value_start ?n" "value_end q = Some (nread ?n + length cs)"
    using Cons.IH [of ?n "n + 1"] g(2,3) Cons.prems(3,4) by auto
  then show ?case using run reads_trans [of p "p\<lparr>nread := nread p + 1\<rparr>" q] reads_next [OF Cons.prems(1) i] by (intro exI [of _ q]) simp
qed

lemma nextsym_number:
  assumes "jwf p" "token p \<noteq> TOK_EOF" "inp p = ws @ s @ rest" "list_all skippable ws" "num_ok s" "delimited rest"
  shows "\<exists>q. nextsym p = Some (True, q) \<and> lexed p TOK_NUMBER s rest q"
proof -
  obtain q where q: "reads (p\<lparr>value_start := None, value_end := None, token := TOK_UNKNOWN\<rparr>) q" "inp q = s @ rest" "jframe p q"
      "ws_loop (p\<lparr>value_start := None, value_end := None, token := TOK_UNKNOWN\<rparr>) = ws_loop q"
    using nextsym_skip [OF assms(1-4)] by blast
  have wf: "jwf q" using q(1) by (simp add: reads_def)
  obtain c cs where s: "s = c # cs" using assms(5) by (cases s) (auto simp: num_ok_def)
  have c: "c = CHR ''-'' \<or> isdigit c" "list_all (\<lambda>c. strchr legal_number c \<noteq> None) s" using assms(5) s by (auto simp: num_ok_def)
  have sp: "\<not> isspace c" "code c \<noteq> 255" using c(1) by (auto simp: isspace_def isdigit_def)
  have i: "inp q = c # (cs @ rest)" using q(2) s by simp
  let ?q = "q\<lparr>value_start := Some (nread q), value_end := Some (nread q)\<rparr>"
  obtain r where r: "number_loop ?q 0 = Some (Some (length s), r)" "reads ?q r" "inp r = rest" "value_start r = Some (nread q)"
      "value_end r = Some (nread q + length s)"
    using number_loop_reads [of ?q s rest 0] wf q(2) c(2) assms(6) by auto
  have cs: "c_string s" using c(2) legal_number_char by (auto simp: c_string_def list_all_iff)
  have tt: "tok_text r s" by (rule tok_text_inp [OF wf q(2) cs _ r(4,5)]) (use r(2) in \<open>simp add: reads_def\<close>)
  have "rd (mem r) (nread q) (length s) = Some s" using tt r(4,5) by (auto simp: tok_text_def rd_def span_def)
  then have "isnumber (mem r) (nread q) (length s) = Some True"
    using assms(5) cs by (cases "isinteger s") (simp_all add: isnumber_def num_ok_def Let_def takeWhile_c_string)
  then have "get_number q = Some (True, r\<lparr>token := TOK_NUMBER\<rparr>)" using r(1,4) by (simp add: get_number_def)
  moreover have "nextsym p = get_number q"
    using q(4) ws_loop_stop [OF wf i sp] c(1) assms(2) by (auto simp: nextsym_def buffer_ungetc_def)
  moreover have "tok_text (r\<lparr>token := TOK_NUMBER\<rparr>) s" using tt by (simp add: tok_text_def span_def)
  ultimately show ?thesis using r(2,3) q(3) by (auto simp: lexed_def reads_def intro: jframe_trans)
qed

inductive lexes :: "string \<Rightarrow> (tokentype \<times> string) list \<Rightarrow> bool" where
  lex_eof: "list_all skippable ws \<Longrightarrow> lexes ws [(TOK_EOF, [])]"
| lex_punct: "list_all skippable ws \<Longrightarrow> punct t = Some c \<Longrightarrow> lexes rest ts \<Longrightarrow> lexes (ws @ c # rest) ((t, []) # ts)"
| lex_keyword: "list_all skippable ws \<Longrightarrow> keyword t = Some w \<Longrightarrow> lexes rest ts \<Longrightarrow> lexes (ws @ w @ rest) ((t, []) # ts)"
| lex_qstring: "list_all skippable ws \<Longrightarrow> qs_ok NUL s \<Longrightarrow> lexes rest ts \<Longrightarrow> lexes (ws @ quoted s @ rest) ((TOK_QSTRING, s) # ts)"
| lex_number: "list_all skippable ws \<Longrightarrow> num_ok s \<Longrightarrow> delimited rest \<Longrightarrow> lexes rest ts \<Longrightarrow> lexes (ws @ s @ rest) ((TOK_NUMBER, s) # ts)"

lemma lexes_ne: "lexes s ts \<Longrightarrow> ts \<noteq> []"
  by (induction rule: lexes.induct) auto

lemma lexes_skip:
  assumes "lexes s ts" "skippable c"
  shows "lexes (c # s) ts"
  using assms(1)
proof (cases s ts rule: lexes.cases)
  case (lex_eof)
  then show ?thesis using assms(2) by (auto intro: lexes.lex_eof)
next
  case (lex_punct ws t d rest us)
  then show ?thesis using lexes.lex_punct [of "c # ws" t d rest us] assms(2) by simp
next
  case (lex_keyword ws t w rest us)
  then show ?thesis using lexes.lex_keyword [of "c # ws" t w rest us] assms(2) by simp
next
  case (lex_qstring ws u rest us)
  then show ?thesis using lexes.lex_qstring [of "c # ws" u rest us] assms(2) by simp
next
  case (lex_number ws u rest us)
  then show ?thesis using lexes.lex_number [of "c # ws" u rest us] assms(2) by simp
qed

lemma nextsym_lexes:
  assumes "lexes (inp p) ((t, s) # ts)" "jwf p" "token p \<noteq> TOK_EOF"
  shows "\<exists>q rest. nextsym p = Some (True, q) \<and> lexed p t s rest q \<and> (t \<noteq> TOK_EOF \<longrightarrow> lexes rest ts)"
  using assms(1)
proof (cases "inp p" "(t, s) # ts" rule: lexes.cases)
  case (lex_eof)
  then show ?thesis using nextsym_eof [OF assms(2,3)] by auto
next
  case (lex_punct ws c rest)
  then show ?thesis using nextsym_punct [OF assms(2,3), of ws c rest t] by auto
next
  case (lex_keyword ws w rest)
  then show ?thesis using nextsym_keyword [OF assms(2,3), of ws w rest t] by auto
next
  case (lex_qstring ws rest)
  then show ?thesis using nextsym_qstring [OF assms(2,3), of ws s rest] by auto
next
  case (lex_number ws rest)
  then show ?thesis using nextsym_number [OF assms(2,3), of ws s rest] by auto
qed

subsection \<open>Parsing a token stream\<close>

text \<open>The parser in front of a stream of tokens: the first has been read. No allocation fails.\<close>

definition at :: "json_parser \<Rightarrow> (tokentype \<times> string) list \<Rightarrow> bool" where
  "at p ts \<longleftrightarrow> jwf p \<and> length (savedvalue p) = valuesize p \<and> 0 < valuesize p \<and> decisions (heap p) = [] \<and> length (mem p) < PTRDIFF_MAX \<and>
     (case ts of [] \<Rightarrow> False | (t, s) # us \<Rightarrow> token p = t \<and> (t \<in> {TOK_QSTRING, TOK_NUMBER} \<longrightarrow> tok_text p s) \<and> (t \<noteq> TOK_EOF \<longrightarrow> lexes (inp p) us))"

lemma at_upd [simp]:
  "at (p\<lparr>jp_errno := e\<rparr>) ts = at p ts" "at (p\<lparr>narrays := k\<rparr>) ts = at p ts" "at (p\<lparr>jp_value := v\<rparr>) ts = at p ts"
  by (auto simp: at_def tok_text_def span_def split: list.split)

lemma accept_other: "at p ((t, s) # us) \<Longrightarrow> t' \<noteq> t \<Longrightarrow> accept p t' = Some (False, p\<lparr>jp_errno := EINVAL\<rparr>)"
  by (auto simp: at_def accept_def retfail_def)

lemma tok_text_length: "tok_text p s \<Longrightarrow> jwf p \<Longrightarrow> length s \<le> length (mem p)"
  by (auto simp: tok_text_def span_def)

lemma at_lexed:
  assumes "nextsym q = Some (True, r)" "lexed q t s rest r" "t \<noteq> TOK_EOF \<longrightarrow> lexes rest ts"
    "length (savedvalue q) = valuesize q" "0 < valuesize q" "decisions (heap q) = []" "length (mem q) < PTRDIFF_MAX"
  shows "at r ((t, s) # ts)"
  using assms by (auto simp: at_def lexed_def jframe_def)

lemma accept_at:
  assumes p: "at p ((t, s) # us)" and t: "t \<notin> {TOK_EOF, TOK_BOOLEAN}"
  shows "\<exists>q. accept p t = Some (True, q) \<and> at q us \<and> narrays q = narrays p \<and>
    (t \<in> {TOK_QSTRING, TOK_NUMBER} \<longrightarrow> cstr_at (savedvalue q) 0 = Some s \<and> length s < PTRDIFF_MAX)"
proof -
  have a: "jwf p" "length (savedvalue p) = valuesize p" "0 < valuesize p" "decisions (heap p) = []" "length (mem p) < PTRDIFF_MAX"
      "token p = t" "t \<in> {TOK_QSTRING, TOK_NUMBER} \<longrightarrow> tok_text p s" "lexes (inp p) us"
    using p t by (auto simp: at_def)
  obtain u x ts where us: "us = (u, x) # ts" using lexes_ne [OF a(8)] by (cases us) auto
  have "\<exists>sv k e. (if t = TOK_QSTRING \<or> t = TOK_NUMBER then savevalue p else Some (success, p)) =
      Some (True, p\<lparr>savedvalue := sv, valuesize := k, jp_errno := e\<rparr>) \<and> length sv = k \<and> 0 < k \<and>
      (t \<in> {TOK_QSTRING, TOK_NUMBER} \<longrightarrow> cstr_at sv 0 = Some s)"
  proof (cases "t = TOK_QSTRING \<or> t = TOK_NUMBER")
    case True
    then have tt: "tok_text p s" using a(7) by auto
    obtain ok sv k h e where sv: "savevalue p = Some (ok, p\<lparr>savedvalue := sv, valuesize := k, heap := h, jp_errno := e\<rparr>)" "length sv = k" "0 < k"
      "ok \<longrightarrow> cstr_at sv 0 = Some s" "decisions (heap p) = [] \<and> length s < PTRDIFF_MAX \<longrightarrow> ok \<and> h = heap p"
      using savevalue_spec [OF a(2,3) tt] by blast
    have "length s < PTRDIFF_MAX" using tok_text_length [OF tt a(1)] a(5) by simp
    then have "ok" "h = heap p" using sv(5) a(4) by auto
    then show ?thesis using True sv by (intro exI [of _ sv] exI [of _ k] exI [of _ e]) simp
  next
    case False
    then show ?thesis using a by (intro exI [of _ "savedvalue p"] exI [of _ "valuesize p"] exI [of _ "jp_errno p"]) simp
  qed
  then obtain sv k e where sv: "(if t = TOK_QSTRING \<or> t = TOK_NUMBER then savevalue p else Some (success, p)) =
      Some (True, p\<lparr>savedvalue := sv, valuesize := k, jp_errno := e\<rparr>)" "length sv = k" "0 < k"
      "t \<in> {TOK_QSTRING, TOK_NUMBER} \<longrightarrow> cstr_at sv 0 = Some s" by blast
  let ?q = "p\<lparr>savedvalue := sv, valuesize := k, jp_errno := e\<rparr>"
  have lx: "lexes (inp ?q) ((u, x) # ts)" "jwf ?q" "token ?q \<noteq> TOK_EOF" using a us t by auto
  obtain r rest where r: "nextsym ?q = Some (True, r)" "lexed ?q u x rest r" "u \<noteq> TOK_EOF \<longrightarrow> lexes rest ts"
    using nextsym_lexes [OF lx] by blast
  have "accept p t = Some (True, r)" using a(6) t sv(1) r(1) by (simp add: accept_def hasvalue_def)
  moreover have "at r us" unfolding us by (rule at_lexed [OF r]) (use a sv in simp_all)
  moreover have "t \<in> {TOK_QSTRING, TOK_NUMBER} \<longrightarrow> length s < PTRDIFF_MAX" using a(1,5,7) tok_text_length by fastforce
  ultimately show ?thesis using r(2) sv(4) by (auto simp: lexed_def jframe_def)
qed

lemma value_new_at:
  assumes "at p us"
  shows "length s < PTRDIFF_MAX \<Longrightarrow> value_new (Qstring s) p = Some (Some (VAL_QSTRING s), p)"
    "isreal s = Some True \<Longrightarrow> value_new (Double s) p = Some (Some (VAL_DOUBLE s), p)"
    "isinteger s \<Longrightarrow> value_new (Integer s) p = Some (Some (VAL_INTEGER (fst (strtol s 10))), p)"
    "value_new (Arr l) p = Some (Some (VAL_ARRAY l), p)" "value_new (Obj os) p = Some (Some (VAL_OBJECT os), p)"
    "value_new (Plain v) p = Some (Some v, p)"
proof -
  have al: "try_alloc n (heap p) = (True, heap p)" if "n \<le> PTRDIFF_MAX" for n
    using assms that by (intro try_alloc_no_oom) (simp_all add: at_def)
  have "try_alloc 32 (heap p) = (True, heap p)" by (rule al) (simp add: PTRDIFF_MAX_def)
  then show "length s < PTRDIFF_MAX \<Longrightarrow> value_new (Qstring s) p = Some (Some (VAL_QSTRING s), p)"
    "isreal s = Some True \<Longrightarrow> value_new (Double s) p = Some (Some (VAL_DOUBLE s), p)"
    "isinteger s \<Longrightarrow> value_new (Integer s) p = Some (Some (VAL_INTEGER (fst (strtol s 10))), p)"
    "value_new (Arr l) p = Some (Some (VAL_ARRAY l), p)" "value_new (Obj os) p = Some (Some (VAL_OBJECT os), p)"
    "value_new (Plain v) p = Some (Some v, p)"
    using al [of "length s + 1"] by (simp_all add: value_new_def dupstr_def)
qed

lemma object_new_at:
  assumes "at p us" "length s < PTRDIFF_MAX"
  shows "object_new s p = (Some s, p)" "seq_new (heap p) = (Some [], heap p)"
    "seq_add lst x (heap p) = (Some ((case lst of None \<Rightarrow> [] | Some xs \<Rightarrow> xs) @ [x]), heap p)"
proof -
  have al: "try_alloc n (heap p) = (True, heap p)" if "n \<le> PTRDIFF_MAX" for n
    using assms that by (intro try_alloc_no_oom) (simp_all add: at_def)
  have "try_alloc 16 (heap p) = (True, heap p)" "try_alloc node_size (heap p) = (True, heap p)"
    by (rule al, simp add: PTRDIFF_MAX_def node_size_def)+
  then show "object_new s p = (Some s, p)" "seq_new (heap p) = (Some [], heap p)"
    "seq_add lst x (heap p) = (Some ((case lst of None \<Rightarrow> [] | Some xs \<Rightarrow> xs) @ [x]), heap p)"
    using al [of "length s + 1"] assms(2) by (simp_all add: object_new_def dupstr_def seq_new_def seq_add_def split: option.split)
qed

text \<open>The value a token stands for by itself.\<close>

definition plain_tok :: "tokentype \<Rightarrow> string \<Rightarrow> json_value option" where
  "plain_tok t s = (case t of TOK_TRUE \<Rightarrow> Some VAL_TRUE | TOK_FALSE \<Rightarrow> Some VAL_FALSE | TOK_NULL \<Rightarrow> Some VAL_NULL | TOK_STRING \<Rightarrow> Some VAL_STRING
     | TOK_QSTRING \<Rightarrow> Some (VAL_QSTRING s)
     | TOK_NUMBER \<Rightarrow> if isinteger s then Some (VAL_INTEGER (fst (strtol s 10))) else if isreal s = Some True then Some (VAL_DOUBLE s) else None
     | _ \<Rightarrow> None)"

lemma accept_plain_at:
  assumes p: "at p ((t, s) # us)" "plain_tok t s = Some v"
  shows "\<exists>q. accept_plain p = Some (Some v, q) \<and> at q us \<and> narrays q = narrays p"
proof -
  have t: "t \<notin> {TOK_EOF, TOK_BOOLEAN}" using p(2) by (auto simp: plain_tok_def)
  let ?p = "p\<lparr>jp_errno := EINVAL\<rparr>"
  have p': "at ?p ((t, s) # us)" using p(1) by simp
  obtain q where q: "accept p t = Some (True, q)" "at q us" "narrays q = narrays p"
      "t \<in> {TOK_QSTRING, TOK_NUMBER} \<longrightarrow> cstr_at (savedvalue q) 0 = Some s \<and> length s < PTRDIFF_MAX"
    using accept_at [OF p(1) t] by blast
  obtain r where r: "accept ?p t = Some (True, r)" "at r us" "narrays r = narrays p"
      "t \<in> {TOK_QSTRING, TOK_NUMBER} \<longrightarrow> cstr_at (savedvalue r) 0 = Some s \<and> length s < PTRDIFF_MAX"
    using accept_at [OF p' t] by auto
  note other = accept_other [OF p(1)] accept_other [OF p']
  note new = value_new_at [OF q(2)] value_new_at [OF r(2)]
  show ?thesis using p(2) q r t
    by (cases t) (auto simp: accept_plain_def plain_tok_def other new split: if_splits)
qed

lemma accept_value_plain:
  assumes p: "at p ((t, s) # us)" "plain_tok t s = Some v"
  shows "\<exists>q. accept_value (Suc n) p = Some (Some v, q) \<and> at q us \<and> narrays q = narrays p"
proof -
  have t: "TOK_OBJECTSTART \<noteq> t" "TOK_ARRAYSTART \<noteq> t" using p(2) by (auto simp: plain_tok_def)
  have p': "at (p\<lparr>jp_errno := EINVAL\<rparr>) ((t, s) # us)" using p(1) by simp
  show ?thesis using accept_plain_at [OF p' p(2)] accept_other [OF p(1)] accept_other [OF p'] t by simp
qed

lemma accept_value_none:
  assumes "at p ((t, s) # us)" "t \<in> {TOK_ARRAYEND, TOK_OBJECTEND, TOK_COMMA, TOK_COLON}"
  shows "accept_value (Suc n) p = Some (None, p\<lparr>jp_errno := EINVAL\<rparr>)"
proof -
  have p': "at (p\<lparr>jp_errno := EINVAL\<rparr>) ((t, s) # us)" using assms(1) by simp
  show ?thesis using assms(2) by (auto simp: accept_plain_def accept_other [OF assms(1)] accept_other [OF p'])
qed

subsection \<open>Reading back what was printed\<close>

fun toks :: "(string \<Rightarrow> string) \<Rightarrow> json_value \<Rightarrow> (tokentype \<times> string) list"
  and arr_toks :: "(string \<Rightarrow> string) \<Rightarrow> json_value list \<Rightarrow> (tokentype \<times> string) list"
  and obj_toks :: "(string \<Rightarrow> string) \<Rightarrow> (string \<times> json_value) list \<Rightarrow> (tokentype \<times> string) list" where
  "toks fmt (VAL_QSTRING s) = [(TOK_QSTRING, s)]"
| "toks fmt (VAL_DOUBLE s) = [(TOK_NUMBER, fmt s)]"
| "toks fmt (VAL_INTEGER i) = [(TOK_NUMBER, int_str i)]"
| "toks fmt (VAL_ARRAY None) = [(TOK_ARRAYSTART, []), (TOK_ARRAYEND, [])]"
| "toks fmt (VAL_ARRAY (Some vs)) = (TOK_ARRAYSTART, []) # arr_toks fmt vs @ [(TOK_ARRAYEND, [])]"
| "toks fmt (VAL_OBJECT os) = (TOK_OBJECTSTART, []) # obj_toks fmt os @ [(TOK_OBJECTEND, [])]"
| "toks fmt VAL_STRING = [(TOK_STRING, [])]"
| "toks fmt VAL_TRUE = [(TOK_TRUE, [])]"
| "toks fmt VAL_FALSE = [(TOK_FALSE, [])]"
| "toks fmt VAL_BOOLEAN = [(TOK_BOOLEAN, [])]"
| "toks fmt VAL_NULL = [(TOK_NULL, [])]"
| "arr_toks fmt [] = []"
| "arr_toks fmt (v # vs) = toks fmt v @ (if vs = [] then [] else [(TOK_COMMA, [])]) @ arr_toks fmt vs"
| "obj_toks fmt [] = []"
| "obj_toks fmt ((name, v) # os) = (TOK_QSTRING, name) # (TOK_COLON, []) # toks fmt v @
     (if os = [] then [] else [(TOK_COMMA, [])]) @ obj_toks fmt os"

text \<open>
  The values that can be read back: strings as the tokenizer accepts them, integers in the range of \<open>long\<close>, numbers that
  are printed as they were read, arrays nested at most 19 deep and empty only as a null list, no \<open>boolean\<close>.
\<close>

fun json_ok :: "(string \<Rightarrow> string) \<Rightarrow> nat \<Rightarrow> json_value \<Rightarrow> bool"
  and array_ok :: "(string \<Rightarrow> string) \<Rightarrow> nat \<Rightarrow> json_value list \<Rightarrow> bool"
  and objects_ok :: "(string \<Rightarrow> string) \<Rightarrow> nat \<Rightarrow> (string \<times> json_value) list \<Rightarrow> bool" where
  "json_ok fmt k (VAL_QSTRING s) = qs_ok NUL s"
| "json_ok fmt k (VAL_DOUBLE s) = (fmt s = s \<and> num_ok s \<and> \<not> isinteger s)"
| "json_ok fmt k (VAL_INTEGER i) = (LONG_MIN \<le> i \<and> i \<le> LONG_MAX)"
| "json_ok fmt k (VAL_ARRAY None) = (k < MAX_ARRAY_NESTING)"
| "json_ok fmt k (VAL_ARRAY (Some vs)) = (k < MAX_ARRAY_NESTING \<and> vs \<noteq> [] \<and> array_ok fmt (k + 1) vs)"
| "json_ok fmt k (VAL_OBJECT os) = objects_ok fmt k os"
| "json_ok fmt k VAL_STRING = True"
| "json_ok fmt k VAL_TRUE = True"
| "json_ok fmt k VAL_FALSE = True"
| "json_ok fmt k VAL_BOOLEAN = False"
| "json_ok fmt k VAL_NULL = True"
| "array_ok fmt k [] = True"
| "array_ok fmt k (v # vs) = (json_ok fmt k v \<and> array_ok fmt k vs)"
| "objects_ok fmt k [] = True"
| "objects_ok fmt k ((name, v) # os) = (qs_ok NUL name \<and> json_ok fmt k v \<and> objects_ok fmt k os)"

lemma toks_ne: "toks fmt v \<noteq> []"
  by (cases "(fmt, v)" rule: toks.cases) simp_all

lemma digit_of_10: "digit_of 10 c \<noteq> None \<Longrightarrow> isdigit c"
  by (auto simp: digit_of_def Let_def isupper_def islower_def split: if_splits)

lemma isinteger_numeral:
  assumes "ds \<noteq> []" "\<forall>c \<in> set ds. isdigit c" "hd ds = CHR ''0'' \<longrightarrow> tl ds = []"
  shows "isinteger ds" "isinteger (CHR ''-'' # ds)"
proof -
  obtain c cs where ds: "ds = c # cs" using assms(1) by (cases ds) auto
  have c: "isdigit c" "\<not> isspace c" "c \<noteq> CHR ''-''" "c \<noteq> NUL" using assms(2) ds by (auto simp: isdigit_def isspace_def)
  have "is_zero ds \<or> \<not> has_leading_zero ds \<and> c \<noteq> CHR ''0''"
    using assms(3) ds c by (auto simp: is_zero_def has_leading_zero_def cs_at_def)
  then show "isinteger ds" "isinteger (CHR ''-'' # ds)"
    using ds c assms(2) by (auto simp: isinteger_def cs_at_def Let_def list_all_iff)
qed

lemma numeral_10:
  shows "\<forall>c \<in> set (numeral_str 10 n). isdigit c" "numeral_str 10 n \<noteq> []" "hd (numeral_str 10 n) = CHR ''0'' \<longrightarrow> tl (numeral_str 10 n) = []"
proof -
  note N = numeral_str_correct [of 10 n, simplified]
  show "\<forall>c \<in> set (numeral_str 10 n). isdigit c" using N digit_of_10 by blast
  show "numeral_str 10 n \<noteq> []" using N by blast
  have "digit_char d \<noteq> CHR ''0''" if "0 < d" "d < 10" for d
  proof
    assume "digit_char d = CHR ''0''"
    then have "code (digit_char d) = 48" by simp
    then show False using that code_digit_char [of d] by simp
  qed
  then have "10 \<le> n \<Longrightarrow> hd (numeral_str 10 n) \<noteq> CHR ''0''" using N by metis
  moreover have "n < 10 \<Longrightarrow> tl (numeral_str 10 n) = []" by (subst numeral_str.simps) simp
  ultimately show "hd (numeral_str 10 n) = CHR ''0'' \<longrightarrow> tl (numeral_str 10 n) = []" by (cases "10 \<le> n") auto
qed

lemma isinteger_int_str: "isinteger (int_str i)"
  using isinteger_numeral [OF numeral_10(2,1,3)] by (simp add: int_str_def)

lemma strtol_int_str: "LONG_MIN \<le> i \<Longrightarrow> i \<le> LONG_MAX \<Longrightarrow> fst (strtol (int_str i) 10) = i"
  using strto_numeral [of 10 "[]" "''-''" "nat (- i)"] strto_numeral [of 10 "[]" "[]" "nat i"]
  by (auto simp: strtol_def int_str_def Let_def)

lemma num_ok_int_str: "LONG_MIN \<le> i \<Longrightarrow> i \<le> LONG_MAX \<Longrightarrow> num_ok (int_str i)"
proof -
  assume i: "LONG_MIN \<le> i" "i \<le> LONG_MAX"
  let ?ds = "\<lambda>n. numeral_str 10 n"
  have lg: "list_all (\<lambda>c. strchr legal_number c \<noteq> None) (?ds n)" for n
    using numeral_10(1) [of n] number_start_legal by (auto simp: list_all_iff simp del: not_None_eq)
  have hd: "isdigit (hd (?ds n))" for n using numeral_10(1,2) [of n] by simp
  have "nat (- i) < 10 ^ 20" "nat i < 10 ^ 20" using i by (auto simp: limit_defs)
  then have "length (?ds (nat (- i))) \<le> 20" "length (?ds (nat i)) \<le> 20"
    using length_numeral [of "nat (- i)" 20] length_numeral [of "nat i" 20] by simp_all
  moreover have "strchr legal_number (CHR ''-'') \<noteq> None" by (rule number_start_legal) simp
  ultimately show ?thesis using isinteger_int_str [of i] lg hd numeral_10(2)
    unfolding num_ok_def int_str_def by (auto simp del: not_None_eq)
qed

lemma at_ne: "at p (ts @ us) \<Longrightarrow> ts \<noteq> [] \<Longrightarrow> \<exists>t s vs. ts = (t, s) # vs \<and> token p = t"
  by (cases ts) (auto simp: at_def)

lemma array_open:
  assumes "at p ((TOK_ARRAYSTART, []) # us)"
  shows "\<exists>q. accept p TOK_OBJECTSTART = Some (False, p\<lparr>jp_errno := EINVAL\<rparr>) \<and>
    accept (p\<lparr>jp_errno := EINVAL\<rparr>) TOK_ARRAYSTART = Some (True, q) \<and> at q us \<and> narrays q = narrays p"
  using accept_other [OF assms, of TOK_OBJECTSTART] accept_at [of "p\<lparr>jp_errno := EINVAL\<rparr>" TOK_ARRAYSTART "[]" us] assms by auto

lemma objects_none:
  assumes "at p ((TOK_OBJECTEND, []) # us)"
  shows "objects_loop (Suc (Suc m)) p res i j = Some (Some (res, i + 1, j), p\<lparr>jp_errno := EINVAL\<rparr>)"
proof -
  have p': "at (p\<lparr>jp_errno := EINVAL\<rparr>) ((TOK_OBJECTEND, []) # us)" using assms by simp
  show ?thesis using accept_other [OF assms, of TOK_QSTRING] accept_other [OF p', of TOK_COMMA] by simp
qed

lemma parse_toks:
  "json_ok fmt k v \<Longrightarrow> at p (toks fmt v @ us) \<Longrightarrow> us \<noteq> [] \<Longrightarrow> narrays p = k \<Longrightarrow> 4 * length (toks fmt v) + 1 \<le> n \<Longrightarrow>
     \<exists>q. accept_value n p = Some (Some v, q) \<and> at q us \<and> narrays q = k"
  "array_ok fmt k vs \<Longrightarrow> vs \<noteq> [] \<Longrightarrow> at p (arr_toks fmt vs @ (TOK_ARRAYEND, []) # us) \<Longrightarrow> us \<noteq> [] \<Longrightarrow> narrays p = k \<Longrightarrow>
     4 * length (arr_toks fmt vs) + 2 \<le> n \<Longrightarrow>
     \<exists>q. array_loop n p lst i j = Some (Some (Some ((case lst of None \<Rightarrow> [] | Some xs \<Rightarrow> xs) @ vs), i + int (length vs), j + int (length vs)), q) \<and>
       at q ((TOK_ARRAYEND, []) # us) \<and> narrays q = k"
  "objects_ok fmt k os \<Longrightarrow> os \<noteq> [] \<Longrightarrow> at p (obj_toks fmt os @ (TOK_OBJECTEND, []) # us) \<Longrightarrow> us \<noteq> [] \<Longrightarrow> narrays p = k \<Longrightarrow>
     4 * length (obj_toks fmt os) + 2 \<le> n \<Longrightarrow>
     \<exists>q. objects_loop n p res i j = Some (Some (res @ os, i + int (length os), j + int (length os)), q) \<and>
       at q ((TOK_OBJECTEND, []) # us) \<and> narrays q = k"
proof (induction fmt k v and fmt k vs and fmt k os arbitrary: p us n and p us n lst i j and p us n res i j rule: json_ok_array_ok_objects_ok.induct)
  case (1 fmt k s)
  then show ?case using accept_value_plain [of p TOK_QSTRING s us] by (cases n) (auto simp: plain_tok_def)
next
  case (2 fmt k s)
  then have "plain_tok TOK_NUMBER s = Some (VAL_DOUBLE s)" by (auto simp: plain_tok_def num_ok_def)
  with 2 show ?case using accept_value_plain [of p TOK_NUMBER s us] by (cases n) auto
next
  case (3 fmt k i)
  then have "plain_tok TOK_NUMBER (int_str i) = Some (VAL_INTEGER i)" by (auto simp: plain_tok_def isinteger_int_str strtol_int_str)
  with 3 show ?case using accept_value_plain [of p TOK_NUMBER "int_str i" us] by (cases n) auto
next
  case (4 fmt k)
  obtain m where n: "n = Suc (Suc (Suc (Suc m)))" using 4(5) by (auto simp: numeral_eq_Suc Suc_le_eq less_iff_Suc_add)
  have "at p ((TOK_ARRAYSTART, []) # (TOK_ARRAYEND, []) # us)" using 4(2) by simp
  from array_open [OF this] obtain q where q: "accept p TOK_OBJECTSTART = Some (False, p\<lparr>jp_errno := EINVAL\<rparr>)"
      "accept (p\<lparr>jp_errno := EINVAL\<rparr>) TOK_ARRAYSTART = Some (True, q)" "at q ((TOK_ARRAYEND, []) # us)" "narrays q = narrays p" by blast
  let ?q = "q\<lparr>narrays := narrays q + 1\<rparr>"
  have "at ?q ((TOK_ARRAYEND, []) # us)" using q(3) by simp
  from accept_value_none [OF this, of m] have none: "array_loop (Suc (Suc m)) ?q None (- 1) 0 = Some (Some (None, - 1, 0), ?q\<lparr>jp_errno := EINVAL\<rparr>)"
    by simp
  have "at (?q\<lparr>jp_errno := EINVAL\<rparr>) ((TOK_ARRAYEND, []) # us)" using q(3) by simp
  from accept_at [OF this] obtain r where r: "accept (?q\<lparr>jp_errno := EINVAL\<rparr>) TOK_ARRAYEND = Some (True, r)" "at r us" "narrays r = k + 1"
    using q(4) 4(4) by auto
  have "at (r\<lparr>narrays := narrays r - 1\<rparr>) us" using r(2) by simp
  note new = value_new_at(4) [OF this, of None]
  have "accept_value n p = Some (Some (VAL_ARRAY None), r\<lparr>narrays := narrays r - 1\<rparr>)"
    using q none r(1) new 4(1,4) unfolding n by (simp add: Let_def)
  then show ?case using r by simp
next
  case (5 fmt k vs)
  obtain m where n: "n = Suc (Suc m)" "4 * length (arr_toks fmt vs) + 2 \<le> m" using 5(6) by (cases n; cases "n - 1") auto
  have "at p ((TOK_ARRAYSTART, []) # arr_toks fmt vs @ (TOK_ARRAYEND, []) # us)" using 5(3) by simp
  from array_open [OF this] obtain q where q: "accept p TOK_OBJECTSTART = Some (False, p\<lparr>jp_errno := EINVAL\<rparr>)"
      "accept (p\<lparr>jp_errno := EINVAL\<rparr>) TOK_ARRAYSTART = Some (True, q)" "at q (arr_toks fmt vs @ (TOK_ARRAYEND, []) # us)" "narrays q = narrays p" by blast
  let ?q = "q\<lparr>narrays := narrays q + 1\<rparr>"
  have ok: "array_ok fmt (k + 1) vs" "vs \<noteq> []" "k < MAX_ARRAY_NESTING" using 5(2) by auto
  have "at ?q (arr_toks fmt vs @ (TOK_ARRAYEND, []) # us)" "narrays ?q = k + 1" using q(3,4) 5(5) by simp_all
  from 5(1) [OF ok(1,2) this(1) 5(4) this(2) n(2), of None "- 1" 0] obtain r where
    r: "array_loop m ?q None (- 1) 0 = Some (Some (Some vs, int (length vs) - 1, int (length vs)), r)" "at r ((TOK_ARRAYEND, []) # us)" "narrays r = k + 1"
    by auto
  from accept_at [OF r(2)] obtain u where u: "accept r TOK_ARRAYEND = Some (True, u)" "at u us" "narrays u = k + 1" using r(3) by auto
  have "at (u\<lparr>narrays := narrays u - 1\<rparr>) us" using u(2) by simp
  note new = value_new_at(4) [OF this, of "Some vs"]
  have "accept_value n p = Some (Some (VAL_ARRAY (Some vs)), u\<lparr>narrays := narrays u - 1\<rparr>)"
    using q r(1) u(1) new ok(3) 5(5) unfolding n(1) by (simp add: Let_def)
  then show ?case using u by simp
next
  case (6 fmt k os)
  obtain m where n: "n = Suc (Suc m)" "4 * length (obj_toks fmt os) + 2 \<le> m" using 6(6) by (cases n; cases "n - 1") auto
  have "at p ((TOK_OBJECTSTART, []) # obj_toks fmt os @ (TOK_OBJECTEND, []) # us)" using 6(3) by simp
  from accept_at [OF this] obtain q where q: "accept p TOK_OBJECTSTART = Some (True, q)" "at q (obj_toks fmt os @ (TOK_OBJECTEND, []) # us)"
      "narrays q = k" using 6(5) by auto
  have "\<exists>nc r. objects_loop m q [] (- 1) 0 = Some (Some (os, nc, int (length os)), r) \<and> (nc > 0 \<longrightarrow> int (length os) - nc = 1) \<and>
      at r ((TOK_OBJECTEND, []) # us) \<and> narrays r = k"
  proof (cases "os = []")
    case True
    obtain j where m: "m = Suc (Suc j)" using n(2) by (cases m; cases "m - 1") auto
    have "at q ((TOK_OBJECTEND, []) # us)" using q(2) True by simp
    from objects_none [OF this, of j] show ?thesis using True q(3) \<open>at q ((TOK_OBJECTEND, []) # us)\<close> unfolding m
      by (intro exI [of _ 0] exI [of _ "q\<lparr>jp_errno := EINVAL\<rparr>"]) simp
  next
    case False
    have "objects_ok fmt k os" using 6(2) by simp
    from 6(1) [OF this False q(2) 6(4) q(3) n(2), of "[]" "- 1" 0] show ?thesis by auto
  qed
  then obtain nc r where r: "objects_loop m q [] (- 1) 0 = Some (Some (os, nc, int (length os)), r)" "nc > 0 \<longrightarrow> int (length os) - nc = 1"
      "at r ((TOK_OBJECTEND, []) # us)" "narrays r = k" by blast
  from accept_at [OF r(3)] obtain u where u: "accept r TOK_OBJECTEND = Some (True, u)" "at u us" "narrays u = k" using r(4) by auto
  have new: "(seq_new (heap q) :: (string \<times> json_value) list option \<times> allocator) = (Some [], heap q)" using object_new_at(2) [OF q(2), of "[]"] by (simp add: PTRDIFF_MAX_def)
  have "accept_objects (Suc m) q = Some (Some os, u)" using new r u(1) by auto
  then have "accept_value n p = Some (Some (VAL_OBJECT os), u)" using q(1) value_new_at(5) [OF u(2)] unfolding n(1) by simp
  then show ?case using u by simp
next
  case (7 fmt k)
  then show ?case using accept_value_plain [of p TOK_STRING "[]" us] by (cases n) (auto simp: plain_tok_def)
next
  case (8 fmt k)
  then show ?case using accept_value_plain [of p TOK_TRUE "[]" us] by (cases n) (auto simp: plain_tok_def)
next
  case (9 fmt k)
  then show ?case using accept_value_plain [of p TOK_FALSE "[]" us] by (cases n) (auto simp: plain_tok_def)
next
  case (10 fmt k)
  then show ?case by simp
next
  case (11 fmt k)
  then show ?case using accept_value_plain [of p TOK_NULL "[]" us] by (cases n) (auto simp: plain_tok_def)
next
  case (12 fmt k)
  then show ?case by simp
next
  case (13 fmt k v vs)
  obtain m where n: "n = Suc m" using 13(8) by (cases n) auto
  let ?us = "(if vs = [] then [] else [(TOK_COMMA, [])]) @ arr_toks fmt vs @ (TOK_ARRAYEND, []) # us"
  have a: "at p (toks fmt v @ ?us)" "?us \<noteq> []" "json_ok fmt k v" "4 * length (toks fmt v) + 1 \<le> m"
    using 13(3,5,8) n by (auto split: if_splits)
  from 13(1) [OF a(3,1,2) 13(7) a(4)] obtain q where q: "accept_value m p = Some (Some v, q)" "at q ?us" "narrays q = k" by blast
  let ?l = "(case lst of None \<Rightarrow> [] | Some xs \<Rightarrow> xs) @ [v]"
  have add: "seq_add lst v (heap q) = (Some ?l, heap q)" using object_new_at(3) [OF q(2), of "[]" lst v] by (simp add: PTRDIFF_MAX_def)
  show ?case
  proof (cases "vs = []")
    case True
    then have "at q ((TOK_ARRAYEND, []) # us)" using q(2) by simp
    then show ?thesis using q(1,3) add True accept_other [of q TOK_ARRAYEND "[]" us TOK_COMMA] unfolding n by simp
  next
    case False
    then have "at q ((TOK_COMMA, []) # arr_toks fmt vs @ (TOK_ARRAYEND, []) # us)" using q(2) by simp
    from accept_at [OF this] obtain r where r: "accept q TOK_COMMA = Some (True, r)" "at r (arr_toks fmt vs @ (TOK_ARRAYEND, []) # us)" "narrays r = k"
      using q(3) by auto
    have ok: "array_ok fmt k vs" "4 * length (arr_toks fmt vs) + 2 \<le> m" using 13(3,8) n False toks_ne [of fmt v] by (auto simp flip: length_greater_0_conv)
    from 13(2) [OF ok(1) False r(2) 13(6) r(3) ok(2), of "Some ?l" "i + 1" "j + 1"] show ?thesis
      using q(1) add r(1) unfolding n by (auto simp: algebra_simps)
  qed
next
  case (14 fmt k)
  then show ?case by simp
next
  case (15 fmt k name v os)
  obtain m where n: "n = Suc (Suc m)" using 15(8) by (cases n; cases "n - 1") auto
  let ?us = "(if os = [] then [] else [(TOK_COMMA, [])]) @ obj_toks fmt os @ (TOK_OBJECTEND, []) # us"
  have "at p ((TOK_QSTRING, name) # (TOK_COLON, []) # toks fmt v @ ?us)" using 15(5) by simp
  from accept_at [OF this] obtain q1 where q1: "accept p TOK_QSTRING = Some (True, q1)" "at q1 ((TOK_COLON, []) # toks fmt v @ ?us)"
      "narrays q1 = k" "cstr_at (savedvalue q1) 0 = Some name" "length name < PTRDIFF_MAX" using 15(7) by auto
  from accept_at [OF q1(2)] obtain q2 where q2: "accept q1 TOK_COLON = Some (True, q2)" "at q2 (toks fmt v @ ?us)" "narrays q2 = k"
    using q1(3) by auto
  have a: "?us \<noteq> []" "json_ok fmt k v" "4 * length (toks fmt v) + 1 \<le> m" using 15(3,8) n by auto
  from 15(1) [OF a(2) q2(2) a(1) q2(3) a(3)] obtain q where q: "accept_value m q2 = Some (Some v, q)" "at q ?us" "narrays q = k" by blast
  have obj: "accept_object (Suc m) p = Some (Some (name, v), q)"
    using q1(1,4) object_new_at(1) [OF q1(2,5)] q2(1) q(1) by simp
  have add: "seq_add (Some res) (name, v) (heap q) = (Some (res @ [(name, v)]), heap q)"
    using object_new_at(3) [OF q(2), of "[]" "Some res"] by (simp add: PTRDIFF_MAX_def)
  show ?case
  proof (cases "os = []")
    case True
    then have "at q ((TOK_OBJECTEND, []) # us)" using q(2) by simp
    then show ?thesis using obj q(3) add True accept_other [of q TOK_OBJECTEND "[]" us TOK_COMMA] unfolding n
      by (simp del: accept_object.simps)
  next
    case False
    then have "at q ((TOK_COMMA, []) # obj_toks fmt os @ (TOK_OBJECTEND, []) # us)" using q(2) by simp
    from accept_at [OF this] obtain r where r: "accept q TOK_COMMA = Some (True, r)" "at r (obj_toks fmt os @ (TOK_OBJECTEND, []) # us)" "narrays r = k"
      using q(3) by auto
    have ok: "objects_ok fmt k os" "4 * length (obj_toks fmt os) + 2 \<le> Suc m" using 15(3,8) n by auto
    from 15(2) [OF ok(1) False r(2) 15(6) r(3) ok(2), of "res @ [(name, v)]" "i + 1" "j + 1"] show ?thesis
      using obj add r(1) unfolding n by (auto simp: algebra_simps simp del: accept_object.simps)
  qed
qed

lemma delimited_simps [simp]:
  "delimited []" "delimited (CHR '','' # r)" "delimited (CHR '']'' # r)" "delimited (CHR ''}'' # r)" "delimited (CHR 0x0A # r)"
  by (simp_all add: delimited_def legal_number_def)

lemma skippable_simps [simp]: "skippable (CHR 0x0A)" "skippable (CHR '' '')"
  by (simp_all add: skippable_def isspace_def)

lemma print_lexes:
  "json_ok fmt k v \<Longrightarrow> delimited rest \<Longrightarrow> lexes rest ts \<Longrightarrow> lexes (print_value fmt v @ rest) (toks fmt v @ ts)"
  "array_ok fmt k vs \<Longrightarrow> lexes (CHR '']'' # rest) ts \<Longrightarrow> lexes (print_array fmt vs @ CHR '']'' # rest) (arr_toks fmt vs @ ts)"
  "objects_ok fmt k os \<Longrightarrow> lexes (CHR 0x0A # rest) ts \<Longrightarrow> lexes (print_objects fmt os @ CHR 0x0A # rest) (obj_toks fmt os @ ts)"
proof (induction fmt k v and fmt k vs and fmt k os arbitrary: rest ts and rest ts and rest ts rule: json_ok_array_ok_objects_ok.induct)
  case (1 fmt k s)
  then show ?case using lex_qstring [of "[]" s rest ts] by simp
next
  case (2 fmt k s)
  then show ?case using lex_number [of "[]" s rest ts] by simp
next
  case (3 fmt k i)
  then show ?case using lex_number [of "[]" "int_str i" rest ts] num_ok_int_str by simp
next
  case (4 fmt k)
  have "lexes (CHR 0x0A # rest) ts" using 4(3) by (simp add: lexes_skip)
  from lex_punct [OF _ _ this, of "'' ''" TOK_ARRAYEND] have "lexes (CHR '' '' # CHR '']'' # CHR 0x0A # rest) ((TOK_ARRAYEND, []) # ts)"
    by (simp add: punct_def)
  from lex_punct [OF _ _ this, of "[]" TOK_ARRAYSTART] show ?case by (simp add: punct_def)
next
  case (5 fmt k vs)
  have "lexes (CHR 0x0A # rest) ts" using 5(4) by (simp add: lexes_skip)
  from lex_punct [OF _ _ this, of "[]" TOK_ARRAYEND] have "lexes (CHR '']'' # CHR 0x0A # rest) ((TOK_ARRAYEND, []) # ts)" by (simp add: punct_def)
  from 5(1) [OF _ this] have "lexes (print_array fmt vs @ CHR '']'' # CHR 0x0A # rest) (arr_toks fmt vs @ (TOK_ARRAYEND, []) # ts)" using 5(2) by simp
  from lex_punct [OF _ _ lexes_skip [OF this skippable_simps(1)], of "[]" TOK_ARRAYSTART] show ?case by (simp add: punct_def)
next
  case (6 fmt k os)
  from lex_punct [OF _ _ 6(4), of "[CHR 0x0A]" TOK_OBJECTEND] have "lexes (CHR 0x0A # CHR ''}'' # rest) ((TOK_OBJECTEND, []) # ts)" by (simp add: punct_def)
  from 6(1) [OF _ this] have "lexes (print_objects fmt os @ CHR 0x0A # CHR ''}'' # rest) (obj_toks fmt os @ (TOK_OBJECTEND, []) # ts)" using 6(2) by simp
  from lex_punct [OF _ _ lexes_skip [OF this skippable_simps(1)], of "[]" TOK_OBJECTSTART] show ?case by (simp add: punct_def)
next
  case (7 fmt k)
  then show ?case using lex_keyword [of "[]" TOK_STRING "''string''" rest ts] by (simp add: keyword_def)
next
  case (8 fmt k)
  then show ?case using lex_keyword [of "[]" TOK_TRUE "''true''" rest ts] by (simp add: keyword_def)
next
  case (9 fmt k)
  then show ?case using lex_keyword [of "[]" TOK_FALSE "''false''" rest ts] by (simp add: keyword_def)
next
  case (10 fmt k)
  then show ?case by simp
next
  case (11 fmt k)
  then show ?case using lex_keyword [of "[]" TOK_NULL "''null''" rest ts] by (simp add: keyword_def)
next
  case (12 fmt k)
  then show ?case by simp
next
  case (13 fmt k v vs)
  have rest: "lexes (print_array fmt vs @ CHR '']'' # rest) (arr_toks fmt vs @ ts)" using 13 by simp
  show ?case
  proof (cases "vs = []")
    case True
    then show ?thesis using 13(1) [of "CHR '']'' # rest" ts] 13(3,4) by simp
  next
    case False
    from lex_punct [OF _ _ lexes_skip [OF rest skippable_simps(1)], of "[]" TOK_COMMA]
    have "lexes (CHR '','' # CHR 0x0A # print_array fmt vs @ CHR '']'' # rest) ((TOK_COMMA, []) # arr_toks fmt vs @ ts)" by (simp add: punct_def)
    from 13(1) [OF _ _ this] show ?thesis using 13(3) False by simp
  qed
next
  case (14 fmt k)
  then show ?case by simp
next
  case (15 fmt k name v os)
  have rest: "lexes (print_objects fmt os @ CHR 0x0A # rest) (obj_toks fmt os @ ts)" using 15 by simp
  let ?rest = "(if os = [] then [] else '','' @ [CHR 0x0A]) @ print_objects fmt os @ CHR 0x0A # rest"
  let ?ts = "(if os = [] then [] else [(TOK_COMMA, [])]) @ obj_toks fmt os @ ts"
  have "lexes ?rest ?ts"
  proof (cases "os = []")
    case False
    from lex_punct [OF _ _ lexes_skip [OF rest skippable_simps(1)], of "[]" TOK_COMMA] show ?thesis using False by (simp add: punct_def)
  qed (use rest in simp)
  moreover have "delimited ?rest" by simp
  ultimately have "lexes (print_value fmt v @ ?rest) (toks fmt v @ ?ts)" using 15(1,3) by simp
  from lex_punct [OF _ _ this, of "'' ''" TOK_COLON]
  have "lexes ('' :'' @ print_value fmt v @ ?rest) ((TOK_COLON, []) # toks fmt v @ ?ts)" by (simp add: punct_def)
  from lex_qstring [OF _ _ this, of "[]" name] show ?case using 15(3) by simp
qed

lemma lexes_length: "lexes s ts \<Longrightarrow> length ts \<le> length s + 1"
proof (induction rule: lexes.induct)
  case (lex_keyword ws t w rest ts)
  have "w \<noteq> []" using lex_keyword(2) by (rule keyword_cases) simp_all
  then show ?case using lex_keyword by (cases w) auto
next
  case (lex_number ws s rest ts)
  then have "s \<noteq> []" by (simp add: num_ok_def)
  then show ?case using lex_number by (cases s) auto
qed (auto simp: quoted_def)

subsection \<open>A parser on an input\<close>

definition fresh_parser :: "string \<Rightarrow> size_t \<Rightarrow> allocator \<Rightarrow> json_parser" where
  "fresh_parser src srclen a = \<lparr>mem = src, nread = 0, bsize = srclen, token = TOK_ERROR, value_start = None, value_end = None,
     savedvalue = fresh_bytes 4096 a, valuesize = 4096, narrays = 0, jp_value = None, jp_errno = E0, lineno = 1, heap = a\<rparr>"

lemma json_parser_new_cases:
  assumes "0 < srclen"
  shows "\<exists>r a'. json_parser_new src srclen a = Some (r, a') \<and> (r = None \<or> r = Some (fresh_parser src srclen a'))"
proof -
  obtain ok1 a1 ok2 a2 where "try_alloc 128 a = (ok1, a1)" "try_alloc 4096 a1 = (ok2, a2)" by fastforce
  then show ?thesis using assms
    by (cases ok1; cases ok2) (simp_all add: json_parser_new_def buffer_init_def retfail_def fresh_parser_def)
qed

lemma json_parser_new_no_oom:
  assumes "0 < srclen" "decisions a = []"
  shows "json_parser_new src srclen a = Some (Some (fresh_parser src srclen a), a)"
proof -
  have "try_alloc 128 a = (True, a)" "try_alloc 4096 a = (True, a)"
    using assms(2) by (simp_all add: try_alloc_no_oom PTRDIFF_MAX_def)
  then show ?thesis using assms(1) by (simp add: json_parser_new_def buffer_init_def fresh_parser_def)
qed

lemma fresh_parser_wf:
  assumes "srclen \<le> length src" "NUL \<in> set (drop srclen src)"
  shows "jwf (fresh_parser src srclen a)"
  using assms by (simp add: fresh_parser_def jwf_def)

lemma fresh_parser_sel [simp]:
  "mem (fresh_parser src n a) = src" "bsize (fresh_parser src n a) = n" "inp (fresh_parser src n a) = take n src"
  "token (fresh_parser src n a) = TOK_ERROR" "valuesize (fresh_parser src n a) = 4096" "length (savedvalue (fresh_parser src n a)) = 4096"
  "narrays (fresh_parser src n a) = 0" "heap (fresh_parser src n a) = a"
  by (simp_all add: fresh_parser_def inp_def)

lemma json_parse_fresh:
  assumes "srclen \<le> length src" "NUL \<in> set (drop srclen src)" "no_boolean (take srclen src)"
  shows "\<exists>ok q. json_parse (fresh_parser src srclen a) = Some (ok, q) \<and> (ok \<longrightarrow> jp_value q \<noteq> None)"
proof -
  let ?p = "fresh_parser src srclen a"
  have wf: "jwf ?p" using assms by (simp add: fresh_parser_wf)
  obtain st q where q: "nextsym ?p = Some (st, q)" "sym_post ?p st q" using nextsym_returns [OF wf] assms(3) by auto
  show ?thesis
  proof (cases st)
    case False
    then show ?thesis using q(1) by (intro exI [of _ False]) (simp add: json_parse_def retfail_def)
  next
    case True
    have ok: "jok q" "left q \<le> bsize q + 1"
      using q(2) assms(3) by (auto simp: sym_post_def jok_def jframe_def left_def inp_def)
    then have "4 * left q + 1 \<le> 4 * (bsize q + 1) + 1" by simp
    from fuel_okD(1) [OF enough_fuel ok(1) this] obtain v r where
      r: "accept_value (4 * (bsize q + 1) + 1) q = Some (v, r)" "jstep q r" by (auto simp: jret_def)
    let ?r = "r\<lparr>jp_value := v\<rparr>"
    have "jwf ?r" "no_boolean (take (bsize ?r) (mem ?r))" using jok_step [OF r(2)] by (auto simp: jok_def jwf_def)
    from nextsym_returns [OF this] obtain st2 u where u: "nextsym ?r = Some (st2, u)" "jframe ?r u" by (auto simp: sym_post_def)
    then have "jp_value u = v" by (simp add: jframe_def)
    moreover have "json_parse ?p = Some (if v = None then retfail ?r EINVAL else if st2 then retfail u E2BIG else (True, u))"
      using q(1) True r(1) u(1) by (simp add: json_parse_def Let_def)
    ultimately show ?thesis by (cases "v = None"; cases st2) (simp_all add: retfail_def ex_bool_eq)
  qed
qed

lemma json_parse_at:
  assumes s: "s \<noteq> []" "lexes s ts" "length s + 1 < PTRDIFF_MAX" "decisions a = []"
    and v: "\<And>q. at q ts \<Longrightarrow> narrays q = 0 \<Longrightarrow> \<exists>r. accept_value (4 * (length s + 1) + 1) q = Some (Some v, r) \<and> at r ((t, x) # us)"
  shows "\<exists>r. json_parser_new (s @ [NUL]) (length s) a = Some (Some (fresh_parser (s @ [NUL]) (length s) a), a) \<and> at r ((t, x) # us) \<and> jp_value r = Some v \<and>
    json_parse (fresh_parser (s @ [NUL]) (length s) a) =
      (case nextsym r of None \<Rightarrow> None | Some (ok, q) \<Rightarrow> Some (if ok then retfail q E2BIG else (success, q)))"
proof -
  let ?p = "fresh_parser (s @ [NUL]) (length s) a"
  have wf: "jwf ?p" by (simp add: fresh_parser_wf)
  obtain t1 x1 us1 where ts: "ts = (t1, x1) # us1" using lexes_ne [OF s(2)] by (cases ts) auto
  have "lexes (inp ?p) ((t1, x1) # us1)" using s(2) ts by simp
  from nextsym_lexes [OF this wf] obtain q rest where q: "nextsym ?p = Some (True, q)" "lexed ?p t1 x1 rest q" "t1 \<noteq> TOK_EOF \<longrightarrow> lexes rest us1"
    by auto
  have at: "at q ts" unfolding ts by (rule at_lexed [OF q]) (use s in simp_all)
  have fr: "narrays q = 0" "bsize q = length s" using q(2) by (simp_all add: lexed_def jframe_def)
  obtain r where r: "accept_value (4 * (length s + 1) + 1) q = Some (Some v, r)" "at r ((t, x) # us)" using v [OF at fr(1)] by blast
  let ?r = "r\<lparr>jp_value := Some v\<rparr>"
  have "json_parse ?p = (case nextsym ?r of None \<Rightarrow> None | Some (ok, q) \<Rightarrow> Some (if ok then retfail q E2BIG else (success, q)))"
    using q(1) r(1) fr(2) unfolding json_parse_def by (cases "nextsym ?r") (auto split: if_splits)
  then show ?thesis using r(2) json_parser_new_no_oom [of "length s" a "s @ [NUL]"] s(1,4) by (intro exI [of _ ?r]) simp
qed

lemma nextsym_at_eof: "at r ((TOK_EOF, x) # us) \<Longrightarrow> nextsym r = Some (False, r\<lparr>jp_errno := ENOENT\<rparr>)"
  by (simp add: at_def nextsym_def retfail_def)

lemma json_parse_eof:
  assumes "s \<noteq> []" "lexes s ts" "length s + 1 < PTRDIFF_MAX" "decisions a = []"
    and "\<And>q. at q ts \<Longrightarrow> narrays q = 0 \<Longrightarrow> \<exists>r. accept_value (4 * (length s + 1) + 1) q = Some (Some v, r) \<and> at r ((TOK_EOF, x) # us)"
  shows "\<exists>p q. json_parser_new (s @ [NUL]) (length s) a = Some (Some p, a) \<and> json_parse p = Some (success, q) \<and> json_parser_values q = Some v"
proof -
  obtain r where r: "json_parser_new (s @ [NUL]) (length s) a = Some (Some (fresh_parser (s @ [NUL]) (length s) a), a)" "at r ((TOK_EOF, x) # us)"
      "jp_value r = Some v" "json_parse (fresh_parser (s @ [NUL]) (length s) a) =
      (case nextsym r of None \<Rightarrow> None | Some (ok, q) \<Rightarrow> Some (if ok then retfail q E2BIG else (success, q)))"
    using json_parse_at [OF assms] by blast
  then show ?thesis using nextsym_at_eof [OF r(2)] by (auto simp: json_parser_values_def)
qed

lemma no_boolean_short: "length s < 7 \<Longrightarrow> no_boolean s"
  unfolding no_boolean_def
proof (intro allI notI)
  fix i assume "length s < 7" "take 7 (drop i s) = ''boolean''"
  then have "length (take 7 (drop i s)) = 7" by simp
  with \<open>length s < 7\<close> show False by simp
qed

subsection \<open>Rules that fail inside a list\<close>

lemma lexes_punct_cons: "punct t = Some c \<Longrightarrow> lexes rest ts \<Longrightarrow> lexes (c # rest) ((t, []) # ts)"
  using lex_punct [of "[]" t c rest ts] by simp

lemma objects_fail:
  assumes "at q ((t, x) # us)" "t \<notin> {TOK_QSTRING, TOK_COMMA, TOK_OBJECTEND}"
  shows "accept_objects (Suc (Suc (Suc m))) q = Some (None, q\<lparr>jp_errno := EINVAL\<rparr>)"
proof -
  have q': "at (q\<lparr>jp_errno := EINVAL\<rparr>) ((t, x) # us)" using assms(1) by simp
  have "(seq_new (heap q) :: (string \<times> json_value) list option \<times> allocator) = (Some [], heap q)"
    using object_new_at(2) [OF assms(1), of "[]"] by (simp add: PTRDIFF_MAX_def)
  then show ?thesis using assms(2) accept_other [OF assms(1), of TOK_QSTRING] accept_other [OF q', of TOK_COMMA] accept_other [OF q', of TOK_OBJECTEND]
    by auto
qed

lemma unclosed_object_in_array:
  assumes "at p ((TOK_ARRAYSTART, []) # (TOK_OBJECTSTART, []) # (TOK_ARRAYEND, []) # us)" "narrays p = 0" "us \<noteq> []" "7 \<le> n"
  shows "\<exists>r. accept_value n p = Some (Some (VAL_ARRAY None), r) \<and> at r us"
proof -
  obtain m where n: "n = Suc (Suc (Suc (Suc (Suc (Suc (Suc m))))))" using assms(4) by (auto simp: numeral_eq_Suc Suc_le_eq less_iff_Suc_add)
  obtain q where q: "accept p TOK_OBJECTSTART = Some (False, p\<lparr>jp_errno := EINVAL\<rparr>)" "accept (p\<lparr>jp_errno := EINVAL\<rparr>) TOK_ARRAYSTART = Some (True, q)"
      "at q ((TOK_OBJECTSTART, []) # (TOK_ARRAYEND, []) # us)" "narrays q = 0" using array_open [OF assms(1)] assms(2) by auto
  let ?q = "q\<lparr>narrays := 1\<rparr>"
  have "at ?q ((TOK_OBJECTSTART, []) # (TOK_ARRAYEND, []) # us)" using q(3) by simp
  from accept_at [OF this] obtain r where r: "accept ?q TOK_OBJECTSTART = Some (True, r)" "at r ((TOK_ARRAYEND, []) # us)" "narrays r = 1" by auto
  let ?r = "r\<lparr>jp_errno := EINVAL\<rparr>"
  have "accept_objects (Suc (Suc (Suc m))) r = Some (None, ?r)" using objects_fail [OF r(2)] by simp
  then have loop: "array_loop (Suc (Suc (Suc (Suc (Suc m))))) ?q None (- 1) 0 = Some (Some (None, - 1, 0), ?r)"
    using r(1) by (simp del: accept_objects.simps)
  have "at ?r ((TOK_ARRAYEND, []) # us)" using r(2) by simp
  from accept_at [OF this] obtain u where u: "accept ?r TOK_ARRAYEND = Some (True, u)" "at u us" by auto
  have "at (u\<lparr>narrays := narrays u - 1\<rparr>) us" using u(2) by simp
  from value_new_at(4) [OF this, of None] have "accept_value n p = Some (Some (VAL_ARRAY None), u\<lparr>narrays := narrays u - 1\<rparr>)"
    using q loop u(1) unfolding n by (simp add: Let_def MAX_ARRAY_NESTING_def del: array_loop.simps)
  then show ?thesis using u(2) by simp
qed

lemma name_without_value:
  assumes "at p ((TOK_OBJECTSTART, []) # (TOK_QSTRING, name) # (TOK_OBJECTEND, []) # us)" "us \<noteq> []" "4 \<le> n"
  shows "\<exists>r. accept_value n p = Some (Some (VAL_OBJECT []), r) \<and> at r us"
proof -
  obtain m where n: "n = Suc (Suc (Suc (Suc m)))" using assms(3) by (auto simp: numeral_eq_Suc Suc_le_eq less_iff_Suc_add)
  from accept_at [OF assms(1)] obtain q where q: "accept p TOK_OBJECTSTART = Some (True, q)" "at q ((TOK_QSTRING, name) # (TOK_OBJECTEND, []) # us)" by auto
  from accept_at [OF q(2)] obtain r where r: "accept q TOK_QSTRING = Some (True, r)" "at r ((TOK_OBJECTEND, []) # us)"
      "cstr_at (savedvalue r) 0 = Some name" "length name < PTRDIFF_MAX" by auto
  let ?r = "r\<lparr>jp_errno := EINVAL\<rparr>"
  have r': "at ?r ((TOK_OBJECTEND, []) # us)" using r(2) by simp
  have obj: "accept_object (Suc m) q = Some (None, ?r)"
    using r object_new_at(1) [OF r(2,4)] accept_other [OF r(2), of TOK_COLON] by simp
  from accept_at [OF r'] obtain u where u: "accept ?r TOK_OBJECTEND = Some (True, u)" "at u us" by auto
  have "(seq_new (heap q) :: (string \<times> json_value) list option \<times> allocator) = (Some [], heap q)"
    using object_new_at(2) [OF q(2), of "[]"] by (simp add: PTRDIFF_MAX_def)
  then have "accept_objects (Suc (Suc (Suc m))) q = Some (Some [], u)"
    using obj u(1) accept_other [OF r', of TOK_COMMA] by (simp del: accept_object.simps)
  then show ?thesis using q(1) value_new_at(5) [OF u(2)] u(2) unfolding n by (simp del: accept_objects.simps)
qed

subsection \<open>Properties\<close>





text \<open>
  Malformed text that is accepted: an array with an object that is not closed, and objects with a name and no
  value. The failure of an inner rule is taken for the end of the list.
\<close>

theorem json_accepts_malformed:
  assumes "decisions a = []"
  shows "(\<exists>p q. json_parser_new (''[{]'' @ [NUL]) 3 a = Some (Some p, a) \<and> json_parse p = Some (success, q) \<and>
      json_parser_values q = Some (VAL_ARRAY None)) \<and>
    (\<exists>p q. json_parser_new (''{'' @ quoted ''a'' @ ''}'' @ [NUL]) 5 a = Some (Some p, a) \<and>
      json_parse p = Some (success, q) \<and> json_parser_values q = Some (VAL_OBJECT []))"
proof
  have "lexes ''[{]'' [(TOK_ARRAYSTART, []), (TOK_OBJECTSTART, []), (TOK_ARRAYEND, []), (TOK_EOF, [])]" (is "lexes _ ?ts")
    using lexes_punct_cons [OF _ lexes_punct_cons [OF _ lexes_punct_cons [OF _ lex_eof]]] by (simp add: punct_def)
  from json_parse_eof [OF _ this _ assms, of "VAL_ARRAY None" "[]" "[]"] unclosed_object_in_array [of _ "[(TOK_EOF, [])]" "4 * (length ''[{]'' + 1) + 1"]
  show "\<exists>p q. json_parser_new (''[{]'' @ [NUL]) 3 a = Some (Some p, a) \<and> json_parse p = Some (success, q) \<and> json_parser_values q = Some (VAL_ARRAY None)"
    by (simp add: PTRDIFF_MAX_def numeral_3_eq_3)
next
  let ?s = "CHR ''{'' # quoted ''a'' @ ''}''"
  have "lexes ''}'' [(TOK_OBJECTEND, []), (TOK_EOF, [])]" using lexes_punct_cons [OF _ lex_eof] by (simp add: punct_def)
  from lex_qstring [of "[]", OF _ _ this, of "''a''"] have "lexes (quoted ''a'' @ ''}'') [(TOK_QSTRING, ''a''), (TOK_OBJECTEND, []), (TOK_EOF, [])]" by simp
  from lexes_punct_cons [OF _ this, of TOK_OBJECTSTART] have "lexes ?s [(TOK_OBJECTSTART, []), (TOK_QSTRING, ''a''), (TOK_OBJECTEND, []), (TOK_EOF, [])]"
    by (simp add: punct_def)
  from json_parse_eof [OF _ this _ assms, of "VAL_OBJECT []" "[]" "[]"] name_without_value [of _ "''a''" "[(TOK_EOF, [])]" "4 * (length ?s + 1) + 1"]
  have "\<exists>p q. json_parser_new (?s @ [NUL]) (length ?s) a = Some (Some p, a) \<and> json_parse p = Some (success, q) \<and> json_parser_values q = Some (VAL_OBJECT [])"
    by (simp add: PTRDIFF_MAX_def quoted_def)
  moreover have "length ?s = 5" by (simp add: quoted_def)
  ultimately show "\<exists>p q. json_parser_new (''{'' @ quoted ''a'' @ ''}'' @ [NUL]) 5 a = Some (Some p, a) \<and> json_parse p = Some (success, q) \<and> json_parser_values q = Some (VAL_OBJECT [])"
    by (metis append_Cons append_Nil append_assoc)
qed

theorem json_accepts_malformed_witness:
  "\<exists>p q. json_parser_new (''[{]'' @ [NUL]) 3 no_oom = Some (Some p, no_oom) \<and> json_parse p = Some (success, q) \<and>
      json_parser_values q = Some (VAL_ARRAY None)"
  using json_accepts_malformed [of no_oom] by (simp add: no_oom_def)

end
