(* ===== verification/MetaMisc.thy ===== *)
theory MetaMisc
  imports Cstring_Edit
begin

section \<open>Words, blanks and file names\<close>

text \<open>
  \<open>src/meta/src/meta_misc.c\<close>: the words of a line, the trimming of a string in place, and the parts of a file
  name. A destination is the byte list of its object, so that a write or a read behind it is a fault.
\<close>

subsection \<open>Words\<close>

fun skip_words :: "nat \<Rightarrow> string \<Rightarrow> string" where
  "skip_words 0 str = str"
| "skip_words (Suc k) str = skip_words k (dropWhile (\<lambda>c. c = CHR '' '') (dropWhile (\<lambda>c. c \<noteq> CHR '' '') str))"

definition find_word :: "string \<Rightarrow> nat \<Rightarrow> int" where
  "find_word s wordidx = (let str = skip_words wordidx s in
     if str = [] then - 1 else to_int (length s - length str))"

fun copy_loop :: "string \<Rightarrow> char list \<Rightarrow> char \<Rightarrow> size_t \<Rightarrow> nat \<Rightarrow> (nat \<times> char list) option" where
  "copy_loop [] dest separator destsize i = Some (i, dest)"
| "copy_loop (c # src) dest separator destsize i =
     (if c \<noteq> separator \<and> i < destsize then do { dest \<leftarrow> put_at dest i c; copy_loop src dest separator destsize (i + 1) }
      else Some (i, dest))"

definition copy_word :: "string \<Rightarrow> char list \<Rightarrow> char \<Rightarrow> size_t \<Rightarrow> (status_t \<times> char list) option" where
  "copy_word src dest separator destsize = (if separator \<noteq> NUL \<and> destsize > 0 then do {
     (i, dest) \<leftarrow> copy_loop src dest separator destsize 0;
     if i = destsize then Some (failure, dest)
     else do { dest \<leftarrow> put_at dest i NUL; Some (success, dest) } }
   else None)"

definition get_word_from_string :: "string \<Rightarrow> char list \<Rightarrow> size_t \<Rightarrow> nat \<Rightarrow> (status_t \<times> char list) option" where
  "get_word_from_string src dest destsize wordidx = (if destsize > 1 then
     (let i = find_word src wordidx in
      if i = - 1 then Some (failure, dest)
      else if i < 0 then None
      else copy_word (drop (nat i) src) dest (CHR '' '') destsize)
   else None)"

subsection \<open>Blanks\<close>

definition ltrim :: "char list \<Rightarrow> char list option" where
  "ltrim buf = do {
     s \<leftarrow> cstr_at buf 0;
     let k = length (takeWhile isspace s);
     if k \<noteq> 0 then memmove buf 0 k (length s - k + 1) else Some buf }"

fun rtrim_loop :: "char list \<Rightarrow> nat \<Rightarrow> char list option" where
  "rtrim_loop buf 0 = Some buf"
| "rtrim_loop buf (Suc n) = do {
     c \<leftarrow> get_at buf n;
     if isspace c then do { buf \<leftarrow> put_at buf n NUL; rtrim_loop buf n } else Some buf }"

definition rtrim :: "char list \<Rightarrow> char list option" where
  "rtrim buf = do { s \<leftarrow> cstr_at buf 0; rtrim_loop buf (length s) }"

definition trim :: "char list \<Rightarrow> char list option" where
  "trim buf = do { buf \<leftarrow> ltrim buf; rtrim buf }"

definition remove_trailing_newline :: "char list \<Rightarrow> char list option" where
  "remove_trailing_newline buf = do {
     s \<leftarrow> cstr_at buf 0;
     let i = length s;
     if i > 0 then do {
       c \<leftarrow> get_at buf (i - 1);
       if c = CHR 0x0A then put_at buf (i - 1) NUL else Some buf }
     else Some buf }"

definition fs_lower :: "char list \<Rightarrow> char list option" where
  "fs_lower buf = do { s \<leftarrow> cstr_at buf 0; wr buf 0 (map (\<lambda>c. if isupper c then tolower c else c) s) }"

subsection \<open>File names\<close>

text \<open>
  \<open>get_extension\<close> copies backwards from the terminator to the last dot; \<open>j\<close> is how many characters are still in
  front of \<open>end\<close>, and \<open>ext_loop\<close> returns \<open>i\<close> and whether the dot was found.
\<close>

fun ext_loop :: "string \<Rightarrow> nat \<Rightarrow> char list \<Rightarrow> nat \<Rightarrow> (bool \<times> nat \<times> char list) option" where
  "ext_loop src j dest 0 = Some (False, 0, dest)"
| "ext_loop src j dest (Suc i) =
     (let c = (src @ [NUL]) ! j in
      if c = CHR ''.'' then Some (True, Suc i, dest)
      else do {
        dest \<leftarrow> put_at dest (Suc i) c;
        (case j of 0 \<Rightarrow> Some (False, i, dest) | Suc j \<Rightarrow> ext_loop src j dest i) })"

definition get_extension :: "string \<Rightarrow> char list \<Rightarrow> size_t \<Rightarrow> (status_t \<times> char list) option" where
  "get_extension src dest destsize = (if destsize > 1 then do {
     dest \<leftarrow> put_at dest (destsize - 1) NUL;
     (found, i, dest) \<leftarrow> ext_loop src (length src) dest (destsize - 1);
     if i = 0 then Some (failure, dest)
     else if found then do { dest \<leftarrow> memmove dest 0 (i + 1) (destsize - i); Some (success, dest) }
     else do { dest \<leftarrow> put_at dest 0 NUL; Some (success, dest) } }
   else None)"

definition mime_map :: "(string \<times> string) list" where
  "mime_map = [(''css'', ''text/css''), (''html'', ''text/html''), (''htm'', ''text/html''), (''c'', ''text/plain''),
     (''cpp'', ''text/plain''), (''cxx'', ''text/plain''), (''h'', ''text/plain''), (''java'', ''text/plain''),
     (''txt'', ''text/plain''), (''xml'', ''text/xml''), (''rtf'', ''text/rtf''), (''sgml'', ''text/sgml''),
     (''jpeg'', ''image/jpeg''), (''jpg'', ''image/jpeg''), (''png'', ''image/png''), (''tiff'', ''image/tiff''),
     (''gif'', ''image/gif'')]"

text \<open>\<open>ext\<close> is the object of the local array: 100 bytes of any contents.\<close>

definition get_mime_type :: "string \<Rightarrow> char list \<Rightarrow> string option" where
  "get_mime_type filename ext = do {
     (ok, ext) \<leftarrow> get_extension filename ext 100;
     if ok then do {
       x \<leftarrow> cstr_at ext 0;
       Some (case map_of mime_map x of Some mime \<Rightarrow> mime | None \<Rightarrow> ''application/octet-stream'') }
     else Some ''application/octet-stream'' }"

definition strrchr :: "string \<Rightarrow> char \<Rightarrow> nat option" where
  "strrchr s c = map_option (\<lambda>i. length s - 1 - i) (strchr (rev s) c)"

definition strncpy :: "char list \<Rightarrow> string \<Rightarrow> size_t \<Rightarrow> char list option" where
  "strncpy dest s n = wr dest 0 (take n (s @ replicate n NUL))"

definition get_basename :: "string \<Rightarrow> string option \<Rightarrow> char list \<Rightarrow> size_t \<Rightarrow> char list option" where
  "get_basename name suffix dest destsize = (if destsize > 1 then do {
     let s = (case strrchr name (CHR ''/'') of Some i \<Rightarrow> drop (i + 1) name | None \<Rightarrow> name);
     dest \<leftarrow> strncpy dest s destsize;
     dest \<leftarrow> put_at dest (destsize - 1) NUL;
     (case suffix of
        None \<Rightarrow> Some dest
      | Some suf \<Rightarrow> do {
          d \<leftarrow> cstr_at dest 0;
          (case strstr d suf of
             None \<Rightarrow> Some dest
           | Some k \<Rightarrow> do {
               c \<leftarrow> get_at dest (k + length suf);
               if c = NUL then put_at dest k NUL else Some dest }) }) }
   else None)"

subsection \<open>The words of a line\<close>

lemma dropWhile_word: "length (dropWhile (\<lambda>c. c = CHR '' '') (dropWhile (\<lambda>c. c \<noteq> CHR '' '') (c # s))) < Suc (length s)"
proof (cases "c = CHR '' ''")
  case True
  then show ?thesis using length_dropWhile_le [of "\<lambda>c. c = CHR '' ''" s] by simp
next
  case False
  then show ?thesis using length_dropWhile_le [of "\<lambda>c. c = CHR '' ''" "dropWhile (\<lambda>c. c \<noteq> CHR '' '') s"]
      length_dropWhile_le [of "\<lambda>c. c \<noteq> CHR '' ''" s] by simp
qed

text \<open>The words the loop of \<open>find_word\<close> stops at: a leading blank starts with an empty word.\<close>

function line_words :: "string \<Rightarrow> string list" where
  "line_words [] = []"
| "line_words (c # s) = takeWhile (\<lambda>c. c \<noteq> CHR '' '') (c # s) #
     line_words (dropWhile (\<lambda>c. c = CHR '' '') (dropWhile (\<lambda>c. c \<noteq> CHR '' '') (c # s)))"
  by pat_completeness auto
termination by (relation "measure length") (simp_all only: in_measure dropWhile_word length_Cons wf_measure)

lemma skip_words_nth:
  "(skip_words k s = [] \<longleftrightarrow> length (line_words s) \<le> k) \<and>
   (k < length (line_words s) \<longrightarrow> takeWhile (\<lambda>c. c \<noteq> CHR '' '') (skip_words k s) = line_words s ! k)"
proof (induction k arbitrary: s)
  case 0
  then show ?case by (cases s) (simp_all del: takeWhile.simps)
next
  case (Suc k)
  show ?case
  proof (cases s)
    case Nil
    then show ?thesis using Suc.IH [of "[]"] by simp
  next
    case (Cons c t)
    then show ?thesis using Suc.IH [of "dropWhile (\<lambda>c. c = CHR '' '') (dropWhile (\<lambda>c. c \<noteq> CHR '' '') s)"]
      by (simp del: takeWhile.simps dropWhile.simps)
  qed
qed

lemma skip_words_suffix: "\<exists>i. skip_words k s = drop i s"
proof (induction k arbitrary: s)
  case 0
  show ?case by (rule exI [of _ 0]) simp
next
  case (Suc k)
  let ?t = "dropWhile (\<lambda>c. c \<noteq> CHR '' '') s"
  obtain i where "skip_words (Suc k) s = drop i (dropWhile (\<lambda>c. c = CHR '' '') ?t)"
    using Suc [of "dropWhile (\<lambda>c. c = CHR '' '') ?t"] by auto
  then show ?case by (auto simp: dropWhile_eq_drop)
qed

lemma line_words_words: "(s \<noteq> [] \<longrightarrow> hd s \<noteq> CHR '' '') \<Longrightarrow> line_words s = words '' '' [] s"
proof (induction s rule: line_words.induct)
  case (2 c s)
  let ?r = "dropWhile (\<lambda>c. c = CHR '' '') (dropWhile (\<lambda>c. c \<noteq> CHR '' '') (c # s))"
  have "?r \<noteq> [] \<longrightarrow> hd ?r \<noteq> CHR '' ''" using hd_dropWhile [of "\<lambda>c. c = CHR '' ''"] by blast
  then have IH: "line_words ?r = words '' '' [] ?r" by (rule 2(1))
  have "words '' '' [] (c # s) = takeWhile (\<lambda>c. c \<noteq> CHR '' '') (c # s) # words '' '' [] (dropWhile (\<lambda>c. c \<noteq> CHR '' '') (c # s))"
    using words_run [of "[]" "'' ''" "c # s"] 2(2) by simp
  also have "words '' '' [] (dropWhile (\<lambda>c. c \<noteq> CHR '' '') (c # s)) = words '' '' [] ?r"
    by (subst words_skip) simp
  finally show ?case using IH by simp
qed simp


lemma find_word_spec:
  assumes "length s < 2 ^ 31"
  shows "k < length (line_words s) \<Longrightarrow> \<exists>i < length s. find_word s k = int i \<and> takeWhile (\<lambda>c. c \<noteq> CHR '' '') (drop i s) = line_words s ! k"
    and "length (line_words s) \<le> k \<Longrightarrow> find_word s k = - 1"
proof -
  obtain i where i: "skip_words k s = drop i s" using skip_words_suffix by blast
  show "\<exists>i < length s. find_word s k = int i \<and> takeWhile (\<lambda>c. c \<noteq> CHR '' '') (drop i s) = line_words s ! k" if "k < length (line_words s)"
    using skip_words_nth [of k s] that i assms by (intro exI [of _ i]) (auto simp: find_word_def Let_def to_int_small)
  show "find_word s k = - 1" if "length (line_words s) \<le> k" using skip_words_nth [of k s] that by (simp add: find_word_def)
qed

lemma copy_loop_spec:
  assumes "destsize \<le> length dest" "i \<le> destsize"
  shows "copy_loop src dest sep destsize i = (let w = take (destsize - i) (takeWhile (\<lambda>c. c \<noteq> sep) src) in
    Some (i + length w, take i dest @ w @ drop (i + length w) dest))"
  using assms
proof (induction src dest sep destsize i rule: copy_loop.induct)
  case (2 c src dest sep destsize i)
  show ?case
  proof (cases "c \<noteq> sep \<and> i < destsize")
    case True
    then have l: "destsize - i = Suc (destsize - Suc i)" "put_at dest i c = Some (dest[i := c])" using 2(2) by (auto simp: put_at_def)
    have "take (Suc i) (dest[i := c]) = take i dest @ [c]" using True 2(2) by (simp add: take_Suc_conv_app_nth)
    then show ?thesis using 2(1) [of "dest[i := c]"] True 2(2) l by (simp add: Let_def)
  next
    case False
    then show ?thesis using 2(3) by (auto simp: Let_def)
  qed
qed (simp add: Let_def)

lemma copy_word_spec:
  fixes src :: string
  assumes "destsize \<le> length dest" "0 < destsize" "sep \<noteq> NUL"
  defines "w \<equiv> takeWhile (\<lambda>c. c \<noteq> sep) src"
  shows "length w < destsize \<Longrightarrow> copy_word src dest sep destsize = Some (success, w @ NUL # drop (Suc (length w)) dest)"
    and "destsize \<le> length w \<Longrightarrow> copy_word src dest sep destsize = Some (failure, take destsize w @ drop destsize dest)"
proof -
  have l: "copy_loop src dest sep destsize 0 = (let w = take destsize w in Some (length w, w @ drop (length w) dest))"
    using copy_loop_spec [of destsize dest 0 src sep] assms(1) by (simp add: w_def)
  show "copy_word src dest sep destsize = Some (success, w @ NUL # drop (Suc (length w)) dest)" if "length w < destsize"
  proof -
    have "put_at (w @ drop (length w) dest) (length w) NUL = Some (w @ NUL # drop (Suc (length w)) dest)"
      using that assms(1) by (simp add: put_at_def list_update_append Cons_nth_drop_Suc [symmetric])
    then show ?thesis using l that assms(2,3) by (simp add: copy_word_def Let_def)
  qed
  show "copy_word src dest sep destsize = Some (failure, take destsize w @ drop destsize dest)" if "destsize \<le> length w"
    using l that assms(2,3) by (simp add: copy_word_def Let_def min_absorb2)
qed

text \<open>The word as a C string in the destination.\<close>

lemma get_word_spec:
  assumes "length s < 2 ^ 31" "1 < destsize" "destsize \<le> length dest" "c_string s"
  shows "\<exists>ok dest'. get_word_from_string s dest destsize k = Some (ok, dest') \<and> length dest' = length dest \<and>
    (ok \<longleftrightarrow> k < length (line_words s) \<and> length (line_words s ! k) < destsize) \<and>
    (ok \<longrightarrow> cstr_at dest' 0 = Some (line_words s ! k))"
proof (cases "k < length (line_words s)")
  case False
  then have "find_word s k = - 1" using find_word_spec(2) [OF assms(1)] by simp
  then show ?thesis using False assms(2) by (simp add: get_word_from_string_def ex_bool_eq)
next
  case True
  let ?w = "line_words s ! k"
  obtain i where i: "i < length s" "find_word s k = int i" "takeWhile (\<lambda>c. c \<noteq> CHR '' '') (drop i s) = ?w"
    using find_word_spec(1) [OF assms(1) True] by blast
  then have g: "get_word_from_string s dest destsize k = copy_word (drop i s) dest (CHR '' '') destsize"
    using assms(2) by (simp add: get_word_from_string_def)
  have "c_string ?w" using i(3) assms(4) by (metis c_string_def in_set_dropD set_takeWhileD)
  then have c: "cstr_at (?w @ NUL # drop (Suc (length ?w)) dest) 0 = Some ?w" using cstr_at_prefix [of ?w "[]"] by simp
  show ?thesis
  proof (cases "length ?w < destsize")
    case True': True
    then have "length (?w @ NUL # drop (Suc (length ?w)) dest) = length dest" using assms(3) by simp
    with True' show ?thesis using copy_word_spec(1) [OF assms(3), of "CHR '' ''" "drop i s"] i(3) g c True assms(2) by (simp add: ex_bool_eq)
  next
    case False
    then show ?thesis using copy_word_spec(2) [OF assms(3), of "CHR '' ''" "drop i s"] i(3) g True assms(2,3)
      by (simp add: ex_bool_eq)
  qed
qed


subsection \<open>Trimming\<close>

lemma cstr_at_0E:
  assumes "cstr_at buf 0 = Some s"
  obtains rest where "buf = s @ NUL # rest" "c_string s"
proof -
  have "NUL \<in> set buf" "s = takeWhile (\<lambda>c. c \<noteq> NUL) buf" using assms by (auto simp: cstr_at_def split: if_splits)
  moreover obtain ys zs where "buf = ys @ NUL # zs" "NUL \<notin> set ys" using \<open>NUL \<in> set buf\<close> split_list_first by metis
  ultimately show thesis using that [of zs] takeWhile_NUL [of ys zs] by (simp add: c_string_def)
qed

lemma cstr_at_0I: "c_string s \<Longrightarrow> cstr_at (s @ NUL # rest) 0 = Some s"
  using cstr_at_prefix [of s "[]" rest] by simp

lemma ltrim_spec:
  assumes "cstr_at buf 0 = Some s"
  shows "\<exists>buf'. ltrim buf = Some buf' \<and> length buf' = length buf \<and> cstr_at buf' 0 = Some (dropWhile isspace s)"
proof -
  obtain rest where b: "buf = s @ NUL # rest" "c_string s" using assms by (rule cstr_at_0E)
  let ?k = "length (takeWhile isspace s)"
  have k: "?k \<le> length s" by (rule length_takeWhile_le)
  have d: "drop ?k s = dropWhile isspace s" by (simp add: dropWhile_eq_drop)
  have l: "length s = ?k + length (dropWhile isspace s)" by (metis length_append takeWhile_dropWhile_id)
  show ?thesis
  proof (cases "?k = 0")
    case True
    then show ?thesis using assms b d by (simp add: ltrim_def)
  next
    case False
    have "memmove buf 0 ?k (length s - ?k + 1) = Some (dropWhile isspace s @ NUL # drop (length s - ?k + 1) buf)"
      using b d l by (simp add: buf_simps)
    moreover have "length (dropWhile isspace s @ NUL # drop (length s - ?k + 1) buf) = length buf" using b(1) l False by (simp del: length_0_conv)
    ultimately show ?thesis using assms False d cstr_at_0I [OF c_string_drop [OF b(2), of ?k]] by (simp add: ltrim_def)
  qed
qed

lemma rtrim_loop_spec:
  "\<exists>rest'. rtrim_loop (u @ NUL # rest) (length u) = Some (rstrip u @ NUL # rest') \<and> length (rstrip u @ NUL # rest') = length (u @ NUL # rest)"
proof (induction u arbitrary: rest rule: rev_induct)
  case Nil
  then show ?case by (simp add: rstrip_def)
next
  case (snoc c u)
  show ?case
  proof (cases "isspace c")
    case True
    have "put_at (u @ c # NUL # rest) (length u) NUL = Some (u @ NUL # NUL # rest)" by (simp add: put_at_def)
    then show ?thesis using True snoc.IH [of "NUL # rest"] by (auto simp: get_at_def rstrip_def)
  qed (simp add: get_at_def rstrip_def)
qed

lemma rtrim_spec:
  assumes "cstr_at buf 0 = Some s"
  shows "\<exists>buf'. rtrim buf = Some buf' \<and> length buf' = length buf \<and> cstr_at buf' 0 = Some (rstrip s)"
proof -
  obtain rest where b: "buf = s @ NUL # rest" "c_string s" using assms by (rule cstr_at_0E)
  have "c_string (rstrip s)" using b(2) by (auto simp: rstrip_def c_string_def dest: set_dropWhileD)
  then show ?thesis using rtrim_loop_spec [of s rest] assms b cstr_at_0I [of "rstrip s"] by (auto simp: rtrim_def)
qed

lemma trim_spec:
  assumes "cstr_at buf 0 = Some s"
  shows "\<exists>buf'. trim buf = Some buf' \<and> length buf' = length buf \<and> cstr_at buf' 0 = Some (rstrip (dropWhile isspace s))"
proof -
  obtain b1 where b1: "ltrim buf = Some b1" "length b1 = length buf" "cstr_at b1 0 = Some (dropWhile isspace s)" using ltrim_spec [OF assms] by blast
  then show ?thesis using rtrim_spec [OF b1(3)] by (auto simp: trim_def)
qed

lemma remove_trailing_newline_spec:
  assumes "cstr_at buf 0 = Some s"
  shows "\<exists>buf'. remove_trailing_newline buf = Some buf' \<and> length buf' = length buf \<and>
    cstr_at buf' 0 = Some (if s \<noteq> [] \<and> last s = CHR 0x0A then butlast s else s)"
proof -
  obtain rest where b: "buf = s @ NUL # rest" "c_string s" using assms by (rule cstr_at_0E)
  show ?thesis
  proof (cases s rule: rev_cases)
    case (snoc u c)
    then have "put_at buf (length u) NUL = Some (u @ NUL # NUL # rest)" using b by (simp add: put_at_def)
    then show ?thesis using assms b snoc cstr_at_0I [of u "NUL # rest"]
      by (cases "c = CHR 0x0A") (auto simp: remove_trailing_newline_def get_at_def)
  qed (use assms in \<open>simp add: remove_trailing_newline_def\<close>)
qed

lemma fs_lower_spec:
  assumes "cstr_at buf 0 = Some s"
  shows "\<exists>buf'. fs_lower buf = Some buf' \<and> length buf' = length buf \<and> cstr_at buf' 0 = Some (map tolower s)"
proof -
  obtain rest where b: "buf = s @ NUL # rest" "c_string s" using assms by (rule cstr_at_0E)
  have m: "(\<lambda>c. if isupper c then tolower c else c) = tolower" by (auto simp: tolower_def fun_eq_iff)
  have "c_string (map tolower s)" using b(2) by (induction s) auto
  then show ?thesis using assms b cstr_at_0I [of "map tolower s" rest] m by (simp add: fs_lower_def wr_def)
qed

subsection \<open>Extensions\<close>

lemma ext_loop_spec:
  assumes "i < length dest" "j \<le> length src"
  shows "ext_loop src j dest i = (let w = takeWhile (\<lambda>c. c \<noteq> CHR ''.'') (rev (take (Suc j) (src @ [NUL]))); m = min i (length w) in
    Some (m < i \<and> length w \<le> j, i - m, take (Suc (i - m)) dest @ rev (take m w) @ drop (Suc i) dest))"
  using assms
proof (induction i arbitrary: j dest)
  case 0
  then show ?case by simp
next
  case (Suc i)
  let ?u = "src @ [NUL]" and ?d = "dest[Suc i := (src @ [NUL]) ! j]"
  have t: "rev (take (Suc j) ?u) = ?u ! j # rev (take j ?u)"
    using Suc.prems(2) take_Suc_conv_app_nth [of j ?u] by (simp del: take_append)
  show ?case
  proof (cases "?u ! j = CHR ''.''")
    case True
    then show ?thesis using t Suc.prems(1) by (simp add: Let_def)
  next
    case False
    have p: "put_at dest (Suc i) (?u ! j) = Some ?d" using Suc.prems(1) by (simp add: put_at_def)
    have d: "drop (Suc i) ?d = ?u ! j # drop (Suc (Suc i)) dest" using Suc.prems(1)
      by (simp add: drop_update_swap flip: Cons_nth_drop_Suc)
    show ?thesis
    proof (cases j)
      case 0
      then show ?thesis using False p t d Suc.prems(1) by (simp add: Let_def take_Cons' upd_conv_take_nth_drop)
    next
      case (Suc k)
      have "ext_loop src (Suc k) dest (Suc i) = ext_loop src k ?d i" using False p Suc by simp
      then show ?thesis using Suc.IH [of ?d k] Suc.prems(1,2) False t d Suc by (auto simp: Let_def)
    qed
  qed
qed


text \<open>The extension, and how many bytes it takes with the terminator and the byte the loop keeps free.\<close>

definition extension :: "string \<Rightarrow> string" where
  "extension src = rev (takeWhile (\<lambda>c. c \<noteq> CHR ''.'') (rev src))"

lemma length_takeWhile_all: "length (takeWhile P xs) = length xs \<longleftrightarrow> (\<forall>x \<in> set xs. P x)"
  by (induction xs) auto

lemma get_extension_spec:
  assumes n: "1 < destsize" "destsize \<le> length dest"
  shows "destsize \<le> length (extension src) + 2 \<Longrightarrow> \<exists>d. get_extension src dest destsize = Some (failure, d) \<and> length d = length dest"
    and "CHR ''.'' \<in> set src \<Longrightarrow> length (extension src) + 2 < destsize \<Longrightarrow> destsize = length dest \<Longrightarrow> get_extension src dest destsize = None"
    and "CHR ''.'' \<in> set src \<Longrightarrow> length (extension src) + 2 < destsize \<Longrightarrow> destsize < length dest \<Longrightarrow> c_string src \<Longrightarrow>
      \<exists>d. get_extension src dest destsize = Some (success, d) \<and> length d = length dest \<and> cstr_at d 0 = Some (extension src)"
    and "CHR ''.'' \<notin> set src \<Longrightarrow> length (extension src) + 2 < destsize \<Longrightarrow>
      \<exists>d. get_extension src dest destsize = Some (success, d) \<and> length d = length dest \<and> cstr_at d 0 = Some []"
proof -
  let ?e = "extension src" and ?d = "dest[destsize - 1 := NUL]"
  let ?w = "takeWhile (\<lambda>c. c \<noteq> CHR ''.'') (rev (take (Suc (length src)) (src @ [NUL])))"
  have w: "?w = NUL # rev ?e" by (simp add: extension_def)
  have p: "put_at dest (destsize - 1) NUL = Some ?d" using n by (simp add: put_at_def)
  have dot: "length ?w \<le> length src \<longleftrightarrow> CHR ''.'' \<in> set src"
  proof -
    have "length (rev ?e) \<le> length src" using length_takeWhile_le [of _ "rev src"] by (simp add: extension_def)
    moreover have "length (rev ?e) = length src \<longleftrightarrow> CHR ''.'' \<notin> set src"
      using length_takeWhile_all [of "\<lambda>c. c \<noteq> CHR ''.''" "rev src"] by (auto simp: extension_def)
    ultimately show ?thesis using w by auto
  qed
  note L = ext_loop_spec [of "destsize - 1" ?d "length src" src, unfolded Let_def]
  show "\<exists>d. get_extension src dest destsize = Some (failure, d) \<and> length d = length dest" if "destsize \<le> length ?e + 2"
    using L n w p that by (simp add: get_extension_def)
  have run: "ext_loop src (length src) ?d (destsize - 1) =
      Some (CHR ''.'' \<in> set src, destsize - 2 - length ?e, take (destsize - 1 - length ?e) ?d @ ?e @ NUL # drop destsize dest)"
    if "length ?e + 2 < destsize"
  proof -
    have "Suc (destsize - Suc (Suc (length ?e))) = destsize - Suc (length ?e)" "Suc (length ?e) < destsize - Suc 0" using that by linarith+
    then show ?thesis using L n w dot by (simp add: min_absorb2)
  qed
  show "get_extension src dest destsize = None" if "CHR ''.'' \<in> set src" "length ?e + 2 < destsize" "destsize = length dest"
    using run [OF that(2)] that n p by (simp add: get_extension_def memmove_None)
  show "\<exists>d. get_extension src dest destsize = Some (success, d) \<and> length d = length dest \<and> cstr_at d 0 = Some (extension src)"
    if "CHR ''.'' \<in> set src" "length ?e + 2 < destsize" "destsize < length dest" "c_string src"
  proof -
    note T = that
    let ?i = "destsize - 2 - length ?e" and ?b = "take (destsize - 1 - length ?e) ?d @ ?e @ NUL # drop destsize dest"
    have "c_string ?e" using T(4) by (auto simp: extension_def c_string_def dest: set_takeWhileD)
    then have c: "cstr_at (?e @ NUL # r) 0 = Some ?e" for r by (rule cstr_at_0I)
    obtain x y where x: "drop destsize dest = x # y" using T(3) by (cases "drop destsize dest") auto
    have i: "?i + 1 = destsize - 1 - length ?e" "destsize - ?i = length ?e + 2" using T(2) by simp_all
    have "take (destsize - ?i) (drop (?i + 1) ?b) = ?e @ [NUL, x]" unfolding i(1) using T(2,3) x i(2) by simp
    moreover have "length ?b = length dest" using T(2,3) by simp
    ultimately have "memmove ?b 0 (?i + 1) (destsize - ?i) = Some (?e @ NUL # x # drop (destsize - ?i) ?b)"
      using T(2,3) by (subst memmove_Some) simp_all
    then show ?thesis using run [OF T(2)] T n p c \<open>length ?b = length dest\<close> i(2) by (simp add: get_extension_def del: drop_append)
  qed
  show "\<exists>d. get_extension src dest destsize = Some (success, d) \<and> length d = length dest \<and> cstr_at d 0 = Some []"
    if "CHR ''.'' \<notin> set src" "length ?e + 2 < destsize"
  proof -
    let ?b = "take (destsize - 1 - length ?e) ?d @ ?e @ NUL # drop destsize dest"
    have "?b \<noteq> []" "length ?b = length dest" using that(2) n by auto
    then have "put_at ?b 0 NUL = Some (NUL # tl ?b)" "length (NUL # tl ?b) = length dest" by (auto simp: put_at_def update_0)
    then show ?thesis using run [OF that(2)] that n p cstr_at_0I [of "[]" "tl ?b"] by (simp add: get_extension_def)
  qed
qed


subsection \<open>The last component of a path\<close>

definition base_of :: "string \<Rightarrow> string" where
  "base_of name = rev (takeWhile (\<lambda>c. c \<noteq> CHR ''/'') (rev name))"

lemma strchr_takeWhile: "strchr s c = (if c \<in> set s then Some (length (takeWhile (\<lambda>x. x \<noteq> c) s)) else None)"
  by (induction s) auto

lemma strrchr_base:
  "(case strrchr name (CHR ''/'') of Some i \<Rightarrow> drop (i + 1) name | None \<Rightarrow> name) = base_of name"
proof (cases "CHR ''/'' \<in> set name")
  case True
  let ?n = "length (takeWhile (\<lambda>c. c \<noteq> CHR ''/'') (rev name))"
  have n: "?n < length name" using True length_takeWhile_all [of "\<lambda>c. c \<noteq> CHR ''/''" "rev name"] length_takeWhile_le [of "\<lambda>c. c \<noteq> CHR ''/''" "rev name"]
    by (auto simp: order_le_less)
  then have "length name - 1 - ?n + 1 = length name - ?n" by linarith
  moreover have "base_of name = drop (length name - ?n) name"
    unfolding base_of_def by (subst takeWhile_eq_take) (simp only: rev_take rev_rev_ident length_rev)
  ultimately show ?thesis using True by (simp add: strrchr_def strchr_takeWhile)
next
  case False
  then have "base_of name = name" unfolding base_of_def by (subst takeWhile_eq_all_conv [THEN iffD2]) auto
  then show ?thesis using False by (simp add: strrchr_def strchr_takeWhile)
qed

lemma put_at_end: "0 < n \<Longrightarrow> length b = n \<Longrightarrow> put_at (b @ r) (n - 1) x = Some (take (n - 1) b @ x # r)"
  by (cases b rule: rev_cases) (auto simp: put_at_def)

lemma strncpy_terminated:
  assumes "1 < n" "n \<le> length dest" "c_string s"
  shows "\<exists>d d'. strncpy dest s n = Some d \<and> put_at d (n - 1) NUL = Some d' \<and> length d' = length dest \<and> cstr_at d' 0 = Some (take (n - 1) s)"
proof -
  let ?b = "take n (s @ replicate n NUL)"
  have "length ?b = n" by (simp del: take_append)
  then have d: "strncpy dest s n = Some (?b @ drop n dest)" using assms(2) unfolding strncpy_def wr_def by (simp del: take_append length_take)
  have p: "put_at (?b @ drop n dest) (n - 1) NUL = Some (take (n - 1) (s @ replicate n NUL) @ NUL # drop n dest)"
    using put_at_end [of n ?b] \<open>length ?b = n\<close> assms(1) by (simp add: min_def del: take_append)
  show ?thesis
  proof (cases "n - 1 \<le> length s")
    case True
    then show ?thesis using d p cstr_at_0I [OF c_string_take [OF assms(3), of "n - 1"], of "drop n dest"] assms(1,2) by simp
  next
    case False
    then obtain k where k: "n - 1 - length s = Suc k" by (metis Suc_diff_Suc not_le)
    have kn: "Suc k \<le> n" "length s + Suc k + 1 = n" using k False by linarith+
    have e: "take (n - 1) (s @ replicate n NUL) @ NUL # drop n dest = s @ NUL # replicate k NUL @ NUL # drop n dest"
      using False k kn(1) by (simp add: min_def)
    have "length (s @ NUL # replicate k NUL @ NUL # drop n dest) = length dest" using kn(2) assms(2) by simp
    then show ?thesis using d p cstr_at_0I [OF assms(3)] False unfolding e by simp
  qed
qed

lemma get_basename_spec:
  assumes "1 < destsize" "destsize \<le> length dest" "c_string name"
  defines "b \<equiv> take (destsize - 1) (base_of name)"
  shows "\<exists>d. get_basename name suffix dest destsize = Some d \<and> length d = length dest \<and>
    cstr_at d 0 = Some (case suffix of None \<Rightarrow> b | Some suf \<Rightarrow>
      (case strstr b suf of None \<Rightarrow> b | Some k \<Rightarrow> if k + length suf = length b then take k b else b))"
proof -
  have "c_string (base_of name)" using assms(3) by (auto simp: base_of_def c_string_def dest: set_takeWhileD)
  then obtain d d' where d: "strncpy dest (base_of name) destsize = Some d" "put_at d (destsize - 1) NUL = Some d'" "length d' = length dest"
      "cstr_at d' 0 = Some b" using strncpy_terminated [OF assms(1,2)] b_def by blast
  obtain rest where b: "d' = b @ NUL # rest" "c_string b" using d(4) by (rule cstr_at_0E)
  show ?thesis
  proof (cases "case suffix of None \<Rightarrow> None | Some suf \<Rightarrow> strstr b suf")
    case None
    then show ?thesis using d assms(1) strrchr_base [of name]
      by (cases suffix) (auto simp: get_basename_def split: option.splits)
  next
    case (Some k)
    then obtain suf where suf: "suffix = Some suf" "strstr b suf = Some k" by (cases suffix) auto
    have k: "k + length suf \<le> length b" using strstr_Some [OF suf(2)] by simp
    then have at: "get_at d' (k + length suf) = Some (if k + length suf = length b then NUL else b ! (k + length suf))"
      using b(1) by (simp add: get_at_def nth_append)
    have "k + length suf < length b \<Longrightarrow> b ! (k + length suf) \<noteq> NUL" using b(2) by (metis c_string_def nth_mem)
    moreover have "put_at d' k NUL = Some (take k b @ NUL # drop (Suc k) d')" "cstr_at (take k b @ NUL # drop (Suc k) d') 0 = Some (take k b)"
      using k b cstr_at_0I [OF c_string_take [OF b(2), of k]] by (simp_all add: put_at_def upd_conv_take_nth_drop)
    moreover have "length (take k b @ NUL # drop (Suc k) d') = length dest" using k b(1) d(3) by auto
    ultimately show ?thesis using d at suf k assms(1) strrchr_base [of name] by (auto simp: get_basename_def simp del: length_append)
  qed
qed

subsection \<open>Properties\<close>



text \<open>
  File names: \<open>get_extension\<close> into an object of exactly the size the caller passes reads one byte behind it
  whenever the name has an extension that fits, and yields the text behind the last dot when the object is
  larger; so \<open>get_mime_type\<close>, which passes its array of 100 bytes, reads behind the array for every name with an
  extension of at most 97 characters. \<open>get_basename\<close> stays inside its destination and yields the last component of
  the path, cut to the size, without the suffix when the first occurrence of the suffix is at its end.
\<close>

theorem file_names_correct:
  assumes "c_string name" "1 < destsize"
  shows "(length dest = destsize \<longrightarrow> (get_extension name dest destsize = None \<longleftrightarrow>
        CHR ''.'' \<in> set name \<and> length (extension name) + 2 < destsize)) \<and>
    (destsize < length dest \<longrightarrow> CHR ''.'' \<in> set name \<and> length (extension name) + 2 < destsize \<longrightarrow>
        (\<exists>d. get_extension name dest destsize = Some (success, d) \<and> cstr_at d 0 = Some (extension name))) \<and>
    (length ext = 100 \<longrightarrow> get_mime_type name ext =
        (if CHR ''.'' \<in> set name \<and> length (extension name) < 98 then None else Some ''application/octet-stream'')) \<and>
    (destsize \<le> length dest \<longrightarrow> (\<exists>d. get_basename name None dest destsize = Some d \<and> cstr_at d 0 = Some (take (destsize - 1) (base_of name))))"
proof (intro conjI impI)
  show "get_extension name dest destsize = None \<longleftrightarrow> CHR ''.'' \<in> set name \<and> length (extension name) + 2 < destsize" if "length dest = destsize"
  proof (cases "destsize \<le> length (extension name) + 2")
    case True
    then show ?thesis using get_extension_spec(1) [OF assms(2), of dest name] that by auto
  next
    case False
    have d: "destsize \<le> length dest" "destsize = length dest" using that by simp_all
    have "CHR ''.'' \<in> set name \<Longrightarrow> get_extension name dest destsize = None"
      "CHR ''.'' \<notin> set name \<Longrightarrow> \<exists>x. get_extension name dest destsize = Some x"
      using get_extension_spec(2) [OF assms(2) d(1) _ _ d(2), of name] get_extension_spec(4) [OF assms(2) d(1), of name] False by (simp, force)
    then show ?thesis using False by force
  qed
  show "\<exists>d. get_extension name dest destsize = Some (success, d) \<and> cstr_at d 0 = Some (extension name)"
    if "destsize < length dest" "CHR ''.'' \<in> set name \<and> length (extension name) + 2 < destsize"
    using get_extension_spec(3) [OF assms(2), of dest name] that assms(1) by auto
  show "get_mime_type name ext = (if CHR ''.'' \<in> set name \<and> length (extension name) < 98 then None else Some ''application/octet-stream'')" if "length ext = 100"
  proof -
    have d: "1 < (100 :: nat)" "100 \<le> length ext" "100 = length ext" using that by simp_all
    show ?thesis
    proof (cases "98 \<le> length (extension name)")
      case True
      then have "100 \<le> length (extension name) + 2" by simp
      from get_extension_spec(1) [OF d(1,2) this] show ?thesis using True by (auto simp: get_mime_type_def)
    next
      case False
      then have l: "length (extension name) + 2 < 100" by simp
      show ?thesis
      proof (cases "CHR ''.'' \<in> set name")
        case True
        then show ?thesis using get_extension_spec(2) [OF d(1,2) True l d(3)] False by (simp add: get_mime_type_def)
      next
        case nodot: False
        from get_extension_spec(4) [OF d(1,2) this l] show ?thesis using nodot by (auto simp: get_mime_type_def mime_map_def)
      qed
    qed
  qed
  show "\<exists>d. get_basename name None dest destsize = Some d \<and> cstr_at d 0 = Some (take (destsize - 1) (base_of name))" if "destsize \<le> length dest"
    using get_basename_spec [OF assms(2) that assms(1), of None] by auto
qed

theorem file_names_correct_witness:
  "get_mime_type ''/a/b.html'' (replicate 100 NUL) = None \<and>
   (\<exists>d. get_basename ''/a/b.html'' None (replicate 9 NUL) 9 = Some d \<and> cstr_at d 0 = Some ''b.html'')"
proof -
  have e: "extension ''/a/b.html'' = ''html''" "base_of ''/a/b.html'' = ''b.html''" by (simp_all add: extension_def base_of_def)
  have "c_string ''/a/b.html''" "1 < (9 :: nat)" by simp_all
  note F = file_names_correct [OF this, of "replicate 9 NUL" "replicate 100 NUL", unfolded e]
  have "get_mime_type ''/a/b.html'' (replicate 100 NUL) = (if CHR ''.'' \<in> set ''/a/b.html'' \<and> length ''html'' < 98 then None else Some ''application/octet-stream'')"
    using F unfolding length_replicate by blast
  moreover have "\<exists>d. get_basename ''/a/b.html'' None (replicate 9 NUL) 9 = Some d \<and> cstr_at d 0 = Some (take (9 - 1) ''b.html'')"
    using F by (simp only: length_replicate order_refl)
  ultimately show ?thesis by simp
qed

end
