(* ===== verification/Rfc1738.thy ===== *)
theory Rfc1738
  imports Cstring
begin

section \<open>URL encoding\<close>

text \<open>
  \<open>src/http/src/rfc1738.c\<close>. Source and destination are the byte lists of their objects, read and written through
  offsets; a call returns the value of the function, what it leaves in \<open>errno\<close> (\<open>None\<close>: as before) and the
  destination.
\<close>

definition hex_digit :: "nat \<Rightarrow> char" where
  "hex_digit n = (if n > 9 then char_of (code (CHR ''A'') + n - 10) else char_of (code (CHR ''0'') + n))"

text \<open>\<open>encode\<close>: the argument is a byte, so its test for a value outside 0 to 255 never fires.\<close>

definition encode :: "char \<Rightarrow> char list \<Rightarrow> nat \<Rightarrow> char list option" where
  "encode c dest i = wr dest i [CHR ''%'', hex_digit (code c div 16), hex_digit (code c mod 16)]"

definition hexchar2int :: "char \<Rightarrow> int" where
  "hexchar2int c = (if isdigit c then int (code c) - 48
     else if 97 \<le> code c \<and> code c \<le> 102 then 10 + int (code c) - 97
     else if 65 \<le> code c \<and> code c \<le> 70 then 10 + int (code c) - 65
     else - 1)"

definition decode :: "char list \<Rightarrow> nat \<Rightarrow> int option" where
  "decode src j = do {
     c \<leftarrow> get_at src j;
     if c \<noteq> CHR ''%'' then Some (- 1)
     else do {
       c \<leftarrow> get_at src (j + 1);
       let c1 = hexchar2int c;
       if c1 = - 1 then Some (- 1)
       else do {
         c \<leftarrow> get_at src (j + 2);
         let c2 = hexchar2int c;
         if c2 = - 1 then Some (- 1) else Some (c1 * 16 + c2) } } }"

definition plain_char :: "char \<Rightarrow> bool" where
  "plain_char c \<longleftrightarrow> isupper c \<or> islower c \<or> isdigit c"

fun encode_loop :: "char list \<Rightarrow> nat \<Rightarrow> nat \<Rightarrow> char list \<Rightarrow> nat \<Rightarrow> nat \<Rightarrow> ((nat \<times> nat) option \<times> char list) option" where
  "encode_loop src j 0 dest i destsize = Some (Some (i, j), dest)"
| "encode_loop src j (Suc srclen) dest i destsize = (if destsize > 0 then do {
     c \<leftarrow> get_at src j;
     if plain_char c then do { dest \<leftarrow> put_at dest i c; encode_loop src (j + 1) srclen dest (i + 1) (destsize - 1) }
     else if destsize > 2 then do { dest \<leftarrow> encode c dest i; encode_loop src (j + 1) srclen dest (i + 3) (destsize - 3) }
     else Some (None, dest) }
   else Some (Some (i, j), dest))"

definition rfc1738_encode :: "char list \<Rightarrow> size_t \<Rightarrow> char list \<Rightarrow> size_t \<Rightarrow> (size_t \<times> errno_t option \<times> char list) option" where
  "rfc1738_encode dest destsize src srclen = (if destsize > 0 \<and> srclen > 0 then do {
     (r, dest) \<leftarrow> encode_loop src 0 srclen dest 0 destsize;
     (case r of
        None \<Rightarrow> Some (0, Some ENOSPC, dest)
      | Some (sz, j) \<Rightarrow> do {
          c \<leftarrow> get_at src j;
          if c \<noteq> NUL then Some (0, Some ENOSPC, dest)
          else do { dest \<leftarrow> put_at dest sz NUL; Some (sz, None, dest) } }) }
   else None)"

text \<open>\<open>srclen\<close> is a \<open>size_t\<close> that wraps; the loop ends because \<open>destsize\<close> falls.\<close>

fun decode_loop :: "char list \<Rightarrow> nat \<Rightarrow> size_t \<Rightarrow> char list \<Rightarrow> nat \<Rightarrow> nat \<Rightarrow> ((nat \<times> nat) option \<times> char list) option" where
  "decode_loop src j srclen dest i 0 = Some (Some (i, 0), dest)"
| "decode_loop src j srclen dest i (Suc destsize) = (if srclen > 0 then do {
     c \<leftarrow> get_at src j;
     if c = CHR ''%'' then do {
       v \<leftarrow> decode src j;
       if v = - 1 then Some (None, dest)
       else do {
         dest \<leftarrow> put_at dest i (char_of (nat v));
         decode_loop src (j + 3) (szsub (szsub srclen 2) 1) dest (i + 1) destsize } }
     else do {
       dest \<leftarrow> put_at dest i c;
       decode_loop src (j + 1) (szsub srclen 1) dest (i + 1) destsize } }
   else Some (Some (i, Suc destsize), dest))"

definition rfc1738_decode :: "char list \<Rightarrow> size_t \<Rightarrow> char list \<Rightarrow> nat \<Rightarrow> size_t \<Rightarrow> (size_t \<times> errno_t option \<times> char list) option" where
  "rfc1738_decode dest destsize src off srclen = do {
     (r, dest) \<leftarrow> decode_loop src off srclen dest 0 destsize;
     (case r of
        None \<Rightarrow> Some (0, Some EINVAL, dest)
      | Some (sz, left) \<Rightarrow>
          if left = 0 then Some (0, Some ENOSPC, dest)
          else do { dest \<leftarrow> put_at dest sz NUL; Some (sz, None, dest) }) }"

definition rfc1738_encode_string :: "char list \<Rightarrow> size_t \<Rightarrow> string \<Rightarrow> (size_t \<times> errno_t option \<times> char list) option" where
  "rfc1738_encode_string dest destsize src = do {
     (sz, e, dest) \<leftarrow> rfc1738_encode dest destsize (src @ [NUL]) (length src);
     if sz = 0 then Some (0, e, dest)
     else if sz = destsize then Some (0, e, dest)
     else do { dest \<leftarrow> put_at dest sz NUL; Some (sz, e, dest) } }"

definition rfc1738_decode_string :: "char list \<Rightarrow> size_t \<Rightarrow> string \<Rightarrow> (size_t \<times> errno_t option \<times> char list) option" where
  "rfc1738_decode_string dest destsize src = do {
     (sz, e, dest) \<leftarrow> rfc1738_decode dest destsize (src @ [NUL]) 0 (length src);
     if sz = 0 then Some (0, e, dest)
     else if sz = destsize then Some (0, e, dest)
     else do { dest \<leftarrow> put_at dest sz NUL; Some (sz, e, dest) } }"

subsection \<open>The code of a text\<close>

definition enc1 :: "char \<Rightarrow> string" where
  "enc1 c = (if plain_char c then [c] else [CHR ''%'', hex_digit (code c div 16), hex_digit (code c mod 16)])"

definition url_encode :: "string \<Rightarrow> string" where
  "url_encode s = concat (map enc1 s)"

fun url_decode :: "string \<Rightarrow> string option" where
  "url_decode [] = Some []"
| "url_decode (c # s) = (if c = CHR ''%'' then
     (case s of
        a # b # r \<Rightarrow> if hexchar2int a = - 1 \<or> hexchar2int b = - 1 then None
          else map_option ((#) (char_of (nat (hexchar2int a * 16 + hexchar2int b)))) (url_decode r)
      | _ \<Rightarrow> None)
   else map_option ((#) c) (url_decode s))"

lemma hex_digit_int: "n < 16 \<Longrightarrow> hexchar2int (hex_digit n) = int n"
proof -
  assume n: "n < 16"
  then have "code (hex_digit n) = (if n > 9 then n + 55 else n + 48)" by (simp add: hex_digit_def)
  then show ?thesis using n by (cases "n > 9") (simp_all add: hexchar2int_def isdigit_def)
qed

lemma code_less_256: "code c < (256 :: nat)"
  using of_char_mod_256 [of c, where ?'a = nat] by (metis mod_less_divisor zero_less_numeral)

lemma url_decode_encode: "url_decode (url_encode s) = Some s"
proof (induction s)
  case (Cons c s)
  have lt: "code c div 16 < 16" "code c mod 16 < 16" using code_less_256 [of c] by (auto simp: less_mult_imp_div_less)
  have "int (code c div 16) * 16 + int (code c mod 16) = int (code c)" by (metis div_mult_mod_eq of_nat_add of_nat_mult of_nat_numeral)
  then have "char_of (nat (hexchar2int (hex_digit (code c div 16)) * 16 + hexchar2int (hex_digit (code c mod 16)))) = c"
    using hex_digit_int lt by simp
  moreover have "\<not> plain_char (CHR ''%'')" by (simp add: plain_char_def ctype_defs)
  ultimately show ?case using Cons hex_digit_int lt by (auto simp: url_encode_def enc1_def)
qed (simp add: url_encode_def)

lemma enc1_length: "length (enc1 c) = (if plain_char c then 1 else 3)"
  by (simp add: enc1_def)

subsection \<open>Encoding\<close>

lemma wr_put: "put_at dest i c = wr dest i [c]"
  by (rule put_at_wr)

lemma encode_loop_spec:
  assumes "src = pre @ s @ rest" "i + destsize \<le> length dest"
  shows "length (url_encode s) \<le> destsize \<Longrightarrow> encode_loop src (length pre) (length s) dest i destsize =
      Some (Some (i + length (url_encode s), length pre + length s), take i dest @ url_encode s @ drop (i + length (url_encode s)) dest)"
    and "destsize < length (url_encode s) \<Longrightarrow> \<exists>r d. encode_loop src (length pre) (length s) dest i destsize = Some (r, d) \<and> length d = length dest \<and>
      (r = None \<or> (\<exists>k < length s. r = Some (i + destsize, length pre + k)))"
  using assms
proof (induction s arbitrary: pre dest i destsize)
  case Nil
  { case 1 then show ?case by (simp add: url_encode_def) }
  { case 2 then show ?case by (simp add: url_encode_def) }
next
  case (Cons c s)
  have g: "get_at src (length pre) = Some c" if "src = pre @ (c # s) @ rest" for pre using that by (simp add: get_at_def nth_append)
  have step: "encode_loop src (length pre) (length (c # s)) dest i destsize =
      encode_loop src (length (pre @ [c])) (length s) (take i dest @ enc1 c @ drop (i + length (enc1 c)) dest) (i + length (enc1 c)) (destsize - length (enc1 c))"
    if "src = pre @ (c # s) @ rest" "i + destsize \<le> length dest" "length (enc1 c) \<le> destsize" for pre dest i destsize
    using g [OF that(1)] that(2,3) by (auto simp: enc1_def put_at_wr encode_def buf_simps numeral_3_eq_3 split: if_splits)
  have u: "url_encode (c # s) = enc1 c @ url_encode s" by (simp add: url_encode_def)
  { case 1
    then have l: "length (enc1 c) \<le> destsize" "length (url_encode s) \<le> destsize - length (enc1 c)" using u by simp_all
    have "src = (pre @ [c]) @ s @ rest" using 1(2) by simp
    from Cons.IH(1) [OF l(2) this, of "i + length (enc1 c)" "take i dest @ enc1 c @ drop (i + length (enc1 c)) dest"]
    show ?case using step [OF 1(2,3) l(1)] 1(3) l(1) u by (simp add: min_absorb2 ac_simps)
  }
  { case 2
    show ?case
    proof (cases "length (enc1 c) \<le> destsize")
      case True
      then have l: "destsize - length (enc1 c) < length (url_encode s)" using 2(1) u by simp
      have "src = (pre @ [c]) @ s @ rest" using 2(2) by simp
      from Cons.IH(2) [OF l this, of "i + length (enc1 c)" "take i dest @ enc1 c @ drop (i + length (enc1 c)) dest"]
      obtain r d where "encode_loop src (length (pre @ [c])) (length s) (take i dest @ enc1 c @ drop (i + length (enc1 c)) dest) (i + length (enc1 c)) (destsize - length (enc1 c)) = Some (r, d)"
        "length d = length dest" "r = None \<or> (\<exists>k < length s. r = Some (i + destsize, length (pre @ [c]) + k))"
        using 2(3) True by auto
      then show ?thesis using step [OF 2(2,3) True] by (auto intro: exI [of _ "Suc k" for k])
    next
      case False
      then show ?thesis using g [OF 2(2)] 2(3) by (auto simp: enc1_def split: if_splits)
    qed
  }
qed


lemma encode_spec:
  assumes "0 < destsize" "destsize \<le> length dest" "s \<noteq> []" "c_string s"
  shows "length (url_encode s) < destsize \<Longrightarrow> rfc1738_encode dest destsize (s @ [NUL]) (length s) =
      Some (length (url_encode s), None, url_encode s @ NUL # drop (Suc (length (url_encode s))) dest)"
    and "length (url_encode s) = destsize \<Longrightarrow> length dest = destsize \<Longrightarrow> rfc1738_encode dest destsize (s @ [NUL]) (length s) = None"
    and "destsize < length (url_encode s) \<Longrightarrow> \<exists>d. rfc1738_encode dest destsize (s @ [NUL]) (length s) = Some (0, Some ENOSPC, d) \<and> length d = length dest"
proof -
  let ?u = "url_encode s"
  have g: "get_at (s @ [NUL]) (length s) = Some NUL" by (simp add: get_at_def)
  note L = encode_loop_spec [of "s @ [NUL]" "[]" s "[NUL]" 0 destsize dest, simplified]
  have run: "encode_loop (s @ [NUL]) 0 (length s) dest 0 destsize = Some (Some (length ?u, length s), ?u @ drop (length ?u) dest)" if "length ?u \<le> destsize"
    using L(1) assms(2) that by simp
  show "rfc1738_encode dest destsize (s @ [NUL]) (length s) = Some (length ?u, None, ?u @ NUL # drop (Suc (length ?u)) dest)" if "length ?u < destsize"
  proof -
    have "put_at (?u @ drop (length ?u) dest) (length ?u) NUL = Some (?u @ NUL # drop (Suc (length ?u)) dest)"
      using that assms(2) by (simp add: put_at_def list_update_append flip: Cons_nth_drop_Suc)
    then show ?thesis using run that g assms(1,3) by (simp add: rfc1738_encode_def)
  qed
  show "rfc1738_encode dest destsize (s @ [NUL]) (length s) = None" if "length ?u = destsize" "length dest = destsize"
    using run that g assms(1,3) by (simp add: rfc1738_encode_def put_at_def)
  show "\<exists>d. rfc1738_encode dest destsize (s @ [NUL]) (length s) = Some (0, Some ENOSPC, d) \<and> length d = length dest" if "destsize < length ?u"
  proof -
    note T = that
    obtain r d where rd: "encode_loop (s @ [NUL]) 0 (length s) dest 0 destsize = Some (r, d)" "length d = length dest" "r = None \<or> (\<exists>k < length s. r = Some (destsize, k))"
      using L(2) [OF assms(2) T] by blast
    have "\<exists>c. get_at (s @ [NUL]) k = Some c \<and> c \<noteq> NUL" if "k < length s" for k
      using that assms(4) by (auto simp: get_at_def nth_append c_string_def) (metis nth_mem)
    then show ?thesis using rd assms(1,3) by (fastforce simp: rfc1738_encode_def)
  qed
qed

subsection \<open>Decoding\<close>

lemma hex_NUL [simp]: "hexchar2int NUL = - 1"
  by (simp add: hexchar2int_def isdigit_def)

lemma hex_range: "hexchar2int c = - 1 \<or> 0 \<le> hexchar2int c \<and> hexchar2int c < 16"
  by (auto simp: hexchar2int_def isdigit_def)

lemma get_at_pre: "get_at (pre @ c # rest) (length pre) = Some c" "get_at (pre @ a # c # rest) (Suc (length pre)) = Some c"
    "get_at (pre @ a # b # c # rest) (Suc (Suc (length pre))) = Some c"
  by (simp_all add: get_at_def nth_append)

definition decode_ends :: "string \<Rightarrow> char list \<Rightarrow> ((nat \<times> nat) option \<times> char list) option \<Rightarrow> bool" where
  "decode_ends s dest x \<longleftrightarrow> (\<exists>r d. x = Some (r, d) \<and> length d = length dest \<and> (r = None \<or> (\<exists>k. r = Some (k, 0))) \<and> (r = None \<longrightarrow> url_decode s = None))"

lemma put_at_prefix: "i < length dest \<Longrightarrow> put_at dest i c = Some (take i dest @ c # drop (Suc i) dest)"
  by (simp add: put_at_def upd_conv_take_nth_drop)

text \<open>One step of the loop: the bytes it consumes and the byte it yields.\<close>

definition url_unit :: "string \<Rightarrow> char \<Rightarrow> bool" where
  "url_unit u x \<longleftrightarrow> (u = [x] \<and> x \<noteq> CHR ''%'') \<or> (\<exists>a b. u = [CHR ''%'', a, b] \<and> hexchar2int a \<noteq> - 1 \<and> hexchar2int b \<noteq> - 1 \<and>
     x = char_of (nat (hexchar2int a * 16 + hexchar2int b)))"

lemma url_cases:
  assumes "s \<noteq> []"
  shows "(\<exists>u s' x. s = u @ s' \<and> url_unit u x \<and> url_decode s = map_option ((#) x) (url_decode s')) \<or>
    (url_decode s = None \<and> hd s = CHR ''%'' \<and> (\<forall>pre rest. decode (pre @ s @ NUL # rest) (length pre) = Some (- 1)))"
proof -
  obtain c r where s: "s = c # r" using assms by (cases s) auto
  show ?thesis
  proof (cases "c = CHR ''%''")
    case False
    then have "s = [c] @ r \<and> url_unit [c] c \<and> url_decode s = map_option ((#) c) (url_decode r)" using s by (simp add: url_unit_def)
    then show ?thesis by blast
  next
    case True
    consider "r = []" | a where "r = [a]" | a b r' where "r = a # b # r'" by (cases r; cases "tl r") auto
    then show ?thesis
    proof cases
      case (3 a b r')
      show ?thesis
      proof (cases "hexchar2int a = - 1 \<or> hexchar2int b = - 1")
        case True': True
        then show ?thesis using s True 3 by (auto simp: decode_def get_at_pre Let_def)
      next
        case False
        then have "s = [c, a, b] @ r' \<and> url_unit [c, a, b] (char_of (nat (hexchar2int a * 16 + hexchar2int b))) \<and>
          url_decode s = map_option ((#) (char_of (nat (hexchar2int a * 16 + hexchar2int b)))) (url_decode r')"
          using s True 3 by (simp add: url_unit_def)
        then show ?thesis by blast
      qed
    qed (use s True in \<open>auto simp: decode_def get_at_pre Let_def\<close>)
  qed
qed

lemma decode_step:
  assumes "src = pre @ (u @ s') @ NUL # rest" "i + Suc n \<le> length dest" "length (u @ s') < SIZE_MOD" "url_unit u x"
  shows "decode_loop src (length pre) (length (u @ s')) dest i (Suc n) =
      decode_loop src (length (pre @ u)) (length s') (take i dest @ x # drop (Suc i) dest) (Suc i) n"
  using assms(4) unfolding url_unit_def
proof (elim disjE exE conjE)
  assume u: "u = [x]" "x \<noteq> CHR ''%''"
  then show ?thesis using assms(1-3) by (simp add: get_at_pre put_at_prefix szsub_le)
next
  fix a b assume u: "u = [CHR ''%'', a, b]" "hexchar2int a \<noteq> - 1" "hexchar2int b \<noteq> - 1" "x = char_of (nat (hexchar2int a * 16 + hexchar2int b))"
  have "decode src (length pre) = Some (hexchar2int a * 16 + hexchar2int b)" using assms(1) u by (simp add: decode_def get_at_pre)
  moreover have "hexchar2int a * 16 + hexchar2int b \<noteq> - 1" using hex_range [of a] hex_range [of b] u(2,3) by linarith
  moreover have "szsub (szsub (length (u @ s')) 2) 1 = length s'" using assms(3) u(1) by (simp add: szsub_le)
  ultimately show ?thesis using assms(1,2) u(1,4) by (simp add: get_at_pre put_at_prefix numeral_3_eq_3)
qed

lemma decode_loop_spec:
  assumes "src = pre @ s @ NUL # rest" "length s < SIZE_MOD" "i + destsize \<le> length dest"
  shows "(\<forall>t. url_decode s = Some t \<and> length t < destsize \<longrightarrow> decode_loop src (length pre) (length s) dest i destsize =
      Some (Some (i + length t, destsize - length t), take i dest @ t @ drop (i + length t) dest)) \<and>
    ((\<nexists>t. url_decode s = Some t \<and> length t < destsize) \<longrightarrow> decode_ends s dest (decode_loop src (length pre) (length s) dest i destsize))"
  using assms
proof (induction destsize arbitrary: pre s i dest)
  case 0
  then show ?case by (simp add: decode_ends_def)
next
  case (Suc n)
  show ?case
  proof (cases "s = []")
    case True
    then show ?thesis by simp
  next
    case False
    from url_cases [OF False] show ?thesis
    proof (elim disjE exE conjE)
      fix u s' x assume u: "s = u @ s'" "url_unit u x" "url_decode s = map_option ((#) x) (url_decode s')"
      let ?d = "take i dest @ x # drop (Suc i) dest"
      have step: "decode_loop src (length pre) (length s) dest i (Suc n) = decode_loop src (length (pre @ u)) (length s') ?d (Suc i) n"
        using decode_step [of src pre u s' rest i n dest x] Suc.prems u by simp
      have l: "length ?d = length dest" using Suc.prems(3) by simp
      have s': "src = (pre @ u) @ s' @ NUL # rest" "length s' < SIZE_MOD" "Suc i + n \<le> length ?d" using Suc.prems u(1) l by simp_all
      note IH = Suc.IH [OF s']
      show ?thesis
      proof (cases "\<exists>t. url_decode s' = Some t \<and> length t < n")
        case True
        then obtain t where t: "url_decode s' = Some t" "length t < n" by blast
        then have "take (Suc i) ?d @ t @ drop (Suc i + length t) ?d = take i dest @ (x # t) @ drop (i + length (x # t)) dest"
          using Suc.prems(3) by (simp add: min_absorb2 ac_simps)
        then show ?thesis using IH t u(3) step by simp
      next
        case False
        then have "decode_ends s' ?d (decode_loop src (length pre) (length s) dest i (Suc n))" using IH step by simp
        then show ?thesis using u(3) False l by (auto simp: decode_ends_def)
      qed
    next
      assume bad: "url_decode s = None" "hd s = CHR ''%''" "\<forall>pre rest. decode (pre @ s @ NUL # rest) (length pre) = Some (- 1)"
      obtain r where "s = CHR ''%'' # r" using bad(2) False by (cases s) auto
      then have "decode_loop src (length pre) (length s) dest i (Suc n) = Some (None, dest)" using bad(3) Suc.prems(1) by (simp add: get_at_pre)
      then show ?thesis using bad(1) by (simp add: decode_ends_def)
    qed
  qed
qed

lemma decode_spec:
  assumes "src = pre @ s @ NUL # rest" "length s < SIZE_MOD" "destsize \<le> length dest"
  shows "url_decode s = Some t \<Longrightarrow> length t < destsize \<Longrightarrow> rfc1738_decode dest destsize src (length pre) (length s) =
      Some (length t, None, t @ NUL # drop (Suc (length t)) dest)"
    and "\<nexists>t. url_decode s = Some t \<and> length t < destsize \<Longrightarrow> \<exists>e d. rfc1738_decode dest destsize src (length pre) (length s) = Some (0, Some e, d) \<and>
      length d = length dest \<and> (e = ENOSPC \<or> e = EINVAL \<and> url_decode s = None)"
proof -
  note L = decode_loop_spec [OF assms(1,2), of 0 destsize dest, simplified]
  show "rfc1738_decode dest destsize src (length pre) (length s) = Some (length t, None, t @ NUL # drop (Suc (length t)) dest)"
    if "url_decode s = Some t" "length t < destsize"
  proof -
    have "put_at (t @ drop (length t) dest) (length t) NUL = Some (t @ NUL # drop (Suc (length t)) dest)"
      using that assms(3) by (simp add: put_at_def list_update_append flip: Cons_nth_drop_Suc)
    then show ?thesis using L assms(3) that by (simp add: rfc1738_decode_def)
  qed
  show "\<exists>e d. rfc1738_decode dest destsize src (length pre) (length s) = Some (0, Some e, d) \<and> length d = length dest \<and> (e = ENOSPC \<or> e = EINVAL \<and> url_decode s = None)"
    if "\<nexists>t. url_decode s = Some t \<and> length t < destsize"
    using L assms(3) that by (auto simp: rfc1738_decode_def decode_ends_def)
qed

subsection \<open>Properties\<close>

text \<open>
  C39. URL encoding round trip: encoding a nonempty text into a buffer with room for the code and its terminator
  succeeds, uses only letters, digits and percent escapes, and decoding the result gives the text back.
\<close>

theorem rfc1738_roundtrip:
  assumes "s \<noteq> []" "c_string s" "length (url_encode s) < n" "n \<le> length dest" "length s < m" "m \<le> length dest'" "n < SIZE_MOD"
  shows "\<exists>d d' k. rfc1738_encode dest n (s @ [NUL]) (length s) = Some (k, None, d) \<and> cstr_at d 0 = Some (url_encode s) \<and> k = length (url_encode s) \<and>
    (\<forall>c \<in> set (take k d). plain_char c \<or> c = CHR ''%'') \<and>
    rfc1738_decode dest' m d 0 k = Some (length s, None, d') \<and> cstr_at d' 0 = Some s"
proof -
  let ?u = "url_encode s"
  have pc: "plain_char (hex_digit k) \<and> hex_digit k \<noteq> NUL" if "k < 16" for k
  proof -
    have "code (hex_digit k) = (if k > 9 then k + 55 else k + 48)" using that by (simp add: hex_digit_def)
    then show ?thesis using that by (cases "k > 9") (auto simp: plain_char_def ctype_defs)
  qed
  have u: "\<forall>c \<in> set ?u. plain_char c \<or> c = CHR ''%''"
    using pc code_less_256 by (auto simp: url_encode_def enc1_def less_mult_imp_div_less)
  then have cu: "c_string ?u" by (auto simp: c_string_def plain_char_def)
  have "rfc1738_encode dest n (s @ [NUL]) (length s) = Some (length ?u, None, ?u @ NUL # drop (Suc (length ?u)) dest)"
    by (rule encode_spec(1)) (use assms in auto)
  moreover have "rfc1738_decode dest' m (?u @ NUL # drop (Suc (length ?u)) dest) 0 (length ?u) = Some (length s, None, s @ NUL # drop (Suc (length s)) dest')"
    using decode_spec(1) [of _ "[]" ?u _ m dest' s] assms url_decode_encode by simp
  ultimately show ?thesis using u cstr_at_prefix [OF cu, of "[]"] cstr_at_prefix [OF assms(2), of "[]"] by auto
qed

theorem rfc1738_roundtrip_witness:
  "\<exists>d d' k. rfc1738_encode (replicate 16 NUL) 16 (''a/b c'' @ [NUL]) (length ''a/b c'') = Some (k, None, d) \<and> cstr_at d 0 = Some ''a%2Fb%20c'' \<and>
    rfc1738_decode (replicate 8 NUL) 8 d 0 k = Some (5, None, d') \<and> cstr_at d' 0 = Some ''a/b c''"
proof -
  have u: "url_encode ''a/b c'' = ''a%2Fb%20c''" by code_simp
  have l: "length ''a/b c'' = 5" by simp
  have "''a/b c'' \<noteq> []" "c_string ''a/b c''" "length (url_encode ''a/b c'') < 16" "16 \<le> length (replicate 16 NUL)" "length ''a/b c'' < 8"
      "8 \<le> length (replicate 8 NUL)" "16 < SIZE_MOD" by (simp_all add: u SIZE_MOD_def)
  from rfc1738_roundtrip [OF this] show ?thesis unfolding u unfolding l by blast
qed

text \<open>
  Bounds of the codec: decoding a terminated text returns without touching a byte outside the destination or
  behind the terminator; it succeeds exactly on well-formed escapes whose text fits, and otherwise returns 0 with
  \<open>ENOSPC\<close> or \<open>EINVAL\<close> in \<open>errno\<close> (the empty text returns 0 too, and leaves \<open>errno\<close> alone). Encoding writes one byte
  behind its destination exactly when the code fills it to the last byte.
\<close>

theorem rfc1738_bounds:
  assumes "length s < SIZE_MOD" "0 < n" "length dest = n"
  shows "(\<exists>k e d. rfc1738_decode dest n (s @ [NUL]) 0 (length s) = Some (k, e, d) \<and> length d = n \<and>
      (case url_decode s of
         Some t \<Rightarrow> if length t < n then k = length t \<and> e = None \<and> take (Suc k) d = t @ [NUL] else k = 0 \<and> e = Some ENOSPC
       | None \<Rightarrow> k = 0 \<and> (e = Some ENOSPC \<or> e = Some EINVAL))) \<and>
    (s \<noteq> [] \<and> c_string s \<longrightarrow> (rfc1738_encode dest n (s @ [NUL]) (length s) = None \<longleftrightarrow> length (url_encode s) = n))"
proof
  note D = decode_spec [of "s @ [NUL]" "[]" s "[]" n dest, simplified, OF assms(1)]
  show "\<exists>k e d. rfc1738_decode dest n (s @ [NUL]) 0 (length s) = Some (k, e, d) \<and> length d = n \<and>
      (case url_decode s of
         Some t \<Rightarrow> if length t < n then k = length t \<and> e = None \<and> take (Suc k) d = t @ [NUL] else k = 0 \<and> e = Some ENOSPC
       | None \<Rightarrow> k = 0 \<and> (e = Some ENOSPC \<or> e = Some EINVAL))"
  proof (cases "\<exists>t. url_decode s = Some t \<and> length t < n")
    case True
    then show ?thesis using D(1) assms(3) by auto
  next
    case False
    then show ?thesis using D(2) assms(3) by (fastforce split: option.splits)
  qed
  show "s \<noteq> [] \<and> c_string s \<longrightarrow> (rfc1738_encode dest n (s @ [NUL]) (length s) = None \<longleftrightarrow> length (url_encode s) = n)"
  proof
    assume s: "s \<noteq> [] \<and> c_string s"
    have n: "n \<le> length dest" using assms(3) by simp
    show "rfc1738_encode dest n (s @ [NUL]) (length s) = None \<longleftrightarrow> length (url_encode s) = n"
      using encode_spec [OF assms(2) n, of s] s assms(3) by (cases "length (url_encode s)" n rule: linorder_cases) auto
  qed
qed

theorem rfc1738_bounds_witness:
  "rfc1738_encode (replicate 3 NUL) 3 (''abc'' @ [NUL]) 3 = None \<and>
   (\<exists>k e d. rfc1738_decode (replicate 3 NUL) 3 (''abc'' @ [NUL]) 0 3 = Some (k, e, d) \<and> k = 0 \<and> e = Some ENOSPC)"
proof -
  have "url_encode ''abc'' = ''abc''" "url_decode ''abc'' = Some ''abc''" by (simp_all add: url_encode_def enc1_def plain_char_def ctype_defs)
  then show ?thesis using rfc1738_bounds [of "''abc''" 3 "replicate 3 NUL"] by (auto simp: SIZE_MOD_def numeral_3_eq_3)
qed

end
