(* ===== verification/Parse_Time.thy ===== *)
theory Parse_Time
  imports Convert
begin

section \<open>Dates in header fields\<close>

text \<open>
  \<open>src/http/src/parse_time.c\<close>. \<open>mktime\<close> depends on the time zone of the process; it is an argument. The result is
  \<open>None\<close> when an \<open>assert\<close> fails, and -1 is the error value of the code.
\<close>

record tm =
  tm_sec :: int
  tm_min :: int
  tm_hour :: int
  tm_mday :: int
  tm_mon :: int
  tm_year :: int
  tm_wday :: int
  tm_isdst :: int

definition wkday :: "string list" where
  "wkday = [''Sun'', ''Mon'', ''Tue'', ''Wed'', ''Thu'', ''Fri'', ''Sat'']"

definition month :: "string list" where
  "month = [''Jan'', ''Feb'', ''Mar'', ''Apr'', ''May'', ''Jun'', ''Jul'', ''Aug'', ''Sep'', ''Oct'', ''Nov'', ''Dec'']"

text \<open>The index of the first entry that equals the three bytes, and the length of the table if there is none.\<close>

fun find3 :: "string \<Rightarrow> string list \<Rightarrow> nat" where
  "find3 s [] = 0"
| "find3 s (x # xs) = (if take 3 s = x then 0 else Suc (find3 s xs))"

text \<open>A plain \<open>char\<close> in an arithmetic expression is signed.\<close>

definition schar :: "char \<Rightarrow> int" where
  "schar c = (if code c < 128 then int (code c) else int (code c) - 256)"

definition isalpha :: "char \<Rightarrow> bool" where
  "isalpha c \<longleftrightarrow> isupper c \<or> islower c"

definition dig :: "char \<Rightarrow> int" where
  "dig c = schar c - 48"

definition parse_rfc822_date :: "(tm \<Rightarrow> int) \<Rightarrow> string \<Rightarrow> int option" where
  "parse_rfc822_date mktime s = (if length s \<noteq> 29 then Some (- 1)
   else if find3 s wkday = length wkday then Some (- 1)
   else if \<not> (isdigit (s ! 5) \<and> isdigit (s ! 6)) then None
   else (let day_of_month = dig (s ! 5) * 10 + dig (s ! 5) in
     if \<not> (isalpha (s ! 8) \<and> isupper (s ! 8)) then None
     else (let imonth = find3 (drop 8 s) month in
       if imonth = length month then Some (- 1)
       else if \<not> (isdigit (s ! 12) \<and> isdigit (s ! 13) \<and> isdigit (s ! 14) \<and> isdigit (s ! 15)) then None
       else (let year = ((dig (s ! 12) * 10 + dig (s ! 13)) * 10 + dig (s ! 14)) * 10 + dig (s ! 15) in
         if \<not> (isdigit (s ! 17) \<and> isdigit (s ! 18)) then None
         else (let h = dig (s ! 17) * 10 + dig (s ! 18) in
           if s ! 19 \<noteq> CHR '':'' then None
           else (let m = dig (s ! 20) * 10 + dig (s ! 21) in
             if s ! 22 \<noteq> CHR '':'' then None
             else (let sec = dig (s ! 23) * 10 + dig (s ! 24) in
               if \<not> (h < 24 \<and> m < 60 \<and> sec < 60) then None
               else if take 3 (drop 26 s) \<noteq> ''GMT'' then Some (- 1)
               else Some (mktime \<lparr>tm_sec = sec, tm_min = m, tm_hour = h, tm_mday = day_of_month, tm_mon = int imonth,
                 tm_year = year - 1900, tm_wday = 0, tm_isdst = 0\<rparr>))))))))"

subsection \<open>Dates in the format of RFC 1123\<close>

definition two :: "nat \<Rightarrow> string" where
  "two n = [digit_char (n div 10), digit_char (n mod 10)]"

definition rfc1123 :: "nat \<Rightarrow> nat \<Rightarrow> nat \<Rightarrow> nat \<Rightarrow> nat \<Rightarrow> nat \<Rightarrow> nat \<Rightarrow> string" where
  "rfc1123 wd d mon y h m s = wkday ! wd @ '', '' @ two d @ '' '' @ month ! mon @ '' '' @ two (y div 100) @ two (y mod 100) @ '' '' @
     two h @ '':'' @ two m @ '':'' @ two s @ '' GMT''"

lemma dig_digit_char: "n < 10 \<Longrightarrow> isdigit (digit_char n) \<and> dig (digit_char n) = int n"
proof -
  assume n: "n < 10"
  have "code (digit_char n) = 48 + n" using code_digit_char [of n] n by simp
  then show ?thesis using n by (simp add: isdigit_def dig_def schar_def)
qed

lemma find3_wkday: "wd < 7 \<Longrightarrow> find3 (wkday ! wd @ r) wkday = wd \<and> length (wkday ! wd) = 3"
proof -
  have "\<forall>wd \<in> set [0..<7]. find3 (wkday ! wd @ r) wkday = wd \<and> length (wkday ! wd) = 3" by (simp add: wkday_def upt_rec)
  then show "wd < 7 \<Longrightarrow> find3 (wkday ! wd @ r) wkday = wd \<and> length (wkday ! wd) = 3" by simp
qed

lemma find3_month: "mon < 12 \<Longrightarrow> find3 (month ! mon @ r) month = mon \<and> length (month ! mon) = 3 \<and> isalpha (month ! mon ! 0) \<and> isupper (month ! mon ! 0)"
proof -
  have "\<forall>mon \<in> set [0..<12]. find3 (month ! mon @ r) month = mon \<and> length (month ! mon) = 3 \<and> isalpha (month ! mon ! 0) \<and> isupper (month ! mon ! 0)"
    by (simp add: month_def upt_rec isalpha_def isupper_def)
  then show "mon < 12 \<Longrightarrow> find3 (month ! mon @ r) month = mon \<and> length (month ! mon) = 3 \<and> isalpha (month ! mon ! 0) \<and> isupper (month ! mon ! 0)" by simp
qed

lemma length_3E:
  assumes "length xs = 3"
  obtains a b c where "xs = [a, b, c]"
  using assms by (auto simp: numeral_3_eq_3 length_Suc_conv)

text \<open>The 29 bytes of a date, with the conditions the code checks.\<close>

lemma parse_fields:
  assumes s: "s = w @ [x3, x4, d1, d2, x7] @ mo @ [x11, y1, y2, y3, y4, x16, h1, h2, CHR '':'', m1, m2, CHR '':'', s1, s2, x25, CHR ''G'', CHR ''M'', CHR ''T'']"
    and l: "length w = 3" "length mo = 3"
    and ok: "find3 s wkday < length wkday" "isdigit d1" "isdigit d2" "isalpha (mo ! 0)" "isupper (mo ! 0)" "find3 (drop 8 s) month = mon" "mon < length month"
      "isdigit y1" "isdigit y2" "isdigit y3" "isdigit y4" "isdigit h1" "isdigit h2"
    and v: "((dig y1 * 10 + dig y2) * 10 + dig y3) * 10 + dig y4 = y" "dig h1 * 10 + dig h2 = h" "dig m1 * 10 + dig m2 = m" "dig s1 * 10 + dig s2 = sec"
      "h < 24" "m < 60" "sec < 60"
  shows "parse_rfc822_date mktime s = Some (mktime \<lparr>tm_sec = sec, tm_min = m, tm_hour = h, tm_mday = dig d1 * 10 + dig d1, tm_mon = int mon,
      tm_year = y - 1900, tm_wday = 0, tm_isdst = 0\<rparr>)"
proof -
  obtain a b c where w: "w = [a, b, c]" using l(1) by (rule length_3E)
  obtain p q r where mo: "mo = [p, q, r]" using l(2) by (rule length_3E)
  have n: "length s = 29" "s ! 5 = d1" "s ! 6 = d2" "s ! 8 = mo ! 0" "s ! 12 = y1" "s ! 13 = y2" "s ! 14 = y3" "s ! 15 = y4" "s ! 17 = h1" "s ! 18 = h2"
      "s ! 19 = CHR '':''" "s ! 20 = m1" "s ! 21 = m2" "s ! 22 = CHR '':''" "s ! 23 = s1" "s ! 24 = s2" "take 3 (drop 26 s) = ''GMT''"
    unfolding s w mo by simp_all
  show ?thesis unfolding parse_rfc822_date_def n Let_def v ok(6) using ok v(5-7) by simp
qed

lemma parse_rfc1123:
  assumes "wd < 7" "d < 100" "mon < 12" "y < 10000" "h < 24" "m < 60" "s < 60"
  shows "parse_rfc822_date mktime (rfc1123 wd d mon y h m s) =
    Some (mktime \<lparr>tm_sec = int s, tm_min = int m, tm_hour = int h, tm_mday = 11 * int (d div 10), tm_mon = int mon,
      tm_year = int y - 1900, tm_wday = 0, tm_isdst = 0\<rparr>)"
proof -
  let ?s = "rfc1123 wd d mon y h m s"
  have w: "length (wkday ! wd) = 3" "find3 ?s wkday < length wkday"
    using find3_wkday [OF assms(1)] assms(1) by (simp_all add: rfc1123_def) (simp add: wkday_def)
  have "drop 8 ?s = month ! mon @ '' '' @ two (y div 100) @ two (y mod 100) @ '' '' @ two h @ '':'' @ two m @ '':'' @ two s @ '' GMT''"
    using w(1) by (simp add: rfc1123_def two_def)
  then have mo: "find3 (drop 8 ?s) month = mon" "mon < length month" "length (month ! mon) = 3" "isalpha (month ! mon ! 0)" "isupper (month ! mon ! 0)"
    using find3_month [OF assms(3)] assms(3) by simp_all (simp add: month_def)
  have D: "isdigit (digit_char (n mod 10))" "dig (digit_char (n mod 10)) = int (n mod 10)" for n using dig_digit_char [of "n mod 10"] by simp_all
  have E: "isdigit (digit_char (n div 10))" "dig (digit_char (n div 10)) = int (n div 10)" if "n < 100" for n
    using dig_digit_char [of "n div 10"] that by simp_all
  have lt: "y div 100 < 100" "y mod 100 < 100" "h < 100" "m < 100" "s < 100" using assms by auto
  have i: "int (n div 10) * 10 + int (n mod 10) = int n" for n by (metis div_mult_mod_eq of_nat_add of_nat_mult of_nat_numeral)
  have v: "dig (digit_char (n div 10)) * 10 + dig (digit_char (n mod 10)) = int n" if "n < 100" for n unfolding D E [OF that] by (rule i)
  have gen: "((a * 10 + b) * 10 + c) * 10 + e = p * 100 + q" if "a * 10 + b = p" "c * 10 + e = q" for a b c e p q :: int using that by simp
  have "((dig (digit_char (y div 100 div 10)) * 10 + dig (digit_char (y div 100 mod 10))) * 10 + dig (digit_char (y mod 100 div 10))) * 10 + dig (digit_char (y mod 100 mod 10))
      = int (y div 100) * 100 + int (y mod 100)" by (rule gen [OF v [OF lt(1)] v [OF lt(2)]])
  also have "\<dots> = int y" by (metis div_mult_mod_eq of_nat_add of_nat_mult of_nat_numeral)
  finally have yy: "((dig (digit_char (y div 100 div 10)) * 10 + dig (digit_char (y div 100 mod 10))) * 10 + dig (digit_char (y mod 100 div 10))) * 10 + dig (digit_char (y mod 100 mod 10)) = int y" .
  have s: "?s = wkday ! wd @ [CHR '','', CHR '' '', digit_char (d div 10), digit_char (d mod 10), CHR '' ''] @ month ! mon @
      [CHR '' '', digit_char (y div 100 div 10), digit_char (y div 100 mod 10), digit_char (y mod 100 div 10), digit_char (y mod 100 mod 10), CHR '' '',
       digit_char (h div 10), digit_char (h mod 10), CHR '':'', digit_char (m div 10), digit_char (m mod 10), CHR '':'',
       digit_char (s div 10), digit_char (s mod 10), CHR '' '', CHR ''G'', CHR ''M'', CHR ''T'']"
    by (simp add: rfc1123_def two_def)
  have md: "dig (digit_char (d div 10)) * 10 + dig (digit_char (d div 10)) = 11 * int (d div 10)" using E(2) [OF assms(2)] by simp
  have b: "int h < 24" "int m < 60" "int s < 60" using assms by simp_all
  from parse_fields [OF s w(1) mo(3) w(2) E(1) [OF assms(2)] D(1) mo(4,5,1,2) E(1) [OF lt(1)] D(1) E(1) [OF lt(2)] D(1) E(1) [OF lt(3)] D(1)
      yy v [OF lt(3)] v [OF lt(4)] v [OF lt(5)] b, of mktime]
  show ?thesis unfolding md .
qed

lemma find3_length: "find3 s xs = length xs \<longleftrightarrow> take 3 s \<notin> set xs"
  by (induction xs) auto

lemma eleven: "1 \<le> d \<Longrightarrow> d \<le> 31 \<Longrightarrow> 11 * int (d div 10) = int d \<longleftrightarrow> d = 11 \<or> d = 22"
proof -
  assume "1 \<le> d" "d \<le> 31"
  then have "d \<in> set [1..<32]" by simp
  moreover have "\<forall>d \<in> set [1..<32]. 11 * int (d div 10) = int d \<longleftrightarrow> d = 11 \<or> d = 22" by code_simp
  ultimately show ?thesis by blast
qed

subsection \<open>Properties\<close>

text \<open>
  Dates: a date in the format of RFC 1123 is read without a failing assert and every field but the day of the
  month is right; the day is eleven times its first digit, so it is right only on the 11th and the 22nd. A text of
  another length or with another day name is refused with -1; one of the right length with a day name and no
  digits where the day of the month belongs fails an assert, and the process ends.
\<close>

theorem parse_date_correct:
  "(wd < 7 \<and> 1 \<le> d \<and> d \<le> 31 \<and> mon < 12 \<and> y < 10000 \<and> h < 24 \<and> m < 60 \<and> s < 60 \<longrightarrow>
      (\<exists>t. parse_rfc822_date mktime (rfc1123 wd d mon y h m s) = Some (mktime t) \<and> tm_sec t = int s \<and> tm_min t = int m \<and> tm_hour t = int h \<and>
        tm_mon t = int mon \<and> tm_year t = int y - 1900 \<and> (tm_mday t = int d \<longleftrightarrow> d = 11 \<or> d = 22))) \<and>
   (length v \<noteq> 29 \<or> take 3 v \<notin> set wkday \<longrightarrow> parse_rfc822_date mktime v = Some (- 1)) \<and>
   (length v = 29 \<and> take 3 v \<in> set wkday \<and> \<not> isdigit (v ! 5) \<longrightarrow> parse_rfc822_date mktime v = None)"
proof (intro conjI impI)
  assume a: "wd < 7 \<and> 1 \<le> d \<and> d \<le> 31 \<and> mon < 12 \<and> y < 10000 \<and> h < 24 \<and> m < 60 \<and> s < 60"
  let ?t = "\<lparr>tm_sec = int s, tm_min = int m, tm_hour = int h, tm_mday = 11 * int (d div 10), tm_mon = int mon, tm_year = int y - 1900, tm_wday = 0, tm_isdst = 0\<rparr>"
  have "wd < 7" "d < 100" "mon < 12" "y < 10000" "h < 24" "m < 60" "s < 60" using a by linarith+
  then have "parse_rfc822_date mktime (rfc1123 wd d mon y h m s) = Some (mktime ?t)" by (rule parse_rfc1123)
  moreover have "tm_mday ?t = int d \<longleftrightarrow> d = 11 \<or> d = 22" using eleven [of d] a by simp
  ultimately show "\<exists>t. parse_rfc822_date mktime (rfc1123 wd d mon y h m s) = Some (mktime t) \<and> tm_sec t = int s \<and> tm_min t = int m \<and> tm_hour t = int h \<and>
        tm_mon t = int mon \<and> tm_year t = int y - 1900 \<and> (tm_mday t = int d \<longleftrightarrow> d = 11 \<or> d = 22)"
    by (intro exI [of _ ?t]) (simp only: tm.select_convs simp_thms)
qed (auto simp: parse_rfc822_date_def find3_length)

theorem parse_date_correct_witness:
  "(\<exists>t :: tm. parse_rfc822_date tm_mday (rfc1123 0 6 10 1994 8 49 37) = Some (tm_mday t) \<and> tm_sec t = 37 \<and> tm_mday t \<noteq> 6) \<and>
   parse_rfc822_date tm_mday ''Sun, the sixth of November 94'' = None"
proof
  show "\<exists>t :: tm. parse_rfc822_date tm_mday (rfc1123 0 6 10 1994 8 49 37) = Some (tm_mday t) \<and> tm_sec t = 37 \<and> tm_mday t \<noteq> 6"
  proof -
    have "0 < (7 :: nat) \<and> 1 \<le> (6 :: nat) \<and> 6 \<le> (31 :: nat) \<and> 10 < (12 :: nat) \<and> 1994 < (10000 :: nat) \<and> 8 < (24 :: nat) \<and> 49 < (60 :: nat) \<and> 37 < (60 :: nat)" by simp
    from parse_date_correct [THEN conjunct1, rule_format, OF this, of tm_mday] obtain t :: tm where
      t: "parse_rfc822_date tm_mday (rfc1123 0 6 10 1994 8 49 37) = Some (tm_mday t)" "tm_sec t = int 37" "tm_mday t = int 6 \<longleftrightarrow> (6 :: nat) = 11 \<or> (6 :: nat) = 22" by blast
    then have "tm_sec t = 37" "tm_mday t \<noteq> 6" by simp_all
    with t(1) show ?thesis by blast
  qed
  show "parse_rfc822_date tm_mday ''Sun, the sixth of November 94'' = None"
    using parse_date_correct [of 0 6 10 1994 8 49 37 tm_mday "''Sun, the sixth of November 94''"] by (simp add: wkday_def isdigit_def)
qed

end
