(* ===== verification/Gensocket.thy ===== *)
theory Gensocket
  imports HL_Prelude
begin

section \<open>Sockets\<close>

text \<open>
  The TCP half of \<open>src/meta/src/gensocket.c\<close>. The kernel is a record of the outcomes of the next system calls
  (an empty list: the call does all it is asked to), the bytes the peer has sent that were not read yet, and the
  bytes handed to the peer. Times do not occur: a timeout is the outcome \<open>PollTimeout\<close>. \<open>errno\<close> is part of the
  record because \<open>tcp_write\<close> and \<open>tcp_read\<close> decide on it.
\<close>

datatype poll_res = PollReady | PollTimeout | PollHup | PollNval | PollOther | PollErr errno_t
datatype write_res = WrErr errno_t | WrN nat
datatype read_res = RdErr errno_t | RdN nat

record net =
  net_errno :: errno_t
  polls :: "poll_res list"
  writes :: "write_res list"
  rds :: "read_res list"
  incoming :: "char list"
  sent :: "char list"

text \<open>\<open>poll\<close>, \<open>write\<close> and \<open>read\<close>. A read delivers a prefix of what has arrived, and nothing at its end.\<close>

definition sys_poll :: "net \<Rightarrow> poll_res \<times> net" where
  "sys_poll w = (case polls w of [] \<Rightarrow> (PollReady, w) | r # rs \<Rightarrow> (r, w\<lparr>polls := rs\<rparr>))"

definition sys_write :: "char list \<Rightarrow> net \<Rightarrow> nat option \<times> net" where
  "sys_write buf w = (case writes w of
     [] \<Rightarrow> (Some (length buf), w\<lparr>sent := sent w @ buf\<rparr>)
   | WrErr e # rs \<Rightarrow> (None, w\<lparr>writes := rs, net_errno := e\<rparr>)
   | WrN k # rs \<Rightarrow> (Some (min k (length buf)), w\<lparr>writes := rs, sent := sent w @ take k buf\<rparr>))"

definition sys_read :: "nat \<Rightarrow> net \<Rightarrow> char list option \<times> net" where
  "sys_read count w = (case rds w of
     [] \<Rightarrow> (Some (take count (incoming w)), w\<lparr>incoming := drop count (incoming w)\<rparr>)
   | RdErr e # rs \<Rightarrow> (None, w\<lparr>rds := rs, net_errno := e\<rparr>)
   | RdN k # rs \<Rightarrow> (Some (take (min k count) (incoming w)), w\<lparr>rds := rs, incoming := drop (min k count) (incoming w)\<rparr>))"

definition socket_poll_for :: "net \<Rightarrow> status_t \<times> net" where
  "socket_poll_for w = (case sys_poll w of
     (PollReady, w) \<Rightarrow> (success, w)
   | (PollHup, w) \<Rightarrow> (failure, w\<lparr>net_errno := EPIPE\<rparr>)
   | (PollNval, w) \<Rightarrow> (failure, w\<lparr>net_errno := EINVAL\<rparr>)
   | (PollOther, w) \<Rightarrow> (failure, w)
   | (PollTimeout, w) \<Rightarrow> (failure, w\<lparr>net_errno := EAGAIN\<rparr>)
   | (PollErr e, w) \<Rightarrow> (failure, w\<lparr>net_errno := e\<rparr>))"

text \<open>
  The loops run at most once more than \<open>nretries\<close> says. The result of the write is the status, that of the read
  the bytes, \<open>None\<close> for -1.
\<close>

fun tcp_write :: "nat \<Rightarrow> char list \<Rightarrow> net \<Rightarrow> status_t \<times> net" where
  "tcp_write nretries buf w = (
     let (r, w) = (case socket_poll_for w of
         (False, w) \<Rightarrow> if net_errno w \<noteq> EAGAIN then (None, w) else (Some buf, w)
       | (True, w) \<Rightarrow> (case sys_write buf w of (None, w) \<Rightarrow> (None, w) | (Some n, w) \<Rightarrow> (Some (drop n buf), w))) in
     case r of
       None \<Rightarrow> (failure, w)
     | Some buf \<Rightarrow>
         if buf = [] then (success, w)
         else (case nretries of 0 \<Rightarrow> (failure, w\<lparr>net_errno := EAGAIN\<rparr>) | Suc nretries \<Rightarrow> tcp_write nretries buf w))"

fun tcp_read :: "nat \<Rightarrow> nat \<Rightarrow> net \<Rightarrow> char list option \<times> net" where
  "tcp_read nretries count w = (
     let (r, w) = (case socket_poll_for w of
         (False, w) \<Rightarrow> if net_errno w = EAGAIN then (None, w) else (Some None, w)
       | (True, w) \<Rightarrow> (case sys_read count w of
           (Some bs, w) \<Rightarrow> if bs \<noteq> [] then (Some (Some bs), w) else (None, w)
         | (None, w) \<Rightarrow> if net_errno w \<noteq> EAGAIN then (Some None, w) else (None, w))) in
     case r of
       Some r \<Rightarrow> (r, w)
     | None \<Rightarrow> (case nretries of 0 \<Rightarrow> (None, w) | Suc nretries \<Rightarrow> tcp_read nretries count w))"

declare tcp_write.simps [simp del] tcp_read.simps [simp del]

text \<open>\<open>socket_write\<close> and \<open>socket_read\<close> of a TCP socket with the descriptor \<open>fd\<close>.\<close>

definition socket_write :: "int \<Rightarrow> nat \<Rightarrow> char list \<Rightarrow> net \<Rightarrow> (status_t \<times> net) option" where
  "socket_write fd retries src w = (if fd \<ge> 0 then Some (tcp_write retries src w) else None)"

definition socket_read :: "int \<Rightarrow> nat \<Rightarrow> nat \<Rightarrow> net \<Rightarrow> (char list option \<times> net) option" where
  "socket_read fd retries count w = (if fd \<ge> 0 then Some (tcp_read retries count w) else None)"

text \<open>\<open>shutdown\<close> is ignored; \<open>closed\<close> is whether \<open>close\<close> returns 0. The second result is the new descriptor.\<close>

definition socket_close :: "int \<Rightarrow> bool \<Rightarrow> status_t \<times> int" where
  "socket_close fd closed = (if fd = - 1 then (success, - 1) else (if closed then success else failure, - 1))"

subsection \<open>What the loops do\<close>

text \<open>What both directions leave alone, and how the written bytes grow.\<close>

definition wrote :: "char list \<Rightarrow> nat \<Rightarrow> net \<Rightarrow> net \<Rightarrow> bool" where
  "wrote buf k w w' \<longleftrightarrow> k \<le> length buf \<and> sent w' = sent w @ take k buf \<and> incoming w' = incoming w \<and> rds w' = rds w"

lemma poll_wrote: "socket_poll_for w = (r, w') \<Longrightarrow> wrote buf 0 w w' \<and> writes w' = writes w"
  by (auto simp: socket_poll_for_def sys_poll_def wrote_def split: list.splits poll_res.splits)

lemma poll_ready: "polls w = [] \<Longrightarrow> socket_poll_for w = (success, w)"
  by (simp add: socket_poll_for_def sys_poll_def)

lemma sys_write_wrote:
  assumes "sys_write buf w = (r, w')"
  shows "wrote buf (case r of Some k \<Rightarrow> k | None \<Rightarrow> 0) w w'"
  using assms by (auto simp: sys_write_def wrote_def min_def split: list.splits write_res.splits)

lemma wrote_trans: "wrote buf j w w' \<Longrightarrow> wrote (drop j buf) k w' w'' \<Longrightarrow> wrote buf (j + k) w w''"
  by (auto simp: wrote_def take_add)

lemma tcp_write_spec:
  "\<exists>ok w' k. tcp_write n buf w = (ok, w') \<and> wrote buf k w w' \<and> (ok \<longrightarrow> k = length buf)"
proof (induction n arbitrary: buf w)
  case 0
  obtain p w1 where p: "socket_poll_for w = (p, w1)" by fastforce
  note p' = poll_wrote [OF p, of buf]
  show ?case
  proof (cases p)
    case True
    obtain r w2 where s: "sys_write buf w1 = (r, w2)" by fastforce
    have "wrote buf (0 + (case r of Some k \<Rightarrow> k | None \<Rightarrow> 0)) w w2" using wrote_trans [of buf 0 w w1] p' sys_write_wrote [OF s] by simp
    then show ?thesis using p s True by (subst tcp_write.simps) (auto simp: Let_def wrote_def split: option.splits)
  next
    case False
    then show ?thesis using p p' by (subst tcp_write.simps) (auto simp: Let_def wrote_def)
  qed
next
  case (Suc n)
  obtain p w1 where p: "socket_poll_for w = (p, w1)" by fastforce
  note p' = poll_wrote [OF p, of buf]
  show ?case
  proof (cases p)
    case True
    obtain r w2 where s: "sys_write buf w1 = (r, w2)" by fastforce
    have w: "wrote buf (case r of Some k \<Rightarrow> k | None \<Rightarrow> 0) w w2" using wrote_trans [of buf 0 w w1] p' sys_write_wrote [OF s] by simp
    show ?thesis
    proof (cases r)
      case None
      then show ?thesis using w p s True by (subst tcp_write.simps) (auto simp: Let_def)
    next
      case (Some j)
      obtain ok w' k where i: "tcp_write n (drop j buf) w2 = (ok, w')" "wrote (drop j buf) k w2 w'" "ok \<longrightarrow> k = length (drop j buf)"
        using Suc by blast
      have "wrote buf j w w2" using w Some by simp
      then have t: "wrote buf (j + k) w w'" "j \<le> length buf" using i(2) wrote_trans by (auto simp: wrote_def)
      show ?thesis
      proof (cases "drop j buf = []")
        case True': True
        then have "tcp_write (Suc n) buf w = (True, w2)" using p s True Some by (subst tcp_write.simps) (simp add: Let_def)
        then show ?thesis using \<open>wrote buf j w w2\<close> True' t(2) by auto
      next
        case False
        then have "tcp_write (Suc n) buf w = (ok, w')" using p s True Some i(1) by (subst tcp_write.simps) (simp add: Let_def)
        then show ?thesis using t i(3) by auto
      qed
    qed
  next
    case False
    obtain ok w' k where i: "tcp_write n buf w1 = (ok, w')" "wrote buf k w1 w'" "ok \<longrightarrow> k = length buf" using Suc by blast
    have "wrote buf k w w'" using wrote_trans [of buf 0 w w1 k w'] p' i(2) by simp
    then show ?thesis using False p p' i by (subst tcp_write.simps) (auto simp: Let_def)
  qed
qed

lemma tcp_write_quiet: "polls w = [] \<Longrightarrow> writes w = [] \<Longrightarrow> tcp_write n buf w = (success, w\<lparr>sent := sent w @ buf\<rparr>)"
  by (subst tcp_write.simps) (simp add: poll_ready sys_write_def)

text \<open>A read delivers a nonempty prefix of what has arrived, or nothing is taken.\<close>

definition got :: "nat \<Rightarrow> char list option \<Rightarrow> net \<Rightarrow> net \<Rightarrow> bool" where
  "got count r w w' \<longleftrightarrow> sent w' = sent w \<and> (case r of
     None \<Rightarrow> incoming w' = incoming w
   | Some bs \<Rightarrow> bs \<noteq> [] \<and> length bs \<le> count \<and> incoming w = bs @ incoming w')"

lemma sys_read_got:
  assumes "sys_read count w = (r, w')"
  shows "case r of Some bs \<Rightarrow> (if bs = [] then got count None w w' else got count (Some bs) w w') | None \<Rightarrow> got count None w w'"
  using assms by (auto simp: sys_read_def got_def split: list.splits read_res.splits)

lemma poll_got: "socket_poll_for w = (r, w') \<Longrightarrow> got count None w w'"
  by (auto simp: socket_poll_for_def sys_poll_def got_def split: list.splits poll_res.splits)

lemma got_trans: "got count None w w' \<Longrightarrow> got count r w' w'' \<Longrightarrow> got count r w w''"
  by (auto simp: got_def split: option.splits)

lemma tcp_read_step:
  "\<exists>w1. got count None w w1 \<and> (tcp_read n count w = (case n of 0 \<Rightarrow> (None, w1) | Suc m \<Rightarrow> tcp_read m count w1) \<or>
     (\<exists>r w'. tcp_read n count w = (r, w') \<and> got count r w w'))"
proof -
  obtain p w1 where p: "socket_poll_for w = (p, w1)" by fastforce
  note p' = poll_got [OF p, of count]
  show ?thesis
  proof (cases p)
    case True
    obtain r w2 where s: "sys_read count w1 = (r, w2)" by fastforce
    have g: "case r of Some bs \<Rightarrow> (if bs = [] then got count None w w2 else got count (Some bs) w w2) | None \<Rightarrow> got count None w w2"
      using sys_read_got [OF s] got_trans [OF p'] by (auto split: option.splits if_splits)
    then show ?thesis using p s True
      by (intro exI [of _ "if r = None \<or> r = Some [] then w2 else w1"])
        (subst (1 3) tcp_read.simps, auto simp: Let_def p' split: option.splits)
  next
    case False
    then show ?thesis using p p' by (intro exI [of _ w1]) (subst (1 3) tcp_read.simps, auto simp: Let_def)
  qed
qed

lemma tcp_read_spec: "\<exists>r w'. tcp_read n count w = (r, w') \<and> got count r w w'"
proof (induction n arbitrary: w)
  case 0
  then show ?case using tcp_read_step [of count w 0] by auto
next
  case (Suc n)
  obtain w1 where w1: "got count None w w1" "tcp_read (Suc n) count w = tcp_read n count w1 \<or>
     (\<exists>r w'. tcp_read (Suc n) count w = (r, w') \<and> got count r w w')" using tcp_read_step [of count w "Suc n"] by auto
  then show ?case using Suc [of w1] got_trans [OF w1(1)] by fastforce
qed

end
