(* ===== verification/Connection.thy ===== *)
theory Connection
  imports Gensocket Membuf Cstring
begin

section \<open>Buffered connections\<close>

text \<open>
  \<open>src/meta/src/connection.c\<close> over the TCP socket and the memory buffers: reads go through \<open>readbuf\<close>, writes are
  collected in \<open>writebuf\<close> and flushed when there is no room. The network is a field of the connection, so every
  operation is a function on connections. The counters of bytes are \<open>size_t\<close>; times and addresses are left out.
\<close>

record connection =
  persistent :: bool
  cn_fd :: int
  retries_reads :: nat
  retries_writes :: nat
  readbuf :: "membuf option"
  writebuf :: "membuf option"
  incoming_bytes :: size_t
  outgoing_bytes :: size_t
  cn_net :: net

definition fill_read_buffer :: "connection \<Rightarrow> (status_t \<times> connection) option" where
  "fill_read_buffer this = do {
     rb \<leftarrow> readbuf this;
     n \<leftarrow> membuf_canread rb;
     if n = 0 then do {
       let rb = membuf_reset rb;
       (r, w) \<leftarrow> socket_read (cn_fd this) (retries_reads this) (membuf_size rb) (cn_net this);
       (case r of
          None \<Rightarrow> Some (failure, this\<lparr>readbuf := Some rb, cn_net := w\<rparr>)
        | Some bs \<Rightarrow> do {
            d \<leftarrow> wr (mb_data rb) 0 bs;
            rb \<leftarrow> membuf_set_written (rb\<lparr>mb_data := d\<rparr>) (length bs);
            Some (success, this\<lparr>readbuf := Some rb, cn_net := w, incoming_bytes := szt (incoming_bytes this + length bs)\<rparr>) }) }
     else None }"

definition reset_counters :: "connection \<Rightarrow> connection" where
  "reset_counters this = this\<lparr>incoming_bytes := 0, outgoing_bytes := 0\<rparr>"

definition copy_from_readbuf :: "connection \<Rightarrow> size_t \<Rightarrow> (char list \<times> connection) option" where
  "copy_from_readbuf this count = do {
     rb \<leftarrow> readbuf this;
     (n, bs, rb) \<leftarrow> membuf_read rb count;
     Some (bs, this\<lparr>readbuf := Some rb\<rparr>) }"

definition readbuf_contains_data :: "connection \<Rightarrow> bool option" where
  "readbuf_contains_data this = do { rb \<leftarrow> readbuf this; n \<leftarrow> membuf_canread rb; Some (n \<noteq> 0) }"

definition readbuf_empty :: "connection \<Rightarrow> bool option" where
  "readbuf_empty this = do { b \<leftarrow> readbuf_contains_data this; Some (\<not> b) }"

definition writebuf_has_room_for :: "connection \<Rightarrow> size_t \<Rightarrow> bool option" where
  "writebuf_has_room_for this count = do { wb \<leftarrow> writebuf this; Some (membuf_canwrite wb \<ge> count) }"

definition connection_reclaim_read_buffer :: "connection \<Rightarrow> membuf option \<times> connection" where
  "connection_reclaim_read_buffer this = (readbuf this, this\<lparr>readbuf := None\<rparr>)"

definition connection_reclaim_write_buffer :: "connection \<Rightarrow> membuf option \<times> connection" where
  "connection_reclaim_write_buffer this = (writebuf this, this\<lparr>writebuf := None\<rparr>)"

definition connection_assign_read_buffer :: "connection \<Rightarrow> membuf \<Rightarrow> connection option" where
  "connection_assign_read_buffer this buf = (if readbuf this = None then Some (this\<lparr>readbuf := Some buf\<rparr>) else None)"

definition connection_assign_write_buffer :: "connection \<Rightarrow> membuf \<Rightarrow> connection option" where
  "connection_assign_write_buffer this buf = (if writebuf this = None then Some (this\<lparr>writebuf := Some buf\<rparr>) else None)"

definition connection_flush :: "connection \<Rightarrow> (status_t \<times> connection) option" where
  "connection_flush this = do {
     wb \<leftarrow> writebuf this;
     count \<leftarrow> membuf_canread wb;
     if count > 0 then do {
       bs \<leftarrow> rd (membuf_data wb) 0 count;
       (rc, w) \<leftarrow> socket_write (cn_fd this) (retries_writes this) bs (cn_net this);
       let this = this\<lparr>cn_net := w\<rparr>;
       Some (rc, if rc then this\<lparr>outgoing_bytes := szt (outgoing_bytes this + count), writebuf := Some (membuf_reset wb)\<rparr> else this) }
     else Some (success, this) }"

definition connection_close :: "connection \<Rightarrow> bool \<Rightarrow> (status_t \<times> connection) option" where
  "connection_close this closed = do {
     (flush_success, this) \<leftarrow> connection_flush this;
     let (close_success, fd) = socket_close (cn_fd this) closed;
     let this = this\<lparr>cn_fd := fd\<rparr>;
     if cn_fd this = - 1 then Some (flush_success \<and> close_success, this) else None }"

definition connection_getc :: "connection \<Rightarrow> (char option \<times> connection) option" where
  "connection_getc this = do {
     empty \<leftarrow> readbuf_empty this;
     (ok, this) \<leftarrow> (if empty then fill_read_buffer this else Some (success, this));
     if \<not> ok then Some (None, this)
     else do {
       (bs, this) \<leftarrow> copy_from_readbuf this 1;
       (case bs of [c] \<Rightarrow> Some (Some c, this) | _ \<Rightarrow> Some (None, this)) } }"

definition write_to_socket :: "connection \<Rightarrow> char list \<Rightarrow> (status_t \<times> connection) option" where
  "write_to_socket this buf = do {
     (rc, w) \<leftarrow> socket_write (cn_fd this) (retries_writes this) buf (cn_net this);
     Some (rc, this\<lparr>cn_net := w\<rparr>) }"

text \<open>The bytes \<open>buf\<close> points to are the argument, their number is \<open>count\<close>.\<close>

definition connection_write :: "connection \<Rightarrow> char list \<Rightarrow> (status_t \<times> connection) option" where
  "connection_write this buf = do {
     let count = length buf;
     room \<leftarrow> writebuf_has_room_for this count;
     (ok, this) \<leftarrow> (if \<not> room then connection_flush this else Some (success, this));
     if \<not> ok then Some (failure, this)
     else do {
       room \<leftarrow> writebuf_has_room_for this count;
       if room then do {
         wb \<leftarrow> writebuf this;
         (nwritten, wb) \<leftarrow> membuf_write wb buf count;
         Some (nwritten = count, this\<lparr>writebuf := Some wb\<rparr>) }
       else do {
         (ok, this) \<leftarrow> write_to_socket this buf;
         if \<not> ok then Some (failure, this)
         else Some (success, this\<lparr>outgoing_bytes := szt (outgoing_bytes this + count)\<rparr>) } } }"

definition read_from_socket :: "connection \<Rightarrow> size_t \<Rightarrow> (char list option \<times> connection) option" where
  "read_from_socket this count = do {
     empty \<leftarrow> readbuf_empty this;
     if empty then do {
       (r, w) \<leftarrow> socket_read (cn_fd this) (retries_reads this) count (cn_net this);
       (case r of
          None \<Rightarrow> Some (None, this\<lparr>cn_net := w\<rparr>)
        | Some bs \<Rightarrow> Some (Some bs, this\<lparr>cn_net := w, incoming_bytes := szt (incoming_bytes this + length bs)\<rparr>)) }
     else None }"

text \<open>The bytes read; their number is what the function returns, \<open>None\<close> is -1.\<close>

definition connection_read :: "connection \<Rightarrow> size_t \<Rightarrow> (char list option \<times> connection) option" where
  "connection_read this count = do {
     (bs, this) \<leftarrow> copy_from_readbuf this count;
     if length bs = count then Some (Some bs, this)
     else do {
       let count = count - length bs;
       rb \<leftarrow> readbuf this;
       if membuf_size rb < count then do {
         (r, this) \<leftarrow> read_from_socket this count;
         Some (map_option ((@) bs) r, this) }
       else do {
         (ok, this) \<leftarrow> fill_read_buffer this;
         if \<not> ok then Some (None, this)
         else do {
           (bs2, this) \<leftarrow> copy_from_readbuf this count;
           Some (Some (bs @ bs2), this) } } } }"

text \<open>Numbers in network byte order.\<close>

definition bytes_of :: "nat \<Rightarrow> nat \<Rightarrow> char list" where
  "bytes_of k n = map (\<lambda>i. char_of (n div 256 ^ (k - 1 - i))) [0..<k]"

definition of_bytes :: "char list \<Rightarrow> nat" where
  "of_bytes bs = foldl (\<lambda>n c. n * 256 + code c) 0 bs"

definition read_uint :: "nat \<Rightarrow> connection \<Rightarrow> (nat option \<times> connection) option" where
  "read_uint k conn = do {
     (r, conn) \<leftarrow> connection_read conn k;
     Some (case r of None \<Rightarrow> None | Some bs \<Rightarrow> if length bs = k then Some (of_bytes bs) else None, conn) }"

definition connection_read_u16 where "connection_read_u16 conn = read_uint 2 conn"
definition connection_read_u32 where "connection_read_u32 conn = read_uint 4 conn"
definition connection_read_u64 where "connection_read_u64 conn = read_uint 8 conn"

definition connection_write_u16 :: "connection \<Rightarrow> 16 word \<Rightarrow> (status_t \<times> connection) option" where
  "connection_write_u16 conn val = connection_write conn (bytes_of 2 (unat val))"
definition connection_write_u32 :: "connection \<Rightarrow> 32 word \<Rightarrow> (status_t \<times> connection) option" where
  "connection_write_u32 conn val = connection_write conn (bytes_of 4 (unat val))"
definition connection_write_u64 :: "connection \<Rightarrow> 64 word \<Rightarrow> (status_t \<times> connection) option" where
  "connection_write_u64 conn val = connection_write conn (bytes_of 8 (unat val))"

definition connection_ungetc :: "connection \<Rightarrow> (status_t \<times> connection) option" where
  "connection_ungetc this = do {
     rb \<leftarrow> readbuf this;
     let (ok, rb) = membuf_unget rb;
     Some (ok, this\<lparr>readbuf := Some rb\<rparr>) }"

definition connection_set_persistent :: "connection \<Rightarrow> bool \<Rightarrow> connection" where
  "connection_set_persistent this val = this\<lparr>persistent := val\<rparr>"

definition connection_is_persistent :: "connection \<Rightarrow> bool" where
  "connection_is_persistent this = persistent this"

definition connection_recycle :: "connection \<Rightarrow> bool \<Rightarrow> connection" where
  "connection_recycle this closed = reset_counters (this\<lparr>cn_fd := snd (socket_close (cn_fd this) closed), persistent := False\<rparr>)"

text \<open>\<open>connection_printf\<close>: \<open>out\<close> is what the format yields, \<open>None\<close> when \<open>vsnprintf\<close> fails. A NULL string is dereferenced.\<close>

definition connection_printf :: "connection \<Rightarrow> string option \<Rightarrow> allocator \<Rightarrow> (status_t \<times> connection \<times> allocator) option" where
  "connection_printf conn out a = (case cstring_new a of
     (None, a) \<Rightarrow> None
   | (Some s, a) \<Rightarrow> do {
       (ok, s, a) \<leftarrow> cstring_vprintf s out a;
       if ok then do {
         bs \<leftarrow> rd (cs_data s) 0 (cs_len s);
         (ok, conn) \<leftarrow> connection_write conn bs;
         Some (ok, conn, a) }
       else Some (failure, conn, a) })"

definition connection_putc :: "connection \<Rightarrow> char \<Rightarrow> (status_t \<times> connection) option" where
  "connection_putc this ch = connection_write this [ch]"

definition connection_puts :: "connection \<Rightarrow> string \<Rightarrow> (status_t \<times> connection) option" where
  "connection_puts this s = do {
     (ok, this) \<leftarrow> connection_write this s;
     if ok then connection_flush this else Some (failure, this) }"

fun gets_loop :: "nat \<Rightarrow> connection \<Rightarrow> char list \<Rightarrow> nat \<Rightarrow> (status_t \<times> nat \<times> char list \<times> connection) option" where
  "gets_loop 0 this dest i = Some (success, i, dest, this)"
| "gets_loop (Suc n) this dest i = do {
     (r, this) \<leftarrow> connection_getc this;
     (case r of
        None \<Rightarrow> Some (failure, i, dest, this)
      | Some c \<Rightarrow> do {
          dest \<leftarrow> put_at dest i c;
          if c = CHR 0x0A then Some (success, i + 1, dest, this) else gets_loop n this dest (i + 1) }) }"

definition connection_gets :: "connection \<Rightarrow> char list \<Rightarrow> size_t \<Rightarrow> (status_t \<times> char list \<times> connection) option" where
  "connection_gets this dest destsize = (if destsize > 0 then do {
     (rc, i, dest, this) \<leftarrow> gets_loop destsize this dest 0;
     dest \<leftarrow> (if rc \<and> i < destsize then put_at dest i NUL else Some dest);
     Some (rc, dest, this) }
   else None)"

definition connection_write_big_buffer :: "connection \<Rightarrow> char list \<Rightarrow> nat \<Rightarrow> (status_t \<times> connection) option" where
  "connection_write_big_buffer this buf nretries = (if nretries > 0 then do {
     (rc, this) \<leftarrow> connection_flush this;
     if rc then do {
       (rc, w) \<leftarrow> socket_write (cn_fd this) nretries buf (cn_net this);
       Some (rc, this\<lparr>cn_net := w\<rparr>) }
     else Some (failure, this) }
   else None)"

subsection \<open>The two byte streams\<close>

text \<open>
  A connection in use. Nothing is ever read from the write buffer, so its data start at 0. What was written is what
  the peer got followed by what waits in the buffer; what can be read is what waits in the other buffer followed by
  what has arrived.
\<close>

definition conn_ok :: "connection \<Rightarrow> bool" where
  "conn_ok c \<longleftrightarrow> cn_fd c \<ge> 0 \<and> (\<exists>rb wb. readbuf c = Some rb \<and> writebuf c = Some wb \<and> mb_inv rb \<and> mb_inv wb \<and> nread wb = 0 \<and> 0 < mb_size rb)"

definition out_stream :: "connection \<Rightarrow> char list" where
  "out_stream c = sent (cn_net c) @ (case writebuf c of Some wb \<Rightarrow> content wb | None \<Rightarrow> [])"

definition in_stream :: "connection \<Rightarrow> char list" where
  "in_stream c = (case readbuf c of Some rb \<Rightarrow> content rb | None \<Rightarrow> []) @ incoming (cn_net c)"

text \<open>A network without failures: every call does what it is asked to.\<close>

definition quiet :: "connection \<Rightarrow> bool" where
  "quiet c \<longleftrightarrow> polls (cn_net c) = [] \<and> writes (cn_net c) = [] \<and> rds (cn_net c) = []"

text \<open>
  \<open>sends c bs r\<close>: the call returned; on success exactly \<open>bs\<close> was appended to the output; on a failure only a part of
  it can have left. The input side is as it was.
\<close>

definition sends :: "connection \<Rightarrow> char list \<Rightarrow> (status_t \<times> connection) option \<Rightarrow> bool" where
  "sends c bs r \<longleftrightarrow> (\<exists>ok c'. r = Some (ok, c') \<and> conn_ok c' \<and> in_stream c' = in_stream c \<and> persistent c' = persistent c \<and>
     (ok \<longrightarrow> out_stream c' = out_stream c @ bs) \<and> (\<exists>k. sent (cn_net c') = take k (out_stream c @ bs)) \<and> (quiet c \<longrightarrow> ok \<and> quiet c'))"

lemma sendsI:
  assumes "r = Some (ok, c')" "conn_ok c'" "in_stream c' = in_stream c" "persistent c' = persistent c" "ok \<Longrightarrow> out_stream c' = out_stream c @ bs"
    "sent (cn_net c') = take k (out_stream c @ bs)" "quiet c \<Longrightarrow> ok \<and> quiet c'"
  shows "sends c bs r"
  using assms unfolding sends_def by blast

lemma conn_okE:
  assumes "conn_ok c"
  obtains rb wb where "readbuf c = Some rb" "writebuf c = Some wb" "mb_inv rb" "mb_inv wb" "nread wb = 0" "cn_fd c \<ge> 0" "0 < mb_size rb"
  using assms by (auto simp: conn_ok_def)

lemma canread_content: "mb_inv mb \<Longrightarrow> membuf_canread mb = Some (length (content mb))"
  by (auto simp: membuf_canread_def mb_inv_def content_def)

lemma canwrite_room: "mb_inv mb \<Longrightarrow> membuf_canwrite mb = room mb"
  using PTRDIFF_SIZE by (auto simp: membuf_canwrite_def room_def mb_inv_def szsub_le)

lemma reset_inv: "mb_inv mb \<Longrightarrow> mb_inv (membuf_reset mb) \<and> content (membuf_reset mb) = [] \<and> room (membuf_reset mb) = mb_size mb \<and> nread (membuf_reset mb) = 0"
  by (auto simp: mb_inv_def membuf_reset_def content_def room_def)

lemma content_0: "mb_inv wb \<Longrightarrow> nread wb = 0 \<Longrightarrow> rd (membuf_data wb) 0 (length (content wb)) = Some (content wb)"
  by (auto simp: rd_def content_def membuf_data_def mb_inv_def)

lemma flush_spec:
  assumes "conn_ok c"
  shows "sends c [] (connection_flush c)"
    and "connection_flush c = Some (True, c') \<Longrightarrow> \<exists>wb. writebuf c' = Some wb \<and> content wb = [] \<and> nwritten wb = 0"
proof -
  obtain rb wb where b: "readbuf c = Some rb" "writebuf c = Some wb" "mb_inv rb" "mb_inv wb" "nread wb = 0" "cn_fd c \<ge> 0" "0 < mb_size rb"
    using assms by (rule conn_okE)
  obtain ok w k where w: "tcp_write (retries_writes c) (content wb) (cn_net c) = (ok, w)" "wrote (content wb) k (cn_net c) w" "ok \<longrightarrow> k = length (content wb)"
    using tcp_write_spec by blast
  have q: "quiet c \<Longrightarrow> ok \<and> w = (cn_net c)\<lparr>sent := sent (cn_net c) @ content wb\<rparr>"
    using w(1) tcp_write_quiet by (simp add: quiet_def)
  let ?c = "c\<lparr>cn_net := w\<rparr>"
  let ?d = "?c\<lparr>outgoing_bytes := szt (outgoing_bytes ?c + length (content wb)), writebuf := Some (membuf_reset wb)\<rparr>"
  have run: "connection_flush c = Some (if content wb = [] then (True, c) else (ok, if ok then ?d else ?c))"
    using b w(1) by (simp add: connection_flush_def canread_content content_0 socket_write_def Let_def)
  have ok: "conn_ok ?c" "conn_ok ?d" using assms b reset_inv [OF b(4)] by (auto simp: conn_ok_def)
  have str: "out_stream c = sent (cn_net c) @ content wb" "out_stream ?d = sent w" "in_stream ?c = in_stream c" "in_stream ?d = in_stream c"
    using b w(2) reset_inv [OF b(4)] by (auto simp: out_stream_def in_stream_def wrote_def)
  have sw: "sent w = sent (cn_net c) @ take k (content wb)" using w(2) by (simp add: wrote_def)
  show "sends c [] (connection_flush c)"
  proof (cases "content wb = []")
    case True
    then have "\<exists>k. sent (cn_net c) = take k (out_stream c @ [])" using str(1) by (intro exI [of _ "length (sent (cn_net c))"]) simp
    then show ?thesis using run True assms by (simp add: sends_def ex_bool_eq)
  next
    case False
    have "\<exists>j. sent w = take j (out_stream c @ [])" using str(1) sw by (intro exI [of _ "length (sent (cn_net c)) + k"]) simp
    then show ?thesis using run False ok str sw w(3) q by (cases ok) (auto simp: sends_def quiet_def)
  qed
  show "\<exists>wb. writebuf c' = Some wb \<and> content wb = [] \<and> nwritten wb = 0" if "connection_flush c = Some (True, c')"
  proof (cases "content wb = []")
    case True
    then show ?thesis using run that b by (auto simp: content_def mb_inv_def)
  next
    case False
    then show ?thesis using run that reset_inv [OF b(4)] by (auto simp: membuf_reset_def split: if_splits)
  qed
qed

lemma sends_bind:
  assumes "sends c xs r" "\<And>c'. r = Some (True, c') \<Longrightarrow> conn_ok c' \<Longrightarrow> sends c' ys (f c')"
  shows "sends c (xs @ ys) (r \<bind> (\<lambda>(ok, c). if ok then f c else Some (failure, c)))"
proof -
  obtain ok c1 k where r: "r = Some (ok, c1)" "conn_ok c1" "in_stream c1 = in_stream c" "persistent c1 = persistent c" "ok \<longrightarrow> out_stream c1 = out_stream c @ xs"
      "sent (cn_net c1) = take k (out_stream c @ xs)" "quiet c \<longrightarrow> ok \<and> quiet c1" using assms(1) by (auto simp: sends_def)
  show ?thesis
  proof (cases ok)
    case True
    then show ?thesis using r assms(2) [of c1] by (auto simp: sends_def)
  next
    case False
    have "sent (cn_net c1) = take (min k (length (out_stream c @ xs))) (out_stream c @ xs @ ys)" using r(6) by (auto simp: min_def)
    then show ?thesis using False r unfolding sends_def by (auto simp del: take_append)
  qed
qed


lemma sends_id: "conn_ok c \<Longrightarrow> sends c [] (Some (success, c))"
  unfolding sends_def out_stream_def by (intro exI [of _ True] exI [of _ c]) (auto intro: exI [of _ "length (sent (cn_net c))"])

lemma socket_sends:
  assumes "conn_ok c" "writebuf c = Some wb" "content wb = []"
  shows "sends c buf (write_to_socket c buf \<bind> (\<lambda>(ok, this). if \<not> ok then Some (failure, this)
    else Some (success, this\<lparr>outgoing_bytes := szt (outgoing_bytes this + n)\<rparr>)))"
proof -
  obtain rb where b: "readbuf c = Some rb" "mb_inv rb" "mb_inv wb" "nread wb = 0" "cn_fd c \<ge> 0" "0 < mb_size rb"
    using assms(1,2) by (auto elim: conn_okE)
  obtain ok w k where w: "tcp_write (retries_writes c) buf (cn_net c) = (ok, w)" "wrote buf k (cn_net c) w" "ok \<longrightarrow> k = length buf"
    using tcp_write_spec by blast
  have q: "quiet c \<Longrightarrow> ok \<and> w = (cn_net c)\<lparr>sent := sent (cn_net c) @ buf\<rparr>"
    using w(1) tcp_write_quiet by (simp add: quiet_def)
  have sw: "sent w = sent (cn_net c) @ take k buf" "incoming w = incoming (cn_net c)" using w(2) by (simp_all add: wrote_def)
  let ?c = "c\<lparr>cn_net := w\<rparr>"
  let ?d = "if ok then ?c\<lparr>outgoing_bytes := szt (outgoing_bytes c + n)\<rparr> else ?c"
  show ?thesis
  proof (rule sendsI)
    show "write_to_socket c buf \<bind> (\<lambda>(ok, this). if \<not> ok then Some (failure, this)
      else Some (success, this\<lparr>outgoing_bytes := szt (outgoing_bytes this + n)\<rparr>)) = Some (ok, ?d)"
      using b(5) w(1) by (cases ok) (simp_all add: write_to_socket_def socket_write_def)
    show "conn_ok ?d" using assms(1) by (auto simp: conn_ok_def)
    show "in_stream ?d = in_stream c" using sw by (simp add: in_stream_def)
    show "out_stream ?d = out_stream c @ buf" if ok using that sw w(3) assms by (simp add: out_stream_def)
    show "sent (cn_net ?d) = take (length (sent (cn_net c)) + k) (out_stream c @ buf)" using sw assms by (simp add: out_stream_def)
    show "ok \<and> quiet ?d" if "quiet c" using q [OF that] that by (simp add: quiet_def)
  qed simp
qed

lemma buffer_sends:
  assumes "conn_ok c" "writebuf c = Some wb" "length buf \<le> room wb"
  shows "sends c buf (membuf_write wb buf (length buf) \<bind> (\<lambda>(n, wb). Some (n = length buf, c\<lparr>writebuf := Some wb\<rparr>)))"
proof -
  obtain rb where b: "readbuf c = Some rb" "mb_inv rb" "mb_inv wb" "nread wb = 0" "cn_fd c \<ge> 0" "0 < mb_size rb"
    using assms(1,2) by (auto elim: conn_okE)
  obtain mb where m: "membuf_write wb buf (length buf) = Some (length buf, mb)" "mb_inv mb" "content mb = content wb @ buf" "nread mb = 0"
    using membuf_write_spec [OF b(3), of buf "length buf"] assms(3) b(4) by (auto simp: min_def)
  show ?thesis
  proof (rule sendsI)
    show "membuf_write wb buf (length buf) \<bind> (\<lambda>(n, wb). Some (n = length buf, c\<lparr>writebuf := Some wb\<rparr>)) = Some (True, c\<lparr>writebuf := Some mb\<rparr>)"
      using m(1) by simp
    show "conn_ok (c\<lparr>writebuf := Some mb\<rparr>)" using assms(1) m by (auto simp: conn_ok_def)
    show "sent (cn_net (c\<lparr>writebuf := Some mb\<rparr>)) = take (length (sent (cn_net c))) (out_stream c @ buf)" by (simp add: out_stream_def)
  qed (use m assms(2) in \<open>auto simp: out_stream_def in_stream_def quiet_def\<close>)
qed

lemma write_spec:
  assumes "conn_ok c"
  shows "sends c buf (connection_write c buf)"
proof -
  let ?after = "\<lambda>this. writebuf_has_room_for this (length buf) \<bind> (\<lambda>room.
       if room then do {
         wb \<leftarrow> writebuf this;
         (nwritten, wb) \<leftarrow> membuf_write wb buf (length buf);
         Some (nwritten = length buf, this\<lparr>writebuf := Some wb\<rparr>) }
       else do {
         (ok, this) \<leftarrow> write_to_socket this buf;
         if \<not> ok then Some (failure, this)
         else Some (success, this\<lparr>outgoing_bytes := szt (outgoing_bytes this + length buf)\<rparr>) })"
  have after: "sends d buf (?after d)" if "conn_ok d" "\<And>wb. writebuf d = Some wb \<Longrightarrow> content wb = [] \<or> length buf \<le> room wb" for d
  proof -
    note T = that
    obtain wb where wb: "writebuf d = Some wb" "mb_inv wb" using T(1) by (auto elim: conn_okE)
    then show ?thesis using that(2) [OF wb(1)] buffer_sends [OF that(1) wb(1)] socket_sends [OF that(1) wb(1), of buf "length buf"]
      by (cases "length buf \<le> room wb") (auto simp: writebuf_has_room_for_def canwrite_room)
  qed
  obtain wb where wb: "writebuf c = Some wb" "mb_inv wb" using assms by (auto elim: conn_okE)
  show ?thesis
  proof (cases "length buf \<le> room wb")
    case True
    then show ?thesis using after [OF assms] wb by (simp add: connection_write_def writebuf_has_room_for_def canwrite_room Let_def)
  next
    case False
    obtain ok c1 where f: "connection_flush c = Some (ok, c1)" using flush_spec(1) [OF assms] by (auto simp: sends_def)
    have run: "connection_write c buf = connection_flush c \<bind> (\<lambda>(ok, d). if ok then ?after d else Some (failure, d))"
      using False wb f by (simp add: connection_write_def writebuf_has_room_for_def canwrite_room Let_def cong: if_cong)
    have "sends d buf (?after d)" if "connection_flush c = Some (True, d)" "conn_ok d" for d
      by (rule after [OF that(2)]) (use flush_spec(2) [OF assms that(1)] in auto)
    from sends_bind [OF flush_spec(1) [OF assms] this] show ?thesis unfolding run by simp
  qed
qed


subsection \<open>Reading\<close>

text \<open>What reading leaves alone.\<close>

definition read_frame :: "connection \<Rightarrow> connection \<Rightarrow> bool" where
  "read_frame c c' \<longleftrightarrow> conn_ok c' \<and> out_stream c' = out_stream c \<and> sent (cn_net c') = sent (cn_net c) \<and> persistent c' = persistent c \<and> (quiet c \<longrightarrow> quiet c')"

lemma read_frame_trans: "read_frame c d \<Longrightarrow> read_frame d e \<Longrightarrow> read_frame c e"
  by (simp add: read_frame_def)

lemma read_frame_refl: "conn_ok c \<Longrightarrow> read_frame c c"
  by (simp add: read_frame_def)

lemma tcp_read_quiet:
  assumes "polls w = []" "rds w = []" "incoming w \<noteq> []" "0 < count"
  shows "tcp_read n count w = (Some (take count (incoming w)), w\<lparr>incoming := drop count (incoming w)\<rparr>)"
  using assms by (subst tcp_read.simps) (simp add: poll_ready sys_read_def)

lemma sys_read_frame: "sys_read count w = (r, w') \<Longrightarrow> writes w' = writes w \<and> (polls w = [] \<longrightarrow> polls w' = []) \<and> (rds w = [] \<longrightarrow> rds w' = [])"
  by (auto simp: sys_read_def split: list.splits read_res.splits)

lemma poll_frame: "socket_poll_for w = (r, w') \<Longrightarrow> writes w' = writes w \<and> (polls w = [] \<longrightarrow> polls w' = []) \<and> (rds w = [] \<longrightarrow> rds w' = [])"
  by (auto simp: socket_poll_for_def sys_poll_def split: list.splits poll_res.splits)

lemma tcp_read_frame: "tcp_read n count w = (r, w') \<Longrightarrow> writes w' = writes w \<and> (polls w = [] \<longrightarrow> polls w' = []) \<and> (rds w = [] \<longrightarrow> rds w' = [])"
proof (induction n arbitrary: w)
  case 0
  obtain p w1 where p: "socket_poll_for w = (p, w1)" by fastforce
  obtain s w2 where s: "sys_read count w1 = (s, w2)" by fastforce
  show ?case using 0 p s poll_frame [OF p] sys_read_frame [OF s]
    by (subst (asm) tcp_read.simps) (auto simp: Let_def split: bool.splits option.splits if_splits)
next
  case (Suc n)
  obtain p w1 where p: "socket_poll_for w = (p, w1)" by fastforce
  obtain s w2 where s: "sys_read count w1 = (s, w2)" by fastforce
  show ?case using Suc.prems p s poll_frame [OF p] sys_read_frame [OF s] Suc.IH [of w1] Suc.IH [of w2]
    by (subst (asm) tcp_read.simps) (auto simp: Let_def split: bool.splits option.splits if_splits)
qed

lemma fill_spec:
  assumes "conn_ok c" "readbuf c = Some rb" "content rb = []"
  shows "\<exists>ok c'. fill_read_buffer c = Some (ok, c') \<and> read_frame c c' \<and> in_stream c' = in_stream c \<and>
    (ok \<longrightarrow> (\<exists>rb'. readbuf c' = Some rb' \<and> content rb' \<noteq> [])) \<and> (quiet c \<and> in_stream c \<noteq> [] \<longrightarrow> ok) \<and>
    (\<not> ok \<longrightarrow> (\<exists>rb'. readbuf c' = Some rb' \<and> content rb' = []))"
proof -
  obtain wb where b: "writebuf c = Some wb" "mb_inv rb" "mb_inv wb" "nread wb = 0" "cn_fd c \<ge> 0" "0 < mb_size rb"
    using assms(1,2) by (auto elim: conn_okE)
  let ?r = "membuf_reset rb"
  have rs: "mb_inv ?r" "content ?r = []" "nwritten ?r = 0" "nread ?r = 0" "mb_size ?r = mb_size rb" "mb_data ?r = mb_data rb"
    using reset_inv [OF b(2)] by (simp_all add: membuf_reset_def)
  obtain r w where r: "tcp_read (retries_reads c) (mb_size rb) (cn_net c) = (r, w)" "got (mb_size rb) r (cn_net c) w" using tcp_read_spec by blast
  have fr: "writes w = writes (cn_net c)" "polls (cn_net c) = [] \<longrightarrow> polls w = []" "rds (cn_net c) = [] \<longrightarrow> rds w = []"
    using tcp_read_frame [OF r(1)] by simp_all
  have q: "r \<noteq> None" if "quiet c" "in_stream c \<noteq> []"
    using tcp_read_quiet [of "cn_net c" "mb_size rb" "retries_reads c"] that r(1) b(6) assms(2,3) by (auto simp: quiet_def in_stream_def)
  have i: "in_stream c = incoming (cn_net c)" using assms(2,3) by (simp add: in_stream_def)
  show ?thesis
  proof (cases r)
    case None
    let ?c = "c\<lparr>readbuf := Some ?r, cn_net := w\<rparr>"
    have "fill_read_buffer c = Some (False, ?c)"
      using assms b r(1) rs None by (simp add: fill_read_buffer_def canread_content socket_read_def membuf_size_def)
    moreover have "read_frame c ?c" using b r(2) None rs fr by (auto simp: read_frame_def conn_ok_def out_stream_def got_def quiet_def)
    moreover have "in_stream ?c = in_stream c" using i rs r(2) None by (simp add: in_stream_def got_def)
    ultimately show ?thesis using q None rs(2) by (intro exI [of _ False] exI [of _ ?c]) auto
  next
    case (Some bs)
    then have bs: "bs \<noteq> []" "length bs \<le> mb_size rb" "incoming (cn_net c) = bs @ incoming w" "sent w = sent (cn_net c)" using r(2) by (simp_all add: got_def)
    have l: "length (mb_data rb) = mb_size rb" using b(2) by (simp add: mb_inv_def)
    let ?d = "bs @ drop (length bs) (mb_data rb)"
    let ?m = "?r\<lparr>mb_data := ?d, nwritten := length bs\<rparr>"
    let ?c = "c\<lparr>readbuf := Some ?m, cn_net := w, incoming_bytes := szt (incoming_bytes c + length bs)\<rparr>"
    have "wr (mb_data rb) 0 bs = Some ?d" using bs(2) l by (simp add: wr_def)
    then have "fill_read_buffer c = Some (True, ?c)"
      using assms b r(1) rs Some by (simp add: fill_read_buffer_def canread_content socket_read_def membuf_size_def membuf_set_written_def)
    moreover have m: "mb_inv ?m" "content ?m = bs" using rs bs l by (auto simp: mb_inv_def content_def)
    moreover have "read_frame c ?c" using b bs m fr rs by (auto simp: read_frame_def conn_ok_def out_stream_def quiet_def)
    moreover have "in_stream ?c = in_stream c" using i bs m by (simp add: in_stream_def)
    ultimately show ?thesis using bs(1) by (intro exI [of _ True] exI [of _ ?c]) auto
  qed
qed

lemma copy_spec:
  assumes "conn_ok c" "0 < count" "readbuf c = Some rb"
  shows "\<exists>c' rb'. copy_from_readbuf c count = Some (take count (content rb), c') \<and> read_frame c c' \<and>
    readbuf c' = Some rb' \<and> content rb' = drop count (content rb) \<and> mb_size rb' = mb_size rb \<and> cn_net c' = cn_net c"
proof -
  obtain wb where b: "writebuf c = Some wb" "mb_inv rb" "mb_inv wb" "nread wb = 0" "cn_fd c \<ge> 0" "0 < mb_size rb"
    using assms(1,3) by (auto elim: conn_okE)
  obtain rb' where r: "membuf_read rb count = Some (min count (length (content rb)), take count (content rb), rb')" "mb_inv rb'"
      "content rb' = drop count (content rb)" "mb_size rb' = mb_size rb" using membuf_read_spec [OF b(2) assms(2)] by blast
  then show ?thesis using b assms(3)
    by (auto simp: copy_from_readbuf_def read_frame_def conn_ok_def out_stream_def quiet_def)
qed

lemma getc_spec:
  assumes "conn_ok c"
  shows "\<exists>r c'. connection_getc c = Some (r, c') \<and> read_frame c c' \<and>
    in_stream c = (case r of None \<Rightarrow> [] | Some x \<Rightarrow> [x]) @ in_stream c' \<and> (quiet c \<and> in_stream c \<noteq> [] \<longrightarrow> r \<noteq> None)"
proof -
  obtain rb where rb: "readbuf c = Some rb" "mb_inv rb" using assms by (auto elim: conn_okE)
  have get: "\<exists>x c'. copy_from_readbuf d 1 = Some ([x], c') \<and> read_frame d c' \<and> in_stream d = x # in_stream c'"
    if "conn_ok d" "readbuf d = Some mb" "content mb \<noteq> []" for d mb
    using copy_spec [OF that(1), of 1 mb] that(2,3) by (cases "content mb") (auto simp: in_stream_def)
  show ?thesis
  proof (cases "content rb = []")
    case False
    obtain x c' where "copy_from_readbuf c 1 = Some ([x], c')" "read_frame c c'" "in_stream c = x # in_stream c'"
      using get [OF assms rb(1) False] by blast
    then show ?thesis using False rb
      by (intro exI [of _ "Some x"] exI [of _ c']) (simp add: connection_getc_def readbuf_empty_def readbuf_contains_data_def canread_content)
  next
    case True
    obtain ok c1 where f: "fill_read_buffer c = Some (ok, c1)" "read_frame c c1" "in_stream c1 = in_stream c"
      "ok \<longrightarrow> (\<exists>rb'. readbuf c1 = Some rb' \<and> content rb' \<noteq> [])" "quiet c \<and> in_stream c \<noteq> [] \<longrightarrow> ok"
      using fill_spec [OF assms rb(1) True] by blast
    have e: "readbuf_empty c = Some True" using rb True by (simp add: readbuf_empty_def readbuf_contains_data_def canread_content)
    show ?thesis
    proof (cases ok)
      case True
      then obtain mb where mb: "readbuf c1 = Some mb" "content mb \<noteq> []" using f(4) by blast
      have "conn_ok c1" using f(2) by (simp add: read_frame_def)
      then obtain x c' where x: "copy_from_readbuf c1 1 = Some ([x], c')" "read_frame c1 c'" "in_stream c1 = x # in_stream c'"
        using get [OF _ mb] by blast
      then show ?thesis using e f True read_frame_trans [OF f(2) x(2)]
        by (intro exI [of _ "Some x"] exI [of _ c']) (simp add: connection_getc_def)
    next
      case False
      then show ?thesis using e f by (intro exI [of _ None] exI [of _ c1]) (simp add: connection_getc_def)
    qed
  qed
qed


text \<open>\<open>lost\<close>: the bytes taken out of the buffer before a read that then fails.\<close>

lemma read_spec:
  assumes "conn_ok c" "0 < count"
  shows "\<exists>r c' lost. connection_read c count = Some (r, c') \<and> read_frame c c' \<and>
    in_stream c = (case r of None \<Rightarrow> lost | Some bs \<Rightarrow> bs) @ in_stream c' \<and> (\<forall>bs. r = Some bs \<longrightarrow> bs \<noteq> [] \<and> length bs \<le> count)"
proof -
  obtain rb where rb: "readbuf c = Some rb" "mb_inv rb" using assms by (auto elim: conn_okE)
  define bs0 where "bs0 = take count (content rb)"
  obtain c1 rb1 where c1: "copy_from_readbuf c count = Some (bs0, c1)" "read_frame c c1" "readbuf c1 = Some rb1"
      "content rb1 = drop count (content rb)" "mb_size rb1 = mb_size rb" "cn_net c1 = cn_net c" using copy_spec [OF assms rb(1)] unfolding bs0_def by blast
  have i: "in_stream c = bs0 @ in_stream c1" using rb(1) c1 by (simp add: in_stream_def bs0_def)
  show ?thesis
  proof (cases "length bs0 = count")
    case True
    then have "connection_read c count = Some (Some bs0, c1)" using c1(1) by (simp add: connection_read_def)
    then show ?thesis using i c1(2) True assms(2) by (intro exI [of _ "Some bs0"] exI [of _ c1]) auto
  next
    case False
    then have e: "content rb1 = []" "length bs0 < count" using c1(4) by (auto simp: bs0_def min_def split: if_splits)
    let ?n = "count - length bs0"
    have ok1: "conn_ok c1" "mb_inv rb1" using c1(2,3) by (auto simp: read_frame_def conn_ok_def)
    have run: "connection_read c count = (if membuf_size rb1 < ?n
        then read_from_socket c1 ?n \<bind> (\<lambda>(r, this). Some (map_option ((@) bs0) r, this))
        else fill_read_buffer c1 \<bind> (\<lambda>(ok, this). if \<not> ok then Some (None, this)
          else copy_from_readbuf this ?n \<bind> (\<lambda>(bs2, this). Some (Some (bs0 @ bs2), this))))"
      using c1(1,3) False by (simp add: connection_read_def Let_def cong: if_cong)
    show ?thesis
    proof (cases "membuf_size rb1 < ?n")
      case True
      obtain r w where r: "tcp_read (retries_reads c1) ?n (cn_net c1) = (r, w)" "got ?n r (cn_net c1) w" using tcp_read_spec by blast
      let ?c = "case r of None \<Rightarrow> c1\<lparr>cn_net := w\<rparr> | Some bs \<Rightarrow> c1\<lparr>cn_net := w, incoming_bytes := szt (incoming_bytes c1 + length bs)\<rparr>"
      have "read_from_socket c1 ?n = Some (r, ?c)"
        using c1(3) e(1) ok1 r(1) by (auto simp: read_from_socket_def readbuf_empty_def readbuf_contains_data_def canread_content socket_read_def conn_ok_def split: option.splits)
      then have "connection_read c count = Some (map_option ((@) bs0) r, ?c)" using run True by simp
      moreover have "read_frame c1 ?c" using ok1 r(2) tcp_read_frame [OF r(1)]
        by (auto simp: read_frame_def conn_ok_def out_stream_def got_def quiet_def split: option.splits)
      moreover have "in_stream c1 = (case r of None \<Rightarrow> [] | Some bs \<Rightarrow> bs) @ in_stream ?c"
        using r(2) c1(3) e(1) by (auto simp: in_stream_def got_def split: option.splits)
      moreover have "\<forall>bs. r = Some bs \<longrightarrow> bs \<noteq> [] \<and> length bs \<le> ?n" using r(2) by (auto simp: got_def)
      ultimately show ?thesis using i e(2) read_frame_trans [OF c1(2)]
        by (intro exI [of _ "map_option ((@) bs0) r"] exI [of _ ?c] exI [of _ bs0]) (auto split: option.splits)
    next
      case False
      obtain ok c2 where f: "fill_read_buffer c1 = Some (ok, c2)" "read_frame c1 c2" "in_stream c2 = in_stream c1"
          "ok \<longrightarrow> (\<exists>rb'. readbuf c2 = Some rb' \<and> content rb' \<noteq> [])" using fill_spec [OF ok1(1) c1(3) e(1)] by blast
      show ?thesis
      proof (cases ok)
        case True
        then obtain rb2 where rb2: "readbuf c2 = Some rb2" "content rb2 \<noteq> []" using f(4) by blast
        have "conn_ok c2" "0 < ?n" using f(2) e(2) by (simp_all add: read_frame_def)
        from copy_spec [OF this rb2(1)] obtain c3 rb3 where c3: "copy_from_readbuf c2 ?n = Some (take ?n (content rb2), c3)" "read_frame c2 c3"
            "readbuf c3 = Some rb3" "content rb3 = drop ?n (content rb2)" "cn_net c3 = cn_net c2" by blast
        have "in_stream c2 = take ?n (content rb2) @ in_stream c3" using rb2 c3 by (simp add: in_stream_def)
        moreover have "connection_read c count = Some (Some (bs0 @ take ?n (content rb2)), c3)" using run False f(1) True c3(1) by simp
        moreover have "read_frame c c3" using c1(2) f(2) c3(2) read_frame_trans by blast
        moreover have "take ?n (content rb2) \<noteq> []" using rb2(2) e(2) by simp
        ultimately show ?thesis using i f(3) e(2)
          by (intro exI [of _ "Some (bs0 @ take ?n (content rb2))"] exI [of _ c3]) auto
      next
        case False': False
        then have "connection_read c count = Some (None, c2)" using run False f(1) by simp
        then show ?thesis using i f(3) read_frame_trans [OF c1(2) f(2)]
          by (intro exI [of _ None] exI [of _ c2] exI [of _ bs0]) simp
      qed
    qed
  qed
qed

subsection \<open>Numbers on the wire\<close>

lemma bytes_of_Suc: "bytes_of (Suc k) n = bytes_of k (n div 256) @ [char_of n]"
proof -
  have "n div 256 ^ (k - i) = n div 256 div 256 ^ (k - 1 - i)" if "i < k" for i
  proof -
    have "k - i = Suc (k - 1 - i)" using that by simp
    then show ?thesis by (simp add: div_mult2_eq)
  qed
  then show ?thesis by (simp add: bytes_of_def)
qed

lemma of_bytes_bytes_of: "of_bytes (bytes_of k n) = n mod 256 ^ k"
proof (induction k arbitrary: n)
  case 0
  then show ?case by (simp add: bytes_of_def of_bytes_def)
next
  case (Suc k)
  have "of_bytes (bytes_of (Suc k) n) = (n div 256) mod 256 ^ k * 256 + n mod 256"
    using Suc [of "n div 256"] by (simp add: bytes_of_Suc of_bytes_def)
  also have "\<dots> = n mod 256 ^ Suc k" using mod_mult2_eq [of n 256 "256 ^ k"] by simp
  finally show ?case .
qed

lemma length_bytes_of [simp]: "length (bytes_of k n) = k"
  by (simp add: bytes_of_def)

subsection \<open>Properties\<close>

text \<open>Writing a list of blocks, stopping at the first failure, and flushing at the end.\<close>

fun write_all :: "char list list \<Rightarrow> connection \<Rightarrow> (status_t \<times> connection) option" where
  "write_all [] c = connection_flush c"
| "write_all (bs # bss) c = connection_write c bs \<bind> (\<lambda>(ok, c). if ok then write_all bss c else Some (failure, c))"

lemma write_all_sends: "conn_ok c \<Longrightarrow> sends c (concat bss) (write_all bss c)"
proof (induction bss arbitrary: c)
  case (Cons bs bss)
  from sends_bind [OF write_spec [OF Cons.prems] Cons.IH] show ?case by simp
qed (simp add: flush_spec(1))

lemma write_all_flushed: "conn_ok c \<Longrightarrow> write_all bss c = Some (True, c') \<Longrightarrow> sent (cn_net c') = out_stream c'"
proof (induction bss arbitrary: c)
  case Nil
  then show ?case using flush_spec(2) [OF Nil.prems(1)] by (auto simp: out_stream_def)
next
  case (Cons bs bss)
  obtain ok c1 where w: "connection_write c bs = Some (ok, c1)" "conn_ok c1" using write_spec [OF Cons.prems(1), of bs] by (auto simp: sends_def)
  then show ?case using Cons.IH [OF w(2)] Cons.prems(2) by (cases ok) auto
qed


definition sample_conn :: "char list \<Rightarrow> connection" where
  "sample_conn inp = \<lparr>persistent = False, cn_fd = 3, retries_reads = 1, retries_writes = 1,
     readbuf = Some \<lparr>mb_size = 4, nwritten = 0, nread = 0, mb_data = ''????''\<rparr>,
     writebuf = Some \<lparr>mb_size = 4, nwritten = 0, nread = 0, mb_data = ''????''\<rparr>, incoming_bytes = 0, outgoing_bytes = 0,
     cn_net = \<lparr>net_errno = E0, polls = [], writes = [], rds = [], incoming = inp, sent = []\<rparr>\<rparr>"

lemma sample_conn_ok: "conn_ok (sample_conn inp)" "quiet (sample_conn inp)" "in_stream (sample_conn inp) = inp" "out_stream (sample_conn inp) = []"
  by (simp_all add: sample_conn_def conn_ok_def mb_inv_def PTRDIFF_MAX_def quiet_def in_stream_def out_stream_def content_def)




text \<open>
  Numbers on the wire: \<open>connection_write_u16\<close>, \<open>u32\<close> and \<open>u64\<close> send the bytes of the number, most significant byte
  first, and a peer that gets those bytes in its buffer reads the same number.
\<close>

theorem wire_numbers:
  assumes "conn_ok c" "readbuf c = Some rb"
  shows "(content rb = bytes_of 2 (unat x) @ rest \<longrightarrow> (\<exists>c'. connection_read_u16 c = Some (Some (unat (x :: 16 word)), c') \<and> in_stream c = bytes_of 2 (unat x) @ in_stream c')) \<and>
    (content rb = bytes_of 4 (unat y) @ rest \<longrightarrow> (\<exists>c'. connection_read_u32 c = Some (Some (unat (y :: 32 word)), c') \<and> in_stream c = bytes_of 4 (unat y) @ in_stream c')) \<and>
    (content rb = bytes_of 8 (unat z) @ rest \<longrightarrow> (\<exists>c'. connection_read_u64 c = Some (Some (unat (z :: 64 word)), c') \<and> in_stream c = bytes_of 8 (unat z) @ in_stream c')) \<and>
    sends c (bytes_of 2 (unat x)) (connection_write_u16 c x) \<and> sends c (bytes_of 4 (unat y)) (connection_write_u32 c y) \<and>
    sends c (bytes_of 8 (unat z)) (connection_write_u64 c z)"
proof -
  have "\<exists>c'. read_uint k c = Some (Some n, c') \<and> in_stream c = bytes_of k n @ in_stream c'"
    if "content rb = bytes_of k n @ rest" "n < 256 ^ k" "0 < k" for k n
  proof -
    note T = that
    obtain c' rb' where c': "copy_from_readbuf c k = Some (bytes_of k n, c')" "readbuf c' = Some rb'" "content rb' = rest" "cn_net c' = cn_net c"
      using copy_spec [OF assms(1) T(3) assms(2)] T(1) by auto
    then show ?thesis using T assms(2) by (simp add: read_uint_def connection_read_def of_bytes_bytes_of in_stream_def)
  qed
  moreover have "unat x < 256 ^ 2" "unat y < 256 ^ 4" "unat z < 256 ^ 8" using unsigned_less [of x, where ?'a = nat] unsigned_less [of y, where ?'a = nat] unsigned_less [of z, where ?'a = nat] by simp_all
  ultimately show ?thesis
    by (simp add: connection_read_u16_def connection_read_u32_def connection_read_u64_def
        connection_write_u16_def connection_write_u32_def connection_write_u64_def write_spec [OF assms(1)])
qed


theorem wire_numbers_witness:
  "\<exists>c'. connection_read_u16 ((sample_conn [])\<lparr>readbuf := Some \<lparr>mb_size = 4, nwritten = 3, nread = 0, mb_data = [CHR 0x01, CHR 0x02, CHR ''x'', NUL]\<rparr>\<rparr>) =
     Some (Some (unat (258 :: 16 word)), c')"
proof -
  let ?rb = "\<lparr>mb_size = 4, nwritten = 3, nread = 0, mb_data = [CHR 0x01, CHR 0x02, CHR ''x'', NUL]\<rparr>"
  let ?c = "(sample_conn [])\<lparr>readbuf := Some ?rb\<rparr>"
  have ok: "conn_ok ?c" by (simp add: sample_conn_def conn_ok_def mb_inv_def PTRDIFF_MAX_def)
  have "bytes_of 2 258 = [CHR 0x01, CHR 0x02]" by code_simp
  moreover have "unat (258 :: 16 word) = 258" by simp
  ultimately have "content ?rb = bytes_of 2 (unat (258 :: 16 word)) @ ''x''" by (simp add: content_def)
  moreover have "readbuf ?c = Some ?rb" by simp
  ultimately show ?thesis using wire_numbers [OF ok, of ?rb 258 "''x''"] by blast
qed

end
