(* ===== verification/Http_Internals.thy ===== *)
theory Http_Internals
  imports Connection MetaMisc Parse_Time
begin

section \<open>Lines, fields and errors\<close>

text \<open>
  The error objects of \<open>src/meta/src/meta_error.c\<close>, the reading of a line (\<open>src/http/src/http.c\<close>), and the reading and
  sending of single header fields (\<open>src/http/src/internals.c\<close>).
\<close>

subsection \<open>Errors\<close>

datatype error_group = meg_unknown | meg_tcpip | meg_protocol | meg_app | meg_os | meg_db | meg_other

record error =
  err_group :: error_group
  err_code :: int
  err_message :: "char list"

definition errno_num :: "errno_t \<Rightarrow> int" where
  "errno_num e = (case e of E0 \<Rightarrow> 0 | EPERM \<Rightarrow> 1 | ENOENT \<Rightarrow> 2 | EIO \<Rightarrow> 5 | E2BIG \<Rightarrow> 7 | EAGAIN \<Rightarrow> 11 | ENOMEM \<Rightarrow> 12 |
     EINVAL \<Rightarrow> 22 | ENOSPC \<Rightarrow> 28 | EPIPE \<Rightarrow> 32 | ERANGE \<Rightarrow> 34 | EDEADLK \<Rightarrow> 35)"

definition error_new :: error where
  "error_new = \<lparr>err_group = meg_unknown, err_code = 0, err_message = replicate 1025 NUL\<rparr>"

definition set_tcpip_error :: "error \<Rightarrow> int \<Rightarrow> error" where
  "set_tcpip_error e val = e\<lparr>err_group := meg_tcpip, err_code := val\<rparr>"
definition set_http_error :: "error \<Rightarrow> int \<Rightarrow> error" where
  "set_http_error e val = e\<lparr>err_group := meg_protocol, err_code := val\<rparr>"
definition set_app_error :: "error \<Rightarrow> int \<Rightarrow> error" where
  "set_app_error e val = e\<lparr>err_group := meg_app, err_code := val\<rparr>"
definition set_os_error :: "error \<Rightarrow> int \<Rightarrow> error" where
  "set_os_error e val = e\<lparr>err_group := meg_os, err_code := val\<rparr>"
definition set_db_error :: "error \<Rightarrow> int \<Rightarrow> error" where
  "set_db_error e val = e\<lparr>err_group := meg_db, err_code := val\<rparr>"
definition set_other_error :: "error \<Rightarrow> int \<Rightarrow> error" where
  "set_other_error e val = e\<lparr>err_group := meg_other, err_code := val\<rparr>"

definition is_tcpip_error where "is_tcpip_error e \<longleftrightarrow> err_group e = meg_tcpip"
definition is_protocol_error where "is_protocol_error e \<longleftrightarrow> err_group e = meg_protocol"
definition is_app_error where "is_app_error e \<longleftrightarrow> err_group e = meg_app"
definition is_os_error where "is_os_error e \<longleftrightarrow> err_group e = meg_os"
definition is_db_error where "is_db_error e \<longleftrightarrow> err_group e = meg_db"
definition is_other_error where "is_other_error e \<longleftrightarrow> err_group e = meg_other"
definition get_error_code where "get_error_code e = err_code e"

definition set_error_message :: "error \<Rightarrow> string \<Rightarrow> error option" where
  "set_error_message e msg = do {
     m \<leftarrow> strncpy (err_message e) msg 1025;
     m \<leftarrow> put_at m 1024 NUL;
     Some (e\<lparr>err_message := m\<rparr>) }"

definition has_error_message :: "error \<Rightarrow> bool option" where
  "has_error_message e = do { m \<leftarrow> cstr_at (err_message e) 0; Some (length m > 0) }"

definition get_error_message :: "error \<Rightarrow> string option" where
  "get_error_message e = cstr_at (err_message e) 0"

subsection \<open>Lines and fields\<close>

fun read_line_loop :: "nat \<Rightarrow> connection \<Rightarrow> char list \<Rightarrow> nat \<Rightarrow> error \<Rightarrow> (status_t \<times> char list \<times> connection \<times> error) option" where
  "read_line_loop 0 conn dest i e = Some (failure, dest, conn, set_app_error e (errno_num ENOSPC))"
| "read_line_loop (Suc n) conn dest i e = do {
     (r, conn) \<leftarrow> connection_getc conn;
     (case r of
        None \<Rightarrow> Some (failure, dest, conn, set_tcpip_error e (errno_num (net_errno (cn_net conn))))
      | Some c \<Rightarrow>
          if c = CHR 0x0D then do {
            dest \<leftarrow> put_at dest i NUL;
            (r, conn) \<leftarrow> connection_getc conn;
            (case r of
               None \<Rightarrow> Some (failure, dest, conn, set_tcpip_error e (errno_num (net_errno (cn_net conn))))
             | Some c \<Rightarrow> if c \<noteq> CHR 0x0A then Some (failure, dest, conn, set_http_error e 400) else Some (success, dest, conn, e)) }
          else do { dest \<leftarrow> put_at dest i c; read_line_loop n conn dest (i + 1) e }) }"

definition read_line :: "connection \<Rightarrow> char list \<Rightarrow> size_t \<Rightarrow> error \<Rightarrow> (status_t \<times> char list \<times> connection \<times> error) option" where
  "read_line conn dest destsize e = read_line_loop destsize conn dest 0 e"

definition get_field_name :: "string \<Rightarrow> char list \<Rightarrow> size_t \<Rightarrow> (status_t \<times> char list) option" where
  "get_field_name src dest destsize = (if destsize > 0 then
     (case strchr src (CHR '':'') of
        None \<Rightarrow> Some (failure, dest)
      | Some span \<Rightarrow>
          if span + 1 \<ge> destsize then Some (failure, dest)
          else do { dest \<leftarrow> wr dest 0 (take span src); dest \<leftarrow> put_at dest span NUL; Some (success, dest) })
   else None)"

definition get_field_value :: "string \<Rightarrow> char list \<Rightarrow> size_t \<Rightarrow> (status_t \<times> char list) option" where
  "get_field_value src dest destsize = (if destsize > 0 then
     (case strchr src (CHR '':'') of
        None \<Rightarrow> Some (failure, dest)
      | Some i \<Rightarrow> (let s = dropWhile isspace (drop (i + 1) src) in
          if length s \<ge> destsize then Some (failure, dest)
          else do { dest \<leftarrow> wr dest 0 (s @ [NUL]); Some (success, dest) }))
   else None)"

subsection \<open>Sending\<close>

text \<open>
  \<open>gmtime_r\<close> and \<open>strftime\<close> with the format of the code. The calendar is computed from the number of days since
  1 March of the year 0, in cycles of 400 years.
\<close>

definition civil :: "int \<Rightarrow> int \<times> int \<times> int" where
  "civil days = (
     let z = days + 719468; era = z div 146097; doe = z mod 146097;
         yoe = (doe - doe div 1460 + doe div 36524 - doe div 146096) div 365;
         doy = doe - (365 * yoe + yoe div 4 - yoe div 100);
         mp = (5 * doy + 2) div 153; d = doy - (153 * mp + 2) div 5 + 1;
         m = (if mp < 10 then mp + 3 else mp - 9) in
     (yoe + era * 400 + (if m \<le> 2 then 1 else 0), m, d))"

definition http_date :: "int \<Rightarrow> string" where
  "http_date t = (
     let days = t div 86400; s = nat (t mod 86400); (y, m, d) = civil days in
     wkday ! nat ((days + 4) mod 7) @ '', '' @ two (nat d) @ '' '' @ month ! nat (m - 1) @ '' '' @ int_str y @ '' '' @
     two (s div 3600) @ '':'' @ two (s mod 3600 div 60) @ '':'' @ two (s mod 60) @ '' GMT'' @ [CHR 0x0D, CHR 0x0A])"

definition crlf :: string where "crlf = [CHR 0x0D, CHR 0x0A]"

text \<open>A cstring as the bytes \<open>connection_write\<close> gets: \<open>cstring_length\<close> bytes from \<open>c_str\<close>.\<close>

definition cs_bytes :: "cstring \<Rightarrow> char list option" where
  "cs_bytes s = rd (cs_data s) 0 (cs_len s)"

definition http_send_date :: "connection \<Rightarrow> string \<Rightarrow> int \<Rightarrow> (status_t \<times> connection) option" where
  "http_send_date conn name val = do {
     (ok, conn) \<leftarrow> connection_write conn name;
     if ok then connection_write conn (http_date val) else Some (failure, conn) }"

definition http_send_string :: "connection \<Rightarrow> string \<Rightarrow> (status_t \<times> connection) option" where
  "http_send_string conn s = connection_write conn s"

text \<open>\<open>snprintf\<close> into an array of 1000 bytes: a text that does not fit is a failure.\<close>

definition send_printf :: "connection \<Rightarrow> string \<Rightarrow> (status_t \<times> connection) option" where
  "send_printf conn out = (if length out \<ge> 1000 then Some (failure, conn) else connection_write conn out)"

definition http_send_ulong :: "connection \<Rightarrow> string \<Rightarrow> 64 word \<Rightarrow> (status_t \<times> connection) option" where
  "http_send_ulong conn name val = send_printf conn (name @ int_str (uint val))"

definition http_send_int :: "connection \<Rightarrow> string \<Rightarrow> int \<Rightarrow> (status_t \<times> connection) option" where
  "http_send_int conn name val = send_printf conn (name @ int_str val)"

definition http_send_unsigned_int :: "connection \<Rightarrow> string \<Rightarrow> 32 word \<Rightarrow> (status_t \<times> connection) option" where
  "http_send_unsigned_int conn name val = send_printf conn (name @ int_str (uint val))"

definition http_send_field :: "connection \<Rightarrow> string \<Rightarrow> cstring \<Rightarrow> (status_t \<times> connection) option" where
  "http_send_field conn name s = do {
     (ok, conn) \<leftarrow> connection_write conn name;
     if ok then do {
       bs \<leftarrow> cs_bytes s;
       (ok, conn) \<leftarrow> connection_write conn bs;
       if ok then connection_write conn crlf else Some (failure, conn) }
     else Some (failure, conn) }"

lemma send_field_sends:
  assumes "conn_ok c" "cs_rep s t"
  shows "sends c (name @ t @ crlf) (http_send_field c name s)"
proof -
  have b: "cs_bytes s = Some t" using cs_rep_data [OF assms(2)] cs_rep_length [OF assms(2)] assms(2)
    by (metis append_eq_conv_conj cs_bytes_def drop0 le_add1 length_append plus_nat.add_0 rd_def)
  have in1: "sends d (t @ crlf) (connection_write d t \<bind> (\<lambda>(ok, c). if ok then connection_write c crlf else Some (failure, c)))" if "conn_ok d" for d
    using sends_bind [OF write_spec [OF that, of t] write_spec] by blast
  from sends_bind [OF write_spec [OF assms(1), of name] in1] show ?thesis unfolding http_send_field_def b bind.bind_lunit .
qed

lemma send_date_sends: "conn_ok c \<Longrightarrow> sends c (name @ http_date v) (http_send_date c name v)"
  unfolding http_send_date_def by (rule sends_bind) (rule write_spec, assumption)+

lemma send_string_sends: "conn_ok c \<Longrightarrow> sends c s (http_send_string c s)"
  unfolding http_send_string_def by (rule write_spec)

lemma read_line_loop_spec:
  assumes "conn_ok c" "i + n \<le> length dest"
  shows "\<exists>ok dest' c' e'. read_line_loop n c dest i e = Some (ok, dest', c', e') \<and> length dest' = length dest \<and> read_frame c c' \<and>
    (ok \<longrightarrow> (\<exists>ln. length ln < n \<and> CHR 0x0D \<notin> set ln \<and> in_stream c = ln @ crlf @ in_stream c' \<and> e' = e \<and>
       take i dest' = take i dest \<and> take (length ln + 1) (drop i dest') = ln @ [NUL])) \<and>
    (quiet c \<and> (\<exists>ln rest. in_stream c = ln @ crlf @ rest \<and> CHR 0x0D \<notin> set ln \<and> length ln < n) \<longrightarrow> ok)"
  using assms
proof (induction n arbitrary: c dest i)
  case 0
  then show ?case by (auto simp: read_frame_refl)
next
  case (Suc n)
  obtain r c1 where g: "connection_getc c = Some (r, c1)" "read_frame c c1" "in_stream c = (case r of None \<Rightarrow> [] | Some x \<Rightarrow> [x]) @ in_stream c1"
      "quiet c \<and> in_stream c \<noteq> [] \<longrightarrow> r \<noteq> None" using getc_spec [OF Suc.prems(1)] by blast
  have ok1: "conn_ok c1" using g(2) by (simp add: read_frame_def)
  show ?case
  proof (cases r)
    case None
    let ?e = "set_tcpip_error e (errno_num (net_errno (cn_net c1)))"
    have "read_line_loop (Suc n) c dest i e = Some (False, dest, c1, ?e)" using g(1) None by simp
    moreover have "\<not> (quiet c \<and> in_stream c = ln @ crlf @ rest)" for ln rest using g(4) None by (auto simp: crlf_def)
    ultimately show ?thesis using g(2) by (intro exI [of _ False] exI [of _ dest] exI [of _ c1] exI [of _ ?e]) simp
  next
    case (Some x)
    have p: "put_at dest i y = Some (dest[i := y])" for y using Suc.prems(2) by (simp add: put_at_def)
    show ?thesis
    proof (cases "x = CHR 0x0D")
      case True
      obtain r2 c2 where g2: "connection_getc c1 = Some (r2, c2)" "read_frame c1 c2" "in_stream c1 = (case r2 of None \<Rightarrow> [] | Some x \<Rightarrow> [x]) @ in_stream c2"
        "quiet c1 \<and> in_stream c1 \<noteq> [] \<longrightarrow> r2 \<noteq> None" using getc_spec [OF ok1] by blast
      have fr: "read_frame c c2" using read_frame_trans [OF g(2) g2(2)] .
      have q: "quiet c \<Longrightarrow> quiet c1" using g(2) by (simp add: read_frame_def)
      have ln: "ln = []" if "in_stream c = ln @ crlf @ rest" "CHR 0x0D \<notin> set ln" for ln rest
        using that g(3) Some True by (cases ln) auto
      show ?thesis
      proof (cases "r2 = Some (CHR 0x0A)")
        case True': True
        have "read_line_loop (Suc n) c dest i e = Some (True, dest[i := NUL], c2, e)" using g(1) g2(1) Some True True' p by simp
        moreover have "in_stream c = [] @ crlf @ in_stream c2" using g(3) g2(3) Some True True' by (simp add: crlf_def)
        moreover have "take (length [] + 1) (drop i (dest[i := NUL])) = [] @ [NUL]" using Suc.prems(2)
          by (cases "drop i dest") (simp_all add: drop_update_swap)
        ultimately show ?thesis using fr by (intro exI [of _ True]) (auto intro!: exI [of _ "[]"])
      next
        case False
        have "\<exists>e'. read_line_loop (Suc n) c dest i e = Some (False, dest[i := NUL], c2, e')" using g(1) g2(1) Some True False p
          by (cases r2) auto
        moreover have "\<not> (quiet c \<and> in_stream c = ln @ crlf @ rest \<and> CHR 0x0D \<notin> set ln)" for ln rest
        proof
          assume a: "quiet c \<and> in_stream c = ln @ crlf @ rest \<and> CHR 0x0D \<notin> set ln"
          then have "in_stream c1 = CHR 0x0A # rest" using ln [of ln rest] g(3) Some by (simp add: crlf_def)
          then show False using g2(3,4) False q a by (cases r2) auto
        qed
        ultimately show ?thesis using fr by (intro exI [of _ False]) auto
      qed
    next
      case False
      let ?d = "dest[i := x]"
      have "i + 1 + n \<le> length ?d" using Suc.prems(2) by simp
      from Suc.IH [OF ok1 this] obtain ok dest' c' e' where IH: "read_line_loop n c1 ?d (i + 1) e = Some (ok, dest', c', e')" "length dest' = length dest" "read_frame c1 c'"
        "ok \<longrightarrow> (\<exists>ln. length ln < n \<and> CHR 0x0D \<notin> set ln \<and> in_stream c1 = ln @ crlf @ in_stream c' \<and> e' = e \<and>
          take (i + 1) dest' = take (i + 1) ?d \<and> take (length ln + 1) (drop (i + 1) dest') = ln @ [NUL])"
        "quiet c1 \<and> (\<exists>ln rest. in_stream c1 = ln @ crlf @ rest \<and> CHR 0x0D \<notin> set ln \<and> length ln < n) \<longrightarrow> ok" unfolding length_list_update by blast
      have run: "read_line_loop (Suc n) c dest i e = Some (ok, dest', c', e')" using g(1) Some False p IH(1) by simp
      have ok: "\<exists>ln. length ln < Suc n \<and> CHR 0x0D \<notin> set ln \<and> in_stream c = ln @ crlf @ in_stream c' \<and> e' = e \<and>
          take i dest' = take i dest \<and> take (length ln + 1) (drop i dest') = ln @ [NUL]" if ok
      proof -
        obtain ln where ln: "length ln < n" "CHR 0x0D \<notin> set ln" "in_stream c1 = ln @ crlf @ in_stream c'" "e' = e"
          "take (i + 1) dest' = take (i + 1) ?d" "take (length ln + 1) (drop (i + 1) dest') = ln @ [NUL]" using IH(4) \<open>ok\<close> by blast
        have i: "i < length dest'" "i < length dest" using Suc.prems(2) IH(2) by simp_all
        have "take i dest' @ [dest' ! i] = take i dest @ [x]" using ln(5) i by (simp add: take_Suc_conv_app_nth)
        then have "take i dest' = take i dest" "dest' ! i = x" by simp_all
        moreover have "drop i dest' = dest' ! i # drop (i + 1) dest'" using i(1) by (simp add: Cons_nth_drop_Suc)
        ultimately show ?thesis using ln g(3) Some False by (intro exI [of _ "x # ln"]) simp
      qed
      have qok: "ok" if "quiet c" "in_stream c = ln @ crlf @ rest" "CHR 0x0D \<notin> set ln" "length ln < Suc n" for ln rest
      proof -
        note T = that
        have "quiet c1" using g(2) T(1) by (simp add: read_frame_def)
        moreover obtain l2 where "ln = x # l2" using T(2) g(3) Some False by (cases ln) (auto simp: crlf_def)
        ultimately show ?thesis using IH(5) T g(3) Some by (auto simp: crlf_def)
      qed
      show ?thesis using run IH(2) read_frame_trans [OF g(2) IH(3)] ok qok by (intro exI [of _ ok]) blast
    qed
  qed
qed


definition field_name :: "string \<Rightarrow> string" where
  "field_name s = takeWhile (\<lambda>c. c \<noteq> CHR '':'') s"

definition field_value :: "string \<Rightarrow> string" where
  "field_value s = dropWhile isspace (tl (dropWhile (\<lambda>c. c \<noteq> CHR '':'') s))"

lemma c_string_field: "c_string s \<Longrightarrow> c_string (field_name s) \<and> c_string (field_value s)"
  unfolding field_name_def field_value_def c_string_def
  by (metis list.set_sel(2) set_dropWhileD set_takeWhileD tl_Nil)

lemma get_field_name_spec:
  assumes "0 < n" "n \<le> length dest" "c_string s"
  shows "\<exists>ok d. get_field_name s dest n = Some (ok, d) \<and> length d = length dest \<and>
    (ok \<longleftrightarrow> CHR '':'' \<in> set s \<and> length (field_name s) + 1 < n) \<and> (ok \<longrightarrow> cstr_at d 0 = Some (field_name s))"
proof (cases "CHR '':'' \<in> set s \<and> length (field_name s) + 1 < n")
  case True
  let ?f = "field_name s"
  have t: "take (length ?f) s = ?f" unfolding field_name_def by (simp add: takeWhile_eq_take [symmetric])
  have fit: "Suc (length ?f) \<le> length dest" using True assms(2) by linarith
  have "wr dest 0 (take (length ?f) s) = Some (?f @ drop (length ?f) dest)" unfolding t using True assms(2) by (simp add: wr_def)
  moreover have "put_at (?f @ drop (length ?f) dest) (length ?f) NUL = Some (?f @ NUL # drop (Suc (length ?f)) dest)"
    using fit by (simp add: put_at_def list_update_append flip: Cons_nth_drop_Suc)
  moreover have "strchr s (CHR '':'') = Some (length ?f)" using True by (simp add: strchr_takeWhile field_name_def)
  moreover have "length (?f @ NUL # drop (Suc (length ?f)) dest) = length dest" using fit by simp
  ultimately show ?thesis using True assms(1) cstr_at_0I [of ?f] c_string_field [OF assms(3)] by (simp add: get_field_name_def ex_bool_eq del: length_append)
next
  case False
  then show ?thesis using assms(1) by (auto simp: get_field_name_def strchr_takeWhile field_name_def ex_bool_eq)
qed

lemma get_field_value_spec:
  assumes "0 < n" "n \<le> length dest" "c_string s"
  shows "\<exists>ok d. get_field_value s dest n = Some (ok, d) \<and> length d = length dest \<and>
    (ok \<longleftrightarrow> CHR '':'' \<in> set s \<and> length (field_value s) < n) \<and> (ok \<longrightarrow> cstr_at d 0 = Some (field_value s))"
proof (cases "CHR '':'' \<in> set s")
  case True
  have d: "drop (length (field_name s) + 1) s = tl (dropWhile (\<lambda>c. c \<noteq> CHR '':'') s)"
    by (simp add: field_name_def dropWhile_eq_drop drop_Suc tl_drop)
  have c: "strchr s (CHR '':'') = Some (length (field_name s))" using True by (simp add: strchr_takeWhile field_name_def)
  let ?v = "field_value s"
  have run: "get_field_value s dest n = (if length ?v \<ge> n then Some (failure, dest) else do { dest \<leftarrow> wr dest 0 (?v @ [NUL]); Some (success, dest) })"
    using assms(1) c d by (simp add: get_field_value_def Let_def field_value_def)
  show ?thesis
  proof (cases "length ?v < n")
    case True': True
    have "wr dest 0 (?v @ [NUL]) = Some (?v @ NUL # drop (Suc (length ?v)) dest)" using True' assms(2) by (simp add: wr_def)
    moreover have "length (?v @ NUL # drop (Suc (length ?v)) dest) = length dest" using True' assms(2) by simp
    ultimately show ?thesis using run True True' cstr_at_0I [of ?v] c_string_field [OF assms(3)] by (simp add: ex_bool_eq del: length_append)
  next
    case False
    then show ?thesis using run by (simp add: ex_bool_eq)
  qed
next
  case False
  then show ?thesis using assms(1) by (auto simp: get_field_value_def strchr_takeWhile ex_bool_eq)
qed

subsection \<open>Properties\<close>

text \<open>
  Header lines: \<open>read_line\<close> returns without writing outside its buffer; when it succeeds, the input started with
  a line without a carriage return, its CR LF are consumed and the buffer holds the line and a terminator; when the
  network does not fail it succeeds on every such line that fits. The name of a field is the text before the first
  colon, its value the rest without leading white space; each is returned exactly when the line has a colon and
  the text fits.
\<close>

theorem header_line_correct:
  assumes "conn_ok c" "n \<le> length buf" "c_string s" "0 < m" "m \<le> length dest"
  shows "(\<exists>ok buf' c' e'. read_line c buf n e = Some (ok, buf', c', e') \<and> length buf' = length buf \<and> conn_ok c' \<and> out_stream c' = out_stream c \<and>
      (ok \<longrightarrow> (\<exists>ln. CHR 0x0D \<notin> set ln \<and> in_stream c = ln @ crlf @ in_stream c' \<and> take (length ln + 1) buf' = ln @ [NUL])) \<and>
      (quiet c \<and> (\<exists>ln rest. in_stream c = ln @ crlf @ rest \<and> CHR 0x0D \<notin> set ln \<and> length ln < n) \<longrightarrow> ok)) \<and>
    (\<exists>ok d. get_field_name s dest m = Some (ok, d) \<and> (ok \<longleftrightarrow> CHR '':'' \<in> set s \<and> length (field_name s) + 1 < m) \<and> (ok \<longrightarrow> cstr_at d 0 = Some (field_name s))) \<and>
    (\<exists>ok d. get_field_value s dest m = Some (ok, d) \<and> (ok \<longleftrightarrow> CHR '':'' \<in> set s \<and> length (field_value s) < m) \<and> (ok \<longrightarrow> cstr_at d 0 = Some (field_value s)))"
proof (intro conjI)
  have "0 + n \<le> length buf" using assms(2) by simp
  from read_line_loop_spec [OF assms(1) this, of e] obtain ok d c' e' where L: "read_line c buf n e = Some (ok, d, c', e')" "length d = length buf" "read_frame c c'"
    "ok \<longrightarrow> (\<exists>ln. length ln < n \<and> CHR 0x0D \<notin> set ln \<and> in_stream c = ln @ crlf @ in_stream c' \<and> e' = e \<and>
       take 0 d = take 0 buf \<and> take (length ln + 1) (drop 0 d) = ln @ [NUL])"
    "quiet c \<and> (\<exists>ln rest. in_stream c = ln @ crlf @ rest \<and> CHR 0x0D \<notin> set ln \<and> length ln < n) \<longrightarrow> ok"
    unfolding read_line_def by blast
  then show "\<exists>ok buf' c' e'. read_line c buf n e = Some (ok, buf', c', e') \<and> length buf' = length buf \<and> conn_ok c' \<and> out_stream c' = out_stream c \<and>
      (ok \<longrightarrow> (\<exists>ln. CHR 0x0D \<notin> set ln \<and> in_stream c = ln @ crlf @ in_stream c' \<and> take (length ln + 1) buf' = ln @ [NUL])) \<and>
      (quiet c \<and> (\<exists>ln rest. in_stream c = ln @ crlf @ rest \<and> CHR 0x0D \<notin> set ln \<and> length ln < n) \<longrightarrow> ok)"
    unfolding read_frame_def drop_0 by blast
  show "\<exists>ok d. get_field_name s dest m = Some (ok, d) \<and> (ok \<longleftrightarrow> CHR '':'' \<in> set s \<and> length (field_name s) + 1 < m) \<and> (ok \<longrightarrow> cstr_at d 0 = Some (field_name s))"
    using get_field_name_spec [OF assms(4,5,3)] by blast
  show "\<exists>ok d. get_field_value s dest m = Some (ok, d) \<and> (ok \<longleftrightarrow> CHR '':'' \<in> set s \<and> length (field_value s) < m) \<and> (ok \<longrightarrow> cstr_at d 0 = Some (field_value s))"
    using get_field_value_spec [OF assms(4,5,3)] by blast
qed

theorem header_line_correct_witness:
  "(\<exists>buf' c' e'. read_line (sample_conn (''TE: x'' @ crlf)) (replicate 9 NUL) 9 error_new = Some (True, buf', c', e') \<and> take 6 buf' = ''TE: x'' @ [NUL]) \<and>
   (\<exists>d. get_field_value ''TE: x'' (replicate 9 NUL) 9 = Some (True, d) \<and> cstr_at d 0 = Some ''x'')"
proof -
  have a: "conn_ok (sample_conn (''TE: x'' @ crlf))" "9 \<le> length (replicate 9 NUL)" "c_string ''TE: x''" "0 < (9 :: nat)" by (simp_all add: sample_conn_ok)
  note H = header_line_correct [OF a a(2), of error_new]
  have v: "field_value ''TE: x'' = ''x''" by (simp add: field_value_def isspace_def)
  obtain ok buf' c' e' where r: "read_line (sample_conn (''TE: x'' @ crlf)) (replicate 9 NUL) 9 error_new = Some (ok, buf', c', e')"
      "ok \<longrightarrow> (\<exists>ln. CHR 0x0D \<notin> set ln \<and> ''TE: x'' @ crlf = ln @ crlf @ in_stream c' \<and> take (length ln + 1) buf' = ln @ [NUL])"
      "(\<exists>ln rest. ''TE: x'' @ crlf = ln @ crlf @ rest \<and> CHR 0x0D \<notin> set ln \<and> length ln < 9) \<longrightarrow> ok"
    using H [THEN conjunct1] unfolding sample_conn_ok using sample_conn_ok(2) by blast
  have ok using r(3) [THEN mp, OF exI [of _ "''TE: x''", OF exI [of _ "[]"]]] by (simp add: crlf_def)
  with r(2) obtain ln where ln: "CHR 0x0D \<notin> set ln" "''TE: x'' @ crlf = ln @ crlf @ in_stream c'" "take (length ln + 1) buf' = ln @ [NUL]" by blast
  have "takeWhile (\<lambda>c. c \<noteq> CHR 0x0D) (ln @ crlf @ in_stream c') = ln" using ln(1) by (subst takeWhile_append2) (auto simp: crlf_def)
  moreover have "takeWhile (\<lambda>c. c \<noteq> CHR 0x0D) (''TE: x'' @ crlf) = ''TE: x''" by (simp add: crlf_def)
  ultimately have "ln = ''TE: x''" using ln(2) by metis
  then show ?thesis using r(1) \<open>ok\<close> ln(3) H [THEN conjunct2, THEN conjunct2] v by (auto simp: eval_nat_numeral)
qed

end
