(* ===== verification/Header_Fields.thy ===== *)
theory Header_Fields
  imports Http_Internals
begin

unbundle bit_operations_syntax

section \<open>What the header structures share\<close>

text \<open>
  \<open>general_header.c\<close>, \<open>entity_header.c\<close>, \<open>request.c\<close> and \<open>response.c\<close> keep a word of flags, one bit for each field that has
  been set, next to growable strings with the values. This theory holds the shapes that recur there: the table of field
  names that is searched linearly, the table of sending functions that is run over the flags, and the interface of a
  string field (its setter and its place in the structure), whose laws are proved once.
\<close>

subsection \<open>Tables\<close>

fun find_field :: "(string \<times> 'f) list \<Rightarrow> string \<Rightarrow> int \<Rightarrow> int" where
  "find_field [] name i = - 1"
| "find_field ((n, f) # fs) name i = (if strcmp0 n name then i else find_field fs name (i + 1))"

fun send_table :: "('h \<Rightarrow> 64 word \<Rightarrow> bool) \<Rightarrow> (64 word \<times> ('h \<Rightarrow> connection \<Rightarrow> (status_t \<times> connection) option)) list \<Rightarrow> 'h \<Rightarrow> connection \<Rightarrow>
    (status_t \<times> connection) option" where
  "send_table is_set [] h conn = Some (success, conn)"
| "send_table is_set ((flag, send) # fs) h conn = (
     if is_set h flag then do {
       (ok, conn) \<leftarrow> send h conn;
       if ok then send_table is_set fs h conn else Some (failure, conn) }
     else send_table is_set fs h conn)"

text \<open>The end of most handlers: a setter that failed left \<open>ENOMEM\<close> in \<open>errno\<close>.\<close>

definition or_os_error :: "error \<Rightarrow> status_t \<times> 'h \<times> allocator \<Rightarrow> (status_t \<times> 'h \<times> error \<times> allocator) option" where
  "or_os_error e r = (case r of (ok, h, a) \<Rightarrow>
     Some (if ok then (success, h, e, a) else (failure, h, set_os_error e (errno_num ENOMEM), a)))"

lemma find_field_found: "distinct (map fst tab) \<Longrightarrow> i < length tab \<Longrightarrow> find_field tab (fst (tab ! i)) k = k + int i"
proof (induction tab arbitrary: i k)
  case (Cons x tab)
  have "fst (tab ! j) \<noteq> fst x" if "j < length tab" for j using Cons.prems(1) that nth_mem [of j tab] by (metis distinct.simps(2) imageI list.set_map list.simps(9))
  then show ?case using Cons by (cases x; cases i) (auto simp: strcmp0_def)
qed simp

lemma find_field_not_found: "name \<notin> fst ` set tab \<Longrightarrow> find_field tab name k = - 1"
  by (induction tab arbitrary: k) (auto simp: strcmp0_def)

lemma table_entry:
  assumes "0 \<le> i" "i < int (length tab)"
  obtains n h where "(n, h) \<in> set tab" "h = snd (tab ! nat i)"
proof -
  have "tab ! nat i \<in> set tab" using assms by simp
  then show ?thesis using that [of "fst (tab ! nat i)" "snd (tab ! nat i)"] by simp
qed

definition table_lines :: "('h \<Rightarrow> 64 word \<Rightarrow> bool) \<Rightarrow> (64 word \<times> ('h \<Rightarrow> string)) list \<Rightarrow> 'h \<Rightarrow> string" where
  "table_lines is_set tab h = concat (map (\<lambda>(flag, line). if is_set h flag then line h else []) tab)"

lemma send_table_sends:
  assumes "list_all2 (\<lambda>(f, send) (g, line). f = g \<and> (\<forall>c. conn_ok c \<and> is_set h f \<longrightarrow> sends c (line h) (send h c))) tab lines" "conn_ok c"
  shows "sends c (table_lines is_set lines h) (send_table is_set tab h c)"
  using assms
proof (induction tab lines arbitrary: c rule: list_all2_induct)
  case Nil
  then show ?case by (simp add: table_lines_def sends_id)
next
  case (Cons x tab y lines)
  obtain f send where x: "x = (f, send)" by (cases x)
  obtain line where y: "y = (f, line)" "conn_ok d \<Longrightarrow> is_set h f \<Longrightarrow> sends d (line h) (send h d)" for d using Cons.hyps(1) x by (cases y) auto
  show ?case
  proof (cases "is_set h f")
    case True
    have "sends c (line h @ table_lines is_set lines h) (send h c \<bind> (\<lambda>(ok, d). if ok then send_table is_set tab h d else Some (failure, d)))"
      by (rule sends_bind [OF y(2) [OF Cons.prems True] Cons.IH])
    then show ?thesis using True x y(1) by (simp add: table_lines_def)
  next
    case False
    then show ?thesis using Cons.IH [OF Cons.prems] x y(1) by (simp add: table_lines_def)
  qed
qed

subsection \<open>Flags\<close>

lemma and_exp_flag: "w AND (2 :: 64 word) ^ n \<noteq> 0 \<longleftrightarrow> bit w n"
  by (simp add: and_exp_eq_0_iff_not_bit)

lemma bit_or_exp: "n < 64 \<Longrightarrow> bit (w OR (2 :: 64 word) ^ n) k \<longleftrightarrow> bit w k \<or> k = n"
  by (auto simp: bit_or_iff bit_exp_iff)

subsection \<open>The interface of a string field\<close>

text \<open>
  A field of a header: \<open>fld\<close> reads the string, \<open>upd\<close> replaces it, \<open>mark\<close> sets the flag, \<open>ok\<close> is the invariant of the
  structure, and the setter assigns the string and then sets the flag.
\<close>

locale string_field =
  fixes ok :: "'h \<Rightarrow> bool" and fld :: "'h \<Rightarrow> cstring" and upd :: "cstring \<Rightarrow> 'h \<Rightarrow> 'h" and mark :: "'h \<Rightarrow> 'h"
    and setter :: "'h \<Rightarrow> string \<Rightarrow> allocator \<Rightarrow> (status_t \<times> 'h \<times> allocator) option"
  assumes fld_ok: "ok h \<Longrightarrow> cs_inv (fld h)"
    and upd_ok: "ok h \<Longrightarrow> cs_inv s \<Longrightarrow> ok (upd s h)"
    and mark_ok: "ok h \<Longrightarrow> ok (mark h)"
    and fld_mark: "fld (mark h) = fld h" and fld_upd: "fld (upd s h) = s"
    and setter: "setter h v a = do { (st, s, a) \<leftarrow> cstring_set (fld h) v a; Some (if st then (success, mark (upd s h), a) else (failure, upd s h, a)) }"
begin

lemma setter_spec:
  assumes "ok h" "c_string v" "length v \<le> PTRDIFF_MAX"
  obtains st s a' where "setter h v a = Some (st, if st then mark (upd s h) else upd s h, a')" "cs_rep s (if st then v else [])"
    "ok (upd s h)" "ok (mark (upd s h))" "roomy (fld h) 0 (length v) a \<longrightarrow> st \<and> a' = a"
proof -
  have "cs_rep (fld h) (cs_str (fld h))" using fld_ok [OF assms(1)] by (simp add: cs_inv_def)
  from cstring_set_spec [OF this assms(2,3), of a] obtain st s a' where s: "cstring_set (fld h) v a = Some (st, s, a')" "cs_rep s (if st then v else [])"
    "roomy (fld h) 0 (length v) a \<longrightarrow> st \<and> a' = a" unfolding cs_post_def by blast
  have "cs_inv s" using s(2) by (auto simp: cs_inv_iff)
  then have ok: "ok (upd s h)" "ok (mark (upd s h))" using upd_ok [OF assms(1)] mark_ok by blast+
  have "setter h v a = Some (st, if st then mark (upd s h) else upd s h, a')" using s(1) by (simp add: setter)
  then show ?thesis using that [OF _ s(2) ok] s(3) by blast
qed

text \<open>A handler that calls the setter and reports a failed allocation.\<close>

lemma handler_spec:
  assumes "ok h" "c_string v" "length v \<le> PTRDIFF_MAX"
  obtains st s a' e' where "(setter h v a \<bind> or_os_error e) = Some (st, if st then mark (upd s h) else upd s h, e', a')" "cs_rep s (if st then v else [])"
    "ok (upd s h)" "ok (mark (upd s h))" "roomy (fld h) 0 (length v) a \<longrightarrow> st \<and> a' = a" "e' = (if st then e else set_os_error e 12)"
proof -
  obtain st s a' where s: "setter h v a = Some (st, if st then mark (upd s h) else upd s h, a')" "cs_rep s (if st then v else [])"
    "ok (upd s h)" "ok (mark (upd s h))" "roomy (fld h) 0 (length v) a \<longrightarrow> st \<and> a' = a" by (rule setter_spec [OF assms, of a])
  have "(setter h v a \<bind> or_os_error e) = Some (st, if st then mark (upd s h) else upd s h, if st then e else set_os_error e 12, a')"
    using s(1) by (simp add: or_os_error_def errno_num_def)
  then show ?thesis using that [OF _ s(2-4) _ refl] s(5) by blast
qed

end

text \<open>
  The effect of parsing a field on the abstract state, a map from names to values: on success the name has its value, on
  a failed allocation an operating system error is reported and no other field is touched. A value of less than 256
  characters always fits.
\<close>

definition field_post :: "('h \<Rightarrow> bool) \<Rightarrow> ('h \<Rightarrow> string \<rightharpoonup> string) \<Rightarrow> 'h \<Rightarrow> string \<Rightarrow> string \<Rightarrow> error \<Rightarrow>
    (status_t \<times> 'h \<times> error \<times> allocator) option \<Rightarrow> bool" where
  "field_post ok view h name v e r \<longleftrightarrow> (\<exists>st h' e' a'. r = Some (st, h', e', a') \<and> ok h' \<and> (length v < 256 \<longrightarrow> st) \<and>
     (st \<longrightarrow> e' = e \<and> view h' = (view h)(name \<mapsto> v)) \<and>
     (\<not> st \<longrightarrow> e' = set_os_error e 12 \<and> (\<forall>n. n \<noteq> name \<longrightarrow> view h' n = view h n)))"

lemma field_post_short:
  assumes "field_post ok view h name v e r" "length v < 256"
  obtains h' a' where "r = Some (True, h', e, a')" "ok h'" "view h' = (view h)(name \<mapsto> v)"
proof -
  obtain st h' e' a' where "r = Some (st, h', e', a')" "ok h'" "length v < 256 \<longrightarrow> st" "st \<longrightarrow> e' = e \<and> view h' = (view h)(name \<mapsto> v)"
    using assms(1) unfolding field_post_def by blast
  then show ?thesis using assms(2) that by simp
qed

lemma field_post_after:
  assumes "field_post ok view h' name v e r" "view h' = (view h)(name \<mapsto> v')"
  shows "field_post ok view h name v e r"
proof -
  obtain st g e' a' where "r = Some (st, g, e', a')" "ok g" "length v < 256 \<longrightarrow> st" "st \<longrightarrow> e' = e \<and> view g = (view h')(name \<mapsto> v)"
    "\<not> st \<longrightarrow> e' = set_os_error e 12 \<and> (\<forall>n. n \<noteq> name \<longrightarrow> view g n = view h' n)"
    using assms(1) unfolding field_post_def by blast
  then show ?thesis using assms(2) unfolding field_post_def by (intro exI [of _ st] exI [of _ g] exI [of _ e'] exI [of _ a']) simp
qed

locale view_field = string_field +
  fixes view :: "'a \<Rightarrow> string \<rightharpoonup> string" and name :: string
  assumes view_set: "cs_rep s v \<Longrightarrow> view (mark (upd s h)) = (view h)(name \<mapsto> v)"
    and view_upd: "n \<noteq> name \<Longrightarrow> view (upd s h) n = view h n"
begin

lemma handler_view:
  assumes "ok h" "c_string v" "length v \<le> PTRDIFF_MAX"
  shows "field_post ok view h name v e (setter h v a \<bind> or_os_error e)"
proof -
  obtain st s a' e' where s: "(setter h v a \<bind> or_os_error e) = Some (st, if st then mark (upd s h) else upd s h, e', a')" "cs_rep s (if st then v else [])"
    "ok (upd s h)" "ok (mark (upd s h))" "roomy (fld h) 0 (length v) a \<longrightarrow> st \<and> a' = a" "e' = (if st then e else set_os_error e 12)"
    by (rule handler_spec [OF assms, of a e])
  have "256 \<le> cs_size (fld h)" using fld_ok [OF assms(1)] by (simp add: cs_inv_def cs_rep_def CSTRING_INITIAL_SIZE_def)
  then have "length v < 256 \<longrightarrow> st" using s(5) by (auto simp: roomy_def)
  then show ?thesis using s view_set view_upd unfolding field_post_def
    by (intro exI [of _ st] exI [of _ "if st then mark (upd s h) else upd s h"] exI [of _ e'] exI [of _ a']) auto
qed

end

text \<open>Searching a table by name finds the handler of the first entry with the name; only the names matter.\<close>

lemma find_field_named:
  assumes "map_of tab name = Some h" "map fst tab' = map fst tab"
  shows "\<exists>i < length tab. find_field tab' name k = k + int i \<and> tab ! i = (name, h)"
  using assms
proof (induction tab arbitrary: tab' k)
  case (Cons x tab)
  obtain n f where x: "x = (n, f)" by (cases x)
  obtain f' rest where t: "tab' = (n, f') # rest" "map fst rest = map fst tab" using Cons.prems(2) x by (cases tab') auto
  show ?case
  proof (cases "n = name")
    case True
    then show ?thesis using Cons.prems(1) x t by (intro exI [of _ 0]) (simp add: strcmp0_def)
  next
    case False
    then have "map_of tab name = Some h" using Cons.prems(1) x by simp
    from Cons.IH [OF this t(2), of "k + 1"] obtain i where "i < length tab" "find_field rest name (k + 1) = k + 1 + int i" "tab ! i = (name, h)" by blast
    then show ?thesis using False x t by (intro exI [of _ "Suc i"]) (simp add: strcmp0_def)
  qed
qed simp

text \<open>
  A field that grows: the setter appends to the string. \<open>held\<close> is what the abstract state has under a name, with nothing for
  a field that is not set. The result of a parser is stated like \<open>field_post\<close>.
\<close>

definition held :: "('h \<Rightarrow> string \<rightharpoonup> string) \<Rightarrow> 'h \<Rightarrow> string \<Rightarrow> string" where
  "held view h name = (case view h name of None \<Rightarrow> [] | Some t \<Rightarrow> t)"

definition field_added :: "('h \<Rightarrow> bool) \<Rightarrow> ('h \<Rightarrow> string \<rightharpoonup> string) \<Rightarrow> 'h \<Rightarrow> string \<Rightarrow> string \<Rightarrow> error \<Rightarrow>
    (status_t \<times> 'h \<times> error \<times> allocator) option \<Rightarrow> bool" where
  "field_added ok view h name v e r \<longleftrightarrow> (\<exists>st h' e' a'. r = Some (st, h', e', a') \<and> ok h' \<and> (length (held view h name) + length v < 256 \<longrightarrow> st) \<and>
     (st \<longrightarrow> e' = e \<and> view h' = (view h)(name \<mapsto> held view h name @ v)) \<and>
     (\<not> st \<longrightarrow> e' = set_os_error e 12 \<and> (\<forall>n. n \<noteq> name \<longrightarrow> view h' n = view h n)))"

lemma field_addedE:
  assumes "field_added ok view h name v e r"
  obtains st h' e' a' where "r = Some (st, h', e', a')" "ok h'" "length (held view h name) + length v < 256 \<longrightarrow> st"
     "st \<longrightarrow> e' = e \<and> view h' = (view h)(name \<mapsto> held view h name @ v)" "\<not> st \<longrightarrow> e' = set_os_error e 12 \<and> (\<forall>n. n \<noteq> name \<longrightarrow> view h' n = view h n)"
  using assms unfolding field_added_def by blast

lemma field_added_after:
  assumes "field_added ok view h' name w e r" "view h' = (view h)(name \<mapsto> held view h name @ v)"
  shows "field_added ok view h name (v @ w) e r"
proof -
  have h: "held view h' name = held view h name @ v" using assms(2) by (simp add: held_def)
  obtain st g e' a' where "r = Some (st, g, e', a')" "ok g" "length (held view h' name) + length w < 256 \<longrightarrow> st"
    "st \<longrightarrow> e' = e \<and> view g = (view h')(name \<mapsto> held view h' name @ w)" "\<not> st \<longrightarrow> e' = set_os_error e 12 \<and> (\<forall>n. n \<noteq> name \<longrightarrow> view g n = view h' n)"
    by (rule field_addedE [OF assms(1)])
  then show ?thesis unfolding field_added_def h using assms(2)
    by (intro exI [of _ st] exI [of _ g] exI [of _ e'] exI [of _ a']) simp
qed

locale concat_field =
  fixes ok :: "'h \<Rightarrow> bool" and fld :: "'h \<Rightarrow> cstring" and upd :: "cstring \<Rightarrow> 'h \<Rightarrow> 'h" and mark :: "'h \<Rightarrow> 'h"
    and setter :: "'h \<Rightarrow> string \<Rightarrow> error \<Rightarrow> allocator \<Rightarrow> (status_t \<times> 'h \<times> error \<times> allocator) option"
    and view :: "'h \<Rightarrow> string \<rightharpoonup> string" and name :: string
  assumes fld_ok: "ok h \<Longrightarrow> cs_inv (fld h)"
    and same_ok: "ok h \<Longrightarrow> cs_inv s \<Longrightarrow> cs_str s = cs_str (fld h) \<Longrightarrow> ok (upd s h)"
    and set_ok: "ok h \<Longrightarrow> cs_inv s \<Longrightarrow> ok (mark (upd s h))"
    and fld_held: "ok h \<Longrightarrow> cs_str (fld h) = held view h name"
    and view_set: "cs_rep s v \<Longrightarrow> view (mark (upd s h)) = (view h)(name \<mapsto> v)"
    and view_upd: "n \<noteq> name \<Longrightarrow> view (upd s h) n = view h n"
    and setter: "setter h v e a = do { (st, s, a) \<leftarrow> cstring_concat (fld h) v a;
      Some (if st then (success, mark (upd s h), e, a) else (failure, upd s h, set_os_error e (errno_num ENOMEM), a)) }"
begin

lemma setter_added:
  assumes "ok h" "c_string v" "length v \<le> PTRDIFF_MAX"
  shows "field_added ok view h name v e (setter h v e a)"
proof -
  let ?t = "held view h name"
  have rep: "cs_rep (fld h) ?t" using fld_ok [OF assms(1)] fld_held [OF assms(1)] by (simp add: cs_inv_def)
  from cstring_concat_spec [OF this assms(2,3), of a] obtain st s a' where s: "cstring_concat (fld h) v a = Some (st, s, a')" "cs_rep s (if st then ?t @ v else ?t)"
    "roomy (fld h) (length ?t) (length v) a \<longrightarrow> st \<and> a' = a" unfolding cs_post_def by blast
  have "256 \<le> cs_size (fld h)" using rep by (simp add: cs_rep_def CSTRING_INITIAL_SIZE_def)
  then have sh: "length ?t + length v < 256 \<longrightarrow> st" using s(3) by (auto simp: roomy_def)
  have i: "cs_inv s" using s(2) by (auto simp: cs_inv_iff)
  show ?thesis
  proof (cases st)
    case True
    then show ?thesis unfolding field_added_def using s(1,2) set_ok [OF assms(1) i] view_set [of s "?t @ v" h]
      by (intro exI [of _ True] exI [of _ "mark (upd s h)"] exI [of _ e] exI [of _ a']) (simp add: setter)
  next
    case False
    then have "ok (upd s h)" using same_ok [OF assms(1) i] s(2) cs_rep_str fld_held [OF assms(1)] by simp
    then show ?thesis unfolding field_added_def using s(1) sh False view_upd
      by (intro exI [of _ False] exI [of _ "upd s h"] exI [of _ "set_os_error e 12"] exI [of _ a']) (simp add: setter errno_num_def)
  qed
qed

end

end
