(* ===== verification/General_Header.thy ===== *)
theory General_Header
  imports Header_Fields
begin

section \<open>The general header\<close>

text \<open>
  The fields common to requests and responses (\<open>src/http/src/general_header.c\<close>): setters, getters, the parsing of
  field values and the sending of the fields that are set. \<open>general_header_free\<close> only releases memory and
  \<open>general_header_dump\<close> prints to a file; they are not modelled. A failing \<open>assert\<close> is \<open>None\<close>.
\<close>

subsection \<open>Flags and state\<close>

definition GENERAL_HEADER_DATE_SET :: "64 word" where "GENERAL_HEADER_DATE_SET = 0x1"
definition GENERAL_HEADER_TRAILER_SET :: "64 word" where "GENERAL_HEADER_TRAILER_SET = 0x2"
definition GENERAL_HEADER_TRANSFER_ENCODING_SET :: "64 word" where "GENERAL_HEADER_TRANSFER_ENCODING_SET = 0x4"
definition GENERAL_HEADER_ONLY_IF_CACHED_SET :: "64 word" where "GENERAL_HEADER_ONLY_IF_CACHED_SET = 0x8"
definition GENERAL_HEADER_UPGRADE_SET :: "64 word" where "GENERAL_HEADER_UPGRADE_SET = 0x10"
definition GENERAL_HEADER_VIA_SET :: "64 word" where "GENERAL_HEADER_VIA_SET = 0x20"
definition GENERAL_HEADER_WARNING_SET :: "64 word" where "GENERAL_HEADER_WARNING_SET = 0x40"
definition GENERAL_HEADER_CONNECTION_SET :: "64 word" where "GENERAL_HEADER_CONNECTION_SET = 0x80"
definition GENERAL_HEADER_PRAGMA_SET :: "64 word" where "GENERAL_HEADER_PRAGMA_SET = 0x100"
definition GENERAL_HEADER_NO_CACHE_SET :: "64 word" where "GENERAL_HEADER_NO_CACHE_SET = 0x200"
definition GENERAL_HEADER_NO_STORE_SET :: "64 word" where "GENERAL_HEADER_NO_STORE_SET = 0x400"
definition GENERAL_HEADER_MAX_AGE_SET :: "64 word" where "GENERAL_HEADER_MAX_AGE_SET = 0x800"
definition GENERAL_HEADER_MAX_STALE_SET :: "64 word" where "GENERAL_HEADER_MAX_STALE_SET = 0x1000"
definition GENERAL_HEADER_MIN_FRESH_SET :: "64 word" where "GENERAL_HEADER_MIN_FRESH_SET = 0x2000"
definition GENERAL_HEADER_NO_TRANSFORM_SET :: "64 word" where "GENERAL_HEADER_NO_TRANSFORM_SET = 0x4000"
definition GENERAL_HEADER_PUBLIC_SET :: "64 word" where "GENERAL_HEADER_PUBLIC_SET = 0x8000"
definition GENERAL_HEADER_PRIVATE_SET :: "64 word" where "GENERAL_HEADER_PRIVATE_SET = 0x10000"
definition GENERAL_HEADER_MUST_REVALIDATE_SET :: "64 word" where "GENERAL_HEADER_MUST_REVALIDATE_SET = 0x20000"
definition GENERAL_HEADER_PROXY_REVALIDATE_SET :: "64 word" where "GENERAL_HEADER_PROXY_REVALIDATE_SET = 0x40000"
definition GENERAL_HEADER_S_MAXAGE_SET :: "64 word" where "GENERAL_HEADER_S_MAXAGE_SET = 0x80000"
definition GENERAL_HEADER_CACHE_EXTENSION_SET :: "64 word" where "GENERAL_HEADER_CACHE_EXTENSION_SET = 0x100000"

lemmas gh_flag_defs =
  GENERAL_HEADER_DATE_SET_def
  GENERAL_HEADER_TRAILER_SET_def
  GENERAL_HEADER_TRANSFER_ENCODING_SET_def
  GENERAL_HEADER_ONLY_IF_CACHED_SET_def
  GENERAL_HEADER_UPGRADE_SET_def
  GENERAL_HEADER_VIA_SET_def
  GENERAL_HEADER_WARNING_SET_def
  GENERAL_HEADER_CONNECTION_SET_def
  GENERAL_HEADER_PRAGMA_SET_def
  GENERAL_HEADER_NO_CACHE_SET_def
  GENERAL_HEADER_NO_STORE_SET_def
  GENERAL_HEADER_MAX_AGE_SET_def
  GENERAL_HEADER_MAX_STALE_SET_def
  GENERAL_HEADER_MIN_FRESH_SET_def
  GENERAL_HEADER_NO_TRANSFORM_SET_def
  GENERAL_HEADER_PUBLIC_SET_def
  GENERAL_HEADER_PRIVATE_SET_def
  GENERAL_HEADER_MUST_REVALIDATE_SET_def
  GENERAL_HEADER_PROXY_REVALIDATE_SET_def
  GENERAL_HEADER_S_MAXAGE_SET_def
  GENERAL_HEADER_CACHE_EXTENSION_SET_def

record general_header =
  gh_flags :: "64 word"
  gh_max_age :: int
  gh_s_maxage :: int
  gh_max_stale :: int
  gh_min_fresh :: int
  gh_connection :: cstring
  gh_date :: int
  gh_pragma :: cstring
  gh_trailer :: cstring
  gh_transfer_encoding :: cstring
  gh_upgrade :: cstring
  gh_via :: cstring
  gh_warning :: cstring

definition general_header_flag_is_set :: "general_header \<Rightarrow> 64 word \<Rightarrow> bool" where
  "general_header_flag_is_set gh flag \<longleftrightarrow> gh_flags gh AND flag \<noteq> 0"

definition general_header_set_flag :: "general_header \<Rightarrow> 64 word \<Rightarrow> general_header" where
  "general_header_set_flag gh flag = gh\<lparr>gh_flags := gh_flags gh OR flag\<rparr>"

definition general_header_clear_flags :: "general_header \<Rightarrow> general_header" where
  "general_header_clear_flags gh = gh\<lparr>gh_flags := 0\<rparr>"

definition general_header_recycle :: "general_header \<Rightarrow> general_header" where
  "general_header_recycle p = general_header_clear_flags p"

text \<open>The structure has 88 bytes; \<open>calloc\<close> clears it.\<close>

definition general_header_new :: "allocator \<Rightarrow> (general_header option \<times> allocator) option" where
  "general_header_new a = (
     let (ok, a) = try_alloc 88 a in
     if \<not> ok then Some (None, a)
     else do {
       (ok, arr, a) \<leftarrow> cstring_multinew 7 a;
       if \<not> ok then Some (None, a)
       else Some (Some \<lparr>gh_flags = 0, gh_max_age = 0, gh_s_maxage = 0, gh_max_stale = 0, gh_min_fresh = 0, gh_connection = arr ! 0, gh_date = 0,
         gh_pragma = arr ! 1, gh_trailer = arr ! 2, gh_transfer_encoding = arr ! 3, gh_upgrade = arr ! 4, gh_via = arr ! 5, gh_warning = arr ! 6\<rparr>, a) })"

subsection \<open>Setters\<close>

definition general_header_set_date :: "general_header \<Rightarrow> int \<Rightarrow> general_header option" where
  "general_header_set_date gh val = (if val \<noteq> - 1 then Some (general_header_set_flag (gh\<lparr>gh_date := val\<rparr>) GENERAL_HEADER_DATE_SET) else None)"

definition general_header_set_connection :: "general_header \<Rightarrow> string \<Rightarrow> allocator \<Rightarrow> (status_t \<times> general_header \<times> allocator) option" where
  "general_header_set_connection gh val a = do {
     (ok, s, a) \<leftarrow> cstring_set (gh_connection gh) val a;
     let gh = gh\<lparr>gh_connection := s\<rparr>;
     Some (if \<not> ok then (failure, gh, a) else (success, general_header_set_flag gh GENERAL_HEADER_CONNECTION_SET, a)) }"

definition general_header_set_pragma :: "general_header \<Rightarrow> string \<Rightarrow> allocator \<Rightarrow> (status_t \<times> general_header \<times> allocator) option" where
  "general_header_set_pragma gh val a = do {
     (ok, s, a) \<leftarrow> cstring_set (gh_pragma gh) val a;
     let gh = gh\<lparr>gh_pragma := s\<rparr>;
     Some (if \<not> ok then (failure, gh, a) else (success, general_header_set_flag gh GENERAL_HEADER_PRAGMA_SET, a)) }"

definition general_header_set_trailer :: "general_header \<Rightarrow> string \<Rightarrow> allocator \<Rightarrow> (status_t \<times> general_header \<times> allocator) option" where
  "general_header_set_trailer gh val a = do {
     (ok, s, a) \<leftarrow> cstring_set (gh_trailer gh) val a;
     let gh = gh\<lparr>gh_trailer := s\<rparr>;
     Some (if \<not> ok then (failure, gh, a) else (success, general_header_set_flag gh GENERAL_HEADER_TRAILER_SET, a)) }"

definition general_header_set_transfer_encoding :: "general_header \<Rightarrow> string \<Rightarrow> allocator \<Rightarrow> (status_t \<times> general_header \<times> allocator) option" where
  "general_header_set_transfer_encoding gh val a = do {
     (ok, s, a) \<leftarrow> cstring_set (gh_transfer_encoding gh) val a;
     let gh = gh\<lparr>gh_transfer_encoding := s\<rparr>;
     Some (if \<not> ok then (failure, gh, a) else (success, general_header_set_flag gh GENERAL_HEADER_TRANSFER_ENCODING_SET, a)) }"

definition general_header_set_upgrade :: "general_header \<Rightarrow> string \<Rightarrow> allocator \<Rightarrow> (status_t \<times> general_header \<times> allocator) option" where
  "general_header_set_upgrade gh val a = do {
     (ok, s, a) \<leftarrow> cstring_set (gh_upgrade gh) val a;
     let gh = gh\<lparr>gh_upgrade := s\<rparr>;
     Some (if \<not> ok then (failure, gh, a) else (success, general_header_set_flag gh GENERAL_HEADER_UPGRADE_SET, a)) }"

definition general_header_set_via :: "general_header \<Rightarrow> string \<Rightarrow> allocator \<Rightarrow> (status_t \<times> general_header \<times> allocator) option" where
  "general_header_set_via gh val a = do {
     (ok, s, a) \<leftarrow> cstring_set (gh_via gh) val a;
     let gh = gh\<lparr>gh_via := s\<rparr>;
     Some (if \<not> ok then (failure, gh, a) else (success, general_header_set_flag gh GENERAL_HEADER_VIA_SET, a)) }"

definition general_header_set_warning :: "general_header \<Rightarrow> string \<Rightarrow> allocator \<Rightarrow> (status_t \<times> general_header \<times> allocator) option" where
  "general_header_set_warning gh val a = do {
     (ok, s, a) \<leftarrow> cstring_set (gh_warning gh) val a;
     let gh = gh\<lparr>gh_warning := s\<rparr>;
     Some (if \<not> ok then (failure, gh, a) else (success, general_header_set_flag gh GENERAL_HEADER_WARNING_SET, a)) }"

definition general_header_set_no_cache where "general_header_set_no_cache gh = general_header_set_flag gh GENERAL_HEADER_NO_CACHE_SET"
definition general_header_set_no_store where "general_header_set_no_store gh = general_header_set_flag gh GENERAL_HEADER_NO_STORE_SET"

definition general_header_set_max_age :: "general_header \<Rightarrow> int \<Rightarrow> general_header" where
  "general_header_set_max_age gh val = general_header_set_flag (gh\<lparr>gh_max_age := val\<rparr>) GENERAL_HEADER_MAX_AGE_SET"
definition general_header_set_s_maxage :: "general_header \<Rightarrow> int \<Rightarrow> general_header" where
  "general_header_set_s_maxage gh val = general_header_set_flag (gh\<lparr>gh_s_maxage := val\<rparr>) GENERAL_HEADER_S_MAXAGE_SET"
definition general_header_set_max_stale :: "general_header \<Rightarrow> int \<Rightarrow> general_header" where
  "general_header_set_max_stale gh val = general_header_set_flag (gh\<lparr>gh_max_stale := val\<rparr>) GENERAL_HEADER_MAX_STALE_SET"
definition general_header_set_min_fresh :: "general_header \<Rightarrow> int \<Rightarrow> general_header" where
  "general_header_set_min_fresh gh val = general_header_set_flag (gh\<lparr>gh_min_fresh := val\<rparr>) GENERAL_HEADER_MIN_FRESH_SET"

definition general_header_set_no_transform where "general_header_set_no_transform gh = general_header_set_flag gh GENERAL_HEADER_NO_TRANSFORM_SET"
definition general_header_set_only_if_cached where "general_header_set_only_if_cached gh = general_header_set_flag gh GENERAL_HEADER_ONLY_IF_CACHED_SET"
definition general_header_set_public where "general_header_set_public gh = general_header_set_flag gh GENERAL_HEADER_PUBLIC_SET"
definition general_header_set_private where "general_header_set_private gh = general_header_set_flag gh GENERAL_HEADER_PRIVATE_SET"
definition general_header_set_must_revalidate where "general_header_set_must_revalidate gh = general_header_set_flag gh GENERAL_HEADER_MUST_REVALIDATE_SET"
definition general_header_set_proxy_revalidate where "general_header_set_proxy_revalidate gh = general_header_set_flag gh GENERAL_HEADER_PROXY_REVALIDATE_SET"

subsection \<open>Getters\<close>

definition general_header_get_no_cache where "general_header_get_no_cache gh = general_header_flag_is_set gh GENERAL_HEADER_NO_CACHE_SET"
definition general_header_get_no_store where "general_header_get_no_store gh = general_header_flag_is_set gh GENERAL_HEADER_NO_STORE_SET"
definition general_header_get_public where "general_header_get_public gh = general_header_flag_is_set gh GENERAL_HEADER_PUBLIC_SET"
definition general_header_get_private where "general_header_get_private gh = general_header_flag_is_set gh GENERAL_HEADER_PRIVATE_SET"
definition general_header_get_must_revalidate where "general_header_get_must_revalidate gh = general_header_flag_is_set gh GENERAL_HEADER_MUST_REVALIDATE_SET"
definition general_header_get_proxy_revalidate where "general_header_get_proxy_revalidate gh = general_header_flag_is_set gh GENERAL_HEADER_PROXY_REVALIDATE_SET"
definition general_header_get_no_transform where "general_header_get_no_transform gh = general_header_flag_is_set gh GENERAL_HEADER_NO_TRANSFORM_SET"
definition general_header_get_only_if_cached where "general_header_get_only_if_cached gh = general_header_flag_is_set gh GENERAL_HEADER_ONLY_IF_CACHED_SET"

definition general_header_get_max_age :: "general_header \<Rightarrow> int option" where
  "general_header_get_max_age gh = (if general_header_flag_is_set gh GENERAL_HEADER_MAX_AGE_SET then Some (gh_max_age gh) else None)"
definition general_header_get_s_maxage :: "general_header \<Rightarrow> int option" where
  "general_header_get_s_maxage gh = (if general_header_flag_is_set gh GENERAL_HEADER_S_MAXAGE_SET then Some (gh_s_maxage gh) else None)"
definition general_header_get_max_stale :: "general_header \<Rightarrow> int option" where
  "general_header_get_max_stale gh = (if general_header_flag_is_set gh GENERAL_HEADER_MAX_STALE_SET then Some (gh_max_stale gh) else None)"
definition general_header_get_min_fresh :: "general_header \<Rightarrow> int option" where
  "general_header_get_min_fresh gh = (if general_header_flag_is_set gh GENERAL_HEADER_MIN_FRESH_SET then Some (gh_min_fresh gh) else None)"
definition general_header_get_date :: "general_header \<Rightarrow> int option" where
  "general_header_get_date gh = (if general_header_flag_is_set gh GENERAL_HEADER_DATE_SET then Some (gh_date gh) else None)"

definition general_header_get_connection :: "general_header \<Rightarrow> string option" where
  "general_header_get_connection gh = (
     if \<not> general_header_flag_is_set gh GENERAL_HEADER_CONNECTION_SET then Some []
     else cstr_at (cs_data (gh_connection gh)) 0)"

definition general_header_get_trailer :: "general_header \<Rightarrow> string option" where
  "general_header_get_trailer gh = (if general_header_flag_is_set gh GENERAL_HEADER_TRAILER_SET then cstr_at (cs_data (gh_trailer gh)) 0 else None)"
definition general_header_get_transfer_encoding :: "general_header \<Rightarrow> string option" where
  "general_header_get_transfer_encoding gh = (if general_header_flag_is_set gh GENERAL_HEADER_TRANSFER_ENCODING_SET then cstr_at (cs_data (gh_transfer_encoding gh)) 0 else None)"
definition general_header_get_upgrade :: "general_header \<Rightarrow> string option" where
  "general_header_get_upgrade gh = (if general_header_flag_is_set gh GENERAL_HEADER_UPGRADE_SET then cstr_at (cs_data (gh_upgrade gh)) 0 else None)"
definition general_header_get_via :: "general_header \<Rightarrow> string option" where
  "general_header_get_via gh = (if general_header_flag_is_set gh GENERAL_HEADER_VIA_SET then cstr_at (cs_data (gh_via gh)) 0 else None)"
definition general_header_get_warning :: "general_header \<Rightarrow> string option" where
  "general_header_get_warning gh = (if general_header_flag_is_set gh GENERAL_HEADER_WARNING_SET then cstr_at (cs_data (gh_warning gh)) 0 else None)"

definition general_header_no_cache_isset where "general_header_no_cache_isset gh = general_header_flag_is_set gh GENERAL_HEADER_NO_CACHE_SET"
definition general_header_no_store_isset where "general_header_no_store_isset gh = general_header_flag_is_set gh GENERAL_HEADER_NO_STORE_SET"
definition general_header_max_age_isset where "general_header_max_age_isset gh = general_header_flag_is_set gh GENERAL_HEADER_MAX_AGE_SET"
definition general_header_connection_isset where "general_header_connection_isset gh = general_header_flag_is_set gh GENERAL_HEADER_CONNECTION_SET"
definition general_header_pragma_isset where "general_header_pragma_isset gh = general_header_flag_is_set gh GENERAL_HEADER_PRAGMA_SET"
definition general_header_max_stale_isset where "general_header_max_stale_isset gh = general_header_flag_is_set gh GENERAL_HEADER_MAX_STALE_SET"
definition general_header_min_fresh_isset where "general_header_min_fresh_isset gh = general_header_flag_is_set gh GENERAL_HEADER_MIN_FRESH_SET"
definition general_header_no_transform_isset where "general_header_no_transform_isset gh = general_header_flag_is_set gh GENERAL_HEADER_NO_TRANSFORM_SET"
definition general_header_only_if_cached_isset where "general_header_only_if_cached_isset gh = general_header_flag_is_set gh GENERAL_HEADER_ONLY_IF_CACHED_SET"
definition general_header_date_isset where "general_header_date_isset gh = general_header_flag_is_set gh GENERAL_HEADER_DATE_SET"
definition general_header_trailer_isset where "general_header_trailer_isset gh = general_header_flag_is_set gh GENERAL_HEADER_TRAILER_SET"
definition general_header_transfer_encoding_isset where "general_header_transfer_encoding_isset gh = general_header_flag_is_set gh GENERAL_HEADER_TRANSFER_ENCODING_SET"
definition general_header_upgrade_isset where "general_header_upgrade_isset gh = general_header_flag_is_set gh GENERAL_HEADER_UPGRADE_SET"
definition general_header_via_isset where "general_header_via_isset gh = general_header_flag_is_set gh GENERAL_HEADER_VIA_SET"
definition general_header_warning_isset where "general_header_warning_isset gh = general_header_flag_is_set gh GENERAL_HEADER_WARNING_SET"

definition general_header_is_chunked_message :: "general_header \<Rightarrow> bool option" where
  "general_header_is_chunked_message gh = (
     if \<not> general_header_transfer_encoding_isset gh then Some False
     else cstring_casecompare (gh_transfer_encoding gh) ''chunked'')"

subsection \<open>Sending\<close>

definition send_connection where "send_connection gh conn = http_send_field conn ''Connection: '' (gh_connection gh)"
definition send_pragma where "send_pragma gh conn = http_send_field conn ''Pragma: '' (gh_pragma gh)"
definition send_trailer where "send_trailer gh conn = http_send_field conn ''Trailer: '' (gh_trailer gh)"
definition send_transfer_encoding where "send_transfer_encoding gh conn = http_send_field conn ''Transfer-Encoding: '' (gh_transfer_encoding gh)"
definition send_upgrade where "send_upgrade gh conn = http_send_field conn ''Upgrade: '' (gh_upgrade gh)"
definition send_via where "send_via gh conn = http_send_field conn ''Via: '' (gh_via gh)"
definition send_warning where "send_warning gh conn = http_send_field conn ''Warning: '' (gh_warning gh)"
definition send_date where "send_date gh conn = http_send_date conn ''Date: '' (gh_date gh)"

definition cachecontrol_field_set :: "general_header \<Rightarrow> int" where
  "cachecontrol_field_set gh = (
     of_bool (general_header_flag_is_set gh GENERAL_HEADER_NO_CACHE_SET)
     + of_bool (general_header_flag_is_set gh GENERAL_HEADER_NO_STORE_SET)
     + of_bool (general_header_flag_is_set gh GENERAL_HEADER_MAX_AGE_SET)
     + of_bool (general_header_flag_is_set gh GENERAL_HEADER_MAX_STALE_SET)
     + of_bool (general_header_flag_is_set gh GENERAL_HEADER_MIN_FRESH_SET)
     + of_bool (general_header_flag_is_set gh GENERAL_HEADER_NO_TRANSFORM_SET)
     + of_bool (general_header_flag_is_set gh GENERAL_HEADER_PUBLIC_SET)
     + of_bool (general_header_flag_is_set gh GENERAL_HEADER_PRIVATE_SET)
     + of_bool (general_header_flag_is_set gh GENERAL_HEADER_MUST_REVALIDATE_SET)
     + of_bool (general_header_flag_is_set gh GENERAL_HEADER_PROXY_REVALIDATE_SET)
     + of_bool (general_header_flag_is_set gh GENERAL_HEADER_S_MAXAGE_SET)
     + of_bool (general_header_flag_is_set gh GENERAL_HEADER_CACHE_EXTENSION_SET))"

text \<open>
  The eleven blocks of \<open>send_cachecontrol\<close> have one form: if the flag is set, send the directive and, while \<open>nfields\<close>
  is not 0, a separator. The block of the cache extensions is empty, and the \<open>assert\<close> follows.
\<close>

definition cc_directives :: "general_header \<Rightarrow> (64 word \<times> (connection \<Rightarrow> (status_t \<times> connection) option)) list" where
  "cc_directives gh =
    [(GENERAL_HEADER_NO_CACHE_SET, \<lambda>conn. http_send_string conn ''no-cache''),
     (GENERAL_HEADER_NO_STORE_SET, \<lambda>conn. http_send_string conn ''no-store''),
     (GENERAL_HEADER_MAX_AGE_SET, \<lambda>conn. http_send_int conn ''max-age='' (gh_max_age gh)),
     (GENERAL_HEADER_MAX_STALE_SET, \<lambda>conn. http_send_int conn ''max-stale='' (gh_max_stale gh)),
     (GENERAL_HEADER_MIN_FRESH_SET, \<lambda>conn. http_send_int conn ''min-fresh='' (gh_min_fresh gh)),
     (GENERAL_HEADER_NO_TRANSFORM_SET, \<lambda>conn. http_send_string conn ''no-transform''),
     (GENERAL_HEADER_PUBLIC_SET, \<lambda>conn. http_send_string conn ''public''),
     (GENERAL_HEADER_PRIVATE_SET, \<lambda>conn. http_send_string conn ''private''),
     (GENERAL_HEADER_MUST_REVALIDATE_SET, \<lambda>conn. http_send_string conn ''must-revalidate''),
     (GENERAL_HEADER_PROXY_REVALIDATE_SET, \<lambda>conn. http_send_string conn ''proxy-revalidate''),
     (GENERAL_HEADER_S_MAXAGE_SET, \<lambda>conn. http_send_int conn ''s-maxage='' (gh_s_maxage gh))]"

fun cc_loop :: "general_header \<Rightarrow> (64 word \<times> (connection \<Rightarrow> (status_t \<times> connection) option)) list \<Rightarrow> int \<Rightarrow> connection \<Rightarrow>
    (status_t \<times> connection) option" where
  "cc_loop gh [] nfields conn = (if nfields = 0 then Some (success, conn) else None)"
| "cc_loop gh ((flag, send) # ds) nfields conn = (
     if general_header_flag_is_set gh flag then do {
       (ok, conn) \<leftarrow> send conn;
       if ok then do {
         (ok, conn) \<leftarrow> (if nfields \<noteq> 0 then http_send_string conn '', '' else Some (success, conn));
         if ok then cc_loop gh ds (nfields - 1) conn else Some (failure, conn) }
       else Some (failure, conn) }
     else cc_loop gh ds nfields conn)"

definition send_cachecontrol :: "general_header \<Rightarrow> connection \<Rightarrow> (status_t \<times> connection) option" where
  "send_cachecontrol gh conn = do {
     (ok, conn) \<leftarrow> http_send_string conn ''Cache-Control: '';
     if ok then cc_loop gh (cc_directives gh) (cachecontrol_field_set gh) conn else Some (failure, conn) }"

definition gh_send_fields :: "(64 word \<times> (general_header \<Rightarrow> connection \<Rightarrow> (status_t \<times> connection) option)) list" where
  "gh_send_fields = [
     (GENERAL_HEADER_PRAGMA_SET, send_pragma),
     (GENERAL_HEADER_DATE_SET, send_date),
     (GENERAL_HEADER_CONNECTION_SET, send_connection),
     (GENERAL_HEADER_TRAILER_SET, send_trailer),
     (GENERAL_HEADER_TRANSFER_ENCODING_SET, send_transfer_encoding),
     (GENERAL_HEADER_UPGRADE_SET, send_upgrade),
     (GENERAL_HEADER_VIA_SET, send_via),
     (GENERAL_HEADER_WARNING_SET, send_warning)]"

definition general_header_send_fields :: "general_header \<Rightarrow> connection \<Rightarrow> (status_t \<times> connection) option" where
  "general_header_send_fields gh conn = do {
     (rc, conn) \<leftarrow> send_table general_header_flag_is_set gh_send_fields gh conn;
     if rc \<and> cachecontrol_field_set gh \<noteq> 0 then send_cachecontrol gh conn else Some (rc, conn) }"

subsection \<open>Parsing\<close>

text \<open>
  The two tables of \<open>set_cache_control\<close>. \<open>strstr(s, d) == s\<close> says that \<open>s\<close> starts with \<open>d\<close>. The value of the numeric
  directives is the whole text behind the first equals sign.
\<close>

definition type1 :: "(string \<times> (general_header \<Rightarrow> general_header)) list" where
  "type1 = [
     (''no-cache'', general_header_set_no_cache),
     (''no-store'', general_header_set_no_store),
     (''no-transform'', general_header_set_no_transform),
     (''only-if-cached'', general_header_set_only_if_cached)]"

definition type2 :: "(string \<times> (general_header \<Rightarrow> int \<Rightarrow> general_header)) list" where
  "type2 = [
     (''max-age'', general_header_set_max_age),
     (''max-stale'', general_header_set_max_stale),
     (''min-fresh'', general_header_set_min_fresh)]"

fun find_directive :: "(string \<times> 'f) list \<Rightarrow> string \<Rightarrow> 'f option" where
  "find_directive [] s = None"
| "find_directive ((d, f) # ds) s = (if strstr s d = Some 0 then Some f else find_directive ds s)"

definition set_cache_control :: "general_header \<Rightarrow> string \<Rightarrow> error \<Rightarrow> status_t \<times> general_header \<times> error" where
  "set_cache_control gh s e = (
     case find_directive type1 s of
       Some func \<Rightarrow> (success, func gh, e)
     | None \<Rightarrow> (
         case find_directive type2 s of
           Some func \<Rightarrow> (
             case strchr s (CHR ''='') of
               None \<Rightarrow> (failure, gh, set_http_error e 400)
             | Some eq \<Rightarrow> (
                 case toint (drop (eq + 1) s) of
                   Inl _ \<Rightarrow> (failure, gh, set_http_error e 400)
                 | Inr arg \<Rightarrow> (success, func gh arg, e)))
         | None \<Rightarrow> (success, gh, e)))"

definition parse_transfer_encoding :: "general_header \<Rightarrow> string \<Rightarrow> error \<Rightarrow> allocator \<Rightarrow> (status_t \<times> general_header \<times> error \<times> allocator) option" where
  "parse_transfer_encoding gh val e a = general_header_set_transfer_encoding gh val a \<bind> or_os_error e"

definition parse_pragma :: "general_header \<Rightarrow> string \<Rightarrow> error \<Rightarrow> allocator \<Rightarrow> (status_t \<times> general_header \<times> error \<times> allocator) option" where
  "parse_pragma gh val e a = Some (success, if strstr val ''no-cache'' = Some 0 then general_header_set_no_cache gh else gh, e, a)"

definition parse_warning :: "general_header \<Rightarrow> string \<Rightarrow> error \<Rightarrow> allocator \<Rightarrow> (status_t \<times> general_header \<times> error \<times> allocator) option" where
  "parse_warning gh val e a = general_header_set_warning gh val a \<bind> or_os_error e"

text \<open>
  The loop of \<open>parse_cache_control\<close>: behind each blank a directive is looked for, and the search for the next blank
  starts one character later; when the blank is the last character, that is behind the terminator.
\<close>

function cc_parse_loop :: "general_header \<Rightarrow> string \<Rightarrow> error \<Rightarrow> (status_t \<times> general_header \<times> error) option" where
  "cc_parse_loop gh val e = (
     case strchr val (CHR '' '') of
       None \<Rightarrow> Some (set_cache_control gh val e)
     | Some i \<Rightarrow> (
         let s = drop (i + 1) val; (ok, gh', e') = set_cache_control gh s e in
         if \<not> ok then Some (failure, gh', e')
         else if s = [] then None
         else cc_parse_loop gh' (drop (i + 2) val) e'))"
  by pat_completeness auto
termination by (relation "measure (\<lambda>(gh, val, e). length val)") (auto dest: strchr_Some)

declare cc_parse_loop.simps [simp del]

definition parse_cache_control :: "general_header \<Rightarrow> string \<Rightarrow> error \<Rightarrow> allocator \<Rightarrow> (status_t \<times> general_header \<times> error \<times> allocator) option" where
  "parse_cache_control gh val e a = do { (ok, gh, e) \<leftarrow> cc_parse_loop gh val e; Some (ok, gh, e, a) }"

definition parse_date :: "(tm \<Rightarrow> int) \<Rightarrow> general_header \<Rightarrow> string \<Rightarrow> error \<Rightarrow> allocator \<Rightarrow> (status_t \<times> general_header \<times> error \<times> allocator) option" where
  "parse_date mktime gh val e a = do {
     d \<leftarrow> parse_rfc822_date mktime val;
     if d = - 1 then Some (failure, gh, set_http_error e 400, a)
     else do { gh \<leftarrow> general_header_set_date gh d; Some (success, gh, e, a) } }"

definition parse_connection :: "general_header \<Rightarrow> string \<Rightarrow> error \<Rightarrow> allocator \<Rightarrow> (status_t \<times> general_header \<times> error \<times> allocator) option" where
  "parse_connection gh val e a =
     general_header_set_connection gh (if \<not> strcasecmp0 val ''keep-alive'' then ''close'' else val) a \<bind> or_os_error e"

definition parse_trailer :: "general_header \<Rightarrow> string \<Rightarrow> error \<Rightarrow> allocator \<Rightarrow> (status_t \<times> general_header \<times> error \<times> allocator) option" where
  "parse_trailer gh val e a = general_header_set_trailer gh val a \<bind> or_os_error e"

definition parse_upgrade :: "general_header \<Rightarrow> string \<Rightarrow> error \<Rightarrow> allocator \<Rightarrow> (status_t \<times> general_header \<times> error \<times> allocator) option" where
  "parse_upgrade gh val e a = general_header_set_upgrade gh val a \<bind> or_os_error e"

definition parse_via :: "general_header \<Rightarrow> string \<Rightarrow> error \<Rightarrow> allocator \<Rightarrow> (status_t \<times> general_header \<times> error \<times> allocator) option" where
  "parse_via gh val e a = general_header_set_via gh val a \<bind> or_os_error e"

definition general_header_fields ::
    "(tm \<Rightarrow> int) \<Rightarrow> (string \<times> (general_header \<Rightarrow> string \<Rightarrow> error \<Rightarrow> allocator \<Rightarrow> (status_t \<times> general_header \<times> error \<times> allocator) option)) list" where
  "general_header_fields mktime = [
     (''cache-control'', parse_cache_control),
     (''date'', parse_date mktime),
     (''pragma'', parse_pragma),
     (''connection'', parse_connection),
     (''trailer'', parse_trailer),
     (''transfer-encoding'', parse_transfer_encoding),
     (''upgrade'', parse_upgrade),
     (''via'', parse_via),
     (''warning'', parse_warning)]"

definition find_general_header :: "string \<Rightarrow> int" where
  "find_general_header name = find_field (general_header_fields (\<lambda>t. 0)) name 0"

definition parse_general_header :: "(tm \<Rightarrow> int) \<Rightarrow> int \<Rightarrow> general_header \<Rightarrow> string \<Rightarrow> error \<Rightarrow> allocator \<Rightarrow>
    (status_t \<times> general_header \<times> error \<times> allocator) option" where
  "parse_general_header mktime idx gh val e a = (
     if 0 \<le> idx \<and> idx < int (length (general_header_fields mktime)) then snd (general_header_fields mktime ! nat idx) gh val e a
     else None)"
subsection \<open>Invariant and view\<close>

definition gh_ok :: "general_header \<Rightarrow> bool" where
  "gh_ok gh \<longleftrightarrow> cs_inv (gh_connection gh) \<and> cs_inv (gh_pragma gh) \<and> cs_inv (gh_trailer gh) \<and> cs_inv (gh_transfer_encoding gh) \<and>
     cs_inv (gh_upgrade gh) \<and> cs_inv (gh_via gh) \<and> cs_inv (gh_warning gh) \<and> \<not> general_header_flag_is_set gh GENERAL_HEADER_CACHE_EXTENSION_SET \<and>
     (\<forall>v \<in> {gh_max_age gh, gh_s_maxage gh, gh_max_stale gh, gh_min_fresh gh}. INT_MIN \<le> v \<and> v \<le> INT_MAX)"

definition gh_strings :: "(string \<times> 64 word \<times> (general_header \<Rightarrow> cstring)) list" where
  "gh_strings = [
     (''connection'', GENERAL_HEADER_CONNECTION_SET, gh_connection),
     (''trailer'', GENERAL_HEADER_TRAILER_SET, gh_trailer),
     (''transfer-encoding'', GENERAL_HEADER_TRANSFER_ENCODING_SET, gh_transfer_encoding),
     (''upgrade'', GENERAL_HEADER_UPGRADE_SET, gh_upgrade),
     (''via'', GENERAL_HEADER_VIA_SET, gh_via),
     (''warning'', GENERAL_HEADER_WARNING_SET, gh_warning)]"

text \<open>The abstract state: the string fields that are set, by name.\<close>

definition gh_view :: "general_header \<Rightarrow> string \<rightharpoonup> string" where
  "gh_view gh name = (case map_of gh_strings name of
     None \<Rightarrow> None
   | Some (flag, fld) \<Rightarrow> if general_header_flag_is_set gh flag then Some (cs_str (fld gh)) else None)"

lemma gh_flag_bits:
  "GENERAL_HEADER_DATE_SET = 2 ^ 0" "GENERAL_HEADER_TRAILER_SET = 2 ^ 1" "GENERAL_HEADER_TRANSFER_ENCODING_SET = 2 ^ 2"
  "GENERAL_HEADER_ONLY_IF_CACHED_SET = 2 ^ 3" "GENERAL_HEADER_UPGRADE_SET = 2 ^ 4" "GENERAL_HEADER_VIA_SET = 2 ^ 5"
  "GENERAL_HEADER_WARNING_SET = 2 ^ 6" "GENERAL_HEADER_CONNECTION_SET = 2 ^ 7" "GENERAL_HEADER_PRAGMA_SET = 2 ^ 8"
  "GENERAL_HEADER_NO_CACHE_SET = 2 ^ 9" "GENERAL_HEADER_NO_STORE_SET = 2 ^ 10" "GENERAL_HEADER_MAX_AGE_SET = 2 ^ 11"
  "GENERAL_HEADER_MAX_STALE_SET = 2 ^ 12" "GENERAL_HEADER_MIN_FRESH_SET = 2 ^ 13" "GENERAL_HEADER_NO_TRANSFORM_SET = 2 ^ 14"
  "GENERAL_HEADER_PUBLIC_SET = 2 ^ 15" "GENERAL_HEADER_PRIVATE_SET = 2 ^ 16" "GENERAL_HEADER_MUST_REVALIDATE_SET = 2 ^ 17"
  "GENERAL_HEADER_PROXY_REVALIDATE_SET = 2 ^ 18" "GENERAL_HEADER_S_MAXAGE_SET = 2 ^ 19" "GENERAL_HEADER_CACHE_EXTENSION_SET = 2 ^ 20"
  by (simp_all add: gh_flag_defs)

lemma gh_bits:
  "general_header_flag_is_set gh GENERAL_HEADER_DATE_SET \<longleftrightarrow> bit (gh_flags gh) 0"
  "general_header_flag_is_set gh GENERAL_HEADER_TRAILER_SET \<longleftrightarrow> bit (gh_flags gh) 1"
  "general_header_flag_is_set gh GENERAL_HEADER_TRANSFER_ENCODING_SET \<longleftrightarrow> bit (gh_flags gh) 2"
  "general_header_flag_is_set gh GENERAL_HEADER_ONLY_IF_CACHED_SET \<longleftrightarrow> bit (gh_flags gh) 3"
  "general_header_flag_is_set gh GENERAL_HEADER_UPGRADE_SET \<longleftrightarrow> bit (gh_flags gh) 4"
  "general_header_flag_is_set gh GENERAL_HEADER_VIA_SET \<longleftrightarrow> bit (gh_flags gh) 5"
  "general_header_flag_is_set gh GENERAL_HEADER_WARNING_SET \<longleftrightarrow> bit (gh_flags gh) 6"
  "general_header_flag_is_set gh GENERAL_HEADER_CONNECTION_SET \<longleftrightarrow> bit (gh_flags gh) 7"
  "general_header_flag_is_set gh GENERAL_HEADER_PRAGMA_SET \<longleftrightarrow> bit (gh_flags gh) 8"
  "general_header_flag_is_set gh GENERAL_HEADER_NO_CACHE_SET \<longleftrightarrow> bit (gh_flags gh) 9"
  "general_header_flag_is_set gh GENERAL_HEADER_NO_STORE_SET \<longleftrightarrow> bit (gh_flags gh) 10"
  "general_header_flag_is_set gh GENERAL_HEADER_MAX_AGE_SET \<longleftrightarrow> bit (gh_flags gh) 11"
  "general_header_flag_is_set gh GENERAL_HEADER_MAX_STALE_SET \<longleftrightarrow> bit (gh_flags gh) 12"
  "general_header_flag_is_set gh GENERAL_HEADER_MIN_FRESH_SET \<longleftrightarrow> bit (gh_flags gh) 13"
  "general_header_flag_is_set gh GENERAL_HEADER_NO_TRANSFORM_SET \<longleftrightarrow> bit (gh_flags gh) 14"
  "general_header_flag_is_set gh GENERAL_HEADER_PUBLIC_SET \<longleftrightarrow> bit (gh_flags gh) 15"
  "general_header_flag_is_set gh GENERAL_HEADER_PRIVATE_SET \<longleftrightarrow> bit (gh_flags gh) 16"
  "general_header_flag_is_set gh GENERAL_HEADER_MUST_REVALIDATE_SET \<longleftrightarrow> bit (gh_flags gh) 17"
  "general_header_flag_is_set gh GENERAL_HEADER_PROXY_REVALIDATE_SET \<longleftrightarrow> bit (gh_flags gh) 18"
  "general_header_flag_is_set gh GENERAL_HEADER_S_MAXAGE_SET \<longleftrightarrow> bit (gh_flags gh) 19"
  "general_header_flag_is_set gh GENERAL_HEADER_CACHE_EXTENSION_SET \<longleftrightarrow> bit (gh_flags gh) 20"
  by (simp_all only: gh_flag_bits general_header_flag_is_set_def and_exp_flag)

lemma gh_set_exp: "n < 64 \<Longrightarrow> bit (gh_flags (general_header_set_flag gh (2 ^ n))) k \<longleftrightarrow> bit (gh_flags gh) k \<or> k = n"
  by (simp add: general_header_set_flag_def bit_or_exp)

lemma gh_set_bits:
  "bit (gh_flags (general_header_set_flag gh GENERAL_HEADER_DATE_SET)) k \<longleftrightarrow> bit (gh_flags gh) k \<or> k = 0"
  "bit (gh_flags (general_header_set_flag gh GENERAL_HEADER_TRAILER_SET)) k \<longleftrightarrow> bit (gh_flags gh) k \<or> k = 1"
  "bit (gh_flags (general_header_set_flag gh GENERAL_HEADER_TRANSFER_ENCODING_SET)) k \<longleftrightarrow> bit (gh_flags gh) k \<or> k = 2"
  "bit (gh_flags (general_header_set_flag gh GENERAL_HEADER_ONLY_IF_CACHED_SET)) k \<longleftrightarrow> bit (gh_flags gh) k \<or> k = 3"
  "bit (gh_flags (general_header_set_flag gh GENERAL_HEADER_UPGRADE_SET)) k \<longleftrightarrow> bit (gh_flags gh) k \<or> k = 4"
  "bit (gh_flags (general_header_set_flag gh GENERAL_HEADER_VIA_SET)) k \<longleftrightarrow> bit (gh_flags gh) k \<or> k = 5"
  "bit (gh_flags (general_header_set_flag gh GENERAL_HEADER_WARNING_SET)) k \<longleftrightarrow> bit (gh_flags gh) k \<or> k = 6"
  "bit (gh_flags (general_header_set_flag gh GENERAL_HEADER_CONNECTION_SET)) k \<longleftrightarrow> bit (gh_flags gh) k \<or> k = 7"
  "bit (gh_flags (general_header_set_flag gh GENERAL_HEADER_PRAGMA_SET)) k \<longleftrightarrow> bit (gh_flags gh) k \<or> k = 8"
  "bit (gh_flags (general_header_set_flag gh GENERAL_HEADER_NO_CACHE_SET)) k \<longleftrightarrow> bit (gh_flags gh) k \<or> k = 9"
  "bit (gh_flags (general_header_set_flag gh GENERAL_HEADER_NO_STORE_SET)) k \<longleftrightarrow> bit (gh_flags gh) k \<or> k = 10"
  "bit (gh_flags (general_header_set_flag gh GENERAL_HEADER_MAX_AGE_SET)) k \<longleftrightarrow> bit (gh_flags gh) k \<or> k = 11"
  "bit (gh_flags (general_header_set_flag gh GENERAL_HEADER_MAX_STALE_SET)) k \<longleftrightarrow> bit (gh_flags gh) k \<or> k = 12"
  "bit (gh_flags (general_header_set_flag gh GENERAL_HEADER_MIN_FRESH_SET)) k \<longleftrightarrow> bit (gh_flags gh) k \<or> k = 13"
  "bit (gh_flags (general_header_set_flag gh GENERAL_HEADER_NO_TRANSFORM_SET)) k \<longleftrightarrow> bit (gh_flags gh) k \<or> k = 14"
  "bit (gh_flags (general_header_set_flag gh GENERAL_HEADER_PUBLIC_SET)) k \<longleftrightarrow> bit (gh_flags gh) k \<or> k = 15"
  "bit (gh_flags (general_header_set_flag gh GENERAL_HEADER_PRIVATE_SET)) k \<longleftrightarrow> bit (gh_flags gh) k \<or> k = 16"
  "bit (gh_flags (general_header_set_flag gh GENERAL_HEADER_MUST_REVALIDATE_SET)) k \<longleftrightarrow> bit (gh_flags gh) k \<or> k = 17"
  "bit (gh_flags (general_header_set_flag gh GENERAL_HEADER_PROXY_REVALIDATE_SET)) k \<longleftrightarrow> bit (gh_flags gh) k \<or> k = 18"
  "bit (gh_flags (general_header_set_flag gh GENERAL_HEADER_S_MAXAGE_SET)) k \<longleftrightarrow> bit (gh_flags gh) k \<or> k = 19"
  "bit (gh_flags (general_header_set_flag gh GENERAL_HEADER_CACHE_EXTENSION_SET)) k \<longleftrightarrow> bit (gh_flags gh) k \<or> k = 20"
  by (simp_all only: gh_flag_bits gh_set_exp arith_simps rel_simps)

lemma gh_set_flag_sel [simp]:
  "gh_connection (general_header_set_flag gh f) = gh_connection gh" "gh_pragma (general_header_set_flag gh f) = gh_pragma gh"
  "gh_trailer (general_header_set_flag gh f) = gh_trailer gh" "gh_transfer_encoding (general_header_set_flag gh f) = gh_transfer_encoding gh"
  "gh_upgrade (general_header_set_flag gh f) = gh_upgrade gh" "gh_via (general_header_set_flag gh f) = gh_via gh"
  "gh_warning (general_header_set_flag gh f) = gh_warning gh" "gh_date (general_header_set_flag gh f) = gh_date gh"
  "gh_max_age (general_header_set_flag gh f) = gh_max_age gh" "gh_s_maxage (general_header_set_flag gh f) = gh_s_maxage gh"
  "gh_max_stale (general_header_set_flag gh f) = gh_max_stale gh" "gh_min_fresh (general_header_set_flag gh f) = gh_min_fresh gh"
  by (simp_all add: general_header_set_flag_def)

lemmas gh_simps = gh_bits gh_set_bits

interpretation ghc: view_field gh_ok gh_connection "\<lambda>s gh. gh\<lparr>gh_connection := s\<rparr>"
    "\<lambda>gh. general_header_set_flag gh GENERAL_HEADER_CONNECTION_SET" general_header_set_connection gh_view "''connection''"
  by unfold_locales (auto simp: gh_ok_def gh_simps general_header_set_connection_def Let_def gh_view_def gh_strings_def cs_rep_str fun_eq_iff intro!: Option.bind_cong)

interpretation ght: view_field gh_ok gh_trailer "\<lambda>s gh. gh\<lparr>gh_trailer := s\<rparr>"
    "\<lambda>gh. general_header_set_flag gh GENERAL_HEADER_TRAILER_SET" general_header_set_trailer gh_view "''trailer''"
  by unfold_locales (auto simp: gh_ok_def gh_simps general_header_set_trailer_def Let_def gh_view_def gh_strings_def cs_rep_str fun_eq_iff intro!: Option.bind_cong)

interpretation ghe: view_field gh_ok gh_transfer_encoding "\<lambda>s gh. gh\<lparr>gh_transfer_encoding := s\<rparr>"
    "\<lambda>gh. general_header_set_flag gh GENERAL_HEADER_TRANSFER_ENCODING_SET" general_header_set_transfer_encoding gh_view "''transfer-encoding''"
  by unfold_locales (auto simp: gh_ok_def gh_simps general_header_set_transfer_encoding_def Let_def gh_view_def gh_strings_def cs_rep_str fun_eq_iff intro!: Option.bind_cong)

interpretation ghu: view_field gh_ok gh_upgrade "\<lambda>s gh. gh\<lparr>gh_upgrade := s\<rparr>"
    "\<lambda>gh. general_header_set_flag gh GENERAL_HEADER_UPGRADE_SET" general_header_set_upgrade gh_view "''upgrade''"
  by unfold_locales (auto simp: gh_ok_def gh_simps general_header_set_upgrade_def Let_def gh_view_def gh_strings_def cs_rep_str fun_eq_iff intro!: Option.bind_cong)

interpretation ghv: view_field gh_ok gh_via "\<lambda>s gh. gh\<lparr>gh_via := s\<rparr>"
    "\<lambda>gh. general_header_set_flag gh GENERAL_HEADER_VIA_SET" general_header_set_via gh_view "''via''"
  by unfold_locales (auto simp: gh_ok_def gh_simps general_header_set_via_def Let_def gh_view_def gh_strings_def cs_rep_str fun_eq_iff intro!: Option.bind_cong)

interpretation ghw: view_field gh_ok gh_warning "\<lambda>s gh. gh\<lparr>gh_warning := s\<rparr>"
    "\<lambda>gh. general_header_set_flag gh GENERAL_HEADER_WARNING_SET" general_header_set_warning gh_view "''warning''"
  by unfold_locales (auto simp: gh_ok_def gh_simps general_header_set_warning_def Let_def gh_view_def gh_strings_def cs_rep_str fun_eq_iff intro!: Option.bind_cong)

interpretation ghp: string_field gh_ok gh_pragma "\<lambda>s gh. gh\<lparr>gh_pragma := s\<rparr>"
    "\<lambda>gh. general_header_set_flag gh GENERAL_HEADER_PRAGMA_SET" general_header_set_pragma
  by unfold_locales (auto simp: gh_ok_def gh_simps general_header_set_pragma_def Let_def intro!: Option.bind_cong)

subsection \<open>Cache-Control\<close>

lemma find_field_gh: "find_field (general_header_fields mktime) name k = find_field (general_header_fields mktime') name k"
  by (simp add: general_header_fields_def)

lemma gh_parse_named:
  assumes "map_of (general_header_fields mktime) name = Some h"
  shows "parse_general_header mktime (find_general_header name) gh val e a = h gh val e a"
  using assms by (auto simp: find_general_header_def parse_general_header_def general_header_fields_def strcmp0_def split: if_splits)

lemma cc_blank:
  assumes "CHR '' '' \<notin> set d"
  shows "cc_parse_loop gh d e = Some (set_cache_control gh d e)"
    "cc_parse_loop gh (d @ CHR '' '' # w) e = (case set_cache_control gh w e of (ok, gh', e') \<Rightarrow>
       if \<not> ok then Some (failure, gh', e') else if w = [] then None else cc_parse_loop gh' (tl w) e')"
proof -
  show "cc_parse_loop gh d e = Some (set_cache_control gh d e)"
    using assms by (simp add: cc_parse_loop.simps strchr_None [THEN iffD2])
  have "strchr (d @ CHR '' '' # w) (CHR '' '') = Some (length d)" using assms by (induction d) auto
  then show "cc_parse_loop gh (d @ CHR '' '' # w) e = (case set_cache_control gh w e of (ok, gh', e') \<Rightarrow>
       if \<not> ok then Some (failure, gh', e') else if w = [] then None else cc_parse_loop gh' (tl w) e')"
    by (subst cc_parse_loop.simps) (simp add: drop_Suc tl_drop Let_def case_prod_beta)
qed

lemma find_directive_mem: "find_directive ds s = Some f \<Longrightarrow> f \<in> snd ` set ds"
  by (induction ds s rule: find_directive.induct) (auto split: if_splits)

lemmas gh_setter_defs = general_header_set_no_cache_def general_header_set_no_store_def general_header_set_no_transform_def
  general_header_set_only_if_cached_def general_header_set_max_age_def general_header_set_max_stale_def general_header_set_min_fresh_def

lemma gh_view_eq:
  assumes "\<And>k. k \<in> {1, 2, 4, 5, 6, 7} \<Longrightarrow> bit (gh_flags g) k = bit (gh_flags h) k"
    "gh_connection g = gh_connection h" "gh_trailer g = gh_trailer h" "gh_transfer_encoding g = gh_transfer_encoding h"
    "gh_upgrade g = gh_upgrade h" "gh_via g = gh_via h" "gh_warning g = gh_warning h"
  shows "gh_view g = gh_view h"
  using assms(2-) by (simp add: fun_eq_iff gh_view_def gh_strings_def gh_bits assms(1))

lemma type1_ok: "gh_ok gh \<Longrightarrow> f \<in> snd ` set type1 \<Longrightarrow> gh_ok (f gh) \<and> gh_view (f gh) = gh_view gh"
  by (auto simp: type1_def gh_setter_defs gh_ok_def gh_simps intro!: gh_view_eq)

lemma type2_ok: "gh_ok gh \<Longrightarrow> f \<in> snd ` set type2 \<Longrightarrow> INT_MIN \<le> v \<Longrightarrow> v \<le> INT_MAX \<Longrightarrow> gh_ok (f gh v) \<and> gh_view (f gh v) = gh_view gh"
  by (auto simp: type2_def gh_setter_defs gh_ok_def gh_simps intro!: gh_view_eq)

lemma set_cc_ok:
  assumes "gh_ok gh" "set_cache_control gh s e = (st, gh', e')"
  shows "gh_ok gh' \<and> gh_view gh' = gh_view gh \<and> (st \<longrightarrow> e' = e) \<and> (\<not> st \<longrightarrow> e' = set_http_error e 400)"
proof (cases "find_directive type1 s")
  case (Some f)
  then show ?thesis using assms type1_ok [OF assms(1) find_directive_mem [OF Some]] by (auto simp: set_cache_control_def)
next
  case none: None
  show ?thesis
  proof (cases "find_directive type2 s")
    case (Some f)
    show ?thesis using assms(2) none Some type2_ok [OF assms(1) find_directive_mem [OF Some] toint_range [THEN conjunct1] toint_range [THEN conjunct2]] assms(1)
      by (auto simp: set_cache_control_def split: option.splits sum.splits)
  qed (use assms none in \<open>auto simp: set_cache_control_def\<close>)
qed

lemma cc_loop_ok:
  assumes "gh_ok gh" "cc_parse_loop gh s e = Some (st, gh', e')"
  shows "gh_ok gh' \<and> gh_view gh' = gh_view gh \<and> (st \<longrightarrow> e' = e) \<and> (\<not> st \<longrightarrow> e' = set_http_error e 400)"
  using assms
proof (induction gh s e rule: cc_parse_loop.induct)
  case (1 gh val e)
  show ?case
  proof (cases "strchr val (CHR '' '')")
    case None
    then show ?thesis using 1(2,3) set_cc_ok [of gh val e st gh' e'] by (simp add: cc_parse_loop.simps [of gh val e])
  next
    case (Some i)
    obtain ok g1 e1 where s: "set_cache_control gh (drop (i + 1) val) e = (ok, g1, e1)" by (metis prod_cases3)
    note S = set_cc_ok [OF 1(2) s]
    show ?thesis using 1(3) Some s S 1(1) [OF Some refl s [symmetric] refl refl]
      by (auto simp: cc_parse_loop.simps [of gh val e] split: if_splits)
  qed
qed

text \<open>Every field keeps the invariant.\<close>

lemma gh_keeps_ok:
  assumes "gh_ok gh" "c_string v" "length v \<le> PTRDIFF_MAX" "parse_general_header mktime i gh v e a = Some (st, gh', e', a')"
  shows "gh_ok gh'"
proof -
  have s: "gh_ok gh'" if "field_post gh_ok gh_view gh n w e (Some (st, gh', e', a'))" for n w using that by (auto simp: field_post_def)
  have conn: "c_string (if \<not> strcasecmp0 v ''keep-alive'' then ''close'' else v)" "length (if \<not> strcasecmp0 v ''keep-alive'' then ''close'' else v) \<le> PTRDIFF_MAX"
    using assms(2,3) by (auto simp: PTRDIFF_MAX_def)
  obtain n h where h: "(n, h) \<in> set (general_header_fields mktime)" "h gh v e a = Some (st, gh', e', a')"
    by (rule table_entry [of i "general_header_fields mktime"]) (use assms(4) in \<open>auto simp: parse_general_header_def split: if_splits\<close>)
  from h(1) consider "h = parse_cache_control" | "h = parse_date mktime" | "h = parse_pragma" | "h = parse_connection" | "h = parse_trailer"
    | "h = parse_transfer_encoding" | "h = parse_upgrade" | "h = parse_via" | "h = parse_warning" by (auto simp: general_header_fields_def)
  then show ?thesis
  proof cases
    case 1
    then show ?thesis using h(2) cc_loop_ok [OF assms(1)] by (auto simp: parse_cache_control_def bind_eq_Some_conv)
  next
    case 2
    then show ?thesis using h(2) assms(1) by (auto simp: parse_date_def general_header_set_date_def gh_ok_def gh_simps bind_eq_Some_conv split: if_splits)
  next
    case 3
    then show ?thesis using h(2) assms(1) by (cases "strstr v ''no-cache'' = Some 0") (auto simp: parse_pragma_def general_header_set_no_cache_def gh_ok_def gh_simps)
  next
    case 4
    then show ?thesis using s ghc.handler_view [OF assms(1) conn, of e a] h(2) by (simp add: parse_connection_def)
  next
    case 5
    then show ?thesis using s ght.handler_view [OF assms(1-3), of e a] h(2) by (simp add: parse_trailer_def)
  next
    case 6
    then show ?thesis using s ghe.handler_view [OF assms(1-3), of e a] h(2) by (simp add: parse_transfer_encoding_def)
  next
    case 7
    then show ?thesis using s ghu.handler_view [OF assms(1-3), of e a] h(2) by (simp add: parse_upgrade_def)
  next
    case 8
    then show ?thesis using s ghv.handler_view [OF assms(1-3), of e a] h(2) by (simp add: parse_via_def)
  next
    case 9
    then show ?thesis using s ghw.handler_view [OF assms(1-3), of e a] h(2) by (simp add: parse_warning_def)
  qed
qed

subsection \<open>What is sent\<close>

definition gh_lines :: "(64 word \<times> (general_header \<Rightarrow> string)) list" where
  "gh_lines = [
     (GENERAL_HEADER_PRAGMA_SET, \<lambda>gh. ''Pragma: '' @ cs_str (gh_pragma gh) @ crlf),
     (GENERAL_HEADER_DATE_SET, \<lambda>gh. ''Date: '' @ http_date (gh_date gh)),
     (GENERAL_HEADER_CONNECTION_SET, \<lambda>gh. ''Connection: '' @ cs_str (gh_connection gh) @ crlf),
     (GENERAL_HEADER_TRAILER_SET, \<lambda>gh. ''Trailer: '' @ cs_str (gh_trailer gh) @ crlf),
     (GENERAL_HEADER_TRANSFER_ENCODING_SET, \<lambda>gh. ''Transfer-Encoding: '' @ cs_str (gh_transfer_encoding gh) @ crlf),
     (GENERAL_HEADER_UPGRADE_SET, \<lambda>gh. ''Upgrade: '' @ cs_str (gh_upgrade gh) @ crlf),
     (GENERAL_HEADER_VIA_SET, \<lambda>gh. ''Via: '' @ cs_str (gh_via gh) @ crlf),
     (GENERAL_HEADER_WARNING_SET, \<lambda>gh. ''Warning: '' @ cs_str (gh_warning gh) @ crlf)]"

definition cc_texts :: "general_header \<Rightarrow> (64 word \<times> string) list" where
  "cc_texts gh =
    [(GENERAL_HEADER_NO_CACHE_SET, ''no-cache''), (GENERAL_HEADER_NO_STORE_SET, ''no-store''),
     (GENERAL_HEADER_MAX_AGE_SET, ''max-age='' @ int_str (gh_max_age gh)), (GENERAL_HEADER_MAX_STALE_SET, ''max-stale='' @ int_str (gh_max_stale gh)),
     (GENERAL_HEADER_MIN_FRESH_SET, ''min-fresh='' @ int_str (gh_min_fresh gh)), (GENERAL_HEADER_NO_TRANSFORM_SET, ''no-transform''),
     (GENERAL_HEADER_PUBLIC_SET, ''public''), (GENERAL_HEADER_PRIVATE_SET, ''private''),
     (GENERAL_HEADER_MUST_REVALIDATE_SET, ''must-revalidate''), (GENERAL_HEADER_PROXY_REVALIDATE_SET, ''proxy-revalidate''),
     (GENERAL_HEADER_S_MAXAGE_SET, ''s-maxage='' @ int_str (gh_s_maxage gh))]"

text \<open>The directives that are set, each with its separator.\<close>

definition cc_line :: "general_header \<Rightarrow> (64 word \<times> string) list \<Rightarrow> string" where
  "cc_line gh ts = concat (map (\<lambda>(flag, t). if general_header_flag_is_set gh flag then t @ '', '' else []) ts)"

lemma cc_line_end:
  assumes "\<exists>(f, t) \<in> set ts. general_header_flag_is_set gh f"
  shows "\<exists>t. cc_line gh ts = t @ '', ''"
  using assms
proof (induction ts rule: rev_induct)
  case (snoc x ts)
  then show ?case by (cases x) (auto simp: cc_line_def)
qed simp

lemma send_int_sends:
  "conn_ok c \<Longrightarrow> INT_MIN \<le> v \<Longrightarrow> v \<le> INT_MAX \<Longrightarrow> length name < 900 \<Longrightarrow> sends c (name @ int_str v) (http_send_int c name v)"
  using length_int_str [of v] by (simp add: http_send_int_def send_printf_def write_spec)

lemma cc_loop_sends:
  assumes "list_all2 (\<lambda>(f, send) (g, t). f = g \<and> (\<forall>c. conn_ok c \<longrightarrow> sends c t (send c))) ds ts" "conn_ok c"
    "n = int (length (filter (\<lambda>(f, send). general_header_flag_is_set gh f) ds))"
  shows "sends c (cc_line gh ts) (cc_loop gh ds n c)"
  using assms
proof (induction ds ts arbitrary: c n rule: list_all2_induct)
  case Nil
  then show ?case by (simp add: cc_line_def sends_id)
next
  case (Cons x ds y ts)
  obtain f send where x: "x = (f, send)" by (cases x)
  obtain t where y: "y = (f, t)" "conn_ok d \<Longrightarrow> sends d t (send d)" for d using Cons.hyps(1) x by (cases y) auto
  show ?case
  proof (cases "general_header_flag_is_set gh f")
    case True
    have n: "n \<noteq> 0" "n - 1 = int (length (filter (\<lambda>(f, send). general_header_flag_is_set gh f) ds))" using Cons.prems(2) True x by simp_all
    have "sends d ('', '' @ cc_line gh ts) ((if n \<noteq> 0 then http_send_string d '', '' else Some (success, d)) \<bind>
        (\<lambda>(ok, d). if ok then cc_loop gh ds (n - 1) d else Some (failure, d)))"
      if "conn_ok d" for d unfolding if_P [OF n(1)] by (rule sends_bind [OF send_string_sends [OF that] Cons.IH [OF _ n(2)]])
    from sends_bind [OF y(2) [OF Cons.prems(1)] this] show ?thesis using True x y(1) by (simp add: cc_line_def)
  next
    case False
    then show ?thesis using Cons.IH [OF Cons.prems(1), of n] Cons.prems(2) x y(1) by (simp add: cc_line_def)
  qed
qed

lemma gh_send_table:
  assumes "conn_ok c" "gh_ok gh"
  shows "sends c (table_lines general_header_flag_is_set gh_lines gh) (send_table general_header_flag_is_set gh_send_fields gh c)"
proof (rule send_table_sends [OF _ assms(1)])
  have "sends c (name @ cs_str s @ crlf) (http_send_field c name s)" if "conn_ok c" "cs_inv s" for c name s
    using send_field_sends [OF that(1)] that(2) by (simp add: cs_inv_def)
  then show "list_all2 (\<lambda>(f, send) (g, line). f = g \<and> (\<forall>c. conn_ok c \<and> general_header_flag_is_set gh f \<longrightarrow> sends c (line gh) (send gh c))) gh_send_fields gh_lines"
    using assms(2) by (simp add: gh_send_fields_def gh_lines_def gh_ok_def send_pragma_def send_connection_def send_trailer_def
        send_transfer_encoding_def send_upgrade_def send_via_def send_warning_def send_date_def send_date_sends del: append.simps)
qed

lemma cc_sends:
  assumes "conn_ok c" "gh_ok gh"
  shows "sends c (''Cache-Control: '' @ cc_line gh (cc_texts gh)) (send_cachecontrol gh c)"
proof -
  have l: "list_all2 (\<lambda>(f, send) (g, t). f = g \<and> (\<forall>c. conn_ok c \<longrightarrow> sends c t (send c))) (cc_directives gh) (cc_texts gh)"
    using assms(2) by (simp add: cc_directives_def cc_texts_def gh_ok_def send_int_sends send_string_sends del: append.simps)
  have "cachecontrol_field_set gh = int (length (filter (\<lambda>(f, send). general_header_flag_is_set gh f) (cc_directives gh)))"
    using assms(2) by (simp add: cachecontrol_field_set_def cc_directives_def gh_ok_def)
  from sends_bind [OF send_string_sends [OF assms(1), of "''Cache-Control: ''"] cc_loop_sends [OF l _ this]] show ?thesis unfolding send_cachecontrol_def .
qed

lemma strstr_0: "strstr s p = Some 0 \<longleftrightarrow> take (length p) s = p"
  by (cases s) auto

lemmas directive_simps = type1_def type2_def strstr_0

lemma int_str_blank: "CHR '' '' \<notin> set (int_str n)"
proof -
  have "CHR '' '' \<notin> set (numeral_str 10 k)" for k using numeral_str_correct [of 10 k] not_space_digit [of 10 "CHR '' ''"] by (auto simp: isspace_def)
  then show ?thesis by (simp add: int_str_def)
qed

subsection \<open>Properties\<close>

lemma string_getters:
  assumes "gh_ok gh"
  shows "general_header_get_trailer gh = gh_view gh ''trailer''" "general_header_get_transfer_encoding gh = gh_view gh ''transfer-encoding''"
    "general_header_get_upgrade gh = gh_view gh ''upgrade''" "general_header_get_via gh = gh_view gh ''via''"
    "general_header_get_warning gh = gh_view gh ''warning''"
    "general_header_get_connection gh = Some (case gh_view gh ''connection'' of None \<Rightarrow> [] | Some v \<Rightarrow> v)"
  using assms by (simp_all add: gh_ok_def gh_view_def gh_strings_def general_header_get_trailer_def general_header_get_transfer_encoding_def
      general_header_get_upgrade_def general_header_get_via_def general_header_get_warning_def general_header_get_connection_def
      cs_inv_def cs_rep_cstr_at)

lemma gh_view_unset: "gh_flags gh = 0 \<Longrightarrow> gh_view gh = Map.empty"
  by (simp add: fun_eq_iff gh_view_def general_header_flag_is_set_def split: option.splits)

lemma general_header_new_ok:
  assumes "general_header_new a = Some (Some gh, a')"
  shows "gh_ok gh \<and> gh_view gh = Map.empty"
proof -
  obtain ok a1 where al: "try_alloc 88 a = (ok, a1)" by fastforce
  obtain st d a2 where m: "multinew_loop 7 [] a1 = (st, d, a2)" "st \<longrightarrow> (\<exists>ns. d = ns \<and> list_all2 cs_fresh ns (replicate 7 []))"
    using multinew_spec [of 7 "[]" a1] by auto
  have st: "ok" "st" using assms al m(1) by (auto simp: general_header_new_def cstring_multinew_def split: if_splits)
  have "cs_inv (d ! i)" if "i < 7" for i
    using m(2) st(2) that by (auto simp: list_all2_conv_all_nth cs_fresh_def cs_inv_iff)
  then have "gh_flags gh = 0" "gh_ok gh" using assms al m(1) st
    by (auto simp: general_header_new_def cstring_multinew_def gh_ok_def gh_bits limit_defs)
  then show ?thesis using gh_view_unset by blast
qed


definition sample_gh :: general_header where
  "sample_gh = \<lparr>gh_flags = 0, gh_max_age = 0, gh_s_maxage = 0, gh_max_stale = 0, gh_min_fresh = 0, gh_connection = cs_of [], gh_date = 0,
     gh_pragma = cs_of [], gh_trailer = cs_of [], gh_transfer_encoding = cs_of [], gh_upgrade = cs_of [], gh_via = cs_of [], gh_warning = cs_of []\<rparr>"

lemma sample_gh_ok: "gh_ok sample_gh"
  by (simp add: gh_ok_def sample_gh_def gh_bits cs_inv_cs_of limit_defs)


text \<open>
  Cache-Control. A field with one directive is understood: the directives without an argument set their flag, the
  numeric ones store their number. Of two directives separated by a comma and a blank the first one is ignored,
  whatever it is. A value that ends with its only blank makes the parser read behind the terminator of the string.
\<close>

theorem cache_control_correct:
  assumes "CHR '' '' \<notin> set d" "INT_MIN \<le> n" "n \<le> INT_MAX"
  shows "parse_cache_control gh ''no-cache'' e a = Some (success, general_header_set_no_cache gh, e, a) \<and>
    parse_cache_control gh (''max-age='' @ int_str n) e a = Some (success, general_header_set_max_age gh n, e, a) \<and>
    general_header_get_max_age (general_header_set_max_age gh n) = Some n \<and>
    parse_cache_control gh (d @ '', no-store'') e a = Some (success, general_header_set_no_store gh, e, a) \<and>
    parse_cache_control gh (d @ '', max-age='' @ int_str n) e a = Some (success, general_header_set_max_age gh n, e, a) \<and>
    parse_cache_control gh (d @ '' '') e a = None"
proof -
  let ?m = "''max-age='' @ int_str n"
  have blank: "CHR '' '' \<notin> set ?m" "CHR '' '' \<notin> set (tl ?m)" "CHR '' '' \<notin> set (d @ '','')" using int_str_blank [of n] assms(1) by simp_all
  have m: "set_cache_control gh ?m e = (True, general_header_set_max_age gh n, e)" "set_cache_control gh (tl ?m) e = (True, gh, e)" for gh
    using toint_int_str [OF assms(2,3)] by (simp_all add: set_cache_control_def directive_simps)
  have ns: "set_cache_control gh ''no-store'' e = (True, general_header_set_no_store gh, e)" "set_cache_control gh (tl ''no-store'') e = (True, gh, e)"
    "set_cache_control gh ''no-cache'' e = (True, general_header_set_no_cache gh, e)" "set_cache_control gh [] e = (True, gh, e)" for gh
    by (simp_all add: set_cache_control_def directive_simps)
  have two: "parse_cache_control gh (d @ CHR '','' # CHR '' '' # w) e a = Some (True, gh', e, a)"
    if "set_cache_control gh w e = (True, gh', e)" "set_cache_control gh' (tl w) e = (True, gh', e)" "w \<noteq> []" "CHR '' '' \<notin> set (tl w)" for w gh'
    using cc_blank(2) [OF blank(3), of gh w e] cc_blank(1) [OF that(4), of gh' e] that by (simp add: parse_cache_control_def)
  show ?thesis
  proof (intro conjI)
    show "parse_cache_control gh ''no-cache'' e a = Some (True, general_header_set_no_cache gh, e, a)"
      using cc_blank(1) [of "''no-cache''" gh e] ns(3) by (simp add: parse_cache_control_def)
    show "parse_cache_control gh ?m e a = Some (True, general_header_set_max_age gh n, e, a)"
      using cc_blank(1) [OF blank(1), of gh e] m(1) by (simp add: parse_cache_control_def)
    show "general_header_get_max_age (general_header_set_max_age gh n) = Some n"
      by (simp add: general_header_get_max_age_def general_header_set_max_age_def gh_simps)
    show "parse_cache_control gh (d @ '', no-store'') e a = Some (True, general_header_set_no_store gh, e, a)"
      using two [OF ns(1) ns(2)] by simp
    show "parse_cache_control gh (d @ '', max-age='' @ int_str n) e a = Some (True, general_header_set_max_age gh n, e, a)"
      using two [OF m(1) m(2) _ blank(2)] by simp
    show "parse_cache_control gh (d @ '' '') e a = None" using cc_blank(2) [OF assms(1), of gh "[]" e] ns(4) by (simp add: parse_cache_control_def)
  qed
qed

theorem cache_control_correct_witness:
  "parse_cache_control sample_gh (''no-cache'' @ '', no-store'') error_new no_oom = Some (success, general_header_set_no_store sample_gh, error_new, no_oom) \<and>
   general_header_get_no_cache (general_header_set_no_store sample_gh) = False"
  using cache_control_correct [of "''no-cache''" 0 sample_gh error_new no_oom]
  by (simp add: limit_defs general_header_get_no_cache_def general_header_set_no_store_def gh_simps) (simp add: sample_gh_def)

text \<open>What a general header sends.\<close>

definition gh_text :: "general_header \<Rightarrow> string" where
  "gh_text gh = table_lines general_header_flag_is_set gh_lines gh @
     (if cachecontrol_field_set gh \<noteq> 0 then ''Cache-Control: '' @ cc_line gh (cc_texts gh) else [])"

lemma gh_sends:
  assumes "conn_ok c" "gh_ok gh"
  shows "sends c (gh_text gh) (general_header_send_fields gh c)"
proof (cases "cachecontrol_field_set gh = 0")
  case True
  have "send_table general_header_flag_is_set gh_send_fields gh c = general_header_send_fields gh c"
    using True by (cases "send_table general_header_flag_is_set gh_send_fields gh c") (auto simp: general_header_send_fields_def)
  then show ?thesis using gh_send_table [OF assms] True by (simp add: gh_text_def)
next
  case False
  then have eq: "general_header_send_fields gh c = send_table general_header_flag_is_set gh_send_fields gh c \<bind>
      (\<lambda>(rc, conn). if rc then send_cachecontrol gh conn else Some (failure, conn))"
    by (cases "send_table general_header_flag_is_set gh_send_fields gh c") (auto simp: general_header_send_fields_def)
  show ?thesis using sends_bind [OF gh_send_table [OF assms] cc_sends [OF _ assms(2)]] False unfolding eq by (simp add: gh_text_def)
qed

text \<open>
  Sending the general header: the fields that are set go out as lines in the order of the table, then the
  Cache-Control line with the directives that are set. While the network does not fail everything is sent; if it fails a
  prefix has left. The Cache-Control line ends with a separator and has no line end.
\<close>

theorem general_header_send_correct:
  assumes "conn_ok c" "gh_ok gh"
  shows "sends c (table_lines general_header_flag_is_set gh_lines gh @
      (if cachecontrol_field_set gh \<noteq> 0 then ''Cache-Control: '' @ cc_line gh (cc_texts gh) else [])) (general_header_send_fields gh c) \<and>
    (cachecontrol_field_set gh \<noteq> 0 \<longrightarrow> (\<exists>t. cc_line gh (cc_texts gh) = t @ '', ''))"
proof
  show "cachecontrol_field_set gh \<noteq> 0 \<longrightarrow> (\<exists>t. cc_line gh (cc_texts gh) = t @ '', '')"
  proof
    assume "cachecontrol_field_set gh \<noteq> 0"
    then have "\<exists>(f, t) \<in> set (cc_texts gh). general_header_flag_is_set gh f"
      using assms(2) by (auto simp: cachecontrol_field_set_def cc_texts_def gh_ok_def)
    then show "\<exists>t. cc_line gh (cc_texts gh) = t @ '', ''" by (rule cc_line_end)
  qed
qed (use gh_sends [OF assms] in \<open>simp add: gh_text_def\<close>)

theorem general_header_send_correct_witness:
  "sends (sample_conn []) (''Cache-Control: '' @ ''no-cache, '') (general_header_send_fields (general_header_set_no_cache sample_gh) (sample_conn []))"
proof -
  let ?gh = "general_header_set_no_cache sample_gh"
  have ok: "gh_ok ?gh" using type1_ok [OF sample_gh_ok, of general_header_set_no_cache] by (simp add: type1_def)
  have b: "bit (gh_flags ?gh) k \<longleftrightarrow> k = 9" for k by (simp add: general_header_set_no_cache_def gh_set_bits) (simp add: sample_gh_def)
  have "table_lines general_header_flag_is_set gh_lines ?gh = []" by (simp add: table_lines_def gh_lines_def gh_bits b)
  moreover have "cc_line ?gh (cc_texts ?gh) = ''no-cache, ''" by (simp add: cc_line_def cc_texts_def gh_bits b)
  moreover have "cachecontrol_field_set ?gh \<noteq> 0" by (simp add: cachecontrol_field_set_def gh_bits b)
  ultimately show ?thesis using general_header_send_correct [OF sample_conn_ok(1) [of "[]"] ok] by simp
qed

end
