(* ===== verification/Entity_Header.thy ===== *)
theory Entity_Header
  imports Header_Fields
begin

section \<open>The entity header\<close>

text \<open>
  The fields that describe the body of a message (\<open>src/http/src/entity_header.c\<close>): setters, getters, parsing and
  sending. \<open>entity_header_free\<close> only releases memory and \<open>entity_header_dump\<close> prints to a file; they are not modelled. A
  failing \<open>assert\<close> is \<open>None\<close>.
\<close>

subsection \<open>Flags and state\<close>

definition ENTITY_HEADER_ALLOW_SET :: "64 word" where "ENTITY_HEADER_ALLOW_SET = 0x1"
definition ENTITY_HEADER_CONTENT_ENCODING_SET :: "64 word" where "ENTITY_HEADER_CONTENT_ENCODING_SET = 0x2"
definition ENTITY_HEADER_CONTENT_LANGUAGE_SET :: "64 word" where "ENTITY_HEADER_CONTENT_LANGUAGE_SET = 0x4"
definition ENTITY_HEADER_CONTENT_LENGTH_SET :: "64 word" where "ENTITY_HEADER_CONTENT_LENGTH_SET = 0x8"
definition ENTITY_HEADER_CONTENT_LOCATION_SET :: "64 word" where "ENTITY_HEADER_CONTENT_LOCATION_SET = 0x10"
definition ENTITY_HEADER_CONTENT_MD5_SET :: "64 word" where "ENTITY_HEADER_CONTENT_MD5_SET = 0x20"
definition ENTITY_HEADER_CONTENT_RANGE_SET :: "64 word" where "ENTITY_HEADER_CONTENT_RANGE_SET = 0x40"
definition ENTITY_HEADER_CONTENT_TYPE_SET :: "64 word" where "ENTITY_HEADER_CONTENT_TYPE_SET = 0x80"
definition ENTITY_HEADER_EXPIRES_SET :: "64 word" where "ENTITY_HEADER_EXPIRES_SET = 0x100"
definition ENTITY_HEADER_LAST_MODIFIED_SET :: "64 word" where "ENTITY_HEADER_LAST_MODIFIED_SET = 0x200"

lemmas eh_flag_defs =
  ENTITY_HEADER_ALLOW_SET_def
  ENTITY_HEADER_CONTENT_ENCODING_SET_def
  ENTITY_HEADER_CONTENT_LANGUAGE_SET_def
  ENTITY_HEADER_CONTENT_LENGTH_SET_def
  ENTITY_HEADER_CONTENT_LOCATION_SET_def
  ENTITY_HEADER_CONTENT_MD5_SET_def
  ENTITY_HEADER_CONTENT_RANGE_SET_def
  ENTITY_HEADER_CONTENT_TYPE_SET_def
  ENTITY_HEADER_EXPIRES_SET_def
  ENTITY_HEADER_LAST_MODIFIED_SET_def

record entity_header =
  eh_flags :: "64 word"
  eh_allow :: cstring
  eh_content_encoding :: cstring
  eh_content_language :: cstring
  eh_content_length :: size_t
  eh_content_location :: cstring
  eh_content_md5 :: cstring
  eh_content_range :: cstring
  eh_content_type :: cstring
  eh_expires :: int
  eh_last_modified :: int

definition entity_header_flag_is_set :: "entity_header \<Rightarrow> 64 word \<Rightarrow> bool" where
  "entity_header_flag_is_set eh flag \<longleftrightarrow> eh_flags eh AND flag \<noteq> 0"

definition entity_header_set_flag :: "entity_header \<Rightarrow> 64 word \<Rightarrow> entity_header" where
  "entity_header_set_flag eh flag = eh\<lparr>eh_flags := eh_flags eh OR flag\<rparr>"

definition entity_header_clear_flags :: "entity_header \<Rightarrow> entity_header" where
  "entity_header_clear_flags eh = eh\<lparr>eh_flags := 0\<rparr>"

text \<open>The structure has 88 bytes.\<close>

definition entity_header_new :: "allocator \<Rightarrow> (entity_header option \<times> allocator) option" where
  "entity_header_new a = (
     let (ok, a) = try_alloc 88 a in
     if \<not> ok then Some (None, a)
     else do {
       (ok, arr, a) \<leftarrow> cstring_multinew 7 a;
       if \<not> ok then Some (None, a)
       else Some (Some \<lparr>eh_flags = 0, eh_allow = arr ! 0, eh_content_encoding = arr ! 1, eh_content_language = arr ! 2, eh_content_length = 0,
         eh_content_location = arr ! 3, eh_content_md5 = arr ! 4, eh_content_range = arr ! 6, eh_content_type = arr ! 5, eh_expires = 0,
         eh_last_modified = 0\<rparr>, a) })"

definition entity_header_recycle :: "entity_header \<Rightarrow> entity_header option" where
  "entity_header_recycle p = do {
     s \<leftarrow> cstring_recycle (eh_content_language p);
     Some ((entity_header_clear_flags p)\<lparr>eh_content_language := s\<rparr>) }"

subsection \<open>Setters and getters\<close>

definition entity_header_set_allow :: "entity_header \<Rightarrow> string \<Rightarrow> allocator \<Rightarrow> (status_t \<times> entity_header \<times> allocator) option" where
  "entity_header_set_allow eh val a = do {
     (ok, s, a) \<leftarrow> cstring_set (eh_allow eh) val a;
     let eh = eh\<lparr>eh_allow := s\<rparr>;
     Some (if \<not> ok then (failure, eh, a) else (success, entity_header_set_flag eh ENTITY_HEADER_ALLOW_SET, a)) }"

definition entity_header_set_content_encoding :: "entity_header \<Rightarrow> string \<Rightarrow> allocator \<Rightarrow> (status_t \<times> entity_header \<times> allocator) option" where
  "entity_header_set_content_encoding eh val a = do {
     (ok, s, a) \<leftarrow> cstring_set (eh_content_encoding eh) val a;
     let eh = eh\<lparr>eh_content_encoding := s\<rparr>;
     Some (if \<not> ok then (failure, eh, a) else (success, entity_header_set_flag eh ENTITY_HEADER_CONTENT_ENCODING_SET, a)) }"

definition entity_header_set_content_location :: "entity_header \<Rightarrow> string \<Rightarrow> allocator \<Rightarrow> (status_t \<times> entity_header \<times> allocator) option" where
  "entity_header_set_content_location eh val a = do {
     (ok, s, a) \<leftarrow> cstring_set (eh_content_location eh) val a;
     let eh = eh\<lparr>eh_content_location := s\<rparr>;
     Some (if \<not> ok then (failure, eh, a) else (success, entity_header_set_flag eh ENTITY_HEADER_CONTENT_LOCATION_SET, a)) }"

definition entity_header_set_content_md5 :: "entity_header \<Rightarrow> string \<Rightarrow> allocator \<Rightarrow> (status_t \<times> entity_header \<times> allocator) option" where
  "entity_header_set_content_md5 eh val a = do {
     (ok, s, a) \<leftarrow> cstring_set (eh_content_md5 eh) val a;
     let eh = eh\<lparr>eh_content_md5 := s\<rparr>;
     Some (if \<not> ok then (failure, eh, a) else (success, entity_header_set_flag eh ENTITY_HEADER_CONTENT_MD5_SET, a)) }"

definition entity_header_set_content_range :: "entity_header \<Rightarrow> string \<Rightarrow> allocator \<Rightarrow> (status_t \<times> entity_header \<times> allocator) option" where
  "entity_header_set_content_range eh val a = do {
     (ok, s, a) \<leftarrow> cstring_set (eh_content_range eh) val a;
     let eh = eh\<lparr>eh_content_range := s\<rparr>;
     Some (if \<not> ok then (failure, eh, a) else (success, entity_header_set_flag eh ENTITY_HEADER_CONTENT_RANGE_SET, a)) }"

definition entity_header_set_content_type :: "entity_header \<Rightarrow> string \<Rightarrow> allocator \<Rightarrow> (status_t \<times> entity_header \<times> allocator) option" where
  "entity_header_set_content_type eh val a = do {
     (ok, s, a) \<leftarrow> cstring_set (eh_content_type eh) val a;
     let eh = eh\<lparr>eh_content_type := s\<rparr>;
     Some (if \<not> ok then (failure, eh, a) else (success, entity_header_set_flag eh ENTITY_HEADER_CONTENT_TYPE_SET, a)) }"

definition entity_header_set_content_language :: "entity_header \<Rightarrow> string \<Rightarrow> error \<Rightarrow> allocator \<Rightarrow> (status_t \<times> entity_header \<times> error \<times> allocator) option" where
  "entity_header_set_content_language eh val e a = do {
     (ok, s, a) \<leftarrow> cstring_set (eh_content_language eh) val a;
     let eh = eh\<lparr>eh_content_language := s\<rparr>;
     Some (if \<not> ok then (failure, eh, set_os_error e (errno_num ENOMEM), a)
           else (success, entity_header_set_flag eh ENTITY_HEADER_CONTENT_LANGUAGE_SET, e, a)) }"

definition entity_header_set_expires :: "entity_header \<Rightarrow> int \<Rightarrow> entity_header" where
  "entity_header_set_expires eh val = entity_header_set_flag (eh\<lparr>eh_expires := val\<rparr>) ENTITY_HEADER_EXPIRES_SET"
definition entity_header_set_last_modified :: "entity_header \<Rightarrow> int \<Rightarrow> entity_header" where
  "entity_header_set_last_modified eh val = entity_header_set_flag (eh\<lparr>eh_last_modified := val\<rparr>) ENTITY_HEADER_LAST_MODIFIED_SET"
definition entity_header_set_content_length :: "entity_header \<Rightarrow> size_t \<Rightarrow> entity_header" where
  "entity_header_set_content_length eh val = entity_header_set_flag (eh\<lparr>eh_content_length := val\<rparr>) ENTITY_HEADER_CONTENT_LENGTH_SET"

definition entity_header_content_type_is :: "entity_header \<Rightarrow> string \<Rightarrow> bool option" where
  "entity_header_content_type_is eh val = cstring_compare (eh_content_type eh) val"

definition entity_header_allow_isset where "entity_header_allow_isset eh = entity_header_flag_is_set eh ENTITY_HEADER_ALLOW_SET"
definition entity_header_content_encoding_isset where "entity_header_content_encoding_isset eh = entity_header_flag_is_set eh ENTITY_HEADER_CONTENT_ENCODING_SET"
definition entity_header_content_language_isset where "entity_header_content_language_isset eh = entity_header_flag_is_set eh ENTITY_HEADER_CONTENT_LANGUAGE_SET"
definition entity_header_content_length_isset where "entity_header_content_length_isset eh = entity_header_flag_is_set eh ENTITY_HEADER_CONTENT_LENGTH_SET"
definition entity_header_content_location_isset where "entity_header_content_location_isset eh = entity_header_flag_is_set eh ENTITY_HEADER_CONTENT_LOCATION_SET"
definition entity_header_content_md5_isset where "entity_header_content_md5_isset eh = entity_header_flag_is_set eh ENTITY_HEADER_CONTENT_MD5_SET"
definition entity_header_content_range_isset where "entity_header_content_range_isset eh = entity_header_flag_is_set eh ENTITY_HEADER_CONTENT_RANGE_SET"
definition entity_header_content_type_isset where "entity_header_content_type_isset eh = entity_header_flag_is_set eh ENTITY_HEADER_CONTENT_TYPE_SET"
definition entity_header_expires_isset where "entity_header_expires_isset eh = entity_header_flag_is_set eh ENTITY_HEADER_EXPIRES_SET"
definition entity_header_last_modified_isset where "entity_header_last_modified_isset eh = entity_header_flag_is_set eh ENTITY_HEADER_LAST_MODIFIED_SET"

definition entity_header_get_allow :: "entity_header \<Rightarrow> string option" where
  "entity_header_get_allow eh = (if entity_header_flag_is_set eh ENTITY_HEADER_ALLOW_SET then cstr_at (cs_data (eh_allow eh)) 0 else None)"
definition entity_header_get_content_encoding :: "entity_header \<Rightarrow> string option" where
  "entity_header_get_content_encoding eh = (if entity_header_flag_is_set eh ENTITY_HEADER_CONTENT_ENCODING_SET then cstr_at (cs_data (eh_content_encoding eh)) 0 else None)"
definition entity_header_get_content_language :: "entity_header \<Rightarrow> string option" where
  "entity_header_get_content_language eh = (if entity_header_flag_is_set eh ENTITY_HEADER_CONTENT_LANGUAGE_SET then cstr_at (cs_data (eh_content_language eh)) 0 else None)"
definition entity_header_get_content_location :: "entity_header \<Rightarrow> string option" where
  "entity_header_get_content_location eh = (if entity_header_flag_is_set eh ENTITY_HEADER_CONTENT_LOCATION_SET then cstr_at (cs_data (eh_content_location eh)) 0 else None)"
definition entity_header_get_content_md5 :: "entity_header \<Rightarrow> string option" where
  "entity_header_get_content_md5 eh = (if entity_header_flag_is_set eh ENTITY_HEADER_CONTENT_MD5_SET then cstr_at (cs_data (eh_content_md5 eh)) 0 else None)"
definition entity_header_get_content_range :: "entity_header \<Rightarrow> string option" where
  "entity_header_get_content_range eh = (if entity_header_flag_is_set eh ENTITY_HEADER_CONTENT_RANGE_SET then cstr_at (cs_data (eh_content_range eh)) 0 else None)"
definition entity_header_get_content_type :: "entity_header \<Rightarrow> string option" where
  "entity_header_get_content_type eh = (if entity_header_flag_is_set eh ENTITY_HEADER_CONTENT_TYPE_SET then cstr_at (cs_data (eh_content_type eh)) 0 else None)"
definition entity_header_get_content_length where
  "entity_header_get_content_length eh = (if entity_header_flag_is_set eh ENTITY_HEADER_CONTENT_LENGTH_SET then Some (eh_content_length eh) else None)"
definition entity_header_get_expires where
  "entity_header_get_expires eh = (if entity_header_flag_is_set eh ENTITY_HEADER_EXPIRES_SET then Some (eh_expires eh) else None)"
definition entity_header_get_last_modified where
  "entity_header_get_last_modified eh = (if entity_header_flag_is_set eh ENTITY_HEADER_LAST_MODIFIED_SET then Some (eh_last_modified eh) else None)"

subsection \<open>Sending\<close>

definition send_allow where "send_allow eh conn = http_send_field conn ''Allow: '' (eh_allow eh)"
definition send_content_encoding where "send_content_encoding eh conn = http_send_field conn ''Content-Encoding: '' (eh_content_encoding eh)"
definition send_content_language where "send_content_language eh conn = http_send_field conn ''Content-Language: '' (eh_content_language eh)"
definition send_content_location where "send_content_location eh conn = http_send_field conn ''Content-Location: '' (eh_content_location eh)"
definition send_content_md5 where "send_content_md5 eh conn = http_send_field conn ''Content-MD5: '' (eh_content_md5 eh)"
definition send_content_range where "send_content_range eh conn = http_send_field conn ''Content-Range: '' (eh_content_range eh)"
definition send_content_type where "send_content_type eh conn = http_send_field conn ''Content-Type: '' (eh_content_type eh)"
definition send_expires where "send_expires eh conn = http_send_date conn ''Expires: '' (eh_expires eh)"
definition send_last_modified where "send_last_modified eh conn = http_send_date conn ''Last-Modified: '' (eh_last_modified eh)"

text \<open>\<open>sprintf\<close> into an array of 100 bytes, which a 64 bit number cannot fill.\<close>

definition send_content_length :: "entity_header \<Rightarrow> connection \<Rightarrow> (status_t \<times> connection) option" where
  "send_content_length eh conn = do {
     n \<leftarrow> entity_header_get_content_length eh;
     let buf = ''Content-Length: '' @ numeral_str 10 n @ crlf;
     if length buf < 100 then connection_write conn buf else None }"

definition eh_send_fields :: "(64 word \<times> (entity_header \<Rightarrow> connection \<Rightarrow> (status_t \<times> connection) option)) list" where
  "eh_send_fields = [
     (ENTITY_HEADER_ALLOW_SET, send_allow),
     (ENTITY_HEADER_CONTENT_ENCODING_SET, send_content_encoding),
     (ENTITY_HEADER_CONTENT_LANGUAGE_SET, send_content_language),
     (ENTITY_HEADER_CONTENT_LENGTH_SET, send_content_length),
     (ENTITY_HEADER_CONTENT_LOCATION_SET, send_content_location),
     (ENTITY_HEADER_CONTENT_MD5_SET, send_content_md5),
     (ENTITY_HEADER_CONTENT_RANGE_SET, send_content_range),
     (ENTITY_HEADER_CONTENT_TYPE_SET, send_content_type),
     (ENTITY_HEADER_EXPIRES_SET, send_expires),
     (ENTITY_HEADER_LAST_MODIFIED_SET, send_last_modified)]"

definition entity_header_send_fields :: "entity_header \<Rightarrow> connection \<Rightarrow> (status_t \<times> connection) option" where
  "entity_header_send_fields eh conn = send_table entity_header_flag_is_set eh_send_fields eh conn"

subsection \<open>Parsing\<close>

definition parse_content_encoding :: "entity_header \<Rightarrow> string \<Rightarrow> error \<Rightarrow> allocator \<Rightarrow> (status_t \<times> entity_header \<times> error \<times> allocator) option" where
  "parse_content_encoding eh val e a = entity_header_set_content_encoding eh val a \<bind> or_os_error e"

definition parse_content_length :: "entity_header \<Rightarrow> string \<Rightarrow> error \<Rightarrow> allocator \<Rightarrow> (status_t \<times> entity_header \<times> error \<times> allocator) option" where
  "parse_content_length eh val e a = (case tosize_t val of
     Inl _ \<Rightarrow> Some (failure, eh, set_http_error e 400, a)
   | Inr len \<Rightarrow> Some (success, entity_header_set_content_length eh len, e, a))"

text \<open>This handler calls the setter of the Allow field.\<close>

definition parse_content_md5 :: "entity_header \<Rightarrow> string \<Rightarrow> error \<Rightarrow> allocator \<Rightarrow> (status_t \<times> entity_header \<times> error \<times> allocator) option" where
  "parse_content_md5 eh val e a = entity_header_set_allow eh val a \<bind> or_os_error e"

text \<open>Each part before a comma is copied to an array of 100 bytes; parts that do not fit are skipped.\<close>

function eh_parse_multivalued_fields :: "entity_header \<Rightarrow> string \<Rightarrow>
    (entity_header \<Rightarrow> string \<Rightarrow> error \<Rightarrow> allocator \<Rightarrow> (status_t \<times> entity_header \<times> error \<times> allocator) option) \<Rightarrow> error \<Rightarrow> allocator \<Rightarrow>
    (status_t \<times> entity_header \<times> error \<times> allocator) option" where
  "eh_parse_multivalued_fields dest val set_func e a = (
     case strchr val (CHR '','') of
       None \<Rightarrow> set_func dest val e a
     | Some n \<Rightarrow>
         if n + 1 > 100 then eh_parse_multivalued_fields dest (drop (n + 1) val) set_func e a
         else (case set_func dest (take n val) e a of
             None \<Rightarrow> None
           | Some (ok, dest, e, a) \<Rightarrow>
               if \<not> ok then Some (failure, dest, e, a)
               else eh_parse_multivalued_fields dest (drop (n + 1) val) set_func e a))"
  by pat_completeness auto
termination by (relation "measure (\<lambda>(dest, val, f, e, a). length val)") (auto dest: strchr_Some)

declare eh_parse_multivalued_fields.simps [simp del]

definition parse_content_language :: "entity_header \<Rightarrow> string \<Rightarrow> error \<Rightarrow> allocator \<Rightarrow> (status_t \<times> entity_header \<times> error \<times> allocator) option" where
  "parse_content_language eh val e a = eh_parse_multivalued_fields eh val entity_header_set_content_language e a"

definition parse_allow :: "entity_header \<Rightarrow> string \<Rightarrow> error \<Rightarrow> allocator \<Rightarrow> (status_t \<times> entity_header \<times> error \<times> allocator) option" where
  "parse_allow eh val e a = entity_header_set_allow eh val a \<bind> or_os_error e"

definition parse_content_location :: "entity_header \<Rightarrow> string \<Rightarrow> error \<Rightarrow> allocator \<Rightarrow> (status_t \<times> entity_header \<times> error \<times> allocator) option" where
  "parse_content_location eh val e a = entity_header_set_content_location eh val a \<bind> or_os_error e"

definition parse_content_range :: "entity_header \<Rightarrow> string \<Rightarrow> error \<Rightarrow> allocator \<Rightarrow> (status_t \<times> entity_header \<times> error \<times> allocator) option" where
  "parse_content_range eh val e a = entity_header_set_content_range eh val a \<bind> or_os_error e"

definition parse_content_type :: "entity_header \<Rightarrow> string \<Rightarrow> error \<Rightarrow> allocator \<Rightarrow> (status_t \<times> entity_header \<times> error \<times> allocator) option" where
  "parse_content_type eh val e a = entity_header_set_content_type eh val a \<bind> or_os_error e"

definition parse_expires :: "(tm \<Rightarrow> int) \<Rightarrow> entity_header \<Rightarrow> string \<Rightarrow> error \<Rightarrow> allocator \<Rightarrow> (status_t \<times> entity_header \<times> error \<times> allocator) option" where
  "parse_expires mktime eh val e a = do {
     t \<leftarrow> parse_rfc822_date mktime val;
     if t = - 1 then Some (failure, eh, set_http_error e 400, a)
     else Some (success, entity_header_set_expires eh t, e, a) }"

definition parse_last_modified :: "(tm \<Rightarrow> int) \<Rightarrow> entity_header \<Rightarrow> string \<Rightarrow> error \<Rightarrow> allocator \<Rightarrow> (status_t \<times> entity_header \<times> error \<times> allocator) option" where
  "parse_last_modified mktime eh val e a = do {
     t \<leftarrow> parse_rfc822_date mktime val;
     if t = - 1 then Some (failure, eh, set_http_error e 400, a)
     else Some (success, entity_header_set_last_modified eh t, e, a) }"

definition entity_header_fields ::
    "(tm \<Rightarrow> int) \<Rightarrow> (string \<times> (entity_header \<Rightarrow> string \<Rightarrow> error \<Rightarrow> allocator \<Rightarrow> (status_t \<times> entity_header \<times> error \<times> allocator) option)) list" where
  "entity_header_fields mktime = [
     (''allow'', parse_allow),
     (''content-encoding'', parse_content_encoding),
     (''content-language'', parse_content_language),
     (''content-length'', parse_content_length),
     (''content-location'', parse_content_location),
     (''content-md5'', parse_content_md5),
     (''content-range'', parse_content_range),
     (''content-type'', parse_content_type),
     (''expires'', parse_expires mktime),
     (''last-modified'', parse_last_modified mktime)]"

definition parse_entity_header :: "(tm \<Rightarrow> int) \<Rightarrow> int \<Rightarrow> entity_header \<Rightarrow> string \<Rightarrow> error \<Rightarrow> allocator \<Rightarrow>
    (status_t \<times> entity_header \<times> error \<times> allocator) option" where
  "parse_entity_header mktime idx eh val e a = (
     if 0 \<le> idx \<and> idx < int (length (entity_header_fields mktime)) then snd (entity_header_fields mktime ! nat idx) eh val e a
     else None)"

definition find_entity_header :: "string \<Rightarrow> int" where
  "find_entity_header name = find_field (entity_header_fields (\<lambda>t. 0)) name 0"

subsection \<open>Invariant and view\<close>

definition eh_ok :: "entity_header \<Rightarrow> bool" where
  "eh_ok eh \<longleftrightarrow> cs_inv (eh_allow eh) \<and> cs_inv (eh_content_encoding eh) \<and> cs_inv (eh_content_language eh) \<and> cs_inv (eh_content_location eh) \<and>
     cs_inv (eh_content_md5 eh) \<and> cs_inv (eh_content_range eh) \<and> cs_inv (eh_content_type eh) \<and> eh_content_length eh < SIZE_MOD"

definition eh_strings :: "(string \<times> 64 word \<times> (entity_header \<Rightarrow> cstring)) list" where
  "eh_strings = [
     (''allow'', ENTITY_HEADER_ALLOW_SET, eh_allow),
     (''content-encoding'', ENTITY_HEADER_CONTENT_ENCODING_SET, eh_content_encoding),
     (''content-language'', ENTITY_HEADER_CONTENT_LANGUAGE_SET, eh_content_language),
     (''content-location'', ENTITY_HEADER_CONTENT_LOCATION_SET, eh_content_location),
     (''content-md5'', ENTITY_HEADER_CONTENT_MD5_SET, eh_content_md5),
     (''content-range'', ENTITY_HEADER_CONTENT_RANGE_SET, eh_content_range),
     (''content-type'', ENTITY_HEADER_CONTENT_TYPE_SET, eh_content_type)]"

text \<open>The abstract state: the string fields that are set, by name.\<close>

definition eh_view :: "entity_header \<Rightarrow> string \<rightharpoonup> string" where
  "eh_view eh name = (case map_of eh_strings name of
     None \<Rightarrow> None
   | Some (flag, fld) \<Rightarrow> if entity_header_flag_is_set eh flag then Some (cs_str (fld eh)) else None)"

lemma eh_flag_bits:
  "ENTITY_HEADER_ALLOW_SET = 2 ^ 0"
  "ENTITY_HEADER_CONTENT_ENCODING_SET = 2 ^ 1"
  "ENTITY_HEADER_CONTENT_LANGUAGE_SET = 2 ^ 2"
  "ENTITY_HEADER_CONTENT_LENGTH_SET = 2 ^ 3"
  "ENTITY_HEADER_CONTENT_LOCATION_SET = 2 ^ 4"
  "ENTITY_HEADER_CONTENT_MD5_SET = 2 ^ 5"
  "ENTITY_HEADER_CONTENT_RANGE_SET = 2 ^ 6"
  "ENTITY_HEADER_CONTENT_TYPE_SET = 2 ^ 7"
  "ENTITY_HEADER_EXPIRES_SET = 2 ^ 8"
  "ENTITY_HEADER_LAST_MODIFIED_SET = 2 ^ 9"
  by (simp_all add: eh_flag_defs)

lemma eh_bits:
  "entity_header_flag_is_set eh ENTITY_HEADER_ALLOW_SET \<longleftrightarrow> bit (eh_flags eh) 0"
  "entity_header_flag_is_set eh ENTITY_HEADER_CONTENT_ENCODING_SET \<longleftrightarrow> bit (eh_flags eh) 1"
  "entity_header_flag_is_set eh ENTITY_HEADER_CONTENT_LANGUAGE_SET \<longleftrightarrow> bit (eh_flags eh) 2"
  "entity_header_flag_is_set eh ENTITY_HEADER_CONTENT_LENGTH_SET \<longleftrightarrow> bit (eh_flags eh) 3"
  "entity_header_flag_is_set eh ENTITY_HEADER_CONTENT_LOCATION_SET \<longleftrightarrow> bit (eh_flags eh) 4"
  "entity_header_flag_is_set eh ENTITY_HEADER_CONTENT_MD5_SET \<longleftrightarrow> bit (eh_flags eh) 5"
  "entity_header_flag_is_set eh ENTITY_HEADER_CONTENT_RANGE_SET \<longleftrightarrow> bit (eh_flags eh) 6"
  "entity_header_flag_is_set eh ENTITY_HEADER_CONTENT_TYPE_SET \<longleftrightarrow> bit (eh_flags eh) 7"
  "entity_header_flag_is_set eh ENTITY_HEADER_EXPIRES_SET \<longleftrightarrow> bit (eh_flags eh) 8"
  "entity_header_flag_is_set eh ENTITY_HEADER_LAST_MODIFIED_SET \<longleftrightarrow> bit (eh_flags eh) 9"
  by (simp_all only: eh_flag_bits entity_header_flag_is_set_def and_exp_flag)

lemma eh_set_exp: "n < 64 \<Longrightarrow> bit (eh_flags (entity_header_set_flag eh (2 ^ n))) k \<longleftrightarrow> bit (eh_flags eh) k \<or> k = n"
  by (simp add: entity_header_set_flag_def bit_or_exp)

lemma eh_set_bits:
  "bit (eh_flags (entity_header_set_flag eh ENTITY_HEADER_ALLOW_SET)) k \<longleftrightarrow> bit (eh_flags eh) k \<or> k = 0"
  "bit (eh_flags (entity_header_set_flag eh ENTITY_HEADER_CONTENT_ENCODING_SET)) k \<longleftrightarrow> bit (eh_flags eh) k \<or> k = 1"
  "bit (eh_flags (entity_header_set_flag eh ENTITY_HEADER_CONTENT_LANGUAGE_SET)) k \<longleftrightarrow> bit (eh_flags eh) k \<or> k = 2"
  "bit (eh_flags (entity_header_set_flag eh ENTITY_HEADER_CONTENT_LENGTH_SET)) k \<longleftrightarrow> bit (eh_flags eh) k \<or> k = 3"
  "bit (eh_flags (entity_header_set_flag eh ENTITY_HEADER_CONTENT_LOCATION_SET)) k \<longleftrightarrow> bit (eh_flags eh) k \<or> k = 4"
  "bit (eh_flags (entity_header_set_flag eh ENTITY_HEADER_CONTENT_MD5_SET)) k \<longleftrightarrow> bit (eh_flags eh) k \<or> k = 5"
  "bit (eh_flags (entity_header_set_flag eh ENTITY_HEADER_CONTENT_RANGE_SET)) k \<longleftrightarrow> bit (eh_flags eh) k \<or> k = 6"
  "bit (eh_flags (entity_header_set_flag eh ENTITY_HEADER_CONTENT_TYPE_SET)) k \<longleftrightarrow> bit (eh_flags eh) k \<or> k = 7"
  "bit (eh_flags (entity_header_set_flag eh ENTITY_HEADER_EXPIRES_SET)) k \<longleftrightarrow> bit (eh_flags eh) k \<or> k = 8"
  "bit (eh_flags (entity_header_set_flag eh ENTITY_HEADER_LAST_MODIFIED_SET)) k \<longleftrightarrow> bit (eh_flags eh) k \<or> k = 9"
  by (simp_all only: eh_flag_bits eh_set_exp arith_simps rel_simps)

lemma eh_set_flag_sel [simp]:
  "eh_allow (entity_header_set_flag eh f) = eh_allow eh"
  "eh_content_encoding (entity_header_set_flag eh f) = eh_content_encoding eh"
  "eh_content_language (entity_header_set_flag eh f) = eh_content_language eh"
  "eh_content_location (entity_header_set_flag eh f) = eh_content_location eh"
  "eh_content_md5 (entity_header_set_flag eh f) = eh_content_md5 eh"
  "eh_content_range (entity_header_set_flag eh f) = eh_content_range eh"
  "eh_content_type (entity_header_set_flag eh f) = eh_content_type eh"
  "eh_content_length (entity_header_set_flag eh f) = eh_content_length eh"
  "eh_expires (entity_header_set_flag eh f) = eh_expires eh"
  "eh_last_modified (entity_header_set_flag eh f) = eh_last_modified eh"
  by (simp_all add: entity_header_set_flag_def)

lemmas eh_simps = eh_bits eh_set_bits

text \<open>The setter of the language reports its own error; without that it is like the others.\<close>

definition set_language :: "entity_header \<Rightarrow> string \<Rightarrow> allocator \<Rightarrow> (status_t \<times> entity_header \<times> allocator) option" where
  "set_language eh val a = do {
     (ok, s, a) \<leftarrow> cstring_set (eh_content_language eh) val a;
     let eh = eh\<lparr>eh_content_language := s\<rparr>;
     Some (if \<not> ok then (failure, eh, a) else (success, entity_header_set_flag eh ENTITY_HEADER_CONTENT_LANGUAGE_SET, a)) }"

lemma language_handler: "entity_header_set_content_language eh val e a = set_language eh val a \<bind> or_os_error e"
  by (cases "cstring_set (eh_content_language eh) val a") (auto simp: entity_header_set_content_language_def set_language_def or_os_error_def Let_def)

interpretation eha: view_field eh_ok eh_allow "\<lambda>s eh. eh\<lparr>eh_allow := s\<rparr>"
    "\<lambda>eh. entity_header_set_flag eh ENTITY_HEADER_ALLOW_SET" entity_header_set_allow eh_view "''allow''"
  by unfold_locales (auto simp: eh_ok_def eh_simps entity_header_set_allow_def Let_def eh_view_def eh_strings_def cs_rep_str fun_eq_iff intro!: Option.bind_cong)

interpretation ehe: view_field eh_ok eh_content_encoding "\<lambda>s eh. eh\<lparr>eh_content_encoding := s\<rparr>"
    "\<lambda>eh. entity_header_set_flag eh ENTITY_HEADER_CONTENT_ENCODING_SET" entity_header_set_content_encoding eh_view "''content-encoding''"
  by unfold_locales (auto simp: eh_ok_def eh_simps entity_header_set_content_encoding_def Let_def eh_view_def eh_strings_def cs_rep_str fun_eq_iff intro!: Option.bind_cong)

interpretation ehl: view_field eh_ok eh_content_language "\<lambda>s eh. eh\<lparr>eh_content_language := s\<rparr>"
    "\<lambda>eh. entity_header_set_flag eh ENTITY_HEADER_CONTENT_LANGUAGE_SET" set_language eh_view "''content-language''"
  by unfold_locales (auto simp: eh_ok_def eh_simps set_language_def Let_def eh_view_def eh_strings_def cs_rep_str fun_eq_iff intro!: Option.bind_cong)

interpretation eho: view_field eh_ok eh_content_location "\<lambda>s eh. eh\<lparr>eh_content_location := s\<rparr>"
    "\<lambda>eh. entity_header_set_flag eh ENTITY_HEADER_CONTENT_LOCATION_SET" entity_header_set_content_location eh_view "''content-location''"
  by unfold_locales (auto simp: eh_ok_def eh_simps entity_header_set_content_location_def Let_def eh_view_def eh_strings_def cs_rep_str fun_eq_iff intro!: Option.bind_cong)

interpretation ehp: view_field eh_ok eh_content_md5 "\<lambda>s eh. eh\<lparr>eh_content_md5 := s\<rparr>"
    "\<lambda>eh. entity_header_set_flag eh ENTITY_HEADER_CONTENT_MD5_SET" entity_header_set_content_md5 eh_view "''content-md5''"
  by unfold_locales (auto simp: eh_ok_def eh_simps entity_header_set_content_md5_def Let_def eh_view_def eh_strings_def cs_rep_str fun_eq_iff intro!: Option.bind_cong)

interpretation ehr: view_field eh_ok eh_content_range "\<lambda>s eh. eh\<lparr>eh_content_range := s\<rparr>"
    "\<lambda>eh. entity_header_set_flag eh ENTITY_HEADER_CONTENT_RANGE_SET" entity_header_set_content_range eh_view "''content-range''"
  by unfold_locales (auto simp: eh_ok_def eh_simps entity_header_set_content_range_def Let_def eh_view_def eh_strings_def cs_rep_str fun_eq_iff intro!: Option.bind_cong)

interpretation ehy: view_field eh_ok eh_content_type "\<lambda>s eh. eh\<lparr>eh_content_type := s\<rparr>"
    "\<lambda>eh. entity_header_set_flag eh ENTITY_HEADER_CONTENT_TYPE_SET" entity_header_set_content_type eh_view "''content-type''"
  by unfold_locales (auto simp: eh_ok_def eh_simps entity_header_set_content_type_def Let_def eh_view_def eh_strings_def cs_rep_str fun_eq_iff intro!: Option.bind_cong)
subsection \<open>Parsing\<close>

lemma eh_parse_named:
  assumes "map_of (entity_header_fields mktime) name = Some h"
  shows "parse_entity_header mktime (find_entity_header name) eh val e a = h eh val e a"
  using assms by (auto simp: find_entity_header_def parse_entity_header_def entity_header_fields_def strcmp0_def split: if_splits)

text \<open>The text behind the last comma.\<close>

definition last_part :: "string \<Rightarrow> string" where
  "last_part s = rev (takeWhile (\<lambda>c. c \<noteq> CHR '','') (rev s))"

lemma last_part_comma: "last_part (x @ CHR '','' # y) = last_part y"
  by (simp add: last_part_def takeWhile_tail)

lemma last_part_whole: "CHR '','' \<notin> set s \<Longrightarrow> last_part s = s"
proof -
  assume "CHR '','' \<notin> set s"
  then have "takeWhile (\<lambda>c. c \<noteq> CHR '','') (rev s) = rev s" by (auto simp: takeWhile_eq_all_conv)
  then show "last_part s = s" by (simp only: last_part_def rev_rev_ident)
qed

lemma language_post:
  "eh_ok eh \<Longrightarrow> c_string val \<Longrightarrow> length val \<le> PTRDIFF_MAX \<Longrightarrow>
   field_post eh_ok eh_view eh ''content-language'' (last_part val) e (eh_parse_multivalued_fields eh val entity_header_set_content_language e a)"
proof (induction val arbitrary: eh e a rule: length_induct)
  case (1 val)
  show ?case
  proof (cases "strchr val (CHR '','')")
    case None
    then have "last_part val = val" by (simp add: strchr_None last_part_whole)
    then show ?thesis using None ehl.handler_view [OF 1(2-4), of e a]
      by (simp add: eh_parse_multivalued_fields.simps [of eh val] language_handler)
  next
    case (Some n)
    have v: "n < length val" "val = take n val @ CHR '','' # drop (n + 1) val" using strchr_Some [OF Some] id_take_nth_drop [of n val] by simp_all
    let ?r = "drop (n + 1) val"
    have r: "length ?r < length val" "c_string ?r" "length ?r \<le> PTRDIFF_MAX" "last_part val = last_part ?r"
      using v 1(3,4) last_part_comma [of "take n val" ?r] by (simp_all add: c_string_drop)
    show ?thesis
    proof (cases "n + 1 > 100")
      case True
      have "field_post eh_ok eh_view eh ''content-language'' (last_part ?r) e (eh_parse_multivalued_fields eh ?r entity_header_set_content_language e a)"
        using 1(1) r 1(2) by blast
      then show ?thesis using r(4) Some True by (simp add: eh_parse_multivalued_fields.simps [of eh val])
    next
      case False
      have t: "c_string (take n val)" "length (take n val) \<le> PTRDIFF_MAX" "length (take n val) < 256" using 1(3,4) False by (simp_all add: c_string_take)
      obtain h' a' where h: "entity_header_set_content_language eh (take n val) e a = Some (True, h', e, a')" "eh_ok h'"
          "eh_view h' = (eh_view eh)(''content-language'' \<mapsto> take n val)"
        using field_post_short [OF ehl.handler_view [OF 1(2) t(1,2), of e a] t(3)] unfolding language_handler by blast
      have "field_post eh_ok eh_view h' ''content-language'' (last_part ?r) e (eh_parse_multivalued_fields h' ?r entity_header_set_content_language e a')"
        using 1(1) r h(2) by blast
      then have "field_post eh_ok eh_view eh ''content-language'' (last_part ?r) e (eh_parse_multivalued_fields h' ?r entity_header_set_content_language e a')"
        by (rule field_post_after [OF _ h(3)])
      then show ?thesis using r(4) Some False h(1) by (simp add: eh_parse_multivalued_fields.simps [of eh val])
    qed
  qed
qed

lemma eh_getters:
  assumes "eh_ok eh"
  shows "entity_header_get_allow eh = eh_view eh ''allow''" "entity_header_get_content_encoding eh = eh_view eh ''content-encoding''"
    "entity_header_get_content_language eh = eh_view eh ''content-language''" "entity_header_get_content_location eh = eh_view eh ''content-location''"
    "entity_header_get_content_md5 eh = eh_view eh ''content-md5''" "entity_header_get_content_range eh = eh_view eh ''content-range''"
    "entity_header_get_content_type eh = eh_view eh ''content-type''"
  using assms by (simp_all add: eh_ok_def eh_view_def eh_strings_def entity_header_get_allow_def entity_header_get_content_encoding_def
      entity_header_get_content_language_def entity_header_get_content_location_def entity_header_get_content_md5_def
      entity_header_get_content_range_def entity_header_get_content_type_def cs_inv_def cs_rep_cstr_at)

lemma eh_view_eq:
  assumes "\<And>k. k \<in> {0, 1, 2, 4, 5, 6, 7} \<Longrightarrow> bit (eh_flags g) k = bit (eh_flags h) k"
    "eh_allow g = eh_allow h" "eh_content_encoding g = eh_content_encoding h" "eh_content_language g = eh_content_language h"
    "eh_content_location g = eh_content_location h" "eh_content_md5 g = eh_content_md5 h" "eh_content_range g = eh_content_range h"
    "eh_content_type g = eh_content_type h"
  shows "eh_view g = eh_view h"
  using assms(2-) assms(1) [of 0] by (simp add: fun_eq_iff eh_view_def eh_strings_def eh_bits assms(1))

lemma eh_view_unset: "eh_flags eh = 0 \<Longrightarrow> eh_view eh = Map.empty"
  by (simp add: fun_eq_iff eh_view_def entity_header_flag_is_set_def split: option.splits)

lemma entity_header_new_ok:
  assumes "entity_header_new a = Some (Some eh, a')"
  shows "eh_ok eh \<and> eh_view eh = Map.empty"
proof -
  obtain ok a1 where al: "try_alloc 88 a = (ok, a1)" by fastforce
  obtain st d a2 where m: "multinew_loop 7 [] a1 = (st, d, a2)" "st \<longrightarrow> (\<exists>ns. d = ns \<and> list_all2 cs_fresh ns (replicate 7 []))"
    using multinew_spec [of 7 "[]" a1] by auto
  have st: "ok" "st" using assms al m(1) by (auto simp: entity_header_new_def cstring_multinew_def split: if_splits)
  have "cs_inv (d ! i)" if "i < 7" for i
    using m(2) st(2) that by (auto simp: list_all2_conv_all_nth cs_fresh_def cs_inv_iff)
  then have "eh_flags eh = 0" "eh_ok eh" using assms al m(1) st
    by (auto simp: entity_header_new_def cstring_multinew_def eh_ok_def SIZE_MOD_def)
  then show ?thesis using eh_view_unset by blast
qed

lemma entity_header_recycle_ok:
  assumes "eh_ok eh"
  obtains eh' where "entity_header_recycle eh = Some eh'" "eh_ok eh'" "eh_view eh' = Map.empty"
proof -
  obtain s where "cstring_recycle (eh_content_language eh) = Some s" "cs_rep s []"
    using cstring_recycle_spec assms by (auto simp: eh_ok_def cs_inv_def)
  then have "entity_header_recycle eh = Some ((entity_header_clear_flags eh)\<lparr>eh_content_language := s\<rparr>)" "cs_inv s"
    by (auto simp: entity_header_recycle_def cs_inv_iff)
  then show ?thesis using that assms eh_view_unset by (auto simp: eh_ok_def entity_header_clear_flags_def)
qed

text \<open>A decimal numeral is read back.\<close>

lemma tosize_t_numeral: "n < SIZE_MOD \<Longrightarrow> tosize_t (numeral_str 10 n) = Inr n"
proof -
  assume n: "n < SIZE_MOD"
  obtain c cs where c: "numeral_str 10 n = c # cs" "digit_of 10 c \<noteq> None"
    using numeral_str_correct [of 10 n] by (cases "numeral_str 10 n") auto
  then have "numeral_str 10 n \<noteq> CHR ''-'' # ds" for ds using not_space_digit [of 10 c] by auto
  moreover have "strto 10 (numeral_str 10 n) = Some (False, n, length (numeral_str 10 n))" using strto_numeral [of 10 "[]" "[]" n] by simp
  moreover have "n \<le> ULONG_MAX" using n by (simp add: limit_defs SIZE_MOD_def)
  ultimately show "tosize_t (numeral_str 10 n) = Inr n" unfolding tosize_t_def to_size_iff
    by (intro exI [of _ False] exI [of _ n]) simp
qed

lemma tosize_t_range: "tosize_t s = Inr n \<Longrightarrow> n < SIZE_MOD"
  unfolding tosize_t_def to_size_iff by (auto simp: limit_defs SIZE_MOD_def szsub_def)

text \<open>Every field keeps the invariant.\<close>

lemma eh_keeps_ok:
  assumes "eh_ok eh" "c_string v" "length v \<le> PTRDIFF_MAX" "parse_entity_header mktime i eh v e a = Some (st, eh', e', a')"
  shows "eh_ok eh'"
proof -
  have s: "eh_ok eh'" if "field_post eh_ok eh_view eh n w e (Some (st, eh', e', a'))" for n w using that by (auto simp: field_post_def)
  obtain n h where h: "(n, h) \<in> set (entity_header_fields mktime)" "h eh v e a = Some (st, eh', e', a')"
    by (rule table_entry [of i "entity_header_fields mktime"]) (use assms(4) in \<open>auto simp: parse_entity_header_def split: if_splits\<close>)
  from h(1) consider "h = parse_allow" | "h = parse_content_encoding" | "h = parse_content_language" | "h = parse_content_length" | "h = parse_content_location"
    | "h = parse_content_md5" | "h = parse_content_range" | "h = parse_content_type" | "h = parse_expires mktime" | "h = parse_last_modified mktime"
    by (auto simp: entity_header_fields_def)
  then show ?thesis
  proof cases
    case 1
    then show ?thesis using s eha.handler_view [OF assms(1-3), of e a] h(2) by (simp add: parse_allow_def)
  next
    case 2
    then show ?thesis using s ehe.handler_view [OF assms(1-3), of e a] h(2) by (simp add: parse_content_encoding_def)
  next
    case 3
    then show ?thesis using s language_post [OF assms(1-3), of e a] h(2) by (simp add: parse_content_language_def)
  next
    case 4
    then show ?thesis using h(2) assms(1) tosize_t_range [of v] by (auto simp: parse_content_length_def entity_header_set_content_length_def eh_ok_def split: sum.splits)
  next
    case 5
    then show ?thesis using s eho.handler_view [OF assms(1-3), of e a] h(2) by (simp add: parse_content_location_def)
  next
    case 6
    then show ?thesis using s eha.handler_view [OF assms(1-3), of e a] h(2) by (simp add: parse_content_md5_def)
  next
    case 7
    then show ?thesis using s ehr.handler_view [OF assms(1-3), of e a] h(2) by (simp add: parse_content_range_def)
  next
    case 8
    then show ?thesis using s ehy.handler_view [OF assms(1-3), of e a] h(2) by (simp add: parse_content_type_def)
  next
    case 9
    then show ?thesis using h(2) assms(1) by (auto simp: parse_expires_def entity_header_set_expires_def eh_ok_def bind_eq_Some_conv split: if_splits)
  next
    case 10
    then show ?thesis using h(2) assms(1) by (auto simp: parse_last_modified_def entity_header_set_last_modified_def eh_ok_def bind_eq_Some_conv split: if_splits)
  qed
qed


subsection \<open>Sending\<close>

definition eh_lines :: "(64 word \<times> (entity_header \<Rightarrow> string)) list" where
  "eh_lines = [
     (ENTITY_HEADER_ALLOW_SET, \<lambda>eh. ''Allow: '' @ cs_str (eh_allow eh) @ crlf),
     (ENTITY_HEADER_CONTENT_ENCODING_SET, \<lambda>eh. ''Content-Encoding: '' @ cs_str (eh_content_encoding eh) @ crlf),
     (ENTITY_HEADER_CONTENT_LANGUAGE_SET, \<lambda>eh. ''Content-Language: '' @ cs_str (eh_content_language eh) @ crlf),
     (ENTITY_HEADER_CONTENT_LENGTH_SET, \<lambda>eh. ''Content-Length: '' @ numeral_str 10 (eh_content_length eh) @ crlf),
     (ENTITY_HEADER_CONTENT_LOCATION_SET, \<lambda>eh. ''Content-Location: '' @ cs_str (eh_content_location eh) @ crlf),
     (ENTITY_HEADER_CONTENT_MD5_SET, \<lambda>eh. ''Content-MD5: '' @ cs_str (eh_content_md5 eh) @ crlf),
     (ENTITY_HEADER_CONTENT_RANGE_SET, \<lambda>eh. ''Content-Range: '' @ cs_str (eh_content_range eh) @ crlf),
     (ENTITY_HEADER_CONTENT_TYPE_SET, \<lambda>eh. ''Content-Type: '' @ cs_str (eh_content_type eh) @ crlf),
     (ENTITY_HEADER_EXPIRES_SET, \<lambda>eh. ''Expires: '' @ http_date (eh_expires eh)),
     (ENTITY_HEADER_LAST_MODIFIED_SET, \<lambda>eh. ''Last-Modified: '' @ http_date (eh_last_modified eh))]"

lemma send_length_sends:
  assumes "conn_ok c" "eh_ok eh" "entity_header_flag_is_set eh ENTITY_HEADER_CONTENT_LENGTH_SET"
  shows "sends c (''Content-Length: '' @ numeral_str 10 (eh_content_length eh) @ crlf) (send_content_length eh c)"
proof -
  have "eh_content_length eh < 10 ^ 20" using assms(2) by (simp add: eh_ok_def SIZE_MOD_def)
  then have "length (''Content-Length: '' @ numeral_str 10 (eh_content_length eh) @ crlf) < 100"
    using length_numeral [of "eh_content_length eh" 20] by (simp add: crlf_def)
  then show ?thesis using write_spec [OF assms(1)] assms(3) by (simp add: send_content_length_def entity_header_get_content_length_def Let_def del: append.simps)
qed

lemma eh_sends:
  assumes "conn_ok c" "eh_ok eh"
  shows "sends c (table_lines entity_header_flag_is_set eh_lines eh) (entity_header_send_fields eh c)"
  unfolding entity_header_send_fields_def
proof (rule send_table_sends [OF _ assms(1)])
  have f: "sends c (name @ cs_str s @ crlf) (http_send_field c name s)" if "conn_ok c" "cs_inv s" for c name s
    using send_field_sends [OF that(1)] that(2) by (simp add: cs_inv_def)
  note g = send_length_sends [OF _ assms(2)]
  show "list_all2 (\<lambda>(f, send) (g, line). f = g \<and> (\<forall>c. conn_ok c \<and> entity_header_flag_is_set eh f \<longrightarrow> sends c (line eh) (send eh c))) eh_send_fields eh_lines"
    using f assms(2) by (simp add: eh_send_fields_def eh_lines_def eh_ok_def send_allow_def send_content_encoding_def send_content_language_def
        send_content_location_def send_content_md5_def send_content_range_def send_content_type_def send_expires_def send_last_modified_def
        send_date_sends g del: append.simps)
qed

subsection \<open>Properties\<close>


definition sample_eh :: entity_header where
  "sample_eh = \<lparr>eh_flags = 0, eh_allow = cs_of [], eh_content_encoding = cs_of [], eh_content_language = cs_of [], eh_content_length = 0,
     eh_content_location = cs_of [], eh_content_md5 = cs_of [], eh_content_range = cs_of [], eh_content_type = cs_of [], eh_expires = 0, eh_last_modified = 0\<rparr>"

lemma sample_eh_ok: "eh_ok sample_eh"
  by (simp add: eh_ok_def sample_eh_def cs_inv_cs_of SIZE_MOD_def)


end
