(* ===== verification/Cookies.thy ===== *)
theory Cookies
  imports Header_Fields
begin

section \<open>Cookies\<close>

text \<open>
  The cookie object of \<open>src/http/src/cookies.c\<close> and the parsing of the attributes of a cookie field. The functions that
  add a cookie to a request are in the theory of the request parser. \<open>cookie_free\<close> only releases memory and
  \<open>cookie_dump\<close> prints to a file. The structure has 56 bytes.
\<close>

subsection \<open>The object\<close>

record cookie =
  ck_name :: cstring
  ck_value :: cstring
  ck_domain :: cstring
  ck_path :: cstring
  ck_comment :: cstring
  ck_max_age :: int
  ck_secure :: int
  ck_version :: int

definition MAX_AGE_NOT_SET :: int where "MAX_AGE_NOT_SET = - 1"

definition cookie_new :: "allocator \<Rightarrow> (cookie option \<times> allocator) option" where
  "cookie_new a = (
     let (ok, a) = try_alloc 56 a in
     if \<not> ok then Some (None, a)
     else do {
       (ok, arr, a) \<leftarrow> cstring_multinew 5 a;
       if \<not> ok then Some (None, a)
       else Some (Some \<lparr>ck_name = arr ! 0, ck_value = arr ! 1, ck_domain = arr ! 2, ck_path = arr ! 3, ck_comment = arr ! 4,
         ck_max_age = MAX_AGE_NOT_SET, ck_secure = 0, ck_version = 1\<rparr>, a) })"

definition cookie_set_name :: "cookie \<Rightarrow> string \<Rightarrow> allocator \<Rightarrow> (status_t \<times> cookie \<times> allocator) option" where
  "cookie_set_name c s a = do { (ok, str, a) \<leftarrow> cstring_set (ck_name c) s a; Some (ok, c\<lparr>ck_name := str\<rparr>, a) }"

definition cookie_set_value :: "cookie \<Rightarrow> string \<Rightarrow> allocator \<Rightarrow> (status_t \<times> cookie \<times> allocator) option" where
  "cookie_set_value c s a = do { (ok, str, a) \<leftarrow> cstring_set (ck_value c) s a; Some (ok, c\<lparr>ck_value := str\<rparr>, a) }"

definition cookie_set_comment :: "cookie \<Rightarrow> string \<Rightarrow> allocator \<Rightarrow> (status_t \<times> cookie \<times> allocator) option" where
  "cookie_set_comment c s a = do { (ok, str, a) \<leftarrow> cstring_set (ck_comment c) s a; Some (ok, c\<lparr>ck_comment := str\<rparr>, a) }"

definition cookie_set_domain :: "cookie \<Rightarrow> string \<Rightarrow> allocator \<Rightarrow> (status_t \<times> cookie \<times> allocator) option" where
  "cookie_set_domain c s a = do { (ok, str, a) \<leftarrow> cstring_set (ck_domain c) s a; Some (ok, c\<lparr>ck_domain := str\<rparr>, a) }"

definition cookie_set_path :: "cookie \<Rightarrow> string \<Rightarrow> allocator \<Rightarrow> (status_t \<times> cookie \<times> allocator) option" where
  "cookie_set_path c s a = do { (ok, str, a) \<leftarrow> cstring_set (ck_path c) s a; Some (ok, c\<lparr>ck_path := str\<rparr>, a) }"

definition cookie_set_version :: "cookie \<Rightarrow> int \<Rightarrow> cookie option" where
  "cookie_set_version c v = (if v = 0 \<or> v = 1 then Some (c\<lparr>ck_version := v\<rparr>) else None)"

definition cookie_set_secure :: "cookie \<Rightarrow> int \<Rightarrow> cookie option" where
  "cookie_set_secure c v = (if v = 0 \<or> v = 1 then Some (c\<lparr>ck_secure := v\<rparr>) else None)"

definition cookie_set_max_age :: "cookie \<Rightarrow> int \<Rightarrow> cookie" where
  "cookie_set_max_age c v = c\<lparr>ck_max_age := v\<rparr>"

definition cookie_get_name where "cookie_get_name c = cstr_at (cs_data (ck_name c)) 0"
definition cookie_get_value where "cookie_get_value c = cstr_at (cs_data (ck_value c)) 0"
definition cookie_get_comment where "cookie_get_comment c = cstr_at (cs_data (ck_comment c)) 0"
definition cookie_get_domain where "cookie_get_domain c = cstr_at (cs_data (ck_domain c)) 0"
definition cookie_get_path where "cookie_get_path c = cstr_at (cs_data (ck_path c)) 0"
definition cookie_get_version where "cookie_get_version c = ck_version c"
definition cookie_get_secure where "cookie_get_secure c = ck_secure c"
definition cookie_get_max_age where "cookie_get_max_age c = ck_max_age c"

subsection \<open>Attributes\<close>

text \<open>The loops that append characters to a string up to a stop character; they return the rest of the input.\<close>

fun attr_loop :: "char \<Rightarrow> cstring \<Rightarrow> string \<Rightarrow> allocator \<Rightarrow> (status_t \<times> cstring \<times> string \<times> allocator) option" where
  "attr_loop stop val [] a = Some (success, val, [], a)"
| "attr_loop stop val (c # location) a = (
     if c = stop then Some (success, val, c # location, a)
     else do {
       (ok, val, a) \<leftarrow> cstring_charcat val c a;
       if ok then attr_loop stop val location a else Some (failure, val, location, a) })"

definition get_cookie_attribute :: "string \<Rightarrow> string \<Rightarrow> cstring \<Rightarrow> error \<Rightarrow> allocator \<Rightarrow> (status_t \<times> cstring \<times> error \<times> allocator) option" where
  "get_cookie_attribute s attribute val e a = (
     case strstr s attribute of
       None \<Rightarrow> Some (failure, val, set_http_error e 400, a)
     | Some k \<Rightarrow> (
         let location = drop (k + length attribute) s;
             i = strspn location [CHR '' '', CHR 0x09, CHR ''='', CHR 0x22] in
         if i = 0 then Some (failure, val, set_http_error e 400, a)
         else do {
           (ok, val, location, a) \<leftarrow> attr_loop (CHR 0x22) val (drop i location) a;
           if \<not> ok then Some (failure, val, set_os_error e (errno_num ENOMEM), a)
           else if location = [] then Some (failure, val, set_http_error e 400, a)
           else Some (success, val, e, a) }))"

definition parse_cookie_attr :: "cookie \<Rightarrow> string \<Rightarrow> string \<Rightarrow> (cookie \<Rightarrow> string \<Rightarrow> allocator \<Rightarrow> (status_t \<times> cookie \<times> allocator) option) \<Rightarrow>
    error \<Rightarrow> allocator \<Rightarrow> (status_t \<times> cookie \<times> error \<times> allocator) option" where
  "parse_cookie_attr c input look_for set_attr e a = (
     case cstring_new a of
       (None, a) \<Rightarrow> Some (failure, c, set_os_error e (errno_num ENOMEM), a)
     | (Some str, a) \<Rightarrow> do {
         (ok, str, e, a) \<leftarrow> get_cookie_attribute input look_for str e a;
         if \<not> ok then Some (failure, c, e, a)
         else do {
           s \<leftarrow> cstr_at (cs_data str) 0;
           (ok, c, a) \<leftarrow> set_attr c s a;
           Some (success, c, e, a) } })"

definition parse_new_cookie_domain where
  "parse_new_cookie_domain c val e a = parse_cookie_attr c val ''$Domain'' cookie_set_domain e a"

definition parse_new_cookie_path where
  "parse_new_cookie_path c val e a = parse_cookie_attr c val ''$Path'' cookie_set_path e a"

definition parse_new_cookie_version :: "cookie \<Rightarrow> string \<Rightarrow> error \<Rightarrow> allocator \<Rightarrow> (status_t \<times> cookie \<times> error \<times> allocator) option" where
  "parse_new_cookie_version c val e a = (
     case cstring_new a of
       (None, a) \<Rightarrow> Some (failure, c, set_os_error e (errno_num ENOMEM), a)
     | (Some str, a) \<Rightarrow> do {
         (ok, str, e, a) \<leftarrow> get_cookie_attribute val ''$Version'' str e a;
         if \<not> ok then Some (failure, c, e, a)
         else do {
           s \<leftarrow> cstr_at (cs_data str) 0;
           (case toint s of
              Inl _ \<Rightarrow> Some (failure, c, set_http_error e 400, a)
            | Inr version \<Rightarrow>
                if version \<noteq> 1 then Some (failure, c, set_http_error e 400, a)
                else do { c \<leftarrow> cookie_set_version c version; Some (success, c, e, a) }) } })"

definition find_first_non_space :: "string \<Rightarrow> string" where
  "find_first_non_space s = dropWhile (\<lambda>c. c = CHR '' '' \<or> c = CHR 0x09) s"

text \<open>The lengths passed to \<open>cstring_nset\<close> include the separator.\<close>

definition parse_new_cookie_name :: "cookie \<Rightarrow> string \<Rightarrow> error \<Rightarrow> allocator \<Rightarrow> (status_t \<times> cookie \<times> error \<times> allocator) option" where
  "parse_new_cookie_name c input e a = (
     case strchr input (CHR '';'') of
       None \<Rightarrow> Some (failure, c, set_http_error e 400, a)
     | Some i \<Rightarrow> (
         let s = find_first_non_space (drop (i + 1) input) in
         case strchr s (CHR ''='') of
           None \<Rightarrow> Some (failure, c, set_http_error e 400, a)
         | Some n \<Rightarrow> (
             case cstring_new a of
               (None, a) \<Rightarrow> Some (failure, c, set_os_error e (errno_num ENOMEM), a)
             | (Some str, a) \<Rightarrow> do {
                 (ok, str, a) \<leftarrow> cstring_nset str s (n + 1) a;
                 if \<not> ok then Some (failure, c, set_os_error e (errno_num ENOMEM), a)
                 else do {
                   t \<leftarrow> cstr_at (cs_data str) 0;
                   (ok, c, a) \<leftarrow> cookie_set_name c t a;
                   if \<not> ok then Some (failure, c, set_os_error e (errno_num ENOMEM), a)
                   else do {
                     let s = drop (n + 1) s;
                     str \<leftarrow> cstring_recycle str;
                     (case strchr s (CHR '';'') of
                        None \<Rightarrow> Some (failure, c, set_http_error e 400, a)
                      | Some m \<Rightarrow> do {
                          (ok, str, a) \<leftarrow> cstring_nset str s (m + 1) a;
                          if \<not> ok then Some (failure, c, set_os_error e (errno_num ENOMEM), a)
                          else do {
                            t \<leftarrow> cstr_at (cs_data str) 0;
                            (ok, c, a) \<leftarrow> cookie_set_value c t a;
                            if \<not> ok then Some (failure, c, set_os_error e (errno_num ENOMEM), a)
                            else Some (success, c, e, a) } }) } } })))"

definition parse_new_cookie_secure :: "cookie \<Rightarrow> string \<Rightarrow> error \<Rightarrow> allocator \<Rightarrow> (status_t \<times> cookie \<times> error \<times> allocator) option" where
  "parse_new_cookie_secure c val e a = (
     case cstring_new a of
       (None, a) \<Rightarrow> Some (failure, c, set_os_error e (errno_num ENOMEM), a)
     | (Some str, a) \<Rightarrow> do {
         (ok, str, e, a) \<leftarrow> get_cookie_attribute val ''$Secure'' str e a;
         if \<not> ok then Some (failure, c, e, a)
         else do {
           s \<leftarrow> cstr_at (cs_data str) 0;
           (case toint s of
              Inl _ \<Rightarrow> Some (failure, c, set_http_error e 400, a)
            | Inr secure \<Rightarrow>
                if secure \<noteq> 1 \<and> secure \<noteq> 0 then Some (failure, c, set_http_error e 400, a)
                else do { c \<leftarrow> cookie_set_secure c secure; Some (success, c, e, a) }) } })"
subsection \<open>What is parsed\<close>

text \<open>The abstract cookie, and the texts of the parts of a cookie field.\<close>

record acookie =
  ac_name :: string
  ac_value :: string
  ac_domain :: string
  ac_path :: string
  ac_secure :: int
  ac_version :: int

definition ck_abs :: "cookie \<Rightarrow> acookie" where
  "ck_abs c = \<lparr>ac_name = cs_str (ck_name c), ac_value = cs_str (ck_value c), ac_domain = cs_str (ck_domain c), ac_path = cs_str (ck_path c),
     ac_secure = ck_secure c, ac_version = ck_version c\<rparr>"

definition cookie_ok :: "cookie \<Rightarrow> bool" where
  "cookie_ok c \<longleftrightarrow> cs_inv (ck_name c) \<and> cs_inv (ck_value c) \<and> cs_inv (ck_domain c) \<and> cs_inv (ck_path c) \<and> cs_inv (ck_comment c)"

definition attr_text :: "string \<Rightarrow> string \<Rightarrow> string option" where
  "attr_text s attribute = (case strstr s attribute of
     None \<Rightarrow> None
   | Some k \<Rightarrow> (let l = drop (k + length attribute) s; i = strspn l [CHR '' '', CHR 0x09, CHR ''='', CHR 0x22] in
       if i = 0 \<or> CHR 0x22 \<notin> set (drop i l) then None else Some (takeWhile (\<lambda>c. c \<noteq> CHR 0x22) (drop i l))))"

text \<open>
  The contract of the parsers: they return a well-formed cookie; when no allocation fails and the field has less than
  255 characters, the result is the one given, or a bad request.
\<close>

definition ck_post :: "error \<Rightarrow> allocator \<Rightarrow> string \<Rightarrow> acookie option \<Rightarrow> (status_t \<times> cookie \<times> error \<times> allocator) option \<Rightarrow> bool" where
  "ck_post e a v x r \<longleftrightarrow> (\<exists>st c' e' a'. r = Some (st, c', e', a') \<and> cookie_ok c' \<and> (decisions a = [] \<and> length v < 255 \<longrightarrow> a' = a \<and>
     (case x of Some y \<Rightarrow> st \<and> e' = e \<and> ck_abs c' = y | None \<Rightarrow> \<not> st \<and> e' = set_http_error e 400)))"

lemma ck_postI:
  "r = Some (st, c', e', a') \<Longrightarrow> cookie_ok c' \<Longrightarrow> (decisions a = [] \<Longrightarrow> length v < 255 \<Longrightarrow> a' = a \<and>
     (case x of Some y \<Rightarrow> st \<and> e' = e \<and> ck_abs c' = y | None \<Rightarrow> \<not> st \<and> e' = set_http_error e 400)) \<Longrightarrow> ck_post e a v x r"
  unfolding ck_post_def by blast

lemma ck_postE:
  assumes "ck_post e a v x r"
  obtains st c' e' a' where "r = Some (st, c', e', a')" "cookie_ok c'" "decisions a = [] \<and> length v < 255 \<longrightarrow> a' = a \<and>
     (case x of Some y \<Rightarrow> st \<and> e' = e \<and> ck_abs c' = y | None \<Rightarrow> \<not> st \<and> e' = set_http_error e 400)"
  using assms unfolding ck_post_def by blast

lemma short_roomy: "cs_rep s t \<Longrightarrow> l + n < 256 \<Longrightarrow> roomy s l n a"
  by (simp add: roomy_def cs_rep_def CSTRING_INITIAL_SIZE_def)

lemma attr_loop_spec:
  assumes "cs_rep s t" "c_string l"
  shows "\<exists>ok s' l' a'. attr_loop stop s l a = Some (ok, s', l', a') \<and> (\<exists>u. cs_rep s' u) \<and>
    (length t + length l < 255 \<longrightarrow> ok \<and> a' = a \<and> cs_rep s' (t @ takeWhile (\<lambda>c. c \<noteq> stop) l) \<and> l' = dropWhile (\<lambda>c. c \<noteq> stop) l)"
  using assms
proof (induction l arbitrary: s t a)
  case Nil
  then show ?case by auto
next
  case (Cons c l)
  show ?case
  proof (cases "c = stop")
    case True
    then show ?thesis using Cons.prems by auto
  next
    case False
    have "c \<noteq> NUL" using Cons.prems(2) by simp
    from cstring_charcat_spec [OF Cons.prems(1) this, of a] obtain st s1 a1 where c: "cstring_charcat s c a = Some (st, s1, a1)" "cs_rep s1 (if st then t @ [c] else t)"
      "roomy s (length t) 1 a \<longrightarrow> st \<and> a1 = a" unfolding cs_post_def by blast
    have room: "length t + length (c # l) < 255 \<Longrightarrow> st \<and> a1 = a" using c(3) short_roomy [OF Cons.prems(1), of "length t" 1 a] by simp
    show ?thesis
    proof (cases st)
      case True
      then have "cs_rep s1 (t @ [c])" "c_string l" using c(2) Cons.prems(2) by simp_all
      from Cons.IH [OF this, of a1] obtain ok s' l' a' where IH: "attr_loop stop s1 l a1 = Some (ok, s', l', a')" "\<exists>u. cs_rep s' u"
        "length (t @ [c]) + length l < 255 \<longrightarrow> ok \<and> a' = a1 \<and> cs_rep s' ((t @ [c]) @ takeWhile (\<lambda>c. c \<noteq> stop) l) \<and> l' = dropWhile (\<lambda>c. c \<noteq> stop) l"
        by blast
      then show ?thesis using c(1) True False room
        by (intro exI [of _ ok] exI [of _ s'] exI [of _ l'] exI [of _ a']) auto
    next
      case st: False
      then show ?thesis using c False room by (intro exI [of _ False] exI [of _ s1] exI [of _ l] exI [of _ a1]) auto
    qed
  qed
qed

lemma get_attribute_spec:
  assumes "cs_rep str []" "c_string s"
  shows "\<exists>st str' e' a'. get_cookie_attribute s attribute str e a = Some (st, str', e', a') \<and> (\<exists>u. cs_rep str' u) \<and>
    (length s < 255 \<longrightarrow> a' = a \<and> (case attr_text s attribute of
        Some t \<Rightarrow> st \<and> e' = e \<and> cs_rep str' t | None \<Rightarrow> \<not> st \<and> e' = set_http_error e 400))"
proof (cases "strstr s attribute")
  case None
  then show ?thesis using assms(1) by (intro exI [of _ False]) (auto simp: get_cookie_attribute_def attr_text_def)
next
  case (Some k)
  let ?l = "drop (k + length attribute) s" and ?i = "strspn (drop (k + length attribute) s) [CHR '' '', CHR 0x09, CHR ''='', CHR 0x22]"
  show ?thesis
  proof (cases "?i = 0")
    case True
    then show ?thesis using assms(1) Some by (intro exI [of _ False]) (auto simp: get_cookie_attribute_def attr_text_def Let_def)
  next
    case False
    have "c_string (drop ?i ?l)" using assms(2) by (simp add: c_string_drop)
    from attr_loop_spec [OF assms(1) this, of "CHR 0x22" a] obtain ok s' l' a' where L: "attr_loop (CHR 0x22) str (drop ?i ?l) a = Some (ok, s', l', a')" "\<exists>u. cs_rep s' u"
      "length ([] :: string) + length (drop ?i ?l) < 255 \<longrightarrow> ok \<and> a' = a \<and> cs_rep s' ([] @ takeWhile (\<lambda>c. c \<noteq> CHR 0x22) (drop ?i ?l)) \<and> l' = dropWhile (\<lambda>c. c \<noteq> CHR 0x22) (drop ?i ?l)"
      by blast
    have dw: "dropWhile (\<lambda>c. c \<noteq> CHR 0x22) x = [] \<longleftrightarrow> CHR 0x22 \<notin> set x" for x :: string by (auto simp: dropWhile_eq_Nil_conv)
    have L3: "length (drop ?i ?l) < 255 \<longrightarrow> ok \<and> a' = a \<and> cs_rep s' (takeWhile (\<lambda>c. c \<noteq> CHR 0x22) (drop ?i ?l)) \<and> (l' = [] \<longleftrightarrow> CHR 0x22 \<notin> set (drop ?i ?l))"
    proof (intro impI)
      assume "length (drop ?i ?l) < 255"
      then have "ok \<and> a' = a \<and> cs_rep s' (takeWhile (\<lambda>c. c \<noteq> CHR 0x22) (drop ?i ?l)) \<and> l' = dropWhile (\<lambda>c. c \<noteq> CHR 0x22) (drop ?i ?l)"
        using L(3) by (simp only: list.size append_Nil add_0 simp_thms)
      then show "ok \<and> a' = a \<and> cs_rep s' (takeWhile (\<lambda>c. c \<noteq> CHR 0x22) (drop ?i ?l)) \<and> (l' = [] \<longleftrightarrow> CHR 0x22 \<notin> set (drop ?i ?l))"
        by (elim conjE) (simp only: dw simp_thms)
    qed
    have run: "get_cookie_attribute s attribute str e a = Some (if \<not> ok then (False, s', set_os_error e (errno_num ENOMEM), a')
        else if l' = [] then (False, s', set_http_error e 400, a') else (True, s', e, a'))"
      using Some False L(1) by (simp add: get_cookie_attribute_def Let_def)
    have tx: "attr_text s attribute = (if CHR 0x22 \<notin> set (drop ?i ?l) then None else Some (takeWhile (\<lambda>c. c \<noteq> CHR 0x22) (drop ?i ?l)))"
      using Some False by (simp add: attr_text_def Let_def)
    have len: "length s < 255 \<Longrightarrow> length (drop ?i ?l) < 255" by simp
    show ?thesis unfolding run tx using L(2) L3 len by (cases ok; cases "l' = []") auto
  qed
qed

lemma cookie_setter:
  assumes "cs_inv s" "c_string t" "length t \<le> PTRDIFF_MAX"
  shows "\<exists>st s' a'. cstring_set s t a = Some (st, s', a') \<and> cs_inv s' \<and> (length t < 256 \<longrightarrow> st \<and> a' = a \<and> cs_str s' = t)"
proof -
  have r: "cs_rep s (cs_str s)" using assms(1) by (simp add: cs_inv_def)
  from cstring_set_spec [OF r assms(2,3), of a] obtain st s' a' where "cstring_set s t a = Some (st, s', a')" "cs_rep s' (if st then t else [])"
    "roomy s 0 (length t) a \<longrightarrow> st \<and> a' = a" unfolding cs_post_def by blast
  moreover have "length t < 256 \<longrightarrow> roomy s 0 (length t) a" using short_roomy [OF r, of 0 "length t"] by simp
  ultimately show ?thesis by (auto simp: cs_inv_iff cs_rep_str)
qed

lemma rep_text: "cs_rep s t \<Longrightarrow> c_string t \<and> length t \<le> PTRDIFF_MAX \<and> cstr_at (cs_data s) 0 = Some t"
  using cs_rep_cstr_at [of s t] by (auto simp: cs_rep_def)

lemma attr_text_length: "attr_text s attribute = Some t \<Longrightarrow> length t \<le> length s"
proof -
  assume "attr_text s attribute = Some t"
  then obtain k i where "t = takeWhile (\<lambda>c. c \<noteq> CHR 0x22) (drop i (drop k s))"
    by (auto simp: attr_text_def Let_def split: option.splits if_splits)
  then show ?thesis using length_takeWhile_le [of _ "drop i (drop k s)"] by (metis diff_le_self le_trans length_drop)
qed

lemma attr_field:
  assumes "cookie_ok c" "c_string v"
    "\<And>c t a. cookie_ok c \<Longrightarrow> c_string t \<Longrightarrow> length t \<le> PTRDIFF_MAX \<Longrightarrow> \<exists>st c' a'. set_attr c t a = Some (st, c', a') \<and> cookie_ok c' \<and>
      (length t < 256 \<longrightarrow> a' = a \<and> ck_abs c' = upd t (ck_abs c))"
  shows "ck_post e a v (map_option (\<lambda>t. upd t (ck_abs c)) (attr_text v attribute)) (parse_cookie_attr c v attribute set_attr e a)"
proof -
  obtain r a1 where n: "cstring_new a = (r, a1)" "\<forall>s. r = Some s \<longrightarrow> cs_rep s [] \<and> cs_size s = 256" "decisions a = [] \<longrightarrow> r \<noteq> None \<and> a1 = a"
    using cstring_new_spec by blast
  show ?thesis
  proof (cases r)
    case None
    then show ?thesis using n assms(1) by (intro ck_postI [of _ False c]) (simp_all add: parse_cookie_attr_def)
  next
    case (Some str)
    then have "cs_rep str []" using n(2) by blast
    from get_attribute_spec [OF this assms(2), of attribute e a1] obtain st str' e1 a2 where G: "get_cookie_attribute v attribute str e a1 = Some (st, str', e1, a2)" "\<exists>u. cs_rep str' u"
      "length v < 255 \<longrightarrow> a2 = a1 \<and> (case attr_text v attribute of Some t \<Rightarrow> st \<and> e1 = e \<and> cs_rep str' t | None \<Rightarrow> \<not> st \<and> e1 = set_http_error e 400)" by blast
    obtain u where u: "cs_rep str' u" using G(2) by blast
    show ?thesis
    proof (cases st)
      case False
      then show ?thesis using n Some G assms(1)
        by (intro ck_postI [of _ False c e1 a2]) (auto simp: parse_cookie_attr_def split: option.splits)
    next
      case True
      obtain st2 c' a3 where S: "set_attr c u a2 = Some (st2, c', a3)" "cookie_ok c'" "length u < 256 \<longrightarrow> a3 = a2 \<and> ck_abs c' = upd u (ck_abs c)"
        using assms(3) [OF assms(1), of u a2] rep_text [OF u] by blast
      have run: "parse_cookie_attr c v attribute set_attr e a = Some (True, c', e1, a3)" using n(1) Some G(1) True S(1) rep_text [OF u] by (simp add: parse_cookie_attr_def)
      have tx: "length v < 255 \<Longrightarrow> attr_text v attribute = Some u \<and> e1 = e \<and> a2 = a1 \<and> length u < 256"
      proof -
        assume l: "length v < 255"
        obtain t where t: "attr_text v attribute = Some t" "e1 = e" "cs_rep str' t" "a2 = a1" using G(3) l True by (cases "attr_text v attribute") auto
        have "u = t" using cs_rep_str [OF u] cs_rep_str [OF t(3)] by simp
        then show ?thesis using t attr_text_length [OF t(1)] l by simp
      qed
      show ?thesis by (rule ck_postI [OF run S(2)]) (use tx S(3) n(3) in auto)
    qed
  qed
qed

lemma path_post:
  assumes "cookie_ok c" "c_string v"
  shows "ck_post e a v (map_option (\<lambda>t. (ck_abs c)\<lparr>ac_path := t\<rparr>) (attr_text v ''$Path'')) (parse_new_cookie_path c v e a)"
  unfolding parse_new_cookie_path_def
proof (rule attr_field [OF assms])
  fix c t a assume a: "cookie_ok c" "c_string t" "length t \<le> PTRDIFF_MAX"
  have "cs_inv (ck_path c)" using a(1) by (simp add: cookie_ok_def)
  from cookie_setter [OF this a(2,3), of a] a(1) show "\<exists>st c' a'. cookie_set_path c t a = Some (st, c', a') \<and> cookie_ok c' \<and>
      (length t < 256 \<longrightarrow> a' = a \<and> ck_abs c' = (ck_abs c)\<lparr>ac_path := t\<rparr>)"
    by (auto simp: cookie_set_path_def cookie_ok_def ck_abs_def)
qed

lemma domain_post:
  assumes "cookie_ok c" "c_string v"
  shows "ck_post e a v (map_option (\<lambda>t. (ck_abs c)\<lparr>ac_domain := t\<rparr>) (attr_text v ''$Domain'')) (parse_new_cookie_domain c v e a)"
  unfolding parse_new_cookie_domain_def
proof (rule attr_field [OF assms])
  fix c t a assume a: "cookie_ok c" "c_string t" "length t \<le> PTRDIFF_MAX"
  have "cs_inv (ck_domain c)" using a(1) by (simp add: cookie_ok_def)
  from cookie_setter [OF this a(2,3), of a] a(1) show "\<exists>st c' a'. cookie_set_domain c t a = Some (st, c', a') \<and> cookie_ok c' \<and>
      (length t < 256 \<longrightarrow> a' = a \<and> ck_abs c' = (ck_abs c)\<lparr>ac_domain := t\<rparr>)"
    by (auto simp: cookie_set_domain_def cookie_ok_def ck_abs_def)
qed

text \<open>The two numeric attributes.\<close>

lemma number_attr:
  assumes "c_string v" "cookie_ok c"
    "\<And>n. P n \<Longrightarrow> \<exists>c'. set_num c n = Some c' \<and> cookie_ok c' \<and> ck_abs c' = upd n (ck_abs c)"
    "r = (case cstring_new a of
       (None, a) \<Rightarrow> Some (failure, c, set_os_error e (errno_num ENOMEM), a)
     | (Some str, a) \<Rightarrow> do {
         (ok, str, e, a) \<leftarrow> get_cookie_attribute v attribute str e a;
         if \<not> ok then Some (failure, c, e, a)
         else do {
           s \<leftarrow> cstr_at (cs_data str) 0;
           (case toint s of
              Inl _ \<Rightarrow> Some (failure, c, set_http_error e 400, a)
            | Inr n \<Rightarrow> if \<not> P n then Some (failure, c, set_http_error e 400, a)
                else do { c \<leftarrow> set_num c n; Some (success, c, e, a) }) } })"
  shows "ck_post e a v (case attr_text v attribute of None \<Rightarrow> None | Some t \<Rightarrow>
      (case toint t of Inl _ \<Rightarrow> None | Inr n \<Rightarrow> if P n then Some (upd n (ck_abs c)) else None)) r"
proof -
  obtain q a1 where n: "cstring_new a = (q, a1)" "\<forall>s. q = Some s \<longrightarrow> cs_rep s [] \<and> cs_size s = 256" "decisions a = [] \<longrightarrow> q \<noteq> None \<and> a1 = a"
    using cstring_new_spec by blast
  show ?thesis
  proof (cases q)
    case None
    then show ?thesis using n assms(2) by (intro ck_postI [of _ False c]) (simp_all add: assms(4))
  next
    case (Some str)
    then have "cs_rep str []" using n(2) by blast
    from get_attribute_spec [OF this assms(1), of attribute e a1] obtain st str' e1 a2 where G: "get_cookie_attribute v attribute str e a1 = Some (st, str', e1, a2)" "\<exists>u. cs_rep str' u"
      "length v < 255 \<longrightarrow> a2 = a1 \<and> (case attr_text v attribute of Some t \<Rightarrow> st \<and> e1 = e \<and> cs_rep str' t | None \<Rightarrow> \<not> st \<and> e1 = set_http_error e 400)" by blast
    obtain u where u: "cs_rep str' u" using G(2) by blast
    show ?thesis
    proof (cases st)
      case False
      then show ?thesis using n Some G assms(2) by (intro ck_postI [of _ False c e1 a2]) (auto simp: assms(4) split: option.splits)
    next
      case True
      have tx: "length v < 255 \<Longrightarrow> attr_text v attribute = Some u \<and> e1 = e \<and> a2 = a1"
        using G(3) True cs_rep_str [OF u] by (cases "attr_text v attribute") (auto dest: cs_rep_str)
      show ?thesis
      proof (cases "\<exists>k. toint u = Inr k \<and> P k")
        case True': True
        then obtain k c' where k: "toint u = Inr k" "P k" "set_num c k = Some c'" "cookie_ok c'" "ck_abs c' = upd k (ck_abs c)" using assms(3) by blast
        have run: "r = Some (True, c', e1, a2)" using n(1) Some G(1) True k rep_text [OF u] by (simp add: assms(4))
        show ?thesis by (rule ck_postI [OF run k(4)]) (use tx n(3) k in auto)
      next
        case no: False
        have run: "r = Some (False, c, set_http_error e1 400, a2)" using n(1) Some G(1) True no rep_text [OF u] by (cases "toint u") (auto simp: assms(4))
        show ?thesis by (rule ck_postI [OF run assms(2)]) (use tx n(3) no in \<open>auto split: sum.splits\<close>)
      qed
    qed
  qed
qed

lemma version_post:
  assumes "cookie_ok c" "c_string v"
  shows "ck_post e a v (case attr_text v ''$Version'' of None \<Rightarrow> None | Some t \<Rightarrow>
      (case toint t of Inl _ \<Rightarrow> None | Inr n \<Rightarrow> if n = 1 then Some ((ck_abs c)\<lparr>ac_version := n\<rparr>) else None)) (parse_new_cookie_version c v e a)"
  by (rule number_attr [where P = "\<lambda>n. n = 1" and set_num = cookie_set_version, OF assms(2,1)])
    (use assms(1) in \<open>auto simp: cookie_set_version_def cookie_ok_def ck_abs_def parse_new_cookie_version_def\<close>)

lemma secure_post:
  assumes "cookie_ok c" "c_string v"
  shows "ck_post e a v (case attr_text v ''$Secure'' of None \<Rightarrow> None | Some t \<Rightarrow>
      (case toint t of Inl _ \<Rightarrow> None | Inr n \<Rightarrow> if n = 0 \<or> n = 1 then Some ((ck_abs c)\<lparr>ac_secure := n\<rparr>) else None)) (parse_new_cookie_secure c v e a)"
proof (rule number_attr [where P = "\<lambda>n. n = 0 \<or> n = 1" and set_num = cookie_set_secure, OF assms(2,1)])
  have "(n \<noteq> 1 \<and> n \<noteq> 0) = (\<not> (n = 0 \<or> n = 1))" for n :: int by auto
  then show "parse_new_cookie_secure c v e a = (case cstring_new a of
       (None, a) \<Rightarrow> Some (failure, c, set_os_error e (errno_num ENOMEM), a)
     | (Some str, a) \<Rightarrow> do {
         (ok, str, e, a) \<leftarrow> get_cookie_attribute v ''$Secure'' str e a;
         if \<not> ok then Some (failure, c, e, a)
         else do {
           s \<leftarrow> cstr_at (cs_data str) 0;
           (case toint s of
              Inl _ \<Rightarrow> Some (failure, c, set_http_error e 400, a)
            | Inr n \<Rightarrow> if \<not> (n = 0 \<or> n = 1) then Some (failure, c, set_http_error e 400, a)
                else do { c \<leftarrow> cookie_set_secure c n; Some (success, c, e, a) }) } })"
    unfolding parse_new_cookie_secure_def by (simp only:)
qed (use assms(1) in \<open>auto simp: cookie_set_secure_def cookie_ok_def ck_abs_def\<close>)

definition name_value :: "string \<Rightarrow> (string \<times> string) option" where
  "name_value v = (
     let s = find_first_non_space (drop (Suc (length (takeWhile (\<lambda>c. c \<noteq> CHR '';'') v))) v);
         r = drop (Suc (length (takeWhile (\<lambda>c. c \<noteq> CHR ''='') s))) s in
     if CHR '';'' \<in> set v \<and> CHR ''='' \<in> set s \<and> CHR '';'' \<in> set r
     then Some (takeWhile (\<lambda>c. c \<noteq> CHR ''='') s @ ''='', takeWhile (\<lambda>c. c \<noteq> CHR '';'') r @ '';'') else None)"

lemma nset_short:
  assumes "cs_rep str t" "c_string s" "length s \<le> PTRDIFF_MAX"
  shows "\<exists>st str' a'. cstring_nset str s k a = Some (st, str', a') \<and> cs_rep str' (if st then take k s else []) \<and> (length s < 256 \<longrightarrow> st \<and> a' = a)"
proof -
  have "length s < 256 \<longrightarrow> roomy str 0 (length (take k s)) a" using short_roomy [OF assms(1), of 0 "length (take k s)" a] by simp
  then show ?thesis using cstring_nset_spec [OF assms, of k a] unfolding cs_post_def by blast
qed

lemma take_sep: "c \<in> set s \<Longrightarrow> take (Suc (length (takeWhile (\<lambda>x. x \<noteq> c) s))) s = takeWhile (\<lambda>x. x \<noteq> c) s @ [c]"
  by (induction s) auto

lemma name_post:
  assumes "cookie_ok c" "c_string v" "length v \<le> PTRDIFF_MAX"
  shows "ck_post e a v (map_option (\<lambda>(n, x). (ck_abs c)\<lparr>ac_name := n, ac_value := x\<rparr>) (name_value v)) (parse_new_cookie_name c v e a)"
proof -
  define k where "k = length (takeWhile (\<lambda>c. c \<noteq> CHR '';'') v)"
  define s where "s = find_first_non_space (drop (k + 1) v)"
  define n where "n = length (takeWhile (\<lambda>c. c \<noteq> CHR ''='') s)"
  define r where "r = drop (n + 1) s"
  define m where "m = length (takeWhile (\<lambda>c. c \<noteq> CHR '';'') r)"
  have ls: "length s \<le> length v" "c_string s"
    using length_dropWhile_le [of "\<lambda>c. c = CHR '' '' \<or> c = CHR 0x09" "drop (k + 1) v"] assms(2)
    by (auto simp: s_def find_first_non_space_def c_string_def dest: set_dropWhileD in_set_dropD)
  have lr: "length r \<le> length v" "c_string r" using ls by (auto simp: r_def c_string_drop)
  have nv: "name_value v = (if CHR '';'' \<in> set v \<and> CHR ''='' \<in> set s \<and> CHR '';'' \<in> set r then Some (take (Suc n) s, take (Suc m) r) else None)"
    unfolding name_value_def Let_def Suc_eq_plus1 k_def [symmetric] s_def [symmetric] n_def [symmetric] r_def [symmetric] m_def [symmetric]
    using take_sep [of "CHR ''=''" s] take_sep [of "CHR '';''" r] by (simp add: n_def m_def)
  show ?thesis
  proof (cases "CHR '';'' \<in> set v \<and> CHR ''='' \<in> set s")
    case False
    then have "parse_new_cookie_name c v e a = Some (False, c, set_http_error e 400, a)"
      by (auto simp: parse_new_cookie_name_def strchr_takeWhile s_def k_def Let_def)
    then show ?thesis using False assms(1) nv by (intro ck_postI) auto
  next
    case True
    then have ch: "strchr v (CHR '';'') = Some k" "strchr s (CHR ''='') = Some n" by (simp_all add: strchr_takeWhile k_def n_def)
    obtain q a1 where new: "cstring_new a = (q, a1)" "\<forall>s. q = Some s \<longrightarrow> cs_rep s [] \<and> cs_size s = 256" "decisions a = [] \<longrightarrow> q \<noteq> None \<and> a1 = a"
      using cstring_new_spec by blast
    show ?thesis
    proof (cases q)
      case None
      then have "parse_new_cookie_name c v e a = Some (False, c, set_os_error e (errno_num ENOMEM), a1)"
        using ch new(1) by (simp add: parse_new_cookie_name_def Let_def s_def)
      then show ?thesis using new(3) None assms(1) by (intro ck_postI) auto
    next
      case (Some str)
      then have "cs_rep str []" using new(2) by blast
      then obtain st1 str1 a2 where S1: "cstring_nset str s (n + 1) a1 = Some (st1, str1, a2)" "cs_rep str1 (if st1 then take (n + 1) s else [])" "length s < 256 \<longrightarrow> st1 \<and> a2 = a1"
        using nset_short [of str "[]" s "n + 1" a1] ls assms(3) by auto
      have run: "parse_new_cookie_name c v e a = (if \<not> st1 then Some (failure, c, set_os_error e (errno_num ENOMEM), a2)
          else do {
            t \<leftarrow> cstr_at (cs_data str1) 0;
            (ok, c, a) \<leftarrow> cookie_set_name c t a2;
            if \<not> ok then Some (failure, c, set_os_error e (errno_num ENOMEM), a)
            else do {
              str \<leftarrow> cstring_recycle str1;
              (case strchr r (CHR '';'') of
                 None \<Rightarrow> Some (failure, c, set_http_error e 400, a)
               | Some m \<Rightarrow> do {
                   (ok, str, a) \<leftarrow> cstring_nset str r (m + 1) a;
                   if \<not> ok then Some (failure, c, set_os_error e (errno_num ENOMEM), a)
                   else do {
                     t \<leftarrow> cstr_at (cs_data str) 0;
                     (ok, c, a) \<leftarrow> cookie_set_value c t a;
                     if \<not> ok then Some (failure, c, set_os_error e (errno_num ENOMEM), a)
                     else Some (success, c, e, a) } }) } })"
        unfolding parse_new_cookie_name_def ch(1) option.case Let_def s_def [symmetric] ch(2) new(1) Some prod.case S1(1) bind.bind_lunit r_def [symmetric]
        by (rule refl)
      show ?thesis
      proof (cases st1)
        case False
        then show ?thesis unfolding run using S1(3) assms(1) ls(1) by (intro ck_postI) auto
      next
        case st1: True
        have rp1: "cs_rep str1 (take (n + 1) s)" using S1(2) st1 by simp
        have "cs_inv (ck_name c)" using assms(1) by (simp add: cookie_ok_def)
        then obtain st2 nm a3 where S2: "cstring_set (ck_name c) (take (n + 1) s) a2 = Some (st2, nm, a3)" "cs_inv nm"
          "length (take (n + 1) s) < 256 \<longrightarrow> st2 \<and> a3 = a2 \<and> cs_str nm = take (n + 1) s"
          using cookie_setter [of "ck_name c" "take (n + 1) s" a2] rep_text [OF rp1] by blast
        let ?c = "c\<lparr>ck_name := nm\<rparr>"
        have ok2: "cookie_ok ?c" using assms(1) S2(2) by (simp add: cookie_ok_def)
        obtain str2 where rc: "cstring_recycle str1 = Some str2" "cs_rep str2 []" using cstring_recycle_spec [OF rp1] by blast
        have run2: "parse_new_cookie_name c v e a = (if \<not> st2 then Some (failure, ?c, set_os_error e (errno_num ENOMEM), a3)
            else (case strchr r (CHR '';'') of
                 None \<Rightarrow> Some (failure, ?c, set_http_error e 400, a3)
               | Some m \<Rightarrow> do {
                   (ok, str, a) \<leftarrow> cstring_nset str2 r (m + 1) a3;
                   if \<not> ok then Some (failure, ?c, set_os_error e (errno_num ENOMEM), a)
                   else do {
                     t \<leftarrow> cstr_at (cs_data str) 0;
                     (ok, c, a) \<leftarrow> cookie_set_value ?c t a;
                     if \<not> ok then Some (failure, c, set_os_error e (errno_num ENOMEM), a)
                     else Some (success, c, e, a) } }))"
          unfolding run using st1 rep_text [OF rp1] S2(1) rc(1) by (simp add: cookie_set_name_def)
        show ?thesis
        proof (cases "st2 \<and> CHR '';'' \<in> set r")
          case False
          have small: "length v < 255 \<Longrightarrow> st2 \<and> a3 = a1" using S1(3) S2(3) ls(1) by simp
          show ?thesis
          proof (cases st2)
            case True
            then have "parse_new_cookie_name c v e a = Some (False, ?c, set_http_error e 400, a3)" unfolding run2 using False by (simp add: strchr_takeWhile)
            then show ?thesis by (rule ck_postI [OF _ ok2]) (use True False small new(3) nv in simp)
          next
            case False
            then have "parse_new_cookie_name c v e a = Some (False, ?c, set_os_error e (errno_num ENOMEM), a3)" unfolding run2 by simp
            then show ?thesis by (rule ck_postI [OF _ ok2]) (use False small in simp)
          qed
        next
          case st2: True
          have chr: "strchr r (CHR '';'') = Some m" using st2 by (simp add: strchr_takeWhile m_def)
          obtain st3 str3 a4 where S3: "cstring_nset str2 r (m + 1) a3 = Some (st3, str3, a4)" "cs_rep str3 (if st3 then take (m + 1) r else [])" "length r < 256 \<longrightarrow> st3 \<and> a4 = a3"
            using nset_short [OF rc(2) lr(2), of "m + 1" a3] lr(1) assms(3) by auto
          show ?thesis
          proof (cases st3)
            case False
            then show ?thesis unfolding run2 using st2 chr S3 ok2 lr(1) by (intro ck_postI) auto
          next
            case st3: True
            have rp3: "cs_rep str3 (take (m + 1) r)" using S3(2) st3 by simp
            have "cs_inv (ck_value ?c)" using ok2 by (simp add: cookie_ok_def)
            then obtain st4 vl a5 where S4: "cstring_set (ck_value ?c) (take (m + 1) r) a4 = Some (st4, vl, a5)" "cs_inv vl"
              "length (take (m + 1) r) < 256 \<longrightarrow> st4 \<and> a5 = a4 \<and> cs_str vl = take (m + 1) r"
              using cookie_setter [of "ck_value ?c" "take (m + 1) r" a4] rep_text [OF rp3] by blast
            have run3: "parse_new_cookie_name c v e a = Some (if st4 then (True, ?c\<lparr>ck_value := vl\<rparr>, e, a5) else (False, ?c\<lparr>ck_value := vl\<rparr>, set_os_error e (errno_num ENOMEM), a5))"
              unfolding run2 using st2 chr S3(1) st3 rep_text [OF rp3] S4(1) by (simp add: cookie_set_value_def)
            have ok4: "cookie_ok (?c\<lparr>ck_value := vl\<rparr>)" using ok2 S4(2) by (simp add: cookie_ok_def)
            show ?thesis unfolding run3 using ok4 S1(3) S2(3) S3(3) S4(3) new(3) ls(1) lr(1) nv st2 True
              by (cases st4) (intro ck_postI, auto simp: ck_abs_def)+
          qed
        qed
      qed
    qed
  qed
qed

definition blank_cookie :: acookie where
  "blank_cookie = \<lparr>ac_name = [], ac_value = [], ac_domain = [], ac_path = [], ac_secure = 0, ac_version = 1\<rparr>"

lemma cookie_new_spec:
  obtains r a' where "cookie_new a = Some (r, a')" "\<forall>c. r = Some c \<longrightarrow> cookie_ok c \<and> ck_abs c = blank_cookie"
    "decisions a = [] \<longrightarrow> r \<noteq> None \<and> a' = a"
proof -
  obtain ok a1 where al: "try_alloc 56 a = (ok, a1)" "decisions a = [] \<longrightarrow> ok \<and> a1 = a"
    by (cases "try_alloc 56 a") (auto simp: try_alloc_def PTRDIFF_MAX_def split: list.splits)
  obtain st d a2 where m: "multinew_loop 5 [] a1 = (st, d, a2)" "decisions a1 = [] \<longrightarrow> st \<and> a2 = a1" "st \<longrightarrow> (\<exists>ns. d = ns \<and> list_all2 cs_fresh ns (replicate 5 []))"
    using multinew_spec [of 5 "[]" a1] by auto
  have f: "cs_rep (d ! i) []" if "st" "i < 5" for i
    using m(3) that by (auto simp: list_all2_conv_all_nth cs_fresh_def)
  show ?thesis
  proof (cases "ok \<and> st")
    case True
    let ?c = "\<lparr>ck_name = d ! 0, ck_value = d ! 1, ck_domain = d ! 2, ck_path = d ! 3, ck_comment = d ! 4,
         ck_max_age = MAX_AGE_NOT_SET, ck_secure = 0, ck_version = 1\<rparr>"
    have "cookie_new a = Some (Some ?c, a2)" using al(1) m(1) True by (simp add: cookie_new_def cstring_multinew_def)
    moreover have "cs_inv (d ! i)" "cs_str (d ! i) = []" if "i < 5" for i
      using f [OF _ that] True by (auto simp: cs_inv_iff cs_rep_str)
    then have "cookie_ok ?c" "ck_abs ?c = blank_cookie" by (simp_all add: cookie_ok_def ck_abs_def blank_cookie_def)
    ultimately show ?thesis using that [of "Some ?c" a2] al(2) m(2) by auto
  next
    case False
    have "cookie_new a = Some (None, if ok then a2 else a1)" using al(1) m(1) False by (cases ok) (simp_all add: cookie_new_def cstring_multinew_def)
    then obtain b where b: "cookie_new a = Some (None, b)" by blast
    have "decisions a \<noteq> []" using False al(2) m(2) by auto
    then show ?thesis using that [OF b] by simp
  qed
qed
end
