(* ===== verification/Request.thy ===== *)
theory Request
  imports General_Header Entity_Header Cookies MetaPair Metalist Rfc1738
begin

section \<open>Requests\<close>

text \<open>
  The request object of \<open>src/http/src/request.c\<close>: its state, setters and getters, the parameters and cookies, the fields of
  posted forms, and sending. Reading a request is in the next theory. The configuration without \<open>CHOPPED\<close> is
  modelled. The pointer \<open>proxy_authorization\<close> is an option because no code allocates it; the other strings are never
  \<open>NULL\<close> in a request that \<open>request_new\<close> returned. A failing \<open>assert\<close>, a bad access and a double \<open>free\<close> are \<open>None\<close>.
\<close>

subsection \<open>Flags and state\<close>

definition REQUEST_ENTITY_SET :: "64 word" where "REQUEST_ENTITY_SET = 0x1"
definition REQUEST_URI_SET :: "64 word" where "REQUEST_URI_SET = 0x2"
definition REQUEST_ACCEPT_SET :: "64 word" where "REQUEST_ACCEPT_SET = 0x4"
definition REQUEST_ACCEPT_CHARSET_SET :: "64 word" where "REQUEST_ACCEPT_CHARSET_SET = 0x8"
definition REQUEST_ACCEPT_ENCODING_SET :: "64 word" where "REQUEST_ACCEPT_ENCODING_SET = 0x10"
definition REQUEST_ACCEPT_LANGUAGE_SET :: "64 word" where "REQUEST_ACCEPT_LANGUAGE_SET = 0x20"
definition REQUEST_AUTHORIZATION_SET :: "64 word" where "REQUEST_AUTHORIZATION_SET = 0x40"
definition REQUEST_FROM_SET :: "64 word" where "REQUEST_FROM_SET = 0x80"
definition REQUEST_PRAGMA_SET :: "64 word" where "REQUEST_PRAGMA_SET = 0x100"
definition REQUEST_REFERER_SET :: "64 word" where "REQUEST_REFERER_SET = 0x200"
definition REQUEST_USER_AGENT_SET :: "64 word" where "REQUEST_USER_AGENT_SET = 0x400"
definition REQUEST_LINK_SET :: "64 word" where "REQUEST_LINK_SET = 0x800"
definition REQUEST_MAX_FORWARDS_SET :: "64 word" where "REQUEST_MAX_FORWARDS_SET = 0x1000"
definition REQUEST_MIME_VERSION_SET :: "64 word" where "REQUEST_MIME_VERSION_SET = 0x2000"
definition REQUEST_PROXY_AUTHORIZATION_SET :: "64 word" where "REQUEST_PROXY_AUTHORIZATION_SET = 0x4000"
definition REQUEST_RANGE_SET :: "64 word" where "REQUEST_RANGE_SET = 0x8000"
definition REQUEST_TE_SET :: "64 word" where "REQUEST_TE_SET = 0x10000"
definition REQUEST_TITLE_SET :: "64 word" where "REQUEST_TITLE_SET = 0x20000"
definition REQUEST_UPGRADE_SET :: "64 word" where "REQUEST_UPGRADE_SET = 0x40000"
definition REQUEST_EXPECT_SET :: "64 word" where "REQUEST_EXPECT_SET = 0x80000"
definition REQUEST_HOST_SET :: "64 word" where "REQUEST_HOST_SET = 0x100000"
definition REQUEST_IF_MATCH_SET :: "64 word" where "REQUEST_IF_MATCH_SET = 0x200000"
definition REQUEST_IF_NONE_MATCH_SET :: "64 word" where "REQUEST_IF_NONE_MATCH_SET = 0x400000"
definition REQUEST_IF_RANGE_SET :: "64 word" where "REQUEST_IF_RANGE_SET = 0x800000"
definition REQUEST_IF_MODIFIED_SINCE_SET :: "64 word" where "REQUEST_IF_MODIFIED_SINCE_SET = 0x1000000"
definition REQUEST_IF_UNMODIFIED_SINCE_SET :: "64 word" where "REQUEST_IF_UNMODIFIED_SINCE_SET = 0x2000000"

lemmas rq_flag_defs =
  REQUEST_ENTITY_SET_def
  REQUEST_URI_SET_def
  REQUEST_ACCEPT_SET_def
  REQUEST_ACCEPT_CHARSET_SET_def
  REQUEST_ACCEPT_ENCODING_SET_def
  REQUEST_ACCEPT_LANGUAGE_SET_def
  REQUEST_AUTHORIZATION_SET_def
  REQUEST_FROM_SET_def
  REQUEST_PRAGMA_SET_def
  REQUEST_REFERER_SET_def
  REQUEST_USER_AGENT_SET_def
  REQUEST_LINK_SET_def
  REQUEST_MAX_FORWARDS_SET_def
  REQUEST_MIME_VERSION_SET_def
  REQUEST_PROXY_AUTHORIZATION_SET_def
  REQUEST_RANGE_SET_def
  REQUEST_TE_SET_def
  REQUEST_TITLE_SET_def
  REQUEST_UPGRADE_SET_def
  REQUEST_EXPECT_SET_def
  REQUEST_HOST_SET_def
  REQUEST_IF_MATCH_SET_def
  REQUEST_IF_NONE_MATCH_SET_def
  REQUEST_IF_RANGE_SET_def
  REQUEST_IF_MODIFIED_SINCE_SET_def
  REQUEST_IF_UNMODIFIED_SINCE_SET_def

datatype http_method = METHOD_UNKNOWN | METHOD_GET | METHOD_HEAD | METHOD_POST
datatype http_version = VERSION_UNKNOWN | VERSION_09 | VERSION_10 | VERSION_11

record http_request =
  rq_method :: http_method
  rq_version :: http_version
  rq_defered_read :: int
  rq_general_header :: general_header
  rq_entity_header :: entity_header
  rq_flags :: "64 word"
  rq_params :: "pair option"
  rq_entity_buf :: "char list option"
  rq_cookies :: "cookie mlist option"
  rq_if_modified_since :: int
  rq_if_unmodified_since :: int
  rq_max_forwards :: nat
  rq_mime_version_major :: int
  rq_mime_version_minor :: int
  rq_proxy_authorization :: "cstring option"
  rq_uri :: cstring
  rq_accept :: cstring
  rq_accept_charset :: cstring
  rq_accept_encoding :: cstring
  rq_accept_language :: cstring
  rq_authorization :: cstring
  rq_from :: cstring
  rq_referer :: cstring
  rq_user_agent :: cstring
  rq_link :: cstring
  rq_range :: cstring
  rq_te :: cstring
  rq_title :: cstring
  rq_expect :: cstring
  rq_host :: cstring
  rq_if_match :: cstring
  rq_if_none_match :: cstring
  rq_if_range :: cstring

definition request_flag_is_set :: "http_request \<Rightarrow> 64 word \<Rightarrow> bool" where
  "request_flag_is_set r flag \<longleftrightarrow> rq_flags r AND flag \<noteq> 0"

definition request_set_flag :: "http_request \<Rightarrow> 64 word \<Rightarrow> http_request" where
  "request_set_flag r flag = r\<lparr>rq_flags := rq_flags r OR flag\<rparr>"

definition request_clear_flags :: "http_request \<Rightarrow> http_request" where
  "request_clear_flags r = r\<lparr>rq_flags := 0\<rparr>"

text \<open>
  The structure has 248 bytes. When the entity header or the strings cannot be allocated, the error path frees the
  general header (and the entity header) and then calls \<open>request_free\<close>, which frees them again.
\<close>

definition request_new :: "allocator \<Rightarrow> (http_request option \<times> allocator) option" where
  "request_new a = (
     let (ok, a) = try_alloc 248 a in
     if \<not> ok then Some (None, a)
     else do {
       (gh, a) \<leftarrow> general_header_new a;
       (case gh of
          None \<Rightarrow> Some (None, a)
        | Some gh \<Rightarrow> do {
            (eh, a) \<leftarrow> entity_header_new a;
            (case eh of
               None \<Rightarrow> None
             | Some eh \<Rightarrow> do {
                 (ok, arr, a) \<leftarrow> cstring_multinew 18 a;
                 if \<not> ok then None
                 else Some (Some \<lparr>rq_method = METHOD_UNKNOWN, rq_version = VERSION_UNKNOWN, rq_defered_read = 0, rq_general_header = gh,
                   rq_entity_header = eh, rq_flags = 0, rq_params = None, rq_entity_buf = None, rq_cookies = None, rq_if_modified_since = 0,
                   rq_if_unmodified_since = 0, rq_max_forwards = 0, rq_mime_version_major = 0, rq_mime_version_minor = 0, rq_proxy_authorization = None,
                   rq_uri = arr ! 0,
                   rq_accept = arr ! 1,
                   rq_accept_charset = arr ! 2,
                   rq_accept_encoding = arr ! 3,
                   rq_accept_language = arr ! 4,
                   rq_authorization = arr ! 5,
                   rq_from = arr ! 6,
                   rq_referer = arr ! 7,
                   rq_user_agent = arr ! 8,
                   rq_link = arr ! 9,
                   rq_range = arr ! 10,
                   rq_te = arr ! 11,
                   rq_title = arr ! 12,
                   rq_expect = arr ! 13,
                   rq_host = arr ! 14,
                   rq_if_match = arr ! 15,
                   rq_if_none_match = arr ! 16,
                   rq_if_range = arr ! 17\<rparr>, a) }) }) })"

definition request_recycle :: "http_request \<Rightarrow> http_request option" where
  "request_recycle p = do {
     (case rq_params p of None \<Rightarrow> Some [] | Some ps \<Rightarrow> pair_free ps);
     (case rq_cookies p of None \<Rightarrow> Some () | Some l \<Rightarrow> map_option (\<lambda>_. ()) (list_free l));
     accept \<leftarrow> cstring_recycle (rq_accept p);
     accept_charset \<leftarrow> cstring_recycle (rq_accept_charset p);
     accept_encoding \<leftarrow> cstring_recycle (rq_accept_encoding p);
     accept_language \<leftarrow> cstring_recycle (rq_accept_language p);
     te \<leftarrow> cstring_recycle (rq_te p);
     eh \<leftarrow> entity_header_recycle (rq_entity_header p);
     Some (request_clear_flags (p\<lparr>rq_params := None, rq_cookies := None, rq_accept := accept, rq_accept_charset := accept_charset,
       rq_accept_encoding := accept_encoding, rq_accept_language := accept_language, rq_te := te,
       rq_general_header := general_header_recycle (rq_general_header p), rq_entity_header := eh, rq_entity_buf := None\<rparr>)) }"

subsection \<open>Setters and getters\<close>

definition request_set_method where "request_set_method p v = p\<lparr>rq_method := v\<rparr>"
definition request_set_version where "request_set_version p v = p\<lparr>rq_version := v\<rparr>"
definition request_get_method where "request_get_method p = rq_method p"
definition request_get_version where "request_get_version p = rq_version p"
definition request_set_defered_read where "request_set_defered_read p v = p\<lparr>rq_defered_read := v\<rparr>"
definition request_get_defered_read where "request_get_defered_read p = rq_defered_read p"
definition request_get_general_header where "request_get_general_header r = rq_general_header r"
definition request_get_entity_header where "request_get_entity_header r = rq_entity_header r"

definition request_set_uri :: "http_request \<Rightarrow> string \<Rightarrow> allocator \<Rightarrow> (status_t \<times> http_request \<times> allocator) option" where
  "request_set_uri r val a = do {
     (ok, s, a) \<leftarrow> cstring_set (rq_uri r) val a;
     let r = r\<lparr>rq_uri := s\<rparr>;
     Some (if \<not> ok then (failure, r, a) else (success, request_set_flag r REQUEST_URI_SET, a)) }"

definition request_set_authorization :: "http_request \<Rightarrow> string \<Rightarrow> allocator \<Rightarrow> (status_t \<times> http_request \<times> allocator) option" where
  "request_set_authorization r val a = do {
     (ok, s, a) \<leftarrow> cstring_set (rq_authorization r) val a;
     let r = r\<lparr>rq_authorization := s\<rparr>;
     Some (if \<not> ok then (failure, r, a) else (success, request_set_flag r REQUEST_AUTHORIZATION_SET, a)) }"

definition request_set_from :: "http_request \<Rightarrow> string \<Rightarrow> allocator \<Rightarrow> (status_t \<times> http_request \<times> allocator) option" where
  "request_set_from r val a = do {
     (ok, s, a) \<leftarrow> cstring_set (rq_from r) val a;
     let r = r\<lparr>rq_from := s\<rparr>;
     Some (if \<not> ok then (failure, r, a) else (success, request_set_flag r REQUEST_FROM_SET, a)) }"

definition request_set_referer :: "http_request \<Rightarrow> string \<Rightarrow> allocator \<Rightarrow> (status_t \<times> http_request \<times> allocator) option" where
  "request_set_referer r val a = do {
     (ok, s, a) \<leftarrow> cstring_set (rq_referer r) val a;
     let r = r\<lparr>rq_referer := s\<rparr>;
     Some (if \<not> ok then (failure, r, a) else (success, request_set_flag r REQUEST_REFERER_SET, a)) }"

definition request_set_user_agent :: "http_request \<Rightarrow> string \<Rightarrow> allocator \<Rightarrow> (status_t \<times> http_request \<times> allocator) option" where
  "request_set_user_agent r val a = do {
     (ok, s, a) \<leftarrow> cstring_set (rq_user_agent r) val a;
     let r = r\<lparr>rq_user_agent := s\<rparr>;
     Some (if \<not> ok then (failure, r, a) else (success, request_set_flag r REQUEST_USER_AGENT_SET, a)) }"

definition request_set_range :: "http_request \<Rightarrow> string \<Rightarrow> allocator \<Rightarrow> (status_t \<times> http_request \<times> allocator) option" where
  "request_set_range r val a = do {
     (ok, s, a) \<leftarrow> cstring_set (rq_range r) val a;
     let r = r\<lparr>rq_range := s\<rparr>;
     Some (if \<not> ok then (failure, r, a) else (success, request_set_flag r REQUEST_RANGE_SET, a)) }"

definition request_set_expect :: "http_request \<Rightarrow> string \<Rightarrow> allocator \<Rightarrow> (status_t \<times> http_request \<times> allocator) option" where
  "request_set_expect r val a = do {
     (ok, s, a) \<leftarrow> cstring_set (rq_expect r) val a;
     let r = r\<lparr>rq_expect := s\<rparr>;
     Some (if \<not> ok then (failure, r, a) else (success, request_set_flag r REQUEST_EXPECT_SET, a)) }"

definition request_set_host :: "http_request \<Rightarrow> string \<Rightarrow> allocator \<Rightarrow> (status_t \<times> http_request \<times> allocator) option" where
  "request_set_host r val a = (if request_flag_is_set r REQUEST_HOST_SET then None else do {
     (ok, s, a) \<leftarrow> cstring_set (rq_host r) val a;
     let r = r\<lparr>rq_host := s\<rparr>;
     Some (if \<not> ok then (failure, r, a) else (success, request_set_flag r REQUEST_HOST_SET, a)) })"

definition request_set_if_match :: "http_request \<Rightarrow> string \<Rightarrow> allocator \<Rightarrow> (status_t \<times> http_request \<times> allocator) option" where
  "request_set_if_match r val a = do {
     (ok, s, a) \<leftarrow> cstring_set (rq_if_match r) val a;
     let r = r\<lparr>rq_if_match := s\<rparr>;
     Some (if \<not> ok then (failure, r, a) else (success, request_set_flag r REQUEST_IF_MATCH_SET, a)) }"

definition request_set_if_none_match :: "http_request \<Rightarrow> string \<Rightarrow> allocator \<Rightarrow> (status_t \<times> http_request \<times> allocator) option" where
  "request_set_if_none_match r val a = do {
     (ok, s, a) \<leftarrow> cstring_set (rq_if_none_match r) val a;
     let r = r\<lparr>rq_if_none_match := s\<rparr>;
     Some (if \<not> ok then (failure, r, a) else (success, request_set_flag r REQUEST_IF_NONE_MATCH_SET, a)) }"

definition request_set_if_range :: "http_request \<Rightarrow> string \<Rightarrow> allocator \<Rightarrow> (status_t \<times> http_request \<times> allocator) option" where
  "request_set_if_range r val a = do {
     (ok, s, a) \<leftarrow> cstring_set (rq_if_range r) val a;
     let r = r\<lparr>rq_if_range := s\<rparr>;
     Some (if \<not> ok then (failure, r, a) else (success, request_set_flag r REQUEST_IF_RANGE_SET, a)) }"

definition request_set_accept :: "http_request \<Rightarrow> string \<Rightarrow> error \<Rightarrow> allocator \<Rightarrow> (status_t \<times> http_request \<times> error \<times> allocator) option" where
  "request_set_accept r val e a = do {
     (ok, s, a) \<leftarrow> cstring_concat (rq_accept r) val a;
     let r = r\<lparr>rq_accept := s\<rparr>;
     Some (if \<not> ok then (failure, r, set_os_error e (errno_num ENOMEM), a) else (success, request_set_flag r REQUEST_ACCEPT_SET, e, a)) }"

definition request_set_accept_charset :: "http_request \<Rightarrow> string \<Rightarrow> error \<Rightarrow> allocator \<Rightarrow> (status_t \<times> http_request \<times> error \<times> allocator) option" where
  "request_set_accept_charset r val e a = do {
     (ok, s, a) \<leftarrow> cstring_concat (rq_accept_charset r) val a;
     let r = r\<lparr>rq_accept_charset := s\<rparr>;
     Some (if \<not> ok then (failure, r, set_os_error e (errno_num ENOMEM), a) else (success, request_set_flag r REQUEST_ACCEPT_CHARSET_SET, e, a)) }"

definition request_set_accept_encoding :: "http_request \<Rightarrow> string \<Rightarrow> error \<Rightarrow> allocator \<Rightarrow> (status_t \<times> http_request \<times> error \<times> allocator) option" where
  "request_set_accept_encoding r val e a = do {
     (ok, s, a) \<leftarrow> cstring_concat (rq_accept_encoding r) val a;
     let r = r\<lparr>rq_accept_encoding := s\<rparr>;
     Some (if \<not> ok then (failure, r, set_os_error e (errno_num ENOMEM), a) else (success, request_set_flag r REQUEST_ACCEPT_ENCODING_SET, e, a)) }"

definition request_set_accept_language :: "http_request \<Rightarrow> string \<Rightarrow> error \<Rightarrow> allocator \<Rightarrow> (status_t \<times> http_request \<times> error \<times> allocator) option" where
  "request_set_accept_language r val e a = do {
     (ok, s, a) \<leftarrow> cstring_concat (rq_accept_language r) val a;
     let r = r\<lparr>rq_accept_language := s\<rparr>;
     Some (if \<not> ok then (failure, r, set_os_error e (errno_num ENOMEM), a) else (success, request_set_flag r REQUEST_ACCEPT_LANGUAGE_SET, e, a)) }"

definition request_set_te :: "http_request \<Rightarrow> string \<Rightarrow> error \<Rightarrow> allocator \<Rightarrow> (status_t \<times> http_request \<times> error \<times> allocator) option" where
  "request_set_te r val e a = do {
     (ok, s, a) \<leftarrow> cstring_concat (rq_te r) val a;
     let r = r\<lparr>rq_te := s\<rparr>;
     Some (if \<not> ok then (failure, r, set_os_error e (errno_num ENOMEM), a) else (success, request_set_flag r REQUEST_TE_SET, e, a)) }"

definition request_set_proxy_authorization :: "http_request \<Rightarrow> string \<Rightarrow> allocator \<Rightarrow> (status_t \<times> http_request \<times> allocator) option" where
  "request_set_proxy_authorization r val a = (case rq_proxy_authorization r of
     None \<Rightarrow> None
   | Some p \<Rightarrow> do {
       (ok, s, a) \<leftarrow> cstring_set p val a;
       let r = r\<lparr>rq_proxy_authorization := Some s\<rparr>;
       Some (if \<not> ok then (failure, r, a) else (success, request_set_flag r REQUEST_PROXY_AUTHORIZATION_SET, a)) })"

definition request_set_if_modified_since :: "http_request \<Rightarrow> int \<Rightarrow> http_request option" where
  "request_set_if_modified_since r val = (if val \<noteq> - 1 then
     Some (request_set_flag (r\<lparr>rq_if_modified_since := val\<rparr>) REQUEST_IF_MODIFIED_SINCE_SET) else None)"

definition request_set_if_unmodified_since :: "http_request \<Rightarrow> int \<Rightarrow> (status_t \<times> http_request) option" where
  "request_set_if_unmodified_since r val = (if val \<noteq> - 1 then
     Some (success, request_set_flag (r\<lparr>rq_if_unmodified_since := val\<rparr>) REQUEST_IF_UNMODIFIED_SINCE_SET) else None)"

definition request_set_mime_version :: "http_request \<Rightarrow> int \<Rightarrow> int \<Rightarrow> (status_t \<times> http_request) option" where
  "request_set_mime_version r major minor = (if major = 1 \<and> minor = 0 then
     Some (success, request_set_flag (r\<lparr>rq_mime_version_major := major, rq_mime_version_minor := minor\<rparr>) REQUEST_MIME_VERSION_SET) else None)"

definition request_set_max_forwards :: "http_request \<Rightarrow> nat \<Rightarrow> http_request" where
  "request_set_max_forwards r val = request_set_flag (r\<lparr>rq_max_forwards := val\<rparr>) REQUEST_MAX_FORWARDS_SET"

text \<open>The getters that may return \<open>NULL\<close> return an option inside the option for faults.\<close>

definition request_get_uri :: "http_request \<Rightarrow> string option option" where
  "request_get_uri p = (if \<not> request_flag_is_set p REQUEST_URI_SET then Some None else map_option Some (cstr_at (cs_data (rq_uri p)) 0))"

definition request_get_referer :: "http_request \<Rightarrow> string option" where
  "request_get_referer p = (if \<not> request_flag_is_set p REQUEST_REFERER_SET then Some [] else cstr_at (cs_data (rq_referer p)) 0)"

definition request_get_user_agent :: "http_request \<Rightarrow> string option" where
  "request_get_user_agent p = (if request_flag_is_set p REQUEST_USER_AGENT_SET then cstr_at (cs_data (rq_user_agent p)) 0 else Some [])"

definition request_get_host :: "http_request \<Rightarrow> string option option" where
  "request_get_host p = (if request_flag_is_set p REQUEST_HOST_SET then map_option Some (cstr_at (cs_data (rq_host p)) 0) else Some None)"

definition request_get_if_modified_since :: "http_request \<Rightarrow> int" where
  "request_get_if_modified_since r = (if request_flag_is_set r REQUEST_IF_MODIFIED_SINCE_SET then rq_if_modified_since r else - 1)"

definition request_get_content_length :: "http_request \<Rightarrow> size_t option" where
  "request_get_content_length r = (if \<not> entity_header_content_length_isset (rq_entity_header r) then Some 0
     else entity_header_get_content_length (rq_entity_header r))"

definition request_accepts_media_type :: "http_request \<Rightarrow> string \<Rightarrow> bool option" where
  "request_accepts_media_type r val = (
     if \<not> request_flag_is_set r REQUEST_ACCEPT_SET then Some True
     else do { s \<leftarrow> cstr_at (cs_data (rq_accept r)) 0; Some (strstr s val \<noteq> None) })"

text \<open>
  The loop of \<open>request_accepts_language\<close> over the words of the field; it stops at the first index without a word, so
  one more step than there are characters is enough.
\<close>

fun accepts_loop :: "nat \<Rightarrow> string \<Rightarrow> char list \<Rightarrow> string \<Rightarrow> nat \<Rightarrow> bool option" where
  "accepts_loop 0 s buf val i = None"
| "accepts_loop (Suc n) s buf val i = do {
     (ok, buf) \<leftarrow> get_word_from_string s buf 101 i;
     if \<not> ok then Some False
     else do {
       t \<leftarrow> cstr_at buf 0;
       if strcmp0 t val then Some True else accepts_loop n s buf val (i + 1) } }"

definition request_accepts_language :: "http_request \<Rightarrow> string \<Rightarrow> allocator \<Rightarrow> bool option" where
  "request_accepts_language r val a = do {
     s \<leftarrow> cstr_at (cs_data (rq_accept_language r)) 0;
     if \<not> request_flag_is_set r REQUEST_ACCEPT_LANGUAGE_SET then Some True
     else accepts_loop (length s + 2) s (fresh_bytes 101 a) val 0 }"

subsection \<open>Parameters and cookies\<close>

definition request_add_param :: "http_request \<Rightarrow> string \<Rightarrow> string \<Rightarrow> allocator \<Rightarrow> (status_t \<times> http_request \<times> allocator) option" where
  "request_add_param p name val a = (if name = [] then None else do {
     (ps, a) \<leftarrow> (case rq_params p of Some ps \<Rightarrow> Some (Some ps, a) | None \<Rightarrow> pair_new 20 a);
     (case ps of
        None \<Rightarrow> Some (failure, p, a)
      | Some ps \<Rightarrow> do {
          (ok, ps, a) \<leftarrow> pair_set ps name val a;
          Some (ok, p\<lparr>rq_params := Some ps\<rparr>, a) }) })"

definition request_get_parameter_count :: "http_request \<Rightarrow> size_t" where
  "request_get_parameter_count p = (case rq_params p of None \<Rightarrow> 0 | Some ps \<Rightarrow> pair_size ps)"

definition request_get_parameter_name :: "http_request \<Rightarrow> size_t \<Rightarrow> string option" where
  "request_get_parameter_name p i = (case rq_params p of None \<Rightarrow> None | Some ps \<Rightarrow> pair_get_name ps i)"

definition request_get_parameter_value :: "http_request \<Rightarrow> string \<Rightarrow> string option option" where
  "request_get_parameter_value p name = (case rq_params p of None \<Rightarrow> Some None | Some ps \<Rightarrow> pair_get ps name)"

definition request_add_cookie :: "http_request \<Rightarrow> cookie \<Rightarrow> allocator \<Rightarrow> (status_t \<times> http_request \<times> allocator) option" where
  "request_add_cookie p c a = (
     case (case rq_cookies p of Some l \<Rightarrow> (Some l, a) | None \<Rightarrow> list_new a) of
       (None, a) \<Rightarrow> Some (failure, p, a)
     | (Some l, a) \<Rightarrow> do {
         (ok, l, a) \<leftarrow> list_add (Some l) c a;
         Some (ok, p\<lparr>rq_cookies := l\<rparr>, a) })"

definition request_get_cookie_count :: "http_request \<Rightarrow> size_t option" where
  "request_get_cookie_count p = (case rq_cookies p of None \<Rightarrow> Some 0 | Some l \<Rightarrow> list_size l)"

definition request_get_cookie :: "http_request \<Rightarrow> size_t \<Rightarrow> cookie option option" where
  "request_get_cookie p i = (case rq_cookies p of None \<Rightarrow> None | Some l \<Rightarrow> list_get_item l i)"

subsection \<open>The entity and the fields of posted forms\<close>

definition request_get_content where "request_get_content p = rq_entity_buf p"

definition request_set_entity :: "http_request \<Rightarrow> char list \<Rightarrow> size_t \<Rightarrow> allocator \<Rightarrow> (status_t \<times> http_request \<times> allocator) option" where
  "request_set_entity p entity cb a = (
     if entity_header_content_length_isset (rq_entity_header p) \<and> entity_header_get_content_length (rq_entity_header p) = Some cb \<and>
        cb > 0 \<and> rq_entity_buf p = None
     then (case try_alloc cb a of
         (False, a) \<Rightarrow> Some (failure, p, a)
       | (True, a) \<Rightarrow> do { bs \<leftarrow> rd entity 0 cb; Some (success, p\<lparr>rq_entity_buf := Some bs\<rparr>, a) })
     else None)"

definition request_get_field_count :: "http_request \<Rightarrow> size_t option" where
  "request_get_field_count r = (case (entity_header_content_length_isset (rq_entity_header r), rq_entity_buf r) of
     (True, Some buf) \<Rightarrow> do {
       cb \<leftarrow> request_get_content_length r;
       bs \<leftarrow> rd buf 0 cb;
       Some ((if cb > 0 then 1 else 0) + length (filter (\<lambda>c. c = CHR ''&'') bs)) }
   | _ \<Rightarrow> None)"

text \<open>Positions in the buffer; \<open>stop\<close> is the offset of its end.\<close>

function get_field_start :: "char list \<Rightarrow> nat \<Rightarrow> nat \<Rightarrow> nat \<Rightarrow> nat option" where
  "get_field_start bs stop idx start = (
     if idx > 0 \<and> start < stop then do {
       c \<leftarrow> get_at bs start;
       get_field_start bs stop (if c = CHR ''&'' then idx - 1 else idx) (start + 1) }
     else Some start)"
  by pat_completeness auto
termination by (relation "measure (\<lambda>(bs, stop, idx, start). stop - start)") auto

declare get_field_start.simps [simp del]

function scan_to :: "char \<Rightarrow> char list \<Rightarrow> nat \<Rightarrow> nat \<Rightarrow> nat option" where
  "scan_to sep bs stop start = (
     if start < stop then do { c \<leftarrow> get_at bs start; if c = sep then Some start else scan_to sep bs stop (start + 1) }
     else Some start)"
  by pat_completeness auto
termination by (relation "measure (\<lambda>(sep, bs, stop, start). stop - start)") auto

declare scan_to.simps [simp del]

definition request_get_field_namelen :: "http_request \<Rightarrow> size_t \<Rightarrow> size_t option" where
  "request_get_field_namelen r idx = do {
     fields \<leftarrow> request_get_field_count r;
     if idx < fields then do {
       buf \<leftarrow> rq_entity_buf r;
       cb \<leftarrow> request_get_content_length r;
       start \<leftarrow> get_field_start buf cb idx 0;
       fin \<leftarrow> scan_to (CHR ''='') buf cb start;
       Some (if fin = cb then 0 else fin - start) }
     else None }"

definition request_get_field_valuelen :: "http_request \<Rightarrow> size_t \<Rightarrow> size_t option" where
  "request_get_field_valuelen r idx = (if entity_header_content_length_isset (rq_entity_header r) then do {
     bufsiz \<leftarrow> request_get_content_length r;
     buf \<leftarrow> rq_entity_buf r;
     start \<leftarrow> get_field_start buf bufsiz idx 0;
     cb \<leftarrow> request_get_field_namelen r idx;
     if cb = 0 then Some 0
     else do {
       c \<leftarrow> get_at buf (start + cb);
       if c \<noteq> CHR ''='' then None
       else do {
         stop \<leftarrow> scan_to (CHR ''&'') buf bufsiz (start + cb + 1);
         Some (stop - (start + cb + 1)) } } }
   else None)"

definition request_get_field_name :: "http_request \<Rightarrow> size_t \<Rightarrow> char list \<Rightarrow> size_t \<Rightarrow> (status_t \<times> char list) option" where
  "request_get_field_name r i dest destsize = (if entity_header_content_length_isset (rq_entity_header r) then do {
     cb \<leftarrow> request_get_content_length r;
     buf \<leftarrow> rq_entity_buf r;
     start \<leftarrow> get_field_start buf cb i 0;
     fieldlen \<leftarrow> request_get_field_namelen r i;
     if fieldlen = 0 then Some (failure, dest)
     else do {
       let n = (if destsize < fieldlen then destsize else fieldlen);
       bs \<leftarrow> rd buf start n;
       dest \<leftarrow> wr dest 0 bs;
       dest \<leftarrow> put_at dest n NUL;
       Some (success, dest) } }
   else None)"

text \<open>The loop that replaces plus signs runs to the first terminator in the destination.\<close>

function plus_loop :: "char list \<Rightarrow> nat \<Rightarrow> char list option" where
  "plus_loop dest i = (
     if i < length dest then
       if dest ! i = NUL then Some dest
       else plus_loop (if dest ! i = CHR ''+'' then dest[i := CHR '' ''] else dest) (i + 1)
     else None)"
  by pat_completeness auto
termination by (relation "measure (\<lambda>(dest, i). length dest - i)") (auto split: if_splits)

declare plus_loop.simps [simp del]

definition request_get_field_value :: "http_request \<Rightarrow> size_t \<Rightarrow> char list \<Rightarrow> size_t \<Rightarrow> (status_t \<times> char list) option" where
  "request_get_field_value r i dest destsize = (if entity_header_content_length_isset (rq_entity_header r) then do {
     cb \<leftarrow> request_get_content_length r;
     buf \<leftarrow> rq_entity_buf r;
     start \<leftarrow> get_field_start buf cb i 0;
     namelen \<leftarrow> request_get_field_namelen r i;
     valuelen \<leftarrow> request_get_field_valuelen r i;
     if namelen = 0 \<or> valuelen = 0 then Some (failure, dest)
     else do {
       c \<leftarrow> get_at buf (start + namelen);
       if c \<noteq> CHR ''='' then None
       else do {
         (sz, err, dest) \<leftarrow> rfc1738_decode dest destsize buf (start + namelen + 1) valuelen;
         dest \<leftarrow> plus_loop dest 0;
         Some (success, dest) } } }
   else None)"

text \<open>\<open>sz\<close> is an array of 10240 bytes; \<open>fieldcount\<close> bounds the loop.\<close>

fun by_name_loop :: "nat \<Rightarrow> http_request \<Rightarrow> string \<Rightarrow> char list \<Rightarrow> size_t \<Rightarrow> nat \<Rightarrow> char list \<Rightarrow> (status_t \<times> char list) option" where
  "by_name_loop 0 r name dest cb i sz = Some (failure, dest)"
| "by_name_loop (Suc n) r name dest cb i sz = do {
     (ok, sz) \<leftarrow> request_get_field_name r i sz 10239;
     if \<not> ok then Some (failure, dest)
     else do {
       t \<leftarrow> cstr_at sz 0;
       if strcmp0 t name then request_get_field_value r i dest cb else by_name_loop n r name dest cb (i + 1) sz } }"

definition request_get_field_value_by_name :: "http_request \<Rightarrow> string \<Rightarrow> char list \<Rightarrow> size_t \<Rightarrow> allocator \<Rightarrow> (status_t \<times> char list) option" where
  "request_get_field_value_by_name r name dest cb a = (if cb = 0 then None else do {
     fieldcount \<leftarrow> request_get_field_count r;
     if fieldcount = 0 then Some (failure, dest)
     else by_name_loop fieldcount r name dest cb 0 (fresh_bytes 10240 a) })"

subsection \<open>Sending\<close>

definition send_accept where "send_accept r c = http_send_field c ''Accept: '' (rq_accept r)"
definition send_accept_charset where "send_accept_charset r c = http_send_field c ''Accept-Charset: '' (rq_accept_charset r)"
definition send_accept_encoding where "send_accept_encoding r c = http_send_field c ''Accept-Encoding: '' (rq_accept_encoding r)"
definition send_accept_language where "send_accept_language r c = http_send_field c ''Accept-Language: '' (rq_accept_language r)"
definition send_authorization where "send_authorization r c = http_send_field c ''Authorization: '' (rq_authorization r)"
definition send_from where "send_from r c = http_send_field c ''From: '' (rq_from r)"
definition send_referer where "send_referer r c = http_send_field c ''Referer: '' (rq_referer r)"
definition send_user_agent where "send_user_agent r c = http_send_field c ''User-Agent: '' (rq_user_agent r)"
definition send_range where "send_range r c = http_send_field c ''Range: '' (rq_range r)"
definition send_te where "send_te r c = http_send_field c ''TE: '' (rq_te r)"
definition send_expect where "send_expect r c = http_send_field c ''Expect: '' (rq_expect r)"
definition send_host where "send_host r c = http_send_field c ''Host: '' (rq_host r)"
definition send_if_match where "send_if_match r c = http_send_field c ''If-Match: '' (rq_if_match r)"
definition send_if_none_match where "send_if_none_match r c = http_send_field c ''If-None-Match: '' (rq_if_none_match r)"
definition send_if_range where "send_if_range r c = http_send_field c ''If-Range: '' (rq_if_range r)"
definition send_max_forwards where "send_max_forwards r c = http_send_unsigned_int c ''Max-Forwards: '' (of_nat (rq_max_forwards r))"
definition send_proxy_authorization where
  "send_proxy_authorization r c = (case rq_proxy_authorization r of None \<Rightarrow> None | Some s \<Rightarrow> http_send_field c ''Proxy-Authorization: '' s)"
definition send_if_modified_since where "send_if_modified_since r c = http_send_date c ''If-Modified-Since: '' (rq_if_modified_since r)"
definition send_if_unmodified_since where "send_if_unmodified_since r c = http_send_date c ''If-Unmodified-Since: '' (rq_if_unmodified_since r)"

definition rq_send_fields :: "(64 word \<times> (http_request \<Rightarrow> connection \<Rightarrow> (status_t \<times> connection) option)) list" where
  "rq_send_fields = [
     (REQUEST_ACCEPT_SET, send_accept),
     (REQUEST_ACCEPT_CHARSET_SET, send_accept_charset),
     (REQUEST_ACCEPT_ENCODING_SET, send_accept_encoding),
     (REQUEST_ACCEPT_LANGUAGE_SET, send_accept_language),
     (REQUEST_AUTHORIZATION_SET, send_authorization),
     (REQUEST_EXPECT_SET, send_expect),
     (REQUEST_FROM_SET, send_from),
     (REQUEST_HOST_SET, send_host),
     (REQUEST_IF_MATCH_SET, send_if_match),
     (REQUEST_IF_NONE_MATCH_SET, send_if_none_match),
     (REQUEST_IF_RANGE_SET, send_if_range),
     (REQUEST_IF_MODIFIED_SINCE_SET, send_if_modified_since),
     (REQUEST_IF_UNMODIFIED_SINCE_SET, send_if_unmodified_since),
     (REQUEST_MAX_FORWARDS_SET, send_max_forwards),
     (REQUEST_PROXY_AUTHORIZATION_SET, send_proxy_authorization),
     (REQUEST_RANGE_SET, send_range),
     (REQUEST_REFERER_SET, send_referer),
     (REQUEST_TE_SET, send_te),
     (REQUEST_USER_AGENT_SET, send_user_agent)]"

definition request_send_fields :: "http_request \<Rightarrow> connection \<Rightarrow> (status_t \<times> connection) option" where
  "request_send_fields r conn = send_table request_flag_is_set rq_send_fields r conn"

text \<open>
  \<open>errno\<close> after a failed write is the one the network left; after a failed \<open>cstring\<close> call it is \<open>ENOMEM\<close>. The string is
  built in four steps, of which the second ends with an error of its own.
\<close>

definition method_text :: "http_method \<Rightarrow> string option" where
  "method_text m = (case m of METHOD_HEAD \<Rightarrow> Some ''HEAD '' | METHOD_GET \<Rightarrow> Some ''GET '' | METHOD_POST \<Rightarrow> Some ''POST '' | METHOD_UNKNOWN \<Rightarrow> None)"

definition version_text :: "http_version \<Rightarrow> string option" where
  "version_text v = (case v of VERSION_10 \<Rightarrow> Some ('' HTTP/1.0'' @ crlf) | VERSION_11 \<Rightarrow> Some ('' HTTP/1.1'' @ crlf) | _ \<Rightarrow> None)"

definition send_request_line :: "http_request \<Rightarrow> connection \<Rightarrow> error \<Rightarrow> allocator \<Rightarrow> (status_t \<times> connection \<times> error \<times> allocator) option" where
  "send_request_line r c e a = (
     case cstring_new a of
       (None, a) \<Rightarrow> Some (failure, c, set_os_error e (errno_num ENOMEM), a)
     | (Some s, a) \<Rightarrow> (
         case method_text (request_get_method r) of
           None \<Rightarrow> Some (failure, c, set_http_error e 400, a)
         | Some m \<Rightarrow> do {
             (ok, s, a) \<leftarrow> cstring_concat s m a;
             if \<not> ok then Some (failure, c, set_http_error e 503, a)
             else do {
               p \<leftarrow> request_get_uri r;
               (case p of
                  None \<Rightarrow> Some (failure, c, set_http_error e 400, a)
                | Some p \<Rightarrow> do {
                    (ok, s, a) \<leftarrow> cstring_concat s p a;
                    if \<not> ok then Some (failure, c, set_os_error e (errno_num ENOMEM), a)
                    else (case version_text (request_get_version r) of
                        None \<Rightarrow> Some (failure, c, set_http_error e 400, a)
                      | Some v \<Rightarrow> do {
                          (ok, s, a) \<leftarrow> cstring_concat s v a;
                          if \<not> ok then Some (failure, c, set_http_error e 503, a)
                          else do {
                            bs \<leftarrow> cs_bytes s;
                            (ok, c) \<leftarrow> connection_write c bs;
                            Some (if ok then (success, c, e, a) else (failure, c, set_os_error e (errno_num (net_errno (cn_net c))), a)) } }) }) } }))"

definition request_send :: "http_request \<Rightarrow> connection \<Rightarrow> error \<Rightarrow> allocator \<Rightarrow> (status_t \<times> connection \<times> error \<times> allocator) option" where
  "request_send r conn e a = do {
     (ok, conn, e, a) \<leftarrow> send_request_line r conn e a;
     if \<not> ok then Some (failure, conn, e, a)
     else do {
       (ok, conn) \<leftarrow> do {
         (ok, conn) \<leftarrow> general_header_send_fields (rq_general_header r) conn;
         if ok then do {
           (ok, conn) \<leftarrow> entity_header_send_fields (rq_entity_header r) conn;
           if ok then do {
             (ok, conn) \<leftarrow> request_send_fields r conn;
             if ok then do {
               (ok, conn) \<leftarrow> connection_write conn crlf;
               if ok then connection_flush conn else Some (failure, conn) }
             else Some (failure, conn) }
           else Some (failure, conn) }
         else Some (failure, conn) };
       Some (ok, conn, e, a) } }"
end
