(* ===== verification/Request_Parse.thy ===== *)
theory Request_Parse
  imports Request
begin

section \<open>Reading requests\<close>

text \<open>
  The parser of \<open>src/http/src/request.c\<close> and the functions of \<open>cookies.c\<close> that add cookies to a request. Character arrays
  on the stack have the sizes of the source and arbitrary initial bytes; the part of a line up to the terminator is what
  the string functions see. \<open>mktime\<close> is an argument, as for the header fields. A failing \<open>assert\<close>, a signed overflow and a
  bad access are \<open>None\<close>.
\<close>

subsection \<open>Cookies of a request\<close>

definition parse_new_cookie :: "http_request \<Rightarrow> string \<Rightarrow> error \<Rightarrow> allocator \<Rightarrow> (status_t \<times> http_request \<times> error \<times> allocator) option" where
  "parse_new_cookie req val e a = do {
     (c, a) \<leftarrow> cookie_new a;
     (case c of
        None \<Rightarrow> Some (failure, req, set_os_error e (errno_num ENOMEM), a)
      | Some c \<Rightarrow> do {
          (ok, c, e, a) \<leftarrow> parse_new_cookie_version c val e a;
          if \<not> ok then Some (failure, req, e, a)
          else do {
            (ok, c, e, a) \<leftarrow> parse_new_cookie_name c val e a;
            if \<not> ok then Some (failure, req, e, a)
            else do {
              (ok, c, e, a) \<leftarrow> parse_new_cookie_path c val e a;
              if \<not> ok then Some (failure, req, e, a)
              else do {
                (ok, c, e, a) \<leftarrow> parse_new_cookie_domain c val e a;
                if \<not> ok then Some (failure, req, e, a)
                else do {
                  (ok, c, e, a) \<leftarrow> parse_new_cookie_secure c val e a;
                  if \<not> ok then Some (failure, req, e, a)
                  else request_add_cookie req c a \<bind> or_os_error e } } } } }) }"

definition parse_old_cookie :: "http_request \<Rightarrow> string \<Rightarrow> error \<Rightarrow> allocator \<Rightarrow> (status_t \<times> http_request \<times> error \<times> allocator) option" where
  "parse_old_cookie req input e a = (
     case cstring_new a of
       (None, a) \<Rightarrow> Some (failure, req, set_os_error e (errno_num ENOMEM), a)
     | (Some name, a) \<Rightarrow> (
         case cstring_new a of
           (None, a) \<Rightarrow> Some (failure, req, set_os_error e (errno_num ENOMEM), a)
         | (Some val, a) \<Rightarrow> do {
             (ok, name, input, a) \<leftarrow> attr_loop (CHR ''='') name input a;
             if \<not> ok then Some (failure, req, set_os_error e (errno_num ENOMEM), a)
             else (case input of
                 [] \<Rightarrow> Some (failure, req, set_http_error e 400, a)
               | _ # input \<Rightarrow> do {
                   (ok, val, a) \<leftarrow> cstring_set val input a;
                   if \<not> ok then Some (failure, req, set_os_error e (errno_num ENOMEM), a)
                   else do {
                     (c, a) \<leftarrow> cookie_new a;
                     (case c of
                        None \<Rightarrow> Some (failure, req, set_os_error e (errno_num ENOMEM), a)
                      | Some c \<Rightarrow> do {
                          n \<leftarrow> cstr_at (cs_data name) 0;
                          (ok, c, a) \<leftarrow> cookie_set_name c n a;
                          if \<not> ok then Some (failure, req, set_os_error e (errno_num ENOMEM), a)
                          else do {
                            v \<leftarrow> cstr_at (cs_data val) 0;
                            (ok, c, a) \<leftarrow> cookie_set_value c v a;
                            if \<not> ok then Some (failure, req, set_os_error e (errno_num ENOMEM), a)
                            else do {
                              c \<leftarrow> cookie_set_version c 0;
                              request_add_cookie req c a \<bind> or_os_error e } } }) } }) }))"

definition parse_cookie :: "http_request \<Rightarrow> string \<Rightarrow> error \<Rightarrow> allocator \<Rightarrow> (status_t \<times> http_request \<times> error \<times> allocator) option" where
  "parse_cookie req val e a = (
     if strcmp0 val [] then Some (success, req, e, a)
     else if strstr val ''$Version'' \<noteq> None then parse_new_cookie req val e a
     else parse_old_cookie req val e a)"

subsection \<open>Handlers of the request header fields\<close>

text \<open>Each part before a comma is copied to an array of 100 bytes; parts that do not fit are skipped.\<close>

function req_parse_multivalued_fields :: "http_request \<Rightarrow> string \<Rightarrow>
    (http_request \<Rightarrow> string \<Rightarrow> error \<Rightarrow> allocator \<Rightarrow> (status_t \<times> http_request \<times> error \<times> allocator) option) \<Rightarrow> error \<Rightarrow> allocator \<Rightarrow>
    (status_t \<times> http_request \<times> error \<times> allocator) option" where
  "req_parse_multivalued_fields req val set_func e a = (
     case strchr val (CHR '','') of
       None \<Rightarrow> set_func req val e a
     | Some n \<Rightarrow>
         if n + 1 > 100 then req_parse_multivalued_fields req (drop (n + 1) val) set_func e a
         else (case set_func req (take n val) e a of
             None \<Rightarrow> None
           | Some (ok, req, e, a) \<Rightarrow>
               if \<not> ok then Some (failure, req, e, a)
               else req_parse_multivalued_fields req (drop (n + 1) val) set_func e a))"
  by pat_completeness auto
termination by (relation "measure (\<lambda>(req, val, f, e, a). length val)") (auto dest: strchr_Some)

declare req_parse_multivalued_fields.simps [simp del]

definition parse_authorization :: "http_request \<Rightarrow> string \<Rightarrow> error \<Rightarrow> allocator \<Rightarrow> (status_t \<times> http_request \<times> error \<times> allocator) option" where
  "parse_authorization req val e a = request_set_authorization req val a \<bind> or_os_error e"

definition parse_expect :: "http_request \<Rightarrow> string \<Rightarrow> error \<Rightarrow> allocator \<Rightarrow> (status_t \<times> http_request \<times> error \<times> allocator) option" where
  "parse_expect req val e a = request_set_expect req val a \<bind> or_os_error e"

definition parse_if_match :: "http_request \<Rightarrow> string \<Rightarrow> error \<Rightarrow> allocator \<Rightarrow> (status_t \<times> http_request \<times> error \<times> allocator) option" where
  "parse_if_match req val e a = request_set_if_match req val a \<bind> or_os_error e"

definition parse_if_none_match :: "http_request \<Rightarrow> string \<Rightarrow> error \<Rightarrow> allocator \<Rightarrow> (status_t \<times> http_request \<times> error \<times> allocator) option" where
  "parse_if_none_match req val e a = request_set_if_none_match req val a \<bind> or_os_error e"

definition parse_if_range :: "http_request \<Rightarrow> string \<Rightarrow> error \<Rightarrow> allocator \<Rightarrow> (status_t \<times> http_request \<times> error \<times> allocator) option" where
  "parse_if_range req val e a = request_set_if_range req val a \<bind> or_os_error e"

definition parse_proxy_authorization :: "http_request \<Rightarrow> string \<Rightarrow> error \<Rightarrow> allocator \<Rightarrow> (status_t \<times> http_request \<times> error \<times> allocator) option" where
  "parse_proxy_authorization req val e a = request_set_proxy_authorization req val a \<bind> or_os_error e"

definition parse_range :: "http_request \<Rightarrow> string \<Rightarrow> error \<Rightarrow> allocator \<Rightarrow> (status_t \<times> http_request \<times> error \<times> allocator) option" where
  "parse_range req val e a = request_set_range req val a \<bind> or_os_error e"

definition parse_referer :: "http_request \<Rightarrow> string \<Rightarrow> error \<Rightarrow> allocator \<Rightarrow> (status_t \<times> http_request \<times> error \<times> allocator) option" where
  "parse_referer req val e a = request_set_referer req val a \<bind> or_os_error e"

definition parse_host :: "http_request \<Rightarrow> string \<Rightarrow> error \<Rightarrow> allocator \<Rightarrow> (status_t \<times> http_request \<times> error \<times> allocator) option" where
  "parse_host req val e a = request_set_host req val a \<bind> or_os_error e"

definition parse_from :: "http_request \<Rightarrow> string \<Rightarrow> error \<Rightarrow> allocator \<Rightarrow> (status_t \<times> http_request \<times> error \<times> allocator) option" where
  "parse_from req val e a = request_set_from req val a \<bind> or_os_error e"

definition parse_user_agent :: "http_request \<Rightarrow> string \<Rightarrow> error \<Rightarrow> allocator \<Rightarrow> (status_t \<times> http_request \<times> error \<times> allocator) option" where
  "parse_user_agent req val e a = request_set_user_agent req val a \<bind> or_os_error e"

definition parse_te :: "http_request \<Rightarrow> string \<Rightarrow> error \<Rightarrow> allocator \<Rightarrow> (status_t \<times> http_request \<times> error \<times> allocator) option" where
  "parse_te req val e a = req_parse_multivalued_fields req val request_set_te e a"

definition parse_accept :: "http_request \<Rightarrow> string \<Rightarrow> error \<Rightarrow> allocator \<Rightarrow> (status_t \<times> http_request \<times> error \<times> allocator) option" where
  "parse_accept req val e a = req_parse_multivalued_fields req val request_set_accept e a"

definition parse_accept_charset :: "http_request \<Rightarrow> string \<Rightarrow> error \<Rightarrow> allocator \<Rightarrow> (status_t \<times> http_request \<times> error \<times> allocator) option" where
  "parse_accept_charset req val e a = req_parse_multivalued_fields req val request_set_accept_charset e a"

definition parse_accept_encoding :: "http_request \<Rightarrow> string \<Rightarrow> error \<Rightarrow> allocator \<Rightarrow> (status_t \<times> http_request \<times> error \<times> allocator) option" where
  "parse_accept_encoding req val e a = req_parse_multivalued_fields req val request_set_accept_encoding e a"

definition parse_accept_language :: "http_request \<Rightarrow> string \<Rightarrow> error \<Rightarrow> allocator \<Rightarrow> (status_t \<times> http_request \<times> error \<times> allocator) option" where
  "parse_accept_language req val e a = req_parse_multivalued_fields req val request_set_accept_language e a"

definition parse_if_modified_since :: "(tm \<Rightarrow> int) \<Rightarrow> http_request \<Rightarrow> string \<Rightarrow> error \<Rightarrow> allocator \<Rightarrow> (status_t \<times> http_request \<times> error \<times> allocator) option" where
  "parse_if_modified_since mktime req val e a = do {
     d \<leftarrow> parse_rfc822_date mktime val;
     if d = - 1 then Some (failure, req, set_http_error e 400, a)
     else do { req \<leftarrow> request_set_if_modified_since req d; Some (success, req, e, a) } }"

definition parse_if_unmodified_since :: "(tm \<Rightarrow> int) \<Rightarrow> http_request \<Rightarrow> string \<Rightarrow> error \<Rightarrow> allocator \<Rightarrow> (status_t \<times> http_request \<times> error \<times> allocator) option" where
  "parse_if_unmodified_since mktime req val e a = do {
     d \<leftarrow> parse_rfc822_date mktime val;
     if d = - 1 then Some (failure, req, set_http_error e 400, a)
     else do { (ok, req) \<leftarrow> request_set_if_unmodified_since req d; Some (ok, req, e, a) } }"

definition isuint :: "string \<Rightarrow> bool" where
  "isuint s \<longleftrightarrow> (case touint s of Inl _ \<Rightarrow> False | Inr _ \<Rightarrow> True)"

definition parse_max_forwards :: "http_request \<Rightarrow> string \<Rightarrow> error \<Rightarrow> allocator \<Rightarrow> (status_t \<times> http_request \<times> error \<times> allocator) option" where
  "parse_max_forwards req val e a = (
     if \<not> isuint val then Some (failure, req, set_http_error e 400, a)
     else (case touint val of
         Inr v \<Rightarrow> Some (success, request_set_max_forwards req v, e, a)
       | Inl _ \<Rightarrow> Some (failure, req, set_http_error e 500, a)))"

definition parse_upgrade_insecure_requests :: "http_request \<Rightarrow> string \<Rightarrow> error \<Rightarrow> allocator \<Rightarrow> (status_t \<times> http_request \<times> error \<times> allocator) option" where
  "parse_upgrade_insecure_requests req val e a = Some (success, req, e, a)"

text \<open>The value of a character; \<open>char\<close> is signed. The product and the sum are computed in \<open>int\<close>.\<close>

definition char_value :: "char \<Rightarrow> int" where
  "char_value c = (if of_char c < (128 :: int) then of_char c else of_char c - 256)"

definition int_ok :: "int \<Rightarrow> bool" where
  "int_ok n \<longleftrightarrow> INT_MIN \<le> n \<and> n \<le> INT_MAX"

fun mime_number :: "string \<Rightarrow> int \<Rightarrow> int option" where
  "mime_number [] n = Some n"
| "mime_number (c # s) n = (
     if int_ok (n * 10) \<and> int_ok (n * 10 + (char_value c - 48)) then mime_number s (n * 10 + (char_value c - 48)) else None)"

definition parse_mime_version :: "http_request \<Rightarrow> string \<Rightarrow> error \<Rightarrow> allocator \<Rightarrow> (status_t \<times> http_request \<times> error \<times> allocator) option" where
  "parse_mime_version r val e a = do {
     let i = length (takeWhile (\<lambda>c. c \<noteq> CHR ''.'') val);
     major \<leftarrow> mime_number (take i val) 0;
     if i = length val then Some (failure, r, set_http_error e 400, a)
     else do {
       minor \<leftarrow> mime_number (drop (i + 1) val) 0;
       (ok, r) \<leftarrow> request_set_mime_version r major minor;
       Some (ok, r, e, a) } }"

definition request_header_fields :: "(tm \<Rightarrow> int) \<Rightarrow> (string \<times> (http_request \<Rightarrow> string \<Rightarrow> error \<Rightarrow> allocator \<Rightarrow> (status_t \<times> http_request \<times> error \<times> allocator) option)) list" where
  "request_header_fields mktime = [
     (''user-agent'', parse_user_agent),
     (''cookie'', parse_cookie),
     (''host'', parse_host),
     (''from'', parse_from),
     (''accept'', parse_accept),
     (''accept-charset'', parse_accept_charset),
     (''accept-encoding'', parse_accept_encoding),
     (''accept-language'', parse_accept_language),
     (''mime-version'', parse_mime_version),
     (''authorization'', parse_authorization),
     (''expect'', parse_expect),
     (''if-match'', parse_if_match),
     (''if-modified-since'', parse_if_modified_since mktime),
     (''if-none-match'', parse_if_none_match),
     (''if-range'', parse_if_range),
     (''if-unmodified-since'', parse_if_unmodified_since mktime),
     (''max-forwards'', parse_max_forwards),
     (''proxy-authorization'', parse_proxy_authorization),
     (''range'', parse_range),
     (''referer'', parse_referer),
     (''te'', parse_te),
     (''upgrade-insecure-requests'', parse_upgrade_insecure_requests)]"

text \<open>The names do not depend on the handlers, so the search may use any \<open>mktime\<close>.\<close>

definition find_request_header :: "string \<Rightarrow> int" where
  "find_request_header name = find_field (request_header_fields (\<lambda>t. 0)) name 0"

definition parse_request_header :: "(tm \<Rightarrow> int) \<Rightarrow> int \<Rightarrow> http_request \<Rightarrow> string \<Rightarrow> error \<Rightarrow> allocator \<Rightarrow> (status_t \<times> http_request \<times> error \<times> allocator) option" where
  "parse_request_header mktime idx req val e a = (
     if 0 \<le> idx \<and> idx < int (length (request_header_fields mktime)) then snd (request_header_fields mktime ! nat idx) req val e a
     else None)"

text \<open>The handler of the connection map; the general header has a field of the same name.\<close>

definition rq_parse_connection :: "connection \<Rightarrow> string \<Rightarrow> status_t \<times> connection" where
  "rq_parse_connection conn val = (
     let conn = (if strstr val ''keep-alive'' \<noteq> None then connection_set_persistent conn True else conn) in
     (success, if strstr val ''close'' \<noteq> None then connection_set_persistent conn False else conn))"

definition connection_map :: "(string \<times> (connection \<Rightarrow> string \<Rightarrow> status_t \<times> connection)) list" where
  "connection_map = [(''connection'', rq_parse_connection)]"

definition parse_request_headerfield :: "(tm \<Rightarrow> int) \<Rightarrow> connection \<Rightarrow> string \<Rightarrow> string \<Rightarrow> http_request \<Rightarrow> error \<Rightarrow> allocator \<Rightarrow>
    (status_t \<times> connection \<times> http_request \<times> error \<times> allocator) option" where
  "parse_request_headerfield mktime conn name val req e a = (
     let idx = find_general_header name in
     if idx \<noteq> - 1 then do {
       (ok, gh, e, a) \<leftarrow> parse_general_header mktime idx (rq_general_header req) val e a;
       Some (ok, conn, req\<lparr>rq_general_header := gh\<rparr>, e, a) }
     else let idx = find_entity_header name in
     if idx \<noteq> - 1 then do {
       (ok, eh, e, a) \<leftarrow> parse_entity_header mktime idx (rq_entity_header req) val e a;
       Some (ok, conn, req\<lparr>rq_entity_header := eh\<rparr>, e, a) }
     else (case map_of connection_map name of
         Some h \<Rightarrow> (case h conn val of (ok, conn) \<Rightarrow> Some (ok, conn, req, e, a))
       | None \<Rightarrow> (
           let idx = find_request_header name in
           if idx \<noteq> - 1 then do {
             (ok, req, e, a) \<leftarrow> parse_request_header mktime idx req val e a;
             Some (ok, conn, req, e, a) }
           else Some (success, conn, req, e, a))))"

definition parse_one_field :: "(tm \<Rightarrow> int) \<Rightarrow> connection \<Rightarrow> http_request \<Rightarrow> string \<Rightarrow> error \<Rightarrow> allocator \<Rightarrow>
    (status_t \<times> connection \<times> http_request \<times> error \<times> allocator) option" where
  "parse_one_field mktime conn request buf e a = do {
     (ok, name) \<leftarrow> get_field_name buf (fresh_bytes 65 a) 65;
     if \<not> ok then Some (failure, conn, request, set_http_error e 400, a)
     else do {
       (ok, val) \<leftarrow> get_field_value buf (fresh_bytes 8193 a) 8193;
       if \<not> ok then Some (failure, conn, request, set_http_error e 400, a)
       else do {
         name \<leftarrow> fs_lower name;
         n \<leftarrow> cstr_at name 0;
         v \<leftarrow> cstr_at val 0;
         parse_request_headerfield mktime conn n v request e a } } }"

text \<open>
  The loop over the header lines ends only at the empty line or at an error. Every line takes two bytes at least from what
  the peer sends, which bounds the number of rounds.
\<close>

fun header_loop :: "nat \<Rightarrow> (tm \<Rightarrow> int) \<Rightarrow> connection \<Rightarrow> http_request \<Rightarrow> error \<Rightarrow> allocator \<Rightarrow>
    (status_t \<times> connection \<times> http_request \<times> error \<times> allocator) option" where
  "header_loop 0 mktime conn request e a = None"
| "header_loop (Suc n) mktime conn request e a = do {
     (ok, buf, conn, e) \<leftarrow> read_line conn (fresh_bytes 8266 a) 8266 e;
     if \<not> ok then Some (failure, conn, request, e, a)
     else do {
       line \<leftarrow> cstr_at buf 0;
       if line = [] then Some (success, conn, request, e, a)
       else do {
         (ok, conn, request, e, a) \<leftarrow> parse_one_field mktime conn request line e a;
         if \<not> ok then Some (failure, conn, request, e, a)
         else header_loop n mktime conn request e a } } }"

definition read_request_header_fields :: "(tm \<Rightarrow> int) \<Rightarrow> connection \<Rightarrow> http_request \<Rightarrow> error \<Rightarrow> allocator \<Rightarrow>
    (status_t \<times> connection \<times> http_request \<times> error \<times> allocator) option" where
  "read_request_header_fields mktime conn request e a = header_loop (length (in_stream conn) + 1) mktime conn request e a"

subsection \<open>The request line\<close>

definition get_method :: "string \<Rightarrow> http_method" where
  "get_method str = (
     case map_of [(''GET'', METHOD_GET), (''HEAD'', METHOD_HEAD), (''POST'', METHOD_POST)] str of
       Some m \<Rightarrow> m | None \<Rightarrow> METHOD_UNKNOWN)"

definition get_version :: "string \<Rightarrow> http_version" where
  "get_version s = (
     case map_of [(''HTTP/1.0'', VERSION_10), (''HTTP/1.1'', VERSION_11)] s of
       Some v \<Rightarrow> v | None \<Rightarrow> VERSION_UNKNOWN)"

definition parse_request_method :: "string \<Rightarrow> http_request \<Rightarrow> error \<Rightarrow> allocator \<Rightarrow> (status_t \<times> http_request \<times> error \<times> allocator) option" where
  "parse_request_method line request e a = do {
     (ok, strMethod) \<leftarrow> get_word_from_string line (fresh_bytes 257 a) 257 0;
     if \<not> ok then Some (failure, request, set_http_error e 400, a)
     else do {
       s \<leftarrow> cstr_at strMethod 0;
       let m = get_method s;
       if m = METHOD_UNKNOWN then Some (failure, request, set_http_error e 501, a)
       else Some (success, request_set_method request m, e, a) } }"

definition more_uri_params_available :: "string \<Rightarrow> bool option" where
  "more_uri_params_available s = (if s = [] then None else Some (strchr s (CHR ''='') \<noteq> None))"

definition get_uri_param_name :: "string \<Rightarrow> char list \<Rightarrow> size_t \<Rightarrow> error \<Rightarrow> (status_t \<times> char list \<times> error) option" where
  "get_uri_param_name src dest destsize e = (
     if strchr src (CHR ''='') = None then Some (failure, dest, set_http_error e 400)
     else do {
       (ok, dest) \<leftarrow> copy_word src dest (CHR ''='') destsize;
       Some (if \<not> ok then (failure, dest, set_http_error e 414) else (success, dest, e)) })"

definition get_uri_param_value :: "string \<Rightarrow> char list \<Rightarrow> size_t \<Rightarrow> error \<Rightarrow> (status_t \<times> char list \<times> error) option" where
  "get_uri_param_value src dest destsize e = (
     case strchr src (CHR ''='') of
       None \<Rightarrow> Some (failure, dest, set_http_error e 400)
     | Some p \<Rightarrow> do {
         (ok, dest) \<leftarrow> copy_word (drop (p + 1) src) dest (CHR ''&'') destsize;
         Some (if \<not> ok then (failure, dest, set_http_error e 414) else (success, dest, e)) })"

definition locate_next_uri_param :: "string \<Rightarrow> string option" where
  "locate_next_uri_param s = (case strchr s (CHR ''&'') of Some p \<Rightarrow> Some (drop (p + 1) s) | None \<Rightarrow> None)"

text \<open>
  A decoded length of 0 is taken for an error, and \<open>errno\<close> for its reason, also when the value was empty and nothing
  has set it; \<open>stale\<close> is its value then.
\<close>

definition decode_uri_param_value :: "errno_t \<Rightarrow> char list \<Rightarrow> char list \<Rightarrow> size_t \<Rightarrow> error \<Rightarrow> (status_t \<times> char list \<times> error) option" where
  "decode_uri_param_value stale decoded val cb e = do {
     s \<leftarrow> cstr_at val 0;
     (rc, err, decoded) \<leftarrow> rfc1738_decode decoded cb val 0 (length s);
     let errno = (case err of None \<Rightarrow> stale | Some er \<Rightarrow> er);
     Some (if rc = 0 then (failure, decoded, if errno = EINVAL then set_http_error e 400 else set_os_error e (errno_num errno))
           else (success, decoded, e)) }"

definition set_one_uri_param :: "errno_t \<Rightarrow> http_request \<Rightarrow> string \<Rightarrow> error \<Rightarrow> allocator \<Rightarrow> (status_t \<times> http_request \<times> error \<times> allocator) option" where
  "set_one_uri_param stale request s e a = do {
     (ok, name, e) \<leftarrow> get_uri_param_name s (fresh_bytes 101 a) 101 e;
     if \<not> ok then Some (failure, request, e, a)
     else do {
       (ok, val, e) \<leftarrow> get_uri_param_value s (fresh_bytes 501 a) 501 e;
       if \<not> ok then Some (failure, request, e, a)
       else do {
         (ok, decoded, e) \<leftarrow> decode_uri_param_value stale (fresh_bytes 501 a) val 501 e;
         if \<not> ok then Some (failure, request, e, a)
         else do {
           n \<leftarrow> cstr_at name 0;
           d \<leftarrow> cstr_at decoded 0;
           request_add_param request n d a \<bind> or_os_error e } } } }"

function set_uri_params :: "errno_t \<Rightarrow> http_request \<Rightarrow> string \<Rightarrow> error \<Rightarrow> allocator \<Rightarrow> (status_t \<times> http_request \<times> error \<times> allocator) option" where
  "set_uri_params stale request s e a = (
     case more_uri_params_available s of
       None \<Rightarrow> None
     | Some False \<Rightarrow> Some (success, request, e, a)
     | Some True \<Rightarrow> (
         case set_one_uri_param stale request s e a of
           None \<Rightarrow> None
         | Some (ok, request, e, a) \<Rightarrow>
             if \<not> ok then Some (failure, request, e, a)
             else (case locate_next_uri_param s of
                 None \<Rightarrow> Some (success, request, e, a)
               | Some s \<Rightarrow> set_uri_params stale request s e a)))"
  by pat_completeness auto
termination by (relation "measure (\<lambda>(er, r, s, e, a). length s)") (auto simp: locate_next_uri_param_def split: option.splits dest: strchr_Some)

declare set_uri_params.simps [simp del]

definition uri_has_params :: "string \<Rightarrow> bool" where
  "uri_has_params uri \<longleftrightarrow> strchr uri (CHR ''?'') \<noteq> None"

text \<open>The array that holds the uri is cut in two at the question mark.\<close>

definition set_uri_and_params :: "errno_t \<Rightarrow> http_request \<Rightarrow> string \<Rightarrow> error \<Rightarrow> allocator \<Rightarrow> (status_t \<times> http_request \<times> error \<times> allocator) option" where
  "set_uri_and_params stale request uri e a = (
     case strchr uri (CHR ''?'') of
       None \<Rightarrow> None
     | Some i \<Rightarrow> do {
         (ok, request, a) \<leftarrow> request_set_uri request (take i uri) a;
         if \<not> ok then Some (failure, request, set_os_error e (errno_num ENOMEM), a)
         else do {
           let s = drop (i + 1) uri;
           if length s = 0 then Some (failure, request, set_http_error e 400, a)
           else set_uri_params stale request s e a } })"

definition parse_request_uri :: "errno_t \<Rightarrow> string \<Rightarrow> http_request \<Rightarrow> error \<Rightarrow> allocator \<Rightarrow> (status_t \<times> http_request \<times> error \<times> allocator) option" where
  "parse_request_uri stale line request e a = (
     if length line \<ge> 10240 then Some (failure, request, set_http_error e 414, a)
     else do {
       (ok, uri) \<leftarrow> get_word_from_string line (fresh_bytes 10241 a) 10241 1;
       if \<not> ok then Some (failure, request, set_http_error e 400, a)
       else do {
         u \<leftarrow> cstr_at uri 0;
         if uri_has_params u then set_uri_and_params stale request u e a
         else request_set_uri request u a \<bind> or_os_error e } })"

definition parse_request_version :: "string \<Rightarrow> http_request \<Rightarrow> error \<Rightarrow> allocator \<Rightarrow> (status_t \<times> http_request \<times> error \<times> allocator) option" where
  "parse_request_version line request e a = (
     let iword = find_word line 2 in
     if iword = - 1 then Some (success, request_set_version request VERSION_09, e, a)
     else if iword < 0 then None
     else if length (drop (nat iword) line) > 20 then Some (failure, request, set_http_error e 400, a)
     else do {
       (ok, strVersion) \<leftarrow> get_word_from_string line (fresh_bytes 21 a) 21 2;
       if \<not> ok then Some (failure, request, set_http_error e 400, a)
       else do {
         s \<leftarrow> cstr_at strVersion 0;
         let v = get_version s;
         if v = VERSION_UNKNOWN then Some (failure, request, set_http_error e 505, a)
         else Some (success, request_set_version request v, e, a) } })"

definition parse_request_line :: "errno_t \<Rightarrow> string \<Rightarrow> http_request \<Rightarrow> error \<Rightarrow> allocator \<Rightarrow> (status_t \<times> http_request \<times> error \<times> allocator) option" where
  "parse_request_line stale line request e a = do {
     (ok, request, e, a) \<leftarrow> parse_request_method line request e a;
     if \<not> ok then Some (failure, request, e, a)
     else do {
       (ok, request, e, a) \<leftarrow> parse_request_uri stale line request e a;
       if \<not> ok then Some (failure, request, e, a)
       else parse_request_version line request e a } }"

definition read_request_line :: "connection \<Rightarrow> http_request \<Rightarrow> error \<Rightarrow> allocator \<Rightarrow>
    (status_t \<times> connection \<times> http_request \<times> error \<times> allocator) option" where
  "read_request_line conn request e a = do {
     (ok, buf, conn, e) \<leftarrow> read_line conn (replicate 10241 NUL) 10240 e;
     if ok then do {
       line \<leftarrow> cstr_at buf 0;
       (ok, request, e, a) \<leftarrow> parse_request_line (net_errno (cn_net conn)) line request e a;
       Some (ok, conn, request, e, a) }
     else Some (failure, conn, request,
       if is_app_error e \<and> get_error_code e = errno_num ENOSPC then set_http_error e 414 else e, a) }"

subsection \<open>The whole request\<close>

definition read_posted_content :: "size_t \<Rightarrow> connection \<Rightarrow> http_request \<Rightarrow> error \<Rightarrow> allocator \<Rightarrow>
    (status_t \<times> connection \<times> http_request \<times> error \<times> allocator) option" where
  "read_posted_content max_post_content conn req e a = do {
     content_len \<leftarrow> request_get_content_length req;
     if content_len = 0 then Some (failure, conn, req, set_http_error e 411, a)
     else if max_post_content < content_len then Some (failure, conn, req, set_http_error e 400, a)
     else (case try_alloc content_len a of
         (False, a) \<Rightarrow> Some (failure, conn, req, set_os_error e (errno_num ENOMEM), a)
       | (True, a) \<Rightarrow> do {
           (buf, conn) \<leftarrow> connection_read conn content_len;
           (case buf of
              None \<Rightarrow> Some (failure, conn, req, set_tcpip_error e (errno_num (net_errno (cn_net conn))), a)
            | Some buf \<Rightarrow>
                if length buf \<noteq> content_len then Some (failure, conn, req, set_tcpip_error e (errno_num EINVAL), a)
                else do {
                  (ok, req, a) \<leftarrow> request_set_entity req buf (length buf) a;
                  Some (if \<not> ok then (failure, conn, req, set_os_error e (errno_num ENOSPC), a) else (success, conn, req, e, a)) }) }) }"

definition request_receive :: "(tm \<Rightarrow> int) \<Rightarrow> http_request \<Rightarrow> connection \<Rightarrow> size_t \<Rightarrow> error \<Rightarrow> allocator \<Rightarrow>
    (status_t \<times> connection \<times> http_request \<times> error \<times> allocator) option" where
  "request_receive mktime request conn max_post_content e a = do {
     (ok, conn, request, e, a) \<leftarrow> read_request_line conn request e a;
     if \<not> ok then Some (failure, conn, request, e, a)
     else do {
       let conn = (if request_get_version request = VERSION_11 then connection_set_persistent conn True else conn);
       (ok, conn, request, e, a) \<leftarrow> read_request_header_fields mktime conn request e a;
       if \<not> ok then Some (failure, conn, request, e, a)
       else if request_get_method request = METHOD_POST \<and> rq_defered_read request = 0
       then read_posted_content max_post_content conn request e a
       else Some (success, conn, request, e, a) } }"
end
