(* ===== verification/Request_Fields.thy ===== *)
theory Request_Fields
  imports Request_Parse
begin

section \<open>Header fields of a request\<close>

text \<open>
  The invariant of a request, the abstract state it represents (the string fields that are set, the parameters of the uri
  and the cookies), and what parsing a header field does to it.
\<close>

subsection \<open>Invariant and view\<close>

definition rq_strings :: "(string \<times> 64 word \<times> (http_request \<Rightarrow> cstring)) list" where
  "rq_strings = [
     (''uri'', REQUEST_URI_SET, rq_uri),
     (''accept'', REQUEST_ACCEPT_SET, rq_accept),
     (''accept-charset'', REQUEST_ACCEPT_CHARSET_SET, rq_accept_charset),
     (''accept-encoding'', REQUEST_ACCEPT_ENCODING_SET, rq_accept_encoding),
     (''accept-language'', REQUEST_ACCEPT_LANGUAGE_SET, rq_accept_language),
     (''authorization'', REQUEST_AUTHORIZATION_SET, rq_authorization),
     (''from'', REQUEST_FROM_SET, rq_from),
     (''referer'', REQUEST_REFERER_SET, rq_referer),
     (''user-agent'', REQUEST_USER_AGENT_SET, rq_user_agent),
     (''range'', REQUEST_RANGE_SET, rq_range),
     (''te'', REQUEST_TE_SET, rq_te),
     (''expect'', REQUEST_EXPECT_SET, rq_expect),
     (''host'', REQUEST_HOST_SET, rq_host),
     (''if-match'', REQUEST_IF_MATCH_SET, rq_if_match),
     (''if-none-match'', REQUEST_IF_NONE_MATCH_SET, rq_if_none_match),
     (''if-range'', REQUEST_IF_RANGE_SET, rq_if_range)]"

definition rq_view :: "http_request \<Rightarrow> string \<rightharpoonup> string" where
  "rq_view r name = (case map_of rq_strings name of
     None \<Rightarrow> None
   | Some (flag, fld) \<Rightarrow> if request_flag_is_set r flag then Some (cs_str (fld r)) else None)"

definition rq_cookie_list :: "http_request \<Rightarrow> cookie list \<Rightarrow> bool" where
  "rq_cookie_list r cs \<longleftrightarrow> (case rq_cookies r of None \<Rightarrow> cs = [] | Some l \<Rightarrow> lrep l cs)"

definition rq_param_map :: "http_request \<Rightarrow> (string \<rightharpoonup> string) \<Rightarrow> bool" where
  "rq_param_map r m \<longleftrightarrow> (case rq_params r of None \<Rightarrow> m = Map.empty | Some p \<Rightarrow> pair_map p m)"

text \<open>The fields that are built by appending are empty while their flag is clear.\<close>

definition rq_strings_ok :: "http_request \<Rightarrow> bool" where
  "rq_strings_ok r \<longleftrightarrow> cs_inv (rq_uri r) \<and>
     cs_inv (rq_accept r) \<and>
     cs_inv (rq_accept_charset r) \<and>
     cs_inv (rq_accept_encoding r) \<and>
     cs_inv (rq_accept_language r) \<and>
     cs_inv (rq_authorization r) \<and>
     cs_inv (rq_from r) \<and>
     cs_inv (rq_referer r) \<and>
     cs_inv (rq_user_agent r) \<and>
     cs_inv (rq_link r) \<and>
     cs_inv (rq_range r) \<and>
     cs_inv (rq_te r) \<and>
     cs_inv (rq_title r) \<and>
     cs_inv (rq_expect r) \<and>
     cs_inv (rq_host r) \<and>
     cs_inv (rq_if_match r) \<and>
     cs_inv (rq_if_none_match r) \<and>
     cs_inv (rq_if_range r) \<and>
     (\<not> bit (rq_flags r) 2 \<longrightarrow> cs_str (rq_accept r) = []) \<and>
     (\<not> bit (rq_flags r) 3 \<longrightarrow> cs_str (rq_accept_charset r) = []) \<and>
     (\<not> bit (rq_flags r) 4 \<longrightarrow> cs_str (rq_accept_encoding r) = []) \<and>
     (\<not> bit (rq_flags r) 5 \<longrightarrow> cs_str (rq_accept_language r) = []) \<and>
     (\<not> bit (rq_flags r) 16 \<longrightarrow> cs_str (rq_te r) = [])"

definition rq_ok :: "http_request \<Rightarrow> bool" where
  "rq_ok r \<longleftrightarrow> rq_strings_ok r \<and> gh_ok (rq_general_header r) \<and> eh_ok (rq_entity_header r) \<and>
     (\<exists>m. rq_param_map r m) \<and> (\<exists>cs. rq_cookie_list r cs \<and> list_all cookie_ok cs)"

lemma rq_flag_bits:
  "REQUEST_ENTITY_SET = 2 ^ 0"
  "REQUEST_URI_SET = 2 ^ 1"
  "REQUEST_ACCEPT_SET = 2 ^ 2"
  "REQUEST_ACCEPT_CHARSET_SET = 2 ^ 3"
  "REQUEST_ACCEPT_ENCODING_SET = 2 ^ 4"
  "REQUEST_ACCEPT_LANGUAGE_SET = 2 ^ 5"
  "REQUEST_AUTHORIZATION_SET = 2 ^ 6"
  "REQUEST_FROM_SET = 2 ^ 7"
  "REQUEST_PRAGMA_SET = 2 ^ 8"
  "REQUEST_REFERER_SET = 2 ^ 9"
  "REQUEST_USER_AGENT_SET = 2 ^ 10"
  "REQUEST_LINK_SET = 2 ^ 11"
  "REQUEST_MAX_FORWARDS_SET = 2 ^ 12"
  "REQUEST_MIME_VERSION_SET = 2 ^ 13"
  "REQUEST_PROXY_AUTHORIZATION_SET = 2 ^ 14"
  "REQUEST_RANGE_SET = 2 ^ 15"
  "REQUEST_TE_SET = 2 ^ 16"
  "REQUEST_TITLE_SET = 2 ^ 17"
  "REQUEST_UPGRADE_SET = 2 ^ 18"
  "REQUEST_EXPECT_SET = 2 ^ 19"
  "REQUEST_HOST_SET = 2 ^ 20"
  "REQUEST_IF_MATCH_SET = 2 ^ 21"
  "REQUEST_IF_NONE_MATCH_SET = 2 ^ 22"
  "REQUEST_IF_RANGE_SET = 2 ^ 23"
  "REQUEST_IF_MODIFIED_SINCE_SET = 2 ^ 24"
  "REQUEST_IF_UNMODIFIED_SINCE_SET = 2 ^ 25"
  by (simp_all add: rq_flag_defs)

lemma rq_bits:
  "request_flag_is_set r REQUEST_ENTITY_SET \<longleftrightarrow> bit (rq_flags r) 0"
  "request_flag_is_set r REQUEST_URI_SET \<longleftrightarrow> bit (rq_flags r) 1"
  "request_flag_is_set r REQUEST_ACCEPT_SET \<longleftrightarrow> bit (rq_flags r) 2"
  "request_flag_is_set r REQUEST_ACCEPT_CHARSET_SET \<longleftrightarrow> bit (rq_flags r) 3"
  "request_flag_is_set r REQUEST_ACCEPT_ENCODING_SET \<longleftrightarrow> bit (rq_flags r) 4"
  "request_flag_is_set r REQUEST_ACCEPT_LANGUAGE_SET \<longleftrightarrow> bit (rq_flags r) 5"
  "request_flag_is_set r REQUEST_AUTHORIZATION_SET \<longleftrightarrow> bit (rq_flags r) 6"
  "request_flag_is_set r REQUEST_FROM_SET \<longleftrightarrow> bit (rq_flags r) 7"
  "request_flag_is_set r REQUEST_PRAGMA_SET \<longleftrightarrow> bit (rq_flags r) 8"
  "request_flag_is_set r REQUEST_REFERER_SET \<longleftrightarrow> bit (rq_flags r) 9"
  "request_flag_is_set r REQUEST_USER_AGENT_SET \<longleftrightarrow> bit (rq_flags r) 10"
  "request_flag_is_set r REQUEST_LINK_SET \<longleftrightarrow> bit (rq_flags r) 11"
  "request_flag_is_set r REQUEST_MAX_FORWARDS_SET \<longleftrightarrow> bit (rq_flags r) 12"
  "request_flag_is_set r REQUEST_MIME_VERSION_SET \<longleftrightarrow> bit (rq_flags r) 13"
  "request_flag_is_set r REQUEST_PROXY_AUTHORIZATION_SET \<longleftrightarrow> bit (rq_flags r) 14"
  "request_flag_is_set r REQUEST_RANGE_SET \<longleftrightarrow> bit (rq_flags r) 15"
  "request_flag_is_set r REQUEST_TE_SET \<longleftrightarrow> bit (rq_flags r) 16"
  "request_flag_is_set r REQUEST_TITLE_SET \<longleftrightarrow> bit (rq_flags r) 17"
  "request_flag_is_set r REQUEST_UPGRADE_SET \<longleftrightarrow> bit (rq_flags r) 18"
  "request_flag_is_set r REQUEST_EXPECT_SET \<longleftrightarrow> bit (rq_flags r) 19"
  "request_flag_is_set r REQUEST_HOST_SET \<longleftrightarrow> bit (rq_flags r) 20"
  "request_flag_is_set r REQUEST_IF_MATCH_SET \<longleftrightarrow> bit (rq_flags r) 21"
  "request_flag_is_set r REQUEST_IF_NONE_MATCH_SET \<longleftrightarrow> bit (rq_flags r) 22"
  "request_flag_is_set r REQUEST_IF_RANGE_SET \<longleftrightarrow> bit (rq_flags r) 23"
  "request_flag_is_set r REQUEST_IF_MODIFIED_SINCE_SET \<longleftrightarrow> bit (rq_flags r) 24"
  "request_flag_is_set r REQUEST_IF_UNMODIFIED_SINCE_SET \<longleftrightarrow> bit (rq_flags r) 25"
  by (simp_all only: rq_flag_bits request_flag_is_set_def and_exp_flag)

lemma rq_set_exp: "n < 64 \<Longrightarrow> bit (rq_flags (request_set_flag r (2 ^ n))) k \<longleftrightarrow> bit (rq_flags r) k \<or> k = n"
  by (simp add: request_set_flag_def bit_or_exp)

lemma rq_set_bits:
  "bit (rq_flags (request_set_flag r REQUEST_ENTITY_SET)) k \<longleftrightarrow> bit (rq_flags r) k \<or> k = 0"
  "bit (rq_flags (request_set_flag r REQUEST_URI_SET)) k \<longleftrightarrow> bit (rq_flags r) k \<or> k = 1"
  "bit (rq_flags (request_set_flag r REQUEST_ACCEPT_SET)) k \<longleftrightarrow> bit (rq_flags r) k \<or> k = 2"
  "bit (rq_flags (request_set_flag r REQUEST_ACCEPT_CHARSET_SET)) k \<longleftrightarrow> bit (rq_flags r) k \<or> k = 3"
  "bit (rq_flags (request_set_flag r REQUEST_ACCEPT_ENCODING_SET)) k \<longleftrightarrow> bit (rq_flags r) k \<or> k = 4"
  "bit (rq_flags (request_set_flag r REQUEST_ACCEPT_LANGUAGE_SET)) k \<longleftrightarrow> bit (rq_flags r) k \<or> k = 5"
  "bit (rq_flags (request_set_flag r REQUEST_AUTHORIZATION_SET)) k \<longleftrightarrow> bit (rq_flags r) k \<or> k = 6"
  "bit (rq_flags (request_set_flag r REQUEST_FROM_SET)) k \<longleftrightarrow> bit (rq_flags r) k \<or> k = 7"
  "bit (rq_flags (request_set_flag r REQUEST_PRAGMA_SET)) k \<longleftrightarrow> bit (rq_flags r) k \<or> k = 8"
  "bit (rq_flags (request_set_flag r REQUEST_REFERER_SET)) k \<longleftrightarrow> bit (rq_flags r) k \<or> k = 9"
  "bit (rq_flags (request_set_flag r REQUEST_USER_AGENT_SET)) k \<longleftrightarrow> bit (rq_flags r) k \<or> k = 10"
  "bit (rq_flags (request_set_flag r REQUEST_LINK_SET)) k \<longleftrightarrow> bit (rq_flags r) k \<or> k = 11"
  "bit (rq_flags (request_set_flag r REQUEST_MAX_FORWARDS_SET)) k \<longleftrightarrow> bit (rq_flags r) k \<or> k = 12"
  "bit (rq_flags (request_set_flag r REQUEST_MIME_VERSION_SET)) k \<longleftrightarrow> bit (rq_flags r) k \<or> k = 13"
  "bit (rq_flags (request_set_flag r REQUEST_PROXY_AUTHORIZATION_SET)) k \<longleftrightarrow> bit (rq_flags r) k \<or> k = 14"
  "bit (rq_flags (request_set_flag r REQUEST_RANGE_SET)) k \<longleftrightarrow> bit (rq_flags r) k \<or> k = 15"
  "bit (rq_flags (request_set_flag r REQUEST_TE_SET)) k \<longleftrightarrow> bit (rq_flags r) k \<or> k = 16"
  "bit (rq_flags (request_set_flag r REQUEST_TITLE_SET)) k \<longleftrightarrow> bit (rq_flags r) k \<or> k = 17"
  "bit (rq_flags (request_set_flag r REQUEST_UPGRADE_SET)) k \<longleftrightarrow> bit (rq_flags r) k \<or> k = 18"
  "bit (rq_flags (request_set_flag r REQUEST_EXPECT_SET)) k \<longleftrightarrow> bit (rq_flags r) k \<or> k = 19"
  "bit (rq_flags (request_set_flag r REQUEST_HOST_SET)) k \<longleftrightarrow> bit (rq_flags r) k \<or> k = 20"
  "bit (rq_flags (request_set_flag r REQUEST_IF_MATCH_SET)) k \<longleftrightarrow> bit (rq_flags r) k \<or> k = 21"
  "bit (rq_flags (request_set_flag r REQUEST_IF_NONE_MATCH_SET)) k \<longleftrightarrow> bit (rq_flags r) k \<or> k = 22"
  "bit (rq_flags (request_set_flag r REQUEST_IF_RANGE_SET)) k \<longleftrightarrow> bit (rq_flags r) k \<or> k = 23"
  "bit (rq_flags (request_set_flag r REQUEST_IF_MODIFIED_SINCE_SET)) k \<longleftrightarrow> bit (rq_flags r) k \<or> k = 24"
  "bit (rq_flags (request_set_flag r REQUEST_IF_UNMODIFIED_SINCE_SET)) k \<longleftrightarrow> bit (rq_flags r) k \<or> k = 25"
  by (simp_all only: rq_flag_bits rq_set_exp arith_simps rel_simps)

lemma rq_set_flag_sel [simp]:
  "rq_method (request_set_flag r f) = rq_method r"
  "rq_version (request_set_flag r f) = rq_version r"
  "rq_defered_read (request_set_flag r f) = rq_defered_read r"
  "rq_general_header (request_set_flag r f) = rq_general_header r"
  "rq_entity_header (request_set_flag r f) = rq_entity_header r"
  "rq_params (request_set_flag r f) = rq_params r"
  "rq_entity_buf (request_set_flag r f) = rq_entity_buf r"
  "rq_cookies (request_set_flag r f) = rq_cookies r"
  "rq_if_modified_since (request_set_flag r f) = rq_if_modified_since r"
  "rq_if_unmodified_since (request_set_flag r f) = rq_if_unmodified_since r"
  "rq_max_forwards (request_set_flag r f) = rq_max_forwards r"
  "rq_mime_version_major (request_set_flag r f) = rq_mime_version_major r"
  "rq_mime_version_minor (request_set_flag r f) = rq_mime_version_minor r"
  "rq_proxy_authorization (request_set_flag r f) = rq_proxy_authorization r"
  "rq_uri (request_set_flag r f) = rq_uri r"
  "rq_accept (request_set_flag r f) = rq_accept r"
  "rq_accept_charset (request_set_flag r f) = rq_accept_charset r"
  "rq_accept_encoding (request_set_flag r f) = rq_accept_encoding r"
  "rq_accept_language (request_set_flag r f) = rq_accept_language r"
  "rq_authorization (request_set_flag r f) = rq_authorization r"
  "rq_from (request_set_flag r f) = rq_from r"
  "rq_referer (request_set_flag r f) = rq_referer r"
  "rq_user_agent (request_set_flag r f) = rq_user_agent r"
  "rq_link (request_set_flag r f) = rq_link r"
  "rq_range (request_set_flag r f) = rq_range r"
  "rq_te (request_set_flag r f) = rq_te r"
  "rq_title (request_set_flag r f) = rq_title r"
  "rq_expect (request_set_flag r f) = rq_expect r"
  "rq_host (request_set_flag r f) = rq_host r"
  "rq_if_match (request_set_flag r f) = rq_if_match r"
  "rq_if_none_match (request_set_flag r f) = rq_if_none_match r"
  "rq_if_range (request_set_flag r f) = rq_if_range r"
  by (simp_all add: request_set_flag_def)

lemmas rq_simps = rq_bits rq_set_bits rq_ok_def rq_strings_ok_def rq_param_map_def rq_cookie_list_def

lemma rq_view_at:
  "rq_view r ''uri'' = (if bit (rq_flags r) 1 then Some (cs_str (rq_uri r)) else None)"
  "rq_view r ''accept'' = (if bit (rq_flags r) 2 then Some (cs_str (rq_accept r)) else None)"
  "rq_view r ''accept-charset'' = (if bit (rq_flags r) 3 then Some (cs_str (rq_accept_charset r)) else None)"
  "rq_view r ''accept-encoding'' = (if bit (rq_flags r) 4 then Some (cs_str (rq_accept_encoding r)) else None)"
  "rq_view r ''accept-language'' = (if bit (rq_flags r) 5 then Some (cs_str (rq_accept_language r)) else None)"
  "rq_view r ''authorization'' = (if bit (rq_flags r) 6 then Some (cs_str (rq_authorization r)) else None)"
  "rq_view r ''from'' = (if bit (rq_flags r) 7 then Some (cs_str (rq_from r)) else None)"
  "rq_view r ''referer'' = (if bit (rq_flags r) 9 then Some (cs_str (rq_referer r)) else None)"
  "rq_view r ''user-agent'' = (if bit (rq_flags r) 10 then Some (cs_str (rq_user_agent r)) else None)"
  "rq_view r ''range'' = (if bit (rq_flags r) 15 then Some (cs_str (rq_range r)) else None)"
  "rq_view r ''te'' = (if bit (rq_flags r) 16 then Some (cs_str (rq_te r)) else None)"
  "rq_view r ''expect'' = (if bit (rq_flags r) 19 then Some (cs_str (rq_expect r)) else None)"
  "rq_view r ''host'' = (if bit (rq_flags r) 20 then Some (cs_str (rq_host r)) else None)"
  "rq_view r ''if-match'' = (if bit (rq_flags r) 21 then Some (cs_str (rq_if_match r)) else None)"
  "rq_view r ''if-none-match'' = (if bit (rq_flags r) 22 then Some (cs_str (rq_if_none_match r)) else None)"
  "rq_view r ''if-range'' = (if bit (rq_flags r) 23 then Some (cs_str (rq_if_range r)) else None)"
  by (simp_all add: rq_view_def rq_strings_def rq_bits)

lemma rq_view_other: "n \<notin> {''uri'', ''accept'', ''accept-charset'', ''accept-encoding'', ''accept-language'', ''authorization'', ''from'', ''referer'', ''user-agent'', ''range'', ''te'', ''expect'', ''host'', ''if-match'', ''if-none-match'', ''if-range''} \<Longrightarrow> rq_view r n = None"
  by (simp add: rq_view_def rq_strings_def)


subsection \<open>The string fields\<close>

text \<open>The setter of the host checks that no host was set before.\<close>

definition set_host :: "http_request \<Rightarrow> string \<Rightarrow> allocator \<Rightarrow> (status_t \<times> http_request \<times> allocator) option" where
  "set_host r val a = do {
     (ok, s, a) \<leftarrow> cstring_set (rq_host r) val a;
     let r = r\<lparr>rq_host := s\<rparr>;
     Some (if \<not> ok then (failure, r, a) else (success, request_set_flag r REQUEST_HOST_SET, a)) }"

interpretation rqu: view_field rq_ok rq_uri "\<lambda>s r. r\<lparr>rq_uri := s\<rparr>"
    "\<lambda>r. request_set_flag r REQUEST_URI_SET" request_set_uri rq_view "''uri''"
  by unfold_locales (auto simp: rq_simps request_set_uri_def Let_def rq_view_def rq_strings_def cs_rep_str fun_eq_iff intro!: Option.bind_cong)

interpretation rqa: view_field rq_ok rq_authorization "\<lambda>s r. r\<lparr>rq_authorization := s\<rparr>"
    "\<lambda>r. request_set_flag r REQUEST_AUTHORIZATION_SET" request_set_authorization rq_view "''authorization''"
  by unfold_locales (auto simp: rq_simps request_set_authorization_def Let_def rq_view_def rq_strings_def cs_rep_str fun_eq_iff intro!: Option.bind_cong)

interpretation rqf: view_field rq_ok rq_from "\<lambda>s r. r\<lparr>rq_from := s\<rparr>"
    "\<lambda>r. request_set_flag r REQUEST_FROM_SET" request_set_from rq_view "''from''"
  by unfold_locales (auto simp: rq_simps request_set_from_def Let_def rq_view_def rq_strings_def cs_rep_str fun_eq_iff intro!: Option.bind_cong)

interpretation rqr: view_field rq_ok rq_referer "\<lambda>s r. r\<lparr>rq_referer := s\<rparr>"
    "\<lambda>r. request_set_flag r REQUEST_REFERER_SET" request_set_referer rq_view "''referer''"
  by unfold_locales (auto simp: rq_simps request_set_referer_def Let_def rq_view_def rq_strings_def cs_rep_str fun_eq_iff intro!: Option.bind_cong)

interpretation rqg: view_field rq_ok rq_user_agent "\<lambda>s r. r\<lparr>rq_user_agent := s\<rparr>"
    "\<lambda>r. request_set_flag r REQUEST_USER_AGENT_SET" request_set_user_agent rq_view "''user-agent''"
  by unfold_locales (auto simp: rq_simps request_set_user_agent_def Let_def rq_view_def rq_strings_def cs_rep_str fun_eq_iff intro!: Option.bind_cong)

interpretation rqn: view_field rq_ok rq_range "\<lambda>s r. r\<lparr>rq_range := s\<rparr>"
    "\<lambda>r. request_set_flag r REQUEST_RANGE_SET" request_set_range rq_view "''range''"
  by unfold_locales (auto simp: rq_simps request_set_range_def Let_def rq_view_def rq_strings_def cs_rep_str fun_eq_iff intro!: Option.bind_cong)

interpretation rqx: view_field rq_ok rq_expect "\<lambda>s r. r\<lparr>rq_expect := s\<rparr>"
    "\<lambda>r. request_set_flag r REQUEST_EXPECT_SET" request_set_expect rq_view "''expect''"
  by unfold_locales (auto simp: rq_simps request_set_expect_def Let_def rq_view_def rq_strings_def cs_rep_str fun_eq_iff intro!: Option.bind_cong)

interpretation rqh: view_field rq_ok rq_host "\<lambda>s r. r\<lparr>rq_host := s\<rparr>"
    "\<lambda>r. request_set_flag r REQUEST_HOST_SET" set_host rq_view "''host''"
  by unfold_locales (auto simp: rq_simps set_host_def Let_def rq_view_def rq_strings_def cs_rep_str fun_eq_iff intro!: Option.bind_cong)

interpretation rqm: view_field rq_ok rq_if_match "\<lambda>s r. r\<lparr>rq_if_match := s\<rparr>"
    "\<lambda>r. request_set_flag r REQUEST_IF_MATCH_SET" request_set_if_match rq_view "''if-match''"
  by unfold_locales (auto simp: rq_simps request_set_if_match_def Let_def rq_view_def rq_strings_def cs_rep_str fun_eq_iff intro!: Option.bind_cong)

interpretation rqo: view_field rq_ok rq_if_none_match "\<lambda>s r. r\<lparr>rq_if_none_match := s\<rparr>"
    "\<lambda>r. request_set_flag r REQUEST_IF_NONE_MATCH_SET" request_set_if_none_match rq_view "''if-none-match''"
  by unfold_locales (auto simp: rq_simps request_set_if_none_match_def Let_def rq_view_def rq_strings_def cs_rep_str fun_eq_iff intro!: Option.bind_cong)

interpretation rqi: view_field rq_ok rq_if_range "\<lambda>s r. r\<lparr>rq_if_range := s\<rparr>"
    "\<lambda>r. request_set_flag r REQUEST_IF_RANGE_SET" request_set_if_range rq_view "''if-range''"
  by unfold_locales (auto simp: rq_simps request_set_if_range_def Let_def rq_view_def rq_strings_def cs_rep_str fun_eq_iff intro!: Option.bind_cong)

interpretation rca: concat_field rq_ok rq_accept "\<lambda>s r. r\<lparr>rq_accept := s\<rparr>"
    "\<lambda>r. request_set_flag r REQUEST_ACCEPT_SET" request_set_accept rq_view "''accept''"
  by unfold_locales (auto simp: rq_simps request_set_accept_def Let_def held_def rq_view_def rq_strings_def cs_rep_str fun_eq_iff intro!: Option.bind_cong)

interpretation rcc: concat_field rq_ok rq_accept_charset "\<lambda>s r. r\<lparr>rq_accept_charset := s\<rparr>"
    "\<lambda>r. request_set_flag r REQUEST_ACCEPT_CHARSET_SET" request_set_accept_charset rq_view "''accept-charset''"
  by unfold_locales (auto simp: rq_simps request_set_accept_charset_def Let_def held_def rq_view_def rq_strings_def cs_rep_str fun_eq_iff intro!: Option.bind_cong)

interpretation rce: concat_field rq_ok rq_accept_encoding "\<lambda>s r. r\<lparr>rq_accept_encoding := s\<rparr>"
    "\<lambda>r. request_set_flag r REQUEST_ACCEPT_ENCODING_SET" request_set_accept_encoding rq_view "''accept-encoding''"
  by unfold_locales (auto simp: rq_simps request_set_accept_encoding_def Let_def held_def rq_view_def rq_strings_def cs_rep_str fun_eq_iff intro!: Option.bind_cong)

interpretation rcl: concat_field rq_ok rq_accept_language "\<lambda>s r. r\<lparr>rq_accept_language := s\<rparr>"
    "\<lambda>r. request_set_flag r REQUEST_ACCEPT_LANGUAGE_SET" request_set_accept_language rq_view "''accept-language''"
  by unfold_locales (auto simp: rq_simps request_set_accept_language_def Let_def held_def rq_view_def rq_strings_def cs_rep_str fun_eq_iff intro!: Option.bind_cong)

interpretation rct: concat_field rq_ok rq_te "\<lambda>s r. r\<lparr>rq_te := s\<rparr>"
    "\<lambda>r. request_set_flag r REQUEST_TE_SET" request_set_te rq_view "''te''"
  by unfold_locales (auto simp: rq_simps request_set_te_def Let_def held_def rq_view_def rq_strings_def cs_rep_str fun_eq_iff intro!: Option.bind_cong)

lemma rq_view_eq:
  assumes "\<And>name flag fld. (name, flag, fld) \<in> set rq_strings \<Longrightarrow> request_flag_is_set g flag = request_flag_is_set h flag \<and> fld g = fld h"
  shows "rq_view g = rq_view h"
proof
  fix n
  show "rq_view g n = rq_view h n"
  proof (cases "map_of rq_strings n")
    case (Some x)
    then show ?thesis using assms [of n "fst x" "snd x"] by (cases x) (simp add: rq_view_def map_of_SomeD)
  qed (simp add: rq_view_def)
qed

subsection \<open>Fields with several values\<close>

text \<open>
  Of a list of values separated by commas, every part of less than 100 characters is appended, and the last part whatever its
  length; the commas are dropped.
\<close>

fun split_commas :: "string \<Rightarrow> string list" where
  "split_commas [] = [[]]"
| "split_commas (c # s) = (if c = CHR '','' then [] # split_commas s else (c # hd (split_commas s)) # tl (split_commas s))"

definition kept_parts :: "string \<Rightarrow> string" where
  "kept_parts v = concat (filter (\<lambda>p. length p < 100) (butlast (split_commas v))) @ last (split_commas v)"

lemma split_commas_ne [simp]: "split_commas s \<noteq> []"
  by (cases s) auto

lemma split_commas_whole: "CHR '','' \<notin> set s \<Longrightarrow> split_commas s = [s]"
  by (induction s) auto

lemma split_commas_at: "CHR '','' \<notin> set s \<Longrightarrow> split_commas (s @ CHR '','' # t) = s # split_commas t"
  by (induction s) auto

lemma kept_parts_whole: "CHR '','' \<notin> set s \<Longrightarrow> kept_parts s = s"
  by (simp add: kept_parts_def split_commas_whole)

lemma kept_parts_at: "CHR '','' \<notin> set s \<Longrightarrow> kept_parts (s @ CHR '','' # t) = (if length s < 100 then s else []) @ kept_parts t"
  by (simp add: kept_parts_def split_commas_at)

lemma multivalued_added:
  assumes f: "\<And>h v e a. rq_ok h \<Longrightarrow> c_string v \<Longrightarrow> length v \<le> PTRDIFF_MAX \<Longrightarrow> field_added rq_ok rq_view h name v e (f h v e a)"
  shows "rq_ok r \<Longrightarrow> c_string val \<Longrightarrow> length val \<le> PTRDIFF_MAX \<Longrightarrow>
    field_added rq_ok rq_view r name (kept_parts val) e (req_parse_multivalued_fields r val f e a)"
proof (induction val arbitrary: r e a rule: length_induct)
  case (1 val)
  show ?case
  proof (cases "strchr val (CHR '','')")
    case None
    then have "kept_parts val = val" by (simp add: strchr_None kept_parts_whole)
    then show ?thesis using None f [OF 1(2-4), of e a] by (simp add: req_parse_multivalued_fields.simps [of r val])
  next
    case (Some n)
    let ?r = "drop (n + 1) val" and ?t = "take n val"
    have v: "n < length val" "val = ?t @ CHR '','' # ?r" using strchr_Some [OF Some] id_take_nth_drop [of n val] by simp_all
    have "n = length (takeWhile (\<lambda>x. x \<noteq> CHR '','') val)" using Some by (simp add: strchr_takeWhile split: if_splits)
    then have "?t = takeWhile (\<lambda>x. x \<noteq> CHR '','') val" by (simp add: takeWhile_eq_take [symmetric])
    then have c: "CHR '','' \<notin> set ?t" by (metis set_takeWhileD)
    have k: "kept_parts val = (if n < 100 then ?t else []) @ kept_parts ?r" using kept_parts_at [OF c, of ?r] v by simp
    have r: "length ?r < length val" "c_string ?r" "length ?r \<le> PTRDIFF_MAX" "c_string ?t" "length ?t \<le> PTRDIFF_MAX"
      using v(1) 1(3,4) by (simp_all add: c_string_drop c_string_take)
    note eq = req_parse_multivalued_fields.simps [of r val f e a]
    show ?thesis
    proof (cases "n + 1 > 100")
      case True
      then show ?thesis using 1(1) r 1(2) k Some eq by simp
    next
      case False
      obtain st h' e' a' where h: "f r ?t e a = Some (st, h', e', a')" "rq_ok h'" "length (held rq_view r name) + length ?t < 256 \<longrightarrow> st"
          "st \<longrightarrow> e' = e \<and> rq_view h' = (rq_view r)(name \<mapsto> held rq_view r name @ ?t)"
          "\<not> st \<longrightarrow> e' = set_os_error e 12 \<and> (\<forall>n. n \<noteq> name \<longrightarrow> rq_view h' n = rq_view r n)"
        using field_addedE [OF f [OF 1(2) r(4,5), of e a]] by blast
      show ?thesis
      proof (cases st)
        case True
        have "field_added rq_ok rq_view h' name (kept_parts ?r) e (req_parse_multivalued_fields h' ?r f e a')" using 1(1) r h(2) by blast
        then have "field_added rq_ok rq_view r name (?t @ kept_parts ?r) e (req_parse_multivalued_fields h' ?r f e a')"
          by (rule field_added_after) (use h(4) True in simp)
        then show ?thesis using k Some eq False True h(1,4) by simp
      next
        case st: False
        then show ?thesis unfolding field_added_def using k Some eq False h
          by (intro exI [of _ False] exI [of _ h'] exI [of _ e'] exI [of _ a']) simp
      qed
    qed
  qed
qed

subsection \<open>Parsing by name\<close>

lemma rq_parse_named:
  assumes "map_of (request_header_fields mktime) name = Some h"
  shows "parse_request_header mktime (find_request_header name) r val e a = h r val e a"
proof -
  have "map fst (request_header_fields (\<lambda>t. 0)) = map fst (request_header_fields mktime)" by (simp add: request_header_fields_def)
  from find_field_named [OF assms this, of 0] show ?thesis by (auto simp: find_request_header_def parse_request_header_def)
qed

lemma host_once:
  "\<not> request_flag_is_set r REQUEST_HOST_SET \<Longrightarrow> parse_host r val e a = set_host r val a \<bind> or_os_error e"
  "request_flag_is_set r REQUEST_HOST_SET \<Longrightarrow> parse_host r val e a = None"
  by (simp_all add: parse_host_def request_set_host_def set_host_def)

lemma rq_string_fields:
  assumes "rq_ok r" "c_string val" "length val \<le> PTRDIFF_MAX"
    "name \<in> {''user-agent'', ''from'', ''authorization'', ''expect'', ''if-match'', ''if-none-match'', ''if-range'', ''range'', ''referer''}"
  shows "field_post rq_ok rq_view r name val e (parse_request_header mktime (find_request_header name) r val e a)"
  using assms(4) rqg.handler_view [OF assms(1-3)] rqf.handler_view [OF assms(1-3)] rqa.handler_view [OF assms(1-3)] rqx.handler_view [OF assms(1-3)]
    rqm.handler_view [OF assms(1-3)] rqo.handler_view [OF assms(1-3)] rqi.handler_view [OF assms(1-3)] rqn.handler_view [OF assms(1-3)] rqr.handler_view [OF assms(1-3)]
  by (elim insertE emptyE) (simp_all add: rq_parse_named request_header_fields_def parse_user_agent_def parse_from_def parse_authorization_def parse_expect_def
      parse_if_match_def parse_if_none_match_def parse_if_range_def parse_range_def parse_referer_def)

lemma rq_concat_fields:
  assumes "rq_ok r" "c_string val" "length val \<le> PTRDIFF_MAX"
    "name \<in> {''accept'', ''accept-charset'', ''accept-encoding'', ''accept-language'', ''te''}"
  shows "field_added rq_ok rq_view r name (kept_parts val) e (parse_request_header mktime (find_request_header name) r val e a)"
  using assms(4) multivalued_added [OF rca.setter_added assms(1-3)] multivalued_added [OF rcc.setter_added assms(1-3)] multivalued_added [OF rce.setter_added assms(1-3)]
     multivalued_added [OF rcl.setter_added assms(1-3)] multivalued_added [OF rct.setter_added assms(1-3)]
  by (elim insertE emptyE) (simp_all add: rq_parse_named request_header_fields_def parse_accept_def parse_accept_charset_def parse_accept_encoding_def
      parse_accept_language_def parse_te_def)

lemma rq_host_field:
  assumes "rq_ok r" "c_string val" "length val \<le> PTRDIFF_MAX"
  shows "if rq_view r ''host'' = None then field_post rq_ok rq_view r ''host'' val e (parse_request_header mktime (find_request_header ''host'') r val e a)
    else parse_request_header mktime (find_request_header ''host'') r val e a = None"
proof -
  have "request_flag_is_set r REQUEST_HOST_SET \<longleftrightarrow> rq_view r ''host'' \<noteq> None" by (simp add: rq_view_at rq_bits)
  moreover have "parse_request_header mktime (find_request_header ''host'') r val e a = parse_host r val e a"
    by (simp add: rq_parse_named request_header_fields_def)
  ultimately show ?thesis using rqh.handler_view [OF assms, of e a] host_once [of r val e a] by simp
qed

subsection \<open>New and recycled requests\<close>

lemma rq_view_unset: "rq_flags r = 0 \<Longrightarrow> rq_view r = Map.empty"
  by (simp add: fun_eq_iff rq_view_def request_flag_is_set_def split: option.splits)

lemma request_new_ok:
  assumes "request_new a = Some (Some r, a')"
  shows "rq_ok r \<and> rq_view r = Map.empty \<and> rq_params r = None \<and> rq_cookies r = None \<and> rq_proxy_authorization r = None \<and>
    rq_entity_buf r = None \<and> rq_defered_read r = 0"
proof -
  obtain ok a1 where al: "try_alloc 248 a = (ok, a1)" by fastforce
  have ok: ok using assms al by (auto simp: request_new_def split: if_splits)
  obtain gh a2 where g: "general_header_new a1 = Some (Some gh, a2)"
    using assms al ok by (auto simp: request_new_def bind_eq_Some_conv split: option.splits)
  obtain eh a3 where e: "entity_header_new a2 = Some (Some eh, a3)"
    using assms al ok g by (auto simp: request_new_def bind_eq_Some_conv split: option.splits)
  obtain st d a4 where m: "multinew_loop 18 [] a3 = (st, d, a4)" "st \<longrightarrow> (\<exists>ns. d = ns \<and> list_all2 cs_fresh ns (replicate 18 []))"
    using multinew_spec [of 18 "[]" a3] by auto
  have st: st using assms al ok g e m(1) by (auto simp: request_new_def cstring_multinew_def split: if_splits)
  have c: "cs_inv (d ! i)" "cs_str (d ! i) = []" if "i < 18" for i
    using m(2) st that by (auto simp: list_all2_conv_all_nth cs_fresh_def cs_inv_iff cs_rep_str)
  have r: "rq_strings_ok r" "rq_flags r = 0" "rq_params r = None" "rq_cookies r = None" "rq_proxy_authorization r = None" "rq_entity_buf r = None"
      "rq_general_header r = gh" "rq_entity_header r = eh" "rq_defered_read r = 0"
    using assms al ok g e m(1) st c by (auto simp: request_new_def cstring_multinew_def rq_strings_ok_def)
  have "rq_ok r" using r general_header_new_ok [OF g] entity_header_new_ok [OF e] by (simp add: rq_ok_def rq_param_map_def rq_cookie_list_def)
  then show ?thesis using r rq_view_unset by blast
qed

lemma pair_free_some:
  assumes "pair_rep p nvs"
  shows "pair_free p \<noteq> None"
proof -
  have "i + k \<le> length nvs \<Longrightarrow> \<exists>x. pair_free_loop p i k = Some x" for i k
  proof (induction k arbitrary: i)
    case (Suc k)
    obtain e where "get_at (p_element p) i = Some (Some e)" using pair_rep_nth [OF assms, of i] Suc.prems by auto
    then show ?case using Suc.IH [of "Suc i"] Suc.prems by auto
  qed simp
  then show ?thesis using assms by (auto simp: pair_free_def pair_rep_def)
qed

lemma request_recycle_ok:
  assumes "rq_ok r"
  obtains r' where "request_recycle r = Some r'" "rq_ok r'" "rq_view r' = Map.empty" "rq_param_map r' Map.empty" "rq_cookie_list r' []" "rq_entity_buf r' = None"
proof -
  have rc: "\<exists>s'. cstring_recycle s = Some s' \<and> cs_rep s' []" if "cs_inv s" for s using cstring_recycle_spec that by (auto simp: cs_inv_def)
  have ci: "cs_inv (rq_accept r)" "cs_inv (rq_accept_charset r)" "cs_inv (rq_accept_encoding r)" "cs_inv (rq_accept_language r)" "cs_inv (rq_te r)"
    using assms by (simp_all add: rq_ok_def rq_strings_ok_def)
  obtain s1 s2 s3 s4 s5 where s: "cstring_recycle (rq_accept r) = Some s1" "cstring_recycle (rq_accept_charset r) = Some s2" "cstring_recycle (rq_accept_encoding r) = Some s3"
    "cstring_recycle (rq_accept_language r) = Some s4" "cstring_recycle (rq_te r) = Some s5" "cs_rep s1 []" "cs_rep s2 []" "cs_rep s3 []" "cs_rep s4 []" "cs_rep s5 []"
    using rc [OF ci(1)] rc [OF ci(2)] rc [OF ci(3)] rc [OF ci(4)] rc [OF ci(5)] by blast
  obtain eh where eh: "entity_header_recycle (rq_entity_header r) = Some eh" "eh_ok eh"
    using entity_header_recycle_ok assms by (auto simp: rq_ok_def)
  obtain x where p: "(case rq_params r of None \<Rightarrow> Some [] | Some ps \<Rightarrow> pair_free ps) = Some x"
    using assms pair_free_some by (cases "rq_params r") (auto simp: rq_ok_def rq_param_map_def pair_map_def)
  obtain cs where cs: "rq_cookie_list r cs" using assms by (auto simp: rq_ok_def)
  have c: "(case rq_cookies r of None \<Rightarrow> Some () | Some l \<Rightarrow> map_option (\<lambda>_. ()) (list_free l)) = Some ()"
    using cs list_free_spec [OF lrep_weak(1), of _ cs] by (cases "rq_cookies r") (fastforce simp: rq_cookie_list_def)+
  let ?r = "request_clear_flags (r\<lparr>rq_params := None, rq_cookies := None, rq_accept := s1, rq_accept_charset := s2,
       rq_accept_encoding := s3, rq_accept_language := s4, rq_te := s5,
       rq_general_header := general_header_recycle (rq_general_header r), rq_entity_header := eh, rq_entity_buf := None\<rparr>)"
  have run: "request_recycle r = Some ?r" unfolding request_recycle_def p c using s eh(1) by simp
  have gh: "gh_ok (general_header_recycle (rq_general_header r))"
    using assms by (simp add: rq_ok_def gh_ok_def general_header_recycle_def general_header_clear_flags_def gh_bits)
  have "cs_inv s1" "cs_inv s2" "cs_inv s3" "cs_inv s4" "cs_inv s5" using s by (auto simp: cs_inv_iff)
  then have "rq_ok ?r" using assms s(6-10) eh(2) gh cs_rep_str
    by (simp add: rq_ok_def rq_strings_ok_def request_clear_flags_def rq_param_map_def rq_cookie_list_def)
  then show thesis using that [OF run] rq_view_unset [of ?r] by (simp add: request_clear_flags_def rq_param_map_def rq_cookie_list_def)
qed

text \<open>A request for the witnesses.\<close>

definition sample_rq :: http_request where
  "sample_rq = \<lparr>rq_method = METHOD_UNKNOWN, rq_version = VERSION_UNKNOWN, rq_defered_read = 0, rq_general_header = sample_gh, rq_entity_header = sample_eh,
     rq_flags = 0, rq_params = None, rq_entity_buf = None, rq_cookies = None, rq_if_modified_since = 0, rq_if_unmodified_since = 0, rq_max_forwards = 0,
     rq_mime_version_major = 0, rq_mime_version_minor = 0, rq_proxy_authorization = None, rq_uri = cs_of [], rq_accept = cs_of [], rq_accept_charset = cs_of [], rq_accept_encoding = cs_of [], rq_accept_language = cs_of [], rq_authorization = cs_of [], rq_from = cs_of [], rq_referer = cs_of [], rq_user_agent = cs_of [], rq_link = cs_of [], rq_range = cs_of [], rq_te = cs_of [], rq_title = cs_of [], rq_expect = cs_of [], rq_host = cs_of [], rq_if_match = cs_of [], rq_if_none_match = cs_of [], rq_if_range = cs_of []\<rparr>"

lemma sample_rq_ok: "rq_ok sample_rq"
  by (simp add: rq_ok_def rq_strings_ok_def rq_param_map_def rq_cookie_list_def sample_rq_def sample_gh_ok sample_eh_ok cs_inv_cs_of cs_rep_str [OF cs_rep_cs_of])

subsection \<open>Properties\<close>

lemma rq_number_view:
  "rq_view (request_set_flag (r\<lparr>rq_max_forwards := n\<rparr>) REQUEST_MAX_FORWARDS_SET) = rq_view r"
  by (rule rq_view_eq) (auto simp: rq_strings_def rq_bits rq_set_bits)

lemma max_forwards_field:
  "parse_request_header mktime (find_request_header ''max-forwards'') r val e a = (case touint val of
     Inr n \<Rightarrow> Some (True, request_set_flag (r\<lparr>rq_max_forwards := n\<rparr>) REQUEST_MAX_FORWARDS_SET, e, a)
   | Inl _ \<Rightarrow> Some (False, r, set_http_error e 400, a))"
  by (auto simp: rq_parse_named request_header_fields_def parse_max_forwards_def isuint_def request_set_max_forwards_def split: sum.splits)

lemma mime_version_field:
  assumes "CHR ''.'' \<notin> set major"
  shows "parse_request_header mktime (find_request_header ''mime-version'') r (major @ ''.'' @ minor) e a = (
      if mime_number major 0 = Some 1 \<and> mime_number minor 0 = Some 0
      then Some (True, request_set_flag (r\<lparr>rq_mime_version_major := 1, rq_mime_version_minor := 0\<rparr>) REQUEST_MIME_VERSION_SET, e, a) else None)"
proof -
  have t: "takeWhile (\<lambda>c. c \<noteq> CHR ''.'') (major @ ''.'' @ minor) = major" using assms by (auto simp: takeWhile_tail intro: trans [OF takeWhile_append2])
  have "parse_mime_version r (major @ ''.'' @ minor) e a = do {
       major \<leftarrow> mime_number major 0; minor \<leftarrow> mime_number minor 0; (ok, r) \<leftarrow> request_set_mime_version r major minor; Some (ok, r, e, a) }"
    unfolding parse_mime_version_def t by simp
  then show ?thesis
    by (cases "mime_number major 0"; cases "mime_number minor 0") (auto simp: rq_parse_named request_header_fields_def request_set_mime_version_def)
qed


end
