(* ===== verification/Request_Cookies.thy ===== *)
theory Request_Cookies
  imports Request_Fields
begin

section \<open>Cookies of a request\<close>

text \<open>
  What \<open>parse_cookie\<close> adds to a request, as a function of the text of the field: the old format is a name and a value
  around the first equals sign, the new format has a version, a name with its value and three attributes in quotes.
\<close>

subsection \<open>The cookie in a field\<close>

definition number_attr_of :: "string \<Rightarrow> string \<Rightarrow> int option" where
  "number_attr_of v attribute = (case attr_text v attribute of None \<Rightarrow> None | Some t \<Rightarrow> (case toint t of Inl _ \<Rightarrow> None | Inr n \<Rightarrow> Some n))"

definition new_cookie :: "string \<Rightarrow> acookie option" where
  "new_cookie v = (
     case (number_attr_of v ''$Version'', name_value v, attr_text v ''$Path'', attr_text v ''$Domain'', number_attr_of v ''$Secure'') of
       (Some ver, Some (n, x), Some p, Some d, Some sec) \<Rightarrow>
         if ver = 1 \<and> (sec = 0 \<or> sec = 1)
         then Some \<lparr>ac_name = n, ac_value = x, ac_domain = d, ac_path = p, ac_secure = sec, ac_version = 1\<rparr> else None
     | _ \<Rightarrow> None)"

definition old_cookie :: "string \<Rightarrow> acookie option" where
  "old_cookie v = (
     if CHR ''='' \<in> set v
     then Some \<lparr>ac_name = takeWhile (\<lambda>c. c \<noteq> CHR ''='') v, ac_value = tl (dropWhile (\<lambda>c. c \<noteq> CHR ''='') v), ac_domain = [], ac_path = [],
       ac_secure = 0, ac_version = 0\<rparr>
     else None)"

definition cookies_of :: "http_request \<Rightarrow> acookie list \<Rightarrow> bool" where
  "cookies_of r ys \<longleftrightarrow> (\<exists>cs. rq_cookie_list r cs \<and> list_all cookie_ok cs \<and> map ck_abs cs = ys)"

text \<open>
  The contract: the request stays well formed and no other part of it changes; when no allocation fails and the field has less
  than 255 characters, the cookie of the field is added, or the request is bad and unchanged.
\<close>

definition cookie_post :: "http_request \<Rightarrow> acookie list \<Rightarrow> string \<Rightarrow> error \<Rightarrow> allocator \<Rightarrow> acookie option \<Rightarrow>
    (status_t \<times> http_request \<times> error \<times> allocator) option \<Rightarrow> bool" where
  "cookie_post r ys v e a x res \<longleftrightarrow> (\<exists>st r' e' a'. res = Some (st, r', e', a') \<and> (\<exists>l. r' = r\<lparr>rq_cookies := l\<rparr>) \<and> (\<exists>zs. cookies_of r' zs) \<and>
     (decisions a = [] \<and> length v < 255 \<longrightarrow> a' = a \<and>
       (case x of Some y \<Rightarrow> st \<and> e' = e \<and> cookies_of r' (ys @ [y]) | None \<Rightarrow> \<not> st \<and> e' = set_http_error e 400 \<and> r' = r)))"

lemma cookie_failed:
  assumes "cookies_of r ys" "decisions a = [] \<Longrightarrow> length v < 255 \<Longrightarrow> x = None \<and> e' = set_http_error e 400 \<and> a' = a"
  shows "cookie_post r ys v e a x (Some (False, r, e', a'))"
  unfolding cookie_post_def using assms by (intro exI [of _ False] exI [of _ r] exI [of _ e'] exI [of _ a']) (auto intro: exI [of _ "rq_cookies r"])

lemma cookie_post_after:
  assumes "cookie_post r ys v e a1 x1 res" "decisions a = [] \<Longrightarrow> length v < 255 \<Longrightarrow> a1 = a \<and> x = x1"
  shows "cookie_post r ys v e a x res"
proof -
  obtain st r' e' a' where r: "res = Some (st, r', e', a')" "\<exists>l. r' = r\<lparr>rq_cookies := l\<rparr>" "\<exists>zs. cookies_of r' zs"
    "decisions a1 = [] \<and> length v < 255 \<longrightarrow> a' = a1 \<and>
       (case x1 of Some y \<Rightarrow> st \<and> e' = e \<and> cookies_of r' (ys @ [y]) | None \<Rightarrow> \<not> st \<and> e' = set_http_error e 400 \<and> r' = r)"
    using assms(1) unfolding cookie_post_def by blast
  then show ?thesis unfolding cookie_post_def using assms(2)
    by (intro exI [of _ st] exI [of _ r'] exI [of _ e'] exI [of _ a']) (auto split: option.splits)
qed

text \<open>A step of the parser: the rest works on the cookie that the step returned.\<close>

lemma cookie_step:
  assumes "cookies_of r ys" "ck_post e a v x R"
    "\<And>c e' a'. cookie_ok c \<Longrightarrow> cookie_post r ys v e' a' (F (ck_abs c)) (K c e' a')"
  shows "cookie_post r ys v e a (x \<bind> F) (R \<bind> (\<lambda>(ok, c, e, a). if \<not> ok then Some (failure, r, e, a) else K c e a))"
proof -
  obtain st c e1 a1 where R: "R = Some (st, c, e1, a1)" "cookie_ok c" "decisions a = [] \<and> length v < 255 \<longrightarrow> a1 = a \<and>
     (case x of Some y \<Rightarrow> st \<and> e1 = e \<and> ck_abs c = y | None \<Rightarrow> \<not> st \<and> e1 = set_http_error e 400)" by (rule ck_postE [OF assms(2)])
  show ?thesis
  proof (cases st)
    case False
    have "cookie_post r ys v e a (x \<bind> F) (Some (False, r, e1, a1))"
      by (rule cookie_failed [OF assms(1)]) (use R(3) False in \<open>auto split: option.splits\<close>)
    then show ?thesis using R(1) False by simp
  next
    case True
    obtain st2 r' e2 a2 where K: "K c e1 a1 = Some (st2, r', e2, a2)" "\<exists>l. r' = r\<lparr>rq_cookies := l\<rparr>" "\<exists>zs. cookies_of r' zs"
      "decisions a1 = [] \<and> length v < 255 \<longrightarrow> a2 = a1 \<and> (case F (ck_abs c) of Some y \<Rightarrow> st2 \<and> e2 = e1 \<and> cookies_of r' (ys @ [y]) |
         None \<Rightarrow> \<not> st2 \<and> e2 = set_http_error e1 400 \<and> r' = r)"
      using assms(3) [OF R(2), of e1 a1] unfolding cookie_post_def by blast
    have "a2 = a \<and> (case x \<bind> F of Some y \<Rightarrow> st2 \<and> e2 = e \<and> cookies_of r' (ys @ [y]) | None \<Rightarrow> \<not> st2 \<and> e2 = set_http_error e 400 \<and> r' = r)"
      if "decisions a = [] \<and> length v < 255"
    proof -
      have "a1 = a" "x = Some (ck_abs c)" "e1 = e" using R(3) that True by (auto split: option.splits)
      then show ?thesis using K(4) that by (cases "F (ck_abs c)") simp_all
    qed
    then show ?thesis unfolding cookie_post_def using R(1) True K(1-3)
      by (intro exI [of _ st2] exI [of _ r'] exI [of _ e2] exI [of _ a2]) simp
  qed
qed

lemma add_cookie_post:
  assumes "cookies_of r ys" "cookie_ok c"
  shows "cookie_post r ys v e a (Some (ck_abs c)) (request_add_cookie r c a \<bind> or_os_error e)"
proof -
  obtain cs where cs: "rq_cookie_list r cs" "list_all cookie_ok cs" "map ck_abs cs = ys" using assms(1) by (auto simp: cookies_of_def)
  obtain l0 a0 where new: "(case rq_cookies r of Some l \<Rightarrow> (Some l, a) | None \<Rightarrow> list_new a) = (l0, a0)" "\<forall>l. l0 = Some l \<longrightarrow> lrep l cs"
    "decisions a = [] \<longrightarrow> l0 \<noteq> None \<and> a0 = a"
    using cs(1) list_new_spec [of a, where ?'a = cookie] by (cases "rq_cookies r") (auto simp: rq_cookie_list_def)
  show ?thesis
  proof (cases l0)
    case None
    have "cookie_post r ys v e a (Some (ck_abs c)) (Some (False, r, set_os_error e (errno_num ENOMEM), a0))"
      by (rule cookie_failed [OF assms(1)]) (use new(3) None in simp)
    then show ?thesis using new(1) None by (simp add: request_add_cookie_def or_os_error_def)
  next
    case (Some l)
    then have "lrep l cs" using new(2) by blast
    from list_add_some [OF this, of c a0] obtain ok l' a' where add: "list_add (Some l) c a0 = Some (ok, Some l', a')" "lrep l' (if ok then cs @ [c] else cs)"
      "decisions a0 = [] \<longrightarrow> ok \<and> a' = a0" by blast
    let ?r = "r\<lparr>rq_cookies := Some l'\<rparr>"
    have run: "request_add_cookie r c a \<bind> or_os_error e = Some (ok, ?r, if ok then e else set_os_error e (errno_num ENOMEM), a')"
      using new(1) Some add(1) by (simp add: request_add_cookie_def or_os_error_def)
    have "cookies_of ?r (if ok then ys @ [ck_abs c] else ys)"
      unfolding cookies_of_def using add(2) cs assms(2) by (intro exI [of _ "if ok then cs @ [c] else cs"]) (simp add: rq_cookie_list_def)
    then show ?thesis unfolding run cookie_post_def using new(3) add(3)
      by (intro exI [of _ ok] exI [of _ ?r] exI [of _ "if ok then e else set_os_error e (errno_num ENOMEM)"] exI [of _ a']) auto
  qed
qed

lemma new_cookie_post:
  assumes "cookies_of r ys" "c_string v" "length v \<le> PTRDIFF_MAX"
  shows "cookie_post r ys v e a (new_cookie v) (parse_new_cookie r v e a)"
proof -
  let ?sec = "\<lambda>c. case attr_text v ''$Secure'' of None \<Rightarrow> None | Some t \<Rightarrow>
      (case toint t of Inl _ \<Rightarrow> None | Inr n \<Rightarrow> if n = 0 \<or> n = 1 then Some (c\<lparr>ac_secure := n\<rparr>) else None)"
  let ?dom = "\<lambda>c. map_option (\<lambda>t. c\<lparr>ac_domain := t\<rparr>) (attr_text v ''$Domain'')"
  let ?path = "\<lambda>c. map_option (\<lambda>t. c\<lparr>ac_path := t\<rparr>) (attr_text v ''$Path'')"
  let ?name = "\<lambda>c. map_option (\<lambda>(n, x). c\<lparr>ac_name := n, ac_value := x\<rparr>) (name_value v)"
  let ?ver = "\<lambda>c. case attr_text v ''$Version'' of None \<Rightarrow> None | Some t \<Rightarrow>
      (case toint t of Inl _ \<Rightarrow> None | Inr n \<Rightarrow> if n = 1 then Some (c\<lparr>ac_version := n\<rparr>) else None)"
  obtain c0 a0 where n: "cookie_new a = Some (c0, a0)" "\<forall>c. c0 = Some c \<longrightarrow> cookie_ok c \<and> ck_abs c = blank_cookie" "decisions a = [] \<longrightarrow> c0 \<noteq> None \<and> a0 = a"
    by (rule cookie_new_spec)
  show ?thesis
  proof (cases c0)
    case None
    have "cookie_post r ys v e a (new_cookie v) (Some (False, r, set_os_error e (errno_num ENOMEM), a0))"
      by (rule cookie_failed [OF assms(1)]) (use n(3) None in simp)
    then show ?thesis using n(1) None by (simp add: parse_new_cookie_def)
  next
    case (Some c)
    then have c: "cookie_ok c" "ck_abs c = blank_cookie" using n(2) by simp_all
    have x: "new_cookie v = ?ver (ck_abs c) \<bind> (\<lambda>c. ?name c \<bind> (\<lambda>c. ?path c \<bind> (\<lambda>c. ?dom c \<bind> (\<lambda>c. ?sec c \<bind> Some))))"
      unfolding c(2) by (auto simp: new_cookie_def number_attr_of_def blank_cookie_def split: option.splits sum.splits)
    have "cookie_post r ys v e a0 (new_cookie v) (parse_new_cookie_version c v e a0 \<bind> (\<lambda>(ok, c, e, a). if \<not> ok then Some (failure, r, e, a)
        else parse_new_cookie_name c v e a \<bind> (\<lambda>(ok, c, e, a). if \<not> ok then Some (failure, r, e, a)
        else parse_new_cookie_path c v e a \<bind> (\<lambda>(ok, c, e, a). if \<not> ok then Some (failure, r, e, a)
        else parse_new_cookie_domain c v e a \<bind> (\<lambda>(ok, c, e, a). if \<not> ok then Some (failure, r, e, a)
        else parse_new_cookie_secure c v e a \<bind> (\<lambda>(ok, c, e, a). if \<not> ok then Some (failure, r, e, a)
        else request_add_cookie r c a \<bind> or_os_error e))))))"
      unfolding x
      by (intro cookie_step [OF assms(1)] version_post name_post path_post domain_post secure_post add_cookie_post [OF assms(1)] c assms)
    from cookie_post_after [OF this, of a "new_cookie v"] show ?thesis using n(1,3) Some by (simp add: parse_new_cookie_def)
  qed
qed

text \<open>The old format: what is left to do when the name has been copied and \<open>t\<close> is the text behind the equals sign.\<close>

definition store_old :: "http_request \<Rightarrow> cstring \<Rightarrow> cstring \<Rightarrow> string \<Rightarrow> error \<Rightarrow> allocator \<Rightarrow> (status_t \<times> http_request \<times> error \<times> allocator) option" where
  "store_old req name val input e a = do {
     (ok, val, a) \<leftarrow> cstring_set val input a;
     if \<not> ok then Some (failure, req, set_os_error e (errno_num ENOMEM), a)
     else do {
       (c, a) \<leftarrow> cookie_new a;
       (case c of
          None \<Rightarrow> Some (failure, req, set_os_error e (errno_num ENOMEM), a)
        | Some c \<Rightarrow> do {
            n \<leftarrow> cstr_at (cs_data name) 0;
            (ok, c, a) \<leftarrow> cookie_set_name c n a;
            if \<not> ok then Some (failure, req, set_os_error e (errno_num ENOMEM), a)
            else do {
              v \<leftarrow> cstr_at (cs_data val) 0;
              (ok, c, a) \<leftarrow> cookie_set_value c v a;
              if \<not> ok then Some (failure, req, set_os_error e (errno_num ENOMEM), a)
              else do {
                c \<leftarrow> cookie_set_version c 0;
                request_add_cookie req c a \<bind> or_os_error e } } }) } }"

lemma store_old_post:
  assumes "cookies_of r ys" "cs_rep n u" "cs_rep v1 []" "c_string t" "length t \<le> PTRDIFF_MAX"
    "length v < 255 \<Longrightarrow> length u < 256 \<and> length t < 256 \<and>
       x = Some \<lparr>ac_name = u, ac_value = t, ac_domain = [], ac_path = [], ac_secure = 0, ac_version = 0\<rparr>"
  shows "cookie_post r ys v e a x (store_old r n v1 t e a)"
proof -
  note fail = cookie_failed [OF assms(1)]
  have "cs_inv v1" using assms(3) by (auto simp: cs_inv_iff)
  from cookie_setter [OF this assms(4,5), of a] obtain s1 v2 a1 where S: "cstring_set v1 t a = Some (s1, v2, a1)" "cs_inv v2"
    "length t < 256 \<longrightarrow> s1 \<and> a1 = a \<and> cs_str v2 = t" by blast
  have rv: "c_string (cs_str v2)" "length (cs_str v2) \<le> PTRDIFF_MAX" "cstr_at (cs_data v2) 0 = Some (cs_str v2)"
    using rep_text [of v2 "cs_str v2"] S(2) by (simp_all add: cs_inv_def)
  obtain c0 a2 where C: "cookie_new a1 = Some (c0, a2)" "\<forall>c. c0 = Some c \<longrightarrow> cookie_ok c \<and> ck_abs c = blank_cookie" "decisions a1 = [] \<longrightarrow> c0 \<noteq> None \<and> a2 = a1"
    by (rule cookie_new_spec)
  show ?thesis
  proof (cases "s1 \<and> c0 \<noteq> None")
    case False
    have "store_old r n v1 t e a = Some (False, r, set_os_error e (errno_num ENOMEM), if s1 then a2 else a1)"
      using S(1) C(1) False by (cases s1) (simp_all add: store_old_def)
    then show ?thesis using fail [of a v x] False S(3) C(3) assms(6) by auto
  next
    case True
    then obtain c where c: "c0 = Some c" "cookie_ok c" "ck_abs c = blank_cookie" using C(2) by auto
    have "cs_inv (ck_name c)" "cs_inv (ck_value c)" using c(2) by (simp_all add: cookie_ok_def)
    from cookie_setter [OF this(1), of u a2] obtain s2 nm a3 where N: "cstring_set (ck_name c) u a2 = Some (s2, nm, a3)" "cs_inv nm"
      "length u < 256 \<longrightarrow> s2 \<and> a3 = a2 \<and> cs_str nm = u" using rep_text [OF assms(2)] by blast
    from cookie_setter [OF \<open>cs_inv (ck_value c)\<close> rv(1,2), of a3] obtain s3 vl a4 where V: "cstring_set (ck_value c) (cs_str v2) a3 = Some (s3, vl, a4)" "cs_inv vl"
      "length (cs_str v2) < 256 \<longrightarrow> s3 \<and> a4 = a3 \<and> cs_str vl = cs_str v2" by blast
    let ?c = "c\<lparr>ck_name := nm, ck_value := vl, ck_version := 0\<rparr>"
    have run: "store_old r n v1 t e a = (if s2 \<and> s3 then request_add_cookie r ?c a4 \<bind> or_os_error e
        else Some (False, r, set_os_error e (errno_num ENOMEM), if s2 then a4 else a3))"
      using S(1) C(1) c(1) True N(1) V(1) rv(3) rep_text [OF assms(2)]
      by (simp add: store_old_def cookie_set_name_def cookie_set_value_def cookie_set_version_def)
    have small: "length v < 255 \<Longrightarrow> decisions a = [] \<Longrightarrow> s2 \<and> s3 \<and> a4 = a \<and> x = Some (ck_abs ?c)"
      using assms(6) S(3) C(3) N(3) V(3) c(3) by (simp add: ck_abs_def blank_cookie_def)
    show ?thesis
    proof (cases "s2 \<and> s3")
      case False
      then show ?thesis unfolding run using fail [of a v x] small by auto
    next
      case True
      have "cookie_ok ?c" using c(2) N(2) V(2) by (simp add: cookie_ok_def)
      from add_cookie_post [OF assms(1) this, of v e a4] show ?thesis unfolding if_P [OF True] run
        by (rule cookie_post_after) (use small in simp)
    qed
  qed
qed

lemma attr_loop_rest: "attr_loop stop s l a = Some (ok, s', l', a') \<Longrightarrow> \<exists>k. l' = drop k l"
proof (induction l arbitrary: s a)
  case Nil
  then show ?case by simp
next
  case (Cons c l)
  show ?case
  proof (cases "c = stop")
    case True
    then show ?thesis using Cons.prems by (intro exI [of _ 0]) simp
  next
    case False
    then obtain st s1 a1 where st: "cstring_charcat s c a = Some (st, s1, a1)" using Cons.prems by (auto simp: bind_eq_Some_conv)
    then have "\<exists>k. l' = drop k l" using Cons.prems False Cons.IH [of s1 a1] by (cases st) (auto intro: exI [of _ 0])
    then obtain k where "l' = drop k l" by blast
    then show ?thesis by (intro exI [of _ "Suc k"]) simp
  qed
qed

lemma old_cookie_post:
  assumes "cookies_of r ys" "c_string v" "length v \<le> PTRDIFF_MAX"
  shows "cookie_post r ys v e a (old_cookie v) (parse_old_cookie r v e a)"
proof -
  note fail = cookie_failed [OF assms(1)]
  obtain n0 a0 where n0: "cstring_new a = (n0, a0)" "\<forall>s. n0 = Some s \<longrightarrow> cs_rep s [] \<and> cs_size s = 256" "decisions a = [] \<longrightarrow> n0 \<noteq> None \<and> a0 = a"
    using cstring_new_spec by blast
  obtain v0 a1 where v0: "cstring_new a0 = (v0, a1)" "\<forall>s. v0 = Some s \<longrightarrow> cs_rep s [] \<and> cs_size s = 256" "decisions a0 = [] \<longrightarrow> v0 \<noteq> None \<and> a1 = a0"
    using cstring_new_spec by blast
  show ?thesis
  proof (cases "n0 = None \<or> v0 = None")
    case True
    have "parse_old_cookie r v e a = Some (False, r, set_os_error e (errno_num ENOMEM), if n0 = None then a0 else a1)"
      using n0(1) v0(1) True by (cases n0) (auto simp: parse_old_cookie_def)
    moreover have "decisions a \<noteq> []" using True n0(3) v0(3) by auto
    ultimately show ?thesis using fail [of a v] by simp
  next
    case False
    then obtain n v1 where nv: "n0 = Some n" "v0 = Some v1" by auto
    then have rep: "cs_rep n []" "cs_rep v1 []" using n0(2) v0(2) by simp_all
    from attr_loop_spec [OF rep(1) assms(2), of "CHR ''=''" a1] obtain ok n' l a2 where L: "attr_loop (CHR ''='') n v a1 = Some (ok, n', l, a2)"
      "\<exists>u. cs_rep n' u" "length v < 255 \<longrightarrow> ok \<and> a2 = a1 \<and> cs_rep n' (takeWhile (\<lambda>c. c \<noteq> CHR ''='') v) \<and> l = dropWhile (\<lambda>c. c \<noteq> CHR ''='') v"
      unfolding list.size append_Nil add_0 by blast
    have dw: "dropWhile (\<lambda>c. c \<noteq> CHR ''='') v = [] \<longleftrightarrow> CHR ''='' \<notin> set v" by (auto simp: dropWhile_eq_Nil_conv)
    have mem: "decisions a = [] \<Longrightarrow> a1 = a" using n0(3) v0(3) by simp
    show ?thesis
    proof (cases "ok \<and> l \<noteq> []")
      case False
      have "parse_old_cookie r v e a = Some (False, r, if ok then set_http_error e 400 else set_os_error e (errno_num ENOMEM), a2)"
        using n0(1) v0(1) nv L(1) False by (auto simp: parse_old_cookie_def)
      moreover have "old_cookie v = None \<and> ok \<and> a2 = a" if "decisions a = []" "length v < 255"
        using L(3) that False dw mem by (auto simp: old_cookie_def)
      ultimately show ?thesis using fail [of a v "old_cookie v"] by simp
    next
      case True
      then obtain q t where l: "l = q # t" by (cases l) auto
      then obtain k where "t = drop k v" using attr_loop_rest [OF L(1)] by (metis drop_Suc drop_drop list.sel(3) tl_drop)
      then have t: "c_string t" "length t \<le> length v" using assms(2) c_string_drop by auto
      obtain u where u: "cs_rep n' u" using L(2) by blast
      have tx: "length u < 256 \<and> length t < 256 \<and>
          old_cookie v = Some \<lparr>ac_name = u, ac_value = t, ac_domain = [], ac_path = [], ac_secure = 0, ac_version = 0\<rparr>" if "length v < 255"
      proof -
        have "u = takeWhile (\<lambda>c. c \<noteq> CHR ''='') v" "q # t = dropWhile (\<lambda>c. c \<noteq> CHR ''='') v" using L(3) that u l cs_rep_str by auto
        moreover from this(2) have "CHR ''='' \<in> set v" using dw by (metis list.distinct(1))
        ultimately show ?thesis using that t(2) length_takeWhile_le [of "\<lambda>c. c \<noteq> CHR ''=''" v] by (auto simp: old_cookie_def dest: arg_cong [of _ _ tl])
      qed
      have "cookie_post r ys v e a2 (old_cookie v) (store_old r n' v1 t e a2)"
        by (rule store_old_post [OF assms(1) u rep(2) t(1)]) (use t(2) assms(3) tx in auto)
      moreover have "parse_old_cookie r v e a = store_old r n' v1 t e a2"
        using n0(1) v0(1) nv L(1) l True by (simp add: parse_old_cookie_def store_old_def)
      ultimately show ?thesis using cookie_post_after L(3) mem by simp
    qed
  qed
qed


subsection \<open>Properties\<close>

lemma cookies_of_ok: "rq_ok r \<longleftrightarrow> rq_strings_ok r \<and> gh_ok (rq_general_header r) \<and> eh_ok (rq_entity_header r) \<and> (\<exists>m. rq_param_map r m) \<and> (\<exists>ys. cookies_of r ys)"
  by (auto simp: rq_ok_def cookies_of_def)

lemma cookies_only:
  assumes "r' = r\<lparr>rq_cookies := l\<rparr>" "rq_ok r" "cookies_of r' zs"
  shows "rq_ok r' \<and> rq_view r' = rq_view r"
proof -
  have v: "rq_view r' = rq_view r" by (rule rq_view_eq) (auto simp: assms(1) rq_strings_def request_flag_is_set_def)
  have "rq_strings_ok r' = rq_strings_ok r" "rq_param_map r' = rq_param_map r" using assms(1) by (simp_all add: rq_strings_ok_def rq_param_map_def fun_eq_iff)
  moreover have "rq_general_header r' = rq_general_header r" "rq_entity_header r' = rq_entity_header r" using assms(1) by simp_all
  ultimately show ?thesis using v assms(2,3) unfolding cookies_of_ok by metis
qed

lemma get_cookie_spec:
  assumes "cookies_of r ys"
  shows "request_get_cookie_count r = Some (length ys)"
    and "i < length ys \<Longrightarrow> \<exists>c. request_get_cookie r i = Some (Some c) \<and> ck_abs c = ys ! i"
proof -
  obtain cs where cs: "rq_cookie_list r cs" "map ck_abs cs = ys" using assms by (auto simp: cookies_of_def)
  have l: "length cs = length ys" using cs(2) by auto
  show "request_get_cookie_count r = Some (length ys)"
    using cs(1) l list_size_spec [OF lrep_weak(1), of _ cs] by (cases "rq_cookies r") (simp_all add: request_get_cookie_count_def rq_cookie_list_def)
  show "\<exists>c. request_get_cookie r i = Some (Some c) \<and> ck_abs c = ys ! i" if "i < length ys"
  proof (cases "rq_cookies r")
    case None
    then show ?thesis using cs(1) l that by (simp add: rq_cookie_list_def)
  next
    case (Some m)
    then have "lrep m cs" using cs(1) by (simp add: rq_cookie_list_def)
    from list_get_item_spec [OF lrep_weak(1) [OF this]] have "list_get_item m i = Some (Some (cs ! i))" using that l by simp
    moreover have "ck_abs (cs ! i) = ys ! i" using cs(2) that l nth_map [of i cs ck_abs] by simp
    ultimately show ?thesis using Some by (simp add: request_get_cookie_def)
  qed
qed



end
