(* ===== verification/Request_Line.thy ===== *)
theory Request_Line
  imports Request_Fields
begin

section \<open>The request line\<close>

text \<open>
  The words of a request line decide its method, uri and version; the errors are those of the parser in the order in
  which it looks for them. The parameters behind a question mark are added to the parameters of the request. A request
  line that was sent is read back.
\<close>

subsection \<open>Method and version\<close>

lemma fresh_length [simp]: "length (fresh_bytes n a) = n"
  by (simp add: fresh_bytes_def)

lemma method_step:
  assumes "c_string line" "length line < 2 ^ 31"
  shows "parse_request_method line r e a = (
    if line_words line = [] \<or> 256 < length (line_words line ! 0) then Some (False, r, set_http_error e 400, a)
    else if get_method (line_words line ! 0) = METHOD_UNKNOWN then Some (False, r, set_http_error e 501, a)
    else Some (True, r\<lparr>rq_method := get_method (line_words line ! 0)\<rparr>, e, a))"
proof -
  obtain ok d where g: "get_word_from_string line (fresh_bytes 257 a) 257 0 = Some (ok, d)"
    "ok \<longleftrightarrow> 0 < length (line_words line) \<and> length (line_words line ! 0) < 257" "ok \<longrightarrow> cstr_at d 0 = Some (line_words line ! 0)"
    using get_word_spec [OF assms(2), of 257 "fresh_bytes 257 a" 0] assms(1) by auto
  show ?thesis
  proof (cases ok)
    case True
    then have "line_words line \<noteq> []" "\<not> 256 < length (line_words line ! 0)" using g(2) by simp_all
    then show ?thesis using g(1,3) True by (simp add: parse_request_method_def request_set_method_def Let_def)
  next
    case False
    then have "line_words line = [] \<or> 256 < length (line_words line ! 0)" using g(2) by auto
    then show ?thesis using g(1) False by (simp add: parse_request_method_def)
  qed
qed

lemma version_step:
  assumes "c_string line" "length line < 2 ^ 31"
  defines "tail \<equiv> skip_words 2 line"
  shows "parse_request_version line r e a = (
    if tail = [] then Some (True, r\<lparr>rq_version := VERSION_09\<rparr>, e, a)
    else if 20 < length tail then Some (False, r, set_http_error e 400, a)
    else if get_version (line_words line ! 2) = VERSION_UNKNOWN then Some (False, r, set_http_error e 505, a)
    else Some (True, r\<lparr>rq_version := get_version (line_words line ! 2)\<rparr>, e, a))"
proof (cases "tail = []")
  case True
  then show ?thesis by (simp add: parse_request_version_def find_word_def tail_def request_set_version_def)
next
  case False
  obtain i where i: "tail = drop i line" using skip_words_suffix unfolding tail_def by blast
  have w: "2 < length (line_words line)" "takeWhile (\<lambda>c. c \<noteq> CHR '' '') tail = line_words line ! 2"
    using skip_words_nth [of 2 line] False unfolding tail_def by auto
  have f: "find_word line 2 = int (length line - length tail)"
    using False assms(2) by (auto simp: find_word_def tail_def [symmetric] Let_def to_int_small)
  have "i < length line" using i False by (metis drop_all not_le)
  then have d: "drop (length line - length tail) line = tail" using i by simp
  obtain ok d where g: "get_word_from_string line (fresh_bytes 21 a) 21 2 = Some (ok, d)"
    "ok \<longleftrightarrow> 2 < length (line_words line) \<and> length (line_words line ! 2) < 21" "ok \<longrightarrow> cstr_at d 0 = Some (line_words line ! 2)"
    using get_word_spec [OF assms(2), of 21 "fresh_bytes 21 a" 2] assms(1) by auto
  have l: "length (line_words line ! 2) \<le> length tail" using w(2) length_takeWhile_le [of "\<lambda>c. c \<noteq> CHR '' ''" tail] by simp
  show ?thesis
  proof (cases "20 < length tail")
    case True
    then show ?thesis using f d False by (simp add: parse_request_version_def Let_def)
  next
    case short: False
    then have ok: ok using g(2) w(1) l by simp
    then show ?thesis using f d False short g(1,3) by (simp add: parse_request_version_def request_set_version_def Let_def)
  qed
qed


subsection \<open>Parameters\<close>

definition param_name :: "string \<Rightarrow> string" where
  "param_name s = takeWhile (\<lambda>c. c \<noteq> CHR ''='') s"

definition param_value :: "string \<Rightarrow> string" where
  "param_value s = takeWhile (\<lambda>c. c \<noteq> CHR ''&'') (tl (dropWhile (\<lambda>c. c \<noteq> CHR ''='') s))"

lemma c_string_param: "c_string s \<Longrightarrow> c_string (param_name s) \<and> c_string (param_value s)"
  unfolding param_name_def param_value_def c_string_def by (metis list.set_sel(2) set_dropWhileD set_takeWhileD tl_Nil)

lemma param_value_drop: "drop (length (param_name s) + 1) s = tl (dropWhile (\<lambda>c. c \<noteq> CHR ''='') s)"
  by (simp add: param_name_def dropWhile_eq_drop drop_Suc tl_drop)

lemma one_param:
  assumes "CHR ''='' \<in> set s" "c_string s" "length (param_name s) \<le> 100" "length (param_value s) \<le> 500" "url_decode (param_value s) = Some t" "length t \<le> 500"
  shows "t \<noteq> [] \<Longrightarrow> c_string t \<Longrightarrow> set_one_uri_param stale r s e a = request_add_param r (param_name s) t a \<bind> or_os_error e"
    and "t = [] \<Longrightarrow> set_one_uri_param stale r s e a = Some (False, r, if stale = EINVAL then set_http_error e 400 else set_os_error e (errno_num stale), a)"
proof -
  let ?n = "param_name s" and ?v = "param_value s"
  have c: "c_string ?n" "c_string ?v" using c_string_param [OF assms(2)] by simp_all
  have chr: "strchr s (CHR ''='') = Some (length ?n)" using assms(1) by (simp add: strchr_takeWhile param_name_def)
  have n: "get_uri_param_name s (fresh_bytes 101 a) 101 e = Some (True, ?n @ NUL # drop (Suc (length ?n)) (fresh_bytes 101 a), e)"
    using copy_word_spec(1) [of 101 "fresh_bytes 101 a" "CHR ''=''" s] assms(3) chr by (simp add: get_uri_param_name_def param_name_def)
  let ?d = "?v @ NUL # drop (Suc (length ?v)) (fresh_bytes 501 a)"
  have v: "get_uri_param_value s (fresh_bytes 501 a) 501 e = Some (True, ?d, e)"
    using copy_word_spec(1) [of 501 "fresh_bytes 501 a" "CHR ''&''" "tl (dropWhile (\<lambda>c. c \<noteq> CHR ''='') s)"] assms(4) chr param_value_drop [of s]
    by (simp add: get_uri_param_value_def param_value_def)
  have "length ?v < SIZE_MOD" "length t < 501" using assms(4,6) by (simp_all add: SIZE_MOD_def)
  then have dec: "rfc1738_decode (fresh_bytes 501 a) 501 ?d 0 (length ?v) = Some (length t, None, t @ NUL # drop (Suc (length t)) (fresh_bytes 501 a))"
    using decode_spec(1) [of ?d "[]" ?v _ 501 "fresh_bytes 501 a" t] assms(5) by simp
  have cd: "cstr_at ?d 0 = Some ?v" using cstr_at_0I [OF c(2)] .
  show "set_one_uri_param stale r s e a = request_add_param r ?n t a \<bind> or_os_error e" if "t \<noteq> []" "c_string t"
    using n v dec cd that cstr_at_0I [OF c(1)] cstr_at_0I [OF that(2)] by (simp add: set_one_uri_param_def decode_uri_param_value_def Let_def)
  show "set_one_uri_param stale r s e a = Some (False, r, if stale = EINVAL then set_http_error e 400 else set_os_error e (errno_num stale), a)" if "t = []"
    using n v dec cd that by (simp add: set_one_uri_param_def decode_uri_param_value_def Let_def)
qed

lemma new_params: "decisions a = [] \<Longrightarrow> \<exists>p. pair_new 20 a = Some (Some p, a) \<and> pair_map p Map.empty"
  using try_alloc_no_oom [of a 24] try_alloc_no_oom [of a 320]
  by (auto simp: pair_new_def pair_map_def pair_rep_def PTRDIFF_MAX_def intro!: exI [of _ "[]"])

lemma add_param:
  assumes "rq_param_map r m" "card (dom m) < 10 ^ 9" "n \<noteq> []" "length n < PTRDIFF_MAX" "c_string t" "length t < PTRDIFF_MAX" "decisions a = []"
  obtains ps where "request_add_param r n t a = Some (True, r\<lparr>rq_params := ps\<rparr>, a)" "rq_param_map (r\<lparr>rq_params := ps\<rparr>) (m(n \<mapsto> t))"
proof -
  obtain p where p: "(case rq_params r of Some ps \<Rightarrow> Some (Some ps, a) | None \<Rightarrow> pair_new 20 a) = Some (Some p, a)" "pair_map p m"
    using assms(1) new_params [OF assms(7)] by (cases "rq_params r") (auto simp: rq_param_map_def)
  have cap: "card (dom m) < SIZE_MOD div 48" "pair_ample (card (dom m)) a" using assms(2,7) by (auto simp: SIZE_MOD_def pair_ample_def PTRDIFF_MAX_def)
  obtain p' where "pair_set p n t a = Some (True, p', a)" "pair_map p' (m(n \<mapsto> t))"
    using pair_set_map [OF p(2) cap(1) assms(4-6), of a] cap(2) by auto
  then show thesis using that [of "Some p'"] p(1) assms(3) by (simp add: request_add_param_def rq_param_map_def)
qed

text \<open>The text of a list of parameters, with encoded values.\<close>

fun query_text :: "(string \<times> string) list \<Rightarrow> string" where
  "query_text [] = []"
| "query_text [(n, v)] = n @ ''='' @ url_encode v"
| "query_text ((n, v) # nvs) = n @ ''='' @ url_encode v @ ''&'' @ query_text nvs"

definition param_ok :: "string \<times> string \<Rightarrow> bool" where
  "param_ok nv \<longleftrightarrow> fst nv \<noteq> [] \<and> length (fst nv) \<le> 100 \<and> c_string (fst nv) \<and> CHR ''='' \<notin> set (fst nv) \<and> CHR ''&'' \<notin> set (fst nv) \<and>
     snd nv \<noteq> [] \<and> c_string (snd nv) \<and> length (url_encode (snd nv)) \<le> 500"

lemma url_encode_plain: "c \<in> set (url_encode s) \<Longrightarrow> plain_char c \<or> c = CHR ''%''"
proof -
  have "plain_char (hex_digit k)" if "k < 16" for k
  proof -
    have "code (hex_digit k) = (if k > 9 then k + 55 else k + 48)" using that by (simp add: hex_digit_def)
    then show ?thesis using that by (cases "k > 9") (auto simp: plain_char_def ctype_defs)
  qed
  then show "c \<in> set (url_encode s) \<Longrightarrow> plain_char c \<or> c = CHR ''%''"
    using code_less_256 by (auto simp: url_encode_def enc1_def less_mult_imp_div_less split: if_splits)
qed

lemma url_encode_seps: "CHR ''&'' \<notin> set (url_encode s)" "CHR '' '' \<notin> set (url_encode s)" "CHR ''='' \<notin> set (url_encode s)" "c_string (url_encode s)"
  using url_encode_plain [of "CHR ''&''" s] url_encode_plain [of "CHR '' ''" s] url_encode_plain [of "CHR ''=''" s] url_encode_plain [of NUL s]
  by (auto simp: c_string_def plain_char_def ctype_defs)

lemma length_url_encode: "length s \<le> length (url_encode s)"
  by (induction s) (auto simp: url_encode_def enc1_length)

lemma query_parts:
  assumes "param_ok (n, v)"
  shows "param_name (n @ ''='' @ url_encode v) = n" "param_value (n @ ''='' @ url_encode v) = url_encode v"
    "param_name (n @ ''='' @ url_encode v @ ''&'' @ t) = n" "param_value (n @ ''='' @ url_encode v @ ''&'' @ t) = url_encode v"
proof -
  have n: "takeWhile (\<lambda>c. c \<noteq> CHR ''='') (n @ x) = n @ takeWhile (\<lambda>c. c \<noteq> CHR ''='') x" "dropWhile (\<lambda>c. c \<noteq> CHR ''='') (n @ x) = dropWhile (\<lambda>c. c \<noteq> CHR ''='') x" for x
    using assms by (auto simp: param_ok_def intro: takeWhile_append2 dropWhile_append2)
  have v: "takeWhile (\<lambda>c. c \<noteq> CHR ''&'') (url_encode v @ x) = url_encode v @ takeWhile (\<lambda>c. c \<noteq> CHR ''&'') x" for x
    by (rule takeWhile_append2) (use url_encode_seps(1) [of v] in auto)
  have v0: "takeWhile (\<lambda>c. c \<noteq> CHR ''&'') (url_encode v) = url_encode v" using v [of "[]"] by simp
  show "param_name (n @ ''='' @ url_encode v) = n" "param_value (n @ ''='' @ url_encode v) = url_encode v"
    "param_name (n @ ''='' @ url_encode v @ ''&'' @ t) = n" "param_value (n @ ''='' @ url_encode v @ ''&'' @ t) = url_encode v"
    unfolding param_name_def param_value_def n append_Cons append_Nil by (simp_all add: v v0)
qed


lemma query_c_string: "\<forall>nv \<in> set nvs. param_ok nv \<Longrightarrow> c_string (query_text nvs)"
  by (induction nvs rule: query_text.induct) (auto simp: param_ok_def c_string_def dest: url_encode_seps(4) [unfolded c_string_def, THEN notE])

lemma query_params:
  assumes "nvs \<noteq> []" "\<forall>nv \<in> set nvs. param_ok nv" "rq_param_map r m" "finite (dom m)" "card (dom m) + length nvs \<le> 10 ^ 9" "decisions a = []"
  shows "\<exists>ps. set_uri_params stale r (query_text nvs) e a = Some (True, r\<lparr>rq_params := ps\<rparr>, e, a) \<and>
    rq_param_map (r\<lparr>rq_params := ps\<rparr>) (m ++ map_of (rev nvs))"
  using assms
proof (induction nvs arbitrary: r m rule: query_text.induct)
  case (2 n v)
  let ?s = "n @ ''='' @ url_encode v"
  have ok: "param_ok (n, v)" using 2 by simp
  have l: "length v \<le> 500" "length n < PTRDIFF_MAX" "length v < PTRDIFF_MAX" using length_url_encode [of v] ok by (auto simp: param_ok_def PTRDIFF_MAX_def)
  have cs: "c_string ?s" using ok url_encode_seps(4) by (simp add: param_ok_def)
  have c0: "card (dom m) < 10 ^ 9" "n \<noteq> []" "c_string v" using 2(5) ok by (simp_all add: param_ok_def)
  obtain ps where ps: "request_add_param r n v a = Some (True, r\<lparr>rq_params := ps\<rparr>, a)" "rq_param_map (r\<lparr>rq_params := ps\<rparr>) (m(n \<mapsto> v))"
    by (rule add_param [OF 2(3) c0(1,2) l(2) c0(3) l(3) 2(6)])
  have "set_one_uri_param stale r ?s e a = Some (True, r\<lparr>rq_params := ps\<rparr>, e, a)"
    using one_param(1) [OF _ cs, of v stale r e a] query_parts(1,2) [OF ok] ok l(1) ps(1) url_decode_encode by (simp add: param_ok_def or_os_error_def)
  moreover have "locate_next_uri_param ?s = None" "more_uri_params_available ?s = Some True"
    using ok url_encode_seps(1) [of v] by (simp_all add: locate_next_uri_param_def more_uri_params_available_def strchr_takeWhile param_ok_def)
  ultimately have "set_uri_params stale r ?s e a = Some (True, r\<lparr>rq_params := ps\<rparr>, e, a)" by (subst set_uri_params.simps) simp
  moreover have "m ++ map_of (rev [(n, v)]) = m(n \<mapsto> v)" by (auto simp: map_add_def fun_eq_iff)
  ultimately show ?case using ps(2) unfolding query_text.simps by metis
next
  case (3 n v nv nvs)
  let ?q = "query_text (nv # nvs)" let ?s = "n @ ''='' @ url_encode v @ ''&'' @ ?q"
  have ok: "param_ok (n, v)" using 3 by simp
  have l: "length v \<le> 500" "length n < PTRDIFF_MAX" "length v < PTRDIFF_MAX" using length_url_encode [of v] ok by (auto simp: param_ok_def PTRDIFF_MAX_def)
  have "c_string ?q" using query_c_string [of "nv # nvs"] 3(3) by simp
  then have cs: "c_string ?s" using ok url_encode_seps(4) by (simp add: param_ok_def)
  have c0: "card (dom m) < 10 ^ 9" "n \<noteq> []" "c_string v" using 3(6) ok by (simp_all add: param_ok_def)
  obtain ps where ps: "request_add_param r n v a = Some (True, r\<lparr>rq_params := ps\<rparr>, a)" "rq_param_map (r\<lparr>rq_params := ps\<rparr>) (m(n \<mapsto> v))"
    by (rule add_param [OF 3(4) c0(1,2) l(2) c0(3) l(3) 3(7)])
  have one: "set_one_uri_param stale r ?s e a = Some (True, r\<lparr>rq_params := ps\<rparr>, e, a)"
    using one_param(1) [OF _ cs, of v stale r e a] query_parts(3,4) [OF ok] ok l(1) ps(1) url_decode_encode by (simp add: param_ok_def or_os_error_def)
  have pre: "takeWhile (\<lambda>x. x \<noteq> CHR ''&'') ?s = n @ ''='' @ url_encode v"
  proof -
    have "takeWhile (\<lambda>x. x \<noteq> CHR ''&'') ((n @ ''='' @ url_encode v) @ ''&'' @ ?q) = (n @ ''='' @ url_encode v) @ takeWhile (\<lambda>x. x \<noteq> CHR ''&'') (''&'' @ ?q)"
      by (rule takeWhile_append2) (use ok url_encode_seps(1) [of v] in \<open>auto simp: param_ok_def\<close>)
    then show ?thesis by simp
  qed
  have next_q: "locate_next_uri_param ?s = Some ?q"
    unfolding locate_next_uri_param_def strchr_takeWhile pre by simp
  have more: "more_uri_params_available ?s = Some True" by (simp add: more_uri_params_available_def strchr_takeWhile)
  let ?r = "r\<lparr>rq_params := ps\<rparr>" and ?m = "m(n \<mapsto> v)"
  have c: "finite (dom ?m)" "card (dom ?m) + length (nv # nvs) \<le> 10 ^ 9" using 3(5,6) card_insert_le_m1 [of "Suc (card (dom m))" "dom m" n]
    by (auto simp: card_insert_if)
  have okq: "\<forall>x \<in> set (nv # nvs). param_ok x" using 3(3) by simp
  obtain ps' where "set_uri_params stale ?r ?q e a = Some (True, ?r\<lparr>rq_params := ps'\<rparr>, e, a)" "rq_param_map (?r\<lparr>rq_params := ps'\<rparr>) (?m ++ map_of (rev (nv # nvs)))"
    using 3(1) [OF list.distinct(2) okq ps(2) c 3(7)] by blast
  moreover have "set_uri_params stale r ?s e a = set_uri_params stale ?r ?q e a"
    using one next_q more by (subst set_uri_params.simps) simp
  moreover have "?m ++ map_of (rev (nv # nvs)) = m ++ map_of (rev ((n, v) # nv # nvs))" by (auto simp: map_add_def fun_eq_iff split: option.splits)
  moreover have "?r\<lparr>rq_params := ps'\<rparr> = r\<lparr>rq_params := ps'\<rparr>" by simp
  ultimately show ?case unfolding query_text.simps by metis
qed simp


subsection \<open>The whole line\<close>

lemma word_length: "k < length (line_words s) \<Longrightarrow> length (line_words s ! k) \<le> length s"
proof -
  assume "k < length (line_words s)"
  then have "takeWhile (\<lambda>c. c \<noteq> CHR '' '') (skip_words k s) = line_words s ! k" using skip_words_nth by blast
  moreover obtain i where "skip_words k s = drop i s" using skip_words_suffix by blast
  ultimately show ?thesis using length_takeWhile_le [of "\<lambda>c. c \<noteq> CHR '' ''" "drop i s"] by simp
qed

lemma uri_step:
  assumes "c_string line" "length line < 2 ^ 31"
  shows "parse_request_uri stale line r e a = (
    if 10240 \<le> length line then Some (False, r, set_http_error e 414, a)
    else if length (line_words line) < 2 then Some (False, r, set_http_error e 400, a)
    else if CHR ''?'' \<in> set (line_words line ! 1) then set_uri_and_params stale r (line_words line ! 1) e a
    else request_set_uri r (line_words line ! 1) a \<bind> or_os_error e)"
proof -
  obtain ok d where g: "get_word_from_string line (fresh_bytes 10241 a) 10241 1 = Some (ok, d)"
    "ok \<longleftrightarrow> 1 < length (line_words line) \<and> length (line_words line ! 1) < 10241" "ok \<longrightarrow> cstr_at d 0 = Some (line_words line ! 1)"
    using get_word_spec [OF assms(2), of 10241 "fresh_bytes 10241 a" 1] assms(1) by auto
  show ?thesis
  proof (cases "10240 \<le> length line")
    case True
    then show ?thesis by (simp add: parse_request_uri_def)
  next
    case False
    then have "ok \<longleftrightarrow> \<not> length (line_words line) < 2" using g(2) word_length [of 1 line] by auto
    then show ?thesis using False g(1,3) by (auto simp: parse_request_uri_def uri_has_params_def strchr_takeWhile)
  qed
qed

text \<open>The status of an answer to a bad line, or the method, uri and version of a good one.\<close>

definition request_line_result :: "string \<Rightarrow> int + (http_method \<times> string \<times> http_version)" where
  "request_line_result line = (
     let ws = line_words line; tail = skip_words 2 line in
     if ws = [] \<or> 256 < length (ws ! 0) then Inl 400
     else if get_method (ws ! 0) = METHOD_UNKNOWN then Inl 501
     else if 10240 \<le> length line then Inl 414
     else if length ws < 2 then Inl 400
     else if tail = [] then Inr (get_method (ws ! 0), ws ! 1, VERSION_09)
     else if 20 < length tail then Inl 400
     else if get_version (ws ! 2) = VERSION_UNKNOWN then Inl 505
     else Inr (get_method (ws ! 0), ws ! 1, get_version (ws ! 2)))"

lemma rq_line_ok: "rq_ok r \<Longrightarrow> rq_ok (r\<lparr>rq_method := m\<rparr>)" "rq_ok r \<Longrightarrow> rq_ok (r\<lparr>rq_version := v\<rparr>)"
  by (simp_all add: rq_simps)

lemma uri_of_view: "rq_ok r \<Longrightarrow> request_get_uri r = Some (rq_view r ''uri'')"
  using rep_text [of "rq_uri r"] by (auto simp: request_get_uri_def rq_view_at rq_bits rq_ok_def rq_strings_ok_def cs_inv_def)

lemma get_uri_frame: "request_get_uri (r\<lparr>rq_version := v\<rparr>) = request_get_uri r" "request_get_uri (r\<lparr>rq_params := ps\<rparr>) = request_get_uri r"
  by (simp_all add: request_get_uri_def request_flag_is_set_def)

lemma set_uri_spec:
  assumes "rq_ok r" "c_string u" "length u \<le> PTRDIFF_MAX" "roomy (rq_uri r) 0 (length u) a"
  obtains s where "request_set_uri r u a = Some (True, request_set_flag (r\<lparr>rq_uri := s\<rparr>) REQUEST_URI_SET, a)"
    "rq_ok (request_set_flag (r\<lparr>rq_uri := s\<rparr>) REQUEST_URI_SET)" "request_get_uri (request_set_flag (r\<lparr>rq_uri := s\<rparr>) REQUEST_URI_SET) = Some (Some u)"
proof -
  obtain st s a' where s: "request_set_uri r u a = Some (st, if st then request_set_flag (r\<lparr>rq_uri := s\<rparr>) REQUEST_URI_SET else r\<lparr>rq_uri := s\<rparr>, a')"
    "cs_rep s (if st then u else [])" "rq_ok (request_set_flag (r\<lparr>rq_uri := s\<rparr>) REQUEST_URI_SET)" "roomy (rq_uri r) 0 (length u) a \<longrightarrow> st \<and> a' = a"
    by (rule rqu.setter_spec [OF assms(1-3), of a]) blast
  have "cs_str s = u" using s(2,4) assms(4) cs_rep_str by simp
  then have "request_get_uri (request_set_flag (r\<lparr>rq_uri := s\<rparr>) REQUEST_URI_SET) = Some (Some u)"
    using uri_of_view [OF s(3)] by (simp add: rq_view_at rq_set_bits)
  then show thesis using that [OF _ s(3)] s(1,4) assms(4) by simp
qed

lemma roomy_le: "roomy s 0 n a \<Longrightarrow> m \<le> n \<Longrightarrow> roomy s 0 m a"
  by (auto simp: roomy_def)


lemma line_step:
  assumes "rq_ok r" "c_string line" "length line < 2 ^ 31" "1 < length (line_words line) \<longrightarrow> CHR ''?'' \<notin> set (line_words line ! 1)"
    "roomy (rq_uri r) 0 (length line) a"
  shows "case request_line_result line of
      Inl st \<Rightarrow> \<exists>r'. parse_request_line stale line r e a = Some (False, r', set_http_error e st, a) \<and> rq_ok r'
    | Inr (m, u, v) \<Rightarrow> \<exists>r'. parse_request_line stale line r e a = Some (True, r', e, a) \<and> rq_ok r' \<and> rq_method r' = m \<and>
        request_get_uri r' = Some (Some u) \<and> rq_version r' = v \<and> rq_params r' = rq_params r \<and> rq_proxy_authorization r' = rq_proxy_authorization r \<and>
        rq_defered_read r' = rq_defered_read r"
proof -
  let ?ws = "line_words line" and ?tail = "skip_words 2 line"
  note M = method_step [OF assms(2,3), of r e a] and U = uri_step [OF assms(2,3), of stale] and V = version_step [OF assms(2,3)]
  show ?thesis
  proof (cases "?ws = [] \<or> 256 < length (?ws ! 0) \<or> get_method (?ws ! 0) = METHOD_UNKNOWN")
    case True
    then show ?thesis using M assms(1) by (auto simp: request_line_result_def Let_def parse_request_line_def)
  next
    case ok1: False
    let ?m = "get_method (?ws ! 0)" and ?r1 = "r\<lparr>rq_method := get_method (?ws ! 0)\<rparr>"
    have r1: "rq_ok ?r1" "parse_request_method line r e a = Some (True, ?r1, e, a)" using rq_line_ok(1) [OF assms(1)] M ok1 by auto
    show ?thesis
    proof (cases "10240 \<le> length line \<or> length ?ws < 2")
      case True
      then have "parse_request_line stale line r e a = Some (False, ?r1, set_http_error e (if 10240 \<le> length line then 414 else 400), a)"
        using r1(2) U by (auto simp: parse_request_line_def)
      then show ?thesis using True ok1 r1(1) by (auto simp: request_line_result_def Let_def)
    next
      case ok2: False
      let ?u = "?ws ! 1"
      have "length ?u \<le> length line" using word_length [of 1 line] ok2 by simp
      moreover have "c_string ?u"
      proof -
        have "takeWhile (\<lambda>c. c \<noteq> CHR '' '') (skip_words 1 line) = ?u" using skip_words_nth [of 1 line] ok2 by simp
        moreover obtain i where "skip_words 1 line = drop i line" using skip_words_suffix by blast
        ultimately show ?thesis using assms(2) unfolding c_string_def by (metis in_set_dropD set_takeWhileD)
      qed
      moreover have "roomy (rq_uri ?r1) 0 (length ?u) a" using roomy_le [OF assms(5)] \<open>length ?u \<le> length line\<close> by simp
      moreover have "length ?u \<le> PTRDIFF_MAX" using \<open>length ?u \<le> length line\<close> assms(3) by (simp add: PTRDIFF_MAX_def)
      ultimately obtain s where s: "request_set_uri ?r1 ?u a = Some (True, request_set_flag (?r1\<lparr>rq_uri := s\<rparr>) REQUEST_URI_SET, a)"
        "rq_ok (request_set_flag (?r1\<lparr>rq_uri := s\<rparr>) REQUEST_URI_SET)" "request_get_uri (request_set_flag (?r1\<lparr>rq_uri := s\<rparr>) REQUEST_URI_SET) = Some (Some ?u)"
        using set_uri_spec [OF r1(1)] by blast
      let ?r2 = "request_set_flag (?r1\<lparr>rq_uri := s\<rparr>) REQUEST_URI_SET"
      have u: "parse_request_uri stale line ?r1 e a = Some (True, ?r2, e, a)"
        using U [of ?r1 e a] ok2 assms(4) s(1) by (simp add: or_os_error_def)
      have run: "parse_request_line stale line r e a = parse_request_version line ?r2 e a" using r1(2) u by (simp add: parse_request_line_def)
      have get: "request_get_uri (?r2\<lparr>rq_version := v\<rparr>) = Some (Some ?u)" for v using s(3) get_uri_frame(1) by simp
      show ?thesis unfolding run using V [of ?r2 e a] ok1 ok2 s(2) get rq_line_ok(2) [OF s(2)]
        by (auto simp: request_line_result_def Let_def split: if_splits)
    qed
  qed
qed


lemma line_words_one: "u \<noteq> [] \<Longrightarrow> CHR '' '' \<notin> set u \<Longrightarrow> line_words u = [u]"
proof -
  assume u: "u \<noteq> []" "CHR '' '' \<notin> set u"
  then have "takeWhile (\<lambda>c. c \<noteq> CHR '' '') u = u" "dropWhile (\<lambda>c. c \<noteq> CHR '' '') u = []" by (auto simp: takeWhile_eq_all_conv dropWhile_eq_Nil_conv)
  moreover obtain x xs where "u = x # xs" using u(1) by (cases u) auto
  ultimately show "line_words u = [u]" using line_words.simps(2) [of x xs] by (simp only: dropWhile.simps(1) line_words.simps(1))
qed

lemma word_split:
  assumes "u \<noteq> []" "CHR '' '' \<notin> set u" "w \<noteq> []" "hd w \<noteq> CHR '' ''"
  shows "line_words (u @ CHR '' '' # w) = u # line_words w" "skip_words (Suc k) (u @ CHR '' '' # w) = skip_words k w"
proof -
  have t: "takeWhile (\<lambda>c. c \<noteq> CHR '' '') (u @ CHR '' '' # w) = u" "dropWhile (\<lambda>c. c \<noteq> CHR '' '') (u @ CHR '' '' # w) = CHR '' '' # w"
    using assms(2) by (auto simp: takeWhile_tail dropWhile_append3 intro: trans [OF takeWhile_append2] trans [OF dropWhile_append2])
  have d: "dropWhile (\<lambda>c. c = CHR '' '') (CHR '' '' # w) = w" using assms(3,4) by (cases w) auto
  obtain x xs where u: "u = x # xs" using assms(1) by (cases u) auto
  show "line_words (u @ CHR '' '' # w) = u # line_words w" using t d unfolding u append_Cons line_words.simps(2) by (simp only:)
  show "skip_words (Suc k) (u @ CHR '' '' # w) = skip_words k w" using t d by (simp only: skip_words.simps)
qed

lemma words3:
  assumes "u \<noteq> []" "CHR '' '' \<notin> set u" "w \<noteq> []" "CHR '' '' \<notin> set w" "v \<noteq> []" "CHR '' '' \<notin> set v"
  shows "line_words (u @ '' '' @ w @ '' '' @ v) = [u, w, v]" "skip_words 2 (u @ '' '' @ w @ '' '' @ v) = v"
proof -
  have "hd (w @ '' '' @ v) \<noteq> CHR '' ''" "hd v \<noteq> CHR '' ''" using assms by (cases w; cases v; auto)+
  then show "line_words (u @ '' '' @ w @ '' '' @ v) = [u, w, v]" "skip_words 2 (u @ '' '' @ w @ '' '' @ v) = v"
    using word_split [OF assms(1,2), of "w @ '' '' @ v"] word_split [OF assms(3,4), of v] line_words_one [OF assms(5,6)] assms(3,5)
    by (simp_all add: numeral_2_eq_2 del: skip_words.simps(2))
qed

lemma uri_params_step:
  assumes "rq_ok r" "rq_params r = None" "c_string path" "CHR ''?'' \<notin> set path" "length path < 256" "nvs \<noteq> []" "\<forall>nv \<in> set nvs. param_ok nv"
    "length nvs \<le> 10 ^ 9" "decisions a = []"
  obtains r' where "set_uri_and_params stale r (path @ ''?'' @ query_text nvs) e a = Some (True, r', e, a)" "rq_ok r'" "request_get_uri r' = Some (Some path)"
    "rq_param_map r' (map_of (rev nvs))" "rq_method r' = rq_method r"
proof -
  have rp: "cs_rep (rq_uri r) (cs_str (rq_uri r))" using assms(1) by (simp add: rq_ok_def rq_strings_ok_def cs_inv_def)
  have "roomy (rq_uri r) 0 (length path) a" using short_roomy [OF rp, of 0 "length path"] assms(5) by simp
  moreover have "length path \<le> PTRDIFF_MAX" using assms(5) by (simp add: PTRDIFF_MAX_def)
  ultimately obtain s where s: "request_set_uri r path a = Some (True, request_set_flag (r\<lparr>rq_uri := s\<rparr>) REQUEST_URI_SET, a)"
    "rq_ok (request_set_flag (r\<lparr>rq_uri := s\<rparr>) REQUEST_URI_SET)" "request_get_uri (request_set_flag (r\<lparr>rq_uri := s\<rparr>) REQUEST_URI_SET) = Some (Some path)"
    using set_uri_spec [OF assms(1,3)] by blast
  let ?r = "request_set_flag (r\<lparr>rq_uri := s\<rparr>) REQUEST_URI_SET" and ?q = "query_text nvs"
  have m: "rq_param_map ?r Map.empty" using assms(2) by (simp add: rq_param_map_def)
  obtain ps where ps: "set_uri_params stale ?r ?q e a = Some (True, ?r\<lparr>rq_params := ps\<rparr>, e, a)" "rq_param_map (?r\<lparr>rq_params := ps\<rparr>) (Map.empty ++ map_of (rev nvs))"
    using query_params [OF assms(6,7) m _ _ assms(9), of stale e] assms(8) by auto
  have t: "takeWhile (\<lambda>x. x \<noteq> CHR ''?'') (path @ ''?'' @ ?q) = path" using assms(4) by (auto simp: takeWhile_tail intro: trans [OF takeWhile_append2])
  have ch: "strchr (path @ ''?'' @ ?q) (CHR ''?'') = Some (length path)" unfolding strchr_takeWhile t by simp
  have ne: "?q \<noteq> []" using assms(6) by (cases nvs rule: query_text.cases) auto
  have run: "set_uri_and_params stale r (path @ ''?'' @ ?q) e a = Some (True, ?r\<lparr>rq_params := ps\<rparr>, e, a)"
    unfolding set_uri_and_params_def ch using s(1) ne ps(1) by simp
  have "rq_ok (?r\<lparr>rq_params := ps\<rparr>)" using s(2) ps(2) by (auto simp: rq_simps)
  then show thesis using that [OF run] s(3) get_uri_frame(2) ps(2) by simp
qed


subsection \<open>Every line keeps the invariant\<close>

lemma cstr_at_bound: "cstr_at buf 0 = Some s \<Longrightarrow> c_string s \<and> length s < length buf"
  by (erule cstr_at_0E) simp

lemma copy_word_length:
  assumes "copy_word src dest sep n = Some (ok, d)" "n \<le> length dest" "0 < n" "sep \<noteq> NUL"
  shows "length d = length dest"
proof (cases "length (takeWhile (\<lambda>c. c \<noteq> sep) src) < n")
  case True
  then show ?thesis using copy_word_spec(1) [OF assms(2-4), of src] assms(1,2) by auto
next
  case False
  then show ?thesis using copy_word_spec(2) [OF assms(2-4), of src] assms(1,2) by auto
qed

definition params_small :: "http_request \<Rightarrow> nat \<Rightarrow> bool" where
  "params_small r n \<longleftrightarrow> (\<exists>m. rq_param_map r m \<and> finite (dom m) \<and> card (dom m) \<le> n)"

lemma params_only:
  assumes "rq_ok r" "params_small (r\<lparr>rq_params := ps\<rparr>) k"
  shows "rq_ok (r\<lparr>rq_params := ps\<rparr>)"
  using assms by (auto simp: rq_simps params_small_def)

lemma add_param_ok:
  assumes "rq_ok r" "params_small r k" "k < 10 ^ 9" "length n < PTRDIFF_MAX" "c_string t" "length t < PTRDIFF_MAX" "request_add_param r n t a = Some (st, r', a')"
  shows "rq_ok r' \<and> params_small r' (k + 1) \<and> (\<exists>ps. r' = r\<lparr>rq_params := ps\<rparr>)"
proof -
  obtain m where m: "rq_param_map r m" "finite (dom m)" "card (dom m) \<le> k" using assms(2) by (auto simp: params_small_def)
  have same: "\<exists>ps. r = r\<lparr>rq_params := ps\<rparr>" by (intro exI [of _ "rq_params r"]) simp
  obtain p0 a0 where p0: "(case rq_params r of Some ps \<Rightarrow> Some (Some ps, a) | None \<Rightarrow> pair_new 20 a) = Some (p0, a0)"
    using assms(7) by (auto simp: request_add_param_def bind_eq_Some_conv split: if_splits)
  show ?thesis
  proof (cases p0)
    case None
    then have "r' = r" using assms(7) p0 by (auto simp: request_add_param_def split: if_splits)
    then show ?thesis using assms(1) m same by (auto simp: params_small_def)
  next
    case (Some p)
    have "pair_map p m"
    proof (cases "rq_params r")
      case None
      then have "m = Map.empty" "pair_new 20 a = Some (Some p, a0)" using m(1) p0 Some by (simp_all add: rq_param_map_def)
      then show ?thesis by (auto simp: pair_new_def pair_map_def pair_rep_def PTRDIFF_MAX_def split: prod.splits bool.splits intro!: exI [of _ "[]"])
    qed (use m(1) p0 Some in \<open>simp add: rq_param_map_def\<close>)
    moreover have "card (dom m) < SIZE_MOD div 48" using m(3) assms(3) by (simp add: SIZE_MOD_def)
    ultimately obtain st1 p1 a1 where s: "pair_set p n t a0 = Some (st1, p1, a1)" "pair_map p1 (if st1 then m(n \<mapsto> t) else m)"
      using pair_set_map [of p m n t a0] assms(4-6) by blast
    have r: "r' = r\<lparr>rq_params := Some p1\<rparr>" using assms(7) p0 Some s(1) by (auto simp: request_add_param_def split: if_splits)
    have "params_small r' (k + 1)" unfolding params_small_def
    proof (intro exI [of _ "if st1 then m(n \<mapsto> t) else m"] conjI)
      show "rq_param_map r' (if st1 then m(n \<mapsto> t) else m)" using r s(2) by (simp add: rq_param_map_def)
      show "finite (dom (if st1 then m(n \<mapsto> t) else m))" using m(2) by simp
      show "card (dom (if st1 then m(n \<mapsto> t) else m)) \<le> k + 1" using m(2,3) by (simp add: card_insert_if)
    qed
    then show ?thesis using params_only [OF assms(1)] r by blast
  qed
qed

lemma one_param_ok:
  assumes "rq_ok r" "params_small r k" "k < 10 ^ 9" "set_one_uri_param stale r s e a = Some (st, r', e', a')"
  shows "rq_ok r' \<and> params_small r' (k + 1) \<and> (\<exists>ps. r' = r\<lparr>rq_params := ps\<rparr>)"
proof -
  have same: "rq_ok r \<and> params_small r (k + 1) \<and> (\<exists>ps. r = r\<lparr>rq_params := ps\<rparr>)"
    using assms(1,2) by (auto simp: params_small_def intro!: exI [of _ "rq_params r"] intro: le_SucI)
  obtain ok1 nm e1 where n: "get_uri_param_name s (fresh_bytes 101 a) 101 e = Some (ok1, nm, e1)" using assms(4) by (auto simp: set_one_uri_param_def bind_eq_Some_conv)
  have ln: "length nm = 101" using n copy_word_length [of s "fresh_bytes 101 a" "CHR ''=''" 101]
    by (auto simp: get_uri_param_name_def bind_eq_Some_conv split: if_splits)
  show ?thesis
  proof (cases "r' = r")
    case False
    then have ok1 using assms(4) n by (cases ok1) (auto simp: set_one_uri_param_def)
    then obtain nt vl e2 ok2 where v: "get_uri_param_value s (fresh_bytes 501 a) 501 e1 = Some (ok2, vl, e2)" "ok2"
      using assms(4) n False by (auto simp: set_one_uri_param_def bind_eq_Some_conv split: if_splits)
    then obtain ok3 d e3 where d: "decode_uri_param_value stale (fresh_bytes 501 a) vl 501 e2 = Some (ok3, d, e3)" "ok3"
      using assms(4) n False \<open>ok1\<close> by (auto simp: set_one_uri_param_def bind_eq_Some_conv split: if_splits)
    have ld: "length d = 501"
    proof -
      obtain t rc er where t: "cstr_at vl 0 = Some t" "rfc1738_decode (fresh_bytes 501 a) 501 vl 0 (length t) = Some (rc, er, d)"
        using d(1) by (auto simp: decode_uri_param_value_def bind_eq_Some_conv Let_def split: if_splits)
      obtain rest where b: "vl = t @ NUL # rest" using t(1) by (rule cstr_at_0E)
      have "length vl = 501" using v copy_word_length [of _ "fresh_bytes 501 a" "CHR ''&''" 501]
        by (auto simp: get_uri_param_value_def bind_eq_Some_conv split: option.splits if_splits)
      then have "length t < SIZE_MOD" using b by (auto simp: SIZE_MOD_def)
      then show ?thesis using decode_spec [of vl "[]" t rest 501 "fresh_bytes 501 a"] b t(2)
        by (cases "\<exists>u. url_decode t = Some u \<and> length u < 501") auto
    qed
    obtain nt dt where c: "cstr_at nm 0 = Some nt" "cstr_at d 0 = Some dt" "(request_add_param r nt dt a \<bind> or_os_error e3) = Some (st, r', e', a')"
      using assms(4) n v d False \<open>ok1\<close> by (auto simp: set_one_uri_param_def bind_eq_Some_conv)
    then obtain st1 where "request_add_param r nt dt a = Some (st1, r', a')" by (auto simp: or_os_error_def bind_eq_Some_conv split: if_splits)
    moreover have "length nt < PTRDIFF_MAX" "c_string dt" "length dt < PTRDIFF_MAX" using cstr_at_bound [OF c(1)] cstr_at_bound [OF c(2)] ln ld by (auto simp: PTRDIFF_MAX_def)
    ultimately show ?thesis using add_param_ok [OF assms(1-3)] by blast
  qed (use same in simp)
qed

lemma uri_params_ok:
  assumes "rq_ok r" "params_small r k" "k + length s < 10 ^ 9" "set_uri_params stale r s e a = Some (st, r', e', a')"
  shows "rq_ok r' \<and> (\<exists>ps. r' = r\<lparr>rq_params := ps\<rparr>)"
  using assms
proof (induction s arbitrary: r k e a rule: length_induct)
  case (1 s)
  note eq = set_uri_params.simps [of stale r s e a]
  have same: "\<exists>ps. r = r\<lparr>rq_params := ps\<rparr>" by (intro exI [of _ "rq_params r"]) simp
  show ?case
  proof (cases "more_uri_params_available s = Some True")
    case False
    then have "r' = r" using 1(5) eq by (auto split: option.splits bool.splits)
    then show ?thesis using 1(2) same by blast
  next
    case True
    then obtain ok r1 e1 a1 where o: "set_one_uri_param stale r s e a = Some (ok, r1, e1, a1)" using 1(5) eq by (auto split: option.splits)
    have k: "k < 10 ^ 9" using 1(4) by simp
    have r1: "rq_ok r1" "params_small r1 (k + 1)" "\<exists>ps. r1 = r\<lparr>rq_params := ps\<rparr>" using one_param_ok [OF 1(2,3) k o] by blast+
    show ?thesis
    proof (cases "ok \<and> locate_next_uri_param s \<noteq> None")
      case False
      then have "r' = r1" using 1(5) eq True o by (auto split: option.splits if_splits)
      then show ?thesis using r1 by blast
    next
      case next_s: True
      then obtain t where t: "locate_next_uri_param s = Some t" by blast
      then have l: "length t < length s" by (auto simp: locate_next_uri_param_def split: option.splits dest: strchr_Some)
      then have "k + 1 + length t < 10 ^ 9" using 1(4) by simp
      moreover have "set_uri_params stale r1 t e1 a1 = Some (st, r', e', a')" using 1(5) eq True o next_s t by simp
      ultimately have "rq_ok r' \<and> (\<exists>ps. r' = r1\<lparr>rq_params := ps\<rparr>)" using 1(1) l r1(1,2) by blast
      then show ?thesis using r1(3) by auto
    qed
  qed
qed

definition line_frame :: "http_request \<Rightarrow> http_request \<Rightarrow> bool" where
  "line_frame r r' \<longleftrightarrow> rq_proxy_authorization r' = rq_proxy_authorization r \<and> rq_defered_read r' = rq_defered_read r \<and> rq_entity_buf r' = rq_entity_buf r"

lemma set_uri_ok:
  assumes "rq_ok r" "c_string u" "length u \<le> PTRDIFF_MAX" "request_set_uri r u a = Some (st, r', a')"
  shows "rq_ok r' \<and> line_frame r r' \<and> rq_params r' = rq_params r"
proof -
  obtain st1 s a1 where "request_set_uri r u a = Some (st1, if st1 then request_set_flag (r\<lparr>rq_uri := s\<rparr>) REQUEST_URI_SET else r\<lparr>rq_uri := s\<rparr>, a1)"
    "rq_ok (r\<lparr>rq_uri := s\<rparr>)" "rq_ok (request_set_flag (r\<lparr>rq_uri := s\<rparr>) REQUEST_URI_SET)"
    by (rule rqu.setter_spec [OF assms(1-3), of a]) blast
  then show ?thesis using assms(4) by (cases st1) (auto simp: line_frame_def)
qed

lemma uri_line_ok:
  assumes "rq_ok r" "rq_params r = None" "c_string line" "length line < 2 ^ 31" "parse_request_uri stale line r e a = Some (st, r', e', a')"
  shows "rq_ok r' \<and> line_frame r r'"
proof -
  let ?u = "line_words line ! 1"
  consider "r' = r" | "\<not> 10240 \<le> length line" "\<not> length (line_words line) < 2" using assms(5) unfolding uri_step [OF assms(3,4)] by (auto split: if_splits)
  then show ?thesis
  proof cases
    case 2
    have c: "c_string ?u"
    proof -
      have "takeWhile (\<lambda>c. c \<noteq> CHR '' '') (skip_words 1 line) = ?u" using skip_words_nth [of 1 line] 2 by simp
      moreover obtain i where "skip_words 1 line = drop i line" using skip_words_suffix by blast
      ultimately show ?thesis using assms(3) unfolding c_string_def by (metis in_set_dropD set_takeWhileD)
    qed
    have l: "length ?u < 10240" using word_length [of 1 line] 2 by simp
    show ?thesis
    proof (cases "CHR ''?'' \<in> set ?u")
      case False
      then obtain st1 where "request_set_uri r ?u a = Some (st1, r', a')" using assms(5) 2 unfolding uri_step [OF assms(3,4)]
        by (auto simp: or_os_error_def bind_eq_Some_conv split: if_splits)
      then show ?thesis using set_uri_ok [OF assms(1) c] l by (auto simp: PTRDIFF_MAX_def)
    next
      case True
      then have P: "set_uri_and_params stale r ?u e a = Some (st, r', e', a')" using assms(5) 2 unfolding uri_step [OF assms(3,4)] by simp
      obtain i where i: "strchr ?u (CHR ''?'') = Some i" using True by (simp add: strchr_takeWhile)
      then obtain st1 r1 a1 where s: "request_set_uri r (take i ?u) a = Some (st1, r1, a1)" using P by (auto simp: set_uri_and_params_def bind_eq_Some_conv)
      have "length (take i ?u) \<le> PTRDIFF_MAX" using l by (simp add: PTRDIFF_MAX_def)
      from set_uri_ok [OF assms(1) c_string_take [OF c] this s] have r1: "rq_ok r1" "line_frame r r1" "rq_params r1 = None" using assms(2) by auto
      show ?thesis
      proof (cases "r' = r1")
        case False
        then have "set_uri_params stale r1 (drop (i + 1) ?u) e a1 = Some (st, r', e', a')" using P i s by (auto simp: set_uri_and_params_def Let_def split: if_splits)
        moreover have "params_small r1 0" using r1(3) by (simp add: params_small_def rq_param_map_def)
        moreover have "0 + length (drop (i + 1) ?u) < 10 ^ 9" using l by simp
        ultimately have "rq_ok r' \<and> (\<exists>ps. r' = r1\<lparr>rq_params := ps\<rparr>)" using uri_params_ok [OF r1(1)] by blast
        then show ?thesis using r1(2) by (auto simp: line_frame_def)
      qed (use r1 in simp)
    qed
  qed (use assms(1) in \<open>simp add: line_frame_def\<close>)
qed

lemma request_line_ok:
  assumes "rq_ok r" "rq_params r = None" "c_string line" "length line < 2 ^ 31" "parse_request_line stale line r e a = Some (st, r', e', a')"
  shows "rq_ok r' \<and> line_frame r r'"
proof -
  obtain ok1 r1 e1 a1 where m: "parse_request_method line r e a = Some (ok1, r1, e1, a1)" using assms(5) by (auto simp: parse_request_line_def bind_eq_Some_conv)
  have r1: "rq_ok r1" "line_frame r r1" "rq_params r1 = None" using m rq_line_ok(1) [OF assms(1)] assms(1,2) unfolding method_step [OF assms(3,4)]
    by (auto simp: line_frame_def split: if_splits)
  show ?thesis
  proof (cases ok1)
    case False
    then show ?thesis using assms(5) m r1 by (simp add: parse_request_line_def)
  next
    case True
    then obtain ok2 r2 e2 a2 where u: "parse_request_uri stale line r1 e1 a1 = Some (ok2, r2, e2, a2)" using assms(5) m by (auto simp: parse_request_line_def bind_eq_Some_conv)
    have r2: "rq_ok r2" "line_frame r r2" using uri_line_ok [OF r1(1,3) assms(3,4) u] r1(2) by (auto simp: line_frame_def)
    show ?thesis
    proof (cases ok2)
      case False
      then show ?thesis using assms(5) m u True r2 by (simp add: parse_request_line_def)
    next
      case ok2: True
      then have "parse_request_version line r2 e2 a2 = Some (st, r', e', a')" using assms(5) m u True by (simp add: parse_request_line_def)
      then show ?thesis using rq_line_ok(2) [OF r2(1)] r2 unfolding version_step [OF assms(3,4)] by (auto simp: line_frame_def split: if_splits)
    qed
  qed
qed

subsection \<open>Properties\<close>

text \<open>
  C10. The request line. For a line whose uri has no question mark, and with memory for it, the parser returns
  the method, the uri and the version that the words of the line spell, HTTP 0.9 when there are two words, or fails with
  the status that says what is wrong: 400 for a missing or overlong word, 501 for an unknown method, 414 for a line of
  10240 characters or more, 505 for an unknown version. It never faults, and the request stays well formed.
\<close>
theorem request_line_correct:
  assumes "rq_ok r" "c_string line" "length line < 2 ^ 31" "1 < length (line_words line) \<longrightarrow> CHR ''?'' \<notin> set (line_words line ! 1)"
    "roomy (rq_uri r) 0 (length line) a"
  shows "case request_line_result line of
      Inl st \<Rightarrow> \<exists>r'. parse_request_line stale line r e a = Some (failure, r', set_http_error e st, a) \<and> rq_ok r'
    | Inr (m, u, v) \<Rightarrow> \<exists>r'. parse_request_line stale line r e a = Some (success, r', e, a) \<and> rq_ok r' \<and> request_get_method r' = m \<and>
        request_get_uri r' = Some (Some u) \<and> request_get_version r' = v \<and> rq_params r' = rq_params r"
proof (cases "request_line_result line")
  case (Inl st)
  then show ?thesis using line_step [OF assms, of stale e] by simp
next
  case (Inr x)
  then show ?thesis using line_step [OF assms, of stale e] by (cases x) (auto simp: request_get_method_def request_get_version_def)
qed

theorem request_line_correct_witness:
  "\<exists>r'. parse_request_line E0 ''GET /index.html HTTP/1.1'' sample_rq error_new no_oom = Some (success, r', error_new, no_oom) \<and> rq_ok r' \<and>
     request_get_method r' = METHOD_GET \<and> request_get_uri r' = Some (Some ''/index.html'') \<and> request_get_version r' = VERSION_11"
proof -
  let ?l = "''GET /index.html HTTP/1.1''"
  have w: "line_words ?l = [''GET'', ''/index.html'', ''HTTP/1.1'']" "skip_words 2 ?l = ''HTTP/1.1''" by code_simp+
  have r: "request_line_result ?l = Inr (METHOD_GET, ''/index.html'', VERSION_11)"
    unfolding request_line_result_def w Let_def by (simp add: get_method_def get_version_def)
  have "roomy (rq_uri sample_rq) 0 (length ?l) no_oom" by (simp add: roomy_def sample_rq_def cs_of_def)
  moreover have "c_string ?l" "length ?l < 2 ^ 31" "1 < length (line_words ?l) \<longrightarrow> CHR ''?'' \<notin> set (line_words ?l ! 1)" unfolding w by simp_all
  ultimately show ?thesis using request_line_correct [OF sample_rq_ok, of ?l no_oom E0 error_new] r by auto
qed

text \<open>
  C18. Parameters of the uri, a round trip. When the uri of a request line carries a list of parameters, each a name without
  separators and the encoded form of a nonempty value, the parser splits the uri at the question mark and stores every
  parameter decoded: afterwards a name has the value that came last for it in the list, and no other name has one.
\<close>
theorem request_params_roundtrip:
  assumes "rq_ok r" "rq_params r = None" "nvs \<noteq> []" "\<forall>nv \<in> set nvs. param_ok nv \<and> CHR '' '' \<notin> set (fst nv)"
    "c_string path" "CHR ''?'' \<notin> set path" "CHR '' '' \<notin> set path" "length path < 256"
    "(mt, m) \<in> {(''GET'', METHOD_GET), (''HEAD'', METHOD_HEAD), (''POST'', METHOD_POST)}" "(vt, v) \<in> {(''HTTP/1.0'', VERSION_10), (''HTTP/1.1'', VERSION_11)}"
    "length (mt @ '' '' @ (path @ ''?'' @ query_text nvs) @ '' '' @ vt) < 10240" "length nvs \<le> 10 ^ 9" "decisions a = []"
  shows "\<exists>r'. parse_request_line stale (mt @ '' '' @ (path @ ''?'' @ query_text nvs) @ '' '' @ vt) r e a = Some (success, r', e, a) \<and> rq_ok r' \<and>
    request_get_method r' = m \<and> request_get_uri r' = Some (Some path) \<and> request_get_version r' = v \<and>
    (\<forall>n. request_get_parameter_value r' n = Some (map_of (rev nvs) n))"
proof -
  let ?u = "path @ ''?'' @ query_text nvs" let ?l = "mt @ '' '' @ ?u @ '' '' @ vt"
  have pk: "\<forall>nv \<in> set nvs. param_ok nv" using assms(4) by simp
  have qs: "CHR '' '' \<notin> set (query_text nvs)"
    using assms(4) by (induction nvs rule: query_text.induct) (auto simp: url_encode_seps(2))
  have mv: "mt \<noteq> []" "CHR '' '' \<notin> set mt" "vt \<noteq> []" "CHR '' '' \<notin> set vt" "get_method mt = m" "m \<noteq> METHOD_UNKNOWN" "get_version vt = v" "v \<noteq> VERSION_UNKNOWN"
    "length mt \<le> 256" "length vt \<le> 20" "c_string mt" "c_string vt" using assms(9,10) by (auto simp: get_method_def get_version_def)
  have w: "line_words ?l = [mt, ?u, vt]" "skip_words 2 ?l = vt" using words3 [of mt ?u vt] mv assms(7) qs by simp_all
  have "c_string ?l" using mv(11,12) assms(5) query_c_string [OF pk] by simp
  moreover have "length ?l < 2 ^ 31" using assms(11) by (rule less_trans) simp
  ultimately have l: "c_string ?l" "length ?l < 2 ^ 31" by blast+
  let ?r1 = "r\<lparr>rq_method := m\<rparr>"
  have M: "parse_request_method ?l r e a = Some (True, ?r1, e, a)" unfolding method_step [OF l] w using mv(5,6,9) by simp
  obtain r2 where r2: "set_uri_and_params stale ?r1 ?u e a = Some (True, r2, e, a)" "rq_ok r2" "request_get_uri r2 = Some (Some path)"
    "rq_param_map r2 (map_of (rev nvs))" "rq_method r2 = rq_method ?r1"
    by (rule uri_params_step [OF rq_line_ok(1) [OF assms(1), of m] _ assms(5,6,8,3) pk assms(12,13), of stale e]) (use assms(2) in simp)
  have U: "parse_request_uri stale ?l ?r1 e a = Some (True, r2, e, a)" unfolding uri_step [OF l] w using r2(1) assms(11) by simp
  have V: "parse_request_version ?l r2 e a = Some (True, r2\<lparr>rq_version := v\<rparr>, e, a)" unfolding version_step [OF l] w using mv(3,7,8,10) by simp
  have run: "parse_request_line stale ?l r e a = Some (True, r2\<lparr>rq_version := v\<rparr>, e, a)"
    unfolding parse_request_line_def M by (simp only: bind.bind_lunit prod.case not_True_eq_False if_False U V)
  have "request_get_parameter_value (r2\<lparr>rq_version := v\<rparr>) n = Some (map_of (rev nvs) n)" for n
  proof (cases "rq_params r2")
    case None
    then have "map_of (rev nvs) = Map.empty" using r2(4) by (simp add: rq_param_map_def)
    then show ?thesis using assms(3) by (metis map_of_eq_empty_iff rev_is_Nil_conv)
  next
    case (Some p)
    then have "pair_map p (map_of (rev nvs))" using r2(4) by (simp add: rq_param_map_def)
    then show ?thesis using Some pair_get_spec by (auto simp: request_get_parameter_value_def pair_map_def)
  qed
  then show ?thesis using run r2(3,5) rq_line_ok(2) [OF r2(2), of v] get_uri_frame(1) by (simp add: request_get_method_def request_get_version_def)
qed

theorem request_params_roundtrip_witness:
  "\<exists>r'. parse_request_line E0 (''GET '' @ ''/a?x=1&y=a%20b'' @ '' HTTP/1.0'') sample_rq error_new no_oom = Some (success, r', error_new, no_oom) \<and>
     request_get_uri r' = Some (Some ''/a'') \<and> request_get_parameter_value r' ''y'' = Some (Some ''a b'')"
proof -
  let ?nvs = "[(''x'', ''1''), (''y'', ''a b'')]"
  have u: "url_encode ''1'' = ''1''" "url_encode ''a b'' = ''a%20b''" by code_simp+
  then have q: "query_text ?nvs = ''x=1&y=a%20b''" by simp
  have p: "\<forall>nv \<in> set ?nvs. param_ok nv \<and> CHR '' '' \<notin> set (fst nv)" using u by (simp add: param_ok_def)
  have n: "rq_params sample_rq = None" "decisions no_oom = []" by (simp_all add: sample_rq_def no_oom_def)
  have "map_of (rev ?nvs) ''y'' = Some ''a b''" by simp
  then show ?thesis using request_params_roundtrip [OF sample_rq_ok n(1) _ p, of "''/a''" "''GET''" METHOD_GET "''HTTP/1.0''" VERSION_10 no_oom E0 error_new] n(2)
    unfolding q by auto
qed


text \<open>
  Parameters that fault. A separator behind the last parameter and a parameter without a name make the parser fail an
  assertion, on input that only the client controls. A parameter with an empty value, which a comment says is supported, ends
  the request with whatever \<open>errno\<close> was left, and text without an equals sign is dropped without an error.
\<close>
theorem uri_param_faults:
  assumes "param_ok (n, v)" "rq_param_map r m" "card (dom m) < 10 ^ 9" "decisions a = []" "t \<noteq> []" "CHR ''='' \<notin> set t"
  shows "set_uri_params stale r (n @ ''='' @ url_encode v @ ''&'') e a = None \<and>
    set_uri_params stale r (''='' @ url_encode v) e a = None \<and>
    set_uri_params stale r (n @ ''='') e a =
      Some (failure, r, if stale = EINVAL then set_http_error e 400 else set_os_error e (errno_num stale), a) \<and>
    set_uri_params stale r t e a = Some (success, r, e, a)"
proof (intro conjI)
  let ?s = "n @ ''='' @ url_encode v @ ''&''"
  have l: "length v \<le> 500" "length n < PTRDIFF_MAX" "length v < PTRDIFF_MAX" using length_url_encode [of v] assms(1) by (auto simp: param_ok_def PTRDIFF_MAX_def)
  have c: "n \<noteq> []" "c_string v" "c_string n" "CHR ''&'' \<notin> set n" "length n \<le> 100" "CHR ''='' \<notin> set n" "v \<noteq> []" "length (url_encode v) \<le> 500"
    using assms(1) by (simp_all add: param_ok_def)
  obtain ps where ps: "request_add_param r n v a = Some (True, r\<lparr>rq_params := ps\<rparr>, a)"
    by (rule add_param [OF assms(2,3) c(1) l(2) c(2) l(3) assms(4)])
  have "set_one_uri_param stale r ?s e a = Some (True, r\<lparr>rq_params := ps\<rparr>, e, a)"
    using one_param(1) [of ?s v stale r e a] query_parts(3,4) [OF assms(1), of "[]"] c l(1) ps url_decode_encode url_encode_seps(4) [of v] by (simp add: or_os_error_def)
  moreover have "locate_next_uri_param ?s = Some []"
  proof -
    have "takeWhile (\<lambda>x. x \<noteq> CHR ''&'') ((n @ ''='' @ url_encode v) @ ''&'') = (n @ ''='' @ url_encode v) @ takeWhile (\<lambda>x. x \<noteq> CHR ''&'') ''&''"
      by (rule takeWhile_append2) (use c(4) url_encode_seps(1) [of v] in auto)
    then have "takeWhile (\<lambda>x. x \<noteq> CHR ''&'') ?s = n @ ''='' @ url_encode v" by simp
    then show ?thesis unfolding locate_next_uri_param_def strchr_takeWhile by simp
  qed
  moreover have "more_uri_params_available ?s = Some True" by (simp add: more_uri_params_available_def strchr_takeWhile)
  moreover have "set_uri_params stale (r\<lparr>rq_params := ps\<rparr>) [] e a = None" by (subst set_uri_params.simps) (simp add: more_uri_params_available_def)
  ultimately show "set_uri_params stale r ?s e a = None" by (subst set_uri_params.simps) simp
next
  let ?s = "''='' @ url_encode v"
  have v: "v \<noteq> []" "c_string v" "length v \<le> 500" "length (url_encode v) \<le> 500" using assms(1) length_url_encode [of v] by (auto simp: param_ok_def)
  have t: "takeWhile (\<lambda>c. c \<noteq> CHR ''&'') (url_encode v) = url_encode v" using url_encode_seps(1) [of v] by (auto simp: takeWhile_eq_all_conv)
  then have "param_name ?s = []" "param_value ?s = url_encode v" by (simp_all add: param_name_def param_value_def)
  then have "set_one_uri_param stale r ?s e a = None"
    using one_param(1) [of ?s v stale r e a] v url_decode_encode url_encode_seps(4) [of v] by (simp add: request_add_param_def)
  then show "set_uri_params stale r ?s e a = None" by (subst set_uri_params.simps) (simp add: more_uri_params_available_def strchr_takeWhile)
next
  let ?s = "n @ ''=''"
  have c: "c_string n" "length n \<le> 100" "CHR ''='' \<notin> set n" using assms(1) by (simp_all add: param_ok_def)
  have t: "takeWhile (\<lambda>c. c \<noteq> CHR ''='') ?s = n" "dropWhile (\<lambda>c. c \<noteq> CHR ''='') ?s = ''=''"
    using c(3) by (auto simp: takeWhile_tail dropWhile_append3 intro: trans [OF takeWhile_append2] trans [OF dropWhile_append2])
  then have "param_name ?s = n" "param_value ?s = []" by (simp_all add: param_name_def param_value_def)
  moreover have "url_decode [] = Some []" using url_decode_encode [of "[]"] by (simp add: url_encode_def)
  ultimately have "set_one_uri_param stale r ?s e a = Some (False, r, if stale = EINVAL then set_http_error e 400 else set_os_error e (errno_num stale), a)"
    using one_param(2) [of ?s "[]" stale r e a] c by simp
  then show "set_uri_params stale r ?s e a = Some (failure, r, if stale = EINVAL then set_http_error e 400 else set_os_error e (errno_num stale), a)"
    by (subst set_uri_params.simps) (simp add: more_uri_params_available_def strchr_takeWhile)
next
  show "set_uri_params stale r t e a = Some (success, r, e, a)"
    using assms(5,6) by (subst set_uri_params.simps) (simp add: more_uri_params_available_def strchr_takeWhile)
qed

theorem uri_param_faults_witness:
  "set_uri_params E0 sample_rq (''a'' @ ''='' @ url_encode ''1'' @ ''&'') error_new no_oom = None \<and>
   set_uri_params E0 sample_rq ''nothing'' error_new no_oom = Some (success, sample_rq, error_new, no_oom)"
proof -
  have "url_encode ''1'' = ''1''" by code_simp
  then have "param_ok (''a'', ''1'')" by (simp add: param_ok_def)
  moreover have "rq_param_map sample_rq Map.empty" "decisions no_oom = []" by (simp_all add: rq_param_map_def sample_rq_def no_oom_def)
  ultimately show ?thesis using uri_param_faults [of "''a''" "''1''" sample_rq Map.empty no_oom "''nothing''" E0 error_new] by simp
qed

end
