(* ===== verification/Request_Receive.thy ===== *)
theory Request_Receive
  imports Request_Cookies Request_Line
begin

section \<open>Receiving a request\<close>

text \<open>
  The composition: lines are read from the connection, the first is parsed as a request line and the others, up to an empty
  one, as header fields; a posted entity follows. The lemmas say that every request the peer can send leaves the request and the
  connection well formed, and what a well-formed text does when the network does not fail.
\<close>

subsection \<open>Header fields keep the invariants\<close>

text \<open>What the header fields leave alone: the request line, the entity, and the mode of reading.\<close>

definition rq_core where
  "rq_core r = (rq_method r, rq_version r, rq_defered_read r, rq_params r, rq_entity_buf r, rq_uri r, rq_proxy_authorization r)"

definition hdr_ok :: "http_request \<Rightarrow> (status_t \<times> http_request \<times> error \<times> allocator) option \<Rightarrow> bool" where
  "hdr_ok r res \<longleftrightarrow> (\<forall>st r' e' a'. res = Some (st, r', e', a') \<longrightarrow> rq_ok r' \<and> rq_core r' = rq_core r)"

lemma hdr_okD: "hdr_ok r (Some (st, r', e', a')) \<Longrightarrow> rq_ok r' \<and> rq_core r' = rq_core r"
  by (simp add: hdr_ok_def)

lemma field_hdr_ok:
  assumes "field_post rq_ok rq_view r n v e res" "\<And>st r' e' a'. res = Some (st, r', e', a') \<Longrightarrow> rq_core r' = rq_core r"
  shows "hdr_ok r res"
  using assms by (auto simp: field_post_def hdr_ok_def)

lemmas setter_defs = request_set_user_agent_def request_set_from_def request_set_authorization_def request_set_expect_def request_set_if_match_def
  request_set_if_none_match_def request_set_if_range_def request_set_range_def request_set_referer_def set_host_def
  request_set_accept_def request_set_accept_charset_def request_set_accept_encoding_def request_set_accept_language_def request_set_te_def

lemma setter_core:
  assumes "f \<in> {request_set_user_agent, request_set_from, request_set_authorization, request_set_expect, request_set_if_match, request_set_if_none_match,
      request_set_if_range, request_set_range, request_set_referer, set_host}" "(f r v a \<bind> or_os_error e) = Some (st, r', e', a')"
  shows "rq_core r' = rq_core r"
  using assms by (elim insertE emptyE) (auto simp: setter_defs rq_core_def Let_def or_os_error_def bind_eq_Some_conv split: if_splits)

lemma concat_core:
  assumes "f \<in> {request_set_accept, request_set_accept_charset, request_set_accept_encoding, request_set_accept_language, request_set_te}" "f r v e a = Some (st, r', e', a')"
  shows "rq_core r' = rq_core r"
  using assms by (elim insertE emptyE) (auto simp: setter_defs rq_core_def Let_def bind_eq_Some_conv split: if_splits)

lemma multivalued_core:
  assumes "\<And>r v e a st r' e' a'. f r v e a = Some (st, r', e', a') \<Longrightarrow> rq_core r' = rq_core r"
  shows "req_parse_multivalued_fields r v f e a = Some (st, r', e', a') \<Longrightarrow> rq_core r' = rq_core r"
proof (induction v arbitrary: r e a rule: length_induct)
  case (1 v)
  show ?case
  proof (cases "strchr v (CHR '','')")
    case None
    then show ?thesis using 1(2) assms by (simp add: req_parse_multivalued_fields.simps [of r v])
  next
    case (Some n)
    have l: "length (drop (n + 1) v) < length v" using strchr_Some [OF Some] by auto
    have IH: "req_parse_multivalued_fields x (drop (Suc n) v) f d b = Some (st, r', e', a') \<Longrightarrow> rq_core r' = rq_core x" for x d b
      using 1(1) l by (metis Suc_eq_plus1)
    show ?thesis
    proof (cases "n + 1 > 100")
      case True
      then show ?thesis using 1(2) IH Some by (simp add: req_parse_multivalued_fields.simps [of r v])
    next
      case False
      then obtain st1 r1 e1 a1 where f: "f r (take n v) e a = Some (st1, r1, e1, a1)"
        using 1(2) Some by (auto simp: req_parse_multivalued_fields.simps [of r v] split: option.splits)
      show ?thesis using 1(2) IH Some False f assms [OF f] by (cases st1) (simp_all add: req_parse_multivalued_fields.simps [of r v])
    qed
  qed
qed


lemma multi_hdr_ok:
  assumes "\<And>h v e a. rq_ok h \<Longrightarrow> c_string v \<Longrightarrow> length v \<le> PTRDIFF_MAX \<Longrightarrow> field_added rq_ok rq_view h name v e (f h v e a)"
    "f \<in> {request_set_accept, request_set_accept_charset, request_set_accept_encoding, request_set_accept_language, request_set_te}"
    "rq_ok r" "c_string v" "length v \<le> PTRDIFF_MAX"
  shows "hdr_ok r (req_parse_multivalued_fields r v f e a)"
proof -
  have "field_added rq_ok rq_view r name (kept_parts v) e (req_parse_multivalued_fields r v f e a)"
    by (rule multivalued_added) (use assms in auto)
  then show ?thesis using multivalued_core [of f, OF concat_core [OF assms(2)]] by (auto simp: hdr_ok_def field_added_def)
qed

lemma rq_flag_ok:
  assumes "rq_ok r"
  shows "rq_ok (request_set_flag (r\<lparr>rq_if_modified_since := i\<rparr>) REQUEST_IF_MODIFIED_SINCE_SET)"
    "rq_ok (request_set_flag (r\<lparr>rq_if_unmodified_since := i\<rparr>) REQUEST_IF_UNMODIFIED_SINCE_SET)"
    "rq_ok (request_set_flag (r\<lparr>rq_max_forwards := n\<rparr>) REQUEST_MAX_FORWARDS_SET)"
    "rq_ok (request_set_flag (r\<lparr>rq_mime_version_major := j, rq_mime_version_minor := i\<rparr>) REQUEST_MIME_VERSION_SET)"
  using assms by (simp_all add: rq_simps)

lemma rq_handler_ok:
  assumes "rq_ok r" "c_string v" "length v \<le> PTRDIFF_MAX" "(n, h) \<in> set (request_header_fields mktime)" "rq_proxy_authorization r = None"
  shows "hdr_ok r (h r v e a)"
proof -
  note f = rqg.handler_view [OF assms(1-3)] rqf.handler_view [OF assms(1-3)] rqa.handler_view [OF assms(1-3)] rqx.handler_view [OF assms(1-3)]
    rqm.handler_view [OF assms(1-3)] rqo.handler_view [OF assms(1-3)] rqi.handler_view [OF assms(1-3)] rqn.handler_view [OF assms(1-3)]
    rqr.handler_view [OF assms(1-3)] rqh.handler_view [OF assms(1-3)]
  have str: "hdr_ok r (g r v a \<bind> or_os_error e)" if "field_post rq_ok rq_view r k v e (g r v a \<bind> or_os_error e)"
    "g \<in> {request_set_user_agent, request_set_from, request_set_authorization, request_set_expect, request_set_if_match, request_set_if_none_match,
      request_set_if_range, request_set_range, request_set_referer, set_host}" for g k
    by (rule field_hdr_ok [OF that(1)]) (rule setter_core [OF that(2)])
  have cat: "hdr_ok r (parse_accept r v e a)" "hdr_ok r (parse_accept_charset r v e a)" "hdr_ok r (parse_accept_encoding r v e a)"
    "hdr_ok r (parse_accept_language r v e a)" "hdr_ok r (parse_te r v e a)"
    using multi_hdr_ok [OF rca.setter_added _ assms(1-3)] multi_hdr_ok [OF rcc.setter_added _ assms(1-3)] multi_hdr_ok [OF rce.setter_added _ assms(1-3)]
      multi_hdr_ok [OF rcl.setter_added _ assms(1-3)] multi_hdr_ok [OF rct.setter_added _ assms(1-3)]
    by (simp_all add: parse_accept_def parse_accept_charset_def parse_accept_encoding_def parse_accept_language_def parse_te_def)
  have sets: "hdr_ok r (parse_user_agent r v e a)" "hdr_ok r (parse_from r v e a)" "hdr_ok r (parse_authorization r v e a)" "hdr_ok r (parse_expect r v e a)"
    "hdr_ok r (parse_if_match r v e a)" "hdr_ok r (parse_if_none_match r v e a)" "hdr_ok r (parse_if_range r v e a)" "hdr_ok r (parse_range r v e a)"
    "hdr_ok r (parse_referer r v e a)"
    unfolding parse_user_agent_def parse_from_def parse_authorization_def parse_expect_def parse_if_match_def parse_if_none_match_def parse_if_range_def parse_range_def parse_referer_def
    by (rule str, rule f, simp)+
  have host: "hdr_ok r (parse_host r v e a)"
    using str [of "''host''" set_host, OF f(10)] host_once [of r v e a] by (cases "request_flag_is_set r REQUEST_HOST_SET") (auto simp: hdr_ok_def)
  have cookie: "hdr_ok r (parse_cookie r v e a)"
  proof -
    obtain ys where ys: "cookies_of r ys" using assms(1) by (auto simp: cookies_of_ok)
    have p: "cookie_post r ys v e a (if strstr v ''$Version'' \<noteq> None then new_cookie v else old_cookie v) (parse_cookie r v e a) \<or> parse_cookie r v e a = Some (True, r, e, a)"
      using new_cookie_post [OF ys assms(2,3)] old_cookie_post [OF ys assms(2,3)] by (simp add: parse_cookie_def)
    show ?thesis unfolding hdr_ok_def
    proof (intro allI impI)
      fix st r' e' a' assume R: "parse_cookie r v e a = Some (st, r', e', a')"
      from p R consider "r' = r" | l zs where "r' = r\<lparr>rq_cookies := l\<rparr>" "cookies_of r' zs" by (auto simp: cookie_post_def)
      then show "rq_ok r' \<and> rq_core r' = rq_core r" using assms(1) cookies_only by cases (auto simp: rq_core_def)
    qed
  qed
  have rest: "hdr_ok r (parse_if_modified_since mktime r v e a)" "hdr_ok r (parse_if_unmodified_since mktime r v e a)" "hdr_ok r (parse_max_forwards r v e a)"
    "hdr_ok r (parse_mime_version r v e a)" "hdr_ok r (parse_proxy_authorization r v e a)" "hdr_ok r (parse_upgrade_insecure_requests r v e a)"
    using assms(1,5) rq_flag_ok [OF assms(1)]
    by (auto simp: hdr_ok_def parse_if_modified_since_def parse_if_unmodified_since_def request_set_if_modified_since_def request_set_if_unmodified_since_def
        parse_max_forwards_def request_set_max_forwards_def parse_mime_version_def request_set_mime_version_def parse_proxy_authorization_def
        request_set_proxy_authorization_def parse_upgrade_insecure_requests_def rq_core_def Let_def bind_eq_Some_conv split: if_splits sum.splits)
  show ?thesis using assms(4) cat sets host cookie rest unfolding request_header_fields_def by auto
qed


lemma rq_gh_ok: "rq_ok r \<Longrightarrow> gh_ok gh \<Longrightarrow> rq_ok (r\<lparr>rq_general_header := gh\<rparr>)" "rq_ok r \<Longrightarrow> eh_ok eh \<Longrightarrow> rq_ok (r\<lparr>rq_entity_header := eh\<rparr>)"
  by (simp_all add: rq_simps)

subsection \<open>Header lines\<close>

text \<open>A connection field is a general header field, so the entry of the connection map is never reached.\<close>

lemma connection_is_general: "find_general_header name = - 1 \<Longrightarrow> map_of connection_map name = None"
  by (auto simp: find_general_header_def general_header_fields_def connection_map_def strcmp0_def)

lemma headerfield_conn:
  "parse_request_headerfield mktime c name v r e a = Some (st, c', r', e', a') \<Longrightarrow> c' = c"
  using connection_is_general [of name] by (auto simp: parse_request_headerfield_def Let_def bind_eq_Some_conv split: if_splits)

lemma headerfield_ok:
  assumes "rq_ok r" "rq_proxy_authorization r = None" "c_string v" "length v \<le> PTRDIFF_MAX"
    "parse_request_headerfield mktime c name v r e a = Some (st, c', r', e', a')"
  shows "rq_ok r' \<and> rq_core r' = rq_core r"
proof -
  have gh: "gh_ok (rq_general_header r)" "eh_ok (rq_entity_header r)" using assms(1) by (simp_all add: rq_ok_def)
  consider "find_general_header name \<noteq> - 1" | "find_general_header name = - 1" "find_entity_header name \<noteq> - 1"
    | "find_general_header name = - 1" "find_entity_header name = - 1" "find_request_header name \<noteq> - 1"
    | "find_general_header name = - 1" "find_entity_header name = - 1" "find_request_header name = - 1" by blast
  then show ?thesis
  proof cases
    case 1
    then obtain gh' where "parse_general_header mktime (find_general_header name) (rq_general_header r) v e a = Some (st, gh', e', a')" "r' = r\<lparr>rq_general_header := gh'\<rparr>"
      using assms(5) by (auto simp: parse_request_headerfield_def Let_def bind_eq_Some_conv)
    then show ?thesis using gh_keeps_ok [OF gh(1) assms(3,4)] rq_gh_ok(1) [OF assms(1)] by (auto simp: rq_core_def)
  next
    case 2
    then obtain eh' where "parse_entity_header mktime (find_entity_header name) (rq_entity_header r) v e a = Some (st, eh', e', a')" "r' = r\<lparr>rq_entity_header := eh'\<rparr>"
      using assms(5) by (auto simp: parse_request_headerfield_def Let_def bind_eq_Some_conv)
    then show ?thesis using eh_keeps_ok [OF gh(2) assms(3,4)] rq_gh_ok(2) [OF assms(1)] by (auto simp: rq_core_def)
  next
    case 3
    then have P: "parse_request_header mktime (find_request_header name) r v e a = Some (st, r', e', a')"
      using assms(5) connection_is_general [OF 3(1)] by (auto simp: parse_request_headerfield_def Let_def bind_eq_Some_conv)
    obtain n h where "(n, h) \<in> set (request_header_fields mktime)" "h r v e a = Some (st, r', e', a')"
      by (rule table_entry [of "find_request_header name" "request_header_fields mktime"]) (use P in \<open>auto simp: parse_request_header_def split: if_splits\<close>)
    then show ?thesis using rq_handler_ok [OF assms(1,3,4) _ assms(2), of n h mktime e a] by (auto simp: hdr_ok_def)
  next
    case 4
    then show ?thesis using assms(1,5) connection_is_general [OF 4(1)] by (simp add: parse_request_headerfield_def)
  qed
qed

lemma one_field_step:
  assumes "c_string line"
  shows "parse_one_field mktime c r line e a =
    (if CHR '':'' \<in> set line \<and> length (field_name line) < 64 \<and> length (field_value line) \<le> 8192
     then parse_request_headerfield mktime c (map tolower (field_name line)) (field_value line) r e a
     else Some (False, c, r, set_http_error e 400, a))"
proof -
  obtain ok d where n: "get_field_name line (fresh_bytes 65 a) 65 = Some (ok, d)" "ok \<longleftrightarrow> CHR '':'' \<in> set line \<and> length (field_name line) + 1 < 65"
    "ok \<longrightarrow> cstr_at d 0 = Some (field_name line)"
    using get_field_name_spec [of 65 "fresh_bytes 65 a" line] assms by (auto simp: fresh_bytes_def)
  obtain ok2 d2 where v: "get_field_value line (fresh_bytes 8193 a) 8193 = Some (ok2, d2)" "ok2 \<longleftrightarrow> CHR '':'' \<in> set line \<and> length (field_value line) < 8193"
    "ok2 \<longrightarrow> cstr_at d2 0 = Some (field_value line)"
    using get_field_value_spec [of 8193 "fresh_bytes 8193 a" line] assms by (auto simp: fresh_bytes_def)
  show ?thesis
  proof (cases "ok \<and> ok2")
    case True
    then obtain d3 where "fs_lower d = Some d3" "cstr_at d3 0 = Some (map tolower (field_name line))" using fs_lower_spec n(3) by blast
    then show ?thesis using n v True by (simp add: parse_one_field_def)
  next
    case False
    then show ?thesis using n v by (cases ok) (auto simp: parse_one_field_def)
  qed
qed


lemma line_text:
  assumes "take (length ln + 1) buf = ln @ [NUL]"
  shows "cstr_at buf 0 = Some (takeWhile (\<lambda>c. c \<noteq> NUL) ln)"
proof -
  have "buf = (ln @ [NUL]) @ drop (length ln + 1) buf" using assms by (metis append_take_drop_id)
  then obtain rest where b: "buf = ln @ NUL # rest" by (metis append.assoc append_Cons append_Nil)
  have "takeWhile (\<lambda>c. c \<noteq> NUL) (ln @ NUL # rest) = takeWhile (\<lambda>c. c \<noteq> NUL) ln"
    by (induction ln) auto
  then show ?thesis using b by (simp add: cstr_at_def)
qed

lemma read_line_spec:
  assumes "conn_ok c" "n \<le> length buf"
  obtains ok buf' c' e' where "read_line c buf n e = Some (ok, buf', c', e')" "read_frame c c'"
    "ok \<Longrightarrow> \<exists>ln. length ln < n \<and> CHR 0x0D \<notin> set ln \<and> in_stream c = ln @ crlf @ in_stream c' \<and> e' = e \<and> cstr_at buf' 0 = Some (takeWhile (\<lambda>c. c \<noteq> NUL) ln)"
    "\<And>ln rest. quiet c \<Longrightarrow> in_stream c = ln @ crlf @ rest \<Longrightarrow> CHR 0x0D \<notin> set ln \<Longrightarrow> length ln < n \<Longrightarrow> ok"
proof -
  have "0 + n \<le> length buf" using assms(2) by simp
  from read_line_loop_spec [OF assms(1) this, of e] obtain ok d c' e' where L: "read_line c buf n e = Some (ok, d, c', e')" "read_frame c c'"
    "ok \<longrightarrow> (\<exists>ln. length ln < n \<and> CHR 0x0D \<notin> set ln \<and> in_stream c = ln @ crlf @ in_stream c' \<and> e' = e \<and>
       take 0 d = take 0 buf \<and> take (length ln + 1) (drop 0 d) = ln @ [NUL])"
    "quiet c \<and> (\<exists>ln rest. in_stream c = ln @ crlf @ rest \<and> CHR 0x0D \<notin> set ln \<and> length ln < n) \<longrightarrow> ok"
    unfolding read_line_def by blast
  show thesis
  proof (rule that [OF L(1,2)])
    assume ok
    then obtain ln where ln: "length ln < n" "CHR 0x0D \<notin> set ln" "in_stream c = ln @ crlf @ in_stream c'" "e' = e" "take (length ln + 1) d = ln @ [NUL]"
      using L(3) by auto
    show "\<exists>ln. length ln < n \<and> CHR 0x0D \<notin> set ln \<and> in_stream c = ln @ crlf @ in_stream c' \<and> e' = e \<and> cstr_at d 0 = Some (takeWhile (\<lambda>c. c \<noteq> NUL) ln)"
      using ln(1-4) line_text [OF ln(5)] by blast
  qed (use L(4) in blast)
qed

lemma c_string_line: "c_string (takeWhile (\<lambda>c. c \<noteq> NUL) ln)"
  unfolding c_string_def using set_takeWhileD [of NUL] by blast

lemma one_field_conn: "c_string line \<Longrightarrow> parse_one_field mktime c r line e a = Some (st, c', r', e', a') \<Longrightarrow> c' = c"
  by (auto simp: one_field_step split: if_splits dest: headerfield_conn)

text \<open>One round: a line is read, and the connection behind it is the one the next round starts from.\<close>

lemma header_round:
  assumes "conn_ok c"
  obtains ok line c1 e1 where "\<And>m. header_loop (Suc m) mktime c r e a = (if \<not> ok then Some (False, c1, r, e1, a) else if line = [] then Some (True, c1, r, e, a)
      else do { (st, c', r', e', a') \<leftarrow> parse_one_field mktime c1 r line e a;
        if \<not> st then Some (False, c1, r', e', a') else header_loop m mktime c1 r' e' a' })"
    "read_frame c c1" "c_string line" "ok \<Longrightarrow> length line \<le> 8265"
    "ok \<Longrightarrow> \<exists>ln. CHR 0x0D \<notin> set ln \<and> in_stream c = ln @ crlf @ in_stream c1 \<and> line = takeWhile (\<lambda>c. c \<noteq> NUL) ln"
    "\<And>ln rest. quiet c \<Longrightarrow> in_stream c = ln @ crlf @ rest \<Longrightarrow> CHR 0x0D \<notin> set ln \<Longrightarrow> length ln < 8266 \<Longrightarrow> ok"
proof -
  have "8266 \<le> length (fresh_bytes 8266 a)" by (simp add: fresh_bytes_def)
  from read_line_spec [OF assms this, of e] obtain ok buf c1 e1 where R: "read_line c (fresh_bytes 8266 a) 8266 e = Some (ok, buf, c1, e1)" "read_frame c c1"
    "ok \<Longrightarrow> \<exists>ln. length ln < 8266 \<and> CHR 0x0D \<notin> set ln \<and> in_stream c = ln @ crlf @ in_stream c1 \<and> e1 = e \<and> cstr_at buf 0 = Some (takeWhile (\<lambda>c. c \<noteq> NUL) ln)"
    "\<And>ln rest. quiet c \<Longrightarrow> in_stream c = ln @ crlf @ rest \<Longrightarrow> CHR 0x0D \<notin> set ln \<Longrightarrow> length ln < 8266 \<Longrightarrow> ok" by blast
  obtain ln where ln: "ok \<Longrightarrow> length ln < 8266 \<and> CHR 0x0D \<notin> set ln \<and> in_stream c = ln @ crlf @ in_stream c1 \<and> e1 = e \<and> cstr_at buf 0 = Some (takeWhile (\<lambda>c. c \<noteq> NUL) ln)"
    using R(3) by blast
  let ?line = "takeWhile (\<lambda>c. c \<noteq> NUL) ln"
  have eq: "header_loop (Suc m) mktime c r e a = (if \<not> ok then Some (False, c1, r, e1, a) else if ?line = [] then Some (True, c1, r, e, a)
      else do { (st, c', r', e', a') \<leftarrow> parse_one_field mktime c1 r ?line e a;
        if \<not> st then Some (False, c1, r', e', a') else header_loop m mktime c1 r' e' a' })" for m
  proof (cases ok)
    case True
    have "do { (st, c', r', e', a') \<leftarrow> parse_one_field mktime c1 r ?line e a;
        if \<not> st then Some (False, c', r', e', a') else header_loop m mktime c' r' e' a' } =
      do { (st, c', r', e', a') \<leftarrow> parse_one_field mktime c1 r ?line e a;
        if \<not> st then Some (False, c1, r', e', a') else header_loop m mktime c1 r' e' a' }"
      using one_field_conn [OF c_string_line, of mktime c1 r ln e a] by (intro Option.bind_cong) auto
    then show ?thesis using R(1) ln True by simp
  qed (use R(1) in simp)
  have "ok \<Longrightarrow> length ?line \<le> 8265" using ln length_takeWhile_le [of "\<lambda>c. c \<noteq> NUL" ln] by fastforce
  then show thesis using that [OF eq R(2) c_string_line] ln R(4) by blast
qed

lemma header_loop_fuel:
  assumes "conn_ok c" "length (in_stream c) < n" "length (in_stream c) < m"
  shows "header_loop n mktime c r e a = header_loop m mktime c r e a"
  using assms
proof (induction n arbitrary: m c r e a)
  case (Suc n)
  then obtain k where m: "m = Suc k" by (cases m) auto
  obtain ok line c1 e1 where R: "\<And>m. header_loop (Suc m) mktime c r e a = (if \<not> ok then Some (False, c1, r, e1, a) else if line = [] then Some (True, c1, r, e, a)
      else do { (st, c', r', e', a') \<leftarrow> parse_one_field mktime c1 r line e a;
        if \<not> st then Some (False, c1, r', e', a') else header_loop m mktime c1 r' e' a' })" "read_frame c c1"
    "ok \<Longrightarrow> \<exists>ln. CHR 0x0D \<notin> set ln \<and> in_stream c = ln @ crlf @ in_stream c1 \<and> line = takeWhile (\<lambda>c. c \<noteq> NUL) ln"
    by (rule header_round [OF Suc.prems(1), of mktime r e a]) blast
  show ?case
  proof (cases ok)
    case True
    have "conn_ok c1" using R(2) by (simp add: read_frame_def)
    moreover have "length (in_stream c1) < n" "length (in_stream c1) < k" using R(3) [OF True] Suc.prems(2,3) m by (auto simp: crlf_def)
    ultimately have eq: "header_loop n mktime c1 = header_loop k mktime c1" by (intro ext Suc.IH)
    show ?thesis unfolding m R(1) eq by (rule refl)
  next
    case False
    then show ?thesis unfolding m R(1) by (simp only: if_True not_False_eq_True)
  qed
qed simp

text \<open>Running out of rounds would be the value \<open>None\<close>; with enough of them only a handler of a field yields it.\<close>

lemma header_loop_returns:
  assumes "conn_ok c" "length (in_stream c) < n"
    "\<forall>pre line post d r e a. in_stream c = pre @ line @ post \<longrightarrow> parse_one_field mktime d r line e a \<noteq> None"
  shows "header_loop n mktime c r e a \<noteq> None"
  using assms
proof (induction n arbitrary: c r e a)
  case (Suc n)
  obtain ok line c1 e1 where R: "\<And>m. header_loop (Suc m) mktime c r e a = (if \<not> ok then Some (False, c1, r, e1, a) else if line = [] then Some (True, c1, r, e, a)
      else do { (st, c', r', e', a') \<leftarrow> parse_one_field mktime c1 r line e a;
        if \<not> st then Some (False, c1, r', e', a') else header_loop m mktime c1 r' e' a' })" "read_frame c c1"
    "ok \<Longrightarrow> \<exists>ln. CHR 0x0D \<notin> set ln \<and> in_stream c = ln @ crlf @ in_stream c1 \<and> line = takeWhile (\<lambda>c. c \<noteq> NUL) ln"
    by (rule header_round [OF Suc.prems(1), of mktime r e a]) blast
  show ?case
  proof (cases ok)
    case True
    then obtain ln where ln: "in_stream c = ln @ crlf @ in_stream c1" "line = takeWhile (\<lambda>c. c \<noteq> NUL) ln" using R(3) by blast
    have l: "in_stream c = [] @ line @ dropWhile (\<lambda>c. c \<noteq> NUL) ln @ crlf @ in_stream c1" unfolding ln by simp
    obtain st c' r' e' a' where f: "parse_one_field mktime c1 r line e a = Some (st, c', r', e', a')"
      using Suc.prems(3) [rule_format, OF l, of c1 r e a] by (cases "parse_one_field mktime c1 r line e a") auto
    have "in_stream c = (ln @ crlf @ pre) @ l @ post" if "in_stream c1 = pre @ l @ post" for pre l post using ln(1) that by simp
    then have "\<forall>pre line post d r e a. in_stream c1 = pre @ line @ post \<longrightarrow> parse_one_field mktime d r line e a \<noteq> None"
      using Suc.prems(3) by blast
    moreover have "conn_ok c1" "length (in_stream c1) < n" using R(2) ln(1) Suc.prems(2) by (simp_all add: read_frame_def crlf_def)
    ultimately have "header_loop n mktime c1 r' e' a' \<noteq> None" using Suc.IH [of c1 r' e' a'] by blast
    then show ?thesis unfolding R(1) using f True by (auto simp del: not_None_eq)
  next
    case False
    then show ?thesis unfolding R(1) by (simp del: not_None_eq)
  qed
qed simp

lemma header_loop_ok:
  assumes "conn_ok c" "rq_ok r" "rq_proxy_authorization r = None" "header_loop n mktime c r e a = Some (st, c', r', e', a')"
  shows "read_frame c c' \<and> rq_ok r' \<and> rq_core r' = rq_core r"
  using assms
proof (induction n arbitrary: c r e a)
  case (Suc n)
  obtain ok line c1 e1 where R: "\<And>m. header_loop (Suc m) mktime c r e a = (if \<not> ok then Some (False, c1, r, e1, a) else if line = [] then Some (True, c1, r, e, a)
      else do { (st, c', r', e', a') \<leftarrow> parse_one_field mktime c1 r line e a;
        if \<not> st then Some (False, c1, r', e', a') else header_loop m mktime c1 r' e' a' })" "read_frame c c1" "c_string line" "ok \<Longrightarrow> length line \<le> 8265"
    by (rule header_round [OF Suc.prems(1), of mktime r e a]) blast
  have ok1: "conn_ok c1" using R(2) by (simp add: read_frame_def)
  show ?case
  proof (cases "ok \<and> line \<noteq> []")
    case False
    then show ?thesis using Suc.prems R(1,2) by (auto split: if_splits)
  next
    case True
    then obtain st1 c2 r1 e2 a1 where P: "parse_one_field mktime c1 r line e a = Some (st1, c2, r1, e2, a1)"
      using Suc.prems(4) R(1) by (auto simp: bind_eq_Some_conv)
    have "rq_ok r1 \<and> rq_core r1 = rq_core r"
    proof (cases "CHR '':'' \<in> set line \<and> length (field_name line) < 64 \<and> length (field_value line) \<le> 8192")
      case fits: True
      have "length (field_value line) \<le> PTRDIFF_MAX" using fits by (simp add: PTRDIFF_MAX_def)
      moreover have "parse_request_headerfield mktime c1 (map tolower (field_name line)) (field_value line) r e a = Some (st1, c2, r1, e2, a1)"
        using P fits by (simp add: one_field_step [OF R(3)])
      ultimately show ?thesis using headerfield_ok [OF Suc.prems(2,3)] c_string_field [OF R(3)] by blast
    qed (use P one_field_step [OF R(3)] Suc.prems(2) in auto)
    then have r1: "rq_ok r1" "rq_core r1 = rq_core r" "rq_proxy_authorization r1 = None" using Suc.prems(3) by (auto simp: rq_core_def)
    show ?thesis
    proof (cases st1)
      case False
      then show ?thesis using Suc.prems(4) R(1,2) True P r1 by auto
    next
      case st1: True
      then have "header_loop n mktime c1 r1 e2 a1 = Some (st, c', r', e', a')" using Suc.prems(4) R(1) True P by simp
      from Suc.IH [OF ok1 r1(1,3) this] show ?thesis using r1(2) read_frame_trans [OF R(2)] by auto
    qed
  qed
qed simp


subsection \<open>The whole request\<close>

lemma read_request_line_ok:
  assumes "conn_ok c" "rq_ok r" "rq_params r = None" "read_request_line c r e a = Some (st, c', r', e', a')"
  shows "read_frame c c' \<and> rq_ok r' \<and> line_frame r r'"
proof -
  obtain ok buf c1 e1 where R: "read_line c (replicate 10241 NUL) 10240 e = Some (ok, buf, c1, e1)" "read_frame c c1"
    "ok \<Longrightarrow> \<exists>ln. length ln < 10240 \<and> CHR 0x0D \<notin> set ln \<and> in_stream c = ln @ crlf @ in_stream c1 \<and> e1 = e \<and> cstr_at buf 0 = Some (takeWhile (\<lambda>c. c \<noteq> NUL) ln)"
    by (rule read_line_spec [OF assms(1), of 10240 "replicate 10241 NUL" e]) (simp, blast)
  show ?thesis
  proof (cases ok)
    case False
    have "read_request_line c r e a = Some (False, c1, r, if is_app_error e1 \<and> get_error_code e1 = errno_num ENOSPC then set_http_error e1 414 else e1, a)"
      unfolding read_request_line_def R(1) using False by simp
    then show ?thesis using assms(2,4) R(2) by (simp add: line_frame_def)
  next
    case True
    then obtain ln where ln: "length ln < 10240" "cstr_at buf 0 = Some (takeWhile (\<lambda>c. c \<noteq> NUL) ln)" using R(3) by blast
    let ?l = "takeWhile (\<lambda>c. c \<noteq> NUL) ln"
    have "length ?l < 10240" using ln(1) length_takeWhile_le [of "\<lambda>c. c \<noteq> NUL" ln] by linarith
    then have l: "length ?l < 2 ^ 31" by (rule less_trans) simp
    have run: "read_request_line c r e a = do { (ok, request, e, a) \<leftarrow> parse_request_line (net_errno (cn_net c1)) ?l r e1 a; Some (ok, c1, request, e, a) }"
      unfolding read_request_line_def R(1) using ln(2) True by simp
    have "parse_request_line (net_errno (cn_net c1)) ?l r e1 a = Some (st, r', e', a')" "c' = c1"
      using assms(4) unfolding run by (auto simp: bind_eq_Some_conv)
    then show ?thesis using request_line_ok [OF assms(2,3) c_string_line l] R(2) by blast
  qed
qed

lemma rq_entity_ok: "rq_ok r \<Longrightarrow> rq_ok (r\<lparr>rq_entity_buf := x\<rparr>)"
  by (simp add: rq_simps)

lemma posted_content_ok:
  assumes "conn_ok c" "rq_ok r" "read_posted_content n c r e a = Some (st, c', r', e', a')"
  shows "read_frame c c' \<and> rq_ok r' \<and> rq_version r' = rq_version r"
proof -
  obtain k where k: "request_get_content_length r = Some k" using assms(3) by (auto simp: read_posted_content_def bind_eq_Some_conv)
  have same: "read_frame c c \<and> rq_ok r \<and> rq_version r = rq_version r" using assms(1,2) read_frame_refl by simp
  show ?thesis
  proof (cases "k = 0 \<or> n < k")
    case True
    then show ?thesis using assms(3) k same by (auto simp: read_posted_content_def split: if_splits)
  next
    case False
    obtain ok a1 where al: "try_alloc k a = (ok, a1)" by (cases "try_alloc k a")
    show ?thesis
    proof (cases ok)
      case nok: False
      then show ?thesis using assms(3) k False al same by (auto simp: read_posted_content_def)
    next
      case True
      obtain b c1 where rd: "connection_read c k = Some (b, c1)" "read_frame c c1" using read_spec [OF assms(1), of k] False by auto
      have ent: "rq_ok r'' \<and> rq_version r'' = rq_version r" if "request_set_entity r bs j a2 = Some (st2, r'', a3)" for bs j a2 st2 r'' a3
      proof -
        have "r'' = r \<or> (\<exists>x. r'' = r\<lparr>rq_entity_buf := x\<rparr>)" using that
          by (auto simp: request_set_entity_def bind_eq_Some_conv split: if_splits prod.splits bool.splits)
        then show ?thesis using assms(2) rq_entity_ok by auto
      qed
      show ?thesis using assms(3) k False al True rd ent assms(2)
        by (auto simp: read_posted_content_def bind_eq_Some_conv split: option.splits if_splits)
    qed
  qed
qed

lemma request_receive_ok:
  assumes "conn_ok c" "rq_ok r" "rq_params r = None" "rq_proxy_authorization r = None" "request_receive mktime r c n e a = Some (st, c', r', e', a')"
  shows "conn_ok c' \<and> rq_ok r' \<and> out_stream c' = out_stream c \<and> (st \<longrightarrow> persistent c' = (persistent c \<or> rq_version r' = VERSION_11))"
proof -
  obtain ok1 c1 r1 e1 a1 where l: "read_request_line c r e a = Some (ok1, c1, r1, e1, a1)" using assms(5) by (auto simp: request_receive_def bind_eq_Some_conv)
  have L: "read_frame c c1" "rq_ok r1" "line_frame r r1" using read_request_line_ok [OF assms(1-3) l] by blast+
  show ?thesis
  proof (cases ok1)
    case False
    then show ?thesis using assms(5) l L by (auto simp: request_receive_def read_frame_def)
  next
    case True
    let ?c = "if request_get_version r1 = VERSION_11 then connection_set_persistent c1 True else c1"
    have c: "conn_ok ?c" "out_stream ?c = out_stream c" "persistent ?c = (persistent c \<or> rq_version r1 = VERSION_11)"
      using L(1) by (auto simp: read_frame_def conn_ok_def out_stream_def request_get_version_def connection_set_persistent_def)
    have p1: "rq_proxy_authorization r1 = None" using L(3) assms(4) by (simp add: line_frame_def)
    have eq: "request_receive mktime r c n e a = do { (ok, conn, request, e, a) \<leftarrow> read_request_header_fields mktime ?c r1 e1 a1;
        if \<not> ok then Some (failure, conn, request, e, a)
        else if request_get_method request = METHOD_POST \<and> rq_defered_read request = 0 then read_posted_content n conn request e a
        else Some (success, conn, request, e, a) }"
      unfolding request_receive_def l using True by (simp only: bind.bind_lunit prod.case not_True_eq_False if_False Let_def)
    obtain ok2 c2 r2 e2 a2 where h: "read_request_header_fields mktime ?c r1 e1 a1 = Some (ok2, c2, r2, e2, a2)"
      using assms(5) unfolding eq by (cases "read_request_header_fields mktime ?c r1 e1 a1") auto
    have H: "read_frame ?c c2" "rq_ok r2" "rq_core r2 = rq_core r1" using header_loop_ok [OF c(1) L(2) p1 h [unfolded read_request_header_fields_def]] by blast+
    have run: "request_receive mktime r c n e a = (if \<not> ok2 then Some (False, c2, r2, e2, a2)
        else if rq_method r2 = METHOD_POST \<and> rq_defered_read r2 = 0 then read_posted_content n c2 r2 e2 a2 else Some (True, c2, r2, e2, a2))"
      unfolding eq h by (simp add: request_get_method_def)
    have v: "rq_version r2 = rq_version r1" using H(3) by (simp add: rq_core_def)
    have ok2: "conn_ok c2" "out_stream c2 = out_stream c" "persistent c2 = (persistent c \<or> rq_version r2 = VERSION_11)"
      using H(1) c v by (simp_all add: read_frame_def)
    show ?thesis
    proof (cases "ok2 \<and> rq_method r2 = METHOD_POST \<and> rq_defered_read r2 = 0")
      case False
      then show ?thesis using assms(5) ok2 H(2) unfolding run by (auto split: if_splits)
    next
      case True
      then have "read_posted_content n c2 r2 e2 a2 = Some (st, c', r', e', a')" using assms(5) unfolding run by simp
      from posted_content_ok [OF ok2(1) H(2) this] show ?thesis using ok2 by (simp add: read_frame_def)
    qed
  qed
qed


subsection \<open>What a text means\<close>

text \<open>
  The meaning of a header field without the connection, and of a list of header lines: the fields of the general header are
  tried first, then those of the entity header, then those of the request; an unknown field is ignored.
\<close>

definition field_meaning :: "(tm \<Rightarrow> int) \<Rightarrow> string \<Rightarrow> string \<Rightarrow> http_request \<Rightarrow> error \<Rightarrow> allocator \<Rightarrow>
    (status_t \<times> http_request \<times> error \<times> allocator) option" where
  "field_meaning mktime name v r e a = (
     if find_general_header name \<noteq> - 1 then
       map_option (\<lambda>(ok, gh, e, a). (ok, r\<lparr>rq_general_header := gh\<rparr>, e, a)) (parse_general_header mktime (find_general_header name) (rq_general_header r) v e a)
     else if find_entity_header name \<noteq> - 1 then
       map_option (\<lambda>(ok, eh, e, a). (ok, r\<lparr>rq_entity_header := eh\<rparr>, e, a)) (parse_entity_header mktime (find_entity_header name) (rq_entity_header r) v e a)
     else if find_request_header name \<noteq> - 1 then parse_request_header mktime (find_request_header name) r v e a
     else Some (True, r, e, a))"

fun lines_meaning :: "(tm \<Rightarrow> int) \<Rightarrow> string list \<Rightarrow> http_request \<Rightarrow> error \<Rightarrow> allocator \<Rightarrow> (status_t \<times> http_request \<times> error \<times> allocator) option" where
  "lines_meaning mktime [] r e a = Some (True, r, e, a)"
| "lines_meaning mktime (l # ls) r e a = (
     if CHR '':'' \<in> set l \<and> length (field_name l) < 64 \<and> length (field_value l) \<le> 8192 then do {
       (ok, r, e, a) \<leftarrow> field_meaning mktime (map tolower (field_name l)) (field_value l) r e a;
       if ok then lines_meaning mktime ls r e a else Some (False, r, e, a) }
     else Some (False, r, set_http_error e 400, a))"

lemma headerfield_meaning:
  "parse_request_headerfield mktime c name v r e a = map_option (\<lambda>(ok, r, e, a). (ok, c, r, e, a)) (field_meaning mktime name v r e a)"
proof -
  have b: "do { (ok, x, e, a) \<leftarrow> m; Some (ok, c, f x, e, a) } = map_option (\<lambda>(ok, r, e, a). (ok, c, r, e, a)) (map_option (\<lambda>(ok, x, e, a). (ok, f x, e, a)) m)"
    for m :: "(bool \<times> 'x \<times> error \<times> allocator) option" and f :: "'x \<Rightarrow> http_request" by (cases m) auto
  have b': "do { (ok, x, e, a) \<leftarrow> m; Some (ok, c, x, e, a) } = map_option (\<lambda>(ok, r, e, a). (ok, c, r, e, a)) m"
    for m :: "(bool \<times> http_request \<times> error \<times> allocator) option" by (cases m) auto
  show ?thesis using connection_is_general [of name]
    by (simp add: parse_request_headerfield_def field_meaning_def Let_def b b' split del: if_split cong: if_cong) (simp add: b b' option.map_id)
qed

lemma crlf_unique:
  assumes "u @ crlf @ x = w @ crlf @ y" "CHR 0x0D \<notin> set u" "CHR 0x0D \<notin> set w"
  shows "u = w" "x = y"
proof -
  have "takeWhile (\<lambda>c. c \<noteq> CHR 0x0D) (u @ crlf @ x) = u" "takeWhile (\<lambda>c. c \<noteq> CHR 0x0D) (w @ crlf @ y) = w"
    using assms(2,3) by (auto simp: crlf_def takeWhile_tail intro: trans [OF takeWhile_append2])
  then show "u = w" using assms(1) by simp
  then show "x = y" using assms(1) by simp
qed

definition plain_line :: "string \<Rightarrow> bool" where
  "plain_line l \<longleftrightarrow> CHR 0x0D \<notin> set l \<and> c_string l"

lemma plain_takeWhile: "c_string l \<Longrightarrow> takeWhile (\<lambda>c. c \<noteq> NUL) l = l"
  by (auto simp: c_string_def takeWhile_eq_all_conv)

lemma header_lines:
  assumes "conn_ok c" "quiet c" "in_stream c = concat (map (\<lambda>l. l @ crlf) ls) @ crlf @ rest" "length ls < n"
    "\<forall>l \<in> set ls. plain_line l \<and> l \<noteq> [] \<and> length l < 8266"
  shows "case lines_meaning mktime ls r e a of
      None \<Rightarrow> header_loop n mktime c r e a = None
    | Some (ok, r', e', a') \<Rightarrow> \<exists>c'. header_loop n mktime c r e a = Some (ok, c', r', e', a') \<and> read_frame c c' \<and> (ok \<longrightarrow> in_stream c' = rest)"
  using assms
proof (induction ls arbitrary: c n r e a)
  case Nil
  then obtain k where n: "n = Suc k" by (cases n) auto
  obtain ok line c1 e1 where R: "\<And>m. header_loop (Suc m) mktime c r e a = (if \<not> ok then Some (False, c1, r, e1, a) else if line = [] then Some (True, c1, r, e, a)
      else do { (st, c', r', e', a') \<leftarrow> parse_one_field mktime c1 r line e a;
        if \<not> st then Some (False, c1, r', e', a') else header_loop m mktime c1 r' e' a' })" "read_frame c c1"
    "ok \<Longrightarrow> \<exists>ln. CHR 0x0D \<notin> set ln \<and> in_stream c = ln @ crlf @ in_stream c1 \<and> line = takeWhile (\<lambda>c. c \<noteq> NUL) ln"
    "\<And>ln rest. quiet c \<Longrightarrow> in_stream c = ln @ crlf @ rest \<Longrightarrow> CHR 0x0D \<notin> set ln \<Longrightarrow> length ln < 8266 \<Longrightarrow> ok"
    by (rule header_round [OF Nil.prems(1), of mktime r e a]) blast
  have s: "in_stream c = [] @ crlf @ rest" using Nil.prems(3) by simp
  have ok using R(4) [OF Nil.prems(2) s] by simp
  then obtain ln where ln: "CHR 0x0D \<notin> set ln" "in_stream c = ln @ crlf @ in_stream c1" "line = takeWhile (\<lambda>c. c \<noteq> NUL) ln" using R(3) by blast
  have eq: "ln @ crlf @ in_stream c1 = [] @ crlf @ rest" by (rule trans [OF ln(2) [symmetric] s])
  have "line = []" "in_stream c1 = rest" using crlf_unique [OF eq ln(1)] ln(3) by simp_all
  then show ?case unfolding n R(1) using \<open>ok\<close> R(2) by simp
next
  case (Cons l ls)
  then obtain k where n: "n = Suc k" "length ls < k" by (cases n) auto
  obtain ok line c1 e1 where R: "\<And>m. header_loop (Suc m) mktime c r e a = (if \<not> ok then Some (False, c1, r, e1, a) else if line = [] then Some (True, c1, r, e, a)
      else do { (st, c', r', e', a') \<leftarrow> parse_one_field mktime c1 r line e a;
        if \<not> st then Some (False, c1, r', e', a') else header_loop m mktime c1 r' e' a' })" "read_frame c c1"
    "ok \<Longrightarrow> \<exists>ln. CHR 0x0D \<notin> set ln \<and> in_stream c = ln @ crlf @ in_stream c1 \<and> line = takeWhile (\<lambda>c. c \<noteq> NUL) ln"
    "\<And>ln rest. quiet c \<Longrightarrow> in_stream c = ln @ crlf @ rest \<Longrightarrow> CHR 0x0D \<notin> set ln \<Longrightarrow> length ln < 8266 \<Longrightarrow> ok"
    by (rule header_round [OF Cons.prems(1), of mktime r e a]) blast
  let ?t = "concat (map (\<lambda>l. l @ crlf) ls) @ crlf @ rest"
  have l: "CHR 0x0D \<notin> set l" "c_string l" "l \<noteq> []" "length l < 8266" using Cons.prems(5) by (auto simp: plain_line_def)
  have s: "in_stream c = l @ crlf @ ?t" using Cons.prems(3) by simp
  have ok using R(4) [OF Cons.prems(2) s l(1,4)] .
  then obtain ln' where r: "CHR 0x0D \<notin> set ln'" "in_stream c = ln' @ crlf @ in_stream c1" "line = takeWhile (\<lambda>c. c \<noteq> NUL) ln'" using R(3) by blast
  have eq: "ln' @ crlf @ in_stream c1 = l @ crlf @ ?t" by (rule trans [OF r(2) [symmetric] s])
  have ln: "line = l" "in_stream c1 = ?t" using crlf_unique [OF eq r(1) l(1)] r(3) plain_takeWhile [OF l(2)] by simp_all
  have c1: "conn_ok c1" "quiet c1" using R(2) Cons.prems(2) by (simp_all add: read_frame_def)
  note IH = Cons.IH [OF c1 ln(2) n(2)]
  show ?case
  proof (cases "CHR '':'' \<in> set l \<and> length (field_name l) < 64 \<and> length (field_value l) \<le> 8192")
    case False
    have "lines_meaning mktime (l # ls) r e a = Some (False, r, set_http_error e 400, a)" unfolding lines_meaning.simps if_not_P [OF False] by (rule refl)
    moreover have "header_loop n mktime c r e a = Some (False, c1, r, set_http_error e 400, a)"
      unfolding n R(1) ln(1) one_field_step [OF l(2)] if_not_P [OF False] using \<open>ok\<close> l(3) by simp
    ultimately show ?thesis using R(2) by simp
  next
    case True
    let ?f = "field_meaning mktime (map tolower (field_name l)) (field_value l) r e a"
    have one: "parse_one_field mktime c1 r line e a = map_option (\<lambda>(ok, r, e, a). (ok, c1, r, e, a)) ?f"
      unfolding ln(1) one_field_step [OF l(2)] headerfield_meaning using True by simp
    show ?thesis
    proof (cases ?f)
      case None
      then show ?thesis unfolding n R(1) one using \<open>ok\<close> ln(1) l(3) True by simp
    next
      case (Some x)
      obtain st r1 e2 a1 where x: "x = (st, r1, e2, a1)" by (cases x)
      have run: "header_loop n mktime c r e a = (if \<not> st then Some (False, c1, r1, e2, a1) else header_loop k mktime c1 r1 e2 a1)"
        unfolding n R(1) one Some x using \<open>ok\<close> ln(1) l(3) by simp
      have m: "lines_meaning mktime (l # ls) r e a = (if st then lines_meaning mktime ls r1 e2 a1 else Some (False, r1, e2, a1))"
        using True Some x by simp
      show ?thesis
      proof (cases st)
        case False
        then show ?thesis unfolding m run using R(2) by simp
      next
        case True
        then show ?thesis unfolding m run using IH [of r1 e2 a1] Cons.prems(5) read_frame_trans [OF R(2)]
          by (auto split: option.splits)
      qed
    qed
  qed
qed


lemma read_request_line_text:
  assumes "conn_ok c" "quiet c" "in_stream c = line @ crlf @ rest" "plain_line line" "length line < 10240"
  obtains c1 where "read_request_line c r e a = map_option (\<lambda>(ok, r, e, a). (ok, c1, r, e, a)) (parse_request_line (net_errno (cn_net c1)) line r e a)"
    "read_frame c c1" "in_stream c1 = rest"
proof -
  obtain ok buf c1 e1 where R: "read_line c (replicate 10241 NUL) 10240 e = Some (ok, buf, c1, e1)" "read_frame c c1"
    "ok \<Longrightarrow> \<exists>ln. length ln < 10240 \<and> CHR 0x0D \<notin> set ln \<and> in_stream c = ln @ crlf @ in_stream c1 \<and> e1 = e \<and> cstr_at buf 0 = Some (takeWhile (\<lambda>c. c \<noteq> NUL) ln)"
    "\<And>ln rest. quiet c \<Longrightarrow> in_stream c = ln @ crlf @ rest \<Longrightarrow> CHR 0x0D \<notin> set ln \<Longrightarrow> length ln < 10240 \<Longrightarrow> ok"
    by (rule read_line_spec [OF assms(1), of 10240 "replicate 10241 NUL" e]) (simp, blast)
  have l: "CHR 0x0D \<notin> set line" "c_string line" using assms(4) by (simp_all add: plain_line_def)
  have ok using R(4) [OF assms(2,3) l(1) assms(5)] .
  then obtain ln where ln: "CHR 0x0D \<notin> set ln" "in_stream c = ln @ crlf @ in_stream c1" "e1 = e" "cstr_at buf 0 = Some (takeWhile (\<lambda>c. c \<noteq> NUL) ln)" using R(3) by blast
  have eq: "ln @ crlf @ in_stream c1 = line @ crlf @ rest" by (rule trans [OF ln(2) [symmetric] assms(3)])
  have t: "cstr_at buf 0 = Some line" "in_stream c1 = rest" using crlf_unique [OF eq ln(1) l(1)] ln(4) plain_takeWhile [OF l(2)] by simp_all
  have "read_request_line c r e a = map_option (\<lambda>(ok, r, e, a). (ok, c1, r, e, a)) (parse_request_line (net_errno (cn_net c1)) line r e a)"
    unfolding read_request_line_def R(1) using \<open>ok\<close> t(1) ln(3)
    by (cases "parse_request_line (net_errno (cn_net c1)) line r e a") (auto simp: split_beta)
  then show thesis using that R(2) t(2) by blast
qed

lemma cs_bytes_rep:
  assumes "cs_rep s t"
  shows "cs_bytes s = Some t"
proof -
  obtain rest where "cs_data s = t @ NUL # rest" using assms by (rule cs_rep_dataE)
  then show ?thesis using assms by (simp add: cs_bytes_def rd_def cs_rep_def)
qed

lemma send_line_bytes:
  assumes "conn_ok c" "rq_ok r" "decisions a = []" "method_text (rq_method r) = Some mt" "request_get_uri r = Some (Some u)" "version_text (rq_version r) = Some vt"
    "length (mt @ u @ vt) < 256"
  obtains ok c' where "send_request_line r c e a = Some (ok, c', if ok then e else set_os_error e (errno_num (net_errno (cn_net c'))), a)"
    "sends c (mt @ u @ vt) (Some (ok, c'))"
proof -
  have ct: "c_string mt" "c_string vt" using assms(4,6) by (auto simp: method_text_def version_text_def crlf_def split: http_method.splits http_version.splits)
  have "rq_view r ''uri'' = Some u" using uri_of_view [OF assms(2)] assms(5) by simp
  then have "u = cs_str (rq_uri r)" by (simp add: rq_view_at split: if_splits)
  then have cu: "c_string u" using assms(2) by (auto simp: rq_ok_def rq_strings_ok_def cs_inv_def cs_rep_def)
  have P: "length w \<le> PTRDIFF_MAX" if "length w < 256" for w :: string using that by (simp add: PTRDIFF_MAX_def)
  obtain s0 where n: "cstring_new a = (Some s0, a)" "cs_rep s0 []" using cstring_new_spec [of a] assms(3) by auto
  have cat: "\<exists>s'. cstring_concat s w a = Some (True, s', a) \<and> cs_rep s' (t @ w)" if "cs_rep s t" "c_string w" "length t + length w < 256" for s t w
  proof -
    have "roomy s (length t) (length w) a" using short_roomy [OF that(1,3)] .
    then show ?thesis using cstring_concat_spec [OF that(1,2) P, of a] that(3) unfolding cs_post_def by force
  qed
  obtain s1 where s1: "cstring_concat s0 mt a = Some (True, s1, a)" "cs_rep s1 mt" using cat [OF n(2) ct(1)] assms(7) by auto
  obtain s2 where s2: "cstring_concat s1 u a = Some (True, s2, a)" "cs_rep s2 (mt @ u)" using cat [OF s1(2) cu] assms(7) by auto
  obtain s3 where s3: "cstring_concat s2 vt a = Some (True, s3, a)" "cs_rep s3 (mt @ u @ vt)" using cat [OF s2(2) ct(2)] assms(7) by auto
  have b: "cs_bytes s3 = Some (mt @ u @ vt)" by (rule cs_bytes_rep [OF s3(2)])
  obtain ok c' where w: "connection_write c (mt @ u @ vt) = Some (ok, c')" "sends c (mt @ u @ vt) (Some (ok, c'))"
    using write_spec [OF assms(1), of "mt @ u @ vt"] by (auto simp: sends_def)
  have "send_request_line r c e a = Some (ok, c', if ok then e else set_os_error e (errno_num (net_errno (cn_net c'))), a)"
    unfolding send_request_line_def n(1) using s1(1) s2(1) s3(1) b w(1) assms(4-6) by (simp add: request_get_method_def request_get_version_def)
  then show thesis using that w(2) by blast
qed


lemma receive_meaning:
  assumes "conn_ok c" "quiet c" "in_stream c = line @ crlf @ concat (map (\<lambda>l. l @ crlf) ls) @ crlf @ rest"
    "plain_line line" "length line < 10240" "\<forall>l \<in> set ls. plain_line l \<and> l \<noteq> [] \<and> length l < 8266"
  shows "\<exists>stale. case (do { (ok, r, e, a) \<leftarrow> parse_request_line stale line r e a;
        if ok then lines_meaning mktime ls r e a else Some (failure, r, e, a) }) of
      None \<Rightarrow> request_receive mktime r c n e a = None
    | Some (ok, r', e', a') \<Rightarrow> \<not> ok \<or> request_get_method r' \<noteq> METHOD_POST \<or> request_get_defered_read r' \<noteq> 0 \<longrightarrow>
        (\<exists>c'. request_receive mktime r c n e a = Some (ok, c', r', e', a') \<and> (ok \<longrightarrow> in_stream c' = rest))"
proof -
  let ?t = "concat (map (\<lambda>l. l @ crlf) ls) @ crlf @ rest"
  obtain c1 where L: "read_request_line c r e a = map_option (\<lambda>(ok, r, e, a). (ok, c1, r, e, a)) (parse_request_line (net_errno (cn_net c1)) line r e a)"
    "read_frame c c1" "in_stream c1 = ?t" by (rule read_request_line_text [OF assms(1,2,3,4,5)])
  let ?stale = "net_errno (cn_net c1)"
  show ?thesis
  proof (rule exI [of _ ?stale], cases "parse_request_line ?stale line r e a")
    case None
    then show "case (do { (ok, r, e, a) \<leftarrow> parse_request_line ?stale line r e a; if ok then lines_meaning mktime ls r e a else Some (failure, r, e, a) }) of
      None \<Rightarrow> request_receive mktime r c n e a = None
    | Some (ok, r', e', a') \<Rightarrow> \<not> ok \<or> request_get_method r' \<noteq> METHOD_POST \<or> request_get_defered_read r' \<noteq> 0 \<longrightarrow>
        (\<exists>c'. request_receive mktime r c n e a = Some (ok, c', r', e', a') \<and> (ok \<longrightarrow> in_stream c' = rest))"
      using L(1) by (simp add: request_receive_def)
  next
    case (Some x)
    obtain ok1 r1 e1 a1 where x: "x = (ok1, r1, e1, a1)" by (cases x)
    have l: "read_request_line c r e a = Some (ok1, c1, r1, e1, a1)" using L(1) Some x by simp
    let ?c = "if request_get_version r1 = VERSION_11 then connection_set_persistent c1 True else c1"
    have c: "conn_ok ?c" "quiet ?c" "in_stream ?c = ?t" using L(2,3) assms(2)
      by (auto simp: read_frame_def conn_ok_def quiet_def in_stream_def connection_set_persistent_def)
    have "length ls < length (in_stream ?c) + 1" unfolding c(3) by (induction ls) (auto simp: crlf_def)
    note H = header_lines [OF c this assms(6), of mktime r1 e1 a1, folded read_request_header_fields_def]
    show "case (do { (ok, r, e, a) \<leftarrow> parse_request_line ?stale line r e a; if ok then lines_meaning mktime ls r e a else Some (failure, r, e, a) }) of
      None \<Rightarrow> request_receive mktime r c n e a = None
    | Some (ok, r', e', a') \<Rightarrow> \<not> ok \<or> request_get_method r' \<noteq> METHOD_POST \<or> request_get_defered_read r' \<noteq> 0 \<longrightarrow>
        (\<exists>c'. request_receive mktime r c n e a = Some (ok, c', r', e', a') \<and> (ok \<longrightarrow> in_stream c' = rest))"
    proof (cases ok1)
      case False
      then show ?thesis unfolding Some x using l by (simp add: request_receive_def)
    next
      case True
      have eq: "request_receive mktime r c n e a = do { (ok, conn, request, e, a) \<leftarrow> read_request_header_fields mktime ?c r1 e1 a1;
          if \<not> ok then Some (failure, conn, request, e, a)
          else if request_get_method request = METHOD_POST \<and> rq_defered_read request = 0 then read_posted_content n conn request e a
          else Some (success, conn, request, e, a) }"
        unfolding request_receive_def l using True by (simp only: bind.bind_lunit prod.case not_True_eq_False if_False Let_def)
      show ?thesis
      proof (cases "lines_meaning mktime ls r1 e1 a1")
        case None
        then show ?thesis unfolding Some x eq using H True by simp
      next
        case m: (Some y)
        obtain ok2 r2 e2 a2 where y: "y = (ok2, r2, e2, a2)" by (cases y)
        obtain c' where h: "read_request_header_fields mktime ?c r1 e1 a1 = Some (ok2, c', r2, e2, a2)" "ok2 \<longrightarrow> in_stream c' = rest"
          using H m y by auto
        show ?thesis unfolding Some x eq h(1) using True m y h(2) by (cases ok2) (auto simp: request_get_defered_read_def)
      qed
    qed
  qed
qed



text \<open>A request for the witnesses that asks to close the connection.\<close>

definition sample_text :: string where
  "sample_text = ''GET / HTTP/1.1'' @ crlf @ ''Connection: close'' @ crlf @ crlf"

lemma sample_lines:
  "in_stream (sample_conn sample_text) = ''GET / HTTP/1.1'' @ crlf @ concat (map (\<lambda>l. l @ crlf) [''Connection: close'']) @ crlf @ []"
  "plain_line ''GET / HTTP/1.1''" "length ''GET / HTTP/1.1'' < 10240" "\<forall>l \<in> set [''Connection: close'']. plain_line l \<and> l \<noteq> [] \<and> length l < 8266"
  using sample_conn_ok by (simp_all add: sample_text_def plain_line_def)

lemma sample_meaning:
  "\<exists>r' a'. (do { (ok, r, e, a) \<leftarrow> parse_request_line stale ''GET / HTTP/1.1'' sample_rq error_new no_oom;
      if ok then lines_meaning (\<lambda>t. 0) [''Connection: close''] r e a else Some (failure, r, e, a) }) = Some (True, r', error_new, a') \<and>
    request_get_method r' = METHOD_GET \<and> request_get_version r' = VERSION_11"
proof -
  let ?l = "''GET / HTTP/1.1''"
  have w: "line_words ?l = [''GET'', ''/'', ''HTTP/1.1'']" "skip_words 2 ?l = ''HTTP/1.1''" by code_simp+
  have r: "request_line_result ?l = Inr (METHOD_GET, ''/'', VERSION_11)"
    unfolding request_line_result_def w Let_def by (simp add: get_method_def get_version_def)
  have "roomy (rq_uri sample_rq) 0 (length ?l) no_oom" by (simp add: roomy_def sample_rq_def cs_of_def)
  moreover have "c_string ?l" "length ?l < 2 ^ 31" "1 < length (line_words ?l) \<longrightarrow> CHR ''?'' \<notin> set (line_words ?l ! 1)" unfolding w by simp_all
  ultimately obtain r1 where r1: "parse_request_line stale ?l sample_rq error_new no_oom = Some (True, r1, error_new, no_oom)" "rq_ok r1" "rq_method r1 = METHOD_GET"
      "rq_version r1 = VERSION_11"
    using line_step [OF sample_rq_ok, of ?l no_oom stale error_new] r by auto
  have f: "map tolower (field_name ''Connection: close'') = ''connection''" "field_value ''Connection: close'' = ''close''" by code_simp+
  have gh: "gh_ok (rq_general_header r1)" using r1(2) by (simp add: rq_ok_def)
  have "field_post gh_ok gh_view (rq_general_header r1) ''connection'' ''close'' error_new (general_header_set_connection (rq_general_header r1) ''close'' no_oom \<bind> or_os_error error_new)"
    by (rule ghc.handler_view [OF gh]) (simp_all add: PTRDIFF_MAX_def)
  then obtain gh' a' where g: "(general_header_set_connection (rq_general_header r1) ''close'' no_oom \<bind> or_os_error error_new) = Some (True, gh', error_new, a')"
    by (rule field_post_short) simp_all
  have "\<not> strcasecmp0 ''close'' ''keep-alive''" by (simp add: strcasecmp0_def)
  then have "parse_general_header (\<lambda>t. 0) (find_general_header ''connection'') (rq_general_header r1) ''close'' error_new no_oom = Some (True, gh', error_new, a')"
    using g by (simp add: gh_parse_named general_header_fields_def parse_connection_def)
  moreover have "find_general_header ''connection'' \<noteq> - 1" by (simp add: find_general_header_def general_header_fields_def strcmp0_def)
  ultimately have "field_meaning (\<lambda>t. 0) ''connection'' ''close'' r1 error_new no_oom = Some (True, r1\<lparr>rq_general_header := gh'\<rparr>, error_new, a')"
    by (simp add: field_meaning_def)
  moreover have "CHR '':'' \<in> set ''Connection: close'' \<and> length (field_name ''Connection: close'') < 64 \<and> length (field_value ''Connection: close'') \<le> 8192" by code_simp
  ultimately have "lines_meaning (\<lambda>t. 0) [''Connection: close''] r1 error_new no_oom = Some (True, r1\<lparr>rq_general_header := gh'\<rparr>, error_new, a')"
    by (simp only: lines_meaning.simps f if_True) simp
  then show ?thesis using r1 by (simp add: request_get_method_def request_get_version_def del: lines_meaning.simps)
qed

lemma sample_receive:
  "\<exists>c' r' a'. request_receive (\<lambda>t. 0) sample_rq (sample_conn sample_text) 0 error_new no_oom = Some (True, c', r', error_new, a') \<and> request_get_version r' = VERSION_11"
proof -
  obtain stale where R: "case (do { (ok, r, e, a) \<leftarrow> parse_request_line stale ''GET / HTTP/1.1'' sample_rq error_new no_oom;
        if ok then lines_meaning (\<lambda>t. 0) [''Connection: close''] r e a else Some (failure, r, e, a) }) of
      None \<Rightarrow> request_receive (\<lambda>t. 0) sample_rq (sample_conn sample_text) 0 error_new no_oom = None
    | Some (ok, r', e', a') \<Rightarrow> \<not> ok \<or> request_get_method r' \<noteq> METHOD_POST \<or> request_get_defered_read r' \<noteq> 0 \<longrightarrow>
        (\<exists>c'. request_receive (\<lambda>t. 0) sample_rq (sample_conn sample_text) 0 error_new no_oom = Some (ok, c', r', e', a') \<and> (ok \<longrightarrow> in_stream c' = []))"
    using receive_meaning [where mktime = "\<lambda>t. 0" and r = sample_rq and e = error_new and a = no_oom and n = 0, OF sample_conn_ok(1,2) sample_lines] by blast
  obtain r' a' where "(do { (ok, r, e, a) \<leftarrow> parse_request_line stale ''GET / HTTP/1.1'' sample_rq error_new no_oom;
      if ok then lines_meaning (\<lambda>t. 0) [''Connection: close''] r e a else Some (failure, r, e, a) }) = Some (True, r', error_new, a')"
    "request_get_method r' = METHOD_GET" "request_get_version r' = VERSION_11" using sample_meaning [of stale] by blast
  then show ?thesis using R by auto
qed

subsection \<open>Properties\<close>

text \<open>
  C9. Receiving keeps the invariants, for every text the peer sends and every behaviour of the network and the
  allocator: when \<open>request_receive\<close> returns, the request and the connection are well formed and nothing was written to
  the peer. After a success the connection is persistent exactly if it was before or the version is 1.1: no
  header field changes that, although comments say that \<open>Connection: close\<close> does.
\<close>
theorem request_receive_invariant:
  assumes "conn_ok c" "rq_ok r" "rq_params r = None" "rq_proxy_authorization r = None"
  shows "case request_receive mktime r c n e a of
      None \<Rightarrow> True
    | Some (st, c', r', e', a') \<Rightarrow> conn_ok c' \<and> rq_ok r' \<and> out_stream c' = out_stream c \<and>
        (st \<longrightarrow> connection_is_persistent c' = (connection_is_persistent c \<or> request_get_version r' = VERSION_11))"
  using request_receive_ok [OF assms, of mktime n e a] by (auto simp: request_get_version_def connection_is_persistent_def split: option.splits)

theorem request_receive_invariant_witness:
  "\<exists>c' r' a'. request_receive (\<lambda>t. 0) sample_rq (sample_conn sample_text) 0 error_new no_oom = Some (success, c', r', error_new, a') \<and> rq_ok r' \<and>
     connection_is_persistent c'"
proof -
  obtain c' r' a' where r: "request_receive (\<lambda>t. 0) sample_rq (sample_conn sample_text) 0 error_new no_oom = Some (True, c', r', error_new, a')"
    "request_get_version r' = VERSION_11" using sample_receive by blast
  have "rq_params sample_rq = None" "rq_proxy_authorization sample_rq = None" by (simp_all add: sample_rq_def)
  from request_receive_invariant [OF sample_conn_ok(1) sample_rq_ok this, of sample_text "\<lambda>t. 0" 0 error_new no_oom] r show ?thesis by simp
qed

text \<open>
  C16. The header loop ends. The loop over the header lines has no bound of its own; the number of bytes that are still to come
  is one: with any larger number of rounds the result is the same, and the loop returns unless the handler of one of the
  lines in these bytes faults.
\<close>
theorem header_loop_ends:
  assumes "conn_ok c" "length (in_stream c) < n"
  shows "header_loop n mktime c r e a = read_request_header_fields mktime c r e a \<and>
    ((\<forall>pre line post d r e a. in_stream c = pre @ line @ post \<longrightarrow> parse_one_field mktime d r line e a \<noteq> None) \<longrightarrow>
      read_request_header_fields mktime c r e a \<noteq> None)"
proof
  show eq: "header_loop n mktime c r e a = read_request_header_fields mktime c r e a"
    unfolding read_request_header_fields_def by (rule header_loop_fuel) (use assms in simp_all)
  show "(\<forall>pre line post d r e a. in_stream c = pre @ line @ post \<longrightarrow> parse_one_field mktime d r line e a \<noteq> None) \<longrightarrow>
      read_request_header_fields mktime c r e a \<noteq> None"
    unfolding eq [symmetric] using header_loop_returns [OF assms] by blast
qed

theorem header_loop_ends_witness:
  "header_loop 5 (\<lambda>t. 0) (sample_conn crlf) sample_rq error_new no_oom = read_request_header_fields (\<lambda>t. 0) (sample_conn crlf) sample_rq error_new no_oom \<and>
   read_request_header_fields (\<lambda>t. 0) (sample_conn crlf) sample_rq error_new no_oom \<noteq> None"
proof -
  have "parse_one_field (\<lambda>t. 0) d r line e a \<noteq> None" if "crlf = pre @ line @ post" for pre line post d r e a
  proof -
    have "CHR '':'' \<notin> set crlf" by (simp add: crlf_def)
    then have "CHR '':'' \<notin> set line" unfolding that by simp
    then have "strchr line (CHR '':'') = None" by (simp only: strchr_None not_False_eq_True)
    then show ?thesis by (simp add: parse_one_field_def get_field_name_def del: not_None_eq)
  qed
  moreover have "length (in_stream (sample_conn crlf)) < 5" by (simp add: sample_conn_ok crlf_def)
  ultimately show ?thesis using header_loop_ends [OF sample_conn_ok(1) [of crlf], of 5 "\<lambda>t. 0" sample_rq error_new no_oom] by (simp add: sample_conn_ok(3))
qed

text \<open>
  C1. What a text means. When the network does not fail and the peer sends a request line, header lines and an empty
  line, receiving the request is parsing the line and then the fields one after the other: the request and the error are those
  of the meaning of the text, in which general header fields come before entity and request fields and unknown ones are
  ignored, and on success exactly the text has been consumed.
\<close>
theorem request_receive_refines:
  assumes "conn_ok c" "quiet c" "in_stream c = line @ crlf @ concat (map (\<lambda>l. l @ crlf) ls) @ crlf @ rest"
    "plain_line line" "length line < 10240" "\<forall>l \<in> set ls. plain_line l \<and> l \<noteq> [] \<and> length l < 8266"
  shows "\<exists>stale. case (do { (ok, r, e, a) \<leftarrow> parse_request_line stale line r e a;
        if ok then lines_meaning mktime ls r e a else Some (failure, r, e, a) }) of
      None \<Rightarrow> request_receive mktime r c n e a = None
    | Some (ok, r', e', a') \<Rightarrow> \<not> ok \<or> request_get_method r' \<noteq> METHOD_POST \<or> request_get_defered_read r' \<noteq> 0 \<longrightarrow>
        (\<exists>c'. request_receive mktime r c n e a = Some (ok, c', r', e', a') \<and> (ok \<longrightarrow> in_stream c' = rest))"
  by (rule receive_meaning [OF assms])

theorem request_receive_refines_witness:
  "\<exists>c' r' a'. request_receive (\<lambda>t. 0) sample_rq (sample_conn sample_text) 0 error_new no_oom = Some (success, c', r', error_new, a') \<and>
     request_get_method r' = METHOD_GET \<and> in_stream c' = []"
proof -
  obtain stale where R: "case (do { (ok, r, e, a) \<leftarrow> parse_request_line stale ''GET / HTTP/1.1'' sample_rq error_new no_oom;
        if ok then lines_meaning (\<lambda>t. 0) [''Connection: close''] r e a else Some (failure, r, e, a) }) of
      None \<Rightarrow> request_receive (\<lambda>t. 0) sample_rq (sample_conn sample_text) 0 error_new no_oom = None
    | Some (ok, r', e', a') \<Rightarrow> \<not> ok \<or> request_get_method r' \<noteq> METHOD_POST \<or> request_get_defered_read r' \<noteq> 0 \<longrightarrow>
        (\<exists>c'. request_receive (\<lambda>t. 0) sample_rq (sample_conn sample_text) 0 error_new no_oom = Some (ok, c', r', e', a') \<and> (ok \<longrightarrow> in_stream c' = []))"
    using request_receive_refines [where mktime = "\<lambda>t. 0" and r = sample_rq and e = error_new and a = no_oom and n = 0, OF sample_conn_ok(1,2) sample_lines] by blast
  obtain r' a' where "(do { (ok, r, e, a) \<leftarrow> parse_request_line stale ''GET / HTTP/1.1'' sample_rq error_new no_oom;
      if ok then lines_meaning (\<lambda>t. 0) [''Connection: close''] r e a else Some (failure, r, e, a) }) = Some (True, r', error_new, a')"
    "request_get_method r' = METHOD_GET" using sample_meaning [of stale] by blast
  then show ?thesis using R by auto
qed

text \<open>
  C19. A request line that was sent is read back. For a request with a known method, version 1.0 or 1.1 and a uri of less than
  236 characters without blanks and question marks, sending the request line over a network that does not fail writes one line, and a peer
  that reads this line gets the same method, uri and version and leaves the rest of its input unread.
\<close>
theorem request_line_roundtrip:
  assumes "conn_ok c" "quiet c" "rq_ok r" "decisions a = []" "request_get_method r \<noteq> METHOD_UNKNOWN" "request_get_version r \<in> {VERSION_10, VERSION_11}"
    "request_get_uri r = Some (Some u)" "u \<noteq> []" "plain_line u" "CHR '' '' \<notin> set u" "CHR ''?'' \<notin> set u" "length u < 236"
    "conn_ok d" "quiet d" "rq_ok r0"
  shows "\<exists>c' line. send_request_line r c e a = Some (success, c', e, a) \<and> out_stream c' = out_stream c @ line @ crlf \<and>
    (in_stream d = line @ crlf @ rest \<longrightarrow> (\<exists>d' r'. read_request_line d r0 e a = Some (success, d', r', e, a) \<and> request_get_method r' = request_get_method r \<and>
       request_get_uri r' = Some (Some u) \<and> request_get_version r' = request_get_version r \<and> in_stream d' = rest))"
proof -
  obtain mw where mw: "method_text (rq_method r) = Some (mw @ '' '')" "get_method mw = rq_method r" "mw \<in> {''GET'', ''HEAD'', ''POST''}"
    using assms(5) by (cases "rq_method r") (auto simp: method_text_def get_method_def request_get_method_def)
  obtain vw where vw: "version_text (rq_version r) = Some ('' '' @ vw @ crlf)" "get_version vw = rq_version r" "vw \<in> {''HTTP/1.0'', ''HTTP/1.1''}"
    using assms(6) by (cases "rq_version r") (auto simp: version_text_def get_version_def request_get_version_def)
  let ?l = "mw @ '' '' @ u @ '' '' @ vw"
  have lens: "length mw \<le> 4" "length vw = 8" "mw \<noteq> []" "vw \<noteq> []" "CHR '' '' \<notin> set mw" "CHR '' '' \<notin> set vw" "CHR 0x0D \<notin> set mw" "CHR 0x0D \<notin> set vw"
    "c_string mw" "c_string vw" using mw(3) vw(3) by auto
  have len: "length ((mw @ '' '') @ u @ ('' '' @ vw @ crlf)) < 256" using lens(1,2) assms(12) by (simp add: crlf_def)
  obtain ok c' where s: "send_request_line r c e a = Some (ok, c', if ok then e else set_os_error e (errno_num (net_errno (cn_net c'))), a)"
    "sends c ((mw @ '' '') @ u @ ('' '' @ vw @ crlf)) (Some (ok, c'))"
    by (rule send_line_bytes [OF assms(1,3,4) mw(1) assms(7) vw(1) len])
  have ok: ok and out: "out_stream c' = out_stream c @ ?l @ crlf" using s(2) assms(2) by (auto simp: sends_def)
  have w: "line_words ?l = [mw, u, vw]" "skip_words 2 ?l = vw" using words3 [OF lens(3,5) assms(8,10) lens(4,6)] by simp_all
  have pl: "plain_line ?l" "length ?l < 256" using lens assms(9,12) by (simp_all add: plain_line_def)
  have res: "request_line_result ?l = Inr (rq_method r, u, rq_version r)"
    unfolding request_line_result_def w Let_def using lens pl(2) mw(2) vw(2) assms(5,6) by (auto simp: request_get_method_def request_get_version_def)
  have "\<exists>d' r'. read_request_line d r0 e a = Some (True, d', r', e, a) \<and> request_get_method r' = request_get_method r \<and>
       request_get_uri r' = Some (Some u) \<and> request_get_version r' = request_get_version r \<and> in_stream d' = rest" if inp: "in_stream d = ?l @ crlf @ rest"
  proof -
    have l1: "length ?l < 10240" using pl(2) by (rule less_trans) simp
    obtain d1 where d1: "read_request_line d r0 e a = map_option (\<lambda>(ok, r, e, a). (ok, d1, r, e, a)) (parse_request_line (net_errno (cn_net d1)) ?l r0 e a)"
      "in_stream d1 = rest" by (rule read_request_line_text [OF assms(13,14) inp pl(1) l1])
    have rp: "cs_rep (rq_uri r0) (cs_str (rq_uri r0))" using assms(15) by (simp add: rq_ok_def rq_strings_ok_def cs_inv_def)
    have "roomy (rq_uri r0) 0 (length ?l) a" using short_roomy [OF rp, of 0 "length ?l"] pl(2) by simp
    moreover have "c_string ?l" "length ?l < 2 ^ 31" "1 < length (line_words ?l) \<longrightarrow> CHR ''?'' \<notin> set (line_words ?l ! 1)"
      using pl assms(11) unfolding w by (simp_all add: plain_line_def)
    ultimately obtain r' where "parse_request_line (net_errno (cn_net d1)) ?l r0 e a = Some (True, r', e, a)" "rq_method r' = rq_method r"
        "request_get_uri r' = Some (Some u)" "rq_version r' = rq_version r"
      using line_step [OF assms(15), of ?l a "net_errno (cn_net d1)" e] res by auto
    then show ?thesis using d1 by (auto simp: request_get_method_def request_get_version_def)
  qed
  then show ?thesis using s(1) ok out by (intro exI [of _ c'] exI [of _ ?l]) simp
qed


definition sent_rq :: http_request where
  "sent_rq = sample_rq\<lparr>rq_method := METHOD_HEAD, rq_version := VERSION_10, rq_flags := REQUEST_URI_SET, rq_uri := cs_of ''/x''\<rparr>"

lemma sent_rq_ok: "rq_ok sent_rq" "request_get_uri sent_rq = Some (Some ''/x'')"
proof -
  show ok: "rq_ok sent_rq"
    by (simp add: rq_ok_def rq_strings_ok_def rq_param_map_def rq_cookie_list_def sent_rq_def sample_rq_def sample_gh_ok sample_eh_ok cs_inv_cs_of cs_rep_str [OF cs_rep_cs_of])
  have "cs_str (cs_of ''/x'') = ''/x''" by (rule cs_rep_str [OF cs_rep_cs_of]) simp_all
  then show "request_get_uri sent_rq = Some (Some ''/x'')" using uri_of_view [OF ok] by (simp add: rq_view_at sent_rq_def rq_flag_defs bit_1_iff)
qed

theorem request_line_roundtrip_witness:
  "\<exists>c' line. send_request_line sent_rq (sample_conn []) error_new no_oom = Some (success, c', error_new, no_oom) \<and>
     out_stream c' = out_stream (sample_conn []) @ line @ crlf"
proof -
  have "decisions no_oom = []" "request_get_method sent_rq \<noteq> METHOD_UNKNOWN" "request_get_version sent_rq \<in> {VERSION_10, VERSION_11}" "''/x'' \<noteq> []" "plain_line ''/x''"
    "CHR '' '' \<notin> set ''/x''" "CHR ''?'' \<notin> set ''/x''" "length ''/x'' < 236"
    by (simp_all add: no_oom_def sent_rq_def request_get_method_def request_get_version_def plain_line_def)
  from request_line_roundtrip [where e = error_new and rest = "[]", OF sample_conn_ok(1) [of "[]"] sample_conn_ok(2) sent_rq_ok(1) this(1-3) sent_rq_ok(2) this(4-8)
      sample_conn_ok(1) [of "[]"] sample_conn_ok(2) sample_rq_ok]
  show ?thesis by blast
qed

end
