(* ===== verification/Response.thy ===== *)
theory Response
  imports Request
begin

section \<open>Responses\<close>

text \<open>
  The response object of \<open>src/http/src/response.c\<close> with its setters, the content and its HTML helpers, cookies, and sending,
  with \<open>src/http/src/send_status_code.c\<close>. Reading a response is in the next theory. The configuration without
  \<open>CHOPPED\<close> is modelled. Three integers of the structure are used as truth values only. The clock, the file system and
  \<open>mktime\<close> are arguments of the definitions that use them. A failing \<open>assert\<close> and a bad access are \<open>None\<close>.
\<close>

subsection \<open>Flags and state\<close>

definition ACCEPT_RANGES :: "64 word" where "ACCEPT_RANGES = 0x1"
definition AGE :: "64 word" where "AGE = 0x2"
definition ALLOW :: "64 word" where "ALLOW = 0x4"
definition CACHE_CONTROL :: "64 word" where "CACHE_CONTROL = 0x8"
definition CONTENT_ENCODING :: "64 word" where "CONTENT_ENCODING = 0x20"
definition CONTENT_LANGUAGE :: "64 word" where "CONTENT_LANGUAGE = 0x40"
definition CONTENT_LENGTH :: "64 word" where "CONTENT_LENGTH = 0x80"
definition CONTENT_LOCATION :: "64 word" where "CONTENT_LOCATION = 0x100"
definition CONTENT_MD5 :: "64 word" where "CONTENT_MD5 = 0x200"
definition CONTENT_RANGE :: "64 word" where "CONTENT_RANGE = 0x400"
definition CONTENT_TYPE :: "64 word" where "CONTENT_TYPE = 0x800"
definition DATE :: "64 word" where "DATE = 0x1000"
definition ETAG :: "64 word" where "ETAG = 0x2000"
definition EXPIRES :: "64 word" where "EXPIRES = 0x4000"
definition LAST_MODIFIED :: "64 word" where "LAST_MODIFIED = 0x8000"
definition LOCATION :: "64 word" where "LOCATION = 0x10000"
definition PROXY_AUTHENTICATE :: "64 word" where "PROXY_AUTHENTICATE = 0x40000"
definition RETRY_AFTER :: "64 word" where "RETRY_AFTER = 0x80000"
definition SERVER :: "64 word" where "SERVER = 0x100000"
definition TRAILER :: "64 word" where "TRAILER = 0x200000"
definition UPGRADE :: "64 word" where "UPGRADE = 0x800000"
definition VARY :: "64 word" where "VARY = 0x1000000"
definition WWW_AUTHENTICATE :: "64 word" where "WWW_AUTHENTICATE = 0x2000000"

lemmas rs_flag_defs =
  ACCEPT_RANGES_def
  AGE_def
  ALLOW_def
  CACHE_CONTROL_def
  CONTENT_ENCODING_def
  CONTENT_LANGUAGE_def
  CONTENT_LENGTH_def
  CONTENT_LOCATION_def
  CONTENT_MD5_def
  CONTENT_RANGE_def
  CONTENT_TYPE_def
  DATE_def
  ETAG_def
  EXPIRES_def
  LAST_MODIFIED_def
  LOCATION_def
  PROXY_AUTHENTICATE_def
  RETRY_AFTER_def
  SERVER_def
  TRAILER_def
  UPGRADE_def
  VARY_def
  WWW_AUTHENTICATE_def

record http_response =
  rs_version :: http_version
  rs_status :: int
  rs_general_header :: general_header
  rs_entity_header :: entity_header
  rs_flags :: "64 word"
  rs_server :: cstring
  rs_entity :: cstring
  rs_age :: nat
  rs_accept_ranges :: int
  rs_etag :: cstring
  rs_location :: cstring
  rs_proxy_authenticate :: cstring
  rs_retry_after :: int
  rs_vary :: cstring
  rs_www_authenticate :: cstring
  rs_cookies :: "cookie mlist option"
  rs_content_buffer :: "char list option"
  rs_content_buffer_in_use :: bool
  rs_content_free_when_done :: bool
  rs_send_file :: bool
  rs_path :: cstring

definition response_set_flag :: "http_response \<Rightarrow> 64 word \<Rightarrow> http_response" where
  "response_set_flag p flag = p\<lparr>rs_flags := rs_flags p OR flag\<rparr>"

definition response_flag_isset :: "http_response \<Rightarrow> 64 word \<Rightarrow> bool" where
  "response_flag_isset p flag \<longleftrightarrow> rs_flags p AND flag \<noteq> 0"

definition response_clear_flags :: "http_response \<Rightarrow> http_response" where
  "response_clear_flags p = p\<lparr>rs_flags := 0\<rparr>"

definition response_get_general_header where "response_get_general_header r = rs_general_header r"
definition response_get_entity_header where "response_get_entity_header r = rs_entity_header r"
definition response_set_version where "response_set_version r v = r\<lparr>rs_version := v\<rparr>"
definition response_set_status where "response_set_status r v = r\<lparr>rs_status := v\<rparr>"
definition response_get_status where "response_get_status r = rs_status r"

text \<open>The bytes from the pointer that is returned: the content buffer, or the string with its terminator; \<open>None\<close> is \<open>NULL\<close>.\<close>

definition response_get_entity :: "http_response \<Rightarrow> char list option" where
  "response_get_entity p = (if rs_content_buffer_in_use p then rs_content_buffer p else Some (cs_data (rs_entity p)))"

subsection \<open>Setters\<close>

definition response_set_etag :: "http_response \<Rightarrow> string \<Rightarrow> allocator \<Rightarrow> (status_t \<times> http_response \<times> allocator) option" where
  "response_set_etag r val a = do {
     (ok, s, a) \<leftarrow> cstring_set (rs_etag r) val a;
     let r = r\<lparr>rs_etag := s\<rparr>;
     Some (if \<not> ok then (failure, r, a) else (success, response_set_flag r ETAG, a)) }"

definition response_set_location :: "http_response \<Rightarrow> string \<Rightarrow> allocator \<Rightarrow> (status_t \<times> http_response \<times> allocator) option" where
  "response_set_location r val a = do {
     (ok, s, a) \<leftarrow> cstring_set (rs_location r) val a;
     let r = r\<lparr>rs_location := s\<rparr>;
     Some (if \<not> ok then (failure, r, a) else (success, response_set_flag r LOCATION, a)) }"

definition response_set_proxy_authenticate :: "http_response \<Rightarrow> string \<Rightarrow> allocator \<Rightarrow> (status_t \<times> http_response \<times> allocator) option" where
  "response_set_proxy_authenticate r val a = do {
     (ok, s, a) \<leftarrow> cstring_set (rs_proxy_authenticate r) val a;
     let r = r\<lparr>rs_proxy_authenticate := s\<rparr>;
     Some (if \<not> ok then (failure, r, a) else (success, response_set_flag r PROXY_AUTHENTICATE, a)) }"

definition response_set_server :: "http_response \<Rightarrow> string \<Rightarrow> allocator \<Rightarrow> (status_t \<times> http_response \<times> allocator) option" where
  "response_set_server r val a = do {
     (ok, s, a) \<leftarrow> cstring_set (rs_server r) val a;
     let r = r\<lparr>rs_server := s\<rparr>;
     Some (if \<not> ok then (failure, r, a) else (success, response_set_flag r SERVER, a)) }"

definition response_set_vary :: "http_response \<Rightarrow> string \<Rightarrow> allocator \<Rightarrow> (status_t \<times> http_response \<times> allocator) option" where
  "response_set_vary r val a = do {
     (ok, s, a) \<leftarrow> cstring_set (rs_vary r) val a;
     let r = r\<lparr>rs_vary := s\<rparr>;
     Some (if \<not> ok then (failure, r, a) else (success, response_set_flag r VARY, a)) }"

definition response_set_www_authenticate :: "http_response \<Rightarrow> string \<Rightarrow> allocator \<Rightarrow> (status_t \<times> http_response \<times> allocator) option" where
  "response_set_www_authenticate r val a = do {
     (ok, s, a) \<leftarrow> cstring_set (rs_www_authenticate r) val a;
     let r = r\<lparr>rs_www_authenticate := s\<rparr>;
     Some (if \<not> ok then (failure, r, a) else (success, response_set_flag r WWW_AUTHENTICATE, a)) }"

definition response_set_age :: "http_response \<Rightarrow> nat \<Rightarrow> http_response" where
  "response_set_age r age = response_set_flag (r\<lparr>rs_age := age\<rparr>) AGE"

definition response_set_accept_ranges :: "http_response \<Rightarrow> int \<Rightarrow> http_response option" where
  "response_set_accept_ranges r val = (if val = 0 \<or> val = 1 then Some (response_set_flag (r\<lparr>rs_accept_ranges := val\<rparr>) ACCEPT_RANGES) else None)"

definition response_set_retry_after :: "http_response \<Rightarrow> int \<Rightarrow> http_response option" where
  "response_set_retry_after r val = (if val \<noteq> 0 then Some (response_set_flag (r\<lparr>rs_retry_after := val\<rparr>) RETRY_AFTER) else None)"

text \<open>The setters of fields that the general and the entity header keep.\<close>

definition response_set_connection :: "http_response \<Rightarrow> string \<Rightarrow> allocator \<Rightarrow> (status_t \<times> http_response \<times> allocator) option" where
  "response_set_connection r val a = do {
     (ok, h, a) \<leftarrow> general_header_set_connection (rs_general_header r) val a;
     Some (ok, r\<lparr>rs_general_header := h\<rparr>, a) }"

definition response_set_pragma :: "http_response \<Rightarrow> string \<Rightarrow> allocator \<Rightarrow> (status_t \<times> http_response \<times> allocator) option" where
  "response_set_pragma r val a = do {
     (ok, h, a) \<leftarrow> general_header_set_pragma (rs_general_header r) val a;
     Some (ok, r\<lparr>rs_general_header := h\<rparr>, a) }"

definition response_set_trailer :: "http_response \<Rightarrow> string \<Rightarrow> allocator \<Rightarrow> (status_t \<times> http_response \<times> allocator) option" where
  "response_set_trailer r val a = do {
     (ok, h, a) \<leftarrow> general_header_set_trailer (rs_general_header r) val a;
     Some (ok, r\<lparr>rs_general_header := h\<rparr>, a) }"

definition response_set_transfer_encoding :: "http_response \<Rightarrow> string \<Rightarrow> allocator \<Rightarrow> (status_t \<times> http_response \<times> allocator) option" where
  "response_set_transfer_encoding r val a = do {
     (ok, h, a) \<leftarrow> general_header_set_transfer_encoding (rs_general_header r) val a;
     Some (ok, r\<lparr>rs_general_header := h\<rparr>, a) }"

definition response_set_upgrade :: "http_response \<Rightarrow> string \<Rightarrow> allocator \<Rightarrow> (status_t \<times> http_response \<times> allocator) option" where
  "response_set_upgrade r val a = do {
     (ok, h, a) \<leftarrow> general_header_set_upgrade (rs_general_header r) val a;
     Some (ok, r\<lparr>rs_general_header := h\<rparr>, a) }"

definition response_set_via :: "http_response \<Rightarrow> string \<Rightarrow> allocator \<Rightarrow> (status_t \<times> http_response \<times> allocator) option" where
  "response_set_via r val a = do {
     (ok, h, a) \<leftarrow> general_header_set_via (rs_general_header r) val a;
     Some (ok, r\<lparr>rs_general_header := h\<rparr>, a) }"

definition response_set_warning :: "http_response \<Rightarrow> string \<Rightarrow> allocator \<Rightarrow> (status_t \<times> http_response \<times> allocator) option" where
  "response_set_warning r val a = do {
     (ok, h, a) \<leftarrow> general_header_set_warning (rs_general_header r) val a;
     Some (ok, r\<lparr>rs_general_header := h\<rparr>, a) }"

definition response_set_content_type :: "http_response \<Rightarrow> string \<Rightarrow> allocator \<Rightarrow> (status_t \<times> http_response \<times> allocator) option" where
  "response_set_content_type r val a = do {
     (ok, h, a) \<leftarrow> entity_header_set_content_type (rs_entity_header r) val a;
     Some (ok, r\<lparr>rs_entity_header := h\<rparr>, a) }"

definition response_set_allow :: "http_response \<Rightarrow> string \<Rightarrow> allocator \<Rightarrow> (status_t \<times> http_response \<times> allocator) option" where
  "response_set_allow r val a = do {
     (ok, h, a) \<leftarrow> entity_header_set_allow (rs_entity_header r) val a;
     Some (ok, r\<lparr>rs_entity_header := h\<rparr>, a) }"

definition response_set_content_encoding :: "http_response \<Rightarrow> string \<Rightarrow> allocator \<Rightarrow> (status_t \<times> http_response \<times> allocator) option" where
  "response_set_content_encoding r val a = do {
     (ok, h, a) \<leftarrow> entity_header_set_content_encoding (rs_entity_header r) val a;
     Some (ok, r\<lparr>rs_entity_header := h\<rparr>, a) }"

definition response_set_content_location :: "http_response \<Rightarrow> string \<Rightarrow> allocator \<Rightarrow> (status_t \<times> http_response \<times> allocator) option" where
  "response_set_content_location r val a = do {
     (ok, h, a) \<leftarrow> entity_header_set_content_location (rs_entity_header r) val a;
     Some (ok, r\<lparr>rs_entity_header := h\<rparr>, a) }"

definition response_set_content_md5 :: "http_response \<Rightarrow> string \<Rightarrow> allocator \<Rightarrow> (status_t \<times> http_response \<times> allocator) option" where
  "response_set_content_md5 r val a = do {
     (ok, h, a) \<leftarrow> entity_header_set_content_md5 (rs_entity_header r) val a;
     Some (ok, r\<lparr>rs_entity_header := h\<rparr>, a) }"

definition response_set_content_range :: "http_response \<Rightarrow> string \<Rightarrow> allocator \<Rightarrow> (status_t \<times> http_response \<times> allocator) option" where
  "response_set_content_range r val a = do {
     (ok, h, a) \<leftarrow> entity_header_set_content_range (rs_entity_header r) val a;
     Some (ok, r\<lparr>rs_entity_header := h\<rparr>, a) }"

definition response_set_content_language :: "http_response \<Rightarrow> string \<Rightarrow> error \<Rightarrow> allocator \<Rightarrow> (status_t \<times> http_response \<times> error \<times> allocator) option" where
  "response_set_content_language r val e a = do {
     (ok, h, e, a) \<leftarrow> entity_header_set_content_language (rs_entity_header r) val e a;
     Some (ok, r\<lparr>rs_entity_header := h\<rparr>, e, a) }"

definition response_set_date :: "http_response \<Rightarrow> int \<Rightarrow> http_response option" where
  "response_set_date r val = do { h \<leftarrow> general_header_set_date (rs_general_header r) val; Some (r\<lparr>rs_general_header := h\<rparr>) }"

definition response_set_cachecontrol_public where
  "response_set_cachecontrol_public r = r\<lparr>rs_general_header := general_header_set_public (rs_general_header r)\<rparr>"
definition response_set_cachecontrol_private where
  "response_set_cachecontrol_private r = r\<lparr>rs_general_header := general_header_set_private (rs_general_header r)\<rparr>"
definition response_set_cachecontrol_no_cache where
  "response_set_cachecontrol_no_cache r = r\<lparr>rs_general_header := general_header_set_no_cache (rs_general_header r)\<rparr>"
definition response_set_cachecontrol_no_store where
  "response_set_cachecontrol_no_store r = r\<lparr>rs_general_header := general_header_set_no_store (rs_general_header r)\<rparr>"
definition response_set_cachecontrol_no_transform where
  "response_set_cachecontrol_no_transform r = r\<lparr>rs_general_header := general_header_set_no_transform (rs_general_header r)\<rparr>"
definition response_set_cachecontrol_must_revalidate where
  "response_set_cachecontrol_must_revalidate r = r\<lparr>rs_general_header := general_header_set_must_revalidate (rs_general_header r)\<rparr>"
definition response_set_cachecontrol_proxy_revalidate where
  "response_set_cachecontrol_proxy_revalidate r = r\<lparr>rs_general_header := general_header_set_proxy_revalidate (rs_general_header r)\<rparr>"
definition response_set_cachecontrol_max_age where
  "response_set_cachecontrol_max_age r val = r\<lparr>rs_general_header := general_header_set_max_age (rs_general_header r) val\<rparr>"
definition response_set_cachecontrol_s_maxage where
  "response_set_cachecontrol_s_maxage r val = r\<lparr>rs_general_header := general_header_set_s_maxage (rs_general_header r) val\<rparr>"
definition response_set_content_length where
  "response_set_content_length r val = r\<lparr>rs_entity_header := entity_header_set_content_length (rs_entity_header r) val\<rparr>"
definition response_set_expires where
  "response_set_expires r val = r\<lparr>rs_entity_header := entity_header_set_expires (rs_entity_header r) val\<rparr>"
definition response_set_last_modified where
  "response_set_last_modified r val = r\<lparr>rs_entity_header := entity_header_set_last_modified (rs_entity_header r) val\<rparr>"

definition response_get_connection :: "http_response \<Rightarrow> string option" where
  "response_get_connection r = general_header_get_connection (rs_general_header r)"

text \<open>
  The structure has 152 bytes. When the strings cannot be allocated the headers are leaked; when a default cannot be set the
  response is freed.
\<close>

definition response_new :: "allocator \<Rightarrow> (http_response option \<times> allocator) option" where
  "response_new a = (
     let (ok, a) = try_alloc 152 a in
     if \<not> ok then Some (None, a)
     else do {
       (gh, a) \<leftarrow> general_header_new a;
       (case gh of
          None \<Rightarrow> Some (None, a)
        | Some gh \<Rightarrow> do {
            (eh, a) \<leftarrow> entity_header_new a;
            (case eh of
               None \<Rightarrow> Some (None, a)
             | Some eh \<Rightarrow> do {
                 (ok, strings, a) \<leftarrow> cstring_multinew 8 a;
                 if \<not> ok then Some (None, a)
                 else (case list_new a of
                     (None, a) \<Rightarrow> Some (None, a)
                   | (Some cookies, a) \<Rightarrow> do {
                       let p = \<lparr>rs_version = VERSION_UNKNOWN, rs_status = 0, rs_general_header = gh, rs_entity_header = eh, rs_flags = 0,
                         rs_server = strings ! 3, rs_entity = strings ! 6, rs_age = 0, rs_accept_ranges = 0, rs_etag = strings ! 0,
                         rs_location = strings ! 1, rs_proxy_authenticate = strings ! 2, rs_retry_after = - 1, rs_vary = strings ! 4,
                         rs_www_authenticate = strings ! 5, rs_cookies = Some cookies, rs_content_buffer = None,
                         rs_content_buffer_in_use = False, rs_content_free_when_done = False, rs_send_file = False, rs_path = strings ! 7\<rparr>;
                       (ok, p, a) \<leftarrow> response_set_content_type p ''text/html'' a;
                       if \<not> ok then Some (None, a)
                       else do {
                         (ok, p, a) \<leftarrow> response_set_server p ''chopped'' a;
                         Some (if \<not> ok then (None, a) else (Some p, a)) } }) }) }) })"

text \<open>A failure to set the default type is only warned about; a list that cannot be allocated leaves \<open>NULL\<close>.\<close>

definition response_recycle :: "http_response \<Rightarrow> allocator \<Rightarrow> (http_response \<times> allocator) option" where
  "response_recycle p a = do {
     eh \<leftarrow> entity_header_recycle (rs_entity_header p);
     (l, a) \<leftarrow> (case rs_cookies p of
         None \<Rightarrow> Some (None, a)
       | Some l \<Rightarrow> do { list_free l; Some (list_new a) });
     entity \<leftarrow> cstring_recycle (rs_entity p);
     path \<leftarrow> cstring_recycle (rs_path p);
     etag \<leftarrow> cstring_recycle (rs_etag p);
     location \<leftarrow> cstring_recycle (rs_location p);
     proxy_authenticate \<leftarrow> cstring_recycle (rs_proxy_authenticate p);
     server \<leftarrow> cstring_recycle (rs_server p);
     vary \<leftarrow> cstring_recycle (rs_vary p);
     www_authenticate \<leftarrow> cstring_recycle (rs_www_authenticate p);
     let p = response_clear_flags (p\<lparr>rs_general_header := general_header_recycle (rs_general_header p), rs_entity_header := eh, rs_cookies := l,
       rs_entity := entity, rs_path := path, rs_etag := etag, rs_location := location, rs_proxy_authenticate := proxy_authenticate,
       rs_server := server, rs_vary := vary, rs_www_authenticate := www_authenticate\<rparr>);
     (ok, p, a) \<leftarrow> response_set_content_type p ''text/html'' a;
     Some (p\<lparr>rs_content_buffer_in_use := False, rs_content_free_when_done := False, rs_send_file := False\<rparr>, a) }"

subsection \<open>The content\<close>

definition response_add :: "http_response \<Rightarrow> string \<Rightarrow> allocator \<Rightarrow> (status_t \<times> http_response \<times> allocator) option" where
  "response_add p val a = do { (ok, s, a) \<leftarrow> cstring_concat (rs_entity p) val a; Some (ok, p\<lparr>rs_entity := s\<rparr>, a) }"

definition response_add_char :: "http_response \<Rightarrow> char \<Rightarrow> allocator \<Rightarrow> (status_t \<times> http_response \<times> allocator) option" where
  "response_add_char p c a = do { (ok, s, a) \<leftarrow> cstring_charcat (rs_entity p) c a; Some (ok, p\<lparr>rs_entity := s\<rparr>, a) }"

definition response_add_end :: "http_response \<Rightarrow> char list \<Rightarrow> allocator \<Rightarrow> (status_t \<times> http_response \<times> allocator) option" where
  "response_add_end p bs a = do { (ok, s, a) \<leftarrow> cstring_pcat (rs_entity p) bs a; Some (ok, p\<lparr>rs_entity := s\<rparr>, a) }"

text \<open>\<open>out\<close> is the formatted text, \<open>None\<close> when \<open>vsnprintf\<close> fails.\<close>

definition response_printf :: "http_response \<Rightarrow> string option \<Rightarrow> allocator \<Rightarrow> (status_t \<times> http_response \<times> allocator) option" where
  "response_printf p out a = do { (ok, s, a) \<leftarrow> cstring_vprintf (rs_entity p) out a; Some (ok, p\<lparr>rs_entity := s\<rparr>, a) }"

definition add3 :: "http_response \<Rightarrow> string \<Rightarrow> string \<Rightarrow> string \<Rightarrow> allocator \<Rightarrow> (status_t \<times> http_response \<times> allocator) option" where
  "add3 p s1 s2 s3 a = do { (ok, s, a) \<leftarrow> cstring_concat3 (rs_entity p) s1 s2 s3 a; Some (ok, p\<lparr>rs_entity := s\<rparr>, a) }"

definition response_td where "response_td p s a = add3 p ''<td>'' s (''</td>'' @ [CHR 0x0A]) a"
definition response_p where "response_p p s a = add3 p ''<p>'' s (''</p>'' @ [CHR 0x0A]) a"
definition response_h1 where "response_h1 p s a = add3 p ''<h1>'' s (''</h1>'' @ [CHR 0x0A]) a"
definition response_h2 where "response_h2 p s a = add3 p ''<h2>'' s (''</h2>'' @ [CHR 0x0A]) a"
definition response_h3 where "response_h3 p s a = add3 p ''<h3>'' s (''</h3>'' @ [CHR 0x0A]) a"
definition response_h4 where "response_h4 p s a = add3 p ''<h4>'' s (''</h4>'' @ [CHR 0x0A]) a"
definition response_h5 where "response_h5 p s a = add3 p ''<h5>'' s (''</h5>'' @ [CHR 0x0A]) a"
definition response_h6 where "response_h6 p s a = add3 p ''<h6>'' s (''</h6>'' @ [CHR 0x0A]) a"
definition response_h7 where "response_h7 p s a = add3 p ''<h7>'' s (''</h7>'' @ [CHR 0x0A]) a"
definition response_h8 where "response_h8 p s a = add3 p ''<h8>'' s (''</h8>'' @ [CHR 0x0A]) a"
definition response_h9 where "response_h9 p s a = add3 p ''<h9>'' s (''</h9>'' @ [CHR 0x0A]) a"
definition response_br where "response_br p a = response_add p ''<br>'' a"
definition response_hr where "response_hr p a = response_add p ''<hr>'' a"

definition printf_out :: "string \<Rightarrow> string option" where
  "printf_out t = (if int (length t) \<le> INT_MAX then Some t else None)"

definition response_href :: "http_response \<Rightarrow> string \<Rightarrow> string \<Rightarrow> allocator \<Rightarrow> (status_t \<times> http_response \<times> allocator) option" where
  "response_href p ref s a = response_printf p (printf_out (''<a href='' @ [CHR 0x22] @ ref @ [CHR 0x22] @ ''>'' @ s @ ''</a>'')) a"

definition response_js_messagebox where
  "response_js_messagebox p s a = add3 p (''<script language='' @ [CHR 0x22] @ ''javascript'' @ [CHR 0x22] @ ''>'' @ [CHR 0x0A] @ ''alert('' @ [CHR 0x22]) s
     ([CHR 0x22] @ '');'' @ [CHR 0x0A] @ ''</script>'' @ [CHR 0x0A]) a"

definition response_get_content_length :: "http_response \<Rightarrow> size_t option" where
  "response_get_content_length p = (
     if entity_header_content_length_isset (rs_entity_header p) then entity_header_get_content_length (rs_entity_header p)
     else Some (cs_len (rs_entity p)))"

definition response_set_content_buffer :: "http_response \<Rightarrow> char list \<Rightarrow> size_t \<Rightarrow> http_response" where
  "response_set_content_buffer p data cb = response_set_content_length
     ((response_set_flag p CONTENT_LENGTH)\<lparr>rs_content_buffer_in_use := True, rs_content_buffer := Some data\<rparr>) cb"

definition response_set_allocated_content_buffer :: "http_response \<Rightarrow> char list \<Rightarrow> size_t \<Rightarrow> http_response" where
  "response_set_allocated_content_buffer p data cb = response_set_content_length
     ((response_set_flag p CONTENT_LENGTH)\<lparr>rs_content_free_when_done := True, rs_content_buffer_in_use := True, rs_content_buffer := Some data\<rparr>) cb"

text \<open>\<open>stat_size\<close> is the size that \<open>stat\<close> reports, \<open>None\<close> when it fails.\<close>

definition response_send_file :: "(string \<Rightarrow> size_t option) \<Rightarrow> http_response \<Rightarrow> string \<Rightarrow> string \<Rightarrow> error \<Rightarrow> allocator \<Rightarrow>
    (status_t \<times> http_response \<times> error \<times> allocator) option" where
  "response_send_file stat_size p path ctype e a = (
     case stat_size path of
       None \<Rightarrow> Some (failure, p, e, a)
     | Some st_size \<Rightarrow> do {
         (ok, p, a) \<leftarrow> response_set_content_type p ctype a;
         if \<not> ok then Some (failure, p, set_os_error e (errno_num ENOMEM), a)
         else do {
           let p = response_set_content_length p st_size;
           (ok, s, a) \<leftarrow> cstring_set (rs_path p) path a;
           let p = p\<lparr>rs_path := s\<rparr>;
           Some (if ok then (success, p\<lparr>rs_send_file := True\<rparr>, e, a) else (failure, p, set_os_error e (errno_num ENOMEM), a)) } })"

subsection \<open>Cookies\<close>

text \<open>A cookie with the name of one that is there is refused; the state of the loop is whether there was one.\<close>

definition response_set_cookie :: "http_response \<Rightarrow> cookie \<Rightarrow> allocator \<Rightarrow> (status_t \<times> errno_t \<times> http_response \<times> allocator) option" where
  "response_set_cookie p new_cookie a = do {
     l \<leftarrow> rs_cookies p;
     nameNew \<leftarrow> cookie_get_name new_cookie;
     q \<leftarrow> list_first l;
     dup \<leftarrow> for_nodes (cells l) (\<lambda>n _ d. do {
         c \<leftarrow> item_of n;
         nameOld \<leftarrow> cookie_get_name c;
         Some (if strcmp0 nameNew nameOld then (False, True) else (True, d)) }) q False;
     if dup then Some (failure, EINVAL, p, a)
     else do {
       (ok, l, a) \<leftarrow> list_add (Some l) new_cookie a;
       Some (ok, if ok then E0 else ENOMEM, p\<lparr>rs_cookies := l\<rparr>, a) } }"

definition isalnum :: "char \<Rightarrow> bool" where
  "isalnum c \<longleftrightarrow> isalpha c \<or> isdigit c"

definition need_quote :: "string \<Rightarrow> bool" where
  "need_quote s \<longleftrightarrow> (\<exists>c \<in> set s. \<not> isalnum c \<and> c \<noteq> CHR ''_'')"

fun quote_loop :: "cstring \<Rightarrow> string \<Rightarrow> allocator \<Rightarrow> (status_t \<times> cstring \<times> allocator) option" where
  "quote_loop dest [] a = Some (success, dest, a)"
| "quote_loop dest (c # s) a = do {
     (ok, dest, a) \<leftarrow> (if c = CHR 0x27 then cstring_charcat dest (CHR 0x5C) a else Some (success, dest, a));
     if \<not> ok then Some (failure, dest, a)
     else do {
       (ok, dest, a) \<leftarrow> cstring_charcat dest c a;
       if \<not> ok then Some (failure, dest, a) else quote_loop dest s a } }"

definition strcat_quoted :: "cstring \<Rightarrow> string \<Rightarrow> allocator \<Rightarrow> (status_t \<times> cstring \<times> allocator) option" where
  "strcat_quoted dest s a = do {
     (ok, dest, a) \<leftarrow> cstring_charcat dest (CHR 0x27) a;
     if \<not> ok then Some (failure, dest, a)
     else do {
       (ok, dest, a) \<leftarrow> quote_loop dest s a;
       if \<not> ok then Some (failure, dest, a) else cstring_charcat dest (CHR 0x27) a } }"

text \<open>
  The steps of \<open>create_cookie_string\<close> run one after the other until one fails. The strings of a cookie are never
  \<open>NULL\<close>. Whether to quote is asked of the string that is being built, not of the value, and the plain value
  follows the quoted one.
\<close>

fun run_steps :: "(cstring \<Rightarrow> allocator \<Rightarrow> (status_t \<times> cstring \<times> allocator) option) list \<Rightarrow> cstring \<Rightarrow> allocator \<Rightarrow>
    (status_t \<times> cstring \<times> allocator) option" where
  "run_steps [] str a = Some (success, str, a)"
| "run_steps (f # fs) str a = do {
     (ok, str, a) \<leftarrow> f str a;
     if \<not> ok then Some (failure, str, a) else run_steps fs str a }"

definition create_cookie_string :: "cookie \<Rightarrow> cstring \<Rightarrow> allocator \<Rightarrow> (status_t \<times> cstring \<times> allocator) option" where
  "create_cookie_string c str a = do {
     name \<leftarrow> cookie_get_name c;
     val \<leftarrow> cookie_get_value c;
     domain \<leftarrow> cookie_get_domain c;
     comment \<leftarrow> cookie_get_comment c;
     path \<leftarrow> cookie_get_path c;
     run_steps [
       \<lambda>str a. cstring_set str ''Set-Cookie: '' a,
       \<lambda>str a. cstring_concat str name a,
       \<lambda>str a. cstring_charcat str (CHR ''='') a,
       \<lambda>str a. do { s \<leftarrow> cstr_at (cs_data str) 0; if need_quote s then strcat_quoted str val a else Some (success, str, a) },
       \<lambda>str a. cstring_concat str val a,
       \<lambda>str a. cstring_printf str (printf_out ('';Version='' @ int_str (cookie_get_version c))) a,
       \<lambda>str a. if cookie_get_max_age c \<noteq> MAX_AGE_NOT_SET then cstring_printf str (printf_out ('';Max-Age='' @ int_str (cookie_get_max_age c))) a
         else Some (success, str, a),
       \<lambda>str a. cstring_printf str (printf_out ('';Secure='' @ int_str (cookie_get_secure c))) a,
       \<lambda>str a. cstring_concat2 str '';Domain='' domain a,
       \<lambda>str a. cstring_concat2 str '';Comment='' comment a,
       \<lambda>str a. cstring_concat2 str '';Path='' path a,
       \<lambda>str a. cstring_concat str crlf a] str a }"

definition send_cookie :: "cookie \<Rightarrow> connection \<Rightarrow> error \<Rightarrow> allocator \<Rightarrow> (status_t \<times> connection \<times> error \<times> allocator) option" where
  "send_cookie c conn e a = (
     case cstring_new a of
       (None, a) \<Rightarrow> Some (failure, conn, set_os_error e (errno_num ENOMEM), a)
     | (Some s, a) \<Rightarrow> do {
         (ok, s, a) \<leftarrow> create_cookie_string c s a;
         if \<not> ok then Some (failure, conn, set_os_error e (errno_num ENOMEM), a)
         else do {
           bs \<leftarrow> cs_bytes s;
           (ok, conn) \<leftarrow> connection_write conn bs;
           Some (if ok then (success, conn, e, a) else (failure, conn, set_tcpip_error e (errno_num (net_errno (cn_net conn))), a)) } })"

definition response_send_cookies :: "cookie mlist \<Rightarrow> connection \<Rightarrow> error \<Rightarrow> allocator \<Rightarrow> (status_t \<times> connection \<times> error \<times> allocator) option" where
  "response_send_cookies l conn e a = do {
     q \<leftarrow> list_first l;
     for_nodes (cells l) (\<lambda>n _ (_, conn, e, a). do {
       c \<leftarrow> item_of n;
       (ok, conn, e, a) \<leftarrow> send_cookie c conn e a;
       Some (ok, (ok, conn, e, a)) }) q (success, conn, e, a) }"

subsection \<open>Sending\<close>

definition m_http_status10 :: "(int \<times> string) list" where
  "m_http_status10 = [
     (200, ''HTTP/1.0 200 OK'' @ crlf),
     (201, ''HTTP/1.0 201 Created'' @ crlf),
     (202, ''HTTP/1.0 202 Accepted'' @ crlf),
     (204, ''HTTP/1.0 204 No Content'' @ crlf),
     (205, ''HTTP/1.0 205 Reset Content'' @ crlf),
     (206, ''HTTP/1.0 206 Partial Content'' @ crlf),
     (301, ''HTTP/1.0 301 Moved Permanently'' @ crlf),
     (302, ''HTTP/1.0 302 Found'' @ crlf),
     (304, ''HTTP/1.0 304 Not Modified'' @ crlf),
     (400, ''HTTP/1.0 400 Bad Request'' @ crlf),
     (401, ''HTTP/1.0 401 Unauthorized'' @ crlf),
     (403, ''HTTP/1.0 403 Forbidden'' @ crlf),
     (404, ''HTTP/1.0 404 Not Found'' @ crlf),
     (500, ''HTTP/1.0 500 Internal Server Error'' @ crlf),
     (501, ''HTTP/1.0 501 Not Implemented'' @ crlf),
     (502, ''HTTP/1.0 502 Bad Gateway'' @ crlf),
     (503, ''HTTP/1.0 503 Service Unavailable'' @ crlf)]"

definition m_http_status11 :: "(int \<times> string) list" where
  "m_http_status11 = [
     (100, ''HTTP/1.1 100 Continue'' @ crlf),
     (101, ''HTTP/1.1 101 Switching Protocols'' @ crlf),
     (200, ''HTTP/1.1 200 OK'' @ crlf),
     (201, ''HTTP/1.1 201 Created'' @ crlf),
     (202, ''HTTP/1.1 202 Accepted'' @ crlf),
     (203, ''HTTP/1.1 203 Non-Authorative Information'' @ crlf),
     (204, ''HTTP/1.1 204 No Content'' @ crlf),
     (205, ''HTTP/1.1 205 Reset Content'' @ crlf),
     (206, ''HTTP/1.1 206 Partial Content'' @ crlf),
     (300, ''HTTP/1.1 300 Multiple Choices'' @ crlf),
     (301, ''HTTP/1.1 301 Moved Permanently'' @ crlf),
     (302, ''HTTP/1.1 302 Found'' @ crlf),
     (303, ''HTTP/1.1 303 See Other'' @ crlf),
     (304, ''HTTP/1.1 304 Not Modified'' @ crlf),
     (305, ''HTTP/1.1 305 Use Proxy'' @ crlf),
     (307, ''HTTP/1.1 307 Temporary Redirect'' @ crlf),
     (400, ''HTTP/1.1 400 Bad Request'' @ crlf),
     (401, ''HTTP/1.1 401 Unauthorized'' @ crlf),
     (402, ''HTTP/1.1 402 Payment Required'' @ crlf),
     (403, ''HTTP/1.1 403 Forbidden'' @ crlf),
     (404, ''HTTP/1.1 404 Not Found'' @ crlf),
     (405, ''HTTP/1.1 405 Method Not Allowed'' @ crlf),
     (406, ''HTTP/1.1 406 Not Acceptable'' @ crlf),
     (407, ''HTTP/1.1 407 Proxy Authentication Required'' @ crlf),
     (408, ''HTTP/1.1 408 Request Time-out'' @ crlf),
     (409, ''HTTP/1.1 409 Conflict'' @ crlf),
     (410, ''HTTP/1.1 410 Gone'' @ crlf),
     (411, ''HTTP/1.1 411 Length Required'' @ crlf),
     (412, ''HTTP/1.1 412 Precondition Failed'' @ crlf),
     (413, ''HTTP/1.1 413 Request Entity Too Large'' @ crlf),
     (414, ''HTTP/1.1 414 Request-URI Too Large'' @ crlf),
     (415, ''HTTP/1.1 415 Unsupported Media Type'' @ crlf),
     (416, ''HTTP/1.1 416 Requested range not satisfiable'' @ crlf),
     (417, ''HTTP/1.1 417 Expectation Failed'' @ crlf),
     (500, ''HTTP/1.1 500 Internal Server Error'' @ crlf),
     (501, ''HTTP/1.1 501 Not Implemented'' @ crlf),
     (502, ''HTTP/1.1 502 Bad Gateway'' @ crlf),
     (503, ''HTTP/1.1 503 Service Unavailable'' @ crlf),
     (504, ''HTTP/1.1 504 Gateway time-out'' @ crlf),
     (505, ''HTTP/1.1 505 HTTP Version not supported'' @ crlf)]"

text \<open>A code that is not in the table is printed to \<open>stderr\<close> and nothing is sent.\<close>

definition send_status_code :: "connection \<Rightarrow> int \<Rightarrow> http_version \<Rightarrow> (status_t \<times> connection) option" where
  "send_status_code conn status_code version = (
     case map_of (if version = VERSION_10 then m_http_status10 else m_http_status11) status_code of
       Some t \<Rightarrow> connection_write conn t
     | None \<Rightarrow> Some (failure, conn))"

definition send_age where "send_age p c = http_send_ulong c ''Age: '' (of_nat (rs_age p))"
definition send_etag where "send_etag p c = http_send_field c ''ETag: '' (rs_etag p)"
definition send_location where "send_location p c = http_send_field c ''Location: '' (rs_location p)"
definition send_proxy_authenticate where "send_proxy_authenticate p c = http_send_field c ''Proxy-Authenticate: '' (rs_proxy_authenticate p)"
definition send_server where "send_server p c = http_send_field c ''Server: '' (rs_server p)"
definition send_vary where "send_vary p c = http_send_field c ''Vary: '' (rs_vary p)"
definition send_www_authenticate where "send_www_authenticate p c = http_send_field c ''WWW-Authenticate: '' (rs_www_authenticate p)"
definition send_retry_after where "send_retry_after p c = http_send_date c ''Retry-After: '' (rs_retry_after p)"
definition send_accept_ranges where
  "send_accept_ranges p c = connection_write c (if rs_accept_ranges p = 1 then ''Accept-Ranges: bytes'' @ crlf else ''Accept-Ranges: none'' @ crlf)"

definition rs_send_fields :: "(64 word \<times> (http_response \<Rightarrow> connection \<Rightarrow> (status_t \<times> connection) option)) list" where
  "rs_send_fields = [
     (AGE, send_age),
     (ETAG, send_etag),
     (LOCATION, send_location),
     (PROXY_AUTHENTICATE, send_proxy_authenticate),
     (SERVER, send_server),
     (VARY, send_vary),
     (WWW_AUTHENTICATE, send_www_authenticate),
     (ACCEPT_RANGES, send_accept_ranges),
     (RETRY_AFTER, send_retry_after)]"

text \<open>\<open>now\<close> is what \<open>time\<close> returns.\<close>

definition response_send_header_fields :: "int \<Rightarrow> http_response \<Rightarrow> connection \<Rightarrow> (status_t \<times> http_response \<times> connection) option" where
  "response_send_header_fields now p conn = do {
     gh \<leftarrow> (if \<not> general_header_date_isset (rs_general_header p) then general_header_set_date (rs_general_header p) now
            else Some (rs_general_header p));
     let p = p\<lparr>rs_general_header := gh\<rparr>;
     (ok, conn) \<leftarrow> do {
       (ok, conn) \<leftarrow> general_header_send_fields (rs_general_header p) conn;
       if ok then do {
         (ok, conn) \<leftarrow> entity_header_send_fields (rs_entity_header p) conn;
         if ok then send_table response_flag_isset rs_send_fields p conn else Some (failure, conn) }
       else Some (failure, conn) };
     Some (ok, p, conn) }"

definition response_send_header :: "int \<Rightarrow> http_response \<Rightarrow> connection \<Rightarrow> error \<Rightarrow> allocator \<Rightarrow>
    (status_t \<times> http_response \<times> connection \<times> error \<times> allocator) option" where
  "response_send_header now p conn e a = (
     if rs_version p = VERSION_09 then Some (failure, p, conn, e, a)
     else do {
       (ok, p, a) \<leftarrow> (if connection_is_persistent conn \<and> rs_version p = VERSION_10 then response_set_connection p ''Keep-Alive'' a
                     else Some (success, p, a));
       if \<not> ok then Some (failure, p, conn, set_os_error e (errno_num ENOMEM), a)
       else do {
         (ok, p, conn) \<leftarrow> response_send_header_fields now p conn;
         if \<not> ok then Some (failure, p, conn, set_tcpip_error e (errno_num (net_errno (cn_net conn))), a)
         else do {
           (ok, conn, e, a) \<leftarrow> (case rs_cookies p of None \<Rightarrow> Some (success, conn, e, a) | Some l \<Rightarrow> response_send_cookies l conn e a);
           if \<not> ok then Some (failure, p, conn, e, a)
           else do {
             (ok, conn) \<leftarrow> connection_write conn crlf;
             Some (if ok then (success, p, conn, e, a)
                   else (failure, p, conn, set_tcpip_error e (errno_num (net_errno (cn_net conn))), a)) } } } })"

text \<open>
  The file is what \<open>open\<close> and the calls of \<open>read\<close> with 8192 bytes return: \<open>None\<close> when it cannot be opened, otherwise the
  blocks up to the first call that returns nothing or fails. \<open>pcb\<close> counts the bytes.
\<close>

fun file_loop :: "connection \<Rightarrow> char list list \<Rightarrow> size_t \<Rightarrow> (status_t \<times> connection \<times> size_t) option" where
  "file_loop conn [] pcb = Some (success, conn, pcb)"
| "file_loop conn (buf # bufs) pcb = do {
     let pcb = szt (pcb + length buf);
     (ok, conn) \<leftarrow> connection_write conn buf;
     (ok, conn) \<leftarrow> (if \<not> ok then Some (failure, conn) else connection_flush conn);
     if \<not> ok then Some (failure, conn, pcb) else file_loop conn bufs pcb }"

definition send_entire_file :: "(string \<Rightarrow> char list list option) \<Rightarrow> connection \<Rightarrow> string \<Rightarrow> size_t \<Rightarrow> (status_t \<times> connection \<times> size_t) option" where
  "send_entire_file files conn path pcb = (case files path of None \<Rightarrow> Some (failure, conn, pcb) | Some bufs \<Rightarrow> file_loop conn bufs 0)"

definition response_send_entity :: "(string \<Rightarrow> char list list option) \<Rightarrow> http_response \<Rightarrow> connection \<Rightarrow> size_t \<Rightarrow>
    (status_t \<times> http_response \<times> connection \<times> size_t) option" where
  "response_send_entity files r conn pcb = (
     if rs_content_buffer_in_use r then do {
       cb \<leftarrow> response_get_content_length r;
       buf \<leftarrow> rs_content_buffer r;
       bs \<leftarrow> rd buf 0 cb;
       (rc, conn) \<leftarrow> (if cb > 64 * 1024 then connection_write_big_buffer conn bs (cb div 1024 mod 2 ^ 32) else connection_write conn bs);
       let r = (if rs_content_free_when_done r then r\<lparr>rs_content_buffer := None\<rparr> else r);
       Some (rc, r, conn, cb) }
     else if rs_send_file r then do {
       path \<leftarrow> cstr_at (cs_data (rs_path r)) 0;
       (ok, conn, pcb) \<leftarrow> send_entire_file files conn path pcb;
       Some (ok, r, conn, pcb) }
     else do {
       entity \<leftarrow> response_get_entity r;
       pcb \<leftarrow> response_get_content_length r;
       bs \<leftarrow> rd entity 0 pcb;
       (ok, conn) \<leftarrow> connection_write conn bs;
       Some (ok, r, conn, pcb) })"

definition response_send :: "int \<Rightarrow> (string \<Rightarrow> char list list option) \<Rightarrow> http_response \<Rightarrow> connection \<Rightarrow> error \<Rightarrow> size_t \<Rightarrow> allocator \<Rightarrow>
    (status_t \<times> http_response \<times> connection \<times> error \<times> size_t \<times> allocator) option" where
  "response_send now files r c e pcb a = do {
     let r = (if \<not> entity_header_content_length_isset (rs_entity_header r) then response_set_content_length r (cs_len (rs_entity r)) else r);
     (ok, c) \<leftarrow> send_status_code c (rs_status r) (rs_version r);
     if \<not> ok then Some (failure, r, c, set_tcpip_error e (errno_num (net_errno (cn_net c))), pcb, a)
     else do {
       (ok, r, c, e, a) \<leftarrow> response_send_header now r c e a;
       if rs_status r \<noteq> 200 \<and> rs_status r \<noteq> 404 then Some (failure, r, c, e, pcb, a)
       else if \<not> ok then Some (failure, r, c, e, pcb, a)
       else do {
         (ok, r, c, pcb) \<leftarrow> response_send_entity files r c pcb;
         Some (if ok then (success, r, c, e, pcb, a)
               else (failure, r, c, set_tcpip_error e (errno_num (net_errno (cn_net c))), pcb, a)) } } }"

end
