(* ===== verification/Response_Parse.thy ===== *)
theory Response_Parse
  imports Response Request_Parse
begin

section \<open>Reading responses\<close>

text \<open>
  The parser of \<open>src/http/src/response.c\<close>: the fields of a response, the status line, the header, the body with a
  length, in chunks or up to the end, and \<open>response_receive\<close>. \<open>connection_read\<close> writes into the buffer of its
  caller; the model returns the bytes and writes them afterwards.
\<close>

subsection \<open>Fields\<close>

definition parse_age :: "http_response \<Rightarrow> string \<Rightarrow> error \<Rightarrow> allocator \<Rightarrow> (status_t \<times> http_response \<times> error \<times> allocator) option" where
  "parse_age r val e a = (case toulong val of
     Inl _ \<Rightarrow> Some (failure, r, set_http_error e 400, a)
   | Inr v \<Rightarrow> Some (success, response_set_age r v, e, a))"

definition parse_etag :: "http_response \<Rightarrow> string \<Rightarrow> error \<Rightarrow> allocator \<Rightarrow> (status_t \<times> http_response \<times> error \<times> allocator) option" where
  "parse_etag r val e a = response_set_etag r val a \<bind> or_os_error e"

definition parse_location :: "http_response \<Rightarrow> string \<Rightarrow> error \<Rightarrow> allocator \<Rightarrow> (status_t \<times> http_response \<times> error \<times> allocator) option" where
  "parse_location r val e a = response_set_location r val a \<bind> or_os_error e"

definition parse_www_authenticate :: "http_response \<Rightarrow> string \<Rightarrow> error \<Rightarrow> allocator \<Rightarrow> (status_t \<times> http_response \<times> error \<times> allocator) option" where
  "parse_www_authenticate r val e a = response_set_www_authenticate r val a \<bind> or_os_error e"

definition parse_server :: "http_response \<Rightarrow> string \<Rightarrow> error \<Rightarrow> allocator \<Rightarrow> (status_t \<times> http_response \<times> error \<times> allocator) option" where
  "parse_server r val e a = response_set_server r val a \<bind> or_os_error e"

definition parse_proxy_authenticate :: "http_response \<Rightarrow> string \<Rightarrow> error \<Rightarrow> allocator \<Rightarrow> (status_t \<times> http_response \<times> error \<times> allocator) option" where
  "parse_proxy_authenticate r val e a = response_set_proxy_authenticate r val a \<bind> or_os_error e"

definition parse_vary :: "http_response \<Rightarrow> string \<Rightarrow> error \<Rightarrow> allocator \<Rightarrow> (status_t \<times> http_response \<times> error \<times> allocator) option" where
  "parse_vary r val e a = response_set_vary r val a \<bind> or_os_error e"

definition parse_accept_ranges :: "http_response \<Rightarrow> string \<Rightarrow> error \<Rightarrow> allocator \<Rightarrow> (status_t \<times> http_response \<times> error \<times> allocator) option" where
  "parse_accept_ranges r val e a = do {
     r \<leftarrow> (if strcmp0 val ''bytes'' then response_set_accept_ranges r 1
           else if strcmp0 val ''none'' then response_set_accept_ranges r 0
           else Some r);
     Some (success, r, e, a) }"

text \<open>\<open>atol\<close> is \<open>strtol\<close> to the base 10.\<close>

definition parse_retry_after :: "(tm \<Rightarrow> int) \<Rightarrow> http_response \<Rightarrow> string \<Rightarrow> error \<Rightarrow> allocator \<Rightarrow> (status_t \<times> http_response \<times> error \<times> allocator) option" where
  "parse_retry_after mktime r val e a = do {
     t \<leftarrow> parse_rfc822_date mktime val;
     if t \<noteq> - 1 then do { r \<leftarrow> response_set_retry_after r t; Some (success, r, e, a) }
     else do {
       let delta = fst (strtol val 10);
       if delta \<le> 0 then Some (failure, r, set_http_error e 400, a)
       else do { r \<leftarrow> response_set_retry_after r delta; Some (success, r, e, a) } } }"

definition response_header_fields :: "(tm \<Rightarrow> int) \<Rightarrow> (string \<times> (http_response \<Rightarrow> string \<Rightarrow> error \<Rightarrow> allocator \<Rightarrow>
    (status_t \<times> http_response \<times> error \<times> allocator) option)) list" where
  "response_header_fields mktime = [
     (''accept-ranges'', parse_accept_ranges),
     (''age'', parse_age),
     (''etag'', parse_etag),
     (''location'', parse_location),
     (''proxy-authenticate'', parse_proxy_authenticate),
     (''retry-after'', parse_retry_after mktime),
     (''server'', parse_server),
     (''vary'', parse_vary),
     (''www-authenticate'', parse_www_authenticate)]"

definition find_response_header :: "string \<Rightarrow> int" where
  "find_response_header name = find_field (response_header_fields (\<lambda>t. 0)) name 0"

definition parse_response_header :: "(tm \<Rightarrow> int) \<Rightarrow> int \<Rightarrow> http_response \<Rightarrow> string \<Rightarrow> error \<Rightarrow> allocator \<Rightarrow>
    (status_t \<times> http_response \<times> error \<times> allocator) option" where
  "parse_response_header mktime idx r val e a = (
     if 0 \<le> idx \<and> idx < int (length (response_header_fields mktime)) then snd (response_header_fields mktime ! nat idx) r val e a
     else None)"

definition parse_response_headerfield :: "(tm \<Rightarrow> int) \<Rightarrow> string \<Rightarrow> string \<Rightarrow> http_response \<Rightarrow> error \<Rightarrow> allocator \<Rightarrow>
    (status_t \<times> http_response \<times> error \<times> allocator) option" where
  "parse_response_headerfield mktime name val r e a = (
     let idx = find_general_header name in
     if idx \<noteq> - 1 then do {
       (ok, gh, e, a) \<leftarrow> parse_general_header mktime idx (rs_general_header r) val e a;
       Some (ok, r\<lparr>rs_general_header := gh\<rparr>, e, a) }
     else let idx = find_entity_header name in
     if idx \<noteq> - 1 then do {
       (ok, eh, e, a) \<leftarrow> parse_entity_header mktime idx (rs_entity_header r) val e a;
       Some (ok, r\<lparr>rs_entity_header := eh\<rparr>, e, a) }
     else let idx = find_response_header name in
     if idx \<noteq> - 1 then parse_response_header mktime idx r val e a
     else Some (success, r, e, a))"

subsection \<open>The status line\<close>

definition read_response_status_line :: "http_response \<Rightarrow> connection \<Rightarrow> error \<Rightarrow> allocator \<Rightarrow>
    (status_t \<times> http_response \<times> connection \<times> error) option" where
  "read_response_status_line r conn e a = do {
     (ok, buf, conn, e) \<leftarrow> read_line conn (fresh_bytes 257 a) 256 e;
     if \<not> ok then Some (failure, r, conn, e)
     else do {
       line \<leftarrow> cstr_at buf 0;
       let version = (if strstr line ''HTTP/1.0 '' = Some 0 then VERSION_10
                      else if strstr line ''HTTP/1.1 '' = Some 0 then VERSION_11 else VERSION_UNKNOWN);
       if version = VERSION_UNKNOWN then Some (failure, r, conn, set_http_error e 400)
       else do {
         s0 \<leftarrow> get_at buf 9;
         s1 \<leftarrow> get_at buf 10;
         s2 \<leftarrow> get_at buf 11;
         s3 \<leftarrow> get_at buf 12;
         s4 \<leftarrow> get_at buf 13;
         if \<not> isdigit s0 \<or> \<not> isdigit s1 \<or> \<not> isdigit s2 \<or> \<not> isspace s3 then Some (failure, r, conn, set_http_error e 400)
         else if s4 = NUL then Some (failure, r, conn, set_http_error e 400)
         else Some (success, response_set_version (response_set_status r (dig s0 * 100 + dig s1 * 10 + dig s2 * 1)) version, conn, e) } } }"

subsection \<open>The header\<close>

text \<open>As for requests, the bytes to come bound the number of rounds.\<close>

fun response_header_loop :: "nat \<Rightarrow> (tm \<Rightarrow> int) \<Rightarrow> connection \<Rightarrow> http_response \<Rightarrow> error \<Rightarrow> allocator \<Rightarrow>
    (status_t \<times> connection \<times> http_response \<times> error \<times> allocator) option" where
  "response_header_loop 0 mktime conn r e a = None"
| "response_header_loop (Suc n) mktime conn r e a = do {
     (ok, buf, conn, e) \<leftarrow> read_line conn (fresh_bytes 8266 a) 8266 e;
     if \<not> ok then Some (failure, conn, r, e, a)
     else do {
       line \<leftarrow> cstr_at buf 0;
       if line = [] then Some (success, conn, r, e, a)
       else do {
         (ok, name) \<leftarrow> get_field_name line (fresh_bytes 65 a) 65;
         if \<not> ok then Some (failure, conn, r, set_http_error e 400, a)
         else do {
           (ok, val) \<leftarrow> get_field_value line (fresh_bytes 8193 a) 8193;
           if \<not> ok then Some (failure, conn, r, set_http_error e 400, a)
           else do {
             name \<leftarrow> fs_lower name;
             n' \<leftarrow> cstr_at name 0;
             v \<leftarrow> cstr_at val 0;
             (ok, r, e, a) \<leftarrow> parse_response_headerfield mktime n' v r e a;
             if \<not> ok then Some (failure, conn, r, e, a) else response_header_loop n mktime conn r e a } } } } }"

definition read_response_header_fields :: "(tm \<Rightarrow> int) \<Rightarrow> connection \<Rightarrow> http_response \<Rightarrow> error \<Rightarrow> allocator \<Rightarrow>
    (status_t \<times> connection \<times> http_response \<times> error \<times> allocator) option" where
  "read_response_header_fields mktime conn r e a = response_header_loop (length (in_stream conn) + 1) mktime conn r e a"

subsection \<open>Chunks\<close>

text \<open>The loop runs to the first byte that is no space, which is the terminator when the line is blank.\<close>

definition allws :: "char list \<Rightarrow> bool option" where
  "allws buf = (case dropWhile isspace buf of [] \<Rightarrow> None | c # cs \<Rightarrow> Some (c = NUL))"

definition get_chunklen :: "connection \<Rightarrow> allocator \<Rightarrow> (size_t option \<times> connection) option" where
  "get_chunklen conn a = do {
     (ok, buf, conn) \<leftarrow> connection_gets conn (fresh_bytes 1024 a) 1024;
     if \<not> ok then Some (None, conn)
     else do {
       blank \<leftarrow> allws buf;
       (ok, buf, conn) \<leftarrow> (if blank then connection_gets conn buf 1024 else Some (success, buf, conn));
       if \<not> ok then Some (None, conn)
       else do {
         buf \<leftarrow> ltrim buf;
         buf \<leftarrow> rtrim buf;
         s \<leftarrow> cstr_at buf 0;
         Some (case hextosize_t s of Inl _ \<Rightarrow> None | Inr len \<Rightarrow> Some len, conn) } } }"

text \<open>
  A chunk is read in as many calls as it takes; every call that succeeds delivers a byte at least. \<open>None\<close> inside is a failed
  read; before it fails, \<open>connection_read\<close> has copied what waits in the read buffer.
\<close>

definition first_copy :: "connection \<Rightarrow> size_t \<Rightarrow> char list" where
  "first_copy conn n = (case readbuf conn of Some rb \<Rightarrow> take n (content rb) | None \<Rightarrow> [])"

fun chunk_loop :: "nat \<Rightarrow> connection \<Rightarrow> char list \<Rightarrow> size_t \<Rightarrow> size_t \<Rightarrow> ((char list \<times> size_t) option \<times> connection) option" where
  "chunk_loop 0 conn buf ntotal chunklen = None"
| "chunk_loop (Suc n) conn buf ntotal chunklen = do {
     let early = first_copy conn chunklen;
     (r, conn) \<leftarrow> connection_read conn chunklen;
     (case r of
        None \<Rightarrow> if early = [] then Some (None, conn) else do { wr buf ntotal early; Some (None, conn) }
      | Some bs \<Rightarrow> do {
          buf \<leftarrow> wr buf ntotal bs;
          let ntotal = szt (ntotal + length bs);
          let chunklen = szsub chunklen (length bs);
          if chunklen = 0 then Some (Some (buf, ntotal), conn) else chunk_loop n conn buf ntotal chunklen }) }"

text \<open>
  The sum of the sizes is computed modulo the word size. \<open>realloc\<close> with the size 0 frees a block and returns \<open>NULL\<close>; the
  error path then frees it again.
\<close>

fun chunks_loop :: "nat \<Rightarrow> connection \<Rightarrow> char list option \<Rightarrow> size_t \<Rightarrow> size_t \<Rightarrow> error \<Rightarrow> allocator \<Rightarrow>
    (status_t \<times> (char list option \<times> size_t) \<times> connection \<times> error \<times> allocator) option" where
  "chunks_loop 0 conn buf ntotal max_contentlen e a = None"
| "chunks_loop (Suc n) conn buf ntotal max_contentlen e a = do {
     (len, conn) \<leftarrow> get_chunklen conn a;
     (case len of
        None \<Rightarrow> Some (failure, (buf, ntotal), conn, e, a)
      | Some chunklen \<Rightarrow>
          if chunklen = 0 then Some (success, (buf, ntotal), conn, e, a)
          else if szt (ntotal + chunklen) > max_contentlen then Some (failure, (None, ntotal), conn, set_app_error e (errno_num ENOSPC), a)
          else if szt (ntotal + chunklen) = 0 \<and> buf \<noteq> None then None
          else (case try_alloc (szt (ntotal + chunklen)) a of
              (False, a) \<Rightarrow> Some (failure, (None, ntotal), conn, set_os_error e (errno_num ENOSPC), a)
            | (True, a) \<Rightarrow> do {
                let block = realloc_bytes (szt (ntotal + chunklen)) (case buf of None \<Rightarrow> [] | Some b \<Rightarrow> b) a;
                (r, conn) \<leftarrow> chunk_loop (length (in_stream conn) + 1) conn block ntotal chunklen;
                (case r of
                   None \<Rightarrow> Some (failure, (None, ntotal), conn, e, a)
                 | Some (block, ntotal) \<Rightarrow> chunks_loop n conn (Some block) ntotal max_contentlen e a) })) }"

definition read_chunked_response :: "http_response \<Rightarrow> connection \<Rightarrow> size_t \<Rightarrow> error \<Rightarrow> allocator \<Rightarrow>
    (status_t \<times> http_response \<times> connection \<times> error \<times> allocator) option" where
  "read_chunked_response this conn max_contentlen e a = do {
     (ok, (buf, ntotal), conn, e, a) \<leftarrow> chunks_loop (length (in_stream conn) + 1) conn None 0 max_contentlen e a;
     if \<not> ok then Some (failure, this, conn, e, a)
     else (case buf of
         None \<Rightarrow> Some (failure, this, conn, e, a)
       | Some block \<Rightarrow> Some (success, response_set_allocated_content_buffer this block ntotal, conn, e, a)) }"

subsection \<open>The whole response\<close>

definition response_receive :: "(tm \<Rightarrow> int) \<Rightarrow> http_response \<Rightarrow> connection \<Rightarrow> size_t \<Rightarrow> error \<Rightarrow> allocator \<Rightarrow>
    (status_t \<times> http_response \<times> connection \<times> error \<times> allocator) option" where
  "response_receive mktime r conn max_contentlen e a = do {
     (ok, r, conn, e) \<leftarrow> read_response_status_line r conn e a;
     if \<not> ok then Some (failure, r, conn, e, a)
     else do {
       (ok, conn, r, e, a) \<leftarrow> read_response_header_fields mktime conn r e a;
       if \<not> ok then Some (failure, r, conn, e, a)
       else if response_get_status r \<in> {204, 301, 302, 304} then Some (success, r, conn, e, a)
       else do {
         len \<leftarrow> (if entity_header_content_length_isset (rs_entity_header r)
                 then map_option Some (entity_header_get_content_length (rs_entity_header r)) else Some None);
         chunked \<leftarrow> (if len = None then general_header_is_chunked_message (rs_general_header r) else Some False);
         if len = Some 0 then Some (success, r, conn, e, a)
         else if len \<noteq> None \<and> the len > max_contentlen then Some (failure, r, conn, set_app_error e (errno_num ENOSPC), a)
         else if chunked then read_chunked_response r conn max_contentlen e a
         else do {
           let contentlen = (case len of Some n \<Rightarrow> n | None \<Rightarrow> max_contentlen);
           (case try_alloc (szt (contentlen + 1)) a of
              (False, a) \<Rightarrow> Some (failure, r, conn, set_os_error e (errno_num ENOMEM), a)
            | (True, a) \<Rightarrow> do {
                block \<leftarrow> put_at (fresh_bytes (szt (contentlen + 1)) a) contentlen NUL;
                (got, conn) \<leftarrow> connection_read conn contentlen;
                (case got of
                   None \<Rightarrow> Some (failure, r, conn, set_os_error e (errno_num (net_errno (cn_net conn))), a)
                 | Some bs \<Rightarrow> do {
                     block \<leftarrow> wr block 0 bs;
                     Some (success, response_set_allocated_content_buffer r block (length bs), conn, e, a) }) }) } } } }"

end
