(* ===== verification/Response_Fields.thy ===== *)
theory Response_Fields
  imports Response_Parse
begin

section \<open>Header fields of a response\<close>

text \<open>
  The invariant of a response and the abstract state of its string fields, as for requests; new and recycled responses; what
  parsing a field does; and the content that a page builds up.
\<close>

subsection \<open>Invariant and view\<close>

definition rs_strings :: "(string \<times> 64 word \<times> (http_response \<Rightarrow> cstring)) list" where
  "rs_strings = [
     (''etag'', ETAG, rs_etag),
     (''location'', LOCATION, rs_location),
     (''proxy-authenticate'', PROXY_AUTHENTICATE, rs_proxy_authenticate),
     (''server'', SERVER, rs_server),
     (''vary'', VARY, rs_vary),
     (''www-authenticate'', WWW_AUTHENTICATE, rs_www_authenticate)]"

definition rs_view :: "http_response \<Rightarrow> string \<rightharpoonup> string" where
  "rs_view r name = (case map_of rs_strings name of
     None \<Rightarrow> None
   | Some (flag, fld) \<Rightarrow> if response_flag_isset r flag then Some (cs_str (fld r)) else None)"

definition rs_cookie_list :: "http_response \<Rightarrow> cookie list \<Rightarrow> bool" where
  "rs_cookie_list r cs \<longleftrightarrow> (case rs_cookies r of None \<Rightarrow> cs = [] | Some l \<Rightarrow> lrep l cs)"

definition rs_strings_ok :: "http_response \<Rightarrow> bool" where
  "rs_strings_ok r \<longleftrightarrow> cs_inv (rs_etag r) \<and>
     cs_inv (rs_location r) \<and>
     cs_inv (rs_proxy_authenticate r) \<and>
     cs_inv (rs_server r) \<and>
     cs_inv (rs_vary r) \<and>
     cs_inv (rs_www_authenticate r) \<and>
     cs_inv (rs_entity r) \<and>
     cs_inv (rs_path r) \<and>
     rs_age r < SIZE_MOD"

definition rs_ok :: "http_response \<Rightarrow> bool" where
  "rs_ok r \<longleftrightarrow> rs_strings_ok r \<and> gh_ok (rs_general_header r) \<and> eh_ok (rs_entity_header r) \<and>
     (\<exists>cs. rs_cookie_list r cs \<and> list_all cookie_ok cs)"

lemma rs_flag_bits:
  "ACCEPT_RANGES = 2 ^ 0"
  "AGE = 2 ^ 1"
  "CONTENT_LENGTH = 2 ^ 7"
  "ETAG = 2 ^ 13"
  "LOCATION = 2 ^ 16"
  "PROXY_AUTHENTICATE = 2 ^ 18"
  "RETRY_AFTER = 2 ^ 19"
  "SERVER = 2 ^ 20"
  "VARY = 2 ^ 24"
  "WWW_AUTHENTICATE = 2 ^ 25"
  by (simp_all add: rs_flag_defs)

lemma rs_bits:
  "response_flag_isset r ACCEPT_RANGES \<longleftrightarrow> bit (rs_flags r) 0"
  "response_flag_isset r AGE \<longleftrightarrow> bit (rs_flags r) 1"
  "response_flag_isset r CONTENT_LENGTH \<longleftrightarrow> bit (rs_flags r) 7"
  "response_flag_isset r ETAG \<longleftrightarrow> bit (rs_flags r) 13"
  "response_flag_isset r LOCATION \<longleftrightarrow> bit (rs_flags r) 16"
  "response_flag_isset r PROXY_AUTHENTICATE \<longleftrightarrow> bit (rs_flags r) 18"
  "response_flag_isset r RETRY_AFTER \<longleftrightarrow> bit (rs_flags r) 19"
  "response_flag_isset r SERVER \<longleftrightarrow> bit (rs_flags r) 20"
  "response_flag_isset r VARY \<longleftrightarrow> bit (rs_flags r) 24"
  "response_flag_isset r WWW_AUTHENTICATE \<longleftrightarrow> bit (rs_flags r) 25"
  by (simp_all only: rs_flag_bits response_flag_isset_def and_exp_flag)

lemma rs_set_exp: "n < 64 \<Longrightarrow> bit (rs_flags (response_set_flag r (2 ^ n))) k \<longleftrightarrow> bit (rs_flags r) k \<or> k = n"
  by (simp add: response_set_flag_def bit_or_exp)

lemma rs_set_bits:
  "bit (rs_flags (response_set_flag r ACCEPT_RANGES)) k \<longleftrightarrow> bit (rs_flags r) k \<or> k = 0"
  "bit (rs_flags (response_set_flag r AGE)) k \<longleftrightarrow> bit (rs_flags r) k \<or> k = 1"
  "bit (rs_flags (response_set_flag r CONTENT_LENGTH)) k \<longleftrightarrow> bit (rs_flags r) k \<or> k = 7"
  "bit (rs_flags (response_set_flag r ETAG)) k \<longleftrightarrow> bit (rs_flags r) k \<or> k = 13"
  "bit (rs_flags (response_set_flag r LOCATION)) k \<longleftrightarrow> bit (rs_flags r) k \<or> k = 16"
  "bit (rs_flags (response_set_flag r PROXY_AUTHENTICATE)) k \<longleftrightarrow> bit (rs_flags r) k \<or> k = 18"
  "bit (rs_flags (response_set_flag r RETRY_AFTER)) k \<longleftrightarrow> bit (rs_flags r) k \<or> k = 19"
  "bit (rs_flags (response_set_flag r SERVER)) k \<longleftrightarrow> bit (rs_flags r) k \<or> k = 20"
  "bit (rs_flags (response_set_flag r VARY)) k \<longleftrightarrow> bit (rs_flags r) k \<or> k = 24"
  "bit (rs_flags (response_set_flag r WWW_AUTHENTICATE)) k \<longleftrightarrow> bit (rs_flags r) k \<or> k = 25"
  by (simp_all only: rs_flag_bits rs_set_exp arith_simps rel_simps)

lemma rs_set_flag_sel [simp]:
  "rs_version (response_set_flag r f) = rs_version r"
  "rs_status (response_set_flag r f) = rs_status r"
  "rs_general_header (response_set_flag r f) = rs_general_header r"
  "rs_entity_header (response_set_flag r f) = rs_entity_header r"
  "rs_server (response_set_flag r f) = rs_server r"
  "rs_entity (response_set_flag r f) = rs_entity r"
  "rs_age (response_set_flag r f) = rs_age r"
  "rs_accept_ranges (response_set_flag r f) = rs_accept_ranges r"
  "rs_etag (response_set_flag r f) = rs_etag r"
  "rs_location (response_set_flag r f) = rs_location r"
  "rs_proxy_authenticate (response_set_flag r f) = rs_proxy_authenticate r"
  "rs_retry_after (response_set_flag r f) = rs_retry_after r"
  "rs_vary (response_set_flag r f) = rs_vary r"
  "rs_www_authenticate (response_set_flag r f) = rs_www_authenticate r"
  "rs_cookies (response_set_flag r f) = rs_cookies r"
  "rs_content_buffer (response_set_flag r f) = rs_content_buffer r"
  "rs_content_buffer_in_use (response_set_flag r f) = rs_content_buffer_in_use r"
  "rs_content_free_when_done (response_set_flag r f) = rs_content_free_when_done r"
  "rs_send_file (response_set_flag r f) = rs_send_file r"
  "rs_path (response_set_flag r f) = rs_path r"
  by (simp_all add: response_set_flag_def)

lemmas rs_simps = rs_bits rs_set_bits rs_ok_def rs_strings_ok_def rs_cookie_list_def

lemma rs_view_at:
  "rs_view r ''etag'' = (if bit (rs_flags r) 13 then Some (cs_str (rs_etag r)) else None)"
  "rs_view r ''location'' = (if bit (rs_flags r) 16 then Some (cs_str (rs_location r)) else None)"
  "rs_view r ''proxy-authenticate'' = (if bit (rs_flags r) 18 then Some (cs_str (rs_proxy_authenticate r)) else None)"
  "rs_view r ''server'' = (if bit (rs_flags r) 20 then Some (cs_str (rs_server r)) else None)"
  "rs_view r ''vary'' = (if bit (rs_flags r) 24 then Some (cs_str (rs_vary r)) else None)"
  "rs_view r ''www-authenticate'' = (if bit (rs_flags r) 25 then Some (cs_str (rs_www_authenticate r)) else None)"
  by (simp_all add: rs_view_def rs_strings_def rs_bits)

subsection \<open>The string fields\<close>

interpretation rse: view_field rs_ok rs_etag "\<lambda>s r. r\<lparr>rs_etag := s\<rparr>"
    "\<lambda>r. response_set_flag r ETAG" response_set_etag rs_view "''etag''"
  by unfold_locales (auto simp: rs_simps response_set_etag_def Let_def rs_view_def rs_strings_def cs_rep_str fun_eq_iff intro!: Option.bind_cong)

interpretation rsl: view_field rs_ok rs_location "\<lambda>s r. r\<lparr>rs_location := s\<rparr>"
    "\<lambda>r. response_set_flag r LOCATION" response_set_location rs_view "''location''"
  by unfold_locales (auto simp: rs_simps response_set_location_def Let_def rs_view_def rs_strings_def cs_rep_str fun_eq_iff intro!: Option.bind_cong)

interpretation rsp: view_field rs_ok rs_proxy_authenticate "\<lambda>s r. r\<lparr>rs_proxy_authenticate := s\<rparr>"
    "\<lambda>r. response_set_flag r PROXY_AUTHENTICATE" response_set_proxy_authenticate rs_view "''proxy-authenticate''"
  by unfold_locales (auto simp: rs_simps response_set_proxy_authenticate_def Let_def rs_view_def rs_strings_def cs_rep_str fun_eq_iff intro!: Option.bind_cong)

interpretation rss: view_field rs_ok rs_server "\<lambda>s r. r\<lparr>rs_server := s\<rparr>"
    "\<lambda>r. response_set_flag r SERVER" response_set_server rs_view "''server''"
  by unfold_locales (auto simp: rs_simps response_set_server_def Let_def rs_view_def rs_strings_def cs_rep_str fun_eq_iff intro!: Option.bind_cong)

interpretation rsv: view_field rs_ok rs_vary "\<lambda>s r. r\<lparr>rs_vary := s\<rparr>"
    "\<lambda>r. response_set_flag r VARY" response_set_vary rs_view "''vary''"
  by unfold_locales (auto simp: rs_simps response_set_vary_def Let_def rs_view_def rs_strings_def cs_rep_str fun_eq_iff intro!: Option.bind_cong)

interpretation rsw: view_field rs_ok rs_www_authenticate "\<lambda>s r. r\<lparr>rs_www_authenticate := s\<rparr>"
    "\<lambda>r. response_set_flag r WWW_AUTHENTICATE" response_set_www_authenticate rs_view "''www-authenticate''"
  by unfold_locales (auto simp: rs_simps response_set_www_authenticate_def Let_def rs_view_def rs_strings_def cs_rep_str fun_eq_iff intro!: Option.bind_cong)

lemma rs_view_eq:
  assumes "\<And>name flag fld. (name, flag, fld) \<in> set rs_strings \<Longrightarrow> response_flag_isset g flag = response_flag_isset h flag \<and> fld g = fld h"
  shows "rs_view g = rs_view h"
proof
  fix n
  show "rs_view g n = rs_view h n"
  proof (cases "map_of rs_strings n")
    case (Some x)
    then show ?thesis using assms [of n "fst x" "snd x"] by (cases x) (simp add: rs_view_def map_of_SomeD)
  qed (simp add: rs_view_def)
qed

lemma rs_view_flag:
  assumes "flag \<in> {AGE, ACCEPT_RANGES, RETRY_AFTER, CONTENT_LENGTH}" "\<And>name flag fld. (name, flag, fld) \<in> set rs_strings \<Longrightarrow> fld g = fld h" "rs_flags g = rs_flags h"
  shows "rs_view (response_set_flag g flag) = rs_view h"
proof (rule rs_view_eq)
  fix name flag' fld
  assume m: "(name, flag', fld) \<in> set rs_strings"
  have "fld (response_set_flag g flag) = fld g" using m by (auto simp: rs_strings_def)
  moreover have "response_flag_isset (response_set_flag g flag) flag' = response_flag_isset h flag'"
    using m assms(1,3) by (auto simp: rs_strings_def rs_bits rs_set_bits)
  ultimately show "response_flag_isset (response_set_flag g flag) flag' = response_flag_isset h flag' \<and> fld (response_set_flag g flag) = fld h"
    using assms(2) [OF m] by simp
qed

lemma rs_parse_named:
  assumes "map_of (response_header_fields mktime) name = Some h"
  shows "parse_response_header mktime (find_response_header name) r val e a = h r val e a"
proof -
  have "map fst (response_header_fields (\<lambda>t. 0)) = map fst (response_header_fields mktime)" by (simp add: response_header_fields_def)
  from find_field_named [OF assms this, of 0] show ?thesis by (auto simp: find_response_header_def parse_response_header_def)
qed

lemma rs_string_fields:
  assumes "rs_ok r" "c_string val" "length val \<le> PTRDIFF_MAX"
    "name \<in> {''etag'', ''location'', ''proxy-authenticate'', ''server'', ''vary'', ''www-authenticate''}"
  shows "field_post rs_ok rs_view r name val e (parse_response_header mktime (find_response_header name) r val e a)"
  using assms(4) rse.handler_view [OF assms(1-3)] rsl.handler_view [OF assms(1-3)] rsp.handler_view [OF assms(1-3)] rss.handler_view [OF assms(1-3)] rsv.handler_view [OF assms(1-3)] rsw.handler_view [OF assms(1-3)]
  by (elim insertE emptyE) (simp_all add: rs_parse_named response_header_fields_def parse_etag_def parse_location_def parse_proxy_authenticate_def parse_server_def parse_vary_def parse_www_authenticate_def)

lemma age_field:
  assumes "rs_ok r"
  shows "parse_response_header mktime (find_response_header ''age'') r val e a = (case toulong val of
      Inl _ \<Rightarrow> Some (False, r, set_http_error e 400, a)
    | Inr n \<Rightarrow> Some (True, response_set_age r n, e, a))"
    and "toulong val = Inr n \<Longrightarrow> rs_ok (response_set_age r n) \<and> rs_view (response_set_age r n) = rs_view r \<and> rs_age (response_set_age r n) = n"
proof -
  show "parse_response_header mktime (find_response_header ''age'') r val e a = (case toulong val of
      Inl _ \<Rightarrow> Some (False, r, set_http_error e 400, a)
    | Inr n \<Rightarrow> Some (True, response_set_age r n, e, a))" by (simp add: rs_parse_named response_header_fields_def parse_age_def)
  assume "toulong val = Inr n"
  then have "n < SIZE_MOD" by (auto simp: toulong_iff szsub_def limit_defs SIZE_MOD_def)
  moreover have "rs_view (response_set_age r n) = rs_view r" unfolding response_set_age_def by (rule rs_view_flag) (auto simp: rs_strings_def)
  ultimately show "rs_ok (response_set_age r n) \<and> rs_view (response_set_age r n) = rs_view r \<and> rs_age (response_set_age r n) = n"
    using assms by (simp add: response_set_age_def rs_simps)
qed

lemma retry_after_ok:
  assumes "rs_ok r" "response_set_retry_after r t = Some r'"
  shows "rs_ok r' \<and> rs_view r' = rs_view r \<and> rs_retry_after r' = t \<and> t \<noteq> 0"
proof -
  have r': "r' = response_set_flag (r\<lparr>rs_retry_after := t\<rparr>) RETRY_AFTER" "t \<noteq> 0" using assms(2) by (auto simp: response_set_retry_after_def split: if_splits)
  have "rs_view r' = rs_view r" unfolding r' by (rule rs_view_flag) (auto simp: rs_strings_def)
  then show ?thesis using assms(1) r' by (simp add: rs_simps)
qed

lemma accept_ranges_ok:
  assumes "rs_ok r" "response_set_accept_ranges r t = Some r'"
  shows "rs_ok r' \<and> rs_view r' = rs_view r \<and> rs_accept_ranges r' = t"
proof -
  have r': "r' = response_set_flag (r\<lparr>rs_accept_ranges := t\<rparr>) ACCEPT_RANGES" using assms(2) by (auto simp: response_set_accept_ranges_def split: if_splits)
  have "rs_view r' = rs_view r" unfolding r' by (rule rs_view_flag) (auto simp: rs_strings_def)
  then show ?thesis using assms(1) r' by (simp add: rs_simps)
qed

subsection \<open>New and recycled responses\<close>

lemma rs_view_unset: "rs_flags r = 0 \<Longrightarrow> rs_view r = Map.empty"
  by (simp add: fun_eq_iff rs_view_def response_flag_isset_def split: option.splits)

lemma content_type_spec:
  assumes "rs_ok r" "c_string v" "length v < 256"
  obtains eh a' where "response_set_content_type r v a = Some (True, r\<lparr>rs_entity_header := eh\<rparr>, a')" "eh_ok eh"
    "eh_view eh = (eh_view (rs_entity_header r))(''content-type'' \<mapsto> v)" "rs_ok (r\<lparr>rs_entity_header := eh\<rparr>)" "eh_content_length eh = eh_content_length (rs_entity_header r)"
    "entity_header_content_length_isset eh = entity_header_content_length_isset (rs_entity_header r)"
proof -
  have eh: "eh_ok (rs_entity_header r)" using assms(1) by (simp add: rs_ok_def)
  have l: "length v \<le> PTRDIFF_MAX" using assms(3) by (simp add: PTRDIFF_MAX_def)
  obtain st s a' where s: "entity_header_set_content_type (rs_entity_header r) v a =
      Some (st, if st then entity_header_set_flag ((rs_entity_header r)\<lparr>eh_content_type := s\<rparr>) ENTITY_HEADER_CONTENT_TYPE_SET
        else (rs_entity_header r)\<lparr>eh_content_type := s\<rparr>, a')" "cs_rep s (if st then v else [])"
    "eh_ok (entity_header_set_flag ((rs_entity_header r)\<lparr>eh_content_type := s\<rparr>) ENTITY_HEADER_CONTENT_TYPE_SET)"
    "roomy (eh_content_type (rs_entity_header r)) 0 (length v) a \<longrightarrow> st \<and> a' = a"
    by (rule ehy.setter_spec [OF eh assms(2) l, of a])
  have "256 \<le> cs_size (eh_content_type (rs_entity_header r))" using eh by (simp add: eh_ok_def cs_inv_def cs_rep_def CSTRING_INITIAL_SIZE_def)
  then have st: "st" using s(4) assms(3) by (auto simp: roomy_def)
  let ?eh = "entity_header_set_flag ((rs_entity_header r)\<lparr>eh_content_type := s\<rparr>) ENTITY_HEADER_CONTENT_TYPE_SET"
  show thesis
  proof (rule that [of ?eh a'])
    show "response_set_content_type r v a = Some (True, r\<lparr>rs_entity_header := ?eh\<rparr>, a')" using s(1) st by (simp add: response_set_content_type_def)
    show "eh_view ?eh = (eh_view (rs_entity_header r))(''content-type'' \<mapsto> v)" by (rule ehy.view_set) (use s(2) st in simp)
    show "rs_ok (r\<lparr>rs_entity_header := ?eh\<rparr>)" using assms(1) s(3) by (simp add: rs_simps)
    show "eh_content_length ?eh = eh_content_length (rs_entity_header r)" by (simp add: entity_header_set_flag_def)
    show "entity_header_content_length_isset ?eh = entity_header_content_length_isset (rs_entity_header r)"
      by (simp add: entity_header_content_length_isset_def eh_bits eh_set_bits)
  qed (rule s(3))
qed

lemma response_new_ok:
  assumes "response_new a = Some (Some r, a')"
  shows "rs_ok r \<and> rs_view r = [''server'' \<mapsto> ''chopped''] \<and> rs_cookie_list r [] \<and> eh_view (rs_entity_header r) = [''content-type'' \<mapsto> ''text/html''] \<and>
    \<not> rs_content_buffer_in_use r \<and> \<not> rs_send_file r \<and> cs_str (rs_entity r) = []"
proof -
  obtain ok a1 where al: "try_alloc 152 a = (ok, a1)" by fastforce
  have ok: ok using assms al by (auto simp: response_new_def split: if_splits)
  obtain gh a2 where g: "general_header_new a1 = Some (Some gh, a2)"
    using assms al ok by (auto simp: response_new_def bind_eq_Some_conv split: option.splits)
  obtain eh a3 where e: "entity_header_new a2 = Some (Some eh, a3)"
    using assms al ok g by (auto simp: response_new_def bind_eq_Some_conv split: option.splits)
  obtain st d a4 where m: "multinew_loop 8 [] a3 = (st, d, a4)" "st \<longrightarrow> (\<exists>ns. d = ns \<and> list_all2 cs_fresh ns (replicate 8 []))"
    using multinew_spec [of 8 "[]" a3] by auto
  have st: st using assms al ok g e m(1) by (auto simp: response_new_def cstring_multinew_def split: if_splits)
  have c: "cs_inv (d ! i)" "cs_str (d ! i) = []" if "i < 8" for i
    using m(2) st that by (auto simp: list_all2_conv_all_nth cs_fresh_def cs_inv_iff cs_rep_str)
  obtain lo :: "cookie mlist option" and a5 where lo: "list_new a4 = (lo, a5)" by fastforce
  obtain l :: "cookie mlist" where l: "list_new a4 = (Some l, a5)" using assms al ok g e m(1) st lo by (cases lo) (auto simp: response_new_def cstring_multinew_def)
  have lr: "lrep l []" using list_new_spec [of a4, where ?'a = cookie] l by auto
  define p where "p = \<lparr>rs_version = VERSION_UNKNOWN, rs_status = 0, rs_general_header = gh, rs_entity_header = eh, rs_flags = 0,
    rs_server = d ! 3, rs_entity = d ! 6, rs_age = 0, rs_accept_ranges = 0, rs_etag = d ! 0,
    rs_location = d ! 1, rs_proxy_authenticate = d ! 2, rs_retry_after = - 1, rs_vary = d ! 4,
    rs_www_authenticate = d ! 5, rs_cookies = Some l, rs_content_buffer = None,
    rs_content_buffer_in_use = False, rs_content_free_when_done = False, rs_send_file = False, rs_path = d ! 7\<rparr>"
  have pok: "rs_ok p" using c lr general_header_new_ok [OF g] entity_header_new_ok [OF e]
    by (auto simp: rs_ok_def rs_strings_ok_def rs_cookie_list_def p_def SIZE_MOD_def intro!: exI [of _ "[]"])
  have run: "response_set_content_type p ''text/html'' a5 \<bind> (\<lambda>(ok, p, a). if \<not> ok then Some (None, a)
      else response_set_server p ''chopped'' a \<bind> (\<lambda>(ok, p, a). Some (if \<not> ok then (None, a) else (Some p, a)))) = Some (Some r, a')"
    using assms al ok g e m(1) st l by (simp add: response_new_def cstring_multinew_def p_def)
  obtain eh' a6 where t: "response_set_content_type p ''text/html'' a5 = Some (True, p\<lparr>rs_entity_header := eh'\<rparr>, a6)"
      "eh_view eh' = (eh_view (rs_entity_header p))(''content-type'' \<mapsto> ''text/html'')" "rs_ok (p\<lparr>rs_entity_header := eh'\<rparr>)"
    by (rule content_type_spec [OF pok, of "''text/html''" a5]) auto
  have "field_post rs_ok rs_view (p\<lparr>rs_entity_header := eh'\<rparr>) ''server'' ''chopped'' error_new
      (response_set_server (p\<lparr>rs_entity_header := eh'\<rparr>) ''chopped'' a6 \<bind> or_os_error error_new)"
    by (rule rss.handler_view [OF t(3)]) (simp_all add: PTRDIFF_MAX_def)
  then obtain st2 r2 a7 where s: "response_set_server (p\<lparr>rs_entity_header := eh'\<rparr>) ''chopped'' a6 = Some (st2, r2, a7)" "rs_ok r2"
      "st2 \<longrightarrow> rs_view r2 = (rs_view (p\<lparr>rs_entity_header := eh'\<rparr>))(''server'' \<mapsto> ''chopped'')"
    unfolding field_post_def by (auto simp: or_os_error_def bind_eq_Some_conv split: if_splits)
  have r: "r = r2" "st2" using run t(1) s(1) by (auto split: if_splits)
  have fr: "rs_cookies r2 = Some l \<and> rs_entity_header r2 = eh' \<and> \<not> rs_content_buffer_in_use r2 \<and> \<not> rs_send_file r2 \<and> rs_entity r2 = d ! 6"
    using s(1) by (auto simp: response_set_server_def p_def Let_def bind_eq_Some_conv split: if_splits)
  have v: "rs_view (p\<lparr>rs_entity_header := eh'\<rparr>) = Map.empty" by (rule rs_view_unset) (simp add: p_def)
  have "eh_view (rs_entity_header p) = Map.empty" using entity_header_new_ok [OF e] by (simp add: p_def)
  then show ?thesis using r s(2,3) fr v t(2) lr c(2) [of 6] by (simp add: rs_cookie_list_def)
qed

lemma response_recycle_ok:
  assumes "rs_ok r"
  obtains r' a' where "response_recycle r a = Some (r', a')" "rs_ok r'" "rs_view r' = Map.empty" "rs_cookie_list r' []"
    "eh_view (rs_entity_header r') = [''content-type'' \<mapsto> ''text/html'']" "\<not> rs_content_buffer_in_use r'" "\<not> rs_send_file r'" "cs_str (rs_entity r') = []"
    "\<not> rs_content_free_when_done r'" "rs_content_buffer r' = rs_content_buffer r"
proof -
  have rc: "\<exists>s'. cstring_recycle s = Some s' \<and> cs_inv s' \<and> cs_str s' = []" if "cs_inv s" for s
  proof -
    obtain s' where "cstring_recycle s = Some s'" "cs_rep s' []" using cstring_recycle_spec \<open>cs_inv s\<close> by (auto simp: cs_inv_def)
    then show ?thesis using cs_rep_str [of s' "[]"] by (auto simp: cs_inv_iff)
  qed
  obtain s1 s2 s3 s4 s5 s6 s7 s8 where s: "cstring_recycle (rs_entity r) = Some s1" "cstring_recycle (rs_path r) = Some s2" "cstring_recycle (rs_etag r) = Some s3"
    "cstring_recycle (rs_location r) = Some s4" "cstring_recycle (rs_proxy_authenticate r) = Some s5" "cstring_recycle (rs_server r) = Some s6"
    "cstring_recycle (rs_vary r) = Some s7" "cstring_recycle (rs_www_authenticate r) = Some s8"
    and inv: "cs_inv s1" "cs_inv s2" "cs_inv s3" "cs_inv s4" "cs_inv s5" "cs_inv s6" "cs_inv s7" "cs_inv s8" "cs_str s1 = []"
    using assms rc unfolding rs_ok_def rs_strings_ok_def by meson
  obtain eh where eh: "entity_header_recycle (rs_entity_header r) = Some eh" "eh_ok eh" "eh_view eh = Map.empty"
    using entity_header_recycle_ok [of "rs_entity_header r"] assms by (auto simp: rs_ok_def)
  obtain cs where cs: "rs_cookie_list r cs" using assms by (auto simp: rs_ok_def)
  obtain ln :: "cookie mlist option" and a1 where l: "(case rs_cookies r of None \<Rightarrow> Some (None, a) | Some l \<Rightarrow> do { list_free l; Some (list_new a) }) = Some (ln, a1)"
      "\<forall>l. ln = Some l \<longrightarrow> lrep l []"
  proof (cases "rs_cookies r")
    case None
    then show thesis using that [of None a] by simp
  next
    case (Some l)
    obtain l' where "list_free l = Some (cs, l')" using cs Some list_free_spec [OF lrep_weak(1), of l cs] by (auto simp: rs_cookie_list_def)
    moreover obtain ln :: "cookie mlist option" and a1 where "list_new a = (ln, a1)" "\<forall>l. ln = Some l \<longrightarrow> lrep l []"
      using list_new_spec [of a, where ?'a = cookie] by blast
    ultimately show thesis using that [of ln a1] Some by simp
  qed
  let ?p = "response_clear_flags (r\<lparr>rs_general_header := general_header_recycle (rs_general_header r), rs_entity_header := eh, rs_cookies := ln,
       rs_entity := s1, rs_path := s2, rs_etag := s3, rs_location := s4, rs_proxy_authenticate := s5, rs_server := s6, rs_vary := s7, rs_www_authenticate := s8\<rparr>)"
  have gh: "gh_ok (general_header_recycle (rs_general_header r))"
    using assms by (simp add: rs_ok_def gh_ok_def general_header_recycle_def general_header_clear_flags_def gh_bits)
  have cl: "rs_cookie_list ?p []" using l(2) by (simp add: rs_cookie_list_def response_clear_flags_def split: option.splits)
  have pok: "rs_ok ?p" using assms inv eh(2) gh cl unfolding rs_ok_def
    by (auto simp: rs_strings_ok_def response_clear_flags_def intro!: exI [of _ "[]"])
  obtain eh' a2 where t: "response_set_content_type ?p ''text/html'' a1 = Some (True, ?p\<lparr>rs_entity_header := eh'\<rparr>, a2)"
      "eh_view eh' = (eh_view (rs_entity_header ?p))(''content-type'' \<mapsto> ''text/html'')" "rs_ok (?p\<lparr>rs_entity_header := eh'\<rparr>)"
    by (rule content_type_spec [OF pok, of "''text/html''" a1]) auto
  let ?r = "?p\<lparr>rs_entity_header := eh', rs_content_buffer_in_use := False, rs_content_free_when_done := False, rs_send_file := False\<rparr>"
  have run: "response_recycle r a = Some (?r, a2)" unfolding response_recycle_def l(1) using s eh(1) t(1) by simp
  have "rs_ok ?r" using t(3) by (simp add: rs_ok_def rs_strings_ok_def rs_cookie_list_def)
  moreover have "rs_view ?r = Map.empty" by (rule rs_view_unset) (simp add: response_clear_flags_def)
  ultimately show thesis using that [OF run] t(2) eh(3) inv(9) cl by (simp add: response_clear_flags_def rs_cookie_list_def)
qed

text \<open>A response for the witnesses.\<close>

definition sample_rs :: http_response where
  "sample_rs = \<lparr>rs_version = VERSION_11, rs_status = 200, rs_general_header = sample_gh, rs_entity_header = sample_eh, rs_flags = 0,
     rs_server = cs_of [], rs_entity = cs_of ''hi'', rs_age = 0, rs_accept_ranges = 0, rs_etag = cs_of [], rs_location = cs_of [],
     rs_proxy_authenticate = cs_of [], rs_retry_after = - 1, rs_vary = cs_of [], rs_www_authenticate = cs_of [], rs_cookies = None,
     rs_content_buffer = None, rs_content_buffer_in_use = False, rs_content_free_when_done = False, rs_send_file = False, rs_path = cs_of []\<rparr>"

lemma sample_rs_ok: "rs_ok sample_rs"
  by (auto simp: rs_ok_def rs_strings_ok_def rs_cookie_list_def sample_rs_def sample_gh_ok sample_eh_ok cs_inv_cs_of SIZE_MOD_def intro!: exI [of _ "[]"])

subsection \<open>Property\<close>

lemma retry_after_field:
  assumes "parse_rfc822_date mktime val = Some (- 1)"
  shows "parse_response_header mktime (find_response_header ''retry-after'') r val e a = (
     let delta = fst (strtol val 10) in
     if delta \<le> 0 then Some (False, r, set_http_error e 400, a) else Some (True, response_set_flag (r\<lparr>rs_retry_after := delta\<rparr>) RETRY_AFTER, e, a))"
  using assms by (simp add: rs_parse_named response_header_fields_def parse_retry_after_def response_set_retry_after_def Let_def)

lemma accept_ranges_field:
  assumes "rs_ok r"
  obtains r' where "parse_response_header mktime (find_response_header ''accept-ranges'') r val e a = Some (True, r', e, a)" "rs_ok r'" "rs_view r' = rs_view r"
    "rs_accept_ranges r' = (if val = ''bytes'' then 1 else if val = ''none'' then 0 else rs_accept_ranges r)"
proof -
  have p: "parse_response_header mktime (find_response_header ''accept-ranges'') r val e a = parse_accept_ranges r val e a"
    by (simp add: rs_parse_named response_header_fields_def)
  consider "val = ''bytes''" | "val = ''none''" | "val \<noteq> ''bytes''" "val \<noteq> ''none''" by blast
  then show thesis
  proof cases
    case 1
    show thesis by (rule that [of "response_set_flag (r\<lparr>rs_accept_ranges := 1\<rparr>) ACCEPT_RANGES"]) (use p 1 accept_ranges_ok [OF assms, of 1] in \<open>auto simp: parse_accept_ranges_def strcmp0_def response_set_accept_ranges_def\<close>)
  next
    case 2
    show thesis by (rule that [of "response_set_flag (r\<lparr>rs_accept_ranges := 0\<rparr>) ACCEPT_RANGES"]) (use p 2 accept_ranges_ok [OF assms, of 0] in \<open>auto simp: parse_accept_ranges_def strcmp0_def response_set_accept_ranges_def\<close>)
  next
    case 3
    show thesis by (rule that [of r]) (use p 3 assms in \<open>auto simp: parse_accept_ranges_def strcmp0_def\<close>)
  qed
qed



end
