(* ===== verification/Response_Send.thy ===== *)
theory Response_Send
  imports Response_Fields Request_Receive
begin

section \<open>What a response sends\<close>

text \<open>
  The text of a cookie, the lines of a response and the whole message that \<open>response_send\<close> writes to a connection.
\<close>

subsection \<open>Steps that append to a string\<close>

text \<open>
  \<open>appends f t u\<close>: run on a string that holds \<open>t\<close> the step returns with a well-formed string, on success with \<open>u\<close>
  appended, and it succeeds when the result has less than 255 characters.
\<close>

definition appends :: "(cstring \<Rightarrow> allocator \<Rightarrow> (status_t \<times> cstring \<times> allocator) option) \<Rightarrow> string \<Rightarrow> string \<Rightarrow> bool" where
  "appends f t u \<longleftrightarrow> (\<forall>s a. cs_rep s t \<longrightarrow> (\<exists>st s' a'. f s a = Some (st, s', a') \<and> cs_inv s' \<and> (st \<longrightarrow> cs_rep s' (t @ u)) \<and>
     (length t + length u < 255 \<longrightarrow> st \<and> a' = a)))"

fun all_append :: "(cstring \<Rightarrow> allocator \<Rightarrow> (status_t \<times> cstring \<times> allocator) option) list \<Rightarrow> string \<Rightarrow> string list \<Rightarrow> bool" where
  "all_append [] t us \<longleftrightarrow> us = []"
| "all_append (f # fs) t us \<longleftrightarrow> us \<noteq> [] \<and> appends f t (hd us) \<and> all_append fs (t @ hd us) (tl us)"

lemma appendsE:
  assumes "appends f t u" "cs_rep s t"
  obtains st s' a' where "f s a = Some (st, s', a')" "cs_inv s'" "st \<longrightarrow> cs_rep s' (t @ u)" "length t + length u < 255 \<longrightarrow> st \<and> a' = a"
  using assms unfolding appends_def by blast

lemma appends_post:
  assumes "\<And>s a. cs_rep s t \<Longrightarrow> cs_post (ok s a) a (f s a) (t @ u) w" "\<And>s a. cs_rep s t \<Longrightarrow> length t + length u < 255 \<Longrightarrow> ok s a"
  shows "appends f t u"
  unfolding appends_def
proof (intro allI impI)
  fix s a assume s: "cs_rep s t"
  from assms(1) [OF this, of a] obtain st s' a' where "f s a = Some (st, s', a')" "cs_rep s' (if st then t @ u else w)" "ok s a \<longrightarrow> st \<and> a' = a"
    unfolding cs_post_def by blast
  then show "\<exists>st s' a'. f s a = Some (st, s', a') \<and> cs_inv s' \<and> (st \<longrightarrow> cs_rep s' (t @ u)) \<and> (length t + length u < 255 \<longrightarrow> st \<and> a' = a)"
    using assms(2) [OF s, of a] by (intro exI [of _ st] exI [of _ s'] exI [of _ a']) (auto simp: cs_inv_iff)
qed

lemma appends_skip: "appends (\<lambda>str a. Some (success, str, a)) t []"
  by (auto simp: appends_def cs_inv_iff)

lemma appends_then:
  assumes "appends f t u" "appends g (t @ u) v"
  shows "appends (\<lambda>str a. f str a \<bind> (\<lambda>(ok, str, a). if \<not> ok then Some (failure, str, a) else g str a)) t (u @ v)"
  unfolding appends_def
proof (intro allI impI)
  fix s a assume s: "cs_rep s t"
  obtain st s1 a1 where f: "f s a = Some (st, s1, a1)" "cs_inv s1" "st \<longrightarrow> cs_rep s1 (t @ u)" "length t + length u < 255 \<longrightarrow> st \<and> a1 = a"
    by (rule appendsE [OF assms(1) s, of a])
  show "\<exists>st s' a'. (f s a \<bind> (\<lambda>(ok, str, a). if \<not> ok then Some (failure, str, a) else g str a)) = Some (st, s', a') \<and> cs_inv s' \<and>
      (st \<longrightarrow> cs_rep s' (t @ u @ v)) \<and> (length t + length (u @ v) < 255 \<longrightarrow> st \<and> a' = a)"
  proof (cases st)
    case True
    then obtain st2 s2 a2 where "g s1 a1 = Some (st2, s2, a2)" "cs_inv s2" "st2 \<longrightarrow> cs_rep s2 ((t @ u) @ v)" "length (t @ u) + length v < 255 \<longrightarrow> st2 \<and> a2 = a1"
      using appendsE [OF assms(2), of s1 a1] f(3) by blast
    then show ?thesis using True f by (intro exI [of _ st2] exI [of _ s2] exI [of _ a2]) auto
  next
    case False
    then show ?thesis using f by (intro exI [of _ False] exI [of _ s1] exI [of _ a1]) auto
  qed
qed

lemma run_steps_appends: "all_append fs t us \<Longrightarrow> appends (run_steps fs) t (concat us)"
proof (induction fs arbitrary: t us)
  case Nil
  then show ?case using appends_skip [of t] by (simp add: appends_def)
next
  case (Cons f fs)
  then obtain u vs where us: "us = u # vs" "appends f t u" "all_append fs (t @ u) vs" by (cases us) auto
  from appends_then [OF us(2) Cons.IH [OF us(3)]] show ?case using us(1) by (simp add: appends_def)
qed

lemma concat_appends: "c_string u \<Longrightarrow> length u \<le> PTRDIFF_MAX \<Longrightarrow> appends (\<lambda>str a. cstring_concat str u a) t u"
  by (rule appends_post [OF cstring_concat_spec]) (auto intro: short_roomy)

lemma charcat_appends: "c \<noteq> NUL \<Longrightarrow> appends (\<lambda>str a. cstring_charcat str c a) t [c]"
  by (rule appends_post [OF cstring_charcat_spec]) (auto intro: short_roomy)

lemma set_appends: "c_string u \<Longrightarrow> length u \<le> PTRDIFF_MAX \<Longrightarrow> appends (\<lambda>str a. cstring_set str u a) [] u"
proof (rule appends_post)
  fix s a assume "c_string u" "length u \<le> PTRDIFF_MAX" "cs_rep s []"
  then show "cs_post (roomy s 0 (length u) a) a (cstring_set s u a) ([] @ u) []" using cstring_set_spec by simp
qed (auto intro: short_roomy)

lemma concat2_appends:
  assumes "c_string u" "length u \<le> PTRDIFF_MAX" "c_string v" "length v \<le> PTRDIFF_MAX"
  shows "appends (\<lambda>str a. cstring_concat2 str u v a) t (u @ v)"
proof -
  have "(\<lambda>str a. cstring_concat2 str u v a) = (\<lambda>str a. cstring_concat str u a \<bind> (\<lambda>(ok, str, a). if \<not> ok then Some (failure, str, a) else cstring_concat str v a))"
    by (simp add: cstring_concat2_def fun_eq_iff cong: if_cong) (auto intro!: Option.bind_cong)
  then show ?thesis using appends_then [OF concat_appends [OF assms(1,2), of t] concat_appends [OF assms(3,4), of "t @ u"]] by simp
qed

lemma printf_appends:
  assumes "c_string u" "length u \<le> 2 ^ 30"
  shows "appends (\<lambda>str a. cstring_printf str (printf_out u) a) t u"
proof -
  have o: "printf_out u = Some u" "Suc (length u) \<le> PTRDIFF_MAX" using assms(2) by (simp_all add: printf_out_def limit_defs PTRDIFF_MAX_def)
  show ?thesis unfolding o(1) cstring_printf_def
    by (rule appends_post [OF cstring_vprintf_spec]) (use assms(1) o(2) in \<open>auto intro: short_roomy\<close>)
qed

subsection \<open>The text of a cookie\<close>

definition quote_char :: "char \<Rightarrow> string" where
  "quote_char c = (if c = CHR 0x27 then [CHR 0x5C, c] else [c])"

definition quote_text :: "string \<Rightarrow> string" where
  "quote_text v = [CHR 0x27] @ concat (map quote_char v) @ [CHR 0x27]"

lemma quote_loop_appends: "c_string v \<Longrightarrow> appends (\<lambda>str a. quote_loop str v a) t (concat (map quote_char v))"
proof (induction v arbitrary: t)
  case Nil
  then show ?case using appends_skip by simp
next
  case (Cons c v)
  have c: "c \<noteq> NUL" "c_string v" using Cons.prems by (auto simp: c_string_def)
  let ?esc = "\<lambda>str a. if c = CHR 0x27 then cstring_charcat str (CHR 0x5C) a else Some (success, str, a)"
  let ?u = "if c = CHR 0x27 then [CHR 0x5C] else []"
  have "appends ?esc t ?u" using charcat_appends [of "CHR 0x5C" t] appends_skip [of t] by simp
  from appends_then [OF this appends_then [OF charcat_appends [OF c(1)] Cons.IH [OF c(2)]]]
  show ?case by (simp add: quote_char_def split: if_splits)
qed

lemma quoted_appends:
  assumes "c_string v"
  shows "appends (\<lambda>str a. strcat_quoted str v a) t (quote_text v)"
  using appends_then [OF charcat_appends [of "CHR 0x27" t] appends_then [OF quote_loop_appends [OF assms] charcat_appends [of "CHR 0x27"]]]
  by (simp add: strcat_quoted_def quote_text_def)

text \<open>The value stands twice in it, first quoted and then as it is.\<close>

definition cookie_text :: "cookie \<Rightarrow> string" where
  "cookie_text c = ''Set-Cookie: '' @ cs_str (ck_name c) @ ''='' @ quote_text (cs_str (ck_value c)) @ cs_str (ck_value c) @
     '';Version='' @ int_str (ck_version c) @ (if ck_max_age c \<noteq> - 1 then '';Max-Age='' @ int_str (ck_max_age c) else []) @
     '';Secure='' @ int_str (ck_secure c) @ '';Domain='' @ cs_str (ck_domain c) @ '';Comment='' @ cs_str (ck_comment c) @ '';Path='' @ cs_str (ck_path c) @ crlf"

definition cookie_nums_ok :: "cookie \<Rightarrow> bool" where
  "cookie_nums_ok c \<longleftrightarrow> (\<forall>v \<in> {ck_version c, ck_max_age c, ck_secure c}. INT_MIN \<le> v \<and> v \<le> INT_MAX)"

lemma c_string_int_str: "c_string (int_str n)"
proof -
  have "digit_of 10 NUL = None" by (simp add: digit_of_def isdigit_def islower_def isupper_def)
  then have "NUL \<notin> set (numeral_str 10 k)" for k using numeral_str_correct [of 10 k] by auto
  then show ?thesis by (simp add: int_str_def c_string_def)
qed

lemma cookie_appends:
  assumes "cookie_ok c" "cookie_nums_ok c"
  shows "appends (create_cookie_string c) [] (cookie_text c)"
proof -
  have st: "cstr_at (cs_data s) 0 = Some (cs_str s)" "c_string (cs_str s)" "length (cs_str s) \<le> PTRDIFF_MAX" if "cs_inv s" for s
    using that cs_rep_cstr_at [of s "cs_str s"] by (simp_all add: cs_inv_def cs_rep_def)
  note ok = assms(1) [unfolded cookie_ok_def]
  have n: "length (int_str v) \<le> 11" if "v \<in> {ck_version c, ck_max_age c, ck_secure c}" for v
    using that assms(2) length_int_str [of v] by (auto simp: cookie_nums_ok_def)
  let ?name = "cs_str (ck_name c)" and ?val = "cs_str (ck_value c)" and ?dom = "cs_str (ck_domain c)" and ?com = "cs_str (ck_comment c)" and ?path = "cs_str (ck_path c)"
  let ?age = "if ck_max_age c \<noteq> - 1 then '';Max-Age='' @ int_str (ck_max_age c) else []"
  have q: "appends (\<lambda>str a. do { s \<leftarrow> cstr_at (cs_data str) 0; if need_quote s then strcat_quoted str ?val a else Some (success, str, a) })
      (''Set-Cookie: '' @ ?name @ ''='') (quote_text ?val)"
  proof -
    have "need_quote (''Set-Cookie: '' @ ?name @ ''='')" by (auto simp: need_quote_def isalnum_def isalpha_def isdigit_def islower_def isupper_def)
    then show ?thesis using quoted_appends [OF st(2), of "ck_value c" "''Set-Cookie: '' @ ?name @ ''=''"] ok cs_rep_cstr_at by (simp add: appends_def)
  qed
  have age: "appends (\<lambda>str a. if cookie_get_max_age c \<noteq> MAX_AGE_NOT_SET then cstring_printf str (printf_out ('';Max-Age='' @ int_str (cookie_get_max_age c))) a
         else Some (success, str, a)) t ?age" for t
    using printf_appends [of "'';Max-Age='' @ int_str (ck_max_age c)" t] appends_skip [of t] n [of "ck_max_age c"] c_string_int_str
    by (simp add: cookie_get_max_age_def MAX_AGE_NOT_SET_def)
  have p: "appends (\<lambda>str a. cstring_set str ''Set-Cookie: '' a) [] ''Set-Cookie: ''" "\<And>t. appends (\<lambda>str a. cstring_concat str ?name a) t ?name"
      "\<And>t. appends (\<lambda>str a. cstring_charcat str (CHR ''='') a) t ''=''" "\<And>t. appends (\<lambda>str a. cstring_concat str ?val a) t ?val"
      "\<And>t. appends (\<lambda>str a. cstring_concat str crlf a) t crlf"
    using st ok by (auto intro!: set_appends concat_appends charcat_appends simp: PTRDIFF_MAX_def crlf_def)
  have p2: "\<And>t. appends (\<lambda>str a. cstring_printf str (printf_out ('';Version='' @ int_str (ck_version c))) a) t ('';Version='' @ int_str (ck_version c))"
      "\<And>t. appends (\<lambda>str a. cstring_printf str (printf_out ('';Secure='' @ int_str (ck_secure c))) a) t ('';Secure='' @ int_str (ck_secure c))"
    by (rule printf_appends; use n [of "ck_version c"] n [of "ck_secure c"] c_string_int_str in simp)+
  have p3: "\<And>t. appends (\<lambda>str a. cstring_concat2 str '';Domain='' ?dom a) t ('';Domain='' @ ?dom)" "\<And>t. appends (\<lambda>str a. cstring_concat2 str '';Comment='' ?com a) t ('';Comment='' @ ?com)"
      "\<And>t. appends (\<lambda>str a. cstring_concat2 str '';Path='' ?path a) t ('';Path='' @ ?path)"
    by (rule concat2_appends; use st ok in \<open>simp add: PTRDIFF_MAX_def\<close>)+
  have "appends (run_steps [
       \<lambda>str a. cstring_set str ''Set-Cookie: '' a,
       \<lambda>str a. cstring_concat str ?name a,
       \<lambda>str a. cstring_charcat str (CHR ''='') a,
       \<lambda>str a. do { s \<leftarrow> cstr_at (cs_data str) 0; if need_quote s then strcat_quoted str ?val a else Some (success, str, a) },
       \<lambda>str a. cstring_concat str ?val a,
       \<lambda>str a. cstring_printf str (printf_out ('';Version='' @ int_str (cookie_get_version c))) a,
       \<lambda>str a. if cookie_get_max_age c \<noteq> MAX_AGE_NOT_SET then cstring_printf str (printf_out ('';Max-Age='' @ int_str (cookie_get_max_age c))) a
         else Some (success, str, a),
       \<lambda>str a. cstring_printf str (printf_out ('';Secure='' @ int_str (cookie_get_secure c))) a,
       \<lambda>str a. cstring_concat2 str '';Domain='' ?dom a,
       \<lambda>str a. cstring_concat2 str '';Comment='' ?com a,
       \<lambda>str a. cstring_concat2 str '';Path='' ?path a,
       \<lambda>str a. cstring_concat str crlf a]) []
     (concat [''Set-Cookie: '', ?name, ''='', quote_text ?val, ?val, '';Version='' @ int_str (ck_version c), ?age, '';Secure='' @ int_str (ck_secure c),
        '';Domain='' @ ?dom, '';Comment='' @ ?com, '';Path='' @ ?path, crlf])"
    unfolding cookie_get_version_def cookie_get_secure_def
    by (rule run_steps_appends) (simp only: all_append.simps list.sel list.distinct append_Nil append_assoc not_False_eq_True simp_thms p p2 p3 q age)
  then show ?thesis using st ok
    by (simp add: appends_def create_cookie_string_def cookie_get_name_def cookie_get_value_def cookie_get_domain_def cookie_get_comment_def cookie_get_path_def
        cookie_text_def)
qed

subsection \<open>Sending cookies\<close>

text \<open>Calls that write to a connection and report errors; \<open>x\<close> are the results that only depend on success.\<close>

definition sends_all :: "connection \<Rightarrow> string \<Rightarrow> error \<Rightarrow> allocator \<Rightarrow> (status_t \<times> connection \<times> error \<times> allocator) option \<Rightarrow> bool" where
  "sends_all c bs e a r \<longleftrightarrow> (\<exists>ok c' e'. r = Some (ok, c', e', a) \<and> sends c bs (Some (ok, c')) \<and> (ok \<longrightarrow> e' = e))"

lemma sends_SomeD: "sends c bs r \<Longrightarrow> \<exists>ok c'. r = Some (ok, c') \<and> conn_ok c'"
  by (auto simp: sends_def)

lemma sends_step:
  assumes "sends c bs (Some (True, d))" "sends d bs' (Some (ok, d'))"
  shows "sends c (bs @ bs') (Some (ok, d'))"
  using sends_bind [OF assms(1), of bs' "\<lambda>_. Some (ok, d')"] assms(2) by simp

lemma sends_stop:
  assumes "sends c bs (Some (False, d))"
  shows "sends c (bs @ bs') (Some (False, d))"
  using sends_bind [OF assms(1), of bs' "\<lambda>_. None"] by simp

lemma send_cookie_sends:
  assumes "cookie_ok k" "cookie_nums_ok k" "length (cookie_text k) < 255" "conn_ok c" "decisions a = []"
  shows "sends_all c (cookie_text k) e a (send_cookie k c e a)"
proof -
  obtain s0 where n: "cstring_new a = (Some s0, a)" "cs_rep s0 []" using cstring_new_spec [of a] assms(5) by auto
  obtain s where s: "create_cookie_string k s0 a = Some (True, s, a)" "cs_rep s (cookie_text k)"
    using appendsE [OF cookie_appends [OF assms(1,2)] n(2), of a] assms(3) by force
  obtain ok c' where w: "connection_write c (cookie_text k) = Some (ok, c')" "sends c (cookie_text k) (Some (ok, c'))"
    using write_spec [OF assms(4), of "cookie_text k"] by (auto simp: sends_def)
  show ?thesis unfolding sends_all_def using n(1) s(1) cs_bytes_rep [OF s(2)] w by (auto simp: send_cookie_def)
qed

definition cookies_text :: "cookie list \<Rightarrow> string" where
  "cookies_text ks = concat (map cookie_text ks)"

definition cookies_short :: "cookie list \<Rightarrow> bool" where
  "cookies_short ks \<longleftrightarrow> (\<forall>k \<in> set ks. cookie_ok k \<and> cookie_nums_ok k \<and> length (cookie_text k) < 255)"

lemma send_cookies_sends:
  assumes "lrep l ks" "cookies_short ks" "conn_ok c" "decisions a = []"
  shows "sends_all c (cookies_text ks) e a (response_send_cookies l c e a)"
proof -
  define g :: "cookie \<Rightarrow> bool \<Rightarrow> (status_t \<times> connection \<times> error \<times> allocator) \<Rightarrow> (bool \<times> (status_t \<times> connection \<times> error \<times> allocator)) option"
    where "g = (\<lambda>k _ (_, conn, e, a). do { (ok, conn, e, a) \<leftarrow> send_cookie k conn e a; Some (ok, (ok, conn, e, a)) })"
  have "response_send_cookies l c e a = fold_more g ks (True, c, e, a)"
    unfolding response_send_cookies_def g_def by (rule for_nodes_items [OF _ lrep_weak(1) [OF assms(1)]]) (auto simp: item_of_def)
  moreover have "sends_all c (cookies_text ks) e a (fold_more g ks (True, c, e, a))" using assms(2,3)
  proof (induction ks arbitrary: c)
    case Nil
    then show ?case using sends_id by (auto simp: sends_all_def cookies_text_def)
  next
    case (Cons k ks)
    have ks: "cookies_short ks" "cookie_ok k" "cookie_nums_ok k" "length (cookie_text k) < 255" using Cons.prems(1) by (simp_all add: cookies_short_def)
    have t: "cookies_text (k # ks) = cookie_text k @ cookies_text ks" by (simp add: cookies_text_def)
    from send_cookie_sends [OF ks(2-4) Cons.prems(2) assms(4), of e] obtain ok c1 e1
      where s: "send_cookie k c e a = Some (ok, c1, e1, a)" "sends c (cookie_text k) (Some (ok, c1))" "ok \<longrightarrow> e1 = e" unfolding sends_all_def by blast
    have g: "g k b (True, c, e, a) = Some (ok, (ok, c1, e1, a))" for b using s(1) by (simp add: g_def)
    show ?case
    proof (cases ok)
      case True
      have "conn_ok c1" using sends_SomeD [OF s(2)] by simp
      from Cons.IH [OF ks(1) this] obtain ok2 c2 e2 where f: "fold_more g ks (True, c1, e, a) = Some (ok2, c2, e2, a)" "sends c1 (cookies_text ks) (Some (ok2, c2))" "ok2 \<longrightarrow> e2 = e"
        unfolding sends_all_def by blast
      have "fold_more g (k # ks) (True, c, e, a) = Some (ok2, c2, e2, a)" using g f(1) s(3) True by simp
      moreover have "sends c (cookie_text k @ cookies_text ks) (Some (ok2, c2))" using s(2) True sends_step [OF _ f(2)] by simp
      ultimately show ?thesis using f(3) unfolding sends_all_def t by blast
    next
      case False
      have "fold_more g (k # ks) (True, c, e, a) = Some (ok, c1, e1, a)" using g False by simp
      moreover have "sends c (cookie_text k @ cookies_text ks) (Some (ok, c1))" using s(2) False sends_stop by simp
      ultimately show ?thesis using s(3) unfolding sends_all_def t by blast
    qed
  qed
  ultimately show ?thesis by simp
qed

subsection \<open>The header\<close>

definition rs_lines :: "(64 word \<times> (http_response \<Rightarrow> string)) list" where
  "rs_lines = [
     (AGE, \<lambda>p. ''Age: '' @ int_str (int (rs_age p))),
     (ETAG, \<lambda>p. ''ETag: '' @ cs_str (rs_etag p) @ crlf),
     (LOCATION, \<lambda>p. ''Location: '' @ cs_str (rs_location p) @ crlf),
     (PROXY_AUTHENTICATE, \<lambda>p. ''Proxy-Authenticate: '' @ cs_str (rs_proxy_authenticate p) @ crlf),
     (SERVER, \<lambda>p. ''Server: '' @ cs_str (rs_server p) @ crlf),
     (VARY, \<lambda>p. ''Vary: '' @ cs_str (rs_vary p) @ crlf),
     (WWW_AUTHENTICATE, \<lambda>p. ''WWW-Authenticate: '' @ cs_str (rs_www_authenticate p) @ crlf),
     (ACCEPT_RANGES, \<lambda>p. if rs_accept_ranges p = 1 then ''Accept-Ranges: bytes'' @ crlf else ''Accept-Ranges: none'' @ crlf),
     (RETRY_AFTER, \<lambda>p. ''Retry-After: '' @ http_date (rs_retry_after p))]"

lemma send_age_sends:
  assumes "conn_ok c" "rs_ok p"
  shows "sends c (''Age: '' @ int_str (int (rs_age p))) (send_age p c)"
proof -
  have a: "rs_age p < 10 ^ 20" "rs_age p < 2 ^ 64" using assms(2) by (simp_all add: rs_ok_def rs_strings_ok_def SIZE_MOD_def)
  have "uint (of_nat (rs_age p) :: 64 word) = int (rs_age p)" using a(2) by (simp add: unsigned_of_nat take_bit_nat_eq_self)
  moreover have "length (''Age: '' @ int_str (int (rs_age p))) < 1000" using length_numeral [of "rs_age p" 20] a(1) by (simp add: int_str_def)
  ultimately show ?thesis using write_spec [OF assms(1)] by (simp add: send_age_def http_send_ulong_def send_printf_def del: append.simps)
qed

lemma rs_sends:
  assumes "conn_ok c" "rs_ok p"
  shows "sends c (table_lines response_flag_isset rs_lines p) (send_table response_flag_isset rs_send_fields p c)"
proof (rule send_table_sends [OF _ assms(1)])
  have f: "sends c (name @ cs_str s @ crlf) (http_send_field c name s)" if "conn_ok c" "cs_inv s" for c name s
    using send_field_sends [OF that(1)] that(2) by (simp add: cs_inv_def)
  show "list_all2 (\<lambda>(f, send) (g, line). f = g \<and> (\<forall>c. conn_ok c \<and> response_flag_isset p f \<longrightarrow> sends c (line p) (send p c))) rs_send_fields rs_lines"
    using f assms(2) write_spec by (simp add: rs_send_fields_def rs_lines_def rs_ok_def rs_strings_ok_def send_etag_def send_location_def send_proxy_authenticate_def
        send_server_def send_vary_def send_www_authenticate_def send_retry_after_def send_accept_ranges_def send_date_sends
        send_age_sends [OF _ assms(2)] del: append.simps)
qed

text \<open>The general header goes out with a date and, on a kept connection of version 1.0, with Keep-Alive.\<close>

definition header_text :: "general_header \<Rightarrow> http_response \<Rightarrow> string" where
  "header_text gh p = gh_text gh @ table_lines entity_header_flag_is_set eh_lines (rs_entity_header p) @ table_lines response_flag_isset rs_lines p"

lemma header_fields_sends:
  assumes "rs_ok p" "conn_ok c" "now \<noteq> - 1"
  obtains gh ok c' where "response_send_header_fields now p c = Some (ok, p\<lparr>rs_general_header := gh\<rparr>, c')" "sends c (header_text gh p) (Some (ok, c'))"
    "gh_ok gh" "gh_view gh = gh_view (rs_general_header p)"
    "gh = (if general_header_date_isset (rs_general_header p) then rs_general_header p
       else general_header_set_flag ((rs_general_header p)\<lparr>gh_date := now\<rparr>) GENERAL_HEADER_DATE_SET)"
proof -
  let ?g = "rs_general_header p"
  define gh where "gh = (if general_header_date_isset ?g then ?g else general_header_set_flag (?g\<lparr>gh_date := now\<rparr>) GENERAL_HEADER_DATE_SET)"
  let ?p = "p\<lparr>rs_general_header := gh\<rparr>"
  have g: "gh_ok ?g" "eh_ok (rs_entity_header p)" using assms(1) by (simp_all add: rs_ok_def)
  have ghok: "gh_ok gh" using g(1) by (simp add: gh_def gh_ok_def gh_bits gh_set_bits)
  have view: "gh_view gh = gh_view ?g" unfolding gh_def by (auto intro!: gh_view_eq simp: gh_strings_def gh_bits gh_set_bits)
  have rsok: "rs_ok ?p" using assms(1) ghok by (simp add: rs_ok_def rs_strings_ok_def rs_cookie_list_def)
  have same: "table_lines response_flag_isset rs_lines ?p = table_lines response_flag_isset rs_lines p"
    by (simp add: table_lines_def rs_lines_def response_flag_isset_def)
  let ?run = "do { (ok, conn) \<leftarrow> general_header_send_fields gh c;
       if ok then do { (ok, conn) \<leftarrow> entity_header_send_fields (rs_entity_header p) conn;
         if ok then send_table response_flag_isset rs_send_fields ?p conn else Some (failure, conn) } else Some (failure, conn) }"
  have s: "sends c (header_text gh p) ?run" unfolding header_text_def same [symmetric]
    by (rule sends_bind [OF gh_sends [OF assms(2) ghok] sends_bind [OF eh_sends [OF _ g(2)] rs_sends [OF _ rsok]]])
  then obtain ok c' where r: "?run = Some (ok, c')" by (auto simp: sends_def)
  have d: "(if \<not> general_header_date_isset ?g then general_header_set_date ?g now else Some ?g) = Some gh"
    using assms(3) by (simp add: gh_def general_header_set_date_def)
  have sel: "rs_general_header ?p = gh" "rs_entity_header ?p = rs_entity_header p" by simp_all
  have "response_send_header_fields now p c = Some (ok, ?p, c')"
    unfolding response_send_header_fields_def d bind.bind_lunit Let_def sel r by simp
  then show thesis using that [of ok gh c'] s r ghok view gh_def by simp
qed

lemma connection_field_spec:
  assumes "rs_ok p" "c_string v" "length v < 256"
  obtains gh a' where "response_set_connection p v a = Some (True, p\<lparr>rs_general_header := gh\<rparr>, a')" "rs_ok (p\<lparr>rs_general_header := gh\<rparr>)"
    "gh_view gh = (gh_view (rs_general_header p))(''connection'' \<mapsto> v)" "a' = a"
    "general_header_date_isset gh = general_header_date_isset (rs_general_header p)" "gh_date gh = gh_date (rs_general_header p)"
proof -
  let ?g = "rs_general_header p"
  have g: "gh_ok ?g" using assms(1) by (simp add: rs_ok_def)
  have P: "length v \<le> PTRDIFF_MAX" "c_string v" using assms(2,3) by (simp_all add: PTRDIFF_MAX_def)
  obtain st s a' where s: "general_header_set_connection ?g v a =
      Some (st, if st then general_header_set_flag (?g\<lparr>gh_connection := s\<rparr>) GENERAL_HEADER_CONNECTION_SET else ?g\<lparr>gh_connection := s\<rparr>, a')"
    "cs_rep s (if st then v else [])" "gh_ok (general_header_set_flag (?g\<lparr>gh_connection := s\<rparr>) GENERAL_HEADER_CONNECTION_SET)"
    "roomy (gh_connection ?g) 0 (length v) a \<longrightarrow> st \<and> a' = a"
    by (rule ghc.setter_spec [OF g P(2,1), of a])
  have "256 \<le> cs_size (gh_connection ?g)" using g by (simp add: gh_ok_def cs_inv_def cs_rep_def CSTRING_INITIAL_SIZE_def)
  then have st: "st" "a' = a" using s(4) assms(3) by (auto simp: roomy_def)
  let ?gh = "general_header_set_flag (?g\<lparr>gh_connection := s\<rparr>) GENERAL_HEADER_CONNECTION_SET"
  show thesis
  proof (rule that [of ?gh a'])
    show "response_set_connection p v a = Some (True, p\<lparr>rs_general_header := ?gh\<rparr>, a')" using s(1) st by (simp add: response_set_connection_def)
    show "rs_ok (p\<lparr>rs_general_header := ?gh\<rparr>)" using assms(1) s(3) by (simp add: rs_simps)
    show "gh_view ?gh = (gh_view ?g)(''connection'' \<mapsto> v)" by (rule ghc.view_set) (use s(2) st in simp)
    show "general_header_date_isset ?gh = general_header_date_isset ?g" by (simp add: general_header_date_isset_def gh_bits gh_set_bits)
    show "gh_date ?gh = gh_date ?g" by (simp add: general_header_set_flag_def)
  qed (rule st(2))
qed

text \<open>The general header that is sent.\<close>

definition sent_header :: "int \<Rightarrow> connection \<Rightarrow> http_response \<Rightarrow> general_header \<Rightarrow> bool" where
  "sent_header now c p gh \<longleftrightarrow> gh_ok gh \<and> general_header_date_isset gh \<and>
     gh_date gh = (if general_header_date_isset (rs_general_header p) then gh_date (rs_general_header p) else now) \<and>
     gh_view gh = (if persistent c \<and> rs_version p = VERSION_10 then (gh_view (rs_general_header p))(''connection'' \<mapsto> ''Keep-Alive'')
       else gh_view (rs_general_header p))"

lemma date_header:
  assumes "gh = (if general_header_date_isset g then g else general_header_set_flag (g\<lparr>gh_date := now\<rparr>) GENERAL_HEADER_DATE_SET)"
  shows "general_header_date_isset gh" "gh_date gh = (if general_header_date_isset g then gh_date g else now)"
  using assms by (auto simp: general_header_date_isset_def gh_bits gh_set_bits)

lemma send_header_sends:
  assumes "rs_ok p" "conn_ok c" "now \<noteq> - 1" "rs_version p \<noteq> VERSION_09" "rs_cookie_list p ks" "cookies_short ks" "decisions a = []"
  obtains gh ok c' e' where "response_send_header now p c e a = Some (ok, p\<lparr>rs_general_header := gh\<rparr>, c', e', a)"
    "sends c (header_text gh p @ cookies_text ks @ crlf) (Some (ok, c'))" "ok \<longrightarrow> e' = e" "sent_header now c p gh"
proof -
  let ?keep = "connection_is_persistent c \<and> rs_version p = VERSION_10"
  obtain g0 where g0: "(if ?keep then response_set_connection p ''Keep-Alive'' a else Some (success, p, a)) = Some (True, p\<lparr>rs_general_header := g0\<rparr>, a)"
    "rs_ok (p\<lparr>rs_general_header := g0\<rparr>)" "gh_view g0 = (if ?keep then (gh_view (rs_general_header p))(''connection'' \<mapsto> ''Keep-Alive'') else gh_view (rs_general_header p))"
    "general_header_date_isset g0 = general_header_date_isset (rs_general_header p)" "gh_date g0 = gh_date (rs_general_header p)"
  proof (cases ?keep)
    case True
    obtain gh where "response_set_connection p ''Keep-Alive'' a = Some (True, p\<lparr>rs_general_header := gh\<rparr>, a)" "rs_ok (p\<lparr>rs_general_header := gh\<rparr>)"
      "gh_view gh = (gh_view (rs_general_header p))(''connection'' \<mapsto> ''Keep-Alive'')"
      "general_header_date_isset gh = general_header_date_isset (rs_general_header p)" "gh_date gh = gh_date (rs_general_header p)"
      by (rule connection_field_spec [OF assms(1), of "''Keep-Alive''" a]) (simp, simp, blast)
    then show thesis using that [of gh] True by simp
  next
    case False
    show thesis by (rule that [of "rs_general_header p"]) (use False assms(1) in auto)
  qed
  let ?p0 = "p\<lparr>rs_general_header := g0\<rparr>"
  obtain gh ok1 c1 where h: "response_send_header_fields now ?p0 c = Some (ok1, ?p0\<lparr>rs_general_header := gh\<rparr>, c1)" "sends c (header_text gh ?p0) (Some (ok1, c1))"
    "gh_ok gh" "gh_view gh = gh_view (rs_general_header ?p0)"
    "gh = (if general_header_date_isset (rs_general_header ?p0) then rs_general_header ?p0
       else general_header_set_flag ((rs_general_header ?p0)\<lparr>gh_date := now\<rparr>) GENERAL_HEADER_DATE_SET)"
    by (rule header_fields_sends [OF g0(2) assms(2,3)])
  have t: "header_text gh ?p0 = header_text gh p" by (simp add: header_text_def table_lines_def rs_lines_def response_flag_isset_def)
  have sh: "sent_header now c p gh" unfolding sent_header_def using h(3,4) date_header [OF h(5)] g0(3-5) by (simp add: connection_is_persistent_def)
  let ?p = "p\<lparr>rs_general_header := gh\<rparr>"
  show thesis
  proof (cases ok1)
    case False
    show thesis
    proof (rule that [of False gh c1])
      show "response_send_header now p c e a = Some (False, ?p, c1, set_tcpip_error e (errno_num (net_errno (cn_net c1))), a)"
        unfolding response_send_header_def g0(1) using h(1) assms(4) False by simp
      show "sends c (header_text gh p @ cookies_text ks @ crlf) (Some (False, c1))" using sends_stop h(2) False t by simp
    qed (use sh in simp_all)
  next
    case True
    have c1: "conn_ok c1" using sends_SomeD [OF h(2)] by simp
    let ?cs = "case rs_cookies ?p of None \<Rightarrow> Some (success, c1, e, a) | Some l \<Rightarrow> response_send_cookies l c1 e a"
    have "sends_all c1 (cookies_text ks) e a ?cs"
    proof (cases "rs_cookies p")
      case None
      then show ?thesis using assms(5) sends_id [OF c1] by (auto simp: rs_cookie_list_def sends_all_def cookies_text_def)
    next
      case (Some l)
      then show ?thesis using assms(5) send_cookies_sends [OF _ assms(6) c1 assms(7)] by (simp add: rs_cookie_list_def)
    qed
    then obtain ok2 c2 e2 where k: "?cs = Some (ok2, c2, e2, a)" "sends c1 (cookies_text ks) (Some (ok2, c2))" "ok2 \<longrightarrow> e2 = e" unfolding sends_all_def by blast
    have k1: "sends c (header_text gh p @ cookies_text ks) (Some (ok2, c2))" using sends_step [OF _ k(2)] h(2) True t by simp
    show thesis
    proof (cases ok2)
      case ok2: False
      show thesis
      proof (rule that [of False gh c2])
        show "response_send_header now p c e a = Some (False, ?p, c2, e2, a)"
          unfolding response_send_header_def g0(1) using h(1) assms(4) True k(1) ok2 by simp
        show "sends c (header_text gh p @ cookies_text ks @ crlf) (Some (False, c2))" using sends_stop [of c "header_text gh p @ cookies_text ks" c2 crlf] k1 ok2 by simp
      qed (use sh in simp_all)
    next
      case ok2: True
      obtain ok3 c3 where w: "connection_write c2 crlf = Some (ok3, c3)" "sends c2 crlf (Some (ok3, c3))"
        using write_spec [of c2 crlf] sends_SomeD [OF k(2)] by (auto simp: sends_def)
      show thesis
      proof (rule that [of ok3 gh c3])
        show "response_send_header now p c e a = Some (ok3, ?p, c3, if ok3 then e else set_tcpip_error e (errno_num (net_errno (cn_net c3))), a)"
          unfolding response_send_header_def g0(1) using h(1) assms(4) True k(1,3) ok2 w(1) by simp
        show "sends c (header_text gh p @ cookies_text ks @ crlf) (Some (ok3, c3))" using sends_step [OF _ w(2), of c "header_text gh p @ cookies_text ks"] k1 ok2 by simp
      qed (use sh in simp_all)
    qed
  qed
qed

subsection \<open>The entity\<close>

lemma big_buffer_sends:
  assumes "conn_ok c" "0 < n"
  shows "sends c bs (connection_write_big_buffer c bs n)"
proof -
  let ?w = "\<lambda>c1. do { (rc, w) \<leftarrow> socket_write (cn_fd c1) n bs (cn_net c1); Some (rc, c1\<lparr>cn_net := w\<rparr>) }"
  have "sends c1 bs (?w c1)" if "connection_flush c = Some (True, c1)" "conn_ok c1" for c1
  proof -
    note T = that
    obtain wb where wb: "writebuf c1 = Some wb" "content wb = []" using flush_spec(2) [OF assms(1) T(1)] by blast
    let ?d = "c1\<lparr>retries_writes := n\<rparr>"
    have "conn_ok ?d" "writebuf ?d = Some wb" using T(2) wb by (simp_all add: conn_ok_def)
    from socket_sends [OF this wb(2), of bs 0] obtain ok d' k where
      s: "write_to_socket ?d bs \<bind> (\<lambda>(ok, this). if \<not> ok then Some (failure, this) else Some (success, this\<lparr>outgoing_bytes := szt (outgoing_bytes this + 0)\<rparr>)) = Some (ok, d')"
        "conn_ok d'" "in_stream d' = in_stream ?d" "persistent d' = persistent ?d" "ok \<longrightarrow> out_stream d' = out_stream ?d @ bs"
        "sent (cn_net d') = take k (out_stream ?d @ bs)" "quiet ?d \<longrightarrow> ok \<and> quiet d'" unfolding sends_def by blast
    have v: "in_stream ?d = in_stream c1" "out_stream ?d = out_stream c1" "quiet ?d = quiet c1" by (simp_all add: in_stream_def out_stream_def quiet_def)
    obtain rc w where rw: "socket_write (cn_fd c1) n bs (cn_net c1) = Some (rc, w)" "ok = rc" "cn_net d' = w" "readbuf d' = readbuf c1" "writebuf d' = writebuf c1"
      using s(1) by (cases "socket_write (cn_fd c1) n bs (cn_net c1)") (auto simp: write_to_socket_def split: if_splits)
    have o: "out_stream (c1\<lparr>cn_net := w\<rparr>) = out_stream d'" "in_stream (c1\<lparr>cn_net := w\<rparr>) = in_stream d'" "quiet (c1\<lparr>cn_net := w\<rparr>) = quiet d'"
      using rw(3-5) by (simp_all add: out_stream_def in_stream_def quiet_def)
    show ?thesis
      by (rule sendsI [of _ rc "c1\<lparr>cn_net := w\<rparr>" _ _ k]) (use rw s(3-7) o v T(2) in \<open>simp_all add: conn_ok_def\<close>)
  qed
  from sends_bind [OF flush_spec(1) [OF assms(1)] this] show ?thesis using assms(2) by (simp add: connection_write_big_buffer_def)
qed

lemma file_loop_sends:
  assumes "conn_ok c"
  obtains ok c' n where "file_loop c bufs m = Some (ok, c', n)" "sends c (concat bufs) (Some (ok, c'))" "ok \<longrightarrow> n mod SIZE_MOD = (m + length (concat bufs)) mod SIZE_MOD"
  using assms
proof (induction bufs arbitrary: c m thesis)
  case Nil
  then show ?case using sends_id by simp
next
  case (Cons b bufs)
  let ?r = "connection_write c b \<bind> (\<lambda>(ok, conn). if ok then connection_flush conn else Some (failure, conn))"
  have "sends c (b @ []) ?r" by (rule sends_bind [OF write_spec [OF Cons.prems(2)] flush_spec(1)])
  then have "sends c b ?r" by simp
  then obtain ok c1 where r: "?r = Some (ok, c1)" "sends c b (Some (ok, c1))" by (auto simp: sends_def)
  have eq: "file_loop c (b # bufs) m = (if \<not> ok then Some (failure, c1, szt (m + length b)) else file_loop c1 bufs (szt (m + length b)))"
    using r(1) by (cases "connection_write c b") (auto simp: Let_def split: if_splits)
  show ?case
  proof (cases ok)
    case True
    have "conn_ok c1" using sends_SomeD [OF r(2)] by simp
    then obtain ok2 c2 n where f: "file_loop c1 bufs (szt (m + length b)) = Some (ok2, c2, n)" "sends c1 (concat bufs) (Some (ok2, c2))"
      "ok2 \<longrightarrow> n mod SIZE_MOD = (szt (m + length b) + length (concat bufs)) mod SIZE_MOD" using Cons.IH by blast
    show ?thesis
    proof (rule Cons.prems(1))
      show "file_loop c (b # bufs) m = Some (ok2, c2, n)" using eq f(1) True by simp
      show "sends c (concat (b # bufs)) (Some (ok2, c2))" using sends_step [OF _ f(2)] r(2) True by simp
      show "ok2 \<longrightarrow> n mod SIZE_MOD = (m + length (concat (b # bufs))) mod SIZE_MOD" using f(3) by (simp add: szt_def mod_add_left_eq add.assoc)
    qed
  next
    case False
    then show ?thesis using Cons.prems(1) [OF eq [unfolded if_P [OF False]]] sends_stop [of c b c1 "concat bufs"] r(2) by simp
  qed
qed

text \<open>
  The bytes of the entity: the content buffer, the file, or the string that the page has built, with the length from the
  entity header. The buffers have to hold that many bytes.
\<close>

definition rs_body :: "(string \<Rightarrow> char list list option) \<Rightarrow> http_response \<Rightarrow> string option" where
  "rs_body files r = do {
     n \<leftarrow> response_get_content_length r;
     if rs_content_buffer_in_use r then rs_content_buffer r \<bind> (\<lambda>b. if n < 2 ^ 42 then rd b 0 n else None)
     else if rs_send_file r then map_option concat (files (cs_str (rs_path r)))
     else rd (cs_data (rs_entity r)) 0 n }"

lemma send_entity_sends:
  assumes "rs_ok r" "conn_ok c" "rs_body files r = Some body"
  obtains ok r' c' pcb' where "response_send_entity files r c pcb = Some (ok, r', c', pcb')" "sends c body (Some (ok, c'))"
    "ok \<longrightarrow> pcb' mod SIZE_MOD = length body mod SIZE_MOD"
proof -
  obtain n where n: "response_get_content_length r = Some n" using assms(3) by (auto simp: rs_body_def bind_eq_Some_conv)
  consider (buf) "rs_content_buffer_in_use r" | (disk) "\<not> rs_content_buffer_in_use r" "rs_send_file r" | (page) "\<not> rs_content_buffer_in_use r" "\<not> rs_send_file r" by blast
  then show thesis
  proof cases
    case buf
    obtain b where b: "rs_content_buffer r = Some b" "n < 2 ^ 42" "rd b 0 n = Some body" using assms(3) n buf
      by (auto simp: rs_body_def bind_eq_Some_conv split: if_splits)
    have "0 < n div 1024 mod 2 ^ 32" if "n > 64 * 1024"
    proof -
      have "n div 1024 < 2 ^ 32" using b(2) by (simp add: less_mult_imp_div_less)
      moreover have "0 < n div 1024" using that by (simp add: div_greater_zero_iff)
      ultimately show ?thesis by simp
    qed
    then have "sends c body (if n > 64 * 1024 then connection_write_big_buffer c body (n div 1024 mod 2 ^ 32) else connection_write c body)"
      using big_buffer_sends [OF assms(2)] write_spec [OF assms(2)] by simp
    then obtain ok c' where s: "(if n > 64 * 1024 then connection_write_big_buffer c body (n div 1024 mod 2 ^ 32) else connection_write c body) = Some (ok, c')"
      "sends c body (Some (ok, c'))" by (auto simp: sends_def)
    have "length body = n" using b(3) by (auto simp: rd_def split: if_splits)
    moreover have "response_send_entity files r c pcb = Some (ok, if rs_content_free_when_done r then r\<lparr>rs_content_buffer := None\<rparr> else r, c', n)"
      unfolding response_send_entity_def n bind.bind_lunit b(1,3) s(1) using buf by simp
    ultimately show thesis using that s(2) by blast
  next
    case disk
    obtain bufs where b: "files (cs_str (rs_path r)) = Some bufs" "body = concat bufs" using assms(3) n disk by (auto simp: rs_body_def)
    have p: "cstr_at (cs_data (rs_path r)) 0 = Some (cs_str (rs_path r))" using assms(1) cs_rep_cstr_at by (simp add: rs_ok_def rs_strings_ok_def cs_inv_def)
    obtain ok c' m where f: "file_loop c bufs 0 = Some (ok, c', m)" "sends c (concat bufs) (Some (ok, c'))" "ok \<longrightarrow> m mod SIZE_MOD = (0 + length (concat bufs)) mod SIZE_MOD"
      by (rule file_loop_sends [OF assms(2)])
    have "response_send_entity files r c pcb = Some (ok, r, c', m)" using disk p b(1) f(1) by (simp add: response_send_entity_def send_entire_file_def)
    then show thesis using that f b(2) by simp
  next
    case page
    have b: "rd (cs_data (rs_entity r)) 0 n = Some body" using assms(3) n page by (simp add: rs_body_def)
    obtain ok c' where w: "connection_write c body = Some (ok, c')" "sends c body (Some (ok, c'))" using write_spec [OF assms(2), of body] by (auto simp: sends_def)
    have "length body = n" using b by (auto simp: rd_def split: if_splits)
    moreover have "response_send_entity files r c pcb = Some (ok, r, c', n)" using page n b w(1) by (simp add: response_send_entity_def response_get_entity_def)
    ultimately show thesis using that w(2) by blast
  qed
qed

subsection \<open>Property\<close>

definition with_length :: "http_response \<Rightarrow> http_response" where
  "with_length r = (if \<not> entity_header_content_length_isset (rs_entity_header r) then response_set_content_length r (cs_len (rs_entity r)) else r)"

definition status_line :: "http_response \<Rightarrow> string option" where
  "status_line r = map_of (if rs_version r = VERSION_10 then m_http_status10 else m_http_status11) (rs_status r)"

definition has_entity :: "http_response \<Rightarrow> bool" where
  "has_entity r \<longleftrightarrow> rs_status r = 200 \<or> rs_status r = 404"

text \<open>The message of a response.\<close>

definition response_text :: "string \<Rightarrow> general_header \<Rightarrow> http_response \<Rightarrow> cookie list \<Rightarrow> string \<Rightarrow> string" where
  "response_text line gh r ks body = line @ header_text gh (with_length r) @ cookies_text ks @ crlf @ (if has_entity r then body else [])"

lemma with_length_ok:
  assumes "rs_ok r"
  shows "rs_ok (with_length r)" "rs_version (with_length r) = rs_version r" "rs_status (with_length r) = rs_status r" "rs_general_header (with_length r) = rs_general_header r"
    "rs_cookie_list (with_length r) ks = rs_cookie_list r ks" "sent_header now c (with_length r) = sent_header now c r"
proof -
  have "cs_len (rs_entity r) < SIZE_MOD" using assms cs_rep_length [of "rs_entity r" "cs_str (rs_entity r)"] by (auto simp: rs_ok_def rs_strings_ok_def cs_inv_def)
  then show "rs_ok (with_length r)" using assms
    by (auto simp: with_length_def response_set_content_length_def entity_header_set_content_length_def rs_ok_def rs_strings_ok_def rs_cookie_list_def eh_ok_def)
qed (simp_all add: with_length_def response_set_content_length_def rs_cookie_list_def sent_header_def fun_eq_iff)

text \<open>Sending a part and stopping when it fails; \<open>late\<close> says that the call reports failure although everything went out.\<close>

lemma response_send_spec:
  assumes "rs_ok r" "conn_ok c" "now \<noteq> - 1" "rs_version r \<noteq> VERSION_09" "status_line r = Some line" "rs_cookie_list r ks" "cookies_short ks" "decisions a = []"
    "rs_body files (with_length r) = Some body"
  obtains gh ok r' c' e' pcb' all where "sent_header now c r gh" "response_send now files r c e pcb a = Some (ok, r', c', e', pcb', a)"
    "sends c (response_text line gh r ks body) (Some (all, c'))" "ok \<longleftrightarrow> all \<and> has_entity r" "all \<longrightarrow> e' = e" "ok \<longrightarrow> pcb' mod SIZE_MOD = length body mod SIZE_MOD"
proof -
  let ?r = "with_length r"
  note w = with_length_ok [OF assms(1)]
  have st: "send_status_code d (rs_status ?r) (rs_version ?r) = connection_write d line" for d
    using assms(5) w by (simp add: send_status_code_def status_line_def)
  obtain ok1 c1 where l: "connection_write c line = Some (ok1, c1)" "sends c line (Some (ok1, c1))" using write_spec [OF assms(2), of line] by (auto simp: sends_def)
  have c1: "conn_ok c1" "persistent c1 = persistent c" using l(2) by (auto simp: sends_def)
  have hd: "rs_version ?r \<noteq> VERSION_09" "rs_cookie_list ?r ks" using w assms(4,6) by simp_all
  obtain gh ok2 c2 e2 where h: "response_send_header now ?r c1 e a = Some (ok2, ?r\<lparr>rs_general_header := gh\<rparr>, c2, e2, a)"
    "sends c1 (header_text gh ?r @ cookies_text ks @ crlf) (Some (ok2, c2))" "ok2 \<longrightarrow> e2 = e" "sent_header now c1 ?r gh"
    by (rule send_header_sends [OF w(1) c1(1) assms(3) hd assms(7,8)])
  have sh: "sent_header now c r gh" using h(4) c1(2) w(6) by (simp add: sent_header_def)
  let ?hdr = "header_text gh ?r @ cookies_text ks @ crlf" and ?entity = "if has_entity r then body else []"
  have t: "response_text line gh r ks body = line @ ?hdr @ ?entity" by (simp add: response_text_def)
  have unf: "response_send now files r c e pcb a = (if \<not> ok1 then Some (failure, ?r, c1, set_tcpip_error e (errno_num (net_errno (cn_net c1))), pcb, a)
     else if \<not> has_entity r \<or> \<not> ok2 then Some (failure, ?r\<lparr>rs_general_header := gh\<rparr>, c2, e2, pcb, a)
     else do {
         (ok, r, c, pcb) \<leftarrow> response_send_entity files (?r\<lparr>rs_general_header := gh\<rparr>) c2 pcb;
         Some (if ok then (success, r, c, e2, pcb, a) else (failure, r, c, set_tcpip_error e2 (errno_num (net_errno (cn_net c))), pcb, a)) })"
    unfolding response_send_def with_length_def [symmetric] Let_def st l(1) using h(1) w(3) by (simp add: has_entity_def)
  show thesis
  proof (cases ok1)
    case False
    show thesis by (rule that [OF sh, of False ?r c1 _ pcb False]) (use unf False sends_stop l(2) t in simp_all)
  next
    case ok1: True
    have lh: "sends c (line @ ?hdr) (Some (ok2, c2))" using sends_step [OF _ h(2)] l(2) ok1 by simp
    show thesis
    proof (cases "has_entity r \<and> ok2")
      case False
      have "sends c (response_text line gh r ks body) (Some (ok2, c2))"
      proof (cases ok2)
        case True
        then show ?thesis using False lh t by simp
      next
        case n: False
        then show ?thesis using sends_stop [of c "line @ ?hdr" c2 ?entity] lh t by simp
      qed
      then show thesis by (rule that [OF sh, of False "?r\<lparr>rs_general_header := gh\<rparr>" c2 e2 pcb ok2, rotated]) (use unf ok1 False h(3) in auto)
    next
      case True
      let ?p = "?r\<lparr>rs_general_header := gh\<rparr>"
      have "rs_ok ?p" using w(1) h(4) by (simp add: rs_ok_def rs_strings_ok_def rs_cookie_list_def sent_header_def)
      moreover have "conn_ok c2" using sends_SomeD [OF h(2)] by simp
      moreover have "rs_body files ?p = Some body" unfolding assms(9) [symmetric] by (simp add: rs_body_def response_get_content_length_def cong: if_cong)
      ultimately obtain ok3 r3 c3 n where s: "response_send_entity files ?p c2 pcb = Some (ok3, r3, c3, n)" "sends c2 body (Some (ok3, c3))"
        "ok3 \<longrightarrow> n mod SIZE_MOD = length body mod SIZE_MOD" by (rule send_entity_sends)
      have "sends c (response_text line gh r ks body) (Some (ok3, c3))" using sends_step [OF _ s(2), of c "line @ ?hdr"] lh True t by simp
      then show thesis by (rule that [OF sh, of ok3 r3 c3 "if ok3 then e else set_tcpip_error e (errno_num (net_errno (cn_net c3)))" n ok3, rotated]) (use unf ok1 True s(1,3) h(3) in auto)
    qed
  qed
qed


lemma sample_body: "rs_body (\<lambda>_. None) (with_length sample_rs) = Some ''hi''"
proof -
  have c: "cs_rep (cs_of ''hi'') ''hi''" by (rule cs_rep_cs_of) simp_all
  obtain rest where d: "cs_data (cs_of ''hi'') = ''hi'' @ NUL # rest" using c by (rule cs_rep_dataE)
  have l: "cs_len (cs_of ''hi'') = 2" using c by (simp add: cs_rep_def)
  have "response_get_content_length (with_length sample_rs) = Some 2"
    using l by (simp add: with_length_def response_set_content_length_def response_get_content_length_def entity_header_set_content_length_def
        entity_header_content_length_isset_def entity_header_get_content_length_def sample_rs_def sample_eh_def eh_bits eh_set_bits)
  then show ?thesis using d by (simp add: rs_body_def) (simp add: with_length_def response_set_content_length_def sample_rs_def rd_def)
qed


lemma cookie_name_str: "cookie_ok k \<Longrightarrow> cookie_get_name k = Some (cs_str (ck_name k))"
  using cs_rep_cstr_at [of "ck_name k" "cs_str (ck_name k)"] by (simp add: cookie_ok_def cookie_get_name_def cs_inv_def)

lemma duplicate_loop:
  assumes "list_all cookie_ok ks"
  shows "fold_more (\<lambda>k _ d. do { nameOld \<leftarrow> cookie_get_name k; Some (if strcmp0 name nameOld then (False, True) else (True, d)) }) ks False =
    Some (name \<in> (\<lambda>k. cs_str (ck_name k)) ` set ks)"
  using assms by (induction ks) (auto simp: cookie_name_str strcmp0_def)

text \<open>
  The cookies of a response. A cookie with the name of one that is there is refused with \<open>EINVAL\<close> and nothing changes;
  any other is appended, or the allocation fails and nothing changes. The line that is built for a cookie of moderate length has
  the value twice: in single quotes, whether it needs them or not, and again as it is.
\<close>
theorem response_cookie_correct:
  assumes "rs_ok r" "rs_cookies r = Some l" "lrep l ks" "list_all cookie_ok ks" "cookie_ok k" "cookie_nums_ok k" "cs_rep s []"
  shows "(if cs_str (ck_name k) \<in> (\<lambda>k. cs_str (ck_name k)) ` set ks then response_set_cookie r k a = Some (failure, EINVAL, r, a)
      else \<exists>ok er r' a'. response_set_cookie r k a = Some (ok, er, r', a') \<and> rs_ok r' \<and> rs_cookie_list r' (if ok then ks @ [k] else ks) \<and>
        (decisions a = [] \<longrightarrow> ok) \<and> (\<not> ok \<longrightarrow> er = ENOMEM)) \<and>
    (\<exists>ok s' a'. create_cookie_string k s a = Some (ok, s', a') \<and> (length (cookie_text k) < 255 \<longrightarrow> ok) \<and>
      (ok \<longrightarrow> (\<exists>rest. cs_str s' = ''Set-Cookie: '' @ cs_str (ck_name k) @ ''='' @ quote_text (cs_str (ck_value k)) @ cs_str (ck_value k) @ '';Version='' @ rest)))"
proof
  let ?n = "cs_str (ck_name k)"
  have dup: "list_first l \<bind> (\<lambda>q. for_nodes (cells l) (\<lambda>n _ d. do {
         c \<leftarrow> item_of n; nameOld \<leftarrow> cookie_get_name c; Some (if strcmp0 ?n nameOld then (False, True) else (True, d)) }) q False) =
      Some (?n \<in> (\<lambda>k. cs_str (ck_name k)) ` set ks)"
    unfolding duplicate_loop [OF assms(4), symmetric] by (rule for_nodes_items [OF _ lrep_weak(1) [OF assms(3)]]) (auto simp: item_of_def)
  have run: "response_set_cookie r k a = (if ?n \<in> (\<lambda>k. cs_str (ck_name k)) ` set ks then Some (failure, EINVAL, r, a)
      else do { (ok, l, a) \<leftarrow> list_add (Some l) k a; Some (ok, if ok then E0 else ENOMEM, r\<lparr>rs_cookies := l\<rparr>, a) })"
    using dup by (simp add: response_set_cookie_def assms(2) cookie_name_str [OF assms(5)] bind_assoc [symmetric] del: bind_assoc)
  obtain ok l' a' where add: "list_add_to l k a = Some (ok, l', a')" "lrep l' (if ok then ks @ [k] else ks)" "decisions a = [] \<longrightarrow> ok"
    using list_add_spec [OF assms(3), of k a] assms(3) by (auto simp: lpost_def split: if_splits)
  have "rs_cookie_list (r\<lparr>rs_cookies := Some l'\<rparr>) (if ok then ks @ [k] else ks)" using add(2) by (simp add: rs_cookie_list_def)
  moreover have "rs_ok (r\<lparr>rs_cookies := Some l'\<rparr>)" unfolding rs_ok_def
    using assms(1,4,5) calculation by (auto simp: rs_ok_def rs_strings_ok_def intro!: exI [of _ "if ok then ks @ [k] else ks"])
  ultimately show "if ?n \<in> (\<lambda>k. cs_str (ck_name k)) ` set ks then response_set_cookie r k a = Some (failure, EINVAL, r, a)
      else \<exists>ok er r' a'. response_set_cookie r k a = Some (ok, er, r', a') \<and> rs_ok r' \<and> rs_cookie_list r' (if ok then ks @ [k] else ks) \<and>
        (decisions a = [] \<longrightarrow> ok) \<and> (\<not> ok \<longrightarrow> er = ENOMEM)"
    using run add(1,3) by (auto simp: list_add_def)
  obtain st s' a2 where t: "create_cookie_string k s a = Some (st, s', a2)" "st \<longrightarrow> cs_rep s' ([] @ cookie_text k)" "length ([] :: string) + length (cookie_text k) < 255 \<longrightarrow> st \<and> a2 = a"
    by (rule appendsE [OF cookie_appends [OF assms(5,6)] assms(7), of a]) blast
  have "st \<longrightarrow> cs_str s' = cookie_text k" using t(2) cs_rep_str by auto
  then show "\<exists>ok s' a'. create_cookie_string k s a = Some (ok, s', a') \<and> (length (cookie_text k) < 255 \<longrightarrow> ok) \<and>
      (ok \<longrightarrow> (\<exists>rest. cs_str s' = ''Set-Cookie: '' @ cs_str (ck_name k) @ ''='' @ quote_text (cs_str (ck_value k)) @ cs_str (ck_value k) @ '';Version='' @ rest))"
    using t(1,3) by (intro exI [of _ st] exI [of _ s'] exI [of _ a2]) (auto simp: cookie_text_def)
qed

definition sample_cookie :: cookie where
  "sample_cookie = \<lparr>ck_name = cs_of ''a'', ck_value = cs_of ''b'', ck_domain = cs_of [], ck_path = cs_of [], ck_comment = cs_of [], ck_max_age = - 1,
     ck_secure = 0, ck_version = 1\<rparr>"

definition sample_cookies :: "cookie mlist" where
  "sample_cookies = \<lparr>cells = [header \<mapsto> \<lparr>n_next = None, n_prev = None, n_data = DNull\<rparr>], fresh_at = 1\<rparr>"

theorem response_cookie_correct_witness:
  "\<exists>s' a' rest. create_cookie_string sample_cookie (cs_of []) no_oom = Some (success, s', a') \<and> cs_str s' = ''Set-Cookie: a='' @ quote_text ''b'' @ ''b;Version='' @ rest"
proof -
  have l: "list_new no_oom = (Some sample_cookies, no_oom)" by (simp add: list_new_def sample_cookies_def try_alloc_def no_oom_def node_size_def PTRDIFF_MAX_def)
  have lr: "lrep sample_cookies []" using list_new_spec [of no_oom, where ?'a = cookie] l by auto
  let ?r = "sample_rs\<lparr>rs_cookies := Some sample_cookies\<rparr>"
  have ok: "rs_ok ?r" using sample_rs_ok lr by (auto simp: rs_ok_def rs_strings_ok_def rs_cookie_list_def intro!: exI [of _ "[]"])
  have k: "cookie_ok sample_cookie" "cookie_nums_ok sample_cookie" by (simp_all add: sample_cookie_def cookie_ok_def cs_inv_cs_of cookie_nums_ok_def limit_defs)
  have str: "cs_str (cs_of t) = t" if "t \<in> {''a'', ''b'', []}" for t by (rule cs_rep_str [OF cs_rep_cs_of]) (use that in auto)
  have s: "cs_str (ck_name sample_cookie) = ''a''" "cs_str (ck_value sample_cookie) = ''b''" "cs_str (ck_domain sample_cookie) = []"
      "cs_str (ck_path sample_cookie) = []" "cs_str (ck_comment sample_cookie) = []" using str by (simp_all add: sample_cookie_def)
  have "length (int_str 0) \<le> 11" "length (int_str 1) \<le> 11" by (rule length_int_str; simp add: limit_defs)+
  then have "length (cookie_text sample_cookie) < 255" unfolding cookie_text_def s
    by (simp add: sample_cookie_def quote_text_def quote_char_def crlf_def)
  moreover have "cs_rep (cs_of []) []" by (rule cs_rep_cs_of) simp_all
  ultimately show ?thesis using response_cookie_correct [OF ok _ lr _ k, of "cs_of []" no_oom] s by auto
qed

end
