(* ===== verification/Connection_Lines.thy ===== *)
theory Connection_Lines
  imports Connection
begin

section \<open>Lines and blocks from a connection\<close>

text \<open>
  Reading with \<open>connection_gets\<close> (\<open>src/meta/src/connection.c\<close>): the line of a peer, and what is left when it does not fit; and
  when \<open>connection_read\<close> succeeds.
\<close>

text \<open>Without failures a read fails only when the peer has nothing more to send and the buffer has less than was asked for.\<close>

lemma read_none:
  assumes "conn_ok c" "0 < count" "quiet c" "connection_read c count = Some (None, c')" "readbuf c = Some rb"
  shows "take count (content rb) = in_stream c \<and> length (in_stream c) < count"
proof (rule ccontr)
  assume neg: "\<not> (take count (content rb) = in_stream c \<and> length (in_stream c) < count)"
  define bs0 where "bs0 = take count (content rb)"
  obtain c1 rb1 where c1: "copy_from_readbuf c count = Some (bs0, c1)" "read_frame c c1" "readbuf c1 = Some rb1"
      "content rb1 = drop count (content rb)" "mb_size rb1 = mb_size rb" "cn_net c1 = cn_net c" using copy_spec [OF assms(1,2,5)] unfolding bs0_def by blast
  have i: "in_stream c = bs0 @ in_stream c1" using assms(5) c1 by (simp add: in_stream_def bs0_def)
  have l: "length bs0 \<noteq> count" using assms(4) c1(1) by (auto simp: connection_read_def)
  then have e: "content rb1 = []" "length bs0 < count" using c1(4) by (auto simp: bs0_def min_def split: if_splits)
  let ?n = "count - length bs0"
  have ok1: "conn_ok c1" "mb_inv rb1" "quiet c1" using c1(2,3) assms(3) by (auto simp: read_frame_def conn_ok_def)
  have ne: "in_stream c1 \<noteq> []" using i neg e(2) unfolding bs0_def [symmetric] by auto
  then have inc: "incoming (cn_net c1) \<noteq> []" using c1(3) e(1) by (simp add: in_stream_def)
  have run: "connection_read c count = (if membuf_size rb1 < ?n
      then read_from_socket c1 ?n \<bind> (\<lambda>(r, this). Some (map_option ((@) bs0) r, this))
      else fill_read_buffer c1 \<bind> (\<lambda>(ok, this). if \<not> ok then Some (None, this)
        else copy_from_readbuf this ?n \<bind> (\<lambda>(bs2, this). Some (Some (bs0 @ bs2), this))))"
    using c1(1,3) l by (simp add: connection_read_def Let_def cong: if_cong)
  obtain ok c2 where f: "fill_read_buffer c1 = Some (ok, c2)" "ok" using fill_spec [OF ok1(1) c1(3) e(1)] ok1(3) ne by blast
  have "fst (tcp_read (retries_reads c1) ?n (cn_net c1)) \<noteq> None"
    using tcp_read_quiet [OF _ _ inc, of ?n "retries_reads c1"] ok1(3) e(2) by (simp add: quiet_def)
  then have "\<exists>bs c2. read_from_socket c1 ?n = Some (Some bs, c2)"
    using c1(3) e(1) ok1 by (cases "tcp_read (retries_reads c1) ?n (cn_net c1)")
      (auto simp: read_from_socket_def readbuf_empty_def readbuf_contains_data_def canread_content socket_read_def conn_ok_def)
  moreover have "copy_from_readbuf c2 ?n \<bind> (\<lambda>(bs2, this). Some (Some (bs0 @ bs2), this)) \<noteq> Some (None, c')"
    by (cases "copy_from_readbuf c2 ?n") auto
  ultimately show False using run assms(4) f by (auto split: if_splits)
qed

lemma read_quiet:
  assumes "conn_ok c" "0 < count" "quiet c" "count \<le> length (in_stream c)"
  obtains bs c' where "connection_read c count = Some (Some bs, c')" "read_frame c c'" "in_stream c = bs @ in_stream c'" "bs \<noteq> []" "length bs \<le> count"
proof -
  obtain r c' lost where r: "connection_read c count = Some (r, c')" "read_frame c c'" "in_stream c = (case r of None \<Rightarrow> lost | Some bs \<Rightarrow> bs) @ in_stream c'"
    "\<forall>bs. r = Some bs \<longrightarrow> bs \<noteq> [] \<and> length bs \<le> count" using read_spec [OF assms(1,2)] by blast
  obtain rb where rb: "readbuf c = Some rb" using assms(1) by (auto elim: conn_okE)
  have "r \<noteq> None" using read_none [OF assms(1-3) _ rb] r(1) assms(4) by fastforce
  then show thesis using that r by (cases r) auto
qed

lemma gets_loop_spec:
  assumes "conn_ok c" "i + n \<le> length dest"
  shows "\<exists>rc j dest' c'. gets_loop n c dest i = Some (rc, j, dest', c') \<and> read_frame c c' \<and> length dest' = length dest \<and>
    length (in_stream c') \<le> length (in_stream c) \<and> (rc \<and> 0 < n \<longrightarrow> length (in_stream c') < length (in_stream c) \<and> i < j)"
  using assms
proof (induction n arbitrary: c dest i)
  case 0
  then show ?case using read_frame_refl by (intro exI [of _ True] exI [of _ i] exI [of _ dest] exI [of _ c]) simp
next
  case (Suc n)
  obtain r c1 where g: "connection_getc c = Some (r, c1)" "read_frame c c1" "in_stream c = (case r of None \<Rightarrow> [] | Some x \<Rightarrow> [x]) @ in_stream c1"
    using getc_spec [OF Suc.prems(1)] by blast
  show ?case
  proof (cases r)
    case None
    then show ?thesis using g by (intro exI [of _ False] exI [of _ i] exI [of _ dest] exI [of _ c1]) simp
  next
    case (Some x)
    have p: "put_at dest i x = Some (dest[i := x])" using Suc.prems(2) by (simp add: put_at_def)
    have c1: "conn_ok c1" using g(2) by (simp add: read_frame_def)
    have l: "length (in_stream c1) < length (in_stream c)" using g(3) Some by simp
    show ?thesis
    proof (cases "x = CHR 0x0A")
      case True
      then show ?thesis using g Some p l by (intro exI [of _ True] exI [of _ "i + 1"] exI [of _ "dest[i := x]"] exI [of _ c1]) simp
    next
      case False
      obtain rc j dest' c' where "gets_loop n c1 (dest[i := x]) (i + 1) = Some (rc, j, dest', c')" "read_frame c1 c'" "length dest' = length dest"
        "length (in_stream c') \<le> length (in_stream c1)" "rc \<and> 0 < n \<longrightarrow> length (in_stream c') < length (in_stream c1) \<and> i + 1 < j"
        using Suc.IH [OF c1, of "i + 1" "dest[i := x]"] Suc.prems(2) by auto
      moreover from this have "j = i + 1" if "n = 0" using that by simp
      ultimately show ?thesis using g(1) Some p False l read_frame_trans [OF g(2)]
        by (intro exI [of _ rc] exI [of _ j] exI [of _ dest'] exI [of _ c']) auto
    qed
  qed
qed

lemma gets_spec:
  assumes "conn_ok c" "0 < n" "n \<le> length dest"
  obtains rc dest' c' where "connection_gets c dest n = Some (rc, dest', c')" "read_frame c c'" "length dest' = length dest"
    "length (in_stream c') \<le> length (in_stream c)" "rc \<longrightarrow> length (in_stream c') < length (in_stream c)"
proof -
  obtain rc j dest' c' where g: "gets_loop n c dest 0 = Some (rc, j, dest', c')" "read_frame c c'" "length dest' = length dest"
    "length (in_stream c') \<le> length (in_stream c)" "rc \<and> 0 < n \<longrightarrow> length (in_stream c') < length (in_stream c) \<and> 0 < j"
    using gets_loop_spec [OF assms(1), of 0 n dest] assms(3) by auto
  let ?d = "if rc \<and> j < n then dest'[j := NUL] else dest'"
  have "connection_gets c dest n = Some (rc, ?d, c')" using g(1,3) assms(2,3) by (simp add: connection_gets_def put_at_def)
  then show thesis using that [of rc ?d c'] g assms(2) by auto
qed

lemma gets_loop_line:
  assumes "conn_ok c" "quiet c" "in_stream c = ln @ [CHR 0x0A] @ rest" "CHR 0x0A \<notin> set ln" "length ln < n" "i + n \<le> length dest"
  shows "\<exists>c'. gets_loop n c dest i = Some (True, i + length ln + 1, take i dest @ ln @ [CHR 0x0A] @ drop (i + length ln + 1) dest, c') \<and> read_frame c c' \<and> in_stream c' = rest"
  using assms
proof (induction n arbitrary: c dest i ln)
  case (Suc n)
  have ne: "in_stream c \<noteq> []" using Suc.prems(3) by simp
  then obtain x c1 where g: "connection_getc c = Some (Some x, c1)" "read_frame c c1" "in_stream c = x # in_stream c1"
    using getc_spec [OF Suc.prems(1)] Suc.prems(2) by auto
  have p: "put_at dest i x = Some (dest[i := x])" using Suc.prems(6) by (simp add: put_at_def)
  have c1: "conn_ok c1" "quiet c1" using g(2) Suc.prems(2) by (simp_all add: read_frame_def)
  show ?case
  proof (cases ln)
    case Nil
    then have "x = CHR 0x0A" "in_stream c1 = rest" using g(3) Suc.prems(3) by auto
    moreover have "dest[i := CHR 0x0A] = take i dest @ [CHR 0x0A] @ drop (Suc i) dest" using Suc.prems(6) by (simp add: upd_conv_take_nth_drop)
    ultimately show ?thesis using g p Nil by simp
  next
    case (Cons y l)
    then have y: "x = y" "in_stream c1 = l @ [CHR 0x0A] @ rest" "y \<noteq> CHR 0x0A" "CHR 0x0A \<notin> set l" using g(3) Suc.prems(3,4) by auto
    obtain c' where c': "gets_loop n c1 (dest[i := x]) (i + 1) = Some (True, i + 1 + length l + 1,
        take (i + 1) (dest[i := x]) @ l @ [CHR 0x0A] @ drop (i + 1 + length l + 1) (dest[i := x]), c')" "read_frame c1 c'" "in_stream c' = rest"
      using Suc.IH [OF c1 y(2,4), of "i + 1" "dest[i := x]"] Suc.prems(5,6) Cons by auto
    have "take (i + 1) (dest[i := x]) = take i dest @ [x]" using Suc.prems(6) by (simp add: upd_conv_take_nth_drop)
    then have "take (i + 1) (dest[i := x]) @ l @ [CHR 0x0A] @ drop (i + 1 + length l + 1) (dest[i := x]) = take i dest @ ln @ [CHR 0x0A] @ drop (i + length ln + 1) dest"
      using Cons y(1) by simp
    then show ?thesis using g(1) p y(1,3) c' Cons read_frame_trans [OF g(2) c'(2)] by auto
  qed
qed simp

lemma gets_line:
  assumes "conn_ok c" "quiet c" "in_stream c = ln @ [CHR 0x0A] @ rest" "CHR 0x0A \<notin> set ln" "length ln + 1 < n" "n \<le> length dest" "c_string ln"
  obtains dest' c' where "connection_gets c dest n = Some (True, dest', c')" "cstr_at dest' 0 = Some (ln @ [CHR 0x0A])" "length dest' = length dest"
    "read_frame c c'" "in_stream c' = rest" "\<exists>more. dest' = ln @ [CHR 0x0A, NUL] @ more"
proof -
  let ?d = "ln @ [CHR 0x0A] @ drop (length ln + 1) dest"
  obtain c' where c': "gets_loop n c dest 0 = Some (True, length ln + 1, ?d, c')" "read_frame c c'" "in_stream c' = rest"
    using gets_loop_line [OF assms(1-4), of n 0 dest] assms(5,6) by auto
  have d: "drop (length ln + 1) dest = dest ! (length ln + 1) # drop (length ln + 2) dest" using assms(5,6) by (simp add: Cons_nth_drop_Suc)
  have u: "?d[length ln + 1 := NUL] = ln @ [CHR 0x0A, NUL] @ drop (length ln + 2) dest" unfolding d by (simp add: list_update_append)
  have "connection_gets c dest n = Some (True, ln @ [CHR 0x0A, NUL] @ drop (length ln + 2) dest, c')"
    using c'(1) assms(5,6) u by (simp add: connection_gets_def put_at_def)
  moreover have "cstr_at (ln @ [CHR 0x0A, NUL] @ drop (length ln + 2) dest) 0 = Some (ln @ [CHR 0x0A])"
    using cstr_at_prefix [of "ln @ [CHR 0x0A]" "[]" "drop (length ln + 2) dest"] assms(7) by (simp add: c_string_def)
  moreover have "length (ln @ [CHR 0x0A, NUL] @ drop (length ln + 2) dest) = length dest" using assms(5,6) by simp
  ultimately show thesis using that c' by blast
qed

end
