(* ===== verification/Response_Chunks.thy ===== *)
theory Response_Chunks
  imports Response_Fields Connection_Lines
begin

section \<open>Bodies in chunks\<close>

text \<open>
  The chunked transfer coding as \<open>read_chunked_response\<close> (\<open>src/http/src/response.c\<close>) understands it: the length of a chunk on a
  line of its own, how a chunk is read, the body of a well-formed message, and what a length near the end of the type does.
\<close>

subsection \<open>The length of a chunk\<close>

lemma length_hex: "n < 16 ^ k \<Longrightarrow> 0 < k \<Longrightarrow> length (numeral_str 16 n) \<le> k"
proof (induction k arbitrary: n)
  case (Suc k)
  show ?case
  proof (cases "n < 16")
    case True
    then show ?thesis by (simp add: numeral_str.simps [of 16 n])
  next
    case False
    then have "0 < k" using Suc.prems(1) by (cases k) auto
    moreover have "n div 16 < 16 ^ k" using Suc.prems(1) by (simp add: less_mult_imp_div_less mult.commute)
    ultimately have "length (numeral_str 16 (n div 16)) \<le> k" using Suc.IH by blast
    then show ?thesis using False by (simp add: numeral_str.simps [of 16 n])
  qed
qed simp

lemma hex_line:
  assumes "n < SIZE_MOD"
  defines "s \<equiv> numeral_str 16 n"
  shows "length s \<le> 16" "s \<noteq> []" "\<not> isspace (hd s)" "\<not> isspace (last s)" "c_string s" "CHR 0x0A \<notin> set s" "hextosize_t s = Inr n"
proof -
  have d: "s \<noteq> []" "\<forall>c \<in> set s. digit_of 16 c \<noteq> None" unfolding s_def using numeral_str_correct [of 16 n] by simp_all
  have sp: "\<not> isspace c" if "c \<in> set s" for c using not_space_digit [of 16 c] d(2) that by auto
  show "length s \<le> 16" unfolding s_def using length_hex [of n 16] assms(1) by (simp add: SIZE_MOD_def)
  show "s \<noteq> []" "\<not> isspace (hd s)" "\<not> isspace (last s)" using d(1) sp by auto
  have "digit_of 16 NUL = None" "isspace (CHR 0x0A)" by (simp_all add: digit_of_def isdigit_def islower_def isupper_def isspace_def)
  then show "c_string s" "CHR 0x0A \<notin> set s" using d(2) sp by (auto simp: c_string_def)
  show "hextosize_t s = Inr n" unfolding s_def using convert_roundtrip [of "[]" 0 n] assms(1) by simp
qed

lemma chunklen_of_buffer:
  assumes "cstr_at buf 0 = Some (numeral_str 16 n @ crlf)" "n < SIZE_MOD"
  shows "do { buf \<leftarrow> ltrim buf; buf \<leftarrow> rtrim buf; s \<leftarrow> cstr_at buf 0; Some (case hextosize_t s of Inl _ \<Rightarrow> None | Inr len \<Rightarrow> Some len, conn) } = Some (Some n, conn)"
proof -
  let ?s = "numeral_str 16 n"
  note h = hex_line [OF assms(2)]
  have d: "dropWhile isspace (?s @ crlf) = ?s @ crlf" using h(2,3) by (cases ?s) auto
  have "rstrip (?s @ crlf) = rstrip ?s" by (simp add: rstrip_def crlf_def isspace_def)
  also have "\<dots> = ?s" using h(2,4) by (cases ?s rule: rev_cases) (auto simp: rstrip_def)
  finally have r: "rstrip (?s @ crlf) = ?s" .
  obtain b1 where b1: "ltrim buf = Some b1" "cstr_at b1 0 = Some (?s @ crlf)" using ltrim_spec [OF assms(1)] d by auto
  obtain b2 where b2: "rtrim b1 = Some b2" "cstr_at b2 0 = Some ?s" using rtrim_spec [OF b1(2)] r by auto
  show ?thesis using b1(1) b2 h(7) by simp
qed

text \<open>The line may follow the line end of the chunk before.\<close>

lemma chunklen_spec:
  assumes "conn_ok c" "quiet c" "in_stream c = pre @ numeral_str 16 n @ crlf @ rest" "pre \<in> {[], crlf}" "n < SIZE_MOD"
  obtains c' where "get_chunklen c a = Some (Some n, c')" "read_frame c c'" "in_stream c' = rest"
proof -
  let ?s = "numeral_str 16 n"
  note h = hex_line [OF assms(5)]
  have line: "\<exists>dest' c'. connection_gets d dest 1024 = Some (True, dest', c') \<and> cstr_at dest' 0 = Some (?s @ crlf) \<and> read_frame d c' \<and> in_stream c' = rest \<and>
      allws dest' = Some False \<and> length dest' = length dest" if "conn_ok d" "quiet d" "in_stream d = ?s @ crlf @ rest" "length dest = 1024" for d dest
  proof -
    have i: "in_stream d = (?s @ [CHR 0x0D]) @ [CHR 0x0A] @ rest" using that(3) by (simp add: crlf_def)
    have f: "CHR 0x0A \<notin> set (?s @ [CHR 0x0D])" "length (?s @ [CHR 0x0D]) + 1 < 1024" "1024 \<le> length dest" "c_string (?s @ [CHR 0x0D])"
      using h that(4) by (simp_all add: c_string_def)
    note T = that
    obtain dest' c' where g: "connection_gets d dest 1024 = Some (True, dest', c')" "cstr_at dest' 0 = Some ((?s @ [CHR 0x0D]) @ [CHR 0x0A])" "length dest' = length dest"
      "read_frame d c'" "in_stream c' = rest" "\<exists>more. dest' = (?s @ [CHR 0x0D]) @ [CHR 0x0A, NUL] @ more" by (rule gets_line [OF T(1,2) i f])
    have "allws dest' = Some False"
    proof -
      obtain x xs where x: "?s = x # xs" "\<not> isspace x" "x \<noteq> NUL" using h(2,3,5) by (cases ?s) (auto simp: c_string_def)
      then show ?thesis using g(6) by (auto simp: allws_def)
    qed
    then show ?thesis using g by (auto simp: crlf_def)
  qed
  have fr: "length (fresh_bytes 1024 a) = 1024" by simp
  show thesis
  proof (cases "pre = []")
    case True
    then obtain dest' c' where g: "connection_gets c (fresh_bytes 1024 a) 1024 = Some (True, dest', c')" "cstr_at dest' 0 = Some (?s @ crlf)" "read_frame c c'"
      "in_stream c' = rest" "allws dest' = Some False" using line [OF assms(1,2) _ fr] assms(3) by auto
    have "get_chunklen c a = Some (Some n, c')" unfolding get_chunklen_def using g(1,5) chunklen_of_buffer [OF g(2) assms(5), of c'] by simp
    then show thesis using that g by blast
  next
    case False
    then have i: "in_stream c = [CHR 0x0D] @ [CHR 0x0A] @ ?s @ crlf @ rest" using assms(3,4) by (simp add: crlf_def)
    have f: "CHR 0x0A \<notin> set [CHR 0x0D]" "length [CHR 0x0D] + 1 < 1024" "1024 \<le> length (fresh_bytes 1024 a)" "c_string [CHR 0x0D]" by (simp_all add: c_string_def)
    obtain d1 c1 where b: "connection_gets c (fresh_bytes 1024 a) 1024 = Some (True, d1, c1)" "length d1 = length (fresh_bytes 1024 a)" "read_frame c c1"
      "in_stream c1 = ?s @ crlf @ rest" "\<exists>more. d1 = [CHR 0x0D] @ [CHR 0x0A, NUL] @ more" by (rule gets_line [OF assms(1,2) i f])
    have aw: "allws d1 = Some True" using b(5) by (auto simp: allws_def isspace_def)
    have "conn_ok c1" "quiet c1" "length d1 = 1024" using b(2,3) assms(2) by (simp_all add: read_frame_def)
    then obtain d2 c2 where g: "connection_gets c1 d1 1024 = Some (True, d2, c2)" "cstr_at d2 0 = Some (?s @ crlf)" "read_frame c1 c2" "in_stream c2 = rest"
      using line [OF _ _ b(4)] by blast
    have "get_chunklen c a = Some (Some n, c2)" unfolding get_chunklen_def using b(1) aw g(1) chunklen_of_buffer [OF g(2) assms(5), of c2] by simp
    then show thesis using that g(4) read_frame_trans [OF b(3) g(3)] by blast
  qed
qed

subsection \<open>Reading a chunk\<close>

lemma chunk_loop_reads:
  assumes "conn_ok c" "quiet c" "in_stream c = u @ rest" "u \<noteq> []" "length u \<le> n" "nt + length u \<le> length buf" "length buf < SIZE_MOD"
  shows "\<exists>c'. chunk_loop n c buf nt (length u) = Some (Some (take nt buf @ u @ drop (nt + length u) buf, nt + length u), c') \<and> read_frame c c' \<and> in_stream c' = rest"
  using assms
proof (induction n arbitrary: c buf nt u)
  case (Suc n)
  have len: "0 < length u" "length u \<le> length (in_stream c)" using Suc.prems(3,4) by simp_all
  obtain bs c1 where r: "connection_read c (length u) = Some (Some bs, c1)" "read_frame c c1" "in_stream c = bs @ in_stream c1" "bs \<noteq> []" "length bs \<le> length u"
    by (rule read_quiet [OF Suc.prems(1) len(1) Suc.prems(2) len(2)])
  have "bs @ in_stream c1 = u @ rest" using r(3) Suc.prems(3) by simp
  then obtain v where u: "u = bs @ v" "in_stream c1 = v @ rest" using r(5) unfolding append_eq_append_conv2 by auto
  let ?b = "take nt buf @ bs @ drop (nt + length bs) buf"
  have w: "wr buf nt bs = Some ?b" using Suc.prems(6) u(1) by (simp add: wr_def)
  have s: "szt (nt + length bs) = nt + length bs" "szsub (length u) (length bs) = length v"
    using Suc.prems(6,7) u(1) by (simp_all add: szt_def szsub_le)
  have step: "chunk_loop (Suc n) c buf nt (length u) = (if length v = 0 then Some (Some (?b, nt + length bs), c1) else chunk_loop n c1 ?b (nt + length bs) (length v))"
    using r(1) w s by (simp add: Let_def)
  show ?case
  proof (cases "v = []")
    case True
    then show ?thesis using step r(2) u by simp
  next
    case False
    have c1: "conn_ok c1" "quiet c1" using r(2) Suc.prems(2) by (simp_all add: read_frame_def)
    have l: "length v \<le> n" "nt + length bs + length v \<le> length ?b" "length ?b < SIZE_MOD" using Suc.prems(5-7) u(1) r(4) by (cases bs; simp)+
    obtain c' where c': "chunk_loop n c1 ?b (nt + length bs) (length v) = Some (Some (take (nt + length bs) ?b @ v @ drop (nt + length bs + length v) ?b, nt + length bs + length v), c')"
      "read_frame c1 c'" "in_stream c' = rest" using Suc.IH [OF c1 u(2) False l] by blast
    have e: "take (nt + length bs) ?b @ v @ drop (nt + length bs + length v) ?b = take nt buf @ u @ drop (nt + length u) buf"
      "nt + length bs + length v = nt + length u" using Suc.prems(6) u(1) by (simp_all add: ac_simps)
    have "chunk_loop (Suc n) c buf nt (length u) = chunk_loop n c1 ?b (nt + length bs) (length v)" unfolding step using False by simp
    also have "\<dots> = Some (Some (take nt buf @ u @ drop (nt + length u) buf, nt + length u), c')" unfolding c'(1) unfolding e(1) unfolding e(2) ..
    finally show ?thesis using c'(3) read_frame_trans [OF r(2) c'(2)] by blast
  qed
qed simp


subsection \<open>The chunks of a message\<close>

definition chunk_lines :: "string list \<Rightarrow> string" where
  "chunk_lines us = concat (map (\<lambda>u. numeral_str 16 (length u) @ crlf @ u @ crlf) us)"

definition chunk_text :: "string list \<Rightarrow> string" where
  "chunk_text us = chunk_lines us @ numeral_str 16 0 @ crlf"

lemma length_chunk_lines: "length us \<le> length (chunk_lines us)"
proof (induction us)
  case (Cons u us)
  have "numeral_str 16 (length u) \<noteq> []" using numeral_str_correct [of 16 "length u"] by simp
  then show ?case using Cons.IH by (cases "numeral_str 16 (length u)") (simp_all add: chunk_lines_def crlf_def)
qed (simp add: chunk_lines_def)

text \<open>The well-formed chunks at the front of the stream are read one by one into the block.\<close>

lemma chunks_loop_prefix:
  assumes "conn_ok c" "quiet c" "in_stream c = pre @ chunk_lines us @ tail" "pre \<in> {[], crlf}" "\<forall>u \<in> set us. u \<noteq> []" "length us \<le> n"
    "(case buf of None \<Rightarrow> [] | Some b \<Rightarrow> b) = t" "length (t @ concat us) \<le> max_len" "max_len \<le> PTRDIFF_MAX" "decisions a = []"
  shows "\<exists>c'. chunks_loop n c buf (length t) max_len e a =
      chunks_loop (n - length us) c' (if us = [] then buf else Some (t @ concat us)) (length (t @ concat us)) max_len e a \<and>
    read_frame c c' \<and> in_stream c' = (if us = [] then pre else crlf) @ tail"
  using assms
proof (induction us arbitrary: n c pre buf t)
  case Nil
  then show ?case using read_frame_refl by (intro exI [of _ c]) (simp add: chunk_lines_def)
next
  case (Cons u vs)
  have P: "m < SIZE_MOD" if "m \<le> PTRDIFF_MAX" for m using that by (simp add: PTRDIFF_MAX_def SIZE_MOD_def)
  obtain k where n: "n = Suc k" using Cons.prems(6) by (cases n) auto
  let ?len = "length u"
  have i: "in_stream c = pre @ numeral_str 16 ?len @ crlf @ (u @ crlf @ chunk_lines vs @ tail)" using Cons.prems(3) by (simp add: chunk_lines_def)
  have len: "length t + ?len \<le> max_len" "length t + ?len < SIZE_MOD" "0 < ?len" "?len < SIZE_MOD"
    using Cons.prems(5,8,9) P [of "length t + ?len"] P [of ?len] by auto
  obtain c1 where g: "get_chunklen c a = Some (Some ?len, c1)" "read_frame c c1" "in_stream c1 = u @ crlf @ chunk_lines vs @ tail"
    by (rule chunklen_spec [OF Cons.prems(1,2) i Cons.prems(4) len(4)])
  have c1: "conn_ok c1" "quiet c1" using g(2) Cons.prems(2) by (simp_all add: read_frame_def)
  have sz: "szt (length t + ?len) = length t + ?len" "length t + ?len \<le> PTRDIFF_MAX" using len Cons.prems(9) by (simp_all add: szt_def)
  have al: "try_alloc (szt (length t + ?len)) a = (True, a)" using try_alloc_no_oom [OF Cons.prems(10), of "length t + ?len"] sz by simp
  let ?blk = "realloc_bytes (length t + ?len) (case buf of None \<Rightarrow> [] | Some b \<Rightarrow> b) a"
  have blk: "?blk = t @ fresh_bytes ?len a" using Cons.prems(7) by (simp add: realloc_bytes_def)
  have m: "?len \<le> length (in_stream c1) + 1" "length t + ?len \<le> length ?blk" "length ?blk < SIZE_MOD" using g(3) blk len(2) by simp_all
  obtain c2 where r: "chunk_loop (length (in_stream c1) + 1) c1 ?blk (length t) ?len =
      Some (Some (take (length t) ?blk @ u @ drop (length t + ?len) ?blk, length t + ?len), c2)" "read_frame c1 c2" "in_stream c2 = crlf @ chunk_lines vs @ tail"
    using chunk_loop_reads [OF c1 g(3) _ m] len(3) by auto
  have tu: "take (length t) ?blk @ u @ drop (length t + ?len) ?blk = t @ u" using blk by simp
  have c2: "conn_ok c2" "quiet c2" using r(2) c1(2) by (simp_all add: read_frame_def)
  have vs: "\<forall>u \<in> set vs. u \<noteq> []" "length vs \<le> k" "(case Some (t @ u) of None \<Rightarrow> [] | Some b \<Rightarrow> b) = t @ u" "length ((t @ u) @ concat vs) \<le> max_len" "crlf \<in> {[], crlf}"
    using Cons.prems(5,6,8) n by simp_all
  obtain c3 where k: "chunks_loop k c2 (Some (t @ u)) (length (t @ u)) max_len e a =
      chunks_loop (k - length vs) c3 (if vs = [] then Some (t @ u) else Some ((t @ u) @ concat vs)) (length ((t @ u) @ concat vs)) max_len e a"
    "read_frame c2 c3" "in_stream c3 = (if vs = [] then crlf else crlf) @ tail"
    using Cons.IH [OF c2 r(3) vs(5,1-4) Cons.prems(9,10)] by blast
  have "chunks_loop (Suc k) c buf (length t) max_len e a = chunks_loop k c2 (Some (t @ u)) (length (t @ u)) max_len e a"
    using g(1) len sz al r(1) tu by (simp add: Let_def del: chunk_loop.simps)
  also have "\<dots> = chunks_loop (n - length (u # vs)) c3 (Some (t @ concat (u # vs))) (length (t @ concat (u # vs))) max_len e a"
    unfolding k(1) using n by (cases vs) simp_all
  finally show ?case using n k(3) read_frame_trans [OF g(2) read_frame_trans [OF r(2) k(2)]] by (intro exI [of _ c3]) simp
qed

text \<open>
  C14. A body in chunks is put together again: when the peer sends the chunks \<open>us\<close>, each with its length in hexadecimal digits in front of
  it, and the chunk of length 0 behind them, \<open>read_chunked_response\<close> succeeds with the concatenation of the chunks as the content of
  the response, and it leaves in the stream all that follows the line of the last chunk (the empty line behind it included).
\<close>

theorem chunked_roundtrip:
  assumes "conn_ok conn" "quiet conn" "in_stream conn = chunk_text us @ rest" "us \<noteq> []" "\<forall>u \<in> set us. u \<noteq> []"
    "length (concat us) \<le> max_contentlen" "max_contentlen \<le> PTRDIFF_MAX" "decisions a = []"
  shows "\<exists>conn'. read_chunked_response this conn max_contentlen e a =
      Some (success, response_set_allocated_content_buffer this (concat us) (length (concat us)), conn', e, a) \<and>
    in_stream conn' = rest \<and> conn_ok conn'"
proof -
  let ?n = "length (in_stream conn) + 1"
  have i: "in_stream conn = [] @ chunk_lines us @ (numeral_str 16 0 @ crlf @ rest)" using assms(3) by (simp add: chunk_text_def)
  have n: "length us \<le> ?n" "?n - length us = Suc (length (in_stream conn) - length us)" using length_chunk_lines [of us] i by simp_all
  obtain c where c: "chunks_loop ?n conn None 0 max_contentlen e a = chunks_loop (?n - length us) c (Some (concat us)) (length (concat us)) max_contentlen e a"
    "read_frame conn c" "in_stream c = crlf @ numeral_str 16 0 @ crlf @ rest"
    using chunks_loop_prefix [OF assms(1,2) i _ assms(5) n(1), of None "[]" max_contentlen a e] assms(4,6-8) by auto
  have ok: "conn_ok c" "quiet c" using c(2) assms(2) by (simp_all add: read_frame_def)
  obtain d where d: "get_chunklen c a = Some (Some 0, d)" "read_frame c d" "in_stream d = rest"
    by (rule chunklen_spec [OF ok c(3)]) (simp_all add: SIZE_MOD_def)
  have "chunks_loop ?n conn None 0 max_contentlen e a = Some (success, (Some (concat us), length (concat us)), d, e, a)"
    unfolding c(1) n(2) using d(1) by simp
  then have "read_chunked_response this conn max_contentlen e a =
      Some (success, response_set_allocated_content_buffer this (concat us) (length (concat us)), d, e, a)"
    unfolding read_chunked_response_def by simp
  then show ?thesis using d by (auto simp: read_frame_def)
qed

theorem chunked_roundtrip_witness:
  "\<exists>conn'. read_chunked_response sample_rs (sample_conn (chunk_text [''Wiki'', ''pedia''] @ crlf)) 100 error_new no_oom =
      Some (success, response_set_allocated_content_buffer sample_rs ''Wikipedia'' 9, conn', error_new, no_oom) \<and>
    in_stream conn' = crlf \<and> conn_ok conn'"
proof -
  have e: "length (concat [''Wiki'', ''pedia'']) = 9" "concat [''Wiki'', ''pedia''] = ''Wikipedia''" by simp_all
  show ?thesis
    using chunked_roundtrip [where us = "[''Wiki'', ''pedia'']" and rest = crlf and max_contentlen = 100 and a = no_oom and this = sample_rs and e = error_new,
      OF sample_conn_ok(1,2) sample_conn_ok(3), unfolded e(1), unfolded e(2)]
    by (simp add: PTRDIFF_MAX_def no_oom_def)
qed



end
