(* ===== verification/Threadpool.thy ===== *)
theory Threadpool
  imports HL_Prelude "HOL-Library.Multiset"
begin

section \<open>The thread pool\<close>

text \<open>
  The pool of worker threads of \<open>src/meta/src/threadpool.c\<close>, which runs the connections of the server. Every access to the fields of
  the pool happens inside a critical section under \<open>queue_lock\<close>, so that the program is an interleaving of critical sections. Each
  section is a definition below; the threads are program counters, and a step of the system is one section, one call of a
  user function, or one wake-up. A thread in \<open>pthread_cond_wait\<close> goes on when it is signalled, and may also go on without a reason.
  The calls of the thread library on its initialised objects succeed.
\<close>

subsection \<open>The pool\<close>

definition SLOT_UNUSED :: nat where "SLOT_UNUSED = 1"
definition SLOT_RUNNING :: nat where "SLOT_RUNNING = 2"
definition SLOT_WAITING :: nat where "SLOT_WAITING = 4"

lemmas slot_states = SLOT_UNUSED_def SLOT_RUNNING_def SLOT_WAITING_def

text \<open>The function pointers and arguments of a work request; \<open>None\<close> is \<open>NULL\<close>.\<close>

record 'p job =
  initfn :: "'p option"
  initarg :: "'p option"
  workfn :: "'p option"
  workarg :: "'p option"
  cleanupfn :: "'p option"
  cleanup_arg :: "'p option"

record 'p work =
  wk_state :: nat
  wk_job :: "'p job"

record 'p threadpool =
  nworkers :: size_t
  capacity :: size_t
  nentries :: size_t
  tp_queue :: "'p work list"
  queue_closed :: bool
  shutting_down :: bool
  block_when_full :: bool
  sum_work_added :: nat
  sum_blocked :: nat
  sum_discarded :: nat

definition queue_empty :: "'p threadpool \<Rightarrow> bool" where
  "queue_empty tp \<longleftrightarrow> nentries tp = 0"

definition queue_full :: "'p threadpool \<Rightarrow> bool" where
  "queue_full tp \<longleftrightarrow> nentries tp = capacity tp"

definition null_job :: "'p job" where
  "null_job = \<lparr>initfn = None, initarg = None, workfn = None, workarg = None, cleanupfn = None, cleanup_arg = None\<rparr>"

text \<open>The loop that allocates the slots: whether it succeeded.\<close>

fun alloc_slots :: "nat \<Rightarrow> allocator \<Rightarrow> bool \<times> allocator" where
  "alloc_slots 0 a = (True, a)"
| "alloc_slots (Suc k) a = (case try_alloc 56 a of (False, a) \<Rightarrow> (False, a) | (True, a) \<Rightarrow> alloc_slots k a)"

text \<open>
  The new pool, and the number of its threads: \<open>inits\<close> is what the first failing of the four initialisations returns, and \<open>created\<close> the
  number of threads that can be created. A pool that could not get all its threads is destroyed at once, by \<open>threadpool_destroy\<close>.
\<close>

datatype 'p new_result = New_null | New_pool "'p threadpool" nat | New_destroy "'p threadpool" nat

definition threadpool_new :: "size_t \<Rightarrow> size_t \<Rightarrow> bool \<Rightarrow> errno_t \<Rightarrow> nat \<Rightarrow> allocator \<Rightarrow> ('p new_result \<times> allocator) option" where
  "threadpool_new nw cap block inits created a = (if 0 < nw \<and> 0 < cap then
     let p = \<lparr>nworkers = nw, capacity = cap, nentries = 0, tp_queue = replicate cap \<lparr>wk_state = SLOT_UNUSED, wk_job = null_job\<rparr>,
       queue_closed = False, shutting_down = False, block_when_full = block, sum_work_added = 0, sum_blocked = 0, sum_discarded = 0\<rparr>
     in Some (case try_alloc 272 a of
         (False, a) \<Rightarrow> (New_null, a)
       | (True, a) \<Rightarrow> (case try_alloc (8 * nw) a of
           (False, a) \<Rightarrow> (New_null, a)
         | (True, a) \<Rightarrow> (case try_alloc (8 * cap) a of
             (False, a) \<Rightarrow> (New_null, a)
           | (True, a) \<Rightarrow> (case alloc_slots cap a of
               (False, a) \<Rightarrow> (New_null, a)
             | (True, a) \<Rightarrow>
                 if inits \<noteq> E0 then (New_null, a)
                 else if created < nw then (New_destroy p created, a)
                 else (New_pool p nw, a)))))
   else None)"

text \<open>The searches for a slot with a given state.\<close>

fun slot_loop :: "nat \<Rightarrow> nat \<Rightarrow> nat \<Rightarrow> 'p work list \<Rightarrow> nat option option" where
  "slot_loop st i 0 q = Some None"
| "slot_loop st i (Suc k) q = do {
     w \<leftarrow> get_at q i;
     if wk_state w = st then Some (Some i) else slot_loop st (Suc i) k q }"

subsection \<open>A worker\<close>

text \<open>The critical section at the top of the loop: sleep, end, try again, or run the work in a slot.\<close>

datatype take_result = Take_wait | Take_exit | Take_retry | Take_slot nat

definition exec_take :: "'p threadpool \<Rightarrow> (take_result \<times> 'p threadpool) option" where
  "exec_take pool = (
     if queue_empty pool \<and> \<not> shutting_down pool then Some (Take_wait, pool)
     else if shutting_down pool \<and> queue_empty pool then Some (Take_exit, pool)
     else if queue_empty pool then Some (Take_exit, pool)
     else do {
       idx \<leftarrow> slot_loop SLOT_WAITING 0 (capacity pool) (tp_queue pool);
       (case idx of
          None \<Rightarrow> Some (Take_retry, pool)
        | Some i \<Rightarrow> do {
            w \<leftarrow> get_at (tp_queue pool) i;
            q \<leftarrow> put_at (tp_queue pool) i (w\<lparr>wk_state := SLOT_RUNNING\<rparr>);
            Some (Take_slot i, pool\<lparr>tp_queue := q\<rparr>) }) })"

datatype 'p call = Call_init 'p "'p option" "'p option" | Call_work "'p option" "'p option" | Call_cleanup 'p "'p option" "'p option"

text \<open>Outside the lock; \<open>st\<close> is what \<open>initfn\<close> returns.\<close>

definition exec_init :: "status_t \<Rightarrow> 'p job \<Rightarrow> 'p call list \<times> status_t" where
  "exec_init st wp = (case initfn wp of None \<Rightarrow> ([], success) | Some f \<Rightarrow> ([Call_init f (initarg wp) (workarg wp)], st))"

definition exec_work :: "'p job \<Rightarrow> 'p call list" where
  "exec_work wp = [Call_work (workfn wp) (workarg wp)]"

definition exec_cleanup :: "'p job \<Rightarrow> 'p call list" where
  "exec_cleanup wp = (case cleanupfn wp of None \<Rightarrow> [] | Some f \<Rightarrow> [Call_cleanup f (cleanup_arg wp) (workarg wp)])"

text \<open>The second critical section: whether \<open>queue_not_full\<close> and \<open>queue_empty\<close> are signalled, and the pool.\<close>

definition exec_finish :: "'p threadpool \<Rightarrow> nat \<Rightarrow> (bool \<times> bool \<times> 'p threadpool) option" where
  "exec_finish pool idx = do {
     w \<leftarrow> get_at (tp_queue pool) idx;
     q \<leftarrow> put_at (tp_queue pool) idx (w\<lparr>wk_state := SLOT_UNUSED\<rparr>);
     let pool = pool\<lparr>tp_queue := q, nentries := szsub (nentries pool) 1\<rparr>;
     Some (block_when_full pool \<and> \<not> queue_full pool, queue_empty pool, pool) }"

subsection \<open>Adding work\<close>

text \<open>
  The critical section from the loop that waits for room on: sleep, fail, the failure that should not happen, or done, with
  \<open>True\<close> when \<open>queue_not_empty\<close> is signalled.
\<close>

datatype add_result = Add_wait | Add_nospace | Add_closed | Add_noslot | Add_done bool

definition add_place :: "'p threadpool \<Rightarrow> 'p job \<Rightarrow> (add_result \<times> 'p threadpool) option" where
  "add_place pool j = (
     if queue_full pool \<and> \<not> shutting_down pool \<and> \<not> queue_closed pool then Some (Add_wait, pool)
     else if shutting_down pool \<or> queue_closed pool then Some (Add_closed, pool)
     else do {
       idx \<leftarrow> slot_loop SLOT_UNUSED 0 (capacity pool) (tp_queue pool);
       (case idx of
          None \<Rightarrow> Some (Add_noslot, pool)
        | Some i \<Rightarrow> do {
            q \<leftarrow> put_at (tp_queue pool) i \<lparr>wk_state = SLOT_WAITING, wk_job = j\<rparr>;
            Some (Add_done (queue_empty pool), pool\<lparr>tp_queue := q, nentries := szt (nentries pool + 1)\<rparr>) }) })"

definition add_enter :: "'p threadpool \<Rightarrow> 'p job \<Rightarrow> (add_result \<times> 'p threadpool) option" where
  "add_enter pool j = (
     if queue_full pool then
       if block_when_full pool then add_place (pool\<lparr>sum_blocked := szt (sum_blocked pool + 1)\<rparr>) j
       else Some (Add_nospace, pool)
     else add_place pool j)"

text \<open>The counters that are updated behind the lock, and what the call returns.\<close>

definition add_count :: "add_result \<Rightarrow> 'p threadpool \<Rightarrow> 'p threadpool" where
  "add_count r pool = (case r of
     Add_nospace \<Rightarrow> pool\<lparr>sum_discarded := szt (sum_discarded pool + 1)\<rparr>
   | Add_done _ \<Rightarrow> pool\<lparr>sum_work_added := szt (sum_work_added pool + 1)\<rparr>
   | _ \<Rightarrow> pool)"

fun add_status :: "add_result \<Rightarrow> status_t \<times> errno_t" where
  "add_status Add_nospace = (failure, ENOSPC)"
| "add_status Add_closed = (failure, EINVAL)"
| "add_status (Add_done _) = (success, E0)"
| "add_status _ = (failure, E0)"

subsection \<open>Destroying the pool\<close>

text \<open>The two critical sections; the first component says that the thread has to sleep.\<close>

definition destroy_close :: "bool \<Rightarrow> 'p threadpool \<Rightarrow> bool \<times> 'p threadpool" where
  "destroy_close finish pool = (finish \<and> \<not> queue_empty pool, pool\<lparr>queue_closed := True\<rparr>)"

definition destroy_shut :: "'p threadpool \<Rightarrow> bool \<times> 'p threadpool" where
  "destroy_shut pool = (if \<not> queue_empty pool then (True, pool) else (False, pool\<lparr>shutting_down := True\<rparr>))"

subsection \<open>The threads\<close>

text \<open>
  A worker is in front of the lock, asleep, in front of one of the calls or of the second lock with the slot it has taken, or has ended.
  The job beside the slot is the one that stood there when it was taken; the calls read the slot.
\<close>

datatype 'p wpc = W_lock | W_wait | W_init nat "'p job" | W_work nat "'p job" | W_clean nat "'p job" | W_done nat "'p job" | W_exit

datatype 'p ppc = P_start "'p job" | P_wait "'p job" | P_woken "'p job" | P_count add_result | P_return add_result

datatype dpc = D_idle | D_start bool | D_wait1 | D_woken1 | D_relock | D_wait2 | D_join | D_freed

record 'p tsys =
  tp :: "'p threadpool"
  workers :: "'p wpc list"
  producers :: "'p ppc list"
  destroyer :: dpc
  calls :: "'p call list"
  accepted :: "'p job multiset"
  completed :: "'p job multiset"

definition after_take :: "take_result \<Rightarrow> 'p threadpool \<Rightarrow> 'p wpc" where
  "after_take r pool = (case r of Take_wait \<Rightarrow> W_wait | Take_exit \<Rightarrow> W_exit | Take_retry \<Rightarrow> W_lock | Take_slot i \<Rightarrow> W_init i (wk_job (tp_queue pool ! i)))"

definition after_add :: "add_result \<Rightarrow> 'p job \<Rightarrow> 'p ppc" where
  "after_add r j = (if r = Add_wait then P_wait j else P_count r)"

text \<open>A signal wakes one of the threads that sleep on the condition, if there is one; a broadcast wakes all of them.\<close>

definition signal_one :: "('t \<Rightarrow> bool) \<Rightarrow> ('t \<Rightarrow> 't) \<Rightarrow> 't list \<Rightarrow> 't list \<Rightarrow> bool" where
  "signal_one sleeps wake ts ts' \<longleftrightarrow> (if \<exists>t \<in> set ts. sleeps t then \<exists>i < length ts. sleeps (ts ! i) \<and> ts' = ts[i := wake (ts ! i)] else ts' = ts)"

definition broadcast :: "('t \<Rightarrow> bool) \<Rightarrow> ('t \<Rightarrow> 't) \<Rightarrow> 't list \<Rightarrow> 't list" where
  "broadcast sleeps wake ts = map (\<lambda>t. if sleeps t then wake t else t) ts"

fun p_sleeps :: "'p ppc \<Rightarrow> bool" where
  "p_sleeps (P_wait j) = True"
| "p_sleeps _ = False"

fun p_wake :: "'p ppc \<Rightarrow> 'p ppc" where
  "p_wake (P_wait j) = P_woken j"
| "p_wake p = p"

fun d_wake :: "dpc \<Rightarrow> dpc" where
  "d_wake D_wait1 = D_woken1"
| "d_wake D_wait2 = D_relock"
| "d_wake d = d"

abbreviation signal_workers :: "'p wpc list \<Rightarrow> 'p wpc list \<Rightarrow> bool" where
  "signal_workers \<equiv> signal_one (\<lambda>w. w = W_wait) (\<lambda>_. W_lock)"
abbreviation wake_workers :: "'p wpc list \<Rightarrow> 'p wpc list" where
  "wake_workers \<equiv> broadcast (\<lambda>w. w = W_wait) (\<lambda>_. W_lock)"
abbreviation signal_producers :: "'p ppc list \<Rightarrow> 'p ppc list \<Rightarrow> bool" where
  "signal_producers \<equiv> signal_one p_sleeps p_wake"
abbreviation wake_producers :: "'p ppc list \<Rightarrow> 'p ppc list" where
  "wake_producers \<equiv> broadcast p_sleeps p_wake"

datatype tevent = Worker nat | Spurious | Producer nat | Call | Destroyer

inductive tp_step :: "tevent \<Rightarrow> 'p tsys \<Rightarrow> 'p tsys \<Rightarrow> bool" where
  worker_take: "i < length (workers s) \<Longrightarrow> workers s ! i = W_lock \<Longrightarrow> exec_take (tp s) = Some (r, pool) \<Longrightarrow>
    tp_step (Worker i) s (s\<lparr>tp := pool, workers := (workers s)[i := after_take r pool]\<rparr>)"
| worker_init: "i < length (workers s) \<Longrightarrow> workers s ! i = W_init k j \<Longrightarrow> get_at (tp_queue (tp s)) k = Some w \<Longrightarrow> exec_init st (wk_job w) = (cs, ok) \<Longrightarrow>
    tp_step (Worker i) s (s\<lparr>workers := (workers s)[i := if ok then W_work k j else W_done k j], calls := calls s @ cs\<rparr>)"
| worker_work: "i < length (workers s) \<Longrightarrow> workers s ! i = W_work k j \<Longrightarrow> get_at (tp_queue (tp s)) k = Some w \<Longrightarrow>
    tp_step (Worker i) s (s\<lparr>workers := (workers s)[i := W_clean k j], calls := calls s @ exec_work (wk_job w)\<rparr>)"
| worker_clean: "i < length (workers s) \<Longrightarrow> workers s ! i = W_clean k j \<Longrightarrow> get_at (tp_queue (tp s)) k = Some w \<Longrightarrow>
    tp_step (Worker i) s (s\<lparr>workers := (workers s)[i := W_done k j], calls := calls s @ exec_cleanup (wk_job w)\<rparr>)"
| worker_finish: "i < length (workers s) \<Longrightarrow> workers s ! i = W_done k j \<Longrightarrow> exec_finish (tp s) k = Some (notfull, drained, pool) \<Longrightarrow>
    (if notfull then signal_producers (producers s) ps else ps = producers s) \<Longrightarrow>
    tp_step (Worker i) s (s\<lparr>tp := pool, workers := (workers s)[i := W_lock], producers := ps,
      destroyer := if drained then d_wake (destroyer s) else destroyer s, completed := add_mset j (completed s)\<rparr>)"
| worker_spurious: "i < length (workers s) \<Longrightarrow> workers s ! i = W_wait \<Longrightarrow> tp_step Spurious s (s\<lparr>workers := (workers s)[i := W_lock]\<rparr>)"
| producer_call: "workfn j \<noteq> None \<Longrightarrow> destroyer s \<noteq> D_freed \<Longrightarrow> tp_step Call s (s\<lparr>producers := producers s @ [P_start j]\<rparr>)"
| producer_add: "i < length (producers s) \<Longrightarrow> destroyer s \<noteq> D_freed \<Longrightarrow>
    producers s ! i = P_start j \<and> add_enter (tp s) j = Some (r, pool) \<or> producers s ! i = P_woken j \<and> add_place (tp s) j = Some (r, pool) \<Longrightarrow>
    (if r = Add_done True then signal_workers (workers s) ws else ws = workers s) \<Longrightarrow>
    tp_step (Producer i) s (s\<lparr>tp := pool, workers := ws, producers := (producers s)[i := after_add r j],
      accepted := case r of Add_done _ \<Rightarrow> add_mset j (accepted s) | _ \<Rightarrow> accepted s\<rparr>)"
| producer_count: "i < length (producers s) \<Longrightarrow> destroyer s \<noteq> D_freed \<Longrightarrow> producers s ! i = P_count r \<Longrightarrow>
    tp_step (Producer i) s (s\<lparr>tp := add_count r (tp s), producers := (producers s)[i := P_return r]\<rparr>)"
| producer_spurious: "i < length (producers s) \<Longrightarrow> producers s ! i = P_wait j \<Longrightarrow> tp_step Spurious s (s\<lparr>producers := (producers s)[i := P_woken j]\<rparr>)"
| destroy_call: "destroyer s = D_idle \<Longrightarrow> tp_step Call s (s\<lparr>destroyer := D_start finish\<rparr>)"
| destroy_closes: "destroyer s = D_start finish \<or> destroyer s = D_woken1 \<and> finish \<Longrightarrow> destroy_close finish (tp s) = (sleep, pool) \<Longrightarrow>
    tp_step Destroyer s (if sleep then s\<lparr>tp := pool, destroyer := D_wait1\<rparr>
      else s\<lparr>tp := pool, destroyer := D_relock, workers := wake_workers (workers s), producers := wake_producers (producers s)\<rparr>)"
| destroy_shuts: "destroyer s = D_relock \<Longrightarrow> destroy_shut (tp s) = (sleep, pool) \<Longrightarrow>
    tp_step Destroyer s (if sleep then s\<lparr>tp := pool, destroyer := D_wait2\<rparr> else s\<lparr>tp := pool, destroyer := D_join, workers := wake_workers (workers s)\<rparr>)"
| destroy_spurious: "destroyer s \<in> {D_wait1, D_wait2} \<Longrightarrow> tp_step Spurious s (s\<lparr>destroyer := d_wake (destroyer s)\<rparr>)"
| destroy_frees: "destroyer s = D_join \<Longrightarrow> \<forall>w \<in> set (workers s). w = W_exit \<Longrightarrow> tp_step Destroyer s (s\<lparr>destroyer := D_freed\<rparr>)"

inductive_cases tp_stepE: "tp_step ev s s'"

inductive tp_reach :: "'p tsys \<Rightarrow> 'p tsys \<Rightarrow> bool" for s0 where
  reach_refl: "tp_reach s0 s0"
| reach_step: "tp_reach s0 s \<Longrightarrow> tp_step ev s s' \<Longrightarrow> tp_reach s0 s'"

subsection \<open>The slots\<close>

definition in_use :: "'p work \<Rightarrow> bool" where
  "in_use w \<longleftrightarrow> wk_state w \<noteq> SLOT_UNUSED"

definition queue_jobs :: "'p threadpool \<Rightarrow> 'p job multiset" where
  "queue_jobs pool = mset (map wk_job (filter in_use (tp_queue pool)))"

definition tpool_ok :: "'p threadpool \<Rightarrow> bool" where
  "tpool_ok pool \<longleftrightarrow> length (tp_queue pool) = capacity pool \<and> 0 < capacity pool \<and> capacity pool < SIZE_MOD \<and>
     nentries pool = length (filter in_use (tp_queue pool)) \<and> (\<forall>w \<in> set (tp_queue pool). wk_state w \<in> {SLOT_UNUSED, SLOT_RUNNING, SLOT_WAITING})"

lemma filter_update:
  assumes "i < length xs"
  shows "length (filter P (xs[i := y])) + (if P (xs ! i) then 1 else 0) = length (filter P xs) + (if P y then 1 else 0)"
    "mset (map f (filter P (xs[i := y]))) + (if P (xs ! i) then {#f (xs ! i)#} else {#}) = mset (map f (filter P xs)) + (if P y then {#f y#} else {#})"
proof -
  have xs: "xs = take i xs @ xs ! i # drop (Suc i) xs" "xs[i := y] = take i xs @ y # drop (Suc i) xs"
    using assms by (simp_all add: id_take_nth_drop [symmetric] upd_conv_take_nth_drop)
  have f: "filter P xs = filter P (take i xs) @ (if P (xs ! i) then [xs ! i] else []) @ filter P (drop (Suc i) xs)" by (subst xs(1)) simp
  show "length (filter P (xs[i := y])) + (if P (xs ! i) then 1 else 0) = length (filter P xs) + (if P y then 1 else 0)" unfolding f xs(2) by simp
  show "mset (map f (filter P (xs[i := y]))) + (if P (xs ! i) then {#f (xs ! i)#} else {#}) = mset (map f (filter P xs)) + (if P y then {#f y#} else {#})"
    unfolding f xs(2) by simp
qed

lemma slot_loop_spec:
  "i + k = length q \<Longrightarrow> \<exists>r. slot_loop st i k q = Some r \<and>
    (case r of None \<Rightarrow> \<forall>m. i \<le> m \<and> m < length q \<longrightarrow> wk_state (q ! m) \<noteq> st | Some m \<Rightarrow> i \<le> m \<and> m < length q \<and> wk_state (q ! m) = st)"
proof (induction k arbitrary: i)
  case (Suc k)
  obtain r where r: "slot_loop st (Suc i) k q = Some r"
    "case r of None \<Rightarrow> \<forall>m. Suc i \<le> m \<and> m < length q \<longrightarrow> wk_state (q ! m) \<noteq> st | Some m \<Rightarrow> Suc i \<le> m \<and> m < length q \<and> wk_state (q ! m) = st"
    using Suc.IH [of "Suc i"] Suc.prems by auto
  show ?case
  proof (cases "wk_state (q ! i) = st")
    case True
    then show ?thesis using Suc.prems by (simp add: get_at_def)
  next
    case False
    have "m = i \<or> Suc i \<le> m" if "i \<le> m" for m using that by auto
    then show ?thesis using False r Suc.prems by (cases r) (fastforce simp: get_at_def)+
  qed
qed simp

lemma find_slot:
  assumes "tpool_ok pool"
  obtains "slot_loop st 0 (capacity pool) (tp_queue pool) = Some None" "\<And>m. m < capacity pool \<Longrightarrow> wk_state (tp_queue pool ! m) \<noteq> st"
  | m where "slot_loop st 0 (capacity pool) (tp_queue pool) = Some (Some m)" "m < capacity pool" "wk_state (tp_queue pool ! m) = st"
proof -
  have l: "0 + capacity pool = length (tp_queue pool)" using assms by (simp add: tpool_ok_def)
  obtain r where "slot_loop st 0 (capacity pool) (tp_queue pool) = Some r" "case r of None \<Rightarrow> \<forall>m. 0 \<le> m \<and> m < length (tp_queue pool) \<longrightarrow> wk_state (tp_queue pool ! m) \<noteq> st
      | Some m \<Rightarrow> 0 \<le> m \<and> m < length (tp_queue pool) \<and> wk_state (tp_queue pool ! m) = st" using slot_loop_spec [OF l, of st] by blast
  then show thesis using that l by (cases r) simp_all
qed

lemma in_use_bounds:
  assumes "tpool_ok pool"
  shows "nentries pool \<le> capacity pool" "nentries pool = capacity pool \<Longrightarrow> m < capacity pool \<Longrightarrow> in_use (tp_queue pool ! m)"
    "0 < nentries pool \<Longrightarrow> \<exists>m < capacity pool. in_use (tp_queue pool ! m)" "m < capacity pool \<Longrightarrow> in_use (tp_queue pool ! m) \<Longrightarrow> 0 < nentries pool"
    "(\<And>m. m < capacity pool \<Longrightarrow> in_use (tp_queue pool ! m)) \<Longrightarrow> nentries pool = capacity pool"
proof -
  have l: "length (tp_queue pool) = capacity pool" "nentries pool = length (filter in_use (tp_queue pool))" using assms by (simp_all add: tpool_ok_def)
  show "nentries pool \<le> capacity pool" using l length_filter_le [of in_use "tp_queue pool"] by simp
  show "in_use (tp_queue pool ! m)" if "nentries pool = capacity pool" "m < capacity pool"
    using that l length_filter_less [of "tp_queue pool ! m" "tp_queue pool" in_use] nth_mem [of m "tp_queue pool"] by fastforce
  show "\<exists>m < capacity pool. in_use (tp_queue pool ! m)" if "0 < nentries pool"
    using that l by (auto simp: filter_empty_conv in_set_conv_nth)
  show "0 < nentries pool" if "m < capacity pool" "in_use (tp_queue pool ! m)"
    using that l nth_mem [of m "tp_queue pool"] by (auto simp: filter_empty_conv)
  show "nentries pool = capacity pool" if "\<And>m. m < capacity pool \<Longrightarrow> in_use (tp_queue pool ! m)"
  proof -
    have "filter in_use (tp_queue pool) = tp_queue pool" using that l(1) by (intro filter_True) (auto simp: in_set_conv_nth)
    then show ?thesis using l by simp
  qed
qed

text \<open>Replacing one slot.\<close>

lemma tpool_ok_update:
  assumes "tpool_ok pool" "k < capacity pool" "wk_state w \<in> {SLOT_UNUSED, SLOT_RUNNING, SLOT_WAITING}"
    "n + (if in_use (tp_queue pool ! k) then 1 else 0) = nentries pool + (if in_use w then 1 else 0)"
  shows "tpool_ok (pool\<lparr>tp_queue := (tp_queue pool)[k := w], nentries := n\<rparr>)"
proof -
  have k: "k < length (tp_queue pool)" using assms(1,2) by (simp add: tpool_ok_def)
  have "n = length (filter in_use ((tp_queue pool)[k := w]))"
    using filter_update(1) [OF k, of in_use w] assms(1,4) by (auto simp: tpool_ok_def split: if_splits)
  moreover have "\<forall>x \<in> set ((tp_queue pool)[k := w]). wk_state x \<in> {SLOT_UNUSED, SLOT_RUNNING, SLOT_WAITING}"
    using assms(1,3) set_update_subset_insert [of "tp_queue pool" k w] by (auto simp: tpool_ok_def)
  ultimately show ?thesis using assms(1) by (simp add: tpool_ok_def)
qed

lemma queue_jobs_update:
  assumes "tpool_ok pool" "k < capacity pool"
  shows "queue_jobs (pool\<lparr>tp_queue := (tp_queue pool)[k := w], nentries := n\<rparr>) + (if in_use (tp_queue pool ! k) then {#wk_job (tp_queue pool ! k)#} else {#}) =
    queue_jobs pool + (if in_use w then {#wk_job w#} else {#})"
  using filter_update(2) [of k "tp_queue pool" wk_job in_use w] assms by (simp add: queue_jobs_def tpool_ok_def)

subsection \<open>The critical sections\<close>

lemma exec_take_spec:
  assumes "tpool_ok pool"
  shows "exec_take pool = Some (r, pool') \<longleftrightarrow>
    (if nentries pool = 0 then r = (if shutting_down pool then Take_exit else Take_wait) \<and> pool' = pool
     else case slot_loop SLOT_WAITING 0 (capacity pool) (tp_queue pool) of
       Some (Some k) \<Rightarrow> r = Take_slot k \<and> pool' = pool\<lparr>tp_queue := (tp_queue pool)[k := (tp_queue pool ! k)\<lparr>wk_state := SLOT_RUNNING\<rparr>]\<rparr>
     | _ \<Rightarrow> r = Take_retry \<and> pool' = pool)"
proof -
  have l: "length (tp_queue pool) = capacity pool" using assms by (simp add: tpool_ok_def)
  show ?thesis using assms
  proof (rule find_slot [of pool SLOT_WAITING])
    assume "slot_loop SLOT_WAITING 0 (capacity pool) (tp_queue pool) = Some None"
    then show ?thesis by (cases "nentries pool = 0") (auto simp: exec_take_def queue_empty_def)
  next
    fix k
    assume "slot_loop SLOT_WAITING 0 (capacity pool) (tp_queue pool) = Some (Some k)" "k < capacity pool"
    then show ?thesis using l by (cases "nentries pool = 0") (auto simp: exec_take_def queue_empty_def get_at_def put_at_def)
  qed
qed

lemma exec_take_cases:
  assumes "tpool_ok pool" "exec_take pool = Some (r, pool')"
  obtains "nentries pool = 0" "r = (if shutting_down pool then Take_exit else Take_wait)" "pool' = pool"
  | "0 < nentries pool" "r = Take_retry" "pool' = pool" "\<And>m. m < capacity pool \<Longrightarrow> wk_state (tp_queue pool ! m) \<noteq> SLOT_WAITING"
  | k where "0 < nentries pool" "r = Take_slot k" "k < capacity pool" "wk_state (tp_queue pool ! k) = SLOT_WAITING"
    "pool' = pool\<lparr>tp_queue := (tp_queue pool)[k := (tp_queue pool ! k)\<lparr>wk_state := SLOT_RUNNING\<rparr>]\<rparr>"
  using assms(1)
proof (rule find_slot [of pool SLOT_WAITING])
  assume a: "slot_loop SLOT_WAITING 0 (capacity pool) (tp_queue pool) = Some None" "\<And>m. m < capacity pool \<Longrightarrow> wk_state (tp_queue pool ! m) \<noteq> SLOT_WAITING"
  show thesis using assms(2) a that(1,2) unfolding exec_take_spec [OF assms(1)] by (cases "nentries pool = 0") auto
next
  fix k
  assume a: "slot_loop SLOT_WAITING 0 (capacity pool) (tp_queue pool) = Some (Some k)" "k < capacity pool" "wk_state (tp_queue pool ! k) = SLOT_WAITING"
  show thesis using assms(2) a that(1,3) unfolding exec_take_spec [OF assms(1)] by (cases "nentries pool = 0") auto
qed

lemma add_place_cases:
  assumes "tpool_ok pool" "add_place pool j = Some (r, pool')"
  obtains "queue_full pool" "\<not> queue_closed pool" "\<not> shutting_down pool" "r = Add_wait" "pool' = pool"
  | "shutting_down pool \<or> queue_closed pool" "r = Add_closed" "pool' = pool"
  | k where "nentries pool < capacity pool" "\<not> queue_closed pool" "\<not> shutting_down pool" "r = Add_done (nentries pool = 0)" "k < capacity pool"
      "wk_state (tp_queue pool ! k) = SLOT_UNUSED"
      "pool' = pool\<lparr>tp_queue := (tp_queue pool)[k := \<lparr>wk_state = SLOT_WAITING, wk_job = j\<rparr>], nentries := nentries pool + 1\<rparr>"
proof (cases "shutting_down pool \<or> queue_closed pool")
  case True
  then have "r = Add_closed" "pool' = pool" using assms(2) by (auto simp: add_place_def)
  then show thesis using that(2) True by blast
next
  case open_pool: False
  have l: "length (tp_queue pool) = capacity pool" using assms(1) by (simp add: tpool_ok_def)
  show thesis
  proof (cases "queue_full pool")
    case True
    then have "r = Add_wait" "pool' = pool" using assms(2) open_pool by (auto simp: add_place_def)
    then show thesis using that(1) True open_pool by blast
  next
    case False
    then have lt: "nentries pool < capacity pool" using in_use_bounds(1) [OF assms(1)] by (simp add: queue_full_def)
    then have sz: "szt (nentries pool + 1) = nentries pool + 1" using assms(1) by (simp add: szt_def tpool_ok_def)
    obtain k where k: "slot_loop SLOT_UNUSED 0 (capacity pool) (tp_queue pool) = Some (Some k)" "k < capacity pool" "wk_state (tp_queue pool ! k) = SLOT_UNUSED"
      by (rule find_slot [OF assms(1), of SLOT_UNUSED]) (use in_use_bounds(5) [OF assms(1)] lt in \<open>auto simp: in_use_def\<close>)
    have "r = Add_done (nentries pool = 0)" "pool' = pool\<lparr>tp_queue := (tp_queue pool)[k := \<lparr>wk_state = SLOT_WAITING, wk_job = j\<rparr>], nentries := nentries pool + 1\<rparr>"
      using assms(2) k(1,2) False open_pool l sz by (simp_all add: add_place_def put_at_def queue_empty_def)
    then show thesis using that(3) lt open_pool k by blast
  qed
qed

lemma exec_finish_spec:
  assumes "tpool_ok pool" "k < capacity pool" "wk_state (tp_queue pool ! k) = SLOT_RUNNING"
  defines "pool' \<equiv> pool\<lparr>tp_queue := (tp_queue pool)[k := (tp_queue pool ! k)\<lparr>wk_state := SLOT_UNUSED\<rparr>], nentries := nentries pool - 1\<rparr>"
  shows "exec_finish pool k = Some (block_when_full pool, nentries pool = 1, pool')" "0 < nentries pool" "tpool_ok pool'"
    "queue_jobs pool = add_mset (wk_job (tp_queue pool ! k)) (queue_jobs pool')"
proof -
  have u: "in_use (tp_queue pool ! k)" using assms(3) by (simp add: in_use_def slot_states)
  show n: "0 < nentries pool" using in_use_bounds(4) [OF assms(1,2) u] .
  have le: "nentries pool \<le> capacity pool" using in_use_bounds(1) [OF assms(1)] .
  then have "szsub (nentries pool) 1 = nentries pool - 1" using n assms(1) szsub_le [of 1 "nentries pool"] unfolding tpool_ok_def by linarith
  moreover have "length (tp_queue pool) = capacity pool" using assms(1) by (simp add: tpool_ok_def)
  ultimately show "exec_finish pool k = Some (block_when_full pool, nentries pool = 1, pool')"
    using assms(2) n le by (auto simp: exec_finish_def pool'_def get_at_def put_at_def queue_full_def queue_empty_def Let_def)
  show "tpool_ok pool'" unfolding pool'_def using u n by (intro tpool_ok_update [OF assms(1,2)]) (simp_all add: in_use_def slot_states)
  show "queue_jobs pool = add_mset (wk_job (tp_queue pool ! k)) (queue_jobs pool')"
    using queue_jobs_update [OF assms(1,2), of "nentries pool - 1" "(tp_queue pool ! k)\<lparr>wk_state := SLOT_UNUSED\<rparr>"] u unfolding pool'_def by (simp add: in_use_def)
qed

subsection \<open>Who runs which slot\<close>

fun runs_slot :: "'p wpc \<Rightarrow> (nat \<times> 'p job) option" where
  "runs_slot (W_init k j) = Some (k, j)"
| "runs_slot (W_work k j) = Some (k, j)"
| "runs_slot (W_clean k j) = Some (k, j)"
| "runs_slot (W_done k j) = Some (k, j)"
| "runs_slot _ = None"

definition owners_ok :: "(nat \<times> 'p job) option list \<Rightarrow> 'p work list \<Rightarrow> bool" where
  "owners_ok os q \<longleftrightarrow>
     (\<forall>i < length os. \<forall>k j. os ! i = Some (k, j) \<longrightarrow> k < length q \<and> q ! k = \<lparr>wk_state = SLOT_RUNNING, wk_job = j\<rparr>) \<and>
     (\<forall>i < length os. \<forall>i' < length os. \<forall>k j j'. os ! i = Some (k, j) \<and> os ! i' = Some (k, j') \<longrightarrow> i = i') \<and>
     (\<forall>k < length q. wk_state (q ! k) = SLOT_RUNNING \<longrightarrow> (\<exists>i < length os. \<exists>j. os ! i = Some (k, j)))"

lemma owners_okD:
  assumes "owners_ok os q" "i < length os" "os ! i = Some (k, j)"
  shows "k < length q" "q ! k = \<lparr>wk_state = SLOT_RUNNING, wk_job = j\<rparr>" "i' < length os \<Longrightarrow> os ! i' = Some (k, j') \<Longrightarrow> i' = i"
  using assms unfolding owners_ok_def by blast+

lemma owners_take:
  assumes "owners_ok os q" "i < length os" "os ! i = None" "k < length q" "wk_state (q ! k) = SLOT_WAITING"
  shows "owners_ok (os[i := Some (k, wk_job (q ! k))]) (q[k := (q ! k)\<lparr>wk_state := SLOT_RUNNING\<rparr>])"
proof -
  have no: "os ! m \<noteq> Some (k, j)" if "m < length os" for m j using owners_okD(2) [OF assms(1) that, of k j] assms(5) by (auto simp: slot_states)
  have up: "(q ! k)\<lparr>wk_state := SLOT_RUNNING\<rparr> = \<lparr>wk_state = SLOT_RUNNING, wk_job = wk_job (q ! k)\<rparr>" by (cases "q ! k") simp
  show ?thesis unfolding owners_ok_def up
  proof (intro conjI allI impI)
    fix m k' j
    assume m: "m < length (os[i := Some (k, wk_job (q ! k))])" "os[i := Some (k, wk_job (q ! k))] ! m = Some (k', j)"
    show "k' < length (q[k := \<lparr>wk_state = SLOT_RUNNING, wk_job = wk_job (q ! k)\<rparr>])"
      "q[k := \<lparr>wk_state = SLOT_RUNNING, wk_job = wk_job (q ! k)\<rparr>] ! k' = \<lparr>wk_state = SLOT_RUNNING, wk_job = j\<rparr>"
      using m assms(2,4) owners_okD(1,2) [OF assms(1), of m k' j] no [of m] by (cases "m = i"; auto simp: nth_list_update)+
  next
    fix m m' k' j j'
    assume "m < length (os[i := Some (k, wk_job (q ! k))])" "m' < length (os[i := Some (k, wk_job (q ! k))])"
      "os[i := Some (k, wk_job (q ! k))] ! m = Some (k', j) \<and> os[i := Some (k, wk_job (q ! k))] ! m' = Some (k', j')"
    then show "m = m'" using assms(2) no [of m j] no [of m' j'] owners_okD(3) [OF assms(1), of m' k' j' m j] by (auto simp: nth_list_update split: if_splits)
  next
    fix m
    assume m: "m < length (q[k := \<lparr>wk_state = SLOT_RUNNING, wk_job = wk_job (q ! k)\<rparr>])"
      "wk_state (q[k := \<lparr>wk_state = SLOT_RUNNING, wk_job = wk_job (q ! k)\<rparr>] ! m) = SLOT_RUNNING"
    show "\<exists>i' < length (os[i := Some (k, wk_job (q ! k))]). \<exists>j. os[i := Some (k, wk_job (q ! k))] ! i' = Some (m, j)"
    proof (cases "m = k")
      case True
      then show ?thesis using assms(2) by (intro exI [of _ i]) simp
    next
      case False
      then obtain i' j where "i' < length os" "os ! i' = Some (m, j)" using m assms(1) unfolding owners_ok_def by auto
      moreover from this have "i' \<noteq> i" using assms(3) by auto
      ultimately show ?thesis by (intro exI [of _ i']) simp
    qed
  qed
qed

lemma owners_finish:
  assumes "owners_ok os q" "i < length os" "os ! i = Some (k, j)" "wk_state w \<noteq> SLOT_RUNNING"
  shows "owners_ok (os[i := None]) (q[k := w])"
proof -
  have other: "m = i" if "m < length os" "os ! m = Some (k, j')" for m j' using owners_okD(3) [OF assms(1-3) that] .
  show ?thesis unfolding owners_ok_def
  proof (intro conjI allI impI)
    fix m k' j'
    assume m: "m < length (os[i := None])" "os[i := None] ! m = Some (k', j')"
    then have "m \<noteq> i" "m < length os" "os ! m = Some (k', j')" using assms(2) by (auto simp: nth_list_update split: if_splits)
    moreover from this have "k' \<noteq> k" using other by blast
    ultimately show "k' < length (q[k := w])" "q[k := w] ! k' = \<lparr>wk_state = SLOT_RUNNING, wk_job = j'\<rparr>" using owners_okD(1,2) [OF assms(1), of m k' j'] by simp_all
  next
    fix m m' k' j' j''
    assume "m < length (os[i := None])" "m' < length (os[i := None])" "os[i := None] ! m = Some (k', j') \<and> os[i := None] ! m' = Some (k', j'')"
    then show "m = m'" using assms(2) owners_okD(3) [OF assms(1), of m' k' j'' m j'] by (auto simp: nth_list_update split: if_splits)
  next
    fix m
    assume m: "m < length (q[k := w])" "wk_state (q[k := w] ! m) = SLOT_RUNNING"
    then have "m \<noteq> k" using assms(4) owners_okD(1) [OF assms(1-3)] by auto
    then obtain i' j' where i': "i' < length os" "os ! i' = Some (m, j')" using m assms(1) unfolding owners_ok_def by auto
    then have "i' \<noteq> i" using assms(3) \<open>m \<noteq> k\<close> by auto
    then show "\<exists>i' < length (os[i := None]). \<exists>j. os[i := None] ! i' = Some (m, j)" using i' by (intro exI [of _ i']) simp
  qed
qed

lemma owners_add:
  assumes "owners_ok os q" "k < length q" "wk_state (q ! k) \<noteq> SLOT_RUNNING" "wk_state w \<noteq> SLOT_RUNNING"
  shows "owners_ok os (q[k := w])"
proof -
  have no: "os ! m \<noteq> Some (k, j)" if "m < length os" for m j using owners_okD(2) [OF assms(1) that, of k j] assms(3) by auto
  have keep: "q[k := w] ! k' = q ! k'" if "m < length os" "os ! m = Some (k', j)" for m k' j using no [of m j] that by (cases "k' = k") auto
  show ?thesis unfolding owners_ok_def
  proof (intro conjI allI impI)
    fix m k' j
    assume m: "m < length os" "os ! m = Some (k', j)"
    show "k' < length (q[k := w])" "q[k := w] ! k' = \<lparr>wk_state = SLOT_RUNNING, wk_job = j\<rparr>" using owners_okD(1,2) [OF assms(1) m] keep [OF m] by simp_all
  next
    fix m m' k' j j'
    assume "m < length os" "m' < length os" "os ! m = Some (k', j) \<and> os ! m' = Some (k', j')"
    then show "m = m'" using owners_okD(3) [OF assms(1), of m' k' j' m j] by simp
  next
    fix m
    assume m: "m < length (q[k := w])" "wk_state (q[k := w] ! m) = SLOT_RUNNING"
    then have "m \<noteq> k" using assms(2,4) by auto
    then show "\<exists>i < length os. \<exists>j. os ! i = Some (m, j)" using m assms(1) unfolding owners_ok_def by auto
  qed
qed

lemma signal_one_length: "signal_one P f ts ts' \<Longrightarrow> length ts' = length ts"
  by (auto simp: signal_one_def split: if_splits)

lemma signal_one_map:
  assumes "signal_one P f ts ts'" "\<And>t. P t \<Longrightarrow> g (f t) = g t"
  shows "map g ts' = map g ts"
proof (cases "\<exists>t \<in> set ts. P t")
  case True
  then obtain i where i: "i < length ts" "P (ts ! i)" "ts' = ts[i := f (ts ! i)]" using assms(1) by (auto simp: signal_one_def)
  have "map g ts' = (map g ts)[i := g (ts ! i)]" using i(2,3) assms(2) by (simp add: map_update)
  then show ?thesis using i(1) by (metis list_update_id nth_map)
next
  case False
  then show ?thesis using assms(1) by (auto simp: signal_one_def)
qed

lemma broadcast_map: "(\<And>t. P t \<Longrightarrow> g (f t) = g t) \<Longrightarrow> map g (broadcast P f ts) = map g ts"
  by (induction ts) (auto simp: broadcast_def)

lemma worker_signals [simp]:
  "signal_workers ws ws' \<Longrightarrow> map runs_slot ws' = map runs_slot ws" "map runs_slot (wake_workers ws) = map runs_slot ws"
  by (erule signal_one_map, simp) (rule broadcast_map, simp)

subsection \<open>Slots, owners and jobs\<close>

definition slots_ok :: "'p tsys \<Rightarrow> bool" where
  "slots_ok s \<longleftrightarrow> tpool_ok (tp s) \<and> owners_ok (map runs_slot (workers s)) (tp_queue (tp s)) \<and> accepted s = queue_jobs (tp s) + completed s"

lemma owners_upd_same:
  "i < length ws \<Longrightarrow> runs_slot w = runs_slot (ws ! i) \<Longrightarrow> map runs_slot (ws[i := w]) = map runs_slot ws"
  by (simp add: map_update list_update_same_conv)

lemma tpool_ok_flags [simp]:
  "tpool_ok (pool\<lparr>queue_closed := b\<rparr>) = tpool_ok pool" "tpool_ok (pool\<lparr>shutting_down := b\<rparr>) = tpool_ok pool" "tpool_ok (add_count r pool) = tpool_ok pool"
  "tpool_ok (pool\<lparr>sum_blocked := n\<rparr>) = tpool_ok pool" "queue_jobs (pool\<lparr>sum_blocked := n\<rparr>) = queue_jobs pool"
  "queue_jobs (pool\<lparr>queue_closed := b\<rparr>) = queue_jobs pool" "queue_jobs (pool\<lparr>shutting_down := b\<rparr>) = queue_jobs pool" "queue_jobs (add_count r pool) = queue_jobs pool"
  "tp_queue (add_count r pool) = tp_queue pool" "nentries (add_count r pool) = nentries pool" "capacity (add_count r pool) = capacity pool"
  "queue_closed (add_count r pool) = queue_closed pool" "shutting_down (add_count r pool) = shutting_down pool" "block_when_full (add_count r pool) = block_when_full pool"
  by (simp_all add: tpool_ok_def queue_jobs_def add_count_def split: add_result.split)

text \<open>The two ways a producer gets to the section that places its job.\<close>

lemma add_cases:
  assumes "tpool_ok pool" "add_enter pool j = Some (r, pool') \<or> add_place pool j = Some (r, pool')"
  obtains n where "queue_full pool" "\<not> queue_closed pool" "\<not> shutting_down pool" "r = Add_wait" "pool' = pool\<lparr>sum_blocked := n\<rparr>" "block_when_full pool \<or> add_place pool j = Some (r, pool')"
  | n where "shutting_down pool \<or> queue_closed pool" "r = Add_closed" "pool' = pool\<lparr>sum_blocked := n\<rparr>"
  | "queue_full pool" "\<not> block_when_full pool" "r = Add_nospace" "pool' = pool"
  | k where "nentries pool < capacity pool" "\<not> queue_closed pool" "\<not> shutting_down pool" "r = Add_done (nentries pool = 0)" "k < capacity pool"
      "wk_state (tp_queue pool ! k) = SLOT_UNUSED"
      "pool' = pool\<lparr>tp_queue := (tp_queue pool)[k := \<lparr>wk_state = SLOT_WAITING, wk_job = j\<rparr>], nentries := nentries pool + 1\<rparr>"
proof -
  note T = that
  have same: "pool\<lparr>sum_blocked := sum_blocked pool\<rparr> = pool" by simp
  have place: thesis if "add_place pool j = Some (r, pool')"
    using assms(1) that
  proof (rule add_place_cases)
    assume "queue_full pool" "\<not> queue_closed pool" "\<not> shutting_down pool" "r = Add_wait" "pool' = pool"
    then show thesis using T(1) [of "sum_blocked pool"] that same by simp
  next
    assume "shutting_down pool \<or> queue_closed pool" "r = Add_closed" "pool' = pool"
    then show thesis using T(2) [of "sum_blocked pool"] same by simp
  qed (rule T(4))
  show thesis
  proof (cases "add_place pool j = Some (r, pool')")
    case True
    then show thesis by (rule place)
  next
    case False
    then have e: "add_enter pool j = Some (r, pool')" using assms(2) by blast
    show thesis
    proof (cases "queue_full pool \<and> block_when_full pool")
      case full: True
      let ?p = "pool\<lparr>sum_blocked := szt (sum_blocked pool + 1)\<rparr>"
      have "tpool_ok ?p" "add_place ?p j = Some (r, pool')" using assms(1) e full by (simp_all add: add_enter_def)
      then show thesis
      proof (rule add_place_cases)
        assume "queue_full ?p" "\<not> queue_closed ?p" "\<not> shutting_down ?p" "r = Add_wait" "pool' = ?p"
        then show thesis by (intro T(1) [of "szt (sum_blocked pool + 1)"]) (use full in \<open>simp_all add: queue_full_def\<close>)
      next
        assume "shutting_down ?p \<or> queue_closed ?p" "r = Add_closed" "pool' = ?p"
        then show thesis by (intro T(2) [of "szt (sum_blocked pool + 1)"]) simp_all
      qed (use full in \<open>simp add: queue_full_def\<close>)
    next
      case False
      show thesis
      proof (cases "queue_full pool")
        case True
        then have "r = Add_nospace" "pool' = pool" using e False by (simp_all add: add_enter_def)
        then show thesis using T(3) True False by blast
      next
        case False
        then show thesis using e place by (simp add: add_enter_def)
      qed
    qed
  qed
qed

lemma slots_ok_step: "tp_step ev s s' \<Longrightarrow> slots_ok s \<Longrightarrow> slots_ok s'"
proof (induction rule: tp_step.induct)
  case (worker_take i s r pool)
  let ?q = "tp_queue (tp s)"
  have ok: "tpool_ok (tp s)" "owners_ok (map runs_slot (workers s)) ?q" "accepted s = queue_jobs (tp s) + completed s" using worker_take.prems by (simp_all add: slots_ok_def)
  from ok(1) worker_take.hyps(3) show ?case
  proof (rule exec_take_cases)
    fix k
    assume k: "0 < nentries (tp s)" "r = Take_slot k" "k < capacity (tp s)" "wk_state (?q ! k) = SLOT_WAITING"
      "pool = (tp s)\<lparr>tp_queue := ?q[k := (?q ! k)\<lparr>wk_state := SLOT_RUNNING\<rparr>]\<rparr>"
    have l: "k < length ?q" using ok(1) k(3) by (simp add: tpool_ok_def)
    let ?w = "(?q ! k)\<lparr>wk_state := SLOT_RUNNING\<rparr>"
    have p: "pool = (tp s)\<lparr>tp_queue := ?q[k := ?w], nentries := nentries (tp s)\<rparr>" using k(5) by simp
    have u: "in_use (?q ! k)" "in_use ?w" using k(4) by (simp_all add: in_use_def slot_states)
    have "tpool_ok pool" unfolding p using u by (intro tpool_ok_update [OF ok(1) k(3)]) simp_all
    moreover have "queue_jobs pool = queue_jobs (tp s)" using queue_jobs_update [OF ok(1) k(3), of "nentries (tp s)" ?w] u unfolding p by simp
    moreover have "after_take r pool = W_init k (wk_job (?q ! k))" using k(2,5) l by (simp add: after_take_def)
    moreover have "owners_ok ((map runs_slot (workers s))[i := Some (k, wk_job (?q ! k))]) (?q[k := ?w])"
      using owners_take [OF ok(2) _ _ l k(4), of i] worker_take.hyps(1,2) by simp
    ultimately show ?thesis using ok k(5) by (simp add: slots_ok_def map_update)
  qed (use ok worker_take.hyps in \<open>simp_all add: slots_ok_def after_take_def owners_upd_same\<close>)
next
  case (worker_finish i s k j notfull drained pool ps)
  let ?q = "tp_queue (tp s)"
  have ok: "tpool_ok (tp s)" "owners_ok (map runs_slot (workers s)) ?q" "accepted s = queue_jobs (tp s) + completed s" using worker_finish.prems by (simp_all add: slots_ok_def)
  have o: "i < length (map runs_slot (workers s))" "map runs_slot (workers s) ! i = Some (k, j)" using worker_finish.hyps(1,2) by simp_all
  have k: "k < capacity (tp s)" "?q ! k = \<lparr>wk_state = SLOT_RUNNING, wk_job = j\<rparr>" using owners_okD(1,2) [OF ok(2) o] ok(1) by (simp_all add: tpool_ok_def)
  have st: "wk_state (?q ! k) = SLOT_RUNNING" using k(2) by simp
  note f = exec_finish_spec [OF ok(1) k(1) st]
  have p: "pool = (tp s)\<lparr>tp_queue := ?q[k := (?q ! k)\<lparr>wk_state := SLOT_UNUSED\<rparr>], nentries := nentries (tp s) - 1\<rparr>" using f(1) worker_finish.hyps(3) by simp
  have "owners_ok ((map runs_slot (workers s))[i := None]) (tp_queue pool)" using owners_finish [OF ok(2) o, of "(?q ! k)\<lparr>wk_state := SLOT_UNUSED\<rparr>"] p by (simp add: slot_states)
  then show ?case using f(3,4) p ok(3) k(2) by (simp add: slots_ok_def map_update)
next
  case (producer_add i s j r pool ws)
  let ?q = "tp_queue (tp s)"
  have ok: "tpool_ok (tp s)" "owners_ok (map runs_slot (workers s)) ?q" "accepted s = queue_jobs (tp s) + completed s" using producer_add.prems by (simp_all add: slots_ok_def)
  have ws: "map runs_slot ws = map runs_slot (workers s)" using producer_add.hyps(4) by (auto split: if_splits)
  have a: "add_enter (tp s) j = Some (r, pool) \<or> add_place (tp s) j = Some (r, pool)" using producer_add.hyps(3) by blast
  from ok(1) a show ?case
  proof (rule add_cases)
    fix k
    assume k: "nentries (tp s) < capacity (tp s)" "r = Add_done (nentries (tp s) = 0)" "k < capacity (tp s)" "wk_state (?q ! k) = SLOT_UNUSED"
      "pool = (tp s)\<lparr>tp_queue := ?q[k := \<lparr>wk_state = SLOT_WAITING, wk_job = j\<rparr>], nentries := nentries (tp s) + 1\<rparr>"
    let ?w = "\<lparr>wk_state = SLOT_WAITING, wk_job = j\<rparr>"
    have u: "\<not> in_use (?q ! k)" "in_use ?w" using k(4) by (simp_all add: in_use_def slot_states)
    have "tpool_ok pool" unfolding k(5) using u by (intro tpool_ok_update [OF ok(1) k(3)]) (simp_all add: slot_states)
    moreover have "queue_jobs pool = add_mset j (queue_jobs (tp s))" using queue_jobs_update [OF ok(1) k(3), of "nentries (tp s) + 1" ?w] u unfolding k(5) by simp
    moreover have "owners_ok (map runs_slot (workers s)) (tp_queue pool)"
      using owners_add [OF ok(2), of k ?w] k(3,4,5) ok(1) by (simp add: slot_states tpool_ok_def)
    ultimately show ?thesis using ok(3) k(2) ws by (simp add: slots_ok_def)
  qed (use ok ws in \<open>simp_all add: slots_ok_def\<close>)
qed (auto simp: slots_ok_def owners_upd_same destroy_close_def destroy_shut_def split: if_splits)

subsection \<open>Sleeping and shutting down\<close>

definition sync_ok :: "'p tsys \<Rightarrow> bool" where
  "sync_ok s \<longleftrightarrow>
     (shutting_down (tp s) \<longleftrightarrow> destroyer s \<in> {D_join, D_freed}) \<and>
     (queue_closed (tp s) \<longleftrightarrow> destroyer s \<notin> {D_idle, D_start True, D_start False}) \<and>
     (shutting_down (tp s) \<longrightarrow> nentries (tp s) = 0 \<and> W_wait \<notin> set (workers s)) \<and>
     (W_exit \<in> set (workers s) \<longrightarrow> shutting_down (tp s)) \<and>
     (destroyer s \<in> {D_wait1, D_wait2} \<longrightarrow> 0 < nentries (tp s)) \<and>
     (destroyer s = D_freed \<longrightarrow> (\<forall>w \<in> set (workers s). w = W_exit)) \<and>
     (0 < nentries (tp s) \<and> workers s \<noteq> [] \<longrightarrow> (\<exists>w \<in> set (workers s). w \<noteq> W_wait))"

lemma sync_okD:
  assumes "sync_ok s"
  shows "shutting_down (tp s) \<longleftrightarrow> destroyer s \<in> {D_join, D_freed}" "queue_closed (tp s) \<longleftrightarrow> destroyer s \<notin> {D_idle, D_start True, D_start False}"
    "shutting_down (tp s) \<Longrightarrow> nentries (tp s) = 0" "shutting_down (tp s) \<Longrightarrow> W_wait \<notin> set (workers s)" "W_exit \<in> set (workers s) \<Longrightarrow> shutting_down (tp s)"
    "destroyer s \<in> {D_wait1, D_wait2} \<Longrightarrow> 0 < nentries (tp s)" "destroyer s = D_freed \<Longrightarrow> w \<in> set (workers s) \<Longrightarrow> w = W_exit"
    "0 < nentries (tp s) \<Longrightarrow> workers s \<noteq> [] \<Longrightarrow> \<exists>w \<in> set (workers s). w \<noteq> W_wait"
  using assms unfolding sync_ok_def by blast+

lemma in_set_update: "x \<in> set (xs[i := y]) \<Longrightarrow> x = y \<or> x \<in> set xs"
  using set_update_subset_insert [of xs i y] by blast

text \<open>A worker that goes on to something else than sleep or its end.\<close>

lemma sync_worker:
  assumes "sync_ok s" "i < length (workers s)" "workers s ! i \<noteq> W_exit" "w \<noteq> W_wait" "w \<noteq> W_exit"
  shows "sync_ok (s\<lparr>workers := (workers s)[i := w]\<rparr>)" "destroyer s \<noteq> D_freed"
proof -
  show f: "destroyer s \<noteq> D_freed" using assms(1-3) nth_mem [of i "workers s"] unfolding sync_ok_def by metis
  have "w \<in> set ((workers s)[i := w])" using assms(2) by (simp add: set_update_memI)
  moreover have "W_wait \<notin> set (workers s) \<Longrightarrow> W_wait \<notin> set ((workers s)[i := w])" "W_exit \<in> set ((workers s)[i := w]) \<Longrightarrow> W_exit \<in> set (workers s)"
    using assms(4,5) in_set_update [of _ "workers s" i w] by metis+
  ultimately show "sync_ok (s\<lparr>workers := (workers s)[i := w]\<rparr>)" using assms(1,4) f unfolding sync_ok_def by auto
qed

lemma sync_fields:
  assumes "sync_ok s" "workers s' = workers s" "destroyer s' = destroyer s" "shutting_down (tp s') = shutting_down (tp s)"
    "queue_closed (tp s') = queue_closed (tp s)" "nentries (tp s') = nentries (tp s)"
  shows "sync_ok s'"
  using assms(1) unfolding sync_ok_def assms(2-6) .

lemma signal_workers_awake: "signal_workers ws ws' \<Longrightarrow> ws \<noteq> [] \<Longrightarrow> \<exists>w \<in> set ws'. w \<noteq> W_wait"
proof (cases "W_wait \<in> set ws")
  case False
  assume "signal_workers ws ws'" "ws \<noteq> []"
  then have "ws' = ws" "hd ws \<in> set ws" using False by (simp_all add: signal_one_def)
  then show ?thesis using False by metis
qed (auto simp: signal_one_def set_update_memI)

lemma signal_workers_set: "signal_workers ws ws' \<Longrightarrow> x \<in> set ws' \<Longrightarrow> x = W_lock \<or> x \<in> set ws"
  by (auto simp: signal_one_def split: if_splits dest: in_set_update)

lemma wake_workers_set: "x \<in> set (wake_workers ws) \<Longrightarrow> x \<noteq> W_wait \<and> (x = W_lock \<or> x \<in> set ws)"
  by (auto simp: broadcast_def split: if_splits)

lemma wake_workers_empty [simp]: "wake_workers ws = [] \<longleftrightarrow> ws = []"
  by (simp add: broadcast_def)

lemma wake_workers_awake: "ws \<noteq> [] \<Longrightarrow> \<exists>w \<in> set (wake_workers ws). w \<noteq> W_wait"
  using wake_workers_set [of "hd (wake_workers ws)" ws] wake_workers_empty [of ws] list.set_sel(1) [of "wake_workers ws"] by blast

lemma sync_ok_step: "tp_step ev s s' \<Longrightarrow> slots_ok s \<Longrightarrow> sync_ok s \<Longrightarrow> sync_ok s'"
proof (induction rule: tp_step.induct)
  case (worker_take i s r pool)
  have ok: "tpool_ok (tp s)" using worker_take.prems(1) by (simp add: slots_ok_def)
  have aw: "workers s ! i \<noteq> W_exit" using worker_take.hyps(2) by simp
  from ok worker_take.hyps(3) show ?case
  proof (rule exec_take_cases)
    assume "nentries (tp s) = 0" "r = (if shutting_down (tp s) then Take_exit else Take_wait)" "pool = tp s"
    moreover have "W_wait \<notin> set ((workers s)[i := W_exit])" if "W_wait \<notin> set (workers s)" using that in_set_update by fastforce
    moreover have "W_exit \<in> set (workers s)" if "W_exit \<in> set ((workers s)[i := W_wait])" using that in_set_update by fastforce
    ultimately show ?thesis using worker_take.prems(2) sync_worker(2) [OF worker_take.prems(2) worker_take.hyps(1) aw, of W_lock]
      unfolding sync_ok_def after_take_def by auto
  next
    assume "0 < nentries (tp s)" "r = Take_retry" "pool = tp s"
    then show ?thesis using sync_worker(1) [OF worker_take.prems(2) worker_take.hyps(1) aw, of W_lock] by (simp add: after_take_def)
  next
    fix k
    assume k: "r = Take_slot k" "pool = (tp s)\<lparr>tp_queue := (tp_queue (tp s))[k := (tp_queue (tp s) ! k)\<lparr>wk_state := SLOT_RUNNING\<rparr>]\<rparr>"
    have "sync_ok (s\<lparr>workers := (workers s)[i := after_take r pool]\<rparr>)"
      by (rule sync_worker(1) [OF worker_take.prems(2) worker_take.hyps(1) aw]) (simp_all add: k(1) after_take_def)
    then show ?thesis by (rule sync_fields) (simp_all add: k(2))
  qed
next
  case (worker_init i s k j w st cs ok)
  then have "sync_ok (s\<lparr>workers := (workers s)[i := if ok then W_work k j else W_done k j]\<rparr>)" by (intro sync_worker(1)) auto
  then show ?case by (rule sync_fields) simp_all
next
  case (worker_work i s k j w)
  then have "sync_ok (s\<lparr>workers := (workers s)[i := W_clean k j]\<rparr>)" by (intro sync_worker(1)) auto
  then show ?case by (rule sync_fields) simp_all
next
  case (worker_clean i s k j w)
  then have "sync_ok (s\<lparr>workers := (workers s)[i := W_done k j]\<rparr>)" by (intro sync_worker(1)) auto
  then show ?case by (rule sync_fields) simp_all
next
  case (worker_finish i s k j notfull drained pool ps)
  let ?q = "tp_queue (tp s)"
  have ok: "tpool_ok (tp s)" "owners_ok (map runs_slot (workers s)) ?q" using worker_finish.prems(1) by (simp_all add: slots_ok_def)
  have o: "i < length (map runs_slot (workers s))" "map runs_slot (workers s) ! i = Some (k, j)" using worker_finish.hyps(1,2) by simp_all
  have k: "k < capacity (tp s)" "wk_state (?q ! k) = SLOT_RUNNING" using owners_okD(1,2) [OF ok(2) o] ok(1) by (simp_all add: tpool_ok_def)
  note f = exec_finish_spec [OF ok(1) k]
  have p: "pool = (tp s)\<lparr>tp_queue := ?q[k := (?q ! k)\<lparr>wk_state := SLOT_UNUSED\<rparr>], nentries := nentries (tp s) - 1\<rparr>" "drained = (nentries (tp s) = 1)"
    using f(1) worker_finish.hyps(3) by simp_all
  have "sync_ok (s\<lparr>workers := (workers s)[i := W_lock]\<rparr>)" using worker_finish.hyps(1,2) worker_finish.prems(2) by (intro sync_worker(1)) auto
  then show ?case using p f(2) by (cases "destroyer s") (auto simp: sync_ok_def)
next
  case (worker_spurious i s)
  then show ?case by (intro sync_worker(1)) auto
next
  case (producer_add i s j r pool ws)
  have ok: "tpool_ok (tp s)" using producer_add.prems(1) by (simp add: slots_ok_def)
  have a: "add_enter (tp s) j = Some (r, pool) \<or> add_place (tp s) j = Some (r, pool)" using producer_add.hyps(3) by blast
  from ok a show ?case
  proof (rule add_cases)
    fix k
    assume k: "\<not> queue_closed (tp s)" "\<not> shutting_down (tp s)" "r = Add_done (nentries (tp s) = 0)"
      "pool = (tp s)\<lparr>tp_queue := (tp_queue (tp s))[k := \<lparr>wk_state = SLOT_WAITING, wk_job = j\<rparr>], nentries := nentries (tp s) + 1\<rparr>"
    have "W_exit \<notin> set ws" using producer_add.hyps(4) producer_add.prems(2) k(2) signal_workers_set [of "workers s" ws W_exit] by (auto simp: sync_ok_def split: if_splits)
    moreover have "ws \<noteq> [] \<Longrightarrow> \<exists>w \<in> set ws. w \<noteq> W_wait"
    proof (cases "nentries (tp s) = 0")
      case True
      assume "ws \<noteq> []"
      moreover have sg: "signal_workers (workers s) ws" using True k(3) producer_add.hyps(4) by simp
      ultimately have "workers s \<noteq> []" using signal_one_length [OF sg] by auto
      then show ?thesis by (rule signal_workers_awake [OF sg])
    next
      case False
      assume "ws \<noteq> []"
      then show ?thesis using producer_add.hyps(4) producer_add.prems(2) False k(3) by (auto simp: sync_ok_def)
    qed
    ultimately show ?thesis using producer_add.prems(2) k unfolding sync_ok_def by auto
  qed (rule sync_fields [OF producer_add.prems(2)]; use producer_add.hyps(4) in simp)+
next
  case (producer_count i s r)
  show ?case using producer_count.prems(2) by (rule sync_fields) simp_all
next
  case (destroy_closes s finish sleep pool)
  have d: "destroyer s \<in> {D_start True, D_start False, D_woken1}" using destroy_closes.hyps(1) by (cases finish) auto
  then have "destroyer s \<notin> {D_join, D_freed}" by auto
  then have sd: "\<not> shutting_down (tp s)" "W_exit \<notin> set (workers s)" using sync_okD(1,5) [OF destroy_closes.prems(2)] by blast+
  have e: "pool = (tp s)\<lparr>queue_closed := True\<rparr>" "sleep = (finish \<and> nentries (tp s) \<noteq> 0)"
    using destroy_closes.hyps(2) by (simp_all add: destroy_close_def queue_empty_def)
  show ?case
  proof (cases sleep)
    case True
    then show ?thesis using destroy_closes.prems(2) e sd by (simp add: sync_ok_def)
  next
    case False
    have "W_exit \<notin> set (wake_workers (workers s))" using wake_workers_set [of W_exit "workers s"] sd(2) by blast
    then show ?thesis using False e sd(1) wake_workers_awake [of "workers s"] by (simp add: sync_ok_def)
  qed
next
  case (destroy_shuts s sleep pool)
  then show ?case using wake_workers_set [of W_exit "workers s"] wake_workers_set [of W_wait "workers s"]
    by (auto simp: sync_ok_def destroy_shut_def queue_empty_def split: if_splits)
next
  case (destroy_spurious s)
  then show ?case by (cases "destroyer s") (auto simp: sync_ok_def)
next
  case (destroy_call s finish)
  then show ?case by (cases finish) (auto simp: sync_ok_def)
qed (auto simp: sync_ok_def)

subsection \<open>Waiting for room\<close>

fun p_woken :: "'p ppc \<Rightarrow> bool" where
  "p_woken (P_woken j) = True"
| "p_woken _ = False"

definition p_ok :: "bool \<Rightarrow> dpc \<Rightarrow> 'p ppc \<Rightarrow> bool" where
  "p_ok block d p \<longleftrightarrow> (case p of
     P_start j \<Rightarrow> True
   | P_wait j \<Rightarrow> block \<and> d \<in> {D_idle, D_start True, D_start False, D_wait1, D_woken1}
   | P_woken j \<Rightarrow> block
   | P_count r \<Rightarrow> r \<noteq> Add_noslot \<and> r \<noteq> Add_wait
   | P_return r \<Rightarrow> r \<noteq> Add_noslot \<and> r \<noteq> Add_wait)"

definition room_ok :: "'p threadpool \<Rightarrow> 'p ppc list \<Rightarrow> bool" where
  "room_ok pool ps \<longleftrightarrow> \<not> queue_closed pool \<and> (\<exists>p \<in> set ps. p_sleeps p) \<longrightarrow> capacity pool - nentries pool \<le> length (filter p_woken ps)"

definition producers_ok :: "'p tsys \<Rightarrow> bool" where
  "producers_ok s \<longleftrightarrow> (\<forall>p \<in> set (producers s). p_ok (block_when_full (tp s)) (destroyer s) p) \<and> room_ok (tp s) (producers s)"

lemma p_ok_wake: "p_ok b d p \<Longrightarrow> p_ok b d' (p_wake p)"
  by (cases p) (auto simp: p_ok_def)

lemma p_ok_d_wake: "p_ok b d p \<Longrightarrow> p_ok b (d_wake d) p"
  by (cases d; cases p) (auto simp: p_ok_def)

lemma p_ok_sleeps: "p_ok b d p \<Longrightarrow> p_sleeps p \<Longrightarrow> b"
  by (cases p) (auto simp: p_ok_def)

lemma p_wake_simps [simp]: "\<not> p_sleeps (p_wake p)" "p_sleeps p \<Longrightarrow> p_woken (p_wake p)" "p_sleeps p \<Longrightarrow> \<not> p_woken p"
  by (cases p; simp)+

text \<open>One slot less in use, one producer more on its way.\<close>

lemma room_finish:
  assumes "room_ok pool ps" "signal_producers ps ps'" "0 < nentries pool" "nentries pool \<le> capacity pool" "nentries pool' = nentries pool - 1"
    "capacity pool' = capacity pool" "queue_closed pool' = queue_closed pool"
  shows "room_ok pool' ps'"
proof (cases "\<exists>p \<in> set ps. p_sleeps p")
  case True
  then obtain i where i: "i < length ps" "p_sleeps (ps ! i)" "ps' = ps[i := p_wake (ps ! i)]" using assms(2) by (auto simp: signal_one_def)
  have "length (filter p_woken ps') = length (filter p_woken ps) + 1" using filter_update(1) [OF i(1), of p_woken "p_wake (ps ! i)"] i(2,3) by simp
  then show ?thesis using assms True by (auto simp: room_ok_def)
next
  case False
  then show ?thesis using assms(2) by (auto simp: room_ok_def signal_one_def)
qed

lemma room_keep:
  assumes "room_ok pool ps" "i < length ps" "\<not> p_sleeps p" "\<not> p_woken p" "nentries pool' = nentries pool + (if p_woken (ps ! i) then 1 else 0) \<or> \<not> p_woken (ps ! i) \<and> nentries pool \<le> nentries pool'"
    "capacity pool' = capacity pool" "queue_closed pool' = queue_closed pool"
  shows "room_ok pool' (ps[i := p])"
proof -
  have "length (filter p_woken (ps[i := p])) + (if p_woken (ps ! i) then 1 else 0) = length (filter p_woken ps)"
    using filter_update(1) [OF assms(2), of p_woken p] assms(4) by simp
  moreover have "\<exists>q \<in> set ps. p_sleeps q" if "\<exists>q \<in> set (ps[i := p]). p_sleeps q" using that in_set_update [of _ ps i p] assms(3) by blast
  ultimately show ?thesis using assms(1,5-7) by (auto simp: room_ok_def split: if_splits)
qed

lemma producers_worker:
  assumes "producers_ok s" "tp s' = tp s" "producers s' = producers s" "destroyer s' = destroyer s"
  shows "producers_ok s'"
  using assms(1) unfolding producers_ok_def assms(2-4) .

lemma producers_ok_step: "tp_step ev s s' \<Longrightarrow> slots_ok s \<Longrightarrow> sync_ok s \<Longrightarrow> producers_ok s \<Longrightarrow> producers_ok s'"
proof (induction rule: tp_step.induct)
  case (worker_take i s r pool)
  have ok: "tpool_ok (tp s)" using worker_take.prems(1) by (simp add: slots_ok_def)
  have "block_when_full pool = block_when_full (tp s)" "room_ok pool = room_ok (tp s)"
    using ok worker_take.hyps(3) by (rule exec_take_cases; simp add: room_ok_def fun_eq_iff)+
  then show ?case using worker_take.prems(3) by (simp add: producers_ok_def)
next
  case (worker_finish i s k j notfull drained pool ps)
  let ?q = "tp_queue (tp s)"
  have ok: "tpool_ok (tp s)" "owners_ok (map runs_slot (workers s)) ?q" using worker_finish.prems(1) by (simp_all add: slots_ok_def)
  have o: "i < length (map runs_slot (workers s))" "map runs_slot (workers s) ! i = Some (k, j)" using worker_finish.hyps(1,2) by simp_all
  have k: "k < capacity (tp s)" "wk_state (?q ! k) = SLOT_RUNNING" using owners_okD(1,2) [OF ok(2) o] ok(1) by (simp_all add: tpool_ok_def)
  note f = exec_finish_spec [OF ok(1) k]
  have p: "pool = (tp s)\<lparr>tp_queue := ?q[k := (?q ! k)\<lparr>wk_state := SLOT_UNUSED\<rparr>], nentries := nentries (tp s) - 1\<rparr>" "notfull = block_when_full (tp s)"
    using f(1) worker_finish.hyps(3) by simp_all
  have each: "\<forall>p \<in> set (producers s). p_ok (block_when_full (tp s)) (destroyer s) p" "room_ok (tp s) (producers s)" using worker_finish.prems(3) by (simp_all add: producers_ok_def)
  have "\<forall>p \<in> set ps. p_ok (block_when_full (tp s)) (destroyer s) p"
  proof (cases "ps = producers s")
    case False
    then obtain m where "m < length (producers s)" "ps = (producers s)[m := p_wake (producers s ! m)]" using worker_finish.hyps(4) by (auto simp: signal_one_def split: if_splits)
    then show ?thesis using each(1) in_set_update [of _ "producers s" m "p_wake (producers s ! m)"] p_ok_wake by (metis nth_mem)
  qed (use each in simp)
  moreover have "room_ok pool ps"
  proof (cases "block_when_full (tp s)")
    case True
    then have sg: "signal_producers (producers s) ps" using worker_finish.hyps(4) p(2) by simp
    show ?thesis using p(1) by (intro room_finish [OF each(2) sg f(2) in_use_bounds(1) [OF ok(1)]]) simp_all
  next
    case False
    then have "\<not> p_sleeps x" if "x \<in> set ps" for x using worker_finish.hyps(4) p(2) each(1) that p_ok_sleeps by auto
    then show ?thesis by (auto simp: room_ok_def)
  qed
  ultimately show ?case using p(1) p_ok_d_wake by (auto simp: producers_ok_def)
next
  case (producer_call j s)
  then show ?case by (auto simp: producers_ok_def room_ok_def p_ok_def)
next
  case (producer_add i s j r pool ws)
  have ok: "tpool_ok (tp s)" using producer_add.prems(1) by (simp add: slots_ok_def)
  have each: "\<forall>p \<in> set (producers s). p_ok (block_when_full (tp s)) (destroyer s) p" "room_ok (tp s) (producers s)" using producer_add.prems(3) by (simp_all add: producers_ok_def)
  have pi: "p_ok (block_when_full (tp s)) (destroyer s) (producers s ! i)" using each(1) producer_add.hyps(1) by simp
  have upd: "\<forall>q \<in> set ((producers s)[i := p]). p_ok (block_when_full (tp s)) (destroyer s) q" if "p_ok (block_when_full (tp s)) (destroyer s) p" for p
    using each(1) that in_set_update [of _ "producers s" i p] by blast
  have a: "add_enter (tp s) j = Some (r, pool) \<or> add_place (tp s) j = Some (r, pool)" using producer_add.hyps(3) by blast
  from ok a show ?case
  proof (rule add_cases)
    fix n
    assume w: "queue_full (tp s)" "\<not> queue_closed (tp s)" "\<not> shutting_down (tp s)" "r = Add_wait" "pool = (tp s)\<lparr>sum_blocked := n\<rparr>"
    have b: "block_when_full (tp s)"
    proof (cases "producers s ! i = P_woken j")
      case True
      then show ?thesis using pi by (simp add: p_ok_def)
    next
      case False
      then show ?thesis using producer_add.hyps(3) w(1,4) by (auto simp: add_enter_def split: if_splits)
    qed
    have "destroyer s \<in> {D_idle, D_start True, D_start False}" using sync_okD(2) [OF producer_add.prems(2)] w(2) by blast
    then have "p_ok (block_when_full (tp s)) (destroyer s) (P_wait j)" using b by (auto simp: p_ok_def)
    moreover have "room_ok pool ps" for ps using w(1,5) by (simp add: room_ok_def queue_full_def)
    ultimately show ?thesis using upd w(4,5) by (simp add: producers_ok_def after_add_def)
  next
    fix n
    assume w: "shutting_down (tp s) \<or> queue_closed (tp s)" "r = Add_closed" "pool = (tp s)\<lparr>sum_blocked := n\<rparr>"
    have "queue_closed (tp s)" using w(1) sync_okD(1,2) [OF producer_add.prems(2)] by auto
    then have "room_ok pool ps" for ps using w(3) by (simp add: room_ok_def)
    then show ?thesis using upd [of "P_count r"] w(2,3) by (simp add: producers_ok_def after_add_def p_ok_def)
  next
    assume w: "queue_full (tp s)" "r = Add_nospace" "pool = tp s"
    then have "room_ok pool ps" for ps by (simp add: room_ok_def queue_full_def)
    then show ?thesis using upd [of "P_count r"] w by (simp add: producers_ok_def after_add_def p_ok_def)
  next
    fix k
    assume k: "nentries (tp s) < capacity (tp s)" "r = Add_done (nentries (tp s) = 0)"
      "pool = (tp s)\<lparr>tp_queue := (tp_queue (tp s))[k := \<lparr>wk_state = SLOT_WAITING, wk_job = j\<rparr>], nentries := nentries (tp s) + 1\<rparr>"
    have "room_ok pool ((producers s)[i := P_count r])" using k(3) producer_add.hyps(3) by (intro room_keep [OF each(2) producer_add.hyps(1)]) auto
    then show ?thesis using upd [of "P_count r"] k(2,3) by (simp add: producers_ok_def after_add_def p_ok_def)
  qed
next
  case (producer_count i s r)
  have each: "\<forall>p \<in> set (producers s). p_ok (block_when_full (tp s)) (destroyer s) p" "room_ok (tp s) (producers s)" using producer_count.prems(3) by (simp_all add: producers_ok_def)
  have "p_ok (block_when_full (tp s)) (destroyer s) (producers s ! i)" using each(1) producer_count.hyps(1) by simp
  then have "p_ok (block_when_full (tp s)) (destroyer s) (P_return r)" using producer_count.hyps(3) by (simp add: p_ok_def)
  then have "\<forall>q \<in> set ((producers s)[i := P_return r]). p_ok (block_when_full (tp s)) (destroyer s) q" using each(1) in_set_update [of _ "producers s" i "P_return r"] by blast
  moreover have "room_ok (add_count r (tp s)) ((producers s)[i := P_return r])"
    using producer_count.hyps(3) by (intro room_keep [OF each(2) producer_count.hyps(1)]) simp_all
  ultimately show ?case by (simp add: producers_ok_def)
next
  case (producer_spurious i s j)
  have each: "\<forall>p \<in> set (producers s). p_ok (block_when_full (tp s)) (destroyer s) p" "room_ok (tp s) (producers s)" using producer_spurious.prems(3) by (simp_all add: producers_ok_def)
  have "p_ok (block_when_full (tp s)) (destroyer s) (producers s ! i)" using each(1) producer_spurious.hyps(1) by simp
  then have "p_ok (block_when_full (tp s)) (destroyer s) (P_woken j)" using producer_spurious.hyps(2) by (simp add: p_ok_def)
  then have "\<forall>q \<in> set ((producers s)[i := P_woken j]). p_ok (block_when_full (tp s)) (destroyer s) q" using each(1) in_set_update [of _ "producers s" i "P_woken j"] by blast
  moreover have "length (filter p_woken ((producers s)[i := P_woken j])) = length (filter p_woken (producers s)) + 1"
    using filter_update(1) [OF producer_spurious.hyps(1), of p_woken "P_woken j"] producer_spurious.hyps(2) by simp
  then have "room_ok (tp s) ((producers s)[i := P_woken j])"
    using each(2) producer_spurious.hyps nth_mem [OF producer_spurious.hyps(1)] by (auto simp: room_ok_def intro: bexI [of _ "P_wait j"])
  ultimately show ?case by (simp add: producers_ok_def)
next
  case (destroy_call s finish)
  have "p_ok b (D_start finish) p" if "p_ok b D_idle p" for b and p :: "'a ppc" using that by (cases p; cases finish) (auto simp: p_ok_def)
  then show ?case using destroy_call by (auto simp: producers_ok_def)
next
  case (destroy_closes s finish sleep pool)
  have d: "destroyer s \<in> {D_start True, D_start False, D_woken1}" using destroy_closes.hyps(1) by (cases finish) auto
  have each: "\<forall>p \<in> set (producers s). p_ok (block_when_full (tp s)) (destroyer s) p" using destroy_closes.prems(3) by (simp add: producers_ok_def)
  have pl: "pool = (tp s)\<lparr>queue_closed := True\<rparr>" using destroy_closes.hyps(2) by (simp add: destroy_close_def)
  have "p_ok b D_relock p" if "p_ok b d' p" "\<not> p_sleeps p" for b d' and p :: "'a ppc" using that by (cases p) (auto simp: p_ok_def)
  then have "\<forall>p \<in> set (wake_producers (producers s)). p_ok (block_when_full (tp s)) D_relock p"
    using each by (auto simp: broadcast_def intro: p_ok_wake [of _ "destroyer s"])
  moreover have "p_ok b D_wait1 p" if "p_ok b d' p" for b d' and p :: "'a ppc" using that by (cases p) (auto simp: p_ok_def)
  ultimately show ?case using each pl by (auto simp: producers_ok_def room_ok_def)
next
  case (destroy_shuts s sleep pool)
  have "p_ok b d' p" if "p_ok b D_relock p" for b d' and p :: "'a ppc" using that by (cases p) (auto simp: p_ok_def)
  then show ?case using destroy_shuts by (auto simp: producers_ok_def room_ok_def destroy_shut_def split: if_splits)
next
  case (destroy_spurious s)
  then show ?case using p_ok_d_wake by (auto simp: producers_ok_def)
next
  case (destroy_frees s)
  have "p_ok b d' p" if "p_ok b D_join p" for b d' and p :: "'a ppc" using that by (cases p) (auto simp: p_ok_def)
  then show ?case using destroy_frees by (auto simp: producers_ok_def)
qed (rule producers_worker; simp)+

subsection \<open>Runs of the system\<close>

definition tsys_start :: "'p threadpool \<Rightarrow> nat \<Rightarrow> dpc \<Rightarrow> 'p tsys" where
  "tsys_start pool n d = \<lparr>tp = pool, workers = replicate n W_lock, producers = [], destroyer = d, calls = [], accepted = {#}, completed = {#}\<rparr>"

definition tsys_ok :: "'p tsys \<Rightarrow> bool" where
  "tsys_ok s \<longleftrightarrow> slots_ok s \<and> sync_ok s \<and> producers_ok s"

lemma alloc_chain:
  "threadpool_new nw cap block inits created a = Some (New_pool pool n, a') \<or> threadpool_new nw cap block inits created a = Some (New_destroy pool n, a') \<Longrightarrow>
   0 < nw \<and> 0 < cap \<and> n = min nw created \<and> pool = \<lparr>nworkers = nw, capacity = cap, nentries = 0, tp_queue = replicate cap \<lparr>wk_state = SLOT_UNUSED, wk_job = null_job\<rparr>,
     queue_closed = False, shutting_down = False, block_when_full = block, sum_work_added = 0, sum_blocked = 0, sum_discarded = 0\<rparr>"
  by (auto simp: threadpool_new_def Let_def split: if_splits prod.splits bool.splits)

lemma start_ok:
  assumes "threadpool_new nw cap block inits created a = Some (New_pool pool n, a') \<and> d = D_idle \<or>
    threadpool_new nw cap block inits created a = Some (New_destroy pool n, a') \<and> d = D_start False" "cap < SIZE_MOD"
  shows "tsys_ok (tsys_start pool n d)"
proof -
  have p: "0 < cap" "pool = \<lparr>nworkers = nw, capacity = cap, nentries = 0, tp_queue = replicate cap \<lparr>wk_state = SLOT_UNUSED, wk_job = null_job\<rparr>,
     queue_closed = False, shutting_down = False, block_when_full = block, sum_work_added = 0, sum_blocked = 0, sum_discarded = 0\<rparr>"
    using alloc_chain assms(1) by blast+
  have "filter in_use (tp_queue pool) = []" using p by (simp add: in_use_def)
  then have "tpool_ok pool" "queue_jobs pool = {#}" using p assms(2) by (simp_all add: tpool_ok_def queue_jobs_def)
  moreover have "owners_ok (map runs_slot (replicate n W_lock)) (tp_queue pool)" using p by (simp add: owners_ok_def slot_states)
  moreover have "d \<in> {D_idle, D_start False}" using assms(1) by blast
  ultimately show ?thesis using p(2) by (auto simp: tsys_ok_def tsys_start_def slots_ok_def sync_ok_def producers_ok_def room_ok_def)
qed

lemma tsys_ok_step: "tsys_ok s \<Longrightarrow> tp_step ev s s' \<Longrightarrow> tsys_ok s'"
  using slots_ok_step sync_ok_step producers_ok_step unfolding tsys_ok_def by blast

lemma tsys_ok_reach: "tp_reach s0 s \<Longrightarrow> tsys_ok s0 \<Longrightarrow> tsys_ok s"
  by (induction rule: tp_reach.induct) (auto intro: tsys_ok_step)

lemma tp_reach_trans: "tp_reach s1 s2 \<Longrightarrow> tp_reach s0 s1 \<Longrightarrow> tp_reach s0 s2"
  by (induction rule: tp_reach.induct) (auto intro: reach_step)

lemma tp_reach_one: "tp_step ev s s' \<Longrightarrow> tp_reach s s'"
  by (rule reach_step [OF reach_refl])

subsection \<open>Draining the queue\<close>

fun calls_left :: "'p wpc \<Rightarrow> nat" where
  "calls_left (W_init k j) = 4"
| "calls_left (W_work k j) = 3"
| "calls_left (W_clean k j) = 2"
| "calls_left (W_done k j) = 1"
| "calls_left _ = 0"

definition is_waiting :: "'p work \<Rightarrow> bool" where
  "is_waiting w \<longleftrightarrow> wk_state w = SLOT_WAITING"

definition work_left :: "'p tsys \<Rightarrow> nat" where
  "work_left s = sum_list (map calls_left (workers s)) + 5 * length (filter is_waiting (tp_queue (tp s)))"

lemma calls_left_update:
  assumes "i < length ws"
  shows "sum_list (map calls_left (ws[i := w])) + calls_left (ws ! i) = sum_list (map calls_left ws) + calls_left w"
proof -
  have "calls_left (ws ! i) \<le> sum_list (map calls_left ws)" using assms by (metis elem_le_sum_list length_map nth_map)
  then show ?thesis using assms sum_list_update [of i "map calls_left ws" "calls_left w"] by (simp add: map_update)
qed

lemma leftI:
  "tp_step (Worker i) s s' \<Longrightarrow> work_left s' < work_left s \<Longrightarrow> accepted s' = accepted s \<Longrightarrow> length (workers s') = length (workers s) \<Longrightarrow>
   \<exists>s'. tp_step (Worker i) s s' \<and> work_left s' < work_left s \<and> accepted s' = accepted s \<and> length (workers s') = length (workers s)"
  by blast

lemma signal_one_ex: "\<exists>ts'. signal_one P f ts ts'"
  by (cases "\<exists>t \<in> set ts. P t") (auto simp: signal_one_def in_set_conv_nth)

lemma d_wake_idle [simp]: "d_wake d = D_idle \<longleftrightarrow> d = D_idle" "d_wake d = D_freed \<longleftrightarrow> d = D_freed"
  by (cases d; simp)+

lemma owner_step:
  assumes "tsys_ok s" "i < length (workers s)" "runs_slot (workers s ! i) = Some (k, j)"
  shows "\<exists>s'. tp_step (Worker i) s s' \<and> work_left s' < work_left s \<and> accepted s' = accepted s \<and> length (workers s') = length (workers s)"
proof -
  let ?q = "tp_queue (tp s)"
  have ok: "tpool_ok (tp s)" "owners_ok (map runs_slot (workers s)) ?q" using assms(1) by (simp_all add: tsys_ok_def slots_ok_def)
  have o: "i < length (map runs_slot (workers s))" "map runs_slot (workers s) ! i = Some (k, j)" using assms(2,3) by simp_all
  have k: "k < length ?q" "?q ! k = \<lparr>wk_state = SLOT_RUNNING, wk_job = j\<rparr>" using owners_okD(1,2) [OF ok(2) o] .
  then have kc: "k < capacity (tp s)" "wk_state (?q ! k) = SLOT_RUNNING" using ok(1) by (simp_all add: tpool_ok_def)
  have g: "get_at ?q k = Some (?q ! k)" using k(1) by (simp add: get_at_def)
  note u = calls_left_update [OF assms(2)]
  show ?thesis
  proof (cases "workers s ! i")
    case (W_init k' j')
    then have "tp_step (Worker i) s (s\<lparr>workers := (workers s)[i := W_work k j], calls := calls s @ fst (exec_init success (wk_job (?q ! k)))\<rparr>)"
      using worker_init [OF assms(2), of k j "?q ! k" success "fst (exec_init success (wk_job (?q ! k)))" success] assms(3) g by (simp add: exec_init_def split: option.split)
    then show ?thesis by (rule leftI) (use u [of "W_work k j"] W_init in \<open>simp_all add: work_left_def\<close>)
  next
    case (W_work k' j')
    then have "tp_step (Worker i) s (s\<lparr>workers := (workers s)[i := W_clean k j], calls := calls s @ exec_work (wk_job (?q ! k))\<rparr>)"
      using worker_work [OF assms(2), of k j "?q ! k"] assms(3) g by simp
    then show ?thesis by (rule leftI) (use u [of "W_clean k j"] W_work in \<open>simp_all add: work_left_def\<close>)
  next
    case (W_clean k' j')
    then have "tp_step (Worker i) s (s\<lparr>workers := (workers s)[i := W_done k j], calls := calls s @ exec_cleanup (wk_job (?q ! k))\<rparr>)"
      using worker_clean [OF assms(2), of k j "?q ! k"] assms(3) g by simp
    then show ?thesis by (rule leftI) (use u [of "W_done k j"] W_clean in \<open>simp_all add: work_left_def\<close>)
  next
    case (W_done k' j')
    let ?w = "(?q ! k)\<lparr>wk_state := SLOT_UNUSED\<rparr>"
    obtain ps where ps: "signal_producers (producers s) ps" using signal_one_ex by blast
    note f = exec_finish_spec(1) [OF ok(1) kc]
    have st: "tp_step (Worker i) s (s\<lparr>tp := (tp s)\<lparr>tp_queue := ?q[k := ?w], nentries := nentries (tp s) - 1\<rparr>, workers := (workers s)[i := W_lock],
        producers := if block_when_full (tp s) then ps else producers s, destroyer := if nentries (tp s) = 1 then d_wake (destroyer s) else destroyer s,
        completed := add_mset j (completed s)\<rparr>)"
      using worker_finish [OF assms(2) _ f] W_done assms(3) ps by simp
    have len: "length (filter is_waiting (?q[k := ?w])) = length (filter is_waiting ?q)"
      using filter_update(1) [OF k(1), of is_waiting ?w] kc(2) by (simp add: is_waiting_def slot_states)
    show ?thesis by (rule leftI [OF st]) (use u [of W_lock] W_done len in \<open>simp_all add: work_left_def\<close>)
  qed (use assms(3) in simp_all)
qed

lemma progress:
  assumes "tsys_ok s" "0 < nentries (tp s)" "workers s \<noteq> []"
  shows "\<exists>i s'. tp_step (Worker i) s s' \<and> work_left s' < work_left s \<and> accepted s' = accepted s \<and> length (workers s') = length (workers s)"
proof -
  let ?q = "tp_queue (tp s)"
  have ok: "tpool_ok (tp s)" "owners_ok (map runs_slot (workers s)) ?q" "sync_ok s" using assms(1) by (simp_all add: tsys_ok_def slots_ok_def)
  have l: "length ?q = capacity (tp s)" using ok(1) by (simp add: tpool_ok_def)
  show ?thesis
  proof (cases "\<exists>i < length (workers s). runs_slot (workers s ! i) \<noteq> None")
    case True
    then show ?thesis using owner_step [OF assms(1)] by fastforce
  next
    case False
    have norun: "wk_state (?q ! m) \<noteq> SLOT_RUNNING" if "m < length ?q" for m using ok(2) that False unfolding owners_ok_def by fastforce
    obtain m where m: "m < capacity (tp s)" "in_use (?q ! m)" using in_use_bounds(3) [OF ok(1) assms(2)] by blast
    have mw: "wk_state (?q ! m) = SLOT_WAITING" using ok(1) m norun [of m] nth_mem [of m ?q] l by (auto simp: tpool_ok_def in_use_def)
    obtain i where i: "i < length (workers s)" "workers s ! i \<noteq> W_wait" using sync_okD(8) [OF ok(3) assms(2,3)] by (auto simp: in_set_conv_nth)
    have "workers s ! i \<noteq> W_exit" using sync_okD(3,5) [OF ok(3)] assms(2) nth_mem [OF i(1)] by fastforce
    then have lock: "workers s ! i = W_lock" using i False by (cases "workers s ! i") fastforce+
    obtain k where k: "slot_loop SLOT_WAITING 0 (capacity (tp s)) ?q = Some (Some k)" "k < capacity (tp s)" "wk_state (?q ! k) = SLOT_WAITING"
      by (rule find_slot [OF ok(1), of SLOT_WAITING]) (use m mw in auto)
    let ?w = "(?q ! k)\<lparr>wk_state := SLOT_RUNNING\<rparr>"
    let ?pool = "(tp s)\<lparr>tp_queue := ?q[k := ?w]\<rparr>"
    have "exec_take (tp s) = Some (Take_slot k, ?pool)" unfolding exec_take_spec [OF ok(1)] using k assms(2) by simp
    then have "tp_step (Worker i) s (s\<lparr>tp := ?pool, workers := (workers s)[i := after_take (Take_slot k) ?pool]\<rparr>)" by (rule worker_take [OF i(1) lock])
    note st = this
    have len: "length (filter is_waiting (?q[k := ?w])) + 1 = length (filter is_waiting ?q)"
      using filter_update(1) [of k ?q is_waiting ?w] k(2,3) l by (simp add: is_waiting_def slot_states)
    have sm: "sum_list (map calls_left ((workers s)[i := after_take (Take_slot k) ?pool])) = sum_list (map calls_left (workers s)) + 4"
      using calls_left_update [OF i(1), of "after_take (Take_slot k) ?pool"] lock by (simp add: after_take_def)
    show ?thesis by (intro exI [of _ i] leftI [OF st]) (use len sm in \<open>simp_all add: work_left_def\<close>)
  qed
qed

lemma drains:
  assumes "tsys_ok s" "workers s \<noteq> []"
  shows "\<exists>s'. tp_reach s s' \<and> tsys_ok s' \<and> nentries (tp s') = 0 \<and> accepted s' = accepted s \<and> length (workers s') = length (workers s) \<and> (destroyer s \<noteq> D_idle \<longrightarrow> destroyer s' \<noteq> D_idle)"
  using assms
proof (induction "work_left s" arbitrary: s rule: less_induct)
  case less
  show ?case
  proof (cases "nentries (tp s) = 0")
    case True
    then show ?thesis using less.prems reach_refl by blast
  next
    case False
    then obtain i s1 where s1: "tp_step (Worker i) s s1" "work_left s1 < work_left s" "accepted s1 = accepted s" "length (workers s1) = length (workers s)"
      using progress [OF less.prems(1) _ less.prems(2)] by auto
    have d: "destroyer s \<noteq> D_idle \<Longrightarrow> destroyer s1 \<noteq> D_idle" using s1(1) by (cases rule: tp_stepE) (auto split: if_splits)
    have "workers s1 \<noteq> []" using s1(4) less.prems(2) by auto
    then obtain s' where s': "tp_reach s1 s'" "tsys_ok s'" "nentries (tp s') = 0" "accepted s' = accepted s1" "length (workers s') = length (workers s1)"
      "destroyer s1 \<noteq> D_idle \<longrightarrow> destroyer s' \<noteq> D_idle"
      using less.hyps [OF s1(2) tsys_ok_step [OF less.prems(1) s1(1)]] by blast
    then show ?thesis using tp_reach_trans [OF s'(1) tp_reach_one [OF s1(1)]] s1 d by auto
  qed
qed

subsection \<open>The end of the pool\<close>

lemma exits:
  assumes "tsys_ok s" "destroyer s = D_join"
  shows "\<exists>s'. tp_reach s s' \<and> destroyer s' = D_freed"
  using assms
proof (induction "length (filter (\<lambda>w. w \<noteq> W_exit) (workers s))" arbitrary: s rule: less_induct)
  case less
  show ?case
  proof (cases "\<forall>w \<in> set (workers s). w = W_exit")
    case True
    then show ?thesis using tp_reach_one [OF destroy_frees [OF less.prems(2)]] by fastforce
  next
    case False
    then obtain i where i: "i < length (workers s)" "workers s ! i \<noteq> W_exit" by (auto simp: in_set_conv_nth)
    have ok: "tpool_ok (tp s)" "owners_ok (map runs_slot (workers s)) (tp_queue (tp s))" "sync_ok s" using less.prems(1) by (simp_all add: tsys_ok_def slots_ok_def)
    have sd: "shutting_down (tp s)" "nentries (tp s) = 0" "W_wait \<notin> set (workers s)" using sync_okD(1,3,4) [OF ok(3)] less.prems(2) by simp_all
    have "runs_slot (workers s ! i) = None"
    proof (rule ccontr)
      assume "runs_slot (workers s ! i) \<noteq> None"
      then obtain k j where "map runs_slot (workers s) ! i = Some (k, j)" using i(1) by auto
      then have "k < capacity (tp s)" "in_use (tp_queue (tp s) ! k)" using owners_okD(1,2) [OF ok(2), of i k j] i(1) ok(1) by (simp_all add: tpool_ok_def in_use_def slot_states)
      then show False using in_use_bounds(4) [OF ok(1)] sd(2) by fastforce
    qed
    moreover have "workers s ! i \<noteq> W_wait" using sd(3) nth_mem [OF i(1)] by metis
    ultimately have lock: "workers s ! i = W_lock" using i(2) by (cases "workers s ! i") simp_all
    let ?s = "s\<lparr>workers := (workers s)[i := W_exit]\<rparr>"
    have "exec_take (tp s) = Some (Take_exit, tp s)" unfolding exec_take_spec [OF ok(1)] using sd by simp
    then have st: "tp_step (Worker i) s ?s" using worker_take [OF i(1) lock, of Take_exit "tp s"] by (simp add: after_take_def)
    have "length (filter (\<lambda>w. w \<noteq> W_exit) (workers ?s)) < length (filter (\<lambda>w. w \<noteq> W_exit) (workers s))"
      using filter_update(1) [OF i(1), of "\<lambda>w. w \<noteq> W_exit" W_exit] i(2) by simp
    then obtain s' where "tp_reach ?s s'" "destroyer s' = D_freed" using less.hyps [OF _ tsys_ok_step [OF less.prems(1) st]] less.prems(2) by auto
    then show ?thesis using tp_reach_trans [OF _ tp_reach_one [OF st]] by blast
  qed
qed

lemma shuts:
  assumes "tsys_ok s" "destroyer s = D_relock" "nentries (tp s) = 0"
  shows "\<exists>s'. tp_reach s s' \<and> destroyer s' = D_freed"
proof -
  let ?s = "s\<lparr>tp := (tp s)\<lparr>shutting_down := True\<rparr>, destroyer := D_join, workers := wake_workers (workers s)\<rparr>"
  have st: "tp_step Destroyer s ?s" using destroy_shuts [OF assms(2), of False "(tp s)\<lparr>shutting_down := True\<rparr>"] assms(3) by (simp add: destroy_shut_def queue_empty_def)
  then show ?thesis using exits [OF tsys_ok_step [OF assms(1) st]] tp_reach_trans [OF _ tp_reach_one [OF st]] by auto
qed

lemma destroys:
  assumes "tsys_ok s" "destroyer s \<noteq> D_idle" "nentries (tp s) = 0"
  shows "\<exists>s'. tp_reach s s' \<and> destroyer s' = D_freed"
proof -
  have close: ?thesis if "destroyer s = D_start finish \<or> destroyer s = D_woken1 \<and> finish" for finish
  proof -
    let ?s = "s\<lparr>tp := (tp s)\<lparr>queue_closed := True\<rparr>, destroyer := D_relock, workers := wake_workers (workers s), producers := wake_producers (producers s)\<rparr>"
    have st: "tp_step Destroyer s ?s" using destroy_closes [OF that, of False "(tp s)\<lparr>queue_closed := True\<rparr>"] assms(3) by (simp add: destroy_close_def queue_empty_def)
    then show ?thesis using shuts [OF tsys_ok_step [OF assms(1) st]] assms(3) tp_reach_trans [OF _ tp_reach_one [OF st]] by auto
  qed
  have nw: "destroyer s \<notin> {D_wait1, D_wait2}" using sync_okD(6) [of s] assms(1,3) by (auto simp: tsys_ok_def)
  show ?thesis
  proof (cases "destroyer s")
    case (D_start finish)
    then show ?thesis using close by blast
  next
    case D_woken1
    then show ?thesis using close [of True] by blast
  next
    case D_relock
    then show ?thesis using shuts assms by blast
  next
    case D_join
    then show ?thesis using exits assms(1) by blast
  next
    case D_freed
    then show ?thesis using reach_refl by blast
  qed (use assms(2) nw in simp_all)
qed

subsection \<open>Correctness of the pool\<close>

text \<open>
  C6. In every run of the pool, with any number of producers and any interleaving: at most \<open>capacity\<close> slots are in use; every job whose
  addition was reported as a success is in exactly one of the queue and the completed jobs, so none is lost and none is run twice; every running
  slot belongs to exactly one worker, and what that worker calls is the job it has taken, though it reads the slot without the lock; a
  free slot is always found when the queue is not full; and when the pool has been freed all its threads have ended and all jobs are completed.
\<close>

theorem threadpool_invariant:
  assumes "threadpool_new nw cap block inits created a = Some (New_pool pool n, a')" "cap < SIZE_MOD" "tp_reach (tsys_start pool n D_idle) s"
  shows "nentries (tp s) \<le> capacity (tp s) \<and> accepted s = queue_jobs (tp s) + completed s \<and>
    (\<forall>k < capacity (tp s). wk_state (tp_queue (tp s) ! k) = SLOT_RUNNING \<longrightarrow> (\<exists>!i. i < length (workers s) \<and> (\<exists>j. runs_slot (workers s ! i) = Some (k, j)))) \<and>
    (\<forall>i k j s'. i < length (workers s) \<and> workers s ! i = W_work k j \<and> tp_step (Worker i) s s' \<longrightarrow> calls s' = calls s @ exec_work j) \<and>
    (\<forall>p \<in> set (producers s). p \<noteq> P_return Add_noslot) \<and>
    (destroyer s = D_freed \<longrightarrow> (\<forall>w \<in> set (workers s). w = W_exit) \<and> completed s = accepted s)"
proof -
  have ok: "tsys_ok s" using tsys_ok_reach [OF assms(3)] start_ok [of nw cap block inits created a pool n a' D_idle] assms(1,2) by blast
  then have c: "tpool_ok (tp s)" "owners_ok (map runs_slot (workers s)) (tp_queue (tp s))" "accepted s = queue_jobs (tp s) + completed s" "sync_ok s" "producers_ok s"
    by (simp_all add: tsys_ok_def slots_ok_def)
  have l: "length (tp_queue (tp s)) = capacity (tp s)" using c(1) by (simp add: tpool_ok_def)
  have own: "\<exists>!i. i < length (workers s) \<and> (\<exists>j. runs_slot (workers s ! i) = Some (k, j))" if "k < capacity (tp s)" "wk_state (tp_queue (tp s) ! k) = SLOT_RUNNING" for k
  proof -
    have "\<exists>i < length (map runs_slot (workers s)). \<exists>j. map runs_slot (workers s) ! i = Some (k, j)" using c(2) that l unfolding owners_ok_def by simp
    then obtain i j where i: "i < length (workers s)" "runs_slot (workers s ! i) = Some (k, j)" by auto
    show ?thesis
    proof (rule ex1I [of _ i])
      show "i < length (workers s) \<and> (\<exists>j. runs_slot (workers s ! i) = Some (k, j))" using i by simp
      show "i' = i" if "i' < length (workers s) \<and> (\<exists>j. runs_slot (workers s ! i') = Some (k, j))" for i'
        using owners_okD(3) [OF c(2), of i k j i'] i that by auto
    qed
  qed
  have call: "calls s' = calls s @ exec_work j" if "i < length (workers s)" "workers s ! i = W_work k j" "tp_step (Worker i) s s'" for i k j s'
    using that(3) owners_okD(2) [OF c(2), of i k j] that(1,2) by (cases rule: tp_stepE) (auto simp: get_at_def split: if_splits)
  have noslot: "\<forall>p \<in> set (producers s). p \<noteq> P_return Add_noslot" using c(5) by (auto simp: producers_ok_def p_ok_def)
  have freed: "(\<forall>w \<in> set (workers s). w = W_exit) \<and> completed s = accepted s" if "destroyer s = D_freed"
  proof -
    have "nentries (tp s) = 0" using sync_okD(1,3) [OF c(4)] that by simp
    then have "queue_jobs (tp s) = {#}" using c(1) by (simp add: queue_jobs_def tpool_ok_def)
    then show ?thesis using sync_okD(7) [OF c(4) that] c(3) by simp
  qed
  show ?thesis using in_use_bounds(1) [OF c(1)] c(3) own call noslot freed by blast
qed


text \<open>Small pools, and what the steps of a run of them compute.\<close>

definition small_pool :: "nat \<Rightarrow> nat \<Rightarrow> nat threadpool" where
  "small_pool nw cap = \<lparr>nworkers = nw, capacity = cap, nentries = 0, tp_queue = replicate cap \<lparr>wk_state = SLOT_UNUSED, wk_job = null_job\<rparr>,
     queue_closed = False, shutting_down = False, block_when_full = True, sum_work_added = 0, sum_blocked = 0, sum_discarded = 0\<rparr>"

definition job_a :: "nat job" where "job_a = null_job\<lparr>workfn := Some 1\<rparr>"
definition job_b :: "nat job" where "job_b = null_job\<lparr>workfn := Some 2\<rparr>"

lemma szt_one: "szt (Suc 0) = Suc 0" "szt (Suc (Suc 0)) = Suc (Suc 0)"
  by (simp_all add: szt_def SIZE_MOD_def)

lemma signal_none: "(\<forall>t \<in> set ts. \<not> P t) \<Longrightarrow> signal_one P f ts ts' \<longleftrightarrow> ts' = ts"
  by (auto simp: signal_one_def)

lemmas run_simps = small_pool_def tsys_start_def exec_take_def queue_empty_def queue_full_def after_take_def add_enter_def add_place_def get_at_def put_at_def
  after_add_def slot_states szt_one signal_none

lemma small_pool_new: "threadpool_new 2 2 True E0 2 no_oom = Some (New_pool (small_pool 2 2) 2, no_oom)"
proof -
  have t: "try_alloc k no_oom = (True, no_oom)" if "k \<le> 272" for k using try_alloc_no_oom [of no_oom k] that by (simp add: no_oom_def PTRDIFF_MAX_def)
  have "alloc_slots 2 no_oom = (True, no_oom)" using t [of 56] by (simp add: numeral_2_eq_2)
  then show ?thesis using t by (simp add: threadpool_new_def small_pool_def)
qed

lemma wake_first: "signal_workers (W_wait # ws) (W_lock # ws)"
  by (auto simp: signal_one_def intro: exI [of _ 0])

lemma run_sleeping:
  "\<exists>s. tp_reach (tsys_start (small_pool 2 2) 2 D_idle) s \<and> workers s = [W_init 0 job_a, W_wait] \<and> map wk_state (tp_queue (tp s)) = [SLOT_RUNNING, SLOT_WAITING] \<and> nentries (tp s) = 2 \<and> destroyer s = D_idle"
proof -
  let ?s0 = "tsys_start (small_pool 2 2) 2 D_idle"
  let ?s2 = "?s0\<lparr>workers := [W_wait, W_wait]\<rparr>"
  have r1: "tp_reach ?s0 (?s0\<lparr>workers := [W_wait, W_lock]\<rparr>)"
    using tp_reach_one [OF worker_take [of 0 ?s0 Take_wait "small_pool 2 2"]] by (simp add: run_simps numeral_2_eq_2)
  have r2: "tp_reach ?s0 ?s2"
    using reach_step [OF r1 worker_take [of 1 _ Take_wait "small_pool 2 2"]] by (simp add: run_simps numeral_2_eq_2)
  have r3: "tp_reach ?s0 (?s2\<lparr>producers := [P_start job_a]\<rparr>)"
    using reach_step [OF r2 producer_call [of job_a]] by (simp add: run_simps job_a_def)
  let ?p1 = "(small_pool 2 2)\<lparr>nentries := 1, tp_queue := [\<lparr>wk_state = SLOT_WAITING, wk_job = job_a\<rparr>, \<lparr>wk_state = SLOT_UNUSED, wk_job = null_job\<rparr>]\<rparr>"
  have r4: "tp_reach ?s0 (?s2\<lparr>tp := ?p1, workers := [W_lock, W_wait], producers := [P_count (Add_done True)], accepted := {#job_a#}\<rparr>)"
    using reach_step [OF r3 producer_add [of 0 _ job_a "Add_done True" ?p1 "[W_lock, W_wait]"]] by (simp add: run_simps wake_first numeral_2_eq_2)
  let ?p2 = "(small_pool 2 2)\<lparr>nentries := 1, tp_queue := [\<lparr>wk_state = SLOT_RUNNING, wk_job = job_a\<rparr>, \<lparr>wk_state = SLOT_UNUSED, wk_job = null_job\<rparr>]\<rparr>"
  have r5: "tp_reach ?s0 (?s2\<lparr>tp := ?p2, workers := [W_init 0 job_a, W_wait], producers := [P_count (Add_done True)], accepted := {#job_a#}\<rparr>)"
    using reach_step [OF r4 worker_take [of 0 _ "Take_slot 0" ?p2]] by (simp add: run_simps numeral_2_eq_2)
  have r6: "tp_reach ?s0 (?s2\<lparr>tp := ?p2, workers := [W_init 0 job_a, W_wait], producers := [P_count (Add_done True), P_start job_b], accepted := {#job_a#}\<rparr>)"
    using reach_step [OF r5 producer_call [of job_b]] by (simp add: run_simps job_b_def)
  let ?p3 = "(small_pool 2 2)\<lparr>nentries := 2, tp_queue := [\<lparr>wk_state = SLOT_RUNNING, wk_job = job_a\<rparr>, \<lparr>wk_state = SLOT_WAITING, wk_job = job_b\<rparr>]\<rparr>"
  have r7: "tp_reach ?s0 (?s2\<lparr>tp := ?p3, workers := [W_init 0 job_a, W_wait], producers := [P_count (Add_done True), P_count (Add_done False)], accepted := {#job_b, job_a#}\<rparr>)"
    using reach_step [OF r6 producer_add [of 1 _ job_b "Add_done False" ?p3 "[W_init 0 job_a, W_wait]"]] by (simp add: run_simps numeral_2_eq_2)
  show ?thesis using r7 by (intro exI conjI) (assumption | simp add: tsys_start_def)+
qed

lemma run_race:
  "\<exists>s j. tp_reach (tsys_start (small_pool 1 1) 1 D_idle) s \<and> destroyer s = D_freed \<and> P_woken j \<in> set (producers s)"
proof -
  let ?start = "tsys_start (small_pool 1 1) 1 D_idle"
  let ?p = "\<lambda>n st b cl. (small_pool 1 1)\<lparr>nentries := n, tp_queue := [\<lparr>wk_state = st, wk_job = job_a\<rparr>], sum_blocked := b, queue_closed := cl\<rparr>"
  let ?st = "\<lambda>p w ps d c. ?start\<lparr>tp := p, workers := [w], producers := ps, destroyer := d, calls := c, accepted := {#job_a#}\<rparr>"
  let ?ps = "[P_count (Add_done True), P_woken job_b]" and ?c = "[Call_work (Some 1) None]"
  have r1: "tp_reach ?start (?start\<lparr>producers := [P_start job_a]\<rparr>)"
    using tp_reach_one [OF producer_call [of job_a ?start]] by (simp add: run_simps job_a_def)
  have r2: "tp_reach ?start (?st (?p 1 SLOT_WAITING 0 False) W_lock [P_count (Add_done True)] D_idle [])"
    using reach_step [OF r1 producer_add [of 0 _ job_a "Add_done True" "?p 1 SLOT_WAITING 0 False" "[W_lock]"]] by (simp add: run_simps)
  have r3: "tp_reach ?start (?st (?p 1 SLOT_RUNNING 0 False) (W_init 0 job_a) [P_count (Add_done True)] D_idle [])"
    using reach_step [OF r2 worker_take [of 0 _ "Take_slot 0" "?p 1 SLOT_RUNNING 0 False"]] by (simp add: run_simps)
  have r4: "tp_reach ?start (?st (?p 1 SLOT_RUNNING 0 False) (W_init 0 job_a) [P_count (Add_done True), P_start job_b] D_idle [])"
    using reach_step [OF r3 producer_call [of job_b]] by (simp add: run_simps job_b_def)
  have r5: "tp_reach ?start (?st (?p 1 SLOT_RUNNING 1 False) (W_init 0 job_a) [P_count (Add_done True), P_wait job_b] D_idle [])"
    using reach_step [OF r4 producer_add [of 1 _ job_b Add_wait "?p 1 SLOT_RUNNING 1 False" "[W_init 0 job_a]"]] by (simp add: run_simps)
  have r6: "tp_reach ?start (?st (?p 1 SLOT_RUNNING 1 False) (W_init 0 job_a) [P_count (Add_done True), P_wait job_b] (D_start False) [])"
    using reach_step [OF r5 destroy_call [of _ False]] by (simp add: run_simps)
  have r7: "tp_reach ?start (?st (?p 1 SLOT_RUNNING 1 True) (W_init 0 job_a) ?ps D_relock [])"
    using reach_step [OF r6 destroy_closes [of _ False False "?p 1 SLOT_RUNNING 1 True"]] by (simp add: run_simps destroy_close_def broadcast_def)
  have r8: "tp_reach ?start (?st (?p 1 SLOT_RUNNING 1 True) (W_work 0 job_a) ?ps D_relock [])"
    using reach_step [OF r7 worker_init [of 0 _ 0 job_a "\<lparr>wk_state = SLOT_RUNNING, wk_job = job_a\<rparr>" success "[]" success]]
    by (simp add: run_simps exec_init_def job_a_def null_job_def)
  have r9: "tp_reach ?start (?st (?p 1 SLOT_RUNNING 1 True) (W_clean 0 job_a) ?ps D_relock ?c)"
    using reach_step [OF r8 worker_work [of 0 _ 0 job_a "\<lparr>wk_state = SLOT_RUNNING, wk_job = job_a\<rparr>"]] by (simp add: run_simps exec_work_def job_a_def null_job_def)
  have r10: "tp_reach ?start (?st (?p 1 SLOT_RUNNING 1 True) (W_done 0 job_a) ?ps D_relock ?c)"
    using reach_step [OF r9 worker_clean [of 0 _ 0 job_a "\<lparr>wk_state = SLOT_RUNNING, wk_job = job_a\<rparr>"]] by (simp add: run_simps exec_cleanup_def job_a_def null_job_def)
  have fin: "exec_finish (?p 1 SLOT_RUNNING 1 True) 0 = Some (True, True, ?p 0 SLOT_UNUSED 1 True)"
    using szsub_le [of 1 1] by (simp add: exec_finish_def run_simps SIZE_MOD_def)
  have r11: "tp_reach ?start ((?st (?p 0 SLOT_UNUSED 1 True) W_lock ?ps D_relock ?c)\<lparr>completed := {#job_a#}\<rparr>)"
    using reach_step [OF r10 worker_finish [of 0 _ 0 job_a True True "?p 0 SLOT_UNUSED 1 True" ?ps]] fin by (simp add: run_simps)
  have r12: "tp_reach ?start ((?st ((?p 0 SLOT_UNUSED 1 True)\<lparr>shutting_down := True\<rparr>) W_lock ?ps D_join ?c)\<lparr>completed := {#job_a#}\<rparr>)"
    using reach_step [OF r11 destroy_shuts [of _ False "(?p 0 SLOT_UNUSED 1 True)\<lparr>shutting_down := True\<rparr>"]] by (simp add: run_simps destroy_shut_def broadcast_def)
  have r13: "tp_reach ?start ((?st ((?p 0 SLOT_UNUSED 1 True)\<lparr>shutting_down := True\<rparr>) W_exit ?ps D_join ?c)\<lparr>completed := {#job_a#}\<rparr>)"
    using reach_step [OF r12 worker_take [of 0 _ Take_exit "(?p 0 SLOT_UNUSED 1 True)\<lparr>shutting_down := True\<rparr>"]] by (simp add: run_simps)
  have "tp_reach ?start ((?st ((?p 0 SLOT_UNUSED 1 True)\<lparr>shutting_down := True\<rparr>) W_exit ?ps D_freed ?c)\<lparr>completed := {#job_a#}\<rparr>)"
    using reach_step [OF r13 destroy_frees] by (simp add: tsys_start_def)
  then show ?thesis by (intro exI conjI) (assumption | simp)+
qed

subsection \<open>Witnesses and limits\<close>

theorem threadpool_invariant_witness:
  "\<exists>s. tp_reach (tsys_start (small_pool 2 2) 2 D_idle) s \<and> workers s = [W_init 0 job_a, W_wait] \<and> nentries (tp s) \<le> capacity (tp s) \<and>
    accepted s = queue_jobs (tp s) + completed s"
proof -
  obtain s where s: "tp_reach (tsys_start (small_pool 2 2) 2 D_idle) s" "workers s = [W_init 0 job_a, W_wait]" using run_sleeping by blast
  have c: "(2 :: nat) < SIZE_MOD" by (simp add: SIZE_MOD_def)
  show ?thesis using s threadpool_invariant [OF small_pool_new c s(1), THEN conjunct1] threadpool_invariant [OF small_pool_new c s(1), THEN conjunct2, THEN conjunct1] by blast
qed


text \<open>The steps while there is work in the queue, without wake-ups for no reason and without an end of the pool.\<close>

definition busy_step :: "'p tsys \<Rightarrow> 'p tsys \<Rightarrow> bool" where
  "busy_step s s' \<longleftrightarrow> 0 < nentries (tp s) \<and> (\<exists>ev. ev \<notin> {Spurious, Destroyer} \<and> tp_step ev s s')"

lemma busy_step_sleeper:
  assumes "busy_step s s'" "i < length (workers s)" "workers s ! i = W_wait"
  shows "i < length (workers s') \<and> workers s' ! i = W_wait"
proof -
  obtain ev where st: "0 < nentries (tp s)" "ev \<notin> {Spurious, Destroyer}" "tp_step ev s s'" using assms(1) by (auto simp: busy_step_def)
  have quiet: "r \<noteq> Add_done True" if "add_enter (tp s) j = Some (r, pool) \<or> add_place (tp s) j = Some (r, pool)" for j r pool
    using that st(1) by (auto simp: add_enter_def add_place_def queue_empty_def split: if_splits option.splits bind_splits)
  from st(3) show ?thesis
  proof (cases rule: tp_step.cases)
    case (producer_add i' j r pool ws)
    then have "ws = workers s" using quiet by (auto split: if_splits)
    then show ?thesis using producer_add assms by simp
  qed (use assms st(2) in \<open>auto simp: nth_list_update\<close>)
qed

text \<open>
  C24. \<open>threadpool_add_work\<close> wakes a worker only when it finds no work at all in the pool, running work included. So a worker that
  sleeps stays asleep, unless it wakes up for no reason, for as long as the pool is never without work: jobs wait for the workers that
  are awake though others have nothing to do. There is a run of a pool with two threads in which one thread has begun its job, the second
  job waits, and the other thread sleeps.
\<close>

theorem threadpool_sleepers:
  assumes "busy_step\<^sup>*\<^sup>* s s'" "i < length (workers s)" "workers s ! i = W_wait"
  shows "workers s' ! i = W_wait \<and>
    (\<exists>r. tp_reach (tsys_start (small_pool 2 2) 2 D_idle) r \<and> workers r = [W_init 0 job_a, W_wait] \<and> map wk_state (tp_queue (tp r)) = [SLOT_RUNNING, SLOT_WAITING])"
proof -
  have "i < length (workers s') \<and> workers s' ! i = W_wait" using assms(1)
  proof (induction rule: rtranclp_induct)
    case base
    show ?case using assms(2,3) by simp
  next
    case (step y z)
    then show ?case using busy_step_sleeper by blast
  qed
  moreover obtain r where "tp_reach (tsys_start (small_pool 2 2) 2 D_idle) r" "workers r = [W_init 0 job_a, W_wait]" "map wk_state (tp_queue (tp r)) = [SLOT_RUNNING, SLOT_WAITING]"
    using run_sleeping by (elim exE conjE)
  ultimately show ?thesis by (intro conjI exI [of _ r]) simp_all
qed

theorem threadpool_sleepers_witness:
  "\<exists>s s'. tp_reach (tsys_start (small_pool 2 2) 2 D_idle) s \<and> nentries (tp s) = 2 \<and> busy_step\<^sup>*\<^sup>* s s' \<and> workers s' ! 0 \<noteq> workers s ! 0 \<and> workers s' ! 1 = W_wait"
proof -
  obtain s where s: "tp_reach (tsys_start (small_pool 2 2) 2 D_idle) s" "workers s = [W_init 0 job_a, W_wait]" "nentries (tp s) = 2"
    "map wk_state (tp_queue (tp s)) = [SLOT_RUNNING, SLOT_WAITING]" using run_sleeping by (elim exE conjE)
  obtain w where w: "get_at (tp_queue (tp s)) 0 = Some w" using s(4) by (cases "tp_queue (tp s)") (auto simp: get_at_def)
  obtain cs ok where e: "exec_init undefined (wk_job w) = (cs, ok)" by (cases "exec_init undefined (wk_job w)")
  let ?s = "s\<lparr>workers := (workers s)[0 := if ok then W_work 0 job_a else W_done 0 job_a], calls := calls s @ cs\<rparr>"
  have "tp_step (Worker 0) s ?s" using s(2) w e by (intro worker_init) simp_all
  then have "busy_step s ?s" unfolding busy_step_def using s(3) by (intro conjI exI [of _ "Worker 0"]) simp_all
  then have b: "busy_step\<^sup>*\<^sup>* s ?s" by (rule r_into_rtranclp)
  have "1 < length (workers s)" "workers s ! 1 = W_wait" using s(2) by simp_all
  from threadpool_sleepers [OF b this, THEN conjunct1] have "workers ?s ! 1 = W_wait" .
  moreover have "workers ?s ! 0 \<noteq> workers s ! 0" using s(2) by simp
  ultimately show ?thesis using s(1,3) b by blast
qed

text \<open>
  \<open>threadpool_destroy\<close> waits for the workers and not for the producers it has woken: there is a run of a pool with one thread
  and one slot, which blocks when full, at whose end the pool is freed while a call of \<open>threadpool_add_work\<close> still has to take the lock of it.
\<close>

theorem threadpool_freed_under_producer:
  "\<exists>s j. tp_reach (tsys_start (small_pool 1 1) 1 D_idle) s \<and> destroyer s = D_freed \<and> P_woken j \<in> set (producers s)"
  by (rule run_race)

end
