(* ===== verification/Http_Server.thy ===== *)
theory Http_Server
  imports Response_Send MetaPool MetaMisc
begin

section \<open>The server object\<close>

text \<open>
  Page attributes (\<open>src/http/src/attribute.c\<close>), dynamic pages (\<open>dynamic_page.c\<close>) and the server with its settings, its pages, its
  pools of requests and responses and its log (\<open>http_server.c\<close>). A page function is code of the user: a function of the request and
  the response that returns a status and may change both. The TCP server below is not part of the model.
\<close>

subsection \<open>Page attributes\<close>

record page_attribute =
  at_media_type :: cstring
  at_language :: cstring
  at_charset :: cstring
  at_encoding :: cstring

definition attribute_new :: "allocator \<Rightarrow> (page_attribute option \<times> allocator) option" where
  "attribute_new a = (
     let (ok, a) = try_alloc 32 a in
     if \<not> ok then Some (None, a)
     else do {
       (ok, arr, a) \<leftarrow> cstring_multinew 4 a;
       if \<not> ok then Some (None, a)
       else Some (Some \<lparr>at_media_type = arr ! 0, at_language = arr ! 1, at_charset = arr ! 2, at_encoding = arr ! 3\<rparr>, a) })"

definition attribute_set_media_type :: "page_attribute \<Rightarrow> string \<Rightarrow> allocator \<Rightarrow> (status_t \<times> page_attribute \<times> allocator) option" where
  "attribute_set_media_type p val a = do { (ok, s, a) \<leftarrow> cstring_set (at_media_type p) val a; Some (ok, p\<lparr>at_media_type := s\<rparr>, a) }"

definition attribute_set_language :: "page_attribute \<Rightarrow> string \<Rightarrow> allocator \<Rightarrow> (status_t \<times> page_attribute \<times> allocator) option" where
  "attribute_set_language p val a = do { (ok, s, a) \<leftarrow> cstring_set (at_language p) val a; Some (ok, p\<lparr>at_language := s\<rparr>, a) }"

definition attribute_set_charset :: "page_attribute \<Rightarrow> string \<Rightarrow> allocator \<Rightarrow> (status_t \<times> page_attribute \<times> allocator) option" where
  "attribute_set_charset p val a = do { (ok, s, a) \<leftarrow> cstring_set (at_charset p) val a; Some (ok, p\<lparr>at_charset := s\<rparr>, a) }"

definition attribute_set_encoding :: "page_attribute \<Rightarrow> string \<Rightarrow> allocator \<Rightarrow> (status_t \<times> page_attribute \<times> allocator) option" where
  "attribute_set_encoding p val a = do { (ok, s, a) \<leftarrow> cstring_set (at_encoding p) val a; Some (ok, p\<lparr>at_encoding := s\<rparr>, a) }"

definition attribute_set_authorization :: "page_attribute \<Rightarrow> string \<Rightarrow> status_t" where
  "attribute_set_authorization p val = success"

definition attribute_get_media_type where "attribute_get_media_type p = cstr_at (cs_data (at_media_type p)) 0"
definition attribute_get_language where "attribute_get_language p = cstr_at (cs_data (at_language p)) 0"
definition attribute_get_charset where "attribute_get_charset p = cstr_at (cs_data (at_charset p)) 0"
definition attribute_get_encoding where "attribute_get_encoding p = cstr_at (cs_data (at_encoding p)) 0"

text \<open>The four strings are copied in the order of the code; the first failure frees the copy.\<close>

definition attribute_dup :: "page_attribute \<Rightarrow> allocator \<Rightarrow> (page_attribute option \<times> allocator) option" where
  "attribute_dup p a = do {
     (q, a) \<leftarrow> attribute_new a;
     (case q of
        None \<Rightarrow> Some (None, a)
      | Some q \<Rightarrow> do {
          s \<leftarrow> attribute_get_language p;
          (ok, q, a) \<leftarrow> attribute_set_language q s a;
          if \<not> ok then Some (None, a) else do {
          s \<leftarrow> attribute_get_charset p;
          (ok, q, a) \<leftarrow> attribute_set_charset q s a;
          if \<not> ok then Some (None, a) else do {
          s \<leftarrow> attribute_get_encoding p;
          (ok, q, a) \<leftarrow> attribute_set_encoding q s a;
          if \<not> ok then Some (None, a) else do {
          s \<leftarrow> attribute_get_media_type p;
          (ok, q, a) \<leftarrow> attribute_set_media_type q s a;
          Some (if ok then Some q else None, a) } } } }) }"

subsection \<open>Dynamic pages\<close>

type_synonym handler = "http_request \<Rightarrow> http_response \<Rightarrow> allocator \<Rightarrow> (int \<times> http_request \<times> http_response \<times> allocator) option"

record dynamic_page =
  dp_uri :: cstring
  dp_handlerfn :: handler
  dp_attr :: "page_attribute option"

definition dynamic_new :: "string \<Rightarrow> handler \<Rightarrow> page_attribute option \<Rightarrow> allocator \<Rightarrow> (dynamic_page option \<times> allocator) option" where
  "dynamic_new uri handlerfn attr a = (
     let (ok, a) = try_alloc 24 a in
     if \<not> ok then Some (None, a)
     else do {
       (s, a) \<leftarrow> cstring_dup uri a;
       (case s of
          None \<Rightarrow> Some (None, a)
        | Some s \<Rightarrow>
            (case attr of
               None \<Rightarrow> Some (Some \<lparr>dp_uri = s, dp_handlerfn = handlerfn, dp_attr = None\<rparr>, a)
             | Some attr \<Rightarrow> do {
                 (q, a) \<leftarrow> attribute_dup attr a;
                 Some (case q of None \<Rightarrow> None | Some q \<Rightarrow> Some \<lparr>dp_uri = s, dp_handlerfn = handlerfn, dp_attr = Some q\<rparr>, a) })) })"

definition dynamic_get_uri :: "dynamic_page \<Rightarrow> string option" where
  "dynamic_get_uri p = cstr_at (cs_data (dp_uri p)) 0"

definition dynamic_set_uri :: "dynamic_page \<Rightarrow> string \<Rightarrow> allocator \<Rightarrow> (status_t \<times> dynamic_page \<times> allocator) option" where
  "dynamic_set_uri p val a = do { (ok, s, a) \<leftarrow> cstring_set (dp_uri p) val a; Some (ok, p\<lparr>dp_uri := s\<rparr>, a) }"

definition dynamic_set_handler where "dynamic_set_handler p f = p\<lparr>dp_handlerfn := f\<rparr>"
definition dynamic_run where "dynamic_run p req response a = dp_handlerfn p req response a"
definition dynamic_get_attributes where "dynamic_get_attributes p = dp_attr p"

text \<open>The old attributes are freed first.\<close>

definition dynamic_set_attributes :: "dynamic_page \<Rightarrow> page_attribute \<Rightarrow> allocator \<Rightarrow> (status_t \<times> dynamic_page \<times> allocator) option" where
  "dynamic_set_attributes p attr a = do {
     (q, a) \<leftarrow> attribute_dup attr a;
     Some (q \<noteq> None, p\<lparr>dp_attr := q\<rparr>, a) }"

subsection \<open>The server\<close>

definition LOGFILE_MAX :: nat where "LOGFILE_MAX = 10240"
definition DOCUMENTROOT_MAX :: nat where "DOCUMENTROOT_MAX = 10240"

text \<open>The log file: closed from the beginning, open with the lines written to it, or closed after an error.\<close>

datatype logfile = Log_null | Log_open "string list" | Log_closed

record http_server =
  hs_defered_read :: int
  hs_max_pages :: size_t
  hs_npages :: size_t
  hs_pages :: "dynamic_page option list"
  hs_default_attributes :: "page_attribute option"
  hs_shutting_down :: bool
  hs_requests :: "http_request pool option"
  hs_responses :: "http_response pool option"
  hs_timeout_read :: nat
  hs_timeout_write :: nat
  hs_timeout_accept :: nat
  hs_retries_read :: nat
  hs_retries_write :: nat
  hs_host :: "string option"
  hs_port :: "16 word"
  hs_worker_threads :: size_t
  hs_queue_size :: size_t
  hs_block_when_full :: int
  hs_logfile :: logfile
  hs_logfile_name :: "char list"
  hs_logrotate :: int
  hs_logfile_entries :: int
  hs_logging :: bool
  hs_documentroot :: "char list"
  hs_default_handler :: "handler option"
  hs_can_read_files :: int
  hs_post_limit :: size_t
  hs_tracelevel :: int

definition set_server_defaults :: "http_server \<Rightarrow> http_server option" where
  "set_server_defaults this = do {
     name \<leftarrow> put_at (hs_logfile_name this) 0 NUL;
     root \<leftarrow> wr (hs_documentroot this) 0 (''./'' @ [NUL]);
     Some (this\<lparr>hs_timeout_read := 1000, hs_timeout_write := 500, hs_timeout_accept := 1000, hs_max_pages := 100, hs_npages := 0, hs_host := None,
       hs_port := 80, hs_worker_threads := 8, hs_queue_size := 100, hs_block_when_full := 0, hs_default_handler := None, hs_retries_read := 0,
       hs_retries_write := 3, hs_logfile := Log_null, hs_logrotate := 0, hs_logfile_entries := 0, hs_logfile_name := name, hs_logging := False,
       hs_can_read_files := 0, hs_documentroot := root, hs_post_limit := 102400, hs_defered_read := 0\<rparr>) }"

text \<open>\<open>calloc\<close> clears the structure; \<open>tcp\<close> is whether the TCP server below could be created.\<close>

definition http_server_new :: "bool \<Rightarrow> allocator \<Rightarrow> (http_server option \<times> allocator) option" where
  "http_server_new tcp a = (case try_alloc 20720 a of
     (False, a) \<Rightarrow> Some (None, a)
   | (True, a) \<Rightarrow>
       if \<not> tcp then Some (None, a)
       else do {
         this \<leftarrow> set_server_defaults \<lparr>hs_defered_read = 0, hs_max_pages = 0, hs_npages = 0, hs_pages = [], hs_default_attributes = None,
           hs_shutting_down = False, hs_requests = None, hs_responses = None, hs_timeout_read = 0, hs_timeout_write = 0, hs_timeout_accept = 0,
           hs_retries_read = 0, hs_retries_write = 0, hs_host = None, hs_port = 0, hs_worker_threads = 0, hs_queue_size = 0, hs_block_when_full = 0,
           hs_logfile = Log_null, hs_logfile_name = replicate (LOGFILE_MAX + 1) NUL, hs_logrotate = 0, hs_logfile_entries = 0, hs_logging = False,
           hs_documentroot = replicate (DOCUMENTROOT_MAX + 1) NUL, hs_default_handler = None, hs_can_read_files = 0, hs_post_limit = 0, hs_tracelevel = 0\<rparr>;
         Some (Some (this\<lparr>hs_shutting_down := False\<rparr>), a) })"

definition http_server_set_post_limit where "http_server_set_post_limit this cb = this\<lparr>hs_post_limit := cb\<rparr>"
definition http_server_get_post_limit where "http_server_get_post_limit this = hs_post_limit this"
definition http_server_set_defered_read where "http_server_set_defered_read this flag = this\<lparr>hs_defered_read := flag\<rparr>"
definition http_server_get_defered_read where "http_server_get_defered_read this = hs_defered_read this"
definition http_server_trace where "http_server_trace this level = this\<lparr>hs_tracelevel := level\<rparr>"
definition http_server_set_can_read_files where "http_server_set_can_read_files this val = this\<lparr>hs_can_read_files := val\<rparr>"
definition http_server_can_read_files where "http_server_can_read_files this = hs_can_read_files this"
definition http_server_set_default_page_handler where "http_server_set_default_page_handler this pf = this\<lparr>hs_default_handler := pf\<rparr>"
definition http_server_has_default_page_handler where "http_server_has_default_page_handler this \<longleftrightarrow> hs_default_handler this \<noteq> None"
definition http_server_set_timeout_read where "http_server_set_timeout_read this n = this\<lparr>hs_timeout_read := n\<rparr>"
definition http_server_set_timeout_write where "http_server_set_timeout_write this n = this\<lparr>hs_timeout_write := n\<rparr>"
definition http_server_set_timeout_accept where "http_server_set_timeout_accept this n = this\<lparr>hs_timeout_accept := n\<rparr>"
definition http_server_get_timeout_read where "http_server_get_timeout_read this = hs_timeout_read this"
definition http_server_get_timeout_write where "http_server_get_timeout_write this = hs_timeout_write this"
definition http_server_get_timeout_accept where "http_server_get_timeout_accept this = hs_timeout_accept this"
definition http_server_set_retries_read where "http_server_set_retries_read this n = this\<lparr>hs_retries_read := n\<rparr>"
definition http_server_set_retries_write where "http_server_set_retries_write this n = this\<lparr>hs_retries_write := n\<rparr>"
definition http_server_set_max_pages where "http_server_set_max_pages this n = this\<lparr>hs_max_pages := n\<rparr>"
definition http_server_get_max_pages where "http_server_get_max_pages this = hs_max_pages this"
definition http_server_set_port where "http_server_set_port this n = this\<lparr>hs_port := n\<rparr>"
definition http_server_get_port where "http_server_get_port this = hs_port this"
definition http_server_set_worker_threads where "http_server_set_worker_threads this n = this\<lparr>hs_worker_threads := n\<rparr>"
definition http_server_get_worker_threads where "http_server_get_worker_threads this = hs_worker_threads this"
definition http_server_set_queue_size where "http_server_set_queue_size this n = this\<lparr>hs_queue_size := n\<rparr>"
definition http_server_get_queue_size where "http_server_get_queue_size this = hs_queue_size this"
definition http_server_set_block_when_full where "http_server_set_block_when_full this n = this\<lparr>hs_block_when_full := n\<rparr>"
definition http_server_get_block_when_full where "http_server_get_block_when_full this = hs_block_when_full this"
definition http_server_shutting_down where "http_server_shutting_down this = hs_shutting_down this"
definition http_server_get_default_attributes where "http_server_get_default_attributes this = hs_default_attributes this"

definition http_server_set_logrotate :: "http_server \<Rightarrow> int \<Rightarrow> http_server option" where
  "http_server_set_logrotate this n = (if n \<ge> 0 then Some (this\<lparr>hs_logrotate := n\<rparr>) else None)"

definition http_server_set_documentroot :: "http_server \<Rightarrow> string \<Rightarrow> (status_t \<times> errno_t \<times> http_server) option" where
  "http_server_set_documentroot this docroot = (
     if length docroot + 1 > DOCUMENTROOT_MAX + 1 then Some (failure, ENOSPC, this)
     else do {
       d \<leftarrow> wr (hs_documentroot this) 0 (docroot @ [NUL]);
       Some (success, E0, this\<lparr>hs_documentroot := d\<rparr>) })"

definition http_server_get_documentroot :: "http_server \<Rightarrow> string option" where
  "http_server_get_documentroot this = cstr_at (hs_documentroot this) 0"

definition http_server_set_host :: "http_server \<Rightarrow> string \<Rightarrow> allocator \<Rightarrow> status_t \<times> http_server \<times> allocator" where
  "http_server_set_host this host a = (case try_alloc (length host + 1) a of
     (False, a) \<Rightarrow> (failure, this\<lparr>hs_host := None\<rparr>, a)
   | (True, a) \<Rightarrow> (success, this\<lparr>hs_host := Some host\<rparr>, a))"

definition http_server_set_logfile :: "http_server \<Rightarrow> string \<Rightarrow> (status_t \<times> errno_t \<times> http_server) option" where
  "http_server_set_logfile this name = (
     if hs_logfile this \<noteq> Log_null then None
     else if length name + 1 > LOGFILE_MAX + 1 then Some (failure, ENOSPC, this)
     else do {
       d \<leftarrow> wr (hs_logfile_name this) 0 (name @ [NUL]);
       Some (success, E0, this\<lparr>hs_logfile_name := d, hs_logging := True\<rparr>) })"

definition http_server_set_default_page_attributes :: "http_server \<Rightarrow> page_attribute \<Rightarrow> allocator \<Rightarrow> (status_t \<times> http_server \<times> allocator) option" where
  "http_server_set_default_page_attributes this attr a = do {
     (q, a) \<leftarrow> attribute_dup attr a;
     Some (q \<noteq> None, this\<lparr>hs_default_attributes := q\<rparr>, a) }"

subsection \<open>Pages\<close>

definition http_server_alloc_page_structs :: "http_server \<Rightarrow> allocator \<Rightarrow> status_t \<times> http_server \<times> allocator" where
  "http_server_alloc_page_structs this a = (case try_alloc (8 * hs_max_pages this) a of
     (False, a) \<Rightarrow> (failure, this\<lparr>hs_pages := []\<rparr>, a)
   | (True, a) \<Rightarrow> (success, this\<lparr>hs_pages := replicate (hs_max_pages this) None\<rparr>, a))"

definition http_server_add_page :: "http_server \<Rightarrow> string \<Rightarrow> handler \<Rightarrow> page_attribute option \<Rightarrow> allocator \<Rightarrow> (status_t \<times> http_server \<times> allocator) option" where
  "http_server_add_page this uri func attr a = (
     if hs_npages this < hs_max_pages this then do {
       (dp, a) \<leftarrow> dynamic_new uri func attr a;
       (case dp of
          None \<Rightarrow> Some (failure, this, a)
        | Some dp \<Rightarrow> do {
            ps \<leftarrow> put_at (hs_pages this) (hs_npages this) (Some dp);
            Some (success, this\<lparr>hs_pages := ps, hs_npages := hs_npages this + 1\<rparr>, a) }) }
     else None)"

fun lookup_loop :: "nat \<Rightarrow> nat \<Rightarrow> dynamic_page option list \<Rightarrow> string \<Rightarrow> dynamic_page option option" where
  "lookup_loop i 0 ps uri = Some None"
| "lookup_loop i (Suc k) ps uri = do {
     x \<leftarrow> get_at ps i;
     p \<leftarrow> x;
     s \<leftarrow> dynamic_get_uri p;
     if strcmp0 uri s then Some (Some p) else lookup_loop (Suc i) k ps uri }"

definition http_server_lookup :: "http_server \<Rightarrow> http_request \<Rightarrow> dynamic_page option option" where
  "http_server_lookup this request = do {
     u \<leftarrow> request_get_uri request;
     uri \<leftarrow> u;
     lookup_loop 0 (hs_npages this) (hs_pages this) uri }"

subsection \<open>The pools\<close>

text \<open>The mutex calls of the pools succeed. A failure frees what was added; the object of the failing round is lost.\<close>

fun fill_loop :: "nat \<Rightarrow> (allocator \<Rightarrow> ('r option \<times> allocator) option) \<Rightarrow> 'r pool \<Rightarrow> allocator \<Rightarrow> ('r pool option \<times> allocator) option" where
  "fill_loop 0 new p a = Some (Some p, a)"
| "fill_loop (Suc k) new p a = do {
     (r, a) \<leftarrow> new a;
     (case r of
        None \<Rightarrow> do { pool_free p True E0 E0; Some (None, a) }
      | Some r \<Rightarrow> do {
          (ok, e, p) \<leftarrow> pool_add p r E0 E0;
          if ok then fill_loop k new p a else do { pool_free p True E0 E0; Some (None, a) } }) }"

definition http_server_alloc_request_pool :: "http_server \<Rightarrow> allocator \<Rightarrow> (status_t \<times> http_server \<times> allocator) option" where
  "http_server_alloc_request_pool this a = (if hs_requests this = None then do {
     (p, a) \<leftarrow> pool_new (hs_worker_threads this) a;
     (case p of
        None \<Rightarrow> Some (failure, this, a)
      | Some p \<Rightarrow> do {
          (q, a) \<leftarrow> fill_loop (hs_worker_threads this) request_new p a;
          Some (q \<noteq> None, this\<lparr>hs_requests := q\<rparr>, a) }) }
   else None)"

definition http_server_alloc_response_pool :: "http_server \<Rightarrow> allocator \<Rightarrow> (status_t \<times> http_server \<times> allocator) option" where
  "http_server_alloc_response_pool this a = (if hs_responses this = None then do {
     (p, a) \<leftarrow> pool_new (hs_worker_threads this) a;
     (case p of
        None \<Rightarrow> Some (failure, this, a)
      | Some p \<Rightarrow> do {
          (q, a) \<leftarrow> fill_loop (hs_worker_threads this) response_new p a;
          Some (q \<noteq> None, this\<lparr>hs_responses := q\<rparr>, a) }) }
   else None)"

text \<open>
  What the failing branches free, \<open>pages\<close> and the requests, is freed again by \<open>http_server_free\<close> unless the pointer was cleared:
  \<open>http_server_free_request_pool\<close> clears its pointer, \<open>http_server_free_page_structs\<close> does not.
\<close>

definition http_server_free_request_pool :: "http_server \<Rightarrow> http_server option" where
  "http_server_free_request_pool this = (case hs_requests this of
     None \<Rightarrow> Some this
   | Some p \<Rightarrow> do { pool_free p True E0 E0; Some (this\<lparr>hs_requests := None\<rparr>) })"

definition http_server_free_response_pool :: "http_server \<Rightarrow> http_server option" where
  "http_server_free_response_pool this = (case hs_responses this of
     None \<Rightarrow> Some this
   | Some p \<Rightarrow> do { pool_free p True E0 E0; Some (this\<lparr>hs_responses := None\<rparr>) })"

definition http_server_alloc :: "http_server \<Rightarrow> allocator \<Rightarrow> (status_t \<times> http_server \<times> allocator) option" where
  "http_server_alloc this a = (case http_server_alloc_page_structs this a of
     (False, this, a) \<Rightarrow> Some (failure, this, a)
   | (True, this, a) \<Rightarrow> do {
       (ok, this, a) \<leftarrow> http_server_alloc_request_pool this a;
       if \<not> ok then Some (failure, this, a)
       else do {
         (ok, this, a) \<leftarrow> http_server_alloc_response_pool this a;
         if \<not> ok then do { this \<leftarrow> http_server_free_request_pool this; Some (failure, this, a) }
         else Some (success, this, a) } })"

definition http_server_get_request :: "http_server \<Rightarrow> (http_request \<times> http_server) option" where
  "http_server_get_request this = do {
     p \<leftarrow> hs_requests this;
     (ok, e, r, p) \<leftarrow> pool_get p E0 E0;
     r \<leftarrow> (if ok then r else None);
     Some (r, this\<lparr>hs_requests := Some p\<rparr>) }"

definition http_server_get_response :: "http_server \<Rightarrow> (http_response \<times> http_server) option" where
  "http_server_get_response this = (if hs_requests this = None then None else do {
     p \<leftarrow> hs_responses this;
     (ok, e, r, p) \<leftarrow> pool_get p E0 E0;
     r \<leftarrow> (if ok then r else None);
     Some (r, this\<lparr>hs_responses := Some p\<rparr>) })"

definition http_server_recycle_request :: "http_server \<Rightarrow> http_request \<Rightarrow> http_server option" where
  "http_server_recycle_request this request = do {
     request \<leftarrow> request_recycle request;
     p \<leftarrow> hs_requests this;
     (ok, e, p) \<leftarrow> pool_recycle p request E0 E0;
     Some (this\<lparr>hs_requests := Some p\<rparr>) }"

definition http_server_recycle_response :: "http_server \<Rightarrow> http_response \<Rightarrow> allocator \<Rightarrow> (http_server \<times> allocator) option" where
  "http_server_recycle_response this response a = do {
     (response, a) \<leftarrow> response_recycle response a;
     p \<leftarrow> hs_responses this;
     (ok, e, p) \<leftarrow> pool_recycle p response E0 E0;
     Some (this\<lparr>hs_responses := Some p\<rparr>, a) }"

subsection \<open>The log\<close>

text \<open>
  What the operating system says to the calls of the log: whether the file can be opened, the text of the time (\<open>None\<close>: it
  cannot be made), whether closing, renaming and opening again succeed when the file is rotated, the text of the address, whether the line could be written.
\<close>

record log_env =
  le_fopen :: bool
  le_date :: "string option"
  le_fclose :: bool
  le_rename :: bool
  le_reopen :: bool
  le_ip :: string
  le_written :: bool

definition rotate_if_needed :: "log_env \<Rightarrow> http_server \<Rightarrow> status_t \<times> http_server" where
  "rotate_if_needed le this = (
     if hs_logrotate this = 0 then (success, this)
     else if hs_logfile_entries this < hs_logrotate this then (success, this)
     else if le_date le = None then (failure, this)
     else if \<not> le_fclose le then (failure, this\<lparr>hs_logfile := Log_closed\<rparr>)
     else if \<not> le_rename le then (failure, this\<lparr>hs_logfile := Log_closed\<rparr>)
     else if \<not> le_reopen le then (failure, this\<lparr>hs_logfile := Log_null\<rparr>)
     else (success, this\<lparr>hs_logfile := Log_open [], hs_logfile_entries := 0\<rparr>))"

definition log_method :: "http_method \<Rightarrow> string" where
  "log_method m = (case m of METHOD_GET \<Rightarrow> ''GET'' | METHOD_HEAD \<Rightarrow> ''HEAD'' | METHOD_POST \<Rightarrow> ''POST'' | _ \<Rightarrow> ''unknown'')"

text \<open>A NULL uri is printed as \<open>(null)\<close> by the C library.\<close>

definition http_server_add_logentry :: "log_env \<Rightarrow> http_server \<Rightarrow> http_request \<Rightarrow> int \<Rightarrow> size_t \<Rightarrow> http_server option" where
  "http_server_add_logentry le this request status_code bytes_sent = (
     if status_code = 0 then None
     else if \<not> hs_logging this then Some this
     else (let opened = (if hs_logfile this = Log_null then if le_fopen le then Some (this\<lparr>hs_logfile := Log_open []\<rparr>) else None else Some this)
       in case opened of
         None \<Rightarrow> Some (this\<lparr>hs_logging := False\<rparr>)
       | Some this \<Rightarrow>
           (case rotate_if_needed le this of
              (False, this) \<Rightarrow> Some (this\<lparr>hs_logging := False\<rparr>)
            | (True, this) \<Rightarrow>
                (case le_date le of
                   None \<Rightarrow> Some this
                 | Some date \<Rightarrow> do {
                     u \<leftarrow> request_get_uri request;
                     let line = le_ip le @ '' - - ['' @ date @ ''] '' @ [CHR 0x22] @ log_method (request_get_method request) @ '' '' @
                       (case u of Some uri \<Rightarrow> uri | None \<Rightarrow> ''(null)'') @ [CHR 0x22] @ '' '' @ int_str status_code @ '' '' @ numeral_str 10 bytes_sent @ [CHR 0x0A];
                     (case hs_logfile this of
                        Log_open ls \<Rightarrow>
                          if \<not> le_written le then Some (this\<lparr>hs_logging := False, hs_logfile := Log_closed\<rparr>)
                          else Some (this\<lparr>hs_logfile := Log_open (ls @ [line]), hs_logfile_entries := hs_logfile_entries this + 1\<rparr>)
                      | _ \<Rightarrow> None) }))))"

subsection \<open>Copies of attributes\<close>

definition attr_ok :: "page_attribute \<Rightarrow> bool" where
  "attr_ok p \<longleftrightarrow> cs_inv (at_media_type p) \<and> cs_inv (at_language p) \<and> cs_inv (at_charset p) \<and> cs_inv (at_encoding p)"

definition attr_texts :: "page_attribute \<Rightarrow> string \<times> string \<times> string \<times> string" where
  "attr_texts p = (cs_str (at_media_type p), cs_str (at_language p), cs_str (at_charset p), cs_str (at_encoding p))"

text \<open>Texts that fit the first buffer of a string.\<close>

definition attr_short :: "page_attribute \<Rightarrow> bool" where
  "attr_short p \<longleftrightarrow> length (cs_str (at_media_type p)) < 256 \<and> length (cs_str (at_language p)) < 256 \<and> length (cs_str (at_charset p)) < 256 \<and>
     length (cs_str (at_encoding p)) < 256"

lemma attribute_new_spec:
  obtains r a' where "attribute_new a = Some (r, a')" "decisions a = [] \<longrightarrow> r \<noteq> None \<and> a' = a"
    "\<forall>p. r = Some p \<longrightarrow> (\<forall>s \<in> {at_media_type p, at_language p, at_charset p, at_encoding p}. cs_rep s [] \<and> cs_size s = 256)"
proof -
  obtain ok a1 where al: "try_alloc 32 a = (ok, a1)" "decisions a = [] \<longrightarrow> ok \<and> a1 = a"
    by (cases "try_alloc 32 a") (auto simp: try_alloc_def PTRDIFF_MAX_def split: list.splits)
  obtain st d a2 where m: "multinew_loop 4 [] a1 = (st, d, a2)" "decisions a1 = [] \<longrightarrow> st \<and> a2 = a1" "st \<longrightarrow> (\<exists>ns. d = ns \<and> list_all2 cs_fresh ns (replicate 4 []))"
    using multinew_spec [of 4 "[]" a1] by auto
  have f: "cs_rep (d ! i) [] \<and> cs_size (d ! i) = 256" if "st" "i < 4" for i
    using m(3) that by (auto simp: list_all2_conv_all_nth cs_fresh_def)
  show thesis
  proof (cases "ok \<and> st")
    case True
    let ?p = "\<lparr>at_media_type = d ! 0, at_language = d ! 1, at_charset = d ! 2, at_encoding = d ! 3\<rparr>"
    have "attribute_new a = Some (Some ?p, a2)" using al(1) m(1) True by (simp add: attribute_new_def cstring_multinew_def)
    then show thesis by (rule that) (use al(2) m(2) f True in auto)
  next
    case False
    have "attribute_new a = Some (None, if ok then a2 else a1)" using al(1) m(1) False by (cases ok) (simp_all add: attribute_new_def cstring_multinew_def)
    then show thesis by (rule that) (use False al(2) m(2) in auto)
  qed
qed

lemma cs_inv_get:
  assumes "cs_inv s"
  shows "cstr_at (cs_data s) 0 = Some (cs_str s) \<and> c_string (cs_str s) \<and> length (cs_str s) \<le> PTRDIFF_MAX"
proof -
  obtain t where t: "cs_rep s t" "t = cs_str s" using assms by (simp add: cs_inv_def)
  have "c_string t" "length t \<le> PTRDIFF_MAX" using t(1) unfolding cs_rep_def by linarith+
  then show ?thesis using cs_rep_cstr_at [OF t(1)] t(2) by simp
qed

lemma copy_text:
  assumes "cs_rep s []" "cs_size s = 256" "cs_inv t"
  obtains ok s' a' where "cstring_set s (cs_str t) a = Some (ok, s', a')" "cs_inv s'" "ok \<longrightarrow> cs_str s' = cs_str t" "length (cs_str t) < 256 \<longrightarrow> ok \<and> a' = a"
proof -
  have t: "c_string (cs_str t)" "length (cs_str t) \<le> PTRDIFF_MAX" using cs_inv_get [OF assms(3)] by auto
  obtain ok s' a' where s: "cstring_set s (cs_str t) a = Some (ok, s', a')" "cs_rep s' (if ok then cs_str t else [])" "roomy s 0 (length (cs_str t)) a \<longrightarrow> ok \<and> a' = a"
    using cstring_set_spec [OF assms(1) t, of a] unfolding cs_post_def by blast
  show thesis by (rule that [OF s(1)]) (use s(2,3) cs_rep_str cs_inv_iff assms(2) in \<open>auto simp: roomy_def\<close>)
qed

lemma attribute_dup_spec:
  assumes "attr_ok p"
  obtains q a' where "attribute_dup p a = Some (q, a')" "\<forall>x. q = Some x \<longrightarrow> attr_ok x \<and> attr_texts x = attr_texts p" "decisions a = [] \<and> attr_short p \<longrightarrow> q \<noteq> None \<and> a' = a"
proof -
  note p = assms [unfolded attr_ok_def]
  have g: "attribute_get_media_type p = Some (cs_str (at_media_type p))" "attribute_get_language p = Some (cs_str (at_language p))"
    "attribute_get_charset p = Some (cs_str (at_charset p))" "attribute_get_encoding p = Some (cs_str (at_encoding p))"
    using p cs_inv_get by (simp_all add: attribute_get_media_type_def attribute_get_language_def attribute_get_charset_def attribute_get_encoding_def)
  obtain r a1 where n: "attribute_new a = Some (r, a1)" "decisions a = [] \<longrightarrow> r \<noteq> None \<and> a1 = a"
    "\<forall>p. r = Some p \<longrightarrow> (\<forall>s \<in> {at_media_type p, at_language p, at_charset p, at_encoding p}. cs_rep s [] \<and> cs_size s = 256)" by (rule attribute_new_spec)
  show thesis
  proof (cases r)
    case None
    then show thesis by (intro that [of None a1]) (use n in \<open>simp_all add: attribute_dup_def\<close>)
  next
    case (Some q)
    have q: "cs_rep (at_media_type q) []" "cs_size (at_media_type q) = 256" "cs_rep (at_language q) []" "cs_size (at_language q) = 256"
      "cs_rep (at_charset q) []" "cs_size (at_charset q) = 256" "cs_rep (at_encoding q) []" "cs_size (at_encoding q) = 256" using n(3) Some by auto
    have inv: "cs_inv (at_media_type p)" "cs_inv (at_language p)" "cs_inv (at_charset p)" "cs_inv (at_encoding p)" using p by auto
    obtain o1 l a2 where l: "cstring_set (at_language q) (cs_str (at_language p)) a1 = Some (o1, l, a2)" "cs_inv l" "o1 \<longrightarrow> cs_str l = cs_str (at_language p)"
      "length (cs_str (at_language p)) < 256 \<longrightarrow> o1 \<and> a2 = a1" by (rule copy_text [OF q(3,4) inv(2), of a1])
    obtain o2 c a3 where c: "cstring_set (at_charset q) (cs_str (at_charset p)) a2 = Some (o2, c, a3)" "cs_inv c" "o2 \<longrightarrow> cs_str c = cs_str (at_charset p)"
      "length (cs_str (at_charset p)) < 256 \<longrightarrow> o2 \<and> a3 = a2" by (rule copy_text [OF q(5,6) inv(3), of a2])
    obtain o3 x a4 where x: "cstring_set (at_encoding q) (cs_str (at_encoding p)) a3 = Some (o3, x, a4)" "cs_inv x" "o3 \<longrightarrow> cs_str x = cs_str (at_encoding p)"
      "length (cs_str (at_encoding p)) < 256 \<longrightarrow> o3 \<and> a4 = a3" by (rule copy_text [OF q(7,8) inv(4), of a3])
    obtain o4 m a5 where m: "cstring_set (at_media_type q) (cs_str (at_media_type p)) a4 = Some (o4, m, a5)" "cs_inv m" "o4 \<longrightarrow> cs_str m = cs_str (at_media_type p)"
      "length (cs_str (at_media_type p)) < 256 \<longrightarrow> o4 \<and> a5 = a4" by (rule copy_text [OF q(1,2) inv(1), of a4])
    let ?q = "\<lparr>at_media_type = m, at_language = l, at_charset = c, at_encoding = x\<rparr>"
    have run: "attribute_dup p a = Some (if o1 \<and> o2 \<and> o3 \<and> o4 then Some ?q else None, if \<not> o1 then a2 else if \<not> o2 then a3 else if \<not> o3 then a4 else a5)"
      unfolding attribute_dup_def using n(1) Some g l(1) c(1) x(1) m(1)
      by (simp add: attribute_set_language_def attribute_set_charset_def attribute_set_encoding_def attribute_set_media_type_def)
    have live: "o1 \<and> o2 \<and> o3 \<and> o4 \<and> a5 = a" if "decisions a = [] \<and> attr_short p"
      using that n(2) l(4) c(4) x(4) m(4) by (simp add: attr_short_def)
    show thesis
    proof (cases "o1 \<and> o2 \<and> o3 \<and> o4")
      case True
      have "attr_ok ?q" "attr_texts ?q = attr_texts p" using True l(2,3) c(2,3) x(2,3) m(2,3) by (simp_all add: attr_ok_def attr_texts_def)
      then show thesis using True run live by (intro that [of "Some ?q" a5]) simp_all
    next
      case False
      then have "attribute_dup p a = Some (None, if \<not> o1 then a2 else if \<not> o2 then a3 else if \<not> o3 then a4 else a5)" unfolding run by simp
      then show thesis using False live by (intro that) blast+
    qed
  qed
qed

subsection \<open>The pages as a list\<close>

text \<open>A page as it was added: the uri, the function and the texts of the attributes. The server holds the pages in the order of the calls.\<close>

type_synonym page_entry = "string \<times> handler \<times> (string \<times> string \<times> string \<times> string) option"

definition page_rep :: "dynamic_page \<Rightarrow> page_entry \<Rightarrow> bool" where
  "page_rep p x \<longleftrightarrow> cs_inv (dp_uri p) \<and> (\<forall>q. dp_attr p = Some q \<longrightarrow> attr_ok q) \<and> x = (cs_str (dp_uri p), dp_handlerfn p, map_option attr_texts (dp_attr p))"

definition pages_rep :: "http_server \<Rightarrow> page_entry list \<Rightarrow> bool" where
  "pages_rep srv xs \<longleftrightarrow> length (hs_pages srv) = hs_max_pages srv \<and> hs_npages srv = length xs \<and> length xs \<le> hs_max_pages srv \<and>
     (\<forall>i < length xs. \<exists>p. hs_pages srv ! i = Some p \<and> page_rep p (xs ! i))"

lemma dynamic_new_spec:
  assumes "c_string uri" "length uri \<le> PTRDIFF_MAX" "\<forall>q. attr = Some q \<longrightarrow> attr_ok q"
  obtains r a' where "dynamic_new uri f attr a = Some (r, a')" "\<forall>p. r = Some p \<longrightarrow> page_rep p (uri, f, map_option attr_texts attr)"
    "affordable (length uri) a \<and> (\<forall>q. attr = Some q \<longrightarrow> attr_short q) \<longrightarrow> r \<noteq> None"
proof -
  obtain ok a1 where al: "try_alloc 24 a = (ok, a1)" "decisions a = [] \<longrightarrow> ok \<and> a1 = a"
    by (cases "try_alloc 24 a") (auto simp: try_alloc_def PTRDIFF_MAX_def split: list.splits)
  obtain s a2 where s: "cstring_dup uri a1 = Some (s, a2)" "\<forall>x. s = Some x \<longrightarrow> cs_rep x uri" "affordable (length uri) a1 \<longrightarrow> s \<noteq> None \<and> a2 = a1"
    using cstring_dup_spec [OF assms(1,2), of a1] unfolding cs_new_post_def by blast
  show thesis
  proof (cases "ok \<and> s \<noteq> None")
    case False
    then have "dynamic_new uri f attr a = Some (None, if ok then a2 else a1)" using al(1) s(1) by (cases ok) (simp_all add: dynamic_new_def)
    moreover have "\<not> affordable (length uri) a" using False al(2) s(3) by (auto simp: affordable_def)
    ultimately show thesis by (intro that [of None]) simp_all
  next
    case True
    then obtain u where u: "s = Some u" "cs_inv u" "cs_str u = uri" using s(2) cs_rep_str cs_inv_iff by blast
    show thesis
    proof (cases attr)
      case None
      then have "dynamic_new uri f attr a = Some (Some \<lparr>dp_uri = u, dp_handlerfn = f, dp_attr = None\<rparr>, a2)" using True al(1) s(1) u(1) by (simp add: dynamic_new_def)
      then show thesis by (rule that) (use u None in \<open>simp_all add: page_rep_def\<close>)
    next
      case (Some q)
      obtain q' a3 where d: "attribute_dup q a2 = Some (q', a3)" "\<forall>x. q' = Some x \<longrightarrow> attr_ok x \<and> attr_texts x = attr_texts q" "decisions a2 = [] \<and> attr_short q \<longrightarrow> q' \<noteq> None \<and> a3 = a2"
        by (rule attribute_dup_spec [of q a2]) (use assms(3) Some in auto)
      have "dynamic_new uri f attr a = Some (case q' of None \<Rightarrow> None | Some q \<Rightarrow> Some \<lparr>dp_uri = u, dp_handlerfn = f, dp_attr = Some q\<rparr>, a3)"
        using True al(1) s(1) u(1) Some d(1) by (simp add: dynamic_new_def)
      moreover have "q' \<noteq> None" if "affordable (length uri) a" "attr_short q" using that d(3) al(2) s(3) by (simp add: affordable_def)
      moreover have "page_rep \<lparr>dp_uri = u, dp_handlerfn = f, dp_attr = Some x\<rparr> (uri, f, map_option attr_texts attr)" if "q' = Some x" for x
        using u Some d(2) that by (simp add: page_rep_def)
      ultimately show thesis using Some by (cases q') (intro that, auto)+
    qed
  qed
qed

lemma lookup_loop_spec:
  assumes "\<forall>j < length xs. \<exists>p. ps ! (i + j) = Some p \<and> page_rep p (xs ! j)" "i + length xs \<le> length ps"
  shows "\<exists>r. lookup_loop i (length xs) ps uri = Some r \<and> rel_option page_rep r (find (\<lambda>x. fst x = uri) xs)"
  using assms
proof (induction xs arbitrary: i)
  case (Cons x xs)
  obtain p where p: "ps ! i = Some p" "page_rep p x" using Cons.prems(1) by force
  have u: "dynamic_get_uri p = Some (fst x)" using p(2) cs_inv_get by (auto simp: dynamic_get_uri_def page_rep_def)
  have "\<forall>j < length xs. \<exists>p. ps ! (Suc i + j) = Some p \<and> page_rep p (xs ! j)" using Cons.prems(1) by auto
  moreover have "Suc i + length xs \<le> length ps" using Cons.prems(2) by simp
  ultimately obtain r where r: "lookup_loop (Suc i) (length xs) ps uri = Some r" "rel_option page_rep r (find (\<lambda>x. fst x = uri) xs)" using Cons.IH by blast
  have "get_at ps i = Some (Some p)" using p(1) Cons.prems(2) by (simp add: get_at_def)
  then show ?case using u r p(2) by (auto simp: strcmp0_def)
qed simp

text \<open>
  C13. The pages of a server are a list. \<open>http_server_add_page\<close> appends the page with copies of its uri and of the texts of its attributes, or
  reports failure and changes nothing; it does not fail when memory can be allocated and the texts are short; calling it with a full table is
  a fault (an assertion). \<open>http_server_lookup\<close> finds the first page that was added with exactly the uri of the request, and returns
  no page when there is none.
\<close>
theorem server_pages_correct:
  assumes "pages_rep srv xs" "c_string uri" "length uri \<le> PTRDIFF_MAX" "\<forall>q. attr = Some q \<longrightarrow> attr_ok q" "request_get_uri req = Some (Some want)"
  shows "(\<exists>r. http_server_lookup srv req = Some r \<and> rel_option page_rep r (find (\<lambda>x. fst x = want) xs)) \<and>
    (if length xs < hs_max_pages srv
     then \<exists>ok srv' a'. http_server_add_page srv uri f attr a = Some (ok, srv', a') \<and> (\<not> ok \<longrightarrow> srv' = srv) \<and>
       (ok \<longrightarrow> pages_rep srv' (xs @ [(uri, f, map_option attr_texts attr)])) \<and>
       (affordable (length uri) a \<and> (\<forall>q. attr = Some q \<longrightarrow> attr_short q) \<longrightarrow> ok)
     else http_server_add_page srv uri f attr a = None)"
proof
  show "\<exists>r. http_server_lookup srv req = Some r \<and> rel_option page_rep r (find (\<lambda>x. fst x = want) xs)"
    using lookup_loop_spec [of xs "hs_pages srv" 0 want] assms(1,5) by (simp add: pages_rep_def http_server_lookup_def)
  show "if length xs < hs_max_pages srv
     then \<exists>ok srv' a'. http_server_add_page srv uri f attr a = Some (ok, srv', a') \<and> (\<not> ok \<longrightarrow> srv' = srv) \<and>
       (ok \<longrightarrow> pages_rep srv' (xs @ [(uri, f, map_option attr_texts attr)])) \<and>
       (affordable (length uri) a \<and> (\<forall>q. attr = Some q \<longrightarrow> attr_short q) \<longrightarrow> ok)
     else http_server_add_page srv uri f attr a = None"
  proof (cases "length xs < hs_max_pages srv")
    case True
    obtain r a' where d: "dynamic_new uri f attr a = Some (r, a')" "\<forall>p. r = Some p \<longrightarrow> page_rep p (uri, f, map_option attr_texts attr)"
      "affordable (length uri) a \<and> (\<forall>q. attr = Some q \<longrightarrow> attr_short q) \<longrightarrow> r \<noteq> None" by (rule dynamic_new_spec [OF assms(2-4)])
    have l: "hs_npages srv = length xs" "length (hs_pages srv) = hs_max_pages srv" using assms(1) by (simp_all add: pages_rep_def)
    show ?thesis
    proof (cases r)
      case None
      then have "http_server_add_page srv uri f attr a = Some (False, srv, a')" using d(1) True l by (simp add: http_server_add_page_def)
      then show ?thesis using True d(3) None by (auto intro!: exI [of _ False])
    next
      case (Some p)
      let ?s = "srv\<lparr>hs_pages := (hs_pages srv)[length xs := Some p], hs_npages := length xs + 1\<rparr>"
      have "http_server_add_page srv uri f attr a = Some (True, ?s, a')" using d(1) True l Some by (simp add: http_server_add_page_def put_at_def)
      moreover have "pages_rep ?s (xs @ [(uri, f, map_option attr_texts attr)])"
        using assms(1) True d(2) Some l by (auto simp: pages_rep_def nth_append nth_list_update less_Suc_eq)
      ultimately show ?thesis using True by (auto intro!: exI [of _ True])
    qed
  qed (use assms(1) in \<open>simp add: http_server_add_page_def pages_rep_def\<close>)
qed

definition sample_page :: handler where
  "sample_page req response a = Some (0, req, response, a)"

definition sample_server :: http_server where
  "sample_server = \<lparr>hs_defered_read = 0, hs_max_pages = 2, hs_npages = 0, hs_pages = [None, None], hs_default_attributes = None, hs_shutting_down = False,
     hs_requests = None, hs_responses = None, hs_timeout_read = 1000, hs_timeout_write = 500, hs_timeout_accept = 1000, hs_retries_read = 0, hs_retries_write = 3,
     hs_host = None, hs_port = 80, hs_worker_threads = 8, hs_queue_size = 100, hs_block_when_full = 0, hs_logfile = Log_null, hs_logfile_name = ''log'' @ [NUL],
     hs_logrotate = 2, hs_logfile_entries = 0, hs_logging = True, hs_documentroot = ''./'' @ [NUL], hs_default_handler = None, hs_can_read_files = 0,
     hs_post_limit = 102400, hs_tracelevel = 0\<rparr>"

theorem server_pages_correct_witness:
  "\<exists>srv' a'. http_server_add_page sample_server ''/x'' sample_page None no_oom = Some (success, srv', a') \<and> pages_rep srv' [(''/x'', sample_page, None)] \<and>
     http_server_lookup sample_server sent_rq = Some None"
proof -
  have "pages_rep sample_server []" by (simp add: pages_rep_def sample_server_def)
  note C = server_pages_correct [OF this, of "''/x''" None sent_rq "''/x''" sample_page no_oom]
  have m: "hs_max_pages sample_server = 2" "affordable (Suc (Suc 0)) no_oom" by (simp_all add: sample_server_def affordable_def no_oom_def PTRDIFF_MAX_def)
  have "http_server_lookup sample_server sent_rq = Some None" using C [THEN conjunct1] sent_rq_ok(2) m by (simp add: PTRDIFF_MAX_def)
  moreover have "\<exists>srv' a'. http_server_add_page sample_server ''/x'' sample_page None no_oom = Some (success, srv', a') \<and> pages_rep srv' [(''/x'', sample_page, None)]"
    using C [THEN conjunct2] sent_rq_ok(2) m by (auto simp: PTRDIFF_MAX_def)
  ultimately show ?thesis by blast
qed

subsection \<open>The log\<close>

text \<open>
  The state of the log: as long as the server logs, the file is not one that was closed behind its back; the counter covers the lines of
  the file; a file that is rotated has at most \<open>logrotate\<close> lines.
\<close>

definition log_ok :: "http_server \<Rightarrow> bool" where
  "log_ok srv \<longleftrightarrow> 0 \<le> hs_logrotate srv \<and> 0 \<le> hs_logfile_entries srv \<and> (hs_logging srv \<longrightarrow> hs_logfile srv \<noteq> Log_closed) \<and>
     (\<forall>ls. hs_logfile srv = Log_open ls \<longrightarrow> int (length ls) \<le> hs_logfile_entries srv \<and> (0 < hs_logrotate srv \<longrightarrow> int (length ls) \<le> hs_logrotate srv))"

definition log_line :: "log_env \<Rightarrow> string \<Rightarrow> http_request \<Rightarrow> string \<Rightarrow> int \<Rightarrow> size_t \<Rightarrow> string" where
  "log_line le date request uri status_code bytes_sent = le_ip le @ '' - - ['' @ date @ ''] '' @ [CHR 0x22] @ log_method (request_get_method request) @ '' '' @
     uri @ [CHR 0x22] @ '' '' @ int_str status_code @ '' '' @ numeral_str 10 bytes_sent @ [CHR 0x0A]"

lemma rotate_ok:
  assumes "log_ok srv" "hs_logging srv" "hs_logfile srv = Log_open ls" "rotate_if_needed le srv = (ok, srv')"
  shows "if ok then log_ok srv' \<and> hs_logging srv' \<and> (\<exists>ls'. hs_logfile srv' = Log_open ls' \<and> (0 < hs_logrotate srv \<longrightarrow> int (length ls') < hs_logrotate srv)) \<and>
      (hs_logrotate srv = 0 \<or> hs_logfile_entries srv < hs_logrotate srv \<longrightarrow> srv' = srv) \<and> hs_logrotate srv' = hs_logrotate srv
    else log_ok (srv'\<lparr>hs_logging := False\<rparr>)"
  using assms by (auto simp: rotate_if_needed_def log_ok_def split: if_splits)

lemma logentry_ok:
  assumes "log_ok srv" "status_code \<noteq> 0" "request_get_uri request = Some (Some uri)"
  shows "\<exists>srv'. http_server_add_logentry le srv request status_code n = Some srv' \<and> log_ok srv'"
proof (cases "hs_logging srv \<and> (hs_logfile srv = Log_null \<longrightarrow> le_fopen le)")
  case False
  then show ?thesis using assms(1,2) by (auto simp: http_server_add_logentry_def log_ok_def)
next
  case True
  define s where "s = (if hs_logfile srv = Log_null then srv\<lparr>hs_logfile := Log_open []\<rparr> else srv)"
  have s: "log_ok s" "hs_logging s" using assms(1) True by (auto simp: s_def log_ok_def)
  obtain ls where ls: "hs_logfile s = Log_open ls" using assms(1) True by (cases "hs_logfile srv") (auto simp: s_def log_ok_def)
  obtain ok s1 where r: "rotate_if_needed le s = (ok, s1)" by fastforce
  note R = rotate_ok [OF s ls r]
  have run: "http_server_add_logentry le srv request status_code n = (if ok then case le_date le of None \<Rightarrow> Some s1
      | Some date \<Rightarrow> (case hs_logfile s1 of Log_open ls \<Rightarrow> Some (if \<not> le_written le then s1\<lparr>hs_logging := False, hs_logfile := Log_closed\<rparr>
           else s1\<lparr>hs_logfile := Log_open (ls @ [log_line le date request uri status_code n]), hs_logfile_entries := hs_logfile_entries s1 + 1\<rparr>) | _ \<Rightarrow> None)
      else Some (s1\<lparr>hs_logging := False\<rparr>))"
  proof -
    have "(if hs_logfile srv = Log_null then if le_fopen le then Some (srv\<lparr>hs_logfile := Log_open []\<rparr>) else None else Some srv) = Some s"
      using True by (simp add: s_def)
    then show ?thesis unfolding http_server_add_logentry_def log_line_def Let_def using True assms(2,3) r
      by (simp cong: if_cong split: option.split logfile.split)
  qed
  show ?thesis
  proof (cases ok)
    case ok: True
    then obtain ls' where "log_ok s1" "hs_logging s1" "hs_logfile s1 = Log_open ls'" "0 < hs_logrotate s1 \<longrightarrow> int (length ls') < hs_logrotate s1" using R by auto
    then show ?thesis unfolding run using ok by (cases "le_date le") (auto simp: log_ok_def)
  qed (use R run in simp)
qed

text \<open>
  The log. For every behaviour of the clock and the file system, writing an entry with a status that is not 0 returns without a fault when
  the uri of the request can be read, keeps the state of the log well formed, so that a file that is rotated never has more than
  \<open>logrotate\<close> lines, and never writes to a file that was closed. When nothing fails and the file is not due for rotation exactly one line in the common
  log format is appended.
\<close>
theorem log_correct:
  assumes "log_ok srv" "status_code \<noteq> 0" "request_get_uri request = Some (Some uri)"
  shows "(\<exists>srv'. http_server_add_logentry le srv request status_code n = Some srv' \<and> log_ok srv') \<and>
    (\<forall>ls date. hs_logging srv \<and> hs_logfile srv = Log_open ls \<and> le_date le = Some date \<and> le_written le \<and> (hs_logrotate srv = 0 \<or> hs_logfile_entries srv < hs_logrotate srv) \<longrightarrow>
      http_server_add_logentry le srv request status_code n =
        Some (srv\<lparr>hs_logfile := Log_open (ls @ [log_line le date request uri status_code n]), hs_logfile_entries := hs_logfile_entries srv + 1\<rparr>))"
proof (intro conjI logentry_ok [OF assms])
  show "\<forall>ls date. hs_logging srv \<and> hs_logfile srv = Log_open ls \<and> le_date le = Some date \<and> le_written le \<and> (hs_logrotate srv = 0 \<or> hs_logfile_entries srv < hs_logrotate srv) \<longrightarrow>
      http_server_add_logentry le srv request status_code n =
        Some (srv\<lparr>hs_logfile := Log_open (ls @ [log_line le date request uri status_code n]), hs_logfile_entries := hs_logfile_entries srv + 1\<rparr>)"
    using assms(2,3) by (auto simp: http_server_add_logentry_def rotate_if_needed_def log_line_def Let_def)
qed

theorem log_correct_witness:
  "log_ok sample_server \<and> (\<exists>srv'. http_server_add_logentry \<lparr>le_fopen = True, le_date = Some ''now'', le_fclose = True, le_rename = True, le_reopen = True, le_ip = ''ip'', le_written = True\<rparr>
     sample_server sent_rq 200 5 = Some srv' \<and> log_ok srv')"
proof -
  have l: "log_ok sample_server" by (simp add: log_ok_def sample_server_def)
  then show ?thesis using log_correct [OF l _ sent_rq_ok(2), of 200, THEN conjunct1] by simp
qed

end
