(* ===== verification/Highlander.thy ===== *)
theory Highlander
  imports Http_Server
begin

section \<open>Serving connections\<close>

text \<open>
  \<open>src/http/src/highlander.c\<close>: what a worker thread does with a connection. It reads a request, finds the page or file for it, sends the
  response, writes a line to the log, and goes on while the connection is kept. Page functions are code of the user; the file system, the
  clock, \<open>mktime\<close> and what the log meets are arguments.
\<close>

subsection \<open>Which pages a client accepts\<close>

definition check_attributes :: "http_request \<Rightarrow> page_attribute \<Rightarrow> bool option" where
  "check_attributes request attr = do {
     page_val \<leftarrow> attribute_get_media_type attr;
     request_accepts_media_type request page_val }"

definition fs_can_run :: "http_server \<Rightarrow> http_request \<Rightarrow> dynamic_page \<Rightarrow> bool option" where
  "fs_can_run srv request p = (
     let attr = (case dynamic_get_attributes p of None \<Rightarrow> http_server_get_default_attributes srv | Some x \<Rightarrow> Some x) in
     case attr of None \<Rightarrow> Some True | Some x \<Rightarrow> check_attributes request x)"

subsection \<open>Files\<close>

definition CCH_URI_MAX :: nat where "CCH_URI_MAX = 10240"

datatype file_kind = Regular | Directory | Special

text \<open>
  The first half of \<open>send_disk_file\<close>: the path of the file, or the status of the error. \<open>stat\<close> gives the kind and the size of what a path names.
  The path is built in a buffer of fixed size.
\<close>

definition disk_path :: "(string \<Rightarrow> (file_kind \<times> size_t) option) \<Rightarrow> string \<Rightarrow> string option \<Rightarrow> allocator \<Rightarrow> (int + string) option" where
  "disk_path stat docroot uri a = (case uri of
     None \<Rightarrow> Some (Inl 400)
   | Some uri \<Rightarrow>
       if uri = [] \<or> strstr uri ''..'' \<noteq> None then Some (Inl 400)
       else if length docroot < 1 \<or> (length docroot = 1 \<and> hd docroot \<noteq> CHR ''/'') \<or> (length docroot = 2 \<and> \<not> strcmp0 docroot ''./'') \<or>
           take 2 docroot = ''..'' \<or> strstr docroot ''..'' \<noteq> None then Some (Inl 400)
       else if length docroot + length uri + 2 \<ge> CCH_URI_MAX + DOCUMENTROOT_MAX + 2 + 11 then Some (Inl 400)
       else do {
         let filename = docroot @ ''/'' @ uri;
         buf \<leftarrow> wr (fresh_bytes (CCH_URI_MAX + DOCUMENTROOT_MAX + 2 + 11) a) 0 (filename @ [NUL]);
         (case stat filename of
            None \<Rightarrow> Some (Inl 404)
          | Some (Regular, _) \<Rightarrow> Some (Inr filename)
          | Some (Directory, _) \<Rightarrow> do {
              let filename = filename @ ''/index.html'';
              buf \<leftarrow> wr buf 0 (filename @ [NUL]);
              (case stat filename of
                 None \<Rightarrow> Some (Inl 404)
               | Some (Regular, _) \<Rightarrow> Some (Inr filename)
               | Some _ \<Rightarrow> Some (Inl 400)) }
          | Some (Special, _) \<Rightarrow> Some (Inl 400)) })"

definition send_disk_file :: "(string \<Rightarrow> (file_kind \<times> size_t) option) \<Rightarrow> http_server \<Rightarrow> http_request \<Rightarrow> http_response \<Rightarrow> error \<Rightarrow> allocator \<Rightarrow>
    (status_t \<times> http_response \<times> error \<times> allocator) option" where
  "send_disk_file stat srv req response e a = do {
     uri \<leftarrow> request_get_uri req;
     docroot \<leftarrow> http_server_get_documentroot srv;
     path \<leftarrow> disk_path stat docroot uri a;
     (case path of
        Inl status \<Rightarrow> Some (failure, response, set_http_error e status, a)
      | Inr filename \<Rightarrow> do {
          ok \<leftarrow> (case http_server_get_default_attributes srv of None \<Rightarrow> Some True | Some attr \<Rightarrow> check_attributes req attr);
          if \<not> ok then Some (failure, response_set_status response 406, set_http_error e 406, a)
          else do {
            content_type \<leftarrow> get_mime_type filename (fresh_bytes 100 a);
            (ok, response, e, a) \<leftarrow> response_send_file (\<lambda>p. map_option snd (stat p)) response filename content_type e a;
            if \<not> ok then Some (failure, response, e, a)
            else Some (success, response_set_status response 200, e, a) } }) }"

subsection \<open>Pages\<close>

definition is_http_status_code :: "int \<Rightarrow> bool" where
  "is_http_status_code s \<longleftrightarrow> 100 \<le> s \<and> s \<le> 505"

definition handle_dynamic :: "int \<Rightarrow> http_server \<Rightarrow> dynamic_page \<Rightarrow> http_request \<Rightarrow> http_response \<Rightarrow> error \<Rightarrow> allocator \<Rightarrow>
    (status_t \<times> http_request \<times> http_response \<times> error \<times> allocator) option" where
  "handle_dynamic now srv p req response e a = do {
     ok \<leftarrow> fs_can_run srv req p;
     if \<not> ok then Some (failure, req, response_set_status response 406, set_http_error e 406, a)
     else do {
       let response = response_set_last_modified (response_set_version response (request_get_version req)) now;
       (status, req, response, a) \<leftarrow> dynamic_run p req response a;
       let status = (if status = 0 then 200 else if is_http_status_code status then status else 500);
       Some (success, req, response_set_status response status, e, a) } }"

definition http_server_run_default_page_handler :: "int \<Rightarrow> http_server \<Rightarrow> http_request \<Rightarrow> http_response \<Rightarrow> error \<Rightarrow> allocator \<Rightarrow>
    (status_t \<times> http_request \<times> http_response \<times> error \<times> allocator) option" where
  "http_server_run_default_page_handler now this request response e a = do {
     u \<leftarrow> request_get_uri request;
     uri \<leftarrow> u;
     f \<leftarrow> hs_default_handler this;
     (p, a) \<leftarrow> dynamic_new uri f None a;
     (case p of
        None \<Rightarrow> Some (failure, request, response, set_os_error e (errno_num ENOMEM), a)
      | Some p \<Rightarrow> handle_dynamic now this p request response e a) }"

subsection \<open>The loop over the requests of a connection\<close>

record service_env =
  se_mktime :: "tm \<Rightarrow> int"
  se_now :: int
  se_files :: "string \<Rightarrow> char list list option"
  se_stat :: "string \<Rightarrow> (file_kind \<times> size_t) option"
  se_log :: log_env

definition data_on_socket :: "connection \<Rightarrow> bool \<times> connection" where
  "data_on_socket this = (case socket_poll_for (cn_net this) of (ok, w) \<Rightarrow> (ok, this\<lparr>cn_net := w\<rparr>))"

text \<open>The page for a request that was read: a page of the server, a file, the default page, or none.\<close>

definition dispatch :: "service_env \<Rightarrow> http_server \<Rightarrow> http_request \<Rightarrow> http_response \<Rightarrow> error \<Rightarrow> allocator \<Rightarrow>
    (status_t \<times> http_request \<times> http_response \<times> error \<times> allocator) option" where
  "dispatch env srv request response e a = do {
     dp \<leftarrow> http_server_lookup srv request;
     (case dp of
        Some dp \<Rightarrow> handle_dynamic (se_now env) srv dp request response e a
      | None \<Rightarrow>
          if http_server_can_read_files srv \<noteq> 0 then do {
            (ok, response, e, a) \<leftarrow> send_disk_file (se_stat env) srv request response e a;
            Some (ok, request, response, e, a) }
          else if http_server_has_default_page_handler srv then http_server_run_default_page_handler (se_now env) srv request response e a
          else Some (failure, request, response, set_http_error e 404, a)) }"

text \<open>The answer to a request that failed: errors of the protocol are reported to the client.\<close>

definition answer_error :: "service_env \<Rightarrow> http_server \<Rightarrow> connection \<Rightarrow> http_request \<Rightarrow> http_response \<Rightarrow> error \<Rightarrow> size_t \<Rightarrow> allocator \<Rightarrow>
    (http_server \<times> connection \<times> http_response \<times> error \<times> allocator) option" where
  "answer_error env srv conn request response e cbSent a = (
     if is_protocol_error e then do {
       let status = get_error_code e;
       let response = response_set_status response status;
       (ok, response, a) \<leftarrow> response_set_connection response ''close'' a;
       if \<not> ok then Some (srv, conn, response, e, a)
       else do {
         (ok, response, conn, e, cbSent, a) \<leftarrow> response_send (se_now env) (se_files env) response conn e cbSent a;
         if \<not> ok then Some (srv, conn, response, e, a)
         else do {
           srv \<leftarrow> http_server_add_logentry (se_log env) srv request status cbSent;
           Some (srv, conn, response, e, a) } } }
     else Some (srv, conn, response, e, a))"

text \<open>The answer to a request that was served; the result says whether the loop goes on, or what it returns.\<close>

datatype round_result = Round_next | Round_return status_t

definition answer_page :: "service_env \<Rightarrow> http_server \<Rightarrow> connection \<Rightarrow> http_request \<Rightarrow> http_response \<Rightarrow> error \<Rightarrow> size_t \<Rightarrow> allocator \<Rightarrow>
    (round_result \<times> http_server \<times> connection \<times> http_request \<times> http_response \<times> error \<times> allocator) option" where
  "answer_page env srv conn request response e cbSent a = do {
     s \<leftarrow> response_get_connection response;
     (ok, response, a) \<leftarrow> (if request_get_version request \<noteq> VERSION_11 \<and> \<not> connection_is_persistent conn \<and> s = []
       then response_set_connection response ''close'' a else Some (success, response, a));
     if \<not> ok then Some (Round_return failure, srv, conn, request, response, e, a)
     else do {
       (ok, response, conn, e, cbSent, a) \<leftarrow> response_send (se_now env) (se_files env) response conn e cbSent a;
       if \<not> ok then Some (Round_return failure, srv, conn, request, response, e, a)
       else do {
         srv \<leftarrow> http_server_add_logentry (se_log env) srv request (response_get_status response) cbSent;
         s \<leftarrow> response_get_connection response;
         if strcmp0 s ''close'' then Some (Round_return success, srv, conn, request, response, e, a)
         else if \<not> connection_is_persistent conn then Some (Round_return success, srv, conn, request, response, e, a)
         else do {
           (ok, conn) \<leftarrow> connection_flush conn;
           request \<leftarrow> request_recycle request;
           (response, a) \<leftarrow> response_recycle response a;
           Some (Round_next, srv, conn, request, response, e, a) } } } }"

definition service_round :: "service_env \<Rightarrow> http_server \<Rightarrow> connection \<Rightarrow> http_request \<Rightarrow> http_response \<Rightarrow> error \<Rightarrow> size_t \<Rightarrow> allocator \<Rightarrow>
    (round_result \<times> http_server \<times> connection \<times> http_request \<times> http_response \<times> error \<times> allocator) option" where
  "service_round env srv conn request response e cbSent a = (case data_on_socket conn of
     (False, conn) \<Rightarrow> Some (Round_return failure, srv, conn, request, response, set_tcpip_error e (errno_num EAGAIN), a)
   | (True, conn) \<Rightarrow> do {
       (ok, conn, request, e, a) \<leftarrow> request_receive (se_mktime env) request conn (http_server_get_post_limit srv) e a;
       (ok, request, response, e, a) \<leftarrow> (if ok then dispatch env srv request response e a else Some (failure, request, response, e, a));
       if ok then answer_page env srv conn request response e cbSent a
       else do {
         (srv, conn, response, e, a) \<leftarrow> answer_error env srv conn request response e cbSent a;
         Some (Round_return failure, srv, conn, request, response, e, a) } })"

text \<open>
  The flag of the server is set by another thread: \<open>sd\<close> has what its next loads return, and \<open>False\<close> follows. The loop has no bound of its own;
  \<open>n\<close> counts its rounds.
\<close>

fun service_loop :: "nat \<Rightarrow> service_env \<Rightarrow> bool list \<Rightarrow> http_server \<Rightarrow> connection \<Rightarrow> http_request \<Rightarrow> http_response \<Rightarrow> error \<Rightarrow> size_t \<Rightarrow> allocator \<Rightarrow>
    (status_t \<times> http_server \<times> connection \<times> http_request \<times> http_response \<times> error \<times> allocator) option" where
  "service_loop 0 env sd srv conn request response e cbSent a = None"
| "service_loop (Suc n) env sd srv conn request response e cbSent a = (
     if (case sd of [] \<Rightarrow> False | b # _ \<Rightarrow> b) then Some (success, srv, conn, request, response, e, a)
     else do {
       (r, srv, conn, request, response, e, a) \<leftarrow> service_round env srv conn request response e cbSent a;
       (case r of
          Round_return st \<Rightarrow> Some (st, srv, conn, request, response, e, a)
        | Round_next \<Rightarrow> service_loop n env (tl sd) srv conn request response e cbSent a) })"

definition serviceConnection2 :: "service_env \<Rightarrow> bool list \<Rightarrow> http_server \<Rightarrow> connection \<Rightarrow> http_request \<Rightarrow> http_response \<Rightarrow> error \<Rightarrow> size_t \<Rightarrow> allocator \<Rightarrow>
    (status_t \<times> http_server \<times> connection \<times> http_request \<times> http_response \<times> error \<times> allocator) option" where
  "serviceConnection2 env sd srv conn request response e cbSent a =
     service_loop (length (in_stream conn) + 1) env sd srv conn request response e cbSent a"

text \<open>\<open>cbSent\<close> is not initialised.\<close>

definition serviceConnection :: "service_env \<Rightarrow> bool list \<Rightarrow> http_server \<Rightarrow> connection \<Rightarrow> size_t \<Rightarrow> allocator \<Rightarrow> (status_t \<times> http_server \<times> connection \<times> allocator) option" where
  "serviceConnection env sd srv conn cbSent a = (case try_alloc 1036 a of
     (False, a) \<Rightarrow> Some (failure, srv, conn, a)
   | (True, a) \<Rightarrow> do {
       (request, srv) \<leftarrow> http_server_get_request srv;
       let request = request_set_defered_read request (http_server_get_defered_read srv);
       (response, srv) \<leftarrow> http_server_get_response srv;
       (ok, srv, conn, request, response, e, a) \<leftarrow> serviceConnection2 env sd srv conn request response error_new cbSent a;
       srv \<leftarrow> http_server_recycle_request srv request;
       (srv, a) \<leftarrow> http_server_recycle_response srv response a;
       Some (ok, srv, conn, a) })"

subsection \<open>Which files can be sent\<close>

lemma dots_append:
  assumes "strstr xs ''..'' = None" "strstr ys ''..'' = None"
  shows "strstr (xs @ ''/'' @ ys) ''..'' = None"
  using assms(1)
proof (induction xs)
  case Nil
  then show ?case using assms(2) by (cases ys) auto
next
  case (Cons x xs)
  then have "strstr xs ''..'' = None" "take 2 (x # xs) \<noteq> ''..''" by (auto split: if_splits)
  then show ?case using Cons.IH by (cases xs) auto
qed

lemma index_dots: "strstr xs ''..'' = None \<Longrightarrow> strstr (xs @ ''/index.html'') ''..'' = None"
  using dots_append [of xs "''index.html''"] by simp

text \<open>The guards of the code, as one condition.\<close>

definition path_allowed :: "string \<Rightarrow> string \<Rightarrow> bool" where
  "path_allowed docroot uri \<longleftrightarrow> uri \<noteq> [] \<and> docroot \<noteq> [] \<and> strstr uri ''..'' = None \<and> strstr docroot ''..'' = None \<and>
     (length docroot = 1 \<longrightarrow> docroot = ''/'') \<and> (length docroot = 2 \<longrightarrow> docroot = ''./'') \<and> length docroot + length uri < 20491"

lemma take_dots: "strstr s ''..'' = None \<Longrightarrow> take 2 s \<noteq> ''..''"
  by (cases s) (auto split: if_splits)

lemma disk_path_guard:
  "disk_path stat docroot (Some uri) a = (if \<not> path_allowed docroot uri then Some (Inl 400) else do {
     let filename = docroot @ ''/'' @ uri;
     (case stat filename of
        None \<Rightarrow> Some (Inl 404)
      | Some (Regular, _) \<Rightarrow> Some (Inr filename)
      | Some (Directory, _) \<Rightarrow>
          if length docroot + length uri > 20480 then None
          else (case stat (filename @ ''/index.html'') of
             None \<Rightarrow> Some (Inl 404)
           | Some (Regular, _) \<Rightarrow> Some (Inr (filename @ ''/index.html''))
           | Some _ \<Rightarrow> Some (Inl 400))
      | Some (Special, _) \<Rightarrow> Some (Inl 400)) })"
proof -
  have one: "length docroot = 1 \<and> hd docroot \<noteq> CHR ''/'' \<longleftrightarrow> length docroot = 1 \<and> docroot \<noteq> ''/''" by (cases docroot) auto
  have g: "(uri = [] \<or> strstr uri ''..'' \<noteq> None) \<or>
      (length docroot < 1 \<or> (length docroot = 1 \<and> hd docroot \<noteq> CHR ''/'') \<or> (length docroot = 2 \<and> \<not> strcmp0 docroot ''./'') \<or>
         take 2 docroot = ''..'' \<or> strstr docroot ''..'' \<noteq> None) \<or>
      length docroot + length uri + 2 \<ge> CCH_URI_MAX + DOCUMENTROOT_MAX + 2 + 11 \<longleftrightarrow> \<not> path_allowed docroot uri"
    unfolding one using take_dots [of docroot] by (auto simp: path_allowed_def strcmp0_def CCH_URI_MAX_def DOCUMENTROOT_MAX_def)
  show ?thesis
  proof (cases "path_allowed docroot uri")
    case False
    then show ?thesis using g by (auto simp: disk_path_def)
  next
    case True
    let ?f = "docroot @ ''/'' @ uri" and ?b = "fresh_bytes (CCH_URI_MAX + DOCUMENTROOT_MAX + 2 + 11) a"
    have l: "length ?b = 20493" by (simp add: fresh_bytes_def CCH_URI_MAX_def DOCUMENTROOT_MAX_def)
    obtain buf where w: "wr ?b 0 (?f @ [NUL]) = Some buf" "length buf = 20493"
      using True l wr_length by (auto simp: wr_def path_allowed_def)
    let ?g = "(?f @ ''/index.html'') @ [NUL]"
    have "length ?g = length docroot + length uri + 13" by simp
    then have i: "wr buf 0 ?g = (if length docroot + length uri > 20480 then None else Some (?g @ drop (length ?g) buf))"
      unfolding wr_def using w(2) by simp
    show ?thesis unfolding disk_path_def Let_def using True g w(1) i
      by (simp split: option.split prod.split file_kind.split)
  qed
qed

text \<open>
  C5. Which files a client can get. A path that is opened is the uri below the document root, or \<open>index.html\<close> in the directory this names; it
  names a regular file and \<open>..\<close> occurs nowhere in it. Everything else is answered with 400 or 404, a missing uri with 400. For a uri and a
  document root within their limits the path fits the buffer. The check of the code alone does not give this: it leaves no room for \<open>/index.html\<close>,
  and for longer texts that pass it the buffer overflows when the path names a directory.
\<close>
theorem disk_path_safe:
  "(\<forall>path. disk_path stat docroot uri a = Some (Inr path) \<longrightarrow> (\<exists>u. uri = Some u \<and> u \<noteq> [] \<and> path \<in> {docroot @ ''/'' @ u, docroot @ ''/'' @ u @ ''/index.html''}) \<and>
      (\<exists>n. stat path = Some (Regular, n)) \<and> strstr path ''..'' = None) \<and>
   (\<forall>status. disk_path stat docroot uri a = Some (Inl status) \<longrightarrow> status \<in> {400, 404}) \<and>
   (\<forall>u. uri = Some u \<and> length u \<le> CCH_URI_MAX \<and> length docroot \<le> DOCUMENTROOT_MAX \<longrightarrow> disk_path stat docroot uri a \<noteq> None) \<and>
   (\<forall>u n. uri = Some u \<and> path_allowed docroot u \<and> length docroot + length u > CCH_URI_MAX + DOCUMENTROOT_MAX \<and> stat (docroot @ ''/'' @ u) = Some (Directory, n) \<longrightarrow>
      disk_path stat docroot uri a = None) \<and>
   disk_path stat docroot None a = Some (Inl 400)"
proof (intro conjI allI impI)
  fix path
  assume r: "disk_path stat docroot uri a = Some (Inr path)"
  then obtain u where u: "uri = Some u" by (cases uri) (auto simp: disk_path_def)
  then have al: "path_allowed docroot u" using r by (auto simp: disk_path_guard split: if_splits)
  let ?f = "docroot @ ''/'' @ u"
  have p: "(path = ?f \<or> path = ?f @ ''/index.html'') \<and> (\<exists>n. stat path = Some (Regular, n))"
    using r al unfolding u disk_path_guard Let_def by (auto split: option.splits prod.splits file_kind.splits if_splits)
  then show "\<exists>u. uri = Some u \<and> u \<noteq> [] \<and> path \<in> {docroot @ ''/'' @ u, docroot @ ''/'' @ u @ ''/index.html''}" "\<exists>n. stat path = Some (Regular, n)"
    using u al by (auto simp: path_allowed_def)
  have "strstr ?f ''..'' = None" using al dots_append by (simp add: path_allowed_def)
  then show "strstr path ''..'' = None" using p index_dots by metis
next
  fix status
  assume r: "disk_path stat docroot uri a = Some (Inl status)"
  show "status \<in> {400, 404}"
  proof (cases uri)
    case (Some u)
    then show ?thesis using r unfolding Some disk_path_guard Let_def by (auto split: option.splits prod.splits file_kind.splits if_splits)
  qed (use r in \<open>auto simp: disk_path_def\<close>)
next
  fix u
  assume "uri = Some u \<and> length u \<le> CCH_URI_MAX \<and> length docroot \<le> DOCUMENTROOT_MAX"
  then show "disk_path stat docroot uri a \<noteq> None" unfolding CCH_URI_MAX_def DOCUMENTROOT_MAX_def
    by (auto simp: disk_path_guard Let_def split: option.splits prod.splits file_kind.splits if_splits)
next
  fix u n
  assume "uri = Some u \<and> path_allowed docroot u \<and> length docroot + length u > CCH_URI_MAX + DOCUMENTROOT_MAX \<and> stat (docroot @ ''/'' @ u) = Some (Directory, n)"
  then show "disk_path stat docroot uri a = None" by (simp add: disk_path_guard Let_def CCH_URI_MAX_def DOCUMENTROOT_MAX_def)
qed (simp add: disk_path_def)

theorem disk_path_safe_witness:
  "disk_path (\<lambda>p. if p = ''.//x'' then Some (Directory, 0) else if p = ''.//x/index.html'' then Some (Regular, 5) else None) ''./'' (Some ''/x'') no_oom \<noteq> None \<and>
   disk_path (\<lambda>_. None) ''./'' None no_oom = Some (Inl 400)"
proof
  show "disk_path (\<lambda>p. if p = ''.//x'' then Some (Directory, 0) else if p = ''.//x/index.html'' then Some (Regular, 5) else None) ''./'' (Some ''/x'') no_oom \<noteq> None"
    by (rule disk_path_safe [THEN conjunct2, THEN conjunct2, THEN conjunct1, rule_format, of "Some ''/x''" "''/x''"]) (simp add: CCH_URI_MAX_def DOCUMENTROOT_MAX_def)
  show "disk_path (\<lambda>_. None) ''./'' None no_oom = Some (Inl 400)"
    by (rule disk_path_safe [THEN conjunct2, THEN conjunct2, THEN conjunct2, THEN conjunct2])
qed

end
