(* ===== verification/Highlander_Serve.thy ===== *)
theory Highlander_Serve
  imports Highlander
begin

section \<open>The loop over the requests of a connection\<close>

text \<open>
  Lemmas over \<open>service_loop\<close> of Highlander, for every page function, every state of the request and the response and every behaviour of
  the network: sending leaves the input of the connection alone, and a request that was received has consumed some of it. So the loop ends.
\<close>

subsection \<open>Sending leaves the input alone\<close>

named_theorems keeps \<open>functions that write to a connection\<close>

text \<open>Where \<open>f\<close> finds the connection in the result.\<close>

definition kept :: "('r \<Rightarrow> connection) \<Rightarrow> connection \<Rightarrow> 'r option \<Rightarrow> bool" where
  "kept f c r \<longleftrightarrow> (\<forall>x. r = Some x \<longrightarrow> conn_ok (f x) \<and> in_stream (f x) = in_stream c)"

lemma kept_bind:
  assumes "kept f c r" "\<And>x. conn_ok (f x) \<Longrightarrow> kept g (f x) (k x)"
  shows "kept g c (r \<bind> k)"
  using assms by (cases r) (auto simp: kept_def)

lemma kept_pair:
  assumes "kept snd c r" "\<And>ok d. conn_ok d \<Longrightarrow> kept g d (k ok d)"
  shows "kept g c (r \<bind> (\<lambda>(ok, d). k ok d))"
  by (rule kept_bind [OF assms(1)]) (use assms(2) in auto)

lemma kept_pure: "(\<And>x. kept g c (k x)) \<Longrightarrow> kept g c (r \<bind> k)"
  by (cases r) (auto simp: kept_def)

lemma kept_Some: "conn_ok (f x) \<Longrightarrow> in_stream (f x) = in_stream c \<Longrightarrow> kept f c (Some x)"
  by (simp add: kept_def)

lemma kept_if: "kept f c x \<Longrightarrow> kept f c y \<Longrightarrow> kept f c (if b then x else y)"
  by simp

lemma kept_None [simp]: "kept f c None"
  by (simp add: kept_def)

lemma sends_kept: "sends c bs r \<Longrightarrow> kept snd c r"
  by (auto simp: sends_def kept_def)

lemma write_kept [keeps]: "conn_ok c \<Longrightarrow> kept snd c (connection_write c bs)"
  by (rule sends_kept [OF write_spec])

lemma flush_kept [keeps]: "conn_ok c \<Longrightarrow> kept snd c (connection_flush c)"
  by (rule sends_kept [OF flush_spec(1)])

lemma big_buffer_kept [keeps]: "conn_ok c \<Longrightarrow> kept snd c (connection_write_big_buffer c bs n)"
proof (cases "0 < n")
  case False
  then show ?thesis by (simp add: connection_write_big_buffer_def)
qed (rule sends_kept [OF big_buffer_sends])

lemma send_string_kept [keeps]: "conn_ok c \<Longrightarrow> kept snd c (http_send_string c s)"
  by (simp add: http_send_string_def write_kept)

lemma send_printf_kept: "conn_ok c \<Longrightarrow> kept snd c (send_printf c s)"
  by (simp add: send_printf_def write_kept kept_Some)

lemma send_ulong_kept [keeps]: "conn_ok c \<Longrightarrow> kept snd c (http_send_ulong c name n)"
  by (simp add: http_send_ulong_def send_printf_kept)

lemma send_int_kept [keeps]: "conn_ok c \<Longrightarrow> kept snd c (http_send_int c name i)"
  by (simp add: http_send_int_def send_printf_kept)

lemma send_date_kept [keeps]: "conn_ok c \<Longrightarrow> kept snd c (http_send_date c name t)"
  unfolding http_send_date_def by (intro kept_pair write_kept) (simp_all add: write_kept kept_Some)

lemma send_field_kept [keeps]: "conn_ok c \<Longrightarrow> kept snd c (http_send_field c name s)"
proof -
  assume c: "conn_ok c"
  have "kept snd d (connection_write d bs \<bind> (\<lambda>(ok, conn). if ok then connection_write conn crlf else Some (failure, conn)))" if "conn_ok d" for d bs
    by (rule kept_pair [OF write_kept [OF that]]) (simp add: write_kept kept_Some)
  then have "kept snd d (cs_bytes s \<bind> (\<lambda>bs. connection_write d bs \<bind> (\<lambda>(ok, conn). if ok then connection_write conn crlf else Some (failure, conn))))" if "conn_ok d" for d
    by (rule kept_pure) (use that in simp)
  then show ?thesis unfolding http_send_field_def by (intro kept_pair [OF write_kept [OF c]]) (simp add: kept_Some)
qed

lemma send_table_kept:
  assumes "\<forall>(f, send) \<in> set tbl. \<forall>h c. conn_ok c \<longrightarrow> kept snd c (send h c)" "conn_ok c"
  shows "kept snd c (send_table is_set tbl h c)"
  using assms
proof (induction tbl arbitrary: c)
  case (Cons x tbl)
  obtain f send where x: "x = (f, send)" by (cases x)
  then have "kept snd c (send h c)" using Cons.prems by auto
  then have "kept snd c (send h c \<bind> (\<lambda>(ok, conn). if ok then send_table is_set tbl h conn else Some (failure, conn)))"
    by (rule kept_pair) (use Cons in \<open>auto simp: kept_Some\<close>)
  then show ?case using Cons x by simp
qed (simp add: kept_Some)

lemma cc_loop_kept:
  assumes "\<forall>(f, send) \<in> set ds. \<forall>c. conn_ok c \<longrightarrow> kept snd c (send c)" "conn_ok c"
  shows "kept snd c (cc_loop gh ds n c)"
  using assms
proof (induction ds arbitrary: c n)
  case (Cons x ds)
  obtain f send where x: "x = (f, send)" by (cases x)
  let ?k = "\<lambda>conn. do { (ok, conn) \<leftarrow> (if n \<noteq> 0 then http_send_string conn '', '' else Some (success, conn));
         if ok then cc_loop gh ds (n - 1) conn else Some (failure, conn) }"
  have k: "kept snd d (?k d)" if "conn_ok d" for d
    by (rule kept_pair) (use Cons that in \<open>auto simp: kept_Some send_string_kept\<close>)
  have "kept snd c (send c)" using Cons.prems x by auto
  then have "kept snd c (send c \<bind> (\<lambda>(ok, conn). if ok then ?k conn else Some (failure, conn)))"
    by (rule kept_pair) (use k in \<open>auto simp: kept_Some\<close>)
  then show ?case using Cons x by simp
qed (simp add: kept_Some)

lemma general_header_kept [keeps]: "conn_ok c \<Longrightarrow> kept snd c (general_header_send_fields gh c)"
proof -
  assume c: "conn_ok c"
  have cc: "kept snd d (send_cachecontrol gh d)" if "conn_ok d" for d unfolding send_cachecontrol_def
  proof (rule kept_pair [OF send_string_kept [OF that]])
    fix ok e assume e: "conn_ok e"
    have "\<forall>(f, send) \<in> set (cc_directives gh). \<forall>c. conn_ok c \<longrightarrow> kept snd c (send c)" by (simp add: cc_directives_def keeps)
    then show "kept snd e (if ok then cc_loop gh (cc_directives gh) (cachecontrol_field_set gh) e else Some (failure, e))"
      using cc_loop_kept e by (simp add: kept_Some)
  qed
  have t: "\<forall>(f, send) \<in> set gh_send_fields. \<forall>h c. conn_ok c \<longrightarrow> kept snd c (send h c)"
    by (simp add: gh_send_fields_def send_pragma_def send_date_def send_connection_def send_trailer_def send_transfer_encoding_def send_upgrade_def send_via_def
        send_warning_def keeps)
  show ?thesis unfolding general_header_send_fields_def by (rule kept_pair [OF send_table_kept [OF t c]]) (auto simp: cc kept_Some)
qed

lemma entity_header_kept [keeps]: "conn_ok c \<Longrightarrow> kept snd c (entity_header_send_fields eh c)"
proof -
  assume c: "conn_ok c"
  have l: "kept snd d (send_content_length h d)" if "conn_ok d" for d h unfolding send_content_length_def Let_def
    by (rule kept_pure) (use that in \<open>simp add: keeps\<close>)
  have t: "\<forall>(f, send) \<in> set eh_send_fields. \<forall>h c. conn_ok c \<longrightarrow> kept snd c (send h c)"
    by (simp add: eh_send_fields_def send_allow_def send_content_encoding_def send_content_language_def l send_content_location_def send_content_md5_def
        send_content_range_def send_content_type_def send_expires_def send_last_modified_def keeps)
  show ?thesis unfolding entity_header_send_fields_def by (rule send_table_kept [OF t c])
qed

lemma response_fields_kept: "conn_ok c \<Longrightarrow> kept (\<lambda>(ok, p, c). c) c (response_send_header_fields now p c)"
proof -
  assume c: "conn_ok c"
  have t: "\<forall>(f, send) \<in> set rs_send_fields. \<forall>h c. conn_ok c \<longrightarrow> kept snd c (send h c)"
    by (simp add: rs_send_fields_def send_age_def send_etag_def send_location_def send_proxy_authenticate_def send_server_def send_vary_def send_www_authenticate_def
        send_accept_ranges_def send_retry_after_def keeps)
  have a: "kept snd d (send_table response_flag_isset rs_send_fields p d)" if "conn_ok d" for d p by (rule send_table_kept [OF t that])
  have b: "kept snd d (do { (ok, conn) \<leftarrow> entity_header_send_fields (rs_entity_header p) d;
         if ok then send_table response_flag_isset rs_send_fields p conn else Some (failure, conn) })" if "conn_ok d" for d p
    by (rule kept_pair [OF entity_header_kept [OF that]]) (auto simp: a kept_Some)
  have "kept snd c (do { (ok, conn) \<leftarrow> general_header_send_fields (rs_general_header p) c;
       if ok then do { (ok, conn) \<leftarrow> entity_header_send_fields (rs_entity_header p) conn;
         if ok then send_table response_flag_isset rs_send_fields p conn else Some (failure, conn) }
       else Some (failure, conn) })" for p
    by (rule kept_pair [OF general_header_kept [OF c]]) (use b in \<open>simp add: kept_Some\<close>)
  then show ?thesis unfolding response_send_header_fields_def Let_def
    by (rule kept_pure [OF kept_pair]) (simp add: kept_Some)
qed

lemma for_nodes_kept:
  assumes "\<And>n q s. conn_ok (f s) \<Longrightarrow> kept (\<lambda>r. f (snd r)) (f s) (body n q s)" "conn_ok (f s)"
  shows "kept f (f s) (for_nodes c body p s)"
proof -
  have "body = body \<longrightarrow> conn_ok (f s) \<longrightarrow> conn_ok (f x) \<and> in_stream (f x) = in_stream (f s)" if r: "for_nodes c body p s = Some x" for x
  proof (rule for_nodes.raw_induct [where P = "\<lambda>c b p s x. b = body \<longrightarrow> conn_ok (f s) \<longrightarrow> conn_ok (f x) \<and> in_stream (f x) = in_stream (f s)", OF _ r], intro impI)
    fix go c b p s y
    assume IH: "\<And>c b p s x. go c b p s = Some x \<Longrightarrow> b = body \<longrightarrow> conn_ok (f s) \<longrightarrow> conn_ok (f x) \<and> in_stream (f x) = in_stream (f s)"
      and run: "(case p of None \<Rightarrow> Some s | Some q \<Rightarrow> c q \<bind> (\<lambda>n. b n q s \<bind> (\<lambda>r. if fst r then go c b (n_next n) (snd r) else Some (snd r)))) = Some y"
      and b: "b = body" "conn_ok (f s)"
    show "conn_ok (f y) \<and> in_stream (f y) = in_stream (f s)"
    proof (cases p)
      case (Some q)
      then obtain n r where n: "b n q s = Some r" "(if fst r then go c b (n_next n) (snd r) else Some (snd r)) = Some y"
        using run by (auto simp: bind_eq_Some_conv)
      have "conn_ok (f (snd r)) \<and> in_stream (f (snd r)) = in_stream (f s)" using assms(1) [OF b(2), of n q] n(1) b(1) by (cases r) (simp add: kept_def)
      then show ?thesis using n(2) IH [of c b "n_next n" "snd r" y] b(1) by (auto split: if_splits)
    qed (use run b in simp)
  qed
  then show ?thesis using assms(2) by (simp add: kept_def)
qed

lemma send_cookie_kept: "conn_ok c \<Longrightarrow> kept (\<lambda>(ok, c, e, a). c) c (send_cookie k c e a)"
proof -
  assume c: "conn_ok c"
  have w: "kept (\<lambda>(ok, c, e, a). c) c (connection_write c bs \<bind> (\<lambda>(ok, conn). Some (if ok then (success, conn, e, b) else (failure, conn, set_tcpip_error e (errno_num (net_errno (cn_net conn))), b))))" for bs b
    by (rule kept_pair [OF write_kept [OF c]]) (simp add: kept_Some)
  have bs: "kept (\<lambda>(ok, c, e, a). c) c (cs_bytes s \<bind> (\<lambda>bs. connection_write c bs \<bind> (\<lambda>(ok, conn). Some (if ok then (success, conn, e, b) else (failure, conn, set_tcpip_error e (errno_num (net_errno (cn_net conn))), b)))))" for s b
    by (rule kept_pure [OF w])
  have "kept (\<lambda>(ok, c, e, a). c) c (create_cookie_string k s a \<bind> (\<lambda>(ok, s, a). if \<not> ok then Some (failure, c, set_os_error e (errno_num ENOMEM), a)
       else cs_bytes s \<bind> (\<lambda>bs. connection_write c bs \<bind> (\<lambda>(ok, conn). Some (if ok then (success, conn, e, a) else (failure, conn, set_tcpip_error e (errno_num (net_errno (cn_net conn))), a))))))" for s a
    by (rule kept_pure) (use c bs in \<open>auto simp: kept_Some split: prod.split\<close>)
  then show ?thesis unfolding send_cookie_def using c by (auto simp: kept_Some split: prod.split option.split)
qed

lemma cookies_kept: "conn_ok c \<Longrightarrow> kept (\<lambda>(ok, c, e, a). c) c (response_send_cookies l c e a)"
proof -
  assume c: "conn_ok c"
  let ?f = "\<lambda>(ok :: bool, c :: connection, e :: error, a :: allocator). c"
  let ?body = "\<lambda>(n :: cookie node) (q :: nat) (ok :: bool, conn, e, a). do { c \<leftarrow> item_of n; (ok, conn, e, a) \<leftarrow> send_cookie c conn e a; Some (ok, (ok, conn, e, a)) }"
  have "kept (\<lambda>r. ?f (snd r)) (?f s) (?body n q s)" if "conn_ok (?f s)" for n q s
  proof -
    obtain ok conn e a where s: "s = (ok, conn, e, a)" by (metis prod_cases4)
    have d: "conn_ok conn" using that s by simp
    have "kept (\<lambda>r. ?f (snd r)) conn (send_cookie k conn e a \<bind> (\<lambda>(ok, conn, e, a). Some (ok, (ok, conn, e, a))))" for k
      by (rule kept_bind [OF send_cookie_kept [OF d]]) (auto simp: kept_Some split: prod.split)
    then show ?thesis unfolding s prod.case by (rule kept_pure)
  qed
  then have "kept ?f c (for_nodes (cells l) ?body q (success, c, e, a))" for q using for_nodes_kept [of ?f ?body "(success, c, e, a)"] c by simp
  then show ?thesis unfolding response_send_cookies_def by (rule kept_pure)
qed

lemma send_header_kept: "conn_ok c \<Longrightarrow> kept (\<lambda>(ok, p, c, e, a). c) c (response_send_header now p c e a)"
proof -
  assume c: "conn_ok c"
  let ?f = "\<lambda>(ok :: bool, p :: http_response, c :: connection, e :: error, a :: allocator). c"
  have w: "kept ?f d (connection_write d crlf \<bind> (\<lambda>(ok, conn). Some (if ok then (success, p, conn, e, a)
      else (failure, p, conn, set_tcpip_error e (errno_num (net_errno (cn_net conn))), a))))" if "conn_ok d" for d p e a
    by (rule kept_pair [OF write_kept [OF that]]) (simp add: kept_Some)
  have ck: "kept (\<lambda>(ok, c, e, a). c) d (case rs_cookies p of None \<Rightarrow> Some (success, d, e, a) | Some l \<Rightarrow> response_send_cookies l d e a)" if "conn_ok d" for d p e a
    using that by (simp add: cookies_kept kept_Some split: option.split)
  have k: "kept ?f d ((case rs_cookies p of None \<Rightarrow> Some (success, d, e, a) | Some l \<Rightarrow> response_send_cookies l d e a) \<bind> (\<lambda>(ok, conn, e, a).
      if \<not> ok then Some (failure, p, conn, e, a) else connection_write conn crlf \<bind> (\<lambda>(ok, conn). Some (if ok then (success, p, conn, e, a)
      else (failure, p, conn, set_tcpip_error e (errno_num (net_errno (cn_net conn))), a)))))" if "conn_ok d" for d p e a
    by (rule kept_bind [OF ck [OF that]]) (use w in \<open>auto simp: kept_Some split: prod.split\<close>)
  have h: "kept ?f c (response_send_header_fields now p c \<bind> (\<lambda>(ok, p, conn). if \<not> ok then Some (failure, p, conn, set_tcpip_error e (errno_num (net_errno (cn_net conn))), a)
     else (case rs_cookies p of None \<Rightarrow> Some (success, conn, e, a) | Some l \<Rightarrow> response_send_cookies l conn e a) \<bind> (\<lambda>(ok, conn, e, a).
      if \<not> ok then Some (failure, p, conn, e, a) else connection_write conn crlf \<bind> (\<lambda>(ok, conn). Some (if ok then (success, p, conn, e, a)
      else (failure, p, conn, set_tcpip_error e (errno_num (net_errno (cn_net conn))), a))))))" for p a
    by (rule kept_bind [OF response_fields_kept [OF c]]) (use k in \<open>auto simp: kept_Some split: prod.split\<close>)
  show ?thesis
  proof (cases "rs_version p = VERSION_09")
    case False
    show ?thesis unfolding response_send_header_def if_not_P [OF False]
      by (rule kept_pure) (use h c in \<open>auto simp: kept_Some split: prod.split\<close>)
  qed (use c in \<open>simp add: response_send_header_def kept_Some\<close>)
qed

lemma file_loop_kept: "conn_ok c \<Longrightarrow> kept (\<lambda>(ok, c, n). c) c (file_loop c bufs n)"
proof (rule file_loop_sends)
  fix ok c' m assume "file_loop c bufs n = Some (ok, c', m)" "sends c (concat bufs) (Some (ok, c'))"
  then show ?thesis by (auto simp: kept_def sends_def)
qed

lemma send_entity_kept: "conn_ok c \<Longrightarrow> kept (\<lambda>(ok, r, c, n). c) c (response_send_entity files r c n)"
proof -
  assume c: "conn_ok c"
  let ?f = "\<lambda>(ok :: bool, r :: http_response, c :: connection, n :: size_t). c"
  have w: "kept ?f c (x \<bind> (\<lambda>(ok, conn). Some (ok, r, conn, k)))" if "kept snd c x" for x r k
    by (rule kept_pair [OF that]) (simp add: kept_Some)
  have disk: "kept ?f c (send_entire_file files c path n \<bind> (\<lambda>(ok, conn, pcb). Some (ok, r, conn, pcb)))" for path
  proof (rule kept_bind)
    show "kept (\<lambda>(ok, c, n). c) c (send_entire_file files c path n)" using c by (simp add: send_entire_file_def file_loop_kept kept_Some split: option.split)
  qed (auto simp: kept_Some split: prod.split)
  have body: "kept snd c (if k > 64 * 1024 then connection_write_big_buffer c bs m else connection_write c bs)" for k bs m using c by (simp add: keeps)
  note three = kept_pure [OF kept_pure [OF kept_pure]]
  show ?thesis unfolding response_send_entity_def Let_def
    by (rule kept_if, rule three, rule w [OF body], rule kept_if, rule kept_pure, rule disk, rule three, rule w [OF write_kept [OF c]])
qed

lemma response_send_kept: "conn_ok c \<Longrightarrow> kept (\<lambda>(ok, r, c, e, n, a). c) c (response_send now files r c e n a)"
proof -
  assume c: "conn_ok c"
  let ?f = "\<lambda>(ok :: bool, r :: http_response, c :: connection, e :: error, n :: size_t, a :: allocator). c"
  have st: "kept snd c (send_status_code c s v)" for s v using c by (simp add: send_status_code_def keeps kept_Some split: option.split)
  have en: "kept ?f d (response_send_entity files r d n \<bind> (\<lambda>(ok, r, c, pcb). Some (if ok then (success, r, c, e, pcb, a)
      else (failure, r, c, set_tcpip_error e (errno_num (net_errno (cn_net c))), pcb, a))))" if "conn_ok d" for d r e a
    by (rule kept_bind [OF send_entity_kept [OF that]]) (auto simp: kept_Some split: prod.split)
  have hd: "kept ?f d (response_send_header now r d e a \<bind> (\<lambda>(ok, r, c, e, a). if rs_status r \<noteq> 200 \<and> rs_status r \<noteq> 404 then Some (failure, r, c, e, n, a)
       else if \<not> ok then Some (failure, r, c, e, n, a) else response_send_entity files r c n \<bind> (\<lambda>(ok, r, c, pcb). Some (if ok then (success, r, c, e, pcb, a)
      else (failure, r, c, set_tcpip_error e (errno_num (net_errno (cn_net c))), pcb, a)))))" if "conn_ok d" for d r
    by (rule kept_bind [OF send_header_kept [OF that]]) (use en in \<open>auto simp: kept_Some split: prod.split\<close>)
  show ?thesis unfolding response_send_def Let_def by (rule kept_pair [OF st]) (use hd in \<open>auto simp: kept_Some\<close>)
qed


subsection \<open>Receiving consumes input\<close>

text \<open>What reading leaves alone: the output, and a network that does not fail.\<close>

definition in_frame :: "connection \<Rightarrow> connection \<Rightarrow> bool" where
  "in_frame c c' \<longleftrightarrow> conn_ok c' \<and> out_stream c' = out_stream c \<and> (quiet c \<longrightarrow> quiet c')"

lemma read_in_frame: "read_frame c c' \<Longrightarrow> in_frame c c'"
  by (simp add: read_frame_def in_frame_def)

lemma in_frame_trans: "in_frame c d \<Longrightarrow> in_frame d d' \<Longrightarrow> in_frame c d'"
  by (auto simp: in_frame_def)

lemma request_line_eats:
  assumes "conn_ok c" "read_request_line c r e a = Some (ok, c', r', e', a')"
  shows "in_frame c c' \<and> (ok \<longrightarrow> length (in_stream c') < length (in_stream c))"
proof -
  obtain st buf c1 e1 where R: "read_line c (replicate 10241 NUL) 10240 e = Some (st, buf, c1, e1)" "read_frame c c1"
    "st \<Longrightarrow> \<exists>ln. length ln < 10240 \<and> CHR 0x0D \<notin> set ln \<and> in_stream c = ln @ crlf @ in_stream c1 \<and> e1 = e \<and> cstr_at buf 0 = Some (takeWhile (\<lambda>c. c \<noteq> NUL) ln)"
    by (rule read_line_spec [OF assms(1), of 10240 "replicate 10241 NUL" e]) (simp, blast)
  have c1: "in_frame c c1" by (rule read_in_frame [OF R(2)])
  have "c' = c1" "ok \<longrightarrow> st" using assms(2) unfolding read_request_line_def R(1) by (cases st; auto simp: bind_eq_Some_conv)+
  moreover have "length (in_stream c1) < length (in_stream c)" if t: st
  proof -
    obtain ln where "in_stream c = ln @ crlf @ in_stream c1" using R(3) [OF t] by blast
    then show ?thesis by (simp add: crlf_def)
  qed
  ultimately show ?thesis using c1 by blast
qed

lemma header_loop_eats:
  assumes "conn_ok c" "header_loop n mktime c r e a = Some (ok, c', r', e', a')"
  shows "in_frame c c' \<and> (ok \<longrightarrow> length (in_stream c') \<le> length (in_stream c))"
  using assms
proof (induction n arbitrary: c r e a)
  case (Suc n)
  obtain st line c1 e1 where R: "\<And>m. header_loop (Suc m) mktime c r e a = (if \<not> st then Some (False, c1, r, e1, a) else if line = [] then Some (True, c1, r, e, a)
      else do { (st, c', r', e', a') \<leftarrow> parse_one_field mktime c1 r line e a;
        if \<not> st then Some (False, c1, r', e', a') else header_loop m mktime c1 r' e' a' })" "read_frame c c1"
    "st \<Longrightarrow> \<exists>ln. CHR 0x0D \<notin> set ln \<and> in_stream c = ln @ crlf @ in_stream c1 \<and> line = takeWhile (\<lambda>c. c \<noteq> NUL) ln"
    by (rule header_round [OF Suc.prems(1), of mktime r e a]) blast
  have c1: "conn_ok c1" "in_frame c c1" using R(2) read_in_frame by (simp_all add: read_frame_def)
  have l: "length (in_stream c1) \<le> length (in_stream c)" if st using R(3) [OF that] by auto
  show ?case
  proof (cases "st \<and> line \<noteq> []")
    case False
    then show ?thesis using Suc.prems(2) R(1) c1 l by (auto split: if_splits)
  next
    case True
    then obtain st1 c2 r1 e2 a1 where P: "parse_one_field mktime c1 r line e a = Some (st1, c2, r1, e2, a1)"
      using Suc.prems(2) R(1) by (auto simp: bind_eq_Some_conv)
    show ?thesis
    proof (cases st1)
      case False
      then show ?thesis using Suc.prems(2) R(1) True P c1 by auto
    next
      case st1: True
      then have "header_loop n mktime c1 r1 e2 a1 = Some (ok, c', r', e', a')" using Suc.prems(2) R(1) True P by simp
      from Suc.IH [OF c1(1) this] show ?thesis using l True in_frame_trans [OF c1(2)] by auto
    qed
  qed
qed simp

lemma posted_content_eats:
  assumes "conn_ok c" "read_posted_content n c r e a = Some (ok, c', r', e', a')"
  shows "in_frame c c' \<and> length (in_stream c') \<le> length (in_stream c)"
proof -
  obtain k where k: "request_get_content_length r = Some k" using assms(2) by (auto simp: read_posted_content_def bind_eq_Some_conv)
  show ?thesis
  proof (cases "k = 0")
    case True
    then show ?thesis using assms k by (auto simp: read_posted_content_def in_frame_def)
  next
    case False
    then obtain b c1 lost where rd: "connection_read c k = Some (b, c1)" "read_frame c c1" "in_stream c = (case b of None \<Rightarrow> lost | Some bs \<Rightarrow> bs) @ in_stream c1"
      using read_spec [OF assms(1), of k] by auto
    have c1: "in_frame c c1 \<and> length (in_stream c1) \<le> length (in_stream c)" using read_in_frame [OF rd(2)] rd(3) by simp
    have "c' = c \<or> c' = c1" using assms(2) k rd(1) False
      by (auto simp: read_posted_content_def bind_eq_Some_conv split: if_splits prod.splits bool.splits option.splits)
    then show ?thesis using c1 assms(1) by (auto simp: in_frame_def)
  qed
qed

lemma persistent_frame: "in_stream (connection_set_persistent c b) = in_stream c" "conn_ok c \<Longrightarrow> in_frame c (connection_set_persistent c b)"
  by (simp_all add: connection_set_persistent_def in_stream_def conn_ok_def in_frame_def out_stream_def quiet_def)

lemma request_receive_eats:
  assumes "conn_ok c" "request_receive mktime r c n e a = Some (ok, c', r', e', a')"
  shows "in_frame c c' \<and> (ok \<longrightarrow> length (in_stream c') < length (in_stream c))"
proof -
  obtain ok1 c1 r1 e1 a1 where l: "read_request_line c r e a = Some (ok1, c1, r1, e1, a1)" using assms(2) by (auto simp: request_receive_def bind_eq_Some_conv)
  have L: "in_frame c c1" "ok1 \<longrightarrow> length (in_stream c1) < length (in_stream c)" using request_line_eats [OF assms(1) l] by auto
  show ?thesis
  proof (cases ok1)
    case False
    then show ?thesis using assms(2) l L by (auto simp: request_receive_def)
  next
    case True
    let ?c = "if request_get_version r1 = VERSION_11 then connection_set_persistent c1 True else c1"
    have "conn_ok c1" using L(1) by (simp add: in_frame_def)
    then have c: "in_frame c1 ?c" "in_stream ?c = in_stream c1" using persistent_frame by (auto simp: in_frame_def)
    then have ok: "conn_ok ?c" by (simp add: in_frame_def)
    obtain ok2 c2 r2 e2 a2 where h: "read_request_header_fields mktime ?c r1 e1 a1 = Some (ok2, c2, r2, e2, a2)"
      and run: "(if \<not> ok2 then Some (False, c2, r2, e2, a2) else if request_get_method r2 = METHOD_POST \<and> rq_defered_read r2 = 0 then read_posted_content n c2 r2 e2 a2
        else Some (True, c2, r2, e2, a2)) = Some (ok, c', r', e', a')"
      using assms(2) l True unfolding request_receive_def Let_def by (auto simp: bind_eq_Some_conv simp del: not_None_eq)
    have H: "in_frame c c2" "ok2 \<longrightarrow> length (in_stream c2) \<le> length (in_stream c1)"
      using header_loop_eats [OF ok h [unfolded read_request_header_fields_def]] c(2) in_frame_trans [OF L(1)] in_frame_trans [OF c(1)] by auto
    then have "conn_ok c2" by (simp add: in_frame_def)
    from posted_content_eats [OF this, of n r2 e2 a2 ok c' r' e' a']
    show ?thesis using run H L(2) True in_frame_trans [OF H(1)] by (auto split: if_splits)
  qed
qed

subsection \<open>One round\<close>

lemma poll_incoming: "socket_poll_for w = (ok, w') \<Longrightarrow> incoming w' = incoming w"
  using poll_got [of w ok w' 0] by (simp add: got_def)

lemma data_on_socket_kept: "conn_ok c \<Longrightarrow> data_on_socket c = (ok, c') \<Longrightarrow> conn_ok c' \<and> in_stream c' = in_stream c"
  by (auto simp: data_on_socket_def in_stream_def conn_ok_def poll_incoming split: prod.splits)

lemma answer_page_kept:
  assumes "conn_ok c" "answer_page env srv c request response e n a = Some (r, srv', c', request', response', e', a')"
  shows "conn_ok c' \<and> in_stream c' = in_stream c"
proof -
  let ?f = "\<lambda>(r :: round_result, srv :: http_server, c :: connection, x :: http_request \<times> http_response \<times> error \<times> allocator). c"
  have next_round: "kept ?f d (connection_flush d \<bind> (\<lambda>(ok, conn). request_recycle request \<bind> (\<lambda>request. response_recycle p b \<bind> (\<lambda>(response, a).
      Some (Round_next, srv, conn, request, response, e, a)))))" if "conn_ok d" for d srv p e b
  proof (rule kept_pair [OF flush_kept [OF that]], rule kept_pure, rule kept_pure)
    fix ok conn q x assume "conn_ok conn"
    then show "kept ?f conn (case x of (response, a) \<Rightarrow> Some (Round_next, srv, conn, q, response, e, a))" by (auto simp: kept_Some split: prod.split)
  qed
  have after: "kept ?f d (http_server_add_logentry (se_log env) srv request (response_get_status p) m \<bind> (\<lambda>srv. response_get_connection p \<bind> (\<lambda>s.
      if strcmp0 s ''close'' then Some (Round_return success, srv, d, request, p, e, b)
      else if \<not> connection_is_persistent d then Some (Round_return success, srv, d, request, p, e, b)
      else connection_flush d \<bind> (\<lambda>(ok, conn). request_recycle request \<bind> (\<lambda>request. response_recycle p b \<bind> (\<lambda>(response, a).
        Some (Round_next, srv, conn, request, response, e, a)))))))" if "conn_ok d" for d p m e b
    by (rule kept_pure, rule kept_pure, intro kept_if next_round that) (use that in \<open>simp_all add: kept_Some\<close>)
  have send: "kept ?f c (response_send (se_now env) (se_files env) p c e n b \<bind> (\<lambda>(ok, p, conn, e, m, b).
      if \<not> ok then Some (Round_return failure, srv, conn, request, p, e, b)
      else http_server_add_logentry (se_log env) srv request (response_get_status p) m \<bind> (\<lambda>srv. response_get_connection p \<bind> (\<lambda>s.
      if strcmp0 s ''close'' then Some (Round_return success, srv, conn, request, p, e, b)
      else if \<not> connection_is_persistent conn then Some (Round_return success, srv, conn, request, p, e, b)
      else connection_flush conn \<bind> (\<lambda>(ok, conn). request_recycle request \<bind> (\<lambda>request. response_recycle p b \<bind> (\<lambda>(response, a).
        Some (Round_next, srv, conn, request, response, e, a))))))))" for p b
  proof (rule kept_bind [OF response_send_kept [OF assms(1)]], goal_cases)
    case (1 x)
    obtain ok p' d e' m b' where x: "x = (ok, p', d, e', m, b')" by (metis prod_cases6)
    have d: "conn_ok d" using 1 x by simp
    show ?case unfolding x prod.case by (intro kept_if after d) (use d in \<open>simp add: kept_Some\<close>)
  qed
  have "kept ?f c (answer_page env srv c request response e n a)" unfolding answer_page_def
  proof (rule kept_pure, rule kept_pure, goal_cases)
    case (1 s x)
    obtain ok p b where x: "x = (ok, p, b)" by (cases x)
    show ?case unfolding x prod.case by (intro kept_if send) (use assms(1) in \<open>simp add: kept_Some\<close>)
  qed
  then show ?thesis using assms(2) by (auto simp: kept_def)
qed

lemma service_round_eats:
  assumes "conn_ok c" "service_round env srv c request response e n a = Some (Round_next, srv', c', request', response', e', a')"
  shows "conn_ok c' \<and> length (in_stream c') < length (in_stream c)"
proof -
  obtain ok0 c0 where d: "data_on_socket c = (ok0, c0)" by fastforce
  have c0: "conn_ok c0" "in_stream c0 = in_stream c" using data_on_socket_kept [OF assms(1) d] by simp_all
  have ok0 using assms(2) d by (cases ok0) (simp_all add: service_round_def)
  then obtain ok c1 req e1 a1 where r: "request_receive (se_mktime env) request c0 (http_server_get_post_limit srv) e a = Some (ok, c1, req, e1, a1)"
    using assms(2) d by (auto simp: service_round_def bind_eq_Some_conv)
  have R: "conn_ok c1" "ok \<longrightarrow> length (in_stream c1) < length (in_stream c0)" using request_receive_eats [OF c0(1) r] by (auto simp: in_frame_def)
  obtain ok2 req2 resp2 e2 a2 where p: "(if ok then dispatch env srv req response e1 a1 else Some (failure, req, response, e1, a1)) = Some (ok2, req2, resp2, e2, a2)"
    and run: "(if ok2 then answer_page env srv c1 req2 resp2 e2 n a2 else answer_error env srv c1 req2 resp2 e2 n a2 \<bind>
      (\<lambda>(srv, conn, response, e, a). Some (Round_return failure, srv, conn, req2, response, e, a))) = Some (Round_next, srv', c', request', response', e', a')"
    using assms(2) d \<open>ok0\<close> r by (auto simp: service_round_def bind_eq_Some_conv)
  have ok: ok2 ok using run p by (auto simp: bind_eq_Some_conv split: if_splits)
  then have "conn_ok c' \<and> in_stream c' = in_stream c1" using run answer_page_kept [OF R(1)] by simp
  then show ?thesis using R(2) ok(2) c0(2) by simp
qed

subsection \<open>The loop\<close>

lemma service_loop_fuel:
  assumes "conn_ok c" "length (in_stream c) < n" "length (in_stream c) < m"
  shows "service_loop n env sd srv c request response e k a = service_loop m env sd srv c request response e k a"
  using assms
proof (induction n arbitrary: m sd srv c request response e a)
  case (Suc n)
  then obtain l where m: "m = Suc l" by (cases m) auto
  have "service_loop n env (tl sd) srv' c' request' response' e' k a' = service_loop l env (tl sd) srv' c' request' response' e' k a'"
    if r: "service_round env srv c request response e k a = Some (Round_next, srv', c', request', response', e', a')" for srv' c' request' response' e' a'
    by (rule Suc.IH) (use service_round_eats [OF Suc.prems(1) r] Suc.prems(2,3) m in auto)
  then show ?case unfolding m service_loop.simps
    by (auto intro!: Option.bind_cong split: prod.split round_result.split)
qed simp

text \<open>
  C3. Serving a connection ends. Whatever the page functions, the file system, the clock, the allocator and the network do, and whatever state the request and
  the response are in, each round after which the loop goes on has consumed input of the connection; so \<open>serviceConnection2\<close>, which is given as many
  rounds as there are bytes of input and one more, is the loop of the code: it obeys the equation of the loop without a bound, and more rounds would not change its result.
\<close>
theorem service_ends:
  assumes "conn_ok conn"
  shows "serviceConnection2 env sd srv conn request response e cbSent a = (
      if (case sd of [] \<Rightarrow> False | b # _ \<Rightarrow> b) then Some (success, srv, conn, request, response, e, a)
      else do {
        (r, srv, conn, request, response, e, a) \<leftarrow> service_round env srv conn request response e cbSent a;
        (case r of
           Round_return st \<Rightarrow> Some (st, srv, conn, request, response, e, a)
         | Round_next \<Rightarrow> serviceConnection2 env (tl sd) srv conn request response e cbSent a) }) \<and>
    (\<forall>srv' conn' request' response' e' a'. service_round env srv conn request response e cbSent a = Some (Round_next, srv', conn', request', response', e', a') \<longrightarrow>
      conn_ok conn' \<and> length (in_stream conn') < length (in_stream conn)) \<and>
    (\<forall>n > length (in_stream conn). service_loop n env sd srv conn request response e cbSent a = serviceConnection2 env sd srv conn request response e cbSent a)"
proof (intro conjI allI impI)
  have "service_loop (length (in_stream conn)) env (tl sd) srv' c' request' response' e' cbSent a' = serviceConnection2 env (tl sd) srv' c' request' response' e' cbSent a'"
    if r: "service_round env srv conn request response e cbSent a = Some (Round_next, srv', c', request', response', e', a')" for srv' c' request' response' e' a'
    unfolding serviceConnection2_def by (rule service_loop_fuel) (use service_round_eats [OF assms r] in auto)
  then show "serviceConnection2 env sd srv conn request response e cbSent a = (
      if (case sd of [] \<Rightarrow> False | b # _ \<Rightarrow> b) then Some (success, srv, conn, request, response, e, a)
      else do {
        (r, srv, conn, request, response, e, a) \<leftarrow> service_round env srv conn request response e cbSent a;
        (case r of
           Round_return st \<Rightarrow> Some (st, srv, conn, request, response, e, a)
         | Round_next \<Rightarrow> serviceConnection2 env (tl sd) srv conn request response e cbSent a) })"
    unfolding serviceConnection2_def [of env sd srv conn] Suc_eq_plus1 [symmetric] service_loop.simps
    by (auto intro!: Option.bind_cong split: prod.split round_result.split)
next
  fix srv' conn' request' response' e' a'
  assume "service_round env srv conn request response e cbSent a = Some (Round_next, srv', conn', request', response', e', a')"
  from service_round_eats [OF assms this] show "conn_ok conn'" "length (in_stream conn') < length (in_stream conn)" by simp_all
next
  fix n
  assume "length (in_stream conn) < n"
  then show "service_loop n env sd srv conn request response e cbSent a = serviceConnection2 env sd srv conn request response e cbSent a"
    unfolding serviceConnection2_def by (rule service_loop_fuel [OF assms]) simp
qed

definition sample_env :: service_env where
  "sample_env = \<lparr>se_mktime = (\<lambda>_. 0), se_now = 0, se_files = (\<lambda>_. None), se_stat = (\<lambda>_. None),
     se_log = \<lparr>le_fopen = True, le_date = Some ''now'', le_fclose = True, le_rename = True, le_reopen = True, le_ip = ''ip'', le_written = True\<rparr>\<rparr>"

theorem service_ends_witness:
  "service_loop 100 sample_env [] sample_server (sample_conn sample_text) sample_rq sample_rs error_new 0 no_oom =
     serviceConnection2 sample_env [] sample_server (sample_conn sample_text) sample_rq sample_rs error_new 0 no_oom"
proof -
  have "length (in_stream (sample_conn sample_text)) < 100" unfolding sample_conn_ok by (simp add: sample_text_def crlf_def)
  then show ?thesis using service_ends [OF sample_conn_ok(1), THEN conjunct2, THEN conjunct2] by blast
qed


subsection \<open>A page that is not there\<close>

lemma quiet_data: "quiet c \<Longrightarrow> data_on_socket c = (True, c)"
  by (simp add: data_on_socket_def quiet_def poll_ready)

lemma dispatch_404:
  assumes "pages_rep srv xs" "request_get_uri req = Some (Some want)" "want \<notin> fst ` set xs" "hs_can_read_files srv = 0" "hs_default_handler srv = None"
  shows "dispatch env srv req p e a = Some (failure, req, p, set_http_error e 404, a)"
proof -
  have "find (\<lambda>x. fst x = want) xs = None" using assms(3) by (force simp: find_None_iff)
  then have "http_server_lookup srv req = Some None"
    using lookup_loop_spec [of xs "hs_pages srv" 0 want] assms(1,2) by (auto simp: pages_rep_def http_server_lookup_def)
  then show ?thesis using assms(4,5) by (simp add: dispatch_def http_server_can_read_files_def http_server_has_default_page_handler_def)
qed

text \<open>The general header of a response is not part of the rest of its message.\<close>

lemma general_header_apart:
  "with_length (r\<lparr>rs_general_header := g\<rparr>) = (with_length r)\<lparr>rs_general_header := g\<rparr>"
  "response_text line gh (r\<lparr>rs_general_header := g\<rparr>) ks body = response_text line gh r ks body"
  "rs_body files (with_length (r\<lparr>rs_general_header := g\<rparr>)) = rs_body files (with_length r)"
proof -
  show w: "with_length (r\<lparr>rs_general_header := g\<rparr>) = (with_length r)\<lparr>rs_general_header := g\<rparr>" for r
    by (simp add: with_length_def response_set_content_length_def)
  have "header_text gh (p\<lparr>rs_general_header := g\<rparr>) = header_text gh p" for p
    by (simp add: header_text_def rs_lines_def table_lines_def response_flag_isset_def)
  then show "response_text line gh (r\<lparr>rs_general_header := g\<rparr>) ks body = response_text line gh r ks body" by (simp add: response_text_def w has_entity_def)
  show "rs_body files (with_length (r\<lparr>rs_general_header := g\<rparr>)) = rs_body files (with_length r)"
    unfolding w by (simp add: rs_body_def response_get_content_length_def cong: if_cong)
qed

text \<open>The answer to a protocol error, on a network that does not fail.\<close>

lemma answer_error_sends:
  assumes "rs_ok p" "conn_ok c" "quiet c" "se_now env \<noteq> - 1" "rs_version p \<noteq> VERSION_09" "rs_cookie_list p ks" "cookies_short ks" "decisions a = []"
    "log_ok srv" "request_get_uri req = Some (Some want)" "is_protocol_error e" "get_error_code e \<in> {200, 404}" "status_line (response_set_status p (get_error_code e)) = Some line"
    "rs_body (se_files env) (with_length (response_set_status p (get_error_code e))) = Some body"
  obtains srv' c' p' gh where "answer_error env srv c req p e n a = Some (srv', c', p', e, a)" "log_ok srv'" "conn_ok c'" "in_stream c' = in_stream c"
    "gh_ok gh" "general_header_date_isset gh"
    "gh_view gh = (gh_view (rs_general_header p))(''connection'' \<mapsto> if connection_is_persistent c \<and> rs_version p = VERSION_10 then ''Keep-Alive'' else ''close'')"
    "out_stream c' = out_stream c @ response_text line gh (response_set_status p (get_error_code e)) ks body"
proof -
  let ?p = "response_set_status p (get_error_code e)"
  have p: "rs_ok ?p" using assms(1) by (simp add: response_set_status_def rs_simps)
  obtain g where g: "response_set_connection ?p ''close'' a = Some (True, ?p\<lparr>rs_general_header := g\<rparr>, a)" "rs_ok (?p\<lparr>rs_general_header := g\<rparr>)"
    "gh_view g = (gh_view (rs_general_header ?p))(''connection'' \<mapsto> ''close'')"
    by (rule connection_field_spec [OF p, of "''close''" a]) auto
  let ?q = "?p\<lparr>rs_general_header := g\<rparr>"
  have q: "rs_version ?q \<noteq> VERSION_09" "status_line ?q = Some line" "rs_cookie_list ?q ks" "rs_body (se_files env) (with_length ?q) = Some body" "has_entity ?q"
    using assms(5,6,12-14) by (simp_all add: general_header_apart(3) status_line_def rs_cookie_list_def has_entity_def response_set_status_def)
  obtain gh ok r' c' e' pcb' al where s: "sent_header (se_now env) c ?q gh" "response_send (se_now env) (se_files env) ?q c e n a = Some (ok, r', c', e', pcb', a)"
    "sends c (response_text line gh ?q ks body) (Some (al, c'))" "ok \<longleftrightarrow> al \<and> has_entity ?q" "al \<longrightarrow> e' = e" "ok \<longrightarrow> pcb' mod SIZE_MOD = length body mod SIZE_MOD"
    by (rule response_send_spec [OF g(2) assms(2,4) q(1-3) assms(7,8) q(4)])
  have al: al using s(3) assms(3) by (auto simp: sends_def)
  have st: "get_error_code e \<noteq> 0" using assms(12) by auto
  obtain srv' where l: "http_server_add_logentry (se_log env) srv req (get_error_code e) pcb' = Some srv'" "log_ok srv'" using logentry_ok [OF assms(9) st assms(10)] by blast
  have "answer_error env srv c req p e n a = Some (srv', c', r', e, a)" unfolding answer_error_def using assms(11) g(1) s(2,4,5) al q(5) l(1) by simp
  then show thesis
    by (rule that) (use s(1,3) al l(2) g(3) in \<open>auto simp: sends_def sent_header_def connection_is_persistent_def response_set_status_def general_header_apart(2)\<close>)
qed



definition plain_text :: string where
  "plain_text = ''GET / HTTP/1.1'' @ crlf @ crlf"

lemma plain_receive:
  obtains c' r' where "request_receive (\<lambda>_. 0) sample_rq (sample_conn plain_text) n error_new no_oom = Some (success, c', r', error_new, no_oom)"
    "request_get_uri r' = Some (Some ''/'')"
proof -
  let ?l = "''GET / HTTP/1.1''"
  have w: "line_words ?l = [''GET'', ''/'', ''HTTP/1.1'']" "skip_words 2 ?l = ''HTTP/1.1''" by code_simp+
  have r: "request_line_result ?l = Inr (METHOD_GET, ''/'', VERSION_11)"
    unfolding request_line_result_def w Let_def by (simp add: get_method_def get_version_def)
  have pre: "in_stream (sample_conn plain_text) = ?l @ crlf @ concat (map (\<lambda>l. l @ crlf) []) @ crlf @ []" "plain_line ?l" "length ?l < 10240"
    "\<forall>l \<in> set []. plain_line l \<and> l \<noteq> [] \<and> length l < 8266" using sample_conn_ok by (simp_all add: plain_text_def plain_line_def)
  obtain stale where R: "case (do { (ok, r, e, a) \<leftarrow> parse_request_line stale ?l sample_rq error_new no_oom;
        if ok then lines_meaning (\<lambda>_. 0) [] r e a else Some (failure, r, e, a) }) of
      None \<Rightarrow> request_receive (\<lambda>_. 0) sample_rq (sample_conn plain_text) n error_new no_oom = None
    | Some (ok, r', e', a') \<Rightarrow> \<not> ok \<or> request_get_method r' \<noteq> METHOD_POST \<or> request_get_defered_read r' \<noteq> 0 \<longrightarrow>
        (\<exists>c'. request_receive (\<lambda>_. 0) sample_rq (sample_conn plain_text) n error_new no_oom = Some (ok, c', r', e', a') \<and> (ok \<longrightarrow> in_stream c' = []))"
    using receive_meaning [where mktime = "\<lambda>_. 0" and r = sample_rq and e = error_new and a = no_oom and n = n, OF sample_conn_ok(1,2) pre] by blast
  have "roomy (rq_uri sample_rq) 0 (length ?l) no_oom" by (simp add: roomy_def sample_rq_def cs_of_def)
  moreover have "c_string ?l" "length ?l < 2 ^ 31" "1 < length (line_words ?l) \<longrightarrow> CHR ''?'' \<notin> set (line_words ?l ! 1)" unfolding w by simp_all
  ultimately obtain r1 where r1: "parse_request_line stale ?l sample_rq error_new no_oom = Some (True, r1, error_new, no_oom)" "rq_method r1 = METHOD_GET"
      "request_get_uri r1 = Some (Some ''/'')"
    using line_step [OF sample_rq_ok, of ?l no_oom stale error_new] r by auto
  then show thesis using R by (auto simp: request_get_method_def intro: that)
qed

lemma status_apart: "rs_body files (with_length (response_set_status r st)) = rs_body files (with_length r)"
proof -
  have "with_length (response_set_status r st) = (with_length r)\<lparr>rs_status := st\<rparr>" by (simp add: with_length_def response_set_content_length_def response_set_status_def)
  then show ?thesis by (simp add: rs_body_def response_get_content_length_def cong: if_cong)
qed


end
