(* ===== verification/MetaCache.thy ===== *)
theory MetaCache
  imports Metalist
begin

section \<open>A cache of objects with numbers\<close>

text \<open>
  \<open>src/meta/src/meta_cache.c\<close>: a hash table of lists of entries and a short list of the numbers that were used last. Data are values.
  What \<open>rand\<close> returns is an argument; a call that would need more of these numbers has the value \<open>None\<close>, as a fault has.
\<close>

subsection \<open>Data\<close>

record 'd cache_entry =
  ce_id :: size_t
  ce_data :: 'd
  ce_size :: size_t
  ce_pinned :: int

record 'd cache =
  ch_max_bytes :: size_t
  ch_current_bytes :: size_t
  ch_nelem :: size_t
  ch_table :: "'d cache_entry mlist option list"
  hotlist :: "size_t list"
  hotlist_nelem :: size_t

text \<open>\<open>malloc\<close> and \<open>calloc\<close> of the three blocks.\<close>

definition cache_new :: "size_t \<Rightarrow> size_t \<Rightarrow> size_t \<Rightarrow> allocator \<Rightarrow> ('d cache option \<times> allocator) option" where
  "cache_new nelem hot_nelem cb a = (if cb > 0 then Some (
     case try_alloc 48 a of
       (False, a) \<Rightarrow> (None, a)
     | (True, a) \<Rightarrow> (case try_alloc (8 * nelem) a of
         (False, a) \<Rightarrow> (None, a)
       | (True, a) \<Rightarrow> (case try_alloc (8 * hot_nelem) a of
           (False, a) \<Rightarrow> (None, a)
         | (True, a) \<Rightarrow> (Some \<lparr>ch_max_bytes = cb, ch_current_bytes = 0, ch_nelem = nelem, ch_table = replicate nelem None,
               hotlist = replicate hot_nelem 0, hotlist_nelem = hot_nelem\<rparr>, a))))
   else None)"

text \<open>The data the cleanup function is called for, in the order of the calls.\<close>

fun cache_free_loop :: "'d cache_entry mlist option list \<Rightarrow> 'd list option" where
  "cache_free_loop [] = Some []"
| "cache_free_loop (None # bs) = cache_free_loop bs"
| "cache_free_loop (Some lst # bs) = do {
     li \<leftarrow> list_first lst;
     ds \<leftarrow> for_iter lst (\<lambda>entry _ ds. Some (True, ds @ [ce_data entry])) li [];
     (_, _) \<leftarrow> list_free lst;
     ds' \<leftarrow> cache_free_loop bs;
     Some (ds @ ds') }"

definition cache_free :: "'d cache \<Rightarrow> 'd list option" where
  "cache_free c = cache_free_loop (take (ch_nelem c) (ch_table c))"

subsection \<open>The list of hot items\<close>

fun on_hotlist_loop :: "nat \<Rightarrow> nat \<Rightarrow> size_t list \<Rightarrow> size_t \<Rightarrow> nat option option" where
  "on_hotlist_loop i 0 h ident = Some None"
| "on_hotlist_loop i (Suc k) h ident = do { x \<leftarrow> get_at h i; if x = ident then Some (Some i) else on_hotlist_loop (Suc i) k h ident }"

definition on_hotlist :: "'d cache \<Rightarrow> size_t \<Rightarrow> bool option" where
  "on_hotlist c ident = do { r \<leftarrow> on_hotlist_loop 0 (hotlist_nelem c) (hotlist c) ident; Some (r \<noteq> None) }"

definition add_to_hotlist :: "'d cache \<Rightarrow> size_t \<Rightarrow> 'd cache option" where
  "add_to_hotlist c ident = do {
     x \<leftarrow> get_at (hotlist c) 0;
     if x = ident then Some c
     else do {
       r \<leftarrow> on_hotlist_loop 0 (hotlist_nelem c) (hotlist c) ident;
       (case r of
          Some i \<Rightarrow> do {
            h \<leftarrow> memmove (hotlist c) 1 0 (i - 1);
            h \<leftarrow> put_at h 0 ident;
            Some (c\<lparr>hotlist := h\<rparr>) }
        | None \<Rightarrow> do {
            h \<leftarrow> memmove (hotlist c) 1 0 (hotlist_nelem c - 1);
            h \<leftarrow> put_at h 0 ident;
            Some (c\<lparr>hotlist := h\<rparr>) }) } }"

definition remove_from_hotlist :: "'d cache \<Rightarrow> size_t \<Rightarrow> 'd cache option" where
  "remove_from_hotlist c ident = do {
     r \<leftarrow> on_hotlist_loop 0 (hotlist_nelem c) (hotlist c) ident;
     (case r of
        None \<Rightarrow> Some c
      | Some i \<Rightarrow> do {
          h \<leftarrow> (if i + 1 \<noteq> hotlist_nelem c then memmove (hotlist c) i (i + 1) (hotlist_nelem c - i - 1) else Some (hotlist c));
          h \<leftarrow> put_at h (hotlist_nelem c - 1) 0;
          Some (c\<lparr>hotlist := h\<rparr>) }) }"

subsection \<open>Finding, getting and removing\<close>

text \<open>A table without buckets is a division by zero.\<close>

definition bucket_of :: "'d cache \<Rightarrow> size_t \<Rightarrow> nat option" where
  "bucket_of c ident = (if ch_nelem c = 0 then None else Some (ident mod ch_nelem c))"

definition find_entry :: "'d cache \<Rightarrow> size_t \<Rightarrow> list_iterator option" where
  "find_entry c ident = do {
     hid \<leftarrow> bucket_of c ident;
     b \<leftarrow> get_at (ch_table c) hid;
     (case b of
        None \<Rightarrow> Some None
      | Some lst \<Rightarrow> do {
          i \<leftarrow> list_first lst;
          r \<leftarrow> for_iter lst (\<lambda>entry i s. Some (if ce_id entry = ident then (False, Some (entry, i)) else (True, s))) i None;
          Some (case r of None \<Rightarrow> None | Some (_, i) \<Rightarrow> i) }) }"

definition cache_exists :: "'d cache \<Rightarrow> size_t \<Rightarrow> bool option" where
  "cache_exists c ident = do { i \<leftarrow> find_entry c ident; Some (\<not> list_end i) }"

definition cache_get :: "'d cache \<Rightarrow> size_t \<Rightarrow> (status_t \<times> ('d \<times> size_t) option \<times> 'd cache) option" where
  "cache_get c ident = do {
     i \<leftarrow> find_entry c ident;
     if list_end i then Some (failure, None, c)
     else do {
       hid \<leftarrow> bucket_of c ident;
       b \<leftarrow> get_at (ch_table c) hid;
       lst \<leftarrow> b;
       entry \<leftarrow> list_get lst i;
       c \<leftarrow> add_to_hotlist c (ce_id entry);
       Some (success, Some (ce_data entry, ce_size entry), c) } }"

text \<open>The result has the data that was freed with its entry.\<close>

definition cache_remove :: "'d cache \<Rightarrow> size_t \<Rightarrow> (status_t \<times> errno_t \<times> 'd list \<times> 'd cache) option" where
  "cache_remove c ident = do {
     i \<leftarrow> find_entry c ident;
     if list_end i then Some (failure, ENOENT, [], c)
     else do {
       hid \<leftarrow> bucket_of c ident;
       b \<leftarrow> get_at (ch_table c) hid;
       lst \<leftarrow> b;
       (entry, _, lst) \<leftarrow> list_delete lst i;
       t \<leftarrow> put_at (ch_table c) hid (Some lst);
       c \<leftarrow> remove_from_hotlist (c\<lparr>ch_table := t\<rparr>) ident;
       Some (success, E0, [ce_data entry], c) } }"

subsection \<open>Adding\<close>

text \<open>
  The inner loop of \<open>make_space\<close> goes on from the node of the entry it has just removed, which is freed: \<open>list_next\<close> faults there.
\<close>

partial_function (option) evict_loop :: "'d cache \<Rightarrow> nat \<Rightarrow> list_iterator \<Rightarrow> 'd list \<Rightarrow> (status_t \<times> 'd list \<times> 'd cache) option" where [code]:
  "evict_loop c hid i dead = (
     if list_end i then Some (success, dead, c)
     else do {
       b \<leftarrow> get_at (ch_table c) hid;
       lst \<leftarrow> b;
       entry \<leftarrow> list_get lst i;
       hot \<leftarrow> on_hotlist c (ce_id entry);
       if \<not> hot \<and> ce_pinned entry = 0 then do {
         (ok, e, ds, c) \<leftarrow> cache_remove c (ce_id entry);
         if \<not> ok then Some (failure, dead, c)
         else do {
           b \<leftarrow> get_at (ch_table c) hid;
           lst \<leftarrow> b;
           i \<leftarrow> list_next lst i;
           evict_loop c hid i (dead @ ds) } }
       else do {
         i \<leftarrow> list_next lst i;
         evict_loop c hid i dead } })"

fun space_loop :: "nat list \<Rightarrow> 'd cache \<Rightarrow> size_t \<Rightarrow> 'd list \<Rightarrow> (status_t \<times> 'd list \<times> 'd cache \<times> nat list) option" where
  "space_loop rands c cb dead = (
     if szt (ch_current_bytes c + cb) \<le> ch_max_bytes c then Some (success, dead, c, rands)
     else (case rands of
         [] \<Rightarrow> None
       | r # rands \<Rightarrow> do {
           hid \<leftarrow> bucket_of c r;
           b \<leftarrow> get_at (ch_table c) hid;
           (case b of
              None \<Rightarrow> space_loop rands c cb dead
            | Some lst \<Rightarrow> do {
                i \<leftarrow> list_first lst;
                (ok, dead, c) \<leftarrow> evict_loop c hid i dead;
                if \<not> ok then Some (failure, dead, c, rands) else space_loop rands c cb dead }) }))"

declare space_loop.simps [simp del]

definition make_space :: "nat list \<Rightarrow> 'd cache \<Rightarrow> size_t \<Rightarrow> (status_t \<times> errno_t \<times> 'd list \<times> 'd cache \<times> nat list) option" where
  "make_space rands c cb = (
     if cb > ch_max_bytes c then Some (failure, ENOSPC, [], c, rands)
     else do { (ok, dead, c, rands) \<leftarrow> space_loop rands c cb []; Some (ok, E0, dead, c, rands) })"

definition cache_add :: "nat list \<Rightarrow> 'd cache \<Rightarrow> size_t \<Rightarrow> 'd \<Rightarrow> size_t \<Rightarrow> int \<Rightarrow> allocator \<Rightarrow> (status_t \<times> 'd list \<times> 'd cache \<times> nat list \<times> allocator) option" where
  "cache_add rands c ident data cb pin a = do {
     hid \<leftarrow> bucket_of c ident;
     (ok, e, dead, c, rands) \<leftarrow> make_space rands c cb;
     if \<not> ok then Some (failure, dead, c, rands, a)
     else (case try_alloc 40 a of
         (False, a) \<Rightarrow> Some (failure, dead, c, rands, a)
       | (True, a) \<Rightarrow> do {
           let entry = \<lparr>ce_id = ident, ce_data = data, ce_size = cb, ce_pinned = pin\<rparr>;
           there \<leftarrow> cache_exists c ident;
           if there then None
           else do {
             b \<leftarrow> get_at (ch_table c) hid;
             let (b, a) = (case b of Some lst \<Rightarrow> (Some lst, a) | None \<Rightarrow> list_new a);
             (case b of
                None \<Rightarrow> Some (failure, dead, c, rands, a)
              | Some lst \<Rightarrow> do {
                  (ok, lst, a) \<leftarrow> list_add_to lst entry a;
                  t \<leftarrow> put_at (ch_table c) hid (Some lst);
                  Some (ok, dead, c\<lparr>ch_table := t\<rparr>, rands, a) }) } }) }"


subsection \<open>The hot list\<close>

definition first_at :: "size_t list \<Rightarrow> size_t \<Rightarrow> nat option" where
  "first_at h ident = (if ident \<in> set h then Some (length (takeWhile (\<lambda>x. x \<noteq> ident) h)) else None)"

text \<open>What \<open>add_to_hotlist\<close> makes of the list: a number that is there stays there as well, and the one in front of it is lost.\<close>

definition hot_after :: "size_t list \<Rightarrow> size_t \<Rightarrow> size_t list" where
  "hot_after h ident = (if hd h = ident then h
     else case first_at h ident of Some i \<Rightarrow> ident # take (i - 1) h @ drop i h | None \<Rightarrow> ident # butlast h)"

lemma hot_loop: "i + k = length h \<Longrightarrow> on_hotlist_loop i k h ident = Some (map_option ((+) i) (first_at (drop i h) ident))"
proof (induction k arbitrary: i)
  case (Suc k)
  then have d: "drop i h = h ! i # drop (Suc i) h" "i < length h" by (simp_all add: Cons_nth_drop_Suc)
  show ?case using Suc d by (auto simp: get_at_def first_at_def)
qed (simp add: first_at_def)

lemma first_at_bound: "first_at h ident = Some i \<Longrightarrow> i < length h \<and> h ! i = ident"
proof -
  assume f: "first_at h ident = Some i"
  then have i: "ident \<in> set h" "i = length (takeWhile (\<lambda>x. x \<noteq> ident) h)" by (auto simp: first_at_def split: if_splits)
  obtain as bs where h: "h = as @ ident # bs" "ident \<notin> set as" using split_list_first [OF i(1)] by blast
  have "takeWhile (\<lambda>x. x \<noteq> ident) (as @ ident # bs) = as" using h(2) by (subst takeWhile_append2) auto
  then show ?thesis using i(2) h(1) by simp
qed

lemma add_to_hotlist_spec:
  assumes "length (hotlist c) = hotlist_nelem c" "0 < hotlist_nelem c"
  shows "add_to_hotlist c ident = Some (c\<lparr>hotlist := hot_after (hotlist c) ident\<rparr>)" "length (hot_after (hotlist c) ident) = hotlist_nelem c"
proof -
  let ?h = "hotlist c"
  have loop: "on_hotlist_loop 0 (hotlist_nelem c) ?h ident = Some (first_at ?h ident)" using hot_loop [of 0 "hotlist_nelem c" ?h ident] assms(1) by (cases "first_at (hotlist c) ident") auto
  have hd: "get_at ?h 0 = Some (hd ?h)" using assms by (cases ?h) (auto simp: get_at_def)
  have pos: "0 < i" if "first_at ?h ident = Some i" "hd ?h \<noteq> ident" for i using first_at_bound [OF that(1)] that(2) assms by (cases i; cases ?h) auto
  have "add_to_hotlist c ident = Some (c\<lparr>hotlist := hot_after ?h ident\<rparr>) \<and> length (hot_after ?h ident) = hotlist_nelem c"
  proof (cases "hd ?h = ident")
    case True
    then show ?thesis using hd assms by (simp add: add_to_hotlist_def hot_after_def)
  next
    case ne: False
    show ?thesis
    proof (cases "first_at ?h ident")
      case None
      have "memmove ?h 1 0 (hotlist_nelem c - 1) = Some (take 1 ?h @ butlast ?h)" using assms by (simp add: memmove_Some butlast_conv_take)
      moreover have "put_at (take 1 ?h @ butlast ?h) 0 ident = Some (ident # butlast ?h)" using assms by (cases ?h) (auto simp: put_at_def)
      ultimately show ?thesis using ne hd loop None assms by (simp add: add_to_hotlist_def hot_after_def)
    next
      case (Some i)
      have i: "0 < i" "i < length ?h" using pos [OF Some ne] first_at_bound [OF Some] by auto
      have "memmove ?h 1 0 (i - 1) = Some (take 1 ?h @ take (i - 1) ?h @ drop i ?h)" using i by (simp add: memmove_Some)
      moreover have "put_at (take 1 ?h @ take (i - 1) ?h @ drop i ?h) 0 ident = Some (ident # take (i - 1) ?h @ drop i ?h)" using assms by (cases ?h) (auto simp: put_at_def)
      ultimately show ?thesis using ne hd loop Some i assms by (simp add: add_to_hotlist_def hot_after_def)
    qed
  qed
  then show "add_to_hotlist c ident = Some (c\<lparr>hotlist := hot_after (hotlist c) ident\<rparr>)" "length (hot_after (hotlist c) ident) = hotlist_nelem c" by auto
qed

lemma remove_from_hotlist_spec:
  assumes "length (hotlist c) = hotlist_nelem c"
  obtains h where "remove_from_hotlist c ident = Some (c\<lparr>hotlist := h\<rparr>)" "length h = hotlist_nelem c"
proof -
  let ?h = "hotlist c" and ?n = "hotlist_nelem c"
  have loop: "on_hotlist_loop 0 ?n ?h ident = Some (first_at ?h ident)" using hot_loop [of 0 ?n ?h ident] assms by (cases "first_at (hotlist c) ident") auto
  show thesis
  proof (cases "first_at ?h ident")
    case None
    then show thesis using loop assms by (intro that [of ?h]) (simp_all add: remove_from_hotlist_def)
  next
    case (Some i)
    have i: "i < ?n" using first_at_bound [OF Some] assms by simp
    obtain h1 where m: "(if i + 1 \<noteq> ?n then memmove ?h i (i + 1) (?n - i - 1) else Some ?h) = Some h1" "length h1 = ?n"
      using i assms by (cases "i + 1 = ?n") (simp_all add: memmove_Some)
    have "put_at h1 (?n - 1) 0 = Some (h1[?n - 1 := 0])" using m(2) i by (simp add: put_at_def)
    then show thesis using loop Some m by (intro that [of "h1[?n - 1 := 0]"]) (simp_all add: remove_from_hotlist_def)
  qed
qed


subsection \<open>The cache as a map\<close>

text \<open>
  The buckets hold lists with the entries of their numbers, no number twice. The count of the bytes is 0 in every state: no function changes it.
\<close>

definition buckets_ok :: "'d cache \<Rightarrow> 'd cache_entry list list \<Rightarrow> bool" where
  "buckets_ok c bs \<longleftrightarrow> list_all2 orep (ch_table c) bs \<and> length bs = ch_nelem c \<and>
     (\<forall>h < ch_nelem c. distinct (map ce_id (bs ! h)) \<and> (\<forall>e \<in> set (bs ! h). ce_id e mod ch_nelem c = h))"

definition bucket_map :: "nat \<Rightarrow> 'd cache_entry list list \<Rightarrow> size_t \<rightharpoonup> 'd cache_entry" where
  "bucket_map n bs ident = find (\<lambda>e. ce_id e = ident) (bs ! (ident mod n))"

definition cache_frame :: "'d cache \<Rightarrow> bool" where
  "cache_frame c \<longleftrightarrow> 0 < ch_nelem c \<and> 0 < hotlist_nelem c \<and> length (hotlist c) = hotlist_nelem c \<and> ch_current_bytes c = 0"

definition cache_rep :: "'d cache \<Rightarrow> (size_t \<rightharpoonup> 'd cache_entry) \<Rightarrow> bool" where
  "cache_rep c m \<longleftrightarrow> cache_frame c \<and> (\<exists>bs. buckets_ok c bs \<and> m = bucket_map (ch_nelem c) bs)"

lemma buckets_at: "buckets_ok c bs \<Longrightarrow> h < ch_nelem c \<Longrightarrow> orep (ch_table c ! h) (bs ! h) \<and> get_at (ch_table c) h = Some (ch_table c ! h)"
  by (auto simp: buckets_ok_def get_at_def list_all2_conv_all_nth)

lemma find_split: "find P xs = Some e \<Longrightarrow> \<exists>ys. dropWhile (\<lambda>x. \<not> P x) xs = e # ys"
  by (induction xs) (auto split: if_splits)

lemma find_entry_spec:
  fixes ident :: size_t
  assumes "cache_frame c" "buckets_ok c bs"
  defines "h \<equiv> ident mod ch_nelem c"
  shows "case bucket_map (ch_nelem c) bs ident of None \<Rightarrow> find_entry c ident = Some None
    | Some e \<Rightarrow> \<exists>i l xs ys. find_entry c ident = Some i \<and> ch_table c ! h = Some l \<and> lcur l xs i (e # ys) \<and> bs ! h = xs @ e # ys"
proof -
  have h: "bucket_of c ident = Some h" "h < ch_nelem c" using assms(1) by (simp_all add: bucket_of_def h_def cache_frame_def)
  note B = buckets_at [OF assms(2) h(2)]
  let ?P = "\<lambda>e. ce_id e = ident"
  have m: "bucket_map (ch_nelem c) bs ident = find ?P (bs ! h)" by (simp add: bucket_map_def h_def)
  show ?thesis
  proof (cases "ch_table c ! h")
    case None
    then show ?thesis using B h(1) m by (simp add: find_entry_def orep_def)
  next
    case (Some l)
    then have l: "lrep l (bs ! h)" using B by (simp add: orep_def)
    obtain i0 where i0: "list_first l = Some i0" "lcur l [] i0 (bs ! h)" using list_first_spec(1) [OF l] by blast
    obtain j where j: "for_iter l (\<lambda>entry i s. Some (if ce_id entry = ident then (False, Some (entry, i)) else (True, s))) i0 None =
        Some (map_option (\<lambda>x. (x, j)) (find ?P (bs ! h)))"
      "find ?P (bs ! h) \<noteq> None \<longrightarrow> lcur l ([] @ takeWhile (\<lambda>x. \<not> ?P x) (bs ! h)) j (dropWhile (\<lambda>x. \<not> ?P x) (bs ! h))"
      using for_iter_find [OF _ i0(2), of "\<lambda>entry i s. Some (if ce_id entry = ident then (False, Some (entry, i)) else (True, s))" ?P] by auto
    have run: "find_entry c ident = Some (case find ?P (bs ! h) of None \<Rightarrow> None | Some e \<Rightarrow> j)"
      using h(1) B Some i0(1) j(1) by (auto simp: find_entry_def split: option.split)
    show ?thesis
    proof (cases "find ?P (bs ! h)")
      case None
      then show ?thesis using run m by simp
    next
      case e: (Some e)
      obtain ys where ys: "dropWhile (\<lambda>x. \<not> ?P x) (bs ! h) = e # ys" using find_split [OF e] by blast
      then have "bs ! h = takeWhile (\<lambda>x. \<not> ?P x) (bs ! h) @ e # ys" by (metis takeWhile_dropWhile_id)
      then show ?thesis using run m e j(2) ys Some by auto
    qed
  qed
qed

lemma cache_existsI: "cache_rep c m \<Longrightarrow> cache_exists c ident = Some (m ident \<noteq> None)"
proof -
  assume "cache_rep c m"
  then obtain bs where c: "cache_frame c" "buckets_ok c bs" "m = bucket_map (ch_nelem c) bs" by (auto simp: cache_rep_def)
  show ?thesis using find_entry_spec [OF c(1,2), of ident] cursor_laws(2) by (fastforce simp: cache_exists_def c(3) list_end_def split: option.splits)
qed

text \<open>A change of one bucket.\<close>

lemma buckets_update:
  assumes "buckets_ok c bs" "h < ch_nelem c" "lrep l es" "distinct (map ce_id es)" "\<forall>e \<in> set es. ce_id e mod ch_nelem c = h"
  shows "buckets_ok (c\<lparr>ch_table := (ch_table c)[h := Some l]\<rparr>) (bs[h := es])"
  using assms by (auto simp: buckets_ok_def nth_list_update list_all2_conv_all_nth orep_def)

lemma find_distinct: "distinct (map ce_id es) \<Longrightarrow> e \<in> set es \<Longrightarrow> find (\<lambda>x. ce_id x = ce_id e) es = Some e"
  by (induction es) (auto simp: image_iff)

lemma entries_append: "find P (xs @ ys) = (case find P xs of None \<Rightarrow> find P ys | Some x \<Rightarrow> Some x)"
  by (induction xs) auto

lemma find_none_iff: "find (\<lambda>e. ce_id e = i) es = None \<longleftrightarrow> i \<notin> ce_id ` set es"
  by (force simp: find_None_iff)

lemma find_remove:
  "distinct (map ce_id (xs @ e # ys)) \<Longrightarrow> find (\<lambda>x. ce_id x = k) (xs @ ys) = (if k = ce_id e then None else find (\<lambda>x. ce_id x = k) (xs @ e # ys))"
proof (induction xs)
  case Nil
  then show ?case by (auto simp: find_none_iff)
qed auto

lemma list_delete_cur: "lcur l xs i (y # ys) \<Longrightarrow> \<exists>j l'. list_delete l i = Some (y, j, l') \<and> lrep l' (xs @ ys)"
proof -
  assume a: "lcur l xs i (y # ys)"
  obtain d axs p bxs where c: "lchain l d (axs @ (p, y) # bxs)" "i = Some p" using a by (rule lcurE)
  from list_remove_spec [OF a] obtain j l' where "list_remove_node l i = Some (j, l')" "lcur l' xs j ys" by blast
  then show ?thesis using c chain_cell [OF c(1)] lcur_lrep(1) by (auto simp: list_delete_def item_of_def)
qed

lemma cache_remove_spec:
  assumes "cache_rep c m"
  shows "case m ident of None \<Rightarrow> cache_remove c ident = Some (failure, ENOENT, [], c)
    | Some e \<Rightarrow> \<exists>c'. cache_remove c ident = Some (success, E0, [ce_data e], c') \<and> cache_rep c' (m(ident := None)) \<and> ch_max_bytes c' = ch_max_bytes c"
proof -
  obtain bs where c: "cache_frame c" "buckets_ok c bs" "m = bucket_map (ch_nelem c) bs" using assms by (auto simp: cache_rep_def)
  let ?n = "ch_nelem c" and ?h = "ident mod ch_nelem c"
  have h: "bucket_of c ident = Some ?h" "?h < ?n" using c(1) by (simp_all add: bucket_of_def cache_frame_def)
  note B = buckets_at [OF c(2) h(2)]
  show ?thesis
  proof (cases "m ident")
    case None
    then show ?thesis using find_entry_spec [OF c(1,2), of ident] c(3) by (simp add: cache_remove_def list_end_def)
  next
    case (Some e)
    then obtain i l xs ys where f: "find_entry c ident = Some i" "ch_table c ! ?h = Some l" "lcur l xs i (e # ys)" "bs ! ?h = xs @ e # ys"
      using find_entry_spec [OF c(1,2), of ident] c(3) by auto
    obtain j l' where d: "list_delete l i = Some (e, j, l')" "lrep l' (xs @ ys)" using list_delete_cur [OF f(3)] by blast
    have ie: "\<not> list_end i" using cursor_laws(2) [OF f(3)] by simp
    let ?c = "c\<lparr>ch_table := (ch_table c)[?h := Some l']\<rparr>"
    obtain hl where hl: "remove_from_hotlist ?c ident = Some (?c\<lparr>hotlist := hl\<rparr>)" "length hl = hotlist_nelem ?c"
      by (rule remove_from_hotlist_spec [of ?c ident]) (use c(1) in \<open>auto simp: cache_frame_def\<close>)
    have len: "?h < length (ch_table c)" using c(2) h(2) by (auto simp: buckets_ok_def dest: list_all2_lengthD)
    have run: "cache_remove c ident = Some (success, E0, [ce_data e], ?c\<lparr>hotlist := hl\<rparr>)"
      using f(1,2) ie h(1) B d(1) hl(1) len by (simp add: cache_remove_def put_at_def)
    have id: "ce_id e = ident" using Some c(3) by (auto simp: bucket_map_def find_Some_iff)
    have dist: "distinct (map ce_id (xs @ e # ys))" "\<forall>x \<in> set (xs @ e # ys). ce_id x mod ?n = ?h"
      using c(2) h(2) unfolding f(4) [symmetric] by (auto simp: buckets_ok_def)
    have "buckets_ok ?c (bs[?h := xs @ ys])" by (rule buckets_update [OF c(2) h(2) d(2)]) (use dist in auto)
    then have "buckets_ok (?c\<lparr>hotlist := hl\<rparr>) (bs[?h := xs @ ys])" by (simp add: buckets_ok_def)
    moreover have "m(ident := None) = bucket_map ?n (bs[?h := xs @ ys])"
    proof
      fix k
      show "(m(ident := None)) k = bucket_map ?n (bs[?h := xs @ ys]) k"
      proof (cases "k mod ?n = ?h")
        case False
        then show ?thesis using c(3) by (auto simp: bucket_map_def)
      next
        case True
        have "bs[?h := xs @ ys] ! (k mod ?n) = xs @ ys" using True c(2) h(2) by (simp add: buckets_ok_def)
        then show ?thesis using True c(3) f(4) id find_remove [OF dist(1), of k] by (auto simp: bucket_map_def)
      qed
    qed
    ultimately show ?thesis using Some run c(1) hl(2) by (auto simp: cache_rep_def cache_frame_def)
  qed
qed

lemma make_space_spec: "cache_rep c m \<Longrightarrow> ch_max_bytes c < SIZE_MOD \<Longrightarrow>
    make_space rands c cb = Some (if cb > ch_max_bytes c then (failure, ENOSPC, [], c, rands) else (success, E0, [], c, rands))"
  by (auto simp: cache_rep_def cache_frame_def make_space_def space_loop.simps szt_def)


lemma cache_add_spec:
  assumes "cache_rep c m" "ch_max_bytes c < SIZE_MOD" "cb \<le> ch_max_bytes c" "m ident = None"
  shows "\<exists>ok c' a'. cache_add rands c ident d cb pin a = Some (ok, [], c', rands, a') \<and>
    cache_rep c' (if ok then m(ident \<mapsto> \<lparr>ce_id = ident, ce_data = d, ce_size = cb, ce_pinned = pin\<rparr>) else m) \<and>
    ch_max_bytes c' = ch_max_bytes c \<and> (decisions a = [] \<longrightarrow> ok \<and> a' = a)"
proof -
  obtain bs where c: "cache_frame c" "buckets_ok c bs" "m = bucket_map (ch_nelem c) bs" using assms(1) by (auto simp: cache_rep_def)
  let ?n = "ch_nelem c" and ?h = "ident mod ch_nelem c" and ?e = "\<lparr>ce_id = ident, ce_data = d, ce_size = cb, ce_pinned = pin\<rparr>"
  have h: "bucket_of c ident = Some ?h" "?h < ?n" using c(1) by (simp_all add: bucket_of_def cache_frame_def)
  note B = buckets_at [OF c(2) h(2)]
  have len: "?h < length (ch_table c)" using c(2) h(2) by (auto simp: buckets_ok_def dest: list_all2_lengthD)
  obtain ok1 a1 where al: "try_alloc 40 a = (ok1, a1)" "decisions a = [] \<longrightarrow> ok1 \<and> a1 = a"
    by (cases "try_alloc 40 a") (auto simp: try_alloc_def PTRDIFF_MAX_def split: list.splits)
  define nb where "nb = (case ch_table c ! ?h of Some lst \<Rightarrow> (Some lst, a1) | None \<Rightarrow> list_new a1)"
  obtain b a2 where nb: "nb = (b, a2)" by fastforce
  have b: "\<forall>l. b = Some l \<longrightarrow> lrep l (bs ! ?h)" "decisions a1 = [] \<longrightarrow> b \<noteq> None \<and> a2 = a1"
  proof (atomize (full), cases "ch_table c ! ?h")
    case None
    then show "(\<forall>l. b = Some l \<longrightarrow> lrep l (bs ! ?h)) \<and> (decisions a1 = [] \<longrightarrow> b \<noteq> None \<and> a2 = a1)"
      using B nb list_new_result [of a1 b a2] by (simp add: nb_def orep_def)
  next
    case (Some l)
    then have "b = Some l" "a2 = a1" using nb by (simp_all add: nb_def)
    then show "(\<forall>l. b = Some l \<longrightarrow> lrep l (bs ! ?h)) \<and> (decisions a1 = [] \<longrightarrow> b \<noteq> None \<and> a2 = a1)"
      using B Some by (simp add: orep_def)
  qed
  have run: "cache_add rands c ident d cb pin a = (if \<not> ok1 then Some (failure, [], c, rands, a1)
      else case b of None \<Rightarrow> Some (failure, [], c, rands, a2)
        | Some lst \<Rightarrow> do { (ok, lst, a) \<leftarrow> list_add_to lst ?e a2; t \<leftarrow> put_at (ch_table c) ?h (Some lst); Some (ok, [], c\<lparr>ch_table := t\<rparr>, rands, a) })"
    unfolding cache_add_def using h(1) make_space_spec [OF assms(1,2)] assms(3,4) cache_existsI [OF assms(1), of ident] al(1) B nb [unfolded nb_def]
    by simp
  show ?thesis
  proof (cases "ok1 \<and> b \<noteq> None")
    case False
    then have "cache_add rands c ident d cb pin a = Some (failure, [], c, rands, if ok1 then a2 else a1)" using run by (cases ok1) auto
    moreover have "decisions a \<noteq> []" using False al(2) b(2) by auto
    ultimately show ?thesis using assms(1) by (intro exI [of _ False]) simp
  next
    case True
    then obtain lst where lst: "b = Some lst" "lrep lst (bs ! ?h)" using b(1) by blast
    obtain ok l' a3 where ad: "list_add_to lst ?e a2 = Some (ok, l', a3)" "lrep l' (if ok then (bs ! ?h) @ [?e] else bs ! ?h)" "decisions a2 = [] \<longrightarrow> ok \<and> a3 = a2"
      using list_add_to_spec [OF lst(2), of ?e a2] by blast
    let ?c = "c\<lparr>ch_table := (ch_table c)[?h := Some l']\<rparr>" and ?es = "if ok then (bs ! ?h) @ [?e] else bs ! ?h"
    have "cache_add rands c ident d cb pin a = Some (ok, [], ?c, rands, a3)" using run True lst(1) ad(1) len by (simp add: put_at_def)
    moreover have "cache_rep ?c (if ok then m(ident \<mapsto> ?e) else m)"
    proof -
      have fn: "find (\<lambda>e. ce_id e = ident) (bs ! ?h) = None" using assms(4) c(3) by (simp add: bucket_map_def)
      have no: "ident \<notin> ce_id ` set (bs ! ?h)" using assms(4) c(3) by (simp add: bucket_map_def find_none_iff)
      have "distinct (map ce_id ?es)" "\<forall>e \<in> set ?es. ce_id e mod ?n = ?h" using c(2) h(2) no by (auto simp: buckets_ok_def)
      then have "buckets_ok ?c (bs[?h := ?es])" by (rule buckets_update [OF c(2) h(2) ad(2)])
      moreover have "(if ok then m(ident \<mapsto> ?e) else m) k = bucket_map ?n (bs[?h := ?es]) k" for k
      proof (cases "k mod ?n = ?h")
        case False
        then show ?thesis using c(3) by (auto simp: bucket_map_def)
      next
        case True
        have "bs[?h := ?es] ! (k mod ?n) = ?es" using True c(2) h(2) by (simp add: buckets_ok_def)
        then show ?thesis using True c(3) fn by (auto simp: bucket_map_def entries_append split: option.split)
      qed
      ultimately show ?thesis using c(1) unfolding cache_rep_def cache_frame_def by (auto intro!: exI [of _ "bs[?h := ?es]"])
    qed
    moreover have "decisions a = [] \<longrightarrow> ok \<and> a3 = a" using al(2) b(2) ad(3) by auto
    ultimately show ?thesis by (intro exI [of _ ok] exI [of _ ?c] exI [of _ a3]) simp
  qed
qed

subsection \<open>Freeing\<close>

lemma concat_distinct:
  assumes "buckets_ok c bs"
  shows "k \<le> ch_nelem c \<Longrightarrow> distinct (map ce_id (concat (take k bs))) \<and> (\<forall>e \<in> set (concat (take k bs)). ce_id e mod ch_nelem c < k)"
proof (induction k)
  case (Suc k)
  have "take (Suc k) bs = take k bs @ [bs ! k]" using Suc.prems assms by (simp add: buckets_ok_def take_Suc_conv_app_nth)
  moreover have "distinct (map ce_id (bs ! k))" "\<forall>e \<in> set (bs ! k). ce_id e mod ch_nelem c = k" using assms Suc.prems by (auto simp: buckets_ok_def)
  ultimately show ?case using Suc by (fastforce simp: less_Suc_eq)
qed simp

lemma cache_free_loop_spec: "list_all2 orep ts bs \<Longrightarrow> cache_free_loop ts = Some (map ce_data (concat bs))"
proof (induction ts bs rule: list_all2_induct)
  case (Cons t ts b bs)
  show ?case
  proof (cases t)
    case None
    then show ?thesis using Cons by (simp add: orep_def)
  next
    case (Some l)
    then have l: "lrep l b" using Cons.hyps(1) by (simp add: orep_def)
    obtain i where i: "list_first l = Some i" "lcur_weak l [] i b" using list_first_spec(2) [OF lrep_weak(1) [OF l]] by blast
    have fs: "fold_stop (\<lambda>x ds. Some (True, ds @ [ce_data x])) xs ds = Some (ds @ map ce_data xs)" for xs :: "'a cache_entry list" and ds
      by (induction xs arbitrary: ds) simp_all
    have f: "for_iter l (\<lambda>entry _ ds. Some (True, ds @ [ce_data entry])) i [] = Some (map ce_data b)"
      using lw.loop_fold [OF _ i(2), of "\<lambda>entry _ ds. Some (True, ds @ [ce_data entry])" "\<lambda>x ds. Some (True, ds @ [ce_data x])" "[]"] fs by simp
    obtain l' where "list_free l = Some (b, l')" using list_free_spec [OF lrep_weak(1) [OF l]] by blast
    then show ?thesis using Some i(1) f Cons.IH by simp
  qed
qed simp

lemma cache_free_spec:
  assumes "cache_rep c m"
  shows "\<exists>ds. cache_free c = Some ds \<and> finite (dom m) \<and> mset ds = image_mset (\<lambda>i. ce_data (the (m i))) (mset_set (dom m))"
proof -
  obtain bs where c: "cache_frame c" "buckets_ok c bs" "m = bucket_map (ch_nelem c) bs" using assms by (auto simp: cache_rep_def)
  let ?es = "concat bs"
  have l: "length (ch_table c) = ch_nelem c" "length bs = ch_nelem c" using c(2) by (auto simp: buckets_ok_def dest: list_all2_lengthD)
  have f: "cache_free c = Some (map ce_data ?es)" using cache_free_loop_spec [of "ch_table c" bs] c(2) l(1) by (simp add: cache_free_def buckets_ok_def)
  have d: "distinct (map ce_id ?es)" using concat_distinct [OF c(2), of "ch_nelem c"] l(2) by simp
  have at: "m (ce_id e) = Some e" if e: "e \<in> set ?es" for e
  proof -
    obtain h where h: "h < ch_nelem c" "e \<in> set (bs ! h)" using e l(2) by (auto simp: in_set_conv_nth [of _ bs])
    then have "ce_id e mod ch_nelem c = h" "distinct (map ce_id (bs ! h))" using c(2) by (auto simp: buckets_ok_def)
    then show ?thesis using find_distinct h(2) c(3) by (simp add: bucket_map_def)
  qed
  have dom: "dom m = ce_id ` set ?es"
  proof (intro equalityI subsetI)
    fix i assume "i \<in> dom m"
    then obtain e where e: "m i = Some e" by blast
    then have "e \<in> set (bs ! (i mod ch_nelem c))" "ce_id e = i" using c(3) by (auto simp: bucket_map_def find_Some_iff)
    moreover have "i mod ch_nelem c < length bs" using c(1) l(2) by (simp add: cache_frame_def)
    ultimately show "i \<in> ce_id ` set ?es" using nth_mem by fastforce
  qed (use at in auto)
  have "mset_set (dom m) = mset (map ce_id ?es)" using mset_set_set [OF d] dom by simp
  then have "image_mset (\<lambda>i. ce_data (the (m i))) (mset_set (dom m)) = mset (map (\<lambda>e. ce_data (the (m (ce_id e)))) ?es)" by (simp add: image_mset.compositionality comp_def)
  also have "map (\<lambda>e. ce_data (the (m (ce_id e)))) ?es = map ce_data ?es" using at by (intro map_cong) auto
  finally show ?thesis using f dom by simp
qed


lemma cache_get_spec:
  assumes "cache_rep c m"
  obtains c' where "cache_get c ident = Some (m ident \<noteq> None, map_option (\<lambda>e. (ce_data e, ce_size e)) (m ident), c')" "cache_rep c' m" "ch_max_bytes c' = ch_max_bytes c"
    "c' = (if m ident = None then c else c\<lparr>hotlist := hot_after (hotlist c) ident\<rparr>)"
proof -
  obtain bs where c: "cache_frame c" "buckets_ok c bs" "m = bucket_map (ch_nelem c) bs" using assms by (auto simp: cache_rep_def)
  have h: "bucket_of c ident = Some (ident mod ch_nelem c)" "ident mod ch_nelem c < ch_nelem c" using c(1) by (simp_all add: bucket_of_def cache_frame_def)
  show thesis
  proof (cases "m ident")
    case None
    then show thesis using find_entry_spec [OF c(1,2), of ident] c(3) assms by (intro that [of c]) (simp_all add: cache_get_def list_end_def)
  next
    case (Some e)
    then obtain i l xs ys where f: "find_entry c ident = Some i" "ch_table c ! (ident mod ch_nelem c) = Some l" "lcur l xs i (e # ys)"
      using find_entry_spec [OF c(1,2), of ident] c(3) by auto
    let ?c = "c\<lparr>hotlist := hot_after (hotlist c) ident\<rparr>"
    have "\<not> list_end i" "list_get l i = Some e" using cursor_laws(2) [OF f(3)] by simp_all
    moreover have "ce_id e = ident" using Some c(3) by (auto simp: bucket_map_def find_Some_iff)
    moreover have hot: "add_to_hotlist c ident = Some ?c" "length (hot_after (hotlist c) ident) = hotlist_nelem c"
      using add_to_hotlist_spec [of c ident] c(1) by (simp_all add: cache_frame_def)
    ultimately have "cache_get c ident = Some (True, Some (ce_data e, ce_size e), ?c)" using f(1,2) h buckets_at [OF c(2) h(2)] by (simp add: cache_get_def)
    moreover have "cache_rep ?c m" using c hot(2) by (auto simp: cache_rep_def cache_frame_def buckets_ok_def)
    ultimately show thesis using Some by (intro that [of ?c]) simp_all
  qed
qed

subsection \<open>Properties\<close>

lemma cache_new_spec:
  assumes "0 < nelem" "0 < hot_nelem" "0 < cb" "cache_new nelem hot_nelem cb a = Some (Some c, a')"
  shows "cache_rep c Map.empty \<and> ch_max_bytes c = cb"
proof -
  have c: "c = \<lparr>ch_max_bytes = cb, ch_current_bytes = 0, ch_nelem = nelem, ch_table = replicate nelem None, hotlist = replicate hot_nelem 0, hotlist_nelem = hot_nelem\<rparr>"
    using assms(3,4) by (auto simp: cache_new_def split: prod.splits bool.splits)
  have "buckets_ok c (replicate nelem [])" using c by (simp add: buckets_ok_def list_all2_conv_all_nth orep_def)
  moreover have "Map.empty = bucket_map nelem (replicate nelem [] :: 'a cache_entry list list)" using assms(1) by (simp add: bucket_map_def fun_eq_iff)
  ultimately show ?thesis using c assms(1,2) by (auto simp: cache_rep_def cache_frame_def)
qed


definition sample_cache :: "string cache" where
  "sample_cache = \<lparr>ch_max_bytes = 100, ch_current_bytes = 0, ch_nelem = 3, ch_table = [None, None, None], hotlist = [0, 0], hotlist_nelem = 2\<rparr>"

lemma sample_cache_new: "cache_new 3 2 100 no_oom = Some (Some sample_cache, no_oom)"
proof -
  have "replicate 3 None = [None, None, None :: string cache_entry mlist option]" "replicate 2 (0 :: nat) = [0, 0]" by (simp_all add: numeral_3_eq_3 numeral_2_eq_2)
  then show ?thesis by (simp add: cache_new_def sample_cache_def try_alloc_def no_oom_def PTRDIFF_MAX_def)
qed

lemma sample_cache_rep: "cache_rep sample_cache Map.empty"
  using cache_new_spec [OF _ _ _ sample_cache_new] by simp


text \<open>Adding items of a size one after the other.\<close>

fun add_all :: "'d cache \<Rightarrow> (size_t \<times> 'd) list \<Rightarrow> size_t \<Rightarrow> allocator \<Rightarrow> 'd cache option" where
  "add_all c [] cb a = Some c"
| "add_all c ((ident, d) # ds) cb a = do { (ok, dead, c, rands, a) \<leftarrow> cache_add [] c ident d cb 0 a; if ok \<and> dead = [] then add_all c ds cb a else None }"

lemma add_all_spec:
  assumes "cache_rep c m" "ch_max_bytes c < SIZE_MOD" "cb \<le> ch_max_bytes c" "decisions a = []" "distinct (map fst ds)" "\<forall>x \<in> set ds. m (fst x) = None"
  shows "\<exists>c' m'. add_all c ds cb a = Some c' \<and> cache_rep c' m' \<and> ch_max_bytes c' = ch_max_bytes c \<and> m \<subseteq>\<^sub>m m' \<and>
    (\<forall>(i, d) \<in> set ds. m' i = Some \<lparr>ce_id = i, ce_data = d, ce_size = cb, ce_pinned = 0\<rparr>)"
  using assms
proof (induction ds arbitrary: c m)
  case (Cons x ds)
  obtain i d where x: "x = (i, d)" by (cases x)
  let ?e = "\<lparr>ce_id = i, ce_data = d, ce_size = cb, ce_pinned = 0\<rparr>"
  obtain c1 where c1: "cache_add [] c i d cb 0 a = Some (True, [], c1, [], a)" "cache_rep c1 (m(i \<mapsto> ?e))" "ch_max_bytes c1 = ch_max_bytes c"
    using cache_add_spec [OF Cons.prems(1-3), of i "[]" d 0 a] Cons.prems(4,6) x by auto
  have "\<forall>y \<in> set ds. (m(i \<mapsto> ?e)) (fst y) = None" using Cons.prems(5,6) x by (auto simp: image_iff)
  moreover have "ch_max_bytes c1 < SIZE_MOD" "cb \<le> ch_max_bytes c1" "distinct (map fst ds)" using Cons.prems c1(3) by simp_all
  ultimately obtain c' m' where R: "add_all c1 ds cb a = Some c'" "cache_rep c' m'" "ch_max_bytes c' = ch_max_bytes c" "m(i \<mapsto> ?e) \<subseteq>\<^sub>m m'"
      "\<forall>(i, d) \<in> set ds. m' i = Some \<lparr>ce_id = i, ce_data = d, ce_size = cb, ce_pinned = 0\<rparr>"
    using Cons.IH [OF c1(2) _ _ Cons.prems(4)] unfolding c1(3) by blast
  moreover have "m \<subseteq>\<^sub>m m'"
  proof -
    have "m \<subseteq>\<^sub>m m(i \<mapsto> ?e)" using Cons.prems(6) x by (auto simp: map_le_def)
    then show ?thesis using R(4) by (rule map_le_trans)
  qed
  moreover have "m' i = Some ?e" using R(4) by (simp add: map_le_def)
  ultimately show ?case using c1(1) x by (intro exI [of _ c'] exI [of _ m']) simp
qed auto

text \<open>
  The limit of the cache is not kept. A new cache takes any number of items of up to \<open>max_bytes\<close> bytes each, without failing and without
  removing one: the sum of the sizes is not bounded by the limit, because the count of the bytes is never changed.
\<close>
theorem cache_limit_ignored:
  assumes "0 < nelem" "0 < hot_nelem" "0 < cb" "cb < SIZE_MOD" "cache_new nelem hot_nelem cb a = Some (Some c, a)" "decisions a = []" "distinct (map fst ds)"
  shows "\<exists>c' m. add_all c ds cb a = Some c' \<and> cache_rep c' m \<and> ch_max_bytes c' = cb \<and> ch_current_bytes c' = 0 \<and>
    (\<forall>(i, d) \<in> set ds. \<exists>e. m i = Some e \<and> ce_data e = d \<and> ce_size e = ch_max_bytes c')"
proof -
  have c: "cache_rep c Map.empty" "ch_max_bytes c = cb" using cache_new_spec [OF assms(1-3,5)] by simp_all
  obtain c' m where "add_all c ds cb a = Some c'" "cache_rep c' m" "ch_max_bytes c' = cb"
      "\<forall>(i, d) \<in> set ds. m i = Some \<lparr>ce_id = i, ce_data = d, ce_size = cb, ce_pinned = 0\<rparr>"
    using add_all_spec [OF c(1), of cb a ds] c(2) assms(4,6,7) by auto
  then show ?thesis by (intro exI [of _ c'] exI [of _ m]) (auto simp: cache_rep_def cache_frame_def)
qed

theorem cache_limit_ignored_witness:
  "\<exists>c' m. add_all sample_cache [(1, ''a''), (2, ''b''), (3, ''c'')] 100 no_oom = Some c' \<and> cache_rep c' m \<and> ch_max_bytes c' = 100 \<and>
     (\<forall>i \<in> {1, 2, 3}. \<exists>e. m i = Some e \<and> ce_size e = 100)"
proof -
  have "(0 :: nat) < 3" "(0 :: nat) < 2" "(0 :: nat) < 100" "(100 :: nat) < SIZE_MOD" "decisions no_oom = []" "distinct (map fst [(1 :: nat, ''a''), (2, ''b''), (3, ''c'')])"
    by (simp_all add: SIZE_MOD_def no_oom_def)
  from cache_limit_ignored [OF this(1-4) sample_cache_new this(5,6)] show ?thesis by fastforce
qed

end
