(* ===== verification/Filecache.thy ===== *)
theory Filecache
  imports MetaCache Stringmap
begin

section \<open>A cache of files\<close>

text \<open>
  \<open>src/meta/src/meta_filecache.c\<close>: a string map gives the names of files their numbers, a cache has what is known of the file with a number.
  What \<open>open\<close>, \<open>read\<close> and \<open>close\<close> return are arguments. The calls of the lock succeed. Of \<open>struct stat\<close> only the size is read.
\<close>

subsection \<open>What is known of a file\<close>

record fileinfo =
  fi_st_size :: size_t
  fi_mimetype :: "string option"
  fi_name :: "string option"
  fi_alias :: "string option"
  fi_contents :: "char list option"

definition fileinfo_new :: "allocator \<Rightarrow> fileinfo option \<times> allocator" where
  "fileinfo_new a = (case try_alloc 176 a of
     (False, a) \<Rightarrow> (None, a)
   | (True, a) \<Rightarrow> (Some \<lparr>fi_st_size = 0, fi_mimetype = None, fi_name = None, fi_alias = None, fi_contents = None\<rparr>, a))"

definition fileinfo_set_stat :: "fileinfo \<Rightarrow> size_t \<Rightarrow> fileinfo" where
  "fileinfo_set_stat p st = p\<lparr>fi_st_size := st\<rparr>"

text \<open>The setters free the old text first.\<close>

definition fileinfo_set_name :: "fileinfo \<Rightarrow> string \<Rightarrow> allocator \<Rightarrow> status_t \<times> fileinfo \<times> allocator" where
  "fileinfo_set_name p s a = (case try_alloc (length s + 1) a of
     (False, a) \<Rightarrow> (failure, p\<lparr>fi_name := None\<rparr>, a)
   | (True, a) \<Rightarrow> (success, p\<lparr>fi_name := Some s\<rparr>, a))"

definition fileinfo_set_alias :: "fileinfo \<Rightarrow> string \<Rightarrow> allocator \<Rightarrow> status_t \<times> fileinfo \<times> allocator" where
  "fileinfo_set_alias p s a = (case try_alloc (length s + 1) a of
     (False, a) \<Rightarrow> (failure, p\<lparr>fi_alias := None\<rparr>, a)
   | (True, a) \<Rightarrow> (success, p\<lparr>fi_alias := Some s\<rparr>, a))"

definition fileinfo_set_mimetype :: "fileinfo \<Rightarrow> string \<Rightarrow> allocator \<Rightarrow> status_t \<times> fileinfo \<times> allocator" where
  "fileinfo_set_mimetype p s a = (case try_alloc (length s + 1) a of
     (False, a) \<Rightarrow> (failure, p\<lparr>fi_mimetype := None\<rparr>, a)
   | (True, a) \<Rightarrow> (success, p\<lparr>fi_mimetype := Some s\<rparr>, a))"

definition fileinfo_stat where "fileinfo_stat p = fi_st_size p"
definition fileinfo_name where "fileinfo_name p = fi_name p"
definition fileinfo_alias where "fileinfo_alias p = fi_alias p"
definition fileinfo_mimetype where "fileinfo_mimetype p = fi_mimetype p"

subsection \<open>The cache\<close>

text \<open>A pointer may be left to something that was freed; using it is a fault.\<close>

datatype 'a ptr = Null | Dangling | Ptr 'a

definition deref :: "'a ptr \<Rightarrow> 'a option" where
  "deref p = (case p of Ptr x \<Rightarrow> Some x | _ \<Rightarrow> None)"

record filecache =
  fc_filenames :: "stringmap ptr"
  fc_metacache :: "fileinfo cache ptr"
  fc_nelem :: size_t
  fc_bytes :: size_t

definition HOTLIST_SIZE :: nat where "HOTLIST_SIZE = 10"

text \<open>When the first allocation fails the error path reads through the NULL pointer.\<close>

definition filecache_new :: "size_t \<Rightarrow> size_t \<Rightarrow> allocator \<Rightarrow> (filecache option \<times> allocator) option" where
  "filecache_new nelem bytes a = (if nelem > 0 \<and> bytes > 0 then
     (case try_alloc 88 a of
        (False, a) \<Rightarrow> None
      | (True, a) \<Rightarrow> do {
          (sm, a) \<leftarrow> stringmap_new nelem a;
          (case sm of
             None \<Rightarrow> Some (None, a)
           | Some sm \<Rightarrow> do {
               (c, a) \<leftarrow> cache_new nelem HOTLIST_SIZE bytes a;
               (case c of
                  None \<Rightarrow> do { stringmap_free sm; Some (None, a) }
                | Some c \<Rightarrow> Some (Some \<lparr>fc_filenames = Ptr sm, fc_metacache = Ptr c, fc_nelem = nelem, fc_bytes = bytes\<rparr>, a)) }) })
   else None)"

definition free_names :: "stringmap ptr \<Rightarrow> unit option" where
  "free_names p = (case p of Null \<Rightarrow> Some () | Dangling \<Rightarrow> None | Ptr sm \<Rightarrow> do { stringmap_free sm; Some () })"

definition free_files :: "fileinfo cache ptr \<Rightarrow> fileinfo list option" where
  "free_files p = (case p of Null \<Rightarrow> Some [] | Dangling \<Rightarrow> None | Ptr c \<Rightarrow> cache_free c)"

definition filecache_free :: "filecache \<Rightarrow> fileinfo list option" where
  "filecache_free this = do { dead \<leftarrow> free_files (fc_metacache this); free_names (fc_filenames this); Some dead }"

text \<open>
  \<open>opened\<close>, \<open>bytes\<close> and \<open>closed\<close> are what \<open>open\<close>, \<open>read\<close> and \<open>close\<close> return for the file. The entry is freed on every failure.
  The size that is counted for it is that of the structure, not that of the file.
\<close>

definition filecache_add :: "bool \<Rightarrow> char list option \<Rightarrow> bool \<Rightarrow> nat list \<Rightarrow> filecache \<Rightarrow> fileinfo \<Rightarrow> int \<Rightarrow> allocator \<Rightarrow>
    (status_t \<times> 64 word option \<times> filecache \<times> nat list \<times> allocator) option" where
  "filecache_add opened bytes closed rands this finfo pin a = (
     if fi_contents finfo \<noteq> None then None
     else do {
       _ \<leftarrow> fileinfo_name finfo;
       if \<not> opened then Some (failure, None, this, rands, a)
       else (case try_alloc (fi_st_size finfo) a of
           (False, a) \<Rightarrow> Some (failure, None, this, rands, a)
         | (True, a) \<Rightarrow>
             (case bytes of
                None \<Rightarrow> Some (failure, None, this, rands, a)
              | Some bs \<Rightarrow>
                  if length bs \<noteq> fi_st_size finfo \<or> \<not> closed then Some (failure, None, this, rands, a)
                  else do {
                    let finfo = finfo\<lparr>fi_contents := Some bs\<rparr>;
                    sm \<leftarrow> deref (fc_filenames this);
                    alias \<leftarrow> fileinfo_alias finfo;
                    (ok, pid, sm, a) \<leftarrow> stringmap_add sm alias a;
                    let this = this\<lparr>fc_filenames := Ptr sm\<rparr>;
                    if \<not> ok then Some (failure, pid, this, rands, a)
                    else do {
                      c \<leftarrow> deref (fc_metacache this);
                      n \<leftarrow> pid;
                      (ok, dead, c, rands, a) \<leftarrow> cache_add rands c (unat n) finfo 176 pin a;
                      Some (ok, pid, this\<lparr>fc_metacache := Ptr c\<rparr>, rands, a) } })) })"

text \<open>
  The old map and cache are freed first. When there is no memory for a new map the pointer to the freed cache stays, when there is none for
  the new cache both pointers are NULL and the result is 1.
\<close>

definition filecache_invalidate :: "filecache \<Rightarrow> allocator \<Rightarrow> (int \<times> filecache \<times> allocator) option" where
  "filecache_invalidate this a = do {
     free_names (fc_filenames this);
     free_files (fc_metacache this);
     (sm, a) \<leftarrow> stringmap_new (fc_nelem this) a;
     (case sm of
        None \<Rightarrow> Some (0, this\<lparr>fc_filenames := Null, fc_metacache := Dangling\<rparr>, a)
      | Some sm \<Rightarrow> do {
          (c, a) \<leftarrow> cache_new (fc_nelem this) HOTLIST_SIZE (fc_bytes this) a;
          (case c of
             None \<Rightarrow> do { stringmap_free sm; Some (1, this\<lparr>fc_filenames := Null, fc_metacache := Null\<rparr>, a) }
           | Some c \<Rightarrow> Some (1, this\<lparr>fc_filenames := Ptr sm, fc_metacache := Ptr c\<rparr>, a)) }) }"

definition filecache_exists :: "filecache \<Rightarrow> string \<Rightarrow> bool option" where
  "filecache_exists this filename = do {
     sm \<leftarrow> deref (fc_filenames this);
     (ok, _) \<leftarrow> stringmap_get_id sm filename;
     Some ok }"

text \<open>The look-up that four functions share; the cache moves the number to the front of its list of hot numbers.\<close>

definition filecache_fetch :: "filecache \<Rightarrow> string \<Rightarrow> (fileinfo option \<times> filecache) option" where
  "filecache_fetch this filename = do {
     sm \<leftarrow> deref (fc_filenames this);
     (ok, pid) \<leftarrow> stringmap_get_id sm filename;
     if \<not> ok then Some (None, this)
     else do {
       n \<leftarrow> pid;
       c \<leftarrow> deref (fc_metacache this);
       (ok, r, c) \<leftarrow> cache_get c (unat n);
       Some (if ok then map_option fst r else None, this\<lparr>fc_metacache := Ptr c\<rparr>) } }"

definition filecache_get :: "filecache \<Rightarrow> string \<Rightarrow> (status_t \<times> (char list option \<times> size_t) option \<times> filecache) option" where
  "filecache_get this filename = do {
     (r, this) \<leftarrow> filecache_fetch this filename;
     Some (r \<noteq> None, map_option (\<lambda>fi. (fi_contents fi, fi_st_size fi)) r, this) }"

definition filecache_stat :: "filecache \<Rightarrow> string \<Rightarrow> (status_t \<times> size_t option \<times> filecache) option" where
  "filecache_stat this filename = do {
     (r, this) \<leftarrow> filecache_fetch this filename;
     Some (r \<noteq> None, map_option fileinfo_stat r, this) }"

definition filecache_fileinfo :: "filecache \<Rightarrow> string \<Rightarrow> (fileinfo option \<times> filecache) option" where
  "filecache_fileinfo this filename = filecache_fetch this filename"

definition filecache_get_mime_type :: "filecache \<Rightarrow> string \<Rightarrow> char list \<Rightarrow> size_t \<Rightarrow> (status_t \<times> char list \<times> filecache) option" where
  "filecache_get_mime_type this filename mime cb = do {
     (r, this) \<leftarrow> filecache_fetch this filename;
     (case r of
        None \<Rightarrow> Some (failure, mime, this)
      | Some p \<Rightarrow> do {
          s \<leftarrow> fileinfo_mimetype p;
          mime \<leftarrow> wr mime 0 (take (szsub cb 1) s @ [NUL]);
          Some (success, mime, this) }) }"

definition filecache_foreach :: "filecache \<Rightarrow> (string \<Rightarrow> 's \<Rightarrow> bool \<times> 's) \<Rightarrow> 's \<Rightarrow> (bool \<times> 's) option" where
  "filecache_foreach this fn arg = do { sm \<leftarrow> deref (fc_filenames this); stringmap_foreach sm fn arg }"

subsection \<open>The cache as a map\<close>

text \<open>
  The files by their names. A name can be known to the string map although the cache has no entry for its number, when adding failed in between.
\<close>

definition files_of :: "sm_entry list list \<Rightarrow> (size_t \<rightharpoonup> fileinfo cache_entry) \<Rightarrow> string \<rightharpoonup> fileinfo" where
  "files_of bss cm alias = (case ids bss alias of None \<Rightarrow> None | Some n \<Rightarrow> map_option ce_data (cm (unat n)))"

definition fc_rep :: "filecache \<Rightarrow> (string \<rightharpoonup> fileinfo) \<Rightarrow> bool" where
  "fc_rep this m \<longleftrightarrow> (\<exists>sm bss c cm. fc_filenames this = Ptr sm \<and> sm_rep sm bss \<and> fc_metacache this = Ptr c \<and> cache_rep c cm \<and>
     ch_max_bytes c = fc_bytes this \<and> dom cm \<subseteq> unat ` ran (ids bss) \<and> m = files_of bss cm)"

lemma sm_ids_le: "sm_rep sm bss \<Longrightarrow> ids bss s = Some n \<Longrightarrow> n \<le> last_id sm"
proof -
  assume r: "sm_rep sm bss" "ids bss s = Some n"
  then obtain e where e: "find (\<lambda>e. e_s e = s) (concat bss) = Some e" "e_id e = n" by (auto simp: ids_def)
  then have "e \<in> set (concat bss)" by (metis find_Some_iff nth_mem)
  then show ?thesis using r(1) e(2) unfolding sm_rep_def by blast
qed

lemma fetch_spec:
  assumes "fc_rep this m" "filename \<noteq> []"
  obtains this' where "filecache_fetch this filename = Some (m filename, this')" "fc_rep this' m" "fc_bytes this' = fc_bytes this"
    "fc_filenames this' = fc_filenames this"
proof -
  obtain sm bss c cm where r: "fc_filenames this = Ptr sm" "sm_rep sm bss" "fc_metacache this = Ptr c" "cache_rep c cm" "ch_max_bytes c = fc_bytes this"
    "dom cm \<subseteq> unat ` ran (ids bss)" "m = files_of bss cm" using assms(1) by (auto simp: fc_rep_def)
  have g: "stringmap_get_id sm filename = Some (ids bss filename \<noteq> None, ids bss filename)" by (rule sm_lookup_spec(2) [OF r(2) assms(2)])
  show thesis
  proof (cases "ids bss filename")
    case None
    then show thesis using r(1,7) g assms(1) by (intro that [of this]) (simp_all add: filecache_fetch_def deref_def files_of_def)
  next
    case (Some n)
    obtain c' where c': "cache_get c (unat n) = Some (cm (unat n) \<noteq> None, map_option (\<lambda>e. (ce_data e, ce_size e)) (cm (unat n)), c')" "cache_rep c' cm" "ch_max_bytes c' = ch_max_bytes c"
      by (rule cache_get_spec [OF r(4)])
    have "filecache_fetch this filename = Some (m filename, this\<lparr>fc_metacache := Ptr c'\<rparr>)"
      using r(1,3,7) g Some c'(1) by (cases "cm (unat n)") (simp_all add: filecache_fetch_def deref_def files_of_def)
    moreover have "fc_rep (this\<lparr>fc_metacache := Ptr c'\<rparr>) m" unfolding fc_rep_def
      using r c'(2,3) by (intro exI [of _ sm] exI [of _ bss] exI [of _ c'] exI [of _ cm]) simp
    ultimately show thesis by (rule that) simp_all
  qed
qed


lemma names_add:
  assumes "sm_rep sm bss" "s \<noteq> []" "length s < PTRDIFF_MAX" "last_id sm \<noteq> - 1"
  obtains st pid n sm' a' bss' where "stringmap_add sm s a = Some (st, pid, sm', a')" "sm_rep sm' bss'" "decisions a = [] \<longrightarrow> st \<and> a' = a" "\<not> st \<longrightarrow> ids bss' = ids bss"
    "st \<longrightarrow> pid = Some n \<and> ids bss' = (ids bss)(s \<mapsto> n) \<and> (ids bss s = Some n \<or> (ids bss s = None \<and> n \<notin> ran (ids bss)))"
proof (cases "ids bss s")
  case (Some n)
  then have "stringmap_add sm s a = Some (success, Some n, sm, a)" by (rule stringmap_add_known [OF assms(1,2)])
  moreover have "ids bss = (ids bss)(s \<mapsto> n)" using Some by (simp add: fun_upd_idem)
  ultimately show thesis using Some assms(1) by (intro that [of True "Some n" sm a bss n]) simp_all
next
  case None
  let ?bss = "bss_add (sm_nelem sm) bss (new_entry sm s)"
  obtain st pid sm' a' where r: "stringmap_add sm s a = Some (st, pid, sm', a')" "sm_rep sm' (if st then ?bss else bss)" "st \<longrightarrow> pid = Some (last_id sm + 1)"
    "decisions a = [] \<longrightarrow> st \<and> a' = a" using stringmap_add_new [OF assms(1,2,3) None assms(4), of a] by blast
  have i: "ids ?bss = (ids bss)(s \<mapsto> last_id sm + 1)"
    using ids_bss_add [of "sm_nelem sm" "new_entry sm s" bss] None sm_rep_length [OF assms(1)] slot_less [OF assms(1)] by (simp add: new_entry_def)
  have "last_id sm + 1 \<notin> ran (ids bss)" using sm_ids_le [OF assms(1)] id_succ [OF assms(4)] by (auto simp: ran_def dest: leD)
  then show thesis using r i None by (intro that [of st pid sm' a' "if st then ?bss else bss" "last_id sm + 1"]) simp_all
qed

lemma cache_add_any:
  assumes "cache_rep c m" "ch_max_bytes c < SIZE_MOD" "m ident = None"
  obtains ok c' a' where "cache_add rands c ident d cb pin a = Some (ok, [], c', rands, a')" "ch_max_bytes c' = ch_max_bytes c" "decisions a = [] \<and> cb \<le> ch_max_bytes c \<longrightarrow> ok"
    "cache_rep c' (if ok then m(ident \<mapsto> \<lparr>ce_id = ident, ce_data = d, ce_size = cb, ce_pinned = pin\<rparr>) else m)"
proof (cases "cb \<le> ch_max_bytes c")
  case True
  then show thesis using cache_add_spec [OF assms(1,2) True assms(3), of rands d pin a] that by blast
next
  case False
  have "bucket_of c ident \<noteq> None" using assms(1) by (simp add: cache_rep_def cache_frame_def bucket_of_def)
  then have "cache_add rands c ident d cb pin a = Some (failure, [], c, rands, a)" using False make_space_spec [OF assms(1,2)] by (auto simp: cache_add_def)
  then show thesis using False assms(1) by (intro that [of False c a]) simp_all
qed

lemma files_add:
  assumes "inj_on (ids bss) (dom (ids bss))" "ids bss' = (ids bss)(s \<mapsto> n)" "ids bss s = Some n \<or> (ids bss s = None \<and> n \<notin> ran (ids bss))"
  shows "files_of bss' (cm(unat n \<mapsto> e)) = (files_of bss cm)(s \<mapsto> ce_data e)"
proof
  fix t
  have ne: "unat k \<noteq> unat n" if "ids bss t = Some k" "t \<noteq> s" for k
  proof
    assume "unat k = unat n"
    then have "k = n" by (simp add: word_unat_eq_iff)
    then show False using that assms(1,3) by (auto simp: ran_def inj_on_def dom_def)
  qed
  show "files_of bss' (cm(unat n \<mapsto> e)) t = ((files_of bss cm)(s \<mapsto> ce_data e)) t"
    using ne assms(2) by (auto simp: files_of_def split: option.split)
qed

lemma files_same:
  assumes "ids bss' = (ids bss)(s \<mapsto> n)" "ids bss s = Some n \<or> (ids bss s = None \<and> cm (unat n) = None)"
  shows "files_of bss' cm = files_of bss cm"
  using assms by (auto simp: files_of_def fun_eq_iff split: option.split)

lemma number_unused:
  assumes "files_of bss cm s = None" "ids bss s = Some n \<or> (ids bss s = None \<and> n \<notin> ran (ids bss))" "dom cm \<subseteq> unat ` ran (ids bss)"
  shows "cm (unat n) = None"
proof (cases "ids bss s")
  case (Some k)
  then show ?thesis using assms(1,2) by (auto simp: files_of_def)
next
  case None
  then have "n \<notin> ran (ids bss)" using assms(2) by simp
  then have "unat n \<notin> unat ` ran (ids bss)" by (auto simp: word_unat_eq_iff [symmetric])
  then show ?thesis using assms(3) by blast
qed

lemma numbers_grow:
  assumes "ids bss' = (ids bss)(s \<mapsto> n)" "ids bss s = Some n \<or> ids bss s = None" "dom cm \<subseteq> unat ` ran (ids bss)"
  shows "insert (unat n) (dom cm) \<subseteq> unat ` ran (ids bss')"
proof -
  have "ran (ids bss) \<subseteq> ran (ids bss')" using assms(1,2) by (auto simp: ran_map_upd fun_upd_idem)
  moreover have "n \<in> ran (ids bss')" using assms(1) by (intro ranI [of _ s]) simp
  ultimately show ?thesis using assms(3) by blast
qed

text \<open>Adding reads the file; when that succeeded the name gets its number, and then the number its entry.\<close>

abbreviation all_fine :: "bool \<Rightarrow> char list option \<Rightarrow> bool \<Rightarrow> filecache \<Rightarrow> fileinfo \<Rightarrow> allocator \<Rightarrow> bool" where
  "all_fine opened bytes closed this finfo a \<equiv> opened \<and> closed \<and> map_option length bytes = Some (fi_st_size finfo) \<and> fi_st_size finfo \<le> PTRDIFF_MAX \<and> decisions a = [] \<and> 176 \<le> fc_bytes this"

lemma add_start:
  assumes "fc_filenames this = Ptr sm" "sm_rep sm bss" "fc_metacache this = Ptr c" "last_id sm \<noteq> - 1"
    "fi_contents finfo = None" "fi_name finfo \<noteq> None" "fi_alias finfo = Some alias" "alias \<noteq> []" "length alias < PTRDIFF_MAX"
  obtains good st pid n sm' a1 bss' where
    "good \<longrightarrow> filecache_add opened bytes closed rands this finfo pin a = (if \<not> st then Some (failure, pid, this\<lparr>fc_filenames := Ptr sm'\<rparr>, rands, a1)
      else do { (ok, dead, c, rands, a) \<leftarrow> cache_add rands c (unat n) (finfo\<lparr>fi_contents := bytes\<rparr>) 176 pin a1;
        Some (ok, pid, this\<lparr>fc_filenames := Ptr sm', fc_metacache := Ptr c\<rparr>, rands, a) })"
    "\<not> good \<longrightarrow> (\<exists>b. filecache_add opened bytes closed rands this finfo pin a = Some (failure, None, this, rands, b))"
    "all_fine opened bytes closed this finfo a \<longrightarrow> good \<and> st \<and> decisions a1 = []"
    "sm_rep sm' bss'" "\<not> st \<longrightarrow> ids bss' = ids bss"
    "st \<longrightarrow> pid = Some n \<and> ids bss' = (ids bss)(alias \<mapsto> n) \<and> (ids bss alias = Some n \<or> (ids bss alias = None \<and> n \<notin> ran (ids bss)))"
proof -
  obtain ok0 a0 where al: "try_alloc (fi_st_size finfo) a = (ok0, a0)" "decisions a = [] \<and> fi_st_size finfo \<le> PTRDIFF_MAX \<longrightarrow> ok0 \<and> a0 = a"
    using try_alloc_no_oom [of a "fi_st_size finfo"] by (cases "try_alloc (fi_st_size finfo) a") auto
  define good where "good \<longleftrightarrow> opened \<and> closed \<and> ok0 \<and> map_option length bytes = Some (fi_st_size finfo)"
  obtain st pid n sm' a1 bss' where sa: "stringmap_add sm alias a0 = Some (st, pid, sm', a1)" "sm_rep sm' bss'" "decisions a0 = [] \<longrightarrow> st \<and> a1 = a0" "\<not> st \<longrightarrow> ids bss' = ids bss"
    "st \<longrightarrow> pid = Some n \<and> ids bss' = (ids bss)(alias \<mapsto> n) \<and> (ids bss alias = Some n \<or> (ids bss alias = None \<and> n \<notin> ran (ids bss)))"
    by (rule names_add [OF assms(2,8,9,4), of a0])
  have run: "good \<longrightarrow> filecache_add opened bytes closed rands this finfo pin a = (if \<not> st then Some (failure, pid, this\<lparr>fc_filenames := Ptr sm'\<rparr>, rands, a1)
      else do { (ok, dead, c, rands, a) \<leftarrow> cache_add rands c (unat n) (finfo\<lparr>fi_contents := bytes\<rparr>) 176 pin a1;
        Some (ok, pid, this\<lparr>fc_filenames := Ptr sm', fc_metacache := Ptr c\<rparr>, rands, a) })"
    using assms(1,3,5-7) al(1) sa(1,5) unfolding good_def by (cases bytes) (auto simp: filecache_add_def fileinfo_name_def fileinfo_alias_def deref_def)
  have bad: "\<not> good \<longrightarrow> (\<exists>b. filecache_add opened bytes closed rands this finfo pin a = Some (failure, None, this, rands, b))"
    using assms(5,6) al(1) unfolding good_def by (cases bytes; cases ok0) (auto simp: filecache_add_def fileinfo_name_def)
  have fine: "all_fine opened bytes closed this finfo a \<longrightarrow> good \<and> st \<and> decisions a1 = []" using al(2) sa(3) by (auto simp: good_def)
  show thesis by (rule that [OF run bad fine sa(2,4,5)])
qed

lemma filecache_add_new:
  assumes "fc_rep this m" "fc_bytes this < SIZE_MOD" "\<forall>sm. fc_filenames this = Ptr sm \<longrightarrow> last_id sm \<noteq> - 1"
    "fi_contents finfo = None" "fi_name finfo \<noteq> None" "fi_alias finfo = Some alias" "alias \<noteq> []" "length alias < PTRDIFF_MAX" "m alias = None"
  shows "\<exists>ok pid this' a'. filecache_add opened bytes closed rands this finfo pin a = Some (ok, pid, this', rands, a') \<and>
    fc_rep this' (if ok then m(alias \<mapsto> finfo\<lparr>fi_contents := bytes\<rparr>) else m) \<and> (all_fine opened bytes closed this finfo a \<longrightarrow> ok)"
proof -
  obtain sm bss c cm where r: "fc_filenames this = Ptr sm" "sm_rep sm bss" "fc_metacache this = Ptr c" "cache_rep c cm" "ch_max_bytes c = fc_bytes this"
    "dom cm \<subseteq> unat ` ran (ids bss)" "m = files_of bss cm" using assms(1) by (auto simp: fc_rep_def)
  have last: "last_id sm \<noteq> - 1" using assms(3) r(1) by blast
  let ?fi = "finfo\<lparr>fi_contents := bytes\<rparr>"
  obtain good st pid n sm' a1 bss' where A: "good \<longrightarrow> filecache_add opened bytes closed rands this finfo pin a = (if \<not> st then Some (failure, pid, this\<lparr>fc_filenames := Ptr sm'\<rparr>, rands, a1)
      else do { (ok, dead, c, rands, a) \<leftarrow> cache_add rands c (unat n) ?fi 176 pin a1; Some (ok, pid, this\<lparr>fc_filenames := Ptr sm', fc_metacache := Ptr c\<rparr>, rands, a) })"
    "\<not> good \<longrightarrow> (\<exists>b. filecache_add opened bytes closed rands this finfo pin a = Some (failure, None, this, rands, b))"
    "all_fine opened bytes closed this finfo a \<longrightarrow> good \<and> st \<and> decisions a1 = []" "sm_rep sm' bss'" "\<not> st \<longrightarrow> ids bss' = ids bss"
    "st \<longrightarrow> pid = Some n \<and> ids bss' = (ids bss)(alias \<mapsto> n) \<and> (ids bss alias = Some n \<or> (ids bss alias = None \<and> n \<notin> ran (ids bss)))"
    by (rule add_start [OF r(1-3) last assms(4-8), where opened = opened and bytes = bytes and closed = closed and rands = rands and pin = pin and a = a])
  consider "\<not> good" | good "\<not> st" | good st by blast
  then show ?thesis
  proof cases
    case 1
    then obtain b where "filecache_add opened bytes closed rands this finfo pin a = Some (False, None, this, rands, b)" using A(2) by blast
    then show ?thesis using A(3) 1 assms(1) by (intro exI [of _ False] exI [of _ None] exI [of _ this] exI [of _ b]) simp
  next
    case 2
    let ?fc = "this\<lparr>fc_filenames := Ptr sm'\<rparr>"
    have i: "ids bss' = ids bss" using A(5) 2 by simp
    have "m = files_of bss' cm" unfolding r(7) by (simp add: files_of_def fun_eq_iff i)
    then have "fc_rep ?fc m" unfolding fc_rep_def using r(3-6) A(4) i by (intro exI [of _ sm'] exI [of _ bss'] exI [of _ c] exI [of _ cm]) simp
    then show ?thesis using A(1,3) 2 by (intro exI [of _ False] exI [of _ pid] exI [of _ ?fc] exI [of _ a1]) simp
  next
    case 3
    then have s: "ids bss' = (ids bss)(alias \<mapsto> n)" "ids bss alias = Some n \<or> (ids bss alias = None \<and> n \<notin> ran (ids bss))" using A(6) by simp_all
    have cn: "cm (unat n) = None" using number_unused [OF _ s(2) r(6)] assms(9) r(7) by simp
    let ?e = "\<lparr>ce_id = unat n, ce_data = ?fi, ce_size = 176, ce_pinned = pin\<rparr>"
    have max: "ch_max_bytes c < SIZE_MOD" using r(5) assms(2) by simp
    obtain ok c' a2 where ca: "cache_add rands c (unat n) ?fi 176 pin a1 = Some (ok, [], c', rands, a2)" "ch_max_bytes c' = ch_max_bytes c"
      "decisions a1 = [] \<and> 176 \<le> ch_max_bytes c \<longrightarrow> ok" "cache_rep c' (if ok then cm(unat n \<mapsto> ?e) else cm)"
      by (rule cache_add_any [OF r(4) max cn, of rands ?fi 176 pin a1])
    let ?fc = "this\<lparr>fc_filenames := Ptr sm', fc_metacache := Ptr c'\<rparr>" and ?cm = "if ok then cm(unat n \<mapsto> ?e) else cm"
    have "insert (unat n) (dom cm) \<subseteq> unat ` ran (ids bss')" using s(2) by (intro numbers_grow [OF s(1) _ r(6)]) auto
    then have "dom ?cm \<subseteq> unat ` ran (ids bss')" by simp
    moreover have "(if ok then m(alias \<mapsto> ?fi) else m) = files_of bss' ?cm"
      using files_add [OF ids_inj [OF r(2)] s, of cm ?e] files_same [OF s(1), of cm] s(2) cn r(7) by auto
    ultimately have "fc_rep ?fc (if ok then m(alias \<mapsto> ?fi) else m)" unfolding fc_rep_def using A(4) ca(2,4) r(5)
      by (intro exI [of _ sm'] exI [of _ bss'] exI [of _ c'] exI [of _ ?cm]) simp
    then show ?thesis using A(1,3) 3 ca(1,3) r(5) by (intro exI [of _ ok] exI [of _ pid] exI [of _ ?fc] exI [of _ a2]) simp
  qed
qed

lemma filecache_add_known:
  assumes "fc_rep this m" "fc_bytes this < SIZE_MOD" "\<forall>sm. fc_filenames this = Ptr sm \<longrightarrow> last_id sm \<noteq> - 1"
    "fi_contents finfo = None" "fi_name finfo \<noteq> None" "fi_alias finfo = Some alias" "alias \<noteq> []" "length alias < PTRDIFF_MAX" "m alias \<noteq> None"
    "all_fine opened bytes closed this finfo a"
  shows "filecache_add opened bytes closed rands this finfo pin a = None"
proof -
  obtain sm bss c cm where r: "fc_filenames this = Ptr sm" "sm_rep sm bss" "fc_metacache this = Ptr c" "cache_rep c cm" "ch_max_bytes c = fc_bytes this"
    "m = files_of bss cm" using assms(1) by (auto simp: fc_rep_def)
  have last: "last_id sm \<noteq> - 1" using assms(3) r(1) by blast
  obtain good st pid n sm' a1 bss' where A: "good \<longrightarrow> filecache_add opened bytes closed rands this finfo pin a = (if \<not> st then Some (failure, pid, this\<lparr>fc_filenames := Ptr sm'\<rparr>, rands, a1)
      else do { (ok, dead, c, rands, a) \<leftarrow> cache_add rands c (unat n) (finfo\<lparr>fi_contents := bytes\<rparr>) 176 pin a1;
        Some (ok, pid, this\<lparr>fc_filenames := Ptr sm', fc_metacache := Ptr c\<rparr>, rands, a) })"
    "all_fine opened bytes closed this finfo a \<longrightarrow> good \<and> st \<and> decisions a1 = []"
    "st \<longrightarrow> pid = Some n \<and> ids bss' = (ids bss)(alias \<mapsto> n) \<and> (ids bss alias = Some n \<or> (ids bss alias = None \<and> n \<notin> ran (ids bss)))"
    by (rule add_start [OF r(1-3) last assms(4-8), where opened = opened and bytes = bytes and closed = closed and rands = rands and pin = pin and a = a])
  have g: good st "decisions a1 = []" using A(2) assms(10) by auto
  obtain k where k: "ids bss alias = Some k" "cm (unat k) \<noteq> None" using assms(9) r(6) by (auto simp: files_of_def split: option.splits)
  then have "n = k" using A(3) g(2) by auto
  have max: "ch_max_bytes c < SIZE_MOD" "\<not> 176 > ch_max_bytes c" using r(5) assms(2,10) by auto
  have b: "bucket_of c (unat n) \<noteq> None" using r(4) by (simp add: cache_rep_def cache_frame_def bucket_of_def)
  have "cache_add rands c (unat n) (finfo\<lparr>fi_contents := bytes\<rparr>) 176 pin a1 = None"
    using b make_space_spec [OF r(4) max(1)] max(2) cache_existsI [OF r(4), of "unat n"] k(2) \<open>n = k\<close> g(3) by (auto simp: cache_add_def try_alloc_def PTRDIFF_MAX_def)
  then show ?thesis using A(1) g by simp
qed



definition sample_files :: filecache where
  "sample_files = \<lparr>fc_filenames = Ptr sm2, fc_metacache = Ptr \<lparr>ch_max_bytes = 1000, ch_current_bytes = 0, ch_nelem = 2, ch_table = [None, None], hotlist = [0, 0], hotlist_nelem = 2\<rparr>,
     fc_nelem = 2, fc_bytes = 1000\<rparr>"

lemma sample_files_rep: "fc_rep sample_files Map.empty"
proof -
  have "replicate 2 None = [None, None :: fileinfo cache_entry mlist option]" "replicate 2 (0 :: nat) = [0, 0]" by (simp_all add: numeral_2_eq_2)
  then have "cache_new 2 2 1000 no_oom = Some (Some \<lparr>ch_max_bytes = 1000, ch_current_bytes = 0, ch_nelem = 2, ch_table = [None, None :: fileinfo cache_entry mlist option], hotlist = [0, 0], hotlist_nelem = 2\<rparr>, no_oom)"
    by (simp add: cache_new_def try_alloc_def no_oom_def PTRDIFF_MAX_def)
  from cache_new_spec [OF _ _ _ this] have c: "cache_rep \<lparr>ch_max_bytes = 1000, ch_current_bytes = 0, ch_nelem = 2, ch_table = [None, None :: fileinfo cache_entry mlist option], hotlist = [0, 0], hotlist_nelem = 2\<rparr> Map.empty"
    by simp
  have "files_of [[], []] Map.empty = Map.empty" by (simp add: files_of_def ids_def fun_eq_iff)
  then show ?thesis unfolding fc_rep_def sample_files_def using sm2_rep c
    by (intro exI [of _ sm2] exI [of _ "[[], []]"] exI [of _ "\<lparr>ch_max_bytes = 1000, ch_current_bytes = 0, ch_nelem = 2, ch_table = [None, None], hotlist = [0, 0], hotlist_nelem = 2\<rparr>"] exI [of _ Map.empty]) simp
qed

definition sample_fileinfo :: fileinfo where
  "sample_fileinfo = \<lparr>fi_st_size = 2, fi_mimetype = None, fi_name = Some ''/tmp/x'', fi_alias = Some ''/x'', fi_contents = None\<rparr>"


end
