(* ===== verification/Response_Ends.thy ===== *)
theory Response_Ends
  imports Request_Receive Response_Chunks
begin

section \<open>The loops of the response parser end\<close>

text \<open>
  Every round of the loops of \<open>src/http/src/response.c\<close> that read from a connection consumes a byte or leaves the loop. So the number of bytes that are still
  to come bounds the number of rounds, and the fuel the definitions in \<open>Response_Parse\<close> are given is never short.
\<close>

lemma read_line_eats:
  assumes "conn_ok c" "n \<le> length buf"
  obtains ok buf' c' e' where "read_line c buf n e = Some (ok, buf', c', e')" "conn_ok c'" "ok \<longrightarrow> length (in_stream c') < length (in_stream c)"
proof -
  obtain ok buf' c' e' where R: "read_line c buf n e = Some (ok, buf', c', e')" "read_frame c c'"
    "ok \<Longrightarrow> \<exists>ln. length ln < n \<and> CHR 0x0D \<notin> set ln \<and> in_stream c = ln @ crlf @ in_stream c' \<and> e' = e \<and> cstr_at buf' 0 = Some (takeWhile (\<lambda>c. c \<noteq> NUL) ln)"
    by (rule read_line_spec [OF assms, of e]) blast
  have "ok \<longrightarrow> length (in_stream c') < length (in_stream c)" using R(3) by (auto simp: crlf_def)
  then show thesis by (intro that [OF R(1)]) (use R(2) in \<open>simp_all add: read_frame_def\<close>)
qed

lemma response_header_loop_fuel:
  assumes "conn_ok c" "length (in_stream c) < n" "length (in_stream c) < m"
  shows "response_header_loop n mktime c r e a = response_header_loop m mktime c r e a"
  using assms
proof (induction n arbitrary: m c r e a)
  case (Suc n)
  then obtain k where m: "m = Suc k" by (cases m) auto
  have "8266 \<le> length (fresh_bytes 8266 a)" by (simp add: fresh_bytes_def)
  then obtain ok buf c1 e1 where R: "read_line c (fresh_bytes 8266 a) 8266 e = Some (ok, buf, c1, e1)" "conn_ok c1"
    "ok \<longrightarrow> length (in_stream c1) < length (in_stream c)" by (rule read_line_eats [OF Suc.prems(1)])
  show ?case
  proof (cases ok)
    case True
    then have "length (in_stream c1) < n" "length (in_stream c1) < k" using R(3) Suc.prems(2,3) m by simp_all
    then have eq: "response_header_loop n mktime c1 = response_header_loop k mktime c1" using R(2) by (intro ext Suc.IH)
    show ?thesis unfolding m response_header_loop.simps R(1) by (simp add: eq cong: if_cong)
  next
    case False
    then show ?thesis unfolding m response_header_loop.simps R(1) by simp
  qed
qed simp

lemma chunk_loop_fuel:
  assumes "conn_ok c" "0 < len" "length (in_stream c) < n" "length (in_stream c) < m"
  shows "chunk_loop n c buf nt len = chunk_loop m c buf nt len"
  using assms
proof (induction n arbitrary: m c buf nt len)
  case (Suc n)
  then obtain k where m: "m = Suc k" by (cases m) auto
  obtain r c1 lost where R: "connection_read c len = Some (r, c1)" "read_frame c c1" "in_stream c = (case r of None \<Rightarrow> lost | Some bs \<Rightarrow> bs) @ in_stream c1"
    "\<forall>bs. r = Some bs \<longrightarrow> bs \<noteq> [] \<and> length bs \<le> len" using read_spec [OF Suc.prems(1,2)] by blast
  show ?case
  proof (cases r)
    case None
    then show ?thesis unfolding m chunk_loop.simps R(1) by simp
  next
    case (Some bs)
    then have "length (in_stream c1) < n" "length (in_stream c1) < k" "conn_ok c1"
      using R(2-4) Suc.prems(3,4) m by (cases bs; simp add: read_frame_def)+
    then have "chunk_loop n c1 b t l = chunk_loop k c1 b t l" if "0 < l" for b t l using that by (intro Suc.IH)
    then show ?thesis unfolding m chunk_loop.simps R(1) Some by (auto simp: Let_def intro!: Option.bind_cong)
  qed
qed simp

lemma chunk_loop_frame:
  assumes "conn_ok c" "0 < len" "chunk_loop n c buf nt len = Some (r, c')"
  shows "conn_ok c' \<and> length (in_stream c') \<le> length (in_stream c)"
  using assms
proof (induction n arbitrary: c buf nt len)
  case (Suc n)
  obtain q c1 lost where R: "connection_read c len = Some (q, c1)" "read_frame c c1" "in_stream c = (case q of None \<Rightarrow> lost | Some bs \<Rightarrow> bs) @ in_stream c1"
    using read_spec [OF Suc.prems(1,2)] by blast
  have c1: "conn_ok c1" "length (in_stream c1) \<le> length (in_stream c)" using R(2,3) by (simp_all add: read_frame_def)
  have "c' = c1 \<or> (\<exists>b t l. 0 < l \<and> chunk_loop n c1 b t l = Some (r, c'))"
  proof (cases q)
    case None
    then show ?thesis using Suc.prems(3) R(1) by (auto simp: Let_def bind_eq_Some_conv split: if_splits)
  next
    case (Some bs)
    let ?l = "szsub len (length bs)"
    have "\<exists>b. (if ?l = 0 then Some (Some (b, szt (nt + length bs)), c1) else chunk_loop n c1 b (szt (nt + length bs)) ?l) = Some (r, c')"
      using Suc.prems(3) R(1) Some by (auto simp: Let_def bind_eq_Some_conv simp del: chunk_loop.simps simp add: chunk_loop.simps(2) split del: if_split)
    then obtain b where "(if ?l = 0 then Some (Some (b, szt (nt + length bs)), c1) else chunk_loop n c1 b (szt (nt + length bs)) ?l) = Some (r, c')" ..
    then show ?thesis by (cases "?l = 0") (auto simp del: chunk_loop.simps)
  qed
  then show ?case
  proof (elim disjE exE conjE)
    fix b t l
    assume "0 < l" "chunk_loop n c1 b t l = Some (r, c')"
    from Suc.IH [OF c1(1) this] show ?thesis using c1(2) by linarith
  qed (use c1 in simp)
qed simp

lemma chunklen_eats:
  assumes "conn_ok c" "get_chunklen c a = Some (len, c')"
  shows "conn_ok c' \<and> length (in_stream c') \<le> length (in_stream c) \<and> (len \<noteq> None \<longrightarrow> length (in_stream c') < length (in_stream c))"
proof -
  have l: "(0 :: nat) < 1024" "1024 \<le> length (fresh_bytes 1024 a)" by simp_all
  obtain ok d1 c1 where g: "connection_gets c (fresh_bytes 1024 a) 1024 = Some (ok, d1, c1)" "read_frame c c1" "length d1 = length (fresh_bytes 1024 a)"
    "length (in_stream c1) \<le> length (in_stream c)" "ok \<longrightarrow> length (in_stream c1) < length (in_stream c)" by (rule gets_spec [OF assms(1) l])
  have c1: "conn_ok c1" "1024 \<le> length d1" using g(2,3) by (simp_all add: read_frame_def)
  obtain ok2 d2 c2 where h: "connection_gets c1 d1 1024 = Some (ok2, d2, c2)" "read_frame c1 c2"
    "length (in_stream c2) \<le> length (in_stream c1)" by (rule gets_spec [OF c1(1) l(1) c1(2)])
  have c2: "conn_ok c2" using h(2) by (simp add: read_frame_def)
  have "c' = c1 \<and> (len \<noteq> None \<longrightarrow> ok) \<or> c' = c2 \<and> ok"
    using assms(2) g(1) h(1) unfolding get_chunklen_def by (auto simp: bind_eq_Some_conv split: if_splits)
  then show ?thesis using c1(1) c2 g(4,5) h(3) by auto
qed

lemma chunks_loop_fuel:
  assumes "conn_ok c" "length (in_stream c) < n" "length (in_stream c) < m"
  shows "chunks_loop n c buf nt max_len e a = chunks_loop m c buf nt max_len e a"
  using assms
proof (induction n arbitrary: m c buf nt a)
  case (Suc n)
  then obtain k where m: "m = Suc k" by (cases m) auto
  show ?case
  proof (cases "get_chunklen c a")
    case (Some p)
    then obtain len c1 where L: "get_chunklen c a = Some (len, c1)" by (cases p) auto
    note E = chunklen_eats [OF Suc.prems(1) L]
    have "chunks_loop n c2 b t max_len e a' = chunks_loop k c2 b t max_len e a'"
      if "0 < l" "len = Some l" "chunk_loop (length (in_stream c1) + 1) c1 blk nt l = Some (r, c2)" for l blk r c2 b t a'
    proof -
      have "conn_ok c2" "length (in_stream c2) \<le> length (in_stream c1)" using chunk_loop_frame [OF _ that(1,3)] E by auto
      then show ?thesis using E that(2) Suc.prems(2,3) m by (intro Suc.IH) auto
    qed
    then show ?thesis unfolding m chunks_loop.simps L
      by (auto simp: Let_def split: option.splits prod.splits bool.splits intro!: Option.bind_cong simp del: chunk_loop.simps)
  qed (simp add: m)
qed simp



end
