(* ===== verification/Configfile.thy ===== *)
theory Configfile
  imports Convert MetaMisc
begin

section \<open>Configuration files\<close>

text \<open>
  \<open>src/meta/src/meta_configfile.c\<close>: a file of lines with a name and a value is read into a table, from which values are taken as texts and
  numbers. The file is the list of its bytes, \<open>None\<close> when it cannot be opened; \<open>fgets\<close> is written out. Lines, names and values pass
  through arrays of 2048 bytes; an access outside them is \<open>None\<close>. \<open>configfile_free\<close> only releases memory; \<open>main\<close> is a test.
\<close>

subsection \<open>The table\<close>

record nameval =
  nv_name :: string
  nv_value :: string

definition MAX_DIRECTIVES :: nat where "MAX_DIRECTIVES = 2000"

record configfile =
  cf_values :: "nameval option list"
  cf_used :: size_t

subsection \<open>One line\<close>

function skip_space :: "char list \<Rightarrow> nat \<Rightarrow> nat option" where
  "skip_space buf s = (case get_at buf s of
     None \<Rightarrow> None
   | Some c \<Rightarrow> if c \<noteq> NUL \<and> isspace c then skip_space buf (s + 1) else Some s)"
  by pat_completeness auto
termination by (relation "measure (\<lambda>(buf, s). length buf - s)") (auto simp: get_at_def split: if_splits)

declare skip_space.simps [simp del]

text \<open>Characters are copied up to the terminator or a character at which to stop.\<close>

function copy_until :: "(char \<Rightarrow> bool) \<Rightarrow> char list \<Rightarrow> nat \<Rightarrow> char list \<Rightarrow> nat \<Rightarrow> (nat \<times> char list \<times> nat) option" where
  "copy_until stop src s dst d = (case get_at src s of
     None \<Rightarrow> None
   | Some c \<Rightarrow>
       if c = NUL \<or> stop c then Some (s, dst, d)
       else (case put_at dst d c of
           None \<Rightarrow> None
         | Some dst \<Rightarrow> copy_until stop src (s + 1) dst (d + 1)))"
  by pat_completeness auto
termination by (relation "measure (\<lambda>(stop, src, s, dst, d). length src - s)") (auto simp: get_at_def split: if_splits)

declare copy_until.simps [simp del]

definition get_name_and_value :: "char list \<Rightarrow> char list \<Rightarrow> char list \<Rightarrow> (int \<times> char list \<times> char list \<times> char list) option" where
  "get_name_and_value line name val = do {
     t \<leftarrow> cstr_at line 0;
     line \<leftarrow> (case strchr t (CHR ''#'') of None \<Rightarrow> Some line | Some k \<Rightarrow> put_at line k NUL);
     s \<leftarrow> skip_space line 0;
     c \<leftarrow> get_at line s;
     if c = NUL then Some (0, line, name, val)
     else do {
       (s, name, n) \<leftarrow> copy_until isspace line s name 0;
       c \<leftarrow> get_at line s;
       if c = NUL then Some (- 1, line, name, val)
       else do {
         name \<leftarrow> put_at name n NUL;
         s \<leftarrow> skip_space line s;
         c \<leftarrow> get_at line s;
         let quoted = (c = CHR 0x22);
         let s = (if quoted then s + 1 else s);
         (s, val, v) \<leftarrow> copy_until (if quoted then (\<lambda>c. c = CHR 0x22) else isspace) line s val 0;
         val \<leftarrow> put_at val v NUL;
         org_name \<leftarrow> cstr_at name 0;
         Some (if length org_name = 0 then - 1 else 1, line, name, val) } } }"

subsection \<open>Reading\<close>

definition cf_add :: "configfile \<Rightarrow> string \<Rightarrow> string \<Rightarrow> allocator \<Rightarrow> (status_t \<times> configfile \<times> allocator) option" where
  "cf_add cf name val a = (
     if cf_used cf \<ge> MAX_DIRECTIVES then Some (failure, cf, a)
     else (case try_alloc (length name + 1) a of
         (False, a) \<Rightarrow> Some (failure, cf, a)
       | (True, a) \<Rightarrow>
           (case try_alloc (length val + 1) a of
              (False, a) \<Rightarrow> Some (failure, cf, a)
            | (True, a) \<Rightarrow>
                (case try_alloc 16 a of
                   (False, a) \<Rightarrow> do { vs \<leftarrow> put_at (cf_values cf) (cf_used cf) None; Some (failure, cf\<lparr>cf_values := vs\<rparr>, a) }
                 | (True, a) \<Rightarrow> do {
                     vs \<leftarrow> put_at (cf_values cf) (cf_used cf) (Some \<lparr>nv_name = name, nv_value = val\<rparr>);
                     Some (success, cf\<lparr>cf_values := vs, cf_used := cf_used cf + 1\<rparr>, a) }))))"

text \<open>The number of bytes \<open>fgets\<close> takes from a file that is not at its end: a line with its line end, or as much of it as fits.\<close>

definition fgets_count :: "nat \<Rightarrow> char list \<Rightarrow> nat" where
  "fgets_count n input = min (n - 1) (Suc (length (takeWhile (\<lambda>c. c \<noteq> CHR 0x0A) input)))"

function read_loop :: "char list \<Rightarrow> char list \<Rightarrow> char list \<Rightarrow> char list \<Rightarrow> configfile \<Rightarrow> allocator \<Rightarrow> (status_t \<times> configfile \<times> allocator) option" where
  "read_loop input line name val p a = (
     if input = [] then Some (success, p, a)
     else let k = fgets_count 2048 input in
     (case wr line 0 (take k input @ [NUL]) of
        None \<Rightarrow> None
      | Some line \<Rightarrow>
          (case get_name_and_value line name val of
             None \<Rightarrow> None
           | Some (i, line, name, val) \<Rightarrow>
               if i = - 1 then Some (failure, p, a)
               else if i = 1 then
                 (case (do { n \<leftarrow> cstr_at name 0; v \<leftarrow> cstr_at val 0; cf_add p n v a }) of
                    None \<Rightarrow> None
                  | Some (ok, p, a) \<Rightarrow> if \<not> ok then Some (failure, p, a) else read_loop (drop k input) line name val p a)
               else read_loop (drop k input) line name val p a)))"
  by pat_completeness auto
termination by (relation "measure (\<lambda>(input, _). length input)") (auto simp: fgets_count_def Let_def neq_Nil_conv)

declare read_loop.simps [simp del]

definition configfile_read :: "char list option \<Rightarrow> allocator \<Rightarrow> (configfile option \<times> allocator) option" where
  "configfile_read file a = (case file of
     None \<Rightarrow> Some (None, a)
   | Some input \<Rightarrow>
       (case try_alloc (8 * MAX_DIRECTIVES + 8) a of
          (False, a) \<Rightarrow> Some (None, a)
        | (True, a) \<Rightarrow> do {
            (ok, p, a) \<leftarrow> read_loop input (fresh_bytes 2048 a) (fresh_bytes 2048 a) (fresh_bytes 2048 a)
              \<lparr>cf_values = replicate MAX_DIRECTIVES None, cf_used = 0\<rparr> a;
            Some (if ok then Some p else None, a) }))"

subsection \<open>Taking values\<close>

fun cf_find_loop :: "nat \<Rightarrow> nameval option list \<Rightarrow> nat \<Rightarrow> string \<Rightarrow> nameval option option" where
  "cf_find_loop 0 vs i name = Some None"
| "cf_find_loop (Suc n) vs i name = do {
     q \<leftarrow> get_at vs i;
     nv \<leftarrow> q;
     if strcmp0 name (nv_name nv) then Some (Some nv) else cf_find_loop n vs (i + 1) name }"

definition cf_find :: "configfile \<Rightarrow> string \<Rightarrow> nameval option option" where
  "cf_find cf name = cf_find_loop (cf_used cf) (cf_values cf) 0 name"

definition configfile_exists :: "configfile \<Rightarrow> string \<Rightarrow> bool option" where
  "configfile_exists cf name = do { r \<leftarrow> cf_find cf name; Some (r \<noteq> None) }"

definition configfile_get_string :: "configfile \<Rightarrow> string \<Rightarrow> char list \<Rightarrow> size_t \<Rightarrow> (status_t \<times> errno_t \<times> char list) option" where
  "configfile_get_string cf name val cb = (
     if cb \<le> 1 then None
     else do {
       pnv \<leftarrow> cf_find cf name;
       (case pnv of
          None \<Rightarrow> Some (failure, ENOENT, val)
        | Some nv \<Rightarrow>
            if length (nv_value nv) + 1 > cb then Some (failure, ENOSPC, val)
            else do { val \<leftarrow> wr val 0 (nv_value nv @ [NUL]); Some (success, E0, val) }) })"

text \<open>\<open>sz\<close> is the array on the stack. A \<open>long\<close> out of range has been stored when the function fails.\<close>

definition configfile_get_long :: "configfile \<Rightarrow> string \<Rightarrow> char list \<Rightarrow> int \<Rightarrow> (status_t \<times> int) option" where
  "configfile_get_long cf name sz val = do {
     (ok, e, sz) \<leftarrow> configfile_get_string cf name sz 20;
     if \<not> ok then Some (failure, val)
     else do {
       s \<leftarrow> cstr_at sz 0;
       let (val, endp, errno) = strtol s 10;
       if val = LONG_MIN \<or> val = LONG_MAX then Some (failure, val)
       else if val = 0 \<and> errno = EINVAL then Some (failure, val)
       else Some (success, val) } }"

definition configfile_get_ulong :: "configfile \<Rightarrow> string \<Rightarrow> char list \<Rightarrow> nat \<Rightarrow> (status_t \<times> nat) option" where
  "configfile_get_ulong cf name sz dst = do {
     (ok, e, sz) \<leftarrow> configfile_get_string cf name sz 20;
     if \<not> ok then Some (failure, dst)
     else do {
       s \<leftarrow> cstr_at sz 0;
       let (val, endp, errno) = strtol s 10;
       if val = LONG_MIN \<or> val = LONG_MAX then Some (failure, dst)
       else if val = 0 \<and> errno = EINVAL then Some (failure, dst)
       else Some (success, nat (val mod 2 ^ 64)) } }"

definition configfile_get_uint :: "configfile \<Rightarrow> string \<Rightarrow> char list \<Rightarrow> nat \<Rightarrow> (status_t \<times> nat) option" where
  "configfile_get_uint cf name sz val = do {
     (ok, tmp) \<leftarrow> configfile_get_ulong cf name sz 0;
     if \<not> ok then Some (failure, val)
     else if tmp > UINT_MAX then Some (failure, val)
     else Some (success, tmp) }"

definition configfile_get_uint16_t :: "configfile \<Rightarrow> string \<Rightarrow> char list \<Rightarrow> nat \<Rightarrow> (status_t \<times> nat) option" where
  "configfile_get_uint16_t cf name sz val = do {
     (ok, tmp) \<leftarrow> configfile_get_uint cf name sz 0;
     if \<not> ok then Some (failure, val)
     else if tmp > UINT16_MAX then Some (failure, val)
     else Some (success, tmp) }"

definition configfile_get_int :: "configfile \<Rightarrow> string \<Rightarrow> char list \<Rightarrow> int \<Rightarrow> (status_t \<times> int) option" where
  "configfile_get_int cf name sz val = do {
     (ok, tmp) \<leftarrow> configfile_get_long cf name sz 0;
     if \<not> ok then Some (failure, val)
     else if tmp < INT_MIN \<or> tmp > INT_MAX then Some (failure, val)
     else Some (success, tmp) }"

subsection \<open>What a line and a file mean\<close>

datatype line_sort = Blank | Malformed | Directive string string

text \<open>
  The text before the comment, without leading blanks, is a name, blanks and a value. A value in quotes ends at the next quote or at the end of the
  line, any other at the next blank; what follows is ignored.
\<close>

definition value_text :: "string \<Rightarrow> string" where
  "value_text r = (if r \<noteq> [] \<and> hd r = CHR 0x22 then takeWhile (\<lambda>c. c \<noteq> CHR 0x22) (tl r) else takeWhile (\<lambda>c. \<not> isspace c) r)"

definition line_kind :: "string \<Rightarrow> line_sort" where
  "line_kind t = (
     let t = dropWhile isspace (takeWhile (\<lambda>c. c \<noteq> CHR ''#'') t);
         name = takeWhile (\<lambda>c. \<not> isspace c) t;
         r = dropWhile (\<lambda>c. \<not> isspace c) t in
     if t = [] then Blank else if r = [] then Malformed else Directive name (value_text (dropWhile isspace r)))"

text \<open>The directives of a file; \<open>None\<close> when a line is malformed. A line that does not fit is taken in pieces, each as a line of its own.\<close>

function file_pieces :: "char list \<Rightarrow> string list" where
  "file_pieces input = (if input = [] then [] else
     takeWhile (\<lambda>c. c \<noteq> NUL) (take (fgets_count 2048 input) input) # file_pieces (drop (fgets_count 2048 input) input))"
  by pat_completeness auto
termination by (relation "measure length") (auto simp: fgets_count_def neq_Nil_conv)

declare file_pieces.simps [simp del]

fun directives :: "string list \<Rightarrow> (string \<times> string) list option" where
  "directives [] = Some []"
| "directives (t # ts) = (case line_kind t of
     Malformed \<Rightarrow> None
   | Blank \<Rightarrow> directives ts
   | Directive n v \<Rightarrow> map_option (Cons (n, v)) (directives ts))"

subsection \<open>The loops over the arrays\<close>

lemma skip_space_spec:
  "c_string w \<Longrightarrow> skip_space (pre @ w @ NUL # tail) (length pre) = Some (length pre + length (takeWhile isspace w))"
proof (induction w arbitrary: pre)
  case Nil
  then show ?case by (simp add: skip_space.simps get_at_def)
next
  case (Cons c w)
  then show ?case using Cons.IH [of "pre @ [c]"] by (subst skip_space.simps) (simp add: get_at_def)
qed

lemma copy_until_spec:
  assumes "c_string w" "d + length (takeWhile (\<lambda>c. \<not> stop c) w) \<le> length dst"
  shows "copy_until stop (pre @ w @ NUL # tail) (length pre) dst d =
    Some (length pre + length (takeWhile (\<lambda>c. \<not> stop c) w), take d dst @ takeWhile (\<lambda>c. \<not> stop c) w @ drop (d + length (takeWhile (\<lambda>c. \<not> stop c) w)) dst,
      d + length (takeWhile (\<lambda>c. \<not> stop c) w))"
  using assms
proof (induction w arbitrary: pre dst d)
  case Nil
  then show ?case by (simp add: copy_until.simps get_at_def)
next
  case (Cons c w)
  show ?case
  proof (cases "stop c")
    case True
    then show ?thesis by (subst copy_until.simps) (simp add: get_at_def)
  next
    case False
    then have d: "d < length dst" using Cons.prems(2) by simp
    have "copy_until stop (pre @ (c # w) @ NUL # tail) (length pre) dst d = copy_until stop ((pre @ [c]) @ w @ NUL # tail) (length (pre @ [c])) (dst[d := c]) (d + 1)"
      using False Cons.prems(1) d by (subst copy_until.simps) (simp add: get_at_def put_at_def)
    also have "\<dots> = Some (length (pre @ [c]) + length (takeWhile (\<lambda>c. \<not> stop c) w),
        take (d + 1) (dst[d := c]) @ takeWhile (\<lambda>c. \<not> stop c) w @ drop (d + 1 + length (takeWhile (\<lambda>c. \<not> stop c) w)) (dst[d := c]), d + 1 + length (takeWhile (\<lambda>c. \<not> stop c) w))"
      using Cons.prems False by (intro Cons.IH) simp_all
    finally show ?thesis using False d by (simp add: take_Suc_conv_app_nth)
  qed
qed

lemma cstr_at_0: "c_string u \<Longrightarrow> cstr_at (u @ NUL # tail) 0 = Some u"
  by (simp add: cstr_at_def takeWhile_NUL)

lemma cstr_at_c_string: "cstr_at buf i = Some s \<Longrightarrow> c_string s"
  by (auto simp: cstr_at_def c_string_def split: if_splits dest: set_takeWhileD)

lemma copied_text:
  assumes "c_string ws" "length ws < length dst"
  shows "\<exists>b. put_at (take 0 dst @ ws @ drop (0 + length ws) dst) (0 + length ws) NUL = Some b \<and> cstr_at b 0 = Some ws \<and> length b = length dst"
proof -
  let ?l = "take 0 dst @ ws @ drop (0 + length ws) dst"
  have "drop (length ws) dst = dst ! length ws # drop (Suc (length ws)) dst" using assms(2) by (simp add: Cons_nth_drop_Suc)
  then have "?l[length ws := NUL] = ws @ NUL # drop (Suc (length ws)) dst" by (simp add: list_update_append)
  then show ?thesis using assms cstr_at_0 [OF assms(1)] by (auto simp: put_at_def)
qed

lemma c_string_parts: "c_string s \<Longrightarrow> c_string (takeWhile P s)" "c_string s \<Longrightarrow> c_string (dropWhile P s)"
  by (auto simp: c_string_def dest: set_takeWhileD set_dropWhileD)

lemma comment_cut:
  assumes "c_string t"
  shows "\<exists>tail'. (case strchr t (CHR ''#'') of None \<Rightarrow> Some (t @ NUL # tail) | Some k \<Rightarrow> put_at (t @ NUL # tail) k NUL) =
    Some (takeWhile (\<lambda>c. c \<noteq> CHR ''#'') t @ NUL # tail') \<and> length tail' + length (takeWhile (\<lambda>c. c \<noteq> CHR ''#'') t) = length tail + length t"
proof (cases "strchr t (CHR ''#'')")
  case None
  then have tw: "takeWhile (\<lambda>c. c \<noteq> CHR ''#'') t = t" by (auto simp: strchr_None takeWhile_eq_all_conv)
  show ?thesis unfolding None tw by auto
next
  case (Some k)
  note K = strchr_Some [OF Some]
  have t: "t = take k t @ CHR ''#'' # drop (Suc k) t" using K by (metis id_take_nth_drop)
  have "takeWhile (\<lambda>c. c \<noteq> CHR ''#'') t = take k t" using K by (subst t) (auto simp: takeWhile_append takeWhile_eq_all_conv)
  moreover have "(t @ NUL # tail)[k := NUL] = take k t @ NUL # drop (Suc k) t @ NUL # tail" using K by (simp add: upd_conv_take_nth_drop)
  ultimately show ?thesis using Some K by (intro exI [of _ "drop (Suc k) t @ NUL # tail"]) (auto simp: put_at_def)
qed

lemma value_text_short: "length (value_text r) \<le> length r"
  by (cases r) (auto simp: value_text_def length_takeWhile_le le_SucI)

text \<open>One line: the loops compute \<open>line_kind\<close>, and nothing is written outside the arrays.\<close>

lemma get_name_and_value_spec:
  assumes "c_string t" "line = t @ NUL # tail" "length t < length name" "length t < length val"
  shows "\<exists>i line' name' val'. get_name_and_value line name val = Some (i, line', name', val') \<and>
    length line' = length line \<and> length name' = length name \<and> length val' = length val \<and>
    (case line_kind t of Blank \<Rightarrow> i = 0 | Malformed \<Rightarrow> i = - 1 | Directive n v \<Rightarrow> i = 1 \<and> cstr_at name' 0 = Some n \<and> cstr_at val' 0 = Some v)"
proof -
  define u where "u = takeWhile (\<lambda>c. c \<noteq> CHR ''#'') t"
  define sp where "sp = takeWhile isspace u"
  define w where "w = dropWhile isspace u"
  define nm where "nm = takeWhile (\<lambda>c. \<not> isspace c) w"
  define r where "r = dropWhile (\<lambda>c. \<not> isspace c) w"
  define sp2 where "sp2 = takeWhile isspace r"
  define x where "x = dropWhile isspace r"
  have cs: "c_string u" "c_string w" "c_string nm" "c_string r" "c_string x" unfolding u_def w_def nm_def r_def x_def using assms(1) by (simp_all add: c_string_parts)
  have dec: "u = sp @ w" "w = nm @ r" "r = sp2 @ x" by (simp_all add: sp_def w_def nm_def r_def sp2_def x_def)
  have lens: "length u \<le> length t" by (simp add: u_def length_takeWhile_le)
  obtain tail' where cut: "(case strchr t (CHR ''#'') of None \<Rightarrow> Some line | Some k \<Rightarrow> put_at line k NUL) = Some (u @ NUL # tail')"
    "length (u @ NUL # tail') = length line" unfolding u_def assms(2) using comment_cut [OF assms(1), of tail] by force
  let ?line = "u @ NUL # tail'"
  have t: "cstr_at line 0 = Some t" unfolding assms(2) by (rule cstr_at_0 [OF assms(1)])
  have s1: "skip_space ?line 0 = Some (length sp)" using skip_space_spec [OF cs(1), of "[]" tail'] by (simp add: sp_def)
  have c1: "get_at ?line (length sp) = Some (if w = [] then NUL else hd w)" by (cases w) (simp_all add: get_at_def dec(1))
  have nn: "\<not> isspace (hd w)" if "w \<noteq> []" using that unfolding w_def by (rule hd_dropWhile)
  have nul: "hd v \<noteq> NUL" if "c_string v" "v \<noteq> []" for v using that by (cases v) auto
  have k: "line_kind t = (if w = [] then Blank else if r = [] then Malformed else Directive nm (value_text x))"
    unfolding line_kind_def Let_def u_def [symmetric] w_def [symmetric] nm_def [symmetric] r_def [symmetric] x_def [symmetric] ..
  note start = get_name_and_value_def t cut(1) s1 c1
  show ?thesis
  proof (cases "w = []")
    case True
    then show ?thesis using cut(2) by (simp add: start k)
  next
    case False
    let ?name = "take 0 name @ nm @ drop (0 + length nm) name"
    have ln: "length nm < length name" using lens assms(3) unfolding dec by simp
    have cp: "copy_until isspace ?line (length sp) name 0 = Some (length sp + length nm, ?name, 0 + length nm)"
      using copy_until_spec [OF cs(2), of 0 isspace name sp tail'] ln by (simp add: nm_def [symmetric] dec(1))
    have c2: "get_at ?line (length sp + length nm) = Some (if r = [] then NUL else hd r)" by (cases r) (simp_all add: get_at_def dec(1,2) nth_append)
    show ?thesis
    proof (cases "r = []")
      case True
      then show ?thesis using False nul [OF cs(2) False] cut(2) ln by (simp add: start k cp c2)
    next
      case r: False
      obtain b where b: "put_at ?name (0 + length nm) NUL = Some b" "cstr_at b 0 = Some nm" "length b = length name" using copied_text [OF cs(3) ln] by blast
      have s2: "skip_space ?line (length sp + length nm) = Some (length (sp @ nm @ sp2))"
        using skip_space_spec [OF cs(4), of "sp @ nm" tail'] by (simp add: sp2_def [symmetric] dec(1,2))
      have c3: "get_at ?line (length (sp @ nm @ sp2)) = Some (if x = [] then NUL else hd x)" by (cases x) (simp_all add: get_at_def dec nth_append)
      let ?q = "x \<noteq> [] \<and> hd x = CHR 0x22"
      let ?stop = "if ?q then (\<lambda>c. c = CHR 0x22) else isspace" and ?s = "if ?q then length (sp @ nm @ sp2) + 1 else length (sp @ nm @ sp2)"
      have vl: "length (value_text x) < length val" using value_text_short [of x] lens assms(4) unfolding dec by simp
      have vs: "c_string (value_text x)" unfolding value_text_def using cs(5) by (cases x) (auto simp: c_string_parts)
      have cv: "\<exists>s. copy_until ?stop ?line ?s val 0 = Some (s, take 0 val @ value_text x @ drop (0 + length (value_text x)) val, 0 + length (value_text x))"
      proof (cases ?q)
        case True
        then obtain y where y: "x = CHR 0x22 # y" by (cases x) auto
        show ?thesis using copy_until_spec [of y 0 "\<lambda>c. c = CHR 0x22" val "sp @ nm @ sp2 @ [CHR 0x22]" tail'] cs(5) vl
          by (simp add: y value_text_def dec)
      next
        case False
        then have vt: "value_text x = takeWhile (\<lambda>c. \<not> isspace c) x" unfolding value_text_def by (rule if_not_P)
        show ?thesis unfolding if_not_P [OF False] using copy_until_spec [OF cs(5), of 0 isspace val "sp @ nm @ sp2" tail'] vl by (simp add: vt dec)
      qed
      obtain d where d: "put_at (take 0 val @ value_text x @ drop (0 + length (value_text x)) val) (0 + length (value_text x)) NUL = Some d"
        "cstr_at d 0 = Some (value_text x)" "length d = length val" using copied_text [OF vs vl] by blast
      have ne: "nm \<noteq> []" using nn [OF False] False unfolding nm_def by (cases w) auto
      have q: "((if x = [] then NUL else hd x) = CHR 0x22) = ?q" by simp
      from cv obtain s where "copy_until ?stop ?line ?s val 0 = Some (s, take 0 val @ value_text x @ drop (0 + length (value_text x)) val, 0 + length (value_text x))" ..
      then show ?thesis using False r nul [OF cs(2) False] nul [OF cs(4) r] ne cut(2) b d
        by (simp add: start k cp c2 b(1) s2 c3 q Let_def del: length_append drop_append take_0 append_Nil add_0)
    qed
  qed
qed

subsection \<open>Reading a file\<close>

definition cf_rep :: "configfile \<Rightarrow> (string \<times> string) list \<Rightarrow> bool" where
  "cf_rep cf ds \<longleftrightarrow> cf_used cf = length ds \<and> length (cf_values cf) = MAX_DIRECTIVES \<and> length ds \<le> MAX_DIRECTIVES \<and>
     take (length ds) (cf_values cf) = map (\<lambda>(n, v). Some \<lparr>nv_name = n, nv_value = v\<rparr>) ds \<and> (\<forall>(n, v) \<in> set ds. c_string v)"

lemma cf_add_spec:
  assumes "cf_rep cf ds" "length n < 2048" "length v < 2048" "c_string v"
  obtains ok cf' a' where "cf_add cf n v a = Some (ok, cf', a')" "ok \<longrightarrow> cf_rep cf' (ds @ [(n, v)])"
    "decisions a = [] \<longrightarrow> decisions a' = [] \<and> ok = (length ds < MAX_DIRECTIVES)"
proof (cases "length ds < MAX_DIRECTIVES")
  case False
  then show thesis using assms(1) by (intro that [of False cf a]) (simp_all add: cf_add_def cf_rep_def)
next
  case True
  let ?nv = "\<lparr>nv_name = n, nv_value = v\<rparr>" and ?i = "length ds"
  let ?cf = "cf\<lparr>cf_values := (cf_values cf)[?i := Some ?nv], cf_used := cf_used cf + 1\<rparr>"
  have u: "cf_used cf = ?i" "?i < length (cf_values cf)" using assms(1) True by (simp_all add: cf_rep_def)
  have p: "put_at (cf_values cf) ?i y = Some ((cf_values cf)[?i := y])" for y using u by (simp add: put_at_def)
  have r: "cf_rep ?cf (ds @ [(n, v)])" using assms(1,4) True by (simp add: cf_rep_def take_Suc_conv_app_nth)
  obtain b1 a1 where 1: "try_alloc (length n + 1) a = (b1, a1)" "decisions a = [] \<longrightarrow> b1 \<and> a1 = a"
    using assms(2) by (cases "try_alloc (length n + 1) a") (auto simp: try_alloc_def PTRDIFF_MAX_def split: if_splits list.splits)
  obtain b2 a2 where 2: "try_alloc (length v + 1) a1 = (b2, a2)" "decisions a1 = [] \<longrightarrow> b2 \<and> a2 = a1"
    using assms(3) by (cases "try_alloc (length v + 1) a1") (auto simp: try_alloc_def PTRDIFF_MAX_def split: if_splits list.splits)
  obtain b3 a3 where 3: "try_alloc 16 a2 = (b3, a3)" "decisions a2 = [] \<longrightarrow> b3 \<and> a3 = a2"
    by (cases "try_alloc 16 a2") (auto simp: try_alloc_def PTRDIFF_MAX_def split: if_splits list.splits)
  show thesis
  proof (cases "b1 \<and> b2 \<and> b3")
    case ok: True
    then have "cf_add cf n v a = Some (True, ?cf, a3)" using True u 1(1) 2(1) 3(1) p by (simp add: cf_add_def)
    then show thesis by (rule that) (use r True 1(2) 2(2) 3(2) in auto)
  next
    case no: False
    then obtain cf' a' where "cf_add cf n v a = Some (False, cf', a')" using True u 1(1) 2(1) 3(1) p by (cases b1; cases b2; cases b3) (auto simp: cf_add_def)
    then show thesis by (rule that) (use no 1(2) 2(2) 3(2) in auto)
  qed
qed

lemma first_string: "\<exists>tail. bs @ NUL # rest = takeWhile (\<lambda>c. c \<noteq> NUL) bs @ NUL # tail"
  by (induction bs) auto

lemma fgets_piece:
  assumes "length line = n" "0 < n"
  obtains l tail where "wr line 0 (take (fgets_count n input) input @ [NUL]) = Some l" "length l = n"
    "l = takeWhile (\<lambda>c. c \<noteq> NUL) (take (fgets_count n input) input) @ NUL # tail"
    "c_string (takeWhile (\<lambda>c. c \<noteq> NUL) (take (fgets_count n input) input))"
    "length (takeWhile (\<lambda>c. c \<noteq> NUL) (take (fgets_count n input) input)) < n"
proof -
  let ?bs = "take (fgets_count n input) input"
  have len: "length ?bs < n" using assms(2) by (auto simp: fgets_count_def)
  let ?l = "?bs @ NUL # drop (length ?bs + 1) line"
  have w: "wr line 0 (?bs @ [NUL]) = Some ?l" using assms len by (simp add: wr_def)
  obtain tail where tail: "?l = takeWhile (\<lambda>c. c \<noteq> NUL) ?bs @ NUL # tail" using first_string by blast
  have c: "c_string (takeWhile (\<lambda>c. c \<noteq> NUL) ?bs)" by (auto simp: c_string_def dest: set_takeWhileD)
  have "length (takeWhile (\<lambda>c. c \<noteq> NUL) ?bs) < n" using length_takeWhile_le [of "\<lambda>c. c \<noteq> NUL" ?bs] len by linarith
  then show thesis using that [OF w _ tail c] wr_length [OF w] assms by simp
qed

lemma fgets_line:
  assumes "CHR 0x0A \<notin> set l" "length l + 1 < n"
  shows "fgets_count n ((l @ [CHR 0x0A]) @ rest) = length (l @ [CHR 0x0A])"
proof -
  have "takeWhile (\<lambda>c. c \<noteq> CHR 0x0A) ((l @ [CHR 0x0A]) @ rest) = l" using assms(1) by (induction l) auto
  then show ?thesis using assms(2) by (simp add: fgets_count_def)
qed

lemma line_kind_short:
  assumes "line_kind t = Directive n v"
  shows "length n \<le> length t" "length v \<le> length t"
proof -
  have tw: "length (takeWhile P s) \<le> length s" "length (dropWhile P s) \<le> length s" for P :: "char \<Rightarrow> bool" and s
    by (rule length_takeWhile_le length_dropWhile_le)+
  let ?w = "dropWhile isspace (takeWhile (\<lambda>c. c \<noteq> CHR ''#'') t)"
  let ?r = "dropWhile isspace (dropWhile (\<lambda>c. \<not> isspace c) ?w)"
  have d: "n = takeWhile (\<lambda>c. \<not> isspace c) ?w" "v = value_text ?r" using assms by (auto simp: line_kind_def Let_def split: if_splits)
  have w: "length ?w \<le> length t" by (meson tw order.trans)
  then show "length n \<le> length t" unfolding d(1) by (meson tw order.trans)
  have "length (value_text ?r) \<le> length ?r" by (rule value_text_short)
  also have "\<dots> \<le> length t" using w by (meson tw order.trans)
  finally show "length v \<le> length t" unfolding d(2) .
qed

lemma read_loop_Nil: "read_loop [] line name val p a = Some (True, p, a)"
  by (subst read_loop.simps) (rule if_P [OF refl])

lemma file_pieces_Nil: "file_pieces [] = []"
  by (subst file_pieces.simps) (rule if_P [OF refl])

lemma read_loop_spec:
  assumes "length line = 2048" "length name = 2048" "length val = 2048" "cf_rep p ds"
  shows "\<exists>ok p' a'. read_loop input line name val p a = Some (ok, p', a') \<and>
    (ok \<longrightarrow> (\<exists>new. directives (file_pieces input) = Some new \<and> cf_rep p' (ds @ new))) \<and>
    (decisions a = [] \<longrightarrow> decisions a' = [] \<and> ok = (case directives (file_pieces input) of None \<Rightarrow> False | Some new \<Rightarrow> length (ds @ new) \<le> MAX_DIRECTIVES))"
  using assms
proof (induction input arbitrary: line name val p ds a rule: file_pieces.induct)
  case (1 input)
  show ?case
  proof (cases "input = []")
    case True
    have "length ds \<le> MAX_DIRECTIVES" using "1.prems"(4) by (simp add: cf_rep_def)
    then show ?thesis unfolding True read_loop_Nil file_pieces_Nil using "1.prems"(4) by auto
  next
    case False
    let ?k = "fgets_count 2048 input"
    let ?t = "takeWhile (\<lambda>c. c \<noteq> NUL) (take ?k input)" and ?rest = "drop ?k input"
    obtain l tail where l: "wr line 0 (take ?k input @ [NUL]) = Some l" "length l = 2048" "l = ?t @ NUL # tail" "c_string ?t" "length ?t < 2048"
      by (rule fgets_piece [OF "1.prems"(1) zero_less_numeral, of input])
    obtain i l' n' v' where g: "get_name_and_value l name val = Some (i, l', n', v')" "length l' = 2048" "length n' = 2048" "length v' = 2048"
      "case line_kind ?t of Blank \<Rightarrow> i = 0 | Malformed \<Rightarrow> i = - 1 | Directive n v \<Rightarrow> i = 1 \<and> cstr_at n' 0 = Some n \<and> cstr_at v' 0 = Some v"
      using get_name_and_value_spec [OF l(4,3), of name val] "1.prems" l(2,5) by auto
    have pieces: "file_pieces input = ?t # file_pieces ?rest" using False by (subst file_pieces.simps) simp
    note step = read_loop.simps [of input line name val p a]
    show ?thesis
    proof (cases "line_kind ?t")
      case Blank
      then have "read_loop input line name val p a = read_loop ?rest l' n' v' p a" using False l(1) g(1,5) by (subst step) (simp add: Let_def)
      then show ?thesis using "1.IH" [OF False g(2-4) "1.prems"(4), of a] Blank by (simp add: pieces)
    next
      case Malformed
      then have "read_loop input line name val p a = Some (False, p, a)" using False l(1) g(1,5) by (subst step) (simp add: Let_def)
      then show ?thesis unfolding pieces using Malformed by auto
    next
      case (Directive n v)
      then have i: "i = 1" "cstr_at n' 0 = Some n" "cstr_at v' 0 = Some v" using g(5) by simp_all
      have sh: "length n < 2048" "length v < 2048" using line_kind_short [OF Directive] l(5) by simp_all
      obtain ok p1 a1 where A: "cf_add p n v a = Some (ok, p1, a1)" "ok \<longrightarrow> cf_rep p1 (ds @ [(n, v)])"
        "decisions a = [] \<longrightarrow> decisions a1 = [] \<and> ok = (length ds < MAX_DIRECTIVES)" by (rule cf_add_spec [OF "1.prems"(4) sh cstr_at_c_string [OF i(3)]])
      have eq: "read_loop input line name val p a = (if \<not> ok then Some (False, p1, a1) else read_loop ?rest l' n' v' p1 a1)"
        using False l(1) g(1) i A(1) by (subst step) (simp add: Let_def)
      show ?thesis
      proof (cases ok)
        case True
        then obtain ok2 p2 a2 where R: "read_loop ?rest l' n' v' p1 a1 = Some (ok2, p2, a2)"
          "ok2 \<longrightarrow> (\<exists>new. directives (file_pieces ?rest) = Some new \<and> cf_rep p2 ((ds @ [(n, v)]) @ new))"
          "decisions a1 = [] \<longrightarrow> decisions a2 = [] \<and> ok2 = (case directives (file_pieces ?rest) of None \<Rightarrow> False | Some new \<Rightarrow> length ((ds @ [(n, v)]) @ new) \<le> MAX_DIRECTIVES)"
          using "1.IH" [OF False g(2-4), of p1 "ds @ [(n, v)]" a1] A(2) by blast
        show ?thesis using R A(3) True Directive unfolding eq pieces by (auto split: option.splits)
      next
        case no: False
        then have "decisions a = [] \<longrightarrow> decisions a1 = [] \<and> length ds = MAX_DIRECTIVES" using A(3) "1.prems"(4) by (auto simp: cf_rep_def)
        then show ?thesis using no Directive unfolding eq pieces by (auto split: option.splits)
      qed
    qed
  qed
qed

subsection \<open>Taking values from the table\<close>

lemma cf_find_loop_spec:
  assumes "drop i vs = map (\<lambda>(n, v). Some \<lparr>nv_name = n, nv_value = v\<rparr>) ds @ rest"
  shows "cf_find_loop (length ds) vs i name = Some (map_option (\<lambda>v. \<lparr>nv_name = name, nv_value = v\<rparr>) (map_of ds name))"
  using assms
proof (induction ds arbitrary: i)
  case (Cons d ds)
  obtain n v where d: "d = (n, v)" by (cases d)
  have D: "drop i vs = Some \<lparr>nv_name = n, nv_value = v\<rparr> # map (\<lambda>(n, v). Some \<lparr>nv_name = n, nv_value = v\<rparr>) ds @ rest" using Cons.prems d by simp
  then have i: "i < length vs" by (metis drop_eq_Nil list.distinct(1) not_le)
  then have "vs ! i = Some \<lparr>nv_name = n, nv_value = v\<rparr>" "drop (Suc i) vs = map (\<lambda>(n, v). Some \<lparr>nv_name = n, nv_value = v\<rparr>) ds @ rest"
    using D by (simp_all add: Cons_nth_drop_Suc [symmetric])
  then show ?case using Cons.IH [of "Suc i"] i by (simp add: d get_at_def strcmp0_def eq_commute)
qed simp

lemma cf_find_spec:
  assumes "cf_rep cf ds"
  shows "cf_find cf name = Some (map_option (\<lambda>v. \<lparr>nv_name = name, nv_value = v\<rparr>) (map_of ds name))"
proof -
  have "drop 0 (cf_values cf) = map (\<lambda>(n, v). Some \<lparr>nv_name = n, nv_value = v\<rparr>) ds @ drop (length ds) (cf_values cf)"
    using assms append_take_drop_id [of "length ds" "cf_values cf"] by (simp add: cf_rep_def)
  from cf_find_loop_spec [OF this] show ?thesis using assms by (simp add: cf_find_def cf_rep_def)
qed

lemma get_string_spec:
  assumes "cf_rep cf ds" "1 < cb" "cb \<le> length buf"
  shows "configfile_get_string cf name buf cb = Some (case map_of ds name of
      None \<Rightarrow> (failure, ENOENT, buf)
    | Some v \<Rightarrow> if length v \<ge> cb then (failure, ENOSPC, buf) else (success, E0, v @ NUL # drop (length v + 1) buf))"
  using assms(2,3) cf_find_spec [OF assms(1), of name] by (simp add: configfile_get_string_def wr_def split: option.splits)

text \<open>The number at the beginning of a text, 0 when there is none.\<close>

definition leading_number :: "string \<Rightarrow> int" where
  "leading_number s = (case strto 10 s of None \<Rightarrow> 0 | Some (neg, m, _) \<Rightarrow> if neg then - int m else int m)"

definition config_number :: "(string \<times> string) list \<Rightarrow> string \<Rightarrow> int option" where
  "config_number ds name = (case map_of ds name of None \<Rightarrow> None | Some v \<Rightarrow> if length v < 20 then Some (leading_number v) else None)"

lemma strtol_leading:
  "\<exists>n e. strtol s 10 = (if LONG_MAX < leading_number s then LONG_MAX else if leading_number s < LONG_MIN then LONG_MIN else leading_number s, n, e) \<and> e \<noteq> EINVAL"
  by (auto simp: strtol_def leading_number_def Let_def limit_defs split: option.splits)

lemma map_of_c_string: "cf_rep cf ds \<Longrightarrow> map_of ds name = Some v \<Longrightarrow> c_string v"
  by (auto simp: cf_rep_def dest: map_of_SomeD)

lemma get_long_spec:
  assumes "cf_rep cf ds" "length sz = 20"
  shows "\<exists>z. configfile_get_long cf name sz d = Some (case map_of ds name of
      None \<Rightarrow> (failure, d)
    | Some v \<Rightarrow> if length v \<ge> 20 then (failure, d) else if LONG_MIN < leading_number v \<and> leading_number v < LONG_MAX then (success, leading_number v) else (failure, z))"
proof (cases "map_of ds name")
  case None
  then show ?thesis using get_string_spec [OF assms(1), of 20 sz name] assms(2) by (simp add: configfile_get_long_def)
next
  case (Some v)
  obtain n e where "strtol v 10 = (if LONG_MAX < leading_number v then LONG_MAX else if leading_number v < LONG_MIN then LONG_MIN else leading_number v, n, e)" "e \<noteq> EINVAL"
    using strtol_leading by blast
  then show ?thesis using get_string_spec [OF assms(1), of 20 sz name] assms(2) Some cstr_at_0 [OF map_of_c_string [OF assms(1) Some]]
    by (auto simp: configfile_get_long_def)
qed

lemma get_ulong_spec:
  assumes "cf_rep cf ds" "length sz = 20"
  shows "configfile_get_ulong cf name sz d = Some (case map_of ds name of
      None \<Rightarrow> (failure, d)
    | Some v \<Rightarrow> if length v \<ge> 20 then (failure, d) else if LONG_MIN < leading_number v \<and> leading_number v < LONG_MAX then (success, nat (leading_number v mod 2 ^ 64)) else (failure, d))"
proof (cases "map_of ds name")
  case None
  then show ?thesis using get_string_spec [OF assms(1), of 20 sz name] assms(2) by (simp add: configfile_get_ulong_def)
next
  case (Some v)
  obtain n e where "strtol v 10 = (if LONG_MAX < leading_number v then LONG_MAX else if leading_number v < LONG_MIN then LONG_MIN else leading_number v, n, e)" "e \<noteq> EINVAL"
    using strtol_leading by blast
  then show ?thesis using get_string_spec [OF assms(1), of 20 sz name] assms(2) Some cstr_at_0 [OF map_of_c_string [OF assms(1) Some]]
    by (auto simp: configfile_get_ulong_def)
qed

lemma unsigned_of_long:
  assumes "LONG_MIN < z" "z < LONG_MAX" "k \<le> UINT_MAX"
  shows "nat (z mod 2 ^ 64) \<le> k \<longleftrightarrow> 0 \<le> z \<and> z \<le> int k" "0 \<le> z \<Longrightarrow> nat (z mod 2 ^ 64) = nat z"
proof -
  have "z mod 2 ^ 64 = (if z < 0 then z + 2 ^ 64 else z)"
  proof (cases "z < 0")
    case True
    have "(z + 2 ^ 64) mod 2 ^ 64 = z + 2 ^ 64" using True assms(1) by (intro mod_pos_pos_trivial) (simp_all add: limit_defs)
    then show ?thesis using True by simp
  qed (use assms(2) in \<open>simp add: limit_defs\<close>)
  then show "nat (z mod 2 ^ 64) \<le> k \<longleftrightarrow> 0 \<le> z \<and> z \<le> int k" "0 \<le> z \<Longrightarrow> nat (z mod 2 ^ 64) = nat z" using assms by (auto simp: limit_defs)
qed

lemma numbers_spec:
  assumes "cf_rep cf ds" "length sz = 20"
  shows "configfile_get_int cf name sz d = Some (case config_number ds name of None \<Rightarrow> (failure, d) | Some z \<Rightarrow> if INT_MIN \<le> z \<and> z \<le> INT_MAX then (success, z) else (failure, d)) \<and>
    configfile_get_uint cf name sz k = Some (case config_number ds name of None \<Rightarrow> (failure, k) | Some z \<Rightarrow> if 0 \<le> z \<and> z \<le> int UINT_MAX then (success, nat z) else (failure, k)) \<and>
    configfile_get_uint16_t cf name sz k = Some (case config_number ds name of None \<Rightarrow> (failure, k) | Some z \<Rightarrow> if 0 \<le> z \<and> z \<le> int UINT16_MAX then (success, nat z) else (failure, k))"
proof (intro conjI)
  obtain y where L: "configfile_get_long cf name sz 0 = Some (case map_of ds name of
      None \<Rightarrow> (failure, 0)
    | Some v \<Rightarrow> if length v \<ge> 20 then (failure, 0) else if LONG_MIN < leading_number v \<and> leading_number v < LONG_MAX then (success, leading_number v) else (failure, y))"
    using get_long_spec [OF assms(1,2), of name 0] by blast
  have r: "LONG_MIN < INT_MIN" "INT_MAX < LONG_MAX" "int UINT_MAX < LONG_MAX" "LONG_MIN < 0" "UINT16_MAX \<le> UINT_MAX" by (simp_all add: limit_defs)
  show "configfile_get_int cf name sz d = Some (case config_number ds name of None \<Rightarrow> (failure, d) | Some z \<Rightarrow> if INT_MIN \<le> z \<and> z \<le> INT_MAX then (success, z) else (failure, d))"
    using r(1,2) unfolding configfile_get_int_def L config_number_def by (auto split: option.splits)
  have U: "configfile_get_uint cf name sz k = Some (case config_number ds name of None \<Rightarrow> (failure, k) | Some z \<Rightarrow> if 0 \<le> z \<and> z \<le> int UINT_MAX then (success, nat z) else (failure, k))" for k
    using r(3,4) unsigned_of_long [of _ UINT_MAX] unfolding configfile_get_uint_def get_ulong_spec [OF assms(1,2), of name 0] config_number_def
    by (fastforce simp: not_le split: option.splits)
  show "configfile_get_uint cf name sz k = Some (case config_number ds name of None \<Rightarrow> (failure, k) | Some z \<Rightarrow> if 0 \<le> z \<and> z \<le> int UINT_MAX then (success, nat z) else (failure, k))" by (rule U)
  show "configfile_get_uint16_t cf name sz k = Some (case config_number ds name of None \<Rightarrow> (failure, k) | Some z \<Rightarrow> if 0 \<le> z \<and> z \<le> int UINT16_MAX then (success, nat z) else (failure, k))"
    using r(5) unfolding configfile_get_uint16_t_def U by (auto split: option.splits)
qed

subsection \<open>Files that were written\<close>

definition config_line :: "string \<times> string \<Rightarrow> string" where
  "config_line d = fst d @ '' '' @ [CHR 0x22] @ snd d @ [CHR 0x22, CHR 0x0A]"

definition writable :: "string \<times> string \<Rightarrow> bool" where
  "writable d \<longleftrightarrow> fst d \<noteq> [] \<and> (\<forall>c \<in> set (fst d). \<not> isspace c \<and> c \<noteq> CHR ''#'' \<and> c \<noteq> NUL) \<and>
     (\<forall>c \<in> set (snd d). c \<noteq> CHR 0x0A \<and> c \<noteq> CHR 0x22 \<and> c \<noteq> CHR ''#'' \<and> c \<noteq> NUL) \<and> length (config_line d) < 2048"

lemma piece_line:
  assumes "CHR 0x0A \<notin> set l" "c_string l" "length l < 2047"
  shows "file_pieces ((l @ [CHR 0x0A]) @ rest) = (l @ [CHR 0x0A]) # file_pieces rest"
proof -
  have k: "fgets_count 2048 ((l @ [CHR 0x0A]) @ rest) = length (l @ [CHR 0x0A])" using assms(1,3) by (intro fgets_line) simp_all
  have "c_string (l @ [CHR 0x0A])" using assms(2) by simp
  then have "takeWhile (\<lambda>c. c \<noteq> NUL) (l @ [CHR 0x0A]) = l @ [CHR 0x0A]" by (rule takeWhile_c_string)
  then show ?thesis by (subst file_pieces.simps) (simp add: k [simplified])
qed

lemma line_kind_written:
  assumes "writable (n, v)"
  shows "line_kind (config_line (n, v)) = Directive n v"
proof -
  let ?l = "config_line (n, v)"
  have W: "n \<noteq> []" "\<forall>c \<in> set n. \<not> isspace c \<and> c \<noteq> CHR ''#''" "\<forall>c \<in> set v. c \<noteq> CHR 0x22 \<and> c \<noteq> CHR ''#''"
    using assms by (auto simp: writable_def)
  have sp: "isspace (CHR '' '')" "\<not> isspace (CHR 0x22)" by (simp_all add: isspace_def)
  have c: "takeWhile (\<lambda>c. c \<noteq> CHR ''#'') ?l = ?l" using W by (auto simp: takeWhile_eq_all_conv config_line_def)
  have d: "dropWhile isspace ?l = ?l" using W by (cases n) (auto simp: config_line_def)
  have t: "takeWhile (\<lambda>c. \<not> isspace c) ?l = n" "dropWhile (\<lambda>c. \<not> isspace c) ?l = '' '' @ [CHR 0x22] @ v @ [CHR 0x22, CHR 0x0A]"
    using W(2) sp by (simp_all add: config_line_def takeWhile_append dropWhile_append)
  have "takeWhile (\<lambda>c. c \<noteq> CHR 0x22) (v @ [CHR 0x22, CHR 0x0A]) = v" using W(3) by (simp add: takeWhile_append)
  then have "value_text ([CHR 0x22] @ v @ [CHR 0x22, CHR 0x0A]) = v" by (simp add: value_text_def)
  moreover have "?l \<noteq> []" by (simp add: config_line_def)
  ultimately show ?thesis unfolding line_kind_def Let_def c d t using sp by simp
qed

lemma directives_written:
  assumes "list_all writable ds"
  shows "directives (file_pieces (concat (map config_line ds))) = Some ds"
  using assms
proof (induction ds)
  case Nil
  then show ?case by (simp add: file_pieces_Nil)
next
  case (Cons d ds)
  obtain n v where d: "d = (n, v)" by (cases d)
  let ?l = "n @ '' '' @ [CHR 0x22] @ v @ [CHR 0x22]"
  have w: "writable (n, v)" using Cons.prems d by simp
  have l: "config_line d = ?l @ [CHR 0x0A]" by (simp add: config_line_def d)
  have "isspace (CHR 0x0A)" by (simp add: isspace_def)
  then have "CHR 0x0A \<notin> set n" using w by (auto simp: writable_def)
  then have f: "CHR 0x0A \<notin> set ?l" "c_string ?l" "length ?l < 2047" using w by (auto simp: writable_def c_string_def config_line_def)
  have "file_pieces (concat (map config_line (d # ds))) = config_line d # file_pieces (concat (map config_line ds))"
    using piece_line [OF f, of "concat (map config_line ds)"] by (simp add: l)
  then show ?case using Cons line_kind_written [OF w] d by simp
qed

lemma configfile_read_spec:
  "\<exists>r a'. configfile_read (Some input) a = Some (r, a') \<and>
     (\<forall>cf. r = Some cf \<longrightarrow> (\<exists>ds. directives (file_pieces input) = Some ds \<and> cf_rep cf ds)) \<and>
     (decisions a = [] \<longrightarrow> decisions a' = [] \<and> (r \<noteq> None) = (case directives (file_pieces input) of None \<Rightarrow> False | Some ds \<Rightarrow> length ds \<le> MAX_DIRECTIVES))"
proof -
  let ?cf = "\<lparr>cf_values = replicate MAX_DIRECTIVES None, cf_used = 0\<rparr>"
  obtain ok a1 where al: "try_alloc (8 * MAX_DIRECTIVES + 8) a = (ok, a1)" "decisions a = [] \<longrightarrow> ok \<and> a1 = a"
    by (cases "try_alloc (8 * MAX_DIRECTIVES + 8) a") (auto simp: try_alloc_def PTRDIFF_MAX_def MAX_DIRECTIVES_def split: if_splits list.splits)
  show ?thesis
  proof (cases ok)
    case False
    then show ?thesis using al by (simp add: configfile_read_def)
  next
    case True
    have "cf_rep ?cf []" by (simp add: cf_rep_def)
    then obtain ok p' a' where R: "read_loop input (fresh_bytes 2048 a1) (fresh_bytes 2048 a1) (fresh_bytes 2048 a1) ?cf a1 = Some (ok, p', a')"
      "ok \<longrightarrow> (\<exists>new. directives (file_pieces input) = Some new \<and> cf_rep p' ([] @ new))"
      "decisions a1 = [] \<longrightarrow> decisions a' = [] \<and> ok = (case directives (file_pieces input) of None \<Rightarrow> False | Some new \<Rightarrow> length ([] @ new) \<le> MAX_DIRECTIVES)"
      using read_loop_spec [of "fresh_bytes 2048 a1" "fresh_bytes 2048 a1" "fresh_bytes 2048 a1" ?cf "[]" input a1] by auto
    then have "configfile_read (Some input) a = Some (if ok then Some p' else None, a')" using al(1) True by (simp add: configfile_read_def)
    then show ?thesis using R(2,3) al(2) True by (auto split: option.splits)
  qed
qed

subsection \<open>Properties\<close>

text \<open>
  C30. Reading a configuration file. Whatever the file holds and whatever allocations fail, \<open>configfile_read\<close> returns and no byte outside its arrays is touched. When it
  returns a table, the entries are the directives of the file, line by line as \<open>line_kind\<close> reads them; while there is memory there is a table exactly for
  the files without a malformed line that have at most \<open>MAX_DIRECTIVES\<close> directives. Each name has the value of its first directive, and a value that does not fit is reported
  and not cut off.
\<close>
theorem configfile_read_correct:
  "\<exists>r a'. configfile_read (Some input) a = Some (r, a') \<and>
     (\<forall>cf. r = Some cf \<longrightarrow> (\<exists>ds. directives (file_pieces input) = Some ds \<and>
        (\<forall>name. configfile_exists cf name = Some (map_of ds name \<noteq> None)) \<and>
        (\<forall>name buf cb. 1 < cb \<and> cb \<le> length buf \<longrightarrow> configfile_get_string cf name buf cb = Some (case map_of ds name of
            None \<Rightarrow> (failure, ENOENT, buf)
          | Some v \<Rightarrow> if length v \<ge> cb then (failure, ENOSPC, buf) else (success, E0, v @ NUL # drop (length v + 1) buf))))) \<and>
     (decisions a = [] \<longrightarrow> (r \<noteq> None) = (case directives (file_pieces input) of None \<Rightarrow> False | Some ds \<Rightarrow> length ds \<le> MAX_DIRECTIVES))"
proof -
  have "configfile_exists cf name = Some (map_of ds name \<noteq> None)" if "cf_rep cf ds" for cf ds name
    using cf_find_spec [OF that, of name] by (simp add: configfile_exists_def)
  then show ?thesis using configfile_read_spec [of input a] get_string_spec by blast
qed

theorem configfile_read_correct_witness:
  "\<exists>cf a'. configfile_read (Some (''port 80 # http'' @ [CHR 0x0A])) no_oom = Some (Some cf, a') \<and> configfile_exists cf ''port'' = Some True \<and>
     configfile_get_string cf ''port'' ''????'' 4 = Some (success, E0, ''80'' @ [NUL, CHR ''?''])"
proof -
  let ?in = "''port 80 # http'' @ [CHR 0x0A]"
  have d: "directives (file_pieces ?in) = Some [(''port'', ''80'')]"
    using piece_line [of "''port 80 # http''" "[]"] by (simp add: file_pieces_Nil line_kind_def value_text_def isspace_def c_string_def)
  from configfile_read_correct [of ?in no_oom] obtain r a' where r: "configfile_read (Some ?in) no_oom = Some (r, a')"
    "\<forall>cf. r = Some cf \<longrightarrow> (\<exists>ds. directives (file_pieces ?in) = Some ds \<and>
        (\<forall>name. configfile_exists cf name = Some (map_of ds name \<noteq> None)) \<and>
        (\<forall>name buf cb. 1 < cb \<and> cb \<le> length buf \<longrightarrow> configfile_get_string cf name buf cb = Some (case map_of ds name of
            None \<Rightarrow> (failure, ENOENT, buf)
          | Some v \<Rightarrow> if length v \<ge> cb then (failure, ENOSPC, buf) else (success, E0, v @ NUL # drop (length v + 1) buf))))"
    "(r \<noteq> None) = (case directives (file_pieces ?in) of None \<Rightarrow> False | Some ds \<Rightarrow> length ds \<le> MAX_DIRECTIVES)"
    by (auto simp: no_oom_def)
  from r(3) obtain cf where cf: "r = Some cf" unfolding d by (auto simp: MAX_DIRECTIVES_def)
  show ?thesis using r(1,2) unfolding d cf by (intro exI [of _ cf] exI [of _ a']) (simp add: numeral_eq_Suc)
qed

text \<open>
  C31. Numbers in a configuration file, exactly: a value shorter than 20 characters is the number at its beginning, and it is taken when it is in the range of the
  type. What follows the number is ignored, and a value that does not begin with a number is taken as 0 without an error. The variable of the caller is changed on success only.
\<close>
theorem configfile_numbers_correct:
  assumes "cf_rep cf ds" "length sz = 20"
  shows "configfile_get_int cf name sz d = Some (case config_number ds name of None \<Rightarrow> (failure, d) | Some z \<Rightarrow> if INT_MIN \<le> z \<and> z \<le> INT_MAX then (success, z) else (failure, d)) \<and>
    configfile_get_uint cf name sz k = Some (case config_number ds name of None \<Rightarrow> (failure, k) | Some z \<Rightarrow> if 0 \<le> z \<and> z \<le> int UINT_MAX then (success, nat z) else (failure, k)) \<and>
    configfile_get_uint16_t cf name sz k = Some (case config_number ds name of None \<Rightarrow> (failure, k) | Some z \<Rightarrow> if 0 \<le> z \<and> z \<le> int UINT16_MAX then (success, nat z) else (failure, k))"
  by (rule numbers_spec [OF assms])

theorem configfile_numbers_correct_witness:
  "\<exists>cf a'. configfile_read (Some (''port 80x'' @ [CHR 0x0A])) no_oom = Some (Some cf, a') \<and>
     configfile_get_uint16_t cf ''port'' (replicate 20 NUL) 0 = Some (success, 80)"
proof -
  let ?in = "''port 80x'' @ [CHR 0x0A]"
  have d: "directives (file_pieces ?in) = Some [(''port'', ''80x'')]"
    using piece_line [of "''port 80x''" "[]"] by (simp add: file_pieces_Nil line_kind_def value_text_def isspace_def c_string_def)
  obtain cf a' where cf: "configfile_read (Some ?in) no_oom = Some (Some cf, a')" "cf_rep cf [(''port'', ''80x'')]"
    using configfile_read_spec [of ?in no_oom] d by (auto simp: no_oom_def MAX_DIRECTIVES_def)
  have "leading_number ''80x'' = 80" by (simp add: leading_number_def strto_def split_sign_def skip_0x_def digit_of_def isspace_def isdigit_def isupper_def islower_def)
  then show ?thesis using configfile_numbers_correct [OF cf(2), of "replicate 20 NUL" "''port''" 0 0] cf(1) by (simp add: UINT16_MAX_def config_number_def)
qed

text \<open>
  A configuration that was written with its values in quotes is read back: every name has the value of its first entry.
\<close>
theorem configfile_roundtrip:
  assumes "list_all writable ds" "length ds \<le> MAX_DIRECTIVES" "decisions a = []"
  shows "\<exists>cf a'. configfile_read (Some (concat (map config_line ds))) a = Some (Some cf, a') \<and>
    (\<forall>name buf. 2048 \<le> length buf \<longrightarrow> configfile_get_string cf name buf 2048 = Some (case map_of ds name of
        None \<Rightarrow> (failure, ENOENT, buf) | Some v \<Rightarrow> (success, E0, v @ NUL # drop (length v + 1) buf)))"
proof -
  let ?in = "concat (map config_line ds)"
  obtain cf a' where cf: "configfile_read (Some ?in) a = Some (Some cf, a')" "cf_rep cf ds"
    using configfile_read_spec [of ?in a] directives_written [OF assms(1)] assms(2,3) by auto
  have "length v < 2048" if "map_of ds name = Some v" for name v
  proof -
    have "writable (name, v)" using assms(1) map_of_SomeD [OF that] by (simp only: list_all_iff)
    then show ?thesis by (simp add: writable_def config_line_def)
  qed
  then have "configfile_get_string cf name buf 2048 = Some (case map_of ds name of None \<Rightarrow> (failure, ENOENT, buf) | Some v \<Rightarrow> (success, E0, v @ NUL # drop (length v + 1) buf))"
    if "2048 \<le> length buf" for name buf using get_string_spec [OF cf(2) _ that, of name] by (cases "map_of ds name") (simp_all add: not_le)
  then show ?thesis using cf(1) by blast
qed

theorem configfile_roundtrip_witness:
  "\<exists>cf a'. configfile_read (Some (concat (map config_line [(''a'', ''b c''), (''d'', [])]))) no_oom = Some (Some cf, a') \<and>
     configfile_get_string cf ''a'' (replicate 2048 NUL) 2048 = Some (success, E0, ''b c'' @ NUL # drop 4 (replicate 2048 NUL))"
proof -
  let ?ds = "[(''a'', ''b c''), (''d'', [])]"
  have h: "list_all writable ?ds" "length ?ds \<le> MAX_DIRECTIVES" "decisions no_oom = []"
    by (simp_all add: writable_def config_line_def isspace_def MAX_DIRECTIVES_def no_oom_def)
  have m: "map_of ?ds ''a'' = Some ''b c''" by simp
  obtain cf a' where cf: "configfile_read (Some (concat (map config_line ?ds))) no_oom = Some (Some cf, a')"
    "\<forall>name buf. 2048 \<le> length buf \<longrightarrow> configfile_get_string cf name buf 2048 = Some (case map_of ?ds name of
        None \<Rightarrow> (failure, ENOENT, buf) | Some v \<Rightarrow> (success, E0, v @ NUL # drop (length v + 1) buf))" using configfile_roundtrip [OF h] by blast
  have "2048 \<le> length (replicate 2048 NUL)" by simp
  from cf(2) [rule_format, OF this, of "''a''"] have "configfile_get_string cf ''a'' (replicate 2048 NUL) 2048 = Some (success, E0, ''b c'' @ NUL # drop 4 (replicate 2048 NUL))"
    unfolding m by simp
  then show ?thesis using cf(1) by blast
qed

end
