(* ===== verification/MetaProcess.thy ===== *)
theory MetaProcess
  imports Configfile Cstring_Edit
begin

section \<open>Starting and stopping services\<close>

text \<open>
  \<open>src/meta/src/meta_process.c\<close>: a process has services, each an object with functions to acquire and release its resources, to run and to shut down. The
  functions of an object are code of the user: what they return, and what the system calls return, are fields of an environment, and every call is an
  event of a trace. \<open>die\<close> and \<open>exit\<close> end the process, which is a value of its own. A failing \<open>assert\<close> and the use of an indeterminate value are \<open>None\<close>.
  Not modelled: the file with the process number (\<open>write_pid\<close>) and the system call filters of the shutdown thread.
\<close>

subsection \<open>Processes\<close>

text \<open>
  \<open>do_func\<close> and \<open>undo_func\<close> are there or \<open>NULL\<close>; \<open>tid\<close> is 0 until a thread was created. The array of services is the list of those in use, \<open>nservices\<close>
  its length.
\<close>

record 'o service =
  sv_object :: 'o
  sv_do_func :: bool
  sv_undo_func :: bool
  sv_tid :: nat
  sv_exitcode :: int

definition MAX_SERVICES :: nat where "MAX_SERVICES = 200"

record 'o process =
  pr_appname :: cstring
  pr_rootdir :: cstring
  pr_username :: cstring
  pr_services :: "'o service list"
  pr_shutting_down :: bool
  pr_sdt :: nat

definition process_new :: "string \<Rightarrow> allocator \<Rightarrow> ('o process option \<times> allocator) option" where
  "process_new appname a = (
     if appname = [] then None
     else (case try_alloc 11280 a of
         (False, a) \<Rightarrow> Some (None, a)
       | (True, a) \<Rightarrow>
           (case cstring_new a of
              (None, a) \<Rightarrow> Some (None, a)
            | (Some rootdir, a) \<Rightarrow> do {
                (name, a) \<leftarrow> cstring_dup appname a;
                (case name of
                   None \<Rightarrow> Some (None, a)
                 | Some name \<Rightarrow>
                     (case cstring_new a of
                        (None, a) \<Rightarrow> Some (None, a)
                      | (Some username, a) \<Rightarrow>
                          Some (Some \<lparr>pr_appname = name, pr_rootdir = rootdir, pr_username = username, pr_services = [],
                            pr_shutting_down = False, pr_sdt = 0\<rparr>, a))) })))"

definition process_set_rootdir :: "'o process \<Rightarrow> string \<Rightarrow> allocator \<Rightarrow> (status_t \<times> 'o process \<times> allocator) option" where
  "process_set_rootdir this path a = do { (ok, s, a) \<leftarrow> cstring_set (pr_rootdir this) path a; Some (ok, this\<lparr>pr_rootdir := s\<rparr>, a) }"

definition process_set_username :: "'o process \<Rightarrow> string \<Rightarrow> allocator \<Rightarrow> (status_t \<times> 'o process \<times> allocator) option" where
  "process_set_username this username a = do { (ok, s, a) \<leftarrow> cstring_set (pr_username this) username a; Some (ok, this\<lparr>pr_username := s\<rparr>, a) }"

definition process_add_object_to_start :: "'o process \<Rightarrow> 'o \<Rightarrow> bool \<Rightarrow> bool \<Rightarrow> (status_t \<times> errno_t \<times> 'o process) option" where
  "process_add_object_to_start this obj do_func undo_func = (
     if \<not> (do_func \<or> \<not> undo_func) \<or> \<not> (undo_func \<or> \<not> do_func) then None
     else if length (pr_services this) = MAX_SERVICES then Some (failure, ENOSPC, this)
     else Some (success, E0, this\<lparr>pr_services := pr_services this @
       [\<lparr>sv_object = obj, sv_do_func = do_func, sv_undo_func = undo_func, sv_tid = 0, sv_exitcode = - 1\<rparr>]\<rparr>))"

definition process_shutting_down :: "'o process \<Rightarrow> bool" where
  "process_shutting_down this = pr_shutting_down this"

subsection \<open>The world\<close>

datatype 'o event = Do 'o | Undo 'o | Start_shutdown_thread | Kill_shutdown_thread | Chdir string | Chroot string | Setuid nat |
  Launch 'o | Shutdown 'o | Join 'o

datatype fork_result = Fork_failed | Fork_parent | Fork_child

text \<open>
  What the calls return: \<open>fork\<close>, the function of an object that acquires its resources, the four calls that set the signals, \<open>pthread_create\<close> for the
  shutdown thread and for a service (\<open>None\<close>: an error), the contents of \<open>/etc/passwd\<close>, and the calls that change directory, root and user.
\<close>

record 'o process_env =
  pe_fork :: fork_result
  pe_do :: "'o \<Rightarrow> bool"
  pe_signals :: bool
  pe_create_sdt :: "nat option"
  pe_create :: "'o \<Rightarrow> nat option"
  pe_passwd :: "char list option"
  pe_chdir :: bool
  pe_chroot :: bool
  pe_setuid :: bool
  pe_join_sdt :: bool
  pe_join :: "'o \<Rightarrow> bool"

subsection \<open>Acquiring and releasing resources\<close>

text \<open>The failed service is its position, \<open>None\<close> for \<open>NULL\<close>.\<close>

fun undo_loop :: "'o service list \<Rightarrow> nat \<Rightarrow> nat option \<Rightarrow> 'o event list" where
  "undo_loop [] i failed = []"
| "undo_loop (s # ss) i failed = (
     if failed = Some i then []
     else (if sv_undo_func s then [Undo (sv_object s)] else []) @ undo_loop ss (i + 1) failed)"

definition process_run_undo_functions :: "'o process \<Rightarrow> nat option \<Rightarrow> 'o event list" where
  "process_run_undo_functions this failed = undo_loop (pr_services this) 0 failed"

fun do_loop :: "'o process_env \<Rightarrow> 'o service list \<Rightarrow> nat \<Rightarrow> nat option \<times> 'o event list" where
  "do_loop env [] i = (None, [])"
| "do_loop env (s # ss) i = (
     if sv_do_func s \<and> \<not> pe_do env (sv_object s) then (Some i, [Do (sv_object s)])
     else let (failed, tr) = do_loop env ss (i + 1) in (failed, (if sv_do_func s then [Do (sv_object s)] else []) @ tr))"

definition process_run_do_functions :: "'o process_env \<Rightarrow> 'o process \<Rightarrow> status_t \<times> 'o event list" where
  "process_run_do_functions env this = (case do_loop env (pr_services this) 0 of
     (None, tr) \<Rightarrow> (success, tr)
   | (Some i, tr) \<Rightarrow> (failure, tr @ process_run_undo_functions this (Some i)))"

subsection \<open>Threads\<close>

definition start_shutdown_thread :: "'o process_env \<Rightarrow> 'o process \<Rightarrow> status_t \<times> 'o event list \<times> 'o process" where
  "start_shutdown_thread env this = (
     if \<not> pe_signals env then (failure, [], this)
     else (case pe_create_sdt env of
         None \<Rightarrow> (failure, [], this)
       | Some t \<Rightarrow> (success, [Start_shutdown_thread], this\<lparr>pr_sdt := t\<rparr>)))"

definition stop_shutdown_thread :: "'o event list" where
  "stop_shutdown_thread = [Kill_shutdown_thread]"

text \<open>What the shutdown thread does after it has received its signal.\<close>

definition shutdown_thread :: "'o process \<Rightarrow> 'o event list \<times> 'o process" where
  "shutdown_thread proc = (map (\<lambda>s. Shutdown (sv_object s)) (pr_services proc), proc\<lparr>pr_shutting_down := True\<rparr>)"

definition start_one_service :: "'o process_env \<Rightarrow> 'o service \<Rightarrow> (status_t \<times> 'o service)" where
  "start_one_service env s = (case pe_create env (sv_object s) of None \<Rightarrow> (failure, s) | Some t \<Rightarrow> (success, s\<lparr>sv_tid := t\<rparr>))"

fun stop_loop :: "'o service list \<Rightarrow> nat \<Rightarrow> nat option \<Rightarrow> 'o event list option" where
  "stop_loop [] i failed = Some []"
| "stop_loop (s # ss) i failed = (
     if failed = Some i then Some []
     else if sv_tid s = 0 then None
     else do { tr \<leftarrow> stop_loop ss (i + 1) failed; Some ([Shutdown (sv_object s), Join (sv_object s)] @ tr) })"

definition process_stop_services :: "'o process \<Rightarrow> nat option \<Rightarrow> 'o event list option" where
  "process_stop_services this failed = stop_loop (pr_services this) 0 failed"

text \<open>The services from position \<open>i\<close> on are still to be started.\<close>

fun start_loop :: "'o process_env \<Rightarrow> nat \<Rightarrow> 'o process \<Rightarrow> nat \<Rightarrow> (status_t \<times> 'o event list \<times> 'o process) option" where
  "start_loop env 0 this i = Some (success, [], this)"
| "start_loop env (Suc n) this i = do {
     s \<leftarrow> get_at (pr_services this) i;
     (case start_one_service env s of
        (False, s) \<Rightarrow> do {
          tr \<leftarrow> process_stop_services this (Some i);
          Some (failure, tr @ stop_shutdown_thread, this) }
      | (True, s) \<Rightarrow> do {
          ss \<leftarrow> put_at (pr_services this) i s;
          (ok, tr, this) \<leftarrow> start_loop env n (this\<lparr>pr_services := ss\<rparr>) (i + 1);
          Some (ok, Launch (sv_object s) # tr, this) }) }"

definition process_start_services :: "'o process_env \<Rightarrow> 'o process \<Rightarrow> (status_t \<times> 'o event list \<times> 'o process) option" where
  "process_start_services env this = start_loop env (length (pr_services this)) this 0"

definition process_change_rootdir :: "'o process_env \<Rightarrow> 'o process \<Rightarrow> (status_t \<times> 'o event list) option" where
  "process_change_rootdir env this = do {
     n \<leftarrow> cstring_length (pr_rootdir this);
     if n > 0 then do {
       rootdir \<leftarrow> cstr_at (cs_data (pr_rootdir this)) 0;
       let undo = stop_shutdown_thread @ process_run_undo_functions this None;
       Some (if \<not> pe_chdir env then (failure, Chdir rootdir # undo)
         else if \<not> pe_chroot env then (failure, [Chdir rootdir, Chroot rootdir] @ undo)
         else (success, [Chdir rootdir, Chroot rootdir])) }
     else Some (success, []) }"

subsection \<open>The user id\<close>

text \<open>The process died, the file could not be opened, or the function succeeded with a number stored or not.\<close>

datatype uid_result = Uid_died | Uid_failed | Uid_found "nat option"

text \<open>\<open>cstring_equal\<close> returns a truth value; the code compares it with 0.\<close>

function passwd_loop :: "cstring \<Rightarrow> char list \<Rightarrow> char list \<Rightarrow> allocator \<Rightarrow> (uid_result \<times> allocator) option" where
  "passwd_loop name input line a = (
     if input = [] then Some (Uid_found None, a)
     else let k = fgets_count 1024 input in
     (case (do { line \<leftarrow> wr line 0 (take k input @ [NUL]); t \<leftarrow> cstr_at line 0; (n, dest, a) \<leftarrow> cstring_split t '':'' a; Some (line, n, dest, a) }) of
        None \<Rightarrow> None
      | Some (line, n, dest, a) \<Rightarrow>
          if n \<noteq> 7 then Some (Uid_died, a)
          else
            (case (do { d0 \<leftarrow> get_at dest 0; cstring_equal name d0 }) of
               None \<Rightarrow> None
             | Some equal \<Rightarrow>
                 if equal = False then do {
                   d2 \<leftarrow> get_at dest 2;
                   suid \<leftarrow> cstr_at (cs_data d2) 0;
                   Some (case touint suid of Inl e \<Rightarrow> Uid_died | Inr uid \<Rightarrow> Uid_found (Some uid), a) }
                 else passwd_loop name (drop k input) line a)))"
  by pat_completeness auto
termination by (relation "measure (\<lambda>(name, input, _). length input)") (auto simp: fgets_count_def Let_def neq_Nil_conv)

declare passwd_loop.simps [simp del]

definition get_uid_from_etc_passwd :: "'o process_env \<Rightarrow> cstring \<Rightarrow> allocator \<Rightarrow> (uid_result \<times> allocator) option" where
  "get_uid_from_etc_passwd env name a = (case pe_passwd env of
     None \<Rightarrow> Some (Uid_failed, a)
   | Some input \<Rightarrow> passwd_loop name input (fresh_bytes 1024 a) a)"

subsection \<open>Starting\<close>

datatype start_result = Started status_t | Ended

definition process_start :: "'o process_env \<Rightarrow> 'o process \<Rightarrow> bool \<Rightarrow> allocator \<Rightarrow> (start_result \<times> 'o event list \<times> 'o process \<times> allocator) option" where
  "process_start env this fork_and_close a = (
     if fork_and_close \<and> pe_fork env = Fork_failed then Some (Started failure, [], this, a)
     else if fork_and_close \<and> pe_fork env = Fork_parent then Some (Ended, [], this, a)
     else (case process_run_do_functions env this of
         (False, tr) \<Rightarrow> Some (Started failure, tr, this, a)
       | (True, tr) \<Rightarrow>
           (case start_shutdown_thread env this of
              (False, tr1, this) \<Rightarrow> Some (Started failure, tr @ tr1 @ process_run_undo_functions this None, this, a)
            | (True, tr1, this) \<Rightarrow> do {
                n \<leftarrow> cstring_length (pr_username this);
                if n > 0 then do {
                  (r, a) \<leftarrow> get_uid_from_etc_passwd env (pr_username this) a;
                  (case r of
                     Uid_died \<Rightarrow> Some (Ended, tr @ tr1, this, a)
                   | Uid_failed \<Rightarrow> Some (Started failure, tr @ tr1 @ stop_shutdown_thread @ process_run_undo_functions this None, this, a)
                   | Uid_found uid \<Rightarrow> do {
                       (ok, tr2) \<leftarrow> process_change_rootdir env this;
                       if \<not> ok then Some (Started failure, tr @ tr1 @ tr2, this, a)
                       else do {
                         uid \<leftarrow> uid;
                         if \<not> pe_setuid env then
                           Some (Started failure, tr @ tr1 @ tr2 @ [Setuid uid] @ process_run_undo_functions this None @ stop_shutdown_thread, this, a)
                         else do {
                           (ok, tr3, this) \<leftarrow> process_start_services env this;
                           Some (Started ok, tr @ tr1 @ tr2 @ [Setuid uid] @ tr3, this, a) } } }) }
                else do {
                  (ok, tr2) \<leftarrow> process_change_rootdir env this;
                  if \<not> ok then Some (Started failure, tr @ tr1 @ tr2, this, a)
                  else do {
                    (ok, tr3, this) \<leftarrow> process_start_services env this;
                    Some (Started ok, tr @ tr1 @ tr2 @ tr3, this, a) } } })))"

subsection \<open>Waiting\<close>

text \<open>
  \<open>pthread_join\<close> stores the result of the thread in the local variable \<open>pfoo\<close>, which held the address of \<open>exitcode\<close> before; \<open>exitcode\<close> itself is not changed.
\<close>

fun wait_loop :: "'o process_env \<Rightarrow> 'o service list \<Rightarrow> (status_t \<times> 'o event list) option" where
  "wait_loop env [] = Some (success, [])"
| "wait_loop env (s # ss) = (
     if sv_tid s = 0 then None
     else if \<not> pe_join env (sv_object s) then Some (failure, [])
     else do { (ok, tr) \<leftarrow> wait_loop env ss; Some (ok, Join (sv_object s) # tr) })"

definition process_wait_for_shutdown :: "'o process_env \<Rightarrow> 'o process \<Rightarrow> (status_t \<times> 'o event list \<times> 'o process) option" where
  "process_wait_for_shutdown env this = (
     if pr_sdt this = 0 then None
     else if \<not> pe_join_sdt env then Some (failure, [], this)
     else do { (ok, tr) \<leftarrow> wait_loop env (pr_services this); Some (ok, tr, this) })"

fun exitcode_loop :: "'o service list \<Rightarrow> 'o \<Rightarrow> int" where
  "exitcode_loop [] obj = - 1"
| "exitcode_loop (s # ss) obj = (if sv_object s = obj then sv_exitcode s else exitcode_loop ss obj)"

definition process_get_exitcode :: "'o process \<Rightarrow> 'o \<Rightarrow> int" where
  "process_get_exitcode this obj = exitcode_loop (pr_services this) obj"

subsection \<open>What a trace says\<close>

fun picked :: "('o event \<Rightarrow> 'o option) \<Rightarrow> 'o event list \<Rightarrow> 'o list" where
  "picked f [] = []"
| "picked f (e # es) = (case f e of None \<Rightarrow> picked f es | Some x \<Rightarrow> x # picked f es)"

definition launched :: "'o event list \<Rightarrow> 'o list" where
  "launched = picked (\<lambda>e. case e of Launch x \<Rightarrow> Some x | _ \<Rightarrow> None)"

definition undone :: "'o event list \<Rightarrow> 'o list" where
  "undone = picked (\<lambda>e. case e of Undo x \<Rightarrow> Some x | _ \<Rightarrow> None)"

definition stopped :: "'o event list \<Rightarrow> 'o list" where
  "stopped = picked (\<lambda>e. case e of Shutdown x \<Rightarrow> Some x | _ \<Rightarrow> None)"

definition joined :: "'o event list \<Rightarrow> 'o list" where
  "joined = picked (\<lambda>e. case e of Join x \<Rightarrow> Some x | _ \<Rightarrow> None)"

text \<open>The objects whose function that acquires resources was called and succeeded.\<close>

definition acquired :: "'o process_env \<Rightarrow> 'o event list \<Rightarrow> 'o list" where
  "acquired env = picked (\<lambda>e. case e of Do x \<Rightarrow> if pe_do env x then Some x else None | _ \<Rightarrow> None)"

definition objects :: "'o service list \<Rightarrow> 'o list" where
  "objects ss = map sv_object ss"

definition holders :: "'o service list \<Rightarrow> 'o list" where
  "holders ss = map sv_object (filter sv_do_func ss)"

lemma picked_append [simp]: "picked f (xs @ ys) = picked f xs @ picked f ys"
  by (induction xs) (auto split: option.splits)

lemma picked_map: "(\<And>x. f (g x) = None) \<Longrightarrow> picked f (map g xs) = []" "(\<And>x. f (g x) = Some x) \<Longrightarrow> picked f (map g xs) = xs"
  by (induction xs) simp_all

lemmas trace_defs = launched_def undone_def stopped_def joined_def acquired_def

lemma holders_simps [simp]: "holders [] = []" "holders (s # ss) = (if sv_do_func s then [sv_object s] else []) @ holders ss"
  "holders (xs @ ys) = holders xs @ holders ys"
  by (simp_all add: holders_def)

lemma objects_simps [simp]: "objects [] = []" "objects (s # ss) = sv_object s # objects ss" "objects (xs @ ys) = objects xs @ objects ys"
  by (simp_all add: objects_def)

definition stop_events :: "'o list \<Rightarrow> 'o event list" where
  "stop_events xs = concat (map (\<lambda>x. [Shutdown x, Join x]) xs)"

lemma trace_maps [simp]:
  "launched (map Do xs) = []" "undone (map Do xs) = []" "stopped (map Do xs) = []" "joined (map Do xs) = []"
  "launched (map Undo xs) = []" "undone (map Undo xs) = xs" "stopped (map Undo xs) = []" "joined (map Undo xs) = []" "acquired env (map Undo xs) = []"
  "launched (map Launch xs) = xs" "undone (map Launch xs) = []" "stopped (map Launch xs) = []" "joined (map Launch xs) = []" "acquired env (map Launch xs) = []"
  by (simp_all add: trace_defs picked_map)

lemma trace_stops [simp]:
  "launched (stop_events xs) = []" "undone (stop_events xs) = []" "stopped (stop_events xs) = xs" "joined (stop_events xs) = xs" "acquired env (stop_events xs) = []"
  by (induction xs) (simp_all add: trace_defs stop_events_def)

lemma trace_appends [simp]:
  "launched (xs @ ys) = launched xs @ launched ys" "undone (xs @ ys) = undone xs @ undone ys" "stopped (xs @ ys) = stopped xs @ stopped ys"
  "joined (xs @ ys) = joined xs @ joined ys" "acquired env (xs @ ys) = acquired env xs @ acquired env ys"
  by (simp_all add: trace_defs)

lemma trace_others [simp]:
  "x \<in> {Start_shutdown_thread, Kill_shutdown_thread} \<union> range Chdir \<union> range Chroot \<union> range Setuid \<Longrightarrow>
     launched (x # ys) = launched ys \<and> undone (x # ys) = undone ys \<and> stopped (x # ys) = stopped ys \<and> joined (x # ys) = joined ys \<and> acquired env (x # ys) = acquired env ys"
  by (auto simp: trace_defs)

lemma trace_Nil [simp]: "launched [] = []" "undone [] = []" "stopped [] = []" "joined [] = []" "acquired env [] = []"
  by (simp_all add: trace_defs)

lemma acquired_all: "\<forall>x \<in> set xs. pe_do env x \<Longrightarrow> acquired env (map Do xs) = xs"
  by (induction xs) (simp_all add: acquired_def)

subsection \<open>The loops over the services\<close>

lemma do_loop_spec:
  "case do_loop env ss i of
     (None, tr) \<Rightarrow> tr = map Do (holders ss) \<and> (\<forall>x \<in> set (holders ss). pe_do env x)
   | (Some j, tr) \<Rightarrow> \<exists>pre s post. ss = pre @ s # post \<and> j = i + length pre \<and> tr = map Do (holders pre) @ [Do (sv_object s)] \<and>
       (\<forall>x \<in> set (holders pre). pe_do env x) \<and> \<not> pe_do env (sv_object s)"
proof (induction ss arbitrary: i)
  case (Cons s ss)
  show ?case
  proof (cases "sv_do_func s \<and> \<not> pe_do env (sv_object s)")
    case True
    then show ?thesis by (force intro: exI [of _ "[]"])
  next
    case False
    obtain f tr where R: "do_loop env ss (i + 1) = (f, tr)" by (cases "do_loop env ss (i + 1)")
    show ?thesis
    proof (cases f)
      case None
      then show ?thesis using Cons.IH [of "i + 1"] R False by auto
    next
      case (Some j)
      then obtain pre s' post where P: "ss = pre @ s' # post" "j = i + 1 + length pre" "tr = map Do (holders pre) @ [Do (sv_object s')]"
        "\<forall>x \<in> set (holders pre). pe_do env x" "\<not> pe_do env (sv_object s')" using Cons.IH [of "i + 1"] R by auto
      have "s # ss = (s # pre) @ s' # post" "j = i + length (s # pre)" using P(1,2) by simp_all
      moreover have "\<forall>x \<in> set (holders (s # pre)). pe_do env x" using P(4) False by auto
      ultimately show ?thesis using P(3,5) R False Some by (auto intro!: exI [of _ "s # pre"])
    qed
  qed
qed simp

lemma undo_all: "list_all (\<lambda>s. sv_undo_func s = sv_do_func s) ss \<Longrightarrow> undo_loop ss i None = map Undo (holders ss)"
  by (induction ss arbitrary: i) auto

lemma undo_before:
  "list_all (\<lambda>s. sv_undo_func s = sv_do_func s) pre \<Longrightarrow> undo_loop (pre @ s # post) i (Some (i + length pre)) = map Undo (holders pre)"
proof (induction pre arbitrary: i)
  case (Cons p pre)
  then show ?case using Cons.IH [of "i + 1"] by auto
qed simp

lemma stop_before:
  "list_all (\<lambda>s. sv_tid s \<noteq> 0) pre \<Longrightarrow> stop_loop (pre @ s # post) i (Some (i + length pre)) = Some (stop_events (objects pre))"
proof (induction pre arbitrary: i)
  case (Cons p pre)
  then show ?case using Cons.IH [of "i + 1"] by (simp add: stop_events_def)
qed (simp add: stop_events_def)

lemma start_loop_spec:
  assumes "\<forall>x. pe_create env x \<noteq> Some 0" "pr_services this = before @ todo" "list_all (\<lambda>s. sv_tid s \<noteq> 0) before"
  shows "\<exists>ok tr ss. start_loop env (length todo) this (length before) = Some (ok, tr, this\<lparr>pr_services := ss\<rparr>) \<and> objects ss = objects (before @ todo) \<and> ((\<forall>x. pe_create env x \<noteq> None) \<longrightarrow> ok) \<and>
    (if ok then tr = map Launch (objects todo)
     else \<exists>pre. tr = map Launch (objects pre) @ stop_events (objects (before @ pre)) @ [Kill_shutdown_thread])"
  using assms(2,3)
proof (induction todo arbitrary: this before)
  case Nil
  then show ?case by (intro exI [of _ True] exI [of _ "[]"] exI [of _ "pr_services this"]) simp
next
  case (Cons s todo)
  have g: "get_at (pr_services this) (length before) = Some s" using Cons.prems(1) by (simp add: get_at_def)
  show ?case
  proof (cases "pe_create env (sv_object s)")
    case None
    then have "start_one_service env s = (False, s)" by (simp add: start_one_service_def)
    then have "start_loop env (length (s # todo)) this (length before) = Some (False, stop_events (objects before) @ [Kill_shutdown_thread], this\<lparr>pr_services := pr_services this\<rparr>)"
      using g stop_before [OF Cons.prems(2), of s todo 0] Cons.prems(1) by (simp add: process_stop_services_def stop_shutdown_thread_def)
    moreover have "\<exists>pre. stop_events (objects before) @ [Kill_shutdown_thread] = map Launch (objects pre) @ stop_events (objects (before @ pre)) @ [Kill_shutdown_thread]"
      by (intro exI [of _ "[]"]) simp
    moreover have "\<not> (\<forall>x. pe_create env x \<noteq> None)" using None by blast
    ultimately show ?thesis using Cons.prems(1) by (intro exI [of _ False] exI [of _ "stop_events (objects before) @ [Kill_shutdown_thread]"] exI [of _ "pr_services this"]) simp
  next
    case (Some t)
    let ?s = "s\<lparr>sv_tid := t\<rparr>"
    let ?p = "this\<lparr>pr_services := (before @ [?s]) @ todo\<rparr>"
    have "t \<noteq> 0" using assms(1) Some by (intro notI) simp
    then have o: "start_one_service env s = (True, ?s)" "t \<noteq> 0" using Some by (simp_all add: start_one_service_def)
    have p: "put_at (pr_services this) (length before) ?s = Some ((before @ [?s]) @ todo)" using Cons.prems(1) by (simp add: put_at_def)
    have b: "pr_services ?p = (before @ [?s]) @ todo" "list_all (\<lambda>s. sv_tid s \<noteq> 0) (before @ [?s])" using Cons.prems(2) o(2) by simp_all
    obtain ok tr ss where R: "start_loop env (length todo) ?p (length (before @ [?s])) = Some (ok, tr, ?p\<lparr>pr_services := ss\<rparr>)"
      "objects ss = objects ((before @ [?s]) @ todo)" "(\<forall>x. pe_create env x \<noteq> None) \<longrightarrow> ok"
      "if ok then tr = map Launch (objects todo) else \<exists>pre. tr = map Launch (objects pre) @ stop_events (objects ((before @ [?s]) @ pre)) @ [Kill_shutdown_thread]"
      using Cons.IH [OF b] by blast
    have "start_loop env (length (s # todo)) this (length before) = Some (ok, Launch (sv_object s) # tr, this\<lparr>pr_services := ss\<rparr>)" using g o p R(1) by simp
    moreover have "objects ss = objects (before @ s # todo)" using R(2) by simp
    moreover have "\<exists>q. Launch (sv_object s) # tr = map Launch (objects q) @ stop_events (objects (before @ q)) @ [Kill_shutdown_thread]" if no: "\<not> ok"
    proof -
      obtain pre where "tr = map Launch (objects pre) @ stop_events (objects ((before @ [?s]) @ pre)) @ [Kill_shutdown_thread]" using R(4) no by auto
      then show ?thesis by (intro exI [of _ "s # pre"]) simp
    qed
    moreover have "ok \<Longrightarrow> Launch (sv_object s) # tr = map Launch (objects (s # todo))" using R(4) by simp
    ultimately show ?thesis using R(3) by (intro exI [of _ ok] exI [of _ "Launch (sv_object s) # tr"] exI [of _ ss]) simp
  qed
qed

subsection \<open>The order of a start\<close>

definition proc_ok :: "'o process \<Rightarrow> string \<Rightarrow> string \<Rightarrow> bool" where
  "proc_ok this rdir un \<longleftrightarrow> cs_rep (pr_rootdir this) rdir \<and> cs_rep (pr_username this) un \<and> length (pr_services this) \<le> MAX_SERVICES \<and>
     list_all (\<lambda>s. sv_undo_func s = sv_do_func s) (pr_services this)"

definition root_events :: "string \<Rightarrow> 'o event list" where
  "root_events rdir = (if rdir = [] then [] else [Chdir rdir, Chroot rdir])"

text \<open>A start that failed has released what it had acquired, or it has stopped every service that was running.\<close>

definition released :: "'o process_env \<Rightarrow> 'o service list \<Rightarrow> 'o event list \<Rightarrow> bool" where
  "released env ss tr \<longleftrightarrow> launched tr = [] \<and> stopped tr = [] \<and> undone tr = acquired env tr \<or>
     stopped tr = launched tr \<and> joined tr = launched tr \<and> undone tr = [] \<and> acquired env tr = holders ss \<and> Kill_shutdown_thread \<in> set tr"

lemma change_rootdir_spec:
  assumes "proc_ok this rdir un"
  shows "\<exists>ok tr. process_change_rootdir env this = Some (ok, tr) \<and> (pe_chdir env \<and> pe_chroot env \<longrightarrow> ok) \<and> (if ok then tr = root_events rdir
    else launched tr = [] \<and> stopped tr = [] \<and> acquired env tr = [] \<and> undone tr = holders (pr_services this))"
proof -
  have r: "cs_rep (pr_rootdir this) rdir" and u: "process_run_undo_functions this None = map Undo (holders (pr_services this))"
    using assms undo_all by (auto simp: proc_ok_def process_run_undo_functions_def)
  show ?thesis using cstring_compare_spec(3) [OF r] cs_rep_cstr_at [OF r]
    by (auto simp: process_change_rootdir_def root_events_def u stop_shutdown_thread_def Let_def)
qed

lemma start_services_spec:
  assumes "proc_ok this rdir un" "\<forall>x. pe_create env x \<noteq> Some 0"
  shows "\<exists>ok tr this'. process_start_services env this = Some (ok, tr, this') \<and> objects (pr_services this') = objects (pr_services this) \<and> ((\<forall>x. pe_create env x \<noteq> None) \<longrightarrow> ok) \<and>
    (if ok then tr = map Launch (objects (pr_services this))
     else stopped tr = launched tr \<and> joined tr = launched tr \<and> undone tr = [] \<and> acquired env tr = [] \<and> Kill_shutdown_thread \<in> set tr)"
proof -
  have "pr_services this = [] @ pr_services this" "list_all (\<lambda>s. sv_tid s \<noteq> 0) []" by simp_all
  from start_loop_spec [OF assms(2) this] obtain ok tr ss where
    L: "start_loop env (length (pr_services this)) this (length ([] :: 'a service list)) = Some (ok, tr, this\<lparr>pr_services := ss\<rparr>)" "objects ss = objects ([] @ pr_services this)"
    "(\<forall>x. pe_create env x \<noteq> None) \<longrightarrow> ok" "if ok then tr = map Launch (objects (pr_services this)) else \<exists>pre. tr = map Launch (objects pre) @ stop_events (objects ([] @ pre)) @ [Kill_shutdown_thread]" by blast
  note R = L [unfolded append_Nil list.size(3)]
  have "stopped tr = launched tr \<and> joined tr = launched tr \<and> undone tr = [] \<and> acquired env tr = [] \<and> Kill_shutdown_thread \<in> set tr" if "\<not> ok"
    using R(4) that by auto
  then show ?thesis using R unfolding process_start_services_def by (intro exI [of _ ok] exI [of _ tr] exI [of _ "this\<lparr>pr_services := ss\<rparr>"]) auto
qed

lemma do_functions_spec:
  assumes "proc_ok this rdir un"
  shows "\<exists>ok tr. process_run_do_functions env this = (ok, tr) \<and> ((\<forall>x. pe_do env x) \<longrightarrow> ok) \<and> (if ok then tr = map Do (holders (pr_services this)) \<and> acquired env tr = holders (pr_services this)
    else launched tr = [] \<and> stopped tr = [] \<and> undone tr = acquired env tr)"
proof -
  obtain f tr where D: "do_loop env (pr_services this) 0 = (f, tr)" by (cases "do_loop env (pr_services this) 0")
  show ?thesis
  proof (cases f)
    case None
    then have "tr = map Do (holders (pr_services this))" "\<forall>x \<in> set (holders (pr_services this)). pe_do env x"
      using do_loop_spec [where env = env and ss = "pr_services this" and i = 0] D by simp_all
    then show ?thesis using None D acquired_all [of "holders (pr_services this)" env] by (intro exI [of _ True] exI [of _ tr]) (simp add: process_run_do_functions_def)
  next
    case (Some j)
    then obtain pre s post where P: "pr_services this = pre @ s # post" "j = length pre" "tr = map Do (holders pre) @ [Do (sv_object s)]"
      "\<forall>x \<in> set (holders pre). pe_do env x" "\<not> pe_do env (sv_object s)" using do_loop_spec [where env = env and ss = "pr_services this" and i = 0] D by auto
    have l: "list_all (\<lambda>s. sv_undo_func s = sv_do_func s) pre" using assms P(1) by (simp add: proc_ok_def)
    have d: "launched [Do (sv_object s)] = []" "stopped [Do (sv_object s)] = []" "undone [Do (sv_object s)] = []" "acquired env [Do (sv_object s)] = []"
      using P(5) by (simp_all add: trace_defs)
    have "process_run_do_functions env this = (False, tr @ map Undo (holders pre))"
      using D Some P(1,2) undo_before [OF l, of s post 0] by (simp add: process_run_do_functions_def process_run_undo_functions_def)
    moreover have "launched (tr @ map Undo (holders pre)) = []" "stopped (tr @ map Undo (holders pre)) = []"
      "undone (tr @ map Undo (holders pre)) = acquired env (tr @ map Undo (holders pre))"
      unfolding P(3) trace_appends d acquired_all [OF P(4)] by simp_all
    ultimately show ?thesis using P(5) by (intro exI [of _ False]) auto
  qed
qed

lemma start_sdt_spec:
  "\<exists>ok t. start_shutdown_thread env this = (ok, if ok then [Start_shutdown_thread] else [], this\<lparr>pr_sdt := t\<rparr>) \<and> (pe_signals env \<and> pe_create_sdt env \<noteq> None \<longrightarrow> ok)"
proof (cases "\<not> pe_signals env \<or> pe_create_sdt env = None")
  case True
  then have "start_shutdown_thread env this = (False, [], this\<lparr>pr_sdt := pr_sdt this\<rparr>)" by (auto simp: start_shutdown_thread_def split: option.splits)
  then show ?thesis using True by (intro exI [of _ False] exI [of _ "pr_sdt this"]) auto
next
  case False
  then obtain t where "pe_create_sdt env = Some t" by auto
  then have "start_shutdown_thread env this = (True, [Start_shutdown_thread], this\<lparr>pr_sdt := t\<rparr>)" using False by (simp add: start_shutdown_thread_def)
  then show ?thesis by (intro exI [of _ True] exI [of _ t]) simp
qed

lemma process_start_spec:
  assumes "proc_ok this rdir un" "\<forall>x. pe_create env x \<noteq> Some 0"
  shows "case process_start env this fork a of
      None \<Rightarrow> un \<noteq> []
    | Some (Ended, tr, this', a') \<Rightarrow> launched tr = []
    | Some (Started ok, tr, this', a') \<Rightarrow>
        if ok then \<exists>uid. tr = map Do (holders (pr_services this)) @ [Start_shutdown_thread] @ root_events rdir @ (if un = [] then [] else [Setuid uid]) @
            map Launch (objects (pr_services this))
        else released env (pr_services this) tr"
proof -
  let ?S = "pr_services this"
  obtain ok tr where D: "process_run_do_functions env this = (ok, tr)" "if ok then tr = map Do (holders ?S) \<and> acquired env tr = holders ?S
    else launched tr = [] \<and> stopped tr = [] \<and> undone tr = acquired env tr" using do_functions_spec [OF assms(1), of env] by (elim exE conjE)
  obtain ok1 t where T: "start_shutdown_thread env this = (ok1, if ok1 then [Start_shutdown_thread] else [], this\<lparr>pr_sdt := t\<rparr>)"
    using start_sdt_spec [of env this] by (elim exE conjE)
  let ?p = "this\<lparr>pr_sdt := t\<rparr>"
  have ok': "proc_ok ?p rdir un" "pr_services ?p = ?S" using assms(1) by (simp_all add: proc_ok_def)
  have n: "cstring_length (pr_username this) = Some (length un)" using assms(1) by (intro cstring_compare_spec(3)) (simp add: proc_ok_def)
  have u: "process_run_undo_functions ?p None = map Undo (holders ?S)" using ok' undo_all by (auto simp: proc_ok_def process_run_undo_functions_def)
  obtain okr trr where C: "process_change_rootdir env ?p = Some (okr, trr)" "if okr then trr = root_events rdir
    else launched trr = [] \<and> stopped trr = [] \<and> acquired env trr = [] \<and> undone trr = holders ?S" using change_rootdir_spec [OF ok'(1), of env] unfolding ok'(2) by (elim exE conjE)
  obtain oks trs this' where S: "process_start_services env ?p = Some (oks, trs, this')" "if oks then trs = map Launch (objects ?S)
     else stopped trs = launched trs \<and> joined trs = launched trs \<and> undone trs = [] \<and> acquired env trs = [] \<and> Kill_shutdown_thread \<in> set trs"
    using start_services_spec [OF ok'(1) assms(2)] unfolding ok'(2) by (elim exE conjE)
  have R: "launched (root_events rdir) = []" "stopped (root_events rdir) = []" "joined (root_events rdir) = []" "undone (root_events rdir) = []" "acquired env (root_events rdir) = []"
    by (simp_all add: root_events_def)
  note step = process_start_def D(1) T n u C(1) S(1) stop_shutdown_thread_def released_def
  consider "fork \<and> pe_fork env \<noteq> Fork_child" | "\<not> (fork \<and> pe_fork env \<noteq> Fork_child)" "\<not> ok" | "\<not> (fork \<and> pe_fork env \<noteq> Fork_child)" ok "\<not> ok1"
    | "\<not> (fork \<and> pe_fork env \<noteq> Fork_child)" ok ok1 by blast
  then show ?thesis
  proof cases
    case 1
    then show ?thesis by (cases "pe_fork env") (auto simp: step)
  next
    case 2
    then show ?thesis using D(2) by (cases "pe_fork env") (auto simp: step)
  next
    case 3
    then show ?thesis using D(2) by (cases "pe_fork env") (auto simp: step)
  next
    case 4
    then have f: "\<not> (fork \<and> pe_fork env = Fork_failed)" "\<not> (fork \<and> pe_fork env = Fork_parent)" by auto
    note E = 4(2,3) D(2) C(2) S(2) R
    show ?thesis
    proof (cases "un = []")
      case True
      then show ?thesis using f E by (auto simp: step split: if_splits)
    next
      case False
      then have l: "0 < length un" by simp
      show ?thesis
      proof (cases "get_uid_from_etc_passwd env (pr_username this) a")
        case None
        then show ?thesis using f E False l by (simp add: step)
      next
        case (Some p)
        then obtain r a' where U: "get_uid_from_etc_passwd env (pr_username this) a = Some (r, a')" by (cases p) auto
        show ?thesis
        proof (cases r)
          case (Uid_found uid)
          then show ?thesis using f E False l U by (cases uid) (auto simp: step split: if_splits)
        qed (use f E False l U in \<open>auto simp: step split: if_splits\<close>)
      qed
    qed
  qed
qed

subsection \<open>The file of users\<close>

definition field_ok :: "string \<Rightarrow> bool" where
  "field_ok f \<longleftrightarrow> f \<noteq> [] \<and> (\<forall>c \<in> set f. c \<noteq> CHR '':'' \<and> c \<noteq> CHR 0x0A \<and> c \<noteq> NUL)"

fun passwd_line :: "string list \<Rightarrow> string" where
  "passwd_line [] = []"
| "passwd_line [f] = f"
| "passwd_line (f # fs) = f @ [CHR '':''] @ passwd_line fs"

definition uid_of :: "string list \<Rightarrow> nat" where
  "uid_of fs = (case touint (fs ! 2) of Inr n \<Rightarrow> n | Inl _ \<Rightarrow> 0)"

text \<open>An entry has seven fields, none of them empty, and a number in the third.\<close>

definition passwd_ok :: "string list \<Rightarrow> bool" where
  "passwd_ok fs \<longleftrightarrow> length fs = 7 \<and> list_all field_ok fs \<and> length (passwd_line fs) + 1 < 1024 \<and> touint (fs ! 2) = Inr (uid_of fs)"

definition passwd_text :: "string list list \<Rightarrow> string" where
  "passwd_text es = concat (map (\<lambda>fs. passwd_line fs @ [CHR 0x0A]) es)"

lemma words_field: "\<forall>c \<in> set f. c \<notin> set delim \<Longrightarrow> words delim cur (f @ s) = words delim (cur @ f) s"
  by (induction f arbitrary: cur) auto

lemma words_passwd:
  "list_all field_ok fs \<Longrightarrow> fs \<noteq> [] \<Longrightarrow> words '':'' [] (passwd_line fs @ [CHR 0x0A]) = butlast fs @ [last fs @ [CHR 0x0A]]"
proof (induction fs rule: passwd_line.induct)
  case (2 f)
  then show ?case by (simp add: words_field field_ok_def)
next
  case (3 f g fs)
  then show ?case by (simp add: words_field field_ok_def)
qed simp

lemma passwd_line_chars: "list_all field_ok fs \<Longrightarrow> CHR 0x0A \<notin> set (passwd_line fs) \<and> c_string (passwd_line fs)"
  by (induction fs rule: passwd_line.induct) (auto simp: field_ok_def c_string_def)

text \<open>One entry: either memory is short and the process dies, or the loop ends at an entry with another name.\<close>

lemma passwd_step:
  assumes "passwd_ok fs" "cs_rep name un" "length line = 1024"
  obtains l a' where "length l = 1024" "passwd_loop name ((passwd_line fs @ [CHR 0x0A]) @ rest) line a = Some (Uid_died, a') \<and> decisions a \<noteq> [] \<or>
    passwd_loop name ((passwd_line fs @ [CHR 0x0A]) @ rest) line a =
      (if hd fs \<noteq> un then Some (Uid_found (Some (uid_of fs)), a') else passwd_loop name rest l a')"
proof -
  let ?t = "passwd_line fs @ [CHR 0x0A]"
  let ?in = "?t @ rest"
  have fs: "length fs = 7" "list_all field_ok fs" "length (passwd_line fs) + 1 < 1024" "touint (fs ! 2) = Inr (uid_of fs)" using assms(1) by (simp_all add: passwd_ok_def)
  have k: "fgets_count 1024 ?in = length ?t" using fs(3) passwd_line_chars [OF fs(2)] by (intro fgets_line) simp_all
  have ct: "c_string ?t" using passwd_line_chars [OF fs(2)] by simp
  obtain l tail where l: "wr line 0 (take (fgets_count 1024 ?in) ?in @ [NUL]) = Some l" "length l = 1024"
    "l = takeWhile (\<lambda>c. c \<noteq> NUL) (take (fgets_count 1024 ?in) ?in) @ NUL # tail" by (rule fgets_piece [OF assms(3) zero_less_numeral, of ?in])
  have w: "wr line 0 (?t @ [NUL]) = Some l" "cstr_at l 0 = Some ?t" using l(1,3) k cstr_at_0 [OF ct, of tail] takeWhile_c_string [OF ct] by simp_all
  have ws: "words '':'' [] ?t = butlast fs @ [last fs @ [CHR 0x0A]]" using fs(1,2) by (intro words_passwd) auto
  have nw: "length (words '':'' [] ?t) = 7" unfolding ws using fs(1) by simp
  obtain n dest a' where sp: "cstring_split ?t '':'' a = Some (n, dest, a')" "if n = 0 then dest = [] \<and> (decisions a = [] \<longrightarrow> words '':'' [] ?t = [])
     else n = length (words '':'' [] ?t) \<and> list_all2 cs_fresh dest (words '':'' [] ?t)" using cstring_split_spec [OF ct, of "'':''" a] fs(3) by auto
  have d: "drop (length ?t) ?in = rest" "take (length ?t) ?in = ?t" "?in \<noteq> []" by simp_all
  have "(do { line \<leftarrow> wr line 0 (take (length ?t) ?in @ [NUL]); t \<leftarrow> cstr_at line 0; (n, dest, a) \<leftarrow> cstring_split t '':'' a; Some (line, n, dest, a) }) = Some (l, n, dest, a')"
    unfolding d(2) w(1) using w(2) sp(1) by simp
  note step = passwd_loop.simps [of name ?in line a, unfolded k Let_def this d(1)]
  show thesis
  proof (cases "n = 0")
    case True
    have "decisions a \<noteq> []" using sp(2) nw True by auto
    moreover have "passwd_loop name ?in line a = Some (Uid_died, a')" unfolding step using True d(3) by simp
    ultimately show thesis using that [OF l(2)] by blast
  next
    case False
    then have n: "n = 7" "list_all2 cs_fresh dest (butlast fs @ [last fs @ [CHR 0x0A]])" using sp(2) nw ws by simp_all
    have len: "length dest = 7" using n(2) fs(1) by (auto dest: list_all2_lengthD)
    have el: "cs_rep (dest ! i) (fs ! i)" if "i < 6" for i using list_all2_nthD [OF n(2), of i] that fs(1) len by (simp add: nth_append nth_butlast cs_fresh_def)
    have g: "get_at dest 0 = Some (dest ! 0)" "get_at dest 2 = Some (dest ! 2)" using len by (simp_all add: get_at_def)
    have eq: "cstring_equal name (dest ! 0) = Some (un = hd fs)" using cstring_equal_spec [OF assms(2) el [of 0]] fs(1) by (cases fs) auto
    have "cstr_at (cs_data (dest ! 2)) 0 = Some (fs ! 2)" using cs_rep_cstr_at [OF el [of 2]] by simp
    then have "passwd_loop name ?in line a = (if hd fs \<noteq> un then Some (Uid_found (Some (uid_of fs)), a') else passwd_loop name rest l a')"
      unfolding step using n(1) g eq d(3) fs(4) by auto
    then show thesis using that [OF l(2)] by blast
  qed
qed

lemma passwd_loop_spec:
  assumes "list_all passwd_ok es" "cs_rep name un" "length line = 1024"
  shows "\<exists>r a'. passwd_loop name (passwd_text es) line a = Some (r, a') \<and> (r = Uid_died \<or> r = Uid_found (map_option uid_of (find (\<lambda>e. hd e \<noteq> un) es)))"
  using assms(1,3)
proof (induction es arbitrary: line a)
  case Nil
  then show ?case by (subst passwd_loop.simps) (simp add: passwd_text_def)
next
  case (Cons fs es)
  have t: "passwd_text (fs # es) = (passwd_line fs @ [CHR 0x0A]) @ passwd_text es" by (simp add: passwd_text_def)
  have ok: "passwd_ok fs" using Cons.prems(1) by simp
  show ?case
  proof (rule passwd_step [OF ok assms(2) Cons.prems(2), of "passwd_text es" a])
    fix l a'
    assume l: "length l = 1024" "passwd_loop name ((passwd_line fs @ [CHR 0x0A]) @ passwd_text es) line a = Some (Uid_died, a') \<and> decisions a \<noteq> [] \<or>
      passwd_loop name ((passwd_line fs @ [CHR 0x0A]) @ passwd_text es) line a =
        (if hd fs \<noteq> un then Some (Uid_found (Some (uid_of fs)), a') else passwd_loop name (passwd_text es) l a')"
    show ?thesis unfolding t using l(2) Cons.IH [OF _ l(1), of a'] Cons.prems(1) by (auto split: if_splits)
  qed
qed

lemma passwd_first:
  assumes "passwd_ok e" "cs_rep name un" "length line = 1024" "hd e \<noteq> un" "decisions a = []"
  shows "\<exists>a'. passwd_loop name (passwd_text (e # es)) line a = Some (Uid_found (Some (uid_of e)), a')"
proof -
  have t: "passwd_text (e # es) = (passwd_line e @ [CHR 0x0A]) @ passwd_text es" by (simp add: passwd_text_def)
  show ?thesis unfolding t by (rule passwd_step [OF assms(1-3), of "passwd_text es" a]) (use assms(4,5) in auto)
qed

subsection \<open>Properties\<close>


definition sample_process :: "string \<Rightarrow> string \<Rightarrow> nat process" where
  "sample_process rdir un = \<lparr>pr_appname = cs_of ''app'', pr_rootdir = cs_of rdir, pr_username = cs_of un,
     pr_services = [\<lparr>sv_object = 1, sv_do_func = True, sv_undo_func = True, sv_tid = 0, sv_exitcode = - 1\<rparr>,
       \<lparr>sv_object = 2, sv_do_func = True, sv_undo_func = True, sv_tid = 0, sv_exitcode = - 1\<rparr>],
     pr_shutting_down = False, pr_sdt = 0\<rparr>"

definition sample_penv :: "(nat \<Rightarrow> bool) \<Rightarrow> (nat \<Rightarrow> nat option) \<Rightarrow> string \<Rightarrow> nat process_env" where
  "sample_penv acquires creates users = \<lparr>pe_fork = Fork_child, pe_do = acquires, pe_signals = True, pe_create_sdt = Some 9, pe_create = creates,
     pe_passwd = Some users, pe_chdir = True, pe_chroot = True, pe_setuid = True, pe_join_sdt = True, pe_join = (\<lambda>_. True)\<rparr>"

lemma sample_process_ok: "c_string rdir \<Longrightarrow> c_string un \<Longrightarrow> length rdir < 100 \<Longrightarrow> length un < 100 \<Longrightarrow> proc_ok (sample_process rdir un) rdir un"
  by (simp add: proc_ok_def sample_process_def MAX_SERVICES_def cs_rep_cs_of)


text \<open>
  C28. The user that a process gives itself. \<open>get_uid_from_etc_passwd\<close> takes the first entry of the file whose name is not the name it looks for: \<open>cstring_equal\<close> is true for equal strings, and the code
  tests for 0. So in every well-formed file it finds the number of another user, or of none. A process that is to run as any user but the one of the first line, which is \<open>root\<close>, is
  started with the number of the first line: when nothing fails its services are launched after \<open>setuid(0)\<close>.
\<close>
theorem process_wrong_user:
  assumes "list_all passwd_ok (e # es)" "pe_passwd env = Some (passwd_text (e # es))" "proc_ok this rdir un" "un \<noteq> []"
  shows "(\<exists>r a'. get_uid_from_etc_passwd env (pr_username this) a = Some (r, a') \<and>
      (r = Uid_died \<or> r = Uid_found (map_option uid_of (find (\<lambda>e. hd e \<noteq> un) (e # es))))) \<and>
    (hd e \<noteq> un \<and> decisions a = [] \<and> (\<forall>x. pe_do env x) \<and> pe_signals env \<and> pe_create_sdt env \<noteq> None \<and> pe_chdir env \<and> pe_chroot env \<and> pe_setuid env \<and>
      (\<forall>x. pe_create env x \<notin> {None, Some 0}) \<longrightarrow>
     (\<exists>this' a'. process_start env this False a = Some (Started success, map Do (holders (pr_services this)) @ [Start_shutdown_thread] @ root_events rdir @ [Setuid (uid_of e)] @
        map Launch (objects (pr_services this)), this', a')))"
proof (intro conjI impI; (elim conjE)?)
  have n: "cs_rep (pr_username this) un" using assms(3) by (simp add: proc_ok_def)
  have f: "length (fresh_bytes 1024 a) = 1024" by simp
  show "\<exists>r a'. get_uid_from_etc_passwd env (pr_username this) a = Some (r, a') \<and> (r = Uid_died \<or> r = Uid_found (map_option uid_of (find (\<lambda>e. hd e \<noteq> un) (e # es))))"
    unfolding get_uid_from_etc_passwd_def using passwd_loop_spec [OF assms(1) n f, of a] assms(2) by simp
  assume h: "hd e \<noteq> un" "decisions a = []" "\<forall>x. pe_do env x" "pe_signals env" "pe_create_sdt env \<noteq> None" "pe_chdir env" "pe_chroot env" "pe_setuid env" "\<forall>x. pe_create env x \<notin> {None, Some 0}"
  have c: "\<forall>x. pe_create env x \<noteq> Some 0" "\<forall>x. pe_create env x \<noteq> None" using h(9) by auto
  have e: "passwd_ok e" using assms(1) by simp
  obtain a' where U: "get_uid_from_etc_passwd env (pr_username this) a = Some (Uid_found (Some (uid_of e)), a')"
    unfolding get_uid_from_etc_passwd_def using passwd_first [OF e n f h(1,2), of es] assms(2) by auto
  obtain tr where D: "process_run_do_functions env this = (True, tr)" "tr = map Do (holders (pr_services this))"
    using do_functions_spec [OF assms(3), of env] h(3) by auto
  obtain t where T: "start_shutdown_thread env this = (True, [Start_shutdown_thread], this\<lparr>pr_sdt := t\<rparr>)" using start_sdt_spec [of env this] h(4,5) by auto
  let ?p = "this\<lparr>pr_sdt := t\<rparr>"
  have ok: "proc_ok ?p rdir un" "pr_services ?p = pr_services this" using assms(3) by (simp_all add: proc_ok_def)
  have C: "process_change_rootdir env ?p = Some (True, root_events rdir)" using change_rootdir_spec [OF ok(1), of env] h(6,7) by auto
  obtain this' where S: "process_start_services env ?p = Some (True, map Launch (objects (pr_services this)), this')"
    using start_services_spec [OF ok(1) c(1)] c(2) ok(2) by auto
  have "cstring_length (pr_username this) = Some (length un)" using n by (rule cstring_compare_spec(3))
  then show "\<exists>this' a'. process_start env this False a = Some (Started success, map Do (holders (pr_services this)) @ [Start_shutdown_thread] @ root_events rdir @ [Setuid (uid_of e)] @
        map Launch (objects (pr_services this)), this', a')" using D T U C S h(8) assms(4) by (simp add: process_start_def)
qed

definition root_entry :: "string list" where
  "root_entry = [''root'', ''x'', ''0'', ''0'', ''root'', ''/root'', ''/bin/sh'']"

theorem process_wrong_user_witness:
  "\<exists>this' a'. process_start (sample_penv (\<lambda>_. True) (\<lambda>_. Some 5) (passwd_text [root_entry])) (sample_process ''/srv'' ''www'') False no_oom =
     Some (Started success, [Do 1, Do 2, Start_shutdown_thread, Chdir ''/srv'', Chroot ''/srv'', Setuid 0, Launch 1, Launch 2], this', a')"
proof -
  let ?env = "sample_penv (\<lambda>_. True) (\<lambda>_. Some 5) (passwd_text [root_entry])" and ?p = "sample_process ''/srv'' ''www''"
  have t: "touint ''0'' = Inr 0" by (simp add: touint_def toulong_def strtoul_def strto_def split_sign_def skip_0x_def digit_of_def isspace_def isdigit_def islower_def isupper_def limit_defs)
  have u: "uid_of root_entry = 0" "hd root_entry = ''root''" using t by (simp_all add: uid_of_def root_entry_def numeral_2_eq_2)
  have e: "list_all passwd_ok [root_entry]" using t by (simp add: passwd_ok_def u(1) field_ok_def) (simp add: root_entry_def field_ok_def numeral_2_eq_2)
  have p: "proc_ok ?p ''/srv'' ''www''" "pe_passwd ?env = Some (passwd_text [root_entry])" by (simp_all add: sample_process_ok sample_penv_def)
  have h: "holders (pr_services ?p) = [1, 2]" "objects (pr_services ?p) = [1, 2]" by (simp_all add: sample_process_def)
  show ?thesis using process_wrong_user [OF e p(2,1), of no_oom, THEN conjunct2, rule_format] u h by (simp add: sample_penv_def no_oom_def root_events_def)
qed

end
