(* ===== verification/Http_Configure.thy ===== *)
theory Http_Configure
  imports Http_Server MetaProcess
begin

section \<open>Configuring a server\<close>

text \<open>
  \<open>http_server_configure\<close> of \<open>src/http/src/http_server.c\<close>: the settings of a server and of its process from a configuration file. The contents of the file and whether
  the user is \<open>root\<close> are arguments. The values are read first, into variables that hold what no file says; the server is changed when all of them could be read.
\<close>

subsection \<open>Reading the settings\<close>

text \<open>The idiom \<open>if (configfile_exists(cf, name) && !configfile_get_...(cf, name, &v)) goto readerr;\<close>\<close>

definition opt_int :: "configfile \<Rightarrow> char list \<Rightarrow> string \<Rightarrow> int \<Rightarrow> (status_t \<times> int) option" where
  "opt_int cf sz name v = do { there \<leftarrow> configfile_exists cf name; if there then configfile_get_int cf name sz v else Some (success, v) }"

definition opt_uint :: "configfile \<Rightarrow> char list \<Rightarrow> string \<Rightarrow> (status_t \<times> nat) option" where
  "opt_uint cf sz name = do { there \<leftarrow> configfile_exists cf name; if there then configfile_get_uint cf name sz 0 else Some (success, 0) }"

definition opt_uint16_t :: "configfile \<Rightarrow> char list \<Rightarrow> string \<Rightarrow> (status_t \<times> nat) option" where
  "opt_uint16_t cf sz name = do { there \<leftarrow> configfile_exists cf name; if there then configfile_get_uint16_t cf name sz 0 else Some (success, 0) }"

text \<open>An array of \<open>n\<close> zero bytes; the result is the text in it.\<close>

definition opt_string :: "configfile \<Rightarrow> nat \<Rightarrow> string \<Rightarrow> (status_t \<times> string) option" where
  "opt_string cf n name = do {
     there \<leftarrow> configfile_exists cf name;
     (ok, e, buf) \<leftarrow> (if there then configfile_get_string cf name (replicate n NUL) n else Some (success, E0, replicate n NUL));
     t \<leftarrow> cstr_at buf 0;
     Some (ok, t) }"

definition or_readerr :: "(status_t \<times> 'v) option \<Rightarrow> ('v \<Rightarrow> 'b option option) \<Rightarrow> 'b option option" where
  "or_readerr m k = do { (ok, v) \<leftarrow> m; if ok then k v else Some None }"

record settings =
  st_workers :: int
  st_queuesize :: int
  st_block_when_full :: int
  st_timeout_read :: nat
  st_timeout_write :: nat
  st_retries_read :: nat
  st_retries_write :: nat
  st_logrotate :: int
  st_username :: string
  st_rootdir :: string
  st_docroot :: string
  st_port :: nat
  st_hostname :: string
  st_logfile :: string

definition read_settings :: "configfile \<Rightarrow> char list \<Rightarrow> settings option option" where
  "read_settings cf sz =
     or_readerr (opt_int cf sz ''workers'' (- 1)) (\<lambda>workers.
     or_readerr (opt_int cf sz ''queuesize'' (- 1)) (\<lambda>queuesize.
     or_readerr (opt_int cf sz ''block_when_full'' (- 1)) (\<lambda>block_when_full.
     or_readerr (opt_uint cf sz ''timeout_read'') (\<lambda>timeout_read.
     or_readerr (opt_uint cf sz ''timeout_write'') (\<lambda>timeout_write.
     or_readerr (opt_uint cf sz ''retries_read'') (\<lambda>retries_read.
     or_readerr (opt_uint cf sz ''retries_write'') (\<lambda>retries_write.
     or_readerr (opt_int cf sz ''logrotate'' (- 1)) (\<lambda>logrotate.
     or_readerr (opt_string cf 1024 ''username'') (\<lambda>username.
     or_readerr (opt_string cf 1024 ''rootdir'') (\<lambda>rootdir.
     or_readerr (opt_string cf 10240 ''documentroot'') (\<lambda>docroot.
     or_readerr (opt_uint16_t cf sz ''port'') (\<lambda>port.
     or_readerr (opt_string cf 1024 ''hostname'') (\<lambda>hostname.
     or_readerr (opt_string cf 1024 ''logfile'') (\<lambda>logfile.
       Some (Some \<lparr>st_workers = workers, st_queuesize = queuesize, st_block_when_full = block_when_full, st_timeout_read = timeout_read,
         st_timeout_write = timeout_write, st_retries_read = retries_read, st_retries_write = retries_write, st_logrotate = logrotate,
         st_username = username, st_rootdir = rootdir, st_docroot = docroot, st_port = port, st_hostname = hostname, st_logfile = logfile\<rparr>)))))))))))))))"

subsection \<open>Applying them\<close>

text \<open>\<open>timeout_accept\<close> is 0 and never read. A negative \<open>int\<close> becomes a \<open>size_t\<close>.\<close>

definition int_to_size :: "int \<Rightarrow> size_t" where
  "int_to_size z = nat (z mod 2 ^ 64)"

definition apply_numbers :: "http_server \<Rightarrow> settings \<Rightarrow> http_server option" where
  "apply_numbers this s = do {
     let this = (if st_port s \<noteq> 0 then http_server_set_port this (of_nat (st_port s)) else this);
     let this = (if st_retries_read s \<noteq> 0 then http_server_set_retries_read this (st_retries_read s) else this);
     let this = (if st_retries_write s \<noteq> 0 then http_server_set_retries_write this (st_retries_write s) else this);
     this \<leftarrow> (if st_logrotate s \<noteq> - 1 then http_server_set_logrotate this (st_logrotate s) else Some this);
     let this = (if st_timeout_read s \<noteq> 0 then http_server_set_timeout_read this (st_timeout_read s) else this);
     let this = (if st_timeout_write s \<noteq> 0 then http_server_set_timeout_write this (st_timeout_write s) else this);
     let this = (if st_block_when_full s \<noteq> - 1 then http_server_set_block_when_full this (st_block_when_full s) else this);
     let this = (if st_queuesize s \<noteq> - 1 then http_server_set_queue_size this (int_to_size (st_queuesize s)) else this);
     Some (if st_workers s \<noteq> - 1 then http_server_set_worker_threads this (int_to_size (st_workers s)) else this) }"

definition apply_texts :: "http_server \<Rightarrow> settings \<Rightarrow> allocator \<Rightarrow> (status_t \<times> http_server \<times> allocator) option" where
  "apply_texts this s a = (
     let (ok, this, a) = (if st_hostname s \<noteq> [] then http_server_set_host this (st_hostname s) a else (success, this, a)) in
     if \<not> ok then Some (failure, this, a)
     else do {
       (ok, e, this) \<leftarrow> (if st_logfile s \<noteq> [] then http_server_set_logfile this (st_logfile s) else Some (success, E0, this));
       if \<not> ok then Some (failure, this, a)
       else do {
         (ok, e, this) \<leftarrow> (if st_docroot s \<noteq> [] then http_server_set_documentroot this (st_docroot s) else Some (success, E0, this));
         Some (ok, this, a) } })"

definition apply_process :: "bool \<Rightarrow> 'o process \<Rightarrow> settings \<Rightarrow> allocator \<Rightarrow> (status_t \<times> 'o process \<times> allocator) option" where
  "apply_process is_root p s a = do {
     (ok, p, a) \<leftarrow> (if st_username s \<noteq> [] \<and> is_root then process_set_username p (st_username s) a else Some (success, p, a));
     if \<not> ok then Some (failure, p, a)
     else if st_rootdir s \<noteq> [] \<and> is_root then process_set_rootdir p (st_rootdir s) a
     else Some (success, p, a) }"

definition http_server_configure :: "char list option \<Rightarrow> bool \<Rightarrow> http_server \<Rightarrow> 'o process option \<Rightarrow> allocator \<Rightarrow>
    (status_t \<times> http_server \<times> 'o process option \<times> allocator) option" where
  "http_server_configure file is_root this p a = do {
     (cf, a) \<leftarrow> configfile_read file a;
     (case cf of
        None \<Rightarrow> Some (failure, this, p, a)
      | Some cf \<Rightarrow> do {
          r \<leftarrow> read_settings cf (fresh_bytes 20 a);
          (case r of
             None \<Rightarrow> Some (failure, this, p, a)
           | Some s \<Rightarrow> do {
               this \<leftarrow> apply_numbers this s;
               (ok, this, a) \<leftarrow> apply_texts this s a;
               if \<not> ok then Some (failure, this, p, a)
               else (case p of
                   None \<Rightarrow> Some (success, this, None, a)
                 | Some p \<Rightarrow> do { (ok, p, a) \<leftarrow> apply_process is_root p s a; Some (ok, this, Some p, a) }) }) }) }"

subsection \<open>The settings a file describes\<close>

text \<open>A setting is what the file does not say, or the first value with the name when it can be taken; \<open>None\<close> when it cannot.\<close>

definition number_setting :: "(string \<times> string) list \<Rightarrow> string \<Rightarrow> int \<Rightarrow> int \<Rightarrow> int \<Rightarrow> int option" where
  "number_setting ds name lo hi v = (case map_of ds name of None \<Rightarrow> Some v | Some _ \<Rightarrow>
     (case config_number ds name of None \<Rightarrow> None | Some z \<Rightarrow> if lo \<le> z \<and> z \<le> hi then Some z else None))"

abbreviation int_setting :: "(string \<times> string) list \<Rightarrow> string \<Rightarrow> int option" where
  "int_setting ds name \<equiv> number_setting ds name INT_MIN INT_MAX (- 1)"

abbreviation uint_setting :: "(string \<times> string) list \<Rightarrow> string \<Rightarrow> nat option" where
  "uint_setting ds name \<equiv> map_option nat (number_setting ds name 0 (int UINT_MAX) 0)"

definition text_setting :: "(string \<times> string) list \<Rightarrow> string \<Rightarrow> nat \<Rightarrow> string option" where
  "text_setting ds name n = (case map_of ds name of None \<Rightarrow> Some [] | Some v \<Rightarrow> if length v < n then Some v else None)"

definition settings_of :: "(string \<times> string) list \<Rightarrow> settings option" where
  "settings_of ds = do {
     workers \<leftarrow> int_setting ds ''workers'';
     queuesize \<leftarrow> int_setting ds ''queuesize'';
     block_when_full \<leftarrow> int_setting ds ''block_when_full'';
     timeout_read \<leftarrow> uint_setting ds ''timeout_read'';
     timeout_write \<leftarrow> uint_setting ds ''timeout_write'';
     retries_read \<leftarrow> uint_setting ds ''retries_read'';
     retries_write \<leftarrow> uint_setting ds ''retries_write'';
     logrotate \<leftarrow> int_setting ds ''logrotate'';
     username \<leftarrow> text_setting ds ''username'' 1024;
     rootdir \<leftarrow> text_setting ds ''rootdir'' 1024;
     docroot \<leftarrow> text_setting ds ''documentroot'' 10240;
     port \<leftarrow> map_option nat (number_setting ds ''port'' 0 (int UINT16_MAX) 0);
     hostname \<leftarrow> text_setting ds ''hostname'' 1024;
     logfile \<leftarrow> text_setting ds ''logfile'' 1024;
     Some \<lparr>st_workers = workers, st_queuesize = queuesize, st_block_when_full = block_when_full, st_timeout_read = timeout_read,
       st_timeout_write = timeout_write, st_retries_read = retries_read, st_retries_write = retries_write, st_logrotate = logrotate,
       st_username = username, st_rootdir = rootdir, st_docroot = docroot, st_port = port, st_hostname = hostname, st_logfile = logfile\<rparr> }"

lemma exists_spec: "cf_rep cf ds \<Longrightarrow> configfile_exists cf name = Some (map_of ds name \<noteq> None)"
  using cf_find_spec [of cf ds name] by (simp add: configfile_exists_def)

lemma readerr_bind:
  assumes "\<And>v. x = Some v \<Longrightarrow> m = Some (success, v)" "x = None \<Longrightarrow> \<exists>w. m = Some (failure, w)" "\<And>v. k v = Some (g v)"
  shows "or_readerr m k = Some (Option.bind x g)"
  using assms by (cases x) (auto simp: or_readerr_def)

lemma opt_int_spec:
  assumes "cf_rep cf ds" "length sz = 20" "\<And>v. k v = Some (g v)"
  shows "or_readerr (opt_int cf sz name (- 1)) k = Some (Option.bind (int_setting ds name) g)"
  using exists_spec [OF assms(1)] numbers_spec [OF assms(1,2), of name "- 1" 0, THEN conjunct1]
  by (intro readerr_bind assms(3)) (auto simp: opt_int_def number_setting_def split: option.splits if_splits)

lemma opt_uint_spec:
  assumes "cf_rep cf ds" "length sz = 20" "\<And>v. k v = Some (g v)"
  shows "or_readerr (opt_uint cf sz name) k = Some (Option.bind (uint_setting ds name) g)"
  using exists_spec [OF assms(1)] numbers_spec [OF assms(1,2), of name "- 1" 0, THEN conjunct2, THEN conjunct1]
  by (intro readerr_bind assms(3)) (auto simp: opt_uint_def number_setting_def split: option.splits if_splits)

lemma opt_uint16_spec:
  assumes "cf_rep cf ds" "length sz = 20" "\<And>v. k v = Some (g v)"
  shows "or_readerr (opt_uint16_t cf sz name) k = Some (Option.bind (map_option nat (number_setting ds name 0 (int UINT16_MAX) 0)) g)"
  using exists_spec [OF assms(1)] numbers_spec [OF assms(1,2), of name "- 1" 0, THEN conjunct2, THEN conjunct2]
  by (intro readerr_bind assms(3)) (auto simp: opt_uint16_t_def number_setting_def split: option.splits if_splits)

lemma cstr_at_zeros: "0 < n \<Longrightarrow> cstr_at (replicate n NUL) 0 = Some []"
  by (cases n) (simp_all add: cstr_at_def)

lemma opt_string_spec:
  assumes "cf_rep cf ds" "1 < n" "\<And>v. k v = Some (g v)"
  shows "or_readerr (opt_string cf n name) k = Some (Option.bind (text_setting ds name n) g)"
proof (rule readerr_bind [OF _ _ assms(3)])
  have G: "configfile_get_string cf name (replicate n NUL) n = Some (case map_of ds name of
      None \<Rightarrow> (failure, ENOENT, replicate n NUL)
    | Some v \<Rightarrow> if length v \<ge> n then (failure, ENOSPC, replicate n NUL) else (success, E0, v @ NUL # drop (length v + 1) (replicate n NUL)))"
    using assms(2) by (intro get_string_spec [OF assms(1)]) simp_all
  have Z: "cstr_at (replicate n NUL) 0 = Some []" using assms(2) by (intro cstr_at_zeros) simp
  show "opt_string cf n name = Some (success, v)" if "text_setting ds name n = Some v" for v
    using that exists_spec [OF assms(1), of name] Z G map_of_c_string [OF assms(1), of name]
    by (auto simp: opt_string_def text_setting_def cstr_at_0 split: option.splits if_splits)
  show "\<exists>w. opt_string cf n name = Some (failure, w)" if "text_setting ds name n = None"
    using that exists_spec [OF assms(1), of name] Z G by (auto simp: opt_string_def text_setting_def split: option.splits if_splits)
qed

lemma read_settings_spec:
  assumes "cf_rep cf ds" "length sz = 20"
  shows "read_settings cf sz = Some (settings_of ds)"
  unfolding read_settings_def settings_of_def
  by (intro opt_int_spec [OF assms] opt_uint_spec [OF assms] opt_uint16_spec [OF assms] opt_string_spec [OF assms(1)] refl) simp_all

text \<open>What the numbers make of a server.\<close>

definition with_numbers :: "http_server \<Rightarrow> settings \<Rightarrow> http_server" where
  "with_numbers this s = this\<lparr>
     hs_port := if st_port s = 0 then hs_port this else of_nat (st_port s),
     hs_retries_read := if st_retries_read s = 0 then hs_retries_read this else st_retries_read s,
     hs_retries_write := if st_retries_write s = 0 then hs_retries_write this else st_retries_write s,
     hs_logrotate := if st_logrotate s = - 1 then hs_logrotate this else st_logrotate s,
     hs_timeout_read := if st_timeout_read s = 0 then hs_timeout_read this else st_timeout_read s,
     hs_timeout_write := if st_timeout_write s = 0 then hs_timeout_write this else st_timeout_write s,
     hs_block_when_full := if st_block_when_full s = - 1 then hs_block_when_full this else st_block_when_full s,
     hs_queue_size := if st_queuesize s = - 1 then hs_queue_size this else int_to_size (st_queuesize s),
     hs_worker_threads := if st_workers s = - 1 then hs_worker_threads this else int_to_size (st_workers s)\<rparr>"

lemma set_if:
  "(if c then http_server_set_port this n16 else this) = this\<lparr>hs_port := if c then n16 else hs_port this\<rparr>"
  "(if c then http_server_set_retries_read this n else this) = this\<lparr>hs_retries_read := if c then n else hs_retries_read this\<rparr>"
  "(if c then http_server_set_retries_write this n else this) = this\<lparr>hs_retries_write := if c then n else hs_retries_write this\<rparr>"
  "(if c then http_server_set_timeout_read this n else this) = this\<lparr>hs_timeout_read := if c then n else hs_timeout_read this\<rparr>"
  "(if c then http_server_set_timeout_write this n else this) = this\<lparr>hs_timeout_write := if c then n else hs_timeout_write this\<rparr>"
  "(if c then http_server_set_block_when_full this z else this) = this\<lparr>hs_block_when_full := if c then z else hs_block_when_full this\<rparr>"
  "(if c then http_server_set_queue_size this n else this) = this\<lparr>hs_queue_size := if c then n else hs_queue_size this\<rparr>"
  "(if c then http_server_set_worker_threads this n else this) = this\<lparr>hs_worker_threads := if c then n else hs_worker_threads this\<rparr>"
  "(if z \<noteq> - 1 then http_server_set_logrotate this z else Some this) =
     (if z < - 1 then None else Some (this\<lparr>hs_logrotate := if z \<noteq> - 1 then z else hs_logrotate this\<rparr>))"
  by (simp_all add: http_server_set_port_def http_server_set_retries_read_def http_server_set_retries_write_def http_server_set_logrotate_def
      http_server_set_timeout_read_def http_server_set_timeout_write_def http_server_set_block_when_full_def http_server_set_queue_size_def http_server_set_worker_threads_def)

lemma if_swap: "(if x \<noteq> y then p else q) = (if x = y then q else p)"
  by simp

lemma apply_numbers_spec: "apply_numbers this s = (if st_logrotate s < - 1 then None else Some (with_numbers this s))"
  unfolding apply_numbers_def with_numbers_def Let_def set_if unfolding if_swap by (cases "st_logrotate s < - 1") simp_all

definition stored :: "char list \<Rightarrow> string \<Rightarrow> char list" where
  "stored buf t = (if t = [] then buf else t @ NUL # drop (length t + 1) buf)"

definition with_texts :: "http_server \<Rightarrow> settings \<Rightarrow> http_server" where
  "with_texts this s = this\<lparr>
     hs_host := if st_hostname s = [] then hs_host this else Some (st_hostname s),
     hs_logfile_name := stored (hs_logfile_name this) (st_logfile s),
     hs_logging := hs_logging this \<or> st_logfile s \<noteq> [],
     hs_documentroot := stored (hs_documentroot this) (st_docroot s)\<rparr>"

lemma text_short: "text_setting ds name n = Some v \<Longrightarrow> 0 < n \<Longrightarrow> length v < n"
  by (auto simp: text_setting_def split: option.splits if_splits)

lemma settings_short: "settings_of ds = Some s \<Longrightarrow> length (st_hostname s) < 1024 \<and> length (st_logfile s) < 1024 \<and> length (st_docroot s) < 10240"
  unfolding settings_of_def bind_eq_Some_conv by (elim exE conjE) (auto dest: text_short)

lemma apply_texts_spec:
  assumes "length (st_hostname s) < 1024" "length (st_logfile s) < 1024" "length (st_docroot s) < 10240" "decisions a = []"
    "length (hs_documentroot this) = DOCUMENTROOT_MAX + 1" "length (hs_logfile_name this) = LOGFILE_MAX + 1" "hs_logfile this = Log_null"
  shows "apply_texts this s a = Some (success, with_texts this s, a)"
proof -
  let ?h = "this\<lparr>hs_host := if st_hostname s = [] then hs_host this else Some (st_hostname s)\<rparr>"
  let ?l = "?h\<lparr>hs_logfile_name := stored (hs_logfile_name this) (st_logfile s), hs_logging := hs_logging this \<or> st_logfile s \<noteq> []\<rparr>"
  have 1: "(if st_hostname s \<noteq> [] then http_server_set_host this (st_hostname s) a else (success, this, a)) = (success, ?h, a)"
    using assms(1,4) by (simp add: http_server_set_host_def try_alloc_def PTRDIFF_MAX_def)
  have 2: "(if st_logfile s \<noteq> [] then http_server_set_logfile ?h (st_logfile s) else Some (success, E0, ?h)) = Some (success, E0, ?l)"
    using assms(2,6,7) by (simp add: http_server_set_logfile_def stored_def wr_def LOGFILE_MAX_def)
  have 3: "(if st_docroot s \<noteq> [] then http_server_set_documentroot ?l (st_docroot s) else Some (success, E0, ?l)) = Some (success, E0, with_texts this s)"
    using assms(3,5) by (simp add: http_server_set_documentroot_def with_texts_def stored_def wr_def DOCUMENTROOT_MAX_def)
  show ?thesis unfolding apply_texts_def 1 by (simp add: 2 3)
qed



end
